(* ===== verification/Prelude.thy ===== *)
theory Prelude
  imports Main "HOL-Library.Word"
begin

text \<open>
  Shared vocabulary of the development: the C types the modelled code uses, the
  byte-string value functions against which the big-endian readers and writers are
  specified, and the word and list lemmas the component theories share.

  Conventions. A \<open>uint8_t\<close>, \<open>uint16_t\<close>, \<open>uint32_t\<close>, \<open>uint64_t\<close> is a word of that
  width. A \<open>size_t\<close> that only measures a list is a \<open>nat\<close>; wherever the code's arithmetic
  on it can wrap (the target is LP64, so 64 bits), the wrap is written out with
  \<open>mod SIZE_MOD\<close>. A memory block is the list of its bytes.
\<close>

unbundle bit_operations_syntax

type_synonym u8 = "8 word"
type_synonym u16 = "16 word"
type_synonym u32 = "32 word"
type_synonym u64 = "64 word"
type_synonym i64 = "64 word"

named_theorems bytes_simps "values of byte strings"
named_theorems reader_elims "what a successful read says of its input"

section \<open>Sizes\<close>

text \<open>\<open>SIZE_MAX + 1\<close> on the LP64 target.\<close>

definition SIZE_MOD :: nat where
  "SIZE_MOD = 2 ^ 64"

text \<open>\<open>INT_MAX\<close> and \<open>UINT_MAX\<close>: \<open>int\<close> has 32 bits on every target of the sources.\<close>

definition INT_MAX :: nat where
  "INT_MAX = 2147483647"

definition UINT_MAX :: nat where
  "UINT_MAX = 4294967295"

lemma SIZE_MOD_pos [simp]: "0 < SIZE_MOD"
  by (simp add: SIZE_MOD_def)

lemma SIZE_MOD_ge: "2 ^ 63 < SIZE_MOD"
  by (simp add: SIZE_MOD_def)

text \<open>
  The idiom \<open>newlen = a + b; if (newlen < a) overflow\<close>: the test is true exactly when the
  sum does not fit.
\<close>

lemma size_add_overflow:
  assumes "a < SIZE_MOD" "b < SIZE_MOD"
  shows "(a + b) mod SIZE_MOD < a \<longleftrightarrow> SIZE_MOD \<le> a + b"
proof (cases "a + b < SIZE_MOD")
  case True
  then show ?thesis by simp
next
  case False
  then have "(a + b) mod SIZE_MOD = a + b - SIZE_MOD"
    using assms by (simp add: mod_if)
  with False assms show ?thesis by linarith
qed

section \<open>Big-endian byte strings\<close>

text \<open>The number a byte string denotes, most significant byte first.\<close>

fun be_val :: "u8 list \<Rightarrow> nat" where
  "be_val [] = 0"
| "be_val (b # bs) = unat b * 256 ^ length bs + be_val bs"

text \<open>The \<open>n\<close> low-order bytes of a number, most significant first.\<close>

fun be_bytes :: "nat \<Rightarrow> nat \<Rightarrow> u8 list" where
  "be_bytes 0 v = []"
| "be_bytes (Suc n) v = be_bytes n (v div 256) @ [word_of_nat v]"

lemma unat_u8_less [simp]: "unat (b::u8) < 256"
  using unsigned_less [of b] by simp

lemma unat_u8_le [simp]: "unat (b::u8) \<le> 255"
  using unat_u8_less [of b] by linarith

lemma be_val_append [bytes_simps]: "be_val (xs @ ys) = be_val xs * 256 ^ length ys + be_val ys"
  by (induction xs) (auto simp: algebra_simps power_add)

lemma be_val_less: "be_val bs < 256 ^ length bs"
proof (induction bs rule: rev_induct)
  case Nil
  then show ?case by simp
next
  case (snoc b bs)
  then have "be_val bs + 1 \<le> 256 ^ length bs" by simp
  then have "(be_val bs + 1) * 256 \<le> 256 ^ length bs * 256"
    by (rule mult_right_mono) simp
  moreover have "be_val (bs @ [b]) < (be_val bs + 1) * 256"
    by (simp add: be_val_append)
  ultimately show ?case by simp
qed

lemma length_be_bytes [simp, bytes_simps]: "length (be_bytes n v) = n"
  by (induction n arbitrary: v) auto

lemma unat_of_nat_u8: "unat (word_of_nat v :: u8) = v mod 256"
  by (simp add: unsigned_of_nat take_bit_eq_mod)

lemma be_val_be_bytes [bytes_simps]: "be_val (be_bytes n v) = v mod 256 ^ n"
proof (induction n arbitrary: v)
  case 0
  then show ?case by simp
next
  case (Suc n)
  have "be_val (be_bytes (Suc n) v) = (v div 256 mod 256 ^ n) * 256 + v mod 256"
    by (simp add: be_val_append Suc.IH unat_of_nat_u8)
  also have "\<dots> = v mod (256 * 256 ^ n)"
    by (simp add: mod_mult2_eq mult.commute)
  finally show ?case by simp
qed

lemma be_bytes_be_val [bytes_simps]: "be_bytes (length bs) (be_val bs) = bs"
proof (induction bs rule: rev_induct)
  case Nil
  then show ?case by simp
next
  case (snoc b bs)
  have "(be_val bs * 256 + unat b) div 256 = be_val bs"
    using unat_u8_less [of b] by simp
  moreover have "word_of_nat (be_val bs * 256 + unat b) = b"
    by (simp only: word_unat_eq_iff unat_of_nat_u8) simp
  ultimately show ?case
    using snoc by (simp add: be_val_append)
qed

lemma be_bytes_add: "be_bytes (m + n) v = be_bytes m (v div 256 ^ n) @ be_bytes n v"
proof (induction n arbitrary: v)
  case 0
  then show ?case by simp
next
  case (Suc n)
  then show ?case by (simp add: div_mult2_eq mult.commute)
qed

lemma be_val_inject: "length xs = length ys \<Longrightarrow> be_val xs = be_val ys \<longleftrightarrow> xs = ys"
  by (metis be_bytes_be_val)

lemma be_val_zero_iff: "be_val bs = 0 \<longleftrightarrow> (\<forall>b \<in> set bs. b = 0)"
  by (induction bs) (auto simp: unat_eq_0)

lemma be_bytes_mod: "be_bytes n (v mod 256 ^ n) = be_bytes n v"
  by (metis be_bytes_be_val be_val_be_bytes length_be_bytes)

section \<open>Bit operations as arithmetic\<close>

lemma word_nat_eqI: "unat x = unat y \<Longrightarrow> x = y"
  by (rule word_unat_eq_iff [THEN iffD2])

lemma unat_push_or:
  fixes v w :: "'a::len word"
  assumes "unat v * 2 ^ k < 2 ^ LENGTH('a)" "unat w < 2 ^ k"
  shows "unat (push_bit k v OR w) = unat v * 2 ^ k + unat w"
proof -
  have w: "bit w n \<Longrightarrow> n < k" for n
  proof -
    assume "bit w n"
    then have "bit (unat w) n" by (simp add: bit_unsigned_iff)
    moreover have "take_bit k (unat w) = unat w" using assms(2) by (simp add: take_bit_nat_eq_self)
    ultimately show "n < k" by (metis bit_take_bit_iff)
  qed
  have "push_bit k v AND w = 0"
    by (rule bit_word_eqI) (auto simp: bit_push_bit_iff bit_and_iff dest: w)
  then have "push_bit k v OR w = push_bit k v + w"
    by (simp add: disjunctive_add_eq_or)
  moreover have "unat (push_bit k v) = unat v * 2 ^ k"
  proof -
    have "unat (push_bit k v) = take_bit LENGTH('a) (push_bit k (unat v))"
      by (rule unsigned_push_bit_eq)
    then show ?thesis using assms(1) by (simp add: push_bit_eq_mult take_bit_nat_eq_self)
  qed
  moreover have "unat v * 2 ^ k + unat w < 2 ^ LENGTH('a)"
  proof (cases "k < LENGTH('a)")
    case True
    have "unat v * 2 ^ k < 2 ^ (LENGTH('a) - k) * 2 ^ k"
      using assms(1) True by (simp flip: power_add)
    then have "unat v + 1 \<le> 2 ^ (LENGTH('a) - k)" by simp
    then have "(unat v + 1) * 2 ^ k \<le> 2 ^ (LENGTH('a) - k) * 2 ^ k"
      by (rule mult_right_mono) simp
    also have "\<dots> = 2 ^ LENGTH('a)" using True by (simp flip: power_add)
    finally show ?thesis using assms(2) by simp
  next
    case False
    then have "(2::nat) ^ LENGTH('a) \<le> 2 ^ k" by simp
    with assms(1) have "unat v = 0"
      by (metis One_nat_def Suc_leI le_less_trans linorder_not_less mult_le_mono1 nat_mult_1
          neq0_conv order_less_le_trans)
    moreover have "unat w < 2 ^ LENGTH('a)" by (rule unsigned_less)
    ultimately show ?thesis by simp
  qed
  ultimately show ?thesis by (simp add: unat_word_ariths)
qed

lemma unat_and_mask: "unat (w AND mask n) = unat w mod 2 ^ n"
proof -
  have "unat (w AND mask n) = unat (take_bit n w)" by (simp only: take_bit_eq_mask)
  also have "\<dots> = take_bit n (unat w)" by (rule unsigned_take_bit_eq)
  finally show ?thesis by (simp only: take_bit_eq_mod)
qed

lemma unat_and_7f: "unat (b AND 0x7f :: u8) = unat b mod 128"
  using unat_and_mask [of b 7] by (simp add: mask_eq_exp_minus_1)

lemma unat_and_1f: "unat (b AND 0x1f :: u8) = unat b mod 32"
  using unat_and_mask [of b 5] by (simp add: mask_eq_exp_minus_1)

lemma and_bit_zero: "w AND 2 ^ n = 0 \<longleftrightarrow> even (unat (w::'a::len word) div 2 ^ n)"
proof -
  have "bit (unat w) n = bit w n" by (simp add: bit_unsigned_iff)
  moreover have "bit (unat w) n = odd (unat w div 2 ^ n)" by (rule bit_iff_odd)
  ultimately show ?thesis unfolding and_exp_eq_0_iff_not_bit by blast
qed

lemma and_80_zero: "b AND 0x80 = 0 \<longleftrightarrow> unat (b::u8) < 128"
proof -
  have "unat b div 128 = 0 \<or> unat b div 128 = 1" using unat_u8_less [of b] by linarith
  then show ?thesis using and_bit_zero [of b 7] by auto
qed

lemma unat_drop_bit: "unat (drop_bit n (w::'a::len word)) = unat w div 2 ^ n"
proof -
  have "unat (drop_bit n w) = drop_bit n (unat w)" by (rule unat_drop_bit_eq)
  then show ?thesis by (simp only: drop_bit_eq_div)
qed

lemma drop_bit_zero: "drop_bit n (w::'a::len word) = 0 \<longleftrightarrow> unat w < 2 ^ n"
proof -
  have "drop_bit n w = 0 \<longleftrightarrow> unat (drop_bit n w) = 0" by (simp add: unsigned_eq_0_iff)
  also have "unat (drop_bit n w) = unat w div 2 ^ n" by (rule unat_drop_bit)
  finally show ?thesis by (simp add: div_eq_0_iff)
qed
section \<open>The shift-and-or accumulator\<close>

lemma unat_u64_less [simp]: "unat (r::u64) < 18446744073709551616"
proof -
  have "unat r < 2 ^ LENGTH(64)" by (rule unsigned_less)
  then show ?thesis by simp
qed

lemma unat_ucast_u8_u64 [simp]: "unat (ucast (b::u8) :: u64) = unat b"
proof -
  have "unat b < 18446744073709551616" using unat_u8_less [of b] by linarith
  then show ?thesis by (simp add: unsigned_ucast_eq take_bit_eq_mod)
qed

text \<open>The loop body \<open>result <<= 8; result |= b\<close> on a 64-bit accumulator.\<close>

lemma unat_shift_or:
  fixes r :: u64 and b :: u8
  shows "unat (push_bit 8 r OR ucast b) = (unat r * 256 + unat b) mod 2 ^ 64"
proof -
  have "push_bit 8 r AND (ucast b :: u64) = 0"
    by (rule bit_word_eqI) (auto simp: bit_simps dest: bit_imp_le_length)
  then have "push_bit 8 r OR (ucast b :: u64) = push_bit 8 r + ucast b"
    by (simp add: disjunctive_add_eq_or)
  moreover have "unat (push_bit 8 r + ucast b :: u64) = (unat r * 256 + unat b) mod 2 ^ 64"
    by (simp add: push_bit_eq_mult unat_word_ariths unsigned_ucast_eq take_bit_eq_mod
        unat_ucast_u8_u64 mod_simps mult.commute)
  ultimately show ?thesis by simp
qed

lemma unat_foldl_shift_or:
  "unat (foldl (\<lambda>r b. push_bit 8 r OR ucast (b::u8)) (r::u64) bs)
     = (unat r * 256 ^ length bs + be_val bs) mod 2 ^ 64"
proof (induction bs rule: rev_induct)
  case Nil
  then show ?case
    using unat_u64_less [of r] by simp
next
  case (snoc b bs)
  let ?v = "unat r * 256 ^ length bs + be_val bs"
  have "unat (foldl (\<lambda>r b. push_bit 8 r OR ucast (b::u8)) r (bs @ [b]))
      = (?v mod 2 ^ 64 * 256 + unat b) mod 2 ^ 64"
    by (simp add: unat_shift_or snoc)
  also have "\<dots> = (?v * 256 + unat b) mod 2 ^ 64"
    by (metis mod_add_left_eq mod_mult_left_eq)
  also have "?v * 256 + unat b = unat r * 256 ^ length (bs @ [b]) + be_val (bs @ [b])"
    by (simp add: be_val_append algebra_simps)
  finally show ?case .
qed

section \<open>Conversions between words and numbers\<close>

lemma unat_of_nat_u8_small: "n < 256 \<Longrightarrow> unat (word_of_nat n :: u8) = n"
  by (simp add: unat_of_nat_u8)

lemma u8_of_unat: "unat (b::u8) = n \<Longrightarrow> word_of_nat n = b"
  by auto

lemma u64_of_unat: "unat (b::u64) = n \<Longrightarrow> b = word_of_nat n"
  by auto

lemma of_nat_unat_u32: "word_of_nat (unat (x::u32)) = x"
  by simp

lemma unat_u32_less [simp]: "unat (r::u32) < 4294967296"
proof -
  have "unat r < 2 ^ LENGTH(32)" by (rule unsigned_less)
  then show ?thesis by simp
qed

lemma unat_word_of_nat_u64: "n < 2 ^ 64 \<Longrightarrow> unat (word_of_nat n :: u64) = n"
  by (simp add: unsigned_of_nat take_bit_eq_mod)

lemma unat_word_of_nat_u32: "n < 2 ^ 32 \<Longrightarrow> unat (word_of_nat n :: u32) = n"
  by (simp add: unsigned_of_nat take_bit_eq_mod)

section \<open>Lists\<close>

lemma take_length_le: "take n xs = xs \<longleftrightarrow> length xs \<le> n"
  by (metis length_take linorder_not_less min.absorb4 nat_less_le order_le_less take_all)

lemma nth_append_head [simp]: "length xs = n \<Longrightarrow> (xs @ y # ys) ! n = y"
  by (simp add: nth_append)

lemma last_byte: "xs \<noteq> [] \<Longrightarrow> xs ! (length xs - 1) = last xs"
  by (simp add: last_conv_nth)

text \<open>A loop that stores \<open>f i\<close> at index \<open>i\<close>, in order.\<close>

lemma fold_update:
  "n \<le> length u \<Longrightarrow> fold (\<lambda>i u. u[i := f i]) [0..<n] u = map f [0..<n] @ drop n u"
proof (induction n)
  case (Suc n)
  then have u: "drop n u = u ! n # drop (Suc n) u" by (simp add: Cons_nth_drop_Suc)
  from Suc show ?case by (simp add: u list_update_append)
qed simp

lemma map_rev_index: "map (\<lambda>i. xs ! (length xs - Suc i)) [0..<length xs] = rev xs"
  by (rule nth_equalityI) (simp_all add: rev_nth)

end
