(* ===== verification/Mem.thy ===== *)
theory Mem
  imports Prelude
begin

text \<open>
  \<^verbatim>\<open>crypto/mem.c\<close>: the allocation wrappers, the constant-time comparison, the FNV hash
  and the C-string helpers.

  \<open>malloc\<close> itself is not part of the sources. It is a parameter: a function from the
  requested size to \<open>None\<close> (it returned NULL) or to the bytes found in the fresh block,
  which are arbitrary. The documented behaviour the clients rely on is \<open>malloc_ok\<close>: no
  block is larger than \<open>PTRDIFF_MAX\<close>. A block the wrappers return is a record of the size
  word stored in front of it and of the bytes its owner may use.
\<close>

section \<open>Blocks\<close>

type_synonym allocator = "nat \<Rightarrow> (nat \<Rightarrow> u8) option"

definition malloc_ok :: "allocator \<Rightarrow> bool" where
  "malloc_ok m \<longleftrightarrow> (\<forall>n f. m n = Some f \<longrightarrow> n < 2 ^ 63)"

definition malloc :: "allocator \<Rightarrow> nat \<Rightarrow> u8 list option" where
  "malloc m n = map_option (\<lambda>f. map f [0..<n]) (m n)"

record block =
  blk_size :: nat
  blk_data :: "u8 list"

definition block_ok :: "block \<Rightarrow> bool" where
  "block_ok b \<longleftrightarrow> length (blk_data b) = blk_size b \<and> blk_size b + 8 < 2 ^ 63"

definition OPENSSL_MALLOC_PREFIX :: nat where
  "OPENSSL_MALLOC_PREFIX = 8"

definition OPENSSL_malloc :: "allocator \<Rightarrow> nat \<Rightarrow> block option" where
  "OPENSSL_malloc m sz =
     (case malloc m ((sz + OPENSSL_MALLOC_PREFIX) mod SIZE_MOD) of
        None \<Rightarrow> None
      | Some ptr \<Rightarrow>
          Some \<lparr>blk_size = sz, blk_data = drop OPENSSL_MALLOC_PREFIX ptr\<rparr>)"

text \<open>\<open>OPENSSL_cleanse(ptr, len)\<close> on the memory that starts at \<open>ptr\<close>.\<close>

definition OPENSSL_cleanse :: "u8 list \<Rightarrow> nat \<Rightarrow> u8 list" where
  "OPENSSL_cleanse ptr len = replicate len 0 @ drop len ptr"

text \<open>
  The whole block as \<open>malloc\<close> returned it: the size word, little-endian, then the bytes of
  the owner. \<open>OPENSSL_free\<close> gives the memory as it is handed to \<open>sdallocx\<close>; freeing NULL
  hands over nothing.
\<close>

definition raw_block :: "block \<Rightarrow> u8 list" where
  "raw_block b = rev (be_bytes OPENSSL_MALLOC_PREFIX (blk_size b)) @ blk_data b"

definition OPENSSL_free :: "block option \<Rightarrow> u8 list option" where
  "OPENSSL_free orig_ptr =
     (case orig_ptr of
        None \<Rightarrow> None
      | Some b \<Rightarrow> Some (OPENSSL_cleanse (raw_block b)
                     ((blk_size b + OPENSSL_MALLOC_PREFIX) mod SIZE_MOD)))"

definition OPENSSL_clear_free :: "block option \<Rightarrow> nat \<Rightarrow> u8 list option" where
  "OPENSSL_clear_free ptr unused = OPENSSL_free ptr"

text \<open>\<open>memcpy(dst, src, n)\<close> on the bytes of a block.\<close>

definition memcpy :: "u8 list \<Rightarrow> u8 list \<Rightarrow> nat \<Rightarrow> u8 list" where
  "memcpy dst src n = take n src @ drop n dst"

definition OPENSSL_realloc :: "allocator \<Rightarrow> block option \<Rightarrow> nat \<Rightarrow> block option" where
  "OPENSSL_realloc m orig_ptr new_size =
     (case orig_ptr of
        None \<Rightarrow> OPENSSL_malloc m new_size
      | Some old \<Rightarrow>
          (case OPENSSL_malloc m new_size of
             None \<Rightarrow> None
           | Some ret \<Rightarrow>
               let to_copy = (if blk_size old < new_size then blk_size old else new_size)
               in Some (ret\<lparr>blk_data := memcpy (blk_data ret) (blk_data old) to_copy\<rparr>)))"

definition OPENSSL_memdup :: "allocator \<Rightarrow> u8 list \<Rightarrow> nat \<Rightarrow> block option" where
  "OPENSSL_memdup m data sz =
     (if sz = 0 then None
      else case OPENSSL_malloc m sz of
             None \<Rightarrow> None
           | Some ret \<Rightarrow> Some (ret\<lparr>blk_data := memcpy (blk_data ret) data sz\<rparr>))"

section \<open>Comparison and hashing\<close>

text \<open>The accumulator of the constant-time comparison; the code returns it as an \<open>int\<close>.\<close>

definition CRYPTO_memcmp :: "u8 list \<Rightarrow> u8 list \<Rightarrow> nat \<Rightarrow> u8" where
  "CRYPTO_memcmp a b len =
     foldl (\<lambda>x i. x OR (a ! i XOR b ! i)) 0 [0..<len]"

definition OPENSSL_hash32 :: "u8 list \<Rightarrow> nat \<Rightarrow> u32" where
  "OPENSSL_hash32 inp len =
     foldl (\<lambda>h b. (h XOR ucast b) * 16777619) 2166136261 (take len inp)"

section \<open>C strings\<close>

text \<open>
  A \<open>const char *\<close> is the memory from that address to the end of its object. Reading past
  the end of the list is \<open>None\<close>: the code has no defined behaviour there.
\<close>

fun OPENSSL_strnlen :: "u8 list \<Rightarrow> nat \<Rightarrow> nat option" where
  "OPENSSL_strnlen s 0 = Some 0"
| "OPENSSL_strnlen [] (Suc n) = None"
| "OPENSSL_strnlen (c # s) (Suc n) =
     (if c = 0 then Some 0 else map_option Suc (OPENSSL_strnlen s n))"

fun strlen :: "u8 list \<Rightarrow> nat option" where
  "strlen [] = None"
| "strlen (c # s) = (if c = 0 then Some 0 else map_option Suc (strlen s))"

text \<open>
  \<open>OPENSSL_strdup\<close> and \<open>OPENSSL_strndup\<close>: the outer option is the read past the end, the
  inner one the NULL result. A NULL argument is \<open>None\<close>.
\<close>

definition OPENSSL_strdup :: "allocator \<Rightarrow> u8 list option \<Rightarrow> block option option" where
  "OPENSSL_strdup m str =
     (case str of
        None \<Rightarrow> Some None
      | Some s \<Rightarrow>
          (case strlen s of
             None \<Rightarrow> None
           | Some l \<Rightarrow>
               let len = (l + 1) mod SIZE_MOD in
               (case OPENSSL_malloc m len of
                  None \<Rightarrow> Some None
                | Some ret \<Rightarrow> Some (Some (ret\<lparr>blk_data := memcpy (blk_data ret) s len\<rparr>)))))"

definition OPENSSL_strndup :: "allocator \<Rightarrow> u8 list option \<Rightarrow> nat \<Rightarrow> block option option" where
  "OPENSSL_strndup m str size0 =
     (case str of
        None \<Rightarrow> Some None
      | Some s \<Rightarrow>
          (case OPENSSL_strnlen s size0 of
             None \<Rightarrow> None
           | Some sz \<Rightarrow>
               let alloc_size = (sz + 1) mod SIZE_MOD in
               if alloc_size < sz then Some None
               else (case OPENSSL_malloc m alloc_size of
                  None \<Rightarrow> Some None
                | Some ret \<Rightarrow>
                    Some (Some (ret\<lparr>blk_data := (memcpy (blk_data ret) s sz)[sz := 0]\<rparr>)))))"

text \<open>\<open>char\<close> is signed on the targets of the build, so \<open>a[i]\<close> is read with \<open>sint\<close>.\<close>

definition OPENSSL_tolower :: "int \<Rightarrow> int" where
  "OPENSSL_tolower c = (if 65 \<le> c \<and> c \<le> 90 then c + (97 - 65) else c)"

fun OPENSSL_strcasecmp :: "u8 list \<Rightarrow> u8 list \<Rightarrow> int option" where
  "OPENSSL_strcasecmp (a # as) (b # bs) =
     (let aa = OPENSSL_tolower (sint a); bb = OPENSSL_tolower (sint b) in
      if aa < bb then Some (-1)
      else if aa > bb then Some 1
      else if aa = 0 then Some 0
      else OPENSSL_strcasecmp as bs)"
| "OPENSSL_strcasecmp _ _ = None"

fun OPENSSL_strncasecmp :: "u8 list \<Rightarrow> u8 list \<Rightarrow> nat \<Rightarrow> int option" where
  "OPENSSL_strncasecmp _ _ 0 = Some 0"
| "OPENSSL_strncasecmp (a # as) (b # bs) (Suc n) =
     (let aa = OPENSSL_tolower (sint a); bb = OPENSSL_tolower (sint b) in
      if aa < bb then Some (-1)
      else if aa > bb then Some 1
      else if aa = 0 then Some 0
      else OPENSSL_strncasecmp as bs n)"
| "OPENSSL_strncasecmp _ _ (Suc n) = None"

text \<open>
  \<open>OPENSSL_strlcpy\<close> gives the memory at \<open>dst\<close> afterwards and the returned length. The
  recursion is the loop: \<open>dst\<close> and \<open>src\<close> advance together.
\<close>

fun OPENSSL_strlcpy :: "u8 list \<Rightarrow> u8 list \<Rightarrow> nat \<Rightarrow> (u8 list \<times> nat) option" where
  "OPENSSL_strlcpy dst src dst_size =
     (if dst_size > 1 then
        (case src of
           [] \<Rightarrow> None
         | c # src' \<Rightarrow>
             if c \<noteq> 0 then
               (case dst of
                  [] \<Rightarrow> None
                | d # dst' \<Rightarrow>
                    map_option (\<lambda>(mem, l). (c # mem, Suc l))
                      (OPENSSL_strlcpy dst' src' (dst_size - 1)))
             else if dst = [] then None
             else map_option (Pair (dst[0 := 0])) (strlen src))
      else if dst_size = 1 then
        (if dst = [] then None else map_option (Pair (dst[0 := 0])) (strlen src))
      else map_option (Pair dst) (strlen src))"

declare OPENSSL_strlcpy.simps [simp del]

fun OPENSSL_strlcat :: "u8 list \<Rightarrow> u8 list \<Rightarrow> nat \<Rightarrow> (u8 list \<times> nat) option" where
  "OPENSSL_strlcat [] src (Suc n) = None"
| "OPENSSL_strlcat (d # dst) src (Suc n) =
     (if d \<noteq> 0 then
        map_option (\<lambda>(mem, l). (d # mem, Suc l)) (OPENSSL_strlcat dst src n)
      else OPENSSL_strlcpy (d # dst) src (Suc n))"
| "OPENSSL_strlcat dst src 0 = OPENSSL_strlcpy dst src 0"


section \<open>Properties of the allocation wrappers\<close>

lemma length_malloc: "malloc m n = Some p \<Longrightarrow> length p = n"
  by (auto simp: malloc_def)

lemma OPENSSL_malloc_block:
  assumes "malloc_ok m" "sz + 8 < SIZE_MOD" "OPENSSL_malloc m sz = Some b"
  shows "block_ok b" "blk_size b = sz" "sz + 8 < 2 ^ 63"
  using assms length_malloc [of m "sz + 8"]
  by (auto simp: OPENSSL_malloc_def OPENSSL_MALLOC_PREFIX_def block_ok_def malloc_ok_def
      malloc_def split: option.splits)

text \<open>An allocator that never fails below \<open>PTRDIFF_MAX\<close>.\<close>

definition malloc_total :: "allocator \<Rightarrow> bool" where
  "malloc_total m \<longleftrightarrow> (\<forall>n < 2 ^ 63. m n \<noteq> None)"

lemma not_malloc_total: "m n = None \<Longrightarrow> n < 2 ^ 63 \<Longrightarrow> \<not> malloc_total m"
  by (auto simp: malloc_total_def)

lemma OPENSSL_malloc_None: "OPENSSL_malloc m sz = None \<Longrightarrow> sz < 2 ^ 62 \<Longrightarrow> \<not> malloc_total m"
  using not_malloc_total [of m "sz + 8"]
  by (auto simp: OPENSSL_malloc_def malloc_def OPENSSL_MALLOC_PREFIX_def SIZE_MOD_def split: option.splits)

lemma length_memcpy [simp]: "n \<le> length src \<Longrightarrow> n \<le> length dst \<Longrightarrow> length (memcpy dst src n) = length dst"
  by (simp add: memcpy_def)

lemma take_memcpy: "n \<le> length src \<Longrightarrow> n \<le> length dst \<Longrightarrow> take n (memcpy dst src n) = take n src"
  by (simp add: memcpy_def)

lemma OPENSSL_realloc_block:
  assumes "malloc_ok m" "sz + 8 < SIZE_MOD" "block_ok old"
    "OPENSSL_realloc m (Some old) sz = Some b"
  shows "block_ok b" "blk_size b = sz" "sz + 8 < 2 ^ 63"
    "take (min (blk_size old) sz) (blk_data b) = take (min (blk_size old) sz) (blk_data old)"
proof -
  obtain ret where ret: "OPENSSL_malloc m sz = Some ret"
    and b: "b = ret\<lparr>blk_data := memcpy (blk_data ret) (blk_data old) (min (blk_size old) sz)\<rparr>"
    using assms(4) by (auto simp: OPENSSL_realloc_def Let_def min_def split: option.splits if_splits)
  note r = OPENSSL_malloc_block [OF assms(1,2) ret]
  show "block_ok b" "blk_size b = sz" "sz + 8 < 2 ^ 63"
    "take (min (blk_size old) sz) (blk_data b) = take (min (blk_size old) sz) (blk_data old)"
    using r assms(3) by (auto simp: b block_ok_def take_memcpy)
qed

lemma OPENSSL_memdup_block:
  assumes "malloc_ok m" "sz + 8 < SIZE_MOD" "sz \<le> length data" "OPENSSL_memdup m data sz = Some b"
  shows "blk_size b = sz" "blk_data b = take sz data" "0 < sz"
proof -
  obtain ret where ret: "OPENSSL_malloc m sz = Some ret" "0 < sz"
    and b: "b = ret\<lparr>blk_data := memcpy (blk_data ret) data sz\<rparr>"
    using assms(4) by (auto simp: OPENSSL_memdup_def split: option.splits if_splits)
  note r = OPENSSL_malloc_block [OF assms(1,2) ret(1)]
  show "blk_size b = sz" "blk_data b = take sz data" "0 < sz"
    using r ret(2) assms(3) by (auto simp: b block_ok_def memcpy_def)
qed

lemma OPENSSL_free_zero:
  assumes "block_ok b"
  shows "OPENSSL_free (Some b) = Some (replicate (blk_size b + 8) 0)"
proof -
  have "(blk_size b + 8) mod SIZE_MOD = blk_size b + 8"
    using assms SIZE_MOD_ge by (intro mod_less) (simp add: block_ok_def)
  then show ?thesis
    using assms
    by (simp add: OPENSSL_free_def OPENSSL_cleanse_def raw_block_def OPENSSL_MALLOC_PREFIX_def
        block_ok_def)
qed

text \<open>
  \<open>OPENSSL_malloc\<close> adds the prefix without an overflow test: close to \<open>SIZE_MAX\<close> the sum
  wraps, a tiny block is requested and the caller gets fewer bytes than it asked for.
\<close>

lemma OPENSSL_malloc_wraps:
  assumes "SIZE_MOD \<le> sz + 8" "sz < SIZE_MOD" "OPENSSL_malloc m sz = Some b"
  shows "blk_size b = sz \<and> blk_data b = []"
proof -
  have "(sz + 8) mod SIZE_MOD = sz + 8 - SIZE_MOD"
    using assms(1,2) by (simp add: mod_if SIZE_MOD_def)
  moreover have "sz + 8 - SIZE_MOD < 8" using assms(2) by linarith
  ultimately show ?thesis
    using assms(3)
    by (auto simp: OPENSSL_malloc_def OPENSSL_MALLOC_PREFIX_def dest: length_malloc
        split: option.splits)
qed

section \<open>Properties of the comparison\<close>

lemma or_eq_0_u8: "(x::u8) OR y = 0 \<longleftrightarrow> x = 0 \<and> y = 0"
  by (rule or_eq_0_iff)

lemma xor_eq_0_u8: "(x::u8) XOR y = 0 \<longleftrightarrow> x = y"
  by (metis xor.assoc xor.left_neutral xor_self_eq)

lemma memcmp_fold_zero:
  "foldl (\<lambda>x i. x OR (a ! i XOR b ! i)) (x::u8) is = 0 \<longleftrightarrow> x = 0 \<and> (\<forall>i \<in> set is. a ! i = b ! i)"
  by (induction "is" arbitrary: x) (auto simp: or_eq_0_u8 xor_eq_0_u8)

lemma CRYPTO_memcmp_zero:
  assumes "len \<le> length a" "len \<le> length b"
  shows "CRYPTO_memcmp a b len = 0 \<longleftrightarrow> take len a = take len b"
  using assms by (auto simp: CRYPTO_memcmp_def memcmp_fold_zero list_eq_iff_nth_eq)

section \<open>Properties of the string helpers\<close>

text \<open>The bytes of a C string before its terminator.\<close>

definition c_str :: "u8 list \<Rightarrow> u8 list" where
  "c_str s = takeWhile (\<lambda>c. c \<noteq> 0) s"

lemma c_str_simps [simp]:
  "c_str [] = []" "c_str (c # s) = (if c = 0 then [] else c # c_str s)"
  by (simp_all add: c_str_def)

lemma strlen_c_str: "0 \<in> set s \<Longrightarrow> strlen s = Some (length (c_str s))"
  by (induction s) auto

lemma strlen_None_iff: "strlen s = None \<longleftrightarrow> 0 \<notin> set s"
  by (induction s) auto

lemma OPENSSL_strnlen_min:
  "n \<le> length s \<or> 0 \<in> set s \<Longrightarrow> OPENSSL_strnlen s n = Some (min n (length (c_str s)))"
  by (induction s n rule: OPENSSL_strnlen.induct) auto

lemma c_str_take: "c_str (take n s) = take n (c_str s)"
  by (induction s arbitrary: n) (auto simp: take_Cons split: nat.splits)

lemma take_c_str: "n \<le> length (c_str s) \<Longrightarrow> take n (c_str s) = take n s"
  by (induction s arbitrary: n) (auto simp: take_Cons split: nat.splits if_splits)

lemma length_c_str_le: "length (c_str s) \<le> length s"
  by (simp add: c_str_def length_takeWhile_le)

text \<open>Case folding, and what the comparison decides: equality of the folded strings.\<close>

definition fold_case :: "u8 list \<Rightarrow> int list" where
  "fold_case s = map (\<lambda>c. OPENSSL_tolower (sint c)) (c_str s)"

lemma sint_zero_iff: "sint (c::u8) = 0 \<longleftrightarrow> c = 0"
  by (rule signed_eq_0_iff)
lemma tolower_0 [simp]: "OPENSSL_tolower 0 = 0" by (simp add: OPENSSL_tolower_def)
lemma tolower_zero: "OPENSSL_tolower (sint (c::u8)) = 0 \<longleftrightarrow> c = 0"
  by (auto simp: OPENSSL_tolower_def sint_zero_iff)


lemma tolower_eq_zero: "OPENSSL_tolower (sint (a::u8)) = OPENSSL_tolower (sint (b::u8)) \<Longrightarrow> a = 0 \<longleftrightarrow> b = 0"
  by (metis tolower_zero)

lemma OPENSSL_strcasecmp_Cons:
  "OPENSSL_strcasecmp (a # as) (b # bs) =
     (if OPENSSL_tolower (sint a) < OPENSSL_tolower (sint b) then Some (-1)
      else if OPENSSL_tolower (sint a) > OPENSSL_tolower (sint b) then Some 1
      else if a = 0 then Some 0 else OPENSSL_strcasecmp as bs)"
  by (simp add: Let_def tolower_zero)

declare OPENSSL_strcasecmp.simps(1) [simp del]

lemma OPENSSL_strcasecmp_total:
  "0 \<in> set a \<Longrightarrow> 0 \<in> set b \<Longrightarrow> \<exists>r. OPENSSL_strcasecmp a b = Some r \<and> r \<in> {-1, 0, 1}"
proof (induction a arbitrary: b)
  case (Cons x as)
  then obtain y bs where b: "b = y # bs" by (cases b) auto
  have "x \<noteq> 0 \<and> y \<noteq> 0 \<or> x = 0 \<or> OPENSSL_tolower (sint x) \<noteq> OPENSSL_tolower (sint y)"
    using tolower_eq_zero [of x y] by blast
  with Cons show ?case by (auto simp: b OPENSSL_strcasecmp_Cons)
qed simp

lemma OPENSSL_strcasecmp_eq:
  "0 \<in> set a \<Longrightarrow> 0 \<in> set b \<Longrightarrow> OPENSSL_strcasecmp a b = Some 0 \<longleftrightarrow> fold_case a = fold_case b"
proof (induction a arbitrary: b)
  case (Cons x as)
  then obtain y bs where b: "b = y # bs" by (cases b) auto
  show ?case
  proof (cases "OPENSSL_tolower (sint x) = OPENSSL_tolower (sint y)")
    case True
    then have "x = 0 \<longleftrightarrow> y = 0" by (rule tolower_eq_zero)
    with True Cons show ?thesis by (auto simp: b OPENSSL_strcasecmp_Cons fold_case_def)
  next
    case False
    then show ?thesis by (auto simp: b OPENSSL_strcasecmp_Cons fold_case_def)
  qed
qed simp

lemma OPENSSL_strcasecmp_swap:
  "OPENSSL_strcasecmp b a = map_option uminus (OPENSSL_strcasecmp a b)"
proof (induction a arbitrary: b)
  case Nil
  then show ?case by (cases b) simp_all
next
  case (Cons x as)
  show ?case
  proof (cases b)
    case (Cons y bs)
    show ?thesis
      using Cons.IH [of bs] tolower_eq_zero [of x y] by (simp add: Cons OPENSSL_strcasecmp_Cons)
  qed simp
qed

lemma OPENSSL_strlcpy_spec:
  assumes "0 \<in> set src" "n \<le> length dst"
  shows "OPENSSL_strlcpy dst src n =
    Some (if n = 0 then dst
          else take (n - 1) (c_str src) @ 0 # drop (Suc (min (n - 1) (length (c_str src)))) dst,
          length (c_str src))"
  using assms
proof (induction n arbitrary: dst src)
  case 0
  then show ?case by (subst OPENSSL_strlcpy.simps) (simp add: strlen_c_str)
next
  case (Suc n)
  obtain c src' where src: "src = c # src'" using Suc.prems by (cases src) auto
  obtain d dst' where dst: "dst = d # dst'" using Suc.prems by (cases dst) auto
  show ?case
  proof (cases "0 < n \<and> c \<noteq> 0")
    case True
    then have "OPENSSL_strlcpy dst' src' n =
      Some (take (n - 1) (c_str src') @ 0 # drop (Suc (min (n - 1) (length (c_str src')))) dst',
        length (c_str src'))"
      using Suc by (simp add: src dst)
    with True show ?thesis
      by (subst OPENSSL_strlcpy.simps) (cases n; simp add: src dst)
  next
    case False
    then show ?thesis
      using Suc.prems by (subst OPENSSL_strlcpy.simps) (auto simp: src dst strlen_c_str)
  qed
qed

lemma OPENSSL_strlcpy_length:
  assumes "0 \<in> set src" "n \<le> length dst" "OPENSSL_strlcpy dst src n = Some (mem, l)"
  shows "length mem = length dst" "drop n mem = drop n dst"
proof -
  have "mem = dst \<or> 0 < n \<and> mem = take (n - 1) (c_str src) @ 0 # drop (Suc (min (n - 1) (length (c_str src)))) dst"
    using assms by (auto simp: OPENSSL_strlcpy_spec split: if_splits)
  then show "length mem = length dst" "drop n mem = drop n dst"
    using assms(2) by (auto simp: min_def drop_Cons' split: if_splits)
qed

lemma OPENSSL_strlcat_spec:
  "0 \<in> set (take n dst) \<Longrightarrow> OPENSSL_strlcat dst src n =
     map_option (\<lambda>(mem, l). (c_str dst @ mem, length (c_str dst) + l))
       (OPENSSL_strlcpy (drop (length (c_str dst)) dst) src (n - length (c_str dst)))"
  by (induction dst src n rule: OPENSSL_strlcat.induct) (auto simp: option.map_comp comp_def split_def option.map_ident)

end
