(* ===== verification/Cbs.thy ===== *)
theory Cbs
  imports Mem
begin

text \<open>
  \<^verbatim>\<open>crypto/bytestring/cbs.c\<close>: the byte-string reader and the DER/BER element parser
  (\<open>CBS_asn1_oid_to_text\<close>, which writes, is in theory \<open>Oid\<close>).

  A \<open>CBS\<close> (a pointer and a length) is the list of the bytes it spans. A function that
  returns 1 and sets its outputs gives \<open>Some\<close> of the outputs and of the advanced \<open>CBS\<close>; a
  function that returns 0 gives \<open>None\<close>. What a failed call leaves in its outputs is not
  modelled, since no caller in the sources looks at it.
\<close>

section \<open>Byte swaps (\<^verbatim>\<open>crypto/internal.h\<close>)\<close>

definition CRYPTO_bswap2 :: "u16 \<Rightarrow> u16" where
  "CRYPTO_bswap2 x = drop_bit 8 x OR push_bit 8 x"

definition CRYPTO_bswap4 :: "u32 \<Rightarrow> u32" where
  "CRYPTO_bswap4 x0 =
     (let x = drop_bit 16 x0 OR push_bit 16 x0
      in drop_bit 8 (x AND 0xff00ff00) OR push_bit 8 (x AND 0x00ff00ff))"

definition CRYPTO_bswap8 :: "u64 \<Rightarrow> u64" where
  "CRYPTO_bswap8 x =
     ucast (CRYPTO_bswap4 (ucast (drop_bit 32 x)))
       OR push_bit 32 (ucast (CRYPTO_bswap4 (ucast x)))"

section \<open>Basic reads\<close>

type_synonym cbs = "u8 list"

definition CBS_init :: "u8 list \<Rightarrow> nat \<Rightarrow> cbs" where
  "CBS_init data len = take len data"

definition cbs_get :: "cbs \<Rightarrow> nat \<Rightarrow> (u8 list \<times> cbs) option" where
  "cbs_get cbs n = (if length cbs < n then None else Some (take n cbs, drop n cbs))"

definition CBS_skip :: "cbs \<Rightarrow> nat \<Rightarrow> cbs option" where
  "CBS_skip cbs len = map_option snd (cbs_get cbs len)"

definition CBS_data :: "cbs \<Rightarrow> u8 list" where
  "CBS_data cbs = cbs"

definition CBS_len :: "cbs \<Rightarrow> nat" where
  "CBS_len cbs = length cbs"

text \<open>
  \<open>CBS_stow\<close> and \<open>CBS_strdup\<close>: the result, \<open>*out_ptr\<close> (and \<open>*out_len\<close>) afterwards, and the
  memory of the previous \<open>*out_ptr\<close>, which is freed first.
\<close>

definition CBS_stow ::
  "allocator \<Rightarrow> cbs \<Rightarrow> block option \<Rightarrow> bool \<times> block option \<times> nat \<times> u8 list option" where
  "CBS_stow m cbs out_ptr =
     (let freed = OPENSSL_free out_ptr in
      if length cbs = 0 then (True, None, 0, freed)
      else case OPENSSL_memdup m cbs (length cbs) of
             None \<Rightarrow> (False, None, 0, freed)
           | Some p \<Rightarrow> (True, Some p, length cbs, freed))"

definition CBS_strdup ::
  "allocator \<Rightarrow> cbs \<Rightarrow> block option \<Rightarrow> (bool \<times> block option \<times> u8 list option) option" where
  "CBS_strdup m cbs out_ptr =
     map_option (\<lambda>p. (p \<noteq> None, p, OPENSSL_free out_ptr))
       (OPENSSL_strndup m (Some cbs) (length cbs))"

definition CBS_contains_zero_byte :: "cbs \<Rightarrow> bool" where
  "CBS_contains_zero_byte cbs \<longleftrightarrow> List.member cbs 0"

definition CBS_mem_equal :: "cbs \<Rightarrow> u8 list \<Rightarrow> nat \<Rightarrow> bool" where
  "CBS_mem_equal cbs data len =
     (if len \<noteq> length cbs then False else CRYPTO_memcmp cbs data len = 0)"

definition cbs_get_u :: "cbs \<Rightarrow> nat \<Rightarrow> (u64 \<times> cbs) option" where
  "cbs_get_u cbs len =
     (case cbs_get cbs len of
        None \<Rightarrow> None
      | Some (data, cbs') \<Rightarrow>
          Some (foldl (\<lambda>result b. push_bit 8 result OR ucast b) 0 data, cbs'))"

definition CBS_get_u8 :: "cbs \<Rightarrow> (u8 \<times> cbs) option" where
  "CBS_get_u8 cbs =
     (case cbs_get cbs 1 of None \<Rightarrow> None | Some (v, cbs') \<Rightarrow> Some (v ! 0, cbs'))"

definition CBS_get_u16 :: "cbs \<Rightarrow> (u16 \<times> cbs) option" where
  "CBS_get_u16 cbs =
     (case cbs_get_u cbs 2 of None \<Rightarrow> None | Some (v, cbs') \<Rightarrow> Some (ucast v, cbs'))"

definition CBS_get_u16le :: "cbs \<Rightarrow> (u16 \<times> cbs) option" where
  "CBS_get_u16le cbs =
     (case CBS_get_u16 cbs of None \<Rightarrow> None | Some (v, cbs') \<Rightarrow> Some (CRYPTO_bswap2 v, cbs'))"

definition CBS_get_u24 :: "cbs \<Rightarrow> (u32 \<times> cbs) option" where
  "CBS_get_u24 cbs =
     (case cbs_get_u cbs 3 of None \<Rightarrow> None | Some (v, cbs') \<Rightarrow> Some (ucast v, cbs'))"

definition CBS_get_u32 :: "cbs \<Rightarrow> (u32 \<times> cbs) option" where
  "CBS_get_u32 cbs =
     (case cbs_get_u cbs 4 of None \<Rightarrow> None | Some (v, cbs') \<Rightarrow> Some (ucast v, cbs'))"

definition CBS_get_u32le :: "cbs \<Rightarrow> (u32 \<times> cbs) option" where
  "CBS_get_u32le cbs =
     (case CBS_get_u32 cbs of None \<Rightarrow> None | Some (v, cbs') \<Rightarrow> Some (CRYPTO_bswap4 v, cbs'))"

definition CBS_get_u64 :: "cbs \<Rightarrow> (u64 \<times> cbs) option" where
  "CBS_get_u64 cbs = cbs_get_u cbs 8"

definition CBS_get_u64le :: "cbs \<Rightarrow> (u64 \<times> cbs) option" where
  "CBS_get_u64le cbs =
     (case cbs_get_u cbs 8 of None \<Rightarrow> None | Some (v, cbs') \<Rightarrow> Some (CRYPTO_bswap8 v, cbs'))"

definition CBS_get_last_u8 :: "cbs \<Rightarrow> (u8 \<times> cbs) option" where
  "CBS_get_last_u8 cbs =
     (if length cbs = 0 then None
      else Some (cbs ! (length cbs - 1), take (length cbs - 1) cbs))"

definition CBS_get_bytes :: "cbs \<Rightarrow> nat \<Rightarrow> (cbs \<times> cbs) option" where
  "CBS_get_bytes cbs len =
     (case cbs_get cbs len of None \<Rightarrow> None | Some (v, cbs') \<Rightarrow> Some (CBS_init v len, cbs'))"

text \<open>\<open>out\<close> is the caller's memory; its first \<open>len\<close> bytes are overwritten.\<close>

definition CBS_copy_bytes :: "cbs \<Rightarrow> u8 list \<Rightarrow> nat \<Rightarrow> (u8 list \<times> cbs) option" where
  "CBS_copy_bytes cbs out len =
     (case cbs_get cbs len of None \<Rightarrow> None | Some (v, cbs') \<Rightarrow> Some (memcpy out v len, cbs'))"

definition cbs_get_length_prefixed :: "cbs \<Rightarrow> nat \<Rightarrow> (cbs \<times> cbs) option" where
  "cbs_get_length_prefixed cbs len_len =
     (case cbs_get_u cbs len_len of
        None \<Rightarrow> None
      | Some (len, cbs') \<Rightarrow> CBS_get_bytes cbs' (unat len))"

definition CBS_get_u8_length_prefixed :: "cbs \<Rightarrow> (cbs \<times> cbs) option" where
  "CBS_get_u8_length_prefixed cbs = cbs_get_length_prefixed cbs 1"

definition CBS_get_u16_length_prefixed :: "cbs \<Rightarrow> (cbs \<times> cbs) option" where
  "CBS_get_u16_length_prefixed cbs = cbs_get_length_prefixed cbs 2"

definition CBS_get_u24_length_prefixed :: "cbs \<Rightarrow> (cbs \<times> cbs) option" where
  "CBS_get_u24_length_prefixed cbs = cbs_get_length_prefixed cbs 3"

lemma CBS_get_u8_simps [simp]:
  "CBS_get_u8 [] = None" "CBS_get_u8 (b # cbs) = Some (b, cbs)"
  by (simp_all add: CBS_get_u8_def cbs_get_def)

lemma CBS_get_u8_Some [reader_elims]: "CBS_get_u8 cbs = Some (b, rest) \<longleftrightarrow> cbs = b # rest"
  by (cases cbs) auto

section \<open>Tags and elements\<close>

definition CBS_ASN1_TAG_SHIFT :: nat where
  "CBS_ASN1_TAG_SHIFT = 24"

definition CBS_ASN1_CONSTRUCTED :: u32 where
  "CBS_ASN1_CONSTRUCTED = push_bit CBS_ASN1_TAG_SHIFT 0x20"

definition CBS_ASN1_TAG_NUMBER_MASK :: u32 where
  "CBS_ASN1_TAG_NUMBER_MASK = push_bit (5 + CBS_ASN1_TAG_SHIFT) 1 - 1"

definition CBS_ASN1_BOOLEAN :: u32 where "CBS_ASN1_BOOLEAN = 0x1"
definition CBS_ASN1_INTEGER :: u32 where "CBS_ASN1_INTEGER = 0x2"
definition CBS_ASN1_BITSTRING :: u32 where "CBS_ASN1_BITSTRING = 0x3"
definition CBS_ASN1_OCTETSTRING :: u32 where "CBS_ASN1_OCTETSTRING = 0x4"
definition CBS_ASN1_UTF8STRING :: u32 where "CBS_ASN1_UTF8STRING = 0xc"
definition CBS_ASN1_NUMERICSTRING :: u32 where "CBS_ASN1_NUMERICSTRING = 0x12"
definition CBS_ASN1_PRINTABLESTRING :: u32 where "CBS_ASN1_PRINTABLESTRING = 0x13"
definition CBS_ASN1_T61STRING :: u32 where "CBS_ASN1_T61STRING = 0x14"
definition CBS_ASN1_VIDEOTEXSTRING :: u32 where "CBS_ASN1_VIDEOTEXSTRING = 0x15"
definition CBS_ASN1_IA5STRING :: u32 where "CBS_ASN1_IA5STRING = 0x16"
definition CBS_ASN1_GRAPHICSTRING :: u32 where "CBS_ASN1_GRAPHICSTRING = 0x19"
definition CBS_ASN1_VISIBLESTRING :: u32 where "CBS_ASN1_VISIBLESTRING = 0x1a"
definition CBS_ASN1_GENERALSTRING :: u32 where "CBS_ASN1_GENERALSTRING = 0x1b"
definition CBS_ASN1_UNIVERSALSTRING :: u32 where "CBS_ASN1_UNIVERSALSTRING = 0x1c"
definition CBS_ASN1_BMPSTRING :: u32 where "CBS_ASN1_BMPSTRING = 0x1e"

function parse_base128_loop :: "u64 \<Rightarrow> cbs \<Rightarrow> (u64 \<times> cbs) option" where
  "parse_base128_loop v cbs =
     (case CBS_get_u8 cbs of
        None \<Rightarrow> None
      | Some (b, cbs') \<Rightarrow>
          if drop_bit (64 - 7) v \<noteq> 0 then None
          else if v = 0 \<and> b = 0x80 then None
          else let v' = push_bit 7 v OR ucast (b AND 0x7f) in
            if b AND 0x80 \<noteq> 0 then parse_base128_loop v' cbs' else Some (v', cbs'))"
  by pat_completeness auto
termination
  by (relation "measure (\<lambda>(v, cbs). length cbs)") (auto simp: CBS_get_u8_Some)

declare parse_base128_loop.simps [simp del]

definition parse_base128_integer :: "cbs \<Rightarrow> (u64 \<times> cbs) option" where
  "parse_base128_integer cbs = parse_base128_loop 0 cbs"

definition parse_asn1_tag :: "cbs \<Rightarrow> (u32 \<times> cbs) option" where
  "parse_asn1_tag cbs =
     (case CBS_get_u8 cbs of
        None \<Rightarrow> None
      | Some (tag_byte, cbs1) \<Rightarrow>
          let tag = push_bit CBS_ASN1_TAG_SHIFT (ucast tag_byte AND 0xe0);
              tag_number = (ucast (tag_byte AND 0x1f) :: u32)
          in if tag_number = 0x1f then
               (case parse_base128_integer cbs1 of
                  None \<Rightarrow> None
                | Some (v, cbs2) \<Rightarrow>
                    if v > ucast CBS_ASN1_TAG_NUMBER_MASK \<or> v < 0x1f then None
                    else Some (tag OR ucast v, cbs2))
             else Some (tag OR tag_number, cbs1))"

text \<open>
  The outputs, in the order of the parameters: \<open>out\<close> (header included), \<open>*out_tag\<close>,
  \<open>*out_header_len\<close>; then the advanced \<open>cbs\<close>.
\<close>

definition cbs_get_any_asn1_element :: "cbs \<Rightarrow> bool \<Rightarrow> (cbs \<times> u32 \<times> nat \<times> cbs) option" where
  "cbs_get_any_asn1_element cbs ber_ok =
     (case parse_asn1_tag cbs of
        None \<Rightarrow> None
      | Some (tag, header1) \<Rightarrow>
     (case CBS_get_u8 header1 of
        None \<Rightarrow> None
      | Some (length_byte, header) \<Rightarrow>
          let header_len = CBS_len cbs - CBS_len header;
              get = (\<lambda>len hl. case CBS_get_bytes cbs len of
                       None \<Rightarrow> None
                     | Some (out, cbs') \<Rightarrow> Some (out, tag, hl, cbs'))
          in
          if length_byte AND 0x80 = 0 then
            get (unat length_byte + header_len) header_len
          else
            let num_bytes = unat (length_byte AND 0x7f) in
            if ber_ok \<and> tag AND CBS_ASN1_CONSTRUCTED \<noteq> 0 \<and> num_bytes = 0 then
              get header_len header_len
            else if num_bytes = 0 \<or> num_bytes > 4 then None
            else
              (case cbs_get_u header num_bytes of
                 None \<Rightarrow> None
               | Some (len64, _) \<Rightarrow>
                   if len64 < 128 then None
                   else if drop_bit ((num_bytes - 1) * 8) len64 = 0 then None
                   else
                     let len = unat len64 in
                     if (len + header_len + num_bytes) mod SIZE_MOD < len then None
                     else get ((len + header_len + num_bytes) mod SIZE_MOD)
                            (header_len + num_bytes))))"

definition CBS_get_any_asn1_element :: "cbs \<Rightarrow> (cbs \<times> u32 \<times> nat \<times> cbs) option" where
  "CBS_get_any_asn1_element cbs = cbs_get_any_asn1_element cbs False"

definition CBS_get_any_ber_asn1_element :: "cbs \<Rightarrow> (cbs \<times> u32 \<times> nat \<times> cbs) option" where
  "CBS_get_any_ber_asn1_element cbs = cbs_get_any_asn1_element cbs True"

definition CBS_get_any_asn1 :: "cbs \<Rightarrow> (cbs \<times> u32 \<times> cbs) option" where
  "CBS_get_any_asn1 cbs =
     (case CBS_get_any_asn1_element cbs of
        None \<Rightarrow> None
      | Some (out, tag, header_len, cbs') \<Rightarrow>
          (case CBS_skip out header_len of
             None \<Rightarrow> None
           | Some out' \<Rightarrow> Some (out', tag, cbs')))"

definition cbs_get_asn1 :: "cbs \<Rightarrow> u32 \<Rightarrow> bool \<Rightarrow> (cbs \<times> cbs) option" where
  "cbs_get_asn1 cbs tag_value skip_header =
     (case CBS_get_any_asn1_element cbs of
        None \<Rightarrow> None
      | Some (out, tag, header_len, cbs') \<Rightarrow>
          if tag \<noteq> tag_value then None
          else if skip_header then
            (case CBS_skip out header_len of
               None \<Rightarrow> None
             | Some out' \<Rightarrow> Some (out', cbs'))
          else Some (out, cbs'))"

definition CBS_get_asn1 :: "cbs \<Rightarrow> u32 \<Rightarrow> (cbs \<times> cbs) option" where
  "CBS_get_asn1 cbs tag_value = cbs_get_asn1 cbs tag_value True"

definition CBS_get_asn1_element :: "cbs \<Rightarrow> u32 \<Rightarrow> (cbs \<times> cbs) option" where
  "CBS_get_asn1_element cbs tag_value = cbs_get_asn1 cbs tag_value False"

definition CBS_peek_asn1_tag :: "cbs \<Rightarrow> u32 \<Rightarrow> bool" where
  "CBS_peek_asn1_tag cbs tag_value =
     (if CBS_len cbs < 1 then False
      else case parse_asn1_tag cbs of
             None \<Rightarrow> False
           | Some (actual_tag, _) \<Rightarrow> tag_value = actual_tag)"


section \<open>Typed elements\<close>

text \<open>The loop over the contents octets of \<open>CBS_get_asn1_uint64\<close>, on \<open>*out\<close>.\<close>

fun asn1_uint64_loop :: "u64 \<Rightarrow> u8 list \<Rightarrow> u64 option" where
  "asn1_uint64_loop out [] = Some out"
| "asn1_uint64_loop out (b # data) =
     (if drop_bit 56 out \<noteq> 0 then None
      else asn1_uint64_loop (push_bit 8 out OR ucast b) data)"

definition CBS_get_asn1_uint64 :: "cbs \<Rightarrow> (u64 \<times> cbs) option" where
  "CBS_get_asn1_uint64 cbs =
     (case CBS_get_asn1 cbs CBS_ASN1_INTEGER of
        None \<Rightarrow> None
      | Some (bytes, cbs') \<Rightarrow>
          let data = CBS_data bytes; len = CBS_len bytes in
          if len = 0 then None
          else if data ! 0 AND 0x80 \<noteq> 0 then None
          else if data ! 0 = 0 \<and> len > 1 \<and> data ! 1 AND 0x80 = 0 then None
          else map_option (\<lambda>out. (out, cbs')) (asn1_uint64_loop 0 data))"

text \<open>
  The union of an \<open>int64_t\<close> with its bytes, on the little-endian targets of the build. An
  \<open>int64_t\<close> is kept as its two's complement word; \<open>sint\<close> reads its value.
\<close>

definition i64_of_bytes :: "u8 list \<Rightarrow> i64" where
  "i64_of_bytes bs = word_of_nat (be_val (rev bs))"

definition CBS_get_asn1_int64 :: "cbs \<Rightarrow> (i64 \<times> cbs) option" where
  "CBS_get_asn1_int64 cbs =
     (case CBS_get_asn1 cbs CBS_ASN1_INTEGER of
        None \<Rightarrow> None
      | Some (bytes, cbs') \<Rightarrow>
          let data = CBS_data bytes; len = CBS_len bytes in
          if len = 0 \<or> len > 8 then None
          else if len > 1 \<and> data ! 0 = 0 \<and> data ! 1 AND 0x80 = 0 then None
          else if len > 1 \<and> data ! 0 = 0xff \<and> data ! 1 AND 0x80 \<noteq> 0 then None
          else
            let is_negative = (data ! 0 AND 0x80 \<noteq> 0);
                u0 = replicate 8 (if is_negative then 0xff else 0);
                u = fold (\<lambda>i u. u[i := data ! (len - i - 1)]) [0..<len] u0
            in Some (i64_of_bytes u, cbs'))"

text \<open>\<open>int\<close> outputs that are only ever 0 or 1 are booleans.\<close>

definition CBS_get_asn1_bool :: "cbs \<Rightarrow> (bool \<times> cbs) option" where
  "CBS_get_asn1_bool cbs =
     (case CBS_get_asn1 cbs CBS_ASN1_BOOLEAN of
        None \<Rightarrow> None
      | Some (bytes, cbs') \<Rightarrow>
          if CBS_len bytes \<noteq> 1 then None
          else let val = CBS_data bytes ! 0 in
            if val \<noteq> 0 \<and> val \<noteq> 0xff then None else Some (val \<noteq> 0, cbs'))"

text \<open>
  \<open>CBS_get_optional_asn1\<close>: \<open>None\<close> inside is \<open>*out_present = 0\<close>, where \<open>out\<close> is not set.
\<close>

definition CBS_get_optional_asn1 :: "cbs \<Rightarrow> u32 \<Rightarrow> (cbs option \<times> cbs) option" where
  "CBS_get_optional_asn1 cbs tag =
     (if CBS_peek_asn1_tag cbs tag then
        (case CBS_get_asn1 cbs tag of
           None \<Rightarrow> None
         | Some (out, cbs') \<Rightarrow> Some (Some out, cbs'))
      else Some (None, cbs))"

definition CBS_get_optional_asn1_octet_string :: "cbs \<Rightarrow> u32 \<Rightarrow> (cbs \<times> bool \<times> cbs) option" where
  "CBS_get_optional_asn1_octet_string cbs tag =
     (case CBS_get_optional_asn1 cbs tag of
        None \<Rightarrow> None
      | Some (Some child, cbs') \<Rightarrow>
          (case CBS_get_asn1 child CBS_ASN1_OCTETSTRING of
             None \<Rightarrow> None
           | Some (out, child') \<Rightarrow>
               if CBS_len child' \<noteq> 0 then None else Some (out, True, cbs'))
      | Some (None, cbs') \<Rightarrow> Some (CBS_init [] 0, False, cbs'))"

definition CBS_get_optional_asn1_uint64 :: "cbs \<Rightarrow> u32 \<Rightarrow> u64 \<Rightarrow> (u64 \<times> cbs) option" where
  "CBS_get_optional_asn1_uint64 cbs tag default_value =
     (case CBS_get_optional_asn1 cbs tag of
        None \<Rightarrow> None
      | Some (Some child, cbs') \<Rightarrow>
          (case CBS_get_asn1_uint64 child of
             None \<Rightarrow> None
           | Some (out, child') \<Rightarrow> if CBS_len child' \<noteq> 0 then None else Some (out, cbs'))
      | Some (None, cbs') \<Rightarrow> Some (default_value, cbs'))"

text \<open>Here \<open>default_value\<close> is returned as it is, so \<open>*out\<close> stays an \<open>int\<close>.\<close>

definition CBS_get_optional_asn1_bool :: "cbs \<Rightarrow> u32 \<Rightarrow> int \<Rightarrow> (int \<times> cbs) option" where
  "CBS_get_optional_asn1_bool cbs tag default_value =
     (case CBS_get_optional_asn1 cbs tag of
        None \<Rightarrow> None
      | Some (Some child, cbs') \<Rightarrow>
          (case CBS_get_asn1 child CBS_ASN1_BOOLEAN of
             None \<Rightarrow> None
           | Some (child2, child') \<Rightarrow>
               if CBS_len child2 \<noteq> 1 \<or> CBS_len child' \<noteq> 0 then None
               else let boolean = CBS_data child2 ! 0 in
                 if boolean = 0 then Some (0, cbs')
                 else if boolean = 0xff then Some (1, cbs')
                 else None)
      | Some (None, cbs') \<Rightarrow> Some (default_value, cbs'))"

section \<open>Bit strings\<close>

definition CBS_is_valid_asn1_bitstring :: "cbs \<Rightarrow> bool" where
  "CBS_is_valid_asn1_bitstring cbs =
     (case CBS_get_u8 cbs of
        None \<Rightarrow> False
      | Some (num_unused_bits, inp) \<Rightarrow>
          if num_unused_bits > 7 then False
          else if num_unused_bits = 0 then True
          else (case CBS_get_last_u8 inp of
                  None \<Rightarrow> False
                | Some (lst, _) \<Rightarrow>
                    (ucast lst :: u32) AND (push_bit (unat num_unused_bits) 1 - 1) = 0))"

definition CBS_asn1_bitstring_has_bit :: "cbs \<Rightarrow> u32 \<Rightarrow> bool" where
  "CBS_asn1_bitstring_has_bit cbs bit_no =
     (if \<not> CBS_is_valid_asn1_bitstring cbs then False
      else let byte_num = unat (drop_bit 3 bit_no + 1); bit_num = 7 - unat (bit_no AND 7) in
        byte_num < CBS_len cbs \<and>
        (ucast (CBS_data cbs ! byte_num) :: u32) AND push_bit bit_num 1 \<noteq> 0)"

end
