(* ===== verification/Cbb.thy ===== *)
theory Cbb
  imports Mem Cbs
begin

text \<open>
  \<^verbatim>\<open>crypto/bytestring/cbb.c\<close>: the byte-string builder.

  A \<open>CBB\<close> is an object with a pointer to the shared buffer, a pointer to its pending child
  and the place of its own length prefix. All live \<open>CBB\<close>s of one buffer form one chain: the
  top-level object, its child, the child's child, and so on. The state of the model is that
  buffer with the chain, and a \<open>CBB *\<close> is the position of the object in the chain:
  \<open>cbb->child\<close> is the next entry, \<open>NULL\<close> when there is none. An object whose \<open>base\<close> was
  cleared (a child after its parent was flushed) is a position past the end of the chain.

  An address inside the buffer is its index. \<open>realloc\<close> keeps the indices, so the pointers
  the code keeps as offsets need nothing else. The bounds of every access are part of the
  lemmas in the theory that specifies the operations.
\<close>

section \<open>The objects\<close>

record cbb_buffer_st =
  b_buf :: "u8 list"
  b_len :: nat
  b_cap :: nat
  b_can_resize :: bool
  b_error :: bool

record cbb_st =
  offset :: nat
  pending_len_len :: nat
  pending_is_asn1 :: bool
  is_child :: bool

record cbb_state =
  base :: "cbb_buffer_st option"
  chain :: "cbb_st list"

text \<open>A call returns its \<open>int\<close> result as a boolean, and the state it leaves.\<close>

type_synonym cbb_op = "cbb_state \<Rightarrow> bool \<times> cbb_state"

text \<open>\<open>if (!f(...) || !g(...)) return 0;\<close>\<close>

definition and_then :: "cbb_op \<Rightarrow> cbb_op \<Rightarrow> cbb_op" where
  "and_then f g st = (case f st of (ok, st') \<Rightarrow> if ok then g st' else (False, st'))"

section \<open>Creation and release\<close>

definition cbb_zero_st :: cbb_st where
  "cbb_zero_st = \<lparr>offset = 0, pending_len_len = 0, pending_is_asn1 = False, is_child = False\<rparr>"

definition CBB_zero :: cbb_state where
  "CBB_zero = \<lparr>base = None, chain = [cbb_zero_st]\<rparr>"

definition sizeof_cbb_buffer_st :: nat where
  "sizeof_cbb_buffer_st = 32"

definition cbb_init :: "allocator \<Rightarrow> cbb_state \<Rightarrow> u8 list \<Rightarrow> nat \<Rightarrow> bool \<times> cbb_state" where
  "cbb_init m st buf cap =
     (case OPENSSL_malloc m sizeof_cbb_buffer_st of
        None \<Rightarrow> (False, st)
      | Some _ \<Rightarrow>
          (True, st\<lparr>base := Some \<lparr>b_buf = buf, b_len = 0, b_cap = cap, b_can_resize = True,
                     b_error = False\<rparr>\<rparr>))"

text \<open>\<open>OPENSSL_malloc(0)\<close> may give NULL, which is then a buffer without bytes.\<close>

definition CBB_init :: "allocator \<Rightarrow> nat \<Rightarrow> bool \<times> cbb_state" where
  "CBB_init m initial_capacity =
     (let buf = OPENSSL_malloc m initial_capacity in
      if initial_capacity > 0 \<and> buf = None then (False, CBB_zero)
      else cbb_init m CBB_zero (case buf of None \<Rightarrow> [] | Some b \<Rightarrow> blk_data b) initial_capacity)"

definition CBB_init_fixed :: "allocator \<Rightarrow> u8 list \<Rightarrow> nat \<Rightarrow> bool \<times> cbb_state" where
  "CBB_init_fixed m buf len =
     (case cbb_init m CBB_zero buf len of
        (ok, st) \<Rightarrow>
          if \<not> ok then (False, st)
          else (True, st\<lparr>base := map_option (\<lambda>b. b\<lparr>b_can_resize := False\<rparr>) (base st)\<rparr>))"

text \<open>\<open>CBB_cleanup(&cbb)\<close> releases the buffer; it does nothing on a child.\<close>

definition CBB_cleanup :: "nat \<Rightarrow> cbb_state \<Rightarrow> cbb_state" where
  "CBB_cleanup i st =
     (if i < length (chain st) \<and> is_child (chain st ! i) then st else st\<lparr>base := None\<rparr>)"

section \<open>The buffer\<close>

text \<open>
  \<open>cbb_buffer_reserve\<close> gives \<open>*out\<close>, the index of the reserved space, or \<open>None\<close> for the
  result 0.
\<close>

definition cbb_buffer_reserve ::
    "allocator \<Rightarrow> cbb_buffer_st option \<Rightarrow> nat \<Rightarrow> nat option \<times> cbb_buffer_st option" where
  "cbb_buffer_reserve m ob len =
     (case ob of
        None \<Rightarrow> (None, None)
      | Some b \<Rightarrow>
          let newlen = (b_len b + len) mod SIZE_MOD; err = (None, Some (b\<lparr>b_error := True\<rparr>)) in
          if newlen < b_len b then err
          else if newlen > b_cap b then
            (let newcap0 = (b_cap b * 2) mod SIZE_MOD in
             if \<not> b_can_resize b then err
             else
               let newcap = (if newcap0 < b_cap b \<or> newcap0 < newlen then newlen else newcap0) in
               (case OPENSSL_realloc m (Some \<lparr>blk_size = b_cap b, blk_data = b_buf b\<rparr>) newcap of
                  None \<Rightarrow> err
                | Some newbuf \<Rightarrow>
                    (Some (b_len b), Some (b\<lparr>b_buf := blk_data newbuf, b_cap := newcap\<rparr>))))
          else (Some (b_len b), Some b))"

definition cbb_buffer_add ::
    "allocator \<Rightarrow> cbb_buffer_st option \<Rightarrow> nat \<Rightarrow> nat option \<times> cbb_buffer_st option" where
  "cbb_buffer_add m ob len =
     (case cbb_buffer_reserve m ob len of
        (None, ob') \<Rightarrow> (None, ob')
      | (Some out, ob') \<Rightarrow> (Some out, map_option (\<lambda>b. b\<lparr>b_len := b_len b + len\<rparr>) ob'))"

text \<open>
  The loop \<open>for (i = n - 1; i < n; i--) { buf[off + i] = v; v >>= 8; }\<close>; the second
  component is what is left of \<open>v\<close>.
\<close>

fun store_be :: "u8 list \<Rightarrow> nat \<Rightarrow> nat \<Rightarrow> u64 \<Rightarrow> u8 list \<times> u64" where
  "store_be buf off 0 v = (buf, v)"
| "store_be buf off (Suc i) v = store_be (buf[off + i := ucast v]) off i (drop_bit 8 v)"

definition cbb_buffer_add_u ::
    "allocator \<Rightarrow> cbb_buffer_st option \<Rightarrow> u64 \<Rightarrow> nat \<Rightarrow> bool \<times> cbb_buffer_st option" where
  "cbb_buffer_add_u m ob v len_len =
     (if len_len = 0 then (True, ob)
      else case cbb_buffer_add m ob len_len of
          (Some out, Some b) \<Rightarrow>
            (case store_be (b_buf b) out len_len v of
               (buf', v') \<Rightarrow>
                 if v' \<noteq> 0 then (False, Some (b\<lparr>b_buf := buf', b_error := True\<rparr>))
                 else (True, Some (b\<lparr>b_buf := buf'\<rparr>)))
        | (_, ob') \<Rightarrow> (False, ob'))"

text \<open>\<open>memset\<close> and \<open>memmove\<close> inside a buffer.\<close>

definition memset_at :: "u8 list \<Rightarrow> nat \<Rightarrow> u8 \<Rightarrow> nat \<Rightarrow> u8 list" where
  "memset_at buf dst c n = take dst buf @ replicate n c @ drop (dst + n) buf"

definition memcpy_at :: "u8 list \<Rightarrow> nat \<Rightarrow> u8 list \<Rightarrow> nat \<Rightarrow> u8 list" where
  "memcpy_at buf dst src n = take dst buf @ take n src @ drop (dst + n) buf"

definition memmove :: "u8 list \<Rightarrow> nat \<Rightarrow> nat \<Rightarrow> nat \<Rightarrow> u8 list" where
  "memmove buf dst src n = memcpy_at buf dst (drop src buf) n"

section \<open>Flushing\<close>

text \<open>
  The ASN.1 branch of \<open>CBB_flush\<close>: the length octet is written, after the contents were
  moved when more octets are needed. The result is \<open>len\<close> as the loop below will use it, the
  buffer and the child; \<open>None\<close> is \<open>goto err\<close>.
\<close>

definition flush_asn1 ::
    "allocator \<Rightarrow> cbb_buffer_st \<Rightarrow> cbb_st \<Rightarrow> nat \<Rightarrow> nat \<Rightarrow> nat option \<times> cbb_buffer_st \<times> cbb_st" where
  "flush_asn1 m b child child_start len =
     (if len > 0xfffffffe then (None, b, child)
      else
        let (len_len, initial_length_byte, len') =
              (if len > 0xffffff then (5, 0x80 OR 4, len)
               else if len > 0xffff then (4, 0x80 OR 3, len)
               else if len > 0xff then (3, 0x80 OR 2, len)
               else if len > 0x7f then (2, 0x80 OR 1, len)
               else (1::nat, word_of_nat len :: u8, 0));
            extra_bytes = len_len - 1;
            (out, b1) = (if len_len \<noteq> 1 then cbb_buffer_add m (Some b) extra_bytes
                         else (Some 0, Some b))
        in case (out, b1) of
             (Some _, Some b1) \<Rightarrow>
               let buf = (if len_len \<noteq> 1
                          then memmove (b_buf b1) (child_start + extra_bytes) child_start len'
                          else b_buf b1)
               in (Some len', b1\<lparr>b_buf := buf[offset child := initial_length_byte]\<rparr>,
                   child\<lparr>offset := offset child + 1, pending_len_len := len_len - 1\<rparr>)
           | (_, b1) \<Rightarrow> (None, case b1 of None \<Rightarrow> b | Some b' \<Rightarrow> b', child))"

text \<open>
  \<open>CBB_flush\<close> on the buffer and the descendants of \<open>cbb\<close> (its child first). The recursion
  is the recursive call on the child.
\<close>

fun cbb_flush :: "allocator \<Rightarrow> cbb_buffer_st \<Rightarrow> cbb_st list \<Rightarrow> bool \<times> cbb_buffer_st \<times> cbb_st list" where
  "cbb_flush m b [] = (\<not> b_error b, b, [])"
| "cbb_flush m b (child # rest) =
     (if b_error b then (False, b, child # rest)
      else if pending_len_len child = 0 then (True, b, child # rest)
      else
        let child_start = (offset child + pending_len_len child) mod SIZE_MOD in
        case cbb_flush m b rest of
          (ok, b1, rest1) \<Rightarrow>
            if \<not> ok \<or> child_start < offset child \<or> b_len b1 < child_start
            then (False, b1\<lparr>b_error := True\<rparr>, child # rest1)
            else
              let len = b_len b1 - child_start in
              case (if pending_is_asn1 child then flush_asn1 m b1 child child_start len
                    else (Some len, b1, child)) of
                (None, b2, child2) \<Rightarrow> (False, b2\<lparr>b_error := True\<rparr>, child2 # rest1)
              | (Some len2, b2, child2) \<Rightarrow>
                  (case store_be (b_buf b2) (offset child2) (pending_len_len child2)
                          (word_of_nat len2) of
                     (buf, len3) \<Rightarrow>
                       if len3 \<noteq> 0 then (False, b2\<lparr>b_buf := buf, b_error := True\<rparr>, child2 # rest1)
                       else (True, b2\<lparr>b_buf := buf\<rparr>, [])))"

definition CBB_flush :: "allocator \<Rightarrow> nat \<Rightarrow> cbb_op" where
  "CBB_flush m i st =
     (if length (chain st) \<le> i then (False, st)
      else case base st of
          None \<Rightarrow> (False, st)
        | Some b \<Rightarrow>
            (case cbb_flush m b (drop (Suc i) (chain st)) of
               (ok, b', desc) \<Rightarrow>
                 (ok, st\<lparr>base := Some b', chain := take (Suc i) (chain st) @ desc\<rparr>)))"

text \<open>
  \<open>CBB_finish\<close>: the flags say whether \<open>out_data\<close> and \<open>out_len\<close> were given. The result is
  the buffer and the length.
\<close>

definition CBB_finish ::
    "allocator \<Rightarrow> nat \<Rightarrow> bool \<Rightarrow> bool \<Rightarrow> cbb_state \<Rightarrow> (u8 list option \<times> nat option) option \<times> cbb_state" where
  "CBB_finish m i with_data with_len st =
     (if i < length (chain st) \<and> is_child (chain st ! i) then (None, st)
      else case CBB_flush m i st of
          (ok, st1) \<Rightarrow>
            if \<not> ok then (None, st1)
            else (case base st1 of
                None \<Rightarrow> (None, st1)
              | Some b \<Rightarrow>
                  if b_can_resize b \<and> (\<not> with_data \<or> \<not> with_len) then (None, st1)
                  else (Some (if with_data then Some (b_buf b) else None,
                              if with_len then Some (b_len b) else None),
                        CBB_cleanup i (st1\<lparr>base := Some (b\<lparr>b_buf := []\<rparr>)\<rparr>))))"

definition CBB_data :: "nat \<Rightarrow> cbb_state \<Rightarrow> u8 list" where
  "CBB_data i st =
     (case base st of
        None \<Rightarrow> []
      | Some b \<Rightarrow> drop (offset (chain st ! i) + pending_len_len (chain st ! i)) (b_buf b))"

definition CBB_len :: "nat \<Rightarrow> cbb_state \<Rightarrow> nat" where
  "CBB_len i st =
     (case base st of
        None \<Rightarrow> 0
      | Some b \<Rightarrow> b_len b - offset (chain st ! i) - pending_len_len (chain st ! i))"

section \<open>Children\<close>

text \<open>The part of the two functions below that follows a successful flush.\<close>

definition push_child :: "nat \<Rightarrow> cbb_st \<Rightarrow> cbb_state \<Rightarrow> cbb_state" where
  "push_child i child st = st\<lparr>chain := take (Suc i) (chain st) @ [child]\<rparr>"

definition cbb_add_length_prefixed :: "allocator \<Rightarrow> nat \<Rightarrow> nat \<Rightarrow> cbb_op" where
  "cbb_add_length_prefixed m i len_len =
     and_then (CBB_flush m i) (\<lambda>st.
       case cbb_buffer_add m (base st) len_len of
         (Some prefix_bytes, Some b) \<Rightarrow>
           (True, push_child i
              \<lparr>offset = (case base st of None \<Rightarrow> 0 | Some b0 \<Rightarrow> b_len b0), pending_len_len = len_len,
               pending_is_asn1 = False, is_child = True\<rparr>
              (st\<lparr>base := Some (b\<lparr>b_buf := memset_at (b_buf b) prefix_bytes 0 len_len\<rparr>)\<rparr>))
       | (_, ob) \<Rightarrow> (False, st\<lparr>base := ob\<rparr>))"

definition CBB_add_u8_length_prefixed :: "allocator \<Rightarrow> nat \<Rightarrow> cbb_op" where
  "CBB_add_u8_length_prefixed m i = cbb_add_length_prefixed m i 1"

definition CBB_add_u16_length_prefixed :: "allocator \<Rightarrow> nat \<Rightarrow> cbb_op" where
  "CBB_add_u16_length_prefixed m i = cbb_add_length_prefixed m i 2"

definition CBB_add_u24_length_prefixed :: "allocator \<Rightarrow> nat \<Rightarrow> cbb_op" where
  "CBB_add_u24_length_prefixed m i = cbb_add_length_prefixed m i 3"

section \<open>Integers and bytes\<close>

text \<open>\<open>CBB_flush(cbb)\<close>, then \<open>cbb_buffer_add_u(cbb->base, v, len_len)\<close>.\<close>

definition add_u :: "allocator \<Rightarrow> nat \<Rightarrow> u64 \<Rightarrow> nat \<Rightarrow> cbb_op" where
  "add_u m i v len_len =
     and_then (CBB_flush m i) (\<lambda>st.
       case cbb_buffer_add_u m (base st) v len_len of (ok, ob) \<Rightarrow> (ok, st\<lparr>base := ob\<rparr>))"

definition CBB_add_u8 :: "allocator \<Rightarrow> nat \<Rightarrow> u8 \<Rightarrow> cbb_op" where
  "CBB_add_u8 m i v = add_u m i (ucast v) 1"

definition CBB_add_u16 :: "allocator \<Rightarrow> nat \<Rightarrow> u16 \<Rightarrow> cbb_op" where
  "CBB_add_u16 m i v = add_u m i (ucast v) 2"

definition CBB_add_u16le :: "allocator \<Rightarrow> nat \<Rightarrow> u16 \<Rightarrow> cbb_op" where
  "CBB_add_u16le m i v = CBB_add_u16 m i (CRYPTO_bswap2 v)"

definition CBB_add_u24 :: "allocator \<Rightarrow> nat \<Rightarrow> u32 \<Rightarrow> cbb_op" where
  "CBB_add_u24 m i v = add_u m i (ucast v) 3"

definition CBB_add_u32 :: "allocator \<Rightarrow> nat \<Rightarrow> u32 \<Rightarrow> cbb_op" where
  "CBB_add_u32 m i v = add_u m i (ucast v) 4"

definition CBB_add_u32le :: "allocator \<Rightarrow> nat \<Rightarrow> u32 \<Rightarrow> cbb_op" where
  "CBB_add_u32le m i v = CBB_add_u32 m i (CRYPTO_bswap4 v)"

definition CBB_add_u64 :: "allocator \<Rightarrow> nat \<Rightarrow> u64 \<Rightarrow> cbb_op" where
  "CBB_add_u64 m i v = add_u m i v 8"

definition CBB_add_u64le :: "allocator \<Rightarrow> nat \<Rightarrow> u64 \<Rightarrow> cbb_op" where
  "CBB_add_u64le m i v = CBB_add_u64 m i (CRYPTO_bswap8 v)"

definition CBB_add_bytes :: "allocator \<Rightarrow> nat \<Rightarrow> u8 list \<Rightarrow> nat \<Rightarrow> cbb_op" where
  "CBB_add_bytes m i data len =
     and_then (CBB_flush m i) (\<lambda>st.
       case cbb_buffer_add m (base st) len of
         (Some dest, Some b) \<Rightarrow> (True, st\<lparr>base := Some (b\<lparr>b_buf := memcpy_at (b_buf b) dest data len\<rparr>)\<rparr>)
       | (_, ob) \<Rightarrow> (False, st\<lparr>base := ob\<rparr>))"

text \<open>The next two give \<open>*out_data\<close> as an index of the buffer.\<close>

definition CBB_add_space :: "allocator \<Rightarrow> nat \<Rightarrow> nat \<Rightarrow> cbb_state \<Rightarrow> nat option \<times> cbb_state" where
  "CBB_add_space m i len st =
     (case CBB_flush m i st of
        (ok, st1) \<Rightarrow>
          if \<not> ok then (None, st1)
          else (case cbb_buffer_add m (base st1) len of (out, ob) \<Rightarrow> (out, st1\<lparr>base := ob\<rparr>)))"

definition CBB_reserve :: "allocator \<Rightarrow> nat \<Rightarrow> nat \<Rightarrow> cbb_state \<Rightarrow> nat option \<times> cbb_state" where
  "CBB_reserve m i len st =
     (case CBB_flush m i st of
        (ok, st1) \<Rightarrow>
          if \<not> ok then (None, st1)
          else (case cbb_buffer_reserve m (base st1) len of (out, ob) \<Rightarrow> (out, st1\<lparr>base := ob\<rparr>)))"

definition CBB_did_write :: "nat \<Rightarrow> nat \<Rightarrow> cbb_op" where
  "CBB_did_write i len st =
     (case base st of
        None \<Rightarrow> (False, st)
      | Some b \<Rightarrow>
          let newlen = (b_len b + len) mod SIZE_MOD in
          if Suc i < length (chain st) \<or> newlen < b_len b \<or> newlen > b_cap b then (False, st)
          else (True, st\<lparr>base := Some (b\<lparr>b_len := newlen\<rparr>)\<rparr>))"

definition CBB_discard_child :: "nat \<Rightarrow> cbb_state \<Rightarrow> cbb_state" where
  "CBB_discard_child i st =
     (if length (chain st) \<le> Suc i then st
      else st\<lparr>base := map_option (\<lambda>b. b\<lparr>b_len := offset (chain st ! Suc i)\<rparr>) (base st),
              chain := take (Suc i) (chain st)\<rparr>)"

section \<open>ASN.1\<close>

text \<open>The first loop of \<open>add_base128_integer\<close>: the number of 7-bit groups.\<close>

function base128_len :: "u64 \<Rightarrow> nat" where
  "base128_len copy = (if copy > 0 then Suc (base128_len (drop_bit 7 copy)) else 0)"
  by pat_completeness auto
termination
  by (relation "measure unat") (auto simp: unat_drop_bit word_less_nat_alt)

declare base128_len.simps [simp del]

text \<open>The second loop, from \<open>i = n - 1\<close> down to 0.\<close>

fun base128_loop :: "allocator \<Rightarrow> nat \<Rightarrow> u64 \<Rightarrow> nat \<Rightarrow> cbb_op" where
  "base128_loop m h v 0 st = (True, st)"
| "base128_loop m h v (Suc i) st =
     (let byte = (ucast (drop_bit (7 * i) v) :: u8) AND 0x7f;
          byte' = (if i \<noteq> 0 then byte OR 0x80 else byte)
      in and_then (CBB_add_u8 m h byte') (base128_loop m h v i) st)"

definition add_base128_integer :: "allocator \<Rightarrow> nat \<Rightarrow> u64 \<Rightarrow> cbb_op" where
  "add_base128_integer m h v =
     (let len_len = base128_len v in base128_loop m h v (if len_len = 0 then 1 else len_len))"

definition CBB_add_asn1 :: "allocator \<Rightarrow> nat \<Rightarrow> u32 \<Rightarrow> cbb_op" where
  "CBB_add_asn1 m i tag =
     (let tag_bits = (ucast (drop_bit CBS_ASN1_TAG_SHIFT tag) :: u8) AND 0xe0;
          tag_number = tag AND CBS_ASN1_TAG_NUMBER_MASK
      in and_then (CBB_flush m i)
          (and_then
            (if tag_number \<ge> 0x1f
             then and_then (CBB_add_u8 m i (tag_bits OR 0x1f)) (add_base128_integer m i (ucast tag_number))
             else CBB_add_u8 m i (tag_bits OR ucast tag_number))
            (\<lambda>st. case CBB_add_u8 m i 0 st of
               (ok, st1) \<Rightarrow>
                 if \<not> ok then (False, st1)
                 else (True, push_child i
                        \<lparr>offset = (case base st of None \<Rightarrow> 0 | Some b \<Rightarrow> b_len b), pending_len_len = 1,
                         pending_is_asn1 = True, is_child = True\<rparr> st1))))"

text \<open>
  The loop of \<open>CBB_add_asn1_uint64\<close> over the bytes of the value, most significant first;
  \<open>child\<close> is the position of the child. The second result is \<open>started\<close>.
\<close>

fun add_uint64_loop :: "allocator \<Rightarrow> nat \<Rightarrow> bool \<Rightarrow> u8 list \<Rightarrow> cbb_state \<Rightarrow> bool \<times> bool \<times> cbb_state" where
  "add_uint64_loop m child started [] st = (True, started, st)"
| "add_uint64_loop m child started (byte # bytes) st =
     (if \<not> started \<and> byte = 0 then add_uint64_loop m child started bytes st
      else
        case (if \<not> started \<and> byte AND 0x80 \<noteq> 0 then CBB_add_u8 m child 0 st else (True, st)) of
          (ok, st1) \<Rightarrow>
            if \<not> ok then (False, started, st1)
            else (case CBB_add_u8 m child byte st1 of
                (ok2, st2) \<Rightarrow>
                  if \<not> ok2 then (False, True, st2)
                  else add_uint64_loop m child True bytes st2))"

definition CBB_add_asn1_uint64 :: "allocator \<Rightarrow> nat \<Rightarrow> u64 \<Rightarrow> cbb_op" where
  "CBB_add_asn1_uint64 m i v =
     and_then (CBB_add_asn1 m i CBS_ASN1_INTEGER) (\<lambda>st.
       case add_uint64_loop m (Suc i) False
              (map (\<lambda>k. ucast (drop_bit (8 * (7 - k)) v) AND 0xff) [0..<8]) st of
         (ok, started, st1) \<Rightarrow>
           if \<not> ok then (False, st1)
           else and_then (if \<not> started then CBB_add_u8 m (Suc i) 0 else Pair True) (CBB_flush m i) st1)"

text \<open>The bytes of an \<open>int64_t\<close> in memory, and the search for the first octet to encode.\<close>

definition i64_bytes :: "i64 \<Rightarrow> u8 list" where
  "i64_bytes v = rev (be_bytes 8 (unat v))"

fun int64_start :: "u8 list \<Rightarrow> nat \<Rightarrow> nat" where
  "int64_start bytes 0 = 0"
| "int64_start bytes (Suc s) =
     (if bytes ! Suc s = 0xff \<and> bytes ! s AND 0x80 \<noteq> 0 then int64_start bytes s else Suc s)"

text \<open>Writing \<open>bytes[n - 1]\<close> down to \<open>bytes[0]\<close>.\<close>

fun add_bytes_down :: "allocator \<Rightarrow> nat \<Rightarrow> u8 list \<Rightarrow> nat \<Rightarrow> cbb_op" where
  "add_bytes_down m child bytes 0 st = (True, st)"
| "add_bytes_down m child bytes (Suc i) st =
     and_then (CBB_add_u8 m child (bytes ! i)) (add_bytes_down m child bytes i) st"

definition CBB_add_asn1_int64 :: "allocator \<Rightarrow> nat \<Rightarrow> i64 \<Rightarrow> cbb_op" where
  "CBB_add_asn1_int64 m i v =
     (if sint v \<ge> 0 then CBB_add_asn1_uint64 m i v
      else
        let bytes = i64_bytes v; start = int64_start bytes 7 in
        and_then (CBB_add_asn1 m i CBS_ASN1_INTEGER)
          (and_then (add_bytes_down m (Suc i) bytes (start + 1)) (CBB_flush m i)))"

definition CBB_add_asn1_octet_string :: "allocator \<Rightarrow> nat \<Rightarrow> u8 list \<Rightarrow> nat \<Rightarrow> cbb_op" where
  "CBB_add_asn1_octet_string m i data data_len =
     and_then (CBB_add_asn1 m i CBS_ASN1_OCTETSTRING)
       (and_then (CBB_add_bytes m (Suc i) data data_len) (CBB_flush m i))"

definition CBB_add_asn1_bool :: "allocator \<Rightarrow> nat \<Rightarrow> int \<Rightarrow> cbb_op" where
  "CBB_add_asn1_bool m i v =
     and_then (CBB_add_asn1 m i CBS_ASN1_BOOLEAN)
       (and_then (CBB_add_u8 m (Suc i) (if v \<noteq> 0 then 0xff else 0)) (CBB_flush m i))"

end
