(* ===== verification/Reader.thy ===== *)
theory Reader
  imports Prelude
begin

text \<open>
  The contract of a byte-string reader: a function that takes the remaining input and gives
  \<open>None\<close> or a value and the input left. A reader is \<^emph>\<open>exact\<close> for an encoding when it succeeds
  with a value precisely on the inputs that start with the value's encoding. The integer
  readers, the base-128 and tag parsers, the DER element parser and the character readers
  are all shown to be exact in the theories that hold them; what every loop over such a
  reader does (read the whole input, or fail) is proved here once.
\<close>

section \<open>Reading until the input is used up\<close>

text \<open>
  The shape \<open>while (CBS_len(&cbs) != 0) { if (!get(&cbs, &x)) return 0; ... }\<close>. A read
  that does not shorten the input would make the loop run forever; it is given \<open>None\<close>, and
  the readers of the library never do that.
\<close>

function parse_all :: "('b list \<Rightarrow> ('a \<times> 'b list) option) \<Rightarrow> 'b list \<Rightarrow> 'a list option" where
  "parse_all get bs =
     (if bs = [] then Some []
      else case get bs of
             None \<Rightarrow> None
           | Some (x, rest) \<Rightarrow>
               if length rest < length bs then map_option ((#) x) (parse_all get rest)
               else None)"
  by pat_completeness auto
termination
  by (relation "measure (\<lambda>(get, bs). length bs)") auto

declare parse_all.simps [simp del]

lemma parse_all_Nil [simp]: "parse_all get [] = Some []"
  by (simp add: parse_all.simps)

section \<open>Exact readers\<close>

locale exact_reader =
  fixes get :: "'b list \<Rightarrow> ('a \<times> 'b list) option"
    and enc :: "'a \<Rightarrow> 'b list"
    and ok :: "'a \<Rightarrow> bool"
  assumes get_iff: "get bs = Some (x, rest) \<longleftrightarrow> ok x \<and> bs = enc x @ rest"
    and enc_nonempty: "ok x \<Longrightarrow> enc x \<noteq> []"
begin

lemma get_enc: "ok x \<Longrightarrow> get (enc x @ rest) = Some (x, rest)"
  by (simp add: get_iff)

lemma get_Nil: "get [] = None"
proof (cases "get []")
  case (Some p)
  then show ?thesis
    using enc_nonempty by (cases p) (auto simp: get_iff)
qed

lemma get_shorter: "get bs = Some (x, rest) \<Longrightarrow> length rest < length bs"
  using enc_nonempty by (auto simp: get_iff)

lemma get_None_iff: "get bs = None \<longleftrightarrow> (\<forall>x rest. ok x \<longrightarrow> bs \<noteq> enc x @ rest)"
proof
  assume "get bs = None"
  then show "\<forall>x rest. ok x \<longrightarrow> bs \<noteq> enc x @ rest" by (auto simp: get_enc)
next
  assume none: "\<forall>x rest. ok x \<longrightarrow> bs \<noteq> enc x @ rest"
  show "get bs = None"
  proof (rule ccontr)
    assume "get bs \<noteq> None"
    then obtain x rest where "get bs = Some (x, rest)" by auto
    then have "ok x" "bs = enc x @ rest" by (simp_all add: get_iff)
    with none show False by blast
  qed
qed

text \<open>Converting the value read, forth and back, keeps a reader exact.\<close>

lemma get_map_iff:
  assumes "\<And>x. g (f x) = x" "\<And>y. f (g y) = y"
  shows "(case get bs of None \<Rightarrow> None | Some (v, r) \<Rightarrow> Some (f v, r)) = Some (w, rest)
    \<longleftrightarrow> ok (g w) \<and> bs = enc (g w) @ rest"
proof -
  have "(case get bs of None \<Rightarrow> None | Some (v, r) \<Rightarrow> Some (f v, r)) = Some (w, rest)
      \<longleftrightarrow> get bs = Some (g w, rest)"
    using assms by (auto split: option.splits)
  then show ?thesis by (simp only: get_iff)
qed

text \<open>No encoding is a proper prefix of another one, so a value is read in one way only.\<close>

lemma enc_prefix_free:
  assumes "ok x" "ok y" "enc x @ r = enc y @ s"
  shows "x = y \<and> r = s"
proof -
  have "get (enc x @ r) = Some (x, r)" using assms(1) by (rule get_enc)
  moreover have "get (enc x @ r) = Some (y, s)" unfolding assms(3) using assms(2) by (rule get_enc)
  ultimately show ?thesis by (simp only: option.inject prod.inject)
qed

lemma enc_inj: "ok x \<Longrightarrow> ok y \<Longrightarrow> enc x = enc y \<longleftrightarrow> x = y"
  using enc_prefix_free [of x y "[]" "[]"] by auto

lemma get_append: "get bs = Some (x, rest) \<Longrightarrow> get (bs @ more) = Some (x, rest @ more)"
  by (auto simp: get_iff)

lemma parse_all_iff:
  "parse_all get bs = Some xs \<longleftrightarrow> (\<forall>x \<in> set xs. ok x) \<and> bs = concat (map enc xs)"
proof (induction xs arbitrary: bs)
  case Nil
  show ?case by (subst parse_all.simps) (auto split: option.splits if_splits)
next
  case (Cons x xs)
  show ?case
  proof
    assume all: "parse_all get bs = Some (x # xs)"
    then obtain rest where "get bs = Some (x, rest)" "parse_all get rest = Some xs"
      by (subst (asm) parse_all.simps) (auto split: option.splits if_splits)
    then show "(\<forall>x \<in> set (x # xs). ok x) \<and> bs = concat (map enc (x # xs))"
      using Cons.IH by (simp add: get_iff)
  next
    assume enc: "(\<forall>x \<in> set (x # xs). ok x) \<and> bs = concat (map enc (x # xs))"
    then have "get bs = Some (x, concat (map enc xs))" by (simp add: get_iff)
    moreover from this have "bs \<noteq> []" "length (concat (map enc xs)) < length bs"
      using get_Nil get_shorter by auto
    ultimately show "parse_all get bs = Some (x # xs)"
      using Cons.IH [of "concat (map enc xs)"] enc by (subst parse_all.simps) simp
  qed
qed

lemma concat_enc_inj:
  assumes "\<forall>x \<in> set xs. ok x" "\<forall>y \<in> set ys. ok y" "concat (map enc xs) = concat (map enc ys)"
  shows "xs = ys"
  using assms parse_all_iff by (metis option.inject)

lemma parse_all_length: "parse_all get bs = Some xs \<Longrightarrow> length xs \<le> length bs"
proof (induction xs arbitrary: bs)
  case (Cons x xs)
  then have ok: "ok x" and rest: "parse_all get (concat (map enc xs)) = Some xs"
    and bs: "bs = enc x @ concat (map enc xs)"
    by (simp_all add: parse_all_iff)
  have "1 \<le> length (enc x)" using enc_nonempty [OF ok] by (cases "enc x") auto
  with Cons.IH [OF rest] show ?case by (simp add: bs)
qed simp

end

end
