(* ===== verification/Cbs_Readers.thy ===== *)
theory Cbs_Readers
  imports Cbs Reader
begin

text \<open>
  What the basic reads of \<^verbatim>\<open>cbs.c\<close> do, and that each of them is an exact reader of its
  big-endian or little-endian encoding.
\<close>

section \<open>When a read succeeds\<close>

lemma cbs_get_Some [reader_elims]:
  "cbs_get cbs n = Some (p, rest) \<longleftrightarrow> cbs = p @ rest \<and> length p = n"
  by (auto simp: cbs_get_def min_def)

lemma CBS_get_bytes_Some [reader_elims]:
  "CBS_get_bytes cbs n = Some (p, rest) \<longleftrightarrow> cbs = p @ rest \<and> length p = n"
  by (auto simp: CBS_get_bytes_def CBS_init_def cbs_get_Some split: option.splits)
    (auto simp: cbs_get_def)

lemma CBS_skip_Some [reader_elims]: "CBS_skip cbs n = Some rest \<longleftrightarrow> n \<le> length cbs \<and> rest = drop n cbs"
  by (auto simp: CBS_skip_def cbs_get_def)

lemma cbs_get_u_Some [reader_elims]:
  assumes "n \<le> 8"
  shows "cbs_get_u cbs n = Some (v, rest) \<longleftrightarrow> cbs = be_bytes n (unat v) @ rest \<and> unat v < 256 ^ n"
proof
  assume "cbs_get_u cbs n = Some (v, rest)"
  then obtain p where p: "cbs = p @ rest" "length p = n"
    and v: "v = foldl (\<lambda>r b. push_bit 8 r OR ucast b) 0 p"
    by (auto simp: cbs_get_u_def cbs_get_Some split: option.splits)
  have "be_val p < 256 ^ n" using be_val_less [of p] p by simp
  also have "\<dots> \<le> 256 ^ 8" using assms by (intro power_increasing) simp_all
  finally have "unat v = be_val p"
    unfolding v unat_foldl_shift_or by simp
  then show "cbs = be_bytes n (unat v) @ rest \<and> unat v < 256 ^ n"
    using p be_val_less [of p] be_bytes_be_val [of p] by simp
next
  assume cbs: "cbs = be_bytes n (unat v) @ rest \<and> unat v < 256 ^ n"
  have "foldl (\<lambda>r b. push_bit 8 r OR ucast b) 0 (be_bytes n (unat v)) = v"
    by (rule word_nat_eqI) (unfold unat_foldl_shift_or be_val_be_bytes, use cbs in simp)
  then show "cbs_get_u cbs n = Some (v, rest)"
    using cbs by (simp add: cbs_get_u_def cbs_get_def)
qed


section \<open>Byte swaps reverse the bytes\<close>

lemma nth_be_bytes: "i < n \<Longrightarrow> be_bytes n v ! i = word_of_nat (v div 256 ^ (n - 1 - i))"
proof (induction n arbitrary: v)
  case (Suc n)
  show ?case
  proof (cases "i < n")
    case True
    then have "n - i = Suc (n - 1 - i)" by simp
    with True Suc.IH show ?thesis by (simp add: nth_append div_mult2_eq)
  next
    case False
    with Suc.prems show ?thesis by (simp add: nth_append less_Suc_eq)
  qed
qed simp

lemma bit_of_nat_u8: "j < 8 \<Longrightarrow> bit (word_of_nat n :: u8) j = bit n j"
proof -
  assume "j < 8"
  have "bit (word_of_nat n :: u8) j = bit (unat (word_of_nat n :: u8)) j"
    by (simp add: bit_unsigned_iff)
  also have "\<dots> = bit (take_bit 8 n) j" by (simp add: unsigned_of_nat)
  finally show ?thesis using \<open>j < 8\<close> by (simp add: bit_take_bit_iff)
qed

lemma bit_nth_be_bytes:
  assumes "i < n" "j < 8"
  shows "bit (be_bytes n (unat (w::'a::len word)) ! i) j = bit w (8 * (n - 1 - i) + j)"
proof -
  have "(256::nat) ^ k = 2 ^ (8 * k)" for k by (simp add: power_mult)
  then have "be_bytes n (unat w) ! i = word_of_nat (drop_bit (8 * (n - 1 - i)) (unat w))"
    using assms(1) by (simp add: nth_be_bytes drop_bit_eq_div)
  then show ?thesis
    using assms(2) by (simp add: bit_of_nat_u8 bit_drop_bit_eq bit_unsigned_iff)
qed

lemma be_bytes_reverse:
  assumes "\<And>k. k < 8 * n \<Longrightarrow> bit (u::'a::len word) k = bit (w::'b::len word) (8 * (n - 1 - k div 8) + k mod 8)"
  shows "be_bytes n (unat u) = rev (be_bytes n (unat w))"
proof (rule nth_equalityI)
  fix i assume i: "i < length (be_bytes n (unat u))"
  show "be_bytes n (unat u) ! i = rev (be_bytes n (unat w)) ! i"
  proof (rule bit_word_eqI)
    fix j assume "j < LENGTH(8)"
    then have j: "j < 8" by simp
    have k: "8 * (n - 1 - i) + j < 8 * n" using i j by simp
    have "n - 1 - (n - 1 - i) = i" "n - Suc i < n" using i by simp_all
    then show "bit (be_bytes n (unat u) ! i) j = bit (rev (be_bytes n (unat w)) ! i) j"
      using i j assms [OF k] by (simp add: bit_nth_be_bytes rev_nth)
  qed
qed simp


lemma bit_bswap2: "n < 16 \<Longrightarrow> bit (CRYPTO_bswap2 x) n = bit x (8 * (1 - n div 8) + n mod 8)"
proof -
  have hi: "\<not> bit x (numeral k)" if "16 \<le> (numeral k :: nat)" for k
    using that bit_imp_le_length [of x] by fastforce
  have "\<forall>n \<in> set [0..<16]. bit (CRYPTO_bswap2 x) n = bit x (8 * (1 - n div 8) + n mod 8)"
    by (simp add: upt_rec CRYPTO_bswap2_def Let_def bit_or_iff bit_drop_bit_eq bit_push_bit_iff hi)
      (simp add: numeral_eq_Suc)
  then show "n < 16 \<Longrightarrow> ?thesis" by simp
qed

lemma bit_bswap4: "n < 32 \<Longrightarrow> bit (CRYPTO_bswap4 x) n = bit x (8 * (3 - n div 8) + n mod 8)"
proof -
  have hi: "\<not> bit x (numeral k)" if "32 \<le> (numeral k :: nat)" for k
    using that bit_imp_le_length [of x] by fastforce
  have "\<forall>n \<in> set [0..<32]. bit (CRYPTO_bswap4 x) n = bit x (8 * (3 - n div 8) + n mod 8)"
    by (simp add: upt_rec CRYPTO_bswap4_def Let_def bit_or_iff bit_and_iff bit_drop_bit_eq
        bit_push_bit_iff hi) (simp add: numeral_eq_Suc)
  then show "n < 32 \<Longrightarrow> ?thesis" by simp
qed

lemma sub_32_div_8: "32 \<le> n \<Longrightarrow> (n - 32) div 8 = n div 8 - (4::nat)"
proof -
  assume "32 \<le> n"
  then have "n = (n - 32) + 4 * 8" by simp
  then have "n div 8 = (n - 32) div 8 + 4" by (metis div_mult_self1 add.commute zero_neq_numeral)
  then show ?thesis by simp
qed

lemma sub_32_mod_8: "32 \<le> n \<Longrightarrow> (n - 32) mod 8 = n mod (8::nat)"
proof -
  assume "32 \<le> n"
  then have "n = (n - 32) + 4 * 8" by simp
  then show ?thesis by (metis mod_mult_self1)
qed

lemma bit_bswap8: "n < 64 \<Longrightarrow> bit (CRYPTO_bswap8 x) n = bit x (8 * (7 - n div 8) + n mod 8)"
proof -
  assume n: "n < 64"
  have lo: "bit (ucast (CRYPTO_bswap4 (ucast (drop_bit 32 x))) :: u64) n =
      (n < 32 \<and> bit x (8 * (7 - n div 8) + n mod 8))"
  proof (cases "n < 32")
    case True
    then have lt: "8 * (3 - n div 8) + n mod 8 < 32" "n div 8 \<le> 3" by linarith+
    then have "32 + (8 * (3 - n div 8) + n mod 8) = 8 * (7 - n div 8) + n mod 8" by simp
    with True lt show ?thesis
      by (simp add: bit_unsigned_iff bit_bswap4 bit_drop_bit_eq flip: add.assoc)
  next
    case False
    then show ?thesis using bit_imp_le_length by (fastforce simp: bit_unsigned_iff)
  qed
  have hi: "bit (push_bit 32 (ucast (CRYPTO_bswap4 (ucast x))) :: u64) n =
      (32 \<le> n \<and> bit x (8 * (7 - n div 8) + n mod 8))"
  proof (cases "n < 32")
    case False
    then have k: "n - 32 < 32" using n by simp
    have d: "(n - 32) div 8 = n div 8 - 4" "(n - 32) mod 8 = n mod 8"
      using False by (simp_all add: sub_32_div_8 sub_32_mod_8)
    have "8 * (3 - (n div 8 - 4)) + n mod 8 < 32" "3 - (n div 8 - 4) = 7 - n div 8"
      using False n by linarith+
    then show ?thesis
      using False n k d by (simp add: bit_push_bit_iff bit_unsigned_iff bit_bswap4)
  qed (simp add: bit_push_bit_iff)
  show ?thesis
    unfolding CRYPTO_bswap8_def bit_or_iff lo hi by auto
qed


lemma be_bytes_bswap2: "be_bytes 2 (unat (CRYPTO_bswap2 x)) = rev (be_bytes 2 (unat x))"
  by (rule be_bytes_reverse) (simp add: bit_bswap2)

lemma be_bytes_bswap4: "be_bytes 4 (unat (CRYPTO_bswap4 x)) = rev (be_bytes 4 (unat x))"
  by (rule be_bytes_reverse) (simp add: bit_bswap4)

lemma be_bytes_bswap8: "be_bytes 8 (unat (CRYPTO_bswap8 x)) = rev (be_bytes 8 (unat x))"
  by (rule be_bytes_reverse) (simp add: bit_bswap8)

lemma be_bytes_inject_word:
  assumes "256 ^ n = (2::nat) ^ LENGTH('a)" "be_bytes n (unat (v::'a::len word)) = be_bytes n (unat w)"
  shows "v = w"
proof (rule word_nat_eqI)
  have "unat v mod 256 ^ n = unat w mod 256 ^ n"
    using assms(2) by (metis be_val_be_bytes)
  then show "unat v = unat w"
    unfolding assms(1) using unsigned_less [of v] unsigned_less [of w] by simp
qed

lemma bswap2_bswap2 [simp]: "CRYPTO_bswap2 (CRYPTO_bswap2 x) = x"
  by (rule be_bytes_inject_word [of 2]) (simp_all only: be_bytes_bswap2 rev_rev_ident, simp)

lemma bswap4_bswap4 [simp]: "CRYPTO_bswap4 (CRYPTO_bswap4 x) = x"
  by (rule be_bytes_inject_word [of 4]) (simp_all only: be_bytes_bswap4 rev_rev_ident, simp)

lemma bswap8_bswap8 [simp]: "CRYPTO_bswap8 (CRYPTO_bswap8 x) = x"
  by (rule be_bytes_inject_word [of 8]) (simp_all only: be_bytes_bswap8 rev_rev_ident, simp)

section \<open>The integer readers are exact\<close>

lemma unat_ucast_less: "unat v < 2 ^ LENGTH('b) \<Longrightarrow> unat (ucast (v::'a::len word) :: 'b::len word) = unat v"
proof -
  assume "unat v < 2 ^ LENGTH('b)"
  then have "take_bit LENGTH('b) (unat v) = unat v" by (simp add: take_bit_nat_eq_self)
  then show ?thesis by (simp only: unsigned_ucast_eq)
qed

lemma be_bytes_not_Nil: "0 < n \<Longrightarrow> be_bytes n v \<noteq> []"
  by (metis length_be_bytes length_0_conv less_numeral_extra(3))

lemma unat_u16_less [simp]: "unat (r::u16) < 65536"
proof -
  have "unat r < 2 ^ LENGTH(16)" by (rule unsigned_less)
  then show ?thesis by simp
qed

lemma cbs_get_u_ucast:
  assumes "n \<le> 8" "256 ^ n \<le> (2::nat) ^ LENGTH('a)" "LENGTH('a) \<le> 64"
  shows "(case cbs_get_u cbs n of None \<Rightarrow> None | Some (v, cbs') \<Rightarrow> Some (ucast v :: 'a::len word, cbs'))
      = Some (w, rest)
    \<longleftrightarrow> unat w < 256 ^ n \<and> cbs = be_bytes n (unat w) @ rest"
proof
  assume "(case cbs_get_u cbs n of None \<Rightarrow> None | Some (v, cbs') \<Rightarrow> Some (ucast v :: 'a word, cbs'))
      = Some (w, rest)"
  then obtain v where v: "cbs_get_u cbs n = Some (v, rest)" "w = ucast v"
    by (auto split: option.splits)
  then have "cbs = be_bytes n (unat v) @ rest" "unat v < 256 ^ n"
    using cbs_get_u_Some [OF assms(1)] by auto
  moreover from this(2) have "unat w = unat v"
    unfolding v(2) by (rule unat_ucast_less [OF order_less_le_trans]) (rule assms(2))
  ultimately show "unat w < 256 ^ n \<and> cbs = be_bytes n (unat w) @ rest" by simp
next
  assume w: "unat w < 256 ^ n \<and> cbs = be_bytes n (unat w) @ rest"
  have "unat w < 2 ^ LENGTH('a)" by (rule unsigned_less)
  also have "\<dots> \<le> (2::nat) ^ LENGTH(64)" using assms(3) by (intro power_increasing) simp_all
  finally have u: "unat (ucast w :: u64) = unat w" by (rule unat_ucast_less)
  have "cbs_get_u cbs n = Some (ucast w, rest)"
    using w unfolding cbs_get_u_Some [OF assms(1)] u by simp
  moreover have "(ucast (ucast w :: u64) :: 'a word) = w"
    by (rule word_nat_eqI) (metis u unat_ucast_less unsigned_less)
  ultimately show "(case cbs_get_u cbs n of None \<Rightarrow> None | Some (v, cbs') \<Rightarrow> Some (ucast v :: 'a word, cbs'))
      = Some (w, rest)" by simp
qed

interpretation u8: exact_reader CBS_get_u8 "\<lambda>v. [v]" "\<lambda>_. True"
  by unfold_locales (auto simp: CBS_get_u8_Some)

interpretation u16: exact_reader CBS_get_u16 "\<lambda>v. be_bytes 2 (unat v)" "\<lambda>_. True"
proof unfold_locales
  show "CBS_get_u16 bs = Some (x, rest) \<longleftrightarrow> True \<and> bs = be_bytes 2 (unat x) @ rest" for bs x rest
    using cbs_get_u_ucast [of 2 bs x rest] unat_u16_less [of x] by (simp add: CBS_get_u16_def)
qed (simp add: be_bytes_not_Nil)

interpretation u24: exact_reader CBS_get_u24 "\<lambda>v. be_bytes 3 (unat v)" "\<lambda>v. unat v < 2 ^ 24"
proof unfold_locales
  show "CBS_get_u24 bs = Some (x, rest) \<longleftrightarrow> unat x < 2 ^ 24 \<and> bs = be_bytes 3 (unat x) @ rest"
    for bs x rest
    using cbs_get_u_ucast [of 3 bs x rest] by (simp add: CBS_get_u24_def)
qed (simp add: be_bytes_not_Nil)

interpretation u32: exact_reader CBS_get_u32 "\<lambda>v. be_bytes 4 (unat v)" "\<lambda>_. True"
proof unfold_locales
  show "CBS_get_u32 bs = Some (x, rest) \<longleftrightarrow> True \<and> bs = be_bytes 4 (unat x) @ rest" for bs x rest
    using cbs_get_u_ucast [of 4 bs x rest] unat_u32_less [of x] by (simp add: CBS_get_u32_def)
qed (simp add: be_bytes_not_Nil)

interpretation u64: exact_reader CBS_get_u64 "\<lambda>v. be_bytes 8 (unat v)" "\<lambda>_. True"
proof unfold_locales
  show "CBS_get_u64 bs = Some (x, rest) \<longleftrightarrow> True \<and> bs = be_bytes 8 (unat x) @ rest" for bs x rest
    using cbs_get_u_Some [of 8 bs x rest] unat_u64_less [of x] by (simp add: CBS_get_u64_def)
qed (simp add: be_bytes_not_Nil)


text \<open>The little-endian readers: the same octets, reversed.\<close>

interpretation u16le: exact_reader CBS_get_u16le "\<lambda>v. rev (be_bytes 2 (unat v))" "\<lambda>_. True"
proof unfold_locales
  show "CBS_get_u16le bs = Some (x, rest) \<longleftrightarrow> True \<and> bs = rev (be_bytes 2 (unat x)) @ rest" for bs x rest
    using u16.get_map_iff [of CRYPTO_bswap2 CRYPTO_bswap2 bs x rest]
    by (simp add: CBS_get_u16le_def be_bytes_bswap2)
qed (simp add: be_bytes_not_Nil)

interpretation u32le: exact_reader CBS_get_u32le "\<lambda>v. rev (be_bytes 4 (unat v))" "\<lambda>_. True"
proof unfold_locales
  show "CBS_get_u32le bs = Some (x, rest) \<longleftrightarrow> True \<and> bs = rev (be_bytes 4 (unat x)) @ rest" for bs x rest
    using u32.get_map_iff [of CRYPTO_bswap4 CRYPTO_bswap4 bs x rest]
    by (simp add: CBS_get_u32le_def be_bytes_bswap4)
qed (simp add: be_bytes_not_Nil)

interpretation u64le: exact_reader CBS_get_u64le "\<lambda>v. rev (be_bytes 8 (unat v))" "\<lambda>_. True"
proof unfold_locales
  show "CBS_get_u64le bs = Some (x, rest) \<longleftrightarrow> True \<and> bs = rev (be_bytes 8 (unat x)) @ rest" for bs x rest
    using u64.get_map_iff [of CRYPTO_bswap8 CRYPTO_bswap8 bs x rest]
    by (simp add: CBS_get_u64le_def be_bytes_bswap8 CBS_get_u64_def)
qed (simp add: be_bytes_not_Nil)

end
