(* ===== verification/Der.thy ===== *)
theory Der
  imports Cbs_Readers
begin

text \<open>
  The specification of DER headers (X.690: identifier octets, length octets, base-128
  integers) and the proof that the parsers of \<^verbatim>\<open>cbs.c\<close> accept exactly the encodings it
  describes. Nothing here is code: \<open>base128\<close>, \<open>der_tag\<close>, \<open>der_len\<close> and \<open>der\<close> say
  which octets encode a value; the reader lemmas say that a parse succeeds with a value if
  and only if the input starts with the octets of that value.
\<close>

section \<open>Base-128 integers\<close>

text \<open>The leading octets, each with the high bit set, of the digits of a number.\<close>

fun base128_cont :: "nat \<Rightarrow> u8 list" where
  "base128_cont n =
     (if n = 0 then [] else base128_cont (n div 128) @ [word_of_nat (128 + n mod 128)])"

declare base128_cont.simps [simp del]

definition base128 :: "nat \<Rightarrow> u8 list" where
  "base128 n = base128_cont (n div 128) @ [word_of_nat (n mod 128)]"

lemma base128_cont_0 [simp]: "base128_cont 0 = []"
  by (simp add: base128_cont.simps)

lemma base128_cont_snoc:
  "0 < v * 128 + d \<Longrightarrow> d < 128 \<Longrightarrow>
    base128_cont (v * 128 + d) = base128_cont v @ [word_of_nat (128 + d)]"
  by (subst base128_cont.simps) auto

lemma base128_snoc: "d < 128 \<Longrightarrow> base128 (v * 128 + d) = base128_cont v @ [word_of_nat d]"
  by (simp add: base128_def)

lemma parse_base128_loop_step:
  assumes "unat v < 2 ^ 57"
  shows "unat (push_bit 7 v OR ucast (b AND 0x7f) :: u64) = unat v * 128 + unat (b::u8) mod 128"
proof -
  have m: "unat (ucast (b AND 0x7f) :: u64) = unat b mod 128"
    by (simp only: unat_ucast_u8_u64 unat_and_7f)
  show ?thesis
    using assms unat_push_or [of v 7 "ucast (b AND 0x7f)"] unfolding m by simp
qed

lemma parse_base128_loop_sound:
  "parse_base128_loop v cbs = Some (r, rest) \<Longrightarrow>
    \<exists>p. cbs = p @ rest \<and> p \<noteq> [] \<and> base128_cont (unat v) @ p = base128 (unat r)"
proof (induction v cbs rule: parse_base128_loop.induct)
  case (1 v cbs)
  from "1.prems" obtain b cbs' where cbs: "cbs = b # cbs'"
    by (subst (asm) parse_base128_loop.simps) (cases cbs; simp)
  let ?v' = "push_bit 7 v OR ucast (b AND 0x7f)"
  have small: "unat v < 2 ^ 57" and nz: "\<not> (v = 0 \<and> b = 0x80)"
    and cont: "(if b AND 0x80 \<noteq> 0 then parse_base128_loop ?v' cbs' else Some (?v', cbs')) = Some (r, rest)"
    using "1.prems" by (subst (asm) parse_base128_loop.simps;
        auto simp: cbs Let_def drop_bit_zero split: if_splits)+
  have v': "unat ?v' = unat v * 128 + unat b mod 128"
    using small by (rule parse_base128_loop_step)
  show ?case
  proof (cases "b AND 0x80 = 0")
    case True
    with cont have r: "r = ?v'" "rest = cbs'" by auto
    have "base128 (unat r) = base128_cont (unat v) @ [b]"
      using True unfolding r(1) v' and_80_zero by (simp add: base128_snoc u8_of_unat)
    then show ?thesis using r(2) by (intro exI [of _ "[b]"]) (simp add: cbs)
  next
    case False
    then have b: "128 \<le> unat b" by (simp add: and_80_zero)
    have eq: "128 + unat b mod 128 = unat b"
      using b unat_u8_less [of b] by (simp add: le_mod_geq less_diff_conv2 del: unat_u8_less)
    have pos: "0 < unat v * 128 + unat b mod 128"
    proof (rule ccontr)
      assume "\<not> ?thesis"
      then have "unat v = 0" "unat b = 128" using eq by auto
      then have "v = 0" "b = 0x80" using u8_of_unat [of b 128] by (simp_all add: unsigned_eq_0_iff)
      with nz show False by blast
    qed
    have "base128_cont (unat ?v') = base128_cont (unat v) @ [b]"
      using base128_cont_snoc [OF pos] eq unfolding v' by (simp add: u8_of_unat)
    moreover obtain p where "cbs' = p @ rest" "base128_cont (unat ?v') @ p = base128 (unat r)"
      using "1.IH" [of "(b, cbs')" b cbs' ?v'] small nz cont False
      by (auto simp: cbs drop_bit_zero)
    ultimately show ?thesis by (intro exI [of _ "b # p"]) (simp add: cbs)
  qed
qed

lemma parse_base128_loop_more:
  assumes "unat v < 2 ^ 57" "\<not> (v = 0 \<and> b = 0x80)" "b AND 0x80 \<noteq> 0"
  shows "parse_base128_loop v (b # cbs) =
    parse_base128_loop (push_bit 7 v OR ucast (b AND 0x7f)) cbs"
  using assms by (subst parse_base128_loop.simps) (auto simp add: drop_bit_zero Let_def)

lemma parse_base128_loop_last:
  assumes "unat v < 2 ^ 57" "b AND 0x80 = 0"
  shows "parse_base128_loop v (b # cbs) = Some (push_bit 7 v OR ucast (b AND 0x7f), cbs)"
  using assms by (subst parse_base128_loop.simps) (auto simp add: drop_bit_zero Let_def)

lemma parse_base128_loop_cont:
  assumes "m < 2 ^ 64"
  shows "parse_base128_loop 0 (base128_cont m @ ys) = parse_base128_loop (word_of_nat m) ys"
  using assms
proof (induction m arbitrary: ys rule: base128_cont.induct)
  case (1 m)
  show ?case
  proof (cases "m = 0")
    case False
    let ?b = "word_of_nat (128 + m mod 128) :: u8" and ?v = "word_of_nat (m div 128) :: u64"
    have v: "unat ?v = m div 128"
      using "1.prems" by (simp add: unsigned_of_nat take_bit_eq_mod)
    have b: "unat ?b = 128 + m mod 128" by (rule unat_of_nat_u8_small) simp
    have small: "unat ?v < 2 ^ 57" using "1.prems" unfolding v by simp
    have nz: "\<not> (?v = 0 \<and> ?b = 0x80)"
    proof
      assume "?v = 0 \<and> ?b = 0x80"
      then have "unat ?v = 0" "unat ?b = 128" by simp_all
      then have "m div 128 = 0" "m mod 128 = 0" unfolding v b by simp_all
      then show False using False div_mult_mod_eq [of m 128] by simp
    qed
    have hi: "?b AND 0x80 \<noteq> 0" unfolding and_80_zero b by simp
    have "unat (push_bit 7 ?v OR ucast (?b AND 0x7f)) = m"
      unfolding parse_base128_loop_step [OF small] unfolding v b by simp
    then have v': "push_bit 7 ?v OR ucast (?b AND 0x7f) = word_of_nat m"
      by (rule u64_of_unat)
    have "parse_base128_loop 0 (base128_cont m @ ys) = parse_base128_loop ?v (?b # ys)"
      using "1.IH" [OF False, of "?b # ys"] "1.prems" False
      by (subst base128_cont.simps) simp
    also have "\<dots> = parse_base128_loop (word_of_nat m) ys"
      using parse_base128_loop_more [OF small nz hi, of ys] unfolding v' .
    finally show ?thesis .
  qed simp
qed


theorem parse_base128_integer_iff:
  "parse_base128_integer cbs = Some (v, rest) \<longleftrightarrow> cbs = base128 (unat v) @ rest"
proof
  assume "parse_base128_integer cbs = Some (v, rest)"
  then show "cbs = base128 (unat v) @ rest"
    unfolding parse_base128_integer_def by (auto dest!: parse_base128_loop_sound)
next
  assume cbs: "cbs = base128 (unat v) @ rest"
  let ?q = "unat v div 128" and ?b = "word_of_nat (unat v mod 128) :: u8"
  have q: "?q < 2 ^ 57" using unat_u64_less [of v] by (intro less_mult_imp_div_less) simp
  then have uq: "unat (word_of_nat ?q :: u64) = ?q" by (simp add: unsigned_of_nat take_bit_eq_mod)
  have b: "unat ?b = unat v mod 128" by (rule unat_of_nat_u8_small) simp
  have small: "unat (word_of_nat ?q :: u64) < 2 ^ 57" using q unfolding uq .
  have "?b AND 0x80 = 0" unfolding and_80_zero b by simp
  then have "parse_base128_loop (word_of_nat ?q) (?b # rest) =
      Some (push_bit 7 (word_of_nat ?q) OR ucast (?b AND 0x7f), rest)"
    by (rule parse_base128_loop_last [OF small])
  moreover have "push_bit 7 (word_of_nat ?q) OR ucast (?b AND 0x7f) = v"
    by (rule word_nat_eqI) (unfold parse_base128_loop_step [OF small], unfold uq b, simp)
  moreover have "parse_base128_loop 0 (base128_cont ?q @ ?b # rest) =
      parse_base128_loop (word_of_nat ?q) (?b # rest)"
    by (rule parse_base128_loop_cont) (use q in simp)
  ultimately show "parse_base128_integer cbs = Some (v, rest)"
    by (simp only: parse_base128_integer_def cbs base128_def append_assoc append_Cons append_Nil)
qed


section \<open>Identifier octets\<close>

text \<open>
  A tag is kept as the code keeps it: the three class and constructed bits on top, the tag
  number in the 29 bits below. Every 32-bit value is a tag.
\<close>

definition der_tag :: "u32 \<Rightarrow> u8 list" where
  "der_tag tag =
     (let c = unat tag div 2 ^ 29; n = unat tag mod 2 ^ 29 in
      if n < 31 then [word_of_nat (c * 32 + n)] else word_of_nat (c * 32 + 31) # base128 n)"

lemma tag_class_bits:
  "push_bit CBS_ASN1_TAG_SHIFT (ucast (b::u8) AND 0xe0) = push_bit 29 (ucast (drop_bit 5 b) :: u32)"
proof -
  have e0: "(0xe0 :: u32) = push_bit 5 (mask 3)"
    by (simp add: mask_eq_exp_minus_1 push_bit_eq_mult)
  have "(ucast b AND 0xe0 :: u32) = push_bit 5 (ucast (drop_bit 5 b))"
    unfolding e0 by (rule bit_word_eqI)
      (auto simp: bit_push_bit_iff bit_and_iff bit_mask_iff bit_unsigned_iff bit_drop_bit_eq
        dest: bit_imp_le_length)
  moreover have "24 + 5 = (29::nat)" by simp
  ultimately show ?thesis
    by (simp only: CBS_ASN1_TAG_SHIFT_def push_bit_push_bit)
qed

lemma unat_tag_or:
  assumes "unat n < 2 ^ 29"
  shows "unat (push_bit CBS_ASN1_TAG_SHIFT (ucast b AND 0xe0) OR n :: u32)
    = unat (b::u8) div 32 * 2 ^ 29 + unat n"
proof -
  have x: "unat (ucast (drop_bit 5 b) :: u32) = unat b div 32"
  proof -
    have "unat b div 32 < 4294967296" using unat_u8_less [of b] by linarith
    then show ?thesis by (simp add: unsigned_ucast_eq unat_drop_bit take_bit_eq_mod)
  qed
  have "unat (ucast (drop_bit 5 b) :: u32) * 2 ^ 29 < 2 ^ LENGTH(32)"
    unfolding x using less_mult_imp_div_less [of "unat b" 8 32] unat_u8_less [of b] by simp
  from unat_push_or [OF this assms] show ?thesis
    unfolding tag_class_bits x .
qed

lemma unat_and_1f_u32: "unat (ucast (b AND 0x1f) :: u32) = unat (b::u8) mod 32"
proof -
  have "unat (ucast (b AND 0x1f) :: u32) = take_bit LENGTH(32) (unat (b AND 0x1f))"
    by (rule unsigned_ucast_eq)
  then show ?thesis unfolding unat_and_1f by (simp add: take_bit_eq_mod)
qed

lemma unat_TAG_NUMBER_MASK: "unat (ucast CBS_ASN1_TAG_NUMBER_MASK :: u64) = 2 ^ 29 - 1"
  by (simp add: CBS_ASN1_TAG_NUMBER_MASK_def CBS_ASN1_TAG_SHIFT_def push_bit_eq_mult)

lemma parse_asn1_tag_Cons:
  "parse_asn1_tag (b # cbs1) =
     (if unat b mod 32 = 31 then
        (case parse_base128_integer cbs1 of
           None \<Rightarrow> None
         | Some (v, cbs2) \<Rightarrow>
             if unat v < 2 ^ 29 \<and> 31 \<le> unat v
             then Some (word_of_nat (unat b div 32 * 2 ^ 29 + unat v), cbs2) else None)
      else Some (word_of_nat (unat b div 32 * 2 ^ 29 + unat b mod 32), cbs1))"
proof -
  let ?tag = "push_bit CBS_ASN1_TAG_SHIFT (ucast b AND 0xe0) :: u32"
  have low: "ucast (b AND 0x1f) = (0x1f :: u32) \<longleftrightarrow> unat b mod 32 = 31"
    unfolding word_unat_eq_iff unat_and_1f_u32 by simp
  have small: "?tag OR n = word_of_nat (unat b div 32 * 2 ^ 29 + unat n)" if "unat n < 2 ^ 29" for n
    using unat_tag_or [OF that, of b] by (metis of_nat_unat_u32)
  have range: "\<not> (v > ucast CBS_ASN1_TAG_NUMBER_MASK \<or> v < 0x1f)
      \<longleftrightarrow> unat v < 2 ^ 29 \<and> 31 \<le> unat v" for v :: u64
    unfolding word_less_nat_alt unat_TAG_NUMBER_MASK by auto
  have uv: "unat (ucast v :: u32) = unat v" if "unat v < 2 ^ 29" for v :: u64
    using that by (simp add: unsigned_ucast_eq take_bit_eq_mod)
  show ?thesis
  proof (cases "unat b mod 32 = 31")
    case True
    then show ?thesis
      unfolding parse_asn1_tag_def Let_def
      by (auto simp: low split: option.splits)
        (insert range small uv, fastforce+)
  next
    case False
    moreover have "unat b mod 32 < 2 ^ 29" by (rule less_trans [of _ 32]) simp_all
    ultimately show ?thesis
      using small [of "ucast (b AND 0x1f)"] unfolding unat_and_1f_u32
      by (simp add: parse_asn1_tag_def Let_def low)
  qed
qed


lemma u32_class_less: "unat (t::u32) div 2 ^ 29 < 8"
  using unat_u32_less [of t] by (intro less_mult_imp_div_less) simp

lemma class_number_less: "c < 8 \<Longrightarrow> n < 2 ^ 29 \<Longrightarrow> c * 2 ^ 29 + n < (2::nat) ^ 32"
  by simp

theorem parse_asn1_tag_iff:
  "parse_asn1_tag cbs = Some (tag, rest) \<longleftrightarrow> cbs = der_tag tag @ rest"
proof
  assume parse: "parse_asn1_tag cbs = Some (tag, rest)"
  then obtain b cbs1 where cbs: "cbs = b # cbs1"
    by (cases cbs) (auto simp: parse_asn1_tag_def)
  let ?c = "unat b div 32"
  have c: "?c < 8" using unat_u8_less [of b] by (intro less_mult_imp_div_less) simp
  have split: "?c * 32 + unat b mod 32 = unat b" by simp
  show "cbs = der_tag tag @ rest"
  proof (cases "unat b mod 32 = 31")
    case True
    with parse obtain v where v: "parse_base128_integer cbs1 = Some (v, rest)"
      "unat v < 2 ^ 29" "31 \<le> unat v" "tag = word_of_nat (?c * 2 ^ 29 + unat v)"
      unfolding cbs parse_asn1_tag_Cons by (auto split: option.splits if_splits)
    have tag: "unat tag = ?c * 2 ^ 29 + unat v"
      unfolding v(4) by (rule unat_word_of_nat_u32 [OF class_number_less [OF c v(2)]])
    have "unat tag div 2 ^ 29 = ?c" "unat tag mod 2 ^ 29 = unat v"
      unfolding tag using v(2) by simp_all
    moreover have "word_of_nat (?c * 32 + 31) = b" using split unfolding True by (rule u8_of_unat [OF sym])
    ultimately show ?thesis
      using v(1,3) by (simp add: cbs der_tag_def parse_base128_integer_iff Let_def)
  next
    case False
    then have tag': "tag = word_of_nat (?c * 2 ^ 29 + unat b mod 32)" "rest = cbs1"
      using parse unfolding cbs parse_asn1_tag_Cons by auto
    have n: "unat b mod 32 < 2 ^ 29" by (rule less_trans [of _ 32]) simp_all
    have tag: "unat tag = ?c * 2 ^ 29 + unat b mod 32"
      unfolding tag'(1) by (rule unat_word_of_nat_u32 [OF class_number_less [OF c n]])
    have "unat tag div 2 ^ 29 = ?c" "unat tag mod 2 ^ 29 = unat b mod 32"
      unfolding tag using n by simp_all
    moreover have "unat b mod 32 < 31" using False mod_less_divisor [of 32 "unat b"] by linarith
    moreover have "word_of_nat (?c * 32 + unat b mod 32) = b"
      using split by (rule u8_of_unat [OF sym])
    ultimately show ?thesis
      using tag'(2) by (simp add: cbs der_tag_def Let_def del: of_nat_add of_nat_mult)
  qed
next
  assume cbs: "cbs = der_tag tag @ rest"
  let ?c = "unat tag div 2 ^ 29" and ?n = "unat tag mod 2 ^ 29"
  have c: "?c < 8" by (rule u32_class_less)
  have tag: "word_of_nat (?c * 2 ^ 29 + ?n) = tag" by simp
  show "parse_asn1_tag cbs = Some (tag, rest)"
  proof (cases "?n < 31")
    case True
    have "unat (word_of_nat (?c * 32 + ?n) :: u8) = ?c * 32 + ?n"
      by (rule unat_of_nat_u8_small) (use c True in linarith)
    then show ?thesis
      using True tag unfolding cbs by (simp add: der_tag_def Let_def parse_asn1_tag_Cons)
  next
    case False
    have b: "unat (word_of_nat (?c * 32 + 31) :: u8) = ?c * 32 + 31"
      by (rule unat_of_nat_u8_small) (use c in linarith)
    have v: "unat (word_of_nat ?n :: u64) = ?n"
      by (rule unat_word_of_nat_u64) (rule less_trans [of _ "2 ^ 29"], simp_all)
    have "parse_base128_integer (base128 ?n @ rest) = Some (word_of_nat ?n, rest)"
      unfolding parse_base128_integer_iff v by simp
    then show ?thesis
      using False tag v b unfolding cbs
      by (simp add: der_tag_def Let_def parse_asn1_tag_Cons)
  qed
qed


section \<open>Length octets\<close>

fun nbytes :: "nat \<Rightarrow> nat" where
  "nbytes n = (if n < 256 then 1 else Suc (nbytes (n div 256)))"

declare nbytes.simps [simp del]

definition der_len :: "nat \<Rightarrow> u8 list" where
  "der_len n =
     (if n < 128 then [word_of_nat n]
      else word_of_nat (128 + nbytes n) # be_bytes (nbytes n) n)"

lemma nbytes_pos: "0 < nbytes n"
  by (subst nbytes.simps) simp

lemma nbytes_eq: "256 ^ k \<le> n \<Longrightarrow> n < 256 ^ Suc k \<Longrightarrow> nbytes n = Suc k"
proof (induction k arbitrary: n)
  case 0
  then show ?case by (simp add: nbytes.simps)
next
  case (Suc k)
  have "256 \<le> n" using Suc.prems(1) by (rule order_trans [rotated]) simp
  moreover have "256 ^ k \<le> n div 256" using Suc.prems(1)
    by (simp add: less_eq_div_iff_mult_less_eq mult.commute)
  moreover have "n div 256 < 256 ^ Suc k" using Suc.prems(2)
    by (intro less_mult_imp_div_less) (simp add: mult.commute)
  ultimately show ?case using Suc.IH by (subst nbytes.simps) simp
qed

lemma nbytes_bounds: "128 \<le> n \<Longrightarrow> 256 ^ (nbytes n - 1) \<le> n \<and> n < 256 ^ nbytes n"
proof (induction n rule: nbytes.induct)
  case (1 n)
  show ?case
  proof (cases "n < 256")
    case True
    then show ?thesis using 1 by (simp add: nbytes.simps)
  next
    case False
    show ?thesis
    proof (cases "n div 256 < 256")
      case True
      then have "nbytes n = 2" using False by (simp add: nbytes.simps)
      moreover have "n < 256 * 256" using True by (simp add: div_less_iff_less_mult)
      ultimately show ?thesis using False by (simp add: power2_eq_square)
    next
      case F2: False
      then have IH: "256 ^ (nbytes (n div 256) - 1) \<le> n div 256" "n div 256 < 256 ^ nbytes (n div 256)"
        using 1 False by simp_all
      obtain k where k: "nbytes (n div 256) = Suc k" using nbytes_pos gr0_conv_Suc by blast
      have "256 ^ k * 256 \<le> n div 256 * 256" using IH(1) k by simp
      also have "\<dots> \<le> n" by simp
      finally have "256 ^ Suc k \<le> n" by simp
      moreover have "n < 256 ^ Suc (Suc k)"
        using IH(2) k by (simp add: div_less_iff_less_mult mult.commute)
      moreover have "nbytes n = Suc (Suc k)" using False k by (subst nbytes.simps) simp
      ultimately show ?thesis by simp
    qed
  qed
qed

lemma nbytes_le_4: "n < 2 ^ 32 \<Longrightarrow> nbytes n \<le> 4"
proof (rule ccontr)
  assume n: "n < 2 ^ 32" and "\<not> nbytes n \<le> 4"
  then have four: "4 \<le> nbytes n - 1" "\<not> n < 128" by (auto simp: nbytes.simps [of n])
  then have "(256::nat) ^ 4 \<le> 256 ^ (nbytes n - 1)" by (intro power_increasing) simp_all
  also have "\<dots> \<le> n" using nbytes_bounds [of n] four by simp
  finally show False using n by simp
qed

lemma length_base128_cont: "n < 128 ^ k \<Longrightarrow> length (base128_cont n) \<le> k"
proof (induction k arbitrary: n)
  case (Suc k)
  have "n div 128 < 128 ^ k" using Suc.prems by (intro less_mult_imp_div_less) (simp add: mult.commute)
  then show ?case using Suc.IH by (subst base128_cont.simps) simp
qed simp

lemma length_der_tag: "length (der_tag t) \<le> 6"
proof -
  have "unat t mod 2 ^ 29 div 128 < 128 ^ 4"
    by (rule less_mult_imp_div_less) (rule less_trans [of _ "2 ^ 29"], simp_all)
  then have "length (base128 (unat t mod 2 ^ 29)) \<le> 5"
    unfolding base128_def using length_base128_cont [of _ 4] by simp
  then show ?thesis by (simp add: der_tag_def Let_def)
qed

lemma der_tag_not_Nil [simp]: "der_tag t \<noteq> []"
  by (simp add: der_tag_def Let_def)


section \<open>Elements\<close>

text \<open>The DER encoding of an element with the given tag and contents octets.\<close>

definition der :: "u32 \<Rightarrow> u8 list \<Rightarrow> u8 list" where
  "der tag contents = der_tag tag @ der_len (length contents) @ contents"

definition der_header_len :: "u32 \<Rightarrow> nat \<Rightarrow> nat" where
  "der_header_len tag n = length (der_tag tag @ der_len n)"

lemma cbs_get_any_asn1_element_unfold:
  "cbs_get_any_asn1_element (der_tag tag @ b # header) ber_ok =
     (let hl = length (der_tag tag) + 1; cbs = der_tag tag @ b # header;
          get = (\<lambda>len hl. map_option (\<lambda>(out, cbs'). (out, tag, hl, cbs')) (CBS_get_bytes cbs len))
      in if unat b < 128 then get (unat b + hl) hl
      else if ber_ok \<and> tag AND CBS_ASN1_CONSTRUCTED \<noteq> 0 \<and> unat b = 128 then get hl hl
      else let k = unat b - 128 in
        if k = 0 \<or> k > 4 then None
        else (case cbs_get_u header k of None \<Rightarrow> None
          | Some (v, _) \<Rightarrow>
              if unat v < 128 \<or> unat v < 256 ^ (k - 1) then None
              else get (unat v + hl + k) (hl + k)))"
proof -
  have tag: "parse_asn1_tag (der_tag tag @ b # header) = Some (tag, b # header)"
    by (simp add: parse_asn1_tag_iff)
  have k: "unat (b AND 0x7f) = unat b - 128" if "\<not> unat b < 128"
    using that unat_u8_less [of b] unfolding unat_and_7f by (simp add: le_mod_geq less_diff_conv2 del: unat_u8_less)
  have pow: "(2::nat) ^ (j * 8) = 256 ^ j" for j :: nat
  proof -
    have "(256::nat) = 2 ^ 8" by simp
    then show ?thesis by (simp only: power_mult [symmetric] mult.commute)
  qed
  have hl: "CBS_len (der_tag tag @ b # header) - CBS_len header = length (der_tag tag) + 1"
    by (simp add: CBS_len_def)
  have nowrap: "(unat v + (length (der_tag tag) + 1) + k) mod SIZE_MOD = unat v + (length (der_tag tag) + 1) + k"
    if "cbs_get_u header k = Some (v, r)" "k \<le> 4" for v r k
  proof -
    have "unat v < 256 ^ k" using that cbs_get_u_Some [of k header v r] by simp
    also have "\<dots> \<le> 256 ^ 4" using that by (intro power_increasing) simp_all
    finally show ?thesis using that(2) length_der_tag [of tag] by (simp add: SIZE_MOD_def)
  qed
  have get: "(case x of None \<Rightarrow> None | Some (out, cbs') \<Rightarrow> Some (out, tag, h, cbs'))
    = map_option (\<lambda>(out, cbs'). (out, tag, h, cbs')) x" for x :: "(cbs \<times> cbs) option" and h :: nat
    by (cases x) auto
  have lt: "v < (128 :: u64) \<longleftrightarrow> unat v < 128" for v by (simp add: word_less_nat_alt)
  show ?thesis
  proof (cases "unat b < 128")
    case True
    then show ?thesis
      by (simp add: cbs_get_any_asn1_element_def tag hl and_80_zero Let_def get)
  next
    case False
    define K where "K = unat b - 128"
    have z: "unat b = 128 \<longleftrightarrow> K = 0" using False unfolding K_def by linarith
    have kb: "unat (b AND 0x7f) = K" unfolding K_def using False by (rule k)
    show ?thesis
    proof (cases K)
      case 0
      then show ?thesis
        using False kb z
        by (simp add: cbs_get_any_asn1_element_def tag hl and_80_zero Let_def get flip: K_def)
    next
      case (Suc j)
      show ?thesis
      proof (cases "cbs_get_u header K")
        case None
        then show ?thesis
          using False kb z Suc
          by (simp add: cbs_get_any_asn1_element_def tag hl and_80_zero Let_def get flip: K_def)
      next
        case (Some vr)
        obtain v r where vr: "vr = (v, r)" by (cases vr)
        show ?thesis
          using False kb z Suc Some nowrap [of K v r] vr
          by (simp add: cbs_get_any_asn1_element_def tag hl and_80_zero Let_def get drop_bit_zero
              pow lt flip: K_def)
      qed
    qed
  qed
qed

text \<open>
  What the DER parser accepts: exactly the elements whose header is the canonical one for
  their tag and contents, with contents of at most \<open>2^32 - 1\<close> octets.
\<close>

lemma der_len_short: "n < 128 \<Longrightarrow> der_len n = [word_of_nat n]"
  by (simp add: der_len_def)

lemma der_len_long:
  "128 \<le> n \<Longrightarrow> 256 ^ k \<le> n \<Longrightarrow> n < 256 ^ Suc k \<Longrightarrow>
    der_len n = word_of_nat (128 + Suc k) # be_bytes (Suc k) n"
  by (simp add: der_len_def nbytes_eq del: be_bytes.simps)

lemma append_split_prefix:
  assumes "out @ rest = h @ r" "length out = length h + n"
  obtains c where "out = h @ c" "length c = n" "r = c @ rest"
  using assms by (metis add_diff_cancel_left' append_eq_append_conv_if append_take_drop_id
      le_add1 length_drop same_append_eq append.assoc)

theorem CBS_get_any_asn1_element_iff:
  "CBS_get_any_asn1_element cbs = Some (out, tag, hl, rest) \<longleftrightarrow>
    (\<exists>contents. out = der tag contents \<and> cbs = out @ rest \<and> length contents < 2 ^ 32 \<and>
       hl = der_header_len tag (length contents))"
proof
  assume get: "CBS_get_any_asn1_element cbs = Some (out, tag, hl, rest)"
  then obtain b header where cbs: "cbs = der_tag tag @ b # header"
    by (auto simp: CBS_get_any_asn1_element_def cbs_get_any_asn1_element_def parse_asn1_tag_iff
        CBS_get_u8_Some Let_def split: option.splits if_splits)
  note get = get [unfolded CBS_get_any_asn1_element_def cbs cbs_get_any_asn1_element_unfold Let_def]
  let ?h = "length (der_tag tag) + 1"
  show "\<exists>contents. out = der tag contents \<and> cbs = out @ rest \<and> length contents < 2 ^ 32 \<and>
       hl = der_header_len tag (length contents)"
  proof (cases "unat b < 128")
    case True
    with get have out: "CBS_get_bytes cbs (unat b + ?h) = Some (out, rest)" "hl = ?h"
      by (auto simp: cbs)
    then have "out @ rest = (der_tag tag @ [b]) @ header" "length out = length (der_tag tag @ [b]) + unat b"
      unfolding CBS_get_bytes_Some by (auto simp: cbs)
    then obtain c where "out = (der_tag tag @ [b]) @ c" "length c = unat b" "header = c @ rest"
      by (rule append_split_prefix)
    then show ?thesis
      using True out(2)
      by (intro exI [of _ c]) (simp add: der_def der_header_len_def der_len_short cbs)
  next
    case False
    let ?k = "unat b - 128"
    obtain v r where v: "cbs_get_u header ?k = Some (v, r)" "\<not> unat v < 128" "256 ^ (?k - 1) \<le> unat v"
      and k: "0 < ?k" "?k \<le> 4"
      and out: "CBS_get_bytes cbs (unat v + ?h + ?k) = Some (out, rest)" "hl = ?h + ?k"
      using get False by (auto simp: cbs split: option.splits if_splits)
    have header: "header = be_bytes ?k (unat v) @ r" and less: "unat v < 256 ^ ?k"
      using v(1) k(2) cbs_get_u_Some [of ?k] by auto
    obtain j where j: "?k = Suc j" using k(1) gr0_conv_Suc by blast
    have "unat b = 128 + Suc j" using j by linarith
    then have "word_of_nat (128 + Suc j) = b" by (rule u8_of_unat)
    moreover have "der_len (unat v) = word_of_nat (128 + Suc j) # be_bytes (Suc j) (unat v)"
      by (rule der_len_long) (use v(2,3) less j in auto)
    ultimately have len: "der_len (unat v) = b # be_bytes ?k (unat v)" using j by simp
    let ?H = "der_tag tag @ der_len (unat v)"
    have "out @ rest = ?H @ r" "length out = length ?H + unat v"
      using out(1) unfolding CBS_get_bytes_Some len by (auto simp: cbs header)
    then obtain c where c: "out = ?H @ c" "length c = unat v" "r = c @ rest"
      by (rule append_split_prefix)
    have "(256::nat) ^ ?k \<le> 256 ^ 4" using k(2) by (rule power_increasing) simp
    with less have "unat v < 256 ^ 4" by (rule order_less_le_trans)
    then show ?thesis
      using c out(2) by (intro exI [of _ c]) (simp add: der_def der_header_len_def len cbs header)
  qed
next
  assume "\<exists>contents. out = der tag contents \<and> cbs = out @ rest \<and> length contents < 2 ^ 32 \<and>
       hl = der_header_len tag (length contents)"
  then obtain c where out: "out = der tag c" and cbs: "cbs = out @ rest"
    and c: "length c < 2 ^ 32" and hl: "hl = der_header_len tag (length c)" by blast
  show "CBS_get_any_asn1_element cbs = Some (out, tag, hl, rest)"
  proof (cases "length c < 128")
    case True
    have b: "unat (word_of_nat (length c) :: u8) = length c"
      by (rule unat_of_nat_u8_small) (use True in simp)
    have "CBS_get_bytes (der tag c @ rest) (length c + (length (der_tag tag) + 1)) = Some (out, rest)"
      unfolding CBS_get_bytes_Some using True by (simp add: out der_def der_len_short)
    then show ?thesis
      using True b cbs_get_any_asn1_element_unfold [of tag "word_of_nat (length c)" "c @ rest" False]
      by (simp add: CBS_get_any_asn1_element_def cbs out der_def der_len_short hl der_header_len_def)
  next
    case False
    let ?n = "length c"
    obtain j where j: "nbytes ?n = Suc j" using nbytes_pos gr0_conv_Suc by blast
    have nb: "256 ^ j \<le> ?n" "?n < 256 ^ Suc j" "Suc j \<le> 4"
      using nbytes_bounds [of ?n] nbytes_le_4 [OF c] False by (auto simp: j)
    have len: "der_len ?n = word_of_nat (128 + Suc j) # be_bytes (Suc j) ?n"
      by (rule der_len_long) (use False nb in auto)
    have b: "unat (word_of_nat (128 + Suc j) :: u8) = 128 + Suc j"
      by (rule unat_of_nat_u8_small) (use nb(3) in simp)
    have v: "unat (word_of_nat ?n :: u64) = ?n"
      by (rule unat_word_of_nat_u64) (use c in simp)
    have u: "cbs_get_u (be_bytes (Suc j) ?n @ c @ rest) (Suc j) = Some (word_of_nat ?n, c @ rest)"
      by (subst cbs_get_u_Some) (use nb v in \<open>auto simp del: be_bytes.simps\<close>)
    have bytes: "CBS_get_bytes (der tag c @ rest) (?n + (length (der_tag tag) + 1) + Suc j) = Some (out, rest)"
      unfolding CBS_get_bytes_Some by (simp add: out der_def len del: be_bytes.simps)
    have eq: "der tag c @ rest = der_tag tag @ word_of_nat (128 + Suc j) # be_bytes (Suc j) ?n @ c @ rest"
      by (simp add: der_def len del: be_bytes.simps of_nat_add)
    show ?thesis
      using False nb b v u bytes
      unfolding CBS_get_any_asn1_element_def cbs out eq cbs_get_any_asn1_element_unfold Let_def
      by (simp add: hl der_header_len_def len out del: be_bytes.simps of_nat_add of_nat_Suc)
  qed
qed


section \<open>The parsers as exact readers\<close>

lemma length_der: "length (der tag c) = der_header_len tag (length c) + length c"
  by (simp add: der_def der_header_len_def)

lemma drop_der: "drop (der_header_len tag (length c)) (der tag c) = c"
  by (simp add: der_def der_header_len_def)

lemma der_not_Nil [simp]: "der tag c \<noteq> []"
  by (simp add: der_def)

lemma CBS_get_any_asn1_iff:
  "CBS_get_any_asn1 cbs = Some (c, tag, rest) \<longleftrightarrow> length c < 2 ^ 32 \<and> cbs = der tag c @ rest"
proof -
  have "CBS_get_any_asn1 cbs = Some (c, tag, rest) \<longleftrightarrow>
    (\<exists>out hl. CBS_get_any_asn1_element cbs = Some (out, tag, hl, rest) \<and> CBS_skip out hl = Some c)"
    by (auto simp: CBS_get_any_asn1_def split: option.splits)
  also have "\<dots> \<longleftrightarrow> length c < 2 ^ 32 \<and> cbs = der tag c @ rest"
  proof
    assume "length c < 2 ^ 32 \<and> cbs = der tag c @ rest"
    then have "CBS_get_any_asn1_element cbs = Some (der tag c, tag, der_header_len tag (length c), rest)"
      by (auto simp: CBS_get_any_asn1_element_iff)
    moreover have "CBS_skip (der tag c) (der_header_len tag (length c)) = Some c"
      by (simp add: CBS_skip_Some length_der drop_der)
    ultimately show "\<exists>out hl. CBS_get_any_asn1_element cbs = Some (out, tag, hl, rest) \<and>
        CBS_skip out hl = Some c" by blast
  qed (auto simp: CBS_get_any_asn1_element_iff CBS_skip_Some drop_der)
  finally show ?thesis .
qed

lemma CBS_get_asn1_iff:
  "CBS_get_asn1 cbs tag = Some (c, rest) \<longleftrightarrow> length c < 2 ^ 32 \<and> cbs = der tag c @ rest"
proof -
  have "CBS_get_asn1 cbs tag = Some (c, rest) \<longleftrightarrow> CBS_get_any_asn1 cbs = Some (c, tag, rest)"
    by (auto simp: CBS_get_asn1_def cbs_get_asn1_def CBS_get_any_asn1_def split: option.splits)
  then show ?thesis by (simp only: CBS_get_any_asn1_iff)
qed

text \<open>An octet string that is one DER element.\<close>

definition der_element :: "u8 list \<Rightarrow> bool" where
  "der_element e \<longleftrightarrow> (\<exists>tag c. length c < 2 ^ 32 \<and> e = der tag c)"

text \<open>The parser that keeps the header, with the tag and the header length left out.\<close>

definition get_element :: "cbs \<Rightarrow> (cbs \<times> cbs) option" where
  "get_element cbs =
     (case CBS_get_any_asn1_element cbs of
        None \<Rightarrow> None
      | Some (out, _, _, cbs') \<Rightarrow> Some (out, cbs'))"

interpretation b128: exact_reader parse_base128_integer "\<lambda>v. base128 (unat v)" "\<lambda>_. True"
  by unfold_locales (simp_all add: parse_base128_integer_iff base128_def)

interpretation asn1_tag: exact_reader parse_asn1_tag der_tag "\<lambda>_. True"
  by unfold_locales (simp_all add: parse_asn1_tag_iff)

interpretation any_asn1: exact_reader
  "\<lambda>bs. case CBS_get_any_asn1 bs of None \<Rightarrow> None | Some (c, tag, rest) \<Rightarrow> Some ((tag, c), rest)"
  "\<lambda>(tag, c). der tag c" "\<lambda>(tag, c). length c < 2 ^ 32"
proof unfold_locales
  fix bs rest :: cbs and x :: "u32 \<times> cbs"
  obtain tag c where x: "x = (tag, c)" by (cases x)
  have "(case CBS_get_any_asn1 bs of None \<Rightarrow> None | Some (c, tag, rest) \<Rightarrow> Some ((tag, c), rest))
      = Some (x, rest) \<longleftrightarrow> CBS_get_any_asn1 bs = Some (c, tag, rest)"
    by (auto simp: x split: option.splits)
  then show "(case CBS_get_any_asn1 bs of None \<Rightarrow> None | Some (c, tag, rest) \<Rightarrow> Some ((tag, c), rest))
      = Some (x, rest) \<longleftrightarrow> (case x of (tag, c) \<Rightarrow> length c < 2 ^ 32) \<and>
        bs = (case x of (tag, c) \<Rightarrow> der tag c) @ rest"
    by (simp add: x CBS_get_any_asn1_iff)
qed auto

interpretation element: exact_reader get_element "\<lambda>e. e" der_element
proof unfold_locales
  fix bs x rest
  have "get_element bs = Some (x, rest) \<longleftrightarrow>
      (\<exists>tag hl. CBS_get_any_asn1_element bs = Some (x, tag, hl, rest))"
    by (auto simp: get_element_def split: option.splits)
  then show "get_element bs = Some (x, rest) \<longleftrightarrow> der_element x \<and> bs = x @ rest"
    by (auto simp: CBS_get_any_asn1_element_iff der_element_def)
qed (auto simp: der_element_def)

lemma der_inject:
  assumes "length c < 2 ^ 32" "length d < 2 ^ 32" "der s c @ xs = der t d @ ys"
  shows "s = t \<and> c = d \<and> xs = ys"
  using any_asn1.enc_prefix_free [of "(s, c)" "(t, d)" xs ys] assms by simp

text \<open>
  The tag peek: with a tag in front (of anything, not only of a complete element) the answer
  is whether it is the expected one.
\<close>

lemma CBS_peek_asn1_tag_iff:
  "CBS_peek_asn1_tag cbs tag \<longleftrightarrow> (\<exists>rest. cbs = der_tag tag @ rest)"
proof (cases "parse_asn1_tag cbs")
  case None
  then show ?thesis
    by (auto simp: CBS_peek_asn1_tag_def asn1_tag.get_enc split: if_splits)
next
  case (Some p)
  obtain t r where p: "p = (t, r)" by (cases p)
  from Some have "cbs = der_tag t @ r" unfolding p parse_asn1_tag_iff .
  moreover from this have "0 < length cbs" by simp
  ultimately show ?thesis
    using Some asn1_tag.enc_prefix_free [of t r tag]
    unfolding CBS_peek_asn1_tag_def CBS_len_def by (auto simp: p)
qed

end
