(* ===== verification/Cbb_Buffer.thy ===== *)
theory Cbb_Buffer
  imports Cbb Der
begin

text \<open>
  The buffer of a \<open>CBB\<close>: its invariant, what reserving space does to it, and when that
  succeeds. Then \<open>CBB_flush\<close>: what the buffer holds afterwards, against a definition of the
  contents of a \<open>CBB\<close> with its pending children closed.
\<close>

section \<open>The invariant and the growth of the buffer\<close>

definition buffer_ok :: "cbb_buffer_st \<Rightarrow> bool" where
  "buffer_ok b \<longleftrightarrow> b_len b \<le> b_cap b \<and> length (b_buf b) = b_cap b \<and> b_cap b + 8 < 2 ^ 63"

definition written :: "cbb_buffer_st \<Rightarrow> u8 list" where
  "written b = take (b_len b) (b_buf b)"

text \<open>
  There is room for a total of \<open>n\<close> bytes: they fit in the present buffer, or it can be
  resized by an allocator that does not fail.
\<close>

definition room :: "allocator \<Rightarrow> cbb_buffer_st \<Rightarrow> nat \<Rightarrow> bool" where
  "room m b n \<longleftrightarrow>
     n \<le> b_cap b \<or> (b_can_resize b \<and> malloc_total m \<and> n < 2 ^ 61 \<and> b_cap b < 2 ^ 62)"

text \<open>\<open>b'\<close> is \<open>b\<close> with a buffer that may have grown so as to hold \<open>n\<close> bytes.\<close>

definition grown :: "allocator \<Rightarrow> cbb_buffer_st \<Rightarrow> cbb_buffer_st \<Rightarrow> nat \<Rightarrow> bool" where
  "grown m b b' n \<longleftrightarrow>
     buffer_ok b' \<and> b_len b' = b_len b \<and> written b' = written b \<and> b_error b' = b_error b \<and>
     b_can_resize b' = b_can_resize b \<and> (\<not> b_can_resize b \<longrightarrow> b_cap b' = b_cap b) \<and>
     n \<le> b_cap b' \<and> b_cap b \<le> b_cap b' \<and>
     (\<forall>k \<ge> n. room m b k \<longrightarrow> room m b' k)"

lemma length_written [simp]: "buffer_ok b \<Longrightarrow> length (written b) = b_len b"
  by (simp add: written_def buffer_ok_def)

lemma written_error [simp]: "written (b\<lparr>b_error := e\<rparr>) = written b"
  by (simp add: written_def)

lemma buffer_ok_error [simp]: "buffer_ok (b\<lparr>b_error := e\<rparr>) = buffer_ok b"
  by (simp add: buffer_ok_def)

lemma room_le: "room m b n \<Longrightarrow> k \<le> n \<Longrightarrow> room m b k"
  by (auto simp: room_def)

lemma grown_refl: "buffer_ok b \<Longrightarrow> n \<le> b_cap b \<Longrightarrow> grown m b b n"
  by (simp add: grown_def)

lemma OPENSSL_malloc_total:
  "malloc_total m \<Longrightarrow> n + 8 < 2 ^ 63 \<Longrightarrow> OPENSSL_malloc m n \<noteq> None"
proof -
  assume "malloc_total m" "n + 8 < 2 ^ 63"
  then obtain f where "m (n + 8) = Some f" unfolding malloc_total_def by blast
  moreover have "(n + 8) mod SIZE_MOD = n + 8" using \<open>n + 8 < 2 ^ 63\<close> by (simp add: SIZE_MOD_def)
  ultimately show ?thesis
    by (simp add: OPENSSL_malloc_def OPENSSL_MALLOC_PREFIX_def malloc_def)
qed

lemma OPENSSL_realloc_total:
  "malloc_total m \<Longrightarrow> n + 8 < 2 ^ 63 \<Longrightarrow> OPENSSL_realloc m ob n \<noteq> None"
  using OPENSSL_malloc_total [of m n]
  by (auto simp: OPENSSL_realloc_def Let_def split: option.splits)

lemma cbb_buffer_reserve_cases:
  assumes "malloc_ok m" "buffer_ok b" "n < 2 ^ 63"
  obtains (ok) b' where "cbb_buffer_reserve m (Some b) n = (Some (b_len b), Some b')" "grown m b b' (b_len b + n)"
  | (fail) "cbb_buffer_reserve m (Some b) n = (None, Some (b\<lparr>b_error := True\<rparr>))" "\<not> room m b (b_len b + n)"
proof -
  have small: "b_len b + n < SIZE_MOD" "b_len b + n + 8 < SIZE_MOD" "b_cap b * 2 + 8 < SIZE_MOD"
    using assms(2,3) by (auto simp: buffer_ok_def SIZE_MOD_def)
  show thesis
  proof (cases "b_len b + n \<le> b_cap b")
    case True
    then have "cbb_buffer_reserve m (Some b) n = (Some (b_len b), Some b)"
      using small by (simp add: cbb_buffer_reserve_def)
    then show thesis using ok grown_refl [OF assms(2) True] by blast
  next
    case grow: False
    define newcap where "newcap = (if b_cap b * 2 < b_len b + n then b_len b + n else b_cap b * 2)"
    have newcap: "newcap + 8 < SIZE_MOD" "b_len b + n \<le> newcap" "b_cap b < newcap"
      using small grow by (auto simp: newcap_def)
    let ?re = "OPENSSL_realloc m (Some \<lparr>blk_size = b_cap b, blk_data = b_buf b\<rparr>) newcap"
    have eq: "cbb_buffer_reserve m (Some b) n =
        (if b_can_resize b then
           (case ?re of None \<Rightarrow> (None, Some (b\<lparr>b_error := True\<rparr>))
            | Some newbuf \<Rightarrow> (Some (b_len b), Some (b\<lparr>b_buf := blk_data newbuf, b_cap := newcap\<rparr>)))
         else (None, Some (b\<lparr>b_error := True\<rparr>)))"
      using small grow unfolding newcap_def by (simp add: cbb_buffer_reserve_def Let_def)
    show thesis
    proof (cases "b_can_resize b \<and> ?re \<noteq> None")
      case True
      then obtain newbuf where re: "?re = Some newbuf" by auto
      have "block_ok \<lparr>blk_size = b_cap b, blk_data = b_buf b\<rparr>"
        using assms(2) by (simp add: block_ok_def buffer_ok_def)
      note r = OPENSSL_realloc_block [OF assms(1) newcap(1) this re]
      have "take (b_cap b) (blk_data newbuf) = b_buf b"
        using r(4) newcap(3) assms(2) by (simp add: buffer_ok_def min_def)
      then have "take (b_len b) (blk_data newbuf) = take (b_len b) (b_buf b)"
        using assms(2) by (metis buffer_ok_def min.absorb1 take_take)
      then have "grown m b (b\<lparr>b_buf := blk_data newbuf, b_cap := newcap\<rparr>) (b_len b + n)"
        using r newcap assms(2) grow True
        by (auto simp: grown_def buffer_ok_def block_ok_def written_def room_def newcap_def
            split: if_splits)
      then show thesis using True re by (intro ok) (simp_all add: eq)
    next
      case False
      then have "cbb_buffer_reserve m (Some b) n = (None, Some (b\<lparr>b_error := True\<rparr>))"
        by (auto simp: eq)
      moreover have "\<not> room m b (b_len b + n)"
      proof
        assume room: "room m b (b_len b + n)"
        then have "newcap + 8 < 2 ^ 63" using grow by (auto simp: room_def newcap_def)
        then show False
          using False room grow OPENSSL_realloc_total [of m newcap "Some \<lparr>blk_size = b_cap b, blk_data = b_buf b\<rparr>"]
          by (auto simp: room_def)
      qed
      ultimately show thesis by (rule fail)
    qed
  qed
qed

lemma cbb_buffer_add_cases:
  assumes "malloc_ok m" "buffer_ok b" "n < 2 ^ 63"
  obtains (ok) b' where "cbb_buffer_add m (Some b) n = (Some (b_len b), Some (b'\<lparr>b_len := b_len b + n\<rparr>))"
      "grown m b b' (b_len b + n)"
  | (fail) "cbb_buffer_add m (Some b) n = (None, Some (b\<lparr>b_error := True\<rparr>))" "\<not> room m b (b_len b + n)"
proof (cases rule: cbb_buffer_reserve_cases [OF assms, case_names ok' fail'])
  case (ok' b')
  show thesis
    by (rule ok [of b']) (use ok' in \<open>auto simp: cbb_buffer_add_def grown_def\<close>)
next
  case fail'
  then show thesis by (intro fail) (simp_all add: cbb_buffer_add_def)
qed

section \<open>Writing integers\<close>

text \<open>What a call that wrote into the buffer keeps of it.\<close>

definition wrote :: "allocator \<Rightarrow> cbb_buffer_st \<Rightarrow> cbb_buffer_st \<Rightarrow> bool" where
  "wrote m b b' \<longleftrightarrow>
     buffer_ok b' \<and> b_error b' = b_error b \<and> b_can_resize b' = b_can_resize b \<and>
     (\<not> b_can_resize b \<longrightarrow> b_cap b' = b_cap b) \<and> b_cap b \<le> b_cap b' \<and>
     (\<forall>k \<ge> b_len b'. room m b k \<longrightarrow> room m b' k)"

lemma wrote_refl: "buffer_ok b \<Longrightarrow> wrote m b b"
  by (simp add: wrote_def)

lemma wrote_trans: "wrote m b b1 \<Longrightarrow> wrote m b1 b2 \<Longrightarrow> b_len b1 \<le> b_len b2 \<Longrightarrow> wrote m b b2"
  unfolding wrote_def by (metis le_trans)

lemma wrote_buf:
  "wrote m b b' \<Longrightarrow> length bf = length (b_buf b') \<Longrightarrow> wrote m b (b'\<lparr>b_buf := bf\<rparr>)"
  by (auto simp: wrote_def buffer_ok_def room_def)

lemma grown_wrote:
  "grown m b b' n \<Longrightarrow> k \<le> n \<Longrightarrow> n \<le> k \<Longrightarrow> wrote m b (b'\<lparr>b_len := k\<rparr>)"
  by (auto simp: grown_def wrote_def buffer_ok_def room_def)

lemma store_be_eq:
  "off + n \<le> length bf \<Longrightarrow>
    store_be bf off n v = (take off bf @ be_bytes n (unat v) @ drop (off + n) bf, drop_bit (8 * n) v)"
proof (induction n arbitrary: bf v)
  case (Suc n)
  have "drop (off + n) (bf[off + n := ucast v]) = word_of_nat (unat v) # drop (off + Suc n) bf"
    using Suc.prems by (simp add: upd_conv_take_nth_drop)
  moreover have "drop_bit (8 * n) (drop_bit 8 v) = drop_bit (8 * Suc n) v"
    by (simp add: drop_bit_drop_bit add.commute)
  ultimately show ?case
    using Suc by (simp add: unat_drop_bit)
qed simp

lemma take_splice:
  assumes "take n bf = xs" "n + length ys \<le> length bf"
  shows "take (n + length ys) (xs @ ys @ drop (n + length ys) bf) = xs @ ys"
  using assms by auto

lemma drop_bit_u64_zero: "drop_bit (8 * n) (v :: u64) = 0 \<longleftrightarrow> unat v < 256 ^ n"
  by (simp add: drop_bit_zero power_mult)

lemma cbb_buffer_add_u_cases:
  assumes "malloc_ok m" "buffer_ok b" "0 < n" "n \<le> 8"
  obtains (ok) b' where "cbb_buffer_add_u m (Some b) v n = (True, Some b')" "wrote m b b'"
      "written b' = written b @ be_bytes n (unat v)" "unat v < 256 ^ n"
  | (fail) b' where "cbb_buffer_add_u m (Some b) v n = (False, Some b')" "buffer_ok b'" "b_error b'"
      "unat v < 256 ^ n \<Longrightarrow> \<not> room m b (b_len b + n)"
proof (cases rule: cbb_buffer_add_cases [OF assms(1,2), of n, case_names prem ok' fail'])
  case prem
  then show ?case using assms(4) by simp
next
  case (ok' b1)
  let ?buf = "take (b_len b) (b_buf b1) @ be_bytes n (unat v) @ drop (b_len b + n) (b_buf b1)"
  let ?b2 = "b1\<lparr>b_len := b_len b + n, b_buf := ?buf\<rparr>"
  have g: "buffer_ok b1" "written b1 = written b" "b_len b1 = b_len b" "b_len b + n \<le> b_cap b1"
    using ok'(2) by (auto simp: grown_def)
  then have fits: "b_len b + n \<le> length (b_buf b1)" by (simp add: buffer_ok_def)
  have eq: "cbb_buffer_add_u m (Some b) v n =
      (if unat v < 256 ^ n then (True, Some ?b2) else (False, Some (?b2\<lparr>b_error := True\<rparr>)))"
    using assms(3) fits ok'(1)
    by (simp add: cbb_buffer_add_u_def store_be_eq drop_bit_u64_zero del: be_bytes.simps)
  have w: "wrote m b ?b2"
    using wrote_buf [OF grown_wrote [OF ok'(2), of "b_len b + n"], of ?buf] fits by simp
  have "written ?b2 = written b @ be_bytes n (unat v)"
    using g fits take_splice [of "b_len b" "b_buf b1" "written b" "be_bytes n (unat v)"]
    by (simp add: written_def)
  with w show thesis
    by (cases "unat v < 256 ^ n"; intro ok fail) (auto simp: eq wrote_def)
next
  case fail'
  then show thesis
    using assms by (intro fail [of "b\<lparr>b_error := True\<rparr>"]) (simp_all add: cbb_buffer_add_u_def)
qed

section \<open>The contents with the pending children closed\<close>

text \<open>The length prefix of \<open>inner\<close> that the child asks for, and \<open>inner\<close> itself.\<close>

definition close_prefix :: "cbb_st \<Rightarrow> u8 list \<Rightarrow> u8 list option" where
  "close_prefix c inner =
     (if pending_is_asn1 c
      then if length inner \<le> 0xfffffffe then Some (der_len (length inner) @ inner) else None
      else if length inner < 256 ^ pending_len_len c
        then Some (be_bytes (pending_len_len c) (length inner) @ inner) else None)"

text \<open>
  The contents of the \<open>CBB\<close> whose bytes start at \<open>lo\<close>, in a buffer that holds \<open>w\<close>, with the
  descendants \<open>cs\<close> pending: the bytes before the child's prefix, then the closed child.
\<close>

fun closed :: "u8 list \<Rightarrow> nat \<Rightarrow> cbb_st list \<Rightarrow> u8 list option" where
  "closed w lo [] = Some (drop lo w)"
| "closed w lo (c # cs) =
     (case closed w (offset c + pending_len_len c) cs of
        None \<Rightarrow> None
      | Some inner \<Rightarrow>
          map_option (\<lambda>p. drop lo (take (offset c) w) @ p) (close_prefix c inner))"

text \<open>The descendants lie one after the other, up to the end \<open>n\<close> of the buffer.\<close>

fun desc_ok :: "nat \<Rightarrow> nat \<Rightarrow> cbb_st list \<Rightarrow> bool" where
  "desc_ok lo n [] = (lo \<le> n)"
| "desc_ok lo n (c # cs) =
     (lo \<le> offset c \<and> 0 < pending_len_len c \<and> (pending_is_asn1 c \<longrightarrow> pending_len_len c = 1) \<and>
      desc_ok (offset c + pending_len_len c) n cs)"

lemma desc_ok_le: "desc_ok lo n cs \<Longrightarrow> lo \<le> n"
  by (induction lo n cs rule: desc_ok.induct) auto

section \<open>Flushing\<close>

text \<open>How many octets the length of an ASN.1 child needs beyond the one set aside.\<close>

definition extra_octets :: "nat \<Rightarrow> nat" where
  "extra_octets n = (if n < 128 then 0 else nbytes n)"

lemma extra_octets_cases:
  assumes "n \<le> 0xfffffffe"
  shows "(if n > 0xffffff then (5, 0x80 OR 4, n)
          else if n > 0xffff then (4, 0x80 OR 3, n)
          else if n > 0xff then (3, 0x80 OR 2, n)
          else if n > 0x7f then (2, 0x80 OR 1, n)
          else (1::nat, word_of_nat n :: u8, 0::nat))
      = (extra_octets n + 1, hd (der_len n), if n < 128 then 0 else n)"
proof -
  have "n > 0xffffff \<Longrightarrow> nbytes n = 4" "n > 0xffff \<Longrightarrow> n \<le> 0xffffff \<Longrightarrow> nbytes n = 3"
    "n > 0xff \<Longrightarrow> n \<le> 0xffff \<Longrightarrow> nbytes n = 2" "n > 0x7f \<Longrightarrow> n \<le> 0xff \<Longrightarrow> nbytes n = 1"
    using assms nbytes_eq [of 3 n] nbytes_eq [of 2 n] nbytes_eq [of 1 n] nbytes_eq [of 0 n] by simp_all
  then show ?thesis by (auto simp: extra_octets_def der_len_def)
qed

lemma der_len_extra: "der_len n = hd (der_len n) # be_bytes (extra_octets n) (if n < 128 then 0 else n)"
  by (simp add: der_len_def extra_octets_def)

lemma extra_octets_bound: "n \<le> 0xfffffffe \<Longrightarrow> extra_octets n \<le> 4 \<and> n < 256 ^ max 1 (extra_octets n)"
  using nbytes_bounds [of n] nbytes_le_4 [of n] nbytes_pos [of n] by (auto simp: extra_octets_def max_def)

lemma flush_asn1_cases:
  assumes "malloc_ok m" "buffer_ok b" "pending_len_len c = 1"
    and w: "written b = pre @ x # inner" "length pre = offset c"
  obtains (ok) b' junk where
      "flush_asn1 m b c (offset c + 1) (length inner) =
         (Some (if length inner < 128 then 0 else length inner), b',
          c\<lparr>offset := offset c + 1, pending_len_len := extra_octets (length inner)\<rparr>)"
      "length inner \<le> 0xfffffffe" "wrote m b b'" "length junk = extra_octets (length inner)"
      "written b' = (pre @ [hd (der_len (length inner))]) @ junk @ inner"
  | (fail) b' where
      "flush_asn1 m b c (offset c + 1) (length inner) = (None, b', c)" "buffer_ok b'"
      "length inner \<le> 0xfffffffe \<Longrightarrow> \<not> room m b (b_len b + extra_octets (length inner))"
proof -
  define n where "n = length inner"
  define k where "k = extra_octets n"
  define x0 where "x0 = hd (der_len n)"
  define n' where "n' = (if n < 128 then 0 else n)"
  have len: "b_len b = offset c + 1 + n" using arg_cong [OF w(1), of length] assms(2) w(2) by (simp add: n_def)
  show thesis
  proof (cases "n \<le> 0xfffffffe")
    case False
    then show thesis
      using assms(2) by (intro fail [of b]) (simp_all add: flush_asn1_def flip: n_def)
  next
    case small: True
    note eq = flush_asn1_def [of m b c "Suc (offset c)" n, unfolded extra_octets_cases [OF small],
        folded k_def x0_def n'_def]
    show thesis
    proof (cases "k = 0")
      case True
      have "written (b\<lparr>b_buf := (b_buf b)[offset c := x0]\<rparr>) = (pre @ [x0]) @ [] @ inner"
        using w(1) by (simp add: written_def take_update_swap list_update_append flip: w(2))
      moreover have "n' = (if n < 128 then 0 else n)" by (rule n'_def)
      ultimately show thesis
        using True small assms(2) wrote_buf [OF wrote_refl [OF assms(2)]]
        by (intro ok [of "b\<lparr>b_buf := (b_buf b)[offset c := x0]\<rparr>" "[]"])
          (simp_all add: eq Let_def flip: n_def k_def x0_def)
    next
      case k: False
      then have n': "n' = n" and n128: "\<not> n < 128" by (auto simp: n'_def k_def extra_octets_def)
      have k4: "k \<le> 4" using extra_octets_bound [OF small] by (simp add: k_def)
      show thesis
      proof (cases rule: cbb_buffer_add_cases [OF assms(1,2), of k, case_names prem ok' fail'])
        case prem
        then show ?case using k4 by simp
      next
        case (ok' b1)
        have g: "buffer_ok b1" "take (b_len b) (b_buf b1) = pre @ x # inner" "b_len b + k \<le> length (b_buf b1)"
          using ok'(2) w(1) by (auto simp: grown_def buffer_ok_def written_def)
        let ?moved = "memmove (b_buf b1) (offset c + 1 + k) (offset c + 1) n"
        let ?b' = "b1\<lparr>b_len := b_len b + k, b_buf := ?moved[offset c := x0]\<rparr>"
        define junk where "junk = take k (drop (offset c + 1) (b_buf b1))"
        have start: "take (offset c + 1) (b_buf b1) = pre @ [x]"
          using arg_cong [OF g(2), of "take (offset c + 1)"] len w(2) by simp
        have contents: "take n (drop (offset c + 1) (b_buf b1)) = inner"
          using arg_cong [OF g(2), of "drop (offset c + 1)"] len w(2) by (simp add: drop_take)
        have front: "take (offset c + 1 + k) (b_buf b1) = pre @ x # junk"
          unfolding take_add [of "offset c + 1" k] start junk_def by simp
        have lj: "length junk = k" using g(3) len by (simp add: junk_def)
        have moved: "?moved = pre @ x # junk @ inner @ drop (b_len b + k) (b_buf b1)"
          unfolding memmove_def memcpy_at_def front contents by (simp add: len ac_simps)
        then have "written ?b' = (pre @ [x0]) @ junk @ inner"
          by (simp add: written_def list_update_append w(2) [symmetric] lj len n_def)
        moreover have "length ?moved = length (b_buf b1)"
          unfolding moved using g(3) len lj w(2) by (simp add: n_def)
        moreover have "wrote m b (b1\<lparr>b_len := b_len b + k\<rparr>)"
          by (rule grown_wrote [OF ok'(2)]) simp_all
        ultimately show thesis
          using small lj k wrote_buf [of m b "b1\<lparr>b_len := b_len b + k\<rparr>" "?moved[offset c := x0]"] ok'(1)
          by (intro ok [of ?b' junk]) (simp_all add: eq n' n128 flip: n_def k_def x0_def)
      next
        case fail'
        then show thesis
          using assms(2) k small by (intro fail [of "b\<lparr>b_error := True\<rparr>"]) (simp_all add: eq flip: n_def k_def)
      qed
    qed
  qed
qed

end
