(* ===== verification/Cbb_Flush.thy ===== *)
theory Cbb_Flush
  imports Cbb_Buffer
begin

text \<open>
  \<open>CBB_flush\<close> against the contents of the pending children: what it leaves in the buffer,
  and that it fails only when a length does not fit its prefix or there is no room.
\<close>

definition flush_post ::
    "allocator \<Rightarrow> cbb_buffer_st \<Rightarrow> nat \<Rightarrow> cbb_st list \<Rightarrow> bool \<times> cbb_buffer_st \<times> cbb_st list \<Rightarrow> bool" where
  "flush_post m b lo cs r \<longleftrightarrow>
     (case r of (ok, b', cs') \<Rightarrow>
        if ok then cs' = [] \<and> wrote m b b' \<and>
          (\<exists>c. closed (written b) lo cs = Some c \<and> written b' = take lo (written b) @ c)
        else buffer_ok b' \<and> b_error b' \<and>
          (\<forall>c. closed (written b) lo cs = Some c \<longrightarrow> \<not> room m b (lo + length c)))"

lemma splice_written:
  assumes "buffer_ok b" "written b = x @ p @ y" "length p = length q"
  shows "written (b\<lparr>b_buf := take (length x) (b_buf b) @ q @ drop (length x + length q) (b_buf b)\<rparr>) = x @ q @ y"
proof -
  define z where "z = drop (b_len b) (b_buf b)"
  have buf: "b_buf b = x @ p @ y @ z"
    using assms(2) append_take_drop_id [of "b_len b" "b_buf b"] by (simp add: written_def z_def)
  have "b_len b = length x + length q + length y"
    using length_written [OF assms(1)] unfolding assms(2) by (simp add: assms(3))
  then show ?thesis by (simp add: written_def buf assms(3) [symmetric])
qed

lemma wrote_not_room:
  "wrote m b b1 \<Longrightarrow> \<not> room m b1 k \<Longrightarrow> b_len b1 \<le> k \<Longrightarrow> \<not> room m b k"
  by (auto simp: wrote_def)

lemma close_prefix_length:
  assumes "close_prefix c inner = Some p" "0 < pending_len_len c" "pending_is_asn1 c \<longrightarrow> pending_len_len c = 1"
  shows "pending_len_len c + length inner \<le> length p"
proof -
  have "length (der_len n) \<ge> 1" for n by (subst der_len_extra) simp
  then show ?thesis using assms by (auto simp: close_prefix_def add.commute split: if_splits)
qed

lemma cbb_flush_length_prefix:
  assumes "buffer_ok b1" "written b1 = x @ p @ inner" "length p = n"
  shows "store_be (b_buf b1) (length x) n (word_of_nat (length inner)) =
     (take (length x) (b_buf b1) @ be_bytes n (length inner) @ drop (length x + n) (b_buf b1),
      drop_bit (8 * n) (word_of_nat (length inner)))"
    "drop_bit (8 * n) (word_of_nat (length inner) :: u64) = 0 \<longleftrightarrow> length inner < 256 ^ n"
    "written (b1\<lparr>b_buf := take (length x) (b_buf b1) @ be_bytes n (length inner) @ drop (length x + n) (b_buf b1)\<rparr>)
       = x @ be_bytes n (length inner) @ inner"
proof -
  have len: "length x + n + length inner = b_len b1"
    using assms(1,2) length_written [OF assms(1)] assms(3) by simp
  then have "length inner < 2 ^ 64" "length x + n \<le> length (b_buf b1)"
    using assms(1) by (auto simp: buffer_ok_def)
  then show "store_be (b_buf b1) (length x) n (word_of_nat (length inner)) =
     (take (length x) (b_buf b1) @ be_bytes n (length inner) @ drop (length x + n) (b_buf b1),
      drop_bit (8 * n) (word_of_nat (length inner)))"
    "drop_bit (8 * n) (word_of_nat (length inner) :: u64) = 0 \<longleftrightarrow> length inner < 256 ^ n"
    by (simp_all only: store_be_eq unat_word_of_nat_u64 drop_bit_u64_zero)
  show "written (b1\<lparr>b_buf := take (length x) (b_buf b1) @ be_bytes n (length inner) @ drop (length x + n) (b_buf b1)\<rparr>)
       = x @ be_bytes n (length inner) @ inner"
    using splice_written [OF assms(1,2), of "be_bytes n (length inner)"] assms(3) by simp
qed

lemma cbb_flush_post:
  assumes "malloc_ok m" "buffer_ok b" "\<not> b_error b"
  shows "desc_ok lo (b_len b) cs \<Longrightarrow> flush_post m b lo cs (cbb_flush m b cs)"
proof (induction cs arbitrary: lo)
  case Nil
  then show ?case using assms by (simp add: flush_post_def wrote_refl)
next
  case (Cons child cs)
  let ?o = "offset child" and ?p = "pending_len_len child" and ?w = "written b"
  have child: "lo \<le> ?o" "0 < ?p" "pending_is_asn1 child \<longrightarrow> ?p = 1" "desc_ok (?o + ?p) (b_len b) cs"
    using Cons.prems by simp_all
  have le: "?o + ?p \<le> b_len b" using desc_ok_le [OF child(4)] .
  have small: "(?o + ?p) mod SIZE_MOD = ?o + ?p" "(?o + ?p) < 2 ^ 63"
    using le assms(2) by (auto simp: buffer_ok_def SIZE_MOD_def)
  obtain ok b1 cs1 where r1: "cbb_flush m b cs = (ok, b1, cs1)" by (cases "cbb_flush m b cs")
  note IH = Cons.IH [OF child(4), unfolded r1 flush_post_def prod.case]
  have front: "drop lo (take ?o ?w) = take (?o - lo) (drop lo ?w)" by (simp add: drop_take)
  have total: "lo + length (drop lo (take ?o ?w) @ p) = ?o + length p" for p
    using child(1) le assms(2) by simp
  show ?case
  proof (cases ok)
    case False
    have "\<not> room m b (lo + length c)" if cl: "closed ?w lo (child # cs) = Some c" for c
    proof -
      obtain inner p where inner: "closed ?w (?o + ?p) cs = Some inner" "close_prefix child inner = Some p"
        and c: "c = drop lo (take ?o ?w) @ p" using cl by (auto split: option.splits)
      have "\<not> room m b (?o + ?p + length inner)" using IH False inner(1) by simp
      moreover have "?o + ?p + length inner \<le> lo + length c"
        using close_prefix_length [OF inner(2) child(2,3)] unfolding c total by simp
      ultimately show ?thesis using room_le by blast
    qed
    then show ?thesis
      using False IH assms child by (simp add: r1 small flush_post_def Let_def)
  next
    case True
    then obtain inner where cs1: "cs1 = []" and w1: "wrote m b b1" and inner: "closed ?w (?o + ?p) cs = Some inner"
      and b1: "written b1 = take (?o + ?p) ?w @ inner" using IH by auto
    have ok1: "buffer_ok b1" and ne1: "\<not> b_error b1" using w1 assms(3) by (auto simp: wrote_def)
    define x where "x = take ?o ?w"
    define pr where "pr = take ?p (drop ?o ?w)"
    have lx: "length x = ?o" and lp: "length pr = ?p" using le assms(2) by (simp_all add: x_def pr_def)
    have b1': "written b1 = x @ pr @ inner" unfolding b1 x_def pr_def by (simp add: take_add)
    have len1: "b_len b1 = ?o + ?p + length inner"
      using length_written [OF ok1] unfolding b1' by (simp add: lx lp)
    have x: "take lo ?w @ drop lo (take ?o ?w) = x"
      unfolding x_def using child(1) by (metis append_take_drop_id min.absorb1 take_take)
    have cont: "cbb_flush m b (child # cs) =
        (case (if pending_is_asn1 child then flush_asn1 m b1 child (?o + ?p) (length inner)
               else (Some (length inner), b1, child)) of
           (None, b2, child2) \<Rightarrow> (False, b2\<lparr>b_error := True\<rparr>, [child2])
         | (Some len2, b2, child2) \<Rightarrow>
             (case store_be (b_buf b2) (offset child2) (pending_len_len child2) (word_of_nat len2) of
                (buf, len3) \<Rightarrow>
                  if len3 \<noteq> 0 then (False, b2\<lparr>b_buf := buf, b_error := True\<rparr>, [child2])
                  else (True, b2\<lparr>b_buf := buf\<rparr>, [])))"
      using assms(3) child(2) True by (simp add: r1 small len1 cs1 Let_def)
    show ?thesis
    proof (cases "pending_is_asn1 child")
      case False
      let ?buf = "take (length x) (b_buf b1) @ be_bytes ?p (length inner) @ drop (length x + ?p) (b_buf b1)"
      note st = cbb_flush_length_prefix [OF ok1 b1' lp]
      have "length ?buf = length (b_buf b1)"
        using ok1 len1 lx by (simp add: buffer_ok_def)
      then have "wrote m b (b1\<lparr>b_buf := ?buf\<rparr>)" by (rule wrote_buf [OF w1])
      moreover have "cbb_flush m b (child # cs) =
          (if length inner < 256 ^ ?p then (True, b1\<lparr>b_buf := ?buf\<rparr>, [])
           else (False, b1\<lparr>b_buf := ?buf, b_error := True\<rparr>, [child]))"
        unfolding cont if_not_P [OF False] prod.case option.case
          st(1) [unfolded lx] st(2) lx not_not
        by (simp only: if_True if_False split: if_split) simp
      moreover have "closed ?w lo (child # cs) =
          (if length inner < 256 ^ ?p then Some (drop lo (take ?o ?w) @ be_bytes ?p (length inner) @ inner)
           else None)"
        by (simp add: inner close_prefix_def False)
      moreover have "take lo ?w @ drop lo (take ?o ?w) @ be_bytes ?p (length inner) @ inner
          = x @ be_bytes ?p (length inner) @ inner"
        by (simp only: x append.assoc [symmetric])
      moreover have "buffer_ok (b1\<lparr>b_buf := ?buf\<rparr>)" using calculation(1) by (simp add: wrote_def)
      then have "buffer_ok (b1\<lparr>b_buf := ?buf, b_error := True\<rparr>)" by (simp add: buffer_ok_def)
      ultimately show ?thesis
        using st(3) by (simp add: flush_post_def)
    next
      case asn1: True
      then have p1: "?p = 1" using child(3) by simp
      obtain y where pr: "pr = [y]" using lp p1 by (metis One_nat_def length_0_conv length_Suc_conv)
      have b1'': "written b1 = x @ y # inner" using b1' pr by simp
      show ?thesis
      proof (cases rule: flush_asn1_cases [OF assms(1) ok1 p1 b1'' lx, case_names ok' fail'])
        case (ok' b2 junk)
        let ?n = "if length inner < 128 then 0 else length inner" and ?k = "extra_octets (length inner)"
        let ?x2 = "x @ [hd (der_len (length inner))]"
        have ok2: "buffer_ok b2" using ok'(3) by (simp add: wrote_def)
        have len2: "b_len b2 = ?o + 1 + ?k + length inner"
          using length_written [OF ok2] unfolding ok'(5) by (simp add: lx ok'(4))
        let ?buf = "take (length ?x2) (b_buf b2) @ be_bytes ?k ?n @ drop (length ?x2 + ?k) (b_buf b2)"
        have fit: "length ?x2 + ?k \<le> length (b_buf b2)" using ok2 len2 lx by (simp add: buffer_ok_def)
        have "?n < 2 ^ 64" "?n < 256 ^ ?k"
          using nbytes_bounds [of "length inner"] ok'(2) by (auto simp: extra_octets_def)
        then have st: "store_be (b_buf b2) (length ?x2) ?k (word_of_nat ?n) = (?buf, 0)"
          using fit by (simp only: store_be_eq unat_word_of_nat_u64 drop_bit_u64_zero prod.inject)
        have "written (b2\<lparr>b_buf := ?buf\<rparr>) = ?x2 @ be_bytes ?k ?n @ inner"
          using splice_written [OF ok2 ok'(5), of "be_bytes ?k ?n"] ok'(4) by (simp del: if_split)
        also have "\<dots> = x @ der_len (length inner) @ inner"
          by (metis der_len_extra append.assoc append_Cons append_Nil)
        finally have w2: "written (b2\<lparr>b_buf := ?buf\<rparr>) = x @ der_len (length inner) @ inner" .
        have "wrote m b b2" by (rule wrote_trans [OF w1 ok'(3)]) (simp add: len1 len2 p1)
        then have "wrote m b (b2\<lparr>b_buf := ?buf\<rparr>)" by (rule wrote_buf) (use fit in simp)
        moreover have "cbb_flush m b (child # cs) = (True, b2\<lparr>b_buf := ?buf\<rparr>, [])"
          unfolding cont using ok'(1) st by (simp add: asn1 p1 lx del: if_split)
        moreover have "closed ?w lo (child # cs) = Some (drop lo (take ?o ?w) @ der_len (length inner) @ inner)"
          using ok'(2) by (simp add: inner close_prefix_def asn1)
        moreover have "take lo ?w @ drop lo (take ?o ?w) @ der_len (length inner) @ inner
            = x @ der_len (length inner) @ inner"
          by (simp only: x append.assoc [symmetric])
        ultimately show ?thesis using w2 by (simp add: flush_post_def del: if_split)
      next
        case (fail' b2)
        have "\<not> room m b (lo + length c)" if "closed ?w lo (child # cs) = Some c" for c
        proof -
          have small: "length inner \<le> 0xfffffffe" and c: "c = drop lo (take ?o ?w) @ der_len (length inner) @ inner"
            using that by (auto simp: inner close_prefix_def asn1 split: if_splits)
          have "length (der_len (length inner)) = 1 + extra_octets (length inner)" by (subst der_len_extra) simp
          then have "lo + length c = b_len b1 + extra_octets (length inner)"
            unfolding c total by (simp add: len1 p1)
          then show ?thesis using wrote_not_room [OF w1 fail'(3)] small by simp
        qed
        moreover have "cbb_flush m b (child # cs) = (False, b2\<lparr>b_error := True\<rparr>, [child])"
          unfolding cont using fail'(1) by (simp add: asn1 p1)
        ultimately show ?thesis
          using fail'(2) by (simp add: flush_post_def del: closed.simps cbb_flush.simps)
      qed
    qed
  qed
qed

end
