(* ===== verification/Der_Int.thy ===== *)
theory Der_Int
  imports Der
begin

text \<open>
  The contents octets of an INTEGER (X.690, 8.3: two's complement, as few octets as
  possible), and what the typed readers of \<^verbatim>\<open>cbs.c\<close> accept: exactly the canonical encoding
  of each value of their range.
\<close>

section \<open>Minimal octets\<close>

text \<open>The number of octets whose sign bit stays clear for a non-negative number.\<close>

fun ilen :: "nat \<Rightarrow> nat" where
  "ilen n = (if n < 128 then 1 else Suc (ilen (n div 256)))"

declare ilen.simps [simp del]

definition uint_octets :: "nat \<Rightarrow> u8 list" where
  "uint_octets n = be_bytes (ilen n) n"

text \<open>A negative number has the length of its complement.\<close>

definition slen :: "int \<Rightarrow> nat" where
  "slen z = ilen (nat (if z < 0 then - z - 1 else z))"

definition sint_octets :: "int \<Rightarrow> u8 list" where
  "sint_octets z = be_bytes (slen z) (nat (z mod 256 ^ slen z))"

lemma ilen_eq: "n < 128 * 256 ^ j \<Longrightarrow> j = 0 \<or> 128 * 256 ^ (j - 1) \<le> n \<Longrightarrow> ilen n = Suc j"
proof (induction j arbitrary: n)
  case 0
  then show ?case by (simp add: ilen.simps)
next
  case (Suc j)
  have "(128::nat) * 1 \<le> 128 * 256 ^ j" by (rule mult_left_mono) simp_all
  also have "\<dots> \<le> n" using Suc.prems(2) by simp
  finally have ge: "128 \<le> n" by simp
  have "n div 256 < 128 * 256 ^ j"
    using Suc.prems(1) by (intro less_mult_imp_div_less) (simp add: mult.commute mult.left_commute)
  moreover have "j = 0 \<or> 128 * 256 ^ (j - 1) \<le> n div 256"
  proof (cases j)
    case (Suc i)
    then have "128 * 256 ^ i * 256 \<le> n" using Suc.prems(2) by (simp add: mult.commute mult.left_commute)
    then show ?thesis using Suc by (simp add: less_eq_div_iff_mult_less_eq)
  qed simp
  ultimately have "ilen (n div 256) = Suc j" by (rule Suc.IH)
  then show ?case using ge by (subst ilen.simps) simp
qed

lemma ilen_pos: "0 < ilen n"
  by (subst ilen.simps) simp

lemma ilen_bounds:
  "n < 128 * 256 ^ (ilen n - 1) \<and> (ilen n = 1 \<or> 128 * 256 ^ (ilen n - 2) \<le> n)"
proof (induction n rule: ilen.induct)
  case (1 n)
  show ?case
  proof (cases "n < 128")
    case True
    then show ?thesis by (simp add: ilen.simps)
  next
    case False
    obtain k where k: "ilen (n div 256) = Suc k" using ilen_pos gr0_conv_Suc by blast
    have n: "ilen n = Suc (Suc k)" using False k by (subst ilen.simps) simp
    have IH: "n div 256 < 128 * 256 ^ k" "k = 0 \<or> 128 * 256 ^ (k - 1) \<le> n div 256"
      using 1 [OF False] by (auto simp: k)
    have "n < 128 * 256 ^ k * 256"
      using IH(1) by (simp add: div_less_iff_less_mult)
    moreover have "128 * 256 ^ k \<le> n"
    proof (cases k)
      case (Suc i)
      then have "128 * 256 ^ i * 256 \<le> n div 256 * 256" using IH(2) by simp
      also have "\<dots> \<le> n" by simp
      finally show ?thesis using Suc by (simp add: mult.commute mult.left_commute)
    qed (use False in simp)
    ultimately show ?thesis by (simp add: n mult.commute mult.left_commute)
  qed
qed

lemma ilen_le: "n < 128 * 256 ^ j \<Longrightarrow> ilen n \<le> Suc j"
proof (rule ccontr)
  assume n: "n < 128 * 256 ^ j" and "\<not> ilen n \<le> Suc j"
  then have "j \<le> ilen n - 2" "ilen n \<noteq> 1" by auto
  then have "(256::nat) ^ j \<le> 256 ^ (ilen n - 2)" "128 * 256 ^ (ilen n - 2) \<le> n"
    using ilen_bounds [of n] by (auto intro: power_increasing)
  with n show False by linarith
qed

text \<open>
  The tests on the first two octets, read on the value: \<open>data\<close> starts with a clear sign bit
  and no redundant octet exactly when it has the minimal length.
\<close>

lemma be_val_high:
  "unat b < 128 \<longleftrightarrow> be_val (b # bs) < 128 * 256 ^ length bs"
proof
  assume "unat b < 128"
  then have "(unat b + 1) * 256 ^ length bs \<le> 128 * 256 ^ length bs" by (intro mult_right_mono) simp_all
  moreover have "be_val (b # bs) < (unat b + 1) * 256 ^ length bs"
    using be_val_less [of bs] by (simp add: algebra_simps)
  ultimately show "be_val (b # bs) < 128 * 256 ^ length bs" by (rule order_less_le_trans [rotated])
next
  assume "be_val (b # bs) < 128 * 256 ^ length bs"
  then have "unat b * 256 ^ length bs < 128 * 256 ^ length bs" unfolding be_val.simps by linarith
  then show "unat b < 128" by simp
qed

lemma minimal_octets_iff:
  "data \<noteq> [] \<and> unat (data ! 0) < 128 \<and>
     \<not> (data ! 0 = 0 \<and> 1 < length data \<and> unat (data ! 1) < 128)
   \<longleftrightarrow> data = uint_octets (be_val data)"
proof (cases data)
  case Nil
  then show ?thesis using ilen_pos [of 0] by (simp add: uint_octets_def) (metis length_0_conv length_be_bytes less_irrefl)
next
  case (Cons b bs)
  have eq: "data = uint_octets (be_val data) \<longleftrightarrow> ilen (be_val data) = length data"
    unfolding uint_octets_def by (metis be_bytes_be_val length_be_bytes)
  show ?thesis
  proof (cases bs)
    case Nil
    have "ilen (unat b) = 1 \<longleftrightarrow> unat b < 128"
      using ilen_pos [of "unat b div 256"] by (simp add: ilen.simps [of "unat b"])
    then show ?thesis unfolding eq by (simp add: Cons Nil)
  next
    case (Cons c cs)
    let ?n = "be_val data" and ?j = "length cs"
    have data: "data = b # c # cs" using \<open>data = b # bs\<close> Cons by simp
    have first: "unat b < 128 \<longleftrightarrow> ?n < 128 * 256 ^ Suc ?j"
      unfolding data using be_val_high [of b "c # cs"] by simp
    have second: "\<not> (b = 0 \<and> unat c < 128) \<longleftrightarrow> 128 * 256 ^ ?j \<le> ?n"
    proof (cases "b = 0")
      case True
      then show ?thesis using be_val_high [of c cs] by (auto simp: data not_less)
    next
      case False
      then have "1 \<le> unat b" by (simp add: unat_gt_0 Suc_le_eq)
      then have "1 * 256 ^ Suc ?j \<le> unat b * 256 ^ Suc ?j" by (rule mult_right_mono) simp
      moreover have "128 * 256 ^ ?j \<le> (256::nat) ^ Suc ?j" by simp
      moreover have "unat b * 256 ^ Suc ?j \<le> ?n" by (simp add: data)
      ultimately show ?thesis using False by linarith
    qed
    have "ilen ?n = Suc (Suc ?j) \<longleftrightarrow> ?n < 128 * 256 ^ Suc ?j \<and> 128 * 256 ^ ?j \<le> ?n"
    proof
      assume "ilen ?n = Suc (Suc ?j)"
      then show "?n < 128 * 256 ^ Suc ?j \<and> 128 * 256 ^ ?j \<le> ?n" using ilen_bounds [of ?n] by simp
    qed (use ilen_eq [of ?n "Suc ?j"] in simp)
    then show ?thesis unfolding eq using first second by (simp add: data)
  qed
qed

lemma be_val_uint_octets: "be_val (uint_octets n) = n"
proof -
  obtain k where k: "ilen n = Suc k" using ilen_pos gr0_conv_Suc by blast
  have "n < 256 ^ ilen n" using ilen_bounds [of n] by (simp add: k)
  then show ?thesis by (simp add: uint_octets_def be_val_be_bytes)
qed

lemma length_uint_octets: "length (uint_octets n) = ilen n"
  by (simp add: uint_octets_def)

lemma ilen_u64: "n < 2 ^ 64 \<Longrightarrow> ilen n \<le> 9"
  using ilen_le [of n 8] by simp

section \<open>Unsigned readers\<close>

lemma asn1_uint64_loop_eq:
  "asn1_uint64_loop out data =
     (if unat out * 256 ^ length data + be_val data < 2 ^ 64
      then Some (word_of_nat (unat out * 256 ^ length data + be_val data)) else None)"
proof (induction data arbitrary: out)
  case Nil
  then show ?case using unat_u64_less [of out] by simp
next
  case (Cons b data)
  let ?X = "256 ^ length data :: nat"
  show ?case
  proof (cases "unat out < 2 ^ 56")
    case True
    have next_out: "unat (push_bit 8 out OR ucast b :: u64) = unat out * 256 + unat b"
    proof -
    have "unat out + 1 \<le> 72057594037927936" using True by simp
    then have "unat out * 256 + unat b < 18446744073709551616" using unat_u8_less [of b] by linarith
    then show ?thesis unfolding unat_shift_or by simp
  qed
    have "(unat out * 256 + unat b) * ?X + be_val data = unat out * 256 ^ length (b # data) + be_val (b # data)"
      by (simp add: algebra_simps)
    then show ?thesis
      using True Cons [of "push_bit 8 out OR ucast b"] by (simp add: drop_bit_zero next_out del: be_val.simps)
  next
    case False
    have "2 ^ 56 * (256 * 1) \<le> unat out * (256 * ?X)" using False by (intro mult_mono) simp_all
    then show ?thesis using False by (simp add: drop_bit_zero)
  qed
qed

lemma u64_nat_iff: "n < 2 ^ 64 \<Longrightarrow> word_of_nat n = (v :: u64) \<longleftrightarrow> unat v = n"
  using unat_word_of_nat_u64 [of n] by (metis word_nat_eqI)

lemma CBS_get_asn1_uint64_iff:
  "CBS_get_asn1_uint64 cbs = Some (v, rest) \<longleftrightarrow>
     cbs = der CBS_ASN1_INTEGER (uint_octets (unat v)) @ rest"
proof -
  have "CBS_get_asn1_uint64 cbs = Some (v, rest) \<longleftrightarrow>
    (\<exists>data. CBS_get_asn1 cbs CBS_ASN1_INTEGER = Some (data, rest) \<and>
       (data \<noteq> [] \<and> unat (data ! 0) < 128 \<and>
         \<not> (data ! 0 = 0 \<and> 1 < length data \<and> unat (data ! 1) < 128)) \<and>
       be_val data < 2 ^ 64 \<and> unat v = be_val data)"
    by (auto simp: CBS_get_asn1_uint64_def CBS_data_def CBS_len_def Let_def and_80_zero
        asn1_uint64_loop_eq u64_nat_iff split: option.splits if_splits)
  also have "\<dots> \<longleftrightarrow>
    (\<exists>data. (length data < 2 ^ 32 \<and> cbs = der CBS_ASN1_INTEGER data @ rest) \<and>
       data = uint_octets (be_val data) \<and> be_val data < 2 ^ 64 \<and> unat v = be_val data)"
    unfolding minimal_octets_iff CBS_get_asn1_iff ..
  also have "\<dots> \<longleftrightarrow> cbs = der CBS_ASN1_INTEGER (uint_octets (unat v)) @ rest" (is "?L = ?R")
  proof
    assume ?R
    have "length (uint_octets (unat v)) \<le> 9" using ilen_u64 [of "unat v"] by (simp add: length_uint_octets)
    then show ?L using \<open>?R\<close> by (intro exI [of _ "uint_octets (unat v)"]) (simp add: be_val_uint_octets)
  qed auto
  finally show ?thesis .
qed

section \<open>Signed readers\<close>

lemma unat_not_u8: "unat (NOT b :: u8) = 255 - unat b"
proof -
  have "b \<le> - 1" by simp
  then have "unat (- 1 - b) = unat (- 1 :: u8) - unat b" by (rule unat_sub)
  moreover have "unat (- 1 :: u8) = 255" by (simp add: unsigned_minus_1_eq_mask mask_eq_exp_minus_1)
  moreover have "NOT b = - 1 - b" by (simp add: not_eq_complement)
  ultimately show ?thesis by metis
qed

lemma not_u8_high: "unat (NOT b :: u8) < 128 \<longleftrightarrow> \<not> unat b < 128"
  unfolding unat_not_u8 by linarith

lemma not_u8_zero: "NOT b = 0 \<longleftrightarrow> b = (0xff :: u8)"
proof -
  have "NOT (0xff :: u8) = 0" by (rule word_nat_eqI) (simp only: unat_not_u8, simp)
  then show ?thesis by (metis bit.double_compl)
qed

lemma be_val_not: "be_val (map NOT bs) + be_val bs + 1 = 256 ^ length bs"
proof (induction bs)
  case (Cons b bs)
  have "(255 - unat b) * X + unat b * X = 255 * X" for X
    using unat_u8_le [of b] by (simp flip: add_mult_distrib)
  from this [of "256 ^ length bs"] Cons show ?case by (simp add: unat_not_u8)
qed simp

lemma not_not_bytes: "map NOT xs = ys \<longleftrightarrow> xs = map NOT (ys :: u8 list)"
  by (auto simp: comp_def)

text \<open>The value of octets read in two's complement.\<close>

definition sval :: "u8 list \<Rightarrow> int" where
  "sval bs = (if unat (bs ! 0) < 128 then int (be_val bs) else int (be_val bs) - 256 ^ length bs)"

lemma sint_octets_nonneg: "0 \<le> z \<Longrightarrow> sint_octets z = uint_octets (nat z)"
proof -
  assume z: "0 \<le> z"
  let ?k = "ilen (nat z)"
  obtain k where k: "?k = Suc k" using ilen_pos gr0_conv_Suc by blast
  have "nat z < 256 ^ ?k" using ilen_bounds [of "nat z"] by (simp add: k)
  then have "z < 256 ^ ?k" using z by (simp add: nat_less_iff)
  then show ?thesis using z by (simp add: sint_octets_def uint_octets_def slen_def)
qed

lemma sint_octets_neg: "z < 0 \<Longrightarrow> sint_octets z = map NOT (uint_octets (nat (- z - 1)))"
proof -
  assume z: "z < 0"
  define n where "n = nat (- z - 1)"
  define k where "k = ilen n"
  obtain j where j: "k = Suc j" using ilen_pos gr0_conv_Suc unfolding k_def by blast
  have n: "n < 256 ^ k" using ilen_bounds [of n] unfolding k_def [symmetric] by (simp add: j)
  have "z = - int n - 1" using z by (simp add: n_def)
  then have "z + 256 ^ k = int (256 ^ k - 1 - n)" using n by (simp add: of_nat_diff Suc_leI)
  moreover have "(z + 256 ^ k) mod 256 ^ k = z mod 256 ^ k" by simp
  moreover have "int (256 ^ k - 1 - n) < 256 ^ k" using n by (simp add: of_nat_diff Suc_leI)
  ultimately have mod_z: "z mod 256 ^ k = int (256 ^ k - 1 - n)" by (metis mod_pos_pos_trivial of_nat_0_le_iff)
  have "be_val (map NOT (be_bytes k n)) = 256 ^ k - 1 - n"
    using be_val_not [of "be_bytes k n"] n by (simp add: be_val_be_bytes)
  then have "be_bytes k (256 ^ k - 1 - n) = map NOT (be_bytes k n)"
    by (metis be_bytes_be_val length_be_bytes length_map)
  then show ?thesis
    using z mod_z by (simp add: sint_octets_def uint_octets_def slen_def flip: n_def k_def)
qed

lemma minimal_signed_iff:
  "bs \<noteq> [] \<and> \<not> (1 < length bs \<and> bs ! 0 = 0 \<and> unat (bs ! 1) < 128) \<and>
     \<not> (1 < length bs \<and> bs ! 0 = 0xff \<and> \<not> unat (bs ! 1) < 128)
   \<longleftrightarrow> bs \<noteq> [] \<and> bs = sint_octets (sval bs)"
proof (cases "bs = []")
  case nonempty: False
  show ?thesis
  proof (cases "unat (bs ! 0) < 128")
    case True
    moreover from True have "bs ! 0 \<noteq> 0xff" by auto
    moreover have "sint_octets (sval bs) = uint_octets (be_val bs)"
      using True by (simp add: sval_def sint_octets_nonneg)
    ultimately show ?thesis using minimal_octets_iff [of bs] nonempty by auto
  next
    case False
    let ?ns = "map NOT bs"
    have less: "be_val bs < 256 ^ length bs" by (rule be_val_less)
    have sum: "int (be_val ?ns) + int (be_val bs) + 1 = 256 ^ length bs"
      using arg_cong [OF be_val_not [of bs], of int] by simp
    have "sval bs < 0" "nat (- sval bs - 1) = be_val ?ns"
      using False less sum by (simp_all add: sval_def)
    then have "bs = sint_octets (sval bs) \<longleftrightarrow> ?ns = uint_octets (be_val ?ns)"
      by (simp add: sint_octets_neg) (metis not_not_bytes)
    also have "\<dots> \<longleftrightarrow> ?ns \<noteq> [] \<and> unat (?ns ! 0) < 128 \<and>
        \<not> (?ns ! 0 = 0 \<and> 1 < length ?ns \<and> unat (?ns ! 1) < 128)"
      by (rule minimal_octets_iff [symmetric])
    also have "\<dots> \<longleftrightarrow> \<not> (1 < length bs \<and> bs ! 0 = 0xff \<and> \<not> unat (bs ! 1) < 128)"
    proof -
      obtain c cs where bs: "bs = c # cs" using nonempty by (cases bs) auto
      have "\<not> unat c < 128" using False by (simp add: bs)
      then show ?thesis
        by (cases cs) (simp_all add: bs not_u8_high not_u8_zero conj_commute)
    qed
    finally show ?thesis using False nonempty by auto
  qed
qed simp

lemma sval_sint_octets: "sval (sint_octets z) = z"
proof (cases "0 \<le> z")
  case True
  have "unat (uint_octets (nat z) ! 0) < 128"
    using minimal_octets_iff [of "uint_octets (nat z)"] by (simp add: be_val_uint_octets)
  then show ?thesis using True by (simp add: sint_octets_nonneg sval_def be_val_uint_octets)
next
  case False
  let ?xs = "uint_octets (nat (- z - 1))"
  have xs: "?xs \<noteq> []" "unat (?xs ! 0) < 128"
    using minimal_octets_iff [of ?xs] by (simp_all add: be_val_uint_octets)
  have "int (be_val (map NOT ?xs)) + int (be_val ?xs) + 1 = 256 ^ length ?xs"
    using arg_cong [OF be_val_not [of ?xs], of int] by simp
  moreover have "int (be_val ?xs) = - z - 1" using False by (simp add: be_val_uint_octets)
  moreover have "\<not> unat (map NOT ?xs ! 0) < 128" using xs by (simp add: not_u8_high)
  then have "sval (map NOT ?xs) = int (be_val (map NOT ?xs)) - 256 ^ length ?xs"
    by (simp only: sval_def if_False length_map)
  ultimately have "sval (map NOT ?xs) = z" by linarith
  then show ?thesis using False by (simp add: sint_octets_neg)
qed

lemma length_sint_octets: "- (2 ^ 63) \<le> z \<Longrightarrow> z < 2 ^ 63 \<Longrightarrow> length (sint_octets z) \<le> 8"
proof -
  assume z: "- (2 ^ 63) \<le> z" "z < 2 ^ 63"
  then have "nat (if z < 0 then - z - 1 else z) < nat (2 ^ 63)" by (subst nat_less_eq_zless) auto
  then have "nat (if z < 0 then - z - 1 else z) < 128 * 256 ^ 7" by simp
  then have "slen z \<le> Suc 7" unfolding slen_def by (rule ilen_le)
  then show ?thesis by (simp add: sint_octets_def)
qed

lemma be_val_replicate_ff: "be_val (replicate m 0xff) + 1 = 256 ^ m"
  by (induction m) auto

text \<open>The sign extension of the code, on the value.\<close>

lemma sint_i64_of_bytes:
  assumes "bs \<noteq> []" "length bs \<le> 8"
  shows "sint (i64_of_bytes (rev bs @ replicate (8 - length bs) (if unat (bs ! 0) < 128 then 0 else 0xff)))
    = sval bs"
proof -
  let ?m = "8 - length bs" and ?n = "length bs"
  let ?fill = "replicate ?m (if unat (bs ! 0) < 128 then 0 else 0xff)"
  have pow: "(256::nat) ^ ?m * 256 ^ ?n = 2 ^ 64" using assms(2) by (simp flip: power_add)
  obtain c cs where bs: "bs = c # cs" using assms(1) by (cases bs) auto
  have le7: "(256::nat) ^ length cs \<le> 256 ^ 7" using assms(2) by (intro power_increasing) (auto simp: bs)
  have V: "int (be_val (?fill @ bs)) = sval bs + (if unat (bs ! 0) < 128 then 0 else 2 ^ 64)"
  proof (cases "unat (bs ! 0) < 128")
    case True
    then show ?thesis by (simp add: be_val_append sval_def be_val_zero_iff)
  next
    case False
    have "(be_val ?fill + 1) * 256 ^ ?n = 2 ^ 64"
      using be_val_replicate_ff [of ?m] pow False by simp
    from arg_cong [OF this, of int] have "int (be_val ?fill) * 256 ^ ?n + 256 ^ ?n = 2 ^ 64"
      by (simp add: distrib_right)
    moreover have "sval bs = int (be_val bs) - 256 ^ ?n" using False by (simp only: sval_def if_False)
    ultimately show ?thesis using False by (simp only: be_val_append of_nat_add of_nat_mult of_nat_power of_nat_numeral if_False)
  qed
  have range: "- (2 ^ 63) \<le> sval bs \<and> sval bs < 2 ^ 63"
  proof (cases "unat (bs ! 0) < 128")
    case True
    then have "be_val bs < 128 * 256 ^ length cs" using be_val_high [of c cs] by (simp only: bs) simp
    then have "be_val bs < 128 * 256 ^ 7" using le7 by linarith
    then show ?thesis using True by (simp add: sval_def)
  next
    case False
    then have "128 * 256 ^ length cs \<le> be_val bs"
      using be_val_high [of c cs] by (simp only: bs) (simp add: not_less)
    then have "256 ^ ?n \<le> be_val bs + 128 * 256 ^ 7" "be_val bs < 256 ^ ?n"
      using le7 be_val_less [of bs] by (simp_all add: bs del: be_val.simps)
    then have "int (256 ^ ?n) \<le> int (be_val bs + 128 * 256 ^ 7)" "int (be_val bs) < int (256 ^ ?n)"
      by (simp_all only: of_nat_le_iff of_nat_less_iff)
    then have "(256::int) ^ ?n \<le> int (be_val bs) + 2 ^ 63" "int (be_val bs) < 256 ^ ?n"
      by (simp_all only: of_nat_power of_nat_add of_nat_mult of_nat_numeral) simp_all
    moreover have "sval bs = int (be_val bs) - 256 ^ ?n" using False by (simp only: sval_def if_False)
    ultimately show ?thesis by linarith
  qed
  have "i64_of_bytes (rev bs @ ?fill) = word_of_int (int (be_val (?fill @ bs)))"
    by (simp add: i64_of_bytes_def)
  also have "\<dots> = word_of_int (sval bs)"
    unfolding V by (simp flip: wi_hom_add)
  finally show ?thesis using range by (simp add: int_word_sint)
qed

definition sign_extended :: "u8 list \<Rightarrow> u8 list" where
  "sign_extended data =
     rev data @ replicate (8 - length data) (if unat (data ! 0) < 128 then 0 else 0xff)"

lemma sign_extend_loop:
  assumes "length data \<le> 8"
  shows "fold (\<lambda>i u. u[i := data ! (length data - i - 1)]) [0..<length data]
      (replicate 8 (if data ! 0 AND 0x80 \<noteq> 0 then 0xff else 0)) = sign_extended data"
  using assms fold_update [of "length data" "replicate 8 (if data ! 0 AND 0x80 \<noteq> 0 then 0xff else 0)"
      "\<lambda>i. data ! (length data - i - 1)"]
  by (simp add: map_rev_index and_80_zero sign_extended_def)

definition minimal_signed :: "u8 list \<Rightarrow> bool" where
  "minimal_signed bs \<longleftrightarrow>
     bs \<noteq> [] \<and> \<not> (1 < length bs \<and> bs ! 0 = 0 \<and> unat (bs ! 1) < 128) \<and>
     \<not> (1 < length bs \<and> bs ! 0 = 0xff \<and> \<not> unat (bs ! 1) < 128)"

lemma CBS_get_asn1_int64_contents:
  "CBS_get_asn1_int64 cbs =
     (case CBS_get_asn1 cbs CBS_ASN1_INTEGER of
        None \<Rightarrow> None
      | Some (data, cbs') \<Rightarrow>
          if length data \<le> 8 \<and> minimal_signed data
          then Some (i64_of_bytes (sign_extended data), cbs') else None)"
proof (cases "CBS_get_asn1 cbs CBS_ASN1_INTEGER")
  case (Some p)
  obtain data r where p: "p = (data, r)" by (cases p)
  show ?thesis
  proof (cases "length data \<le> 8")
    case True
    then show ?thesis
      unfolding CBS_get_asn1_int64_def CBS_data_def CBS_len_def Let_def Some p option.case prod.case
        sign_extend_loop [OF True]
      by (simp add: minimal_signed_def and_80_zero)
  qed (simp add: CBS_get_asn1_int64_def Some p Let_def CBS_len_def)
qed (simp add: CBS_get_asn1_int64_def)

lemma CBS_get_asn1_int64_iff:
  "CBS_get_asn1_int64 cbs = Some (v, rest) \<longleftrightarrow>
     cbs = der CBS_ASN1_INTEGER (sint_octets (sint v)) @ rest"
proof -
  have "CBS_get_asn1_int64 cbs = Some (v, rest) \<longleftrightarrow>
    (\<exists>data. CBS_get_asn1 cbs CBS_ASN1_INTEGER = Some (data, rest) \<and> length data \<le> 8 \<and>
      minimal_signed data \<and> v = i64_of_bytes (sign_extended data))"
    by (auto simp: CBS_get_asn1_int64_contents split: option.splits if_splits)
  also have "\<dots> \<longleftrightarrow> (\<exists>data. (length data < 2 ^ 32 \<and> cbs = der CBS_ASN1_INTEGER data @ rest) \<and>
      length data \<le> 8 \<and> (data \<noteq> [] \<and> data = sint_octets (sval data)) \<and> sint v = sval data)"
    unfolding minimal_signed_def minimal_signed_iff CBS_get_asn1_iff
  proof (intro ex_cong1 conj_cong refl)
    fix data :: cbs
    assume le: "length data \<le> 8" and ne: "data \<noteq> [] \<and> data = sint_octets (sval data)"
    have "sint (i64_of_bytes (sign_extended data)) = sval data"
      unfolding sign_extended_def by (rule sint_i64_of_bytes [OF conjunct1 [OF ne] le])
    then show "v = i64_of_bytes (sign_extended data) \<longleftrightarrow> sint v = sval data"
      by (metis (no_types) signed_word_eqI)
  qed
  also have "\<dots> \<longleftrightarrow> cbs = der CBS_ASN1_INTEGER (sint_octets (sint v)) @ rest" (is "?L = ?R")
  proof
    assume ?R
    have "- (2 ^ 63) \<le> sint v" "sint v < 2 ^ 63"
      using sint_greater_eq [of v] sint_less [of v] by simp_all
    then have "length (sint_octets (sint v)) \<le> 8" by (rule length_sint_octets)
    moreover have "sint_octets (sint v) \<noteq> []"
      using minimal_signed_iff [of "sint_octets (sint v)"] ilen_pos
      by (metis length_be_bytes length_greater_0_conv sint_octets_def slen_def)
    ultimately show ?L using \<open>?R\<close>
      by (intro exI [of _ "sint_octets (sint v)"]) (simp add: sval_sint_octets)
  qed auto
  finally show ?thesis .
qed

section \<open>Booleans and optional fields\<close>

definition bool_octets :: "bool \<Rightarrow> u8 list" where
  "bool_octets v = [if v then 0xff else 0]"

lemma CBS_get_asn1_bool_iff:
  "CBS_get_asn1_bool cbs = Some (v, rest) \<longleftrightarrow> cbs = der CBS_ASN1_BOOLEAN (bool_octets v) @ rest"
proof -
  have "CBS_get_asn1_bool cbs = Some (v, rest) \<longleftrightarrow>
    (\<exists>c. CBS_get_asn1 cbs CBS_ASN1_BOOLEAN = Some (c, rest) \<and> c = bool_octets v)"
    by (auto simp: CBS_get_asn1_bool_def CBS_len_def CBS_data_def Let_def bool_octets_def
        length_Suc_conv split: option.splits if_splits)
  then show ?thesis by (auto simp: CBS_get_asn1_iff bool_octets_def)
qed

text \<open>A tag is there, or it is not: no element is taken for an absent one.\<close>

definition has_tag :: "cbs \<Rightarrow> u32 \<Rightarrow> bool" where
  "has_tag cbs tag \<longleftrightarrow> (\<exists>r. cbs = der_tag tag @ r)"

lemma has_tag_der [simp]: "has_tag (der tag c @ rest) tag"
  by (auto simp: has_tag_def der_def)

lemma CBS_get_optional_asn1_iff:
  "CBS_get_optional_asn1 cbs tag = Some (res, rest) \<longleftrightarrow>
     (case res of
        Some c \<Rightarrow> length c < 2 ^ 32 \<and> cbs = der tag c @ rest
      | None \<Rightarrow> rest = cbs \<and> \<not> has_tag cbs tag)"
proof -
  have "CBS_get_optional_asn1 cbs tag = Some (res, rest) \<longleftrightarrow>
    (if has_tag cbs tag then \<exists>c. res = Some c \<and> CBS_get_asn1 cbs tag = Some (c, rest)
     else res = None \<and> rest = cbs)"
    by (auto simp: CBS_get_optional_asn1_def CBS_peek_asn1_tag_iff has_tag_def split: option.splits)
  then show ?thesis by (auto simp: CBS_get_asn1_iff split: option.splits)
qed

lemma small_tags:
  "der_tag CBS_ASN1_BOOLEAN = [1]" "der_tag CBS_ASN1_INTEGER = [2]" "der_tag CBS_ASN1_OCTETSTRING = [4]"
  by (simp_all add: der_tag_def CBS_ASN1_BOOLEAN_def CBS_ASN1_INTEGER_def CBS_ASN1_OCTETSTRING_def)

text \<open>An optional field that holds one inner element of the given contents.\<close>

lemma optional_iff:
  assumes "\<And>c x r. inner c = Some (x, r) \<longleftrightarrow> ok x \<and> c = enc x @ r"
    and "\<And>x. ok x \<Longrightarrow> length (enc x) < 2 ^ 32"
  shows "(case CBS_get_optional_asn1 cbs tag of
        None \<Rightarrow> None
      | Some (Some child, cbs') \<Rightarrow>
          (case inner child of
             None \<Rightarrow> None
           | Some (out, child') \<Rightarrow> if CBS_len child' \<noteq> 0 then None else Some (f out, cbs'))
      | Some (None, cbs') \<Rightarrow> Some (d, cbs')) = Some (y, rest) \<longleftrightarrow>
    (if has_tag cbs tag then \<exists>x. ok x \<and> y = f x \<and> cbs = der tag (enc x) @ rest else y = d \<and> rest = cbs)"
    (is "?L = ?R")
proof
  assume ?L
  then consider c x r where "CBS_get_optional_asn1 cbs tag = Some (Some c, rest)" "inner c = Some (x, [])" "y = f x"
    | "CBS_get_optional_asn1 cbs tag = Some (None, rest)" "y = d"
    by (auto simp: CBS_len_def split: option.splits if_splits)
  then show ?R
    by cases (auto simp: CBS_get_optional_asn1_iff assms(1))
next
  assume R: ?R
  show ?L
  proof (cases "has_tag cbs tag")
    case True
    with R obtain x where x: "ok x" "y = f x" "cbs = der tag (enc x) @ rest" by auto
    have "CBS_get_optional_asn1 cbs tag = Some (Some (enc x), rest)"
      unfolding CBS_get_optional_asn1_iff using assms(2) [OF x(1)] by (simp add: x)
    moreover have "inner (enc x) = Some (x, [])" by (simp add: assms(1) x)
    ultimately show ?thesis by (simp add: CBS_len_def x)
  next
    case False
    then have "CBS_get_optional_asn1 cbs tag = Some (None, cbs)"
      by (simp add: CBS_get_optional_asn1_iff)
    then show ?thesis using R False by simp
  qed
qed

lemma CBS_get_optional_asn1_uint64_iff:
  "CBS_get_optional_asn1_uint64 cbs tag d = Some (v, rest) \<longleftrightarrow>
     (if has_tag cbs tag
      then cbs = der tag (der CBS_ASN1_INTEGER (uint_octets (unat v))) @ rest
      else v = d \<and> rest = cbs)"
proof -
  let ?enc = "\<lambda>x::u64. der CBS_ASN1_INTEGER (uint_octets (unat x))"
  have len: "length (?enc x) < 4294967296" for x
  proof -
    have "length (uint_octets (unat x)) \<le> 9"
      using ilen_u64 [of "unat x"] by (simp add: length_uint_octets)
    then show ?thesis by (simp add: der_def der_len_def small_tags)
  qed
  show ?thesis
    unfolding CBS_get_optional_asn1_uint64_def
    by (subst optional_iff [where ok = "\<lambda>_. True" and enc = ?enc and f = "\<lambda>x. x"])
      (auto simp: CBS_get_asn1_uint64_iff len)
qed

lemma CBS_get_optional_asn1_bool_iff:
  "CBS_get_optional_asn1_bool cbs tag d = Some (v, rest) \<longleftrightarrow>
     (if has_tag cbs tag
      then \<exists>b. v = of_bool b \<and> cbs = der tag (der CBS_ASN1_BOOLEAN (bool_octets b)) @ rest
      else v = d \<and> rest = cbs)"
proof -
  let ?enc = "\<lambda>b. der CBS_ASN1_BOOLEAN (bool_octets b)"
  have len: "length (?enc b) < 4294967296" for b
    by (simp add: bool_octets_def der_def der_len_def small_tags)
  have "CBS_get_optional_asn1_bool cbs tag d =
     (case CBS_get_optional_asn1 cbs tag of
        None \<Rightarrow> None
      | Some (Some child, cbs') \<Rightarrow>
          (case CBS_get_asn1_bool child of
             None \<Rightarrow> None
           | Some (out, child') \<Rightarrow> if CBS_len child' \<noteq> 0 then None else Some (of_bool out, cbs'))
      | Some (None, cbs') \<Rightarrow> Some (d, cbs'))"
    by (auto simp: CBS_get_optional_asn1_bool_def CBS_get_asn1_bool_def Let_def split: option.splits)
  then show ?thesis
    by (simp only:, subst optional_iff [where ok = "\<lambda>_. True" and enc = ?enc])
      (auto simp: CBS_get_asn1_bool_iff len)
qed

lemma CBS_get_optional_asn1_octet_string_iff:
  "CBS_get_optional_asn1_octet_string cbs tag = Some (out, present, rest) \<longleftrightarrow>
     (if has_tag cbs tag
      then present \<and> length (der CBS_ASN1_OCTETSTRING out) < 2 ^ 32 \<and>
        cbs = der tag (der CBS_ASN1_OCTETSTRING out) @ rest
      else out = [] \<and> \<not> present \<and> rest = cbs)"
proof -
  let ?enc = "\<lambda>c. der CBS_ASN1_OCTETSTRING c" 
  have "CBS_get_optional_asn1_octet_string cbs tag = Some (out, present, rest) \<longleftrightarrow>
    (\<exists>c. present \<and> CBS_get_optional_asn1 cbs tag = Some (Some c, rest) \<and>
       CBS_get_asn1 c CBS_ASN1_OCTETSTRING = Some (out, [])) \<or>
    CBS_get_optional_asn1 cbs tag = Some (None, rest) \<and> out = [] \<and> \<not> present"
    by (auto simp: CBS_get_optional_asn1_octet_string_def CBS_len_def CBS_init_def split: option.splits)
  also have "\<dots> \<longleftrightarrow> (if has_tag cbs tag
      then present \<and> length (?enc out) < 2 ^ 32 \<and> cbs = der tag (?enc out) @ rest
      else out = [] \<and> \<not> present \<and> rest = cbs)"
    by (auto simp: CBS_get_optional_asn1_iff CBS_get_asn1_iff length_der)
  finally show ?thesis .
qed

end
