(* ===== verification/Cbb_Ops.thy ===== *)
theory Cbb_Ops
  imports Cbb_Flush Cbs_Readers Der_Int
begin

text \<open>
  The operations of \<^verbatim>\<open>cbb.c\<close> as appends: each call on a \<open>CBB\<close> closes what is pending
  inside it and adds bytes at its end, or fails and leaves the buffer marked as failed. The
  lemmas compose, so the bytes an operation writes are read off the calls it is made of.
\<close>

section \<open>States\<close>

definition cbb_start :: "cbb_st \<Rightarrow> nat" where
  "cbb_start c = offset c + pending_len_len c"

definition failed :: "cbb_state \<Rightarrow> bool" where
  "failed st \<longleftrightarrow> (case base st of None \<Rightarrow> True | Some b \<Rightarrow> b_error b)"

text \<open>The well-formed states: the first object has no prefix, its descendants are in order.\<close>

definition cbb_ok :: "cbb_state \<Rightarrow> bool" where
  "cbb_ok st \<longleftrightarrow>
     (case base st of
        None \<Rightarrow> True
      | Some b \<Rightarrow> buffer_ok b \<and>
          (\<not> b_error b \<longrightarrow> (\<exists>c cs. chain st = c # cs \<and> cbb_start c = 0 \<and> desc_ok 0 (b_len b) cs)))"

text \<open>What the buffer would hold after \<open>CBB_flush\<close> on the object at \<open>i\<close>.\<close>

definition flushed :: "nat \<Rightarrow> cbb_state \<Rightarrow> u8 list option" where
  "flushed i st =
     (case base st of
        None \<Rightarrow> None
      | Some b \<Rightarrow>
          let lo = cbb_start (chain st ! i) in
          map_option (\<lambda>c. take lo (written b) @ c) (closed (written b) lo (drop (Suc i) (chain st))))"

text \<open>
  A call that appends \<open>res\<close> to the object at \<open>i\<close>, seen from the state \<open>st\<close>. With \<open>None\<close> it
  always fails; with \<open>Some bs\<close> it fails only when the pending children cannot be closed or
  there is no room.
\<close>

definition appends_at ::
    "allocator \<Rightarrow> cbb_op \<Rightarrow> nat \<Rightarrow> u8 list option \<Rightarrow> cbb_state \<Rightarrow> bool" where
  "appends_at m f i res st \<longleftrightarrow>
     (case f st of (ok, st') \<Rightarrow>
        cbb_ok st' \<and>
        (if ok then
           \<exists>w bs b b'. base st = Some b \<and> flushed i st = Some w \<and> res = Some bs \<and>
             base st' = Some b' \<and> written b' = w @ bs \<and> wrote m b b' \<and>
             chain st' = take (Suc i) (chain st)
         else failed st' \<and>
           (\<forall>w bs b. base st = Some b \<and> flushed i st = Some w \<and> res = Some bs \<longrightarrow>
              \<not> room m b (length w + length bs))))"

definition usable :: "nat \<Rightarrow> cbb_state \<Rightarrow> bool" where
  "usable i st \<longleftrightarrow> cbb_ok st \<and> \<not> failed st \<and> i < length (chain st)"

definition appends :: "allocator \<Rightarrow> cbb_op \<Rightarrow> nat \<Rightarrow> u8 list option \<Rightarrow> bool" where
  "appends m f i res \<longleftrightarrow> (\<forall>st. usable i st \<longrightarrow> appends_at m f i res st)"

text \<open>The same from states with nothing pending inside the object at \<open>i\<close>.\<close>

definition appends_flat :: "allocator \<Rightarrow> cbb_op \<Rightarrow> nat \<Rightarrow> u8 list option \<Rightarrow> bool" where
  "appends_flat m f i res \<longleftrightarrow>
     (\<forall>st. usable i st \<and> length (chain st) = Suc i \<longrightarrow> appends_at m f i res st)"

definition ocat :: "u8 list option \<Rightarrow> u8 list option \<Rightarrow> u8 list option" where
  "ocat x y = (case x of None \<Rightarrow> None | Some a \<Rightarrow> map_option ((@) a) y)"

lemma ocat_simps [simp]:
  "ocat None y = None" "ocat (Some a) None = None" "ocat (Some a) (Some b) = Some (a @ b)"
  by (simp_all add: ocat_def)

section \<open>The chain\<close>

definition end_of :: "nat \<Rightarrow> cbb_st list \<Rightarrow> nat" where
  "end_of lo cs = (if cs = [] then lo else cbb_start (last cs))"

lemma desc_ok_split: "desc_ok lo n (xs @ ys) \<longleftrightarrow> desc_ok lo (end_of lo xs) xs \<and> desc_ok (end_of lo xs) n ys"
proof (induction xs arbitrary: lo)
  case (Cons c xs)
  have "end_of lo (c # xs) = end_of (cbb_start c) xs" by (simp add: end_of_def)
  then show ?case using Cons by (simp add: cbb_start_def)
qed (simp add: end_of_def)

lemma desc_ok_end: "desc_ok lo n xs \<longleftrightarrow> desc_ok lo (end_of lo xs) xs \<and> end_of lo xs \<le> n"
  using desc_ok_split [of lo n xs "[]"] by simp

lemma usable_obtain:
  assumes "usable i st"
  obtains b where "base st = Some b" "buffer_ok b" "\<not> b_error b"
    "desc_ok 0 (cbb_start (chain st ! i)) (tl (take (Suc i) (chain st)))"
    "desc_ok (cbb_start (chain st ! i)) (b_len b) (drop (Suc i) (chain st))"
    "cbb_start (hd (chain st)) = 0" "chain st \<noteq> []"
proof -
  obtain b c cs where b: "base st = Some b" "buffer_ok b" "\<not> b_error b" "chain st = c # cs"
      "cbb_start c = 0" "desc_ok 0 (b_len b) cs"
    using assms by (auto simp: usable_def cbb_ok_def failed_def split: option.splits)
  have i: "i \<le> length cs" using assms b(4) by (simp add: usable_def)
  have "end_of 0 (take i cs) = cbb_start (chain st ! i)"
  proof (cases i)
    case (Suc k)
    then have "take i cs = take k cs @ [cs ! k]" using i by (simp add: take_Suc_conv_app_nth)
    then show ?thesis using Suc by (simp add: end_of_def b(4))
  qed (simp add: end_of_def b(4,5))
  then show thesis
    using that [of b] b desc_ok_split [of 0 "b_len b" "take i cs" "drop i cs"] by simp
qed

lemma cbb_ok_flat:
  assumes "usable i st" "buffer_ok b'" "cbb_start (chain st ! i) \<le> b_len b'"
    "base st' = Some b'" "chain st' = take (Suc i) (chain st)"
  shows "cbb_ok st'"
proof -
  obtain b where b: "desc_ok 0 (cbb_start (chain st ! i)) (tl (take (Suc i) (chain st)))"
      "cbb_start (hd (chain st)) = 0" "chain st \<noteq> []"
    using usable_obtain [OF assms(1)] by metis
  have "desc_ok 0 (b_len b') (tl (take (Suc i) (chain st)))"
    using b(1) assms(3) desc_ok_end by (meson le_trans)
  then show ?thesis
    using b(2,3) assms(2,4,5) by (cases "chain st") (auto simp: cbb_ok_def)
qed

lemma flushed_flat:
  assumes "usable i st" "length (chain st) = Suc i" "base st = Some b"
  shows "flushed i st = Some (written b)"
  using assms by (simp add: flushed_def Let_def)

lemma flushed_length:
  assumes "usable i st" "flushed i st = Some w"
  shows "cbb_start (chain st ! i) \<le> length w"
proof -
  obtain b where b: "base st = Some b" "buffer_ok b"
      "desc_ok (cbb_start (chain st ! i)) (b_len b) (drop (Suc i) (chain st))"
    using usable_obtain [OF assms(1)] by metis
  then have "cbb_start (chain st ! i) \<le> b_len b" using desc_ok_le by blast
  then show ?thesis using assms(2) b by (auto simp: flushed_def Let_def)
qed

text \<open>The state after an append.\<close>

lemma appends_at_ok:
  assumes "usable i st" "appends_at m f i res st" "f st = (True, st')"
  obtains w bs b b' where "base st = Some b" "flushed i st = Some w" "res = Some bs" "base st' = Some b'"
    "written b' = w @ bs" "wrote m b b'" "chain st' = take (Suc i) (chain st)"
    "usable i st'" "length (chain st') = Suc i" "flushed i st' = Some (w @ bs)"
proof -
  obtain w bs b b' where a: "base st = Some b" "flushed i st = Some w" "res = Some bs" "base st' = Some b'"
      "written b' = w @ bs" "wrote m b b'" "chain st' = take (Suc i) (chain st)" and ok': "cbb_ok st'"
    using assms(2,3) by (auto simp: appends_at_def)
  have "\<not> b_error b" using assms(1) a(1) by (simp add: usable_def failed_def)
  moreover have len: "length (chain st') = Suc i" using assms(1) by (simp add: a(7) usable_def)
  ultimately have u: "usable i st'" using a(4,6) ok' by (simp add: usable_def failed_def wrote_def)
  show thesis using that [OF a u len] flushed_flat [OF u len a(4)] a(5) by simp
qed

lemma appends_at_then:
  assumes u: "usable i st" and fa: "appends_at m f i rf st" and g: "appends_flat m g i rg"
  shows "appends_at m (and_then f g) i (ocat rf rg) st"
proof -
  obtain ok st1 where f1: "f st = (ok, st1)" by (cases "f st")
  show "appends_at m (and_then f g) i (ocat rf rg) st"
  proof (cases ok)
    case False
    have "\<not> room m b (length w + length bs)"
      if res: "base st = Some b" "flushed i st = Some w" "ocat rf rg = Some bs" for w bs b
    proof -
      obtain xs ys where "rf = Some xs" "bs = xs @ ys"
        using res(3) by (cases rf; cases rg) auto
      then have "\<not> room m b (length w + length xs)"
        using fa False res by (simp add: appends_at_def f1)
      then show ?thesis using room_le [of m b "length w + length bs" "length w + length xs"] \<open>bs = xs @ ys\<close> by auto
    qed
    then show ?thesis
      using fa False by (auto simp: appends_at_def f1 and_then_def)
  next
    case True
    then obtain w xs b b1 where a: "base st = Some b" "flushed i st = Some w" "rf = Some xs" "base st1 = Some b1"
        "written b1 = w @ xs" "wrote m b b1" "chain st1 = take (Suc i) (chain st)" "usable i st1"
        "length (chain st1) = Suc i" "flushed i st1 = Some (w @ xs)"
      using appends_at_ok [OF u fa] f1 by metis
    have ga: "appends_at m g i rg st1" using g a(8,9) by (simp add: appends_flat_def)
    obtain ok2 st2 where g2: "g st1 = (ok2, st2)" by (cases "g st1")
    have len1: "b_len b1 = length w + length xs"
      using length_written [of b1] a(5,6) by (simp add: wrote_def)
    show ?thesis
    proof (cases ok2)
      case True
      with g2 have "g st1 = (True, st2)" by simp
      from appends_at_ok [OF a(8) ga this] obtain w1 ys b1' b2 where
        c': "base st1 = Some b1'" "flushed i st1 = Some w1" "rg = Some ys" "base st2 = Some b2"
          "written b2 = w1 @ ys" "wrote m b1' b2" "chain st2 = take (Suc i) (chain st1)" .
      then have c: "rg = Some ys" "base st2 = Some b2" "written b2 = w @ xs @ ys" "wrote m b1 b2"
          "chain st2 = take (Suc i) (chain st)"
        using a(4,7,10) by simp_all
      have "b_len b2 = length w + length xs + length ys"
        using length_written [of b2] c(3,4) by (simp add: wrote_def)
      then have "wrote m b b2" using wrote_trans [OF a(6) c(4)] len1 by simp
      moreover have "cbb_ok st2" using ga True by (simp add: appends_at_def g2)
      ultimately show ?thesis
        using a c True \<open>ok\<close> by (simp add: appends_at_def and_then_def f1 g2)
    next
      case False
      have "\<not> room m b (length w + length bs)" if res: "ocat rf rg = Some bs" for bs
      proof -
        obtain ys where ys: "rg = Some ys" "bs = xs @ ys" using res a(3) by (cases rg) auto
        then have "\<not> room m b1 (length (w @ xs) + length ys)"
          using ga False a by (simp add: appends_at_def g2)
        then show ?thesis using wrote_not_room [OF a(6)] len1 ys by (simp add: add.assoc)
      qed
      moreover have "cbb_ok st2" "failed st2" using ga False by (simp_all add: appends_at_def g2)
      ultimately show ?thesis
        using False \<open>ok\<close> a(1,2) by (simp add: appends_at_def and_then_def f1 g2)
    qed
  qed
qed

lemma appends_then_flat: "appends m f i rf \<Longrightarrow> appends_flat m g i rg \<Longrightarrow> appends m (and_then f g) i (ocat rf rg)"
  unfolding appends_def by (blast intro: appends_at_then)

lemma appends_flat_then: "appends_flat m f i rf \<Longrightarrow> appends_flat m g i rg \<Longrightarrow> appends_flat m (and_then f g) i (ocat rf rg)"
  unfolding appends_flat_def by (blast intro: appends_at_then [unfolded appends_flat_def])

lemma appends_flatI: "appends m f i res \<Longrightarrow> appends_flat m f i res"
  by (simp add: appends_def appends_flat_def)

lemma appends_then: "appends m f i rf \<Longrightarrow> appends m g i rg \<Longrightarrow> appends m (and_then f g) i (ocat rf rg)"
  by (blast intro: appends_then_flat appends_flatI)

section \<open>Flushing, integers and bytes\<close>

lemma CBB_flush_usable:
  assumes "usable i st" "base st = Some b" "cbb_flush m b (drop (Suc i) (chain st)) = (ok, b', desc)"
  shows "CBB_flush m i st = (ok, st\<lparr>base := Some b', chain := take (Suc i) (chain st) @ desc\<rparr>)"
  using assms by (simp add: CBB_flush_def usable_def)

lemma appends_CBB_flush:
  assumes "malloc_ok m"
  shows "appends m (CBB_flush m i) i (Some [])"
  unfolding appends_def
proof (intro allI impI)
  fix st assume u: "usable i st"
  obtain b where b: "base st = Some b" "buffer_ok b" "\<not> b_error b"
      "desc_ok (cbb_start (chain st ! i)) (b_len b) (drop (Suc i) (chain st))"
    using usable_obtain [OF u] by metis
  obtain ok b' desc where r: "cbb_flush m b (drop (Suc i) (chain st)) = (ok, b', desc)"
    by (metis prod_cases3)
  let ?lo = "cbb_start (chain st ! i)"
  have post: "flush_post m b ?lo (drop (Suc i) (chain st)) (ok, b', desc)"
    using cbb_flush_post [OF assms b(2,3,4)] by (simp add: r)
  have lo: "?lo \<le> length (written b)" using desc_ok_le [OF b(4)] b(2) by simp
  note fl = CBB_flush_usable [OF u b(1) r]
  let ?st' = "st\<lparr>base := Some b', chain := take (Suc i) (chain st) @ desc\<rparr>"
  show "appends_at m (CBB_flush m i) i (Some []) st"
  proof (cases ok)
    case True
    then obtain c where c: "desc = []" "wrote m b b'" "closed (written b) ?lo (drop (Suc i) (chain st)) = Some c"
        "written b' = take ?lo (written b) @ c" using post by (auto simp: flush_post_def)
    have "length (written b') = ?lo + length c" using c(4) lo by simp
    moreover have ok': "buffer_ok b'" using c(2) by (simp add: wrote_def)
    ultimately have "?lo \<le> b_len b'" by simp
    then have "cbb_ok ?st'" by (intro cbb_ok_flat [OF u ok']) (simp_all add: c(1))
    then show ?thesis
      using True b(1) c by (auto simp: appends_at_def fl flushed_def Let_def)
  next
    case False
    have "\<not> room m b (length w)" if w: "flushed i st = Some w" for w
    proof -
      obtain c where "closed (written b) ?lo (drop (Suc i) (chain st)) = Some c" "w = take ?lo (written b) @ c"
        using w b(1) by (auto simp: flushed_def Let_def)
      then show ?thesis using post False lo by (simp add: flush_post_def)
    qed
    moreover have "buffer_ok b'" "b_error b'" using post False by (simp_all add: flush_post_def)
    ultimately show ?thesis
      using False b(1) by (simp add: appends_at_def fl cbb_ok_def failed_def)
  qed
qed

text \<open>Nothing pending: the flush does nothing.\<close>

lemma CBB_flush_flat:
  assumes "usable i st" "length (chain st) = Suc i"
  shows "CBB_flush m i st = (True, st)"
  using assms by (auto simp: CBB_flush_def usable_def failed_def split: option.splits)

text \<open>A failed \<open>CBB\<close> stays failed.\<close>

lemma CBB_flush_failed: "failed st \<Longrightarrow> CBB_flush m i st = (False, st)"
proof -
  assume f: "failed st"
  have "cbb_flush m b cs = (False, b, cs)" if "b_error b" for b cs
    using that by (cases cs) simp_all
  then show ?thesis
    using f append_take_drop_id [of "Suc i" "chain st"]
    by (auto simp: CBB_flush_def failed_def split: option.splits)
qed

lemma and_then_flush_failed: "failed st \<Longrightarrow> and_then (CBB_flush m i) g st = (False, st)"
  by (simp add: and_then_def CBB_flush_failed)

text \<open>A write at the end of the buffer, from a state with nothing pending.\<close>

lemma appends_flat_raw:
  assumes ok: "\<And>b. buffer_ok b \<Longrightarrow> \<not> b_error b \<Longrightarrow>
    (case f (Some b) of
       (ok, Some b') \<Rightarrow>
         if ok then wrote m b b' \<and> (\<exists>bs. res = Some bs \<and> written b' = written b @ bs)
         else buffer_ok b' \<and> b_error b' \<and> (\<forall>bs. res = Some bs \<longrightarrow> \<not> room m b (b_len b + length bs))
     | (ok, None) \<Rightarrow> False)"
  shows "appends_flat m (\<lambda>st. case f (base st) of (ok, ob) \<Rightarrow> (ok, st\<lparr>base := ob\<rparr>)) i res"
  unfolding appends_flat_def
proof (intro allI impI, elim conjE)
  fix st assume u: "usable i st" and len: "length (chain st) = Suc i"
  obtain b where b: "base st = Some b" "buffer_ok b" "\<not> b_error b"
      "desc_ok (cbb_start (chain st ! i)) (b_len b) (drop (Suc i) (chain st))"
    using usable_obtain [OF u] by metis
  have lo: "cbb_start (chain st ! i) \<le> b_len b" using desc_ok_le [OF b(4)] .
  note fl = flushed_flat [OF u len b(1)]
  note post = ok [OF b(2,3)]
  obtain okf b' where f: "f (Some b) = (okf, Some b')"
    using post by (cases "f (Some b)") (auto split: option.splits)
  let ?st' = "st\<lparr>base := Some b'\<rparr>"
  show "appends_at m (\<lambda>st. case f (base st) of (ok, ob) \<Rightarrow> (ok, st\<lparr>base := ob\<rparr>)) i res st"
  proof (cases okf)
    case True
    then obtain bs where bs: "wrote m b b'" "res = Some bs" "written b' = written b @ bs"
      using post by (auto simp: f)
    have ok': "buffer_ok b'" using bs(1) by (simp add: wrote_def)
    have "b_len b' = b_len b + length bs" using length_written [OF ok'] b(2) by (simp add: bs(3))
    then have "cbb_ok ?st'" using lo len by (intro cbb_ok_flat [OF u ok']) simp_all
    then show ?thesis using True bs b(1) len by (simp add: appends_at_def f fl)
  next
    case False
    then show ?thesis using post b by (simp add: appends_at_def f fl cbb_ok_def failed_def)
  qed
qed

lemma appends_add_u:
  assumes "malloc_ok m" "0 < n" "n \<le> 8"
  shows "appends m (add_u m i v n) i (if unat v < 256 ^ n then Some (be_bytes n (unat v)) else None)"
proof -
  let ?res = "if unat v < 256 ^ n then Some (be_bytes n (unat v)) else None"
  have "appends_flat m (\<lambda>st. case cbb_buffer_add_u m (base st) v n of (ok, ob) \<Rightarrow> (ok, st\<lparr>base := ob\<rparr>)) i ?res"
  proof (rule appends_flat_raw)
    fix b assume b: "buffer_ok b" "\<not> b_error b"
    show "case cbb_buffer_add_u m (Some b) v n of
       (ok, Some b') \<Rightarrow>
         if ok then wrote m b b' \<and> (\<exists>bs. ?res = Some bs \<and> written b' = written b @ bs)
         else buffer_ok b' \<and> b_error b' \<and> (\<forall>bs. ?res = Some bs \<longrightarrow> \<not> room m b (b_len b + length bs))
     | (ok, None) \<Rightarrow> False"
      by (cases rule: cbb_buffer_add_u_cases [OF assms(1) b(1) assms(2,3), of v]) auto
  qed
  from appends_then_flat [OF appends_CBB_flush [OF assms(1)] this]
  show ?thesis by (simp add: add_u_def split: if_splits)
qed

text \<open>\<open>cbb_buffer_add\<close> followed by a store of \<open>bs\<close> into the new space.\<close>

lemma cbb_buffer_add_store:
  assumes "malloc_ok m" "buffer_ok b" "length bs < 2 ^ 63"
  obtains (ok) b1 where "cbb_buffer_add m (Some b) (length bs) = (Some (b_len b), Some b1)"
      "wrote m b (b1\<lparr>b_buf := memcpy_at (b_buf b1) (b_len b) bs (length bs)\<rparr>)"
      "written (b1\<lparr>b_buf := memcpy_at (b_buf b1) (b_len b) bs (length bs)\<rparr>) = written b @ bs"
  | (fail) "cbb_buffer_add m (Some b) (length bs) = (None, Some (b\<lparr>b_error := True\<rparr>))"
      "\<not> room m b (b_len b + length bs)"
proof (cases rule: cbb_buffer_add_cases [OF assms, case_names ok' fail'])
  case (ok' b0)
  let ?b1 = "b0\<lparr>b_len := b_len b + length bs\<rparr>"
  have g: "buffer_ok b0" "written b0 = written b" "b_len b0 = b_len b" "b_len b + length bs \<le> length (b_buf b0)"
    using ok'(2) by (auto simp: grown_def buffer_ok_def)
  have "wrote m b ?b1" by (rule grown_wrote [OF ok'(2)]) simp_all
  then have "wrote m b (?b1\<lparr>b_buf := memcpy_at (b_buf ?b1) (b_len b) bs (length bs)\<rparr>)"
    by (rule wrote_buf) (use g(4) in \<open>simp add: memcpy_at_def\<close>)
  moreover have "written (?b1\<lparr>b_buf := memcpy_at (b_buf ?b1) (b_len b) bs (length bs)\<rparr>) = written b @ bs"
    using g take_splice [of "b_len b" "b_buf b0" "written b" bs]
    by (simp add: written_def memcpy_at_def)
  ultimately show thesis using ok'(1) by (intro ok [of ?b1]) simp_all
next
  case fail'
  then show thesis by (rule fail)
qed

lemma appends_CBB_add_bytes:
  assumes "malloc_ok m" "len \<le> length data" "len < 2 ^ 63"
  shows "appends m (CBB_add_bytes m i data len) i (Some (take len data))"
proof -
  let ?f = "\<lambda>ob. case cbb_buffer_add m ob len of
      (Some dest, Some b) \<Rightarrow> (True, Some (b\<lparr>b_buf := memcpy_at (b_buf b) dest data len\<rparr>))
    | (_, ob) \<Rightarrow> (False, ob)"
  have eq: "CBB_add_bytes m i data len =
      and_then (CBB_flush m i) (\<lambda>st. case ?f (base st) of (ok, ob) \<Rightarrow> (ok, st\<lparr>base := ob\<rparr>))"
    unfolding CBB_add_bytes_def by (intro arg_cong [where f = "and_then _"] ext) (auto split: option.splits prod.splits)
  have mc: "memcpy_at buf n data len = memcpy_at buf n (take len data) (length (take len data))" for buf n
    using assms(2) by (simp add: memcpy_at_def min_def)
  have l: "length (take len data) = len" using assms(2) by simp
  have "appends_flat m (\<lambda>st. case ?f (base st) of (ok, ob) \<Rightarrow> (ok, st\<lparr>base := ob\<rparr>)) i (Some (take len data))"
  proof (rule appends_flat_raw)
    fix b assume b: "buffer_ok b" "\<not> b_error b"
    show "case ?f (Some b) of
       (ok, Some b') \<Rightarrow>
         if ok then wrote m b b' \<and> (\<exists>bs. Some (take len data) = Some bs \<and> written b' = written b @ bs)
         else buffer_ok b' \<and> b_error b' \<and>
           (\<forall>bs. Some (take len data) = Some bs \<longrightarrow> \<not> room m b (b_len b + length bs))
     | (ok, None) \<Rightarrow> False"
    proof (cases rule: cbb_buffer_add_store [OF assms(1) b(1), of "take len data", case_names prem ok' fail'])
      case prem
      then show ?case using assms(3) l by simp
    next
      case (ok' b1)
      note ok' = ok' [unfolded mc [symmetric], unfolded l]
      show ?thesis using ok' by simp
    next
      case fail'
      note fail' = fail' [unfolded l]
      then show ?thesis using b(1) assms(2) by (simp add: min_absorb2)
    qed
  qed
  from appends_then_flat [OF appends_CBB_flush [OF assms(1)] this] show ?thesis by (simp add: eq)
qed

section \<open>Children\<close>

text \<open>The prefix of \<open>n\<close> bytes, or of ASN.1, before \<open>inner\<close>.\<close>

definition prefixed :: "bool \<Rightarrow> nat \<Rightarrow> u8 list \<Rightarrow> u8 list option" where
  "prefixed asn1 n inner =
     close_prefix \<lparr>offset = 0, pending_len_len = n, pending_is_asn1 = asn1, is_child = True\<rparr> inner"

lemma close_prefix_prefixed:
  "close_prefix \<lparr>offset = off, pending_len_len = n, pending_is_asn1 = asn1, is_child = ch\<rparr> inner = prefixed asn1 n inner"
  by (simp add: close_prefix_def prefixed_def)

text \<open>A call that writes \<open>hdr\<close> and opens a child with a prefix after it.\<close>

definition opens ::
    "allocator \<Rightarrow> cbb_op \<Rightarrow> nat \<Rightarrow> u8 list \<Rightarrow> bool \<Rightarrow> nat \<Rightarrow> bool" where
  "opens m f i hdr asn1 n \<longleftrightarrow> (\<forall>st. usable i st \<longrightarrow>
     (case f st of (ok, st') \<Rightarrow>
        cbb_ok st' \<and>
        (if ok then
           \<exists>w z b b'. base st = Some b \<and> flushed i st = Some w \<and> base st' = Some b' \<and>
             written b' = w @ hdr @ z \<and> length z = n \<and> wrote m b b' \<and>
             chain st' = take (Suc i) (chain st) @
               [\<lparr>offset = length w + length hdr, pending_len_len = n, pending_is_asn1 = asn1, is_child = True\<rparr>]
         else failed st' \<and>
           (\<forall>w b. base st = Some b \<and> flushed i st = Some w \<longrightarrow>
              \<not> room m b (length w + length hdr + n)))))"

lemma prefixed_length: "prefixed asn1 n bs = Some p \<Longrightarrow> 0 < n \<Longrightarrow> asn1 \<longrightarrow> n = 1 \<Longrightarrow> n + length bs \<le> length p"
  using close_prefix_length [of "\<lparr>offset = 0, pending_len_len = n, pending_is_asn1 = asn1, is_child = True\<rparr>" bs p]
  by (simp add: prefixed_def)

definition in_child :: "bool \<Rightarrow> nat \<Rightarrow> u8 list \<Rightarrow> u8 list option \<Rightarrow> u8 list option" where
  "in_child asn1 n hdr res =
     (case res of None \<Rightarrow> None | Some bs \<Rightarrow> map_option ((@) hdr) (prefixed asn1 n bs))"

lemma appends_in_child:
  assumes m: "malloc_ok m" and push: "opens m push i hdr asn1 n" and body: "appends_flat m body (Suc i) res"
    and n: "0 < n" "asn1 \<longrightarrow> n = 1"
  shows "appends m (and_then push (and_then body (CBB_flush m i))) i (in_child asn1 n hdr res)"
  unfolding appends_def
proof (intro allI impI)
  fix st assume u: "usable i st"
  let ?op = "and_then push (and_then body (CBB_flush m i))" and ?res = "in_child asn1 n hdr res"
  obtain ok1 st1 where p1: "push st = (ok1, st1)" by (cases "push st")
  note P = push [unfolded opens_def, THEN spec, THEN mp, OF u, unfolded p1 prod.case]
  have long: "n + length bs + length hdr \<le> length xs" if res: "res = Some bs" "?res = Some xs" for bs xs
    using res n prefixed_length [of asn1 n bs] by (auto simp: in_child_def)
  have longer: "n + length hdr \<le> length xs" if "?res = Some xs" for xs
    using that long [of _ xs] by (cases res) (fastforce simp: in_child_def)+
  show "appends_at m ?op i ?res st"
  proof (cases ok1)
    case False
    have "\<not> room m b (length w + length xs)"
      if "base st = Some b" "flushed i st = Some w" "?res = Some xs" for b w xs
      using P False that longer [of xs] room_le [of m b "length w + length xs" "length w + length hdr + n"]
      by auto
    then show ?thesis using P False by (auto simp: appends_at_def and_then_def p1)
  next
    case True
    then obtain w z b b1 where a: "base st = Some b" "flushed i st = Some w" "base st1 = Some b1"
        "written b1 = w @ hdr @ z" "length z = n" "wrote m b b1"
        "chain st1 = take (Suc i) (chain st) @
          [\<lparr>offset = length w + length hdr, pending_len_len = n, pending_is_asn1 = asn1, is_child = True\<rparr>]"
      and ok1: "cbb_ok st1"
      using P by auto
    have ne: "\<not> b_error b" using u a(1) by (simp add: usable_def failed_def)
    have i: "i < length (chain st)" using u by (simp add: usable_def)
    have len: "length (chain st1) = Suc (Suc i)" using i by (simp add: a(7))
    have u1: "usable (Suc i) st1" using ok1 a(3,6) ne len by (simp add: usable_def failed_def wrote_def)
    have fl1: "flushed (Suc i) st1 = Some (w @ hdr @ z)" using flushed_flat [OF u1 len a(3)] a(4) by simp
    have ba: "appends_at m body (Suc i) res st1" using body u1 len by (simp add: appends_flat_def)
    have len1: "b_len b1 = length w + length hdr + n"
      using length_written [of b1] a(4,5,6) by (simp add: wrote_def)
    obtain ok2 st2 where p2: "body st1 = (ok2, st2)" by (cases "body st1")
    show ?thesis
    proof (cases ok2)
      case False
      have "\<not> room m b (length w + length xs)" if xs: "?res = Some xs" for xs
      proof -
        obtain bs where bs: "res = Some bs" using xs by (cases res) (auto simp: in_child_def)
        have "\<not> room m b1 (length (w @ hdr @ z) + length bs)"
          using ba False a(3) fl1 bs by (simp add: appends_at_def p2)
        then have "\<not> room m b (length (w @ hdr @ z) + length bs)"
          by (rule wrote_not_room [OF a(6)]) (simp add: len1 a(5))
        then show ?thesis
          using long [OF bs xs] a(5) room_le [of m b "length w + length xs" "length (w @ hdr @ z) + length bs"]
          by auto
      qed
      moreover have "cbb_ok st2" "failed st2" using ba False by (simp_all add: appends_at_def p2)
      ultimately show ?thesis
        using False True a(1,2) by (simp add: appends_at_def and_then_def p1 p2)
    next
      case ok2: True
      with p2 have "body st1 = (True, st2)" by simp
      from appends_at_ok [OF u1 ba this] obtain w' bs b1' b2 where
        c': "base st1 = Some b1'" "flushed (Suc i) st1 = Some w'" "res = Some bs" "base st2 = Some b2"
          "written b2 = w' @ bs" "wrote m b1' b2" "chain st2 = take (Suc (Suc i)) (chain st1)" "usable (Suc i) st2" .
      then have c: "res = Some bs" "written b2 = w @ hdr @ z @ bs" "wrote m b1 b2" "chain st2 = chain st1"
        using a(3) fl1 len by simp_all
      have u2: "usable i st2" using c'(8) by (simp add: usable_def)
      have len2: "b_len b2 = b_len b1 + length bs"
        using length_written [of b2] c(2,3) by (simp add: wrote_def len1 a(5))
      have wr2: "wrote m b b2" by (rule wrote_trans [OF a(6) c(3)]) (simp add: len2)
      have start: "cbb_start (chain st2 ! i) = cbb_start (chain st ! i)" using i by (simp add: c(4) a(7) nth_append)
      have le: "cbb_start (chain st ! i) \<le> length w" by (rule flushed_length [OF u a(2)])
      have "flushed i st2 = map_option ((@) (w @ hdr)) (prefixed asn1 n bs)"
      proof -
        have "drop (Suc i) (chain st2) = [\<lparr>offset = length w + length hdr, pending_len_len = n,
            pending_is_asn1 = asn1, is_child = True\<rparr>]"
          using i by (simp add: c(4) a(7))
        moreover have split: "take k w @ drop k w @ ys = w @ ys" for k ys
          by (metis append.assoc append_take_drop_id)
        ultimately show ?thesis
          using le a(5)
          by (simp add: split flushed_def Let_def c'(4) start c(2) close_prefix_prefixed option.map_comp comp_def
              cong: map_option_cong)
      qed
      then have fl2: "flushed i st2 = map_option ((@) w) ?res"
        by (simp add: in_child_def c(1) option.map_comp comp_def cong: map_option_cong)
      have ca: "appends_at m (CBB_flush m i) i (Some []) st2"
        using appends_CBB_flush [OF m, of i] u2 by (simp add: appends_def)
      obtain ok3 st3 where p3: "CBB_flush m i st2 = (ok3, st3)" by (cases "CBB_flush m i st2")
      show ?thesis
      proof (cases ok3)
        case False
        have "\<not> room m b (length w + length xs)" if xs: "?res = Some xs" for xs
        proof -
          have "\<not> room m b2 (length w + length xs)"
            using ca False c'(4) fl2 xs by (simp add: appends_at_def p3)
          then show ?thesis
            by (rule wrote_not_room [OF wr2]) (use long [OF c(1) xs] len1 len2 in simp)
        qed
        moreover have "cbb_ok st3" "failed st3" using ca False by (simp_all add: appends_at_def p3)
        ultimately show ?thesis
          using False True ok2 a(1,2) by (simp add: appends_at_def and_then_def p1 p2 p3)
      next
        case ok3: True
        with p3 have "CBB_flush m i st2 = (True, st3)" by simp
        from appends_at_ok [OF u2 ca this] obtain w3 bs3 b2' b3 where
          d: "base st2 = Some b2'" "flushed i st2 = Some w3" "Some [] = Some bs3" "base st3 = Some b3"
            "written b3 = w3 @ bs3" "wrote m b2' b3" "chain st3 = take (Suc i) (chain st2)" "usable i st3" .
        then obtain xs where xs: "?res = Some xs" "written b3 = w @ xs" using fl2 by auto
        have wr3: "wrote m b2 b3" using d(1,6) c'(4) by simp
        then have "b_len b3 = length w + length xs" using length_written [of b3] xs(2) by (simp add: wrote_def)
        then have "wrote m b b3"
          by (intro wrote_trans [OF wr2 wr3]) (use long [OF c(1) xs(1)] len1 len2 in simp)
        moreover have "chain st3 = take (Suc i) (chain st)" using d(7) i by (simp add: c(4) a(7))
        moreover have "cbb_ok st3" using d(8) by (simp add: usable_def)
        ultimately show ?thesis
          using True ok2 ok3 a(1,2) d(4) xs by (simp add: appends_at_def and_then_def p1 p2 p3)
      qed
    qed
  qed
qed

lemma cbb_ok_push:
  assumes u: "usable i st" and len: "length (chain st) = Suc i" and b: "base st = Some b"
    and b': "wrote m b b'" "b_len b' = b_len b + n" and n: "0 < n" "asn1 \<longrightarrow> n = 1"
    and st': "base st' = Some b'" "chain st' = chain st @
      [\<lparr>offset = b_len b, pending_len_len = n, pending_is_asn1 = asn1, is_child = True\<rparr>]"
  shows "cbb_ok st'"
proof -
  let ?ch = "\<lparr>offset = b_len b, pending_len_len = n, pending_is_asn1 = asn1, is_child = True\<rparr>"
  obtain c cs where c: "chain st = c # cs" "cbb_start c = 0" "desc_ok 0 (b_len b) cs"
    using u b by (auto simp: usable_def cbb_ok_def failed_def)
  have d: "desc_ok 0 (end_of 0 cs) cs" "end_of 0 cs \<le> b_len b" using c(3) desc_ok_end by blast+
  have "desc_ok (end_of 0 cs) (b_len b') [?ch]" using d(2) n b'(2) by simp
  with d(1) have "desc_ok 0 (b_len b') (cs @ [?ch])" by (simp only: desc_ok_split)
  then show ?thesis using b'(1) c(1,2) by (simp add: cbb_ok_def st' wrote_def)
qed

lemma opens_then:
  assumes f: "appends m f i (Some hdr)" and n: "0 < n" "asn1 \<longrightarrow> n = 1"
    and g: "\<And>st b. usable i st \<Longrightarrow> length (chain st) = Suc i \<Longrightarrow> base st = Some b \<Longrightarrow>
      (case g st of (ok, st') \<Rightarrow>
         if ok then
           (\<exists>b' z. base st' = Some b' \<and> written b' = written b @ z \<and> length z = n \<and> wrote m b b' \<and>
             chain st' = chain st @
               [\<lparr>offset = b_len b, pending_len_len = n, pending_is_asn1 = asn1, is_child = True\<rparr>])
         else cbb_ok st' \<and> failed st' \<and> \<not> room m b (b_len b + n))"
  shows "opens m (and_then f g) i hdr asn1 n"
  unfolding opens_def
proof (intro allI impI)
  fix st assume u: "usable i st"
  have fa: "appends_at m f i (Some hdr) st" using f u by (simp add: appends_def)
  obtain ok1 st1 where p1: "f st = (ok1, st1)" by (cases "f st")
  let ?goal = "case and_then f g st of (ok, st') \<Rightarrow>
        cbb_ok st' \<and>
        (if ok then
           \<exists>w z b b'. base st = Some b \<and> flushed i st = Some w \<and> base st' = Some b' \<and>
             written b' = w @ hdr @ z \<and> length z = n \<and> wrote m b b' \<and>
             chain st' = take (Suc i) (chain st) @
               [\<lparr>offset = length w + length hdr, pending_len_len = n, pending_is_asn1 = asn1, is_child = True\<rparr>]
         else failed st' \<and>
           (\<forall>w b. base st = Some b \<and> flushed i st = Some w \<longrightarrow>
              \<not> room m b (length w + length hdr + n)))"
  show ?goal
  proof (cases ok1)
    case False
    then show ?thesis
      using fa room_le by (fastforce simp: appends_at_def p1 and_then_def)
  next
    case ok1: True
    with p1 have "f st = (True, st1)" by simp
    from appends_at_ok [OF u fa this] obtain w h b b1 where
      a: "base st = Some b" "flushed i st = Some w" "Some hdr = Some h" "base st1 = Some b1"
        "written b1 = w @ h" "wrote m b b1" "chain st1 = take (Suc i) (chain st)" "usable i st1"
        "length (chain st1) = Suc i" .
    have w1: "written b1 = w @ hdr" using a(3,5) by simp
    have len1: "b_len b1 = length w + length hdr"
      using length_written [of b1] w1 a(6) by (simp add: wrote_def)
    obtain ok2 st2 where p2: "g st1 = (ok2, st2)" by (cases "g st1")
    note G = g [OF a(8,9,4), unfolded p2 prod.case]
    show ?thesis
    proof (cases ok2)
      case True
      then obtain b2 z where d: "base st2 = Some b2" "written b2 = written b1 @ z" "length z = n" "wrote m b1 b2"
          "chain st2 = chain st1 @
               [\<lparr>offset = b_len b1, pending_len_len = n, pending_is_asn1 = asn1, is_child = True\<rparr>]"
        using G by auto
      have len2: "b_len b2 = b_len b1 + n"
        using length_written [of b2] d(2,3,4) by (simp add: wrote_def len1 w1)
      have "cbb_ok st2" by (rule cbb_ok_push [OF a(8,9,4) d(4) len2 n d(1,5)])
      moreover have "wrote m b b2" by (rule wrote_trans [OF a(6) d(4)]) (simp add: len2)
      ultimately show ?thesis
        using True ok1 a(1,2,7) d w1 len1 by (simp add: and_then_def p1 p2)
    next
      case False
      have "\<not> room m b (length w + length hdr + n)"
        using G False wrote_not_room [OF a(6), of "b_len b1 + n"] by (simp add: len1)
      then show ?thesis
        using G False ok1 a(1,2) by (simp add: and_then_def p1 p2)
    qed
  qed
qed

section \<open>The operations\<close>

lemma opens_length_prefixed:
  assumes "malloc_ok m" "0 < n" "n \<le> 3"
  shows "opens m (cbb_add_length_prefixed m i n) i [] False n"
  unfolding cbb_add_length_prefixed_def
proof (rule opens_then [OF appends_CBB_flush [OF assms(1)]])
  fix st b
  assume u: "usable i st" and len: "length (chain st) = Suc i" and b: "base st = Some b"
  have ok: "buffer_ok b" using u b by (simp add: usable_def cbb_ok_def)
  have mc: "memset_at buf d 0 n = memcpy_at buf d (replicate n 0) (length (replicate n (0::u8)))" for buf d
    by (simp add: memset_at_def memcpy_at_def)
  let ?r = "case cbb_buffer_add m (base st) n of
         (Some prefix_bytes, Some b) \<Rightarrow>
           (True, push_child i
              \<lparr>offset = (case base st of None \<Rightarrow> 0 | Some b0 \<Rightarrow> b_len b0), pending_len_len = n,
               pending_is_asn1 = False, is_child = True\<rparr>
              (st\<lparr>base := Some (b\<lparr>b_buf := memset_at (b_buf b) prefix_bytes 0 n\<rparr>)\<rparr>))
       | (_, base') \<Rightarrow> (False, st\<lparr>base := base'\<rparr>)"
  show "case ?r of (ok, st') \<Rightarrow>
         if ok then
           (\<exists>b' z. base st' = Some b' \<and> written b' = written b @ z \<and> length z = n \<and> wrote m b b' \<and>
             chain st' = chain st @
               [\<lparr>offset = b_len b, pending_len_len = n, pending_is_asn1 = False, is_child = True\<rparr>])
         else cbb_ok st' \<and> failed st' \<and> \<not> room m b (b_len b + n)"
  proof (cases rule: cbb_buffer_add_store [OF assms(1) ok, of "replicate n 0", case_names prem ok' fail'])
    case prem
    then show ?case using assms(3) by simp
  next
    case (ok' b1)
    then show ?thesis
      by (simp add: b push_child_def len mc del: replicate.simps)
  next
    case fail'
    then show ?thesis using ok by (simp add: b cbb_ok_def failed_def)
  qed
qed (use assms in auto)

lemma appends_CBB_add_u8: "malloc_ok m \<Longrightarrow> appends m (CBB_add_u8 m i v) i (Some [v])"
  using appends_add_u [of m 1 i "ucast v"] by (simp add: CBB_add_u8_def)

lemma appends_CBB_add_u16: "malloc_ok m \<Longrightarrow> appends m (CBB_add_u16 m i v) i (Some (be_bytes 2 (unat v)))"
  using appends_add_u [of m 2 i "ucast v"] unat_u16_less [of v]
  by (simp add: CBB_add_u16_def unat_ucast_less)

lemma appends_CBB_add_u24:
  "malloc_ok m \<Longrightarrow> appends m (CBB_add_u24 m i v) i (if unat v < 2 ^ 24 then Some (be_bytes 3 (unat v)) else None)"
proof -
  assume m: "malloc_ok m"
  have "unat v < 2 ^ LENGTH(64)" using unat_u32_less [of v] by (rule less_trans) simp
  then have "unat (ucast v :: u64) = unat v" by (rule unat_ucast_less)
  then show ?thesis using appends_add_u [OF m, of 3 i "ucast v"] by (simp add: CBB_add_u24_def split: if_splits)
qed

lemma appends_CBB_add_u32: "malloc_ok m \<Longrightarrow> appends m (CBB_add_u32 m i v) i (Some (be_bytes 4 (unat v)))"
  using appends_add_u [of m 4 i "ucast v"] unat_u32_less [of v]
  by (simp add: CBB_add_u32_def unat_ucast_less)

lemma appends_CBB_add_u64: "malloc_ok m \<Longrightarrow> appends m (CBB_add_u64 m i v) i (Some (be_bytes 8 (unat v)))"
  using appends_add_u [of m 8 i v] unat_u64_less [of v]
  by (simp add: CBB_add_u64_def)

lemma appends_CBB_add_u16le: "malloc_ok m \<Longrightarrow> appends m (CBB_add_u16le m i v) i (Some (rev (be_bytes 2 (unat v))))"
  using appends_CBB_add_u16 [of m i "CRYPTO_bswap2 v"] by (simp only: CBB_add_u16le_def be_bytes_bswap2)

lemma appends_CBB_add_u32le: "malloc_ok m \<Longrightarrow> appends m (CBB_add_u32le m i v) i (Some (rev (be_bytes 4 (unat v))))"
  using appends_CBB_add_u32 [of m i "CRYPTO_bswap4 v"] by (simp only: CBB_add_u32le_def be_bytes_bswap4)

lemma appends_CBB_add_u64le: "malloc_ok m \<Longrightarrow> appends m (CBB_add_u64le m i v) i (Some (rev (be_bytes 8 (unat v))))"
  using appends_CBB_add_u64 [of m i "CRYPTO_bswap8 v"] by (simp only: CBB_add_u64le_def be_bytes_bswap8)

section \<open>Tags\<close>

fun digits128 :: "nat \<Rightarrow> nat" where
  "digits128 n = (if n = 0 then 0 else Suc (digits128 (n div 128)))"

declare digits128.simps [simp del]

lemma base128_len_digits: "base128_len v = digits128 (unat v)"
proof (induction v rule: base128_len.induct)
  case (1 v)
  have "v > 0 \<longleftrightarrow> unat v \<noteq> 0" by (simp add: word_less_nat_alt)
  moreover have "unat (drop_bit 7 v) = unat v div 128" by (simp add: unat_drop_bit)
  ultimately show ?case
    using 1 by (subst base128_len.simps, subst digits128.simps) auto
qed

definition cont_octets :: "nat \<Rightarrow> nat \<Rightarrow> u8 list" where
  "cont_octets n v = map (\<lambda>i. word_of_nat (128 + v div 128 ^ i mod 128)) (rev [0..<n])"

lemma rev_upt_Suc: "rev [0..<Suc n] = map Suc (rev [0..<n]) @ [0]"
  by (metis map_Suc_upt rev_map rev.simps(2) upt_conv_Cons zero_less_Suc)

lemma base128_cont_octets: "base128_cont n = cont_octets (digits128 n) n"
proof (induction n rule: base128_cont.induct)
  case (1 n)
  show ?case
  proof (cases "n = 0")
    case True
    then show ?thesis by (simp add: digits128.simps cont_octets_def)
  next
    case False
    then have "base128_cont n = cont_octets (digits128 (n div 128)) (n div 128) @ [word_of_nat (128 + n mod 128)]"
      using 1 by (subst base128_cont.simps) simp
    also have "\<dots> = cont_octets (Suc (digits128 (n div 128))) n"
      unfolding cont_octets_def rev_upt_Suc by (simp add: div_mult2_eq comp_def)
    finally show ?thesis using False by (subst digits128.simps) simp
  qed
qed

text \<open>The octet the loop writes for the group \<open>i\<close>.\<close>

lemma base128_byte:
  "(ucast (drop_bit (7 * i) (v::u64)) :: u8) AND 0x7f = word_of_nat (unat v div 128 ^ i mod 128)"
proof (rule word_nat_eqI)
  have "unat (ucast (drop_bit (7 * i) v) :: u8) = unat v div 128 ^ i mod 256"
    by (simp add: unsigned_ucast_eq unat_drop_bit power_mult take_bit_eq_mod)
  then show "unat ((ucast (drop_bit (7 * i) v) :: u8) AND 0x7f) =
      unat (word_of_nat (unat v div 128 ^ i mod 128) :: u8)"
    by (simp only: unat_and_7f unat_of_nat_u8) (simp add: mod_mod_cancel)
qed

lemma or_80: "n < 128 \<Longrightarrow> (word_of_nat n :: u8) OR 0x80 = word_of_nat (128 + n)"
proof (rule word_nat_eqI)
  assume n: "n < 128"
  have "unat (push_bit 7 1 OR word_of_nat n :: u8) = 128 + n"
    using unat_push_or [of "1::u8" 7 "word_of_nat n"] n by (simp add: unat_of_nat_u8)
  moreover have "(push_bit 7 1 :: u8) = 0x80" by simp
  ultimately show "unat ((word_of_nat n :: u8) OR 0x80) = unat (word_of_nat (128 + n) :: u8)"
    using n by (simp only: or.commute unat_of_nat_u8) simp
qed

lemma appends_base128_loop:
  assumes "malloc_ok m"
  shows "appends m (base128_loop m h v (Suc n)) h
    (Some (cont_octets n (unat v div 128) @ [word_of_nat (unat v mod 128)]))"
proof (induction n)
  case 0
  have "base128_loop m h v (Suc 0) = CBB_add_u8 m h (word_of_nat (unat v mod 128))"
    using base128_byte [of 0 v] by (auto simp: and_then_def split: prod.splits)
  then show ?case using appends_CBB_add_u8 [OF assms] by (simp add: cont_octets_def)
next
  case (Suc n)
  have "base128_loop m h v (Suc (Suc n)) =
      and_then (CBB_add_u8 m h (word_of_nat (128 + unat v div 128 ^ Suc n mod 128))) (base128_loop m h v (Suc n))"
    by (rule ext, subst base128_loop.simps)
      (simp only: Let_def base128_byte or_80 mod_less_divisor nat.distinct if_True zero_less_numeral not_False_eq_True)
  moreover have "cont_octets (Suc n) (unat v div 128) =
      word_of_nat (128 + unat v div 128 ^ Suc n mod 128) # cont_octets n (unat v div 128)"
    by (simp add: cont_octets_def div_mult2_eq)
  ultimately show ?case
    using appends_then [OF appends_CBB_add_u8 [OF assms] Suc] by (simp del: base128_loop.simps)
qed

lemma appends_add_base128_integer:
  assumes "malloc_ok m"
  shows "appends m (add_base128_integer m h v) h (Some (base128 (unat v)))"
proof (cases "v = 0")
  case True
  then have "add_base128_integer m h v = base128_loop m h v (Suc 0)"
    by (simp add: add_base128_integer_def base128_len.simps fun_eq_iff)
  then show ?thesis
    using appends_base128_loop [OF assms, of h v 0] True by (simp add: base128_def cont_octets_def)
next
  case False
  then have "base128_len v = Suc (digits128 (unat v div 128))"
    by (simp add: base128_len_digits digits128.simps [of "unat v"] unat_eq_0)
  then show ?thesis
    using appends_base128_loop [OF assms, of h v "digits128 (unat v div 128)"]
    by (simp add: add_base128_integer_def base128_def base128_cont_octets)
qed

lemma and_then_assoc: "and_then f (and_then g h) = and_then (and_then f g) h"
  by (rule ext) (simp add: and_then_def split: prod.splits)

lemma tag_number: "unat (tag AND CBS_ASN1_TAG_NUMBER_MASK) = unat tag mod 2 ^ 29"
proof -
  have "CBS_ASN1_TAG_NUMBER_MASK = mask 29"
    by (simp add: CBS_ASN1_TAG_NUMBER_MASK_def CBS_ASN1_TAG_SHIFT_def mask_eq_exp_minus_1)
  show ?thesis unfolding \<open>CBS_ASN1_TAG_NUMBER_MASK = mask 29\<close> by (rule unat_and_mask)
qed

lemma tag_bits_or:
  assumes "w < 32"
  shows "((ucast (drop_bit CBS_ASN1_TAG_SHIFT (tag::u32)) :: u8) AND 0xe0) OR word_of_nat w
    = word_of_nat (unat tag div 2 ^ 29 * 32 + w)"
proof (rule word_nat_eqI)
  define c where "c = unat tag div 2 ^ 29"
  let ?b = "ucast (drop_bit CBS_ASN1_TAG_SHIFT tag) :: u8"
  have c8: "c < 8" unfolding c_def by (rule less_mult_imp_div_less) (use unat_u32_less [of tag] in simp)
  have "unat tag div 2 ^ 24 < 256" by (rule less_mult_imp_div_less) (use unat_u32_less [of tag] in simp)
  then have "unat ?b = unat tag div 2 ^ 24"
    by (simp add: unsigned_ucast_eq unat_drop_bit take_bit_eq_mod CBS_ASN1_TAG_SHIFT_def)
  then have "unat (drop_bit 5 ?b) = c"
    by (simp add: unat_drop_bit c_def div_mult2_eq [symmetric] del: unat_drop_bit_eq)
  then have d: "drop_bit 5 ?b = word_of_nat c" by (rule u8_of_unat [symmetric])
  have e0: "(0xe0 :: u8) = NOT (mask 5)" by (simp add: mask_eq_exp_minus_1)
  have "?b AND 0xe0 = push_bit 5 (drop_bit 5 ?b)"
    unfolding e0 by (rule bit_word_eqI) (auto simp: bit_simps)
  moreover have "unat (push_bit 5 (word_of_nat c) OR word_of_nat w :: u8) = c * 2 ^ 5 + w"
    using unat_push_or [of "word_of_nat c :: u8" 5 "word_of_nat w"] c8 assms by (simp add: unat_of_nat_u8)
  ultimately show "unat ((?b AND 0xe0) OR word_of_nat w) =
      unat (word_of_nat (unat tag div 2 ^ 29 * 32 + w) :: u8)"
    using c8 assms unfolding d c_def [symmetric]
    by (simp add: unat_of_nat_u8 del: push_bit_of_nat of_nat_add of_nat_mult)
qed

text \<open>The identifier octets \<open>CBB_add_asn1\<close> writes.\<close>

definition add_tag :: "allocator \<Rightarrow> nat \<Rightarrow> u32 \<Rightarrow> cbb_op" where
  "add_tag m i tag =
     (let tag_bits = (ucast (drop_bit CBS_ASN1_TAG_SHIFT tag) :: u8) AND 0xe0;
          tag_number = tag AND CBS_ASN1_TAG_NUMBER_MASK
      in if tag_number \<ge> 0x1f
         then and_then (CBB_add_u8 m i (tag_bits OR 0x1f)) (add_base128_integer m i (ucast tag_number))
         else CBB_add_u8 m i (tag_bits OR ucast tag_number))"

lemma appends_add_tag:
  assumes "malloc_ok m"
  shows "appends m (add_tag m i tag) i (Some (der_tag tag))"
proof -
  let ?n = "unat tag mod 2 ^ 29" and ?c = "unat tag div 2 ^ 29"
  let ?tn = "tag AND CBS_ASN1_TAG_NUMBER_MASK"
  have un: "unat ?tn = ?n" by (rule tag_number)
  have ge: "?tn \<ge> 0x1f \<longleftrightarrow> 31 \<le> ?n" using un by (simp add: word_le_nat_alt)
  show ?thesis
  proof (cases "31 \<le> ?n")
    case True
    have "unat (ucast ?tn :: u64) = unat ?tn"
      by (rule unat_ucast_less) (rule less_trans [OF unat_u32_less], simp)
    then have b128: "appends m (add_base128_integer m i (ucast ?tn)) i (Some (base128 ?n))"
      using appends_add_base128_integer [OF assms, of i "ucast ?tn"] un by simp
    have "((ucast (drop_bit CBS_ASN1_TAG_SHIFT tag) :: u8) AND 0xe0) OR 0x1f = word_of_nat (?c * 32 + 31)"
      using tag_bits_or [of 31 tag] by simp
    then show ?thesis
      using True ge appends_then [OF appends_CBB_add_u8 [OF assms] b128, of "word_of_nat (?c * 32 + 31)"]
      by (simp add: add_tag_def Let_def der_tag_def)
  next
    case False
    have "(ucast ?tn :: u8) = word_of_nat ?n"
      by (rule word_nat_eqI) (simp add: unsigned_ucast_eq un unat_of_nat_u8 take_bit_eq_mod)
    then have "((ucast (drop_bit CBS_ASN1_TAG_SHIFT tag) :: u8) AND 0xe0) OR ucast ?tn = word_of_nat (?c * 32 + ?n)"
      using False tag_bits_or [of ?n tag] by simp
    then show ?thesis
      using False ge appends_CBB_add_u8 [OF assms]
      by (simp add: add_tag_def Let_def der_tag_def del: of_nat_add of_nat_mult)
  qed
qed

lemma opens_CBB_add_asn1:
  assumes "malloc_ok m"
  shows "opens m (CBB_add_asn1 m i tag) i (der_tag tag) True 1"
proof -
  let ?g = "\<lambda>st. case CBB_add_u8 m i 0 st of
               (ok, st1) \<Rightarrow>
                 if \<not> ok then (False, st1)
                 else (True, push_child i
                        \<lparr>offset = (case base st of None \<Rightarrow> 0 | Some b \<Rightarrow> b_len b), pending_len_len = 1,
                         pending_is_asn1 = True, is_child = True\<rparr> st1)"
  have eq: "CBB_add_asn1 m i tag = and_then (and_then (CBB_flush m i) (add_tag m i tag)) ?g"
    by (simp add: CBB_add_asn1_def add_tag_def Let_def and_then_assoc)
  have "appends m (and_then (CBB_flush m i) (add_tag m i tag)) i (Some (der_tag tag))"
    using appends_then [OF appends_CBB_flush [OF assms] appends_add_tag [OF assms]] by simp
  then show ?thesis unfolding eq
  proof (rule opens_then)
    fix st b
    assume u: "usable i st" and len: "length (chain st) = Suc i" and b: "base st = Some b"
    obtain ok st1 where r: "CBB_add_u8 m i 0 st = (ok, st1)" by (cases "CBB_add_u8 m i 0 st")
    have a: "appends_at m (CBB_add_u8 m i 0) i (Some [0]) st"
      using appends_CBB_add_u8 [OF assms] u by (simp add: appends_def)
    have okb: "buffer_ok b" using u b by (simp add: usable_def cbb_ok_def)
    show "case ?g st of (ok, st') \<Rightarrow>
         if ok then
           (\<exists>b' z. base st' = Some b' \<and> written b' = written b @ z \<and> length z = 1 \<and> wrote m b b' \<and>
             chain st' = chain st @
               [\<lparr>offset = b_len b, pending_len_len = 1, pending_is_asn1 = True, is_child = True\<rparr>])
         else cbb_ok st' \<and> failed st' \<and> \<not> room m b (b_len b + 1)"
      using a len b okb flushed_flat [OF u len b]
      by (cases ok) (auto simp: appends_at_def r push_child_def)
  qed auto
qed

text \<open>One element: the tag, then the body written into the child, then the flush.\<close>

lemma prefixed_asn1: "prefixed True n c = (if length c \<le> 0xfffffffe then Some (der_len (length c) @ c) else None)"
  by (simp add: prefixed_def close_prefix_def)

lemma appends_asn1_element:
  assumes "malloc_ok m" "appends_flat m body (Suc i) (Some c)"
  shows "appends m (and_then (CBB_add_asn1 m i tag) (and_then body (CBB_flush m i))) i
    (if length c \<le> 0xfffffffe then Some (der tag c) else None)"
  using appends_in_child [OF assms(1) opens_CBB_add_asn1 [OF assms(1)] assms(2)]
  by (auto simp: in_child_def prefixed_asn1 der_def split: if_splits)

lemma appends_CBB_add_asn1_octet_string:
  assumes "malloc_ok m" "len \<le> length data" "len < 2 ^ 63"
  shows "appends m (CBB_add_asn1_octet_string m i data len) i
    (if len \<le> 0xfffffffe then Some (der CBS_ASN1_OCTETSTRING (take len data)) else None)"
  using appends_asn1_element [OF assms(1) appends_flatI [OF appends_CBB_add_bytes [OF assms]]] assms(2)
  by (simp add: CBB_add_asn1_octet_string_def min_absorb2)

lemma appends_CBB_add_asn1_bool:
  assumes "malloc_ok m"
  shows "appends m (CBB_add_asn1_bool m i v) i (Some (der CBS_ASN1_BOOLEAN (bool_octets (v \<noteq> 0))))"
  using appends_asn1_element [OF assms appends_flatI [OF appends_CBB_add_u8 [OF assms]]]
  by (simp add: CBB_add_asn1_bool_def bool_octets_def split: if_splits)

section \<open>Integers\<close>

lemma appends_flat_nop: "appends_flat m (Pair True) i (Some [])"
  unfolding appends_flat_def
proof (intro allI impI, elim conjE)
  fix st assume u: "usable i st" and len: "length (chain st) = Suc i"
  obtain b where b: "base st = Some b" "buffer_ok b" using usable_obtain [OF u] by metis
  then show "appends_at m (Pair True) i (Some []) st"
    using u len flushed_flat [OF u len b(1)] by (simp add: appends_at_def usable_def wrote_refl)
qed

text \<open>The unsigned writer: what the loop and the last \<open>CBB_add_u8\<close> write together.\<close>

definition uint64_body :: "allocator \<Rightarrow> nat \<Rightarrow> bool \<Rightarrow> u8 list \<Rightarrow> cbb_op" where
  "uint64_body m h started bytes st =
     (case add_uint64_loop m h started bytes st of
        (ok, started', st1) \<Rightarrow>
          if \<not> ok then (False, st1)
          else (if \<not> started' then CBB_add_u8 m h 0 else Pair True) st1)"

fun pad_octets :: "u8 list \<Rightarrow> u8 list" where
  "pad_octets [] = [0]"
| "pad_octets (b # bs) =
     (if b = 0 then pad_octets bs else if unat b < 128 then b # bs else 0 # b # bs)"

lemma appends_uint64_body_started:
  assumes "malloc_ok m"
  shows "appends_flat m (uint64_body m h True bs) h (Some bs)"
proof (induction bs)
  case Nil
  have "uint64_body m h True [] = Pair True" by (rule ext) (simp add: uint64_body_def)
  then show ?case using appends_flat_nop by simp
next
  case (Cons b bs)
  have "uint64_body m h True (b # bs) = and_then (CBB_add_u8 m h b) (uint64_body m h True bs)"
    by (rule ext) (simp add: uint64_body_def and_then_def split: prod.splits)
  then show ?case
    using appends_then_flat [OF appends_CBB_add_u8 [OF assms, of h b] Cons] by (simp add: appends_flatI)
qed

lemma appends_uint64_body:
  assumes "malloc_ok m"
  shows "appends m (uint64_body m h False bs) h (Some (pad_octets bs))"
proof (induction bs)
  case Nil
  have "uint64_body m h False [] = CBB_add_u8 m h 0" by (rule ext) (simp add: uint64_body_def)
  then show ?case using appends_CBB_add_u8 [OF assms] by simp
next
  case (Cons b bs)
  note u8 = appends_CBB_add_u8 [OF assms, of h]
  note rest = appends_then_flat [OF u8 appends_uint64_body_started [OF assms], of b bs]
  have eq: "uint64_body m h False (b # bs) =
      (if b = 0 then uint64_body m h False bs
       else if b AND 0x80 \<noteq> 0 then and_then (CBB_add_u8 m h 0) (and_then (CBB_add_u8 m h b) (uint64_body m h True bs))
       else and_then (CBB_add_u8 m h b) (uint64_body m h True bs))"
    by (rule ext) (simp add: uint64_body_def and_then_def split: prod.splits)
  show ?case
    using Cons rest appends_then [OF u8 rest, of 0] by (simp add: eq and_80_zero)
qed

lemma be_val_pad_octets: "be_val (pad_octets bs) = be_val bs"
  by (induction bs rule: pad_octets.induct) auto

lemma pad_octets_uint: "pad_octets bs = uint_octets (be_val bs)"
proof -
  have "pad_octets bs \<noteq> [] \<and> unat (pad_octets bs ! 0) < 128 \<and>
     \<not> (pad_octets bs ! 0 = 0 \<and> 1 < length (pad_octets bs) \<and> unat (pad_octets bs ! 1) < 128)"
    by (induction bs rule: pad_octets.induct) auto
  then have "pad_octets bs = uint_octets (be_val (pad_octets bs))" by (rule minimal_octets_iff [THEN iffD1])
  then show ?thesis by (simp only: be_val_pad_octets)
qed

lemma value_bytes: "map (\<lambda>k. ucast (drop_bit (8 * (7 - k)) (v::u64)) AND 0xff) [0..<8] = be_bytes 8 (unat v)"
proof (rule nth_equalityI)
  fix i assume "i < length (map (\<lambda>k. ucast (drop_bit (8 * (7 - k)) v) AND (0xff :: u8)) [0..<8])"
  then have i: "i < 8" by simp
  have "(ucast (drop_bit (8 * (7 - i)) v) :: u8) = word_of_nat (unat v div 256 ^ (7 - i))"
    by (rule word_nat_eqI) (simp add: unsigned_ucast_eq unat_drop_bit power_mult unat_of_nat_u8 take_bit_eq_mod)
  moreover have "x AND 0xff = x" for x :: u8
  proof -
    have "(0xff :: u8) = - 1" by simp
    then show ?thesis by (simp only: and.right_neutral)
  qed
  ultimately show "map (\<lambda>k. ucast (drop_bit (8 * (7 - k)) v) AND (0xff :: u8)) [0..<8] ! i = be_bytes 8 (unat v) ! i"
    using i by (simp add: nth_be_bytes del: upt_rec_numeral)
qed simp

lemma appends_CBB_add_asn1_uint64:
  assumes "malloc_ok m"
  shows "appends m (CBB_add_asn1_uint64 m i v) i (Some (der CBS_ASN1_INTEGER (uint_octets (unat v))))"
proof -
  have eq: "CBB_add_asn1_uint64 m i v =
      and_then (CBB_add_asn1 m i CBS_ASN1_INTEGER)
        (and_then (uint64_body m (Suc i) False (be_bytes 8 (unat v))) (CBB_flush m i))"
    unfolding CBB_add_asn1_uint64_def value_bytes
    by (rule arg_cong [where f = "and_then _"], rule ext)
      (simp add: uint64_body_def and_then_def split: prod.splits)
  have "be_val (be_bytes 8 (unat v)) = unat v" by (simp add: be_val_be_bytes)
  then have oct: "pad_octets (be_bytes 8 (unat v)) = uint_octets (unat v)" by (simp only: pad_octets_uint)
  have "length (uint_octets (unat v)) \<le> 9"
    using ilen_u64 [of "unat v"] by (simp add: length_uint_octets)
  then show ?thesis
    using appends_asn1_element [OF assms appends_flatI [OF appends_uint64_body [OF assms, of "Suc i" "be_bytes 8 (unat v)"]]]
    unfolding eq oct by (simp split: if_splits)
qed

text \<open>The signed writer: the redundant leading octets are dropped.\<close>

fun strip_ff :: "u8 list \<Rightarrow> u8 list" where
  "strip_ff (a # b # bs) = (if a = 0xff \<and> b AND 0x80 \<noteq> 0 then strip_ff (b # bs) else a # b # bs)"
| "strip_ff bs = bs"

lemma int64_start_strip:
  "s < length bytes \<Longrightarrow> rev (take (int64_start bytes s + 1) bytes) = strip_ff (rev (take (Suc s) bytes))"
proof (induction s)
  case 0
  then show ?case by (cases bytes) simp_all
next
  case (Suc s)
  have "take (Suc s) bytes = take s bytes @ [bytes ! s]"
    using Suc.prems by (simp add: take_Suc_conv_app_nth)
  moreover have "take (Suc (Suc s)) bytes = take s bytes @ [bytes ! s, bytes ! Suc s]"
    using Suc.prems by (simp add: take_Suc_conv_app_nth)
  ultimately show ?case using Suc by simp
qed

lemma int64_start_le: "int64_start bytes s \<le> s"
  by (induction s) auto

lemma sval_strip_ff: "sval (strip_ff bs) = sval bs"
proof (induction bs rule: strip_ff.induct)
  case (1 a b bs)
  show ?case
  proof (cases "a = 0xff \<and> b AND 0x80 \<noteq> 0")
    case True
    then have "\<not> unat b < 128" by (simp add: and_80_zero)
    then have "sval (a # b # bs) = sval (b # bs)" using True by (simp add: sval_def)
    then show ?thesis using 1 True by simp
  next
    case False
    then show ?thesis by (simp only: strip_ff.simps if_False)
  qed
qed simp_all

lemma strip_ff_minimal:
  "bs \<noteq> [] \<Longrightarrow> \<not> unat (bs ! 0) < 128 \<Longrightarrow> minimal_signed (strip_ff bs)"
proof (induction bs rule: strip_ff.induct)
  case (1 a b bs)
  then show ?case by (auto simp: minimal_signed_def and_80_zero)
qed (auto simp: minimal_signed_def)

lemma sval_be_bytes: "sval (be_bytes 8 (unat (v::i64))) = sint v"
proof -
  let ?D = "be_bytes 8 (unat v)"
  have "i64_of_bytes (rev ?D) = v"
    by (simp add: i64_of_bytes_def be_val_be_bytes del: be_bytes.simps)
  then show ?thesis
    using sint_i64_of_bytes [of ?D] be_bytes_not_Nil [of 8 "unat v"] by (simp del: be_bytes.simps)
qed

lemma sint_octets_negative:
  assumes "sint (v::i64) < 0"
  shows "strip_ff (be_bytes 8 (unat v)) = sint_octets (sint v)"
proof -
  let ?D = "be_bytes 8 (unat v)"
  have ne: "?D \<noteq> []" by (rule be_bytes_not_Nil) simp
  have neg: "\<not> unat (?D ! 0) < 128"
  proof
    assume "unat (?D ! 0) < 128"
    then have "0 \<le> sval ?D" by (simp only: sval_def if_True)
    then show False using assms by (simp only: sval_be_bytes)
  qed
  have "strip_ff ?D = sint_octets (sval (strip_ff ?D))"
    using strip_ff_minimal [OF ne neg] unfolding minimal_signed_def minimal_signed_iff by (rule conjunct2)
  then show ?thesis by (simp only: sval_strip_ff sval_be_bytes)
qed

lemma sint_octets_nonnegative:
  assumes "0 \<le> sint (v::i64)"
  shows "sint_octets (sint v) = uint_octets (unat v)"
proof -
  let ?D = "be_bytes 8 (unat v)"
  have val: "be_val ?D = unat v" by (simp add: be_val_be_bytes del: be_bytes.simps)
  have "be_val ?D < 256 ^ length ?D" by (rule be_val_less)
  then have "int (be_val ?D) < int (256 ^ length ?D)" by (simp only: of_nat_less_iff)
  then have "sval ?D = int (be_val ?D)"
    using assms sval_be_bytes [of v] by (auto simp only: sval_def of_nat_power of_nat_numeral split: if_splits)
  then have "nat (sint v) = unat v" by (simp only: sval_be_bytes val nat_int)
  then show ?thesis by (simp only: sint_octets_nonneg [OF assms])
qed

lemma appends_add_bytes_down:
  assumes "malloc_ok m"
  shows "n \<le> length bytes \<Longrightarrow> appends_flat m (add_bytes_down m h bytes n) h (Some (rev (take n bytes)))"
proof (induction n)
  case 0
  have "add_bytes_down m h bytes 0 = Pair True" by (rule ext) simp
  then show ?case using appends_flat_nop by simp
next
  case (Suc n)
  have "add_bytes_down m h bytes (Suc n) = and_then (CBB_add_u8 m h (bytes ! n)) (add_bytes_down m h bytes n)"
    by (rule ext) simp
  moreover have "appends_flat m (add_bytes_down m h bytes n) h (Some (rev (take n bytes)))" using Suc by simp
  note appends_then_flat [OF appends_CBB_add_u8 [OF assms] this, of "bytes ! n"]
  ultimately show ?case using Suc.prems by (simp add: appends_flatI take_Suc_conv_app_nth)
qed

lemma appends_CBB_add_asn1_int64:
  assumes "malloc_ok m"
  shows "appends m (CBB_add_asn1_int64 m i v) i (Some (der CBS_ASN1_INTEGER (sint_octets (sint v))))"
proof (cases "0 \<le> sint v")
  case True
  then show ?thesis
    using appends_CBB_add_asn1_uint64 [OF assms] by (simp add: CBB_add_asn1_int64_def sint_octets_nonnegative)
next
  case False
  let ?bytes = "i64_bytes v" and ?s = "int64_start (i64_bytes v) 7"
  have len: "length ?bytes = 8" by (simp add: i64_bytes_def)
  have s: "?s + 1 = Suc ?s" "Suc ?s \<le> length ?bytes" using int64_start_le [of ?bytes 7] by (simp_all add: len)
  have "rev (take (?s + 1) ?bytes) = strip_ff (rev (take 8 ?bytes))"
    using int64_start_strip [of 7 ?bytes] by (simp add: len)
  also have "\<dots> = sint_octets (sint v)"
    using sint_octets_negative [of v] False len by (simp add: i64_bytes_def del: be_bytes.simps)
  finally have oct: "rev (take (Suc ?s) ?bytes) = sint_octets (sint v)" by simp
  have "appends_flat m (add_bytes_down m (Suc i) ?bytes (Suc ?s)) (Suc i) (Some (sint_octets (sint v)))"
    using appends_add_bytes_down [OF assms s(2)] by (simp only: oct)
  moreover have "length (sint_octets (sint v)) \<le> 8"
    using sint_greater_eq [of v] sint_less [of v] by (intro length_sint_octets) simp_all
  ultimately show ?thesis
    using appends_asn1_element [OF assms, of "add_bytes_down m (Suc i) ?bytes (Suc ?s)" i "sint_octets (sint v)"] False
    by (simp add: CBB_add_asn1_int64_def Let_def split: if_splits)
qed

end
