(* ===== verification/Cbb_Build.thy ===== *)
theory Cbb_Build
  imports Cbb_Ops
begin

text \<open>
  Whole uses of a \<open>CBB\<close>: creation, any nesting of writes, \<open>CBB_finish\<close>. A nested sequence of
  calls is described by the tree of what the client writes; the calls made for it produce the
  serialisation of the tree.
\<close>

section \<open>Creation and the end\<close>

lemma usable_fresh:
  assumes "buffer_ok b" "b_len b = 0" "\<not> b_error b"
  shows "usable 0 (CBB_zero\<lparr>base := Some b\<rparr>)"
  using assms
  by (simp add: usable_def cbb_ok_def failed_def CBB_zero_def cbb_zero_st_def cbb_start_def)

lemma CBB_init_cases:
  assumes "malloc_ok m" "cap0 + 8 < SIZE_MOD" "CBB_init m cap0 = (ok, st)"
  obtains (ok) b where "ok" "st = CBB_zero\<lparr>base := Some b\<rparr>" "buffer_ok b" "b_len b = 0" "b_cap b = cap0"
      "b_can_resize b" "\<not> b_error b"
  | (fail) "\<not> ok" "failed st" "\<not> malloc_total m \<or> 2 ^ 63 \<le> cap0 + 8"
proof -
  have total: "malloc_total m \<Longrightarrow> OPENSSL_malloc m sizeof_cbb_buffer_st \<noteq> None"
    by (rule OPENSSL_malloc_total) (simp_all add: sizeof_cbb_buffer_st_def)
  show thesis
  proof (cases "OPENSSL_malloc m cap0")
    case None
    have no: "\<not> malloc_total m \<or> 2 ^ 63 \<le> cap0 + 8"
      using OPENSSL_malloc_total [of m cap0] None by linarith
    show thesis
    proof (cases "cap0 = 0")
      case True
      then have "\<not> malloc_total m" using no by simp
      then show thesis
        using assms(3) None True fail
          ok [of "\<lparr>b_buf = [], b_len = 0, b_cap = 0, b_can_resize = True, b_error = False\<rparr>"]
        by (cases "OPENSSL_malloc m sizeof_cbb_buffer_st")
          (auto simp: CBB_init_def cbb_init_def CBB_zero_def failed_def buffer_ok_def)
    next
      case False
      then show thesis using assms(3) None no
        by (intro fail) (auto simp: CBB_init_def CBB_zero_def failed_def)
    qed
  next
    case (Some bl)
    note r = OPENSSL_malloc_block [OF assms(1,2) Some]
    show thesis
    proof (cases "OPENSSL_malloc m sizeof_cbb_buffer_st")
      case None
      then show thesis
        using assms(3) Some total by (intro fail) (auto simp: CBB_init_def cbb_init_def CBB_zero_def failed_def)
    next
      case (Some x)
      then show thesis
        using assms(3) \<open>OPENSSL_malloc m cap0 = Some bl\<close> r
        by (intro ok [of "\<lparr>b_buf = blk_data bl, b_len = 0, b_cap = cap0, b_can_resize = True, b_error = False\<rparr>"])
          (auto simp: CBB_init_def cbb_init_def buffer_ok_def block_ok_def)
    qed
  qed
qed

lemma CBB_init_fixed_cases:
  assumes "length buf + 8 < 2 ^ 63" "CBB_init_fixed m buf (length buf) = (ok, st)"
  obtains (ok) b where "ok" "st = CBB_zero\<lparr>base := Some b\<rparr>" "buffer_ok b" "b_len b = 0"
      "b_cap b = length buf" "\<not> b_can_resize b" "\<not> b_error b"
  | (fail) "\<not> ok" "failed st" "\<not> malloc_total m"
proof (cases "OPENSSL_malloc m sizeof_cbb_buffer_st")
  case None
  then show thesis
    using assms(2) OPENSSL_malloc_total [of m sizeof_cbb_buffer_st]
    by (intro fail) (auto simp: CBB_init_fixed_def cbb_init_def CBB_zero_def failed_def sizeof_cbb_buffer_st_def)
next
  case (Some x)
  then show thesis
    using assms by (intro ok [of "\<lparr>b_buf = buf, b_len = 0, b_cap = length buf, b_can_resize = False, b_error = False\<rparr>"])
      (auto simp: CBB_init_fixed_def cbb_init_def buffer_ok_def CBB_zero_def)
qed

lemma CBB_finish_usable:
  assumes u: "usable 0 st" and len: "length (chain st) = 1" and b: "base st = Some b"
    and top: "\<not> is_child (chain st ! 0)"
  shows "CBB_finish m 0 True True st =
    (Some (Some (b_buf b), Some (b_len b)), st\<lparr>base := None\<rparr>)"
proof -
  have "CBB_flush m 0 st = (True, st)" using CBB_flush_flat [OF u] len by simp
  then show ?thesis using len b top by (simp add: CBB_finish_def CBB_cleanup_def)
qed

text \<open>A new growing buffer, one call that appends \<open>bs\<close>, and the end.\<close>

lemma init_append_finish:
  assumes m: "malloc_ok m" "malloc_total m" and f: "appends_flat m f 0 (Some bs)"
    and n: "cap0 < 2 ^ 62" "length bs < 2 ^ 61"
  obtains st st1 st2 buf where "CBB_init m cap0 = (True, st)" "f st = (True, st1)"
    "CBB_finish m 0 True True st1 = (Some (Some buf, Some (length bs)), st2)" "take (length bs) buf = bs"
proof -
  obtain okc st where c: "CBB_init m cap0 = (okc, st)" by (cases "CBB_init m cap0")
  have "cap0 + 8 < SIZE_MOD" using n(1) by (simp add: SIZE_MOD_def)
  then obtain b where b: okc "st = CBB_zero\<lparr>base := Some b\<rparr>" "buffer_ok b" "b_len b = 0" "b_cap b = cap0"
      "b_can_resize b" "\<not> b_error b"
    by - (rule CBB_init_cases [OF m(1) _ c], use m(2) n(1) in auto)
  have u: "usable 0 st" unfolding b(2) by (rule usable_fresh [OF b(3,4,7)])
  have len: "length (chain st) = Suc 0" by (simp add: b(2) CBB_zero_def)
  have base: "base st = Some b" by (simp add: b(2))
  have fl: "flushed 0 st = Some []"
    using flushed_flat [OF u len base] b(4) by (simp add: written_def)
  have a: "appends_at m f 0 (Some bs) st" using f u len by (simp add: appends_flat_def)
  obtain ok st1 where op: "f st = (ok, st1)" by (cases "f st")
  have "room m b (length bs)" using b(5,6) m(2) n by (simp add: room_def)
  then have ok using a fl base by (cases ok) (auto simp: appends_at_def op)
  with op have f1: "f st = (True, st1)" by simp
  from appends_at_ok [OF u a f1] obtain w xs b0 b1 where
    d: "base st = Some b0" "flushed 0 st = Some w" "Some bs = Some xs" "base st1 = Some b1" "written b1 = w @ xs"
      "wrote m b0 b1" "chain st1 = take (Suc 0) (chain st)" "usable 0 st1" "length (chain st1) = Suc 0" .
  have "\<not> is_child (chain st1 ! 0)" by (simp add: d(7) b(2) CBB_zero_def cbb_zero_st_def)
  then have "CBB_finish m 0 True True st1 = (Some (Some (b_buf b1), Some (b_len b1)), st1\<lparr>base := None\<rparr>)"
    using CBB_finish_usable [OF d(8) _ d(4)] d(9) by simp
  moreover have w1: "written b1 = bs" using d fl by simp
  moreover have "b_len b1 = length bs" using length_written [of b1] d(6) w1 by (simp add: wrote_def)
  ultimately show thesis using that c b(1) f1 by (simp add: written_def)
qed

section \<open>Trees of writes\<close>

datatype item =
    U8 u8 | U16 u16 | U24 u32 | U32 u32 | U64 u64
  | U16le u16 | U32le u32 | U64le u64
  | Bytes "u8 list"
  | Uint64 u64 | Int64 i64 | Bool bool | Octets "u8 list"
  | Prefixed8 "item list" | Prefixed16 "item list" | Prefixed24 "item list"
  | Asn1 u32 "item list"

text \<open>The calls for a tree, on the object at \<open>i\<close>.\<close>

fun put :: "allocator \<Rightarrow> nat \<Rightarrow> item \<Rightarrow> cbb_op"
  and put_all :: "allocator \<Rightarrow> nat \<Rightarrow> item list \<Rightarrow> cbb_op" where
  "put m i (U8 v) = CBB_add_u8 m i v"
| "put m i (U16 v) = CBB_add_u16 m i v"
| "put m i (U24 v) = CBB_add_u24 m i v"
| "put m i (U32 v) = CBB_add_u32 m i v"
| "put m i (U64 v) = CBB_add_u64 m i v"
| "put m i (U16le v) = CBB_add_u16le m i v"
| "put m i (U32le v) = CBB_add_u32le m i v"
| "put m i (U64le v) = CBB_add_u64le m i v"
| "put m i (Bytes bs) = CBB_add_bytes m i bs (length bs)"
| "put m i (Uint64 v) = CBB_add_asn1_uint64 m i v"
| "put m i (Int64 v) = CBB_add_asn1_int64 m i v"
| "put m i (Bool v) = CBB_add_asn1_bool m i (of_bool v)"
| "put m i (Octets bs) = CBB_add_asn1_octet_string m i bs (length bs)"
| "put m i (Prefixed8 ts) =
     and_then (CBB_add_u8_length_prefixed m i) (and_then (put_all m (Suc i) ts) (CBB_flush m i))"
| "put m i (Prefixed16 ts) =
     and_then (CBB_add_u16_length_prefixed m i) (and_then (put_all m (Suc i) ts) (CBB_flush m i))"
| "put m i (Prefixed24 ts) =
     and_then (CBB_add_u24_length_prefixed m i) (and_then (put_all m (Suc i) ts) (CBB_flush m i))"
| "put m i (Asn1 tag ts) =
     and_then (CBB_add_asn1 m i tag) (and_then (put_all m (Suc i) ts) (CBB_flush m i))"
| "put_all m i [] = Pair True"
| "put_all m i (t # ts) = and_then (put m i t) (put_all m i ts)"

text \<open>What they should write; \<open>None\<close> when a length or a value does not fit.\<close>

definition len_prefixed :: "nat \<Rightarrow> u8 list \<Rightarrow> u8 list option" where
  "len_prefixed n c = (if length c < 256 ^ n then Some (be_bytes n (length c) @ c) else None)"

fun serial :: "item \<Rightarrow> u8 list option" and serials :: "item list \<Rightarrow> u8 list option" where
  "serial (U8 v) = Some [v]"
| "serial (U16 v) = Some (be_bytes 2 (unat v))"
| "serial (U24 v) = (if unat v < 2 ^ 24 then Some (be_bytes 3 (unat v)) else None)"
| "serial (U32 v) = Some (be_bytes 4 (unat v))"
| "serial (U64 v) = Some (be_bytes 8 (unat v))"
| "serial (U16le v) = Some (rev (be_bytes 2 (unat v)))"
| "serial (U32le v) = Some (rev (be_bytes 4 (unat v)))"
| "serial (U64le v) = Some (rev (be_bytes 8 (unat v)))"
| "serial (Bytes bs) = Some bs"
| "serial (Uint64 v) = Some (der CBS_ASN1_INTEGER (uint_octets (unat v)))"
| "serial (Int64 v) = Some (der CBS_ASN1_INTEGER (sint_octets (sint v)))"
| "serial (Bool v) = Some (der CBS_ASN1_BOOLEAN (bool_octets v))"
| "serial (Octets bs) =
     (if length bs \<le> 0xfffffffe then Some (der CBS_ASN1_OCTETSTRING bs) else None)"
| "serial (Prefixed8 ts) = (case serials ts of None \<Rightarrow> None | Some c \<Rightarrow> len_prefixed 1 c)"
| "serial (Prefixed16 ts) = (case serials ts of None \<Rightarrow> None | Some c \<Rightarrow> len_prefixed 2 c)"
| "serial (Prefixed24 ts) = (case serials ts of None \<Rightarrow> None | Some c \<Rightarrow> len_prefixed 3 c)"
| "serial (Asn1 tag ts) =
     (case serials ts of
        None \<Rightarrow> None
      | Some c \<Rightarrow> if length c \<le> 0xfffffffe then Some (der tag c) else None)"
| "serials [] = Some []"
| "serials (t # ts) = ocat (serial t) (serials ts)"

text \<open>A byte string the client holds in memory is shorter than \<open>PTRDIFF_MAX\<close>.\<close>

fun in_memory :: "item \<Rightarrow> bool" where
  "in_memory (Bytes bs) = (length bs < 2 ^ 63)"
| "in_memory (Octets bs) = (length bs < 2 ^ 63)"
| "in_memory (Prefixed8 ts) = (\<forall>t \<in> set ts. in_memory t)"
| "in_memory (Prefixed16 ts) = (\<forall>t \<in> set ts. in_memory t)"
| "in_memory (Prefixed24 ts) = (\<forall>t \<in> set ts. in_memory t)"
| "in_memory (Asn1 _ ts) = (\<forall>t \<in> set ts. in_memory t)"
| "in_memory _ = True"

lemma in_child_prefixed: "in_child False n [] res = (case res of None \<Rightarrow> None | Some c \<Rightarrow> len_prefixed n c)"
  by (auto simp: in_child_def prefixed_def close_prefix_def len_prefixed_def split: option.splits)

lemma in_child_asn1: "in_child True n (der_tag tag) res =
    (case res of None \<Rightarrow> None | Some c \<Rightarrow> if length c \<le> 0xfffffffe then Some (der tag c) else None)"
  by (auto simp: in_child_def prefixed_asn1 der_def split: option.splits)

lemma appends_put:
  shows "malloc_ok m \<Longrightarrow> in_memory t \<Longrightarrow> appends m (put m i t) i (serial t)"
    and "malloc_ok m \<Longrightarrow> \<forall>t \<in> set ts. in_memory t \<Longrightarrow> appends_flat m (put_all m i ts) i (serials ts)"
proof (induction m i t and m i ts rule: put_put_all.induct)
  case (3 m i v)
  then show ?case using appends_CBB_add_u24 [of m i v] by (simp split: if_splits)
next
  case (9 m i bs)
  then show ?case using appends_CBB_add_bytes [of m "length bs" bs i] by simp
next
  case (13 m i bs)
  then show ?case using appends_CBB_add_asn1_octet_string [of m "length bs" bs i] by (simp split: if_splits)
next
  case (14 m i ts)
  then show ?case
    using appends_in_child [OF _ opens_length_prefixed [of m 1 i], of "put_all m (Suc i) ts" "serials ts"]
    by (simp add: in_child_prefixed CBB_add_u8_length_prefixed_def cong: option.case_cong)
next
  case (15 m i ts)
  then show ?case
    using appends_in_child [OF _ opens_length_prefixed [of m 2 i], of "put_all m (Suc i) ts" "serials ts"]
    by (simp add: in_child_prefixed CBB_add_u16_length_prefixed_def)
next
  case (16 m i ts)
  then show ?case
    using appends_in_child [OF _ opens_length_prefixed [of m 3 i], of "put_all m (Suc i) ts" "serials ts"]
    by (simp add: in_child_prefixed CBB_add_u24_length_prefixed_def)
next
  case (17 m i tag ts)
  then show ?case
    using appends_in_child [OF _ opens_CBB_add_asn1 [of m i tag], of "put_all m (Suc i) ts" "serials ts"]
    by (simp add: in_child_asn1)
next
  case (18 m i)
  show ?case by (simp add: appends_flat_nop)
next
  case (19 m i t ts)
  then show ?case
    using appends_flatI [OF appends_then_flat [of m "put m i t" i "serial t" "put_all m i ts" "serials ts"]] by simp
qed (simp_all add: appends_CBB_add_u8 appends_CBB_add_u16 appends_CBB_add_u24 appends_CBB_add_u32
    appends_CBB_add_u64 appends_CBB_add_u16le appends_CBB_add_u32le appends_CBB_add_u64le
    appends_CBB_add_asn1_uint64 appends_CBB_add_asn1_int64 appends_CBB_add_asn1_bool [of _ _ "of_bool _", simplified])

section \<open>From creation to the finished string\<close>

text \<open>What a client does: create, write a tree, finish; the result is the string.\<close>

definition finish_tree :: "allocator \<Rightarrow> item list \<Rightarrow> bool \<times> cbb_state \<Rightarrow> u8 list option" where
  "finish_tree m ts created =
     (case and_then (Pair (fst created)) (put_all m 0 ts) (snd created) of
        (ok, st) \<Rightarrow>
          if \<not> ok then None
          else (case CBB_finish m 0 True True st of
                  (Some (Some buf, Some n), _) \<Rightarrow> Some (take n buf)
                | _ \<Rightarrow> None))"

lemma finish_tree_eq:
  assumes m: "malloc_ok m" and mem: "\<forall>t \<in> set ts. in_memory t"
    and b: "buffer_ok b" "b_len b = 0" "\<not> b_error b"
  defines "st \<equiv> CBB_zero\<lparr>base := Some b\<rparr>"
  shows "finish_tree m ts (True, st) = None \<or> finish_tree m ts (True, st) = serials ts"
    and "serials ts = Some bs \<Longrightarrow> room m b (length bs) \<Longrightarrow> finish_tree m ts (True, st) = Some bs"
    and "finish_tree m ts (True, st) = Some bs \<Longrightarrow> \<not> b_can_resize b \<Longrightarrow> length bs \<le> b_cap b"
proof -
  have u: "usable 0 st" unfolding st_def by (rule usable_fresh [OF b])
  have len: "length (chain st) = Suc 0" by (simp add: st_def CBB_zero_def)
  have base: "base st = Some b" by (simp add: st_def)
  have a: "appends_at m (put_all m 0 ts) 0 (serials ts) st"
    using appends_put(2) [OF m mem, of 0] u len by (simp add: appends_flat_def)
  have fl: "flushed 0 st = Some []"
    using flushed_flat [OF u len base] b(2) by (simp add: written_def)
  obtain ok st1 where p: "put_all m 0 ts st = (ok, st1)" by (cases "put_all m 0 ts st")
  have ft: "finish_tree m ts (True, st) =
     (if \<not> ok then None
      else (case CBB_finish m 0 True True st1 of
                  (Some (Some buf, Some n), _) \<Rightarrow> Some (take n buf)
                | _ \<Rightarrow> None))"
    by (simp add: finish_tree_def and_then_def p)
  have yes: "\<exists>bs b1. finish_tree m ts (True, st) = Some bs \<and> serials ts = Some bs \<and> wrote m b b1 \<and> b_len b1 = length bs"
    if ok
  proof -
    from that p have "put_all m 0 ts st = (True, st1)" by simp
    from appends_at_ok [OF u a this] obtain w bs b0 b1 where
      d: "base st = Some b0" "flushed 0 st = Some w" "serials ts = Some bs" "base st1 = Some b1" "written b1 = w @ bs"
        "wrote m b0 b1" "chain st1 = take (Suc 0) (chain st)" "usable 0 st1" "length (chain st1) = Suc 0" .
    have "\<not> is_child (chain st1 ! 0)" by (simp add: d(7) st_def CBB_zero_def cbb_zero_st_def)
    then have "CBB_finish m 0 True True st1 = (Some (Some (b_buf b1), Some (b_len b1)), st1\<lparr>base := None\<rparr>)"
      using CBB_finish_usable [OF d(8) _ d(4)] d(9) by simp
    moreover have "written b1 = bs" "wrote m b b1" using d fl base by simp_all
    moreover from this have "b_len b1 = length bs" using length_written [of b1] by (simp add: wrote_def)
    ultimately show ?thesis using that d(3) by (auto simp: ft written_def)
  qed
  have no: "\<not> ok \<Longrightarrow> finish_tree m ts (True, st) = None" by (simp add: ft)
  show "finish_tree m ts (True, st) = None \<or> finish_tree m ts (True, st) = serials ts"
    using yes no by (cases ok) auto
  show "serials ts = Some bs \<Longrightarrow> room m b (length bs) \<Longrightarrow> finish_tree m ts (True, st) = Some bs"
    using a fl base yes by (cases ok) (auto simp: appends_at_def p)
  assume "finish_tree m ts (True, st) = Some bs" "\<not> b_can_resize b"
  with yes no obtain b1 where "wrote m b b1" "b_len b1 = length bs" by (cases ok) auto
  then show "length bs \<le> b_cap b" using \<open>\<not> b_can_resize b\<close> by (auto simp: wrote_def buffer_ok_def)
qed

text \<open>In a fixed buffer: the serialisation, exactly when there is one and it fits.\<close>

lemma finish_tree_fixed:
  assumes "malloc_ok m" "malloc_total m" "\<forall>t \<in> set ts. in_memory t" "length buf + 8 < 2 ^ 63"
  shows "finish_tree m ts (CBB_init_fixed m buf (length buf)) =
    (case serials ts of None \<Rightarrow> None | Some bs \<Rightarrow> if length bs \<le> length buf then Some bs else None)"
proof -
  obtain okc st where c: "CBB_init_fixed m buf (length buf) = (okc, st)" by (cases "CBB_init_fixed m buf (length buf)")
  obtain b where b: okc "st = CBB_zero\<lparr>base := Some b\<rparr>" "buffer_ok b" "b_len b = 0" "b_cap b = length buf"
      "\<not> b_can_resize b" "\<not> b_error b"
    by (rule CBB_init_fixed_cases [OF assms(4) c]) (use assms(2) in auto)
  have room: "room m b n \<longleftrightarrow> n \<le> length buf" for n using b(5,6) by (simp add: room_def)
  note eq = finish_tree_eq [OF assms(1,3) b(3,4,7), folded b(2)]
  show ?thesis
  proof (cases "serials ts")
    case None
    then show ?thesis using eq(1) b(1) c by simp
  next
    case (Some bs)
    show ?thesis
    proof (cases "length bs \<le> length buf")
      case True
      then show ?thesis using eq(2) [OF Some] room Some b(1) c by simp
    next
      case False
      then have "finish_tree m ts (True, st) \<noteq> Some bs" using eq(3) [of bs] b(5,6) by auto
      then show ?thesis using eq(1) Some False b(1) c by simp
    qed
  qed
qed

text \<open>In a growing buffer: the serialisation, when there is one.\<close>

lemma finish_tree_growing:
  assumes "malloc_ok m" "malloc_total m" "\<forall>t \<in> set ts. in_memory t" "cap0 < 2 ^ 62"
    "\<And>bs. serials ts = Some bs \<Longrightarrow> length bs < 2 ^ 61"
  shows "finish_tree m ts (CBB_init m cap0) = serials ts"
proof -
  obtain okc st where c: "CBB_init m cap0 = (okc, st)" by (cases "CBB_init m cap0")
  have "cap0 + 8 < SIZE_MOD" "cap0 + 8 < 2 ^ 63" using assms(4) by (simp_all add: SIZE_MOD_def)
  then obtain b where b: okc "st = CBB_zero\<lparr>base := Some b\<rparr>" "buffer_ok b" "b_len b = 0" "b_cap b = cap0"
      "b_can_resize b" "\<not> b_error b"
    by - (rule CBB_init_cases [OF assms(1) _ c], use assms(2) in auto)
  have room: "n < 2 ^ 61 \<Longrightarrow> room m b n" for n using b(5,6) assms(2,4) by (simp add: room_def)
  note eq = finish_tree_eq [OF assms(1,3) b(3,4,7), folded b(2)]
  show ?thesis
    using eq(1,2) room assms(5) b(1) c by (cases "serials ts") auto
qed

end
