(* ===== verification/Libc.thy ===== *)
theory Libc
  imports Prelude "HOL-Library.Multiset"
begin

text \<open>
  What the sources use of the C library beyond single memory operations: \<open>memcmp\<close> and \<open>qsort\<close>.
  The model of \<open>qsort\<close> is one of the orders the standard allows; the theorems that use it rely
  only on the two lemmas at the end (a permutation, in order).
\<close>

text \<open>A pointer to an object of the caller: \<open>None\<close> is NULL. \<open>sizeof(void *)\<close> on the LP64 target.\<close>

type_synonym 'a ptr = "'a option"

definition sizeof_ptr :: nat where
  "sizeof_ptr = 8"

text \<open>\<open>memcmp\<close>; only the sign of its result is specified, and used.\<close>

fun memcmp :: "u8 list \<Rightarrow> u8 list \<Rightarrow> nat \<Rightarrow> int" where
  "memcmp (x # a) (y # b) (Suc n) = (if x = y then memcmp a b n else if x < y then -1 else 1)"
| "memcmp _ _ _ = 0"

text \<open>\<open>qsort\<close>: the elements in an order the comparison agrees with.\<close>

fun insert_by :: "('a \<Rightarrow> 'a \<Rightarrow> int) \<Rightarrow> 'a \<Rightarrow> 'a list \<Rightarrow> 'a list" where
  "insert_by cmp x [] = [x]"
| "insert_by cmp x (y # ys) = (if cmp x y \<le> 0 then x # y # ys else y # insert_by cmp x ys)"

definition qsort :: "('a \<Rightarrow> 'a \<Rightarrow> int) \<Rightarrow> 'a list \<Rightarrow> 'a list" where
  "qsort cmp xs = foldr (insert_by cmp) xs []"

section \<open>Comparison functions\<close>

text \<open>
  What the standard asks of a comparison function: swapping the arguments flips the sign, and
  the order is transitive.
\<close>

definition cmp_ok :: "('a \<Rightarrow> 'a \<Rightarrow> int) \<Rightarrow> bool" where
  "cmp_ok cmp \<longleftrightarrow>
     (\<forall>x y. sgn (cmp x y) = - sgn (cmp y x)) \<and>
     (\<forall>x y z. cmp x y \<le> 0 \<longrightarrow> cmp y z \<le> 0 \<longrightarrow> cmp x z \<le> 0)"

definition in_order :: "('a \<Rightarrow> 'a \<Rightarrow> int) \<Rightarrow> 'a list \<Rightarrow> bool" where
  "in_order cmp = sorted_wrt (\<lambda>x y. cmp x y \<le> 0)"

lemma cmp_flip:
  assumes "cmp_ok cmp"
  shows "cmp x y \<le> 0 \<longleftrightarrow> 0 \<le> cmp y x" "cmp x y < 0 \<longleftrightarrow> 0 < cmp y x" "cmp x y = 0 \<longleftrightarrow> cmp y x = 0"
proof -
  have "sgn (cmp x y) = - sgn (cmp y x)" using assms unfolding cmp_ok_def by blast
  then show "cmp x y \<le> 0 \<longleftrightarrow> 0 \<le> cmp y x" "cmp x y < 0 \<longleftrightarrow> 0 < cmp y x" "cmp x y = 0 \<longleftrightarrow> cmp y x = 0"
    by (auto simp: sgn_if split: if_splits)
qed

lemma cmp_trans: "cmp_ok cmp \<Longrightarrow> cmp x y \<le> 0 \<Longrightarrow> cmp y z \<le> 0 \<Longrightarrow> cmp x z \<le> 0"
  unfolding cmp_ok_def by blast

lemma set_insert_by [simp]: "set (insert_by cmp x ys) = insert x (set ys)"
  by (induction ys) auto

lemma mset_insert_by [simp]: "mset (insert_by cmp x ys) = add_mset x (mset ys)"
  by (induction ys) auto

lemma qsort_mset: "mset (qsort cmp xs) = mset xs"
  by (induction xs) (simp_all add: qsort_def)

lemma insert_by_in_order: "cmp_ok cmp \<Longrightarrow> in_order cmp ys \<Longrightarrow> in_order cmp (insert_by cmp x ys)"
proof (induction ys)
  case (Cons y ys)
  show ?case
  proof (cases "cmp x y \<le> 0")
    case True
    then show ?thesis using Cons cmp_trans [OF Cons.prems(1) True] by (auto simp: in_order_def)
  next
    case False
    then have "cmp y x \<le> 0" using cmp_flip [OF Cons.prems(1), of x y] cmp_flip(1) [OF Cons.prems(1), of y x] by linarith
    with False Cons show ?thesis by (auto simp: in_order_def)
  qed
qed (simp add: in_order_def)

lemma qsort_in_order: "cmp_ok cmp \<Longrightarrow> in_order cmp (qsort cmp xs)"
proof (induction xs)
  case (Cons x xs)
  then show ?case using insert_by_in_order [of cmp "qsort cmp xs" x] by (simp add: qsort_def)
qed (simp add: qsort_def in_order_def)

end
