(* ===== verification/Cbb_Set.thy ===== *)
theory Cbb_Set
  imports Cbb_Build Libc "HOL-Library.List_Lexorder"
begin

text \<open>
  The end of \<^verbatim>\<open>cbb.c\<close>: \<open>CBB_flush_asn1_set_of\<close>, which puts the elements of a SET OF in DER
  order, and the calls that hand out or take back space.
\<close>

section \<open>The order of DER elements\<close>

definition compare_set_of_element :: "cbs \<Rightarrow> cbs \<Rightarrow> int" where
  "compare_set_of_element a b =
     (let a_len = CBS_len a; b_len = CBS_len b;
          min_len = (if a_len < b_len then a_len else b_len);
          ret = memcmp (CBS_data a) (CBS_data b) min_len
      in if ret \<noteq> 0 then ret
         else if a_len = b_len then 0
         else if a_len < b_len then -1 else 1)"

section \<open>Sorting a SET OF\<close>

function count_children :: "cbs \<Rightarrow> nat option" where
  "count_children cbs =
     (if CBS_len cbs = 0 then Some 0
      else case CBS_get_any_asn1_element cbs of
             None \<Rightarrow> None
           | Some (_, _, _, cbs') \<Rightarrow> map_option Suc (count_children cbs'))"
  by pat_completeness auto
termination
  by (relation "measure length") (auto simp: CBS_get_any_asn1_element_iff)

declare count_children.simps [simp del]

fun take_children :: "nat \<Rightarrow> cbs \<Rightarrow> cbs list option" where
  "take_children 0 cbs = Some []"
| "take_children (Suc n) cbs =
     (case CBS_get_any_asn1_element cbs of
        None \<Rightarrow> None
      | Some (child, _, _, cbs') \<Rightarrow> map_option ((#) child) (take_children n cbs'))"

fun add_children :: "allocator \<Rightarrow> nat \<Rightarrow> cbs list \<Rightarrow> cbb_op" where
  "add_children m i [] = Pair True"
| "add_children m i (c # cs) = and_then (CBB_add_bytes m i (CBS_data c) (CBS_len c)) (add_children m i cs)"

definition sizeof_CBS :: nat where
  "sizeof_CBS = 16"

text \<open>\<open>cbb->base->len = cbb->offset + cbb->pending_len_len\<close>.\<close>

definition rewind :: "nat \<Rightarrow> cbb_state \<Rightarrow> cbb_state" where
  "rewind i st =
     st\<lparr>base := map_option (\<lambda>b. b\<lparr>b_len := offset (chain st ! i) + pending_len_len (chain st ! i)\<rparr>) (base st)\<rparr>"

definition CBB_flush_asn1_set_of :: "allocator \<Rightarrow> nat \<Rightarrow> cbb_op" where
  "CBB_flush_asn1_set_of m i =
     and_then (CBB_flush m i) (\<lambda>st.
       case count_children (CBS_init (CBB_data i st) (CBB_len i st)) of
         None \<Rightarrow> (False, st)
       | Some num_children \<Rightarrow>
           if num_children < 2 then (True, st)
           else if num_children > (SIZE_MOD - 1) div sizeof_CBS then (False, st)
           else
             let buf_len = CBB_len i st in
             case (OPENSSL_memdup m (CBB_data i st) buf_len, OPENSSL_malloc m (num_children * sizeof_CBS)) of
               (Some buf, Some _) \<Rightarrow>
                 (case take_children num_children (CBS_init (blk_data buf) buf_len) of
                    None \<Rightarrow> (False, st)
                  | Some children \<Rightarrow>
                      add_children m i (qsort compare_set_of_element children) (rewind i st))
             | _ \<Rightarrow> (False, st))"

section \<open>Properties\<close>

lemma memcmp_lex:
  "compare_set_of_element a b < 0 \<longleftrightarrow> a < b" "compare_set_of_element a b = 0 \<longleftrightarrow> a = b"
proof (induction a arbitrary: b)
  case Nil
  {
    case 1
    show ?case by (cases b) (simp_all add: compare_set_of_element_def CBS_len_def)
  next
    case 2
    show ?case by (cases b) (simp_all add: compare_set_of_element_def CBS_len_def)
  }
next
  case (Cons x a)
  have step: "compare_set_of_element (x # a) (y # c) =
      (if x = y then compare_set_of_element a c else if x < y then -1 else 1)" for y c
    by (auto simp: compare_set_of_element_def CBS_len_def CBS_data_def Let_def)
  {
    case 1
    show ?case using Cons.IH
      by (cases b) (auto simp: step, simp add: compare_set_of_element_def CBS_len_def)
  next
    case 2
    show ?case using Cons.IH
      by (cases b) (auto simp: step, simp add: compare_set_of_element_def CBS_len_def)
  }
qed

lemma compare_le: "compare_set_of_element a b \<le> 0 \<longleftrightarrow> a \<le> b"
  using memcmp_lex [of a b] by (auto simp: le_less)

lemma qsort_sort: "qsort compare_set_of_element xs = sort xs"
proof -
  have "insert_by compare_set_of_element x ys = insort x ys" for x and ys :: "u8 list list"
    by (induction ys) (simp_all add: compare_le)
  then have "insert_by compare_set_of_element = insort" by (intro ext)
  then show ?thesis by (simp add: qsort_def sort_key_def)
qed

lemma count_children_elements:
  "\<forall>e \<in> set es. der_element e \<Longrightarrow> count_children (concat es) = Some (length es)"
proof (induction es)
  case Nil
  then show ?case by (simp add: count_children.simps CBS_len_def)
next
  case (Cons e es)
  obtain tag c where e: "length c < 2 ^ 32" "e = der tag c" using Cons.prems by (auto simp: der_element_def)
  then have "CBS_get_any_asn1_element (e @ concat es) = Some (e, tag, der_header_len tag (length c), concat es)"
    by (simp add: CBS_get_any_asn1_element_iff) blast
  then show ?case using Cons e by (subst count_children.simps) (simp add: CBS_len_def)
qed

lemma take_children_elements:
  "\<forall>e \<in> set es. der_element e \<Longrightarrow> take_children (length es) (concat es) = Some es"
proof (induction es)
  case (Cons e es)
  obtain tag c where e: "length c < 2 ^ 32" "e = der tag c" using Cons.prems by (auto simp: der_element_def)
  then have "CBS_get_any_asn1_element (e @ concat es) = Some (e, tag, der_header_len tag (length c), concat es)"
    by (simp add: CBS_get_any_asn1_element_iff) blast
  then show ?case using Cons by simp
qed simp

lemma add_children_appends:
  "malloc_ok m \<Longrightarrow> \<forall>c \<in> set cs. length c < 2 ^ 63 \<Longrightarrow>
    appends_flat m (add_children m i cs) i (Some (concat cs))"
proof (induction cs)
  case Nil
  have "add_children m i [] = Pair True" by (rule ext) simp
  then show ?case by (simp add: appends_flat_nop)
next
  case (Cons c cs)
  have "add_children m i (c # cs) = and_then (CBB_add_bytes m i c (length c)) (add_children m i cs)"
    by (rule ext) (simp add: CBS_data_def CBS_len_def)
  then show ?case
    using Cons appends_flat_then [OF appends_flatI [OF appends_CBB_add_bytes [of m "length c" c i]],
        of "add_children m i cs" "Some (concat cs)"]
    by simp
qed

lemma usable_rewind:
  assumes u: "usable i st" and len: "length (chain st) = Suc i" and b: "base st = Some b"
  defines "lo \<equiv> cbb_start (chain st ! i)"
  shows "usable i (rewind i st)" "base (rewind i st) = Some (b\<lparr>b_len := lo\<rparr>)"
    "chain (rewind i st) = chain st" "lo \<le> b_len b" "written (b\<lparr>b_len := lo\<rparr>) = take lo (written b)"
proof -
  show base: "base (rewind i st) = Some (b\<lparr>b_len := lo\<rparr>)" and chain: "chain (rewind i st) = chain st"
    by (simp_all add: rewind_def b lo_def cbb_start_def)
  show le: "lo \<le> b_len b"
    using flushed_length [OF u flushed_flat [OF u len b]] u b
    by (simp add: lo_def usable_def cbb_ok_def)
  show "written (b\<lparr>b_len := lo\<rparr>) = take lo (written b)" using le by (simp add: written_def min_absorb1)
  have ok: "buffer_ok (b\<lparr>b_len := lo\<rparr>)" "\<not> b_error b"
    using u b le by (auto simp: usable_def cbb_ok_def failed_def buffer_ok_def)
  have "cbb_ok (rewind i st)" by (rule cbb_ok_flat [OF u ok(1) _ base]) (simp_all add: lo_def chain len)
  then show "usable i (rewind i st)" using len ok(2) by (simp add: usable_def failed_def base chain)
qed

lemma der_element_length: "der_element e \<Longrightarrow> 2 \<le> length e"
proof -
  assume "der_element e"
  then obtain tag c where "e = der tag c" by (auto simp: der_element_def)
  moreover have "1 \<le> length (der_tag tag)" "1 \<le> length (der_len n)" for n
    by (simp add: der_tag_def Let_def) (subst der_len_extra, simp)
  then have "1 + 1 \<le> length (der_tag tag) + length (der_len (length c))" by (intro add_mono)
  ultimately show ?thesis by (simp add: der_def)
qed

lemma length_concat_elements: "\<forall>e \<in> set es. der_element e \<Longrightarrow> 2 * length es \<le> length (concat es)"
  by (induction es) (auto dest: der_element_length)

lemma OPENSSL_memdup_total:
  "malloc_total m \<Longrightarrow> 0 < n \<Longrightarrow> n + 8 < 2 ^ 63 \<Longrightarrow> OPENSSL_memdup m data n \<noteq> None"
  using OPENSSL_malloc_total [of m n] by (auto simp: OPENSSL_memdup_def split: option.splits)

lemma set_of_sorts:
  assumes m: "malloc_ok m" "malloc_total m" and u: "usable i st" and fl: "CBB_flush m i st = (True, st1)"
    and b1: "base st1 = Some b1" and es: "\<forall>e \<in> set es. der_element e"
    and w: "written b1 = pre @ concat es" "length pre = cbb_start (chain st ! i)" "b_len b1 < 2 ^ 60"
  shows "\<exists>st2 b2. CBB_flush_asn1_set_of m i st = (True, st2) \<and> base st2 = Some b2 \<and>
    written b2 = pre @ concat (sort es) \<and> usable i st2 \<and> chain st2 = take (Suc i) (chain st)"
proof -
  have ca: "appends_at m (CBB_flush m i) i (Some []) st"
    using appends_CBB_flush [OF m(1), of i] u by (simp add: appends_def)
  obtain st1: "chain st1 = take (Suc i) (chain st)" "usable i st1" "length (chain st1) = Suc i"
    by (rule appends_at_ok [OF u ca fl])
  have start: "cbb_start (chain st1 ! i) = length pre" using w(2) by (simp add: st1(1))
  have ok1: "buffer_ok b1" using st1(2) b1 by (simp add: usable_def cbb_ok_def)
  have len1: "b_len b1 = length pre + length (concat es)" using length_written [OF ok1] w(1) by simp
  have clen: "CBB_len i st1 = length (concat es)"
    using start by (simp add: CBB_len_def b1 len1 cbb_start_def)
  have data: "take (length (concat es)) (CBB_data i st1) = concat es"
  proof -
    have "CBB_data i st1 = drop (length pre) (b_buf b1)"
      using start by (simp add: CBB_data_def b1 cbb_start_def)
    moreover have "take (length pre + length (concat es)) (b_buf b1) = pre @ concat es"
      using w(1) by (simp add: written_def len1)
    ultimately show ?thesis by (simp add: take_drop add.commute)
  qed
  have count: "count_children (CBS_init (CBB_data i st1) (CBB_len i st1)) = Some (length es)"
    unfolding CBS_init_def clen data by (rule count_children_elements [OF es])
  have n: "2 * length es \<le> length (concat es)" using length_concat_elements [OF es] .
  show ?thesis
  proof (cases "length es < 2")
    case True
    then have "sort es = es" by (cases es; cases "tl es") auto
    moreover have "CBB_flush_asn1_set_of m i st = (True, st1)"
      using True fl count by (simp add: CBB_flush_asn1_set_of_def and_then_def)
    ultimately show ?thesis using b1 w(1) st1 by auto
  next
    case False
    have small: "length (concat es) < 2 ^ 60" "length es < 2 ^ 59" using n w(3) len1 by simp_all
    obtain kids where kids: "OPENSSL_malloc m (length es * sizeof_CBS) = Some kids"
      using OPENSSL_malloc_total [OF m(2), of "length es * sizeof_CBS"] small by (auto simp: sizeof_CBS_def)
    have dl: "length (concat es) \<le> length (CBB_data i st1)" using arg_cong [OF data, of length] by simp
    obtain buf where dup: "OPENSSL_memdup m (CBB_data i st1) (length (concat es)) = Some buf"
      using OPENSSL_memdup_total [OF m(2), of "length (concat es)" "CBB_data i st1"] small(1) n False by fastforce
    have bd: "blk_data buf = concat es"
      using OPENSSL_memdup_block(2) [OF m(1) _ dl dup] small data by (simp add: SIZE_MOD_def)
    have eq: "CBB_flush_asn1_set_of m i st = add_children m i (sort es) (rewind i st1)"
      using fl count False small kids dup bd
      by (simp add: CBB_flush_asn1_set_of_def and_then_def clen sizeof_CBS_def SIZE_MOD_def CBS_init_def
          take_children_elements [OF es] qsort_sort)
    note rw = usable_rewind [OF st1(2,3) b1]
    have short: "\<forall>c \<in> set (sort es). length c < 2 ^ 63"
    proof
      fix c assume "c \<in> set (sort es)"
      then have "c \<in> set es" by simp
      then have "length c \<le> length (concat es)" by (induction es) auto
      then show "length c < 2 ^ 63" using small by simp
    qed
    have a: "appends_at m (add_children m i (sort es)) i (Some (concat (sort es))) (rewind i st1)"
      using add_children_appends [OF m(1) short, of i] rw(1,3) st1(3) by (simp add: appends_flat_def)
    have fl2: "flushed i (rewind i st1) = Some pre"
      using flushed_flat [OF rw(1) _ rw(2)] rw(3,5) st1(3) w(1) by (simp add: start)
    have same: "length (concat (sort es)) = length (concat es)"
    proof -
      have "length (concat (insort x ys)) = length x + length (concat ys)" for x and ys :: "u8 list list"
        by (induction ys) auto
      then show ?thesis by (induction es) simp_all
    qed
    obtain ok2 st2 where r: "add_children m i (sort es) (rewind i st1) = (ok2, st2)"
      by (metis surj_pair)
    have room: "room m (b1\<lparr>b_len := cbb_start (chain st1 ! i)\<rparr>) (length pre + length (concat (sort es)))"
      using ok1 len1 by (simp add: room_def same buffer_ok_def)
    have ok2
    proof (rule ccontr)
      assume "\<not> ok2"
      then show False using a fl2 rw(2) room by (simp add: appends_at_def r)
    qed
    with r have "add_children m i (sort es) (rewind i st1) = (True, st2)" by simp
    from appends_at_ok [OF rw(1) a this] obtain w2 bs2 b2 where
      d: "flushed i (rewind i st1) = Some w2" "Some (concat (sort es)) = Some bs2" "base st2 = Some b2"
        "written b2 = w2 @ bs2" "chain st2 = take (Suc i) (chain (rewind i st1))" "usable i st2" by metis
    then show ?thesis
      using eq r \<open>ok2\<close> fl2 rw(3) st1(1) by simp
  qed
qed

end
