(* ===== verification/Oid.thy ===== *)
theory Oid
  imports Cbb_Build
begin

text \<open>
  Object identifiers: the text form \<open>1.2.840.113554\<close> to and from the contents octets of an
  OBJECT IDENTIFIER. \<open>CBB_add_asn1_oid_from_text\<close> is in \<^verbatim>\<open>cbb.c\<close>, \<open>CBS_asn1_oid_to_text\<close> in
  \<^verbatim>\<open>cbs.c\<close>.
\<close>

section \<open>From text\<close>

definition UINT64_MAX :: u64 where
  "UINT64_MAX = 0xffffffffffffffff"

text \<open>The loop of \<open>parse_dotted_decimal\<close>, on \<open>*out\<close>, \<open>seen_digit\<close> and the input.\<close>

fun parse_dotted_loop :: "u64 \<Rightarrow> bool \<Rightarrow> cbs \<Rightarrow> (u64 \<times> cbs) option" where
  "parse_dotted_loop out seen_digit [] = (if seen_digit then Some (out, []) else None)"
| "parse_dotted_loop out seen_digit (u # cbs) =
     (if u = 46 \<and> CBS_len cbs > 0 then (if seen_digit then Some (out, cbs) else None)
      else if u < 48 \<or> u > 57 \<or> (seen_digit \<and> out = 0) \<or> out > UINT64_MAX div 10 \<or>
        out * 10 > UINT64_MAX - ucast (u - 48) then None
      else parse_dotted_loop (out * 10 + ucast (u - 48)) True cbs)"

definition parse_dotted_decimal :: "cbs \<Rightarrow> (u64 \<times> cbs) option" where
  "parse_dotted_decimal cbs = parse_dotted_loop 0 False cbs"

lemma parse_dotted_loop_shorter: "parse_dotted_loop out seen cbs = Some (v, rest) \<Longrightarrow> length rest \<le> length cbs"
  by (induction out seen cbs rule: parse_dotted_loop.induct) (auto simp: CBS_len_def split: if_splits)

lemma parse_dotted_decimal_shorter:
  "parse_dotted_decimal cbs = Some (v, rest) \<Longrightarrow> cbs \<noteq> [] \<Longrightarrow> length rest < length cbs"
  by (cases cbs) (auto simp: parse_dotted_decimal_def CBS_len_def dest!: parse_dotted_loop_shorter split: if_splits)

function oid_text_loop :: "allocator \<Rightarrow> nat \<Rightarrow> cbs \<Rightarrow> cbb_op" where
  "oid_text_loop m i cbs st =
     (if CBS_len cbs = 0 then (True, st)
      else case parse_dotted_decimal cbs of
             None \<Rightarrow> (False, st)
           | Some (a, cbs') \<Rightarrow> and_then (add_base128_integer m i a) (oid_text_loop m i cbs') st)"
  by pat_completeness auto
termination
  by (relation "measure (\<lambda>(m, i, cbs, st). length cbs)")
    (auto simp: CBS_len_def parse_dotted_decimal_shorter)

declare oid_text_loop.simps [simp del]

definition CBB_add_asn1_oid_from_text :: "allocator \<Rightarrow> nat \<Rightarrow> u8 list \<Rightarrow> nat \<Rightarrow> cbb_op" where
  "CBB_add_asn1_oid_from_text m i text len =
     and_then (CBB_flush m i) (\<lambda>st.
       case parse_dotted_decimal (CBS_init text len) of
         None \<Rightarrow> (False, st)
       | Some (a, cbs1) \<Rightarrow>
           (case parse_dotted_decimal cbs1 of
              None \<Rightarrow> (False, st)
            | Some (b, cbs2) \<Rightarrow>
                if a > 2 \<or> (a < 2 \<and> b > 39) \<or> b > UINT64_MAX - 80 then (False, st)
                else and_then (add_base128_integer m i (40 * a + b)) (oid_text_loop m i cbs2) st))"

section \<open>To text\<close>

text \<open>The digits \<open>%u\<close> prints.\<close>

fun decimal :: "nat \<Rightarrow> u8 list" where
  "decimal n = (if n < 10 then [] else decimal (n div 10)) @ [word_of_nat (48 + n mod 10)]"

declare decimal.simps [simp del]

definition add_decimal :: "allocator \<Rightarrow> nat \<Rightarrow> u64 \<Rightarrow> cbb_op" where
  "add_decimal m i v = CBB_add_bytes m i (decimal (unat v)) (length (decimal (unat v)))"

function oid_to_text_loop :: "allocator \<Rightarrow> cbs \<Rightarrow> cbb_op" where
  "oid_to_text_loop m copy st =
     (if CBS_len copy = 0 then (True, st)
      else case parse_base128_integer copy of
             None \<Rightarrow> (False, st)
           | Some (v, copy') \<Rightarrow>
               and_then (CBB_add_u8 m 0 46) (and_then (add_decimal m 0 v) (oid_to_text_loop m copy')) st)"
  by pat_completeness auto
termination
  by (relation "measure (\<lambda>(m, copy, st). length copy)") (auto dest: b128.get_shorter)

declare oid_to_text_loop.simps [simp del]

text \<open>The result is the memory the returned \<open>char *\<close> points to, up to its end.\<close>

definition CBS_asn1_oid_to_text :: "allocator \<Rightarrow> cbs \<Rightarrow> u8 list option" where
  "CBS_asn1_oid_to_text m cbs =
     (case CBB_init m 32 of
        (ok, cbb) \<Rightarrow>
          if \<not> ok then None
          else (case parse_base128_integer cbs of
              None \<Rightarrow> None
            | Some (v, copy) \<Rightarrow>
                (case and_then
                    (if v \<ge> 80 then and_then (CBB_add_bytes m 0 [50, 46] 2) (add_decimal m 0 (v - 80))
                     else and_then (add_decimal m 0 (v div 40))
                       (and_then (CBB_add_u8 m 0 46) (add_decimal m 0 (v mod 40))))
                    (and_then (oid_to_text_loop m copy) (CBB_add_u8 m 0 0)) cbb of
                   (ok1, cbb1) \<Rightarrow>
                     if \<not> ok1 then None
                     else (case CBB_finish m 0 True True cbb1 of
                         (Some (Some txt, Some txt_len), _) \<Rightarrow> Some (take txt_len txt)
                       | _ \<Rightarrow> None))))"

section \<open>Decimal numbers\<close>

lemma UINT64_MAX_nat: "unat UINT64_MAX = 2 ^ 64 - 1"
  by (simp add: UINT64_MAX_def)

lemma decimal_snoc: "0 < n \<Longrightarrow> d < 10 \<Longrightarrow> decimal (n * 10 + d) = decimal n @ [word_of_nat (48 + d)]"
  by (subst decimal.simps) auto

lemma decimal_digit: "d < 10 \<Longrightarrow> decimal d = [word_of_nat (48 + d)]"
  by (subst decimal.simps) simp

text \<open>One accepted digit.\<close>

lemma digit_step:
  assumes "\<not> (u < 48 \<or> u > (57::u8))"
  defines "d \<equiv> unat u - 48"
  shows "d < 10" "word_of_nat (48 + d) = u"
    "out > UINT64_MAX div 10 \<or> out * 10 > UINT64_MAX - ucast (u - 48) \<longleftrightarrow> 2 ^ 64 \<le> unat out * 10 + d"
    "unat out * 10 + d < 2 ^ 64 \<Longrightarrow> unat (out * 10 + ucast (u - 48) :: u64) = unat out * 10 + d"
proof -
  have u: "48 \<le> unat u" "unat u \<le> 57" using assms(1) by (simp_all add: word_less_nat_alt not_less)
  then show d: "d < 10" by (simp add: d_def)
  show "word_of_nat (48 + d) = u" using u by (intro u8_of_unat) (simp add: d_def)
  have "(48::u8) \<le> u" using u(1) by (simp add: word_le_nat_alt)
  then have "unat (u - 48) = d" by (simp add: unat_sub d_def)
  then have dw: "unat (ucast (u - 48) :: u64) = d" by simp
  have dle: "ucast (u - 48) \<le> UINT64_MAX"
    using d by (simp only: word_le_nat_alt dw UINT64_MAX_nat) simp
  have sub: "unat (UINT64_MAX - ucast (u - 48)) = 2 ^ 64 - 1 - d"
    using unat_sub [OF dle] by (simp only: dw UINT64_MAX_nat)
  have div: "unat (UINT64_MAX div 10) = (2 ^ 64 - 1) div 10"
    by (simp add: unat_div UINT64_MAX_nat)
  show "out > UINT64_MAX div 10 \<or> out * 10 > UINT64_MAX - ucast (u - 48) \<longleftrightarrow> 2 ^ 64 \<le> unat out * 10 + d"
  proof (cases "out > UINT64_MAX div 10")
    case True
    then have "(2 ^ 64 - 1) div 10 < unat out" by (simp only: word_less_nat_alt div)
    then have "2 ^ 64 \<le> unat out * 10 + d" by simp
    then show ?thesis using True by simp
  next
    case False
    then have le: "unat out \<le> (2 ^ 64 - 1) div 10" by (simp only: word_less_nat_alt div not_less)
    then have "unat (out * 10) = unat out * 10" by (subst unat_mult_lem [THEN iffD1]) simp_all
    then have "out * 10 > UINT64_MAX - ucast (u - 48) \<longleftrightarrow> 2 ^ 64 - 1 - d < unat out * 10"
      by (simp only: word_less_nat_alt sub)
    moreover have "2 ^ 64 - 1 - d < unat out * 10 \<longleftrightarrow> 2 ^ 64 \<le> unat out * 10 + d" using d by auto
    ultimately show ?thesis using False by simp
  qed
  assume small: "unat out * 10 + d < 2 ^ 64"
  have "unat (out * 10 + ucast (u - 48) :: u64) = (unat out * 10 + d) mod 2 ^ 64"
    by (simp only: unat_word_ariths dw) (simp add: mod_simps)
  then show "unat (out * 10 + ucast (u - 48) :: u64) = unat out * 10 + d"
    using small by simp
qed

definition digit :: "nat \<Rightarrow> u8" where
  "digit d = word_of_nat (48 + d)"

lemma digit_facts:
  assumes "d < 10"
  shows "unat (digit d) = 48 + d" "digit d \<noteq> 46" "\<not> digit d < 48" "\<not> digit d > 57"
proof -
  show u: "unat (digit d) = 48 + d" unfolding digit_def by (rule unat_of_nat_u8_small) (use assms in simp)
  show "digit d \<noteq> 46" using u by auto
  show "\<not> digit d < 48" "\<not> digit d > 57" using u assms by (simp_all add: word_less_nat_alt)
qed

text \<open>What the loop accepts: digits that extend the number read so far, then the end of a component.\<close>

lemma parse_dotted_loop_digit:
  assumes "d < 10" "seen \<longrightarrow> out \<noteq> 0" "unat out * 10 + d < 2 ^ 64"
  shows "parse_dotted_loop out seen (digit d # cbs) =
    parse_dotted_loop (word_of_nat (unat out * 10 + d)) True cbs"
proof -
  note f = digit_facts [OF assms(1)]
  have nd: "\<not> (digit d < 48 \<or> digit d > 57)" "unat (digit d) - 48 = d" using f by simp_all
  have "unat (out * 10 + ucast (digit d - 48) :: u64) = unat out * 10 + d"
    by (rule digit_step(4) [OF nd(1), unfolded nd(2), OF assms(3)])
  then have "out * 10 + ucast (digit d - 48) = (word_of_nat (unat out * 10 + d) :: u64)" by (rule u64_of_unat)
  moreover have "\<not> (out > UINT64_MAX div 10 \<or> out * 10 > UINT64_MAX - ucast (digit d - 48))"
    using digit_step(3) [OF nd(1), of out] assms(3) by (simp add: nd(2))
  moreover have "\<not> (seen \<and> out = 0)" using assms(2) by blast
  ultimately show ?thesis using f by (simp only: parse_dotted_loop.simps) simp
qed

lemma parse_dotted_loop_decimal:
  "n < 2 ^ 64 \<Longrightarrow> parse_dotted_loop 0 False (decimal n @ cbs) = parse_dotted_loop (word_of_nat n) True cbs"
proof (induction n arbitrary: cbs rule: decimal.induct)
  case (1 n)
  show ?case
  proof (cases "n < 10")
    case True
    then show ?thesis
      using parse_dotted_loop_digit [of n False 0 cbs] by (simp add: decimal_digit digit_def)
  next
    case False
    let ?q = "n div 10" and ?d = "n mod 10"
    have q: "?q < 2 ^ 64" "0 < ?q" using "1.prems" False by (simp_all add: less_mult_imp_div_less div_greater_zero_iff)
    have uq: "unat (word_of_nat ?q :: u64) = ?q" by (rule unat_word_of_nat_u64 [OF q(1)])
    have n: "n = ?q * 10 + ?d" by simp
    have "decimal n = decimal ?q @ [digit ?d]"
      using decimal_snoc [of ?q ?d] q(2) by (simp add: digit_def)
    then have "parse_dotted_loop 0 False (decimal n @ cbs) = parse_dotted_loop (word_of_nat ?q) True (digit ?d # cbs)"
      using "1.IH" [OF False q(1), of "digit ?d # cbs"] by simp
    also have "\<dots> = parse_dotted_loop (word_of_nat (unat (word_of_nat ?q :: u64) * 10 + ?d)) True cbs"
    proof (rule parse_dotted_loop_digit)
      show "True \<longrightarrow> (word_of_nat ?q :: u64) \<noteq> 0" using uq q(2) by (metis unat_0 less_numeral_extra(3))
      show "unat (word_of_nat ?q :: u64) * 10 + ?d < 2 ^ 64" using "1.prems" unfolding uq by simp
    qed simp
    finally show ?thesis unfolding uq using n by simp
  qed
qed

text \<open>The end of a component: the end of the text, or a dot with text after it.\<close>

definition component_end :: "cbs \<Rightarrow> cbs" where
  "component_end rest = (if rest = [] then [] else 46 # rest)"

lemma parse_dotted_loop_end: "parse_dotted_loop v True (component_end rest) = Some (v, rest)"
  by (simp add: component_end_def CBS_len_def)

lemma parse_dotted_loop_sound:
  "parse_dotted_loop out seen cbs = Some (v, rest) \<Longrightarrow>
    \<exists>ds. cbs = ds @ component_end rest \<and>
      (if seen then decimal (unat v) = decimal (unat out) @ ds
       else out = 0 \<longrightarrow> decimal (unat v) = ds)"
proof (induction out seen cbs rule: parse_dotted_loop.induct)
  case (1 out seen)
  then show ?case by (auto simp: component_end_def split: if_splits)
next
  case (2 out seen u cbs)
  show ?case
  proof (cases "u = 46 \<and> CBS_len cbs > 0")
    case True
    then show ?thesis using "2.prems" by (auto simp: component_end_def CBS_len_def split: if_splits)
  next
    case False
    define d where "d = unat u - 48"
    have ok: "\<not> (u < 48 \<or> u > 57)" "\<not> (seen \<and> out = 0)"
      "\<not> (out > UINT64_MAX div 10 \<or> out * 10 > UINT64_MAX - ucast (u - 48))"
      and go: "parse_dotted_loop (out * 10 + ucast (u - 48)) True cbs = Some (v, rest)"
      using "2.prems" False by (simp_all split: if_splits)
    note st = digit_step(1,2) [OF ok(1), folded d_def]
    have "unat out * 10 + d < 2 ^ 64" using ok(3) digit_step(3) [OF ok(1), of out, folded d_def] by simp
    note val = digit_step(4) [OF ok(1), of out, folded d_def, OF this]
    obtain ds where ds: "cbs = ds @ component_end rest"
      "decimal (unat v) = decimal (unat out * 10 + d) @ ds"
      using "2.IH" [OF False] ok go unfolding val by auto
    have "decimal (unat out * 10 + d) = (if out = 0 then [u] else decimal (unat out) @ [u])"
      using st decimal_snoc [of "unat out" d] decimal_digit [of d] by (simp add: unat_gt_0)
    then show ?thesis using ds ok(2) by (intro exI [of _ "u # ds"]) auto
  qed
qed

lemma parse_dotted_decimal_iff:
  "parse_dotted_decimal cbs = Some (v, rest) \<longleftrightarrow> cbs = decimal (unat v) @ component_end rest"
proof
  assume "parse_dotted_decimal cbs = Some (v, rest)"
  then show "cbs = decimal (unat v) @ component_end rest"
    using parse_dotted_loop_sound [of 0 False cbs v rest] by (auto simp: parse_dotted_decimal_def)
next
  assume "cbs = decimal (unat v) @ component_end rest"
  then show "parse_dotted_decimal cbs = Some (v, rest)"
    using parse_dotted_loop_decimal [of "unat v" "component_end rest"] unat_u64_less [of v]
    by (simp add: parse_dotted_decimal_def parse_dotted_loop_end)
qed

section \<open>Object identifiers\<close>

text \<open>A sequence of components, its contents octets and its text.\<close>

definition oid_ok :: "nat list \<Rightarrow> bool" where
  "oid_ok ns \<longleftrightarrow>
     (case ns of
        a # b # rest \<Rightarrow> a \<le> 2 \<and> (a < 2 \<longrightarrow> b \<le> 39) \<and> b + 80 < 2 ^ 64 \<and> list_all (\<lambda>n. n < 2 ^ 64) rest
      | _ \<Rightarrow> False)"

definition oid_octets :: "nat list \<Rightarrow> u8 list" where
  "oid_octets ns = (case ns of a # b # rest \<Rightarrow> base128 (40 * a + b) @ concat (map base128 rest) | _ \<Rightarrow> [])"

fun oid_text :: "nat list \<Rightarrow> u8 list" where
  "oid_text [] = []"
| "oid_text (n # ns) = decimal n @ component_end (oid_text ns)"

lemma decimal_not_Nil [simp]: "decimal n \<noteq> []"
  by (subst decimal.simps) simp

lemma oid_text_Nil [simp]: "oid_text ns = [] \<longleftrightarrow> ns = []"
  by (cases ns) auto

lemma parse_component:
  assumes "n < 2 ^ 64"
  shows "parse_dotted_decimal (oid_text (n # ns)) = Some (word_of_nat n, oid_text ns)"
  using assms by (simp add: parse_dotted_decimal_iff unat_word_of_nat_u64)

lemma oid_text_loop_appends:
  assumes "malloc_ok m"
  shows "list_all (\<lambda>n. n < 2 ^ 64) ns \<Longrightarrow>
    appends_flat m (oid_text_loop m i (oid_text ns)) i (Some (concat (map base128 ns)))"
proof (induction ns)
  case Nil
  have "oid_text_loop m i (oid_text []) = Pair True" by (rule ext) (simp add: oid_text_loop.simps CBS_len_def)
  then show ?case by (simp add: appends_flat_nop)
next
  case (Cons n ns)
  have n: "n < 2 ^ 64" using Cons.prems by simp
  have "oid_text_loop m i (oid_text (n # ns)) =
      and_then (add_base128_integer m i (word_of_nat n)) (oid_text_loop m i (oid_text ns))"
    using parse_component [OF n, of ns] by (intro ext, subst oid_text_loop.simps) (simp add: CBS_len_def)
  then show ?case
    using appends_flat_then [OF appends_flatI [OF appends_add_base128_integer [OF assms, of i "word_of_nat n"]] Cons.IH]
      Cons.prems n by (simp add: unat_word_of_nat_u64)
qed

lemma first_octets:
  assumes "a \<le> 2" "a < 2 \<longrightarrow> b \<le> 39" "b + 80 < 2 ^ 64"
  shows "unat (40 * word_of_nat a + word_of_nat b :: u64) = 40 * a + b"
    "\<not> (word_of_nat a > (2::u64) \<or> (word_of_nat a < (2::u64) \<and> word_of_nat b > (39::u64)) \<or>
        word_of_nat b > UINT64_MAX - 80)"
proof -
  have a: "unat (word_of_nat a :: u64) = a" and b: "unat (word_of_nat b :: u64) = b"
    using assms by (simp_all add: unat_word_of_nat_u64)
  have "40 * a \<le> 80" using assms(1) by simp
  then have "40 * a + b < 2 ^ 64" using assms(3) by linarith
  then show "unat (40 * word_of_nat a + word_of_nat b :: u64) = 40 * a + b"
    using unat_word_of_nat_u64 [of "40 * a + b"] by simp
  have "unat (UINT64_MAX - 80) = 2 ^ 64 - 81" by (simp add: UINT64_MAX_def)
  then show "\<not> (word_of_nat a > (2::u64) \<or> (word_of_nat a < (2::u64) \<and> word_of_nat b > (39::u64)) \<or>
        word_of_nat b > UINT64_MAX - 80)"
    using assms by (simp only: word_less_nat_alt a b) auto
qed

lemma CBB_add_asn1_oid_from_text_appends:
  assumes "malloc_ok m" "oid_ok ns"
  shows "appends m (CBB_add_asn1_oid_from_text m i (oid_text ns) (length (oid_text ns))) i (Some (oid_octets ns))"
proof -
  obtain a b rest where ns: "ns = a # b # rest"
    and ab: "a \<le> 2" "a < 2 \<longrightarrow> b \<le> 39" "b + 80 < 2 ^ 64" and rest: "list_all (\<lambda>n. n < 2 ^ 64) rest"
    using assms(2) by (auto simp: oid_ok_def split: list.splits)
  have "a < 2 ^ 64" "b < 2 ^ 64" using ab by simp_all
  note parse = parse_component [OF this(1), of "b # rest"] parse_component [OF this(2), of rest]
  note f = first_octets [OF ab]
  have eq: "CBB_add_asn1_oid_from_text m i (oid_text ns) (length (oid_text ns)) =
      and_then (CBB_flush m i)
        (and_then (add_base128_integer m i (40 * word_of_nat a + word_of_nat b)) (oid_text_loop m i (oid_text rest)))"
    unfolding CBB_add_asn1_oid_from_text_def CBS_init_def take_all [OF order_refl] ns parse
      option.case prod.case if_not_P [OF f(2)] ..
  have "appends m (and_then (add_base128_integer m i (40 * word_of_nat a + word_of_nat b))
      (oid_text_loop m i (oid_text rest))) i (Some (base128 (40 * a + b) @ concat (map base128 rest)))"
    using appends_then_flat [OF appends_add_base128_integer [OF assms(1), of i "40 * word_of_nat a + word_of_nat b"]
        oid_text_loop_appends [OF assms(1) rest]] f(1)
    by simp
  from appends_then [OF appends_CBB_flush [OF assms(1)] this] show ?thesis
    unfolding eq by (simp add: ns oid_octets_def)
qed

text \<open>Nothing else is accepted.\<close>

lemma oid_text_loop_sound:
  "oid_text_loop m i cbs st = (True, st') \<Longrightarrow> \<exists>ns. list_all (\<lambda>n. n < 2 ^ 64) ns \<and> cbs = oid_text ns"
proof (induction m i cbs st arbitrary: st' rule: oid_text_loop.induct)
  case (1 m i cbs st)
  show ?case
  proof (cases "cbs = []")
    case True
    then show ?thesis by (intro exI [of _ "[]"]) simp
  next
    case False
    then obtain a cbs' where p: "parse_dotted_decimal cbs = Some (a, cbs')"
      using "1.prems" by (subst (asm) oid_text_loop.simps) (auto simp: CBS_len_def split: option.splits)
    obtain ok st1 where a: "add_base128_integer m i a st = (ok, st1)" by (metis surj_pair)
    have "ok" "oid_text_loop m i cbs' st1 = (True, st')"
      using "1.prems" False p a by (subst (asm) oid_text_loop.simps; auto simp: CBS_len_def and_then_def split: if_splits)+
    then obtain ns where ns: "list_all (\<lambda>n. n < 2 ^ 64) ns" "cbs' = oid_text ns"
      using "1.IH" [OF _ p refl] False by (auto simp: CBS_len_def)
    have "cbs = oid_text (unat a # ns)" using p ns(2) by (simp add: parse_dotted_decimal_iff)
    then show ?thesis using ns(1) by (intro exI [of _ "unat a # ns"]) simp
  qed
qed

lemma CBB_add_asn1_oid_from_text_sound:
  assumes "CBB_add_asn1_oid_from_text m i text (length text) st = (True, st')"
  shows "\<exists>ns. oid_ok ns \<and> text = oid_text ns"
proof -
  obtain st1 a cbs1 b cbs2 where pa: "parse_dotted_decimal text = Some (a, cbs1)"
    and pb: "parse_dotted_decimal cbs1 = Some (b, cbs2)"
    and ab: "\<not> (a > 2 \<or> (a < 2 \<and> b > 39) \<or> b > UINT64_MAX - 80)"
    and go: "and_then (add_base128_integer m i (40 * a + b)) (oid_text_loop m i cbs2) st1 = (True, st')"
    using assms
    by (auto simp: CBB_add_asn1_oid_from_text_def CBS_init_def and_then_def [of "CBB_flush m i"]
        split: prod.splits option.splits if_splits)
  obtain st2 where "oid_text_loop m i cbs2 st2 = (True, st')"
    using go by (auto simp: and_then_def split: prod.splits if_splits)
  then obtain ns where ns: "list_all (\<lambda>n. n < 2 ^ 64) ns" "cbs2 = oid_text ns"
    using oid_text_loop_sound by blast
  have "unat (UINT64_MAX - 80) = 2 ^ 64 - 81" by (simp add: UINT64_MAX_def)
  then have "unat a \<le> 2" "unat a < 2 \<longrightarrow> unat b \<le> 39" "unat b \<le> 2 ^ 64 - 81"
    using ab by (auto simp: word_less_nat_alt not_less)
  then have "oid_ok (unat a # unat b # ns)" using ns(1) by (auto simp: oid_ok_def)
  moreover have "text = oid_text (unat a # unat b # ns)"
    using pa pb ns(2) by (simp add: parse_dotted_decimal_iff)
  ultimately show ?thesis by blast
qed

section \<open>The text of contents octets\<close>

lemma length_decimal_le: "n < 10 ^ Suc k \<Longrightarrow> length (decimal n) \<le> Suc k"
proof (induction k arbitrary: n)
  case 0
  then show ?case by (simp add: decimal.simps)
next
  case (Suc k)
  have "n div 10 < 10 ^ Suc k" using Suc.prems by (intro less_mult_imp_div_less) simp
  then have "length (decimal (n div 10)) \<le> Suc k" by (rule Suc.IH)
  then show ?case by (subst decimal.simps) simp
qed

lemma length_decimal_u64: "length (decimal (unat (v::u64))) \<le> 20"
proof -
  have "unat v < 10 ^ Suc 19" by (rule less_trans [OF unat_u64_less]) simp
  then show ?thesis using length_decimal_le [of "unat v" 19] by simp
qed

lemma appends_add_decimal:
  assumes "malloc_ok m"
  shows "appends m (add_decimal m i v) i (Some (decimal (unat v)))"
  using appends_CBB_add_bytes [OF assms, of "length (decimal (unat v))" "decimal (unat v)" i] length_decimal_u64 [of v]
  by (simp add: add_decimal_def)

definition dotted :: "nat list \<Rightarrow> u8 list" where
  "dotted ns = concat (map (\<lambda>n. 46 # decimal n) ns)"

lemma oid_text_dotted: "oid_text (n # ns) = decimal n @ dotted ns"
  by (induction ns arbitrary: n) (simp_all add: dotted_def component_end_def)

lemma parse_base128:
  "n < 2 ^ 64 \<Longrightarrow> parse_base128_integer (base128 n @ rest) = Some (word_of_nat n, rest)"
  by (simp add: parse_base128_integer_iff unat_word_of_nat_u64)

lemma oid_to_text_loop_appends:
  assumes "malloc_ok m"
  shows "list_all (\<lambda>n. n < 2 ^ 64) ns \<Longrightarrow>
    appends_flat m (oid_to_text_loop m (concat (map base128 ns))) 0 (Some (dotted ns))"
proof (induction ns)
  case Nil
  have "oid_to_text_loop m [] = Pair True" by (rule ext) (simp add: oid_to_text_loop.simps CBS_len_def)
  then show ?case by (simp add: appends_flat_nop dotted_def)
next
  case (Cons n ns)
  let ?rest = "concat (map base128 ns)"
  have n: "n < 2 ^ 64" using Cons.prems by simp
  have "base128 n \<noteq> []" by (simp add: base128_def)
  then have "oid_to_text_loop m (concat (map base128 (n # ns))) =
      and_then (CBB_add_u8 m 0 46) (and_then (add_decimal m 0 (word_of_nat n)) (oid_to_text_loop m ?rest))"
    using parse_base128 [OF n, of ?rest] by (intro ext, subst oid_to_text_loop.simps) (simp add: CBS_len_def)
  moreover have "appends m (and_then (add_decimal m 0 (word_of_nat n)) (oid_to_text_loop m ?rest)) 0
      (Some (decimal n @ dotted ns))"
    using appends_then_flat [OF appends_add_decimal [OF assms, of 0 "word_of_nat n"] Cons.IH] Cons.prems n
    by (simp add: unat_word_of_nat_u64)
  note appends_then [OF appends_CBB_add_u8 [OF assms, of 0 46] this]
  ultimately show ?case by (simp add: appends_flatI dotted_def)
qed

lemma CBS_asn1_oid_to_text_eq:
  assumes m: "malloc_ok m" "malloc_total m" and ns: "oid_ok ns" and len: "length (oid_text ns) < 2 ^ 60"
  shows "CBS_asn1_oid_to_text m (oid_octets ns) = Some (oid_text ns @ [0])"
proof -
  obtain a b rest where n: "ns = a # b # rest"
    and ab: "a \<le> 2" "a < 2 \<longrightarrow> b \<le> 39" "b + 80 < 2 ^ 64" and rest: "list_all (\<lambda>n. n < 2 ^ 64) rest"
    using ns by (auto simp: oid_ok_def split: list.splits)
  let ?copy = "concat (map base128 rest)"
  define v where "v = (word_of_nat (40 * a + b) :: u64)"
  have "40 * a \<le> 80" using ab(1) by simp
  then have small: "40 * a + b < 2 ^ 64" using ab(3) by linarith
  then have uv: "unat v = 40 * a + b" unfolding v_def by (rule unat_word_of_nat_u64)
  let ?first = "if v \<ge> 80 then and_then (CBB_add_bytes m 0 [50, 46] 2) (add_decimal m 0 (v - 80))
                else and_then (add_decimal m 0 (v div 40)) (and_then (CBB_add_u8 m 0 46) (add_decimal m 0 (v mod 40)))"
  have ge: "v \<ge> 80 \<longleftrightarrow> 80 \<le> 40 * a + b" by (simp add: word_le_nat_alt uv)
  have first: "appends m ?first 0 (Some (decimal a @ 46 # decimal b))"
  proof (cases "v \<ge> 80")
    case True
    then have a: "a = 2" using ge ab(1,2) by (cases "a < 2") auto
    have "unat (v - 80) = b" using unat_sub [OF True] by (simp add: uv a)
    moreover have "decimal 2 = [50]" by (simp add: decimal.simps)
    ultimately show ?thesis
      using True a appends_then [OF appends_CBB_add_bytes [OF m(1), of 2 "[50, 46]" 0] appends_add_decimal [OF m(1), of 0 "v - 80"]]
      by simp
  next
    case False
    then have "40 * a + b < 80" using ge by simp
    then have b: "b < 40" and a: "a < 2" using ab by auto
    have "unat (v div 40) = a" "unat (v mod 40) = b" using b by (simp_all add: unat_div unat_mod uv)
    then show ?thesis
      using False appends_then [OF appends_add_decimal [OF m(1), of 0 "v div 40"]
          appends_then [OF appends_CBB_add_u8 [OF m(1), of 0 46] appends_add_decimal [OF m(1), of 0 "v mod 40"]]]
      by simp
  qed
  have "appends_flat m (and_then (oid_to_text_loop m ?copy) (CBB_add_u8 m 0 0)) 0 (Some (dotted rest @ [0]))"
    using appends_flat_then [OF oid_to_text_loop_appends [OF m(1) rest] appends_flatI [OF appends_CBB_add_u8 [OF m(1), of 0 0]]]
    by simp
  note last = this
  have form: "oid_text ns = decimal a @ 46 # decimal b @ dotted rest"
    by (simp only: n oid_text_dotted) (simp add: dotted_def)
  from appends_flatI [OF appends_then_flat [OF first last]]
  have all: "appends_flat m (and_then ?first (and_then (oid_to_text_loop m ?copy) (CBB_add_u8 m 0 0))) 0 (Some (oid_text ns @ [0]))"
    by (simp only: form ocat_simps append_assoc append_Cons)
  have short: "length (oid_text ns @ [0]) < 2 ^ 61" "(32::nat) < 2 ^ 62" using len by simp_all
  obtain st st1 st2 buf where
    c: "CBB_init m 32 = (True, st)" "and_then ?first (and_then (oid_to_text_loop m ?copy) (CBB_add_u8 m 0 0)) st = (True, st1)"
      "CBB_finish m 0 True True st1 = (Some (Some buf, Some (length (oid_text ns @ [0]))), st2)"
      "take (length (oid_text ns @ [0])) buf = oid_text ns @ [0]"
    by (rule init_append_finish [OF m all short(2,1)])
  have "parse_base128_integer (oid_octets ns) = Some (v, ?copy)"
    using parse_base128 [OF small] by (simp add: n oid_octets_def v_def)
  then show ?thesis
    using c unfolding CBS_asn1_oid_to_text_def by (simp del: length_append take_append)
qed

end
