(* ===== verification/Unicode.thy ===== *)
theory Unicode
  imports Cbb_Build
begin

text \<open>
  \<^verbatim>\<open>crypto/bytestring/unicode.c\<close>: reading and writing characters in UTF-8, Latin-1, UCS-2 and
  UTF-32. The contract of an encoding (an exact reader with the writer that goes with it) is
  a locale; each of the four encodings is an interpretation of it.
\<close>

section \<open>Code\<close>

definition is_valid_code_point :: "u32 \<Rightarrow> bool" where
  "is_valid_code_point v \<longleftrightarrow>
     \<not> (v > 0x10ffff \<or> v AND 0xfffe = 0xfffe \<or> (v \<ge> 0xfdd0 \<and> v \<le> 0xfdef) \<or>
        (v \<ge> 0xd800 \<and> v \<le> 0xdfff))"

definition BOTTOM_BITS :: "nat \<Rightarrow> u8" where
  "BOTTOM_BITS n = ucast (push_bit n 1 - 1 :: u32)"

definition TOP_BITS :: "nat \<Rightarrow> u8" where
  "TOP_BITS n = NOT (BOTTOM_BITS (8 - n))"

text \<open>The loop over the continuation octets.\<close>

fun utf8_loop :: "u32 \<Rightarrow> nat \<Rightarrow> cbs \<Rightarrow> (u32 \<times> cbs) option" where
  "utf8_loop v 0 cbs = Some (v, cbs)"
| "utf8_loop v (Suc n) cbs =
     (case CBS_get_u8 cbs of
        None \<Rightarrow> None
      | Some (c, cbs') \<Rightarrow>
          if c AND TOP_BITS 2 \<noteq> TOP_BITS 1 then None
          else utf8_loop (push_bit 6 v OR ucast (c AND BOTTOM_BITS 6)) n cbs')"

definition cbs_get_utf8 :: "cbs \<Rightarrow> (u32 \<times> cbs) option" where
  "cbs_get_utf8 cbs =
     (case CBS_get_u8 cbs of
        None \<Rightarrow> None
      | Some (c, cbs1) \<Rightarrow>
          if c \<le> 0x7f then Some (ucast c, cbs1)
          else
            (case (if c AND TOP_BITS 3 = TOP_BITS 2 then Some (c AND BOTTOM_BITS 5, 1, 0x80)
                   else if c AND TOP_BITS 4 = TOP_BITS 3 then Some (c AND BOTTOM_BITS 4, 2, 0x800)
                   else if c AND TOP_BITS 5 = TOP_BITS 4 then Some (c AND BOTTOM_BITS 3, 3, 0x10000)
                   else None) of
               None \<Rightarrow> None
             | Some (v, len, lower_bound) \<Rightarrow>
                 (case utf8_loop (ucast v) len cbs1 of
                    None \<Rightarrow> None
                  | Some (v, cbs2) \<Rightarrow>
                      if \<not> is_valid_code_point v \<or> v < lower_bound then None else Some (v, cbs2))))"

definition cbs_get_latin1 :: "cbs \<Rightarrow> (u32 \<times> cbs) option" where
  "cbs_get_latin1 cbs =
     (case CBS_get_u8 cbs of None \<Rightarrow> None | Some (c, cbs') \<Rightarrow> Some (ucast c, cbs'))"

definition cbs_get_ucs2_be :: "cbs \<Rightarrow> (u32 \<times> cbs) option" where
  "cbs_get_ucs2_be cbs =
     (case CBS_get_u16 cbs of
        None \<Rightarrow> None
      | Some (c, cbs') \<Rightarrow> if \<not> is_valid_code_point (ucast c) then None else Some (ucast c, cbs'))"

definition cbs_get_utf32_be :: "cbs \<Rightarrow> (u32 \<times> cbs) option" where
  "cbs_get_utf32_be cbs =
     (case CBS_get_u32 cbs of
        None \<Rightarrow> None
      | Some (v, cbs') \<Rightarrow> if is_valid_code_point v then Some (v, cbs') else None)"

definition cbb_get_utf8_len :: "u32 \<Rightarrow> nat" where
  "cbb_get_utf8_len u = (if u \<le> 0x7f then 1 else if u \<le> 0x7ff then 2 else if u \<le> 0xffff then 3 else 4)"

text \<open>\<open>TOP_BITS(n) | x\<close> and \<open>TOP_BITS(1) | (x & BOTTOM_BITS(6))\<close>, as the \<open>uint8_t\<close> argument.\<close>

definition lead_octet :: "nat \<Rightarrow> u32 \<Rightarrow> u8" where
  "lead_octet n x = ucast (ucast (TOP_BITS n) OR x)"

definition cont_octet :: "u32 \<Rightarrow> u8" where
  "cont_octet x = ucast (ucast (TOP_BITS 1) OR (x AND ucast (BOTTOM_BITS 6)))"

definition cbb_add_utf8 :: "allocator \<Rightarrow> nat \<Rightarrow> u32 \<Rightarrow> cbb_op" where
  "cbb_add_utf8 m i u =
     (if \<not> is_valid_code_point u then Pair False
      else if u \<le> 0x7f then CBB_add_u8 m i (ucast u)
      else if u \<le> 0x7ff then
        and_then (CBB_add_u8 m i (lead_octet 2 (drop_bit 6 u))) (CBB_add_u8 m i (cont_octet u))
      else if u \<le> 0xffff then
        and_then (CBB_add_u8 m i (lead_octet 3 (drop_bit 12 u)))
          (and_then (CBB_add_u8 m i (cont_octet (drop_bit 6 u))) (CBB_add_u8 m i (cont_octet u)))
      else if u \<le> 0x10ffff then
        and_then (CBB_add_u8 m i (lead_octet 4 (drop_bit 18 u)))
          (and_then (CBB_add_u8 m i (cont_octet (drop_bit 12 u)))
            (and_then (CBB_add_u8 m i (cont_octet (drop_bit 6 u))) (CBB_add_u8 m i (cont_octet u))))
      else Pair False)"

definition cbb_add_latin1 :: "allocator \<Rightarrow> nat \<Rightarrow> u32 \<Rightarrow> cbb_op" where
  "cbb_add_latin1 m i u = (if u \<le> 0xff then CBB_add_u8 m i (ucast u) else Pair False)"

definition cbb_add_ucs2_be :: "allocator \<Rightarrow> nat \<Rightarrow> u32 \<Rightarrow> cbb_op" where
  "cbb_add_ucs2_be m i u =
     (if u \<le> 0xffff \<and> is_valid_code_point u then CBB_add_u16 m i (ucast u) else Pair False)"

definition cbb_add_utf32_be :: "allocator \<Rightarrow> nat \<Rightarrow> u32 \<Rightarrow> cbb_op" where
  "cbb_add_utf32_be m i u = (if is_valid_code_point u then CBB_add_u32 m i u else Pair False)"

section \<open>The contract of an encoding\<close>

text \<open>Writing a string of characters, as a loop over the writer does.\<close>

fun add_chars :: "(u32 \<Rightarrow> cbb_op) \<Rightarrow> u32 list \<Rightarrow> cbb_op" where
  "add_chars add [] = Pair True"
| "add_chars add (u # us) = and_then (add u) (add_chars add us)"

locale char_codec = exact_reader get enc ok
  for get :: "cbs \<Rightarrow> (u32 \<times> cbs) option" and enc :: "u32 \<Rightarrow> u8 list" and ok :: "u32 \<Rightarrow> bool" +
  fixes add :: "allocator \<Rightarrow> nat \<Rightarrow> u32 \<Rightarrow> cbb_op"
  assumes add_ok: "malloc_ok m \<Longrightarrow> ok u \<Longrightarrow> appends m (add m i u) i (Some (enc u))"
    and add_bad: "\<not> ok u \<Longrightarrow> add m i u st = (False, st)"
begin

lemma add_all_appends:
  assumes "malloc_ok m"
  shows "list_all ok us \<Longrightarrow> appends_flat m (add_chars (add m i) us) i (Some (concat (map enc us)))"
proof (induction us)
  case Nil
  show ?case by (simp add: appends_flat_nop)
next
  case (Cons u us)
  then show ?case
    using appends_flat_then [OF appends_flatI [OF add_ok [OF assms, of u i]],
        of "add_chars (add m i) us" "Some (concat (map enc us))"]
    by simp
qed

lemma add_all_round_trip:
  assumes "malloc_ok m" "malloc_total m" "list_all ok us" "length (concat (map enc us)) < 2 ^ 61"
  shows "\<exists>st st1 st2 buf n. CBB_init m 0 = (True, st) \<and> add_chars (add m 0) us st = (True, st1) \<and>
    CBB_finish m 0 True True st1 = (Some (Some buf, Some n), st2) \<and>
    parse_all get (CBS_init buf n) = Some us"
proof -
  obtain st st1 st2 buf where "CBB_init m 0 = (True, st)" "add_chars (add m 0) us st = (True, st1)"
    "CBB_finish m 0 True True st1 = (Some (Some buf, Some (length (concat (map enc us)))), st2)"
    "take (length (concat (map enc us))) buf = concat (map enc us)"
    by (rule init_append_finish [OF assms(1,2) add_all_appends [OF assms(1,3)] _ assms(4), of 0]) auto
  moreover have "parse_all get (concat (map enc us)) = Some us"
    using assms(3) by (simp add: parse_all_iff list_all_iff)
  ultimately show ?thesis by (auto simp: CBS_init_def)
qed

end

section \<open>Octets of UTF-8\<close>

fun cont_octets :: "nat \<Rightarrow> nat \<Rightarrow> u8 list" where
  "cont_octets 0 k = []"
| "cont_octets (Suc n) k = word_of_nat (0x80 + k div 64 ^ n) # cont_octets n (k mod 64 ^ n)"

definition utf8_octets :: "nat \<Rightarrow> u8 list" where
  "utf8_octets n =
     (if n < 0x80 then [word_of_nat n]
      else if n < 0x800 then word_of_nat (0xc0 + n div 64) # cont_octets 1 (n mod 64)
      else if n < 0x10000 then word_of_nat (0xe0 + n div 64 ^ 2) # cont_octets 2 (n mod 64 ^ 2)
      else word_of_nat (0xf0 + n div 64 ^ 3) # cont_octets 3 (n mod 64 ^ 3))"

lemma length_cont_octets [simp]: "length (cont_octets n k) = n"
  by (induction n arbitrary: k) auto

lemma length_utf8_octets: "length (utf8_octets n) \<le> 4"
  by (simp add: utf8_octets_def)

lemma bits_values:
  "BOTTOM_BITS 3 = mask 3" "BOTTOM_BITS 4 = mask 4" "BOTTOM_BITS 5 = mask 5" "BOTTOM_BITS 6 = mask 6"
  "TOP_BITS 1 = push_bit 7 1" "TOP_BITS 2 = push_bit 6 3" "TOP_BITS 3 = push_bit 5 7"
  "TOP_BITS 4 = push_bit 4 15"
  "TOP_BITS 2 = NOT (mask 6)" "TOP_BITS 3 = NOT (mask 5)" "TOP_BITS 4 = NOT (mask 4)" "TOP_BITS 5 = NOT (mask 3)"
  by (simp_all add: BOTTOM_BITS_def TOP_BITS_def mask_eq_exp_minus_1)

lemma and_top:
  fixes c w :: u8
  assumes "unat w * 2 ^ j < 256"
  shows "c AND NOT (mask j) = push_bit j w \<longleftrightarrow> unat c div 2 ^ j = unat w"
proof -
  have "c AND NOT (mask j) = push_bit j (drop_bit j c)"
    by (rule bit_word_eqI) (auto simp: bit_simps)
  moreover have "unat (push_bit j x) = unat x * 2 ^ j" if "unat x * 2 ^ j < 256" for x :: u8
    using unat_push_or [of x j 0] that by simp
  moreover have "unat (drop_bit j c) * 2 ^ j < 256"
    unfolding unat_drop_bit using div_times_less_eq_dividend [of "unat c" "2 ^ j"] unat_u8_less [of c] by linarith
  ultimately have "c AND NOT (mask j) = push_bit j w \<longleftrightarrow> unat (drop_bit j c) * 2 ^ j = unat w * 2 ^ j"
    using assms by (metis word_nat_eqI)
  then show ?thesis by (simp only: unat_drop_bit mult_cancel2) simp
qed

lemma lead_tests:
  "c AND TOP_BITS 2 = TOP_BITS 1 \<longleftrightarrow> unat c div 64 = 2"
  "c AND TOP_BITS 3 = TOP_BITS 2 \<longleftrightarrow> unat c div 32 = 6"
  "c AND TOP_BITS 4 = TOP_BITS 3 \<longleftrightarrow> unat c div 16 = 14"
  "c AND TOP_BITS 5 = TOP_BITS 4 \<longleftrightarrow> unat c div 8 = 30"
proof -
  have top: "TOP_BITS 1 = 0x80" "TOP_BITS 2 = 0xc0" "TOP_BITS 3 = 0xe0" "TOP_BITS 4 = 0xf0" "TOP_BITS 5 = 0xf8"
    by (simp_all add: BOTTOM_BITS_def TOP_BITS_def)
  have low: "NOT (mask 6) = (0xc0 :: u8)" "NOT (mask 5) = (0xe0 :: u8)" "NOT (mask 4) = (0xf0 :: u8)"
    "NOT (mask 3) = (0xf8 :: u8)"
    by (simp_all add: mask_eq_exp_minus_1)
  show "c AND TOP_BITS 2 = TOP_BITS 1 \<longleftrightarrow> unat c div 64 = 2"
    "c AND TOP_BITS 3 = TOP_BITS 2 \<longleftrightarrow> unat c div 32 = 6"
    "c AND TOP_BITS 4 = TOP_BITS 3 \<longleftrightarrow> unat c div 16 = 14"
    "c AND TOP_BITS 5 = TOP_BITS 4 \<longleftrightarrow> unat c div 8 = 30"
    using and_top [of 2 6 c] and_top [of 6 5 c] and_top [of 14 4 c] and_top [of 30 3 c]
    by (simp_all only: top low) simp_all
qed

lemma bottom_bits:
  "unat (c AND BOTTOM_BITS 6) = unat c mod 64" "unat (c AND BOTTOM_BITS 5) = unat c mod 32"
  "unat (c AND BOTTOM_BITS 4) = unat c mod 16" "unat (c AND BOTTOM_BITS 3) = unat c mod 8"
  using unat_and_mask [of c 6] unat_and_mask [of c 5] unat_and_mask [of c 4] unat_and_mask [of c 3]
  by (simp_all only: bits_values) simp_all

lemma unat_ucast_u8_u32: "unat (ucast (b::u8) :: u32) = unat b"
proof -
  have "unat b < 4294967296" using unat_u8_less [of b] by linarith
  then show ?thesis by (simp add: unsigned_ucast_eq take_bit_eq_mod)
qed

lemma CBS_get_u8_iff: "CBS_get_u8 cbs = Some (c, cbs') \<longleftrightarrow> cbs = c # cbs'"
  by (simp add: u8.get_iff)

lemma utf8_loop_iff:
  "(unat v + 1) * 64 ^ n \<le> 2 ^ 32 \<Longrightarrow>
   utf8_loop v n cbs = Some (v', rest) \<longleftrightarrow>
     (\<exists>k < 64 ^ n. unat v' = unat v * 64 ^ n + k \<and> cbs = cont_octets n k @ rest)"
proof (induction n arbitrary: v cbs)
  case 0
  show ?case by (auto simp: word_unat_eq_iff)
next
  case (Suc n)
  define w where "w c = (push_bit 6 v OR ucast (c AND BOTTOM_BITS 6) :: u32)" for c
  have pos: "0 < (64::nat) ^ n" by simp
  have v: "(unat v + 1) * 64 * 64 ^ n \<le> 2 ^ 32" using Suc.prems by (simp only: power_Suc mult.assoc)
  have "(unat v + 1) * 64 * 1 \<le> (unat v + 1) * 64 * 64 ^ n" using pos by (intro mult_left_mono) auto
  then have "(unat v + 1) * 64 \<le> (unat v + 1) * 64 * 64 ^ n" by (simp only: mult_1_right)
  from le_trans [OF this v] have v1: "(unat v + 1) * 64 \<le> 2 ^ 32" .
  have w: "unat (w c) = unat v * 64 + unat c mod 64" for c
    using unat_push_or [of v 6 "ucast (c AND BOTTOM_BITS 6)"] v1
    by (simp add: w_def unat_ucast_u8_u32 bottom_bits)
  have IH: "utf8_loop (w c) n cbs' = Some (v', rest) \<longleftrightarrow>
      (\<exists>k < 64 ^ n. unat v' = unat (w c) * 64 ^ n + k \<and> cbs' = cont_octets n k @ rest)" for c cbs'
  proof (rule Suc.IH)
    have "(unat (w c) + 1) \<le> (unat v + 1) * 64" using w [of c] by (simp add: Suc_leI)
    then show "(unat (w c) + 1) * 64 ^ n \<le> 2 ^ 32" using v pos by (meson le_trans mult_le_mono1)
  qed
  have step: "utf8_loop v (Suc n) cbs = Some (v', rest) \<longleftrightarrow>
      (\<exists>c cbs'. cbs = c # cbs' \<and> unat c div 64 = 2 \<and> utf8_loop (w c) n cbs' = Some (v', rest))"
    by (cases "CBS_get_u8 cbs") (auto simp: lead_tests lead_tests(1) [unfolded One_nat_def] w_def CBS_get_u8_iff split: if_splits)
  show ?case
  proof
    assume "utf8_loop v (Suc n) cbs = Some (v', rest)"
    then obtain c cbs' k where c: "cbs = c # cbs'" "unat c div 64 = 2" and k: "k < 64 ^ n"
      "unat v' = unat (w c) * 64 ^ n + k" "cbs' = cont_octets n k @ rest"
      unfolding step IH by auto
    define K where "K = unat c mod 64 * 64 ^ n + k"
    have K: "K div 64 ^ n = unat c mod 64" "K mod 64 ^ n = k" using k(1) by (simp_all add: K_def)
    have "K < 64 ^ Suc n"
    proof -
      have "K < (unat c mod 64 + 1) * 64 ^ n" using k(1) by (simp add: K_def)
      also have "\<dots> \<le> 64 * 64 ^ n" by (rule mult_right_mono) (simp_all add: Suc_leI)
      finally show ?thesis by simp
    qed
    moreover have "unat v' = unat v * 64 ^ Suc n + K"
      unfolding k(2) w K_def by (simp add: algebra_simps)
    moreover have "word_of_nat (0x80 + unat c mod 64) = c"
      by (rule u8_of_unat) (use c(2) div_mult_mod_eq [of "unat c" 64] in linarith)
    ultimately show "\<exists>k < 64 ^ Suc n. unat v' = unat v * 64 ^ Suc n + k \<and> cbs = cont_octets (Suc n) k @ rest"
      using c(1) k(3) K by (intro exI [of _ K]) simp
  next
    assume "\<exists>k < 64 ^ Suc n. unat v' = unat v * 64 ^ Suc n + k \<and> cbs = cont_octets (Suc n) k @ rest"
    then obtain K where K: "K < 64 ^ Suc n" "unat v' = unat v * 64 ^ Suc n + K"
      "cbs = cont_octets (Suc n) K @ rest" by auto
    define c :: u8 where "c = word_of_nat (0x80 + K div 64 ^ n)"
    have q: "K div 64 ^ n < 64" using K(1) by (simp add: less_mult_imp_div_less)
    then have c: "unat c = 128 + K div 64 ^ n" unfolding c_def by (intro unat_of_nat_u8_small) linarith
    have q': "(128 + q) mod 64 = q \<and> (128 + q) div 64 = 2" if "q < 64" for q :: nat
      using mod_mult_self1 [of q 2 64] div_mult_self1 [of 64 q 2] that by (simp add: add.commute)
    have "(128 + K div 64 ^ n) mod 64 = K div 64 ^ n" using q' [OF q] ..
    then have "unat v' = unat (w c) * 64 ^ n + K mod 64 ^ n"
      unfolding w c K(2) by (simp add: algebra_simps)
    moreover have "(128 + K div 64 ^ n) div 64 = 2" using q' [OF q] ..
    ultimately show "utf8_loop v (Suc n) cbs = Some (v', rest)"
      unfolding step IH using K(3) c pos
      by (intro exI [of _ c] exI [of _ "cont_octets n (K mod 64 ^ n) @ rest"] conjI exI [of _ "K mod 64 ^ n"])
         (simp_all add: c_def)
  qed
qed

text \<open>\<open>cbs_get_utf8\<close> by the number of continuation octets.\<close>

lemma utf8_tail:
  fixes x :: u8
  assumes "(unat x + 1) * 64 ^ n \<le> 2 ^ 32"
  shows "(case utf8_loop (ucast x) n cs of
            None \<Rightarrow> None
          | Some (v, cbs2) \<Rightarrow> if \<not> is_valid_code_point v \<or> v < lower then None else Some (v, cbs2))
          = Some (v, rest)
    \<longleftrightarrow> is_valid_code_point v \<and> unat lower \<le> unat v \<and> unat v div 64 ^ n = unat x \<and>
        cs = cont_octets n (unat v mod 64 ^ n) @ rest" (is "?L \<longleftrightarrow> ?R")
proof -
  have loop: "utf8_loop (ucast x) n cs = Some (v, rest) \<longleftrightarrow>
      unat v div 64 ^ n = unat x \<and> cs = cont_octets n (unat v mod 64 ^ n) @ rest"
  proof -
    have "utf8_loop (ucast x) n cs = Some (v, rest) \<longleftrightarrow>
        (\<exists>k < 64 ^ n. unat v = unat x * 64 ^ n + k \<and> cs = cont_octets n k @ rest)"
      using utf8_loop_iff [of "ucast x" n cs v rest] assms unfolding unat_ucast_u8_u32 by blast
    also have "\<dots> \<longleftrightarrow> unat v div 64 ^ n = unat x \<and> cs = cont_octets n (unat v mod 64 ^ n) @ rest"
    proof
      assume "unat v div 64 ^ n = unat x \<and> cs = cont_octets n (unat v mod 64 ^ n) @ rest"
      then show "\<exists>k < 64 ^ n. unat v = unat x * 64 ^ n + k \<and> cs = cont_octets n k @ rest"
        using div_mult_mod_eq [of "unat v" "64 ^ n"]
        by (intro exI [of _ "unat v mod 64 ^ n"]) (simp_all only: mod_less_divisor zero_less_power zero_less_numeral)
    qed auto
    finally show ?thesis .
  qed
  have "?L \<longleftrightarrow> utf8_loop (ucast x) n cs = Some (v, rest) \<and> is_valid_code_point v \<and> \<not> v < lower"
    by (auto split: option.splits if_splits)
  then show ?thesis unfolding loop by (auto simp: word_less_nat_alt not_less)
qed

lemma valid_below: "unat v < 0x80 \<Longrightarrow> is_valid_code_point v"
proof -
  assume v: "unat v < 0x80"
  have "v AND 0xfffe \<le> v" by (rule word_and_le2)
  then show ?thesis using v by (auto simp: is_valid_code_point_def word_less_nat_alt word_le_nat_alt)
qed

lemma valid_max: "is_valid_code_point v \<Longrightarrow> unat v \<le> 0x10ffff"
  by (simp add: is_valid_code_point_def word_less_nat_alt not_less)

lemma unat_lead: "p + d < 256 \<Longrightarrow> unat (c :: u8) = p + d \<longleftrightarrow> c = word_of_nat (p + d)"
  by (metis unat_of_nat_u8_small word_nat_eqI)

lemma div_mod_pair: "0 < m \<Longrightarrow> n div m = k \<and> q = n mod m \<longleftrightarrow> q < m \<and> n = k * m + (q::nat)"
  using div_mult_mod_eq [of n m] by auto

lemma utf8_lead:
  "unat (c::u8) div 32 = 6 \<and> q = unat c mod 32 \<longleftrightarrow> q < 32 \<and> c = word_of_nat (0xc0 + q)"
  "unat c div 16 = 14 \<and> q = unat c mod 16 \<longleftrightarrow> q < 16 \<and> c = word_of_nat (0xe0 + q)"
  "unat c div 8 = 30 \<and> q = unat c mod 8 \<longleftrightarrow> q < 8 \<and> c = word_of_nat (0xf0 + q)"
proof -
  have "unat c div 32 = 6 \<and> q = unat c mod 32 \<longleftrightarrow> q < 32 \<and> unat c = 0xc0 + q"
    "unat c div 16 = 14 \<and> q = unat c mod 16 \<longleftrightarrow> q < 16 \<and> unat c = 0xe0 + q"
    "unat c div 8 = 30 \<and> q = unat c mod 8 \<longleftrightarrow> q < 8 \<and> unat c = 0xf0 + q"
    using div_mod_pair [of 32 "unat c" 6 q] div_mod_pair [of 16 "unat c" 14 q] div_mod_pair [of 8 "unat c" 30 q]
    by simp_all
  moreover have "q < 32 \<and> unat c = 0xc0 + q \<longleftrightarrow> q < 32 \<and> c = word_of_nat (0xc0 + q)"
    "q < 16 \<and> unat c = 0xe0 + q \<longleftrightarrow> q < 16 \<and> c = word_of_nat (0xe0 + q)"
    "q < 8 \<and> unat c = 0xf0 + q \<longleftrightarrow> q < 8 \<and> c = word_of_nat (0xf0 + q)"
    by (rule conj_cong [OF refl unat_lead], linarith)+
  ultimately show "unat (c::u8) div 32 = 6 \<and> q = unat c mod 32 \<longleftrightarrow> q < 32 \<and> c = word_of_nat (0xc0 + q)"
    "unat c div 16 = 14 \<and> q = unat c mod 16 \<longleftrightarrow> q < 16 \<and> c = word_of_nat (0xe0 + q)"
    "unat c div 8 = 30 \<and> q = unat c mod 8 \<longleftrightarrow> q < 8 \<and> c = word_of_nat (0xf0 + q)"
    by blast+
qed

lemma cbs_get_utf8_iff:
  "cbs_get_utf8 cbs = Some (v, rest) \<longleftrightarrow> is_valid_code_point v \<and> cbs = utf8_octets (unat v) @ rest"
proof (cases cbs)
  case Nil
  have "CBS_get_u8 [] = None" by (rule u8.get_Nil)
  then show ?thesis by (simp add: Nil cbs_get_utf8_def utf8_octets_def)
next
  case (Cons c cs)
  have get: "CBS_get_u8 (c # cs) = Some (c, cs)" by (simp add: CBS_get_u8_iff)
  let ?n = "unat v" and ?u = "unat c"
  have b: "?u < 256" "c \<le> 0x7f \<longleftrightarrow> ?u < 0x80" by (simp_all add: word_le_nat_alt less_eq_Suc_le)
  note tail = utf8_tail [where cs = cs and v = v and rest = rest]
  have one: "cbs_get_utf8 cbs = Some (v, rest) \<longleftrightarrow> ?n = ?u \<and> cs = rest" if "?u < 0x80"
    using that b(2) by (auto simp: Cons cbs_get_utf8_def get word_unat_eq_iff unat_ucast_u8_u32)
  note body = Cons cbs_get_utf8_def get lead_tests bottom_bits option.case prod.case if_False if_True simp_thms
  have two: "cbs_get_utf8 cbs = Some (v, rest) \<longleftrightarrow>
      is_valid_code_point v \<and> 0x80 \<le> ?n \<and> ?n div 64 ^ 1 = ?u mod 32 \<and> cs = cont_octets 1 (?n mod 64 ^ 1) @ rest"
    if "?u div 32 = 6"
  proof -
    have not: "\<not> c \<le> 0x7f" using that b(2) by auto
    have "?u mod 32 < 32" by simp
    then have "(unat (c AND BOTTOM_BITS 5) + 1) * 64 ^ 1 \<le> 2 ^ 32" unfolding bottom_bits by simp
    from tail [OF this, of "0x80"] show ?thesis
      using that not by (simp only: body) simp
  qed
  have three: "cbs_get_utf8 cbs = Some (v, rest) \<longleftrightarrow>
      is_valid_code_point v \<and> 0x800 \<le> ?n \<and> ?n div 64 ^ 2 = ?u mod 16 \<and> cs = cont_octets 2 (?n mod 64 ^ 2) @ rest"
    if "?u div 16 = 14"
  proof -
    have not: "\<not> c \<le> 0x7f" using that b(2) by auto
    have other: "?u div 32 \<noteq> 6" using div_mult2_eq [of ?u 16 2] that by simp_all
    have "?u mod 16 < 16" by simp
    then have "(unat (c AND BOTTOM_BITS 4) + 1) * 64 ^ 2 \<le> 2 ^ 32" unfolding bottom_bits by simp
    from tail [OF this, of "0x800"] show ?thesis
      using that not other by (simp only: body) simp
  qed
  have four: "cbs_get_utf8 cbs = Some (v, rest) \<longleftrightarrow>
      is_valid_code_point v \<and> 0x10000 \<le> ?n \<and> ?n div 64 ^ 3 = ?u mod 8 \<and> cs = cont_octets 3 (?n mod 64 ^ 3) @ rest"
    if "?u div 8 = 30"
  proof -
    have not: "\<not> c \<le> 0x7f" using that b(2) by auto
    have other: "?u div 32 \<noteq> 6" "?u div 16 \<noteq> 14" using div_mult2_eq [of ?u 8 4] div_mult2_eq [of ?u 8 2] that by simp_all
    have "?u mod 8 < 8" by simp
    then have "(unat (c AND BOTTOM_BITS 3) + 1) * 64 ^ 3 \<le> 2 ^ 32" unfolding bottom_bits by simp
    from tail [OF this, of "0x10000"] show ?thesis
      using that not other by (simp only: body) simp
  qed
  have enc: "c # cs = utf8_octets ?n @ rest \<longleftrightarrow>
      (if ?n < 0x80 then ?u = ?n \<and> cs = rest
       else if ?n < 0x800 then c = word_of_nat (0xc0 + ?n div 64) \<and> cs = cont_octets 1 (?n mod 64) @ rest
       else if ?n < 0x10000 then c = word_of_nat (0xe0 + ?n div 64 ^ 2) \<and> cs = cont_octets 2 (?n mod 64 ^ 2) @ rest
       else c = word_of_nat (0xf0 + ?n div 64 ^ 3) \<and> cs = cont_octets 3 (?n mod 64 ^ 3) @ rest)"
    using unat_lead [of 0 ?n c] by (auto simp: utf8_octets_def simp del: cont_octets.simps of_nat_add)
  have none: "cbs_get_utf8 cbs \<noteq> Some (v, rest)"
    if "\<not> ?u < 0x80" "?u div 32 \<noteq> 6" "?u div 16 \<noteq> 14" "?u div 8 \<noteq> 30"
    using that b(2) by (simp add: body)
  have excl: "?u div 8 = 30 \<Longrightarrow> ?u div 16 = 15" "?u div 16 = 14 \<Longrightarrow> ?u div 32 = 7"
    "?u div 16 = 15 \<Longrightarrow> ?u div 32 = 7"
    using div_mult2_eq [of ?u 8 2] div_mult2_eq [of ?u 16 2] by simp_all
  have low: "?u div 32 < 6" if "?u < 0x80" using that by (simp add: div_less_iff_less_mult)
  define A B C D where
    "A \<longleftrightarrow> ?u < 0x80 \<and> ?n = ?u \<and> cs = rest" and
    "B \<longleftrightarrow> is_valid_code_point v \<and> 0x80 \<le> ?n \<and> (?u div 32 = 6 \<and> ?n div 64 ^ 1 = ?u mod 32) \<and>
        cs = cont_octets 1 (?n mod 64 ^ 1) @ rest" and
    "C \<longleftrightarrow> is_valid_code_point v \<and> 0x800 \<le> ?n \<and> (?u div 16 = 14 \<and> ?n div 64 ^ 2 = ?u mod 16) \<and>
        cs = cont_octets 2 (?n mod 64 ^ 2) @ rest" and
    "D \<longleftrightarrow> is_valid_code_point v \<and> 0x10000 \<le> ?n \<and> (?u div 8 = 30 \<and> ?n div 64 ^ 3 = ?u mod 8) \<and>
        cs = cont_octets 3 (?n mod 64 ^ 3) @ rest"
  have L: "cbs_get_utf8 cbs = Some (v, rest) \<longleftrightarrow> A \<or> B \<or> C \<or> D"
  proof -
    have excl': "?u < 0x80 \<Longrightarrow> ?u div 32 \<noteq> 6 \<and> ?u div 16 \<noteq> 14 \<and> ?u div 8 \<noteq> 30"
      "?u div 32 = 6 \<Longrightarrow> \<not> ?u < 0x80 \<and> ?u div 16 \<noteq> 14 \<and> ?u div 8 \<noteq> 30"
      "?u div 16 = 14 \<Longrightarrow> \<not> ?u < 0x80 \<and> ?u div 32 \<noteq> 6 \<and> ?u div 8 \<noteq> 30"
      "?u div 8 = 30 \<Longrightarrow> \<not> ?u < 0x80 \<and> ?u div 32 \<noteq> 6 \<and> ?u div 16 \<noteq> 14"
      using excl low by linarith+
    consider "?u < 0x80" | "?u div 32 = 6" | "?u div 16 = 14" | "?u div 8 = 30"
      | "\<not> ?u < 0x80" "?u div 32 \<noteq> 6" "?u div 16 \<noteq> 14" "?u div 8 \<noteq> 30" by blast
    then show ?thesis
    proof cases
      case 1
      from excl'(1) [OF 1] 1 show ?thesis unfolding A_def B_def C_def D_def one [OF 1] by blast
    next
      case 2
      from excl'(2) [OF 2] 2 show ?thesis unfolding A_def B_def C_def D_def two [OF 2] by blast
    next
      case 3
      from excl'(3) [OF 3] 3 show ?thesis unfolding A_def B_def C_def D_def three [OF 3] by blast
    next
      case 4
      from excl'(4) [OF 4] 4 show ?thesis unfolding A_def B_def C_def D_def four [OF 4] by blast
    next
      case 5
      with none [OF 5] show ?thesis unfolding A_def B_def C_def D_def by blast
    qed
  qed
  have "?n div 64 ^ 1 < 32 \<longleftrightarrow> ?n < 0x800" "?n div 64 ^ 2 < 16 \<longleftrightarrow> ?n < 0x10000"
    "?n div 64 ^ 3 < 8 \<longleftrightarrow> ?n < 0x200000"
    by (simp_all add: div_less_iff_less_mult)
  note range = this
  have R: "is_valid_code_point v \<and> c # cs = utf8_octets ?n @ rest \<longleftrightarrow> A \<or> B \<or> C \<or> D"
    unfolding A_def B_def C_def D_def utf8_lead range enc
    using valid_below [of v] valid_max [of v] by (auto simp del: cont_octets.simps of_nat_add)
  show ?thesis using L R by (simp only: Cons)
qed

section \<open>Writing UTF-8\<close>

lemma u8_of_u32: "(ucast (w::u32) :: u8) = word_of_nat (unat w)"
  by (rule word_nat_eqI) (simp add: unsigned_ucast_eq unsigned_of_nat)

lemma lead_octet_value:
  "unat x < 32 \<Longrightarrow> lead_octet 2 x = word_of_nat (0xc0 + unat x)"
  "unat x < 16 \<Longrightarrow> lead_octet 3 x = word_of_nat (0xe0 + unat x)"
  "unat x < 8 \<Longrightarrow> lead_octet 4 x = word_of_nat (0xf0 + unat x)"
proof -
  have top: "(ucast (TOP_BITS 2) :: u32) = push_bit 5 6" "(ucast (TOP_BITS 3) :: u32) = push_bit 4 14"
    "(ucast (TOP_BITS 4) :: u32) = push_bit 3 30"
    by (simp_all add: BOTTOM_BITS_def TOP_BITS_def)
  show "unat x < 32 \<Longrightarrow> lead_octet 2 x = word_of_nat (0xc0 + unat x)"
    unfolding lead_octet_def u8_of_u32 top using unat_push_or [of 6 5 x] by simp
  show "unat x < 16 \<Longrightarrow> lead_octet 3 x = word_of_nat (0xe0 + unat x)"
    unfolding lead_octet_def u8_of_u32 top using unat_push_or [of 14 4 x] by simp
  show "unat x < 8 \<Longrightarrow> lead_octet 4 x = word_of_nat (0xf0 + unat x)"
    unfolding lead_octet_def u8_of_u32 top using unat_push_or [of 30 3 x] by simp
qed

lemma cont_octet_value: "cont_octet x = word_of_nat (0x80 + unat x mod 64)"
proof -
  have top: "(ucast (TOP_BITS 1) :: u32) = push_bit 6 2" "(ucast (BOTTOM_BITS 6) :: u32) = mask 6"
    by (simp_all add: BOTTOM_BITS_def TOP_BITS_def mask_eq_exp_minus_1)
  have "unat (x AND mask 6) = unat x mod 64" using unat_and_mask [of x 6] by simp
  then show ?thesis
    unfolding cont_octet_def u8_of_u32 top using unat_push_or [of 2 6 "x AND mask 6"] by simp
qed

lemma cont_octets_mod:
  "cont_octets (Suc k) (n mod 64 ^ Suc k) = word_of_nat (0x80 + n div 64 ^ k mod 64) # cont_octets k (n mod 64 ^ k)"
proof -
  have "n mod 64 ^ Suc k = 64 ^ k * (n div 64 ^ k mod 64) + n mod 64 ^ k"
    using mod_mult2_eq [of n "64 ^ k" 64] by (simp only: power_Suc2)
  then have "n mod 64 ^ Suc k div 64 ^ k = n div 64 ^ k mod 64" "n mod 64 ^ Suc k mod 64 ^ k = n mod 64 ^ k"
    by simp_all
  then show ?thesis by (simp only: cont_octets.simps)
qed

lemma cont_octets_words:
  "cont_octets 1 (unat u mod 64 ^ 1) = [cont_octet u]"
  "cont_octets 2 (unat u mod 64 ^ 2) = [cont_octet (drop_bit 6 u), cont_octet u]"
  "cont_octets 3 (unat u mod 64 ^ 3) = [cont_octet (drop_bit 12 u), cont_octet (drop_bit 6 u), cont_octet u]"
proof -
  note c = cont_octets_mod [of 0 "unat u"] cont_octets_mod [of 1 "unat u"] cont_octets_mod [of 2 "unat u"]
  have n: "(1::nat) = Suc 0" "(2::nat) = Suc 1" "(3::nat) = Suc 2" by simp_all
  have d: "unat (drop_bit 6 u) = unat u div 64 ^ 1" "unat (drop_bit 12 u) = unat u div 64 ^ 2"
    using unat_drop_bit [of 6 u] unat_drop_bit [of 12 u] by simp_all
  have 1: "cont_octets 1 (unat u mod 64 ^ 1) = [cont_octet u]"
    using c(1) by (simp add: cont_octet_value)
  have 2: "cont_octets 2 (unat u mod 64 ^ 2) = [cont_octet (drop_bit 6 u), cont_octet u]"
    using c(2) unfolding n(2) [symmetric] 1 by (simp only: cont_octet_value d)
  have 3: "cont_octets 3 (unat u mod 64 ^ 3) = [cont_octet (drop_bit 12 u), cont_octet (drop_bit 6 u), cont_octet u]"
    using c(3) unfolding n(3) [symmetric] 2 by (simp only: cont_octet_value d)
  from 1 2 3 show "cont_octets 1 (unat u mod 64 ^ 1) = [cont_octet u]"
    "cont_octets 2 (unat u mod 64 ^ 2) = [cont_octet (drop_bit 6 u), cont_octet u]"
    "cont_octets 3 (unat u mod 64 ^ 3) = [cont_octet (drop_bit 12 u), cont_octet (drop_bit 6 u), cont_octet u]" .
qed

lemma utf8_octets_words:
  assumes "unat u \<le> 0x10ffff"
  shows "utf8_octets (unat u) =
    (if u \<le> 0x7f then [ucast u]
     else if u \<le> 0x7ff then [lead_octet 2 (drop_bit 6 u), cont_octet u]
     else if u \<le> 0xffff then [lead_octet 3 (drop_bit 12 u), cont_octet (drop_bit 6 u), cont_octet u]
     else [lead_octet 4 (drop_bit 18 u), cont_octet (drop_bit 12 u), cont_octet (drop_bit 6 u), cont_octet u])"
proof -
  have le: "u \<le> 0x7f \<longleftrightarrow> unat u < 0x80" "u \<le> 0x7ff \<longleftrightarrow> unat u < 0x800" "u \<le> 0xffff \<longleftrightarrow> unat u < 0x10000"
    by (simp_all add: word_le_nat_alt less_eq_Suc_le)
  have d: "unat (drop_bit 6 u) = unat u div 64" "unat (drop_bit 12 u) = unat u div 64 ^ 2"
    "unat (drop_bit 18 u) = unat u div 64 ^ 3"
    using unat_drop_bit [of 6 u] unat_drop_bit [of 12 u] unat_drop_bit [of 18 u] by simp_all
  have "unat u < 0x800 \<Longrightarrow> unat u div 64 < 32" "unat u < 0x10000 \<Longrightarrow> unat u div 64 ^ 2 < 16"
    "unat u div 64 ^ 3 < 8"
    using assms by (simp_all add: div_less_iff_less_mult)
  then have lead: "unat u < 0x800 \<Longrightarrow> lead_octet 2 (drop_bit 6 u) = word_of_nat (0xc0 + unat u div 64)"
    "unat u < 0x10000 \<Longrightarrow> lead_octet 3 (drop_bit 12 u) = word_of_nat (0xe0 + unat u div 64 ^ 2)"
    "lead_octet 4 (drop_bit 18 u) = word_of_nat (0xf0 + unat u div 64 ^ 3)"
    using lead_octet_value(1) [of "drop_bit 6 u"] lead_octet_value(2) [of "drop_bit 12 u"]
      lead_octet_value(3) [of "drop_bit 18 u"] unfolding d by blast+
  show ?thesis
    unfolding utf8_octets_def le u8_of_u32 cont_octets_words cont_octets_words(1) [unfolded power_one_right]
    by (simp add: lead)
qed

lemma utf8_len:
  "is_valid_code_point u \<Longrightarrow> cbb_get_utf8_len u = length (utf8_octets (unat u))"
  by (simp add: utf8_octets_words [OF valid_max] cbb_get_utf8_len_def)

lemma appends_cbb_add_utf8:
  assumes m: "malloc_ok m" and u: "is_valid_code_point u"
  shows "appends m (cbb_add_utf8 m i u) i (Some (utf8_octets (unat u)))"
proof -
  note add = appends_CBB_add_u8 [OF m]
  have two: "appends m (and_then (CBB_add_u8 m i a) (CBB_add_u8 m i b)) i (Some [a, b])" for a b
    using appends_then [OF add [of i a] add [of i b]] by simp
  have three: "appends m (and_then (CBB_add_u8 m i a) (and_then (CBB_add_u8 m i b) (CBB_add_u8 m i c))) i (Some [a, b, c])"
    for a b c
    using appends_then [OF add [of i a] two [of b c]] by simp
  have four: "appends m (and_then (CBB_add_u8 m i a) (and_then (CBB_add_u8 m i b)
      (and_then (CBB_add_u8 m i c) (CBB_add_u8 m i d)))) i (Some [a, b, c, d])" for a b c d
    using appends_then [OF add [of i a] three [of b c d]] by simp
  have "u \<le> 0x10ffff" using valid_max [OF u] by (simp add: word_le_nat_alt)
  then show ?thesis
    using u by (simp add: cbb_add_utf8_def utf8_octets_words [OF valid_max [OF u]] two three four add)
qed

section \<open>The four encodings\<close>

lemma utf8_octets_nonempty: "utf8_octets n \<noteq> []"
  by (simp add: utf8_octets_def)

interpretation utf8: char_codec cbs_get_utf8 "\<lambda>u. utf8_octets (unat u)" is_valid_code_point cbb_add_utf8
proof
  show "cbs_get_utf8 bs = Some (x, rest) \<longleftrightarrow> is_valid_code_point x \<and> bs = utf8_octets (unat x) @ rest"
    for bs x rest by (rule cbs_get_utf8_iff)
  show "utf8_octets (unat x) \<noteq> []" for x :: u32 by (rule utf8_octets_nonempty)
  show "appends m (cbb_add_utf8 m i u) i (Some (utf8_octets (unat u)))"
    if "malloc_ok m" "is_valid_code_point u" for m i u
    using that by (rule appends_cbb_add_utf8)
  show "cbb_add_utf8 m i u st = (False, st)" if "\<not> is_valid_code_point u" for m i u st
    using that by (simp add: cbb_add_utf8_def)
qed

interpretation latin1: char_codec cbs_get_latin1 "\<lambda>u. [ucast u]" "\<lambda>u. u \<le> 0xff" cbb_add_latin1
proof
  have ucast: "ucast c = x \<longleftrightarrow> x \<le> 0xff \<and> c = ucast x" for c :: u8 and x :: u32
  proof -
    have le: "x \<le> 0xff \<longleftrightarrow> unat x < 256" by (simp add: word_le_nat_alt less_eq_Suc_le)
    have down: "c = ucast x \<longleftrightarrow> unat c = unat x mod 256"
      unfolding u8_of_u32 word_unat_eq_iff unat_of_nat_u8 ..
    have up: "ucast c = x \<longleftrightarrow> unat c = unat x" by (simp add: word_unat_eq_iff unat_ucast_u8_u32)
    show ?thesis unfolding le down up
    proof (cases "unat x < 256")
      case False
      then show "unat c = unat x \<longleftrightarrow> unat x < 256 \<and> unat c = unat x mod 256"
        using unat_u8_less [of c] by linarith
    qed simp
  qed
  show "cbs_get_latin1 bs = Some (x, rest) \<longleftrightarrow> x \<le> 0xff \<and> bs = [ucast x] @ rest" for bs x rest
  proof (cases bs)
    case Nil
    then show ?thesis by (simp add: cbs_get_latin1_def u8.get_Nil)
  next
    case (Cons c cs)
    have "CBS_get_u8 (c # cs) = Some (c, cs)" by (simp add: CBS_get_u8_iff)
    then show ?thesis using ucast [of c x] by (auto simp: Cons cbs_get_latin1_def)
  qed
  show "appends m (cbb_add_latin1 m i u) i (Some [ucast u])" if "malloc_ok m" "u \<le> 0xff" for m i u
    using that appends_CBB_add_u8 [of m i "ucast u"] by (simp add: cbb_add_latin1_def)
qed (simp_all add: cbb_add_latin1_def)

interpretation utf32: char_codec cbs_get_utf32_be "\<lambda>u. be_bytes 4 (unat u)" is_valid_code_point cbb_add_utf32_be
proof
  show "cbs_get_utf32_be bs = Some (x, rest) \<longleftrightarrow> is_valid_code_point x \<and> bs = be_bytes 4 (unat x) @ rest"
    for bs x rest
    using u32.get_iff [of bs x rest] by (auto simp: cbs_get_utf32_be_def u32.get_enc split: option.splits)
  show "be_bytes 4 (unat x) \<noteq> []" for x :: u32 by (metis length_be_bytes list.size(3) zero_neq_numeral)
  show "appends m (cbb_add_utf32_be m i u) i (Some (be_bytes 4 (unat u)))"
    if "malloc_ok m" "is_valid_code_point u" for m i u
    using that appends_CBB_add_u32 [of m i u] by (simp add: cbb_add_utf32_be_def)
qed (simp_all add: cbb_add_utf32_be_def)

lemma unat_ucast_u16_u32: "unat (ucast (c::u16) :: u32) = unat c"
proof -
  have "unat c < 2 ^ LENGTH(16)" by (rule unsigned_less)
  then have "unat c < 4294967296" by (rule less_trans) simp
  then show ?thesis by (simp add: unsigned_ucast_eq take_bit_eq_mod)
qed

lemma u16_roundtrip:
  assumes "unat (x::u32) < 0x10000"
  shows "unat (ucast x :: u16) = unat x" "ucast (ucast x :: u16) = x"
proof -
  show down: "unat (ucast x :: u16) = unat x"
    using assms by (simp add: unsigned_ucast_eq take_bit_eq_mod)
  show "ucast (ucast x :: u16) = x"
    by (rule word_nat_eqI) (simp only: unat_ucast_u16_u32 down)
qed

interpretation ucs2: char_codec cbs_get_ucs2_be "\<lambda>u. be_bytes 2 (unat u)"
  "\<lambda>u. u \<le> 0xffff \<and> is_valid_code_point u" cbb_add_ucs2_be
proof
  have le: "u \<le> 0xffff \<longleftrightarrow> unat u < 0x10000" for u :: u32 by (simp add: word_le_nat_alt less_eq_Suc_le)
  show "cbs_get_ucs2_be bs = Some (x, rest) \<longleftrightarrow> (x \<le> 0xffff \<and> is_valid_code_point x) \<and> bs = be_bytes 2 (unat x) @ rest"
    (is "?L \<longleftrightarrow> ?R") for bs x rest
  proof -
    have "?L \<longleftrightarrow> (\<exists>c. CBS_get_u16 bs = Some (c, rest) \<and> x = ucast c \<and> is_valid_code_point x)"
      by (auto simp: cbs_get_ucs2_be_def split: option.splits if_splits)
    also have "\<dots> \<longleftrightarrow> (\<exists>c::u16. bs = be_bytes 2 (unat c) @ rest \<and> x = ucast c \<and> is_valid_code_point x)"
      by (simp add: u16.get_iff)
    also have "\<dots> \<longleftrightarrow> ?R"
    proof
      assume "\<exists>c::u16. bs = be_bytes 2 (unat c) @ rest \<and> x = ucast c \<and> is_valid_code_point x"
      then obtain c :: u16 where "bs = be_bytes 2 (unat c) @ rest" "x = ucast c" "is_valid_code_point x" by blast
      moreover have "unat c < 2 ^ LENGTH(16)" by (rule unsigned_less)
      ultimately show ?R by (simp add: le unat_ucast_u16_u32)
    next
      assume ?R
      then show "\<exists>c::u16. bs = be_bytes 2 (unat c) @ rest \<and> x = ucast c \<and> is_valid_code_point x"
        by (intro exI [of _ "ucast x"]) (simp add: le u16_roundtrip)
    qed
    finally show ?thesis .
  qed
  show "be_bytes 2 (unat x) \<noteq> []" for x :: u32 by (metis length_be_bytes list.size(3) zero_neq_numeral)
  show "appends m (cbb_add_ucs2_be m i u) i (Some (be_bytes 2 (unat u)))"
    if "malloc_ok m" "u \<le> 0xffff \<and> is_valid_code_point u" for m i u
    using that appends_CBB_add_u16 [of m i "ucast u"] by (simp add: cbb_add_ucs2_be_def le u16_roundtrip)
qed (auto simp: cbb_add_ucs2_be_def)

end
