(* ===== verification/Ber.thy ===== *)
theory Ber
  imports Cbb_Build
begin

text \<open>
  \<^verbatim>\<open>crypto/bytestring/ber.c\<close> and \<^verbatim>\<open>asn1_compat.c\<close>: the conversion of BER (indefinite lengths and
  constructed strings) to DER, implicitly tagged strings, and the \<open>i2d\<close> ending of a \<open>CBB\<close>.
\<close>

section \<open>Looking for BER\<close>

definition kMaxDepth :: nat where
  "kMaxDepth = 2048"

definition is_string_type :: "u32 \<Rightarrow> bool" where
  "is_string_type tag \<longleftrightarrow> tag AND NOT CBS_ASN1_CONSTRUCTED \<in>
     {CBS_ASN1_BITSTRING, CBS_ASN1_OCTETSTRING, CBS_ASN1_UTF8STRING, CBS_ASN1_NUMERICSTRING,
      CBS_ASN1_PRINTABLESTRING, CBS_ASN1_T61STRING, CBS_ASN1_VIDEOTEXSTRING, CBS_ASN1_IA5STRING,
      CBS_ASN1_GRAPHICSTRING, CBS_ASN1_VISIBLESTRING, CBS_ASN1_GENERALSTRING,
      CBS_ASN1_UNIVERSALSTRING, CBS_ASN1_BMPSTRING}"

text \<open>The test for an indefinite-length element, used in both walks.\<close>

definition is_indefinite :: "nat \<Rightarrow> cbs \<Rightarrow> bool" where
  "is_indefinite header_len contents \<longleftrightarrow>
     CBS_len contents = header_len \<and> header_len > 0 \<and> CBS_data contents ! (header_len - 1) = 0x80"

text \<open>
  What the BER reader accepts beyond DER elements: the header of a constructed element of
  indefinite length.
\<close>

definition indef_header :: "u32 \<Rightarrow> u8 list" where
  "indef_header tag = der_tag tag @ [0x80]"

lemma get_ber_no_tag:
  assumes "\<And>t b header. cbs \<noteq> der_tag t @ b # header"
  shows "cbs_get_any_asn1_element cbs ber_ok = None"
proof (cases "parse_asn1_tag cbs")
  case (Some p)
  obtain t header where p: "p = (t, header)" by (cases p)
  with Some have cbs: "cbs = der_tag t @ header" by (simp add: parse_asn1_tag_iff)
  with assms have "header = []" by (cases header) auto
  then show ?thesis by (simp add: cbs_get_any_asn1_element_def Some p)
qed (simp add: cbs_get_any_asn1_element_def)

lemma CBS_get_any_ber_asn1_element_iff:
  "CBS_get_any_ber_asn1_element cbs = Some (out, tag, hl, rest) \<longleftrightarrow>
     CBS_get_any_asn1_element cbs = Some (out, tag, hl, rest) \<or>
     (tag AND CBS_ASN1_CONSTRUCTED \<noteq> 0 \<and> out = indef_header tag \<and> hl = length out \<and> cbs = out @ rest)"
proof (cases "\<exists>t b header. cbs = der_tag t @ b # header")
  case False
  then show ?thesis
    using get_ber_no_tag [of cbs] unfolding CBS_get_any_ber_asn1_element_def CBS_get_any_asn1_element_def
    by (auto simp: indef_header_def)
next
  case True
  then obtain t b header where cbs: "cbs = der_tag t @ b # header" by blast
  have b80: "unat b = 128 \<longleftrightarrow> b = 0x80" by (auto dest: u8_of_unat)
  show ?thesis
  proof (cases "unat b = 128 \<and> t AND CBS_ASN1_CONSTRUCTED \<noteq> 0")
    case True
    have bytes: "CBS_get_bytes cbs (length (der_tag t) + 1) = Some (indef_header t, header)"
      using True b80 unfolding CBS_get_bytes_Some by (simp add: cbs indef_header_def)
    have "CBS_get_any_asn1_element cbs = None"
      using True unfolding cbs CBS_get_any_asn1_element_def cbs_get_any_asn1_element_unfold by (simp add: Let_def)
    moreover have "CBS_get_any_ber_asn1_element cbs = Some (indef_header t, t, length (der_tag t) + 1, header)"
      using True bytes unfolding cbs CBS_get_any_ber_asn1_element_def cbs_get_any_asn1_element_unfold
      by (simp add: Let_def)
    ultimately show ?thesis
      using True b80 asn1_tag.enc_prefix_free [of t "b # header" tag "0x80 # rest"]
      by (auto simp: cbs indef_header_def)
  next
    case False
    have "CBS_get_any_ber_asn1_element cbs = CBS_get_any_asn1_element cbs"
      using False unfolding cbs CBS_get_any_ber_asn1_element_def CBS_get_any_asn1_element_def
        cbs_get_any_asn1_element_unfold by (auto simp: Let_def)
    moreover have "\<not> (tag AND CBS_ASN1_CONSTRUCTED \<noteq> 0 \<and> cbs = indef_header tag @ rest)"
      using False b80 asn1_tag.enc_prefix_free [of t "b # header" tag "0x80 # rest"]
      by (auto simp: cbs indef_header_def)
    ultimately show ?thesis by auto
  qed
qed

text \<open>A successful read leaves less input, and so does the body of the element.\<close>

lemma CBS_get_any_ber_asn1_element_shorter:
  assumes "CBS_get_any_ber_asn1_element inp = Some (contents, tag, hl, rest)"
  shows "length rest < length inp" and "CBS_skip contents hl = Some body \<Longrightarrow> length body < length inp"
  using assms
  by (auto simp: CBS_get_any_ber_asn1_element_iff CBS_get_any_asn1_element_iff indef_header_def
      CBS_skip_Some drop_der length_der der_header_len_def)

text \<open>
  The walk of \<open>cbs_find_ber\<close>: the recursion on the rest of the input is the loop. The result
  is the return value with \<open>*ber_found\<close>, which each call clears first; \<open>found\<close> is its value
  when the loop goes on.
\<close>

function cbs_find_ber_loop :: "cbs \<Rightarrow> bool \<Rightarrow> nat \<Rightarrow> bool \<times> bool" where
  "cbs_find_ber_loop inp found depth =
     (if CBS_len inp = 0 then (True, found)
      else case CBS_get_any_ber_asn1_element inp of
             None \<Rightarrow> (False, found)
           | Some (contents, tag, header_len, inp') \<Rightarrow>
               if is_indefinite header_len contents then (True, True)
               else if tag AND CBS_ASN1_CONSTRUCTED \<noteq> 0 then
                 if is_string_type tag then (True, True)
                 else (case CBS_skip contents header_len of
                         None \<Rightarrow> (False, found)
                       | Some body \<Rightarrow>
                           (case (if depth + 1 > kMaxDepth then (False, found)
                                  else cbs_find_ber_loop body False (depth + 1)) of
                              (ok, found') \<Rightarrow>
                                if \<not> ok then (False, found')
                                else cbs_find_ber_loop inp' found' depth))
               else cbs_find_ber_loop inp' found depth)"
  by pat_completeness auto
termination
  by (relation "measure (\<lambda>(inp, found, depth). length inp)")
    (auto simp: CBS_get_any_ber_asn1_element_shorter)

declare cbs_find_ber_loop.simps [simp del]

text \<open>The value of \<open>*ber_found\<close> before the call only shows when the depth limit is hit.\<close>

definition cbs_find_ber :: "cbs \<Rightarrow> bool \<Rightarrow> nat \<Rightarrow> bool \<times> bool" where
  "cbs_find_ber orig_in found depth =
     (if depth > kMaxDepth then (False, found) else cbs_find_ber_loop orig_in False depth)"

section \<open>Conversion\<close>

definition is_eoc :: "nat \<Rightarrow> cbs \<Rightarrow> bool" where
  "is_eoc header_len contents \<longleftrightarrow>
     header_len = 2 \<and> CBS_len contents = 2 \<and> take 2 (CBS_data contents) = [0, 0]"

text \<open>
  Where the body of an element goes: \<open>*out_contents\<close> as a position, and \<open>child_string_tag\<close>.
\<close>

definition open_element ::
    "allocator \<Rightarrow> nat \<Rightarrow> u32 \<Rightarrow> u32 \<Rightarrow> cbb_state \<Rightarrow> bool \<times> nat \<times> u32 \<times> cbb_state" where
  "open_element m out string_tag tag st =
     (if string_tag \<noteq> 0 then (tag AND NOT CBS_ASN1_CONSTRUCTED = string_tag, out, string_tag, st)
      else
        let str = (tag AND CBS_ASN1_CONSTRUCTED \<noteq> 0 \<and> is_string_type tag);
            out_tag = (if str then tag AND NOT CBS_ASN1_CONSTRUCTED else tag)
        in case CBB_add_asn1 m out out_tag st of
             (ok, st') \<Rightarrow> (ok, Suc out, if str then out_tag else string_tag, st'))"

function cbs_convert_ber ::
    "allocator \<Rightarrow> cbs \<Rightarrow> nat \<Rightarrow> u32 \<Rightarrow> bool \<Rightarrow> nat \<Rightarrow> cbb_state \<Rightarrow> bool \<times> cbs \<times> cbb_state" where
  "cbs_convert_ber m inp out string_tag looking_for_eoc depth st =
     (if depth > kMaxDepth then (False, inp, st)
      else if CBS_len inp = 0 then (\<not> looking_for_eoc, inp, st)
      else case CBS_get_any_ber_asn1_element inp of
             None \<Rightarrow> (False, inp, st)
           | Some (contents, tag, header_len, inp1) \<Rightarrow>
               if is_eoc header_len contents then (looking_for_eoc, inp1, st)
               else (case open_element m out string_tag tag st of
                   (ok1, out_contents, child_string_tag, st1) \<Rightarrow>
                     if \<not> ok1 then (False, inp1, st1)
                     else if is_indefinite header_len contents then
                       (case cbs_convert_ber m inp1 out_contents child_string_tag True (depth + 1) st1 of
                          (ok2, inp2, st2) \<Rightarrow>
                            (case (if ok2 then CBB_flush m out st2 else (False, st2)) of
                               (ok3, st3) \<Rightarrow>
                                 if \<not> ok3 then (False, inp2, st3)
                                 else cbs_convert_ber m inp2 out string_tag looking_for_eoc depth st3))
                     else (case CBS_skip contents header_len of
                         None \<Rightarrow> (False, inp1, st1)
                       | Some body \<Rightarrow>
                           (case (if tag AND CBS_ASN1_CONSTRUCTED \<noteq> 0
                                  then (case cbs_convert_ber m body out_contents child_string_tag False
                                               (depth + 1) st1 of
                                          (ok2, _, st2) \<Rightarrow> (ok2, st2))
                                  else CBB_add_bytes m out_contents (CBS_data body) (CBS_len body) st1) of
                              (ok2, st2) \<Rightarrow>
                                (case (if ok2 then CBB_flush m out st2 else (False, st2)) of
                                   (ok3, st3) \<Rightarrow>
                                     if \<not> ok3 then (False, inp1, st3)
                                     else cbs_convert_ber m inp1 out string_tag looking_for_eoc depth st3)))))"
  by pat_completeness auto

text \<open>The recursive calls are on less input, and no call gives back more than it got.\<close>

lemma cbs_convert_ber_shorter:
  "cbs_convert_ber_dom (m, inp, out, string_tag, looking_for_eoc, depth, st) \<Longrightarrow>
    cbs_convert_ber m inp out string_tag looking_for_eoc depth st = (ok, inp', st') \<Longrightarrow>
    length inp' \<le> length inp"
proof (induction m inp out string_tag looking_for_eoc depth st arbitrary: ok inp' st' rule: cbs_convert_ber.pinduct)
  case (1 m inp out string_tag looking_for_eoc depth st)
  show ?case
  proof (cases "CBS_get_any_ber_asn1_element inp")
    case None
    then show ?thesis
      using 1 by (auto simp: cbs_convert_ber.psimps split: if_splits)
  next
    case (Some p)
    obtain contents tag hl inp1 where p: "p = (contents, tag, hl, inp1)" by (cases p)
    note shorter = CBS_get_any_ber_asn1_element_shorter [OF Some [unfolded p]]
    show ?thesis
    proof (cases "depth > kMaxDepth \<or> CBS_len inp = 0 \<or> is_eoc hl contents")
      case True
      then show ?thesis
        using "1.prems" shorter(1) Some p by (auto simp: cbs_convert_ber.psimps [OF "1.hyps"] split: if_splits)
    next
      case False
      obtain ok1 oc ct st1 where op: "open_element m out string_tag tag st = (ok1, oc, ct, st1)"
        by (metis prod_cases4)
      note go = False op [symmetric] Some [unfolded p]
      show ?thesis
      proof (cases "\<not> ok1 \<or> (\<not> is_indefinite hl contents \<and> CBS_skip contents hl = None)")
        case True
        then show ?thesis
          using "1.prems" shorter(1) go(1,3) op
          by (cases ok1) (auto simp: cbs_convert_ber.psimps [OF "1.hyps"])
      next
        case ok1: False
        show ?thesis
        proof (cases "is_indefinite hl contents")
          case True
          obtain ok2 inp2 st2 where r2: "cbs_convert_ber m inp1 oc ct True (depth + 1) st1 = (ok2, inp2, st2)"
            by (metis prod_cases3)
          obtain ok3 st3 where r3: "(if ok2 then CBB_flush m out st2 else (False, st2)) = (ok3, st3)"
            by (metis surj_pair)
          have le2: "length inp2 \<le> length inp1"
            using "1.IH"(1) [OF _ _ go(3) refl refl refl _ go(2) refl refl _ True r2] go(1) ok1 by simp
          have "ok3 \<Longrightarrow> length inp' \<le> length inp2"
            using "1.IH"(2) [OF _ _ go(3) refl refl refl _ go(2) refl refl _ True r2 [symmetric] refl r3 [symmetric]]
              "1.prems" go ok1 True op r2 r3
            by (auto simp: cbs_convert_ber.psimps [OF "1.hyps"])
          moreover have "\<not> ok3 \<Longrightarrow> inp' = inp2"
            using "1.prems" go ok1 True op r2 r3 by (auto simp: cbs_convert_ber.psimps [OF "1.hyps"])
          ultimately show ?thesis using le2 shorter(1) by fastforce
        next
          case def: False
          then obtain body where body: "CBS_skip contents hl = Some body" using ok1 by auto
          obtain ok2 st2 where r2: "(if tag AND CBS_ASN1_CONSTRUCTED \<noteq> 0
              then (case cbs_convert_ber m body oc ct False (depth + 1) st1 of (ok2, _, st2) \<Rightarrow> (ok2, st2))
              else CBB_add_bytes m oc (CBS_data body) (CBS_len body) st1) = (ok2, st2)"
            by (metis surj_pair)
          obtain ok3 st3 where r3: "(if ok2 then CBB_flush m out st2 else (False, st2)) = (ok3, st3)"
            by (metis surj_pair)
          have eq: "cbs_convert_ber m inp out string_tag looking_for_eoc depth st =
              (if \<not> ok3 then (False, inp1, st3) else cbs_convert_ber m inp1 out string_tag looking_for_eoc depth st3)"
            using go(1,3) op ok1 def body r2 r3 by (simp add: cbs_convert_ber.psimps [OF "1.hyps"])
          have "ok3 \<Longrightarrow> length inp' \<le> length inp1"
            using "1.IH"(4) [OF _ _ go(3) refl refl refl _ go(2) refl refl _ def body r2 [symmetric] r3 [symmetric]]
              "1.prems" go(1) ok1 unfolding eq by auto
          moreover have "\<not> ok3 \<Longrightarrow> inp' = inp1" using "1.prems" unfolding eq by auto
          ultimately show ?thesis using shorter(1) by fastforce
        qed
      qed
    qed
  qed
qed

lemma cbs_convert_ber_rest:
  assumes "(ok, ai, st') = cbs_convert_ber m inp out string_tag looking_for_eoc depth st"
    "cbs_convert_ber_dom (m, inp, out, string_tag, looking_for_eoc, depth, st)" "length inp < n"
  shows "length ai < n"
  using cbs_convert_ber_shorter [OF assms(2) assms(1) [symmetric]] assms(3) by simp

termination cbs_convert_ber
proof (relation "measure (\<lambda>(m, inp, out, string_tag, looking_for_eoc, depth, st). length inp)", goal_cases)
  case 1
  show ?case by simp
next
  case 2
  then show ?case by (auto dest: CBS_get_any_ber_asn1_element_shorter(1))
next
  case (3 m inp out string_tag eoc depth st x2 x y xa ya xb yb xc yc xd yd xe ye xf yf xg yg xh yh)
  have "length yb < length inp" using 3(3-6) by (auto dest: CBS_get_any_ber_asn1_element_shorter(1))
  moreover have "(xf, xg, yg) = cbs_convert_ber m yb xd xe True (depth + 1) ye" using 3(13,14) by simp
  ultimately show ?case using 3(17) by (auto dest: cbs_convert_ber_rest)
next
  case 4
  then show ?case by (auto dest: CBS_get_any_ber_asn1_element_shorter(2))
next
  case 5
  then show ?case by (auto dest: CBS_get_any_ber_asn1_element_shorter(1))
qed

declare cbs_convert_ber.simps [simp del]

section \<open>The entry points\<close>

text \<open>
  \<open>CBS_asn1_ber_to_der\<close> gives \<open>out\<close>, \<open>*out_storage\<close> (\<open>None\<close> for NULL) and the input left.
\<close>

definition CBS_asn1_ber_to_der :: "allocator \<Rightarrow> cbs \<Rightarrow> (cbs \<times> u8 list option \<times> cbs) option" where
  "CBS_asn1_ber_to_der m inp =
     (case cbs_find_ber inp False 0 of
        (ok, conversion_needed) \<Rightarrow>
          if \<not> ok then None
          else if \<not> conversion_needed then
            (case CBS_get_any_asn1_element inp of
               None \<Rightarrow> None
             | Some (out, _, _, inp') \<Rightarrow> Some (out, None, inp'))
          else
            (case CBB_init m (CBS_len inp) of
               (ok1, cbb) \<Rightarrow>
                 if \<not> ok1 then None
                 else (case cbs_convert_ber m inp 0 0 False 0 cbb of
                     (ok2, inp', cbb1) \<Rightarrow>
                       if \<not> ok2 then None
                       else (case CBB_finish m 0 True True cbb1 of
                           (Some (Some storage, Some len), _) \<Rightarrow>
                             Some (CBS_init storage len, Some storage, inp')
                         | _ \<Rightarrow> None))))"

function implicit_string_loop :: "allocator \<Rightarrow> u32 \<Rightarrow> cbs \<Rightarrow> cbb_op" where
  "implicit_string_loop m inner_tag child st =
     (if CBS_len child = 0 then (True, st)
      else case CBS_get_asn1 child inner_tag of
             None \<Rightarrow> (False, st)
           | Some (chunk, child') \<Rightarrow>
               and_then (CBB_add_bytes m 0 (CBS_data chunk) (CBS_len chunk))
                 (implicit_string_loop m inner_tag child') st)"
  by pat_completeness auto
termination
  by (relation "measure (\<lambda>(m, inner_tag, child, st). length child)")
    (auto simp: CBS_get_asn1_iff der_def)

declare implicit_string_loop.simps [simp del]

definition CBS_get_asn1_implicit_string ::
    "allocator \<Rightarrow> cbs \<Rightarrow> u32 \<Rightarrow> u32 \<Rightarrow> (cbs \<times> u8 list option \<times> cbs) option" where
  "CBS_get_asn1_implicit_string m inp outer_tag inner_tag =
     (if CBS_peek_asn1_tag inp outer_tag then
        (case CBS_get_asn1 inp outer_tag of
           None \<Rightarrow> None
         | Some (out, inp') \<Rightarrow> Some (out, None, inp'))
      else
        (case CBB_init m (CBS_len inp) of
           (ok, result) \<Rightarrow>
             if \<not> ok then None
             else (case CBS_get_asn1 inp (outer_tag OR CBS_ASN1_CONSTRUCTED) of
                 None \<Rightarrow> None
               | Some (child, inp') \<Rightarrow>
                   (case implicit_string_loop m inner_tag child result of
                      (ok2, result2) \<Rightarrow>
                        if \<not> ok2 then None
                        else (case CBB_finish m 0 True True result2 of
                            (Some (Some data, Some len), _) \<Rightarrow>
                              Some (CBS_init data len, Some data, inp')
                          | _ \<Rightarrow> None)))))"

text \<open>
  \<open>CBB_finish_i2d\<close>: \<open>outp\<close> is \<open>None\<close> for NULL, \<open>Some None\<close> when \<open>*outp\<close> is NULL and
  \<open>Some (Some mem)\<close> when it points to memory of the caller. The result is the returned
  \<open>int\<close> with the memory \<open>*outp\<close> had or has and the number of bytes it was advanced.
\<close>

definition CBB_finish_i2d ::
    "allocator \<Rightarrow> nat \<Rightarrow> u8 list option option \<Rightarrow> cbb_state \<Rightarrow> (int \<times> (u8 list option \<times> nat) option) \<times> cbb_state" where
  "CBB_finish_i2d m i outp st =
     (case CBB_finish m i True True st of
        (Some (Some der_buf, Some n), st1) \<Rightarrow>
          if n > INT_MAX then ((-1, map_option (\<lambda>p. (p, 0)) outp), st1)
          else ((int n,
                 case outp of
                   None \<Rightarrow> None
                 | Some None \<Rightarrow> Some (Some der_buf, 0)
                 | Some (Some mem) \<Rightarrow> Some (Some (memcpy mem der_buf n), n)), st1)
      | (_, st1) \<Rightarrow> ((-1, map_option (\<lambda>p. (p, 0)) outp), CBB_cleanup i st1))"

end
