(* ===== verification/Ber_Trees.thy ===== *)
theory Ber_Trees
  imports Ber
begin

text \<open>
  BER as trees of elements, and what the conversion makes of them: definite and indefinite
  lengths, strings in fragments at any depth. The converter follows the tree, and its output
  is the DER encoding of the same values. The scan for BER is characterised exactly.
\<close>

section \<open>Trees\<close>

datatype tlv = Prim u32 "u8 list" | Cons u32 "tlv list" | Indef u32 "tlv list"

fun ber :: "tlv \<Rightarrow> u8 list" where
  "ber (Prim t c) = der t c"
| "ber (Cons t ts) = der t (concat (map ber ts))"
| "ber (Indef t ts) = indef_header t @ concat (map ber ts) @ [0, 0]"

definition bers :: "tlv list \<Rightarrow> u8 list" where
  "bers ts = concat (map ber ts)"

fun height :: "tlv \<Rightarrow> nat" where
  "height (Prim t c) = 0"
| "height (Cons t ts) = Suc (fold max (map height ts) 0)"
| "height (Indef t ts) = Suc (fold max (map height ts) 0)"

definition constructed :: "u32 \<Rightarrow> bool" where
  "constructed t \<longleftrightarrow> t AND CBS_ASN1_CONSTRUCTED \<noteq> 0"

definition primitive_of :: "u32 \<Rightarrow> u32" where
  "primitive_of t = t AND NOT CBS_ASN1_CONSTRUCTED"

text \<open>
  The trees that are BER: primitive and constructed as the tag says, lengths in four octets,
  and no end-of-contents element inside.
\<close>

fun wf_tlv :: "tlv \<Rightarrow> bool" where
  "wf_tlv (Prim t c) \<longleftrightarrow> \<not> constructed t \<and> length c < 2 ^ 32 \<and> \<not> (t = 0 \<and> c = [])"
| "wf_tlv (Cons t ts) \<longleftrightarrow> constructed t \<and> length (concat (map ber ts)) < 2 ^ 32 \<and> list_all wf_tlv ts"
| "wf_tlv (Indef t ts) \<longleftrightarrow> constructed t \<and> list_all wf_tlv ts"

section \<open>The DER of a tree\<close>

definition dering :: "u32 \<Rightarrow> u8 list \<Rightarrow> u8 list option" where
  "dering t c = (if length c \<le> 0xfffffffe then Some (der t c) else None)"

fun ocats :: "u8 list option list \<Rightarrow> u8 list option" where
  "ocats [] = Some []"
| "ocats (x # xs) = ocat x (ocats xs)"

text \<open>
  \<open>conv s t\<close>: with \<open>s = 0\<close> the DER encoding, a constructed string becoming a primitive one;
  otherwise the bytes a fragment of a string with tag \<open>s\<close> contributes.
\<close>

fun conv :: "u32 \<Rightarrow> tlv \<Rightarrow> u8 list option" where
  "conv s (Prim t c) =
     (if s = 0 then dering t c else if primitive_of t = s then Some c else None)"
| "conv s (Cons t ts) =
     (if s \<noteq> 0 then (if primitive_of t = s then ocats (map (conv s) ts) else None)
      else let p = (if is_string_type t then primitive_of t else 0) in
        (case ocats (map (conv p) ts) of
           None \<Rightarrow> None
         | Some c \<Rightarrow> dering (if is_string_type t then p else t) c))"
| "conv s (Indef t ts) =
     (if s \<noteq> 0 then (if primitive_of t = s then ocats (map (conv s) ts) else None)
      else let p = (if is_string_type t then primitive_of t else 0) in
        (case ocats (map (conv p) ts) of
           None \<Rightarrow> None
         | Some c \<Rightarrow> dering (if is_string_type t then p else t) c))"

section \<open>The calls made for a tree\<close>

definition element_op ::
    "allocator \<Rightarrow> nat \<Rightarrow> u32 \<Rightarrow> u32 \<Rightarrow> (nat \<Rightarrow> u32 \<Rightarrow> cbb_op) \<Rightarrow> cbb_op" where
  "element_op m i s t body st =
     (case open_element m i s t st of
        (ok1, j, ct, st1) \<Rightarrow>
          if \<not> ok1 then (False, st1) else and_then (body j ct) (CBB_flush m i) st1)"

fun all_ops :: "cbb_op list \<Rightarrow> cbb_op" where
  "all_ops [] = Pair True"
| "all_ops (f # fs) = and_then f (all_ops fs)"

fun tree_op :: "allocator \<Rightarrow> tlv \<Rightarrow> nat \<Rightarrow> u32 \<Rightarrow> cbb_op" where
  "tree_op m (Prim t c) i s = element_op m i s t (\<lambda>j ct. CBB_add_bytes m j c (length c))"
| "tree_op m (Cons t ts) i s =
     element_op m i s t (\<lambda>j ct. all_ops (map (\<lambda>u. tree_op m u j ct) ts))"
| "tree_op m (Indef t ts) i s =
     element_op m i s t (\<lambda>j ct. all_ops (map (\<lambda>u. tree_op m u j ct) ts))"

section \<open>The converter follows the tree\<close>

lemma read_definite:
  assumes "length c < 2 ^ 32"
  shows "CBS_get_any_ber_asn1_element (der t c @ r) = Some (der t c, t, der_header_len t (length c), r)"
  using assms by (auto simp: CBS_get_any_ber_asn1_element_iff CBS_get_any_asn1_element_iff)

lemma read_indefinite:
  assumes "constructed t"
  shows "CBS_get_any_ber_asn1_element (indef_header t @ r) = Some (indef_header t, t, length (indef_header t), r)"
  using assms by (simp add: CBS_get_any_ber_asn1_element_iff constructed_def)

lemma definite_not_indefinite:
  "\<not> is_indefinite (der_header_len t (length c)) (der t c)"
proof
  assume a: "is_indefinite (der_header_len t (length c)) (der t c)"
  then have "c = []" by (simp add: is_indefinite_def CBS_len_def length_der)
  with a show False
    by (simp add: is_indefinite_def CBS_data_def der_def der_len_def der_header_len_def nth_append)
qed

lemma eoc_definite:
  assumes "length c < 2 ^ 32"
  shows "is_eoc (der_header_len t (length c)) (der t c) \<longleftrightarrow> t = 0 \<and> c = []"
proof -
  have zero: "der 0 [] = [0, 0]" by (simp add: der_def der_tag_def der_len_def)
  have "is_eoc (der_header_len t (length c)) (der t c) \<longleftrightarrow> der t c = [0, 0] \<and> der_header_len t (length c) = 2"
    by (auto simp: is_eoc_def CBS_len_def CBS_data_def length_Suc_conv numeral_2_eq_2)
  also have "\<dots> \<longleftrightarrow> t = 0 \<and> c = []"
    using der_inject [of c "[]" t "[]" 0 "[]"] assms by (auto simp: zero der_header_len_def der_tag_def der_len_def)
  finally show ?thesis .
qed

lemma indefinite_is_indefinite: "is_indefinite (length (indef_header t)) (indef_header t)"
  by (simp add: is_indefinite_def CBS_len_def CBS_data_def indef_header_def)

lemma indefinite_not_eoc: "\<not> is_eoc (length (indef_header t)) (indef_header t)"
proof
  assume a: "is_eoc (length (indef_header t)) (indef_header t)"
  then have "take (length (indef_header t)) (indef_header t) = [0, 0]"
    unfolding is_eoc_def CBS_data_def by metis
  then have "last (indef_header t) = 0" by simp
  then show False by (simp add: indef_header_def)
qed

lemma skip_definite: "CBS_skip (der t c) (der_header_len t (length c)) = Some c"
  by (simp add: CBS_skip_Some length_der drop_der)

text \<open>One step of the converter on the elements of a tree.\<close>

definition follows :: "allocator \<Rightarrow> tlv \<Rightarrow> bool" where
  "follows m t \<longleftrightarrow> (\<forall>r i s eoc d st. d + height t \<le> kMaxDepth \<longrightarrow>
     (\<exists>junk. cbs_convert_ber m (ber t @ r) i s eoc d st =
        (case tree_op m t i s st of
           (ok, st1) \<Rightarrow> if ok then cbs_convert_ber m r i s eoc d st1 else (False, junk, st1))))"

lemma followsD:
  assumes "follows m t" "d + height t \<le> kMaxDepth"
  obtains junk where "cbs_convert_ber m (ber t @ r) i s eoc d st =
    (case tree_op m t i s st of
       (ok, st1) \<Rightarrow> if ok then cbs_convert_ber m r i s eoc d st1 else (False, junk, st1))"
  using assms unfolding follows_def by blast

lemma follows_list:
  assumes "\<forall>t \<in> set ts. follows m t" "\<forall>t \<in> set ts. d + height t \<le> kMaxDepth"
  shows "\<exists>junk. cbs_convert_ber m (bers ts @ r) i s eoc d st =
    (case all_ops (map (\<lambda>u. tree_op m u i s) ts) st of
       (ok, st1) \<Rightarrow> if ok then cbs_convert_ber m r i s eoc d st1 else (False, junk, st1))"
  using assms
proof (induction ts arbitrary: st)
  case Nil
  then show ?case by (simp add: bers_def)
next
  case (Cons t ts)
  obtain junk where one: "cbs_convert_ber m (ber t @ bers ts @ r) i s eoc d st =
        (case tree_op m t i s st of
           (ok, st1) \<Rightarrow> if ok then cbs_convert_ber m (bers ts @ r) i s eoc d st1 else (False, junk, st1))"
    by (rule followsD [of m t d "bers ts @ r" i s eoc st]) (use Cons.prems in auto)
  obtain ok1 st1 where t: "tree_op m t i s st = (ok1, st1)" by (cases "tree_op m t i s st")
  obtain junk2 where rest: "cbs_convert_ber m (bers ts @ r) i s eoc d st1 =
    (case all_ops (map (\<lambda>u. tree_op m u i s) ts) st1 of
       (ok, st2) \<Rightarrow> if ok then cbs_convert_ber m r i s eoc d st2 else (False, junk2, st2))"
    using Cons.IH [of st1] Cons.prems by auto
  show ?case
    using one rest by (cases ok1) (auto simp: bers_def t and_then_def)
qed

lemma height_max: "t \<in> set ts \<Longrightarrow> height t \<le> fold max (map height ts) 0"
proof -
  have "x \<in> set xs \<Longrightarrow> x \<le> fold max xs n" "n \<le> fold max xs n" for x n :: nat and xs
    by (induction xs arbitrary: n) (auto intro: order_trans [OF max.cobounded2] order_trans [OF max.cobounded1])
  then show "t \<in> set ts \<Longrightarrow> ?thesis" by simp
qed

lemma convert_end: "d \<le> kMaxDepth \<Longrightarrow> cbs_convert_ber m [] i s eoc d st = (\<not> eoc, [], st)"
  by (simp add: cbs_convert_ber.simps CBS_len_def)

lemma convert_eoc: "d \<le> kMaxDepth \<Longrightarrow> cbs_convert_ber m (0 # 0 # r) i s eoc d st = (eoc, r, st)"
proof -
  assume d: "d \<le> kMaxDepth"
  have zero: "der 0 [] = [0, 0]" by (simp add: der_def der_tag_def der_len_def)
  have "CBS_get_any_ber_asn1_element (0 # 0 # r) = Some ([0, 0], 0, der_header_len 0 (length ([]::u8 list)), r)"
    using read_definite [of "[]" 0 r] by (simp add: zero)
  moreover have "is_eoc (der_header_len 0 (length ([]::u8 list))) [0, 0]"
    using eoc_definite [of "[]" 0] by (simp add: zero)
  ultimately show ?thesis using d by (subst cbs_convert_ber.simps) (simp add: CBS_len_def)
qed

lemma follows_tree: "wf_tlv t \<Longrightarrow> follows m t"
proof (induction t)
  case (Prim t c)
  show ?case unfolding follows_def
  proof (intro allI impI)
    fix r i s eoc d st assume d: "d + height (Prim t c) \<le> kMaxDepth"
    obtain ok1 j ct st1 where op: "open_element m i s t st = (ok1, j, ct, st1)" by (metis prod_cases4)
    have c: "length c < 2 ^ 32" "\<not> (t = 0 \<and> c = [])" "\<not> constructed t" using Prim by simp_all
    have "\<exists>junk. cbs_convert_ber m (der t c @ r) i s eoc d st =
        (case tree_op m (Prim t c) i s st of
           (ok, st1) \<Rightarrow> if ok then cbs_convert_ber m r i s eoc d st1 else (False, junk, st1))"
      using d c op eoc_definite [OF c(1), of t] definite_not_indefinite [of t c] read_definite [OF c(1), of t r]
        skip_definite [of t c]
      by (subst cbs_convert_ber.simps)
        (auto simp: CBS_len_def CBS_data_def element_op_def and_then_def constructed_def split: prod.splits)
    then show "\<exists>junk. cbs_convert_ber m (ber (Prim t c) @ r) i s eoc d st =
        (case tree_op m (Prim t c) i s st of
           (ok, st1) \<Rightarrow> if ok then cbs_convert_ber m r i s eoc d st1 else (False, junk, st1))" by simp
  qed
next
  case (Cons t ts)
  have fol: "\<forall>u \<in> set ts. follows m u" using Cons by (auto simp: list_all_iff)
  show ?case unfolding follows_def
  proof (intro allI impI)
    fix r i s eoc d st assume d: "d + height (Cons t ts) \<le> kMaxDepth"
    obtain ok1 j ct st1 where op: "open_element m i s t st = (ok1, j, ct, st1)" by (metis prod_cases4)
    have c: "length (bers ts) < 2 ^ 32" "constructed t" using Cons.prems by (simp_all add: bers_def)
    then have nz: "\<not> (t = 0 \<and> bers ts = [])" by (auto simp: constructed_def)
    have hs: "\<forall>u \<in> set ts. d + 1 + height u \<le> kMaxDepth" using d height_max [of _ ts] by fastforce
    obtain ok2 st2 where ops: "all_ops (map (\<lambda>u. tree_op m u j ct) ts) st1 = (ok2, st2)" by (metis surj_pair)
    obtain junk where sub: "cbs_convert_ber m (bers ts) j ct False (d + 1) st1 =
        (if ok2 then (True, [], st2) else (False, junk, st2))"
      using follows_list [OF fol hs, of "[]" j ct False st1] d
      by (cases ok2) (auto simp: ops convert_end)
    have "\<exists>junk. cbs_convert_ber m (der t (bers ts) @ r) i s eoc d st =
        (case tree_op m (Cons t ts) i s st of
           (ok, st1) \<Rightarrow> if ok then cbs_convert_ber m r i s eoc d st1 else (False, junk, st1))"
      using d c nz op eoc_definite [OF c(1), of t] definite_not_indefinite [of t "bers ts"]
        read_definite [OF c(1), of t r] skip_definite [of t "bers ts"] sub ops
      by (subst cbs_convert_ber.simps)
        (auto simp: CBS_len_def CBS_data_def element_op_def and_then_def constructed_def split: prod.splits)
    then show "\<exists>junk. cbs_convert_ber m (ber (Cons t ts) @ r) i s eoc d st =
        (case tree_op m (Cons t ts) i s st of
           (ok, st1) \<Rightarrow> if ok then cbs_convert_ber m r i s eoc d st1 else (False, junk, st1))"
      by (simp add: bers_def)
  qed
next
  case (Indef t ts)
  have fol: "\<forall>u \<in> set ts. follows m u" using Indef by (auto simp: list_all_iff)
  show ?case unfolding follows_def
  proof (intro allI impI)
    fix r i s eoc d st assume d: "d + height (Indef t ts) \<le> kMaxDepth"
    obtain ok1 j ct st1 where op: "open_element m i s t st = (ok1, j, ct, st1)" by (metis prod_cases4)
    have c: "constructed t" using Indef.prems by simp
    have hs: "\<forall>u \<in> set ts. d + 1 + height u \<le> kMaxDepth" using d height_max [of _ ts] by fastforce
    obtain ok2 st2 where ops: "all_ops (map (\<lambda>u. tree_op m u j ct) ts) st1 = (ok2, st2)" by (metis surj_pair)
    obtain junk where sub: "cbs_convert_ber m (bers ts @ 0 # 0 # r) j ct True (d + 1) st1 =
        (if ok2 then (True, r, st2) else (False, junk, st2))"
      using follows_list [OF fol hs, of "0 # 0 # r" j ct True st1] d
      by (cases ok2) (auto simp: ops convert_eoc)
    have "\<exists>junk. cbs_convert_ber m (indef_header t @ bers ts @ 0 # 0 # r) i s eoc d st =
        (case tree_op m (Indef t ts) i s st of
           (ok, st1) \<Rightarrow> if ok then cbs_convert_ber m r i s eoc d st1 else (False, junk, st1))"
      using d op indefinite_not_eoc [of t] indefinite_is_indefinite [of t]
        read_indefinite [OF c, of "bers ts @ 0 # 0 # r"] sub ops
      by (subst cbs_convert_ber.simps)
        (auto simp: CBS_len_def CBS_data_def element_op_def and_then_def indef_header_def split: prod.splits)
    then show "\<exists>junk. cbs_convert_ber m (ber (Indef t ts) @ r) i s eoc d st =
        (case tree_op m (Indef t ts) i s st of
           (ok, st1) \<Rightarrow> if ok then cbs_convert_ber m r i s eoc d st1 else (False, junk, st1))"
      by (simp add: bers_def)
  qed
qed

section \<open>What the calls write\<close>

lemma element_op_fragment:
  assumes "malloc_ok m" "s \<noteq> 0" "primitive_of t = s" "appends_flat m (body i s) i (Some c)"
  shows "appends_flat m (element_op m i s t body) i (Some c)"
proof -
  have "element_op m i s t body = and_then (body i s) (CBB_flush m i)"
    using assms(2,3) by (auto simp: element_op_def open_element_def primitive_of_def)
  then show ?thesis
    using appends_flat_then [OF assms(4) appends_flatI [OF appends_CBB_flush [OF assms(1)]]] by simp
qed

lemma element_op_whole:
  fixes t :: u32
  assumes "malloc_ok m" "length c \<le> 0xfffffffe"
  defines "str \<equiv> constructed t \<and> is_string_type t"
  assumes "appends_flat m (body (Suc i) (if str then primitive_of t else 0)) (Suc i) (Some c)"
  shows "appends_flat m (element_op m i 0 t body) i (Some (der (if str then primitive_of t else t) c))"
proof -
  let ?tag = "if str then primitive_of t else t"
  let ?body = "body (Suc i) (if str then primitive_of t else 0)"
  have "element_op m i 0 t body = and_then (CBB_add_asn1 m i ?tag) (and_then ?body (CBB_flush m i))"
    by (rule ext) (auto simp: element_op_def open_element_def Let_def str_def constructed_def
        primitive_of_def and_then_def split: prod.splits)
  then show ?thesis
    using appends_flatI [OF appends_asn1_element [OF assms(1,4)]] assms(2) by simp
qed

lemma all_ops_append:
  "ocats (map (conv s) ts) = Some c \<Longrightarrow>
    (\<And>u bs. u \<in> set ts \<Longrightarrow> conv s u = Some bs \<Longrightarrow> appends_flat m (tree_op m u i s) i (Some bs)) \<Longrightarrow>
    appends_flat m (all_ops (map (\<lambda>u. tree_op m u i s) ts)) i (Some c)"
proof (induction ts arbitrary: c)
  case Nil
  then show ?case by (simp add: appends_flat_nop)
next
  case (Cons t ts)
  obtain x y where "conv s t = Some x" "ocats (map (conv s) ts) = Some y" "c = x @ y"
    using Cons.prems(1) by (cases "conv s t"; cases "ocats (map (conv s) ts)") auto
  then show ?case
    using Cons appends_flat_then [of m "tree_op m t i s" i "Some x" "all_ops (map (\<lambda>u. tree_op m u i s) ts)" "Some y"]
    by simp
qed

lemma string_tag_nonzero: "is_string_type t \<Longrightarrow> primitive_of t \<noteq> 0"
  by (auto simp: is_string_type_def primitive_of_def CBS_ASN1_BITSTRING_def CBS_ASN1_OCTETSTRING_def
      CBS_ASN1_UTF8STRING_def CBS_ASN1_NUMERICSTRING_def CBS_ASN1_PRINTABLESTRING_def
      CBS_ASN1_T61STRING_def CBS_ASN1_VIDEOTEXSTRING_def CBS_ASN1_IA5STRING_def
      CBS_ASN1_GRAPHICSTRING_def CBS_ASN1_VISIBLESTRING_def CBS_ASN1_GENERALSTRING_def
      CBS_ASN1_UNIVERSALSTRING_def CBS_ASN1_BMPSTRING_def)

lemma tree_op_appends:
  assumes "malloc_ok m"
  shows "wf_tlv t \<Longrightarrow> conv s t = Some bs \<Longrightarrow> appends_flat m (tree_op m t i s) i (Some bs)"
proof (induction t arbitrary: i s bs)
  case (Prim t c)
  have "appends_flat m (CBB_add_bytes m j c (length c)) j (Some c)" for j
    using appends_flatI [OF appends_CBB_add_bytes [OF assms, of "length c" c j]] Prim.prems(1) by simp
  then show ?case
    using Prim.prems element_op_fragment [OF assms, of s t "\<lambda>j ct. CBB_add_bytes m j c (length c)" i c]
      element_op_whole [where t = t, OF assms, of c "\<lambda>j ct. CBB_add_bytes m j c (length c)" i]
    by (auto simp: dering_def split: if_splits)
next
  case (Cons t ts)
  have sub: "ocats (map (conv s') ts) = Some c \<Longrightarrow>
      appends_flat m (all_ops (map (\<lambda>u. tree_op m u j s') ts)) j (Some c)" for s' j c
    using all_ops_append Cons by (auto simp: list_all_iff)
  show ?case
    using Cons.prems sub element_op_fragment [OF assms, of s t "\<lambda>j ct. all_ops (map (\<lambda>u. tree_op m u j ct) ts)" i bs]
      element_op_whole [where t = t, OF assms, where body = "\<lambda>j ct. all_ops (map (\<lambda>u. tree_op m u j ct) ts)" and i = i]
    by (auto simp: dering_def Let_def split: if_splits option.splits)
next
  case (Indef t ts)
  have sub: "ocats (map (conv s') ts) = Some c \<Longrightarrow>
      appends_flat m (all_ops (map (\<lambda>u. tree_op m u j s') ts)) j (Some c)" for s' j c
    using all_ops_append Indef by (auto simp: list_all_iff)
  show ?case
    using Indef.prems sub element_op_fragment [OF assms, of s t "\<lambda>j ct. all_ops (map (\<lambda>u. tree_op m u j ct) ts)" i bs]
      element_op_whole [where t = t, OF assms, where body = "\<lambda>j ct. all_ops (map (\<lambda>u. tree_op m u j ct) ts)" and i = i]
    by (auto simp: dering_def Let_def split: if_splits option.splits)
qed

section \<open>The scan\<close>

text \<open>What \<open>cbs_find_ber\<close> answers: every constructed element that is entered starts afresh.\<close>

fun scan :: "bool \<Rightarrow> tlv list \<Rightarrow> bool" where
  "scan found [] = found"
| "scan found (Prim t c # ts) = scan found ts"
| "scan found (Cons t cs # ts) = (if is_string_type t then True else scan (scan False cs) ts)"
| "scan found (Indef t cs # ts) = True"

fun is_der :: "tlv \<Rightarrow> bool" where
  "is_der (Prim t c) = True"
| "is_der (Cons t ts) = (\<not> is_string_type t \<and> list_all is_der ts)"
| "is_der (Indef t ts) = False"

lemma find_ber_scan:
  "list_all wf_tlv ts \<Longrightarrow> \<forall>t \<in> set ts. d + height t \<le> kMaxDepth \<Longrightarrow>
    cbs_find_ber_loop (bers ts) f d = (True, scan f ts)"
proof (induction f ts arbitrary: d rule: scan.induct)
  case (1 f)
  then show ?case by (simp add: cbs_find_ber_loop.simps bers_def CBS_len_def)
next
  case (2 f t c ts)
  have c: "length c < 2 ^ 32" "\<not> constructed t" using "2.prems" by simp_all
  have "cbs_find_ber_loop (der t c @ bers ts) f d = cbs_find_ber_loop (bers ts) f d"
    using c(2) read_definite [OF c(1), of t "bers ts"] definite_not_indefinite [of t c]
    by (subst cbs_find_ber_loop.simps) (simp add: CBS_len_def constructed_def)
  then show ?case using 2 by (simp add: bers_def)
next
  case (3 f t cs ts)
  have c: "length (bers cs) < 2 ^ 32" "constructed t" "list_all wf_tlv cs" using "3.prems" by (simp_all add: bers_def)
  have hs: "\<forall>u \<in> set cs. Suc d + height u \<le> kMaxDepth" and d: "Suc d \<le> kMaxDepth"
    using "3.prems"(2) height_max [of _ cs] by fastforce+
  have sub: "\<not> is_string_type t \<Longrightarrow> cbs_find_ber_loop (bers cs) False (Suc d) = (True, scan False cs)"
    using "3.IH"(1) [of "Suc d"] c(3) hs by simp
  have "cbs_find_ber_loop (der t (bers cs) @ bers ts) f d =
      (if is_string_type t then (True, True) else cbs_find_ber_loop (bers ts) (scan False cs) d)"
    using c(2) d read_definite [OF c(1), of t "bers ts"] definite_not_indefinite [of t "bers cs"]
      skip_definite [of t "bers cs"] sub
    by (subst cbs_find_ber_loop.simps) (simp add: CBS_len_def constructed_def)
  then show ?case using 3 by (simp add: bers_def)
next
  case (4 f t cs ts)
  have c: "constructed t" using "4.prems" by simp
  have "cbs_find_ber_loop (indef_header t @ bers cs @ 0 # 0 # bers ts) f d = (True, True)"
    using read_indefinite [OF c, of "bers cs @ 0 # 0 # bers ts"] indefinite_is_indefinite [of t]
    by (subst cbs_find_ber_loop.simps) (simp add: CBS_len_def indef_header_def)
  then show ?case by (simp add: bers_def)
qed

lemma cbs_find_ber_scan:
  "list_all wf_tlv ts \<Longrightarrow> \<forall>t \<in> set ts. height t \<le> kMaxDepth \<Longrightarrow>
    cbs_find_ber (bers ts) f 0 = (True, scan False ts)"
  using find_ber_scan [of ts 0 False] by (simp add: cbs_find_ber_def)

lemma scan_der: "list_all is_der ts \<Longrightarrow> scan f ts \<Longrightarrow> f"
proof (induction f ts rule: scan.induct)
  case (3 f t cs ts)
  then show ?case by (auto simp: list_all_iff)
qed auto

text \<open>
  Which BER is seen, told by the tree alone: an element of indefinite length or a string in fragments among the elements
  of a level, or seen inside the last constructed element of the level. BER inside an earlier one is overlooked.
\<close>

fun needs_conversion :: "tlv \<Rightarrow> bool" where
  "needs_conversion (Prim t c) = False"
| "needs_conversion (Cons t ts) = is_string_type t"
| "needs_conversion (Indef t ts) = True"

fun primitive :: "tlv \<Rightarrow> bool" where
  "primitive (Prim t c) = True"
| "primitive (Cons t ts) = False"
| "primitive (Indef t ts) = False"

inductive ber_seen :: "tlv list \<Rightarrow> bool" where
  here: "u \<in> set ts \<Longrightarrow> needs_conversion u \<Longrightarrow> ber_seen ts"
| last: "ber_seen cs \<Longrightarrow> list_all primitive vs \<Longrightarrow> ber_seen (us @ Cons t cs # vs)"

lemma ber_seen_Nil [simp]: "\<not> ber_seen []"
  by (auto elim: ber_seen.cases)

lemma primitive_not_seen: "list_all primitive ts \<Longrightarrow> \<not> ber_seen ts"
proof
  assume p: "list_all primitive ts" and "ber_seen ts"
  from this(2) show False
  proof cases
    case (here u)
    then have "primitive u" using p by (simp add: list_all_iff)
    then show ?thesis using here(2) by (cases u) simp_all
  qed (use p in simp)
qed

lemma ber_seen_rest: "ber_seen ts \<Longrightarrow> ber_seen (t # ts)"
proof (induction rule: ber_seen.induct)
  case (here u ts)
  then show ?case by (intro ber_seen.here [of u]) simp_all
next
  case (last cs vs us t')
  then show ?case using ber_seen.last [of cs vs "t # us" t'] by simp
qed

lemma ber_seen_Prim [simp]: "ber_seen (Prim t c # ts) \<longleftrightarrow> ber_seen ts"
proof
  assume "ber_seen (Prim t c # ts)"
  then show "ber_seen ts"
  proof cases
    case (here u)
    then show ?thesis by (intro ber_seen.here [of u]) auto
  next
    case (last cs vs us t')
    then show ?thesis by (cases us) (auto intro: ber_seen.last)
  qed
qed (rule ber_seen_rest)

lemma ber_seen_Cons [simp]:
  "ber_seen (Cons t cs # ts) \<longleftrightarrow> is_string_type t \<or> ber_seen ts \<or> ber_seen cs \<and> list_all primitive ts"
proof
  assume "ber_seen (Cons t cs # ts)"
  then show "is_string_type t \<or> ber_seen ts \<or> ber_seen cs \<and> list_all primitive ts"
  proof cases
    case (here u)
    then show ?thesis by (auto intro: ber_seen.here)
  next
    case (last cs' vs us t')
    then show ?thesis by (cases us) (auto intro: ber_seen.last)
  qed
next
  assume "is_string_type t \<or> ber_seen ts \<or> ber_seen cs \<and> list_all primitive ts"
  then show "ber_seen (Cons t cs # ts)"
    using ber_seen_rest [of ts "Cons t cs"] ber_seen.here [of "Cons t cs" "Cons t cs # ts"] ber_seen.last [of cs ts "[]" t] by auto
qed

lemma ber_seen_Indef [simp]: "ber_seen (Indef t cs # ts)"
  by (rule ber_seen.here [of "Indef t cs"]) simp_all

lemma scan_ber_seen: "scan f ts \<longleftrightarrow> ber_seen ts \<or> f \<and> list_all primitive ts"
  by (induction f ts rule: scan.induct) auto

lemma der_not_seen: "list_all is_der ts \<Longrightarrow> \<not> ber_seen ts"
  using scan_der [of ts False] scan_ber_seen [of False ts] by blast

text \<open>The DER of a tree that is DER already.\<close>

lemma conv_der: "is_der t \<Longrightarrow> conv 0 t = Some bs \<Longrightarrow> bs = ber t"
proof (induction t arbitrary: bs)
  case (Cons t ts)
  have "list_all is_der us \<Longrightarrow> set us \<subseteq> set ts \<Longrightarrow> ocats (map (conv 0) us) = Some c \<Longrightarrow> c = concat (map ber us)" for us c
  proof (induction us arbitrary: c)
    case (Cons u us)
    then obtain x y where "conv 0 u = Some x" "ocats (map (conv 0) us) = Some y" "c = x @ y"
      by (cases "conv 0 u"; cases "ocats (map (conv 0) us)") auto
    moreover have "x = ber u" using Cons.prems \<open>conv 0 u = Some x\<close> by (intro \<open>\<And>x2a bs. x2a \<in> set ts \<Longrightarrow> is_der x2a \<Longrightarrow> conv 0 x2a = Some bs \<Longrightarrow> bs = ber x2a\<close>) simp_all
    ultimately show ?case using Cons by simp
  qed simp
  from this [of ts] show ?case using Cons.prems by (auto simp: dering_def split: option.splits if_splits)
qed (auto simp: dering_def split: if_splits)

section \<open>The conversion\<close>

lemma ber_to_der_tree:
  assumes m: "malloc_ok m" "malloc_total m" and t: "wf_tlv t" "height t \<le> kMaxDepth" "scan False [t]"
    and bs: "conv 0 t = Some bs" "length bs < 2 ^ 61" "length (ber t) < 2 ^ 62"
  shows "\<exists>storage. CBS_asn1_ber_to_der m (ber t) = Some (bs, Some storage, [])"
proof -
  have ber: "ber t = bers [t]" by (simp add: bers_def)
  have find: "cbs_find_ber (ber t) False 0 = (True, True)"
    using cbs_find_ber_scan [of "[t]" False] t unfolding ber by simp
  obtain st st1 st2 buf where c: "CBB_init m (length (ber t)) = (True, st)" "tree_op m t 0 0 st = (True, st1)"
    "CBB_finish m 0 True True st1 = (Some (Some buf, Some (length bs)), st2)" "take (length bs) buf = bs"
    using init_append_finish [OF m tree_op_appends [OF m(1) t(1) bs(1)] bs(3,2)] .
  obtain junk where "cbs_convert_ber m (ber t @ []) 0 0 False 0 st =
      (case tree_op m t 0 0 st of
         (ok, st1) \<Rightarrow> if ok then cbs_convert_ber m [] 0 0 False 0 st1 else (False, junk, st1))"
    by (rule followsD [OF follows_tree [OF t(1)], of 0 m "[]" 0 0 False st]) (use t(2) in auto)
  then have "cbs_convert_ber m (ber t) 0 0 False 0 st = (True, [], st1)"
    by (simp add: c(2) convert_end)
  then have "CBS_asn1_ber_to_der m (ber t) = Some (bs, Some buf, [])"
    using find c by (simp add: CBS_asn1_ber_to_der_def CBS_len_def CBS_init_def)
  then show ?thesis by blast
qed

lemma ber_to_der_unchanged:
  assumes t: "wf_tlv t" "height t \<le> kMaxDepth" "\<not> scan False [t]"
  shows "CBS_asn1_ber_to_der m (ber t) = Some (ber t, None, [])"
proof -
  have ber: "ber t = bers [t]" by (simp add: bers_def)
  have find: "cbs_find_ber (ber t) False 0 = (True, False)"
    using cbs_find_ber_scan [of "[t]" False] t unfolding ber by simp
  obtain tag c where "ber t = der tag c" "length c < 2 ^ 32" using t by (cases t) auto
  then have "CBS_get_any_asn1_element (ber t) = Some (ber t, tag, der_header_len tag (length c), [])"
    by (auto simp: CBS_get_any_asn1_element_iff)
  then show ?thesis using find by (simp add: CBS_asn1_ber_to_der_def)
qed

text \<open>Both together: the output is the DER of the tree when BER is seen or there is none, and the input otherwise.\<close>

lemma ber_to_der_cases:
  assumes m: "malloc_ok m" "malloc_total m" and t: "wf_tlv t" "height t \<le> kMaxDepth"
    and bs: "conv 0 t = Some bs" "length bs < 2 ^ 61" "length (ber t) < 2 ^ 62"
  shows "\<exists>storage. CBS_asn1_ber_to_der m (ber t) = Some (if ber_seen [t] \<or> is_der t then bs else ber t, storage, []) \<and>
    (storage \<noteq> None \<longleftrightarrow> ber_seen [t]) \<and> (is_der t \<longrightarrow> bs = ber t)"
proof (cases "ber_seen [t]")
  case True
  then have "scan False [t]" by (simp add: scan_ber_seen)
  then show ?thesis using ber_to_der_tree [OF m t _ bs] True der_not_seen [of "[t]"] by auto
next
  case False
  then have "\<not> scan False [t]" by (simp add: scan_ber_seen)
  then show ?thesis using ber_to_der_unchanged [OF t] False conv_der [of t bs] bs(1) by auto
qed

text \<open>
  A constructed element after one that holds BER makes the scan forget what it found: the
  conversion is skipped and the output is not DER.
\<close>

definition SEQUENCE :: u32 where
  "SEQUENCE = 0x10 OR CBS_ASN1_CONSTRUCTED"

definition forgotten :: tlv where
  "forgotten = Cons SEQUENCE [Cons SEQUENCE [Indef SEQUENCE []], Cons SEQUENCE []]"

lemma der_tag_SEQUENCE: "der_tag SEQUENCE = [0x30]"
  by (simp add: der_tag_def SEQUENCE_def CBS_ASN1_CONSTRUCTED_def CBS_ASN1_TAG_SHIFT_def)

lemma SEQUENCE_facts: "constructed SEQUENCE" "\<not> is_string_type SEQUENCE"
  by (simp_all add: constructed_def SEQUENCE_def CBS_ASN1_CONSTRUCTED_def CBS_ASN1_TAG_SHIFT_def
      is_string_type_def CBS_ASN1_BITSTRING_def CBS_ASN1_OCTETSTRING_def
      CBS_ASN1_UTF8STRING_def CBS_ASN1_NUMERICSTRING_def CBS_ASN1_PRINTABLESTRING_def
      CBS_ASN1_T61STRING_def CBS_ASN1_VIDEOTEXSTRING_def CBS_ASN1_IA5STRING_def
      CBS_ASN1_GRAPHICSTRING_def CBS_ASN1_VISIBLESTRING_def CBS_ASN1_GENERALSTRING_def
      CBS_ASN1_UNIVERSALSTRING_def CBS_ASN1_BMPSTRING_def)

lemma forgotten_bytes: "ber forgotten = [0x30, 8, 0x30, 4, 0x30, 0x80, 0, 0, 0x30, 0]"
  by (simp add: forgotten_def der_def der_len_def der_tag_SEQUENCE indef_header_def)

lemma forgotten_unchanged: "CBS_asn1_ber_to_der m (ber forgotten) = Some (ber forgotten, None, [])"
proof (rule ber_to_der_unchanged)
  show "wf_tlv forgotten"
    by (simp add: forgotten_def SEQUENCE_facts der_def der_len_def der_tag_SEQUENCE indef_header_def)
  show "height forgotten \<le> kMaxDepth" by (simp add: forgotten_def kMaxDepth_def)
  show "\<not> scan False [forgotten]" by (simp add: forgotten_def SEQUENCE_facts)
qed

section \<open>Implicitly tagged strings\<close>

lemma implicit_string_loop_appends:
  assumes "malloc_ok m"
  shows "\<forall>c \<in> set cs. length c < 2 ^ 32 \<Longrightarrow>
    appends_flat m (implicit_string_loop m tag (concat (map (der tag) cs))) 0 (Some (concat cs))"
proof (induction cs)
  case Nil
  have "implicit_string_loop m tag [] = Pair True"
    by (rule ext) (simp add: implicit_string_loop.simps CBS_len_def)
  then show ?case by (simp add: appends_flat_nop)
next
  case (Cons c cs)
  have get: "CBS_get_asn1 (der tag c @ concat (map (der tag) cs)) tag = Some (c, concat (map (der tag) cs))"
    using Cons.prems by (simp add: CBS_get_asn1_iff)
  have "implicit_string_loop m tag (der tag c @ concat (map (der tag) cs)) =
      and_then (CBB_add_bytes m 0 c (length c)) (implicit_string_loop m tag (concat (map (der tag) cs)))"
    by (rule ext, subst implicit_string_loop.simps) (simp add: CBS_len_def CBS_data_def get)
  then show ?case
    using Cons appends_flat_then [OF appends_flatI [OF appends_CBB_add_bytes [OF assms, of "length c" c 0]],
        of "implicit_string_loop m tag (concat (map (der tag) cs))" "Some (concat cs)"]
    by simp
qed

lemma implicit_string_fragments:
  assumes m: "malloc_ok m" "malloc_total m" and tags: "outer AND CBS_ASN1_CONSTRUCTED = 0"
    and cs: "\<forall>c \<in> set cs. length c < 2 ^ 32" "length (concat (map (der inner) cs)) < 2 ^ 32"
    and inp: "inp = der (outer OR CBS_ASN1_CONSTRUCTED) (concat (map (der inner) cs)) @ rest" "length inp < 2 ^ 62"
  shows "\<exists>storage. CBS_get_asn1_implicit_string m inp outer inner = Some (concat cs, Some storage, rest)"
proof -
  let ?tag = "outer OR CBS_ASN1_CONSTRUCTED"
  have "?tag AND CBS_ASN1_CONSTRUCTED = CBS_ASN1_CONSTRUCTED" by (simp add: and.commute)
  moreover have "CBS_ASN1_CONSTRUCTED \<noteq> 0" by (simp add: CBS_ASN1_CONSTRUCTED_def CBS_ASN1_TAG_SHIFT_def)
  ultimately have ne: "?tag \<noteq> outer" using tags by metis
  have "\<not> CBS_peek_asn1_tag inp outer"
    using ne asn1_tag.enc_prefix_free [of ?tag _ outer] by (auto simp: CBS_peek_asn1_tag_iff inp(1) der_def)
  moreover have "CBS_get_asn1 inp ?tag = Some (concat (map (der inner) cs), rest)"
    using cs(2) by (simp add: CBS_get_asn1_iff inp(1))
  moreover have short: "length (concat cs) < 2 ^ 61"
  proof -
    have "length (concat cs) \<le> length (concat (map (der inner) cs))"
      by (induction cs) (simp_all add: length_der)
    then show ?thesis using cs(2) by simp
  qed
  obtain st st1 st2 buf where c: "CBB_init m (length inp) = (True, st)"
    "implicit_string_loop m inner (concat (map (der inner) cs)) st = (True, st1)"
    "CBB_finish m 0 True True st1 = (Some (Some buf, Some (length (concat cs))), st2)"
    "take (length (concat cs)) buf = concat cs"
    using init_append_finish [OF m implicit_string_loop_appends [OF m(1) cs(1)] inp(2) short] .
  ultimately have "CBS_get_asn1_implicit_string m inp outer inner = Some (concat cs, Some buf, rest)"
    by (simp add: CBS_get_asn1_implicit_string_def CBS_len_def CBS_init_def)
  then show ?thesis by blast
qed

end
