(* ===== verification/Der_Bits.thy ===== *)
theory Der_Bits
  imports Der_Int
begin

text \<open>
  BIT STRINGs of \<^verbatim>\<open>cbs.c\<close>: the contents octets (a count of unused bits, then the bits packed
  most significant first) against the list of bits they stand for.
\<close>

definition octet_bits :: "u8 \<Rightarrow> bool list" where
  "octet_bits b = map (\<lambda>i. bit b (7 - i)) [0..<8]"

definition bits_of :: "u8 list \<Rightarrow> bool list" where
  "bits_of bs = concat (map octet_bits bs)"

lemma length_octet_bits [simp]: "length (octet_bits b) = 8"
  by (simp add: octet_bits_def)

lemma length_bits_of [simp]: "length (bits_of bs) = 8 * length bs"
  by (induction bs) (simp_all add: bits_of_def)

lemma bits_of_append: "bits_of (xs @ ys) = bits_of xs @ bits_of ys"
  by (simp add: bits_of_def)

lemma nth_octet_bits: "i < 8 \<Longrightarrow> octet_bits b ! i = bit b (7 - i)"
  by (simp add: octet_bits_def)

lemma nth_bits_of: "n < 8 * length bs \<Longrightarrow> bits_of bs ! n = bit (bs ! (n div 8)) (7 - n mod 8)"
proof (induction bs arbitrary: n)
  case (Cons b bs)
  show ?case
  proof (cases "n < 8")
    case True
    then show ?thesis by (simp add: bits_of_def nth_append nth_octet_bits)
  next
    case False
    then have "n div 8 = Suc ((n - 8) div 8)" "(n - 8) mod 8 = n mod 8"
      by (simp_all add: le_div_geq le_mod_geq)
    then show ?thesis
      using False Cons.IH [of "n - 8"] Cons.prems
      by (simp add: bits_of_def nth_append)
  qed
qed simp

text \<open>Valid: at most 7 unused bits, all of them present and clear.\<close>

definition bitstring_ok :: "cbs \<Rightarrow> bool" where
  "bitstring_ok cbs \<longleftrightarrow>
     (\<exists>k bs. cbs = k # bs \<and> unat k \<le> 7 \<and> unat k \<le> length (bits_of bs) \<and>
       (\<forall>i < unat k. \<not> bits_of bs ! (length (bits_of bs) - 1 - i)))"

lemma low_bits_clear: "(ucast (b::u8) :: u32) AND (2 ^ k - 1) = 0 \<longleftrightarrow> (\<forall>i < k. \<not> bit b i)"
proof -
  have "2 ^ k - 1 = (mask k :: u32)" by (simp add: mask_eq_exp_minus_1)
  then have "(ucast b :: u32) AND (2 ^ k - 1) = take_bit k (ucast b)"
    by (simp add: take_bit_eq_mask)
  moreover have "take_bit k (ucast b :: u32) = 0 \<longleftrightarrow> (\<forall>i < k. \<not> bit b i)"
  proof
    assume 0: "take_bit k (ucast b :: u32) = 0"
    show "\<forall>i < k. \<not> bit b i"
    proof (intro allI impI notI)
      fix i assume "i < k" "bit b i"
      then have "bit (take_bit k (ucast b :: u32)) i"
        by (auto simp: bit_simps dest: bit_imp_le_length)
      then show False by (simp add: 0)
    qed
  qed (auto intro!: bit_word_eqI simp: bit_simps)
  ultimately show ?thesis by simp
qed

lemma CBS_is_valid_asn1_bitstring_iff: "CBS_is_valid_asn1_bitstring cbs \<longleftrightarrow> bitstring_ok cbs"
proof (cases cbs)
  case (Cons k bs)
  have k7: "7 < k \<longleftrightarrow> \<not> unat k \<le> 7" by (simp add: word_less_nat_alt not_le)
  have k0: "k = 0 \<longleftrightarrow> unat k = 0" by (simp add: unat_eq_0)
  show ?thesis
  proof (cases bs rule: rev_cases)
    case Nil
    then show ?thesis
      by (auto simp: CBS_is_valid_asn1_bitstring_def bitstring_ok_def Cons CBS_get_last_u8_def k7 k0)
  next
    case (snoc ys y)
    have nth: "bits_of bs ! (length (bits_of bs) - 1 - i) = bit y i" if "i < 8" for i
    proof -
      have eq: "length (bits_of bs) - 1 - i = 8 * length ys + (7 - i)" using that by (simp add: snoc)
      have "(8 * length ys + (7 - i)) div 8 = length ys" "(8 * length ys + (7 - i)) mod 8 = 7 - i"
        by (simp_all only: div_mult_self4 mod_mult_self4, simp_all)
      then show ?thesis using that unfolding eq by (subst nth_bits_of) (simp_all add: snoc)
    qed
    have "CBS_is_valid_asn1_bitstring cbs \<longleftrightarrow> unat k \<le> 7 \<and> (\<forall>i < unat k. \<not> bit y i)"
      by (auto simp: CBS_is_valid_asn1_bitstring_def Cons CBS_get_last_u8_def k7 k0 snoc
          nth_append low_bits_clear)
    also have "\<dots> \<longleftrightarrow> bitstring_ok cbs"
      using nth by (auto simp: bitstring_ok_def Cons) (auto simp: snoc)
    finally show ?thesis .
  qed
qed (simp add: CBS_is_valid_asn1_bitstring_def bitstring_ok_def)

lemma CBS_asn1_bitstring_has_bit_iff:
  "CBS_asn1_bitstring_has_bit cbs n \<longleftrightarrow>
     bitstring_ok cbs \<and> unat n < length (bits_of (tl cbs)) \<and> bits_of (tl cbs) ! unat n"
proof (cases "bitstring_ok cbs")
  case True
  then obtain k bs where cbs: "cbs = k # bs" by (auto simp: bitstring_ok_def)
  have le: "unat n div 8 + 1 < 2 ^ 32"
  proof -
    have "unat n < 4294967296" by simp
    then have "unat n div 8 + 1 < 4294967296" by linarith
    then show ?thesis by simp
  qed
  have "unat (drop_bit 3 n + 1) = unat n div 8 + 1"
    using unat_drop_bit [of 3 n] le by (simp add: unat_word_ariths)
  moreover have "unat (n AND 7) = unat n mod 8"
    using unat_and_mask [of n 3] by (simp add: mask_eq_exp_minus_1)
  moreover have "(ucast b :: u32) AND push_bit (7 - m) 1 \<noteq> 0 \<longleftrightarrow> bit b (7 - m)" for b :: u8 and m
  proof -
    have "(ucast b :: u32) AND 2 ^ (7 - m) = 0 \<longleftrightarrow> \<not> bit (ucast b :: u32) (7 - m)"
      by (rule and_exp_eq_0_iff_not_bit)
    moreover have "bit (ucast b :: u32) (7 - m) = bit b (7 - m)"
      using less_imp_diff_less [of 7 32 m] by (simp add: bit_simps)
    ultimately show ?thesis by (simp add: push_bit_eq_mult)
  qed
  moreover have "unat n < 8 * length bs \<longleftrightarrow> unat n div 8 < length bs"
    by (simp add: div_less_iff_less_mult mult.commute)
  ultimately show ?thesis
    using True nth_bits_of [of "unat n" bs]
    by (auto simp: CBS_asn1_bitstring_has_bit_def CBS_is_valid_asn1_bitstring_iff cbs CBS_len_def
        CBS_data_def Let_def)
qed (simp add: CBS_asn1_bitstring_has_bit_def CBS_is_valid_asn1_bitstring_iff)

end
