(* ===== verification/Buf.thy ===== *)
theory Buf
  imports Cbb_Build
begin

text \<open>
  \<^verbatim>\<open>crypto/buf/buf.c\<close>: the growable buffer \<open>BUF_MEM\<close>. What a client of a growable byte buffer
  relies on (each successful append adds its bytes at the end) is a locale, and both the
  \<open>BUF_MEM\<close> and the top level of a \<open>CBB\<close> are interpretations of it.
\<close>

section \<open>Code\<close>

record buf_mem_st =
  m_length :: nat
  m_data :: "block option"
  m_max :: nat

definition sizeof_BUF_MEM :: nat where
  "sizeof_BUF_MEM = 24"

definition BUF_MEM_new :: "allocator \<Rightarrow> buf_mem_st option" where
  "BUF_MEM_new m =
     (case OPENSSL_malloc m sizeof_BUF_MEM of
        None \<Rightarrow> None
      | Some _ \<Rightarrow> Some \<lparr>m_length = 0, m_data = None, m_max = 0\<rparr>)"

text \<open>What \<open>BUF_MEM_free\<close> hands back to the allocator for the data of the buffer.\<close>

definition BUF_MEM_free :: "buf_mem_st option \<Rightarrow> u8 list option" where
  "BUF_MEM_free buf = (case buf of None \<Rightarrow> None | Some b \<Rightarrow> OPENSSL_free (m_data b))"

definition BUF_MEM_reserve :: "allocator \<Rightarrow> nat \<Rightarrow> buf_mem_st \<Rightarrow> bool \<times> buf_mem_st" where
  "BUF_MEM_reserve m cap buf =
     (if m_max buf \<ge> cap then (True, buf)
      else
        let n = (cap + 3) mod SIZE_MOD in
        if n < cap then (False, buf)
        else
          let n = n div 3; alloc_size = (n * 4) mod SIZE_MOD in
          if alloc_size div 4 \<noteq> n then (False, buf)
          else case OPENSSL_realloc m (m_data buf) alloc_size of
                 None \<Rightarrow> (False, buf)
               | Some new_buf \<Rightarrow> (True, buf\<lparr>m_data := Some new_buf, m_max := alloc_size\<rparr>))"

text \<open>Stores at an offset of \<open>buf->data\<close>.\<close>

definition store_at :: "nat \<Rightarrow> u8 list \<Rightarrow> buf_mem_st \<Rightarrow> buf_mem_st" where
  "store_at i bs buf =
     buf\<lparr>m_data := map_option (\<lambda>d. d\<lparr>blk_data :=
        take i (blk_data d) @ bs @ drop (i + length bs) (blk_data d)\<rparr>) (m_data buf)\<rparr>"

definition BUF_MEM_grow :: "allocator \<Rightarrow> nat \<Rightarrow> buf_mem_st \<Rightarrow> nat \<times> buf_mem_st" where
  "BUF_MEM_grow m len buf =
     (case BUF_MEM_reserve m len buf of
        (ok, buf) \<Rightarrow>
          if \<not> ok then (0, buf)
          else (len,
            (if m_length buf < len then store_at (m_length buf) (replicate (len - m_length buf) 0) buf
             else buf)\<lparr>m_length := len\<rparr>))"

definition BUF_MEM_grow_clean :: "allocator \<Rightarrow> nat \<Rightarrow> buf_mem_st \<Rightarrow> nat \<times> buf_mem_st" where
  "BUF_MEM_grow_clean m len buf = BUF_MEM_grow m len buf"

definition BUF_MEM_append :: "allocator \<Rightarrow> u8 list \<Rightarrow> nat \<Rightarrow> buf_mem_st \<Rightarrow> bool \<times> buf_mem_st" where
  "BUF_MEM_append m inp len buf =
     (if len = 0 then (True, buf)
      else
        let new_len = (m_length buf + len) mod SIZE_MOD in
        if new_len < len then (False, buf)
        else case BUF_MEM_reserve m new_len buf of
               (ok, buf) \<Rightarrow>
                 if \<not> ok then (False, buf)
                 else (True, (store_at (m_length buf) (take len inp) buf)\<lparr>m_length := new_len\<rparr>))"

text \<open>The names of \<^verbatim>\<open>mem.c\<close>'s string functions under their old prefix.\<close>

definition BUF_strdup :: "allocator \<Rightarrow> u8 list option \<Rightarrow> block option option" where
  "BUF_strdup m str = OPENSSL_strdup m str"

definition BUF_strnlen :: "u8 list \<Rightarrow> nat \<Rightarrow> nat option" where
  "BUF_strnlen str max_len = OPENSSL_strnlen str max_len"

definition BUF_strndup :: "allocator \<Rightarrow> u8 list option \<Rightarrow> nat \<Rightarrow> block option option" where
  "BUF_strndup m str sz = OPENSSL_strndup m str sz"

definition BUF_strlcpy :: "u8 list \<Rightarrow> u8 list \<Rightarrow> nat \<Rightarrow> (u8 list \<times> nat) option" where
  "BUF_strlcpy dst src dst_size = OPENSSL_strlcpy dst src dst_size"

definition BUF_strlcat :: "u8 list \<Rightarrow> u8 list \<Rightarrow> nat \<Rightarrow> (u8 list \<times> nat) option" where
  "BUF_strlcat dst src dst_size = OPENSSL_strlcat dst src dst_size"

definition BUF_memdup :: "allocator \<Rightarrow> u8 list \<Rightarrow> nat \<Rightarrow> block option" where
  "BUF_memdup m data sz = OPENSSL_memdup m data sz"

section \<open>The invariant\<close>

definition buf_bytes :: "buf_mem_st \<Rightarrow> u8 list" where
  "buf_bytes buf = (case m_data buf of None \<Rightarrow> [] | Some d \<Rightarrow> blk_data d)"

definition buf_ok :: "buf_mem_st \<Rightarrow> bool" where
  "buf_ok buf \<longleftrightarrow> m_length buf \<le> m_max buf \<and> length (buf_bytes buf) = m_max buf \<and>
     (case m_data buf of None \<Rightarrow> True | Some d \<Rightarrow> block_ok d)"

definition contents :: "buf_mem_st \<Rightarrow> u8 list" where
  "contents buf = take (m_length buf) (buf_bytes buf)"

lemma length_contents [simp]: "buf_ok buf \<Longrightarrow> length (contents buf) = m_length buf"
  by (simp add: contents_def buf_ok_def)

lemma BUF_MEM_new_ok: "BUF_MEM_new m = Some buf \<Longrightarrow> buf_ok buf \<and> contents buf = []"
  by (auto simp: BUF_MEM_new_def buf_ok_def contents_def buf_bytes_def split: option.splits)

lemma alloc_size_enough: "n \<le> (n + 3) div 3 * (4::nat)"
  by presburger

lemma OPENSSL_realloc_any:
  assumes "malloc_ok m" "sz + 8 < SIZE_MOD" "\<forall>d. old = Some d \<longrightarrow> block_ok d"
    and "OPENSSL_realloc m old sz = Some b" "l \<le> sz"
    and "l \<le> (case old of None \<Rightarrow> 0 | Some d \<Rightarrow> blk_size d)"
  shows "block_ok b \<and> blk_size b = sz \<and>
    take l (blk_data b) = (case old of None \<Rightarrow> [] | Some d \<Rightarrow> take l (blk_data d))"
proof (cases old)
  case None
  then show ?thesis
    using assms OPENSSL_malloc_block [OF assms(1,2), of b] by (simp add: OPENSSL_realloc_def)
next
  case (Some d)
  note r = OPENSSL_realloc_block [OF assms(1,2), of d b]
  have "block_ok b" "blk_size b = sz"
    "take (min (blk_size d) sz) (blk_data b) = take (min (blk_size d) sz) (blk_data d)"
    using r assms Some by simp_all
  then have "take (min l (min (blk_size d) sz)) (blk_data b) = take (min l (min (blk_size d) sz)) (blk_data d)"
    by (metis take_take)
  with \<open>block_ok b\<close> \<open>blk_size b = sz\<close> show ?thesis using assms(5,6) Some by simp
qed

lemma BUF_MEM_reserve_cases:
  assumes m: "malloc_ok m" and b: "buf_ok buf" and cap: "cap < 2 ^ 62"
    and r: "BUF_MEM_reserve m cap buf = (ok, buf')"
  shows "buf_ok buf' \<and> contents buf' = contents buf \<and> m_length buf' = m_length buf \<and>
    (ok \<longrightarrow> cap \<le> m_max buf') \<and> (\<not> ok \<longrightarrow> buf' = buf \<and> \<not> malloc_total m)"
proof (cases "m_max buf \<ge> cap")
  case True
  then show ?thesis using r b by (simp add: BUF_MEM_reserve_def)
next
  case False
  define a where "a = (cap + 3) div 3 * 4"
  have a: "cap \<le> a" "a + 8 < 2 ^ 63" using cap alloc_size_enough [of cap] by (simp_all add: a_def)
  then have mods: "(cap + 3) mod SIZE_MOD = cap + 3" "a mod SIZE_MOD = a" "a + 8 < SIZE_MOD"
    using cap by (simp_all add: SIZE_MOD_def)
  have "BUF_MEM_reserve m cap buf = (case OPENSSL_realloc m (m_data buf) a of
      None \<Rightarrow> (False, buf) | Some new_buf \<Rightarrow> (True, buf\<lparr>m_data := Some new_buf, m_max := a\<rparr>))"
  proof -
    have "a div 4 = (cap + 3) div 3" by (simp add: a_def)
    then show ?thesis
      using False by (simp add: BUF_MEM_reserve_def mods(1,2) Let_def a_def [symmetric] cong: option.case_cong)
  qed
  note eq = this [unfolded r]
  show ?thesis
  proof (cases "OPENSSL_realloc m (m_data buf) a")
    case None
    have "\<not> malloc_total m"
    proof
      assume "malloc_total m"
      then have "OPENSSL_malloc m a \<noteq> None" using a(2) by (rule OPENSSL_malloc_total)
      with None show False by (auto simp: OPENSSL_realloc_def Let_def split: option.splits)
    qed
    then show ?thesis using eq None b by simp
  next
    case (Some new_buf)
    have old: "\<forall>d. m_data buf = Some d \<longrightarrow> block_ok d" using b by (simp add: buf_ok_def split: option.splits)
    have size: "m_length buf \<le> (case m_data buf of None \<Rightarrow> 0 | Some d \<Rightarrow> blk_size d)"
      using b by (auto simp: buf_ok_def buf_bytes_def block_ok_def split: option.splits)
    have l: "m_length buf \<le> a" using b False a(1) by (simp add: buf_ok_def)
    from OPENSSL_realloc_any [OF m mods(3) old Some l size]
    have n: "block_ok new_buf" "blk_size new_buf = a" "take (m_length buf) (blk_data new_buf) = contents buf"
      by (auto simp: contents_def buf_bytes_def split: option.splits)
    have "ok" "buf' = buf\<lparr>m_data := Some new_buf, m_max := a\<rparr>" using eq Some by simp_all
    then show ?thesis
      using n a(1) l by (simp add: buf_ok_def contents_def buf_bytes_def block_ok_def)
  qed
qed

lemma store_at_contents:
  assumes "buf_ok buf" "m_length buf + length bs \<le> m_max buf" "n = m_length buf + length bs"
  shows "buf_ok (store_at (m_length buf) bs buf\<lparr>m_length := n\<rparr>)"
    "contents (store_at (m_length buf) bs buf\<lparr>m_length := n\<rparr>) = contents buf @ bs"
  using assms
  by (auto simp: store_at_def buf_ok_def buf_bytes_def contents_def block_ok_def split: option.splits)

lemma BUF_MEM_append_cases:
  assumes m: "malloc_ok m" and b: "buf_ok buf" and len: "len \<le> length inp" "m_length buf + len < 2 ^ 62"
    and r: "BUF_MEM_append m inp len buf = (ok, buf')"
  shows "buf_ok buf' \<and> (ok \<longrightarrow> contents buf' = contents buf @ take len inp) \<and>
    (\<not> ok \<longrightarrow> buf' = buf \<and> \<not> malloc_total m)"
proof (cases "len = 0")
  case True
  then show ?thesis using r b by (simp add: BUF_MEM_append_def)
next
  case False
  obtain ok1 buf1 where r1: "BUF_MEM_reserve m (m_length buf + len) buf = (ok1, buf1)"
    by (cases "BUF_MEM_reserve m (m_length buf + len) buf")
  have mods: "(m_length buf + len) mod SIZE_MOD = m_length buf + len"
    using len(2) by (simp add: SIZE_MOD_def)
  note c = BUF_MEM_reserve_cases [OF m b len(2) r1]
  show ?thesis
  proof (cases ok1)
    case True
    define buf2 where "buf2 = store_at (m_length buf1) (take len inp) buf1\<lparr>m_length := m_length buf + len\<rparr>"
    have "BUF_MEM_append m inp len buf = (True, buf2)"
      using False True r1 c mods by (simp add: BUF_MEM_append_def Let_def buf2_def)
    moreover have "buf_ok buf1" "m_length buf1 + length (take len inp) \<le> m_max buf1"
      "m_length buf + len = m_length buf1 + length (take len inp)"
      using c True len(1) by simp_all
    from store_at_contents [OF this] have "buf_ok buf2" "contents buf2 = contents buf1 @ take len inp"
      unfolding buf2_def .
    ultimately show ?thesis using r c by simp
  next
    case False
    then have "BUF_MEM_append m inp len buf = (False, buf1)"
      using \<open>len \<noteq> 0\<close> r1 mods by (simp add: BUF_MEM_append_def Let_def)
    then show ?thesis using r c False b by simp
  qed
qed

lemma BUF_MEM_grow_cases:
  assumes m: "malloc_ok m" and b: "buf_ok buf" and len: "len < 2 ^ 62"
    and r: "BUF_MEM_grow m len buf = (n, buf')"
  shows "buf_ok buf' \<and>
    (buf' = buf \<and> n = 0 \<and> \<not> malloc_total m \<or>
     n = len \<and> contents buf' = take len (contents buf) @ replicate (len - m_length buf) 0)"
proof -
  obtain ok1 buf1 where r1: "BUF_MEM_reserve m len buf = (ok1, buf1)"
    by (cases "BUF_MEM_reserve m len buf")
  note c = BUF_MEM_reserve_cases [OF m b len r1]
  have shrink: "buf_ok (buf1\<lparr>m_length := len\<rparr>) \<and> contents (buf1\<lparr>m_length := len\<rparr>) = take len (contents buf1)"
    if "len \<le> m_length buf1"
    using that c by (simp add: buf_ok_def contents_def buf_bytes_def min_def)
  show ?thesis
  proof (cases ok1)
    case False
    then show ?thesis using r r1 c b by (simp add: BUF_MEM_grow_def)
  next
    case True
    show ?thesis
    proof (cases "m_length buf1 < len")
      case True
      with \<open>ok1\<close> r r1 have "n = len"
        "buf' = store_at (m_length buf1) (replicate (len - m_length buf1) 0) buf1\<lparr>m_length := len\<rparr>"
        by (auto simp add: BUF_MEM_grow_def)
      moreover from this(2) have "buf_ok buf'" "contents buf' = contents buf1 @ replicate (len - m_length buf1) 0"
        using store_at_contents [of buf1 "replicate (len - m_length buf1) 0" len] c True \<open>ok1\<close> by simp_all
      ultimately show ?thesis using c b True by simp
    next
      case False
      with \<open>ok1\<close> r r1 have "n = len" "buf' = buf1\<lparr>m_length := len\<rparr>"
        by (auto simp add: BUF_MEM_grow_def)
      then show ?thesis using c b False shrink by simp
    qed
  qed
qed

section \<open>The contract of a growable buffer\<close>

text \<open>
  \<open>inv\<close>: the states in which the buffer may be written; \<open>fits s n\<close>: an append of \<open>n\<close> bytes
  cannot fail.
\<close>

locale byte_buffer =
  fixes inv :: "'s \<Rightarrow> bool" and bytes :: "'s \<Rightarrow> u8 list" and fits :: "'s \<Rightarrow> nat \<Rightarrow> bool"
    and append :: "u8 list \<Rightarrow> 's \<Rightarrow> bool \<times> 's"
  assumes append_ok: "inv s \<Longrightarrow> append bs s = (True, s') \<Longrightarrow> fits s (length bs) \<Longrightarrow> inv s' \<and> bytes s' = bytes s @ bs"
    and append_total: "inv s \<Longrightarrow> fits s (length bs) \<Longrightarrow> fst (append bs s)"
    and fits_append: "inv s \<Longrightarrow> append bs s = (True, s') \<Longrightarrow> fits s (length bs + n) \<Longrightarrow> fits s' n"
    and fits_less: "fits s n \<Longrightarrow> k \<le> n \<Longrightarrow> fits s k"
begin

lemma append_each:
  "inv s \<Longrightarrow> fits s (length (concat bss)) \<Longrightarrow>
     \<exists>s'. fold (\<lambda>bs (ok, s). if ok then append bs s else (ok, s)) bss (True, s) = (True, s') \<and>
       inv s' \<and> bytes s' = bytes s @ concat bss"
proof (induction bss arbitrary: s)
  case (Cons bs bss)
  have f: "fits s (length bs)" using Cons.prems(2) by (rule fits_less) simp
  obtain s1 where s1: "append bs s = (True, s1)"
    using append_total [OF Cons.prems(1) f] by (cases "append bs s") auto
  have inv: "inv s1" "bytes s1 = bytes s @ bs" using append_ok [OF Cons.prems(1) s1 f] by simp_all
  have "fits s1 (length (concat bss))"
    by (rule fits_append [OF Cons.prems(1) s1]) (use Cons.prems(2) in simp)
  from Cons.IH [OF inv(1) this] show ?case using s1 inv(2) by auto
qed simp

end

interpretation buf_mem: byte_buffer buf_ok contents
  "\<lambda>buf n. malloc_ok m \<and> malloc_total m \<and> m_length buf + n < 2 ^ 62"
  "\<lambda>bs. BUF_MEM_append m bs (length bs)" for m
proof
  fix s s' :: buf_mem_st and bs :: "u8 list" and n :: nat
  assume b: "buf_ok s" and r: "BUF_MEM_append m bs (length bs) s = (True, s')"
  show "buf_ok s' \<and> contents s' = contents s @ bs"
    if "malloc_ok m \<and> malloc_total m \<and> m_length s + length bs < 2 ^ 62"
    using BUF_MEM_append_cases [OF _ b _ _ r] that by simp
  assume f: "malloc_ok m \<and> malloc_total m \<and> m_length s + (length bs + n) < 2 ^ 62"
  then have "buf_ok s'" "contents s' = contents s @ bs"
    using BUF_MEM_append_cases [OF _ b _ _ r] by simp_all
  then have "m_length s' = m_length s + length bs"
    using b length_contents [of s'] by simp
  with f show "malloc_ok m \<and> malloc_total m \<and> m_length s' + n < 2 ^ 62" by simp
next
  fix s :: buf_mem_st and bs :: "u8 list"
  assume "buf_ok s" "malloc_ok m \<and> malloc_total m \<and> m_length s + length bs < 2 ^ 62"
  then show "fst (BUF_MEM_append m bs (length bs) s)"
    using BUF_MEM_append_cases [of m s "length bs" bs "fst (BUF_MEM_append m bs (length bs) s)"
        "snd (BUF_MEM_append m bs (length bs) s)"] by auto
qed auto

text \<open>The top level of a \<open>CBB\<close> with no child open.\<close>

definition cbb_bytes :: "cbb_state \<Rightarrow> u8 list" where
  "cbb_bytes st = (case base st of None \<Rightarrow> [] | Some b \<Rightarrow> written b)"

definition cbb_fits :: "allocator \<Rightarrow> cbb_state \<Rightarrow> nat \<Rightarrow> bool" where
  "cbb_fits m st n \<longleftrightarrow> malloc_ok m \<and> n < 2 ^ 63 \<and>
     (case base st of None \<Rightarrow> False | Some b \<Rightarrow> room m b (b_len b + n))"

interpretation cbb_buffer: byte_buffer "\<lambda>st. usable 0 st \<and> length (chain st) = Suc 0" cbb_bytes
  "cbb_fits m" "\<lambda>bs. CBB_add_bytes m 0 bs (length bs)" for m
proof
  fix s s' :: cbb_state and bs :: "u8 list" and n :: nat
  assume u: "usable 0 s \<and> length (chain s) = Suc 0" and r: "CBB_add_bytes m 0 bs (length bs) s = (True, s')"
  have step: "\<exists>b b'. base s = Some b \<and> base s' = Some b' \<and> written b' = written b @ bs \<and> wrote m b b' \<and>
      buffer_ok b \<and> usable 0 s' \<and> length (chain s') = Suc 0"
    if "malloc_ok m" "length bs < 2 ^ 63"
  proof -
    have app: "appends_at m (CBB_add_bytes m 0 bs (length bs)) 0 (Some bs) s"
      using appends_CBB_add_bytes [OF that(1) _ that(2), of bs 0] u by (simp add: appends_def)
    have u0: "usable 0 s" using u ..
    obtain w bs' b b' where o: "base s = Some b" "flushed 0 s = Some w" "Some bs = Some bs'" "base s' = Some b'"
      "written b' = w @ bs'" "wrote m b b'" "chain s' = take (Suc 0) (chain s)" "usable 0 s'"
      "length (chain s') = Suc 0" "flushed 0 s' = Some (w @ bs')"
      by (rule appends_at_ok [OF u0 app r])
    moreover have "w = written b" using flushed_flat [of 0 s b] u o(1,2) by simp
    moreover have "buffer_ok b" using u o(1) by (auto simp: usable_def cbb_ok_def)
    ultimately show ?thesis by auto
  qed
  show "(usable 0 s' \<and> length (chain s') = Suc 0) \<and> cbb_bytes s' = cbb_bytes s @ bs"
    if "cbb_fits m s (length bs)"
    using step that by (auto simp: cbb_fits_def cbb_bytes_def)
  assume f: "cbb_fits m s (length bs + n)"
  then obtain b b' where b: "base s = Some b" "base s' = Some b'" "written b' = written b @ bs" "wrote m b b'" "buffer_ok b"
    using step by (auto simp: cbb_fits_def)
  then have "b_len b' = b_len b + length bs"
    using length_written [of b'] length_written [of b] by (simp add: wrote_def)
  then show "cbb_fits m s' n"
    using f b by (auto simp: cbb_fits_def wrote_def add.assoc)
next
  fix s :: cbb_state and bs :: "u8 list"
  assume u: "usable 0 s \<and> length (chain s) = Suc 0" and f: "cbb_fits m s (length bs)"
  have a: "appends_at m (CBB_add_bytes m 0 bs (length bs)) 0 (Some bs) s"
    using appends_CBB_add_bytes [of m "length bs" bs 0] u f by (simp add: appends_def cbb_fits_def)
  obtain b where b: "base s = Some b" "buffer_ok b" using u by (auto elim: usable_obtain)
  have "flushed 0 s = Some (written b)" using u flushed_flat [of 0 s b] b(1) by simp
  then show "fst (CBB_add_bytes m 0 bs (length bs) s)"
    using a f b by (auto simp: appends_at_def cbb_fits_def split: prod.splits if_splits)
qed (auto simp: cbb_fits_def room_def split: option.splits)

end
