(* ===== verification/Constant_Time.thy ===== *)
theory Constant_Time
  imports Prelude
begin

text \<open>
  The branch-free comparisons of \<^verbatim>\<open>crypto/internal.h\<close>. Each gives a mask, all ones or all
  zeros; the theorems say for which arguments, so that code written with masks can be read as
  code with conditions.
\<close>

section \<open>Code\<close>

type_synonym crypto_word = u64

text \<open>The barrier only stops the compiler from reasoning about the value.\<close>

definition value_barrier_w :: "crypto_word \<Rightarrow> crypto_word" where
  "value_barrier_w a = a"

definition constant_time_msb_w :: "crypto_word \<Rightarrow> crypto_word" where
  "constant_time_msb_w a = 0 - drop_bit 63 a"

definition constant_time_lt_w :: "crypto_word \<Rightarrow> crypto_word \<Rightarrow> crypto_word" where
  "constant_time_lt_w a b = constant_time_msb_w (a XOR ((a XOR b) OR ((a - b) XOR a)))"

definition constant_time_lt_8 :: "crypto_word \<Rightarrow> crypto_word \<Rightarrow> u8" where
  "constant_time_lt_8 a b = ucast (constant_time_lt_w a b)"

definition constant_time_ge_w :: "crypto_word \<Rightarrow> crypto_word \<Rightarrow> crypto_word" where
  "constant_time_ge_w a b = NOT (constant_time_lt_w a b)"

definition constant_time_ge_8 :: "crypto_word \<Rightarrow> crypto_word \<Rightarrow> u8" where
  "constant_time_ge_8 a b = ucast (constant_time_ge_w a b)"

definition constant_time_is_zero_w :: "crypto_word \<Rightarrow> crypto_word" where
  "constant_time_is_zero_w a = constant_time_msb_w (NOT a AND (a - 1))"

definition constant_time_is_zero_8 :: "crypto_word \<Rightarrow> u8" where
  "constant_time_is_zero_8 a = ucast (constant_time_is_zero_w a)"

definition constant_time_eq_w :: "crypto_word \<Rightarrow> crypto_word \<Rightarrow> crypto_word" where
  "constant_time_eq_w a b = constant_time_is_zero_w (a XOR b)"

definition constant_time_eq_8 :: "crypto_word \<Rightarrow> crypto_word \<Rightarrow> u8" where
  "constant_time_eq_8 a b = ucast (constant_time_eq_w a b)"

text \<open>An \<open>int\<close> is converted to the unsigned word, so sign-extended.\<close>

definition constant_time_eq_int :: "32 word \<Rightarrow> 32 word \<Rightarrow> crypto_word" where
  "constant_time_eq_int a b = constant_time_eq_w (scast a) (scast b)"

definition constant_time_eq_int_8 :: "32 word \<Rightarrow> 32 word \<Rightarrow> u8" where
  "constant_time_eq_int_8 a b = constant_time_eq_8 (scast a) (scast b)"

definition constant_time_select_w :: "crypto_word \<Rightarrow> crypto_word \<Rightarrow> crypto_word \<Rightarrow> crypto_word" where
  "constant_time_select_w m a b = (value_barrier_w m AND a) OR (value_barrier_w (NOT m) AND b)"

definition constant_time_select_8 :: "u8 \<Rightarrow> u8 \<Rightarrow> u8 \<Rightarrow> u8" where
  "constant_time_select_8 m a b = ucast (constant_time_select_w (ucast m) (ucast a) (ucast b))"

section \<open>What they compute\<close>

text \<open>The mask of a condition.\<close>

definition ct_mask :: "bool \<Rightarrow> 'a::len word" where
  "ct_mask c = (if c then -1 else 0)"

lemma ucast_ct_mask [simp]: "(ucast (ct_mask c :: crypto_word) :: u8) = ct_mask c"
proof -
  have "(ucast (-1 :: crypto_word) :: u8) = -1" by (rule bit_word_eqI) (simp add: bit_simps)
  then show ?thesis by (simp add: ct_mask_def)
qed

lemma not_ct_mask [simp]: "NOT (ct_mask c) = ct_mask (\<not> c)"
  by (simp add: ct_mask_def)

lemma bit_63_iff: "bit (a::crypto_word) 63 \<longleftrightarrow> 2 ^ 63 \<le> unat a"
proof -
  have "bit a 63 = bit (unat a) 63" by (simp add: bit_unsigned_iff)
  then have "bit a 63 \<longleftrightarrow> odd (unat a div 2 ^ 63)" by (simp only: bit_iff_odd)
  moreover have "unat a div 2 ^ 63 < 2" using unat_u64_less [of a] by (simp add: div_less_iff_less_mult)
  moreover have "unat a div 2 ^ 63 = 0 \<longleftrightarrow> unat a < 2 ^ 63" by (simp add: div_eq_0_iff)
  ultimately show ?thesis
    by (metis One_nat_def even_zero less_2_cases linorder_not_less odd_one)
qed

lemma msb_w_mask: "constant_time_msb_w a = ct_mask (bit a 63)"
proof -
  have "bit (drop_bit 63 a) n \<longleftrightarrow> bit (of_bool (bit a 63) :: crypto_word) n" for n
    using bit_imp_le_length [of a "63 + n"] by (cases n) (auto simp: bit_simps)
  then have "drop_bit 63 a = of_bool (bit a 63)" by (intro bit_word_eqI) simp
  then show ?thesis by (simp add: constant_time_msb_w_def ct_mask_def)
qed

lemma unat_minus: "unat (a - b :: crypto_word) = (if unat b \<le> unat a then unat a - unat b else 2 ^ 64 + unat a - unat b)"
proof -
  have "2 ^ LENGTH(64) + unat a = unat a + 2 ^ LENGTH(64)" by (rule add.commute)
  moreover have "LENGTH(64) = 64" by simp
  ultimately show ?thesis using unat_sub_if' [of a b] by presburger
qed

lemma bit_minus_63:
  assumes "bit a 63 = bit (b::crypto_word) 63"
  shows "bit (a - b) 63 \<longleftrightarrow> a < b"
proof -
  have "2 ^ 63 \<le> (if x \<le> y then y - x else 2 ^ 64 + y - x) \<longleftrightarrow> y < x"
    if "2 ^ 63 \<le> y \<longleftrightarrow> 2 ^ 63 \<le> x" "x < 2 ^ 64" "y < 2 ^ 64" for x y :: nat
    using that by (cases "x \<le> y"; cases "2 ^ 63 \<le> x") simp_all
  from this [of "unat a" "unat b"] show ?thesis
    using assms unat_u64_less [of a] unat_u64_less [of b]
    unfolding bit_63_iff unat_minus word_less_nat_alt by simp
qed

lemma lt_w_mask: "constant_time_lt_w a b = ct_mask (a < b)"
proof -
  have "bit (a XOR ((a XOR b) OR ((a - b) XOR a))) 63 \<longleftrightarrow>
      (if bit a 63 = bit b 63 then bit (a - b) 63 else bit b 63)"
    by (auto simp: bit_simps)
  also have "\<dots> \<longleftrightarrow> a < b"
  proof (cases "bit a 63 = bit b 63")
    case False
    then show ?thesis unfolding bit_63_iff word_less_nat_alt by auto
  qed (simp add: bit_minus_63)
  finally show ?thesis by (simp add: constant_time_lt_w_def msb_w_mask)
qed

lemma is_zero_w_mask: "constant_time_is_zero_w a = ct_mask (a = 0)"
proof -
  have "bit (NOT a AND (a - 1)) 63 \<longleftrightarrow> \<not> bit a 63 \<and> bit (a - 1) 63" by (simp add: bit_simps)
  also have "\<dots> \<longleftrightarrow> a = 0"
    unfolding bit_63_iff unat_minus by (auto simp: unat_eq_0 [symmetric] Suc_le_eq)
  finally show ?thesis by (simp add: constant_time_is_zero_w_def msb_w_mask)
qed

lemma eq_w_mask: "constant_time_eq_w a b = ct_mask (a = b)"
proof -
  have "a = b" if "a XOR b = 0"
  proof (rule bit_word_eqI)
    fix n
    have "bit (a XOR b) n = bit (0 :: crypto_word) n" unfolding that ..
    then show "bit a n = bit b n" by (simp add: bit_xor_iff)
  qed
  then have "a XOR b = 0 \<longleftrightarrow> a = b" by auto
  then show ?thesis by (simp add: constant_time_eq_w_def is_zero_w_mask)
qed

lemma ct_masks:
  "constant_time_lt_8 a b = ct_mask (a < b)"
  "constant_time_ge_w a b = ct_mask (b \<le> a)"
  "constant_time_ge_8 a b = ct_mask (b \<le> a)"
  "constant_time_is_zero_8 a = ct_mask (a = 0)"
  "constant_time_eq_8 a b = ct_mask (a = b)"
  by (simp_all add: constant_time_lt_8_def constant_time_ge_w_def constant_time_ge_8_def
      constant_time_is_zero_8_def constant_time_eq_8_def lt_w_mask is_zero_w_mask eq_w_mask not_less)

lemma ct_eq_int_masks:
  "constant_time_eq_int a b = ct_mask (a = b)" "constant_time_eq_int_8 a b = ct_mask (a = b)"
proof -
  have "inj (scast :: 32 word \<Rightarrow> crypto_word)"
    by (rule inj_on_inverseI [of _ scast]) (rule scast_up_scast_id, simp add: is_up)
  then have "scast a = (scast b :: crypto_word) \<longleftrightarrow> a = b" by (rule inj_eq)
  then show "constant_time_eq_int a b = ct_mask (a = b)" "constant_time_eq_int_8 a b = ct_mask (a = b)"
    by (simp_all add: constant_time_eq_int_def constant_time_eq_int_8_def eq_w_mask ct_masks)
qed

lemma select_w_mask: "constant_time_select_w (ct_mask c) a b = (if c then a else b)"
  by (simp add: constant_time_select_w_def value_barrier_w_def ct_mask_def)

lemma select_8_mask: "constant_time_select_8 (ct_mask c) a b = (if c then a else b)"
proof -
  have "bit (constant_time_select_8 (ct_mask c) a b) n \<longleftrightarrow> bit (if c then a else b) n" if "n < 8" for n
    using that by (simp add: constant_time_select_8_def constant_time_select_w_def value_barrier_w_def ct_mask_def bit_simps)
  then show ?thesis by (intro bit_word_eqI) simp
qed

end
