(* ===== verification/Base64.thy ===== *)
theory Base64
  imports Constant_Time Mem
begin

text \<open>
  \<^verbatim>\<open>crypto/base64/base64.c\<close>: the definitions. The output of a call is the list of the bytes it
  stores from \<open>out\<close> (\<open>dst\<close>) on, terminator included.
\<close>

section \<open>Character conversion\<close>

definition constant_time_lt_args_8 :: "u8 \<Rightarrow> u8 \<Rightarrow> u8" where
  "constant_time_lt_args_8 a b =
     (let aw = ucast a :: crypto_word; bw = ucast b in ucast (constant_time_msb_w (aw - bw)))"

definition constant_time_in_range_8 :: "u8 \<Rightarrow> u8 \<Rightarrow> u8 \<Rightarrow> u8" where
  "constant_time_in_range_8 a lo hi = constant_time_lt_args_8 (a - lo) (hi - lo + 1)"

definition conv_bin2ascii :: "u8 \<Rightarrow> u8" where
  "conv_bin2ascii a0 =
     (let a = a0 AND 0x3f;
          ret = constant_time_select_8 (constant_time_eq_8 (ucast a) 62) 43 47;
          ret = constant_time_select_8 (constant_time_lt_args_8 a 62) (a - 52 + 48) ret;
          ret = constant_time_select_8 (constant_time_lt_args_8 a 52) (a - 26 + 97) ret
      in constant_time_select_8 (constant_time_lt_args_8 a 26) (a + 65) ret)"

definition base64_ascii_to_bin :: "u8 \<Rightarrow> u8" where
  "base64_ascii_to_bin a =
     (let is_upper = constant_time_in_range_8 a 65 90;
          is_lower = constant_time_in_range_8 a 97 122;
          is_digit = constant_time_in_range_8 a 48 57;
          is_plus = constant_time_eq_8 (ucast a) 43;
          is_slash = constant_time_eq_8 (ucast a) 47;
          is_equals = constant_time_eq_8 (ucast a) 61;
          ret = 0xff;
          ret = constant_time_select_8 is_upper (a - 65) ret;
          ret = constant_time_select_8 is_lower (a - 97 + 26) ret;
          ret = constant_time_select_8 is_digit (a - 48 + 52) ret;
          ret = constant_time_select_8 is_plus 62 ret;
          ret = constant_time_select_8 is_slash 63 ret
      in constant_time_select_8 is_equals 0 ret)"

section \<open>Encoding\<close>

text \<open>The \<open>data\<close> array has 48 bytes.\<close>

record evp_encode_ctx_st =
  e_used :: nat
  e_data :: "u8 list"
  e_eof :: bool
  e_error :: bool

definition EVP_EncodedLength :: "nat \<Rightarrow> nat option" where
  "EVP_EncodedLength len =
     (if (len + 2) mod SIZE_MOD < len then None
      else
        let len = (len + 2) mod SIZE_MOD div 3 in
        if (len * 4) mod SIZE_MOD div 4 \<noteq> len then None
        else
          let len = (len * 4) mod SIZE_MOD in
          if (len + 1) mod SIZE_MOD < len then None else Some ((len + 1) mod SIZE_MOD))"

definition EVP_EncodeInit :: evp_encode_ctx_st where
  "EVP_EncodeInit = \<lparr>e_used = 0, e_data = replicate 48 0, e_eof = False, e_error = False\<rparr>"

text \<open>The loop of \<open>EVP_EncodeBlock\<close>: the characters stored and \<open>ret\<close>.\<close>

fun encode_loop :: "u8 list \<Rightarrow> u8 list \<times> nat" where
  "encode_loop (s0 # s1 # s2 # src) =
     (let l = push_bit 16 (ucast s0) OR push_bit 8 (ucast s1) OR ucast s2 :: u32
      in case encode_loop src of
           (dst, ret) \<Rightarrow>
             (conv_bin2ascii (ucast (drop_bit 18 l)) # conv_bin2ascii (ucast (drop_bit 12 l)) #
              conv_bin2ascii (ucast (drop_bit 6 l)) # conv_bin2ascii (ucast l) # dst, ret + 4))"
| "encode_loop [] = ([], 0)"
| "encode_loop [s0] =
     (let l = push_bit 16 (ucast s0) :: u32
      in ([conv_bin2ascii (ucast (drop_bit 18 l)), conv_bin2ascii (ucast (drop_bit 12 l)), 61, 61], 4))"
| "encode_loop [s0, s1] =
     (let l = push_bit 16 (ucast s0) OR push_bit 8 (ucast s1) :: u32
      in ([conv_bin2ascii (ucast (drop_bit 18 l)), conv_bin2ascii (ucast (drop_bit 12 l)),
           conv_bin2ascii (ucast (drop_bit 6 l)), 61], 4))"

definition EVP_EncodeBlock :: "u8 list \<Rightarrow> nat \<Rightarrow> u8 list \<times> nat" where
  "EVP_EncodeBlock src src_len =
     (case encode_loop (take src_len src) of (dst, ret) \<Rightarrow> (dst @ [0], ret))"

text \<open>One line: the block, a newline; the terminator that follows is overwritten by the next.\<close>

definition encode_line :: "u8 list \<Rightarrow> nat \<Rightarrow> u8 list \<times> nat" where
  "encode_line src src_len =
     (case EVP_EncodeBlock src src_len of (blk, encoded) \<Rightarrow> (take encoded blk @ [10], encoded))"

text \<open>
  The loop of \<open>EVP_EncodeUpdate\<close>: the lines stored, \<open>total\<close> (\<open>None\<close> when it overflows) and
  the input left.
\<close>

function encode_lines :: "nat \<Rightarrow> u8 list \<Rightarrow> u8 list \<times> nat option \<times> u8 list" where
  "encode_lines tot inp =
     (if length inp < 48 then ([], Some tot, inp)
      else case encode_line inp 48 of
          (line, encoded) \<Rightarrow>
            if (tot + encoded + 1) mod SIZE_MOD < tot then (line, None, drop 48 inp)
            else case encode_lines ((tot + encoded + 1) mod SIZE_MOD) (drop 48 inp) of
                   (out, res) \<Rightarrow> (line @ out, res))"
  by pat_completeness auto
termination
  by (relation "measure (\<lambda>(tot, inp). length inp)") auto

declare encode_lines.simps [simp del]

definition put_at :: "nat \<Rightarrow> u8 list \<Rightarrow> u8 list \<Rightarrow> u8 list" where
  "put_at i bs xs = take i xs @ bs @ drop (i + length bs) xs"

text \<open>The stored bytes, \<open>*out_len\<close> and the context.\<close>

definition EVP_EncodeUpdate ::
    "evp_encode_ctx_st \<Rightarrow> u8 list \<Rightarrow> nat \<Rightarrow> u8 list \<times> nat \<times> evp_encode_ctx_st" where
  "EVP_EncodeUpdate ctx inp in_len =
     (if in_len = 0 then ([], 0, ctx)
      else if 48 - e_used ctx > in_len then
        ([], 0, ctx\<lparr>e_data := put_at (e_used ctx) (take in_len inp) (e_data ctx), e_used := e_used ctx + in_len\<rparr>)
      else
        case (if e_used ctx \<noteq> 0 then
                (let todo = 48 - e_used ctx;
                     data = put_at (e_used ctx) (take todo inp) (e_data ctx)
                 in case encode_line data 48 of
                      (line, encoded) \<Rightarrow>
                        (line, encoded + 1, drop todo (take in_len inp), ctx\<lparr>e_data := data, e_used := 0\<rparr>))
              else ([], 0, take in_len inp, ctx)) of
          (out1, tot, inp1, ctx1) \<Rightarrow>
            (case encode_lines tot inp1 of
               (out2, None, _) \<Rightarrow> (out1 @ out2 @ [0], 0, ctx1)
             | (out2, Some tot, rest) \<Rightarrow>
                 (out1 @ out2 @ [0], (if tot > INT_MAX then 0 else tot),
                  ctx1\<lparr>e_data := put_at 0 rest (e_data ctx1), e_used := length rest\<rparr>)))"

definition EVP_EncodeFinal :: "evp_encode_ctx_st \<Rightarrow> u8 list \<times> nat \<times> evp_encode_ctx_st" where
  "EVP_EncodeFinal ctx =
     (if e_used ctx = 0 then ([], 0, ctx)
      else case encode_line (e_data ctx) (e_used ctx) of
             (line, encoded) \<Rightarrow> (line @ [0], encoded + 1, ctx\<lparr>e_used := 0\<rparr>))"

section \<open>Decoding\<close>

definition EVP_DecodedLength :: "nat \<Rightarrow> nat option" where
  "EVP_DecodedLength len = (if len mod 4 \<noteq> 0 then None else Some (len div 4 * 3))"

definition EVP_DecodeInit :: evp_encode_ctx_st where
  "EVP_DecodeInit = \<lparr>e_used = 0, e_data = replicate 48 0, e_eof = False, e_error = False\<rparr>"

text \<open>The bytes of a quad; their number is \<open>*out_num_bytes\<close>.\<close>

definition base64_decode_quad :: "u8 \<Rightarrow> u8 \<Rightarrow> u8 \<Rightarrow> u8 \<Rightarrow> u8 list option" where
  "base64_decode_quad in0 in1 in2 in3 =
     (let a = base64_ascii_to_bin in0; b = base64_ascii_to_bin in1;
          c = base64_ascii_to_bin in2; d = base64_ascii_to_bin in3
      in if a = 0xff \<or> b = 0xff \<or> c = 0xff \<or> d = 0xff then None
         else
           let v = push_bit 18 (ucast a) OR push_bit 12 (ucast b) OR push_bit 6 (ucast c) OR ucast d :: u32;
               padding_pattern = push_bit 3 (of_bool (in0 = 61)) OR push_bit 2 (of_bool (in1 = 61)) OR
                 push_bit 1 (of_bool (in2 = 61)) OR of_bool (in3 = 61) :: u32
           in if padding_pattern = 0 then Some [ucast (drop_bit 16 v), ucast (drop_bit 8 v), ucast v]
              else if padding_pattern = 1 then Some [ucast (drop_bit 16 v), ucast (drop_bit 8 v)]
              else if padding_pattern = 3 then Some [ucast (drop_bit 16 v)]
              else None)"

text \<open>
  The loop of \<open>EVP_DecodeUpdate\<close>: the bytes stored, whether the loop ran to its end, and the
  context.
\<close>

fun decode_loop :: "evp_encode_ctx_st \<Rightarrow> u8 list \<Rightarrow> u8 list \<times> bool \<times> evp_encode_ctx_st" where
  "decode_loop ctx [] = ([], True, ctx)"
| "decode_loop ctx (c # inp) =
     (if c = 32 \<or> c = 9 \<or> c = 13 \<or> c = 10 then decode_loop ctx inp
      else if e_eof ctx then ([], False, ctx\<lparr>e_error := True\<rparr>)
      else
        let ctx1 = ctx\<lparr>e_data := (e_data ctx)[e_used ctx := c], e_used := e_used ctx + 1\<rparr>; d = e_data ctx1 in
        if e_used ctx1 = 4 then
          (case base64_decode_quad (d ! 0) (d ! 1) (d ! 2) (d ! 3) of
             None \<Rightarrow> ([], False, ctx1\<lparr>e_error := True\<rparr>)
           | Some bs \<Rightarrow>
               (case decode_loop (ctx1\<lparr>e_used := 0, e_eof := e_eof ctx1 \<or> length bs < 3\<rparr>) inp of
                  (out, res) \<Rightarrow> (bs @ out, res)))
        else decode_loop ctx1 inp)"

text \<open>The returned \<open>int\<close>, the stored bytes, \<open>*out_len\<close> and the context.\<close>

definition EVP_DecodeUpdate ::
    "evp_encode_ctx_st \<Rightarrow> u8 list \<Rightarrow> nat \<Rightarrow> int \<times> u8 list \<times> nat \<times> evp_encode_ctx_st" where
  "EVP_DecodeUpdate ctx inp in_len =
     (if e_error ctx then (-1, [], 0, ctx)
      else case decode_loop ctx (take in_len inp) of
             (out, ok, ctx1) \<Rightarrow>
               if \<not> ok then (-1, out, 0, ctx1)
               else if length out > INT_MAX then (-1, out, 0, ctx1\<lparr>e_error := True\<rparr>)
               else (if e_eof ctx1 then 0 else 1, out, length out, ctx1))"

definition EVP_DecodeFinal :: "evp_encode_ctx_st \<Rightarrow> int" where
  "EVP_DecodeFinal ctx = (if e_error ctx \<or> e_used ctx \<noteq> 0 then -1 else 1)"

text \<open>The loop of \<open>EVP_DecodeBase64\<close>: whether it ran to its end, and the bytes stored.\<close>

fun decode_quads :: "u8 list \<Rightarrow> bool \<times> u8 list" where
  "decode_quads (a # b # c # d # rest) =
     (case base64_decode_quad a b c d of
        None \<Rightarrow> (False, [])
      | Some bs \<Rightarrow>
          if length bs \<noteq> 3 \<and> rest \<noteq> [] then (False, bs)
          else case decode_quads rest of (ok, out) \<Rightarrow> (ok, bs @ out))"
| "decode_quads [] = (True, [])"
| "decode_quads _ = (False, [])"

text \<open>The result is 1 or 0, with the bytes stored; on success they are \<open>*out_len\<close> many.\<close>

definition EVP_DecodeBase64 :: "nat \<Rightarrow> u8 list \<Rightarrow> nat \<Rightarrow> bool \<times> u8 list" where
  "EVP_DecodeBase64 max_out inp in_len =
     (if in_len mod 4 \<noteq> 0 then (False, [])
      else case EVP_DecodedLength in_len of
             None \<Rightarrow> (False, [])
           | Some max_len \<Rightarrow>
               if max_out < max_len then (False, []) else decode_quads (take in_len inp))"

text \<open>The final loop of \<open>EVP_DecodeBlock\<close>.\<close>

function pad_block :: "u8 list \<Rightarrow> u8 list" where
  "pad_block dst = (if length dst mod 3 \<noteq> 0 then pad_block (dst @ [0]) else dst)"
  by pat_completeness auto
termination
proof (relation "measure (\<lambda>dst. (3 - length dst mod 3) mod 3)")
  fix dst :: "u8 list"
  assume "length dst mod 3 \<noteq> 0"
  then show "(dst @ [0], dst) \<in> measure (\<lambda>dst. (3 - length dst mod 3) mod 3)"
    by (simp add: mod_Suc) presburger
qed simp

declare pad_block.simps [simp del]

definition EVP_DecodeBlock :: "u8 list \<Rightarrow> nat \<Rightarrow> int \<times> u8 list" where
  "EVP_DecodeBlock src src_len =
     (let s1 = dropWhile (\<lambda>c. c = 32 \<or> c = 9) (take src_len src);
          s2 = rev (dropWhile (\<lambda>c. c = 32 \<or> c = 9 \<or> c = 13 \<or> c = 10) (rev s1))
      in case EVP_DecodedLength (length s2) of
           None \<Rightarrow> (-1, [])
         | Some dst_len \<Rightarrow>
             if dst_len > INT_MAX then (-1, [])
             else case EVP_DecodeBase64 dst_len s2 (length s2) of
                    (ok, dst) \<Rightarrow>
                      if \<not> ok then (-1, dst) else (int (length (pad_block dst)), pad_block dst))"

end
