(* ===== verification/Base64_Chars.thy ===== *)
theory Base64_Chars
  imports Base64
begin

text \<open>
  The alphabet: the branch-free conversions of \<^verbatim>\<open>base64.c\<close> are the table of the 64 characters
  and its inverse; then a group of three bytes against its four characters.
\<close>

section \<open>Masks\<close>

lemma lt_args_mask: "constant_time_lt_args_8 a b = ct_mask (a < b)"
proof -
  have small: "\<not> bit (ucast (c::u8) :: crypto_word) 63" for c
  proof -
    have "unat c < 2 ^ 63" using unat_u8_less [of c] by (rule less_trans) simp
    then show ?thesis unfolding bit_63_iff unat_ucast_u8_u64 by linarith
  qed
  then have "bit (ucast a - ucast b :: crypto_word) 63 \<longleftrightarrow> (ucast a :: crypto_word) < ucast b"
    using bit_minus_63 [of "ucast a" "ucast b"] by simp
  also have "\<dots> \<longleftrightarrow> a < b" by (simp add: word_less_nat_alt)
  finally show ?thesis by (simp add: constant_time_lt_args_8_def msb_w_mask Let_def)
qed

lemma eq_8_mask: "constant_time_eq_8 (ucast (a::u8)) (ucast b) = ct_mask (a = b)"
proof -
  have "(ucast a :: crypto_word) = ucast b \<longleftrightarrow> a = b"
    by (metis unat_ucast_u8_u64 word_nat_eqI)
  then show ?thesis by (simp add: ct_masks)
qed

lemma unat_u8_minus: "unat (a - b :: u8) = (if unat b \<le> unat a then unat a - unat b else 256 + unat a - unat b)"
proof -
  have "2 ^ LENGTH(8) = (256::nat)" by simp
  then show ?thesis using unat_sub_if' [of a b] by (simp only: add.commute)
qed

lemma in_range_mask:
  assumes "lo \<le> hi" "unat hi - unat lo < 255"
  shows "constant_time_in_range_8 a lo hi = ct_mask (lo \<le> a \<and> a \<le> hi)"
proof -
  have "unat (hi - lo) = unat hi - unat lo"
    using assms(1) by (simp add: unat_u8_minus word_le_nat_alt)
  then have "unat (hi - lo + 1) = unat hi - unat lo + 1"
    using assms(2) by (simp add: unat_word_ariths)
  moreover have "(if y \<le> x then x - y else 256 + x - y) < h - y + 1 \<longleftrightarrow> y \<le> x \<and> x \<le> h"
    if "y \<le> h" "h < 256" for x y h :: nat
    using that by auto
  ultimately have "a - lo < hi - lo + 1 \<longleftrightarrow> lo \<le> a \<and> a \<le> hi"
    using assms(1) unat_u8_less [of hi] unfolding word_less_nat_alt word_le_nat_alt unat_u8_minus by presburger
  then show ?thesis by (simp add: constant_time_in_range_8_def lt_args_mask)
qed

section \<open>The alphabet\<close>

definition b64_char :: "nat \<Rightarrow> u8" where
  "b64_char n =
     (if n < 26 then word_of_nat (65 + n)
      else if n < 52 then word_of_nat (71 + n)
      else if n < 62 then word_of_nat (n - 4)
      else if n = 62 then 43 else 47)"

definition b64_val :: "u8 \<Rightarrow> nat option" where
  "b64_val c =
     (if 65 \<le> c \<and> c \<le> 90 then Some (unat c - 65)
      else if 97 \<le> c \<and> c \<le> 122 then Some (unat c - 71)
      else if 48 \<le> c \<and> c \<le> 57 then Some (unat c + 4)
      else if c = 43 then Some 62
      else if c = 47 then Some 63
      else None)"

lemma unat_b64_char:
  "n < 64 \<Longrightarrow> unat (b64_char n) =
     (if n < 26 then 65 + n else if n < 52 then 71 + n else if n < 62 then n - 4 else if n = 62 then 43 else 47)"
  unfolding b64_char_def by (simp add: unat_of_nat_u8_small del: of_nat_add of_nat_diff)

lemma b64_val_unat:
  "b64_val c =
     (if 65 \<le> unat c \<and> unat c \<le> 90 then Some (unat c - 65)
      else if 97 \<le> unat c \<and> unat c \<le> 122 then Some (unat c - 71)
      else if 48 \<le> unat c \<and> unat c \<le> 57 then Some (unat c + 4)
      else if unat c = 43 then Some 62
      else if unat c = 47 then Some 63
      else None)"
  by (simp add: b64_val_def word_le_nat_alt word_unat_eq_iff)

lemma b64_val_char: "n < 64 \<Longrightarrow> b64_val (b64_char n) = Some n"
  by (auto simp: b64_val_unat unat_b64_char)

lemma b64_char_val: "b64_val c = Some n \<Longrightarrow> n < 64 \<and> c = b64_char n"
proof -
  assume a: "b64_val c = Some n"
  then have n: "n < 64" by (auto simp: b64_val_unat split: if_splits)
  have "unat c = unat (b64_char n)"
    using a by (auto simp: b64_val_unat unat_b64_char [OF n] split: if_splits)
  with n show ?thesis by (simp add: word_nat_eqI)
qed

lemma b64_val_iff: "b64_val c = Some n \<longleftrightarrow> n < 64 \<and> c = b64_char n"
  using b64_val_char b64_char_val by blast

lemma ucast_u8_eq: "(ucast (a::u8) :: crypto_word) = 62 \<longleftrightarrow> unat a = 62"
  "(ucast a :: crypto_word) = 43 \<longleftrightarrow> unat a = 43" "(ucast a :: crypto_word) = 47 \<longleftrightarrow> unat a = 47"
  "(ucast a :: crypto_word) = 61 \<longleftrightarrow> unat a = 61"
  by (simp_all add: word_unat_eq_iff)

lemma conv_bin2ascii_char: "conv_bin2ascii a = b64_char (unat a mod 64)"
proof -
  define n where "n = unat a mod 64"
  have n: "n < 64" by (simp add: n_def)
  have "unat (a AND 0x3f) = n" using unat_and_mask [of a 6] by (simp add: n_def mask_eq_exp_minus_1)
  then have a: "a AND 0x3f = word_of_nat n" by (simp only: u8_of_unat)
  have u: "unat (word_of_nat n :: u8) = n" using n by (simp add: unat_of_nat_u8_small)
  have "n \<ge> 52 \<Longrightarrow> word_of_nat (n - 4) = (word_of_nat n - 52 + 48 :: u8)" by (simp add: of_nat_diff)
  then show ?thesis
    unfolding conv_bin2ascii_def a Let_def
    by (auto simp: lt_args_mask ct_masks select_8_mask ucast_u8_eq word_less_nat_alt u b64_char_def
        n_def [symmetric])
qed

lemma ascii_to_bin_val:
  "base64_ascii_to_bin c =
     (if c = 61 then 0 else case b64_val c of None \<Rightarrow> 0xff | Some n \<Rightarrow> word_of_nat n)"
proof -
  show ?thesis
    unfolding base64_ascii_to_bin_def Let_def
    by (auto simp: in_range_mask ct_masks select_8_mask ucast_u8_eq b64_val_unat word_le_nat_alt word_unat_eq_iff) (simp add: add.commute)
qed

section \<open>Groups of bits\<close>

lemma append_mod: "y < p \<Longrightarrow> (x * p + y) mod (p * q) = x mod q * p + (y::nat)"
  using mod_mult2_eq [of "x * p + y" p q] by simp

lemma append_div: "0 < m \<Longrightarrow> (x * (k * m) + y) div m = x * k + y div (m::nat)"
  by (simp add: mult.assoc [symmetric])

lemma unat_or3:
  fixes x y z :: u32
  assumes "unat x < 256" "unat y < 2 ^ j" "unat z < 2 ^ k" "j + k < 20"
  shows "unat (push_bit (j + k) x OR push_bit k y OR z) = (unat x * 2 ^ j + unat y) * 2 ^ k + unat z"
proof -
  have e: "push_bit (j + k) x OR push_bit k y = push_bit k (push_bit j x OR y)"
    by (simp add: push_bit_or add.commute)
  have "unat x * 2 ^ j + unat y < 256 * 2 ^ j"
  proof -
    have "unat x * 2 ^ j + unat y < (unat x + 1) * 2 ^ j" using assms(2) by simp
    also have "\<dots> \<le> 256 * 2 ^ j" using assms(1) by (intro mult_right_mono) simp_all
    finally show ?thesis .
  qed
  then have "(unat x * 2 ^ j + unat y) * 2 ^ k < 256 * 2 ^ j * 2 ^ k" by simp
  also have "256 * 2 ^ j * 2 ^ k = (2::nat) ^ (8 + j + k)" by (simp add: power_add)
  also have "(2::nat) ^ (8 + j + k) \<le> 2 ^ 32" using assms(4) by (intro power_increasing) simp_all
  finally have top: "(unat x * 2 ^ j + unat y) * 2 ^ k < 2 ^ LENGTH(32)" by simp
  have "unat x * 2 ^ j \<le> (unat x * 2 ^ j + unat y) * 2 ^ k" by (rule le_trans [of _ "unat x * 2 ^ j + unat y"]) simp_all
  then have eq: "unat (push_bit j x OR y) = unat x * 2 ^ j + unat y"
    using top assms(2) by (intro unat_push_or) linarith+
  have "unat (push_bit j x OR y) * 2 ^ k < 2 ^ LENGTH(32)" unfolding eq by (rule top)
  from unat_push_or [OF this assms(3)] show ?thesis by (simp only: or.assoc [symmetric] e eq)
qed

text \<open>The three bytes of a group in the accumulator.\<close>

lemma unat_u8_u32: "unat (ucast (b::u8) :: u32) = unat b"
proof -
  have "unat b < 4294967296" using unat_u8_less [of b] by linarith
  then show ?thesis by (simp add: unsigned_ucast_eq take_bit_eq_mod)
qed

definition group_val :: "u8 \<Rightarrow> u8 \<Rightarrow> u8 \<Rightarrow> nat" where
  "group_val a b c = (unat a * 256 + unat b) * 256 + unat c"

lemma unat_group: "unat (push_bit 16 (ucast a) OR push_bit 8 (ucast b) OR ucast c :: u32) = group_val a b c"
  using unat_or3 [of "ucast a" "ucast b" 8 "ucast c" 8] unat_u8_less [of a] unat_u8_less [of b] unat_u8_less [of c]
  by (simp add: unat_u8_u32 group_val_def)

lemma group_digits:
  "group_val a b c div 2 ^ 18 mod 64 = unat a div 4"
  "group_val a b c div 2 ^ 12 mod 64 = unat a mod 4 * 16 + unat b div 16"
  "group_val a b c div 2 ^ 6 mod 64 = unat b mod 16 * 4 + unat c div 64"
  "group_val a b c mod 64 = unat c mod 64"
proof -
  let ?a = "unat a" and ?b = "unat b" and ?c = "unat c"
  have lt: "?a < 256" "?b < 256" "?c < 256" by simp_all
  have "(n * 256 + ?c) div 256 = n" for n using lt(3) by simp
  then have d8: "group_val a b c div 256 = ?a * 256 + ?b" unfolding group_val_def .
  have "group_val a b c div 2 ^ 18 = (?a * 256 + ?b) div 1024"
    using div_mult2_eq [of "group_val a b c" 256 1024] by (simp add: d8)
  also have "\<dots> = ?a div 4" using div_mult2_eq [of "?a * 256 + ?b" 256 4] by simp
  finally show "group_val a b c div 2 ^ 18 mod 64 = ?a div 4"
    using lt(1) by (simp add: div_less_iff_less_mult)
  have "group_val a b c div 2 ^ 12 = (?a * 256 + ?b) div 16"
    using div_mult2_eq [of "group_val a b c" 256 16] by (simp add: d8)
  also have "\<dots> = ?a * 16 + ?b div 16" using append_div [of 16 ?a 16 ?b] by simp
  finally show "group_val a b c div 2 ^ 12 mod 64 = ?a mod 4 * 16 + ?b div 16"
    using append_mod [of "?b div 16" 16 ?a 4] lt(2) by (simp add: div_less_iff_less_mult)
  have "group_val a b c div 2 ^ 6 = (?a * 256 + ?b) * 4 + ?c div 64"
    using append_div [of 64 "?a * 256 + ?b" 4 ?c] by (simp add: group_val_def)
  moreover have "(?a * 256 + ?b) mod 16 = ?b mod 16" by (simp add: mod_add_eq [symmetric])
  ultimately show "group_val a b c div 2 ^ 6 mod 64 = ?b mod 16 * 4 + ?c div 64"
    using append_mod [of "?c div 64" 4 "?a * 256 + ?b" 16] lt(3) by (simp add: div_less_iff_less_mult)
  show "group_val a b c mod 64 = ?c mod 64"
    using mod_mult_self3 [of "(?a * 256 + ?b) * 4" 64 ?c] by (simp add: group_val_def algebra_simps)
qed

lemma conv_group:
  "conv_bin2ascii (ucast (drop_bit k (l::u32))) = b64_char (unat l div 2 ^ k mod 64)"
  "conv_bin2ascii (ucast l) = b64_char (unat l mod 64)"
proof -
  have m: "n mod 256 mod 64 = n mod (64::nat)" for n
    using mod_mod_cancel [of 64 256 n] by simp
  have u: "unat (ucast w :: u8) mod 64 = unat w mod 64" for w :: u32
    by (simp add: unsigned_ucast_eq take_bit_eq_mod m)
  show "conv_bin2ascii (ucast (drop_bit k l)) = b64_char (unat l div 2 ^ k mod 64)"
    unfolding conv_bin2ascii_char u unat_drop_bit ..
  show "conv_bin2ascii (ucast l) = b64_char (unat l mod 64)"
    unfolding conv_bin2ascii_char u ..
qed

end
