(* ===== verification/Base64_Encode.thy ===== *)
theory Base64_Encode
  imports Base64_Chars
begin

text \<open>
  The encoder of \<^verbatim>\<open>base64.c\<close>: one block, and the incremental interface, which gives the same
  lines whatever pieces the input comes in. What an incremental interface promises is a
  locale.
\<close>

section \<open>One block\<close>

fun b64 :: "u8 list \<Rightarrow> u8 list" where
  "b64 (a # b # c # r) =
     b64_char (unat a div 4) # b64_char (unat a mod 4 * 16 + unat b div 16) #
     b64_char (unat b mod 16 * 4 + unat c div 64) # b64_char (unat c mod 64) # b64 r"
| "b64 [] = []"
| "b64 [a] = [b64_char (unat a div 4), b64_char (unat a mod 4 * 16), 61, 61]"
| "b64 [a, b] =
     [b64_char (unat a div 4), b64_char (unat a mod 4 * 16 + unat b div 16), b64_char (unat b mod 16 * 4), 61]"

lemma length_b64: "length (b64 xs) = (length xs + 2) div 3 * 4"
proof (induction xs rule: b64.induct)
  case (1 a b c r)
  have "(length (a # b # c # r) + 2) div 3 = Suc ((length r + 2) div 3)" by simp
  then show ?case using 1 by simp
qed simp_all

lemma conv_digits:
  assumes "unat (l::u32) = group_val a b c"
  shows "conv_bin2ascii (ucast (drop_bit 18 l)) = b64_char (unat a div 4)"
    "conv_bin2ascii (ucast (drop_bit 12 l)) = b64_char (unat a mod 4 * 16 + unat b div 16)"
    "conv_bin2ascii (ucast (drop_bit 6 l)) = b64_char (unat b mod 16 * 4 + unat c div 64)"
    "conv_bin2ascii (ucast l) = b64_char (unat c mod 64)"
  using conv_group(1) [of 18 l] conv_group(1) [of 12 l] conv_group(1) [of 6 l] conv_group(2) [of l]
  unfolding assms group_digits .

lemma group_short:
  "unat (push_bit 16 (ucast a) :: u32) = group_val a 0 0"
  "unat (push_bit 16 (ucast a) OR push_bit 8 (ucast b) :: u32) = group_val a b 0"
  using unat_group [of a 0 0] unat_group [of a b 0] by simp_all

lemma encode_loop_eq: "encode_loop xs = (b64 xs, length (b64 xs))"
proof (induction xs rule: encode_loop.induct)
  case (1 a b c r)
  then show ?case
    by (simp only: encode_loop.simps Let_def conv_digits [OF unat_group] b64.simps prod.case length_Cons) simp
next
  case (3 a)
  show ?case
    by (simp only: encode_loop.simps Let_def conv_digits [OF group_short(1)] b64.simps) simp
next
  case (4 a b)
  show ?case
    by (simp only: encode_loop.simps Let_def conv_digits [OF group_short(2)] b64.simps) simp
qed simp

lemma EVP_EncodeBlock_eq: "EVP_EncodeBlock src n = (b64 (take n src) @ [0], length (b64 (take n src)))"
  by (simp add: EVP_EncodeBlock_def encode_loop_eq)

lemma encode_line_eq: "encode_line src n = (b64 (take n src) @ [10], length (b64 (take n src)))"
  by (simp add: encode_line_def EVP_EncodeBlock_eq)

text \<open>The length announced is that of the block and its terminator, and a refusal means overflow.\<close>

lemma EVP_EncodedLength_iff:
  assumes "len < SIZE_MOD"
  shows "EVP_EncodedLength len =
    (if (len + 2) div 3 * 4 + 1 < SIZE_MOD then Some ((len + 2) div 3 * 4 + 1) else None)"
proof (cases "len + 2 < SIZE_MOD")
  case False
  then have "(len + 2) mod SIZE_MOD < len" using size_add_overflow [of len 2] assms by (simp add: SIZE_MOD_def)
  moreover have "SIZE_MOD \<le> (len + 2) div 3 * 4 + 1"
  proof -
    have "SIZE_MOD div 3 \<le> (len + 2) div 3" using False by (intro div_le_mono) simp
    then show ?thesis by (simp add: SIZE_MOD_def)
  qed
  ultimately show ?thesis by (simp add: EVP_EncodedLength_def)
next
  case True
  define q where "q = (len + 2) div 3"
  have "EVP_EncodedLength len =
      (if (q * 4) mod SIZE_MOD div 4 \<noteq> q then None
       else if ((q * 4) mod SIZE_MOD + 1) mod SIZE_MOD < (q * 4) mod SIZE_MOD then None
       else Some (((q * 4) mod SIZE_MOD + 1) mod SIZE_MOD))"
    using True by (simp add: EVP_EncodedLength_def Let_def q_def)
  also have "\<dots> = (if q * 4 + 1 < SIZE_MOD then Some (q * 4 + 1) else None)"
  proof (cases "q * 4 < SIZE_MOD")
    case True
    moreover have "SIZE_MOD = 2 ^ 62 * 4" by (simp add: SIZE_MOD_def)
    ultimately have "q < 2 ^ 62" by simp
    then have "q * 4 + 1 < SIZE_MOD" by (simp add: SIZE_MOD_def)
    then show ?thesis by simp
  next
    case False
    have "(q * 4) mod SIZE_MOD < q * 4"
      using False by (metis SIZE_MOD_pos less_le_trans linorder_not_less mod_less_divisor)
    then have "(q * 4) mod SIZE_MOD div 4 < q" by (simp add: div_less_iff_less_mult)
    then show ?thesis using False by simp
  qed
  finally show ?thesis unfolding q_def .
qed

section \<open>The contract of an incremental interface\<close>

text \<open>
  A client of an incremental interface calls the update for each piece and the final call
  once. \<open>spec s xs\<close> is all the output still owed in state \<open>s\<close> when the rest of the input is
  \<open>xs\<close>.
\<close>

fun run_chunks :: "('s \<Rightarrow> 'a list \<Rightarrow> 'b list \<times> 's) \<Rightarrow> ('s \<Rightarrow> 'b list) \<Rightarrow> 's \<Rightarrow> 'a list list \<Rightarrow> 'b list" where
  "run_chunks update fin s [] = fin s"
| "run_chunks update fin s (c # cs) = (case update s c of (out, s') \<Rightarrow> out @ run_chunks update fin s' cs)"

locale incremental =
  fixes ok :: "'s \<Rightarrow> bool" and small :: "'a list \<Rightarrow> bool"
    and update :: "'s \<Rightarrow> 'a list \<Rightarrow> 'b list \<times> 's" and fin :: "'s \<Rightarrow> 'b list"
    and spec :: "'s \<Rightarrow> 'a list \<Rightarrow> 'b list"
  assumes update_spec: "ok s \<Longrightarrow> small xs \<Longrightarrow> update s xs = (out, s') \<Longrightarrow> ok s' \<and> spec s (xs @ ys) = out @ spec s' ys"
    and fin_spec: "ok s \<Longrightarrow> fin s = spec s []"
begin

lemma run_chunks_spec: "ok s \<Longrightarrow> list_all small cs \<Longrightarrow> run_chunks update fin s cs = spec s (concat cs)"
proof (induction cs arbitrary: s)
  case (Cons c cs)
  obtain out s' where u: "update s c = (out, s')" by (cases "update s c")
  have "ok s'" "spec s (c @ concat cs) = out @ spec s' (concat cs)"
    using update_spec [OF Cons.prems(1) _ u] Cons.prems(2) by auto
  then show ?case using Cons u by simp
qed (simp add: fin_spec)

lemma chunking_irrelevant:
  "ok s \<Longrightarrow> list_all small cs \<Longrightarrow> list_all small ds \<Longrightarrow> concat cs = concat ds \<Longrightarrow>
     run_chunks update fin s cs = run_chunks update fin s ds"
  by (simp add: run_chunks_spec)

end

section \<open>The incremental encoder\<close>

text \<open>Lines of 48 bytes, each followed by a newline; the last may be shorter.\<close>

function b64_lines :: "u8 list \<Rightarrow> u8 list" where
  "b64_lines xs = (if xs = [] then [] else b64 (take 48 xs) @ [10] @ b64_lines (drop 48 xs))"
  by pat_completeness auto
termination by (relation "measure length") auto

declare b64_lines.simps [simp del]

lemma b64_lines_Nil [simp]: "b64_lines [] = []"
  by (simp add: b64_lines.simps)

lemma b64_lines_step: "48 \<le> length xs \<Longrightarrow> b64_lines (xs @ ys) = b64 (take 48 xs) @ [10] @ b64_lines (drop 48 xs @ ys)"
  by (subst b64_lines.simps) auto

lemma encode_lines_eq:
  "tot + 65 * (length inp div 48) < SIZE_MOD \<Longrightarrow>
     \<exists>lines. encode_lines tot inp =
         (lines, Some (tot + 65 * (length inp div 48)), drop (48 * (length inp div 48)) inp) \<and>
       length lines = 65 * (length inp div 48) \<and>
       (\<forall>ys. b64_lines (inp @ ys) = lines @ b64_lines (drop (48 * (length inp div 48)) inp @ ys))"
proof (induction tot inp rule: encode_lines.induct)
  case (1 tot inp)
  show ?case
  proof (cases "length inp < 48")
    case True
    then show ?thesis by (simp add: encode_lines.simps)
  next
    case False
    have k: "length inp div 48 = Suc (length (drop 48 inp) div 48)" using False by (simp add: le_div_geq)
    have len: "length (b64 (take 48 inp)) = 64" using False by (simp add: length_b64)
    have "tot + 64 + 1 < SIZE_MOD" using 1(2) unfolding k by simp
    then have small: "(tot + 64 + 1) mod SIZE_MOD = tot + 65" by simp
    have ih_pre: "(tot + 64 + 1) mod SIZE_MOD + 65 * (length (drop 48 inp) div 48) < SIZE_MOD"
      using 1(2) unfolding k small by simp
    from 1(1) [OF False encode_line_eq [symmetric], unfolded len, OF _ ih_pre]
    obtain lines where ih: "encode_lines (tot + 65) (drop 48 inp) =
         (lines, Some (tot + 65 + 65 * (length (drop 48 inp) div 48)),
          drop (48 * (length (drop 48 inp) div 48)) (drop 48 inp))"
       "length lines = 65 * (length (drop 48 inp) div 48)"
       "\<And>ys. b64_lines (drop 48 inp @ ys) =
          lines @ b64_lines (drop (48 * (length (drop 48 inp) div 48)) (drop 48 inp) @ ys)"
      unfolding small by auto
    have d: "drop (48 * (length (drop 48 inp) div 48)) (drop 48 inp) = drop (48 * (length inp div 48)) inp"
      unfolding k by (simp add: add.commute)
    show ?thesis
    proof (intro exI conjI allI)
      show "encode_lines tot inp =
         ((b64 (take 48 inp) @ [10]) @ lines, Some (tot + 65 * (length inp div 48)), drop (48 * (length inp div 48)) inp)"
        using False ih(1) small unfolding d
        by (subst encode_lines.simps) (simp add: encode_line_eq len k del: length_drop)
      show "length ((b64 (take 48 inp) @ [10]) @ lines) = 65 * (length inp div 48)"
        unfolding k by (simp add: len ih(2) del: length_drop)
      show "b64_lines (inp @ ys) =
          ((b64 (take 48 inp) @ [10]) @ lines) @ b64_lines (drop (48 * (length inp div 48)) inp @ ys)" for ys
        using b64_lines_step [of inp ys] False ih(3) [of ys] unfolding d by simp
    qed
  qed
qed

definition enc_ok :: "evp_encode_ctx_st \<Rightarrow> bool" where
  "enc_ok ctx \<longleftrightarrow> e_used ctx < 48 \<and> length (e_data ctx) = 48"

text \<open>The bytes held back for the next line.\<close>

definition pending :: "evp_encode_ctx_st \<Rightarrow> u8 list" where
  "pending ctx = take (e_used ctx) (e_data ctx)"

text \<open>The bytes the client gets from a call: the first \<open>*out_len\<close> stored.\<close>

definition encode_update :: "evp_encode_ctx_st \<Rightarrow> u8 list \<Rightarrow> u8 list \<times> evp_encode_ctx_st" where
  "encode_update ctx inp = (case EVP_EncodeUpdate ctx inp (length inp) of (out, n, ctx') \<Rightarrow> (take n out, ctx'))"

definition encode_final :: "evp_encode_ctx_st \<Rightarrow> u8 list" where
  "encode_final ctx = (case EVP_EncodeFinal ctx of (out, n, _) \<Rightarrow> take n out)"

lemma put_at_pending:
  "i + length bs \<le> length d \<Longrightarrow> take (i + length bs) (put_at i bs d) = take i d @ bs"
  "i + length bs \<le> length d \<Longrightarrow> length (put_at i bs d) = length d"
  by (simp_all add: put_at_def)

text \<open>The part of \<open>EVP_EncodeUpdate\<close> after the first line, on the input \<open>inp\<close> left.\<close>

lemma encode_tail:
  assumes "length inp < 2 ^ 30" "length d = 48" "length out1 = tot" "tot \<le> 65"
  obtains lines rest where "encode_lines tot inp = (lines, Some (tot + length lines), rest)"
    "length rest < 48" "tot + length lines \<le> INT_MAX"
    "\<And>ys. b64_lines (inp @ ys) = lines @ b64_lines (take (length rest) (put_at 0 rest d) @ ys)"
    "length (put_at 0 rest d) = 48"
proof -
  have "length inp div 48 \<le> 2 ^ 30 div 48" using assms(1) by (intro div_le_mono) simp
  then have n: "65 * (length inp div 48) \<le> 1500000000" by simp
  then have "tot + 65 * (length inp div 48) < SIZE_MOD" using assms(4) by (simp add: SIZE_MOD_def)
  from encode_lines_eq [OF this] obtain lines where l:
    "encode_lines tot inp =
         (lines, Some (tot + 65 * (length inp div 48)), drop (48 * (length inp div 48)) inp)"
    "length lines = 65 * (length inp div 48)"
    "\<And>ys. b64_lines (inp @ ys) = lines @ b64_lines (drop (48 * (length inp div 48)) inp @ ys)" by auto
  define rest where "rest = drop (48 * (length inp div 48)) inp"
  have r: "length rest < 48" by (simp add: rest_def minus_mult_div_eq_mod)
  show thesis
  proof (rule that)
    show "encode_lines tot inp = (lines, Some (tot + length lines), rest)" using l(1,2) by (simp add: rest_def)
    show "length rest < 48" by (rule r)
    show "tot + length lines \<le> INT_MAX" using n assms(4) by (simp add: l(2) INT_MAX_def)
    show "b64_lines (inp @ ys) = lines @ b64_lines (take (length rest) (put_at 0 rest d) @ ys)" for ys
      using l(3) put_at_pending(1) [of 0 rest d] r assms(2) by (simp add: rest_def)
    show "length (put_at 0 rest d) = 48"
      using put_at_pending(2) [of 0 rest d] r assms(2) by simp
  qed
qed

lemma encode_update_spec:
  assumes ok: "enc_ok ctx" and small: "length xs < 2 ^ 30" and u: "encode_update ctx xs = (out, ctx')"
  shows "enc_ok ctx' \<and> b64_lines (pending ctx @ xs @ ys) = out @ b64_lines (pending ctx' @ ys)"
proof -
  have e: "e_used ctx < 48" "length (e_data ctx) = 48" using ok by (simp_all add: enc_ok_def)
  consider (none) "xs = []" | (short) "xs \<noteq> []" "length xs < 48 - e_used ctx"
    | (first) "e_used ctx \<noteq> 0" "48 - e_used ctx \<le> length xs" | (direct) "e_used ctx = 0" "48 \<le> length xs"
    by fastforce
  then show ?thesis
  proof cases
    case none
    then show ?thesis using u ok by (simp add: encode_update_def EVP_EncodeUpdate_def)
  next
    case short
    then have "out = []" "ctx' = ctx\<lparr>e_data := put_at (e_used ctx) xs (e_data ctx), e_used := e_used ctx + length xs\<rparr>"
      using u by (simp_all add: encode_update_def EVP_EncodeUpdate_def)
    then show ?thesis
      using put_at_pending [of "e_used ctx" xs "e_data ctx"] short e by (simp add: enc_ok_def pending_def)
  next
    case first
    define todo where "todo = 48 - e_used ctx"
    define d where "d = put_at (e_used ctx) (take todo xs) (e_data ctx)"
    have n: "e_used ctx + length (take todo xs) = 48" using first e by (simp add: todo_def)
    have d: "take 48 d = pending ctx @ take todo xs" "length d = 48"
      using put_at_pending [of "e_used ctx" "take todo xs" "e_data ctx"] n e(2)
      by (simp_all add: d_def pending_def todo_def)
    have len: "length (b64 d) = 64" using d(2) by (simp add: length_b64)
    have small': "length (drop todo xs) < 2 ^ 30" using small by simp
    have l65: "length (b64 d @ [10]) = 65" by (simp add: len)
    obtain lines rest where t: "encode_lines 65 (drop todo xs) = (lines, Some (65 + length lines), rest)"
      "length rest < 48" "65 + length lines \<le> INT_MAX"
      "\<And>ys. b64_lines (drop todo xs @ ys) = lines @ b64_lines (take (length rest) (put_at 0 rest d) @ ys)"
      "length (put_at 0 rest d) = 48"
      using encode_tail [OF small' d(2) l65] by auto
    have nonempty: "xs \<noteq> []" using first(2) e(1) by auto
    have eq: "EVP_EncodeUpdate ctx xs (length xs) =
        ((b64 d @ [10]) @ lines @ [0], 65 + length lines,
         ctx\<lparr>e_used := length rest, e_data := put_at 0 rest d\<rparr>)"
      using first e t(1,3) d(2) nonempty
      by (simp add: EVP_EncodeUpdate_def Let_def todo_def [symmetric] d_def [symmetric] encode_line_eq len)
    have "take (65 + length lines) ((b64 d @ [10]) @ lines @ [0]) = (b64 d @ [10]) @ lines"
      by (simp add: len)
    then have r: "out = (b64 d @ [10]) @ lines" "ctx' = ctx\<lparr>e_used := length rest, e_data := put_at 0 rest d\<rparr>"
      using u eq unfolding encode_update_def by simp_all
    have "pending ctx @ xs @ ys = take 48 d @ drop todo xs @ ys" unfolding d(1) by simp
    moreover have "b64_lines (take 48 d @ drop todo xs @ ys) = b64 d @ [10] @ b64_lines (drop todo xs @ ys)"
      using b64_lines_step [of d "drop todo xs @ ys"] d(2) by simp
    ultimately have "b64_lines (pending ctx @ xs @ ys) = out @ b64_lines (take (length rest) (put_at 0 rest d) @ ys)"
      by (simp only: r(1) t(4) append.assoc)
    then show ?thesis using t(2,5) r(2) by (simp add: enc_ok_def pending_def)
  next
    case direct
    obtain lines rest where t: "encode_lines 0 xs = (lines, Some (0 + length lines), rest)"
      "length rest < 48" "0 + length lines \<le> INT_MAX"
      "\<And>ys. b64_lines (xs @ ys) = lines @ b64_lines (take (length rest) (put_at 0 rest (e_data ctx)) @ ys)"
      "length (put_at 0 rest (e_data ctx)) = 48"
      using encode_tail [OF small e(2), of "[]" 0] by auto
    have eq: "EVP_EncodeUpdate ctx xs (length xs) =
        (lines @ [0], length lines, ctx\<lparr>e_data := put_at 0 rest (e_data ctx), e_used := length rest\<rparr>)"
      using direct t(1,3) by (auto simp add: EVP_EncodeUpdate_def)
    then have "out = lines" "ctx' = ctx\<lparr>e_data := put_at 0 rest (e_data ctx), e_used := length rest\<rparr>"
      using u unfolding encode_update_def by simp_all
    then show ?thesis using t(2,4,5) direct(1) by (simp add: enc_ok_def pending_def)
  qed
qed

lemma encode_final_spec:
  assumes "enc_ok ctx"
  shows "encode_final ctx = b64_lines (pending ctx)"
proof (cases "e_used ctx = 0")
  case True
  then show ?thesis by (simp add: encode_final_def EVP_EncodeFinal_def pending_def)
next
  case False
  then have p: "pending ctx \<noteq> []" "length (pending ctx) < 48"
    using assms by (auto simp: pending_def enc_ok_def)
  have "b64_lines (pending ctx) = b64 (pending ctx) @ [10]"
    using p by (subst b64_lines.simps) simp
  then show ?thesis
    using False by (simp add: encode_final_def EVP_EncodeFinal_def encode_line_eq pending_def)
qed

interpretation encoder: incremental enc_ok "\<lambda>xs. length xs < 2 ^ 30" encode_update encode_final
  "\<lambda>ctx xs. b64_lines (pending ctx @ xs)"
proof
  show "enc_ok s' \<and> b64_lines (pending s @ xs @ ys) = out @ b64_lines (pending s' @ ys)"
    if "enc_ok s" "length xs < 2 ^ 30" "encode_update s xs = (out, s')" for s xs out s' ys
    using that by (rule encode_update_spec)
  show "encode_final s = b64_lines (pending s @ [])" if "enc_ok s" for s
    using encode_final_spec [OF that] by simp
qed

lemma enc_ok_init [simp]: "enc_ok EVP_EncodeInit" "pending EVP_EncodeInit = []"
  by (simp_all add: enc_ok_def pending_def EVP_EncodeInit_def)

end
