(* ===== verification/Base64_Decode.thy ===== *)
theory Base64_Decode
  imports Base64_Encode
begin

text \<open>
  The decoder of \<^verbatim>\<open>base64.c\<close>: a quad, a block, and the incremental interface. Both accept the
  same texts and give the same bytes, white space apart, and both undo the encoder.
\<close>

section \<open>One quad\<close>

definition dec1 :: "nat \<Rightarrow> nat \<Rightarrow> u8" where
  "dec1 n0 n1 = word_of_nat (n0 * 4 + n1 div 16)"

definition dec2 :: "nat \<Rightarrow> nat \<Rightarrow> u8" where
  "dec2 n1 n2 = word_of_nat (n1 mod 16 * 16 + n2 div 4)"

definition dec3 :: "nat \<Rightarrow> nat \<Rightarrow> u8" where
  "dec3 n2 n3 = word_of_nat (n2 mod 4 * 64 + n3)"

definition quad_val :: "nat \<Rightarrow> nat \<Rightarrow> nat \<Rightarrow> nat \<Rightarrow> nat" where
  "quad_val n0 n1 n2 n3 = ((n0 * 64 + n1) * 64 + n2) * 64 + n3"

lemma add_multiple_mod: "k dvd m \<Longrightarrow> (m + n) mod k = n mod (k::nat)"
  by (auto elim!: dvdE)

lemma quad_bytes:
  assumes "n0 < 64" "n1 < 64" "n2 < 64" "n3 < 64"
  shows "(word_of_nat (quad_val n0 n1 n2 n3 div 2 ^ 16) :: u8) = dec1 n0 n1"
    "(word_of_nat (quad_val n0 n1 n2 n3 div 2 ^ 8) :: u8) = dec2 n1 n2"
    "(word_of_nat (quad_val n0 n1 n2 n3) :: u8) = dec3 n2 n3"
proof -
  let ?x = "n0 * 64 + n1" and ?w = "(n0 * 64 + n1) * 64 + n2"
  have dv: "(m * 64 + k) div 64 = m" if "k < 64" for m k :: nat using that by simp
  have w: "quad_val n0 n1 n2 n3 div 64 = ?w" unfolding quad_val_def by (rule dv [OF assms(4)])
  have "quad_val n0 n1 n2 n3 div 2 ^ 16 = ?w div 64 div 16"
    using div_mult2_eq [of "quad_val n0 n1 n2 n3" 64 "64 * 16"] div_mult2_eq [of ?w 64 16] w by simp
  also have "\<dots> = n0 * 4 + n1 div 16"
    using dv [OF assms(3), of ?x] append_div [of 16 n0 4 n1] by simp
  finally show "(word_of_nat (quad_val n0 n1 n2 n3 div 2 ^ 16) :: u8) = dec1 n0 n1"
    unfolding dec1_def by (rule arg_cong)
  have m: "(word_of_nat i :: u8) = word_of_nat j" if "i mod 256 = j" for i j
    by (rule word_nat_eqI) (use that in \<open>auto simp only: unat_of_nat_u8 mod_mod_trivial\<close>)
  have "quad_val n0 n1 n2 n3 div 2 ^ 8 = ?x * 16 + n2 div 4"
    using div_mult2_eq [of "quad_val n0 n1 n2 n3" 64 4] w append_div [of 4 ?x 16 n2] by simp
  moreover have "?x mod 16 = n1 mod 16" by (rule add_multiple_mod) simp
  ultimately have "quad_val n0 n1 n2 n3 div 2 ^ 8 mod 256 = n1 mod 16 * 16 + n2 div 4"
    using append_mod [of "n2 div 4" 16 ?x 16] assms(3) by (simp add: div_less_iff_less_mult)
  then show "(word_of_nat (quad_val n0 n1 n2 n3 div 2 ^ 8) :: u8) = dec2 n1 n2"
    unfolding dec2_def by (rule m)
  have "?w mod 4 = n2 mod 4" by (rule add_multiple_mod) simp
  then have "quad_val n0 n1 n2 n3 mod 256 = n2 mod 4 * 64 + n3"
    using append_mod [OF assms(4), of ?w 4] by (simp add: quad_val_def)
  then show "(word_of_nat (quad_val n0 n1 n2 n3) :: u8) = dec3 n2 n3"
    unfolding dec3_def by (rule m)
qed

lemma unat_quad:
  fixes a b c d :: u8
  assumes "unat a < 64" "unat b < 64" "unat c < 64" "unat d < 64"
  shows "unat (push_bit 18 (ucast a) OR push_bit 12 (ucast b) OR push_bit 6 (ucast c) OR ucast d :: u32) =
    quad_val (unat a) (unat b) (unat c) (unat d)"
proof -
  have 1: "unat (push_bit 6 (ucast c) OR ucast d :: u32) = unat c * 2 ^ 6 + unat d"
    using unat_push_or [of "ucast c :: u32" 6 "ucast d"] assms by (simp add: unat_u8_u32)
  have 2: "unat (push_bit 12 (ucast b) OR push_bit 6 (ucast c) OR ucast d :: u32) =
      unat b * 2 ^ 12 + (unat c * 2 ^ 6 + unat d)"
    using unat_push_or [of "ucast b :: u32" 12 "push_bit 6 (ucast c) OR ucast d"] assms
    by (simp add: unat_u8_u32 1)
  have "unat (push_bit 18 (ucast a) OR push_bit 12 (ucast b) OR push_bit 6 (ucast c) OR ucast d :: u32) =
      unat a * 2 ^ 18 + (unat b * 2 ^ 12 + (unat c * 2 ^ 6 + unat d))"
    using unat_push_or [of "ucast a :: u32" 18 "push_bit 12 (ucast b) OR push_bit 6 (ucast c) OR ucast d"] assms
    by (simp add: unat_u8_u32 2)
  then show ?thesis by (simp add: quad_val_def)
qed

lemma ucast_u32_u8: "(ucast (w::u32) :: u8) = word_of_nat (unat w)"
  by (rule word_nat_eqI) (simp add: unsigned_ucast_eq unsigned_of_nat)

text \<open>The digits of a quad, the padding counting as zero.\<close>

definition dig :: "u8 \<Rightarrow> nat option" where
  "dig c = (if c = 61 then Some 0 else b64_val c)"

lemma dig_bin: "dig c = Some n \<Longrightarrow> unat (base64_ascii_to_bin c) = n \<and> n < 64"
  by (auto simp: dig_def ascii_to_bin_val unat_of_nat_u8_small dest: b64_char_val split: if_splits)

lemma dig_None: "dig c = None \<longleftrightarrow> base64_ascii_to_bin c = 0xff"
proof (cases "dig c")
  case (Some n)
  then have "unat (base64_ascii_to_bin c) \<noteq> unat (0xff::u8)" using dig_bin [OF Some] by auto
  then show ?thesis using Some by auto
qed (auto simp: dig_def ascii_to_bin_val split: if_splits)

lemma padding_patterns:
  defines "p A B C D \<equiv> push_bit 3 (of_bool A) OR push_bit 2 (of_bool B) OR push_bit 1 (of_bool C) OR of_bool D :: u32"
  shows "p A B C D = 0 \<longleftrightarrow> \<not> A \<and> \<not> B \<and> \<not> C \<and> \<not> D" "p A B C D = 1 \<longleftrightarrow> \<not> A \<and> \<not> B \<and> \<not> C \<and> D"
    "p A B C D = 3 \<longleftrightarrow> \<not> A \<and> \<not> B \<and> C \<and> D"
  unfolding p_def by (cases A; cases B; cases C; cases D; simp)+

lemma decode_quad_digits:
  "base64_decode_quad a b c d =
     (case (dig a, dig b, dig c, dig d) of
        (Some n0, Some n1, Some n2, Some n3) \<Rightarrow>
          if a = 61 \<or> b = 61 then None
          else if c \<noteq> 61 \<and> d \<noteq> 61 then Some [dec1 n0 n1, dec2 n1 n2, dec3 n2 n3]
          else if c \<noteq> 61 then Some [dec1 n0 n1, dec2 n1 n2]
          else if d = 61 then Some [dec1 n0 n1]
          else None
      | _ \<Rightarrow> None)"
proof (cases "dig a = None \<or> dig b = None \<or> dig c = None \<or> dig d = None")
  case True
  then have "base64_decode_quad a b c d = None"
    by (simp only: base64_decode_quad_def Let_def dig_None) simp
  then show ?thesis using True by (auto split: option.splits)
next
  case False
  then obtain n0 n1 n2 n3 where n: "dig a = Some n0" "dig b = Some n1" "dig c = Some n2" "dig d = Some n3"
    by auto
  note bin = dig_bin [OF n(1)] dig_bin [OF n(2)] dig_bin [OF n(3)] dig_bin [OF n(4)]
  have ff: "base64_ascii_to_bin a \<noteq> 0xff" "base64_ascii_to_bin b \<noteq> 0xff"
    "base64_ascii_to_bin c \<noteq> 0xff" "base64_ascii_to_bin d \<noteq> 0xff"
    using False by (simp_all add: dig_None)
  define v :: u32 where "v = push_bit 18 (ucast (base64_ascii_to_bin a)) OR push_bit 12 (ucast (base64_ascii_to_bin b)) OR
    push_bit 6 (ucast (base64_ascii_to_bin c)) OR ucast (base64_ascii_to_bin d)"
  have v: "unat v = quad_val n0 n1 n2 n3"
    using unat_quad [of "base64_ascii_to_bin a" "base64_ascii_to_bin b" "base64_ascii_to_bin c" "base64_ascii_to_bin d"] bin
    by (simp add: v_def)
  have bytes: "ucast (drop_bit 16 v) = dec1 n0 n1" "ucast (drop_bit 8 v) = dec2 n1 n2" "ucast v = dec3 n2 n3"
    using quad_bytes [of n0 n1 n2 n3] bin unfolding ucast_u32_u8 unat_drop_bit v by simp_all
  have "base64_decode_quad a b c d =
      (if a \<noteq> 61 \<and> b \<noteq> 61 \<and> c \<noteq> 61 \<and> d \<noteq> 61 then Some [dec1 n0 n1, dec2 n1 n2, dec3 n2 n3]
       else if a \<noteq> 61 \<and> b \<noteq> 61 \<and> c \<noteq> 61 \<and> d = 61 then Some [dec1 n0 n1, dec2 n1 n2]
       else if a \<noteq> 61 \<and> b \<noteq> 61 \<and> c = 61 \<and> d = 61 then Some [dec1 n0 n1]
       else None)"
    unfolding base64_decode_quad_def Let_def v_def [symmetric] bytes padding_patterns
    by (simp only: ff simp_thms if_False)
  then show ?thesis using n by auto
qed

section \<open>A block\<close>

lemma dig_char [simp]: "n < 64 \<Longrightarrow> dig (b64_char n) = Some n" "n < 64 \<Longrightarrow> b64_char n \<noteq> 61"
proof -
  have "b64_char n \<noteq> 61" if "n < 64" for n
    using b64_val_char [OF that] by (auto simp: b64_val_def)
  then show "n < 64 \<Longrightarrow> dig (b64_char n) = Some n" "n < 64 \<Longrightarrow> b64_char n \<noteq> 61"
    by (simp_all add: dig_def b64_val_char)
qed

lemma dig_pad [simp]: "dig 61 = Some 0"
  by (simp add: dig_def)

lemma regroup:
  fixes a b c :: u8
  shows "unat a div 4 < 64" "unat a mod 4 * 16 + unat b div 16 < 64" "unat b mod 16 * 4 + unat c div 64 < 64"
    "unat a mod 4 * 16 < 64" "unat b mod 16 * 4 < 64" "unat c mod 64 < 64"
    "dec1 (unat a div 4) (unat a mod 4 * 16 + unat b div 16) = a"
    "dec1 (unat a div 4) (unat a mod 4 * 16) = a"
    "dec2 (unat a mod 4 * 16 + unat b div 16) (unat b mod 16 * 4 + unat c div 64) = b"
    "dec2 (unat a mod 4 * 16 + unat b div 16) (unat b mod 16 * 4) = b"
    "dec3 (unat b mod 16 * 4 + unat c div 64) (unat c mod 64) = c"
proof -
  have lt: "unat a div 4 < 64" "unat b div 16 < 16" "unat c div 64 < 4"
    by (simp_all add: div_less_iff_less_mult)
  have md: "unat a mod 4 \<le> 3" "unat b mod 16 \<le> 15"
    using mod_less_divisor [of 4 "unat a"] mod_less_divisor [of 16 "unat b"] by linarith+
  show "unat a div 4 < 64" by (rule lt)
  show "unat a mod 4 * 16 + unat b div 16 < 64" "unat b mod 16 * 4 + unat c div 64 < 64"
    "unat a mod 4 * 16 < 64" "unat b mod 16 * 4 < 64"
    using lt md by linarith+
  show "unat c mod 64 < 64" by simp
  have d: "(m * 16 + x) div 16 = m" "(m * 4 + y) div 4 = m" if "x < 16" "y < 4" for m x y :: nat
    using that by simp_all
  have e: "(m * 16 + x) mod 16 = x" "(m * 4 + y) mod 4 = y" if "x < 16" "y < 4" for m x y :: nat
    using that by simp_all
  have dm: "n div 4 * 4 + n mod 4 = n" "n div 16 * 16 + n mod 16 = n" "n div 64 * 64 + n mod 64 = n" for n :: nat
    by (rule div_mult_mod_eq)+
  show "dec1 (unat a div 4) (unat a mod 4 * 16 + unat b div 16) = a"
    unfolding dec1_def d(1) [OF lt(2,3)] dm by simp
  show "dec1 (unat a div 4) (unat a mod 4 * 16) = a"
    using d(1) [of 0 0 "unat a mod 4"] unfolding dec1_def by (simp only: add_0_right) (simp add: dm)
  show "dec2 (unat a mod 4 * 16 + unat b div 16) (unat b mod 16 * 4 + unat c div 64) = b"
    unfolding dec2_def d(2) [OF lt(2,3)] e(1) [OF lt(2,3)] dm by simp
  show "dec2 (unat a mod 4 * 16 + unat b div 16) (unat b mod 16 * 4) = b"
    using d(2) [of 0 0 "unat b mod 16"] unfolding dec2_def e(1) [OF lt(2,3)] by (simp only: add_0_right) (simp add: dm)
  show "dec3 (unat b mod 16 * 4 + unat c div 64) (unat c mod 64) = c"
    unfolding dec3_def e(2) [OF lt(2,3)] dm by simp
qed

lemma decode_quads_b64: "decode_quads (b64 xs) = (True, xs)"
  by (induction xs rule: b64.induct) (simp_all add: decode_quad_digits regroup)

lemma EVP_DecodeBase64_b64:
  assumes "3 * (length (b64 xs) div 4) \<le> max_out"
  shows "EVP_DecodeBase64 max_out (b64 xs) (length (b64 xs)) = (True, xs)"
  using assms by (simp add: EVP_DecodeBase64_def EVP_DecodedLength_def length_b64 decode_quads_b64 mult.commute)

section \<open>The incremental decoder\<close>

definition is_space :: "u8 \<Rightarrow> bool" where
  "is_space c \<longleftrightarrow> c = 32 \<or> c = 9 \<or> c = 13 \<or> c = 10"

text \<open>
  The state machine on text without white space: the bytes given, whether nothing was wrong,
  whether the end was seen and the characters that wait for the rest of their quad.
\<close>

fun quads :: "bool \<Rightarrow> u8 list \<Rightarrow> u8 list \<times> bool \<times> bool \<times> u8 list" where
  "quads True ts = ([], ts = [], True, [])"
| "quads False (a # b # c # d # rest) =
     (case base64_decode_quad a b c d of
        None \<Rightarrow> ([], False, False, [])
      | Some bs \<Rightarrow> (case quads (length bs < 3) rest of (out, r) \<Rightarrow> (bs @ out, r)))"
| "quads False ts = ([], True, False, ts)"

lemma quads_short: "length ts < 4 \<Longrightarrow> quads False ts = ([], True, False, ts)"
  by (cases "(False, ts)" rule: quads.cases) auto

lemma quads_append:
  "quads eof x = (out, True, eof', pend) \<Longrightarrow>
     quads eof (x @ y) = (case quads eof' (pend @ y) of (out2, r) \<Rightarrow> (out @ out2, r))"
  by (induction eof x arbitrary: out rule: quads.induct) (auto split: option.splits prod.splits)

lemma quads_append_bad:
  "quads eof x = (out, False, eof', pend) \<Longrightarrow> \<exists>out e p. quads eof (x @ y) = (out, False, e, p)"
proof (induction eof x arbitrary: out rule: quads.induct)
  case (2 a b c d rest)
  show ?case
  proof (cases "base64_decode_quad a b c d")
    case (Some bs)
    then obtain o1 where "quads (length bs < 3) rest = (o1, False, eof', pend)"
      using 2(2) by (auto split: prod.splits)
    with 2(1) [OF Some] obtain o2 e p where "quads (length bs < 3) (rest @ y) = (o2, False, e, p)" by blast
    then show ?thesis using Some by simp
  qed auto
qed auto

lemma quads_block:
  "(\<exists>eof. quads False ts = (out, True, eof, [])) \<longleftrightarrow> decode_quads ts = (True, out)"
proof (induction ts arbitrary: out rule: decode_quads.induct)
  case (1 a b c d rest)
  show ?case
  proof (cases "base64_decode_quad a b c d")
    case (Some bs)
    have l: "length bs \<le> 3" using Some by (auto simp: decode_quad_digits split: option.splits if_splits)
    show ?thesis
    proof (cases "length bs < 3")
      case True
      then show ?thesis using Some by (auto split: prod.splits)
    next
      case False
      have "(\<exists>eof. quads False (a # b # c # d # rest) = (out, True, eof, [])) \<longleftrightarrow>
          (\<exists>o'. out = bs @ o' \<and> (\<exists>eof. quads False rest = (o', True, eof, [])))"
        using Some False by (auto split: prod.splits)
      also have "\<dots> \<longleftrightarrow> (\<exists>o'. out = bs @ o' \<and> decode_quads rest = (True, o'))"
        using 1 [OF Some] False l by auto
      also have "\<dots> \<longleftrightarrow> decode_quads (a # b # c # d # rest) = (True, out)"
        using Some False l by (auto split: prod.splits)
      finally show ?thesis .
    qed
  qed simp
qed auto

definition dec_ok :: "evp_encode_ctx_st \<Rightarrow> bool" where
  "dec_ok ctx \<longleftrightarrow> e_used ctx < 4 \<and> length (e_data ctx) = 48 \<and> \<not> e_error ctx \<and> (e_eof ctx \<longrightarrow> e_used ctx = 0)"

definition waiting :: "evp_encode_ctx_st \<Rightarrow> u8 list" where
  "waiting ctx = take (e_used ctx) (e_data ctx)"

lemma decode_loop_quads:
  "dec_ok ctx \<Longrightarrow> decode_loop ctx inp = (out, ok, ctx') \<Longrightarrow>
     (if ok then dec_ok ctx' \<and>
        quads (e_eof ctx) (waiting ctx @ filter (\<lambda>c. \<not> is_space c) inp) = (out, True, e_eof ctx', waiting ctx')
      else \<exists>e p. quads (e_eof ctx) (waiting ctx @ filter (\<lambda>c. \<not> is_space c) inp) = (out, False, e, p))"
proof (induction ctx inp arbitrary: out rule: decode_loop.induct)
  case (1 ctx)
  have "quads (e_eof ctx) (waiting ctx) = ([], True, e_eof ctx, waiting ctx)"
    using 1(1) quads_short [of "waiting ctx"] by (cases "e_eof ctx") (auto simp: waiting_def dec_ok_def)
  then show ?case using 1 by auto
next
  case (2 ctx c inp)
  note ok = 2(4) [unfolded dec_ok_def]
  show ?case
  proof (cases "is_space c")
    case True
    then show ?thesis using 2(1) [OF _ 2(4)] 2(5) by (auto simp: is_space_def)
  next
    case False
    then have nw: "\<not> (c = 32 \<or> c = 9 \<or> c = 13 \<or> c = 10)" by (simp add: is_space_def)
    show ?thesis
    proof (cases "e_eof ctx")
      case True
      then show ?thesis using 2(5) nw False ok by (auto simp: waiting_def)
    next
      case noeof: False
      define ctx1 where "ctx1 = ctx\<lparr>e_data := (e_data ctx)[e_used ctx := c], e_used := e_used ctx + 1\<rparr>"
      have w1: "waiting ctx @ c # r = waiting ctx1 @ r" for r
        using ok by (simp add: ctx1_def waiting_def take_Suc_conv_app_nth)
      have same: "e_eof ctx1 = False" "e_error ctx1 = False" "length (e_data ctx1) = 48" "length (waiting ctx1) = e_used ctx + 1"
        using ok noeof by (simp_all add: ctx1_def waiting_def)
      define d where "d = e_data ctx1"
      have step: "decode_loop ctx (c # inp) =
          (if e_used ctx1 = 4 then
             (case base64_decode_quad (d ! 0) (d ! 1) (d ! 2) (d ! 3) of
                None \<Rightarrow> ([], False, ctx1\<lparr>e_error := True\<rparr>)
              | Some bs \<Rightarrow>
                  (case decode_loop (ctx1\<lparr>e_used := 0, e_eof := e_eof ctx1 \<or> length bs < 3\<rparr>) inp of
                     (out, res) \<Rightarrow> (bs @ out, res)))
           else decode_loop ctx1 inp)"
        using nw noeof by (simp only: decode_loop.simps if_False Let_def ctx1_def d_def)
      note run = 2(5) [unfolded step]
      show ?thesis
      proof (cases "e_used ctx1 = 4")
        case False
        have "dec_ok ctx1" using False ok same by (simp add: dec_ok_def) (simp add: ctx1_def)
        then show ?thesis
          using 2(3) [OF nw noeof ctx1_def refl False] run noeof False \<open>\<not> is_space c\<close> same
          by (auto simp: w1 split: if_splits)
      next
        case True
        have w: "waiting ctx1 = [d ! 0, d ! 1, d ! 2, d ! 3]"
          using same(3) True by (simp add: waiting_def d_def list_eq_iff_nth_eq less_Suc_eq numeral_eq_Suc)
        show ?thesis
        proof (cases "base64_decode_quad (d ! 0) (d ! 1) (d ! 2) (d ! 3)")
          case None
          then show ?thesis
            using run noeof \<open>\<not> is_space c\<close> True by (auto simp: w1 w)
        next
          case (Some bs)
          define ctx2 where "ctx2 = ctx1\<lparr>e_used := 0, e_eof := e_eof ctx1 \<or> length bs < 3\<rparr>"
          have ok2: "dec_ok ctx2" "waiting ctx2 = []" "e_eof ctx2 = (length bs < 3)"
            using same by (simp_all add: ctx2_def dec_ok_def waiting_def)
          obtain out2 where o: "decode_loop ctx2 inp = (out2, ok, ctx')" "out = bs @ out2"
            using run True Some by (auto simp: ctx2_def [symmetric] split: prod.splits)
          from 2(2) [OF nw noeof ctx1_def d_def True Some ok2(1) [unfolded ctx2_def] o(1) [unfolded ctx2_def]]
          show ?thesis
            using Some noeof \<open>\<not> is_space c\<close> ok2
            unfolding ctx2_def [symmetric] by (auto simp: w1 w o(2) split: if_splits)
        qed
      qed
    qed
  qed
qed

text \<open>No more bytes come out than went in.\<close>

lemma decode_quad_length: "base64_decode_quad a b c d = Some bs \<Longrightarrow> length bs \<le> 3"
  by (auto simp: decode_quad_digits split: option.splits if_splits)

lemma quads_length: "length (fst (quads eof ts)) \<le> length ts"
proof (induction eof ts rule: quads.induct)
  case (2 a b c d rest)
  then show ?case using decode_quad_length [of a b c d] by (force split: option.splits prod.splits)
qed auto

text \<open>The client: feed the pieces, finish, and keep the bytes when no call failed.\<close>

fun decode_chunks :: "evp_encode_ctx_st \<Rightarrow> u8 list list \<Rightarrow> u8 list option" where
  "decode_chunks ctx [] = (if EVP_DecodeFinal ctx = 1 then Some [] else None)"
| "decode_chunks ctx (c # cs) =
     (case EVP_DecodeUpdate ctx c (length c) of
        (r, out, n, ctx') \<Rightarrow> if r = -1 then None else map_option ((@) (take n out)) (decode_chunks ctx' cs))"

lemma decode_chunks_quads:
  assumes "dec_ok ctx" "list_all (\<lambda>c. length c < 2 ^ 30) cs"
  shows "decode_chunks ctx cs =
    (case quads (e_eof ctx) (waiting ctx @ filter (\<lambda>c. \<not> is_space c) (concat cs)) of
       (out, ok, _, w) \<Rightarrow> if ok \<and> w = [] then Some out else None)"
  using assms
proof (induction cs arbitrary: ctx)
  case Nil
  then have "quads (e_eof ctx) (waiting ctx) = ([], True, e_eof ctx, waiting ctx)"
    using quads_short [of "waiting ctx"] by (cases "e_eof ctx") (auto simp: waiting_def dec_ok_def)
  moreover have "waiting ctx = [] \<longleftrightarrow> e_used ctx = 0"
    using Nil(1) by (auto simp: waiting_def dec_ok_def)
  ultimately show ?case using Nil(1) by (simp add: EVP_DecodeFinal_def dec_ok_def)
next
  case (Cons c cs)
  let ?f = "filter (\<lambda>c. \<not> is_space c)"
  obtain out ok ctx' where l: "decode_loop ctx c = (out, ok, ctx')" by (cases "decode_loop ctx c")
  note q = decode_loop_quads [OF Cons.prems(1) l]
  have noerr: "\<not> e_error ctx" using Cons.prems(1) by (simp add: dec_ok_def)
  have "length out \<le> length (waiting ctx @ ?f c)"
    using quads_length [of "e_eof ctx" "waiting ctx @ ?f c"] q by (auto split: if_splits)
  also have "\<dots> \<le> 4 + length c"
  proof -
    have "length (waiting ctx) \<le> 4" using Cons.prems(1) by (simp add: waiting_def dec_ok_def)
    then show ?thesis using length_filter_le [of "\<lambda>c. \<not> is_space c" c] by (simp only: length_append add_mono)
  qed
  finally have small: "length out \<le> INT_MAX" using Cons.prems(2) by (simp add: INT_MAX_def)
  show ?case
  proof (cases ok)
    case False
    then obtain e p where "quads (e_eof ctx) (waiting ctx @ ?f c) = (out, False, e, p)" using q by auto
    from quads_append_bad [OF this, of "?f (concat cs)"] show ?thesis
      using l False noerr by (auto simp: EVP_DecodeUpdate_def)
  next
    case True
    then have q': "dec_ok ctx'" "quads (e_eof ctx) (waiting ctx @ ?f c) = (out, True, e_eof ctx', waiting ctx')"
      using q by simp_all
    have "decode_chunks ctx (c # cs) = map_option ((@) out) (decode_chunks ctx' cs)"
      using l True noerr small by (simp add: EVP_DecodeUpdate_def)
    then show ?thesis
      using Cons.IH [OF q'(1)] Cons.prems(2) quads_append [OF q'(2), of "?f (concat cs)"]
      by (auto split: prod.splits)
  qed
qed

lemma dec_ok_init [simp]: "dec_ok EVP_DecodeInit" "waiting EVP_DecodeInit = []" "e_eof EVP_DecodeInit = False"
  by (simp_all add: dec_ok_def waiting_def EVP_DecodeInit_def)

lemma decode_chunks_block:
  assumes "list_all (\<lambda>c. length c < 2 ^ 30) cs"
  shows "decode_chunks EVP_DecodeInit cs = Some out \<longleftrightarrow>
    decode_quads (filter (\<lambda>c. \<not> is_space c) (concat cs)) = (True, out)"
  unfolding decode_chunks_quads [OF dec_ok_init(1) assms] quads_block [symmetric]
  by (auto split: prod.splits)

section \<open>Encoding and decoding\<close>

lemma b64_append: "length xs mod 3 = 0 \<Longrightarrow> b64 (xs @ ys) = b64 xs @ b64 ys"
proof (induction xs rule: b64.induct)
  case (1 a b c r)
  then show ?case by (simp add: mod_Suc split: if_splits)
qed auto

lemma b64_char_not_space: "n < 64 \<Longrightarrow> \<not> is_space (b64_char n)"
  using b64_val_char [of n] by (auto simp: is_space_def b64_val_def)

lemma b64_not_space: "filter (\<lambda>c. \<not> is_space c) (b64 xs) = b64 xs"
proof (induction xs rule: b64.induct)
  case (4 a b)
  show ?case by (simp add: b64_char_not_space regroup) (simp add: is_space_def)
qed (simp_all add: b64_char_not_space regroup is_space_def [of 61])

lemma b64_lines_text: "filter (\<lambda>c. \<not> is_space c) (b64_lines xs) = b64 xs"
proof (induction xs rule: b64_lines.induct)
  case (1 xs)
  show ?case
  proof (cases "xs = []")
    case False
    have "b64 (take 48 xs @ drop 48 xs) = b64 (take 48 xs) @ b64 (drop 48 xs)"
    proof (cases "48 \<le> length xs")
      case True
      then show ?thesis by (intro b64_append) simp
    qed simp
    then show ?thesis
      using False 1 by (subst b64_lines.simps) (simp add: b64_not_space is_space_def [of 10])
  qed simp
qed

lemma incremental_round_trip:
  assumes "list_all (\<lambda>c. length c < 2 ^ 30) cs" "list_all (\<lambda>d. length d < 2 ^ 30) ds"
    and "concat ds = run_chunks encode_update encode_final EVP_EncodeInit cs"
  shows "decode_chunks EVP_DecodeInit ds = Some (concat cs)"
  using assms encoder.run_chunks_spec [of EVP_EncodeInit cs]
  by (simp add: decode_chunks_block b64_lines_text decode_quads_b64)

end
