(* ===== verification/Stack.thy ===== *)
theory Stack
  imports Libc Mem
begin

text \<open>
  \<^verbatim>\<open>crypto/stack/stack.c\<close>: arrays of pointers that grow, are sorted on demand and searched.
  A pointer is an option, \<open>None\<close> for NULL; equality of pointers is equality. A function pointer
  is a value of its own type, and the callers' wrappers (\<open>call_cmp_func\<close>, \<open>call_copy_func\<close>)
  give it a meaning, as in the source.
\<close>

section \<open>Memory\<close>

text \<open>
  Blocks of pointers: \<open>m n\<close> is \<open>malloc(n)\<close>, with the initial value of each slot. The size goes
  through the prefix of \<open>OPENSSL_malloc\<close>.
\<close>

type_synonym 'a ptr_alloc = "nat \<Rightarrow> (nat \<Rightarrow> 'a ptr) option"

definition sizeof_STACK :: nat where
  "sizeof_STACK = 40"

definition malloc_ptrs :: "'a ptr_alloc \<Rightarrow> nat \<Rightarrow> 'a ptr list option" where
  "malloc_ptrs m sz =
     (let n = (sz + OPENSSL_MALLOC_PREFIX) mod SIZE_MOD
      in map_option (\<lambda>f. map f [0..<(n - OPENSSL_MALLOC_PREFIX) div sizeof_ptr]) (m n))"

definition realloc_ptrs :: "'a ptr_alloc \<Rightarrow> 'a ptr list \<Rightarrow> nat \<Rightarrow> 'a ptr list option" where
  "realloc_ptrs m old sz =
     (case malloc_ptrs m sz of
        None \<Rightarrow> None
      | Some new \<Rightarrow> let n = min (length old) (sz div sizeof_ptr) in Some (take n old @ drop n new))"

section \<open>Code\<close>

record ('a, 'f) stack_st =
  s_num :: nat
  s_data :: "'a ptr list"
  s_sorted :: bool
  s_num_alloc :: nat
  s_comp :: "'f option"

definition kMinSize :: nat where
  "kMinSize = 4"

definition sk_new :: "'a ptr_alloc \<Rightarrow> 'f option \<Rightarrow> ('a, 'f) stack_st option" where
  "sk_new m cmp =
     (case (malloc_ptrs m sizeof_STACK, malloc_ptrs m (sizeof_ptr * kMinSize)) of
        (Some _, Some d) \<Rightarrow>
          Some \<lparr>s_num = 0, s_data = replicate kMinSize None @ drop kMinSize d, s_sorted = False,
                s_num_alloc = kMinSize, s_comp = cmp\<rparr>
      | _ \<Rightarrow> None)"

definition sk_new_null :: "'a ptr_alloc \<Rightarrow> ('a, 'f) stack_st option" where
  "sk_new_null m = sk_new m None"

definition sk_num :: "('a, 'f) stack_st option \<Rightarrow> nat" where
  "sk_num sk = (case sk of None \<Rightarrow> 0 | Some s \<Rightarrow> s_num s)"

definition sk_zero :: "('a, 'f) stack_st option \<Rightarrow> ('a, 'f) stack_st option" where
  "sk_zero sk =
     (case sk of
        None \<Rightarrow> None
      | Some s \<Rightarrow>
          if s_num s = 0 then Some s
          else Some (s\<lparr>s_data := replicate (s_num s) None @ drop (s_num s) (s_data s), s_num := 0, s_sorted := False\<rparr>))"

definition sk_value :: "('a, 'f) stack_st option \<Rightarrow> nat \<Rightarrow> 'a ptr" where
  "sk_value sk i = (case sk of None \<Rightarrow> None | Some s \<Rightarrow> if i \<ge> s_num s then None else s_data s ! i)"

definition sk_set :: "('a, 'f) stack_st option \<Rightarrow> nat \<Rightarrow> 'a ptr \<Rightarrow> 'a ptr \<times> ('a, 'f) stack_st option" where
  "sk_set sk i value =
     (case sk of
        None \<Rightarrow> (None, None)
      | Some s \<Rightarrow>
          if i \<ge> s_num s then (None, Some s) else (value, Some (s\<lparr>s_data := (s_data s)[i := value]\<rparr>)))"

text \<open>The pointers \<open>free_func\<close> is called on, in order.\<close>

definition sk_pop_free_ex :: "('a, 'f) stack_st option \<Rightarrow> 'a list" where
  "sk_pop_free_ex sk =
     (case sk of
        None \<Rightarrow> []
      | Some s \<Rightarrow> map the (filter (\<lambda>p. p \<noteq> None) (map (\<lambda>i. s_data s ! i) [0..<s_num s])))"

text \<open>The legacy interface calls \<open>free_func\<close> through a wrapper that only casts.\<close>

definition sk_pop_free :: "('a, 'f) stack_st option \<Rightarrow> 'a list" where
  "sk_pop_free sk = sk_pop_free_ex sk"

definition sk_insert ::
    "'a ptr_alloc \<Rightarrow> ('a, 'f) stack_st option \<Rightarrow> 'a ptr \<Rightarrow> nat \<Rightarrow> nat \<times> ('a, 'f) stack_st option" where
  "sk_insert m sk p pos =
     (case sk of
        None \<Rightarrow> (0, None)
      | Some s \<Rightarrow>
          (case
             (if s_num_alloc s \<le> (s_num s + 1) mod SIZE_MOD then
                let new_alloc = (s_num_alloc s * 2) mod SIZE_MOD;
                    alloc_size = (new_alloc * sizeof_ptr) mod SIZE_MOD;
                    overflow = new_alloc < s_num_alloc s \<or> alloc_size div sizeof_ptr \<noteq> new_alloc;
                    new_alloc = (if overflow then (s_num_alloc s + 1) mod SIZE_MOD else new_alloc);
                    alloc_size = (if overflow then (new_alloc * sizeof_ptr) mod SIZE_MOD else alloc_size)
                in if new_alloc < s_num_alloc s \<or> alloc_size div sizeof_ptr \<noteq> new_alloc then None
                   else case realloc_ptrs m (s_data s) alloc_size of
                          None \<Rightarrow> None
                        | Some d \<Rightarrow> Some (s\<lparr>s_data := d, s_num_alloc := new_alloc\<rparr>)
              else Some s) of
             None \<Rightarrow> (0, Some s)
           | Some s1 \<Rightarrow>
               let d = s_data s1;
                   d1 = (if pos \<ge> s_num s1 then d[s_num s1 := p]
                         else take pos d @ p # take (s_num s1 - pos) (drop pos d) @ drop (s_num s1 + 1) d)
               in (s_num s1 + 1, Some (s1\<lparr>s_data := d1, s_num := s_num s1 + 1, s_sorted := False\<rparr>))))"

definition sk_delete :: "('a, 'f) stack_st option \<Rightarrow> nat \<Rightarrow> 'a ptr \<times> ('a, 'f) stack_st option" where
  "sk_delete sk pos =
     (case sk of
        None \<Rightarrow> (None, None)
      | Some s \<Rightarrow>
          if pos \<ge> s_num s then (None, Some s)
          else
            let d = s_data s;
                d1 = (if pos \<noteq> s_num s - 1
                      then take pos d @ take (s_num s - pos - 1) (drop (pos + 1) d) @ drop (s_num s - 1) d
                      else d)
            in (d ! pos, Some (s\<lparr>s_data := d1, s_num := s_num s - 1\<rparr>)))"

definition sk_delete_ptr :: "('a, 'f) stack_st option \<Rightarrow> 'a ptr \<Rightarrow> 'a ptr \<times> ('a, 'f) stack_st option" where
  "sk_delete_ptr sk p =
     (case sk of
        None \<Rightarrow> (None, None)
      | Some s \<Rightarrow>
          (case find (\<lambda>i. s_data s ! i = p) [0..<s_num s] of
             None \<Rightarrow> (None, Some s)
           | Some i \<Rightarrow> sk_delete sk i))"

definition sk_is_sorted :: "('a, 'f) stack_st option \<Rightarrow> bool" where
  "sk_is_sorted sk = (case sk of None \<Rightarrow> True | Some s \<Rightarrow> s_sorted s)"

text \<open>The binary search of \<open>sk_find\<close>; \<open>r i\<close> is the comparison of \<open>p\<close> with the element at \<open>i\<close>.\<close>

function find_loop :: "(nat \<Rightarrow> int) \<Rightarrow> nat \<Rightarrow> nat \<Rightarrow> nat option" where
  "find_loop r lo hi =
     (if lo < hi then
        let mid = lo + (hi - lo - 1) div 2 in
        if r mid > 0 then find_loop r (mid + 1) hi
        else if r mid < 0 then find_loop r lo mid
        else if hi - lo = 1 then Some mid
        else find_loop r lo (mid + 1)
      else None)"
  by pat_completeness auto
termination
  by (relation "measure (\<lambda>(r, lo, hi). hi - lo)") auto

declare find_loop.simps [simp del]

text \<open>The result is \<open>*out_index\<close> when 1 is returned.\<close>

definition sk_find ::
    "('f \<Rightarrow> 'a ptr \<Rightarrow> 'a ptr \<Rightarrow> int) \<Rightarrow> ('a, 'f) stack_st option \<Rightarrow> 'a ptr \<Rightarrow> nat option" where
  "sk_find call_cmp_func sk p =
     (case sk of
        None \<Rightarrow> None
      | Some s \<Rightarrow>
          (case s_comp s of
             None \<Rightarrow> find (\<lambda>i. s_data s ! i = p) [0..<s_num s]
           | Some cmp \<Rightarrow>
               if p = None then None
               else if \<not> sk_is_sorted sk then find (\<lambda>i. call_cmp_func cmp p (s_data s ! i) = 0) [0..<s_num s]
               else find_loop (\<lambda>i. call_cmp_func cmp p (s_data s ! i)) 0 (s_num s)))"

definition sk_shift :: "('a, 'f) stack_st option \<Rightarrow> 'a ptr \<times> ('a, 'f) stack_st option" where
  "sk_shift sk =
     (case sk of
        None \<Rightarrow> (None, None)
      | Some s \<Rightarrow> if s_num s = 0 then (None, Some s) else sk_delete sk 0)"

text \<open>\<open>sk_push\<close> reads \<open>sk->num\<close> without a NULL check; a NULL stack has no result.\<close>

definition sk_push ::
    "'a ptr_alloc \<Rightarrow> ('a, 'f) stack_st option \<Rightarrow> 'a ptr \<Rightarrow> (nat \<times> ('a, 'f) stack_st option) option" where
  "sk_push m sk p = (case sk of None \<Rightarrow> None | Some s \<Rightarrow> Some (sk_insert m sk p (s_num s)))"

definition sk_pop :: "('a, 'f) stack_st option \<Rightarrow> 'a ptr \<times> ('a, 'f) stack_st option" where
  "sk_pop sk =
     (case sk of
        None \<Rightarrow> (None, None)
      | Some s \<Rightarrow> if s_num s = 0 then (None, Some s) else sk_delete sk (s_num s - 1))"

definition sk_dup :: "'a ptr_alloc \<Rightarrow> ('a, 'f) stack_st option \<Rightarrow> ('a, 'f) stack_st option" where
  "sk_dup m sk =
     (case sk of
        None \<Rightarrow> None
      | Some s \<Rightarrow>
          (case sk_new m (s_comp s) of
             None \<Rightarrow> None
           | Some ret \<Rightarrow>
               (case realloc_ptrs m (s_data ret) ((sizeof_ptr * s_num_alloc s) mod SIZE_MOD) of
                  None \<Rightarrow> None
                | Some d \<Rightarrow>
                    Some (ret\<lparr>s_data := take (s_num s) (s_data s) @ drop (s_num s) d, s_num := s_num s,
                          s_sorted := s_sorted s, s_num_alloc := s_num_alloc s, s_comp := s_comp s\<rparr>))))"

definition sk_sort ::
    "('f \<Rightarrow> 'a ptr \<Rightarrow> 'a ptr \<Rightarrow> int) \<Rightarrow> ('a, 'f) stack_st option \<Rightarrow> ('a, 'f) stack_st option" where
  "sk_sort comp_func sk =
     (case sk of
        None \<Rightarrow> None
      | Some s \<Rightarrow>
          (case s_comp s of
             None \<Rightarrow> Some s
           | Some cmp \<Rightarrow>
               if s_sorted s then Some s
               else Some
                 ((if s_num s \<ge> 2
                   then s\<lparr>s_data := qsort (comp_func cmp) (take (s_num s) (s_data s)) @ drop (s_num s) (s_data s)\<rparr>
                   else s)\<lparr>s_sorted := True\<rparr>)))"

definition sk_set_cmp_func :: "('a, 'f) stack_st \<Rightarrow> 'f option \<Rightarrow> 'f option \<times> ('a, 'f) stack_st" where
  "sk_set_cmp_func s cmp =
     (s_comp s, (if s_comp s \<noteq> cmp then s\<lparr>s_sorted := False\<rparr> else s)\<lparr>s_comp := cmp\<rparr>)"

text \<open>
  The loop of \<open>sk_deep_copy\<close> over the copied pointers, the copies made so far first: the new
  pointers, or the copies that are freed when one fails.
\<close>

fun copy_loop :: "('a \<Rightarrow> 'a ptr) \<Rightarrow> 'a ptr list \<Rightarrow> 'a ptr list \<Rightarrow> 'a list + 'a ptr list" where
  "copy_loop copy acc [] = Inr acc"
| "copy_loop copy acc (None # ps) = copy_loop copy (acc @ [None]) ps"
| "copy_loop copy acc (Some x # ps) =
     (case copy x of
        None \<Rightarrow> Inl (map the (filter (\<lambda>p. p \<noteq> None) acc))
      | Some y \<Rightarrow> copy_loop copy (acc @ [Some y]) ps)"

text \<open>The copy, and the pointers \<open>free_func\<close> is called on.\<close>

definition sk_deep_copy ::
    "'a ptr_alloc \<Rightarrow> ('c \<Rightarrow> 'a \<Rightarrow> 'a ptr) \<Rightarrow> 'c \<Rightarrow> ('a, 'f) stack_st option \<Rightarrow> ('a, 'f) stack_st option \<times> 'a list" where
  "sk_deep_copy m call_copy_func copy_func sk =
     (case sk_dup m sk of
        None \<Rightarrow> (None, [])
      | Some ret \<Rightarrow>
          (case copy_loop (call_copy_func copy_func) [] (take (s_num ret) (s_data ret)) of
             Inl freed \<Rightarrow> (None, freed)
           | Inr ps \<Rightarrow> (Some (ret\<lparr>s_data := ps @ drop (s_num ret) (s_data ret)\<rparr>), [])))"

section \<open>The invariant and the contents\<close>

definition elems :: "('a, 'f) stack_st \<Rightarrow> 'a ptr list" where
  "elems s = take (s_num s) (s_data s)"

text \<open>A slot is always free, and the sizes stay far from the width of \<open>size_t\<close>.\<close>

definition stack_ok :: "('a, 'f) stack_st \<Rightarrow> bool" where
  "stack_ok s \<longleftrightarrow> s_num s < s_num_alloc s \<and> length (s_data s) = s_num_alloc s \<and> s_num_alloc s < 2 ^ 58"

text \<open>The flag tells the truth: the elements are in the order of the comparison function.\<close>

definition flag_ok :: "('f \<Rightarrow> 'a ptr \<Rightarrow> 'a ptr \<Rightarrow> int) \<Rightarrow> ('a, 'f) stack_st \<Rightarrow> bool" where
  "flag_ok call s \<longleftrightarrow> (s_sorted s \<longrightarrow> (\<exists>f. s_comp s = Some f \<and> in_order (call f) (elems s)))"

lemma length_elems [simp]: "stack_ok s \<Longrightarrow> length (elems s) = s_num s"
  by (simp add: elems_def stack_ok_def)

lemma nth_elems: "i < s_num s \<Longrightarrow> elems s ! i = s_data s ! i"
  by (simp add: elems_def)

lemma malloc_ptrs_length: "sz < 2 ^ 62 \<Longrightarrow> malloc_ptrs m sz = Some d \<Longrightarrow> length d = sz div 8"
  by (auto simp: malloc_ptrs_def Let_def OPENSSL_MALLOC_PREFIX_def SIZE_MOD_def sizeof_ptr_def)

lemma realloc_ptrs_keeps:
  assumes "n < 2 ^ 59" "realloc_ptrs m old (n * sizeof_ptr) = Some d" "length old \<le> n"
  shows "length d = n" "take (length old) d = old"
proof -
  obtain new where new: "malloc_ptrs m (n * 8) = Some new" "d = take (min (length old) n) old @ drop (min (length old) n) new"
    using assms(2) by (auto simp: realloc_ptrs_def sizeof_ptr_def Let_def split: option.splits)
  have "length new = n" using malloc_ptrs_length [OF _ new(1)] assms(1) by simp
  then show "length d = n" "take (length old) d = old" using new(2) assms(3) by simp_all
qed

lemma sk_new_ok: "sk_new m cmp = Some s \<Longrightarrow> stack_ok s \<and> elems s = [] \<and> \<not> s_sorted s \<and> s_comp s = cmp"
  by (auto simp: sk_new_def stack_ok_def elems_def kMinSize_def sizeof_ptr_def
      dest!: malloc_ptrs_length [rotated] split: option.splits)

text \<open>The growth step of \<open>sk_insert\<close>.\<close>

definition grow :: "'a ptr_alloc \<Rightarrow> ('a, 'f) stack_st \<Rightarrow> ('a, 'f) stack_st option" where
  "grow m s =
     (if s_num_alloc s \<le> s_num s + 1 then
        (case realloc_ptrs m (s_data s) (s_num_alloc s * 2 * sizeof_ptr) of
           None \<Rightarrow> None
         | Some d \<Rightarrow> Some (s\<lparr>s_data := d, s_num_alloc := s_num_alloc s * 2\<rparr>))
      else Some s)"

lemma grow_cases:
  assumes s: "stack_ok s" and small: "s_num s < 2 ^ 56" and g: "grow m s = Some s1"
  shows "stack_ok s1 \<and> s_num s1 + 1 < s_num_alloc s1 \<and> s_num s1 = s_num s \<and> elems s1 = elems s \<and>
    s_comp s1 = s_comp s"
proof (cases "s_num_alloc s \<le> s_num s + 1")
  case True
  then obtain d where d: "realloc_ptrs m (s_data s) (s_num_alloc s * 2 * sizeof_ptr) = Some d"
    "s1 = s\<lparr>s_data := d, s_num_alloc := s_num_alloc s * 2\<rparr>"
    using g by (auto simp: grow_def split: option.splits)
  have eq: "s_num_alloc s = s_num s + 1" using True s by (simp add: stack_ok_def)
  have k: "length d = s_num_alloc s * 2" "take (s_num_alloc s) d = s_data s"
    using realloc_ptrs_keeps [OF _ d(1)] s by (simp_all add: stack_ok_def)
  then have "take (s_num s) d = take (s_num s) (s_data s)"
    using eq by (metis le_add1 min.absorb1 take_take)
  then show ?thesis using k small eq s by (simp add: d(2) stack_ok_def elems_def)
qed (use g s in \<open>simp_all add: grow_def\<close>)

lemma sk_insert_eq:
  assumes s: "stack_ok s" and small: "s_num s < 2 ^ 56"
  shows "sk_insert m (Some s) p pos =
    (case grow m s of
       None \<Rightarrow> (0, Some s)
     | Some s1 \<Rightarrow>
         (s_num s1 + 1, Some (s1\<lparr>s_data :=
            (if pos \<ge> s_num s1 then (s_data s1)[s_num s1 := p]
             else take pos (s_data s1) @ p # take (s_num s1 - pos) (drop pos (s_data s1)) @ drop (s_num s1 + 1) (s_data s1)),
            s_num := s_num s1 + 1, s_sorted := False\<rparr>)))"
proof -
  have a: "s_num_alloc s < 2 ^ 58" using s by (simp add: stack_ok_def)
  have mods: "(s_num s + 1) mod SIZE_MOD = s_num s + 1" "(s_num_alloc s * 2) mod SIZE_MOD = s_num_alloc s * 2"
    "(s_num_alloc s * 2 * sizeof_ptr) mod SIZE_MOD = s_num_alloc s * 2 * sizeof_ptr"
    using small a by (simp_all add: SIZE_MOD_def sizeof_ptr_def)
  have div: "s_num_alloc s * 2 * sizeof_ptr div sizeof_ptr = s_num_alloc s * 2"
    by (simp add: sizeof_ptr_def)
  show ?thesis
    unfolding sk_insert_def grow_def Let_def option.case mods div
    by (auto simp: sizeof_ptr_def split: option.splits)
qed

lemma sk_insert_cases:
  assumes s: "stack_ok s" and small: "s_num s < 2 ^ 56" and r: "sk_insert m (Some s) p pos = (n, sk')"
  shows "n = 0 \<and> sk' = Some s \<and> grow m s = None \<or>
    (\<exists>s'. sk' = Some s' \<and> n = s_num s + 1 \<and> stack_ok s' \<and> elems s' = take pos (elems s) @ p # drop pos (elems s) \<and>
      \<not> s_sorted s' \<and> s_comp s' = s_comp s)"
proof (cases "grow m s")
  case None
  then show ?thesis using r by (simp add: sk_insert_eq [OF s small])
next
  case (Some s1)
  note g = grow_cases [OF s small Some]
  define d where "d = (if pos \<ge> s_num s1 then (s_data s1)[s_num s1 := p]
     else take pos (s_data s1) @ p # take (s_num s1 - pos) (drop pos (s_data s1)) @ drop (s_num s1 + 1) (s_data s1))"
  have r': "n = s_num s1 + 1" "sk' = Some (s1\<lparr>s_data := d, s_num := s_num s1 + 1, s_sorted := False\<rparr>)"
    using r by (auto simp: sk_insert_eq [OF s small] Some d_def)
  have len: "length (s_data s1) = s_num_alloc s1" "s_num s1 + 1 < s_num_alloc s1" using g by (simp_all add: stack_ok_def)
  have "length d = s_num_alloc s1" using len by (simp add: d_def)
  moreover have "take (s_num s1 + 1) d = take pos (elems s1) @ p # drop pos (elems s1)"
  proof (cases "pos \<ge> s_num s1")
    case True
    then show ?thesis using len by (simp add: d_def elems_def take_Suc_conv_app_nth)
  next
    case False
    have "take (s_num s1 - pos) (drop pos (s_data s1)) = drop pos (elems s1)"
      by (simp add: elems_def drop_take)
    moreover have "take pos (s_data s1) = take pos (elems s1)" using False by (simp add: elems_def min_def)
    moreover have "length (take pos (elems s1)) = pos" "length (drop pos (elems s1)) = s_num s1 - pos"
      using False g s by simp_all
    ultimately show ?thesis using False by (simp add: d_def Suc_diff_le)
  qed
  moreover define t where "t = s1\<lparr>s_data := d, s_num := s_num s1 + 1, s_sorted := False\<rparr>"
  moreover have el: "elems t = take (s_num s1 + 1) d" by (simp add: t_def elems_def)
  ultimately have "elems t = take pos (elems s) @ p # drop pos (elems s)" "stack_ok t" "\<not> s_sorted t" "s_comp t = s_comp s"
    using g unfolding el by (simp_all add: stack_ok_def)
  then show ?thesis using r' g unfolding t_def [symmetric] by auto
qed

lemma sk_delete_cases:
  assumes s: "stack_ok s" and pos: "pos < s_num s"
  shows "\<exists>s'. sk_delete (Some s) pos = (elems s ! pos, Some s') \<and> stack_ok s' \<and>
    elems s' = take pos (elems s) @ drop (Suc pos) (elems s) \<and> s_sorted s' = s_sorted s \<and> s_comp s' = s_comp s"
proof -
  let ?d = "s_data s" and ?n = "s_num s"
  have len: "length ?d = s_num_alloc s" "?n < s_num_alloc s" using s by (simp_all add: stack_ok_def)
  define d1 where "d1 = (if pos \<noteq> ?n - 1 then take pos ?d @ take (?n - pos - 1) (drop (pos + 1) ?d) @ drop (?n - 1) ?d else ?d)"
  have "length d1 = s_num_alloc s" using len pos by (simp add: d1_def)
  moreover have "take (?n - 1) d1 = take pos (elems s) @ drop (Suc pos) (elems s)"
  proof (cases "pos = ?n - 1")
    case True
    then show ?thesis using pos s by (simp add: d1_def elems_def min_def)
  next
    case False
    have "take (?n - pos - 1) (drop (pos + 1) ?d) = drop (Suc pos) (elems s)"
      by (simp add: elems_def drop_take)
    moreover have "take pos ?d = take pos (elems s)" using pos by (simp add: elems_def min_def)
    moreover have "length (take pos (elems s)) = pos" "length (drop (Suc pos) (elems s)) = ?n - Suc pos"
      using pos s by simp_all
    ultimately show ?thesis using False pos by (simp add: d1_def)
  qed
  moreover have "sk_delete (Some s) pos = (elems s ! pos, Some (s\<lparr>s_data := d1, s_num := ?n - 1\<rparr>))"
    using pos by (simp add: sk_delete_def Let_def d1_def nth_elems)
  ultimately show ?thesis using s pos by (auto simp: stack_ok_def elems_def)
qed

section \<open>Searching\<close>

text \<open>
  The binary search finds the first match, if the comparison with the elements first is
  positive, then zero, then negative.
\<close>

lemma find_loop_first:
  assumes mono: "\<And>i j. i \<le> j \<Longrightarrow> j < n \<Longrightarrow> (r j > 0 \<longrightarrow> r i > 0) \<and> (r i < 0 \<longrightarrow> r j < 0)"
  shows "hi \<le> n \<Longrightarrow> (\<And>i. i < lo \<Longrightarrow> r i \<noteq> 0) \<Longrightarrow>
    (\<And>k. k < n \<Longrightarrow> r k = 0 \<Longrightarrow> \<exists>k'. lo \<le> k' \<and> k' < hi \<and> r k' = 0) \<Longrightarrow>
    find_loop r lo hi = find (\<lambda>i. r i = (0::int)) [0..<n]"
proof (induction "hi - lo" arbitrary: lo hi rule: less_induct)
  case less
  show ?case
  proof (cases "lo < hi")
    case False
    then have "find (\<lambda>i. r i = 0) [0..<n] = None"
      using less(4) by (fastforce simp: find_None_iff)
    then show ?thesis using False by (simp add: find_loop.simps)
  next
    case True
    define mid where "mid = lo + (hi - lo - 1) div 2"
    have mid: "lo \<le> mid" "mid < hi" "hi - lo \<noteq> 1 \<Longrightarrow> mid + 1 < hi" "hi - lo = 1 \<Longrightarrow> mid = lo"
      using True by (auto simp: mid_def)
    have step: "find_loop r lo hi = (if r mid > 0 then find_loop r (mid + 1) hi
        else if r mid < 0 then find_loop r lo mid
        else if hi - lo = 1 then Some mid else find_loop r lo (mid + 1))"
      using True by (subst find_loop.simps) (simp only: mid_def Let_def if_True)
    consider "r mid > 0" | "r mid < 0" | "r mid = 0" by linarith
    then show ?thesis
    proof cases
      case 1
      then have pos: "r i > 0" if "i \<le> mid" for i using mono [OF that] mid(2) less(2) by simp
      have "find_loop r (mid + 1) hi = find (\<lambda>i. r i = 0) [0..<n]"
      proof (rule less(1))
        show "hi - (mid + 1) < hi - lo" using mid by simp
        show "r i \<noteq> 0" if "i < mid + 1" for i using pos [of i] that by simp
        show "\<exists>k'. mid + 1 \<le> k' \<and> k' < hi \<and> r k' = 0" if kk: "k < n" "r k = 0" for k
        proof -
          obtain k' where k': "k' < hi" "r k' = 0" using less(4) [OF kk] by blast
          then have "\<not> k' \<le> mid" using pos by force
          then show ?thesis using k' by (intro exI [of _ k']) simp
        qed
      qed (rule less(2))
      with 1 show ?thesis by (simp add: step)
    next
      case 2
      then have neg: "r j < 0" if "mid \<le> j" "j < n" for j using mono [OF that] by simp
      have "find_loop r lo mid = find (\<lambda>i. r i = 0) [0..<n]"
      proof (rule less(1))
        show "mid - lo < hi - lo" "mid \<le> n" using mid less(2) by simp_all
        show "r i \<noteq> 0" if "i < lo" for i using less(3) that .
        show "\<exists>k'. lo \<le> k' \<and> k' < mid \<and> r k' = 0" if kk: "k < n" "r k = 0" for k
        proof -
          obtain k' where k': "lo \<le> k'" "k' < hi" "r k' = 0" using less(4) [OF kk] by blast
          then have "\<not> mid \<le> k'" using neg [of k'] less(2) by force
          then show ?thesis using k' by (intro exI [of _ k']) simp
        qed
      qed
      with 2 show ?thesis by (simp add: step)
    next
      case 3
      show ?thesis
      proof (cases "hi - lo = 1")
        case True
        have "find (\<lambda>i. r i = 0) [0..<n] = Some lo"
          using True 3 mid(4) less(2,3) by (auto simp: find_Some_iff intro!: exI [of _ lo])
        then show ?thesis using True 3 mid(4) by (simp add: step)
      next
        case False
        have "find_loop r lo (mid + 1) = find (\<lambda>i. r i = 0) [0..<n]"
        proof (rule less(1))
          show "mid + 1 - lo < hi - lo" "mid + 1 \<le> n" using mid(1) mid(3) [OF False] less(2) by simp_all
          show "r i \<noteq> 0" if "i < lo" for i using less(3) that .
          show "\<exists>k'. lo \<le> k' \<and> k' < mid + 1 \<and> r k' = 0" for k
            using 3 mid(1) by (intro exI [of _ mid]) simp
        qed
        with 3 False show ?thesis by (simp add: step)
      qed
    qed
  qed
qed

lemma sorted_search_mono:
  assumes c: "cmp_ok c" and o: "in_order c xs" and ij: "i \<le> j" "j < length xs"
  shows "(c p (xs ! j) > 0 \<longrightarrow> c p (xs ! i) > 0) \<and> (c p (xs ! i) < 0 \<longrightarrow> c p (xs ! j) < 0)"
proof (cases "i = j")
  case False
  then have le: "c (xs ! i) (xs ! j) \<le> 0" using o ij by (simp add: in_order_def sorted_wrt_iff_nth_less)
  show ?thesis
  proof (intro conjI impI)
    assume "c p (xs ! j) > 0"
    then have "\<not> c p (xs ! j) \<le> 0" by simp
    then have "\<not> c p (xs ! i) \<le> 0" using cmp_trans [OF c _ le] by blast
    then show "c p (xs ! i) > 0" by simp
  next
    assume "c p (xs ! i) < 0"
    then have "\<not> c (xs ! i) p \<le> 0" using cmp_flip(2) [OF c, of p "xs ! i"] by simp
    then have "\<not> c (xs ! j) p \<le> 0" using cmp_trans [OF c le] by blast
    then show "c p (xs ! j) < 0" using cmp_flip(2) [OF c, of p "xs ! j"] by simp
  qed
qed simp

text \<open>With a truthful flag the answer is that of the linear search, whichever search runs.\<close>

lemma sk_find_first:
  assumes "stack_ok s" "flag_ok call s" "s_comp s = Some f" "cmp_ok (call f)"
  shows "sk_find call (Some s) (Some x) =
    find (\<lambda>i. call f (Some x) (elems s ! i) = 0) [0..<length (elems s)]"
proof -
  have same: "find (\<lambda>i. call f (Some x) (s_data s ! i) = 0) [0..<s_num s] =
      find (\<lambda>i. call f (Some x) (elems s ! i) = 0) [0..<length (elems s)]"
    using assms(1) by (auto intro!: find_cong simp: nth_elems)
  show ?thesis
  proof (cases "s_sorted s")
    case False
    then show ?thesis using assms(3) same by (simp add: sk_find_def sk_is_sorted_def)
  next
    case True
    then have o: "in_order (call f) (elems s)" using assms(2,3) by (simp add: flag_ok_def)
    have "find_loop (\<lambda>i. call f (Some x) (s_data s ! i)) 0 (s_num s) =
        find (\<lambda>i. call f (Some x) (s_data s ! i) = 0) [0..<s_num s]"
    proof (rule find_loop_first)
      show "(call f (Some x) (s_data s ! j) > 0 \<longrightarrow> call f (Some x) (s_data s ! i) > 0) \<and>
          (call f (Some x) (s_data s ! i) < 0 \<longrightarrow> call f (Some x) (s_data s ! j) < 0)"
        if "i \<le> j" "j < s_num s" for i j
        using sorted_search_mono [OF assms(4) o that(1), of "Some x"] that assms(1) by (simp add: nth_elems)
    qed auto
    then show ?thesis using True assms(3) same by (simp add: sk_find_def sk_is_sorted_def)
  qed
qed

section \<open>The sorted flag\<close>

lemma in_order_take_drop:
  assumes "in_order c xs"
  shows "in_order c (take i xs @ drop (Suc i) xs)"
proof (cases "i < length xs")
  case True
  have "in_order c (take i xs @ xs ! i # drop (Suc i) xs)"
    using assms id_take_nth_drop [OF True] by simp
  then show ?thesis by (auto simp: in_order_def sorted_wrt_append)
qed (use assms in simp)

lemma sk_sort_spec:
  assumes s: "stack_ok s" and f: "s_comp s = Some f" and c: "cmp_ok (call f)" and fl: "flag_ok call s"
  shows "\<exists>s'. sk_sort call (Some s) = Some s' \<and> stack_ok s' \<and> s_sorted s' \<and> s_comp s' = Some f \<and>
    mset (elems s') = mset (elems s) \<and> in_order (call f) (elems s')"
proof (cases "s_sorted s")
  case True
  then show ?thesis using assms by (simp add: sk_sort_def flag_ok_def)
next
  case False
  have len: "length (qsort (call f) (elems s)) = s_num s"
    using qsort_mset [of "call f" "elems s"] s by (metis length_elems size_mset)
  have short: "in_order (call f) (elems s)" if "s_num s < 2"
  proof -
    have "length (elems s) < 2" using that s by simp
    then show ?thesis by (cases "elems s" rule: remdups_adj.cases) (auto simp: in_order_def)
  qed
  show ?thesis
  proof (cases "s_num s \<ge> 2")
    case True
    then show ?thesis
      using False f s len qsort_mset [of "call f" "elems s"] qsort_in_order [OF c, of "elems s"]
      by (simp add: sk_sort_def stack_ok_def elems_def)
  next
    case small: False
    then show ?thesis using False f s short by (simp add: sk_sort_def stack_ok_def elems_def)
  qed
qed

lemma flag_ok_ops:
  assumes s: "stack_ok s" and fl: "flag_ok call s"
  shows "sk_new m cmp = Some t \<Longrightarrow> flag_ok call t"
    and "sk_zero (Some s) = Some t \<Longrightarrow> flag_ok call t"
    and "s_num s < 2 ^ 56 \<Longrightarrow> sk_insert m (Some s) p pos = (n, Some t) \<Longrightarrow> flag_ok call t"
    and "sk_delete (Some s) pos = (q, Some t) \<Longrightarrow> flag_ok call t"
    and "sk_set_cmp_func s cmp = (old, t) \<Longrightarrow> flag_ok call t"
proof -
  show "sk_new m cmp = Some t \<Longrightarrow> flag_ok call t" by (drule sk_new_ok) (simp add: flag_ok_def)
  show "sk_zero (Some s) = Some t \<Longrightarrow> flag_ok call t"
    using fl by (auto simp: sk_zero_def flag_ok_def split: if_splits)
  show "s_num s < 2 ^ 56 \<Longrightarrow> sk_insert m (Some s) p pos = (n, Some t) \<Longrightarrow> flag_ok call t"
  proof -
    assume small: "s_num s < 2 ^ 56" and ins: "sk_insert m (Some s) p pos = (n, Some t)"
    from sk_insert_cases [OF s small ins] show "flag_ok call t" using fl by (auto simp: flag_ok_def)
  qed
  show "sk_delete (Some s) pos = (q, Some t) \<Longrightarrow> flag_ok call t"
  proof (cases "pos < s_num s")
    case True
    assume d: "sk_delete (Some s) pos = (q, Some t)"
    from sk_delete_cases [OF s True] d show ?thesis
      using fl in_order_take_drop by (auto simp: flag_ok_def)
  qed (use fl in \<open>auto simp: sk_delete_def\<close>)
  show "sk_set_cmp_func s cmp = (old, t) \<Longrightarrow> flag_ok call t"
    using fl by (auto simp: sk_set_cmp_func_def flag_ok_def elems_def split: if_splits)
qed

text \<open>
  \<open>sk_set\<close> is the exception: it leaves the flag set, and the binary search then misses the
  element just stored.
\<close>

definition by_value :: "unit \<Rightarrow> nat ptr \<Rightarrow> nat ptr \<Rightarrow> int" where
  "by_value f x y = int (case x of None \<Rightarrow> 0 | Some a \<Rightarrow> a) - int (case y of None \<Rightarrow> 0 | Some b \<Rightarrow> b)"

definition three :: "(nat, unit) stack_st" where
  "three = \<lparr>s_num = 3, s_data = [Some 2, Some 1, Some 3, None], s_sorted = False, s_num_alloc = 4, s_comp = Some ()\<rparr>"

lemma sk_set_breaks_find:
  "case sk_set (sk_sort by_value (Some three)) 0 (Some 5) of
     (p, sk) \<Rightarrow> p = Some 5 \<and> sk_value sk 0 = Some 5 \<and> sk_is_sorted sk \<and> sk_find by_value sk (Some 5) = None"
proof -
  have sorted: "sk_sort by_value (Some three) =
      Some (three\<lparr>s_data := [Some 1, Some 2, Some 3, None], s_sorted := True\<rparr>)"
    by (simp add: sk_sort_def three_def qsort_def by_value_def numeral_3_eq_3 numeral_2_eq_2)
  show ?thesis
    unfolding sorted
    by (simp add: sk_set_def three_def sk_value_def sk_is_sorted_def sk_find_def find_loop.simps by_value_def
        numeral_2_eq_2 numeral_3_eq_3)
qed

section \<open>The contract of an indexed list\<close>

text \<open>
  Inserting and deleting at an index, below a capacity. A client that pushes and pops at the
  end gets its items back in reverse order.
\<close>

fun push_all :: "('s \<Rightarrow> nat) \<Rightarrow> ('p \<Rightarrow> nat \<Rightarrow> 's \<Rightarrow> 's option) \<Rightarrow> 'p list \<Rightarrow> 's \<Rightarrow> 's option" where
  "push_all size_of ins [] s = Some s"
| "push_all size_of ins (p # ps) s =
     (case ins p (size_of s) s of None \<Rightarrow> None | Some s' \<Rightarrow> push_all size_of ins ps s')"

fun pop_all :: "('s \<Rightarrow> nat) \<Rightarrow> (nat \<Rightarrow> 's \<Rightarrow> 'p \<times> 's) \<Rightarrow> nat \<Rightarrow> 's \<Rightarrow> 'p list \<times> 's" where
  "pop_all size_of del 0 s = ([], s)"
| "pop_all size_of del (Suc n) s =
     (case del (size_of s - 1) s of (p, s') \<Rightarrow> (case pop_all size_of del n s' of (ps, s'') \<Rightarrow> (p # ps, s'')))"

locale indexed_list =
  fixes inv :: "'s \<Rightarrow> bool" and items :: "'s \<Rightarrow> 'p list" and capacity :: nat
    and ins :: "'p \<Rightarrow> nat \<Rightarrow> 's \<Rightarrow> 's option" and del :: "nat \<Rightarrow> 's \<Rightarrow> 'p \<times> 's"
  assumes ins_items: "inv s \<Longrightarrow> length (items s) < capacity \<Longrightarrow> ins p i s = Some s' \<Longrightarrow>
      inv s' \<and> items s' = take i (items s) @ p # drop i (items s)"
    and del_items: "inv s \<Longrightarrow> i < length (items s) \<Longrightarrow> del i s = (x, s') \<Longrightarrow>
      inv s' \<and> x = items s ! i \<and> items s' = take i (items s) @ drop (Suc i) (items s)"
begin

lemma ins_then_del:
  assumes "inv s" "length (items s) < capacity" "ins p i s = Some s1" "i \<le> length (items s)" "del i s1 = (x, s2)"
  shows "x = p \<and> items s2 = items s"
proof -
  have 1: "inv s1" "items s1 = take i (items s) @ p # drop i (items s)" using ins_items [OF assms(1-3)] by simp_all
  then have "i < length (items s1)" "items s1 ! i = p" using assms(4) by (simp_all add: nth_append)
  with del_items [OF 1(1) _ assms(5)] 1(2) assms(4) show ?thesis by simp
qed

lemma push_all_items:
  "inv s \<Longrightarrow> length (items s) + length ps \<le> capacity \<Longrightarrow> push_all (\<lambda>s. length (items s)) ins ps s = Some s' \<Longrightarrow>
     inv s' \<and> items s' = items s @ ps"
proof (induction ps arbitrary: s)
  case (Cons p ps)
  from Cons.prems(3) obtain s1 where s1: "ins p (length (items s)) s = Some s1"
    "push_all (\<lambda>s. length (items s)) ins ps s1 = Some s'" by (auto split: option.splits)
  have "inv s1" "items s1 = items s @ [p]" using ins_items [OF Cons.prems(1) _ s1(1)] Cons.prems(2) by simp_all
  with Cons.IH [OF _ _ s1(2)] Cons.prems(2) show ?case by simp
qed simp

lemma pop_all_items:
  "inv s \<Longrightarrow> items s = xs @ ps \<Longrightarrow> pop_all (\<lambda>s. length (items s)) del (length ps) s = (qs, s') \<Longrightarrow>
     qs = rev ps \<and> items s' = xs \<and> inv s'"
proof (induction ps arbitrary: s qs rule: rev_induct)
  case (snoc p ps)
  obtain x s1 where d: "del (length (items s) - 1) s = (x, s1)" by (cases "del (length (items s) - 1) s")
  have "x = p" "inv s1" "items s1 = xs @ ps"
    using del_items [OF snoc.prems(1) _ d] snoc.prems(2) by (simp_all add: nth_append)
  with snoc d show ?case by (auto split: prod.splits)
qed simp

lemma last_in_first_out:
  assumes "inv s" "length (items s) + length ps \<le> capacity"
    and "push_all (\<lambda>s. length (items s)) ins ps s = Some s1"
    and "pop_all (\<lambda>s. length (items s)) del (length ps) s1 = (qs, s2)"
  shows "qs = rev ps \<and> items s2 = items s"
  using push_all_items [OF assms(1-3)] pop_all_items [OF _ _ assms(4)] by auto

end

definition stack_insert :: "'a ptr_alloc \<Rightarrow> 'a ptr \<Rightarrow> nat \<Rightarrow> ('a, 'f) stack_st \<Rightarrow> ('a, 'f) stack_st option" where
  "stack_insert m p i s = (case sk_insert m (Some s) p i of (n, sk') \<Rightarrow> if n = 0 then None else sk')"

definition stack_delete :: "nat \<Rightarrow> ('a, 'f) stack_st \<Rightarrow> 'a ptr \<times> ('a, 'f) stack_st" where
  "stack_delete i s = (case sk_delete (Some s) i of (p, sk') \<Rightarrow> (p, case sk' of None \<Rightarrow> s | Some s' \<Rightarrow> s'))"

interpretation pointer_list: indexed_list stack_ok elems "2 ^ 56" "stack_insert m" stack_delete for m
proof
  show "stack_ok s' \<and> elems s' = take i (elems s) @ p # drop i (elems s)"
    if "stack_ok s" "length (elems s) < 2 ^ 56" "stack_insert m p i s = Some s'" for s s' :: "('a, 'f) stack_st" and p i
    using sk_insert_cases [of s m p i "fst (sk_insert m (Some s) p i)" "snd (sk_insert m (Some s) p i)"] that
    by (auto simp: stack_insert_def split: prod.splits if_splits)
  show "stack_ok s' \<and> x = elems s ! i \<and> elems s' = take i (elems s) @ drop (Suc i) (elems s)"
    if "stack_ok s" "i < length (elems s)" "stack_delete i s = (x, s')" for s s' :: "('a, 'f) stack_st" and x i
    using sk_delete_cases [of s i] that by (auto simp: stack_delete_def)
qed

lemma sk_push_then_pop:
  assumes s: "stack_ok s" and small: "s_num s < 2 ^ 56" and p: "sk_push m (Some s) p = Some (n, Some s1)" "n \<noteq> 0"
  shows "\<exists>s2. sk_pop (Some s1) = (p, Some s2) \<and> stack_ok s2 \<and> elems s2 = elems s"
proof -
  have ins: "sk_insert m (Some s) p (s_num s) = (n, Some s1)" using p(1) by (simp add: sk_push_def)
  from sk_insert_cases [OF s small ins] p(2) have s1: "stack_ok s1" "n = s_num s + 1" "length (elems s1) = s_num s + 1"
    using s by auto
  then have n1: "s_num s1 = s_num s + 1" by simp
  obtain s2 where s2: "sk_delete (Some s1) (s_num s) = (elems s1 ! s_num s, Some s2)" "stack_ok s2"
    using sk_delete_cases [OF s1(1), of "s_num s"] n1 by auto
  have "elems s1 ! s_num s = p \<and> elems s2 = elems s"
    using pointer_list.ins_then_del [OF s _ _ _, of m p "s_num s" s1] ins p(2) s2 s small
    by (simp add: stack_insert_def stack_delete_def)
  then show ?thesis using s2 n1 by (simp add: sk_pop_def)
qed

section \<open>Copies\<close>

lemma sk_dup_spec:
  assumes s: "stack_ok s" and d: "sk_dup m (Some s) = Some t"
  shows "stack_ok t \<and> elems t = elems s \<and> s_sorted t = s_sorted s \<and> s_comp t = s_comp s"
proof -
  obtain ret d' where r: "sk_new m (s_comp s) = Some ret"
    "realloc_ptrs m (s_data ret) ((sizeof_ptr * s_num_alloc s) mod SIZE_MOD) = Some d'"
    "t = ret\<lparr>s_data := take (s_num s) (s_data s) @ drop (s_num s) d', s_num := s_num s,
        s_sorted := s_sorted s, s_num_alloc := s_num_alloc s, s_comp := s_comp s\<rparr>"
    using d by (auto simp: sk_dup_def split: option.splits)
  have "(sizeof_ptr * s_num_alloc s) mod SIZE_MOD = s_num_alloc s * 8"
    using s by (simp add: sizeof_ptr_def SIZE_MOD_def stack_ok_def)
  then obtain new where "malloc_ptrs m (s_num_alloc s * 8) = Some new"
    "d' = take (min (length (s_data ret)) (s_num_alloc s)) (s_data ret) @ drop (min (length (s_data ret)) (s_num_alloc s)) new"
    using r(2) by (auto simp: realloc_ptrs_def Let_def sizeof_ptr_def split: option.splits)
  moreover from this have "length new = s_num_alloc s"
    using malloc_ptrs_length [of "s_num_alloc s * 8" m new] s by (simp add: stack_ok_def)
  ultimately have "length d' = s_num_alloc s" by simp
  then show ?thesis using s by (simp add: r(3) stack_ok_def elems_def)
qed

text \<open>NULL stays NULL; every other pointer is copied.\<close>

definition copied :: "('a \<Rightarrow> 'a ptr) \<Rightarrow> 'a ptr \<Rightarrow> 'a ptr" where
  "copied copy p = (case p of None \<Rightarrow> None | Some x \<Rightarrow> copy x)"

lemma copy_loop_ok:
  "\<forall>x. Some x \<in> set ps \<longrightarrow> copy x \<noteq> None \<Longrightarrow> copy_loop copy acc ps = Inr (acc @ map (copied copy) ps)"
  by (induction copy acc ps rule: copy_loop.induct) (auto simp: copied_def)

lemma copy_loop_fails:
  "\<forall>x. Some x \<in> set xs \<longrightarrow> copy x \<noteq> None \<Longrightarrow> copy y = None \<Longrightarrow>
     copy_loop copy acc (xs @ Some y # zs) = Inl (map the (filter (\<lambda>p. p \<noteq> None) (acc @ map (copied copy) xs)))"
  by (induction copy acc xs rule: copy_loop.induct) (auto simp: copied_def)

lemma sk_deep_copy_ok:
  assumes s: "stack_ok s" and d: "sk_dup m (Some s) = Some t"
    and all: "\<forall>x. Some x \<in> set (elems s) \<longrightarrow> call f x \<noteq> None"
  shows "\<exists>u. sk_deep_copy m call f (Some s) = (Some u, []) \<and> stack_ok u \<and>
    elems u = map (copied (call f)) (elems s) \<and> s_sorted u = s_sorted s"
proof -
  note t = sk_dup_spec [OF s d]
  have "copy_loop (call f) [] (take (s_num t) (s_data t)) = Inr (map (copied (call f)) (elems s))"
    using copy_loop_ok [OF all, of "[]"] t by (simp add: elems_def)
  moreover have "s_num t = s_num s" using t s by (metis length_elems)
  ultimately show ?thesis using t d s by (auto simp: sk_deep_copy_def stack_ok_def elems_def)
qed

lemma sk_deep_copy_fails:
  assumes s: "stack_ok s" and d: "sk_dup m (Some s) = Some t"
    and el: "elems s = xs @ Some y # zs" "\<forall>x. Some x \<in> set xs \<longrightarrow> call f x \<noteq> None" "call f y = None"
  shows "sk_deep_copy m call f (Some s) = (None, map the (filter (\<lambda>p. p \<noteq> None) (map (copied (call f)) xs)))"
proof -
  note t = sk_dup_spec [OF s d]
  have "take (s_num t) (s_data t) = xs @ Some y # zs" using t el(1) by (simp add: elems_def)
  then show ?thesis using d copy_loop_fails [where copy = "call f" and acc = "[]", OF el(2,3)] by (simp add: sk_deep_copy_def)
qed

end
