(* ===== verification/Lhash.thy ===== *)
theory Lhash
  imports Libc Mem
begin

text \<open>
  \<^verbatim>\<open>crypto/lhash/lhash.c\<close>: the chaining hash table that grows and shrinks with its contents.

  A chain is the list of its items, in the order of the \<open>next\<close> pointers; an item carries the
  address \<open>OPENSSL_malloc\<close> gave it, because the iteration holds pointers to items while the
  caller's function runs. A pointer to a pointer, as the search returns, is the position of the
  pointer: the bucket and the number of items before it in the chain. The hash and comparison
  functions of the table are values of their own types, to which the callers' wrappers
  (\<open>call_hash_func\<close>, \<open>call_cmp_func\<close>) give a meaning, as in the source.
\<close>

section \<open>Code\<close>

record 'a lhash_item =
  i_addr :: nat
  i_data :: "'a ptr"
  i_hash :: u32

record ('a, 'h, 'c) lhash_st =
  lh_items :: nat
  lh_buckets :: "'a lhash_item list list"
  lh_num_buckets :: nat
  lh_callback_depth :: u32
  lh_comp :: 'c
  lh_hash :: 'h

text \<open>\<open>malloc\<close>: the address of the block for a size, or NULL; the size goes through the prefix.\<close>

type_synonym addr_alloc = "nat \<Rightarrow> nat option"

definition malloc_addr :: "addr_alloc \<Rightarrow> nat \<Rightarrow> nat option" where
  "malloc_addr m sz = m ((sz + OPENSSL_MALLOC_PREFIX) mod SIZE_MOD)"

definition sizeof_LHASH :: nat where
  "sizeof_LHASH = 48"

definition sizeof_LHASH_ITEM :: nat where
  "sizeof_LHASH_ITEM = 24"

definition kMinNumBuckets :: nat where
  "kMinNumBuckets = 16"

definition kMaxAverageChainLength :: nat where
  "kMaxAverageChainLength = 2"

definition kMinAverageChainLength :: nat where
  "kMinAverageChainLength = 1"

definition lh_new :: "addr_alloc \<Rightarrow> 'h \<Rightarrow> 'c \<Rightarrow> ('a, 'h, 'c) lhash_st option" where
  "lh_new m hash cmp =
     (case (malloc_addr m sizeof_LHASH, malloc_addr m (sizeof_ptr * kMinNumBuckets)) of
        (Some _, Some _) \<Rightarrow>
          Some \<lparr>lh_items = 0, lh_buckets = replicate kMinNumBuckets [], lh_num_buckets = kMinNumBuckets,
                lh_callback_depth = 0, lh_comp = cmp, lh_hash = hash\<rparr>
      | _ \<Rightarrow> None)"

text \<open>The addresses of the items \<open>lh_free\<close> hands to \<open>OPENSSL_free\<close>, in order.\<close>

definition lh_free :: "('a, 'h, 'c) lhash_st option \<Rightarrow> nat list" where
  "lh_free lh =
     (case lh of
        None \<Rightarrow> []
      | Some t \<Rightarrow> concat (map (\<lambda>i. map i_addr (lh_buckets t ! i)) [0..<lh_num_buckets t]))"

definition lh_num_items :: "('a, 'h, 'c) lhash_st \<Rightarrow> nat" where
  "lh_num_items lh = lh_items lh"

text \<open>The loop of the searches: how many \<open>next\<close> pointers are followed.\<close>

fun chain_pos :: "('a ptr \<Rightarrow> int) \<Rightarrow> 'a lhash_item list \<Rightarrow> nat" where
  "chain_pos cmp [] = 0"
| "chain_pos cmp (cur # chain) = (if cmp (i_data cur) = 0 then 0 else Suc (chain_pos cmp chain))"

definition get_next_ptr_and_hash ::
    "('h \<Rightarrow> 'a ptr \<Rightarrow> u32) \<Rightarrow> ('c \<Rightarrow> 'a ptr \<Rightarrow> 'a ptr \<Rightarrow> int) \<Rightarrow> ('a, 'h, 'c) lhash_st \<Rightarrow> 'a ptr \<Rightarrow>
     u32 \<times> nat \<times> nat" where
  "get_next_ptr_and_hash call_hash call_cmp lh data =
     (let hash = call_hash (lh_hash lh) data;
          b = unat hash mod lh_num_buckets lh
      in (hash, b, chain_pos (\<lambda>d. call_cmp (lh_comp lh) d data) (lh_buckets lh ! b)))"

definition get_next_ptr_by_key ::
    "('a, 'h, 'c) lhash_st \<Rightarrow> 'k \<Rightarrow> u32 \<Rightarrow> ('k \<Rightarrow> 'a ptr \<Rightarrow> int) \<Rightarrow> nat \<times> nat" where
  "get_next_ptr_by_key lh key key_hash cmp_key =
     (let b = unat key_hash mod lh_num_buckets lh in (b, chain_pos (cmp_key key) (lh_buckets lh ! b)))"

text \<open>\<open>*next_ptr\<close>\<close>

definition deref :: "('a, 'h, 'c) lhash_st \<Rightarrow> nat \<Rightarrow> nat \<Rightarrow> 'a lhash_item option" where
  "deref lh b k = (if k < length (lh_buckets lh ! b) then Some (lh_buckets lh ! b ! k) else None)"

definition lh_retrieve ::
    "('h \<Rightarrow> 'a ptr \<Rightarrow> u32) \<Rightarrow> ('c \<Rightarrow> 'a ptr \<Rightarrow> 'a ptr \<Rightarrow> int) \<Rightarrow> ('a, 'h, 'c) lhash_st \<Rightarrow> 'a ptr \<Rightarrow> 'a ptr" where
  "lh_retrieve call_hash call_cmp lh data =
     (case get_next_ptr_and_hash call_hash call_cmp lh data of
        (_, b, k) \<Rightarrow> (case deref lh b k of None \<Rightarrow> None | Some it \<Rightarrow> i_data it))"

definition lh_retrieve_key ::
    "('a, 'h, 'c) lhash_st \<Rightarrow> 'k \<Rightarrow> u32 \<Rightarrow> ('k \<Rightarrow> 'a ptr \<Rightarrow> int) \<Rightarrow> 'a ptr" where
  "lh_retrieve_key lh key key_hash cmp_key =
     (case get_next_ptr_by_key lh key key_hash cmp_key of
        (b, k) \<Rightarrow> (case deref lh b k of None \<Rightarrow> None | Some it \<Rightarrow> i_data it))"

text \<open>The body of the inner loop: the item goes to the head of its new chain.\<close>

definition move_item :: "nat \<Rightarrow> 'a lhash_item list list \<Rightarrow> 'a lhash_item \<Rightarrow> 'a lhash_item list list" where
  "move_item n new_buckets cur =
     (let b = unat (i_hash cur) mod n in new_buckets[b := cur # new_buckets ! b])"

definition lh_rebucket :: "addr_alloc \<Rightarrow> ('a, 'h, 'c) lhash_st \<Rightarrow> nat \<Rightarrow> ('a, 'h, 'c) lhash_st" where
  "lh_rebucket m lh new_num_buckets =
     (let alloc_size = (sizeof_ptr * new_num_buckets) mod SIZE_MOD in
      if alloc_size div sizeof_ptr \<noteq> new_num_buckets then lh
      else case malloc_addr m alloc_size of
             None \<Rightarrow> lh
           | Some _ \<Rightarrow>
               lh\<lparr>lh_buckets :=
                    foldl (\<lambda>nb i. foldl (move_item new_num_buckets) nb (lh_buckets lh ! i))
                      (replicate new_num_buckets []) [0..<lh_num_buckets lh],
                  lh_num_buckets := new_num_buckets\<rparr>)"

definition lh_maybe_resize :: "addr_alloc \<Rightarrow> ('a, 'h, 'c) lhash_st \<Rightarrow> ('a, 'h, 'c) lhash_st" where
  "lh_maybe_resize m lh =
     (if lh_callback_depth lh > 0 then lh
      else
        let avg_chain_length = lh_items lh div lh_num_buckets lh in
        if avg_chain_length > kMaxAverageChainLength then
          let new_num_buckets = (lh_num_buckets lh * 2) mod SIZE_MOD
          in if new_num_buckets > lh_num_buckets lh then lh_rebucket m lh new_num_buckets else lh
        else if avg_chain_length < kMinAverageChainLength \<and> lh_num_buckets lh > kMinNumBuckets then
          let n = lh_num_buckets lh div 2;
              new_num_buckets = (if n < kMinNumBuckets then kMinNumBuckets else n)
          in lh_rebucket m lh new_num_buckets
        else lh)"

text \<open>The result, \<open>*old_data\<close> and the table.\<close>

definition lh_insert ::
    "('h \<Rightarrow> 'a ptr \<Rightarrow> u32) \<Rightarrow> ('c \<Rightarrow> 'a ptr \<Rightarrow> 'a ptr \<Rightarrow> int) \<Rightarrow> addr_alloc \<Rightarrow> ('a, 'h, 'c) lhash_st \<Rightarrow> 'a ptr \<Rightarrow>
     nat \<times> 'a ptr \<times> ('a, 'h, 'c) lhash_st" where
  "lh_insert call_hash call_cmp m lh data =
     (case get_next_ptr_and_hash call_hash call_cmp lh data of
        (hash, b, k) \<Rightarrow>
          (case deref lh b k of
             Some it \<Rightarrow>
               (1, i_data it,
                lh\<lparr>lh_buckets := (lh_buckets lh)[b := (lh_buckets lh ! b)[k := it\<lparr>i_data := data\<rparr>]]\<rparr>)
           | None \<Rightarrow>
               (case malloc_addr m sizeof_LHASH_ITEM of
                  None \<Rightarrow> (0, None, lh)
                | Some addr \<Rightarrow>
                    let item = \<lparr>i_addr = addr, i_data = data, i_hash = hash\<rparr>;
                        lh1 = lh\<lparr>lh_buckets := (lh_buckets lh)[b := lh_buckets lh ! b @ [item]],
                                 lh_items := (lh_items lh + 1) mod SIZE_MOD\<rparr>
                    in (1, None, lh_maybe_resize m lh1))))"

definition lh_delete ::
    "('h \<Rightarrow> 'a ptr \<Rightarrow> u32) \<Rightarrow> ('c \<Rightarrow> 'a ptr \<Rightarrow> 'a ptr \<Rightarrow> int) \<Rightarrow> addr_alloc \<Rightarrow> ('a, 'h, 'c) lhash_st \<Rightarrow> 'a ptr \<Rightarrow>
     'a ptr \<times> ('a, 'h, 'c) lhash_st" where
  "lh_delete call_hash call_cmp m lh data =
     (case get_next_ptr_and_hash call_hash call_cmp lh data of
        (_, b, k) \<Rightarrow>
          (case deref lh b k of
             None \<Rightarrow> (None, lh)
           | Some item \<Rightarrow>
               let chain = lh_buckets lh ! b;
                   lh1 = lh\<lparr>lh_buckets := (lh_buckets lh)[b := take k chain @ drop (Suc k) chain],
                            lh_items := (lh_items lh + (SIZE_MOD - 1)) mod SIZE_MOD\<rparr>
               in (i_data item, lh_maybe_resize m lh1)))"

text \<open>
  The iteration. \<open>func\<close> may do anything to the state it shares with the caller and to the
  table. Following a pointer finds the item at that address and the address of the next one;
  an address that is no longer in the table is freed memory, and reading it has no defined
  result: \<open>None\<close>. So is an iteration that never ends.
\<close>

definition head_addr :: "'a lhash_item list \<Rightarrow> nat option" where
  "head_addr chain = (case chain of [] \<Rightarrow> None | it # _ \<Rightarrow> Some (i_addr it))"

fun chain_at :: "nat \<Rightarrow> 'a lhash_item list \<Rightarrow> ('a lhash_item \<times> nat option) option" where
  "chain_at a [] = None"
| "chain_at a (it # chain) = (if i_addr it = a then Some (it, head_addr chain) else chain_at a chain)"

fun item_at :: "nat \<Rightarrow> 'a lhash_item list list \<Rightarrow> ('a lhash_item \<times> nat option) option" where
  "item_at a [] = None"
| "item_at a (chain # rest) = (case chain_at a chain of None \<Rightarrow> item_at a rest | Some r \<Rightarrow> Some r)"

type_synonym ('a, 'h, 'c, 's) callback =
  "'a ptr \<Rightarrow> 's \<times> ('a, 'h, 'c) lhash_st \<Rightarrow> 's \<times> ('a, 'h, 'c) lhash_st"

partial_function (option) doall_chain ::
    "('a, 'h, 'c, 's) callback \<Rightarrow> nat option \<Rightarrow> 's \<times> ('a, 'h, 'c) lhash_st \<Rightarrow>
     ('s \<times> ('a, 'h, 'c) lhash_st) option" where
  [code]: "doall_chain func cur st =
     (case cur of
        None \<Rightarrow> Some st
      | Some a \<Rightarrow>
          (case item_at a (lh_buckets (snd st)) of
             None \<Rightarrow> None
           | Some (it, nxt) \<Rightarrow> doall_chain func nxt (func (i_data it) st)))"

partial_function (option) doall_buckets ::
    "('a, 'h, 'c, 's) callback \<Rightarrow> nat \<Rightarrow> 's \<times> ('a, 'h, 'c) lhash_st \<Rightarrow>
     ('s \<times> ('a, 'h, 'c) lhash_st) option" where
  [code]: "doall_buckets func i st =
     (if i < lh_num_buckets (snd st) then
        case doall_chain func (head_addr (lh_buckets (snd st) ! i)) st of
          None \<Rightarrow> None
        | Some st' \<Rightarrow> doall_buckets func (Suc i) st'
      else Some st)"

definition lh_doall_arg ::
    "addr_alloc \<Rightarrow> ('a, 'h, 'c, 's) callback \<Rightarrow> 's \<Rightarrow> ('a, 'h, 'c) lhash_st option \<Rightarrow>
     ('s \<times> ('a, 'h, 'c) lhash_st option) option" where
  "lh_doall_arg m func s lh =
     (case lh of
        None \<Rightarrow> Some (s, None)
      | Some t \<Rightarrow>
          let t1 = (if lh_callback_depth t < - 1 then t\<lparr>lh_callback_depth := lh_callback_depth t + 1\<rparr> else t) in
          (case doall_buckets func 0 (s, t1) of
             None \<Rightarrow> None
           | Some (s', t2) \<Rightarrow>
               let t3 = (if lh_callback_depth t2 < - 1 then t2\<lparr>lh_callback_depth := lh_callback_depth t2 - 1\<rparr>
                         else t2)
               in Some (s', Some (lh_maybe_resize m t3))))"

definition lh_strhash :: "u8 list option \<Rightarrow> u32 option" where
  "lh_strhash c = (case c of None \<Rightarrow> Some 0 | Some s \<Rightarrow> map_option (OPENSSL_hash32 s) (strlen s))"

end
