(* ===== verification/Lhash_Map.thy ===== *)
theory Lhash_Map
  imports Lhash
begin

text \<open>
  The hash table of \<open>Lhash\<close> as a map: the invariant of the table, the map it stands for, what
  each operation does to the map, and the iteration.
\<close>

section \<open>Items\<close>

definition items_of :: "('a, 'h, 'c) lhash_st \<Rightarrow> 'a lhash_item multiset" where
  "items_of lh = mset (concat (lh_buckets lh))"

lemma bucket_update:
  "b < length bs \<Longrightarrow> mset (concat (bs[b := c])) + mset (bs ! b) = mset (concat bs) + mset c"
  by (induction bs arbitrary: b) (auto split: nat.splits simp: union_ac)

lemma bucket_mem: "b < length bs \<Longrightarrow> x \<in> set (bs ! b) \<Longrightarrow> x \<in># mset (concat bs)"
  by auto

lemma mem_bucket: "x \<in> set (concat bs) \<Longrightarrow> \<exists>b<length bs. x \<in> set (bs ! b)"
  by simp (metis in_set_conv_nth)

text \<open>No two items are equal under \<open>eq\<close>: the only item equal to one of the items is itself.\<close>

definition uniq :: "('a ptr \<Rightarrow> 'a ptr \<Rightarrow> bool) \<Rightarrow> 'a lhash_item multiset \<Rightarrow> bool" where
  "uniq eq M \<longleftrightarrow> (\<forall>x\<in>#M. filter_mset (\<lambda>y. eq (i_data y) (i_data x)) M = {#x#})"

lemma uniq_eq:
  assumes "uniq eq M" "x \<in># M" "y \<in># M" "eq (i_data y) (i_data x)"
  shows "y = x"
proof -
  have "y \<in># filter_mset (\<lambda>y. eq (i_data y) (i_data x)) M" using assms(3,4) by simp
  moreover have "filter_mset (\<lambda>y. eq (i_data y) (i_data x)) M = {#x#}" using assms(1,2) by (simp add: uniq_def)
  ultimately show ?thesis by simp
qed

lemma uniq_others:
  assumes u: "uniq eq M" and x: "x \<in># M" and y: "y \<in># M - {#x#}"
  shows "\<not> eq (i_data y) (i_data x)"
proof
  assume e: "eq (i_data y) (i_data x)"
  let ?F = "filter_mset (\<lambda>y. eq (i_data y) (i_data x))"
  have fx: "?F M = {#x#}" using u x by (simp add: uniq_def)
  have "y \<in># ?F (M - {#x#})" using y e by (simp del: filter_diff_mset)
  then have ne: "?F (M - {#x#}) \<noteq> {#}" by auto
  have "M = add_mset x (M - {#x#})" using x by simp
  then have "?F M = ?F (add_mset x (M - {#x#}))" by simp
  moreover have "x \<in># ?F M" using fx by simp
  then have "eq (i_data x) (i_data x)" by simp
  ultimately show False using fx ne by simp
qed

lemma uniq_remove:
  assumes u: "uniq eq M" and x: "x \<in># M"
  shows "uniq eq (M - {#x#})"
  unfolding uniq_def
proof
  fix y assume y: "y \<in># M - {#x#}"
  let ?F = "filter_mset (\<lambda>z. eq (i_data z) (i_data y))"
  have M: "M = add_mset x (M - {#x#})" using x by simp
  have "?F M = {#y#}" using u y by (auto simp: uniq_def dest: in_diffD)
  then have f: "?F (add_mset x (M - {#x#})) = {#y#}" using M by simp
  have "y \<in># M" using y by (rule in_diffD)
  then have "y \<in># ?F M" using u by (simp add: uniq_def)
  then have "y \<in># ?F (M - {#x#})" using y by (simp del: filter_diff_mset)
  then show "?F (M - {#x#}) = {#y#}" using f by (auto split: if_splits)
qed

lemma uniq_add:
  assumes u: "uniq eq M" and new: "\<And>y. y \<in># M \<Longrightarrow> \<not> eq (i_data y) (i_data x) \<and> \<not> eq (i_data x) (i_data y)"
    and refl: "eq (i_data x) (i_data x)"
  shows "uniq eq (add_mset x M)"
  using u new refl by (auto simp: uniq_def filter_mset_eq_mempty_iff)

section \<open>The invariant\<close>

text \<open>
  Every item is in the bucket of its hash; the number of buckets is a power of two, at least
  \<open>kMinNumBuckets\<close> (which the \<open>assert\<close> of \<open>lh_maybe_resize\<close> checks) and small enough for the
  array to be allocated; \<open>num_items\<close> counts the items.
\<close>

definition placed :: "nat \<Rightarrow> 'a lhash_item list list \<Rightarrow> bool" where
  "placed n bs \<longleftrightarrow> length bs = n \<and> (\<forall>b<n. \<forall>it\<in>set (bs ! b). unat (i_hash it) mod n = b)"

definition lh_shape :: "('a, 'h, 'c) lhash_st \<Rightarrow> bool" where
  "lh_shape lh \<longleftrightarrow> placed (lh_num_buckets lh) (lh_buckets lh) \<and>
     (\<exists>k. 4 \<le> k \<and> k \<le> 60 \<and> lh_num_buckets lh = 2 ^ k) \<and>
     lh_items lh = size (items_of lh) mod SIZE_MOD"

text \<open>Equality of elements, and what the caller's functions promise: elements that compare equal form classes, and have the same hash.\<close>

definition lh_eq :: "('c \<Rightarrow> 'a ptr \<Rightarrow> 'a ptr \<Rightarrow> int) \<Rightarrow> ('a, 'h, 'c) lhash_st \<Rightarrow> 'a ptr \<Rightarrow> 'a ptr \<Rightarrow> bool" where
  "lh_eq call_cmp lh a b \<longleftrightarrow> call_cmp (lh_comp lh) a b = 0"

definition lh_contract ::
    "('h \<Rightarrow> 'a ptr \<Rightarrow> u32) \<Rightarrow> ('c \<Rightarrow> 'a ptr \<Rightarrow> 'a ptr \<Rightarrow> int) \<Rightarrow> 'h \<Rightarrow> 'c \<Rightarrow> bool" where
  "lh_contract call_hash call_cmp h c \<longleftrightarrow>
     (\<forall>a. call_cmp c a a = 0) \<and> (\<forall>a b. call_cmp c a b = 0 \<longrightarrow> call_cmp c b a = 0) \<and>
     (\<forall>x y z. call_cmp c x y = 0 \<longrightarrow> call_cmp c y z = 0 \<longrightarrow> call_cmp c x z = 0) \<and>
     (\<forall>a b. call_cmp c a b = 0 \<longrightarrow> call_hash h a = call_hash h b)"

definition lh_ok ::
    "('h \<Rightarrow> 'a ptr \<Rightarrow> u32) \<Rightarrow> ('c \<Rightarrow> 'a ptr \<Rightarrow> 'a ptr \<Rightarrow> int) \<Rightarrow> ('a, 'h, 'c) lhash_st \<Rightarrow> bool" where
  "lh_ok call_hash call_cmp lh \<longleftrightarrow>
     lh_shape lh \<and> lh_contract call_hash call_cmp (lh_hash lh) (lh_comp lh) \<and>
     (\<forall>x\<in>#items_of lh. i_hash x = call_hash (lh_hash lh) (i_data x)) \<and>
     uniq (lh_eq call_cmp lh) (items_of lh)"

lemma lh_eq_props:
  assumes "lh_ok ch cc lh"
  shows "lh_eq cc lh a a" "lh_eq cc lh a b \<Longrightarrow> lh_eq cc lh b a"
    "lh_eq cc lh a b \<Longrightarrow> lh_eq cc lh b c \<Longrightarrow> lh_eq cc lh a c"
    "lh_eq cc lh a b \<Longrightarrow> ch (lh_hash lh) a = ch (lh_hash lh) b"
  using assms unfolding lh_ok_def lh_contract_def lh_eq_def by metis+

lemma lh_shape_num:
  assumes "lh_shape lh"
  shows "0 < lh_num_buckets lh" "kMinNumBuckets \<le> lh_num_buckets lh" "lh_num_buckets lh \<le> 2 ^ 60"
    "length (lh_buckets lh) = lh_num_buckets lh"
proof -
  obtain k where k: "4 \<le> k" "k \<le> 60" "lh_num_buckets lh = 2 ^ k" using assms by (auto simp: lh_shape_def)
  have "(2::nat) ^ 4 \<le> 2 ^ k" "(2::nat) ^ k \<le> 2 ^ 60" using k by (simp_all only: power_increasing_iff)
  then show "0 < lh_num_buckets lh" "kMinNumBuckets \<le> lh_num_buckets lh" "lh_num_buckets lh \<le> 2 ^ 60"
    using k(3) by (simp_all add: kMinNumBuckets_def)
  show "length (lh_buckets lh) = lh_num_buckets lh" using assms by (simp add: lh_shape_def placed_def)
qed

lemma placed_update:
  "placed n bs \<Longrightarrow> b < n \<Longrightarrow> (\<And>it. it \<in> set c \<Longrightarrow> unat (i_hash it) mod n = b) \<Longrightarrow> placed n (bs[b := c])"
  by (auto simp: placed_def nth_list_update split: if_splits)

lemma placed_nth: "placed n bs \<Longrightarrow> b < n \<Longrightarrow> it \<in> set (bs ! b) \<Longrightarrow> unat (i_hash it) mod n = b"
  by (simp add: placed_def)

section \<open>Resizing\<close>

lemma move_all:
  assumes "0 < n" "placed n nb"
  shows "placed n (foldl (move_item n) nb xs) \<and>
    mset (concat (foldl (move_item n) nb xs)) = mset (concat nb) + mset xs"
  using assms(2)
proof (induction xs arbitrary: nb)
  case (Cons x xs)
  let ?b = "unat (i_hash x) mod n"
  have b: "?b < n" using assms(1) by simp
  have p: "placed n (move_item n nb x)"
    using Cons.prems b by (auto simp: move_item_def Let_def intro!: placed_update dest: placed_nth)
  have "mset (concat (move_item n nb x)) = add_mset x (mset (concat nb))"
    using bucket_update [of ?b nb "x # nb ! ?b"] Cons.prems b by (simp add: move_item_def Let_def placed_def)
  with Cons.IH [OF p] show ?case by simp
qed simp

lemma foldl_foldl: "foldl (\<lambda>acc i. foldl f acc (g i)) a is = foldl f a (concat (map g is))"
  by (induction "is" arbitrary: a) simp_all

lemma lh_rebucket_cases:
  assumes s: "lh_shape lh" and n: "n = 2 ^ k" "4 \<le> k"
  shows "lh_shape (lh_rebucket m lh n) \<and> items_of (lh_rebucket m lh n) = items_of lh"
proof -
  have n0: "0 < n" using n by simp
  let ?nb = "foldl (move_item n) (replicate n []) (concat (lh_buckets lh))"
  have "placed n (replicate n [])" by (simp add: placed_def)
  note nb = move_all [OF n0 this, of "concat (lh_buckets lh)"]
  have "concat (map ((!) (lh_buckets lh)) [0..<lh_num_buckets lh]) = concat (lh_buckets lh)"
    using lh_shape_num(4) [OF s] map_nth by metis
  then have eq: "foldl (\<lambda>nb i. foldl (move_item n) nb (lh_buckets lh ! i)) (replicate n []) [0..<lh_num_buckets lh] = ?nb"
    by (simp add: foldl_foldl)
  have k: "k \<le> 60" if "(sizeof_ptr * n) mod SIZE_MOD div sizeof_ptr = n"
  proof (rule ccontr)
    assume "\<not> k \<le> 60"
    then have "(2::nat) ^ 61 \<le> n" unfolding n by (intro power_increasing) simp_all
    moreover have "(sizeof_ptr * n) mod SIZE_MOD div sizeof_ptr < 2 ^ 61"
      by (rule div_less_iff_less_mult [THEN iffD2]) (simp_all add: sizeof_ptr_def SIZE_MOD_def)
    ultimately show False using that by simp
  qed
  show ?thesis
  proof (cases "(sizeof_ptr * n) mod SIZE_MOD div sizeof_ptr = n \<and> malloc_addr m ((sizeof_ptr * n) mod SIZE_MOD) \<noteq> None")
    case True
    then have r: "lh_rebucket m lh n = lh\<lparr>lh_buckets := ?nb, lh_num_buckets := n\<rparr>"
      by (auto simp: lh_rebucket_def Let_def eq)
    have it: "items_of (lh_rebucket m lh n) = items_of lh" using nb by (simp add: r items_of_def)
    moreover have "lh_items (lh_rebucket m lh n) = size (items_of lh) mod SIZE_MOD"
      using s by (simp add: r lh_shape_def)
    moreover have "placed (lh_num_buckets (lh_rebucket m lh n)) (lh_buckets (lh_rebucket m lh n))"
      "lh_num_buckets (lh_rebucket m lh n) = n"
      using nb by (simp_all add: r)
    ultimately show ?thesis using k [OF conjunct1 [OF True]] n by (auto simp: lh_shape_def)
  next
    case False
    then have "lh_rebucket m lh n = lh" by (auto simp: lh_rebucket_def Let_def)
    then show ?thesis using s by simp
  qed
qed

lemma lh_rebucket_fields [simp]:
  "lh_comp (lh_rebucket m lh n) = lh_comp lh" "lh_hash (lh_rebucket m lh n) = lh_hash lh"
  "lh_items (lh_rebucket m lh n) = lh_items lh" "lh_callback_depth (lh_rebucket m lh n) = lh_callback_depth lh"
  by (simp_all add: lh_rebucket_def Let_def split: option.splits)

lemma lh_maybe_resize_fields [simp]:
  "lh_comp (lh_maybe_resize m lh) = lh_comp lh" "lh_hash (lh_maybe_resize m lh) = lh_hash lh"
  "lh_items (lh_maybe_resize m lh) = lh_items lh" "lh_callback_depth (lh_maybe_resize m lh) = lh_callback_depth lh"
  by (simp_all add: lh_maybe_resize_def Let_def)

lemma lh_maybe_resize_shape:
  assumes s: "lh_shape lh"
  shows "lh_shape (lh_maybe_resize m lh) \<and> items_of (lh_maybe_resize m lh) = items_of lh"
proof -
  obtain k where k: "4 \<le> k" "k \<le> 60" "lh_num_buckets lh = 2 ^ k" using s by (auto simp: lh_shape_def)
  have "(2::nat) ^ Suc k \<le> 2 ^ 61" using k(2) by (intro power_increasing) simp_all
  then have double: "(lh_num_buckets lh * 2) mod SIZE_MOD = 2 ^ Suc k"
    using k(3) by (simp add: SIZE_MOD_def)
  have half: "(if lh_num_buckets lh div 2 < kMinNumBuckets then kMinNumBuckets else lh_num_buckets lh div 2) =
      2 ^ (k - 1)" if "kMinNumBuckets < lh_num_buckets lh"
  proof -
    have "(2::nat) ^ 4 < 2 ^ k" using that k(3) by (simp add: kMinNumBuckets_def)
    then have "4 < k" by (simp only: power_strict_increasing_iff)
    then have "(2::nat) ^ 4 \<le> 2 ^ (k - 1)" by (intro power_increasing) simp_all
    moreover have "lh_num_buckets lh div 2 = 2 ^ (k - 1)" using k by (cases k) simp_all
    ultimately show ?thesis by (simp add: kMinNumBuckets_def)
  qed
  have "4 \<le> k - 1" if "kMinNumBuckets < lh_num_buckets lh"
  proof -
    have "(2::nat) ^ 4 < 2 ^ k" using that k(3) by (simp add: kMinNumBuckets_def)
    then have "4 < k" by (simp only: power_strict_increasing_iff)
    then show ?thesis by simp
  qed
  then show ?thesis
    using s lh_rebucket_cases [OF s, of "2 ^ Suc k" "Suc k" m] lh_rebucket_cases [OF s, of "2 ^ (k - 1)" "k - 1" m] k(1)
    by (auto simp: lh_maybe_resize_def Let_def double half simp del: power_Suc)
qed

lemma lh_maybe_resize_ok: "lh_ok ch cc lh \<Longrightarrow> lh_ok ch cc (lh_maybe_resize m lh)"
  using lh_maybe_resize_shape [of lh m] by (simp add: lh_ok_def lh_eq_def [abs_def])

section \<open>The map\<close>

text \<open>The element of the table that is equal to \<open>k\<close>.\<close>

definition lh_lookup :: "('c \<Rightarrow> 'a ptr \<Rightarrow> 'a ptr \<Rightarrow> int) \<Rightarrow> ('a, 'h, 'c) lhash_st \<Rightarrow> 'a ptr \<Rightarrow> 'a ptr option" where
  "lh_lookup call_cmp lh k =
     map_option i_data (find (\<lambda>it. call_cmp (lh_comp lh) (i_data it) k = 0) (concat (lh_buckets lh)))"

text \<open>NULL for no element, as the operations return it.\<close>

abbreviation or_null :: "'a ptr option \<Rightarrow> 'a ptr" where
  "or_null r \<equiv> (case r of None \<Rightarrow> None | Some d \<Rightarrow> d)"

lemma lh_lookup_None: "lh_lookup cc lh k = None \<longleftrightarrow> (\<forall>x\<in>#items_of lh. \<not> lh_eq cc lh (i_data x) k)"
  by (auto simp: lh_lookup_def items_of_def lh_eq_def find_None_iff)

lemma find_SomeD: "find P xs = Some x \<Longrightarrow> x \<in> set xs \<and> P x"
  by (induction xs) (auto split: if_splits)

lemma lh_lookup_mem:
  "lh_lookup cc lh k = Some d \<Longrightarrow> \<exists>x\<in>#items_of lh. i_data x = d \<and> lh_eq cc lh (i_data x) k"
  by (fastforce simp: lh_lookup_def items_of_def lh_eq_def dest!: find_SomeD)

lemma lh_lookup_Some:
  assumes ok: "lh_ok ch cc lh"
  shows "lh_lookup cc lh k = Some d \<longleftrightarrow> (\<exists>x\<in>#items_of lh. i_data x = d \<and> lh_eq cc lh (i_data x) k)"
proof (rule iffI [OF lh_lookup_mem], assumption)
  assume "\<exists>x\<in>#items_of lh. i_data x = d \<and> lh_eq cc lh (i_data x) k"
  then obtain x where x: "x \<in># items_of lh" "i_data x = d" "lh_eq cc lh (i_data x) k" by auto
  then have "lh_lookup cc lh k \<noteq> None" by (auto simp: lh_lookup_None)
  then obtain y where y: "y \<in># items_of lh" "lh_eq cc lh (i_data y) k" "lh_lookup cc lh k = Some (i_data y)"
    using lh_lookup_mem [of cc lh k] by blast
  have "lh_eq cc lh (i_data y) (i_data x)" using lh_eq_props [OF ok] x(3) y(2) by blast
  then have "y = x" using uniq_eq x(1) y(1) ok by (auto simp: lh_ok_def)
  then show "lh_lookup cc lh k = Some d" using x y by simp
qed

lemma lh_lookup_eqI:
  assumes "lh_ok ch cc lh" "lh_ok ch cc lh'"
    and "\<And>d. (\<exists>x\<in>#items_of lh'. i_data x = d \<and> lh_eq cc lh' (i_data x) k) \<longleftrightarrow>
           (\<exists>x\<in>#items_of lh. i_data x = d \<and> lh_eq cc lh (i_data x) k)"
  shows "lh_lookup cc lh' k = lh_lookup cc lh k"
proof -
  have "lh_lookup cc lh' k = Some d \<longleftrightarrow> lh_lookup cc lh k = Some d" for d
    unfolding lh_lookup_Some [OF assms(1)] lh_lookup_Some [OF assms(2)] by (rule assms(3))
  then show ?thesis by (metis option.exhaust)
qed

lemma lh_maybe_resize_lookup:
  "lh_ok ch cc lh \<Longrightarrow> lh_lookup cc (lh_maybe_resize m lh) = lh_lookup cc lh"
  using lh_maybe_resize_shape [of lh m] lh_maybe_resize_ok [of ch cc lh m]
  by (intro ext lh_lookup_eqI) (auto simp: lh_eq_def lh_ok_def)

section \<open>Searching\<close>

lemma chain_pos_le: "chain_pos cmp chain \<le> length chain"
  by (induction chain) auto

lemma chain_pos_hit: "chain_pos cmp chain < length chain \<Longrightarrow> cmp (i_data (chain ! chain_pos cmp chain)) = 0"
  by (induction chain) (auto split: if_splits)

lemma chain_pos_miss:
  "\<not> chain_pos cmp chain < length chain \<Longrightarrow> x \<in> set chain \<Longrightarrow> cmp (i_data x) \<noteq> 0"
  by (induction chain) (auto split: if_splits)

lemma get_next_cases:
  assumes ok: "lh_ok ch cc lh" and g: "get_next_ptr_and_hash ch cc lh d = (h, b, k)"
  obtains "deref lh b k = None" "h = ch (lh_hash lh) d" "b = unat h mod lh_num_buckets lh" "b < length (lh_buckets lh)"
      "lh_lookup cc lh d = None"
  | it where "deref lh b k = Some it" "b < length (lh_buckets lh)" "k < length (lh_buckets lh ! b)"
      "lh_buckets lh ! b ! k = it" "it \<in># items_of lh" "lh_eq cc lh (i_data it) d" "lh_lookup cc lh d = Some (i_data it)"
proof -
  have s: "lh_shape lh" using ok by (simp add: lh_ok_def)
  have h: "h = ch (lh_hash lh) d" "b = unat h mod lh_num_buckets lh"
      "k = chain_pos (\<lambda>x. cc (lh_comp lh) x d) (lh_buckets lh ! b)"
    using g by (auto simp: get_next_ptr_and_hash_def Let_def)
  have b: "b < length (lh_buckets lh)" using h(2) lh_shape_num(1,4) [OF s] by simp
  show thesis
  proof (cases "k < length (lh_buckets lh ! b)")
    case True
    let ?it = "lh_buckets lh ! b ! k"
    have "?it \<in># items_of lh" using bucket_mem [OF b, of ?it] True by (simp add: items_of_def)
    moreover have "lh_eq cc lh (i_data ?it) d"
      using chain_pos_hit [of "\<lambda>x. cc (lh_comp lh) x d" "lh_buckets lh ! b"] True h(3) by (simp add: lh_eq_def)
    moreover from calculation have "lh_lookup cc lh d = Some (i_data ?it)" using lh_lookup_Some [OF ok] by blast
    ultimately show ?thesis using that(2) [of ?it] b True by (simp add: deref_def)
  next
    case False
    have "\<not> lh_eq cc lh (i_data x) d" if x: "x \<in># items_of lh" for x
    proof
      assume e: "lh_eq cc lh (i_data x) d"
      obtain c where c: "c < length (lh_buckets lh)" "x \<in> set (lh_buckets lh ! c)"
        using mem_bucket [of x "lh_buckets lh"] x by (auto simp: items_of_def)
      have "i_hash x = h" using ok x h(1) lh_eq_props(4) [OF ok e] by (simp add: lh_ok_def)
      moreover have "unat (i_hash x) mod lh_num_buckets lh = c"
        using placed_nth [of "lh_num_buckets lh" "lh_buckets lh" c x] s c by (simp add: lh_shape_def lh_shape_num(4))
      ultimately have "x \<in> set (lh_buckets lh ! b)" using c(2) h(2) by simp
      then show False using chain_pos_miss [of "\<lambda>x. cc (lh_comp lh) x d" "lh_buckets lh ! b" x] False h(3) e
        by (simp add: lh_eq_def)
    qed
    then show ?thesis using that(1) b h(1,2) False by (simp add: deref_def lh_lookup_None)
  qed
qed

lemma lh_retrieve_lookup: "lh_ok ch cc lh \<Longrightarrow> lh_retrieve ch cc lh d = or_null (lh_lookup cc lh d)"
  by (cases "get_next_ptr_and_hash ch cc lh d")
    (auto simp: lh_retrieve_def elim!: get_next_cases)

section \<open>Insertion and deletion\<close>

lemma size_pred_mod: "(Suc n mod SIZE_MOD + (SIZE_MOD - 1)) mod SIZE_MOD = n mod SIZE_MOD"
proof -
  have "(Suc n mod SIZE_MOD + (SIZE_MOD - 1)) mod SIZE_MOD = (Suc n + (SIZE_MOD - 1)) mod SIZE_MOD"
    by (simp only: mod_add_left_eq)
  also have "Suc n + (SIZE_MOD - 1) = n + SIZE_MOD" by (simp add: SIZE_MOD_def)
  finally show ?thesis by simp
qed

text \<open>A table whose items are those of another, one replaced, added or removed.\<close>

lemma lh_ok_items:
  assumes ok: "lh_ok ch cc lh" and f: "lh_comp lh' = lh_comp lh" "lh_hash lh' = lh_hash lh"
      "lh_num_buckets lh' = lh_num_buckets lh"
    and p: "placed (lh_num_buckets lh) (lh_buckets lh')" and n: "lh_items lh' = size (items_of lh') mod SIZE_MOD"
    and h: "\<forall>x\<in>#items_of lh'. i_hash x = ch (lh_hash lh) (i_data x)"
    and u: "uniq (lh_eq cc lh) (items_of lh')"
  shows "lh_ok ch cc lh'"
proof -
  have "lh_eq cc lh' = lh_eq cc lh" using f by (intro ext) (simp add: lh_eq_def)
  then show ?thesis using assms by (simp add: lh_ok_def lh_shape_def)
qed

lemma items_of_bucket:
  "lh_buckets lh' = (lh_buckets lh)[b := c] \<Longrightarrow> b < length (lh_buckets lh) \<Longrightarrow>
     items_of lh' + mset (lh_buckets lh ! b) = items_of lh + mset c"
  using bucket_update [of b "lh_buckets lh" c] by (simp add: items_of_def)

lemma placed_bucket:
  assumes "lh_ok ch cc lh" "b < length (lh_buckets lh)" "\<And>it. it \<in> set c \<Longrightarrow>
     (\<exists>it' \<in> set (lh_buckets lh ! b). i_hash it = i_hash it') \<or> unat (i_hash it) mod lh_num_buckets lh = b"
  shows "placed (lh_num_buckets lh) ((lh_buckets lh)[b := c])"
proof -
  have p: "placed (lh_num_buckets lh) (lh_buckets lh)" using assms(1) by (simp add: lh_ok_def lh_shape_def)
  then have b: "b < lh_num_buckets lh" using assms(2) by (simp add: placed_def)
  show ?thesis
  proof (rule placed_update [OF p b])
    show "unat (i_hash it) mod lh_num_buckets lh = b" if "it \<in> set c" for it
      using assms(3) [OF that] placed_nth [OF p b] by auto
  qed
qed

lemma remove_iff:
  assumes ok: "lh_ok ch cc lh" and it: "it \<in># items_of lh" "lh_eq cc lh (i_data it) d"
  shows "x \<in># items_of lh - {#it#} \<longleftrightarrow> x \<in># items_of lh \<and> \<not> lh_eq cc lh (i_data x) d"
proof
  assume x: "x \<in># items_of lh - {#it#}"
  then have "\<not> lh_eq cc lh (i_data x) (i_data it)"
    using uniq_others [of "lh_eq cc lh" "items_of lh" it x] it(1) ok by (simp add: lh_ok_def)
  then have "\<not> lh_eq cc lh (i_data x) d" using lh_eq_props(2,3) [OF ok] it(2) by blast
  then show "x \<in># items_of lh \<and> \<not> lh_eq cc lh (i_data x) d" using x by (auto dest: in_diffD)
next
  assume "x \<in># items_of lh \<and> \<not> lh_eq cc lh (i_data x) d"
  then show "x \<in># items_of lh - {#it#}" using it(2) by (metis insert_DiffM insert_noteq_member it(1))
qed

lemma lookup_removed:
  assumes ok: "lh_ok ch cc lh" "lh_ok ch cc lh'" and c: "lh_comp lh' = lh_comp lh"
    and M: "\<And>x. x \<in># items_of lh' \<longleftrightarrow> x \<in># items_of lh \<and> \<not> lh_eq cc lh (i_data x) d"
  shows "lh_lookup cc lh' = (\<lambda>k. if lh_eq cc lh d k then None else lh_lookup cc lh k)"
proof
  fix k
  have e: "lh_eq cc lh' = lh_eq cc lh" using c by (intro ext) (simp add: lh_eq_def)
  show "lh_lookup cc lh' k = (if lh_eq cc lh d k then None else lh_lookup cc lh k)"
  proof (cases "lh_eq cc lh d k")
    case True
    then have "\<not> lh_eq cc lh (i_data x) k" if "x \<in># items_of lh'" for x
      using that M lh_eq_props(2,3) [OF ok(1)] by blast
    then show ?thesis using True by (simp add: lh_lookup_None e)
  next
    case False
    then have n: "\<not> lh_eq cc lh (i_data x) d" if "lh_eq cc lh (i_data x) k" for x
      using that lh_eq_props(2,3) [OF ok(1)] by blast
    have same: "x \<in># items_of lh' \<and> i_data x = a \<and> lh_eq cc lh (i_data x) k \<longleftrightarrow>
        x \<in># items_of lh \<and> i_data x = a \<and> lh_eq cc lh (i_data x) k" for x a
      using False M n by auto
    have "lh_lookup cc lh' k = lh_lookup cc lh k"
    proof (rule lh_lookup_eqI [OF ok])
      show "(\<exists>x\<in>#items_of lh'. i_data x = a \<and> lh_eq cc lh' (i_data x) k) \<longleftrightarrow>
          (\<exists>x\<in>#items_of lh. i_data x = a \<and> lh_eq cc lh (i_data x) k)" for a
        unfolding Bex_def e using same by blast
    qed
    then show ?thesis using False by simp
  qed
qed

lemma lookup_updated:
  assumes ok: "lh_ok ch cc lh" "lh_ok ch cc lh'" and c: "lh_comp lh' = lh_comp lh"
    and M: "items_of lh' = add_mset it M" "i_data it = d"
      "\<And>x. x \<in># M \<longleftrightarrow> x \<in># items_of lh \<and> \<not> lh_eq cc lh (i_data x) d"
  shows "lh_lookup cc lh' = (\<lambda>k. if lh_eq cc lh d k then Some d else lh_lookup cc lh k)"
proof
  fix k
  have e: "lh_eq cc lh' = lh_eq cc lh" using c by (intro ext) (simp add: lh_eq_def)
  have it: "x \<in># items_of lh' \<longleftrightarrow> x = it \<or> x \<in># items_of lh \<and> \<not> lh_eq cc lh (i_data x) d" for x
    using M(1,3) by auto
  show "lh_lookup cc lh' k = (if lh_eq cc lh d k then Some d else lh_lookup cc lh k)"
  proof (cases "lh_eq cc lh d k")
    case True
    then have "lh_lookup cc lh' k = Some d" using it M(2) by (auto simp: lh_lookup_Some [OF ok(2)] e)
    then show ?thesis using True by simp
  next
    case False
    then have n: "\<not> lh_eq cc lh (i_data x) d" if "lh_eq cc lh (i_data x) k" for x
      using that lh_eq_props(2,3) [OF ok(1)] by blast
    have same: "x \<in># items_of lh' \<and> i_data x = a \<and> lh_eq cc lh (i_data x) k \<longleftrightarrow>
        x \<in># items_of lh \<and> i_data x = a \<and> lh_eq cc lh (i_data x) k" for x a
      using False it M(2) n by auto
    have "lh_lookup cc lh' k = lh_lookup cc lh k"
    proof (rule lh_lookup_eqI [OF ok])
      show "(\<exists>x\<in>#items_of lh'. i_data x = a \<and> lh_eq cc lh' (i_data x) k) \<longleftrightarrow>
          (\<exists>x\<in>#items_of lh. i_data x = a \<and> lh_eq cc lh (i_data x) k)" for a
        unfolding Bex_def e using same by blast
    qed
    then show ?thesis using False by simp
  qed
qed

lemma lh_replace:
  assumes ok: "lh_ok ch cc lh" and b: "b < length (lh_buckets lh)" "k < length (lh_buckets lh ! b)"
    and it: "lh_buckets lh ! b ! k = it" and e: "lh_eq cc lh (i_data it) d"
    and lh': "lh' = lh\<lparr>lh_buckets := (lh_buckets lh)[b := (lh_buckets lh ! b)[k := it\<lparr>i_data := d\<rparr>]]\<rparr>"
  shows "lh_ok ch cc lh' \<and> items_of lh' = add_mset (it\<lparr>i_data := d\<rparr>) (items_of lh - {#it#})"
proof -
  let ?it = "it\<lparr>i_data := d\<rparr>" and ?c = "lh_buckets lh ! b"
  note eq = lh_eq_props [OF ok]
  have mem: "it \<in># items_of lh" using bucket_mem [OF b(1), of it] b(2) it by (auto simp: items_of_def)
  have "mset (?c[k := ?it]) = add_mset ?it (mset ?c - {#it#})" using b it by (simp add: mset_update)
  moreover have "it \<in># mset ?c" using b it by auto
  ultimately have "items_of lh' + mset ?c = add_mset ?it (items_of lh - {#it#}) + mset ?c"
    using items_of_bucket [of lh' lh b "?c[k := ?it]"] b mem
    by (simp add: lh')
  then have items: "items_of lh' = add_mset ?it (items_of lh - {#it#})" by simp
  have others: "\<not> lh_eq cc lh (i_data y) d" if "y \<in># items_of lh - {#it#}" for y
    using that by (simp add: remove_iff [OF ok mem e])
  have "uniq (lh_eq cc lh) (items_of lh')"
    unfolding items by (rule uniq_add) (use ok mem others eq(1,2) in \<open>auto simp: lh_ok_def intro: uniq_remove\<close>)
  moreover have "\<forall>x\<in>#items_of lh'. i_hash x = ch (lh_hash lh) (i_data x)"
    unfolding items using ok mem eq(4) [OF e] by (auto simp: lh_ok_def dest: in_diffD)
  moreover have "size (items_of lh') = size (items_of lh)" unfolding items using mem by (simp add: size_Suc_Diff1)
  then have "lh_items lh' = size (items_of lh') mod SIZE_MOD" using ok by (simp add: lh' lh_ok_def lh_shape_def)
  moreover have "placed (lh_num_buckets lh) (lh_buckets lh')"
    using placed_bucket [OF ok b(1), of "?c[k := ?it]"] b it
    by (force simp: lh' dest!: set_update_subset_insert [THEN subsetD] intro: nth_mem)
  ultimately show ?thesis using items by (intro conjI lh_ok_items [OF ok]) (simp_all add: lh')
qed

lemma lh_append:
  assumes ok: "lh_ok ch cc lh" and b: "b = unat h mod lh_num_buckets lh" "b < length (lh_buckets lh)"
    and h: "h = ch (lh_hash lh) d" and none: "lh_lookup cc lh d = None"
    and it: "it = \<lparr>i_addr = a, i_data = d, i_hash = h\<rparr>"
    and lh': "lh' = lh\<lparr>lh_buckets := (lh_buckets lh)[b := lh_buckets lh ! b @ [it]], lh_items := (lh_items lh + 1) mod SIZE_MOD\<rparr>"
  shows "lh_ok ch cc lh' \<and> items_of lh' = add_mset it (items_of lh)"
proof -
  note eq = lh_eq_props [OF ok]
  have "items_of lh' + mset (lh_buckets lh ! b) = add_mset it (items_of lh) + mset (lh_buckets lh ! b)"
    using items_of_bucket [of lh' lh b "lh_buckets lh ! b @ [it]"] b by (simp add: lh')
  then have items: "items_of lh' = add_mset it (items_of lh)" by simp
  have "\<not> lh_eq cc lh (i_data y) d" if "y \<in># items_of lh" for y using none that by (auto simp: lh_lookup_None)
  then have "uniq (lh_eq cc lh) (items_of lh')"
    unfolding items using ok eq(1,2) it by (intro uniq_add) (auto simp: lh_ok_def)
  moreover have "\<forall>x\<in>#items_of lh'. i_hash x = ch (lh_hash lh) (i_data x)"
    unfolding items using ok h it by (auto simp: lh_ok_def)
  moreover have "lh_items lh' = size (items_of lh') mod SIZE_MOD"
    unfolding items using ok by (simp add: lh' lh_ok_def lh_shape_def mod_Suc_eq)
  moreover have "placed (lh_num_buckets lh) (lh_buckets lh')"
  proof -
    have "placed (lh_num_buckets lh) ((lh_buckets lh)[b := lh_buckets lh ! b @ [it]])"
      by (rule placed_bucket [OF ok b(2)]) (use b it in auto)
    then show ?thesis by (simp add: lh')
  qed
  ultimately show ?thesis using items by (intro conjI lh_ok_items [OF ok]) (simp_all add: lh')
qed

lemma lh_remove:
  assumes ok: "lh_ok ch cc lh" and b: "b < length (lh_buckets lh)" "k < length (lh_buckets lh ! b)"
    and it: "lh_buckets lh ! b ! k = it"
    and lh': "lh' = lh\<lparr>lh_buckets := (lh_buckets lh)[b := take k (lh_buckets lh ! b) @ drop (Suc k) (lh_buckets lh ! b)],
        lh_items := (lh_items lh + (SIZE_MOD - 1)) mod SIZE_MOD\<rparr>"
  shows "lh_ok ch cc lh' \<and> items_of lh = add_mset it (items_of lh')"
proof -
  let ?c = "lh_buckets lh ! b"
  have c: "?c = take k ?c @ it # drop (Suc k) ?c" using id_take_nth_drop [OF b(2)] it by simp
  then have "mset ?c = add_mset it (mset (take k ?c @ drop (Suc k) ?c))"
    by (metis mset_append mset.simps(2) union_mset_add_mset_right)
  then have items: "items_of lh = add_mset it (items_of lh')"
    using items_of_bucket [of lh' lh b "take k ?c @ drop (Suc k) ?c"] b by (simp add: lh')
  then have items': "items_of lh' = items_of lh - {#it#}" by simp
  have "uniq (lh_eq cc lh) (items_of lh')"
    unfolding items' using ok items by (intro uniq_remove) (simp_all add: lh_ok_def)
  moreover have "\<forall>x\<in>#items_of lh'. i_hash x = ch (lh_hash lh) (i_data x)"
    unfolding items' using ok by (auto simp: lh_ok_def dest: in_diffD)
  moreover have "lh_items lh' = size (items_of lh') mod SIZE_MOD"
  proof -
    have "lh_items lh = Suc (size (items_of lh')) mod SIZE_MOD" using ok items by (simp add: lh_ok_def lh_shape_def)
    then show ?thesis using size_pred_mod [of "size (items_of lh')"] lh' by simp
  qed
  moreover have "placed (lh_num_buckets lh) (lh_buckets lh')"
    using placed_bucket [OF ok b(1), of "take k ?c @ drop (Suc k) ?c"]
    by (auto simp: lh' dest: in_set_takeD in_set_dropD)
  ultimately show ?thesis using items by (intro conjI lh_ok_items [OF ok]) (simp_all add: lh')
qed

lemma lh_insert_cases:
  assumes ok: "lh_ok ch cc lh" and i: "lh_insert ch cc m lh d = (n, old, lh')"
  shows "lh_ok ch cc lh'" "lh_comp lh' = lh_comp lh" "lh_hash lh' = lh_hash lh"
    "lh_callback_depth lh' = lh_callback_depth lh" "old = or_null (lh_lookup cc lh d)"
    "n = 1 \<and> lh_lookup cc lh' = (\<lambda>k. if lh_eq cc lh d k then Some d else lh_lookup cc lh k) \<or>
     n = 0 \<and> lh' = lh \<and> malloc_addr m sizeof_LHASH_ITEM = None \<and> lh_lookup cc lh d = None"
proof -
  obtain h b k where g: "get_next_ptr_and_hash ch cc lh d = (h, b, k)" by (cases "get_next_ptr_and_hash ch cc lh d")
  note eq = lh_eq_props [OF ok]
  have "lh_ok ch cc lh' \<and> lh_comp lh' = lh_comp lh \<and> lh_hash lh' = lh_hash lh \<and>
    lh_callback_depth lh' = lh_callback_depth lh \<and> old = or_null (lh_lookup cc lh d) \<and>
    (n = 1 \<and> lh_lookup cc lh' = (\<lambda>k. if lh_eq cc lh d k then Some d else lh_lookup cc lh k) \<or>
     n = 0 \<and> lh' = lh \<and> malloc_addr m sizeof_LHASH_ITEM = None \<and> lh_lookup cc lh d = None)"
    using ok g
  proof (cases rule: get_next_cases)
    case 1
    show ?thesis
    proof (cases "malloc_addr m sizeof_LHASH_ITEM")
      case None
      then show ?thesis using i g 1 ok by (auto simp: lh_insert_def)
    next
      case (Some a)
      define it where "it = \<lparr>i_addr = a, i_data = d, i_hash = h\<rparr>"
      define lh1 where "lh1 = lh\<lparr>lh_buckets := (lh_buckets lh)[b := lh_buckets lh ! b @ [it]],
          lh_items := (lh_items lh + 1) mod SIZE_MOD\<rparr>"
      have r: "n = 1" "old = None" "lh' = lh_maybe_resize m lh1"
        using i g 1 Some by (auto simp: lh_insert_def it_def lh1_def Let_def)
      have lh1: "lh_ok ch cc lh1" "items_of lh1 = add_mset it (items_of lh)"
        using lh_append [OF ok 1(3,4,2,5) it_def lh1_def] by simp_all
      have f: "lh_comp lh1 = lh_comp lh" "lh_hash lh1 = lh_hash lh" "lh_callback_depth lh1 = lh_callback_depth lh"
        by (simp_all add: lh1_def)
      have "lh_lookup cc lh1 = (\<lambda>k. if lh_eq cc lh d k then Some d else lh_lookup cc lh k)"
        by (rule lookup_updated [OF ok lh1(1) f(1) lh1(2)]) (use 1(5) in \<open>auto simp: it_def lh_lookup_None\<close>)
      then show ?thesis using r 1(5) f lh_maybe_resize_ok [OF lh1(1)] lh_maybe_resize_lookup [OF lh1(1)] by auto
    qed
  next
    case (2 it)
    have r: "n = 1" "old = i_data it"
      and lh': "lh' = lh\<lparr>lh_buckets := (lh_buckets lh)[b := (lh_buckets lh ! b)[k := it\<lparr>i_data := d\<rparr>]]\<rparr>"
      using i g 2 by (auto simp: lh_insert_def)
    have ok': "lh_ok ch cc lh'" "items_of lh' = add_mset (it\<lparr>i_data := d\<rparr>) (items_of lh - {#it#})"
      using lh_replace [OF ok 2(2,3,4,6) lh'] by simp_all
    have f: "lh_comp lh' = lh_comp lh" "lh_hash lh' = lh_hash lh" "lh_callback_depth lh' = lh_callback_depth lh"
      by (simp_all add: lh')
    have "lh_lookup cc lh' = (\<lambda>k. if lh_eq cc lh d k then Some d else lh_lookup cc lh k)"
      by (rule lookup_updated [OF ok ok'(1) f(1) ok'(2)]) (simp_all add: remove_iff [OF ok 2(5,6)])
    then show ?thesis using r f ok'(1) 2(7) by auto
  qed
  then show "lh_ok ch cc lh'" "lh_comp lh' = lh_comp lh" "lh_hash lh' = lh_hash lh"
    "lh_callback_depth lh' = lh_callback_depth lh" "old = or_null (lh_lookup cc lh d)"
    "n = 1 \<and> lh_lookup cc lh' = (\<lambda>k. if lh_eq cc lh d k then Some d else lh_lookup cc lh k) \<or>
     n = 0 \<and> lh' = lh \<and> malloc_addr m sizeof_LHASH_ITEM = None \<and> lh_lookup cc lh d = None"
    by simp_all
qed

lemma lh_delete_cases:
  assumes ok: "lh_ok ch cc lh" and d: "lh_delete ch cc m lh d = (r, lh')"
  shows "lh_ok ch cc lh' \<and> lh_comp lh' = lh_comp lh \<and> lh_hash lh' = lh_hash lh \<and>
    lh_callback_depth lh' = lh_callback_depth lh \<and> r = or_null (lh_lookup cc lh d) \<and>
    lh_lookup cc lh' = (\<lambda>k. if lh_eq cc lh d k then None else lh_lookup cc lh k)"
proof -
  obtain h b k where g: "get_next_ptr_and_hash ch cc lh d = (h, b, k)" by (cases "get_next_ptr_and_hash ch cc lh d")
  show ?thesis using ok g
  proof (cases rule: get_next_cases)
    case 1
    have "lh_lookup cc lh = (\<lambda>k. if lh_eq cc lh d k then None else lh_lookup cc lh k)"
      by (rule lookup_removed [OF ok ok refl]) (use 1(5) in \<open>auto simp: lh_lookup_None\<close>)
    then show ?thesis using d g 1 ok by (auto simp: lh_delete_def)
  next
    case (2 it)
    define lh1 where "lh1 = lh\<lparr>lh_buckets := (lh_buckets lh)[b := take k (lh_buckets lh ! b) @ drop (Suc k) (lh_buckets lh ! b)],
        lh_items := (lh_items lh + (SIZE_MOD - 1)) mod SIZE_MOD\<rparr>"
    have r: "r = i_data it" "lh' = lh_maybe_resize m lh1" using d g 2 by (auto simp: lh_delete_def lh1_def Let_def)
    have lh1: "lh_ok ch cc lh1" "items_of lh = add_mset it (items_of lh1)"
      using lh_remove [OF ok 2(2,3,4) lh1_def] by simp_all
    have f: "lh_comp lh1 = lh_comp lh" "lh_hash lh1 = lh_hash lh" "lh_callback_depth lh1 = lh_callback_depth lh"
      by (simp_all add: lh1_def)
    have "lh_lookup cc lh1 = (\<lambda>k. if lh_eq cc lh d k then None else lh_lookup cc lh k)"
      by (rule lookup_removed [OF ok lh1(1) f(1)]) (use remove_iff [OF ok 2(5,6)] lh1(2) in simp)
    then show ?thesis using r f 2(7) lh_maybe_resize_ok [OF lh1(1)] lh_maybe_resize_lookup [OF lh1(1)] by auto
  qed
qed

end
