(* ===== verification/Simulation.thy ===== *)
theory Simulation
  imports Prelude
begin

text \<open>
  Sequences of operations against an abstract specification. An operation of the code gives an
  observation the specification does not determine (whether an allocation succeeded) and a
  result that it does; the specification replays the operations with the observations made.
\<close>

fun run_ops :: "('o \<Rightarrow> 's \<Rightarrow> ('f \<times> 'r) \<times> 's) \<Rightarrow> 'o list \<Rightarrow> 's \<Rightarrow> ('f \<times> 'r) list \<times> 's" where
  "run_ops step [] s = ([], s)"
| "run_ops step (a # as) s =
     (case step a s of (out, s1) \<Rightarrow> (case run_ops step as s1 of (outs, s2) \<Rightarrow> (out # outs, s2)))"

fun replay :: "('o \<Rightarrow> 'f \<Rightarrow> 't \<Rightarrow> 'r \<times> 't) \<Rightarrow> ('o \<times> 'f) list \<Rightarrow> 't \<Rightarrow> 'r list \<times> 't" where
  "replay astep [] t = ([], t)"
| "replay astep ((a, f) # as) t =
     (case astep a f t of (r, t1) \<Rightarrow> (case replay astep as t1 of (rs, t2) \<Rightarrow> (r # rs, t2)))"

locale simulation =
  fixes inv :: "'s \<Rightarrow> bool" and abst :: "'s \<Rightarrow> 't"
    and step :: "'o \<Rightarrow> 's \<Rightarrow> ('f \<times> 'r) \<times> 's" and astep :: "'o \<Rightarrow> 'f \<Rightarrow> 't \<Rightarrow> 'r \<times> 't"
  assumes step_simulates: "inv s \<Longrightarrow> step a s = ((f, r), s') \<Longrightarrow> inv s' \<and> astep a f (abst s) = (r, abst s')"
begin

lemma run_simulates:
  "inv s \<Longrightarrow> run_ops step as s = (outs, s') \<Longrightarrow>
     inv s' \<and> replay astep (zip as (map fst outs)) (abst s) = (map snd outs, abst s')"
proof (induction "as" arbitrary: s outs)
  case (Cons a as)
  obtain f r s1 where 1: "step a s = ((f, r), s1)" by (metis prod.exhaust)
  obtain outs1 where 2: "run_ops step as s1 = (outs1, s')" "outs = (f, r) # outs1"
    using Cons.prems(2) 1 by (auto split: prod.splits)
  from step_simulates [OF Cons.prems(1) 1] Cons.IH [OF _ 2(1)] show ?case by (simp add: 2(2))
qed simp

end

end
