(* ===== verification/Lhash_Iter.thy ===== *)
theory Lhash_Iter
  imports Lhash_Map Simulation
begin

text \<open>
  Clients of the hash table: sequences of operations against the map, the load factor, and the
  iteration with callbacks that leave the table alone or delete what they are given.
\<close>

section \<open>Sequences of operations\<close>

lemma lh_new_ok:
  assumes c: "lh_contract ch cc h c" and n: "lh_new m h c = Some lh"
  shows "lh_ok ch cc lh \<and> lh_comp lh = c \<and> lh_hash lh = h \<and> lh_items lh = 0 \<and> lh_callback_depth lh = 0 \<and>
    lh_lookup cc lh = (\<lambda>k. None)"
proof -
  have lh: "lh = \<lparr>lh_items = 0, lh_buckets = replicate kMinNumBuckets [], lh_num_buckets = kMinNumBuckets,
      lh_callback_depth = 0, lh_comp = c, lh_hash = h\<rparr>"
    using n by (auto simp: lh_new_def split: option.splits)
  have i: "items_of lh = {#}" by (simp add: lh items_of_def)
  then have "\<forall>k. lh_lookup cc lh k = None" by (simp add: lh_lookup_None)
  moreover have "\<exists>k\<ge>4. k \<le> 60 \<and> kMinNumBuckets = 2 ^ k" by (rule exI [of _ 4]) (simp add: kMinNumBuckets_def)
  then have "lh_shape lh" using i by (simp add: lh lh_shape_def placed_def)
  ultimately show ?thesis using c i by (auto simp: lh_ok_def uniq_def lh)
qed

datatype 'a lh_op = Insert addr_alloc "'a ptr" | Delete addr_alloc "'a ptr" | Retrieve "'a ptr"

definition lh_exec ::
    "('h \<Rightarrow> 'a ptr \<Rightarrow> u32) \<Rightarrow> ('c \<Rightarrow> 'a ptr \<Rightarrow> 'a ptr \<Rightarrow> int) \<Rightarrow> 'a lh_op \<Rightarrow> ('a, 'h, 'c) lhash_st \<Rightarrow>
     (nat \<times> 'a ptr) \<times> ('a, 'h, 'c) lhash_st" where
  "lh_exec ch cc a lh =
     (case a of
        Insert m d \<Rightarrow> (case lh_insert ch cc m lh d of (n, old, lh') \<Rightarrow> ((n, old), lh'))
      | Delete m d \<Rightarrow> (case lh_delete ch cc m lh d of (r, lh') \<Rightarrow> ((1, r), lh'))
      | Retrieve d \<Rightarrow> ((1, lh_retrieve ch cc lh d), lh))"

text \<open>The same on a map from elements, up to \<open>eq\<close>, to elements; \<open>n = 0\<close> is a failed insertion.\<close>

definition map_exec ::
    "('a ptr \<Rightarrow> 'a ptr \<Rightarrow> bool) \<Rightarrow> 'a lh_op \<Rightarrow> nat \<Rightarrow> ('a ptr \<Rightarrow> 'a ptr option) \<Rightarrow>
     'a ptr \<times> ('a ptr \<Rightarrow> 'a ptr option)" where
  "map_exec eq a n t =
     (case a of
        Insert m d \<Rightarrow> (or_null (t d), if n = 0 then t else (\<lambda>k. if eq d k then Some d else t k))
      | Delete m d \<Rightarrow> (or_null (t d), \<lambda>k. if eq d k then None else t k)
      | Retrieve d \<Rightarrow> (or_null (t d), t))"

definition lh_inv ::
    "('h \<Rightarrow> 'a ptr \<Rightarrow> u32) \<Rightarrow> ('c \<Rightarrow> 'a ptr \<Rightarrow> 'a ptr \<Rightarrow> int) \<Rightarrow> 'h \<Rightarrow> 'c \<Rightarrow> ('a, 'h, 'c) lhash_st \<Rightarrow> bool" where
  "lh_inv ch cc h c lh \<longleftrightarrow> lh_ok ch cc lh \<and> lh_hash lh = h \<and> lh_comp lh = c"

interpretation hash_table: simulation "lh_inv ch cc h c" "lh_lookup cc" "lh_exec ch cc"
    "map_exec (\<lambda>a b. cc c a b = 0)" for ch cc h c
proof
  fix s a f r s'
  assume i: "lh_inv ch cc h c s" and e: "lh_exec ch cc a s = ((f, r), s')"
  then have ok: "lh_ok ch cc s" and eq: "lh_eq cc s = (\<lambda>a b. cc c a b = 0)"
    by (auto simp: lh_inv_def lh_eq_def fun_eq_iff)
  show "lh_inv ch cc h c s' \<and> map_exec (\<lambda>a b. cc c a b = 0) a f (lh_lookup cc s) = (r, lh_lookup cc s')"
  proof (cases a)
    case (Insert m d)
    then have "lh_insert ch cc m s d = (f, r, s')" using e by (auto simp: lh_exec_def split: prod.splits)
    from lh_insert_cases [OF ok this] i show ?thesis by (auto simp: Insert map_exec_def lh_inv_def eq)
  next
    case (Delete m d)
    then have "lh_delete ch cc m s d = (r, s')" using e by (auto simp: lh_exec_def split: prod.splits)
    from lh_delete_cases [OF ok this] i show ?thesis by (auto simp: Delete map_exec_def lh_inv_def eq)
  next
    case (Retrieve d)
    then show ?thesis using e i lh_retrieve_lookup [OF ok] by (auto simp: lh_exec_def map_exec_def)
  qed
qed

section \<open>The load factor\<close>

text \<open>At most two items per bucket on average, rounded down, and never more buckets than items above the minimum.\<close>

definition lh_balanced :: "('a, 'h, 'c) lhash_st \<Rightarrow> bool" where
  "lh_balanced lh \<longleftrightarrow> lh_items lh < 3 * lh_num_buckets lh \<and>
     (lh_num_buckets lh = kMinNumBuckets \<or> lh_num_buckets lh \<le> lh_items lh)"

lemma lh_rebucket_num:
  assumes n: "n \<le> 2 ^ 60" and m: "\<forall>sz. m sz \<noteq> None"
  shows "lh_num_buckets (lh_rebucket m lh n) = n"
proof -
  have "malloc_addr m sz \<noteq> None" for sz using m by (simp only: malloc_addr_def not_False_eq_True)
  then obtain a where "malloc_addr m ((sizeof_ptr * n) mod SIZE_MOD) = Some a" by blast
  moreover have "(sizeof_ptr * n) mod SIZE_MOD = sizeof_ptr * n" using n by (simp add: sizeof_ptr_def SIZE_MOD_def)
  ultimately show ?thesis by (simp add: lh_rebucket_def Let_def sizeof_ptr_def)
qed

lemma lh_maybe_resize_balanced:
  assumes s: "lh_shape lh" and m: "\<forall>sz. m sz \<noteq> None" and d: "lh_callback_depth lh = 0"
    and few: "lh_items lh < 2 ^ 60" and near: "lh_items lh \<le> 3 * lh_num_buckets lh"
      "lh_num_buckets lh = kMinNumBuckets \<or> lh_num_buckets lh \<le> lh_items lh + 1"
  shows "lh_balanced (lh_maybe_resize m lh)"
proof -
  note nb = lh_shape_num(1-3) [OF s]
  obtain k where k: "4 \<le> k" "lh_num_buckets lh = 2 ^ k" using s by (auto simp: lh_shape_def)
  have e: "even (lh_num_buckets lh)" using k by simp
  consider "3 * lh_num_buckets lh \<le> lh_items lh" | "lh_items lh < lh_num_buckets lh" "kMinNumBuckets < lh_num_buckets lh"
    | "lh_items lh < 3 * lh_num_buckets lh" "lh_num_buckets lh \<le> lh_items lh \<or> lh_num_buckets lh = kMinNumBuckets"
    using nb(2) by linarith
  then show ?thesis
  proof cases
    case 1
    then have "kMaxAverageChainLength < lh_items lh div lh_num_buckets lh"
      using nb(1) by (simp add: kMaxAverageChainLength_def less_eq_div_iff_mult_less_eq Suc_le_eq [symmetric])
    moreover have "2 * lh_num_buckets lh \<le> 2 ^ 60" using 1 few by linarith
    ultimately show ?thesis
      using 1 near d nb lh_rebucket_num [OF _ m, of "2 * lh_num_buckets lh" lh]
      by (simp add: lh_maybe_resize_def Let_def SIZE_MOD_def lh_balanced_def mult.commute)
  next
    case 2
    then have "lh_items lh div lh_num_buckets lh = 0" by simp
    moreover have "kMinNumBuckets \<le> lh_num_buckets lh div 2"
    proof -
      have "(2::nat) ^ 4 < 2 ^ k" using 2(2) k(2) by (simp add: kMinNumBuckets_def)
      then have "4 < k" by (simp only: power_strict_increasing_iff)
      then have "(2::nat) ^ Suc 4 \<le> 2 ^ k" by (intro power_increasing) simp_all
      then show ?thesis using k(2) by (simp add: kMinNumBuckets_def)
    qed
    ultimately show ?thesis
      using 2 near d nb e lh_rebucket_num [OF _ m, of "lh_num_buckets lh div 2" lh]
      by (auto simp: lh_maybe_resize_def Let_def kMinAverageChainLength_def lh_balanced_def elim!: evenE)
  next
    case 3
    then have "\<not> kMaxAverageChainLength < lh_items lh div lh_num_buckets lh"
      using nb(1) by (simp add: kMaxAverageChainLength_def div_less_iff_less_mult not_less less_Suc_eq_le [symmetric])
    moreover have "\<not> (lh_items lh div lh_num_buckets lh < kMinAverageChainLength \<and> kMinNumBuckets < lh_num_buckets lh)"
      using 3 nb(1) by (auto simp: kMinAverageChainLength_def div_eq_0_iff)
    ultimately have "lh_maybe_resize m lh = lh" using d by (auto simp: lh_maybe_resize_def Let_def)
    then show ?thesis using 3 by (auto simp: lh_balanced_def)
  qed
qed

lemma lh_insert_balanced:
  assumes ok: "lh_ok ch cc lh" and bal: "lh_balanced lh" and m: "\<forall>sz. m sz \<noteq> None"
    and d: "lh_callback_depth lh = 0" and few: "lh_items lh < 2 ^ 59" and i: "lh_insert ch cc m lh x = (n, old, lh')"
  shows "lh_balanced lh' \<and> lh_items lh' \<le> lh_items lh + 1"
proof -
  obtain h b k where g: "get_next_ptr_and_hash ch cc lh x = (h, b, k)" by (cases "get_next_ptr_and_hash ch cc lh x")
  show ?thesis using ok g
  proof (cases rule: get_next_cases)
    case 1
    obtain a where a: "malloc_addr m sizeof_LHASH_ITEM = Some a" using m by (auto simp: malloc_addr_def)
    define it where "it = \<lparr>i_addr = a, i_data = x, i_hash = h\<rparr>"
    define lh1 where "lh1 = lh\<lparr>lh_buckets := (lh_buckets lh)[b := lh_buckets lh ! b @ [it]],
        lh_items := (lh_items lh + 1) mod SIZE_MOD\<rparr>"
    have r: "lh' = lh_maybe_resize m lh1" using i g 1 a by (auto simp: lh_insert_def it_def lh1_def Let_def)
    have "lh_ok ch cc lh1" using lh_append [OF ok 1(3,4,2,5) it_def lh1_def] by simp
    then have s: "lh_shape lh1" by (simp add: lh_ok_def)
    have f: "lh_items lh1 = lh_items lh + 1" "lh_num_buckets lh1 = lh_num_buckets lh" "lh_callback_depth lh1 = 0"
      using few d by (simp_all add: lh1_def SIZE_MOD_def)
    have "lh_balanced (lh_maybe_resize m lh1)"
      by (rule lh_maybe_resize_balanced [OF s m f(3)]) (use f few bal in \<open>auto simp: lh_balanced_def\<close>)
    then show ?thesis using f by (simp add: r)
  next
    case (2 it)
    then show ?thesis using i g bal by (auto simp: lh_insert_def lh_balanced_def)
  qed
qed

lemma lh_delete_balanced:
  assumes ok: "lh_ok ch cc lh" and bal: "lh_balanced lh" and m: "\<forall>sz. m sz \<noteq> None"
    and d: "lh_callback_depth lh = 0" and few: "lh_items lh < 2 ^ 59" "size (items_of lh) < SIZE_MOD"
    and i: "lh_delete ch cc m lh x = (r, lh')"
  shows "lh_balanced lh' \<and> lh_items lh' \<le> lh_items lh"
proof -
  obtain h b k where g: "get_next_ptr_and_hash ch cc lh x = (h, b, k)" by (cases "get_next_ptr_and_hash ch cc lh x")
  show ?thesis using ok g
  proof (cases rule: get_next_cases)
    case 1
    then show ?thesis using i g bal by (auto simp: lh_delete_def)
  next
    case (2 it)
    define lh1 where "lh1 = lh\<lparr>lh_buckets := (lh_buckets lh)[b := take k (lh_buckets lh ! b) @ drop (Suc k) (lh_buckets lh ! b)],
        lh_items := (lh_items lh + (SIZE_MOD - 1)) mod SIZE_MOD\<rparr>"
    have r: "lh' = lh_maybe_resize m lh1" using i g 2 by (auto simp: lh_delete_def lh1_def Let_def)
    have lh1: "lh_ok ch cc lh1" "items_of lh = add_mset it (items_of lh1)"
      using lh_remove [OF ok 2(2,3,4) lh1_def] by simp_all
    then have s: "lh_shape lh1" by (simp add: lh_ok_def)
    have "lh_items lh = size (items_of lh)" using ok few(2) by (simp add: lh_ok_def lh_shape_def)
    moreover have "lh_items lh1 = size (items_of lh1)"
      using s lh1(2) few(2) by (simp add: lh_shape_def)
    ultimately have f: "lh_items lh = lh_items lh1 + 1" "lh_num_buckets lh1 = lh_num_buckets lh" "lh_callback_depth lh1 = 0"
      using lh1(2) d by (simp_all add: lh1_def)
    have "lh_balanced (lh_maybe_resize m lh1)"
      by (rule lh_maybe_resize_balanced [OF s m f(3)]) (use f few bal in \<open>auto simp: lh_balanced_def\<close>)
    then show ?thesis using f by (simp add: r)
  qed
qed

section \<open>Iteration\<close>

definition addrs_distinct :: "('a, 'h, 'c) lhash_st \<Rightarrow> bool" where
  "addrs_distinct lh \<longleftrightarrow> distinct (map i_addr (concat (lh_buckets lh)))"

lemma lh_free_all:
  "lh_shape lh \<Longrightarrow> lh_free (Some lh) = map i_addr (concat (lh_buckets lh))"
proof -
  assume "lh_shape lh"
  then have "map (\<lambda>i. map i_addr (lh_buckets lh ! i)) [0..<lh_num_buckets lh] = map (map i_addr) (lh_buckets lh)"
    by (intro nth_equalityI) (simp_all add: lh_shape_num(4))
  then show ?thesis by (simp add: lh_free_def map_concat)
qed

lemma chain_at_None: "a \<notin> i_addr ` set chain \<Longrightarrow> chain_at a chain = None"
  by (induction chain) auto

lemma chain_at_found: "a \<notin> i_addr ` set xs \<Longrightarrow> i_addr it = a \<Longrightarrow> chain_at a (xs @ it # ys) = Some (it, head_addr ys)"
  by (induction xs) auto

lemma item_at_found:
  "distinct (map i_addr (concat bs)) \<Longrightarrow> b < length bs \<Longrightarrow> bs ! b = xs @ it # ys \<Longrightarrow>
     item_at (i_addr it) bs = Some (it, head_addr ys)"
proof (induction bs arbitrary: b)
  case (Cons c bs)
  show ?case
  proof (cases b)
    case 0
    then have "c = xs @ it # ys" using Cons.prems(3) by simp
    then show ?thesis using Cons.prems(1) chain_at_found [of "i_addr it" xs it ys] by auto
  next
    case (Suc b')
    have "it \<in> set (concat bs)" using bucket_mem [of b' bs it] Cons.prems(2,3) Suc by simp
    then have "i_addr it \<notin> i_addr ` set c" using Cons.prems(1) by auto
    then show ?thesis using Cons Suc by (simp add: chain_at_None)
  qed
qed simp

lemma head_addr_simps [simp]: "head_addr [] = None" "head_addr (x # xs) = Some (i_addr x)"
  by (simp_all add: head_addr_def)

text \<open>A callback that leaves the table alone sees every element once, bucket by bucket.\<close>

definition reader :: "('a ptr \<Rightarrow> 's \<Rightarrow> 's) \<Rightarrow> ('a, 'h, 'c, 's) callback" where
  "reader g d st = (g d (fst st), snd st)"

lemma doall_chain_reader:
  "addrs_distinct t \<Longrightarrow> b < length (lh_buckets t) \<Longrightarrow> lh_buckets t ! b = xs @ ys \<Longrightarrow>
     doall_chain (reader g) (head_addr ys) (s, t) = Some (fold (g \<circ> i_data) ys s, t)"
proof (induction ys arbitrary: xs s)
  case (Cons y ys)
  have "item_at (i_addr y) (lh_buckets t) = Some (y, head_addr ys)"
    using Cons.prems item_at_found by (auto simp: addrs_distinct_def)
  with Cons.IH [of "xs @ [y]"] Cons.prems show ?case by (simp add: doall_chain.simps [of _ "Some _"] reader_def)
qed (simp add: doall_chain.simps)

lemma doall_buckets_reader:
  assumes a: "addrs_distinct t" and n: "length (lh_buckets t) = lh_num_buckets t"
  shows "doall_buckets (reader g) i (s, t) = Some (fold (g \<circ> i_data) (concat (drop i (lh_buckets t))) s, t)"
proof (induction "lh_num_buckets t - i" arbitrary: i s)
  case 0
  then show ?case using n by (simp add: doall_buckets.simps)
next
  case (Suc k)
  then have i: "i < length (lh_buckets t)" using n by simp
  have "concat (drop i (lh_buckets t)) = lh_buckets t ! i @ concat (drop (Suc i) (lh_buckets t))"
    using Cons_nth_drop_Suc [OF i] by (metis concat.simps(2))
  with Suc(1) [of "Suc i"] Suc(2) show ?case
    using doall_chain_reader [OF a i, of "[]" "lh_buckets t ! i" g s] i n by (subst doall_buckets.simps) simp
qed

lemma lh_depth_restored:
  fixes d :: u32
  assumes "d < - 2"
  shows "d < - 1" "d + 1 < - 1" "d + 1 - 1 = d" "0 < d + 1"
proof -
  have "unat d < 2 ^ 32 - 2" using assms by (simp add: word_less_nat_alt)
  then have u: "unat (d + 1) = unat d + 1" by (subst unat_add_lem [THEN iffD1]) simp_all
  have m1: "unat (- 1 :: u32) = 2 ^ 32 - 1" by (simp add: unsigned_minus_1_eq_mask mask_eq_exp_minus_1)
  show "d < - 1" "d + 1 < - 1" "d + 1 - 1 = d" "0 < d + 1"
    using u \<open>unat d < 2 ^ 32 - 2\<close> by (simp_all add: word_less_nat_alt m1)
qed

lemma lh_doall_reads:
  assumes s: "lh_shape t" and a: "addrs_distinct t" and d: "lh_callback_depth t < - 2"
  shows "lh_doall_arg m (reader g) s (Some t) =
    Some (fold (g \<circ> i_data) (concat (lh_buckets t)) s, Some (lh_maybe_resize m t))"
proof -
  let ?t1 = "t\<lparr>lh_callback_depth := lh_callback_depth t + 1\<rparr>"
  have "doall_buckets (reader g) 0 (s, ?t1) = Some (fold (g \<circ> i_data) (concat (lh_buckets t)) s, ?t1)"
    using doall_buckets_reader [of ?t1 g 0 s] a lh_shape_num(4) [OF s] by (simp add: addrs_distinct_def)
  then show ?thesis using lh_depth_restored [OF d] by (simp add: lh_doall_arg_def Let_def)
qed

text \<open>A callback that deletes the element it is given, and records it.\<close>

definition deleter ::
    "('h \<Rightarrow> 'a ptr \<Rightarrow> u32) \<Rightarrow> ('c \<Rightarrow> 'a ptr \<Rightarrow> 'a ptr \<Rightarrow> int) \<Rightarrow> addr_alloc \<Rightarrow> ('a, 'h, 'c, 'a ptr list) callback" where
  "deleter ch cc m d st = (case lh_delete ch cc m (snd st) d of (r, t) \<Rightarrow> (fst st @ [r], t))"

lemma lh_delete_head:
  assumes ok: "lh_ok ch cc t" and dep: "0 < lh_callback_depth t" and b: "b < length (lh_buckets t)"
    and y: "lh_buckets t ! b = y # ys" and a: "addrs_distinct t"
  obtains t' where "lh_delete ch cc m t (i_data y) = (i_data y, t')" "lh_ok ch cc t'" "addrs_distinct t'"
    "lh_buckets t' = (lh_buckets t)[b := ys]" "lh_num_buckets t' = lh_num_buckets t"
    "lh_callback_depth t' = lh_callback_depth t" "lh_hash t' = lh_hash t" "lh_comp t' = lh_comp t"
proof -
  have s: "lh_shape t" using ok by (simp add: lh_ok_def)
  have mem: "y \<in># items_of t" using bucket_mem [OF b, of y] y by (simp add: items_of_def)
  then have h: "i_hash y = ch (lh_hash t) (i_data y)" using ok by (simp add: lh_ok_def)
  have "unat (i_hash y) mod lh_num_buckets t = b"
    using placed_nth [of "lh_num_buckets t" "lh_buckets t" b y] s b y by (simp add: lh_shape_def lh_shape_num(4))
  moreover have "cc (lh_comp t) (i_data y) (i_data y) = 0" using lh_eq_props(1) [OF ok] by (simp add: lh_eq_def)
  ultimately have g: "get_next_ptr_and_hash ch cc t (i_data y) = (i_hash y, b, 0)"
    using h y by (simp add: get_next_ptr_and_hash_def Let_def)
  define t' where "t' = t\<lparr>lh_buckets := (lh_buckets t)[b := take 0 (lh_buckets t ! b) @ drop (Suc 0) (lh_buckets t ! b)],
      lh_items := (lh_items t + (SIZE_MOD - 1)) mod SIZE_MOD\<rparr>"
  have r: "lh_ok ch cc t'" "items_of t = add_mset y (items_of t')"
    using lh_remove [OF ok b _ _ t'_def] y by simp_all
  have del: "lh_delete ch cc m t (i_data y) = (i_data y, t')"
    using dep y by (simp add: lh_delete_def g deref_def t'_def lh_maybe_resize_def)
  have "mset (concat (lh_buckets t)) = mset (y # concat (lh_buckets t'))" using r(2) by (simp add: items_of_def)
  then have "mset (map i_addr (concat (lh_buckets t))) = mset (map i_addr (y # concat (lh_buckets t')))"
    by (simp only: mset_map)
  then have "addrs_distinct t'" using a mset_eq_imp_distinct_iff by (fastforce simp: addrs_distinct_def)
  from that [OF del r(1) this] show thesis using y by (simp add: t'_def)
qed

text \<open>What a run of the deleting callback leaves: the bucket, or all buckets from \<open>i\<close> on, empty.\<close>

definition deleting :: "('h \<Rightarrow> 'a ptr \<Rightarrow> u32) \<Rightarrow> ('c \<Rightarrow> 'a ptr \<Rightarrow> 'a ptr \<Rightarrow> int) \<Rightarrow> ('a, 'h, 'c) lhash_st \<Rightarrow> bool" where
  "deleting ch cc t \<longleftrightarrow> lh_ok ch cc t \<and> addrs_distinct t \<and> 0 < lh_callback_depth t"

lemma doall_chain_deletes:
  assumes "deleting ch cc t" "b < length (lh_buckets t)" "lh_buckets t ! b = ys"
  shows "\<exists>t'. doall_chain (deleter ch cc m) (head_addr ys) (s, t) = Some (s @ map i_data ys, t') \<and>
    deleting ch cc t' \<and> lh_buckets t' = (lh_buckets t)[b := []] \<and> lh_num_buckets t' = lh_num_buckets t \<and>
    lh_callback_depth t' = lh_callback_depth t \<and> lh_hash t' = lh_hash t \<and> lh_comp t' = lh_comp t"
  using assms
proof (induction ys arbitrary: s t)
  case Nil
  then show ?case using list_update_id [of "lh_buckets t" b] by (simp add: doall_chain.simps)
next
  case (Cons y ys)
  note d = Cons.prems(1) [unfolded deleting_def]
  obtain t1 where t1: "lh_delete ch cc m t (i_data y) = (i_data y, t1)" "lh_ok ch cc t1" "addrs_distinct t1"
      "lh_buckets t1 = (lh_buckets t)[b := ys]" "lh_num_buckets t1 = lh_num_buckets t"
      "lh_callback_depth t1 = lh_callback_depth t" "lh_hash t1 = lh_hash t" "lh_comp t1 = lh_comp t"
    using lh_delete_head [of ch cc t b y ys m] d Cons.prems(2,3) by blast
  have "item_at (i_addr y) (lh_buckets t) = Some (y, head_addr ys)"
    using item_at_found [of "lh_buckets t" b "[]" y ys] d Cons.prems by (simp add: addrs_distinct_def)
  then have "doall_chain (deleter ch cc m) (head_addr (y # ys)) (s, t) =
      doall_chain (deleter ch cc m) (head_addr ys) (s @ [i_data y], t1)"
    using t1(1) by (simp add: doall_chain.simps [of _ "Some _"] deleter_def)
  moreover have "deleting ch cc t1" "b < length (lh_buckets t1)" "lh_buckets t1 ! b = ys"
    using t1 d Cons.prems(2) by (simp_all add: deleting_def)
  from Cons.IH [OF this, of "s @ [i_data y]"] obtain t' where
    "doall_chain (deleter ch cc m) (head_addr ys) (s @ [i_data y], t1) = Some ((s @ [i_data y]) @ map i_data ys, t')"
    "deleting ch cc t'" "lh_buckets t' = (lh_buckets t1)[b := []]" "lh_num_buckets t' = lh_num_buckets t1"
    "lh_callback_depth t' = lh_callback_depth t1" "lh_hash t' = lh_hash t1" "lh_comp t' = lh_comp t1" by blast
  ultimately show ?case using t1 by simp
qed

lemma doall_buckets_deletes:
  assumes "deleting ch cc t" "i \<le> lh_num_buckets t" "\<forall>j<i. lh_buckets t ! j = []"
  shows "\<exists>t'. doall_buckets (deleter ch cc m) i (s, t) = Some (s @ map i_data (concat (drop i (lh_buckets t))), t') \<and>
    lh_ok ch cc t' \<and> items_of t' = {#} \<and>
    lh_callback_depth t' = lh_callback_depth t \<and> lh_hash t' = lh_hash t \<and> lh_comp t' = lh_comp t"
  using assms
proof (induction "lh_num_buckets t - i" arbitrary: i s t)
  case 0
  then have ok: "lh_ok ch cc t" and n: "length (lh_buckets t) = lh_num_buckets t"
    by (simp_all add: deleting_def lh_ok_def lh_shape_num(4))
  then have "\<forall>c\<in>set (lh_buckets t). c = []" using 0 by (auto simp: in_set_conv_nth)
  then have "items_of t = {#}" by (simp add: items_of_def)
  then show ?case using 0 ok n by (simp add: doall_buckets.simps)
next
  case (Suc k)
  then have n: "length (lh_buckets t) = lh_num_buckets t" by (simp add: deleting_def lh_ok_def lh_shape_num(4))
  have i: "i < length (lh_buckets t)" using Suc(2) n by simp
  from doall_chain_deletes [OF Suc.prems(1) i refl, of m s] obtain t1 where
    t1: "doall_chain (deleter ch cc m) (head_addr (lh_buckets t ! i)) (s, t) = Some (s @ map i_data (lh_buckets t ! i), t1)"
      "deleting ch cc t1" "lh_buckets t1 = (lh_buckets t)[i := []]" "lh_num_buckets t1 = lh_num_buckets t"
      "lh_callback_depth t1 = lh_callback_depth t" "lh_hash t1 = lh_hash t" "lh_comp t1 = lh_comp t" by blast
  have "k = lh_num_buckets t1 - Suc i" "Suc i \<le> lh_num_buckets t1" "\<forall>j<Suc i. lh_buckets t1 ! j = []"
    using Suc(2) t1(3,4) i n Suc.prems(3) by (auto simp: nth_list_update less_Suc_eq)
  from Suc(1) [OF this(1) t1(2) this(2,3), of "s @ map i_data (lh_buckets t ! i)"] obtain t' where
    t': "doall_buckets (deleter ch cc m) (Suc i) (s @ map i_data (lh_buckets t ! i), t1) =
          Some ((s @ map i_data (lh_buckets t ! i)) @ map i_data (concat (drop (Suc i) (lh_buckets t1))), t')"
      "lh_ok ch cc t'" "items_of t' = {#}" "lh_callback_depth t' = lh_callback_depth t1"
      "lh_hash t' = lh_hash t1" "lh_comp t' = lh_comp t1" by blast
  have "concat (drop i (lh_buckets t)) = lh_buckets t ! i @ concat (drop (Suc i) (lh_buckets t))"
    using Cons_nth_drop_Suc [OF i] by (metis concat.simps(2))
  then show ?case using t1 t' i n by (subst doall_buckets.simps) simp
qed

lemma lh_doall_deletes:
  assumes ok: "lh_ok ch cc t" and a: "addrs_distinct t" and d: "lh_callback_depth t < - 2"
  shows "\<exists>t'. lh_doall_arg m (deleter ch cc m) [] (Some t) = Some (map i_data (concat (lh_buckets t)), Some t') \<and>
    lh_ok ch cc t' \<and> lh_items t' = 0 \<and> lh_lookup cc t' = (\<lambda>k. None) \<and> lh_callback_depth t' = lh_callback_depth t"
proof -
  let ?t1 = "t\<lparr>lh_callback_depth := lh_callback_depth t + 1\<rparr>"
  note dep = lh_depth_restored [OF d]
  have field: "lh_ok ch cc (u\<lparr>lh_callback_depth := c\<rparr>)" "items_of (u\<lparr>lh_callback_depth := c\<rparr>) = items_of u"
    if "lh_ok ch cc u" for u c
    using that by (simp_all add: lh_ok_def lh_shape_def items_of_def lh_eq_def [abs_def])
  have "deleting ch cc ?t1" using field(1) [OF ok] a dep by (simp add: deleting_def addrs_distinct_def)
  from doall_buckets_deletes [OF this, of 0 m "[]"] obtain t2 where
    t2: "doall_buckets (deleter ch cc m) 0 ([], ?t1) = Some (map i_data (concat (lh_buckets t)), t2)"
      "lh_ok ch cc t2" "items_of t2 = {#}" "lh_callback_depth t2 = lh_callback_depth t + 1" by auto
  let ?t3 = "t2\<lparr>lh_callback_depth := lh_callback_depth t2 - 1\<rparr>"
  have t3: "lh_ok ch cc ?t3" "items_of ?t3 = {#}" using field [OF t2(2)] t2(3) by simp_all
  then have t': "lh_ok ch cc (lh_maybe_resize m ?t3)" "items_of (lh_maybe_resize m ?t3) = {#}"
    using lh_maybe_resize_ok [OF t3(1)] lh_maybe_resize_shape [of ?t3 m] lh_ok_def [of ch cc ?t3] by simp_all
  then have "lh_items (lh_maybe_resize m ?t3) = 0" by (simp add: lh_ok_def lh_shape_def)
  moreover have "\<forall>k. lh_lookup cc (lh_maybe_resize m ?t3) k = None" using t'(2) by (simp add: lh_lookup_None)
  ultimately show ?thesis using t2 t'(1) dep by (auto simp: lh_doall_arg_def Let_def)
qed

end
