(* ===== verification/Pool.thy ===== *)
theory Pool
  imports Lhash_Iter Mem Cbs
begin

text \<open>
  \<^verbatim>\<open>crypto/pool/pool.c\<close>: reference-counted buffers that a pool shares when their bytes are equal.

  A pointer to a \<open>CRYPTO_BUFFER\<close> is its address with the fields that never change once it has
  been made: the pool (or NULL), the bytes. The reference counts of the buffers that have not been
  freed are a map from addresses. The sections that hold the lock of the pool are single definitions,
  so that calls of several threads can be interleaved between them.
\<close>

section \<open>Reference counts\<close>

definition CRYPTO_REFCOUNT_MAX :: u32 where
  "CRYPTO_REFCOUNT_MAX = 0xffffffff"

definition CRYPTO_refcount_inc :: "u32 \<Rightarrow> u32" where
  "CRYPTO_refcount_inc c = (if c < CRYPTO_REFCOUNT_MAX then c + 1 else c)"

text \<open>The result and the count; \<open>None\<close> is \<open>abort()\<close>.\<close>

definition CRYPTO_refcount_dec_and_test_zero :: "u32 \<Rightarrow> (bool \<times> u32) option" where
  "CRYPTO_refcount_dec_and_test_zero c =
     (if c = 0 then None
      else let c' = (if c < CRYPTO_REFCOUNT_MAX then c - 1 else c) in Some (c' = 0, c'))"

section \<open>Code\<close>

record crypto_buffer_st =
  cb_addr :: nat
  cb_pool :: bool
  cb_bytes :: "u8 list"

record crypto_buffer_pool_st =
  p_bufs :: "(crypto_buffer_st, unit, unit) lhash_st"
  p_refs :: "nat \<Rightarrow> u32 option"

definition CRYPTO_BUFFER_hash :: "unit \<Rightarrow> crypto_buffer_st ptr \<Rightarrow> u32" where
  "CRYPTO_BUFFER_hash f buf =
     (case buf of None \<Rightarrow> 0 | Some b \<Rightarrow> OPENSSL_hash32 (cb_bytes b) (length (cb_bytes b)))"

definition CRYPTO_BUFFER_cmp :: "unit \<Rightarrow> crypto_buffer_st ptr \<Rightarrow> crypto_buffer_st ptr \<Rightarrow> int" where
  "CRYPTO_BUFFER_cmp f a b =
     (case (a, b) of
        (Some x, Some y) \<Rightarrow>
          if length (cb_bytes x) \<noteq> length (cb_bytes y) then 1
          else memcmp (cb_bytes x) (cb_bytes y) (length (cb_bytes x))
      | (None, None) \<Rightarrow> 0
      | _ \<Rightarrow> 1)"

text \<open>The table and the lock, a \<open>pthread_rwlock_t\<close> of 200 bytes.\<close>

definition sizeof_CRYPTO_BUFFER_POOL :: nat where
  "sizeof_CRYPTO_BUFFER_POOL = 208"

definition CRYPTO_BUFFER_POOL_new :: "addr_alloc \<Rightarrow> crypto_buffer_pool_st option" where
  "CRYPTO_BUFFER_POOL_new m =
     (case malloc_addr m sizeof_CRYPTO_BUFFER_POOL of
        None \<Rightarrow> None
      | Some _ \<Rightarrow>
          (case lh_new m () () of
             None \<Rightarrow> None
           | Some bufs \<Rightarrow> Some \<lparr>p_bufs = bufs, p_refs = (\<lambda>_. None)\<rparr>))"

text \<open>The buffer on the stack that is only compared with.\<close>

definition tmp_buffer :: "u8 list \<Rightarrow> crypto_buffer_st" where
  "tmp_buffer data = \<lparr>cb_addr = 0, cb_pool = False, cb_bytes = data\<rparr>"

definition add_reference :: "crypto_buffer_st \<Rightarrow> crypto_buffer_pool_st \<Rightarrow> crypto_buffer_pool_st" where
  "add_reference b st =
     st\<lparr>p_refs := (p_refs st)(cb_addr b := map_option CRYPTO_refcount_inc (p_refs st (cb_addr b)))\<rparr>"

text \<open>The section of \<open>CRYPTO_BUFFER_new\<close> under the read lock.\<close>

definition new_lookup :: "u8 list \<Rightarrow> crypto_buffer_pool_st \<Rightarrow> crypto_buffer_st ptr \<times> crypto_buffer_pool_st" where
  "new_lookup data st =
     (case lh_retrieve CRYPTO_BUFFER_hash CRYPTO_BUFFER_cmp (p_bufs st) (Some (tmp_buffer data)) of
        None \<Rightarrow> (None, st)
      | Some duplicate \<Rightarrow> (Some duplicate, add_reference duplicate st))"

text \<open>The buffer made outside the lock; \<open>a\<close> is the address \<open>OPENSSL_malloc\<close> gave for it.\<close>

definition new_buffer ::
    "nat option \<Rightarrow> allocator \<Rightarrow> bool \<Rightarrow> u8 list \<Rightarrow> nat \<Rightarrow> crypto_buffer_pool_st \<Rightarrow>
     crypto_buffer_st ptr \<times> crypto_buffer_pool_st" where
  "new_buffer a m pool data len st =
     (case a of
        None \<Rightarrow> (None, st)
      | Some addr \<Rightarrow>
          let copy = OPENSSL_memdup m data len in
          if len \<noteq> 0 \<and> copy = None then (None, st)
          else
            (Some \<lparr>cb_addr = addr, cb_pool = pool, cb_bytes = (case copy of None \<Rightarrow> [] | Some b \<Rightarrow> take len (blk_data b))\<rparr>,
             st\<lparr>p_refs := (p_refs st)(addr \<mapsto> 1)\<rparr>))"

text \<open>The section under the write lock and the clean-up when another thread was faster.\<close>

definition new_insert ::
    "addr_alloc \<Rightarrow> crypto_buffer_st \<Rightarrow> crypto_buffer_pool_st \<Rightarrow> crypto_buffer_st ptr \<times> crypto_buffer_pool_st" where
  "new_insert m buf st =
     (let duplicate = lh_retrieve CRYPTO_BUFFER_hash CRYPTO_BUFFER_cmp (p_bufs st) (Some buf);
          (inserted, st1) =
            (case duplicate of
               None \<Rightarrow>
                 (case lh_insert CRYPTO_BUFFER_hash CRYPTO_BUFFER_cmp m (p_bufs st) (Some buf) of
                    (n, _, bufs) \<Rightarrow> (n, st\<lparr>p_bufs := bufs\<rparr>))
             | Some d \<Rightarrow> (0, add_reference d st))
      in if inserted = 0 then (duplicate, st1\<lparr>p_refs := (p_refs st1)(cb_addr buf := None)\<rparr>)
         else (Some buf, st1))"

text \<open>The assertion in the section: the insertion replaces nothing, because nothing was found.\<close>

lemma insertion_replaces_nothing:
  assumes "lh_retrieve CRYPTO_BUFFER_hash CRYPTO_BUFFER_cmp bufs (Some buf) = None"
    "lh_insert CRYPTO_BUFFER_hash CRYPTO_BUFFER_cmp m bufs (Some buf) = (n, old, bufs')"
  shows "old = None"
  using assms by (auto simp: lh_retrieve_def lh_insert_def Let_def split: prod.splits option.splits)

definition CRYPTO_BUFFER_new ::
    "addr_alloc \<Rightarrow> nat option \<Rightarrow> allocator \<Rightarrow> u8 list \<Rightarrow> nat \<Rightarrow> bool \<Rightarrow> crypto_buffer_pool_st \<Rightarrow>
     crypto_buffer_st ptr \<times> crypto_buffer_pool_st" where
  "CRYPTO_BUFFER_new ma a m data len pool st =
     (case (if pool then new_lookup (take len data) st else (None, st)) of
        (Some duplicate, st1) \<Rightarrow> (Some duplicate, st1)
      | (None, st1) \<Rightarrow>
          (case new_buffer a m pool data len st1 of
             (None, st2) \<Rightarrow> (None, st2)
           | (Some buf, st2) \<Rightarrow> if \<not> pool then (Some buf, st2) else new_insert ma buf st2))"

text \<open>A buffer outside every pool whose bytes the caller fills in through \<open>*out_data\<close>.\<close>

definition CRYPTO_BUFFER_alloc ::
    "nat option \<Rightarrow> allocator \<Rightarrow> nat \<Rightarrow> crypto_buffer_pool_st \<Rightarrow> crypto_buffer_st ptr \<times> crypto_buffer_pool_st" where
  "CRYPTO_BUFFER_alloc a m len st =
     (case a of
        None \<Rightarrow> (None, st)
      | Some addr \<Rightarrow>
          let data = OPENSSL_malloc m len in
          if len \<noteq> 0 \<and> data = None then (None, st)
          else
            (Some \<lparr>cb_addr = addr, cb_pool = False, cb_bytes = (case data of None \<Rightarrow> [] | Some b \<Rightarrow> take len (blk_data b))\<rparr>,
             st\<lparr>p_refs := (p_refs st)(addr \<mapsto> 1)\<rparr>))"

definition CRYPTO_BUFFER_new_from_CBS ::
    "addr_alloc \<Rightarrow> nat option \<Rightarrow> allocator \<Rightarrow> u8 list \<Rightarrow> bool \<Rightarrow> crypto_buffer_pool_st \<Rightarrow>
     crypto_buffer_st ptr \<times> crypto_buffer_pool_st" where
  "CRYPTO_BUFFER_new_from_CBS ma a m cbs pool st = CRYPTO_BUFFER_new ma a m (CBS_data cbs) (CBS_len cbs) pool st"

text \<open>\<open>None\<close> is \<open>abort()\<close>, a failed \<open>assert\<close>, or a buffer that has been freed already.\<close>

definition CRYPTO_BUFFER_free ::
    "addr_alloc \<Rightarrow> crypto_buffer_st ptr \<Rightarrow> crypto_buffer_pool_st \<Rightarrow> crypto_buffer_pool_st option" where
  "CRYPTO_BUFFER_free m p st =
     (case p of
        None \<Rightarrow> Some st
      | Some buf \<Rightarrow>
          (case Option.bind (p_refs st (cb_addr buf)) CRYPTO_refcount_dec_and_test_zero of
             None \<Rightarrow> None
           | Some (zero, c) \<Rightarrow>
               if \<not> zero then Some (st\<lparr>p_refs := (p_refs st)(cb_addr buf \<mapsto> c)\<rparr>)
               else
                 (case (if cb_pool buf then lh_delete CRYPTO_BUFFER_hash CRYPTO_BUFFER_cmp m (p_bufs st) (Some buf)
                        else (Some buf, p_bufs st)) of
                    (found, bufs) \<Rightarrow>
                      if found \<noteq> Some buf then None
                      else Some (st\<lparr>p_bufs := bufs, p_refs := (p_refs st)(cb_addr buf := None)\<rparr>))))"

definition CRYPTO_BUFFER_up_ref :: "crypto_buffer_st \<Rightarrow> crypto_buffer_pool_st \<Rightarrow> crypto_buffer_pool_st" where
  "CRYPTO_BUFFER_up_ref buf st = add_reference buf st"

definition CRYPTO_BUFFER_data :: "crypto_buffer_st \<Rightarrow> u8 list" where
  "CRYPTO_BUFFER_data buf = cb_bytes buf"

definition CRYPTO_BUFFER_len :: "crypto_buffer_st \<Rightarrow> nat" where
  "CRYPTO_BUFFER_len buf = length (cb_bytes buf)"

definition CRYPTO_BUFFER_init_CBS :: "crypto_buffer_st \<Rightarrow> u8 list" where
  "CRYPTO_BUFFER_init_CBS buf = CBS_init (CRYPTO_BUFFER_data buf) (CRYPTO_BUFFER_len buf)"

end
