(* ===== verification/Pool_Steps.thy ===== *)
theory Pool_Steps
  imports Pool
begin

text \<open>
  The pool as a state machine: threads make, share and free buffers, their critical sections
  interleaved in any order. Every buffer in a client's hands is alive, buffers with the same
  bytes are the same buffer, and a count is the number of references (unless it is stuck at its maximum).
\<close>

section \<open>The table as a map from bytes\<close>

lemma memcmp_zero: "length x = length y \<Longrightarrow> memcmp x y (length x) = 0 \<longleftrightarrow> x = y"
  by (induction x y rule: list_induct2) auto

lemma buffer_cmp_zero:
  "CRYPTO_BUFFER_cmp u (Some x) (Some y) = 0 \<longleftrightarrow> cb_bytes x = cb_bytes y"
  "CRYPTO_BUFFER_cmp u None (Some y) \<noteq> 0" "CRYPTO_BUFFER_cmp u (Some x) None \<noteq> 0" "CRYPTO_BUFFER_cmp u None None = 0"
  using memcmp_zero [of "cb_bytes x" "cb_bytes y"] by (auto simp: CRYPTO_BUFFER_cmp_def)

lemma buffer_contract: "lh_contract CRYPTO_BUFFER_hash CRYPTO_BUFFER_cmp () ()"
  unfolding lh_contract_def
proof (intro conjI allI impI)
  show "CRYPTO_BUFFER_cmp () a a = 0" for a by (cases a) (simp_all add: buffer_cmp_zero)
  show "CRYPTO_BUFFER_cmp () b a = 0" if "CRYPTO_BUFFER_cmp () a b = 0" for a b
    using that by (cases a; cases b) (simp_all add: buffer_cmp_zero)
  show "CRYPTO_BUFFER_cmp () x z = 0" if "CRYPTO_BUFFER_cmp () x y = 0" "CRYPTO_BUFFER_cmp () y z = 0" for x y z
    using that by (cases x; cases y; cases z) (simp_all add: buffer_cmp_zero)
  show "CRYPTO_BUFFER_hash () a = CRYPTO_BUFFER_hash () b" if "CRYPTO_BUFFER_cmp () a b = 0" for a b
    using that by (cases a; cases b) (simp_all add: buffer_cmp_zero CRYPTO_BUFFER_hash_def)
qed

text \<open>The buffer the pool holds for given bytes.\<close>

definition pooled :: "crypto_buffer_pool_st \<Rightarrow> u8 list \<Rightarrow> crypto_buffer_st ptr" where
  "pooled st bs = or_null (lh_lookup CRYPTO_BUFFER_cmp (p_bufs st) (Some (tmp_buffer bs)))"

definition table_ok :: "crypto_buffer_pool_st \<Rightarrow> bool" where
  "table_ok st \<longleftrightarrow> lh_ok CRYPTO_BUFFER_hash CRYPTO_BUFFER_cmp (p_bufs st) \<and>
     (\<forall>x. lh_lookup CRYPTO_BUFFER_cmp (p_bufs st) (Some x) \<noteq> Some None)"

lemma tmp_buffer_bytes [simp]: "cb_bytes (tmp_buffer bs) = bs"
  by (simp add: tmp_buffer_def)

lemma tmp_buffer_cmp: "CRYPTO_BUFFER_cmp u d (Some (tmp_buffer (cb_bytes x))) = CRYPTO_BUFFER_cmp u d (Some x)"
  by (cases d) (simp_all add: CRYPTO_BUFFER_cmp_def)

lemma lookup_bytes:
  assumes "table_ok st"
  shows "lh_lookup CRYPTO_BUFFER_cmp (p_bufs st) (Some x) = map_option Some (pooled st (cb_bytes x))"
    "pooled st bs = Some b \<Longrightarrow> cb_bytes b = bs"
proof -
  have ok: "lh_ok CRYPTO_BUFFER_hash CRYPTO_BUFFER_cmp (p_bufs st)" using assms by (simp add: table_ok_def)
  have eq: "lh_eq CRYPTO_BUFFER_cmp (p_bufs st) (Some y) (Some z) \<longleftrightarrow> cb_bytes y = cb_bytes z" for y z
    by (simp add: lh_eq_def buffer_cmp_zero)
  have "lh_lookup CRYPTO_BUFFER_cmp (p_bufs st) (Some x) =
      lh_lookup CRYPTO_BUFFER_cmp (p_bufs st) (Some (tmp_buffer (cb_bytes x)))"
    by (simp add: lh_lookup_def tmp_buffer_cmp)
  moreover have "lh_lookup CRYPTO_BUFFER_cmp (p_bufs st) (Some (tmp_buffer (cb_bytes x))) \<noteq> Some None"
    using assms by (simp add: table_ok_def)
  ultimately show "lh_lookup CRYPTO_BUFFER_cmp (p_bufs st) (Some x) = map_option Some (pooled st (cb_bytes x))"
    by (auto simp: pooled_def split: option.splits)
  assume "pooled st bs = Some b"
  then have "lh_lookup CRYPTO_BUFFER_cmp (p_bufs st) (Some (tmp_buffer bs)) = Some (Some b)"
    by (auto simp: pooled_def split: option.splits)
  from lh_lookup_mem [OF this] have "lh_eq CRYPTO_BUFFER_cmp (p_bufs st) (Some b) (Some (tmp_buffer bs))" by auto
  then show "cb_bytes b = bs" by (simp add: eq)
qed

lemma retrieve_pooled:
  "table_ok st \<Longrightarrow> lh_retrieve CRYPTO_BUFFER_hash CRYPTO_BUFFER_cmp (p_bufs st) (Some x) = pooled st (cb_bytes x)"
  using lh_retrieve_lookup [of CRYPTO_BUFFER_hash CRYPTO_BUFFER_cmp "p_bufs st" "Some x"] lookup_bytes(1) [of st x]
  by (auto simp: table_ok_def split: option.splits)

lemma pooled_refs [simp]: "pooled (st\<lparr>p_refs := r\<rparr>) = pooled st" "table_ok (st\<lparr>p_refs := r\<rparr>) = table_ok st"
  by (simp_all add: pooled_def [abs_def] table_ok_def)

lemma pooled_add_reference [simp]: "pooled (add_reference b st) = pooled st" "table_ok (add_reference b st) = table_ok st"
  by (simp_all add: add_reference_def)

lemma insert_pooled:
  assumes t: "table_ok st" and none: "pooled st (cb_bytes b) = None"
    and i: "lh_insert CRYPTO_BUFFER_hash CRYPTO_BUFFER_cmp m (p_bufs st) (Some b) = (n, old, bufs)"
  shows "table_ok (st\<lparr>p_bufs := bufs\<rparr>) \<and> old = None \<and>
    (n = 1 \<and> pooled (st\<lparr>p_bufs := bufs\<rparr>) = (pooled st)(cb_bytes b \<mapsto> b) \<or> n = 0 \<and> bufs = p_bufs st)"
proof -
  have ok: "lh_ok CRYPTO_BUFFER_hash CRYPTO_BUFFER_cmp (p_bufs st)" using t by (simp add: table_ok_def)
  note c = lh_insert_cases [OF ok i]
  have eq: "lh_eq CRYPTO_BUFFER_cmp (p_bufs st) (Some y) (Some z) \<longleftrightarrow> cb_bytes y = cb_bytes z" for y z
    by (simp add: lh_eq_def buffer_cmp_zero)
  have "old = None" using c(5) lookup_bytes(1) [OF t, of b] none by simp
  moreover have "table_ok (st\<lparr>p_bufs := bufs\<rparr>) \<and> pooled (st\<lparr>p_bufs := bufs\<rparr>) = (pooled st)(cb_bytes b \<mapsto> b)"
    if l: "lh_lookup CRYPTO_BUFFER_cmp bufs =
      (\<lambda>k. if lh_eq CRYPTO_BUFFER_cmp (p_bufs st) (Some b) k then Some (Some b) else lh_lookup CRYPTO_BUFFER_cmp (p_bufs st) k)"
    using c(1) t by (auto simp: table_ok_def pooled_def l eq fun_eq_iff)
  ultimately show ?thesis using c(6) t by (auto simp: table_ok_def)
qed

lemma delete_pooled:
  assumes t: "table_ok st"
    and d: "lh_delete CRYPTO_BUFFER_hash CRYPTO_BUFFER_cmp m (p_bufs st) (Some b) = (found, bufs)"
  shows "table_ok (st\<lparr>p_bufs := bufs\<rparr>) \<and> found = pooled st (cb_bytes b) \<and>
    pooled (st\<lparr>p_bufs := bufs\<rparr>) = (pooled st)(cb_bytes b := None)"
proof -
  have ok: "lh_ok CRYPTO_BUFFER_hash CRYPTO_BUFFER_cmp (p_bufs st)" using t by (simp add: table_ok_def)
  have eq: "lh_eq CRYPTO_BUFFER_cmp (p_bufs st) (Some y) (Some z) \<longleftrightarrow> cb_bytes y = cb_bytes z" for y z
    by (simp add: lh_eq_def buffer_cmp_zero)
  from lh_delete_cases [OF ok d] have l: "lh_lookup CRYPTO_BUFFER_cmp bufs =
      (\<lambda>k. if lh_eq CRYPTO_BUFFER_cmp (p_bufs st) (Some b) k then None else lh_lookup CRYPTO_BUFFER_cmp (p_bufs st) k)"
    and c: "lh_ok CRYPTO_BUFFER_hash CRYPTO_BUFFER_cmp bufs" "found = or_null (lh_lookup CRYPTO_BUFFER_cmp (p_bufs st) (Some b))"
    by simp_all
  have "found = pooled st (cb_bytes b)" using c(2) lookup_bytes(1) [OF t, of b] by (auto split: option.splits)
  then show ?thesis using c(1) t by (auto simp: table_ok_def pooled_def l eq fun_eq_iff)
qed

section \<open>Steps\<close>

text \<open>
  The state of the program: the pool, the buffers threads have made and not yet inserted, and
  the references clients hold.
\<close>

record pool_config =
  c_pool :: crypto_buffer_pool_st
  c_pending :: "crypto_buffer_st multiset"
  c_handles :: "crypto_buffer_st multiset"

inductive pool_step :: "pool_config \<Rightarrow> pool_config \<Rightarrow> bool" where
  found: "new_lookup data st = (Some b, st') \<Longrightarrow>
    pool_step \<lparr>c_pool = st, c_pending = P, c_handles = H\<rparr> \<lparr>c_pool = st', c_pending = P, c_handles = add_mset b H\<rparr>"
| made: "p_refs st a = None \<Longrightarrow>
    new_buffer (Some a) m True data len st = (Some b, st') \<Longrightarrow>
    pool_step \<lparr>c_pool = st, c_pending = P, c_handles = H\<rparr> \<lparr>c_pool = st', c_pending = add_mset b P, c_handles = H\<rparr>"
| inserted: "new_insert ma b st = (Some r, st') \<Longrightarrow>
    pool_step \<lparr>c_pool = st, c_pending = add_mset b P, c_handles = H\<rparr> \<lparr>c_pool = st', c_pending = P, c_handles = add_mset r H\<rparr>"
| no_memory: "new_insert ma b st = (None, st') \<Longrightarrow>
    pool_step \<lparr>c_pool = st, c_pending = add_mset b P, c_handles = H\<rparr> \<lparr>c_pool = st', c_pending = P, c_handles = H\<rparr>"
| shared: "b \<in># H \<Longrightarrow> pool_step \<lparr>c_pool = st, c_pending = P, c_handles = H\<rparr>
    \<lparr>c_pool = CRYPTO_BUFFER_up_ref b st, c_pending = P, c_handles = add_mset b H\<rparr>"
| freed: "CRYPTO_BUFFER_free m (Some b) st = Some st' \<Longrightarrow>
    pool_step \<lparr>c_pool = st, c_pending = P, c_handles = add_mset b H\<rparr> \<lparr>c_pool = st', c_pending = P, c_handles = H\<rparr>"

inductive pool_reachable :: "pool_config \<Rightarrow> bool" where
  new: "CRYPTO_BUFFER_POOL_new m = Some st \<Longrightarrow> pool_reachable \<lparr>c_pool = st, c_pending = {#}, c_handles = {#}\<rparr>"
| step: "pool_reachable c \<Longrightarrow> pool_step c c' \<Longrightarrow> pool_reachable c'"

section \<open>The invariant\<close>

text \<open>A count is right: not zero, and the number of references unless it is at its maximum.\<close>

definition counts :: "crypto_buffer_st multiset \<Rightarrow> crypto_buffer_st \<Rightarrow> u32 option \<Rightarrow> bool" where
  "counts H b r \<longleftrightarrow> (\<exists>c. r = Some c \<and> c \<noteq> 0 \<and> (c = CRYPTO_REFCOUNT_MAX \<or> unat c = count H b))"

definition pool_inv :: "crypto_buffer_pool_st \<Rightarrow> crypto_buffer_st multiset \<Rightarrow> crypto_buffer_st multiset \<Rightarrow> bool" where
  "pool_inv st P H \<longleftrightarrow> table_ok st \<and>
     (\<forall>bs b. pooled st bs = Some b \<longrightarrow> cb_pool b \<and> counts H b (p_refs st (cb_addr b))) \<and>
     (\<forall>b\<in>#H. pooled st (cb_bytes b) = Some b) \<and>
     (\<forall>bs b bs' b'. pooled st bs = Some b \<longrightarrow> pooled st bs' = Some b' \<longrightarrow> cb_addr b = cb_addr b' \<longrightarrow> b = b') \<and>
     (\<forall>b\<in>#P. cb_pool b \<and> p_refs st (cb_addr b) = Some 1 \<and> count P b = 1 \<and>
        (\<forall>bs b'. pooled st bs = Some b' \<longrightarrow> cb_addr b' \<noteq> cb_addr b) \<and>
        (\<forall>b'\<in>#P. cb_addr b' = cb_addr b \<longrightarrow> b' = b))"

lemma refcount_le_max: "c \<le> CRYPTO_REFCOUNT_MAX"
proof -
  have "unat c < 4294967296" by (rule order.strict_trans2 [OF unsigned_less]) simp
  moreover have "unat CRYPTO_REFCOUNT_MAX = 4294967295" by (simp add: CRYPTO_REFCOUNT_MAX_def)
  ultimately show ?thesis unfolding word_le_nat_alt by linarith
qed

lemma counts_inc: "counts H b r \<Longrightarrow> counts (add_mset b H) b (map_option CRYPTO_refcount_inc r)"
proof -
  assume "counts H b r"
  then obtain c where c: "r = Some c" "c \<noteq> 0" "c = CRYPTO_REFCOUNT_MAX \<or> unat c = count H b" by (auto simp: counts_def)
  show ?thesis
  proof (cases "c < CRYPTO_REFCOUNT_MAX")
    case True
    then have less: "unat c < 4294967295" by (simp add: CRYPTO_REFCOUNT_MAX_def word_less_nat_alt)
    then have u: "unat (c + 1) = unat c + 1" by (subst unat_add_lem [THEN iffD1]) simp_all
    then have "c + 1 \<noteq> 0" by (metis Suc_eq_plus1 nat.simps(3) unat_0)
    then show ?thesis using c True u by (auto simp: counts_def CRYPTO_refcount_inc_def)
  next
    case False
    then have "c = CRYPTO_REFCOUNT_MAX" using refcount_le_max [of c] by simp
    then show ?thesis using c by (auto simp: counts_def CRYPTO_refcount_inc_def)
  qed
qed

lemma counts_dec:
  assumes "counts (add_mset b H) b r"
  obtains c z where "Option.bind r CRYPTO_refcount_dec_and_test_zero = Some (z, c)"
    "z \<Longrightarrow> count H b = 0" "\<not> z \<Longrightarrow> counts H b (Some c)"
proof -
  obtain c where c: "r = Some c" "c \<noteq> 0" "c = CRYPTO_REFCOUNT_MAX \<or> unat c = count H b + 1"
    using assms by (auto simp: counts_def)
  show thesis
  proof (cases "c < CRYPTO_REFCOUNT_MAX")
    case True
    have "unat (c - 1) = unat c - 1" using c(2) by (simp add: unat_minus_one)
    then have n: "unat (c - 1) = count H b" using c True by auto
    have "Option.bind r CRYPTO_refcount_dec_and_test_zero = Some (c - 1 = 0, c - 1)"
      using c True by (simp add: CRYPTO_refcount_dec_and_test_zero_def Let_def)
    then show ?thesis
    proof (rule that)
      show "count H b = 0" if "c - 1 = 0" using n that by simp
      show "counts H b (Some (c - 1))" if "c - 1 \<noteq> 0" using n that by (simp add: counts_def)
    qed
  next
    case False
    then have "c = CRYPTO_REFCOUNT_MAX" using refcount_le_max [of c] by simp
    then show ?thesis using that [of False c] c
      by (auto simp: CRYPTO_refcount_dec_and_test_zero_def counts_def CRYPTO_REFCOUNT_MAX_def Let_def)
  qed
qed

lemma counts_other: "b' \<noteq> b \<Longrightarrow> counts (add_mset b H) b' r = counts H b' r"
  by (simp add: counts_def)

text \<open>Another reference to a buffer of the pool.\<close>

lemma inv_add_reference:
  assumes i: "pool_inv st P H" and b: "pooled st bs = Some b"
  shows "pool_inv (add_reference b st) P (add_mset b H)"
proof -
  have t: "table_ok st" using i by (simp add: pool_inv_def)
  have bytes: "cb_bytes b = bs" using lookup_bytes(2) [OF t b] .
  have c: "counts H b (p_refs st (cb_addr b))" using i b by (auto simp: pool_inv_def)
  have addr: "b' = b" if "pooled st bs' = Some b'" "cb_addr b' = cb_addr b" for bs' b'
    using i b that unfolding pool_inv_def by blast
  have pend: "cb_addr p \<noteq> cb_addr b" if "p \<in># P" for p using i b that unfolding pool_inv_def by fastforce
  show ?thesis unfolding pool_inv_def pooled_add_reference
  proof (intro conjI allI impI ballI)
    show "table_ok st" by (rule t)
    fix bs' b'
    assume b': "pooled st bs' = Some b'"
    then show "cb_pool b'" using i by (simp add: pool_inv_def)
    show "counts (add_mset b H) b' (p_refs (add_reference b st) (cb_addr b'))"
    proof (cases "b' = b")
      case True
      then show ?thesis using counts_inc [OF c] by (simp add: add_reference_def)
    next
      case False
      then have "cb_addr b' \<noteq> cb_addr b" using addr [OF b'] by blast
      then show ?thesis using False i b' by (simp add: add_reference_def counts_other pool_inv_def)
    qed
  next
    fix b' assume "b' \<in># add_mset b H"
    then show "pooled st (cb_bytes b') = Some b'" using i b bytes by (auto simp: pool_inv_def)
  next
    fix bs1 b1 bs2 b2
    assume "pooled st bs1 = Some b1" "pooled st bs2 = Some b2" "cb_addr b1 = cb_addr b2"
    then show "b1 = b2" using i unfolding pool_inv_def by blast
  next
    fix p assume p: "p \<in># P"
    then show "cb_pool p" "count P p = 1" using i by (simp_all add: pool_inv_def)
    show "p_refs (add_reference b st) (cb_addr p) = Some 1"
      using i p pend [OF p] by (simp add: pool_inv_def add_reference_def)
    show "cb_addr b' \<noteq> cb_addr p" if "pooled st bs' = Some b'" for bs' b'
      using i p that unfolding pool_inv_def by blast
    show "p' = p" if "p' \<in># P" "cb_addr p' = cb_addr p" for p'
      using i p that unfolding pool_inv_def by blast
  qed
qed

lemma inv_add_pending:
  assumes i: "pool_inv st P H" and a: "p_refs st a = None"
    and b: "b = \<lparr>cb_addr = a, cb_pool = True, cb_bytes = bs\<rparr>"
  shows "pool_inv (st\<lparr>p_refs := (p_refs st)(a \<mapsto> 1)\<rparr>) (add_mset b P) H"
proof -
  have new: "cb_addr b' \<noteq> a" if "pooled st bs' = Some b'" for bs' b'
    using i that a unfolding pool_inv_def counts_def by fastforce
  have newp: "cb_addr b' \<noteq> a" if "b' \<in># P" for b'
    using i that a unfolding pool_inv_def by fastforce
  then have "b \<notin># P" using newp [of b] by (auto simp: b)
  then have "count P b = 0" by (simp add: not_in_iff)
  then show ?thesis using i new newp unfolding pool_inv_def by (auto simp: b)
qed

lemma inv_drop_pending:
  assumes i: "pool_inv st (add_mset b P) H"
  shows "pool_inv (st\<lparr>p_refs := (p_refs st)(cb_addr b := None)\<rparr>) P H"
proof -
  have b: "p_refs st (cb_addr b) = Some 1" "count (add_mset b P) b = 1"
      "\<And>bs b'. pooled st bs = Some b' \<Longrightarrow> cb_addr b' \<noteq> cb_addr b"
      "\<And>b'. b' \<in># P \<Longrightarrow> cb_addr b' = cb_addr b \<Longrightarrow> b' = b"
    using i unfolding pool_inv_def by auto
  then have "b \<notin># P" by (simp add: count_eq_zero_iff)
  then have ne: "cb_addr b' \<noteq> cb_addr b" if "b' \<in># P" for b' using b(4) that by blast
  have "count P b' = 1" if "b' \<in># P" for b'
    using i that \<open>b \<notin># P\<close> unfolding pool_inv_def by (metis count_add_mset union_iff add_mset_add_single)
  then show ?thesis using i b(3) ne unfolding pool_inv_def by auto
qed

text \<open>The buffer of a thread goes into the table.\<close>

lemma inv_insert_pending:
  assumes i: "pool_inv st (add_mset b P) H" and none: "pooled st (cb_bytes b) = None"
    and st': "table_ok st'" "pooled st' = (pooled st)(cb_bytes b \<mapsto> b)" "p_refs st' = p_refs st"
  shows "pool_inv st' P (add_mset b H)"
proof -
  have b: "cb_pool b" "p_refs st (cb_addr b) = Some 1" "count (add_mset b P) b = 1"
      "\<And>bs b'. pooled st bs = Some b' \<Longrightarrow> cb_addr b' \<noteq> cb_addr b"
      "\<And>b'. b' \<in># P \<Longrightarrow> cb_addr b' = cb_addr b \<Longrightarrow> b' = b"
    using i unfolding pool_inv_def by auto
  have "b \<notin># P" using b(3) by (simp add: count_eq_zero_iff)
  then have ne: "cb_addr p \<noteq> cb_addr b" "p \<noteq> b" if "p \<in># P" for p using b(5) that by blast+
  have H: "b \<notin># H" using i none by (auto simp: pool_inv_def)
  then have c: "counts (add_mset b H) b (Some 1)" by (simp add: counts_def not_in_iff)
  have old: "b' \<noteq> b \<and> pooled st bs = Some b'" if "pooled st' bs = Some b'" "bs \<noteq> cb_bytes b" for bs b'
    using that b(4) by (auto simp: st'(2))
  show ?thesis unfolding pool_inv_def
  proof (intro conjI allI impI ballI)
    show "table_ok st'" by (rule st'(1))
    fix bs b'
    assume b': "pooled st' bs = Some b'"
    show "cb_pool b'" using b' b(1) i by (auto simp: st'(2) pool_inv_def split: if_splits)
    show "counts (add_mset b H) b' (p_refs st' (cb_addr b'))"
      using b' old [OF b'] i c b(2) by (cases "bs = cb_bytes b") (auto simp: st'(2,3) counts_other pool_inv_def)
  next
    fix h assume h: "h \<in># add_mset b H"
    have "cb_bytes h \<noteq> cb_bytes b" if "h \<in># H" using that i none by (auto simp: pool_inv_def)
    then show "pooled st' (cb_bytes h) = Some h" using h i by (auto simp: st'(2) pool_inv_def)
  next
    fix bs1 b1 bs2 b2
    assume p: "pooled st' bs1 = Some b1" "pooled st' bs2 = Some b2" "cb_addr b1 = cb_addr b2"
    have "b1 = b2" if "pooled st bs1 = Some b1" "pooled st bs2 = Some b2" using that p(3) i unfolding pool_inv_def by blast
    then show "b1 = b2" using p b(4) by (auto simp: st'(2) split: if_splits)
  next
    fix p assume p: "p \<in># P"
    show "cb_pool p" "p_refs st' (cb_addr p) = Some 1" using i p by (simp_all add: pool_inv_def st'(3))
    have "count (add_mset b P) p = 1" using i p by (simp add: pool_inv_def)
    then show "count P p = 1" using ne(2) [OF p] by simp
    show "cb_addr b' \<noteq> cb_addr p" if "pooled st' bs = Some b'" for bs b'
    proof (cases "bs = cb_bytes b")
      case True
      then show ?thesis using that ne(1) [OF p] by (auto simp: st'(2))
    next
      case False
      then have "pooled st bs = Some b'" using that by (simp add: st'(2))
      then show ?thesis using i p by (auto simp: pool_inv_def)
    qed
    show "p' = p" if "p' \<in># P" "cb_addr p' = cb_addr p" for p' using i p that by (auto simp: pool_inv_def)
  qed
qed

lemma inv_new_insert:
  assumes i: "pool_inv st (add_mset b P) H" and n: "new_insert m b st = (r, st')"
  shows "pool_inv st' P (case r of None \<Rightarrow> H | Some d \<Rightarrow> add_mset d H)"
proof -
  have t: "table_ok st" using i by (simp add: pool_inv_def)
  show ?thesis
  proof (cases "pooled st (cb_bytes b)")
    case (Some d)
    then have "r = Some d" "st' = (add_reference d st)\<lparr>p_refs := (p_refs (add_reference d st))(cb_addr b := None)\<rparr>"
      using n by (auto simp: new_insert_def retrieve_pooled [OF t] Let_def)
    then show ?thesis using inv_drop_pending [OF inv_add_reference [OF i Some]] by simp
  next
    case None
    obtain k old bufs where ins: "lh_insert CRYPTO_BUFFER_hash CRYPTO_BUFFER_cmp m (p_bufs st) (Some b) = (k, old, bufs)"
      by (metis prod.exhaust)
    note c = insert_pooled [OF t None ins]
    show ?thesis
    proof (cases "k = 0")
      case True
      then have "r = None" "st' = st\<lparr>p_refs := (p_refs st)(cb_addr b := None)\<rparr>"
        using n None c by (auto simp: new_insert_def retrieve_pooled [OF t] ins Let_def)
      then show ?thesis using inv_drop_pending [OF i] by simp
    next
      case False
      then have "r = Some b" "st' = st\<lparr>p_bufs := bufs\<rparr>"
        using n None by (auto simp: new_insert_def retrieve_pooled [OF t] ins Let_def)
      then show ?thesis using inv_insert_pending [OF i None, of st'] c False by simp
    qed
  qed
qed

text \<open>A reference is given up; the last one takes the buffer out of the table.\<close>

lemma inv_free:
  assumes i: "pool_inv st P (add_mset b H)"
  obtains st' where "CRYPTO_BUFFER_free m (Some b) st = Some st'" "pool_inv st' P H"
proof -
  have t: "table_ok st" using i by (simp add: pool_inv_def)
  have b: "pooled st (cb_bytes b) = Some b" "cb_pool b" "counts (add_mset b H) b (p_refs st (cb_addr b))"
    using i by (auto simp: pool_inv_def)
  have addr: "b' = b" if "pooled st bs = Some b'" "cb_addr b' = cb_addr b" for bs b'
    using i b(1) that unfolding pool_inv_def by blast
  have pend: "cb_addr p \<noteq> cb_addr b" if "p \<in># P" for p using i b(1) that unfolding pool_inv_def by fastforce
  have other: "counts H b' (p_refs st (cb_addr b'))" if "pooled st bs = Some b'" "b' \<noteq> b" for bs b'
    using i that(1) counts_other [OF that(2)] unfolding pool_inv_def by blast
  obtain c z where d: "Option.bind (p_refs st (cb_addr b)) CRYPTO_refcount_dec_and_test_zero = Some (z, c)"
    "z \<Longrightarrow> count H b = 0" "\<not> z \<Longrightarrow> counts H b (Some c)" using counts_dec [OF b(3)] by blast
  show thesis
  proof (cases z)
    case False
    let ?st = "st\<lparr>p_refs := (p_refs st)(cb_addr b \<mapsto> c)\<rparr>"
    have "CRYPTO_BUFFER_free m (Some b) st = Some ?st" using d(1) False by (simp add: CRYPTO_BUFFER_free_def)
    moreover have "counts H b' (p_refs ?st (cb_addr b'))" if "pooled st bs = Some b'" for bs b'
      using d(3) [OF False] other [OF that] addr [OF that] by (cases "b' = b") auto
    then have "pool_inv ?st P H" using i pend unfolding pool_inv_def by auto
    ultimately show thesis by (rule that)
  next
    case True
    obtain found bufs where del: "lh_delete CRYPTO_BUFFER_hash CRYPTO_BUFFER_cmp m (p_bufs st) (Some b) = (found, bufs)"
      by (cases "lh_delete CRYPTO_BUFFER_hash CRYPTO_BUFFER_cmp m (p_bufs st) (Some b)")
    let ?st = "st\<lparr>p_bufs := bufs, p_refs := (p_refs st)(cb_addr b := None)\<rparr>"
    note l = delete_pooled [OF t del]
    have free: "CRYPTO_BUFFER_free m (Some b) st = Some ?st"
      using d(1) True b(1,2) l by (simp add: CRYPTO_BUFFER_free_def del)
    have p': "pooled ?st = (pooled st)(cb_bytes b := None)" and t': "table_ok ?st"
      using l by (simp_all add: table_ok_def pooled_def [abs_def])
    have H: "b \<notin># H" using d(2) [OF True] by (simp add: not_in_iff)
    have held: "pooled st (cb_bytes h) = Some h" if "h \<in># H" for h using i that unfolding pool_inv_def by simp
    have bytes: "cb_bytes h \<noteq> cb_bytes b" if "h \<in># H" for h
    proof
      assume e: "cb_bytes h = cb_bytes b"
      have "Some h = Some b" using held [OF that] unfolding e b(1) by (rule sym)
      then show False using that H by simp
    qed
    have ne: "b' \<noteq> b \<and> cb_addr b' \<noteq> cb_addr b \<and> pooled st bs = Some b'" if "pooled ?st bs = Some b'" for bs b'
    proof -
      have o: "bs \<noteq> cb_bytes b" "pooled st bs = Some b'" using that unfolding p' by (auto split: if_splits)
      then have "b' \<noteq> b" using lookup_bytes(2) [OF t o(2)] by blast
      then show ?thesis using addr [OF o(2)] o(2) by blast
    qed
    have "pool_inv ?st P H" unfolding pool_inv_def
    proof (intro conjI allI impI ballI)
      show "table_ok ?st" by (rule t')
      fix bs b'
      assume b': "pooled ?st bs = Some b'"
      show "cb_pool b'" using ne [OF b'] i unfolding pool_inv_def by blast
      show "counts H b' (p_refs ?st (cb_addr b'))" using ne [OF b'] other [of bs b'] by simp
    next
      fix h assume h: "h \<in># H"
      then show "pooled ?st (cb_bytes h) = Some h" unfolding p' using bytes [OF h] held [OF h] by simp
    next
      fix bs1 b1 bs2 b2
      assume "pooled ?st bs1 = Some b1" "pooled ?st bs2 = Some b2" and a: "cb_addr b1 = cb_addr b2"
      then have "pooled st bs1 = Some b1" "pooled st bs2 = Some b2" using ne [of bs1 b1] ne [of bs2 b2] by blast+
      then show "b1 = b2" using a i unfolding pool_inv_def by blast
    next
      fix p assume p: "p \<in># P"
      then show "cb_pool p" "count P p = 1" "p_refs ?st (cb_addr p) = Some 1"
        using i pend [OF p] by (simp_all add: pool_inv_def)
      show "cb_addr b' \<noteq> cb_addr p" if "pooled ?st bs = Some b'" for bs b'
        using ne [OF that] i p unfolding pool_inv_def by blast
      show "p' = p" if "p' \<in># P" "cb_addr p' = cb_addr p" for p'
        using i p that unfolding pool_inv_def by blast
    qed
    with free show thesis by (rule that)
  qed
qed

section \<open>Reachable states\<close>

lemma pool_step_inv:
  assumes s: "pool_step c c'" and i: "pool_inv (c_pool c) (c_pending c) (c_handles c)"
  shows "pool_inv (c_pool c') (c_pending c') (c_handles c')"
  using s
proof (cases rule: pool_step.cases)
  case (found data st b st' P H)
  then have t: "table_ok st" and i': "pool_inv st P H" using i by (simp_all add: pool_inv_def)
  have "pooled st data = Some b" "st' = add_reference b st"
    using found(3) retrieve_pooled [OF t, of "tmp_buffer data"] by (auto simp: new_lookup_def split: option.splits)
  then show ?thesis using inv_add_reference [OF i'] found by simp
next
  case (made st a m data len b st' P H)
  have "\<exists>bs. b = \<lparr>cb_addr = a, cb_pool = True, cb_bytes = bs\<rparr> \<and> st' = st\<lparr>p_refs := (p_refs st)(a \<mapsto> 1)\<rparr>"
    using made(4) by (auto simp: new_buffer_def Let_def split: if_splits)
  then show ?thesis using inv_add_pending [OF _ made(3)] i made(1,2) by auto
next
  case (inserted ma b st r st' P H)
  then show ?thesis using inv_new_insert [of st b P H ma "Some r" st'] i by simp
next
  case (no_memory ma b st st' P H)
  then show ?thesis using inv_new_insert [of st b P H ma None st'] i by simp
next
  case (shared b H st P)
  then have "pooled st (cb_bytes b) = Some b" using i by (simp add: pool_inv_def)
  then show ?thesis using inv_add_reference [of st P H "cb_bytes b" b] i shared by (simp add: CRYPTO_BUFFER_up_ref_def)
next
  case (freed m b st st' P H)
  then have "pool_inv st P (add_mset b H)" using i by simp
  from inv_free [OF this, of m] show ?thesis using freed by auto
qed

lemma pool_reachable_inv: "pool_reachable c \<Longrightarrow> pool_inv (c_pool c) (c_pending c) (c_handles c)"
proof (induction rule: pool_reachable.induct)
  case (new m st)
  then obtain bufs where b: "lh_new m () () = Some bufs" "st = \<lparr>p_bufs = bufs, p_refs = (\<lambda>_. None)\<rparr>"
    by (auto simp: CRYPTO_BUFFER_POOL_new_def split: option.splits)
  from lh_new_ok [OF buffer_contract b(1)] show ?case by (simp add: b(2) pool_inv_def table_ok_def pooled_def)
next
  case (step c c')
  then show ?case using pool_step_inv by blast
qed

text \<open>
  In every reachable state: equal bytes are the same buffer; a buffer in someone's hands is alive
  with a right count; giving it up does not abort; and the buffers of the table nobody holds are those whose count
  is stuck at the maximum.
\<close>

lemma pool_safe:
  assumes "pool_reachable \<lparr>c_pool = st, c_pending = P, c_handles = H\<rparr>"
  shows "\<forall>a\<in>#H. \<forall>b\<in>#H. cb_bytes a = cb_bytes b \<longrightarrow> a = b"
    and "\<forall>b\<in>#H. counts H b (p_refs st (cb_addr b))"
    and "\<forall>b\<in>#H. CRYPTO_BUFFER_free m (Some b) st \<noteq> None"
    and "\<forall>bs b. pooled st bs = Some b \<longrightarrow> b \<in># H \<or> p_refs st (cb_addr b) = Some CRYPTO_REFCOUNT_MAX"
proof -
  have i: "pool_inv st P H" using pool_reachable_inv [OF assms] by simp
  show "\<forall>a\<in>#H. \<forall>b\<in>#H. cb_bytes a = cb_bytes b \<longrightarrow> a = b" using i unfolding pool_inv_def by (metis option.inject)
  show "\<forall>b\<in>#H. counts H b (p_refs st (cb_addr b))" using i unfolding pool_inv_def by blast
  show "\<forall>b\<in>#H. CRYPTO_BUFFER_free m (Some b) st \<noteq> None"
  proof
    fix b assume "b \<in># H"
    then have "pool_inv st P (add_mset b (H - {#b#}))" using i by simp
    from inv_free [OF this, of m] show "CRYPTO_BUFFER_free m (Some b) st \<noteq> None" by auto
  qed
  show "\<forall>bs b. pooled st bs = Some b \<longrightarrow> b \<in># H \<or> p_refs st (cb_addr b) = Some CRYPTO_REFCOUNT_MAX"
  proof (intro allI impI)
    fix bs b assume "pooled st bs = Some b"
    then have "counts H b (p_refs st (cb_addr b))" using i by (auto simp: pool_inv_def)
    then show "b \<in># H \<or> p_refs st (cb_addr b) = Some CRYPTO_REFCOUNT_MAX"
      unfolding counts_def by (metis count_eq_zero_iff unat_eq_0)
  qed
qed


text \<open>
  A call of \<open>CRYPTO_BUFFER_new\<close> that is not interrupted is a sequence of steps. It gives a buffer with the
  bytes asked for, the one a client already holds if there is one.
\<close>

lemma pool_reachable_new:
  assumes r: "pool_reachable \<lparr>c_pool = st, c_pending = P, c_handles = H\<rparr>" and a: "p_refs st a = None"
    and n: "CRYPTO_BUFFER_new ma (Some a) m data len True st = (r, st')"
  shows "pool_reachable \<lparr>c_pool = st', c_pending = P, c_handles = (case r of None \<Rightarrow> H | Some b \<Rightarrow> add_mset b H)\<rparr>"
proof -
  obtain l st1 where l: "new_lookup (take len data) st = (l, st1)" by (metis prod.exhaust)
  show ?thesis
  proof (cases l)
    case (Some d)
    then have "r = Some d" "st' = st1" using n by (auto simp: CRYPTO_BUFFER_new_def l)
    then show ?thesis using pool_reachable.step [OF r pool_step.found [of _ st d st1]] l Some by simp
  next
    case None
    then have st1: "st1 = st" using l by (auto simp: new_lookup_def split: option.splits)
    obtain p st2 where p: "new_buffer (Some a) m True data len st = (p, st2)" by (metis prod.exhaust)
    show ?thesis
    proof (cases p)
      case None
      then have "r = None" "st' = st"
        using n p \<open>l = None\<close> by (auto simp: CRYPTO_BUFFER_new_def l st1 new_buffer_def Let_def split: if_splits)
      then show ?thesis using r by simp
    next
      case (Some buf)
      then have i: "new_insert ma buf st2 = (r, st')" using n p \<open>l = None\<close> by (simp add: CRYPTO_BUFFER_new_def l st1)
      have "pool_reachable \<lparr>c_pool = st2, c_pending = add_mset buf P, c_handles = H\<rparr>"
        using pool_reachable.step [OF r pool_step.made [OF a p [unfolded Some]]] .
      from pool_reachable.step [OF this] show ?thesis using i pool_step.inserted pool_step.no_memory by (cases r) auto
    qed
  qed
qed

lemma new_insert_bytes:
  assumes i: "pool_inv st (add_mset b P) H" and n: "new_insert m b st = (Some d, st')"
  shows "cb_bytes d = cb_bytes b"
proof -
  have t: "table_ok st" using i by (simp add: pool_inv_def)
  show ?thesis using n lookup_bytes(2) [OF t, of "cb_bytes b"]
    by (auto simp: new_insert_def retrieve_pooled [OF t] Let_def split: option.splits prod.splits if_splits)
qed

lemma CRYPTO_BUFFER_new_result:
  assumes r: "pool_reachable \<lparr>c_pool = st, c_pending = P, c_handles = H\<rparr>" and a: "p_refs st a = None"
    and m: "malloc_ok m" "len + 8 < SIZE_MOD" "len \<le> length data"
    and n: "CRYPTO_BUFFER_new ma (Some a) m data len True st = (r, st')"
  shows "r = Some b \<Longrightarrow> cb_bytes b = take len data" and "h \<in># H \<Longrightarrow> cb_bytes h = take len data \<Longrightarrow> r = Some h"
proof -
  have i: "pool_inv st P H" using pool_reachable_inv [OF r] by simp
  then have t: "table_ok st" by (simp add: pool_inv_def)
  have l: "new_lookup (take len data) st = (case pooled st (take len data) of None \<Rightarrow> (None, st) | Some d \<Rightarrow> (Some d, add_reference d st))"
    using retrieve_pooled [OF t, of "tmp_buffer (take len data)"] by (simp add: new_lookup_def)
  show "r = Some h" if "h \<in># H" "cb_bytes h = take len data"
  proof -
    have "pooled st (take len data) = Some h" using i that unfolding pool_inv_def by fastforce
    then show ?thesis using n by (simp add: CRYPTO_BUFFER_new_def l)
  qed
  show "cb_bytes b = take len data" if b: "r = Some b"
  proof (cases "pooled st (take len data)")
    case (Some d)
    then show ?thesis using n b lookup_bytes(2) [OF t Some] by (simp add: CRYPTO_BUFFER_new_def l)
  next
    case None
    obtain buf st2 where p: "new_buffer (Some a) m True data len st = (Some buf, st2)"
      and ins: "new_insert ma buf st2 = (Some b, st')"
      using n b None by (auto simp: CRYPTO_BUFFER_new_def l split: prod.splits option.splits)
    have "cb_bytes buf = take len data"
      using p OPENSSL_memdup_block [OF m] by (auto simp: new_buffer_def Let_def split: option.splits if_splits)
    moreover have "pool_inv st2 (add_mset buf P) H"
      using pool_reachable_inv [OF pool_reachable.step [OF r pool_step.made [OF a p]]] by simp
    ultimately show ?thesis using new_insert_bytes [OF _ ins] by simp
  qed
qed

text \<open>The last reference takes the buffer out of the pool.\<close>

lemma CRYPTO_BUFFER_free_last:
  assumes "pool_reachable \<lparr>c_pool = st, c_pending = P, c_handles = add_mset b H\<rparr>" "b \<notin># H"
    and "p_refs st (cb_addr b) \<noteq> Some CRYPTO_REFCOUNT_MAX"
  shows "\<exists>st'. CRYPTO_BUFFER_free m (Some b) st = Some st' \<and> pooled st' = (pooled st)(cb_bytes b := None)"
proof -
  have i: "pool_inv st P (add_mset b H)" using pool_reachable_inv [OF assms(1)] by simp
  have t: "table_ok st" using i by (simp add: pool_inv_def)
  have b: "pooled st (cb_bytes b) = Some b" "cb_pool b" "counts (add_mset b H) b (p_refs st (cb_addr b))"
    using i by (auto simp: pool_inv_def)
  have "p_refs st (cb_addr b) = Some 1" using b(3) assms(2,3) by (auto simp: counts_def not_in_iff word_unat_eq_iff)
  then have z: "Option.bind (p_refs st (cb_addr b)) CRYPTO_refcount_dec_and_test_zero = Some (True, 0)"
    by (simp add: CRYPTO_refcount_dec_and_test_zero_def CRYPTO_REFCOUNT_MAX_def)
  obtain found bufs where del: "lh_delete CRYPTO_BUFFER_hash CRYPTO_BUFFER_cmp m (p_bufs st) (Some b) = (found, bufs)"
    by (cases "lh_delete CRYPTO_BUFFER_hash CRYPTO_BUFFER_cmp m (p_bufs st) (Some b)")
  from delete_pooled [OF t del] show ?thesis
    using b z by (simp add: CRYPTO_BUFFER_free_def del pooled_def [abs_def])
qed

end
