(* ===== verification/Err.thy ===== *)
theory Err
  imports Libc
begin

text \<open>
  \<^verbatim>\<open>crypto/err/err.c\<close>: the queue of errors of a thread, a ring buffer of the most recent ones.

  A C string is the list of its characters before the NUL, an option for a pointer that may be
  NULL. The thread-local slot holds the state or NULL; \<open>fresh\<close> says whether a state could be
  allocated and registered for a thread that had none. \<open>m\<close> says which sizes can be allocated.
\<close>

section \<open>Code\<close>

type_synonym size_alloc = "nat \<Rightarrow> bool"

record err_error_st =
  er_file :: "string option"
  er_data :: "string option"
  er_packed :: u32
  er_line :: u16
  er_mark :: bool

record err_state_st =
  es_errors :: "err_error_st list"
  es_top :: nat
  es_bottom :: nat
  es_to_free :: "string option"

definition ERR_NUM_ERRORS :: nat where
  "ERR_NUM_ERRORS = 16"

definition ERR_FLAG_STRING :: int where
  "ERR_FLAG_STRING = 1"

definition ERR_LIB_SYS :: int where
  "ERR_LIB_SYS = 2"

definition ERR_PACK :: "int \<Rightarrow> int \<Rightarrow> u32" where
  "ERR_PACK lib reason = (push_bit 24 (word_of_int lib AND 0xff)) OR (word_of_int reason AND 0xfff)"

definition ERR_GET_LIB :: "u32 \<Rightarrow> int" where
  "ERR_GET_LIB packed_error = uint (drop_bit 24 packed_error AND 0xff)"

definition ERR_GET_REASON :: "u32 \<Rightarrow> int" where
  "ERR_GET_REASON packed_error = uint (packed_error AND 0xfff)"

text \<open>An error and a state after \<open>memset(0)\<close>.\<close>

definition err_zero :: err_error_st where
  "err_zero = \<lparr>er_file = None, er_data = None, er_packed = 0, er_line = 0, er_mark = False\<rparr>"

definition state_zero :: err_state_st where
  "state_zero = \<lparr>es_errors = replicate ERR_NUM_ERRORS err_zero, es_top = 0, es_bottom = 0, es_to_free = None\<rparr>"

definition err_clear :: "err_error_st \<Rightarrow> err_error_st" where
  "err_clear error = err_zero"

definition err_copy :: "size_alloc \<Rightarrow> err_error_st \<Rightarrow> err_error_st \<Rightarrow> err_error_st" where
  "err_copy m dst src =
     (let dst = err_clear dst;
          dst = dst\<lparr>er_file := er_file src\<rparr>;
          dst = (case er_data src of
                   None \<Rightarrow> dst
                 | Some s \<Rightarrow> dst\<lparr>er_data := (if m (length s + 1) then Some s else None)\<rparr>);
          dst = dst\<lparr>er_packed := er_packed src\<rparr>
      in dst\<lparr>er_line := er_line src\<rparr>)"

definition err_get_state :: "bool \<Rightarrow> err_state_st option \<Rightarrow> err_state_st option" where
  "err_get_state fresh tls =
     (case tls of Some state \<Rightarrow> Some state | None \<Rightarrow> if fresh then Some state_zero else None)"

text \<open>
  The result, \<open>(*file, *line)\<close> when \<open>want_file\<close> (both pointers are given), \<open>(*data, *flags)\<close>
  when \<open>want_data\<close>, and the state.
\<close>

definition get_error_values ::
    "bool \<Rightarrow> bool \<Rightarrow> bool \<Rightarrow> bool \<Rightarrow> bool \<Rightarrow> err_state_st option \<Rightarrow>
     (u32 \<times> (string \<times> nat) option \<times> (string \<times> int) option) \<times> err_state_st option" where
  "get_error_values fresh inc last_one want_file want_data tls =
     (case err_get_state fresh tls of
        None \<Rightarrow> ((0, None, None), None)
      | Some state \<Rightarrow>
          if es_bottom state = es_top state then ((0, None, None), Some state)
          else
            let i = (if last_one then es_top state else (es_bottom state + 1) mod ERR_NUM_ERRORS);
                error = es_errors state ! i;
                file = (if want_file then
                          Some (case er_file error of None \<Rightarrow> (''NA'', 0) | Some f \<Rightarrow> (f, unat (er_line error)))
                        else None);
                data = (if want_data then
                          Some (case er_data error of None \<Rightarrow> ('''', 0) | Some d \<Rightarrow> (d, ERR_FLAG_STRING))
                        else None);
                state1 = (if want_data \<and> inc \<and> er_data error \<noteq> None then
                            state\<lparr>es_to_free := er_data error,
                                  es_errors := (es_errors state)[i := error\<lparr>er_data := None\<rparr>]\<rparr>
                          else state);
                state2 = (if inc then
                            state1\<lparr>es_errors := (es_errors state1)[i := err_clear (es_errors state1 ! i)],
                                   es_bottom := i\<rparr>
                          else state1)
            in ((er_packed error, file, data), Some state2))"

definition ERR_get_error :: "bool \<Rightarrow> err_state_st option \<Rightarrow> u32 \<times> err_state_st option" where
  "ERR_get_error fresh tls =
     (case get_error_values fresh True False False False tls of ((r, _), tls') \<Rightarrow> (r, tls'))"

definition ERR_get_error_line :: "bool \<Rightarrow> err_state_st option \<Rightarrow> (u32 \<times> (string \<times> nat) option) \<times> err_state_st option" where
  "ERR_get_error_line fresh tls =
     (case get_error_values fresh True False True False tls of ((r, f, _), tls') \<Rightarrow> ((r, f), tls'))"

definition ERR_get_error_line_data ::
    "bool \<Rightarrow> err_state_st option \<Rightarrow> (u32 \<times> (string \<times> nat) option \<times> (string \<times> int) option) \<times> err_state_st option" where
  "ERR_get_error_line_data fresh tls = get_error_values fresh True False True True tls"

definition ERR_peek_error :: "bool \<Rightarrow> err_state_st option \<Rightarrow> u32 \<times> err_state_st option" where
  "ERR_peek_error fresh tls =
     (case get_error_values fresh False False False False tls of ((r, _), tls') \<Rightarrow> (r, tls'))"

definition ERR_peek_error_line :: "bool \<Rightarrow> err_state_st option \<Rightarrow> (u32 \<times> (string \<times> nat) option) \<times> err_state_st option" where
  "ERR_peek_error_line fresh tls =
     (case get_error_values fresh False False True False tls of ((r, f, _), tls') \<Rightarrow> ((r, f), tls'))"

definition ERR_peek_error_line_data ::
    "bool \<Rightarrow> err_state_st option \<Rightarrow> (u32 \<times> (string \<times> nat) option \<times> (string \<times> int) option) \<times> err_state_st option" where
  "ERR_peek_error_line_data fresh tls = get_error_values fresh False False True True tls"

definition ERR_peek_last_error :: "bool \<Rightarrow> err_state_st option \<Rightarrow> u32 \<times> err_state_st option" where
  "ERR_peek_last_error fresh tls =
     (case get_error_values fresh False True False False tls of ((r, _), tls') \<Rightarrow> (r, tls'))"

definition ERR_peek_last_error_line :: "bool \<Rightarrow> err_state_st option \<Rightarrow> (u32 \<times> (string \<times> nat) option) \<times> err_state_st option" where
  "ERR_peek_last_error_line fresh tls =
     (case get_error_values fresh False True True False tls of ((r, f, _), tls') \<Rightarrow> ((r, f), tls'))"

definition ERR_peek_last_error_line_data ::
    "bool \<Rightarrow> err_state_st option \<Rightarrow> (u32 \<times> (string \<times> nat) option \<times> (string \<times> int) option) \<times> err_state_st option" where
  "ERR_peek_last_error_line_data fresh tls = get_error_values fresh False True True True tls"

definition ERR_clear_error :: "bool \<Rightarrow> err_state_st option \<Rightarrow> err_state_st option" where
  "ERR_clear_error fresh tls =
     (case err_get_state fresh tls of
        None \<Rightarrow> None
      | Some state \<Rightarrow>
          Some (state\<lparr>es_errors := map err_clear (es_errors state), es_to_free := None, es_top := 0, es_bottom := 0\<rparr>))"

text \<open>\<open>tid\<close> must be NULL: the queue of another thread cannot be deleted.\<close>

definition ERR_remove_thread_state :: "bool \<Rightarrow> nat ptr \<Rightarrow> err_state_st option \<Rightarrow> err_state_st option" where
  "ERR_remove_thread_state fresh tid tls = (if tid \<noteq> None then tls else ERR_clear_error fresh tls)"

definition ERR_remove_state :: "bool \<Rightarrow> nat \<Rightarrow> err_state_st option \<Rightarrow> err_state_st option" where
  "ERR_remove_state fresh pid tls = ERR_clear_error fresh tls"

definition ERR_clear_system_error :: "int \<Rightarrow> int" where
  "ERR_clear_system_error errno = 0"

definition ERR_get_next_error_library :: "int \<Rightarrow> int \<times> int" where
  "ERR_get_next_error_library global_next_library = (global_next_library, global_next_library + 1)"

definition err_set_error_data :: "bool \<Rightarrow> string option \<Rightarrow> err_state_st option \<Rightarrow> err_state_st option" where
  "err_set_error_data fresh data tls =
     (case err_get_state fresh tls of
        None \<Rightarrow> None
      | Some state \<Rightarrow>
          if es_top state = es_bottom state then Some state
          else Some (state\<lparr>es_errors :=
                 (es_errors state)[es_top state := (es_errors state ! es_top state)\<lparr>er_data := data\<rparr>]\<rparr>))"

definition ERR_put_error ::
    "bool \<Rightarrow> int \<Rightarrow> int \<Rightarrow> int \<Rightarrow> string option \<Rightarrow> nat \<Rightarrow> err_state_st option \<Rightarrow> err_state_st option" where
  "ERR_put_error fresh errno library reason file line tls =
     (case err_get_state fresh tls of
        None \<Rightarrow> None
      | Some state \<Rightarrow>
          let reason = (if library = ERR_LIB_SYS \<and> reason = 0 then errno else reason);
              state = state\<lparr>es_top := (es_top state + 1) mod ERR_NUM_ERRORS\<rparr>;
              state = (if es_top state = es_bottom state then
                         state\<lparr>es_bottom := (es_bottom state + 1) mod ERR_NUM_ERRORS\<rparr>
                       else state);
              error = err_clear (es_errors state ! es_top state);
              error = error\<lparr>er_file := file, er_line := word_of_nat line, er_packed := ERR_PACK library reason\<rparr>
          in Some (state\<lparr>es_errors := (es_errors state)[es_top state := error]\<rparr>))"

text \<open>
  The loop of \<open>err_add_error_vdata\<close>: what is in the buffer and its size; \<open>None\<close> when the
  buffer could not grow.
\<close>

fun add_data_loop :: "size_alloc \<Rightarrow> string \<Rightarrow> nat \<Rightarrow> string option list \<Rightarrow> (string \<times> nat) option" where
  "add_data_loop m buf alloced [] = Some (buf, alloced)"
| "add_data_loop m buf alloced (None # args) = add_data_loop m buf alloced args"
| "add_data_loop m buf alloced (Some substr # args) =
     (let new_len = (length buf + length substr) mod SIZE_MOD in
      if new_len > alloced then
        (if (alloced + 20 + 1) mod SIZE_MOD < alloced then None
         else
           let alloced = (new_len + 20) mod SIZE_MOD in
           if m ((alloced + 1) mod SIZE_MOD) then add_data_loop m (buf @ substr) alloced args else None)
      else add_data_loop m (buf @ substr) alloced args)"

definition err_add_error_vdata ::
    "bool \<Rightarrow> size_alloc \<Rightarrow> string option list \<Rightarrow> err_state_st option \<Rightarrow> err_state_st option" where
  "err_add_error_vdata fresh m args tls =
     (if \<not> m 81 then tls
      else case add_data_loop m '''' 80 args of
             None \<Rightarrow> tls
           | Some (buf, _) \<Rightarrow> err_set_error_data fresh (Some buf) tls)"

definition ERR_add_error_data ::
    "bool \<Rightarrow> size_alloc \<Rightarrow> string option list \<Rightarrow> err_state_st option \<Rightarrow> err_state_st option" where
  "ERR_add_error_data fresh m args tls = err_add_error_vdata fresh m args tls"

text \<open>\<open>formatted\<close> is what the format and its arguments denote; \<open>BIO_vsnprintf\<close> stores what fits 256 bytes.\<close>

definition ERR_add_error_dataf ::
    "bool \<Rightarrow> size_alloc \<Rightarrow> string \<Rightarrow> err_state_st option \<Rightarrow> err_state_st option" where
  "ERR_add_error_dataf fresh m formatted tls =
     (if \<not> m (256 + 1) then tls else err_set_error_data fresh (Some (take (256 - 1) formatted)) tls)"

definition ERR_set_mark :: "bool \<Rightarrow> err_state_st option \<Rightarrow> int \<times> err_state_st option" where
  "ERR_set_mark fresh tls =
     (case err_get_state fresh tls of
        None \<Rightarrow> (0, None)
      | Some state \<Rightarrow>
          if es_bottom state = es_top state then (0, Some state)
          else (1, Some (state\<lparr>es_errors :=
                 (es_errors state)[es_top state := (es_errors state ! es_top state)\<lparr>er_mark := True\<rparr>]\<rparr>)))"

partial_function (option) pop_loop :: "err_state_st \<Rightarrow> (int \<times> err_state_st) option" where
  [code]: "pop_loop state =
     (if es_bottom state = es_top state then Some (0, state)
      else
        let error = es_errors state ! es_top state in
        if er_mark error then
          Some (1, state\<lparr>es_errors := (es_errors state)[es_top state := error\<lparr>er_mark := False\<rparr>]\<rparr>)
        else
          pop_loop (state\<lparr>es_errors := (es_errors state)[es_top state := err_clear error],
                          es_top := (if es_top state = 0 then ERR_NUM_ERRORS - 1 else es_top state - 1)\<rparr>))"

definition ERR_pop_to_mark :: "bool \<Rightarrow> err_state_st option \<Rightarrow> (int \<times> err_state_st option) option" where
  "ERR_pop_to_mark fresh tls =
     (case err_get_state fresh tls of
        None \<Rightarrow> Some (0, None)
      | Some state \<Rightarrow> map_option (\<lambda>(r, state'). (r, Some state')) (pop_loop state))"

text \<open>\<open>ERR_SAVE_STATE\<close>: the array of \<open>num_errors\<close> errors.\<close>

type_synonym err_save_state = "err_error_st list"

definition sizeof_err_error :: nat where
  "sizeof_err_error = 24"

definition sizeof_ERR_SAVE_STATE :: nat where
  "sizeof_ERR_SAVE_STATE = 16"

definition ERR_save_state ::
    "bool \<Rightarrow> size_alloc \<Rightarrow> err_state_st option \<Rightarrow> err_save_state option \<times> err_state_st option" where
  "ERR_save_state fresh m tls =
     (case err_get_state fresh tls of
        None \<Rightarrow> (None, None)
      | Some state \<Rightarrow>
          if es_top state = es_bottom state \<or> \<not> m sizeof_ERR_SAVE_STATE then (None, Some state)
          else
            let num_errors = (if es_top state \<ge> es_bottom state then es_top state - es_bottom state
                              else ERR_NUM_ERRORS + es_top state - es_bottom state)
            in if \<not> m (num_errors * sizeof_err_error) then (None, Some state)
               else (Some (map (\<lambda>i. err_copy m err_zero
                        (es_errors state ! ((es_bottom state + i + 1) mod ERR_NUM_ERRORS))) [0..<num_errors]),
                     Some state))"

definition ERR_restore_state ::
    "bool \<Rightarrow> size_alloc \<Rightarrow> err_save_state option \<Rightarrow> err_state_st option \<Rightarrow> err_state_st option" where
  "ERR_restore_state fresh m saved tls =
     (case saved of
        None \<Rightarrow> ERR_clear_error fresh tls
      | Some errs \<Rightarrow>
          if length errs = 0 then ERR_clear_error fresh tls
          else
            (case err_get_state fresh tls of
               None \<Rightarrow> None
             | Some dst \<Rightarrow>
                 Some (dst\<lparr>es_errors :=
                         foldl (\<lambda>es i. es[i := err_copy m (es ! i) (errs ! i)]) (es_errors dst) [0..<length errs],
                       es_top := length errs - 1,
                       es_bottom := ERR_NUM_ERRORS - 1\<rparr>)))"

end
