(* ===== verification/Err_Queue.thy ===== *)
theory Err_Queue
  imports Err Simulation
begin

text \<open>
  The ring buffer of \<open>Err\<close> as a queue of at most \<open>ERR_NUM_ERRORS - 1\<close> errors, oldest first.
\<close>

section \<open>Windows of the ring\<close>

text \<open>The \<open>n\<close> errors after position \<open>b\<close>.\<close>

definition window :: "nat \<Rightarrow> nat \<Rightarrow> 'a list \<Rightarrow> 'a list" where
  "window b n es = map (\<lambda>i. es ! ((b + 1 + i) mod 16)) [0..<n]"

lemma length_window [simp]: "length (window b n es) = n"
  by (simp add: window_def)

lemma window_0 [simp]: "window b 0 es = []"
  by (simp add: window_def)

lemma window_snoc: "window b (Suc n) es = window b n es @ [es ! ((b + 1 + n) mod 16)]"
  by (simp add: window_def)

lemma window_Cons: "window b (Suc n) es = es ! ((b + 1) mod 16) # window ((b + 1) mod 16) n es"
proof -
  have "[0..<Suc n] = 0 # map Suc [0..<n]" by (simp add: upt_conv_Cons map_Suc_upt del: upt_Suc)
  moreover have "((b + 1) mod 16 + 1 + i) mod 16 = (b + 1 + Suc i) mod 16" for i
    using mod_add_left_eq [of "b + 1" 16 "1 + i"] by (simp add: ac_simps)
  ultimately show ?thesis by (simp add: window_def)
qed

lemma window_other:
  assumes "\<And>i. i < n \<Longrightarrow> (b + 1 + i) mod 16 \<noteq> j"
  shows "window b n (es[j := e]) = window b n es"
  unfolding window_def
proof (rule map_cong [OF refl])
  fix i assume "i \<in> set [0..<n]"
  then have "j \<noteq> (b + 1 + i) mod 16" using assms [of i] by auto
  then show "es[j := e] ! ((b + 1 + i) mod 16) = es ! ((b + 1 + i) mod 16)" by (rule nth_list_update_neq)
qed

text \<open>Positions less than 16 apart are different.\<close>

lemma ring_pos_inj:
  assumes "i < j" "j < i + 16"
  shows "(b + i) mod 16 \<noteq> ((b + j) mod 16 :: nat)"
proof
  assume "(b + i) mod 16 = (b + j) mod (16::nat)"
  then have "16 dvd (b + j) - (b + i)" using mod_eq_dvd_iff_nat [of "b + i" "b + j" 16] assms(1) by simp
  then have "16 dvd j - i" by simp
  then show False using assms by (auto dest: dvd_imp_le)
qed

lemma window_last_update: "n < 16 \<Longrightarrow> window b n (es[(b + 1 + n) mod 16 := e]) = window b n es"
  using ring_pos_inj [of _ n "b + 1"] by (intro window_other) auto

lemma window_before_update:
  assumes "n < 16"
  shows "window b n (es[b mod 16 := e]) = window b n es"
proof (rule window_other)
  fix i assume "i < n"
  then show "(b + 1 + i) mod 16 \<noteq> b mod 16" using ring_pos_inj [of 0 "1 + i" b] assms by simp
qed

section \<open>The queue\<close>

definition err_ok :: "err_state_st \<Rightarrow> bool" where
  "err_ok st \<longleftrightarrow> length (es_errors st) = 16 \<and> es_top st < 16 \<and> es_bottom st < 16"

definition queue_len :: "err_state_st \<Rightarrow> nat" where
  "queue_len st = (es_top st + 16 - es_bottom st) mod 16"

definition err_queue :: "err_state_st \<Rightarrow> err_error_st list" where
  "err_queue st = window (es_bottom st) (queue_len st) (es_errors st)"

text \<open>A state that holds \<open>n\<close> errors.\<close>

definition holds :: "err_state_st \<Rightarrow> nat \<Rightarrow> bool" where
  "holds st n \<longleftrightarrow> length (es_errors st) = 16 \<and> es_bottom st < 16 \<and> n < 16 \<and> es_top st = (es_bottom st + n) mod 16"

lemma mod16: "n < 32 \<Longrightarrow> n mod 16 = (if n < 16 then n else n - (16::nat))"
  by (simp add: mod_if)

lemma holds_queue: "holds st n \<Longrightarrow> err_ok st \<and> err_queue st = window (es_bottom st) n (es_errors st)"
  by (auto simp: holds_def err_ok_def err_queue_def queue_len_def mod16 intro!: arg_cong3 [where f = window])

lemma err_ok_holds:
  assumes "err_ok st"
  obtains n where "holds st n" "err_queue st = window (es_bottom st) n (es_errors st)" "length (err_queue st) = n"
proof -
  have "holds st (queue_len st)"
    using assms by (auto simp: holds_def err_ok_def queue_len_def mod16)
  from this holds_queue [OF this] that show thesis by simp
qed

lemma holds_empty: "holds st n \<Longrightarrow> es_bottom st = es_top st \<longleftrightarrow> n = 0"
  by (auto simp: holds_def mod16 split: if_splits)

lemma state_zero_ok: "err_ok state_zero \<and> err_queue state_zero = []"
  by (simp add: err_ok_def state_zero_def err_queue_def queue_len_def ERR_NUM_ERRORS_def)

text \<open>A thread that has no state has no errors.\<close>

definition err_inv :: "err_state_st option \<Rightarrow> bool" where
  "err_inv tls \<longleftrightarrow> (case tls of None \<Rightarrow> True | Some st \<Rightarrow> err_ok st)"

definition err_abs :: "err_state_st option \<Rightarrow> err_error_st list" where
  "err_abs tls = (case tls of None \<Rightarrow> [] | Some st \<Rightarrow> err_queue st)"

lemma err_get_state_cases:
  assumes "err_inv tls"
  obtains "err_get_state fresh tls = None" "tls = None"
  | st where "err_get_state fresh tls = Some st" "err_ok st" "err_queue st = err_abs tls"
  using assms state_zero_ok by (cases tls; cases fresh) (auto simp: err_get_state_def err_inv_def err_abs_def)

section \<open>Operations on the queue\<close>

definition unmark :: "err_error_st \<Rightarrow> err_error_st" where
  "unmark e = e\<lparr>er_mark := False\<rparr>"

definition new_error :: "int \<Rightarrow> int \<Rightarrow> int \<Rightarrow> string option \<Rightarrow> nat \<Rightarrow> err_error_st" where
  "new_error errno library reason file line =
     \<lparr>er_file = file, er_data = None,
      er_packed = ERR_PACK library (if library = ERR_LIB_SYS \<and> reason = 0 then errno else reason),
      er_line = word_of_nat line, er_mark = False\<rparr>"

definition put_queue :: "err_error_st \<Rightarrow> err_error_st list \<Rightarrow> err_error_st list" where
  "put_queue e q = (if length q < 15 then q @ [e] else tl q @ [e])"

definition on_last :: "('a \<Rightarrow> 'a) \<Rightarrow> 'a list \<Rightarrow> 'a list" where
  "on_last f q = (if q = [] then [] else butlast q @ [f (last q)])"

definition pop_queue :: "err_error_st list \<Rightarrow> int \<times> err_error_st list" where
  "pop_queue q =
     (let q' = rev (dropWhile (\<lambda>e. \<not> er_mark e) (rev q)) in
      if q' = [] then (0, []) else (1, on_last unmark q'))"

lemma put_state:
  assumes h: "holds st n"
    and t: "t = (es_top st + 1) mod 16" and b: "b = (if t = es_bottom st then (es_bottom st + 1) mod 16 else es_bottom st)"
    and st': "es_top st' = t" "es_bottom st' = b" "es_errors st' = (es_errors st)[t := e]"
  shows "err_ok st' \<and> err_queue st' = put_queue e (err_queue st)"
proof -
  have h': "length (es_errors st) = 16" "es_bottom st < 16" "n < 16" "es_top st = (es_bottom st + n) mod 16"
    using h by (simp_all add: holds_def)
  have t': "t = (es_bottom st + 1 + n) mod 16" by (simp add: t h'(4) mod_simps)
  then have tl: "t < 16" by simp
  have q: "err_queue st = window (es_bottom st) n (es_errors st)" using holds_queue [OF h] by simp
  show ?thesis
  proof (cases "n < 15")
    case True
    then have "t \<noteq> es_bottom st" using ring_pos_inj [of 0 "1 + n" "es_bottom st"] h'(2) by (simp add: t' ac_simps)
    then have f: "b = es_bottom st" by (simp add: b)
    have "holds st' (Suc n)" using h' True by (simp add: holds_def st' f t')
    then have "err_ok st'" "err_queue st' = window (es_bottom st) (Suc n) ((es_errors st)[t := e])"
      using holds_queue st' f by simp_all
    moreover have "window (es_bottom st) (Suc n) ((es_errors st)[t := e]) = err_queue st @ [e]"
      using window_last_update [OF h'(3), of "es_bottom st" "es_errors st" e] h'(1)
      by (simp add: window_snoc q t' del: add_Suc_right)
    ultimately show ?thesis using True by (simp add: put_queue_def q)
  next
    case False
    then have n: "n = 15" using h'(3) by simp
    then have tb: "t = es_bottom st" using h'(2) by (simp add: t')
    then have f: "b = (es_bottom st + 1) mod 16" by (simp add: b)
    have "holds st' 15" using h' n by (simp add: holds_def st' f tb mod_simps)
    then have w: "err_ok st'" "err_queue st' = window b 15 ((es_errors st)[t := e])"
      using holds_queue st' f by simp_all
    let ?es = "(es_errors st)[t := e]"
    have "?es ! ((es_bottom st + 1) mod 16) # window b 15 ?es = window (es_bottom st) (Suc 15) ?es"
      by (simp only: window_Cons f)
    also have "\<dots> = window (es_bottom st) 15 ?es @ [e]" using h' tl by (simp only: window_snoc) (simp add: tb)
    also have "window (es_bottom st) 15 ?es = err_queue st"
      using window_before_update [of 15 "es_bottom st" "es_errors st" e] h' by (simp add: q n tb)
    finally have "window b 15 ?es = tl (err_queue st @ [e])" by (metis list.sel(3))
    moreover have "err_queue st \<noteq> []" using n by (simp add: q window_def)
    ultimately have "window b 15 ?es = tl (err_queue st) @ [e]" by simp
    then show ?thesis using w n by (simp add: put_queue_def q)
  qed
qed

lemma drop_oldest:
  assumes h: "holds st (Suc n)" and i: "i = (es_bottom st + 1) mod 16"
    and st': "es_bottom st' = i" "es_top st' = es_top st" "es_errors st' = (es_errors st)[i := e]"
  shows "err_ok st' \<and> err_queue st' = tl (err_queue st) \<and> hd (err_queue st) = es_errors st ! i \<and> err_queue st \<noteq> []"
proof -
  have h': "length (es_errors st) = 16" "Suc n < 16" "es_top st = (es_bottom st + Suc n) mod 16"
    using h by (simp_all add: holds_def)
  have q: "err_queue st = es_errors st ! i # window i n (es_errors st)"
    using holds_queue [OF h] by (simp add: window_Cons i)
  have "holds st' n" using h' by (simp add: holds_def st' i mod_simps)
  then have "err_ok st'" "err_queue st' = window i n ((es_errors st)[i := e])" using holds_queue st' by simp_all
  moreover have "window i n ((es_errors st)[i := e]) = window i n (es_errors st)"
    using window_before_update [of n i "es_errors st" e] h' by (simp add: i)
  ultimately show ?thesis using q by simp
qed

lemma drop_newest:
  assumes h: "holds st (Suc n)"
    and st': "es_bottom st' = es_bottom st" "es_top st' = (if es_top st = 0 then 15 else es_top st - 1)"
      "es_errors st' = (es_errors st)[es_top st := e]"
  shows "holds st' n \<and> err_queue st' = butlast (err_queue st)"
proof -
  have h': "length (es_errors st) = 16" "Suc n < 16" "es_top st = (es_bottom st + 1 + n) mod 16" "es_bottom st < 16"
    using h by (simp_all add: holds_def)
  then have "es_top st' = (es_bottom st + n) mod 16" using st'(2) by (simp add: mod16 split: if_splits)
  then have n: "holds st' n" using h' by (simp add: holds_def st')
  moreover have "window (es_bottom st) n ((es_errors st)[es_top st := e]) = window (es_bottom st) n (es_errors st)"
    using window_last_update [of n "es_bottom st" "es_errors st" e] h' by simp
  ultimately show ?thesis using holds_queue [OF n] holds_queue [OF h] by (simp add: window_snoc st')
qed

lemma change_newest:
  assumes h: "holds st (Suc n)"
    and st': "es_bottom st' = es_bottom st" "es_top st' = es_top st"
      "es_errors st' = (es_errors st)[es_top st := f (es_errors st ! es_top st)]"
  shows "err_ok st' \<and> err_queue st' = on_last f (err_queue st)"
proof -
  have h': "length (es_errors st) = 16" "Suc n < 16" "es_top st = (es_bottom st + 1 + n) mod 16"
    using h by (simp_all add: holds_def)
  have n: "holds st' (Suc n)" using h by (simp add: holds_def st')
  have "window (es_bottom st) n (es_errors st') = window (es_bottom st) n (es_errors st)"
    using window_last_update [of n "es_bottom st" "es_errors st"] h' by (simp add: st')
  then show ?thesis
    using holds_queue [OF n] holds_queue [OF h] h' by (simp add: window_snoc st' on_last_def)
qed

lemma newest: "holds st (Suc n) \<Longrightarrow> last (err_queue st) = es_errors st ! es_top st \<and> err_queue st \<noteq> []"
  using holds_queue [of st "Suc n"] by (simp add: window_snoc holds_def)

section \<open>The functions\<close>

lemma err_inv_Some [simp]: "err_inv (Some st) = err_ok st" by (simp add: err_inv_def)
lemma err_inv_None [simp]: "err_inv None" by (simp add: err_inv_def)
lemma err_abs_Some [simp]: "err_abs (Some st) = err_queue st" by (simp add: err_abs_def)
lemma err_abs_None [simp]: "err_abs None = []" by (simp add: err_abs_def)

lemma es_bottom_top: "holds st n \<Longrightarrow> es_bottom st = es_top st \<longleftrightarrow> err_queue st = []"
  using holds_empty [of st n] holds_queue [of st n] by (auto simp: window_def)

lemma ERR_put_error_queue:
  assumes "err_inv tls"
  shows "err_inv (ERR_put_error fresh errno lib reason file line tls) \<and>
    err_abs (ERR_put_error fresh errno lib reason file line tls) =
      (if err_get_state fresh tls = None then err_abs tls else put_queue (new_error errno lib reason file line) (err_abs tls))"
  using assms
proof (cases rule: err_get_state_cases [where fresh = fresh])
  case (2 st)
  obtain n where n: "holds st n" using err_ok_holds [OF 2(2)] .
  obtain st' where st': "ERR_put_error fresh errno lib reason file line tls = Some st'"
      "es_top st' = (es_top st + 1) mod 16"
      "es_bottom st' = (if (es_top st + 1) mod 16 = es_bottom st then (es_bottom st + 1) mod 16 else es_bottom st)"
      "es_errors st' = (es_errors st)[(es_top st + 1) mod 16 := new_error errno lib reason file line]"
    by (simp add: ERR_put_error_def 2(1) Let_def ERR_NUM_ERRORS_def err_clear_def err_zero_def new_error_def)
  from put_state [OF n refl refl st'(2,3,4)] show ?thesis by (simp add: st'(1) 2)
qed (simp add: ERR_put_error_def)

definition shown_file :: "err_error_st \<Rightarrow> string \<times> nat" where
  "shown_file e = (case er_file e of None \<Rightarrow> (''NA'', 0) | Some f \<Rightarrow> (f, unat (er_line e)))"

definition shown_data :: "err_error_st \<Rightarrow> string \<times> int" where
  "shown_data e = (case er_data e of None \<Rightarrow> ('''', 0) | Some d \<Rightarrow> (d, ERR_FLAG_STRING))"

lemma get_error_values_state:
  assumes g: "err_get_state fresh tls = Some st" and ne: "es_bottom st \<noteq> es_top st"
    and i: "i = (if newest_one then es_top st else (es_bottom st + 1) mod 16)" and e: "e = es_errors st ! i"
  shows "get_error_values fresh inc newest_one vf vd tls =
    ((er_packed e, if vf then Some (shown_file e) else None, if vd then Some (shown_data e) else None),
     Some (if inc then st\<lparr>es_to_free := (if vd \<and> er_data e \<noteq> None then er_data e else es_to_free st),
                           es_errors := (es_errors st)[i := err_zero], es_bottom := i\<rparr>
           else st))"
proof -
  have "(if newest_one then es_top st else (es_bottom st + 1) mod ERR_NUM_ERRORS) = i" by (simp add: i ERR_NUM_ERRORS_def)
  then show ?thesis
    using ne by (cases inc; cases vd; cases "er_data e"; cases "er_file e")
      (simp_all add: get_error_values_def g Let_def e [symmetric] err_clear_def shown_file_def shown_data_def)
qed

lemma get_error_values_queue:
  assumes i: "err_inv tls" and l: "inc \<longrightarrow> \<not> newest_one"
    and g: "get_error_values fresh inc newest_one vf vd tls = (res, tls')"
  shows "err_inv tls' \<and> err_abs tls' = (if inc then tl (err_abs tls) else err_abs tls) \<and>
    res = (if err_abs tls = [] then (0, None, None)
           else let e = (if newest_one then last (err_abs tls) else hd (err_abs tls))
                in (er_packed e, if vf then Some (shown_file e) else None, if vd then Some (shown_data e) else None))"
  using i
proof (cases rule: err_get_state_cases [where fresh = fresh])
  case 1
  then show ?thesis using g by (auto simp: get_error_values_def)
next
  case (2 st)
  obtain n where n: "holds st n" using err_ok_holds [OF 2(2)] .
  show ?thesis
  proof (cases n)
    case 0
    then have "tls' = Some st \<and> res = (0, None, None)"
      using g holds_empty [OF n] by (simp add: get_error_values_def 2(1))
    then show ?thesis using 0 2(2,3) holds_queue [OF n] by simp
  next
    case (Suc k)
    then have ne: "es_bottom st \<noteq> es_top st" using holds_empty [OF n] by simp
    let ?i = "if newest_one then es_top st else (es_bottom st + 1) mod 16"
    let ?e = "es_errors st ! ?i"
    let ?st' = "st\<lparr>es_to_free := (if vd \<and> er_data ?e \<noteq> None then er_data ?e else es_to_free st),
        es_errors := (es_errors st)[?i := err_zero], es_bottom := ?i\<rparr>"
    have g': "(res, tls') = ((er_packed ?e, if vf then Some (shown_file ?e) else None,
        if vd then Some (shown_data ?e) else None), Some (if inc then ?st' else st))"
      by (rule trans [OF g [symmetric] get_error_values_state [OF 2(1) ne refl refl]])
    have r: "res = (er_packed ?e, if vf then Some (shown_file ?e) else None, if vd then Some (shown_data ?e) else None)"
      using arg_cong [OF g', of fst] by (simp only: fst_conv)
    have tls': "tls' = Some (if inc then ?st' else st)" using arg_cong [OF g', of snd] by (simp only: snd_conv)
    have s: "holds st (Suc k)" using n Suc by simp
    show ?thesis
    proof (cases inc)
      case True
      from drop_oldest [OF s refl, of ?st' err_zero] True l
      have "err_ok ?st' \<and> err_queue ?st' = tl (err_queue st) \<and> hd (err_queue st) = ?e \<and> err_queue st \<noteq> []" by simp
      then show ?thesis using True l 2(3) r tls' by (simp add: Let_def)
    next
      case False
      have "err_queue st \<noteq> [] \<and> ?e = (if newest_one then last (err_queue st) else hd (err_queue st))"
        using newest [OF s] drop_oldest [OF s refl, of "st\<lparr>es_bottom := (es_bottom st + 1) mod 16,
          es_errors := (es_errors st)[(es_bottom st + 1) mod 16 := err_zero]\<rparr>" err_zero] by simp
      then show ?thesis using False 2 r tls' by (simp add: Let_def)
    qed
  qed
qed

lemma newest_changed:
  assumes i: "err_ok st" and st': "es_bottom st' = es_bottom st" "es_top st' = es_top st"
      "es_errors st' = (if es_top st = es_bottom st then es_errors st
                        else (es_errors st)[es_top st := f (es_errors st ! es_top st)])"
  shows "err_ok st' \<and> err_queue st' = on_last f (err_queue st)"
proof -
  obtain n where n: "holds st n" using err_ok_holds [OF i] .
  show ?thesis
  proof (cases n)
    case 0
    then have e: "es_top st = es_bottom st" using holds_empty [OF n] by simp
    then have "holds st' 0" using n 0 st' by (simp add: holds_def)
    then show ?thesis using holds_queue [OF n] holds_queue [of st' 0] 0 by (simp add: on_last_def)
  next
    case (Suc k)
    then have ne: "es_top st \<noteq> es_bottom st" using holds_empty [OF n] by simp
    have "holds st (Suc k)" using n Suc by simp
    from change_newest [OF this st'(1,2), of f] st'(3) ne show ?thesis by simp
  qed
qed

lemma err_set_error_data_queue:
  assumes "err_inv tls"
  shows "err_inv (err_set_error_data fresh d tls) \<and>
    err_abs (err_set_error_data fresh d tls) = on_last (\<lambda>e. e\<lparr>er_data := d\<rparr>) (err_abs tls)"
  using assms
proof (cases rule: err_get_state_cases [where fresh = fresh])
  case (2 st)
  define st' where "st' = (if es_top st = es_bottom st then st
    else st\<lparr>es_errors := (es_errors st)[es_top st := (es_errors st ! es_top st)\<lparr>er_data := d\<rparr>]\<rparr>)"
  have "err_set_error_data fresh d tls = Some st'" by (simp add: err_set_error_data_def 2 st'_def)
  then show ?thesis using newest_changed [OF 2(2), of st' "\<lambda>e. e\<lparr>er_data := d\<rparr>"] 2(3) by (simp add: st'_def)
qed (simp add: err_set_error_data_def on_last_def)

lemma ERR_set_mark_queue:
  assumes "err_inv tls"
  shows "fst (ERR_set_mark fresh tls) = (if err_abs tls = [] then 0 else 1) \<and> err_inv (snd (ERR_set_mark fresh tls)) \<and>
    err_abs (snd (ERR_set_mark fresh tls)) = on_last (\<lambda>e. e\<lparr>er_mark := True\<rparr>) (err_abs tls)"
  using assms
proof (cases rule: err_get_state_cases [where fresh = fresh])
  case (2 st)
  define st' where "st' = (if es_top st = es_bottom st then st
    else st\<lparr>es_errors := (es_errors st)[es_top st := (es_errors st ! es_top st)\<lparr>er_mark := True\<rparr>]\<rparr>)"
  obtain n where n: "holds st n" using err_ok_holds [OF 2(2)] .
  have "ERR_set_mark fresh tls = (if err_queue st = [] then 0 else 1, Some st')"
    using es_bottom_top [OF n] by (auto simp: ERR_set_mark_def 2 st'_def)
  then show ?thesis using newest_changed [OF 2(2), of st' "\<lambda>e. e\<lparr>er_mark := True\<rparr>"] 2(3) by (simp add: st'_def)
qed (simp add: ERR_set_mark_def on_last_def)

lemma ERR_clear_error_queue:
  assumes "err_inv tls"
  shows "err_inv (ERR_clear_error fresh tls) \<and> err_abs (ERR_clear_error fresh tls) = []"
  using assms
proof (cases rule: err_get_state_cases [where fresh = fresh])
  case (2 st)
  then show ?thesis by (simp add: ERR_clear_error_def err_ok_def err_queue_def queue_len_def)
qed (simp add: ERR_clear_error_def)

lemma pop_loop_queue:
  "holds st n \<Longrightarrow> \<exists>r st'. pop_loop st = Some (r, st') \<and> err_ok st' \<and> pop_queue (err_queue st) = (r, err_queue st')"
proof (induction n arbitrary: st)
  case 0
  then have "err_queue st = []" "es_bottom st = es_top st" using holds_queue [OF 0] holds_empty [OF 0] by simp_all
  then show ?case using holds_queue [OF 0] by (subst pop_loop.simps) (simp add: pop_queue_def)
next
  case (Suc n)
  have ne: "es_bottom st \<noteq> es_top st" using holds_empty [OF Suc.prems] by simp
  let ?e = "es_errors st ! es_top st"
  have l: "last (err_queue st) = ?e" "err_queue st \<noteq> []" using newest [OF Suc.prems] by simp_all
  then have q: "err_queue st = butlast (err_queue st) @ [?e]" by (metis append_butlast_last_id)
  show ?case
  proof (cases "er_mark ?e")
    case True
    define st' where "st' = st\<lparr>es_errors := (es_errors st)[es_top st := unmark ?e]\<rparr>"
    have "err_ok st' \<and> err_queue st' = on_last unmark (err_queue st)"
      by (rule change_newest [OF Suc.prems]) (simp_all add: st'_def)
    moreover have "pop_queue (err_queue st) = (1, on_last unmark (err_queue st))"
      using True l(2) by (subst (1 2) q) (simp add: pop_queue_def)
    moreover have "pop_loop st = Some (1, st')"
      using ne True by (subst pop_loop.simps) (simp add: Let_def st'_def unmark_def)
    ultimately show ?thesis by simp
  next
    case False
    define st' where "st' = st\<lparr>es_errors := (es_errors st)[es_top st := err_clear ?e],
        es_top := (if es_top st = 0 then ERR_NUM_ERRORS - 1 else es_top st - 1)\<rparr>"
    have "holds st' n \<and> err_queue st' = butlast (err_queue st)"
      by (rule drop_newest [OF Suc.prems]) (simp_all add: st'_def ERR_NUM_ERRORS_def)
    moreover have "pop_queue (err_queue st) = pop_queue (butlast (err_queue st))"
      using False by (subst q) (simp add: pop_queue_def)
    moreover have "pop_loop st = pop_loop st'"
      using ne False by (subst pop_loop.simps) (simp add: Let_def st'_def)
    ultimately show ?thesis using Suc.IH [of st'] by simp
  qed
qed

lemma ERR_pop_to_mark_queue:
  assumes "err_inv tls"
  shows "\<exists>r tls'. ERR_pop_to_mark fresh tls = Some (r, tls') \<and> err_inv tls' \<and> pop_queue (err_abs tls) = (r, err_abs tls')"
  using assms
proof (cases rule: err_get_state_cases [where fresh = fresh])
  case (2 st)
  obtain n where n: "holds st n" using err_ok_holds [OF 2(2)] .
  from pop_loop_queue [OF n] 2 show ?thesis by (auto simp: ERR_pop_to_mark_def)
qed (simp add: ERR_pop_to_mark_def pop_queue_def)

end
