(* ===== verification/Err_Steps.thy ===== *)
theory Err_Steps
  imports Err_Queue
begin

text \<open>
  Clients of the error queue: sequences of operations against the bounded queue, saving and
  restoring, and the data attached to an error.
\<close>

section \<open>Sequences of operations\<close>

datatype err_op = Put int int int "string option" nat | Get | Peek | Peek_last | Clear
  | Set_data "string option" | Set_mark | Pop_to_mark

datatype err_res = Values u32 "(string \<times> nat) option" "(string \<times> int) option" | Flag int | Nothing

definition err_step :: "bool \<times> err_op \<Rightarrow> err_state_st option \<Rightarrow> (bool \<times> err_res) \<times> err_state_st option" where
  "err_step a tls =
     (let fresh = fst a; live = err_get_state fresh tls \<noteq> None in
      case snd a of
        Put errno lib reason file line \<Rightarrow> ((live, Nothing), ERR_put_error fresh errno lib reason file line tls)
      | Get \<Rightarrow> (case ERR_get_error_line_data fresh tls of ((r, f, d), tls') \<Rightarrow> ((live, Values r f d), tls'))
      | Peek \<Rightarrow> (case ERR_peek_error_line_data fresh tls of ((r, f, d), tls') \<Rightarrow> ((live, Values r f d), tls'))
      | Peek_last \<Rightarrow> (case ERR_peek_last_error_line_data fresh tls of ((r, f, d), tls') \<Rightarrow> ((live, Values r f d), tls'))
      | Clear \<Rightarrow> ((live, Nothing), ERR_clear_error fresh tls)
      | Set_data d \<Rightarrow> ((live, Nothing), err_set_error_data fresh d tls)
      | Set_mark \<Rightarrow> (case ERR_set_mark fresh tls of (r, tls') \<Rightarrow> ((live, Flag r), tls'))
      | Pop_to_mark \<Rightarrow>
          (case ERR_pop_to_mark fresh tls of
             None \<Rightarrow> ((live, Nothing), tls)
           | Some (r, tls') \<Rightarrow> ((live, Flag r), tls')))"

text \<open>
  The queue: at most 15 errors, the oldest dropped when it is full; \<open>live\<close> is false when the
  thread has no state and none could be allocated.
\<close>

definition show_err :: "err_error_st list \<Rightarrow> (err_error_st list \<Rightarrow> err_error_st) \<Rightarrow> err_res" where
  "show_err q pick =
     (if q = [] then Values 0 None None
      else Values (er_packed (pick q)) (Some (shown_file (pick q))) (Some (shown_data (pick q))))"

definition queue_step :: "bool \<times> err_op \<Rightarrow> bool \<Rightarrow> err_error_st list \<Rightarrow> err_res \<times> err_error_st list" where
  "queue_step a live q =
     (case snd a of
        Put errno lib reason file line \<Rightarrow>
          (Nothing, if live then put_queue (new_error errno lib reason file line) q else q)
      | Get \<Rightarrow> (show_err q hd, tl q)
      | Peek \<Rightarrow> (show_err q hd, q)
      | Peek_last \<Rightarrow> (show_err q last, q)
      | Clear \<Rightarrow> (Nothing, [])
      | Set_data d \<Rightarrow> (Nothing, on_last (\<lambda>e. e\<lparr>er_data := d\<rparr>) q)
      | Set_mark \<Rightarrow> (Flag (if q = [] then 0 else 1), on_last (\<lambda>e. e\<lparr>er_mark := True\<rparr>) q)
      | Pop_to_mark \<Rightarrow> (case pop_queue q of (r, q') \<Rightarrow> (Flag r, q')))"

interpretation error_queue: simulation err_inv err_abs err_step queue_step
proof
  fix tls a f r tls'
  assume i: "err_inv tls" and e: "err_step a tls = ((f, r), tls')"
  obtain fresh b where a: "a = (fresh, b)" by (cases a)
  show "err_inv tls' \<and> queue_step a f (err_abs tls) = (r, err_abs tls')"
  proof (cases b)
    case (Put errno lib reason fl ln)
    then show ?thesis using e ERR_put_error_queue [OF i, of fresh errno lib reason fl ln]
      by (auto simp: a err_step_def queue_step_def)
  next
    case Get
    then show ?thesis using e get_error_values_queue [OF i, of True False fresh True True]
      by (auto simp: a err_step_def ERR_get_error_line_data_def queue_step_def show_err_def Let_def split: prod.splits if_splits)
  next
    case Peek
    then show ?thesis using e get_error_values_queue [OF i, of False False fresh True True]
      by (auto simp: a err_step_def ERR_peek_error_line_data_def queue_step_def show_err_def Let_def split: prod.splits if_splits)
  next
    case Peek_last
    then show ?thesis using e get_error_values_queue [OF i, of False True fresh True True]
      by (auto simp: a err_step_def ERR_peek_last_error_line_data_def queue_step_def show_err_def Let_def split: prod.splits if_splits)
  next
    case Clear
    then show ?thesis using e ERR_clear_error_queue [OF i, of fresh] by (auto simp: a err_step_def queue_step_def)
  next
    case (Set_data d)
    then show ?thesis using e err_set_error_data_queue [OF i, of fresh d] by (auto simp: a err_step_def queue_step_def)
  next
    case Set_mark
    then show ?thesis using e ERR_set_mark_queue [OF i, of fresh]
      by (cases "ERR_set_mark fresh tls") (auto simp: a err_step_def queue_step_def)
  next
    case Pop_to_mark
    then show ?thesis using e ERR_pop_to_mark_queue [OF i, of fresh] by (auto simp: a err_step_def queue_step_def)
  qed
qed

lemma put_queue_bounded: "length q \<le> 15 \<Longrightarrow> length (put_queue e q) \<le> 15"
  by (auto simp: put_queue_def)

section \<open>Saving and restoring\<close>

lemma err_copy_all: "(\<And>s. er_data src = Some s \<Longrightarrow> m (length s + 1)) \<Longrightarrow> err_copy m dst src = unmark src"
  by (cases src) (auto simp: err_copy_def Let_def err_clear_def err_zero_def unmark_def split: option.splits)

lemma err_copy_dst: "err_copy m dst src = err_copy m err_zero src"
  by (simp add: err_copy_def err_clear_def)

lemma foldl_store:
  "n \<le> length es \<Longrightarrow> (\<And>i x y. f i x = f i y) \<Longrightarrow>
     foldl (\<lambda>es i. es[i := f i (es ! i)]) es [0..<n] = map (\<lambda>i. f i undefined) [0..<n] @ drop n es"
proof (induction n)
  case (Suc n)
  let ?L = "map (\<lambda>i. f i undefined) [0..<n] @ drop n es"
  have "foldl (\<lambda>es i. es[i := f i (es ! i)]) es [0..<Suc n] = ?L[n := f n (?L ! n)]"
    using Suc by simp
  also have "\<dots> = ?L[n := f n undefined]" using Suc.prems(2) by metis
  also have "\<dots> = map (\<lambda>i. f i undefined) [0..<Suc n] @ drop (Suc n) es"
    using Suc.prems(1) by (simp add: list_update_append Cons_nth_drop_Suc [symmetric])
  finally show ?case .
qed simp

lemma ERR_save_state_queue:
  assumes i: "err_inv tls" and s: "ERR_save_state fresh m tls = (saved, tls')"
  shows "err_inv tls' \<and> err_abs tls' = err_abs tls \<and>
    (case saved of
       None \<Rightarrow> err_abs tls = [] \<or> \<not> m sizeof_ERR_SAVE_STATE \<or> \<not> m (length (err_abs tls) * sizeof_err_error)
     | Some errs \<Rightarrow> err_abs tls \<noteq> [] \<and> errs = map (err_copy m err_zero) (err_abs tls))"
  using i
proof (cases rule: err_get_state_cases [where fresh = fresh])
  case 1
  then show ?thesis using s by (auto simp: ERR_save_state_def)
next
  case (2 st)
  obtain n where n: "holds st n" using err_ok_holds [OF 2(2)] .
  have q: "err_queue st = window (es_bottom st) n (es_errors st)" using holds_queue [OF n] by simp
  have e: "es_top st = es_bottom st \<longleftrightarrow> n = 0" using holds_empty [OF n] by auto
  have "(if es_top st \<ge> es_bottom st then es_top st - es_bottom st else ERR_NUM_ERRORS + es_top st - es_bottom st) = n"
    using n by (auto simp: holds_def mod16 ERR_NUM_ERRORS_def)
  moreover have "map (\<lambda>i. err_copy m err_zero (es_errors st ! ((es_bottom st + i + 1) mod ERR_NUM_ERRORS))) [0..<n] =
      map (err_copy m err_zero) (err_queue st)"
    by (simp add: q window_def ERR_NUM_ERRORS_def ac_simps)
  ultimately have "ERR_save_state fresh m tls =
      (if n = 0 \<or> \<not> m sizeof_ERR_SAVE_STATE \<or> \<not> m (n * sizeof_err_error) then None
       else Some (map (err_copy m err_zero) (err_queue st)), Some st)"
    by (simp add: ERR_save_state_def 2(1) e Let_def)
  moreover have "n = 0 \<longleftrightarrow> err_queue st = []" "length (err_queue st) = n" by (auto simp: q window_def)
  ultimately show ?thesis using s 2(2,3) by (auto split: if_splits)
qed

lemma ERR_restore_state_queue:
  assumes i: "err_inv tls" and l: "errs \<noteq> []" "length errs \<le> 15" and g: "err_get_state fresh tls \<noteq> None"
  shows "err_inv (ERR_restore_state fresh m (Some errs) tls) \<and>
    err_abs (ERR_restore_state fresh m (Some errs) tls) = map (err_copy m err_zero) errs"
  using i
proof (cases rule: err_get_state_cases [where fresh = fresh])
  case 1
  then show ?thesis using g by simp
next
  case (2 dst)
  let ?n = "length errs"
  have len: "length (es_errors dst) = 16" using 2(2) by (simp add: err_ok_def)
  define st where "st = dst\<lparr>es_errors := map (\<lambda>i. err_copy m undefined (errs ! i)) [0..<?n] @ drop ?n (es_errors dst),
      es_top := ?n - 1, es_bottom := ERR_NUM_ERRORS - 1\<rparr>"
  have "foldl (\<lambda>es i. es[i := err_copy m (es ! i) (errs ! i)]) (es_errors dst) [0..<?n] =
      map (\<lambda>i. err_copy m undefined (errs ! i)) [0..<?n] @ drop ?n (es_errors dst)"
    by (rule foldl_store) (use l len in simp, metis err_copy_dst)
  then have r: "ERR_restore_state fresh m (Some errs) tls = Some st"
    using l by (simp add: ERR_restore_state_def 2(1) st_def)
  have "(15 + ?n) mod 16 = ?n - 1" using l by (cases errs) (simp_all add: mod16)
  then have h: "holds st ?n" using l len by (simp add: holds_def st_def ERR_NUM_ERRORS_def)
  have "err_queue st = window 15 ?n (es_errors st)" using holds_queue [OF h] by (simp add: st_def ERR_NUM_ERRORS_def)
  also have "\<dots> = map (err_copy m err_zero) errs"
  proof (rule nth_equalityI)
    fix i assume "i < length (window 15 ?n (es_errors st))"
    then have i: "i < ?n" by simp
    then have "(15 + 1 + i) mod 16 = i" using l(2) by simp
    then show "window 15 ?n (es_errors st) ! i = map (err_copy m err_zero) errs ! i"
      using i err_copy_dst [of m undefined] by (simp add: window_def st_def nth_append)
  qed simp
  finally show ?thesis using r holds_queue [OF h] by simp
qed

text \<open>What is saved and restored is the queue without its marks, if every copy of a string succeeds.\<close>

lemma save_restore:
  assumes i: "err_inv tls" "err_inv dst" and m: "\<forall>n. m n" and g: "err_get_state fresh2 dst \<noteq> None"
    and s: "ERR_save_state fresh1 m tls = (saved, tls')"
  shows "err_abs (ERR_restore_state fresh2 m saved dst) = map unmark (err_abs tls)"
proof (cases saved)
  case None
  then have "err_abs tls = []" using ERR_save_state_queue [OF i(1) s] m by simp
  then show ?thesis using None ERR_clear_error_queue [OF i(2)] by (simp add: ERR_restore_state_def)
next
  case (Some errs)
  then have e: "err_abs tls \<noteq> []" "errs = map (err_copy m err_zero) (err_abs tls)"
    using ERR_save_state_queue [OF i(1) s] by simp_all
  have c: "err_copy m err_zero = unmark" using err_copy_all [of _ m err_zero] m by (intro ext) simp
  have "length (err_abs tls) \<le> 15"
    using i(1) holds_queue err_ok_holds by (cases tls) (fastforce simp: holds_def)+
  then have "err_abs (ERR_restore_state fresh2 m saved dst) = map unmark errs"
    using ERR_restore_state_queue [OF i(2) _ _ g, of errs m] Some e c by simp
  then show ?thesis by (simp add: e(2) c unmark_def)
qed

section \<open>Data\<close>

definition given :: "string option list \<Rightarrow> string list" where
  "given args = concat (map (\<lambda>a. case a of None \<Rightarrow> [] | Some s \<Rightarrow> [s]) args)"

lemma given_simps [simp]:
  "given [] = []" "given (None # args) = given args" "given (Some s # args) = s # given args"
  by (simp_all add: given_def)

text \<open>The loop joins the strings, and the buffer is always large enough.\<close>

lemma add_data_loop_all:
  "\<forall>n. m n \<Longrightarrow> length buf \<le> alloced \<Longrightarrow> alloced + 21 * (1 + length args) + length (concat (given args)) < SIZE_MOD \<Longrightarrow>
     \<exists>n. add_data_loop m buf alloced args = Some (buf @ concat (given args), n) \<and>
       length (buf @ concat (given args)) \<le> n"
proof (induction m buf alloced args rule: add_data_loop.induct)
  case (3 m buf alloced substr args)
  have w: "(length buf + length substr) mod SIZE_MOD = length buf + length substr"
    "(alloced + 20 + 1) mod SIZE_MOD = alloced + 21" using 3(4,5) by simp_all
  show ?case
  proof (cases "length buf + length substr > alloced")
    case True
    have w': "(length buf + length substr + 20) mod SIZE_MOD = length buf + length substr + 20" using 3(4,5) by simp
    have "\<exists>n. add_data_loop m (buf @ substr) (length buf + length substr + 20) args =
        Some ((buf @ substr) @ concat (given args), n) \<and> length ((buf @ substr) @ concat (given args)) \<le> n"
      by (rule 3(1) [OF w(1) [symmetric]]) (use True w w' 3(3-5) in simp_all)
    moreover have "m ((length buf + length substr + 20 + 1) mod SIZE_MOD)" using 3(3) by blast
    ultimately show ?thesis using True w w' by (simp add: Let_def)
  next
    case False
    have "\<exists>n. add_data_loop m (buf @ substr) alloced args =
        Some ((buf @ substr) @ concat (given args), n) \<and> length ((buf @ substr) @ concat (given args)) \<le> n"
      by (rule 3(2) [OF w(1) [symmetric]]) (use False w 3(3-5) in simp_all)
    then show ?thesis using False w by (simp add: Let_def)
  qed
qed simp_all

end
