(* ===== verification/Err_String.thy ===== *)
theory Err_String
  imports Err_Steps
begin

text \<open>
  The texts of \<^verbatim>\<open>crypto/err/err.c\<close>: the names of libraries and reasons, the one-line
  form of an error, and printing the queue. The table of reasons is generated by the build and
  \<open>strerror\<close> belongs to the C library: both are parameters. \<open>snprintf\<close> keeps as many characters as fit.
\<close>

section \<open>Code\<close>

text \<open>\<open>%u\<close> and \<open>%08x\<close>\<close>

fun show_u :: "nat \<Rightarrow> string" where
  "show_u n = (if n < 10 then [char_of (48 + n)] else show_u (n div 10) @ [char_of (48 + n mod 10)])"

declare show_u.simps [simp del]

definition hex_digit :: "nat \<Rightarrow> char" where
  "hex_digit d = char_of (if d < 10 then 48 + d else 87 + d)"

definition show_08x :: "u32 \<Rightarrow> string" where
  "show_08x w = map (\<lambda>i. hex_digit (unat w div 16 ^ (7 - i) mod 16)) [0..<8]"

definition snprintf :: "nat \<Rightarrow> string \<Rightarrow> string" where
  "snprintf n text' = take (n - 1) text'"

definition ERR_NUM_LIBS :: nat where
  "ERR_NUM_LIBS = 33"

definition kLibraryNames :: "string list" where
  "kLibraryNames =
     [''invalid library (0)'', ''unknown library'', ''system library'', ''bignum routines'',
      ''RSA routines'', ''Diffie-Hellman routines'', ''public key routines'', ''memory buffer routines'',
      ''object identifier routines'', ''PEM routines'', ''DSA routines'', ''X.509 certificate routines'',
      ''ASN.1 encoding routines'', ''configuration file routines'', ''common libcrypto routines'',
      ''elliptic curve routines'', ''SSL routines'', ''BIO routines'', ''PKCS7 routines'', ''PKCS8 routines'',
      ''X509 V3 routines'', ''random number generator'', ''ENGINE routines'', ''OCSP routines'', ''UI routines'',
      ''COMP routines'', ''ECDSA routines'', ''ECDH routines'', ''HMAC routines'', ''Digest functions'',
      ''Cipher functions'', ''HKDF functions'', ''User defined functions'']"

definition ERR_lib_error_string :: "u32 \<Rightarrow> string option" where
  "ERR_lib_error_string packed_error =
     (let lib = nat (ERR_GET_LIB packed_error)
      in if lib \<ge> ERR_NUM_LIBS then None else Some (kLibraryNames ! lib))"

definition ERR_func_error_string :: "u32 \<Rightarrow> string" where
  "ERR_func_error_string packed_error = ''OPENSSL_internal''"

definition err_string_cmp :: "u32 \<Rightarrow> u32 \<Rightarrow> int" where
  "err_string_cmp a b =
     (let a_key = drop_bit 15 a; b_key = drop_bit 15 b
      in if a_key < b_key then -1 else if a_key > b_key then 1 else 0)"

text \<open>
  \<open>bsearch\<close> is the search for the first equal element. The table \<open>values\<close> is generated, sorted by its keys and without two equal ones, and then the element
  is the one any bisection finds.
\<close>

definition err_string_lookup :: "u32 \<Rightarrow> u32 \<Rightarrow> u32 list \<Rightarrow> string \<Rightarrow> string option" where
  "err_string_lookup lib key values string_data =
     (if lib \<ge> 64 \<or> key \<ge> 2048 then None
      else
        let search_key = push_bit 26 lib OR push_bit 15 key in
        case find (\<lambda>v. err_string_cmp search_key v = 0) values of
          None \<Rightarrow> None
        | Some v \<Rightarrow> Some (takeWhile (\<lambda>c. c \<noteq> CHR 0x00) (drop (unat (v AND 0x7fff)) string_data)))"

definition ERR_reason_error_string :: "(nat \<Rightarrow> string) \<Rightarrow> u32 list \<Rightarrow> string \<Rightarrow> u32 \<Rightarrow> string option" where
  "ERR_reason_error_string strerror values string_data packed_error =
     (let lib = ERR_GET_LIB packed_error; reason = nat (ERR_GET_REASON packed_error) in
      if lib = ERR_LIB_SYS then (if reason < 127 then Some (strerror reason) else None)
      else if reason < ERR_NUM_LIBS then Some (kLibraryNames ! reason)
      else if reason < 100 then
        (if reason = 65 then Some ''malloc failure''
         else if reason = 66 then Some ''function should not have been called''
         else if reason = 67 then Some ''passed a null parameter''
         else if reason = 68 then Some ''internal error''
         else if reason = 69 then Some ''overflow''
         else None)
      else err_string_lookup (word_of_int lib) (word_of_nat reason) values string_data)"

text \<open>\<open>strchr\<close> from position \<open>s\<close> on, as a position.\<close>

definition strchr :: "string \<Rightarrow> nat \<Rightarrow> char \<Rightarrow> nat option" where
  "strchr buf s c =
     (let k = s + length (takeWhile (\<lambda>x. x \<noteq> c) (drop s buf)) in if k < length buf then Some k else None)"

text \<open>The loop over the colons of a truncated text; \<open>num_colons\<close> is 4.\<close>

fun fix_colons :: "nat \<Rightarrow> nat list \<Rightarrow> nat \<Rightarrow> string \<Rightarrow> string" where
  "fix_colons len [] s buf = buf"
| "fix_colons len (i # is) s buf =
     (let last_pos = len - 1 - 4 + i;
          filled = take last_pos buf @ replicate (4 - i) CHR '':'' @ drop (last_pos + (4 - i)) buf
      in case strchr buf s CHR '':'' of
           None \<Rightarrow> filled
         | Some colon \<Rightarrow> if colon > last_pos then filled else fix_colons len is (colon + 1) buf)"

definition ERR_error_string_n ::
    "(nat \<Rightarrow> string) \<Rightarrow> u32 list \<Rightarrow> string \<Rightarrow> u32 \<Rightarrow> nat \<Rightarrow> string option" where
  "ERR_error_string_n strerror values string_data packed_error len =
     (if len = 0 then None
      else
        let lib = nat (ERR_GET_LIB packed_error);
            reason = nat (ERR_GET_REASON packed_error);
            lib_str = (case ERR_lib_error_string packed_error of
                         Some s \<Rightarrow> s | None \<Rightarrow> snprintf 64 (''lib('' @ show_u lib @ '')''));
            reason_str = (case ERR_reason_error_string strerror values string_data packed_error of
                            Some s \<Rightarrow> s | None \<Rightarrow> snprintf 64 (''reason('' @ show_u reason @ '')''));
            buf = snprintf len (''error:'' @ show_08x packed_error @ '':'' @ lib_str @ '':OPENSSL_internal:'' @ reason_str)
        in Some (if length buf = len - 1 \<and> \<not> len \<le> 4 then fix_colons len [0..<4] 0 buf else buf))"

definition ERR_ERROR_STRING_BUF_LEN :: nat where
  "ERR_ERROR_STRING_BUF_LEN = 120"

definition ERR_error_string :: "(nat \<Rightarrow> string) \<Rightarrow> u32 list \<Rightarrow> string \<Rightarrow> u32 \<Rightarrow> string option" where
  "ERR_error_string strerror values string_data packed_error =
     ERR_error_string_n strerror values string_data packed_error ERR_ERROR_STRING_BUF_LEN"

definition error_line ::
    "(nat \<Rightarrow> string) \<Rightarrow> u32 list \<Rightarrow> string \<Rightarrow> nat \<Rightarrow> u32 \<Rightarrow> string \<times> nat \<Rightarrow> string \<times> int \<Rightarrow> string" where
  "error_line strerror values string_data thread_hash packed_error fl df =
     (let buf = the (ERR_error_string_n strerror values string_data packed_error ERR_ERROR_STRING_BUF_LEN)
      in snprintf 1024 (show_u thread_hash @ '':'' @ buf @ '':'' @ fst fl @ '':'' @ show_u (snd fl) @ '':'' @
           (if (snd df) AND ERR_FLAG_STRING \<noteq> 0 then fst df else '''') @ [CHR 0x0A]))"

text \<open>
  The loop of \<open>ERR_print_errors_cb\<close>; \<open>ln\<close> is \<open>error_line\<close> with its parameters. The callback is given a text, its context
  and the state of the thread, which it may change by calls of its own.
\<close>

partial_function (option) print_loop ::
    "(u32 \<Rightarrow> string \<times> nat \<Rightarrow> string \<times> int \<Rightarrow> string) \<Rightarrow>
     (string \<Rightarrow> 's \<times> err_state_st option \<Rightarrow> int \<times> 's \<times> err_state_st option) \<Rightarrow> bool \<Rightarrow>
     's \<Rightarrow> err_state_st option \<Rightarrow> ('s \<times> err_state_st option) option" where
  [code]: "print_loop ln callback fresh s tls =
     (case ERR_get_error_line_data fresh tls of
        ((packed_error, f, d), tls') \<Rightarrow>
          if packed_error = 0 then Some (s, tls')
          else (case callback (ln packed_error (the f) (the d)) (s, tls') of
                  (r, s', tls') \<Rightarrow> if r \<le> 0 then Some (s', tls') else print_loop ln callback fresh s' tls'))"

definition ERR_print_errors_cb ::
    "(nat \<Rightarrow> string) \<Rightarrow> u32 list \<Rightarrow> string \<Rightarrow> nat \<Rightarrow> (string \<Rightarrow> 's \<times> err_state_st option \<Rightarrow> int \<times> 's \<times> err_state_st option) \<Rightarrow> bool \<Rightarrow>
     's \<Rightarrow> err_state_st option \<Rightarrow> ('s \<times> err_state_st option) option" where
  "ERR_print_errors_cb strerror values string_data thread_hash callback fresh s tls =
     print_loop (error_line strerror values string_data thread_hash) callback fresh s (err_get_state fresh tls)"

section \<open>Five fields\<close>

lemma strchr_Some:
  assumes "strchr buf s c = Some k"
  shows "s \<le> k" "k < length buf" "buf ! k = c"
proof -
  let ?w = "takeWhile (\<lambda>x. x \<noteq> c) (drop s buf)"
  from assms have k: "k = s + length ?w" "k < length buf" by (auto simp: strchr_def Let_def split: if_splits)
  then have "length ?w < length (drop s buf)" by simp
  from nth_length_takeWhile [OF this] k show "s \<le> k" "k < length buf" "buf ! k = c" by simp_all
qed

lemma count_take_mono: "m \<le> n \<Longrightarrow> count_list (take m xs) c \<le> count_list (take n xs) c"
  by (metis count_list_append le_add1 le_add_diff_inverse take_add)

lemma fix_colons_count:
  "length buf = len - 1 \<Longrightarrow> 4 < len \<Longrightarrow> i \<le> 4 \<Longrightarrow> s \<le> len - 5 + i \<Longrightarrow> i \<le> count_list (take s buf) CHR '':'' \<Longrightarrow>
     4 \<le> count_list (fix_colons len [i..<4] s buf) CHR '':'' \<and> length (fix_colons len [i..<4] s buf) = len - 1"
proof (induction "4 - i" arbitrary: i s)
  case 0
  then have "4 \<le> count_list (take s buf) CHR '':''" by simp
  also have "\<dots> \<le> count_list (take (max s (length buf)) buf) CHR '':''" by (rule count_take_mono) simp
  finally show ?case using 0 by simp
next
  case (Suc k)
  let ?lp = "len - 1 - 4 + i"
  let ?filled = "take ?lp buf @ replicate (4 - i) CHR '':'' @ drop (?lp + (4 - i)) buf"
  have u: "[i..<4] = i # [Suc i..<4]" using Suc(2) by (simp add: upt_conv_Cons)
  have "i \<le> count_list (take ?lp buf) CHR '':''"
    using Suc.prems(5) count_take_mono [of s ?lp buf "CHR '':''"] Suc.prems(4) by simp
  moreover have "count_list (replicate n c) c = n" for n and c :: char by (induction n) simp_all
  ultimately have filled: "4 \<le> count_list ?filled CHR '':'' \<and> length ?filled = len - 1"
    using Suc.prems(1-3) by simp
  show ?case
  proof (cases "strchr buf s CHR '':''")
    case None
    then show ?thesis using filled by (simp add: u Let_def)
  next
    case (Some c)
    note c = strchr_Some [OF Some]
    show ?thesis
    proof (cases "c > ?lp")
      case True
      then show ?thesis using filled Some by (simp add: u Let_def)
    next
      case False
      have "take (Suc c) buf = take c buf @ [CHR '':'']" using c(2,3) by (simp add: take_Suc_conv_app_nth)
      then have "Suc i \<le> count_list (take (Suc c) buf) CHR '':''"
        using Suc.prems(5) count_take_mono [OF c(1), of buf "CHR '':''"] by simp
      then have "4 \<le> count_list (fix_colons len [Suc i..<4] (Suc c) buf) CHR '':'' \<and>
          length (fix_colons len [Suc i..<4] (Suc c) buf) = len - 1"
        using Suc.prems False Suc(2) by (intro Suc(1)) simp_all
      then show ?thesis using Some False by (simp add: u Let_def)
    qed
  qed
qed

lemma ERR_error_string_n_fields:
  assumes "4 < len"
  shows "\<exists>buf. ERR_error_string_n strerror values string_data packed len = Some buf \<and>
    length buf < len \<and> 4 \<le> count_list buf CHR '':''"
proof -
  obtain l r where e: "ERR_error_string_n strerror values string_data packed len =
      (let full = ''error:'' @ show_08x packed @ '':'' @ l @ '':OPENSSL_internal:'' @ r; buf = snprintf len full
       in Some (if length buf = len - 1 then fix_colons len [0..<4] 0 buf else buf))"
    using assms by (simp add: ERR_error_string_n_def Let_def)
  let ?full = "''error:'' @ show_08x packed @ '':'' @ l @ '':OPENSSL_internal:'' @ r"
  have four: "4 \<le> count_list ?full CHR '':''" by (simp add: count_list_append)
  show ?thesis
  proof (cases "length (snprintf len ?full) = len - 1")
    case True
    then show ?thesis using fix_colons_count [OF True assms, of 0 0] assms by (simp add: e Let_def)
  next
    case False
    then have "snprintf len ?full = ?full" by (auto simp: snprintf_def)
    then show ?thesis using False four by (auto simp: e Let_def snprintf_def)
  qed
qed

section \<open>Printing the queue\<close>

lemma ERR_get_error_line_data_queue:
  assumes "err_inv tls" "ERR_get_error_line_data fresh tls = ((p, f, d), tls')"
  shows "err_inv tls' \<and> err_abs tls' = tl (err_abs tls) \<and>
    (p, f, d) = (if err_abs tls = [] then (0, None, None)
                 else (er_packed (hd (err_abs tls)), Some (shown_file (hd (err_abs tls))), Some (shown_data (hd (err_abs tls)))))"
  using get_error_values_queue [OF assms(1), of True False fresh True True] assms(2)
  by (simp add: ERR_get_error_line_data_def Let_def)

text \<open>The loop ends with every callback that does not add errors.\<close>

lemma print_loop_ends:
  assumes cb: "\<And>t s q r s' q'. err_inv q \<Longrightarrow> callback t (s, q) = (r, s', q') \<Longrightarrow> err_inv q' \<and> length (err_abs q') \<le> length (err_abs q)"
  shows "err_inv tls \<Longrightarrow> \<exists>s' tls'. print_loop ln callback fresh s tls = Some (s', tls') \<and> err_inv tls'"
proof (induction "length (err_abs tls)" arbitrary: tls s rule: less_induct)
  case less
  obtain p f d tls1 where g: "ERR_get_error_line_data fresh tls = ((p, f, d), tls1)" by (metis prod.exhaust)
  note q = ERR_get_error_line_data_queue [OF less.prems g]
  show ?case
  proof (cases "p = 0")
    case True
    then show ?thesis using conjunct1 [OF q] by (subst print_loop.simps) (simp add: g)
  next
    case False
    then have "err_abs tls \<noteq> []" using q by auto
    then have shorter: "length (err_abs tls1) < length (err_abs tls)" using q by (cases "err_abs tls") auto
    obtain r s1 tls2 where c: "callback (ln p (the f) (the d)) (s, tls1) = (r, s1, tls2)" by (metis prod.exhaust)
    have "err_inv tls2" "length (err_abs tls2) < length (err_abs tls)" using cb [OF _ c] q shorter by auto
    from less.hyps [OF this(2,1), of s1] this(1) show ?thesis by (subst print_loop.simps) (simp add: g c False)
  qed
qed

text \<open>
  What is handed over to a callback that only has its own context, and the errors that are left: the loop stops behind the first
  error with code 0, and behind the error for which the callback asks to stop.
\<close>

definition own_context :: "(string \<Rightarrow> 's \<Rightarrow> int \<times> 's) \<Rightarrow> string \<Rightarrow> 's \<times> err_state_st option \<Rightarrow> int \<times> 's \<times> err_state_st option" where
  "own_context f t = (\<lambda>(s, tls). case f t s of (r, s') \<Rightarrow> (r, s', tls))"

definition err_text :: "(u32 \<Rightarrow> string \<times> nat \<Rightarrow> string \<times> int \<Rightarrow> string) \<Rightarrow> err_error_st \<Rightarrow> string" where
  "err_text ln e = ln (er_packed e) (shown_file e) (shown_data e)"

fun hand_over :: "(err_error_st \<Rightarrow> string) \<Rightarrow> (string \<Rightarrow> 's \<Rightarrow> int \<times> 's) \<Rightarrow> 's \<Rightarrow> err_error_st list \<Rightarrow> 's \<times> err_error_st list" where
  "hand_over txt' f s [] = (s, [])"
| "hand_over txt' f s (e # q) =
     (if er_packed e = 0 then (s, q)
      else case f (txt' e) s of (r, s') \<Rightarrow> if r \<le> 0 then (s', q) else hand_over txt' f s' q)"

lemma print_loop_hands_over:
  "err_inv tls \<Longrightarrow> \<exists>s' tls'. print_loop ln (own_context f) fresh s tls = Some (s', tls') \<and> err_inv tls' \<and>
     (s', err_abs tls') = hand_over (err_text ln) f s (err_abs tls)"
proof (induction "err_abs tls" arbitrary: tls s)
  case Nil
  obtain p fl d tls1 where g: "ERR_get_error_line_data fresh tls = ((p, fl, d), tls1)" by (metis prod.exhaust)
  from ERR_get_error_line_data_queue [OF Nil(2) g] Nil(1) show ?case
    by (subst print_loop.simps) (auto simp: g Nil(1) [symmetric])
next
  case (Cons e q)
  obtain p fl d tls1 where g: "ERR_get_error_line_data fresh tls = ((p, fl, d), tls1)" by (metis prod.exhaust)
  have q: "err_inv tls1" "q = err_abs tls1" "p = er_packed e" "fl = Some (shown_file e)" "d = Some (shown_data e)"
    using ERR_get_error_line_data_queue [OF Cons(3) g] Cons(2) [symmetric] by auto
  obtain r s1 where c: "f (err_text ln e) s = (r, s1)" by fastforce
  show ?case
  proof (cases "er_packed e = 0 \<or> r \<le> 0")
    case True
    then show ?thesis using q c by (subst print_loop.simps) (auto simp: g Cons(2) [symmetric] own_context_def err_text_def)
  next
    case False
    then have "print_loop ln (own_context f) fresh s tls = print_loop ln (own_context f) fresh s1 tls1"
      using q c by (subst print_loop.simps) (simp add: g own_context_def err_text_def)
    then show ?thesis using Cons(1) [OF q(2,1), of s1] False c by (simp add: Cons(2) [symmetric] q(2) [symmetric])
  qed
qed

text \<open>Without a code 0 and with a callback that goes on, every error is handed over, oldest first, and the queue is empty.\<close>

lemma hand_over_all:
  "\<forall>e \<in> set q. er_packed e \<noteq> 0 \<Longrightarrow> \<forall>t s. 0 < fst (f t s) \<Longrightarrow> hand_over txt' f s q = (fold (\<lambda>e s. snd (f (txt' e) s)) q s, [])"
proof (induction q arbitrary: s)
  case (Cons e q)
  obtain r s1 where c: "f (txt' e) s = (r, s1)" by fastforce
  then have "\<not> r \<le> 0" using Cons.prems(2) by (metis fst_conv not_le)
  then show ?case using Cons c by simp
qed simp

end
