(* ===== verification/Parse.thy ===== *)
theory Parse
  imports Prelude
begin

text \<open>
  Readers of memory. \<open>Fault\<close> is a read past the end of the memory, or an overflow; \<open>Reject\<close> is the failure of
  the code, after which no caller looks at the objects it was given.
\<close>

datatype 'a parse = Fault | Reject | Done 'a

fun seq :: "'a parse \<Rightarrow> ('a \<Rightarrow> 'b parse) \<Rightarrow> 'b parse" where
  "seq Fault f = Fault"
| "seq Reject f = Reject"
| "seq (Done x) f = f x"

lemma seq_cong [fundef_cong]: "p = q \<Longrightarrow> (\<And>x. q = Done x \<Longrightarrow> f x = g x) \<Longrightarrow> seq p f = seq q g"
  by (cases q) auto

text \<open>\<open>*p++\<close> on the memory from \<open>p\<close> on.\<close>

definition next_byte :: "u8 list \<Rightarrow> (u8 \<times> u8 list) parse" where
  "next_byte p = (case p of [] \<Rightarrow> Fault | c # p \<Rightarrow> Done (c, p))"

lemma next_byte_simps [simp]: "next_byte (c # p) = Done (c, p)" "next_byte [] = Fault"
  by (simp_all add: next_byte_def)

lemma seq_Done: "seq p f = Done y \<longleftrightarrow> (\<exists>x. p = Done x \<and> f x = Done y)"
  by (cases p) auto

lemma seq_Fault: "seq p f = Fault \<longleftrightarrow> p = Fault \<or> (\<exists>x. p = Done x \<and> f x = Fault)"
  by (cases p) auto

end
