(* ===== verification/C_Int.thy ===== *)
theory C_Int
  imports Prelude "HOL-Library.Signed_Division" "HOL-Library.Monad_Syntax"
begin

text \<open>
  Signed arithmetic of the language: \<open>int\<close> has 32 bits, \<open>long\<close> and \<open>time_t\<close> have 64. The overflow of an
  addition, subtraction or multiplication is undefined: an operation that checks gives \<open>None\<close>.
  \<open>sdiv\<close> and \<open>smod\<close> of the library are the division of the language, which rounds towards zero.
\<close>

definition int_ck :: "int \<Rightarrow> int option" where
  "int_ck x = (if - (2 ^ 31) \<le> x \<and> x < 2 ^ 31 then Some x else None)"

definition long_ck :: "int \<Rightarrow> int option" where
  "long_ck x = (if - (2 ^ 63) \<le> x \<and> x < 2 ^ 63 then Some x else None)"

text \<open>The conversion of a \<open>long\<close> to \<open>int\<close>, which keeps the low bits.\<close>

definition to_int :: "int \<Rightarrow> int" where
  "to_int x = (x + 2 ^ 31) mod 2 ^ 32 - 2 ^ 31"

lemma sdiv_pos: "0 \<le> a \<Longrightarrow> 0 \<le> b \<Longrightarrow> a sdiv b = a div b" for a b :: int
  by (cases "a = 0"; cases "b = 0") (simp_all add: signed_divide_int_def)

lemma int_ck_eq: "int_ck x = Some y \<longleftrightarrow> y = x \<and> - (2 ^ 31) \<le> x \<and> x < 2 ^ 31"
  by (auto simp: int_ck_def)

lemma int_ck_Some: "- (2 ^ 31) \<le> x \<Longrightarrow> x < 2 ^ 31 \<Longrightarrow> int_ck x = Some x"
  by (simp add: int_ck_def)

lemma long_ck_Some: "- (2 ^ 63) \<le> x \<Longrightarrow> x < 2 ^ 63 \<Longrightarrow> long_ck x = Some x"
  by (simp add: long_ck_def)

lemma to_int_id: "- (2 ^ 31) \<le> x \<Longrightarrow> x < 2 ^ 31 \<Longrightarrow> to_int x = x"
  by (simp add: to_int_def mod_pos_pos_trivial)

end
