(* ===== verification/Asn1_String.thy ===== *)
theory Asn1_String
  imports Mem Libc C_Int
begin

text \<open>
  The strings of \<^verbatim>\<open>crypto/asn1/asn1_lib.c\<close>: a length, a type, a block of memory and flags. The block is
  usually one byte longer than the contents, for a terminator.
\<close>

section \<open>Code\<close>

record asn1_string_st =
  as_length :: int
  as_type :: int
  as_data :: "block option"
  as_flags :: int

definition V_ASN1_OCTET_STRING :: int where
  "V_ASN1_OCTET_STRING = 4"

definition sizeof_ASN1_STRING :: nat where
  "sizeof_ASN1_STRING = 24"

definition ASN1_STRING_type_new :: "allocator \<Rightarrow> int \<Rightarrow> asn1_string_st option" where
  "ASN1_STRING_type_new m ty =
     (case OPENSSL_malloc m sizeof_ASN1_STRING of
        None \<Rightarrow> None
      | Some _ \<Rightarrow> Some \<lparr>as_length = 0, as_type = ty, as_data = None, as_flags = 0\<rparr>)"

definition ASN1_STRING_new :: "allocator \<Rightarrow> asn1_string_st option" where
  "ASN1_STRING_new m = ASN1_STRING_type_new m V_ASN1_OCTET_STRING"

text \<open>
  The argument \<open>data\<close> is NULL or the memory from the pointer on. \<open>None\<close>: the overflow of \<open>len + 1\<close>,
  or a string that has no end or is too long for an \<open>int\<close>.
\<close>

definition ASN1_STRING_set ::
    "allocator \<Rightarrow> asn1_string_st \<Rightarrow> u8 list option \<Rightarrow> int \<Rightarrow> (bool \<times> asn1_string_st) option" where
  "ASN1_STRING_set m str data len =
     (if len < 0 \<and> data = None then Some (False, str)
      else
        do {
          len \<leftarrow> (if len < 0 then Option.bind (strlen (the data)) (\<lambda>n. int_ck (int n)) else Some len);
          c \<leftarrow> (if as_length str \<le> len \<or> as_data str = None then
                 do {
                   n \<leftarrow> int_ck (len + 1);
                   Some (case as_data str of
                           None \<Rightarrow> OPENSSL_malloc m (nat n)
                         | Some c \<Rightarrow> OPENSSL_realloc m (Some c) (nat n))
                 }
               else Some (as_data str));
          case c of
            None \<Rightarrow> Some (False, str)
          | Some b \<Rightarrow>
              Some (True, str\<lparr>as_length := len,
                as_data := Some (case data of
                                   None \<Rightarrow> b
                                 | Some d \<Rightarrow> b\<lparr>blk_data := (memcpy (blk_data b) d (nat len))[nat len := 0]\<rparr>)\<rparr>)
        })"

definition ASN1_STRING_set0 :: "asn1_string_st \<Rightarrow> block option \<Rightarrow> int \<Rightarrow> asn1_string_st" where
  "ASN1_STRING_set0 str data len = str\<lparr>as_data := data, as_length := len\<rparr>"

text \<open>The memory of another string as an argument: NULL, or its bytes.\<close>

definition data_of :: "asn1_string_st \<Rightarrow> u8 list option" where
  "data_of str = map_option blk_data (as_data str)"

definition ASN1_STRING_copy ::
    "allocator \<Rightarrow> asn1_string_st \<Rightarrow> asn1_string_st option \<Rightarrow> (bool \<times> asn1_string_st) option" where
  "ASN1_STRING_copy m dst str =
     (case str of
        None \<Rightarrow> Some (False, dst)
      | Some str \<Rightarrow>
          do {
            (ok, dst) \<leftarrow> ASN1_STRING_set m (dst\<lparr>as_type := as_type str\<rparr>) (data_of str) (as_length str);
            Some (if ok then (True, dst\<lparr>as_flags := as_flags str\<rparr>) else (False, dst))
          })"

definition ASN1_STRING_dup :: "allocator \<Rightarrow> asn1_string_st option \<Rightarrow> asn1_string_st option option" where
  "ASN1_STRING_dup m str =
     (case str of
        None \<Rightarrow> Some None
      | Some s \<Rightarrow>
          (case ASN1_STRING_new m of
             None \<Rightarrow> Some None
           | Some ret \<Rightarrow> map_option (\<lambda>(ok, ret). if ok then Some ret else None) (ASN1_STRING_copy m ret (Some s))))"

text \<open>Comparison; NULL stands for no bytes. The lengths are not negative, so that their difference does not overflow.\<close>

definition ASN1_STRING_cmp :: "asn1_string_st \<Rightarrow> asn1_string_st \<Rightarrow> int" where
  "ASN1_STRING_cmp a b =
     (let i = as_length a - as_length b in
      if i = 0 then
        (let i = (case (data_of a, data_of b) of
                    (Some x, Some y) \<Rightarrow> memcmp x y (nat (as_length a))
                  | _ \<Rightarrow> 0)
         in if i = 0 then as_type a - as_type b else i)
      else i)"

definition ASN1_STRING_length :: "asn1_string_st \<Rightarrow> int" where
  "ASN1_STRING_length x = as_length x"

definition ASN1_STRING_length_set :: "asn1_string_st \<Rightarrow> int \<Rightarrow> asn1_string_st" where
  "ASN1_STRING_length_set x n = x\<lparr>as_length := n\<rparr>"

definition ASN1_STRING_type :: "asn1_string_st \<Rightarrow> int" where
  "ASN1_STRING_type x = as_type x"

definition ASN1_STRING_data :: "asn1_string_st \<Rightarrow> u8 list option" where
  "ASN1_STRING_data x = data_of x"

definition ASN1_STRING_get0_data :: "asn1_string_st \<Rightarrow> u8 list option" where
  "ASN1_STRING_get0_data x = data_of x"

section \<open>Contents\<close>

definition str_bytes :: "asn1_string_st \<Rightarrow> u8 list" where
  "str_bytes s = (case as_data s of None \<Rightarrow> [] | Some b \<Rightarrow> take (nat (as_length s)) (blk_data b))"

text \<open>The block holds the contents; \<open>terminated\<close>: and a zero behind them.\<close>

definition string_ok :: "asn1_string_st \<Rightarrow> bool" where
  "string_ok s \<longleftrightarrow> 0 \<le> as_length s \<and> as_length s < 2 ^ 31 \<and>
     (case as_data s of None \<Rightarrow> as_length s = 0 | Some b \<Rightarrow> block_ok b \<and> nat (as_length s) \<le> blk_size b)"

definition terminated :: "asn1_string_st \<Rightarrow> bool" where
  "terminated s \<longleftrightarrow> string_ok s \<and>
     (\<forall>b. as_data s = Some b \<longrightarrow> nat (as_length s) < blk_size b \<and> blk_data b ! nat (as_length s) = 0)"

lemma length_str_bytes: "string_ok s \<Longrightarrow> length (str_bytes s) = nat (as_length s)"
  by (auto simp: string_ok_def str_bytes_def block_ok_def split: option.splits)

lemma ASN1_STRING_type_new_ok:
  "ASN1_STRING_type_new m ty = Some s \<Longrightarrow> string_ok s \<and> terminated s \<and> str_bytes s = [] \<and> as_type s = ty \<and> as_data s = None"
  by (auto simp: ASN1_STRING_type_new_def string_ok_def terminated_def str_bytes_def split: option.splits)

text \<open>The block a string of \<open>len\<close> bytes is stored in.\<close>

lemma ASN1_STRING_set_block:
  assumes m: "malloc_ok m" and s: "string_ok str" and len: "0 \<le> len" "len < 2 ^ 31 - 1"
  obtains c where "case c of None \<Rightarrow> m (9 + nat len) = None | Some b \<Rightarrow> block_ok b \<and> nat len < blk_size b"
    "\<And>data. ASN1_STRING_set m str data len = Some (case c of None \<Rightarrow> (False, str) | Some b \<Rightarrow>
       (True, str\<lparr>as_length := len, as_data := Some (case data of
          None \<Rightarrow> b | Some d \<Rightarrow> b\<lparr>blk_data := (memcpy (blk_data b) d (nat len))[nat len := 0]\<rparr>)\<rparr>))"
proof -
  have n: "int_ck (len + 1) = Some (len + 1)" "nat (len + 1) = Suc (nat len)" using len by (simp_all add: int_ck_def)
  show thesis
  proof (cases "as_length str \<le> len \<or> as_data str = None")
    case False
    then show thesis using s len that [of "as_data str"] by (cases "as_data str") (auto simp: ASN1_STRING_set_def string_ok_def)
  next
    case True
    have sz: "Suc (nat len) + 8 < SIZE_MOD" using len by (simp add: SIZE_MOD_def)
    define c where "c = (case as_data str of None \<Rightarrow> OPENSSL_malloc m (Suc (nat len)) | Some c \<Rightarrow> OPENSSL_realloc m (Some c) (Suc (nat len)))"
    show thesis
    proof (rule that)
      show "ASN1_STRING_set m str data len = Some (case c of None \<Rightarrow> (False, str) | Some b \<Rightarrow>
         (True, str\<lparr>as_length := len, as_data := Some (case data of
            None \<Rightarrow> b | Some d \<Rightarrow> b\<lparr>blk_data := (memcpy (blk_data b) d (nat len))[nat len := 0]\<rparr>)\<rparr>))" for data
        using True len(1) by (auto simp: ASN1_STRING_set_def n c_def split: option.splits)
      show "case c of None \<Rightarrow> m (9 + nat len) = None | Some b \<Rightarrow> block_ok b \<and> nat len < blk_size b"
      proof (cases c)
        case None
        then show ?thesis
          using len by (auto simp: c_def OPENSSL_realloc_def OPENSSL_malloc_def malloc_def OPENSSL_MALLOC_PREFIX_def SIZE_MOD_def Let_def
              split: option.splits)
      next
        case (Some b)
        show ?thesis
        proof (cases "as_data str")
          case None
          then have "OPENSSL_malloc m (Suc (nat len)) = Some b" using Some by (simp add: c_def)
          from OPENSSL_malloc_block [OF m sz this] Some show ?thesis by simp
        next
          case (Some old)
          then have "OPENSSL_realloc m (Some old) (Suc (nat len)) = Some b" "block_ok old"
            using \<open>c = Some b\<close> s by (simp_all add: c_def string_ok_def)
          from OPENSSL_realloc_block [OF m sz this(2,1)] \<open>c = Some b\<close> show ?thesis by simp
        qed
      qed
    qed
  qed
qed

text \<open>Setting a string: the contents are the bytes, with a terminator, or memory could not be allocated.\<close>

lemma ASN1_STRING_set_spec:
  assumes m: "malloc_ok m" and s: "string_ok str" and len: "0 \<le> len" "len < 2 ^ 31 - 1" "nat len \<le> length d"
  shows "\<exists>ok str'. ASN1_STRING_set m str (Some d) len = Some (ok, str') \<and>
    (if ok then terminated str' \<and> str_bytes str' = take (nat len) d \<and> as_type str' = as_type str \<and>
       as_flags str' = as_flags str \<and> as_length str' = len
     else str' = str \<and> m (9 + nat len) = None)"
proof -
  have fill: "terminated s' \<and> str_bytes s' = take (nat len) d \<and> as_length s' = len"
    if "block_ok b" "nat len < blk_size b"
      "s' = str\<lparr>as_length := len, as_data := Some (b\<lparr>blk_data := (memcpy (blk_data b) d (nat len))[nat len := 0]\<rparr>)\<rparr>" for b s'
    using that len by (auto simp: terminated_def string_ok_def str_bytes_def block_ok_def take_memcpy)
  obtain c where c: "case c of None \<Rightarrow> m (9 + nat len) = None | Some b \<Rightarrow> block_ok b \<and> nat len < blk_size b"
    "\<And>data. ASN1_STRING_set m str data len = Some (case c of None \<Rightarrow> (False, str) | Some b \<Rightarrow>
       (True, str\<lparr>as_length := len, as_data := Some (case data of
          None \<Rightarrow> b | Some d \<Rightarrow> b\<lparr>blk_data := (memcpy (blk_data b) d (nat len))[nat len := 0]\<rparr>)\<rparr>))"
    by (rule ASN1_STRING_set_block [OF m s len(1,2)]) blast
  show ?thesis
  proof (cases c)
    case None
    then show ?thesis using c by (intro exI [of _ False] exI [of _ str]) simp
  next
    case (Some b)
    let ?s = "str\<lparr>as_length := len, as_data := Some (b\<lparr>blk_data := (memcpy (blk_data b) d (nat len))[nat len := 0]\<rparr>)\<rparr>"
    have "ASN1_STRING_set m str (Some d) len = Some (True, ?s)" using c(2) Some by simp
    moreover have "block_ok b \<and> nat len < blk_size b" using c(1) Some by simp
    ultimately show ?thesis using fill [of b ?s] by (intro exI [of _ True] exI [of _ ?s]) simp
  qed
qed

end
