(* ===== verification/Calendar.thy ===== *)
theory Calendar
  imports Prelude
begin

text \<open>
  The Gregorian calendar, extended to all years: the meaning of the dates the code computes with,
  and what \<open>gmtime_r\<close> of the C library computes.
\<close>

section \<open>Dates\<close>

type_synonym date = "int \<times> int \<times> int"  \<comment> \<open>year, month 1..12, day 1..31\<close>

definition leap_year :: "int \<Rightarrow> bool" where
  "leap_year y \<longleftrightarrow> y mod 4 = 0 \<and> (y mod 100 \<noteq> 0 \<or> y mod 400 = 0)"

definition days_in_month :: "int \<Rightarrow> int \<Rightarrow> int" where
  "days_in_month y m =
     (if m = 2 then if leap_year y then 29 else 28
      else if m = 4 \<or> m = 6 \<or> m = 9 \<or> m = 11 then 30 else 31)"

fun valid_date :: "date \<Rightarrow> bool" where
  "valid_date (y, m, d) \<longleftrightarrow> 1 \<le> m \<and> m \<le> 12 \<and> 1 \<le> d \<and> d \<le> days_in_month y m"

fun next_day :: "date \<Rightarrow> date" where
  "next_day (y, m, d) =
     (if d < days_in_month y m then (y, m, d + 1) else if m < 12 then (y, m + 1, 1) else (y + 1, 1, 1))"

fun prev_day :: "date \<Rightarrow> date" where
  "prev_day (y, m, d) =
     (if 1 < d then (y, m, d - 1) else if 1 < m then (y, m - 1, days_in_month y (m - 1)) else (y - 1, 12, 31))"

lemma days_in_month_bounds: "28 \<le> days_in_month y m" "days_in_month y m \<le> 31"
  by (simp_all add: days_in_month_def)

lemma month_cases:
  assumes "1 \<le> m" "m \<le> (12::int)"
  obtains "m = 1" | "m = 2" | "m = 3" | "m = 4" | "m = 5" | "m = 6" | "m = 7" | "m = 8" | "m = 9" | "m = 10" | "m = 11" | "m = 12"
  using assms by (smt (verit))

lemma valid_next_day: "valid_date t \<Longrightarrow> valid_date (next_day t)"
  using days_in_month_bounds(1) by (cases t) (auto intro: order_trans [of 1 28])

lemma valid_prev_day: "valid_date t \<Longrightarrow> valid_date (prev_day t)"
  using days_in_month_bounds(1) by (cases t) (auto intro: order_trans [of 1 28] simp: days_in_month_def)

lemma next_prev_day: "valid_date t \<Longrightarrow> next_day (prev_day t) = t"
  by (cases t) (auto simp: days_in_month_def)

text \<open>The date a number of days after 1 January 1970.\<close>

definition date_after :: "int \<Rightarrow> date" where
  "date_after n =
     (if 0 \<le> n then (next_day ^^ nat n) (1970, 1, 1) else (prev_day ^^ nat (- n)) (1970, 1, 1))"

lemma valid_date_after: "valid_date (date_after n)"
proof -
  have "valid_date ((next_day ^^ k) (1970, 1, 1))" for k
    by (induction k) (simp_all add: valid_next_day days_in_month_def del: valid_date.simps next_day.simps, simp add: days_in_month_def)
  moreover have "valid_date ((prev_day ^^ k) (1970, 1, 1))" for k
    by (induction k) (simp_all add: valid_prev_day days_in_month_def del: valid_date.simps prev_day.simps, simp add: days_in_month_def)
  ultimately show ?thesis by (simp add: date_after_def)
qed

lemma date_after_0: "date_after 0 = (1970, 1, 1)"
  by (simp add: date_after_def)

lemma date_after_next: "date_after (n + 1) = next_day (date_after n)"
proof (cases "0 \<le> n")
  case True
  then have "nat (n + 1) = Suc (nat n)" by simp
  then show ?thesis using True by (simp add: date_after_def)
next
  case False
  then have "nat (- n) = Suc (nat (- (n + 1)))" by simp
  then have "date_after n = prev_day (date_after (n + 1))" using False by (auto simp: date_after_def)
  then show ?thesis using next_prev_day [OF valid_date_after] by simp
qed


section \<open>Julian day numbers\<close>

definition leap_days :: "int \<Rightarrow> int" where
  "leap_days y = y div 4 - y div 100 + y div 400"

definition days_before_month :: "int \<Rightarrow> int \<Rightarrow> int" where
  "days_before_month y m = (\<Sum>k\<leftarrow>[1..m - 1]. days_in_month y k)"

text \<open>The day 0 is 24 November -4713. A day beyond the end of its month counts into the next.\<close>

fun day_number :: "date \<Rightarrow> int" where
  "day_number (y, m, d) = 1721425 + 365 * (y - 1) + leap_days (y - 1) + days_before_month y m + (d - 1) + 1"

lemma div_pred: "0 < k \<Longrightarrow> y div k = (y - 1) div k + of_bool (k dvd y)" for y k :: int
proof -
  assume k: "0 < k"
  show ?thesis
  proof (cases "k dvd y")
    case True
    then obtain q where q: "y = k * q" by blast
    have "(k * q - 1) div k = q - 1"
      using k div_pos_pos_trivial [of "k - 1" k] div_mult_self2 [of k "k - 1" "q - 1"] by (simp add: algebra_simps)
    then show ?thesis using q k by simp
  next
    case False
    then have "y mod k \<noteq> 0" by (simp add: dvd_eq_mod_eq_0)
    then have m: "0 \<le> y mod k - 1" "y mod k - 1 < k" using k pos_mod_bound [OF k, of y] pos_mod_sign [OF k, of y] by linarith+
    have "y - 1 = (y mod k - 1) + k * (y div k)" by simp
    then have "(y - 1) div k = (y mod k - 1) div k + y div k" using k by (metis div_mult_self2 add.commute less_irrefl)
    then show ?thesis using m False by (simp add: div_pos_pos_trivial)
  qed
qed

lemma of_bool_leap:
  "b \<longrightarrow> a \<Longrightarrow> c \<longrightarrow> b \<Longrightarrow> of_bool a - of_bool b + of_bool c = (of_bool (a \<and> (\<not> b \<or> c)) :: int)"
  by (cases a; cases b; cases c) simp_all

lemma add_deltas:
  "a = a' + p \<Longrightarrow> b = b' + q \<Longrightarrow> c = c' + r \<Longrightarrow> p - q + r = s \<Longrightarrow> a - b + c = a' - b' + c' + s" for a :: int
  by linarith

lemma leap_days_pred: "leap_days y = leap_days (y - 1) + of_bool (leap_year y)"
proof -
  have centuries: "4 dvd (100 :: int)" "100 dvd (400 :: int)" by simp_all
  have d: "100 dvd y \<longrightarrow> 4 dvd y" "400 dvd y \<longrightarrow> 100 dvd y"
    using dvd_trans [of 4 100 y] dvd_trans [of 100 400 y] centuries by blast+
  have l: "leap_year y \<longleftrightarrow> 4 dvd y \<and> (\<not> 100 dvd y \<or> 400 dvd y)" by (simp add: leap_year_def dvd_eq_mod_eq_0)
  have e: "of_bool (4 dvd y) - of_bool (100 dvd y) + of_bool (400 dvd y) = (of_bool (leap_year y) :: int)"
    unfolding l using d by (rule of_bool_leap)
  show ?thesis unfolding leap_days_def by (rule add_deltas [OF div_pred div_pred div_pred e]) simp_all
qed

lemma days_before_month_simps:
  "days_before_month y 1 = 0" "days_before_month y 2 = 31"
  "days_before_month y 3 = 59 + of_bool (leap_year y)" "days_before_month y 4 = 90 + of_bool (leap_year y)"
  "days_before_month y 5 = 120 + of_bool (leap_year y)" "days_before_month y 6 = 151 + of_bool (leap_year y)"
  "days_before_month y 7 = 181 + of_bool (leap_year y)" "days_before_month y 8 = 212 + of_bool (leap_year y)"
  "days_before_month y 9 = 243 + of_bool (leap_year y)" "days_before_month y 10 = 273 + of_bool (leap_year y)"
  "days_before_month y 11 = 304 + of_bool (leap_year y)" "days_before_month y 12 = 334 + of_bool (leap_year y)"
  by (simp_all add: days_before_month_def upto_rec1 days_in_month_def)

lemma days_before_next_month: "1 \<le> m \<Longrightarrow> days_before_month y (m + 1) = days_before_month y m + days_in_month y m"
  by (simp add: days_before_month_def upto_rec2)

lemma day_number_next: "valid_date t \<Longrightarrow> day_number (next_day t) = day_number t + 1"
proof (cases t)
  case (fields y m d)
  assume v: "valid_date t"
  consider "d < days_in_month y m" | "d = days_in_month y m" "m < 12" | "d = days_in_month y m" "m = 12"
    using v fields by force
  then show ?thesis
  proof cases
    case 2
    then show ?thesis using v fields days_before_next_month [of m y] by simp
  next
    case 3
    then show ?thesis
      using leap_days_pred [of y] days_before_month_simps(1) [of "y + 1"] days_before_month_simps(12) [of y]
      by (simp add: fields days_in_month_def algebra_simps)
  qed (simp add: fields)
qed

lemma day_number_after: "day_number (date_after n) = 2440588 + n"
proof (induction n rule: int_induct [where k = 0])
  case base
  show ?case by (simp add: date_after_0 leap_days_def days_before_month_def del: upto_Nil)
next
  case (step1 i)
  then show ?case using day_number_next [OF valid_date_after] by (simp add: date_after_next)
next
  case (step2 i)
  then show ?case using day_number_next [OF valid_date_after [of "i - 1"]] date_after_next [of "i - 1"] by simp
qed

end
