(* ===== verification/Time_Support.thy ===== *)
theory Time_Support
  imports Calendar C_Int
begin

text \<open>
  \<^verbatim>\<open>crypto/asn1/time_support.c\<close>: arithmetic on broken-down times. The result \<open>None\<close> is
  the overflow of a signed operation (theory C_Int); the result 0 of the code is \<open>Some None\<close>.
\<close>

section \<open>Code\<close>

text \<open>\<open>struct tm\<close>; the fields the code does not use are left out.\<close>

record tm =
  tm_sec :: int
  tm_min :: int
  tm_hour :: int
  tm_mday :: int
  tm_mon :: int
  tm_year :: int

definition SECS_PER_DAY :: int where
  "SECS_PER_DAY = 24 * 60 * 60"

text \<open>\<open>gmtime_r\<close> of the C library: fails when the year does not fit its field.\<close>

definition gmtime_r :: "int \<Rightarrow> tm option" where
  "gmtime_r t =
     (case date_after (t div 86400) of (y, m, d) \<Rightarrow>
        map_option (\<lambda>year.
          \<lparr>tm_sec = t mod 60, tm_min = t div 60 mod 60, tm_hour = t div 3600 mod 24, tm_mday = d, tm_mon = m - 1, tm_year = year\<rparr>)
        (int_ck (y - 1900)))"

definition OPENSSL_gmtime :: "int \<Rightarrow> tm option" where
  "OPENSSL_gmtime t = gmtime_r t"

definition date_to_julian :: "int \<Rightarrow> int \<Rightarrow> int \<Rightarrow> int option" where
  "date_to_julian y m d =
     do {
       m14 \<leftarrow> int_ck (m - 14);
       let q = m14 sdiv 12;
       y1 \<leftarrow> int_ck (y + 4800);
       y2 \<leftarrow> int_ck (y1 + q);
       years \<leftarrow> int_ck (1461 * y2);
       m2 \<leftarrow> int_ck (m - 2);
       m3 \<leftarrow> int_ck (m2 - 12 * q);
       months \<leftarrow> int_ck (367 * m3);
       y3 \<leftarrow> int_ck (y + 4900);
       y4 \<leftarrow> int_ck (y3 + q);
       centuries \<leftarrow> int_ck (3 * (y4 sdiv 100));
       s1 \<leftarrow> int_ck (years sdiv 4 + months sdiv 12);
       s2 \<leftarrow> int_ck (s1 - centuries sdiv 4);
       s3 \<leftarrow> int_ck (s2 + d);
       int_ck (s3 - 32075)
     }"

definition julian_to_date :: "int \<Rightarrow> (int \<times> int \<times> int) option" where
  "julian_to_date jd =
     do {
       L1 \<leftarrow> long_ck (jd + 68569);
       n4 \<leftarrow> long_ck (4 * L1);
       let n = n4 sdiv 146097;
       n1 \<leftarrow> long_ck (146097 * n + 3);
       L2 \<leftarrow> long_ck (L1 - n1 sdiv 4);
       i1 \<leftarrow> long_ck (4000 * (L2 + 1));
       let i = i1 sdiv 1461001;
       i2 \<leftarrow> long_ck (1461 * i);
       L3 \<leftarrow> long_ck (L2 - i2 sdiv 4 + 31);
       j1 \<leftarrow> long_ck (80 * L3);
       let j = j1 sdiv 2447;
       j2 \<leftarrow> long_ck (2447 * j);
       let d = to_int (L3 - j2 sdiv 80);
       let L = j sdiv 11;
       let m = to_int (j + 2 - 12 * L);
       y \<leftarrow> long_ck (100 * (n - 49) + i + L);
       Some (to_int y, m, d)
     }"

definition julian_adj :: "tm \<Rightarrow> int \<Rightarrow> int \<Rightarrow> (int \<times> int) option option" where
  "julian_adj tm off_day offset_sec =
     do {
       let offset_day = to_int (offset_sec sdiv SECS_PER_DAY);
       days \<leftarrow> int_ck (offset_day * SECS_PER_DAY);
       hms \<leftarrow> long_ck (offset_sec - days);
       let offset_hms = to_int hms;
       offset_day \<leftarrow> int_ck (offset_day + off_day);
       h \<leftarrow> int_ck (tm_hour tm * 3600);
       m \<leftarrow> int_ck (tm_min tm * 60);
       hm \<leftarrow> int_ck (h + m);
       time \<leftarrow> int_ck (hm + tm_sec tm);
       offset_hms \<leftarrow> int_ck (offset_hms + time);
       (offset_day, offset_hms) \<leftarrow>
         (if SECS_PER_DAY \<le> offset_hms then map_option (\<lambda>day. (day, offset_hms - SECS_PER_DAY)) (int_ck (offset_day + 1))
          else if offset_hms < 0 then map_option (\<lambda>day. (day, offset_hms + SECS_PER_DAY)) (int_ck (offset_day - 1))
          else Some (offset_day, offset_hms));
       time_year \<leftarrow> int_ck (tm_year tm + 1900);
       time_month \<leftarrow> int_ck (tm_mon tm + 1);
       time_jd \<leftarrow> date_to_julian time_year time_month (tm_mday tm);
       time_jd \<leftarrow> long_ck (time_jd + offset_day);
       Some (if time_jd < 0 then None else Some (time_jd, offset_hms))
     }"

definition OPENSSL_gmtime_adj :: "tm \<Rightarrow> int \<Rightarrow> int \<Rightarrow> tm option option" where
  "OPENSSL_gmtime_adj tm off_day offset_sec =
     do {
       r \<leftarrow> julian_adj tm off_day offset_sec;
       case r of
         None \<Rightarrow> Some None
       | Some (time_jd, time_sec) \<Rightarrow>
           do {
             (time_year, time_month, time_day) \<leftarrow> julian_to_date time_jd;
             if time_year < 1900 \<or> 9999 < time_year then Some None
             else
               Some (Some (tm\<lparr>tm_year := time_year - 1900, tm_mon := time_month - 1, tm_mday := time_day,
                 tm_hour := time_sec sdiv 3600, tm_min := (time_sec sdiv 60) smod 60, tm_sec := time_sec smod 60\<rparr>))
           }
     }"

text \<open>\<open>*out_days\<close> and \<open>*out_secs\<close>.\<close>

definition OPENSSL_gmtime_diff :: "tm \<Rightarrow> tm \<Rightarrow> (int \<times> int) option option" where
  "OPENSSL_gmtime_diff from to =
     do {
       r1 \<leftarrow> julian_adj from 0 0;
       case r1 of
         None \<Rightarrow> Some None
       | Some (from_jd, from_sec) \<Rightarrow>
           do {
             r2 \<leftarrow> julian_adj to 0 0;
             case r2 of
               None \<Rightarrow> Some None
             | Some (to_jd, to_sec) \<Rightarrow>
                 do {
                   diff_day \<leftarrow> long_ck (to_jd - from_jd);
                   diff_sec \<leftarrow> int_ck (to_sec - from_sec);
                   let (diff_day, diff_sec) =
                     (if 0 < diff_day \<and> diff_sec < 0 then (diff_day - 1, diff_sec + SECS_PER_DAY) else (diff_day, diff_sec));
                   let (diff_day, diff_sec) =
                     (if diff_day < 0 \<and> 0 < diff_sec then (diff_day + 1, diff_sec - SECS_PER_DAY) else (diff_day, diff_sec));
                   Some (Some (to_int diff_day, diff_sec))
                 }
           }
     }"

end
