(* ===== verification/Asn1_Time.thy ===== *)
theory Asn1_Time
  imports Parse Asn1_String Time_Support Oid
begin

text \<open>
  \<^verbatim>\<open>crypto/asn1/a_gentm.c\<close>, \<^verbatim>\<open>a_utctm.c\<close> and \<^verbatim>\<open>a_time.c\<close>: the times of certificates as text.
\<close>

section \<open>Reading\<close>

definition rd :: "u8 list \<Rightarrow> nat \<Rightarrow> u8 parse" where
  "rd a p = (if p < length a then Done (a ! p) else Fault)"

definition read_digit :: "u8 list \<Rightarrow> nat \<Rightarrow> int parse" where
  "read_digit a p = seq (rd a p) (\<lambda>c. if c < 48 \<or> 57 < c then Reject else Done (int (unat c) - 48))"

text \<open>Two digits of a field, with the checks of the position; and of an offset, without.\<close>

definition two_digits :: "u8 list \<Rightarrow> nat \<Rightarrow> nat \<Rightarrow> (int \<times> nat) parse" where
  "two_digits a l p =
     seq (read_digit a p) (\<lambda>n.
       if l < p + 1 then Reject
       else seq (read_digit a (p + 1)) (\<lambda>k. if l < p + 2 then Reject else Done (n * 10 + k, p + 2)))"

definition offset_digits :: "u8 list \<Rightarrow> nat \<Rightarrow> (int \<times> nat) parse" where
  "offset_digits a p = seq (read_digit a p) (\<lambda>n. seq (read_digit a (p + 1)) (\<lambda>k. Done (n * 10 + k, p + 2)))"

text \<open>
  \<open>+hhmm\<close> or \<open>-hhmm\<close> behind the sign \<open>c\<close> at \<open>p\<close>. Without a \<open>tm\<close> the offset stays 0.
\<close>

definition read_offset :: "u8 list \<Rightarrow> nat \<Rightarrow> nat \<Rightarrow> u8 \<Rightarrow> tm option \<Rightarrow> (nat \<times> tm option) parse" where
  "read_offset a l p c tm =
     (let offsign = (if c = 45 then 1 else -1); p = p + 1 in
      if l < p + 4 then Reject
      else
        seq (offset_digits a p) (\<lambda>(hh, p).
          if hh < 0 \<or> 12 < hh then Reject
          else
            seq (offset_digits a p) (\<lambda>(mm, p).
              if mm < 0 \<or> 59 < mm then Reject
              else
                (case tm of
                   None \<Rightarrow> Done (p, None)
                 | Some t \<Rightarrow>
                     let offset = hh * 3600 + mm * 60 in
                     if offset = 0 then Done (p, Some t)
                     else
                       (case OPENSSL_gmtime_adj t 0 (offset * offsign) of
                          None \<Rightarrow> Fault
                        | Some None \<Rightarrow> Reject
                        | Some (Some t') \<Rightarrow> Done (p, Some t'))))))"

section \<open>GeneralizedTime\<close>

definition V_ASN1_UTCTIME :: int where
  "V_ASN1_UTCTIME = 23"

definition V_ASN1_GENERALIZEDTIME :: int where
  "V_ASN1_GENERALIZEDTIME = 24"

text \<open>The memory at \<open>d->data\<close>.\<close>

definition mem_of :: "asn1_string_st \<Rightarrow> u8 list" where
  "mem_of d = (case as_data d of None \<Rightarrow> [] | Some b \<Rightarrow> blk_data b)"

definition gt_min :: "int list" where
  "gt_min = [0, 0, 1, 1, 0, 0, 0]"

definition gt_max :: "int list" where
  "gt_max = [99, 99, 12, 31, 23, 59, 59]"

definition gt_field :: "nat \<Rightarrow> int \<Rightarrow> tm \<Rightarrow> tm" where
  "gt_field i n tm =
     (if i = 0 then tm\<lparr>tm_year := n * 100 - 1900\<rparr>
      else if i = 1 then tm\<lparr>tm_year := tm_year tm + n\<rparr>
      else if i = 2 then tm\<lparr>tm_mon := n - 1\<rparr>
      else if i = 3 then tm\<lparr>tm_mday := n\<rparr>
      else if i = 4 then tm\<lparr>tm_hour := n\<rparr>
      else if i = 5 then tm\<lparr>tm_min := n\<rparr>
      else tm\<lparr>tm_sec := n\<rparr>)"

function gt_fields :: "u8 list \<Rightarrow> nat \<Rightarrow> nat \<Rightarrow> nat \<Rightarrow> tm option \<Rightarrow> (nat \<times> tm option) parse" where
  "gt_fields a l i p tm =
     (if 7 \<le> i then Done (p, tm)
      else
        seq (if i = 6 then rd a p else Done 0) (\<lambda>c.
          if i = 6 \<and> (c = 90 \<or> c = 43 \<or> c = 45) then Done (p, map_option (tm_sec_update (\<lambda>_. 0)) tm)
          else
            seq (two_digits a l p) (\<lambda>(n, p).
              if n < gt_min ! i \<or> gt_max ! i < n then Reject
              else gt_fields a l (i + 1) p (map_option (gt_field i n) tm))))"
  by pat_completeness auto
termination by (relation "measure (\<lambda>(a, l, i, p, tm). 7 - i)") auto

declare gt_fields.simps [simp del]

text \<open>The digits of a fraction: where they end.\<close>

function gt_fraction :: "u8 list \<Rightarrow> nat \<Rightarrow> nat \<Rightarrow> nat parse" where
  "gt_fraction a l p =
     seq (rd a p) (\<lambda>c. if 48 \<le> c \<and> c \<le> 57 \<and> p \<le> l then gt_fraction a l (p + 1) else Done p)"
  by pat_completeness auto
termination by (relation "measure (\<lambda>(a, l, p). length a - p)") (auto simp: rd_def split: if_splits)

declare gt_fraction.simps [simp del]

definition asn1_generalizedtime_to_tm :: "tm option \<Rightarrow> asn1_string_st \<Rightarrow> tm option parse" where
  "asn1_generalizedtime_to_tm tm d =
     (let l = nat (as_length d); a = mem_of d in
      if as_type d \<noteq> V_ASN1_GENERALIZEDTIME then Reject
      else if as_length d < 13 then Reject
      else
        seq (gt_fields a l 0 0 tm) (\<lambda>(p, tm).
        seq (rd a p) (\<lambda>c.
        seq (if c = 46 then
               (if l < p + 1 then Reject
                else seq (gt_fraction a l (p + 1)) (\<lambda>q. if q = p + 1 then Reject else Done q))
             else Done p) (\<lambda>p.
        seq (rd a p) (\<lambda>c.
        seq (if c = 90 then Done (p + 1, tm)
             else if c = 43 \<or> c = 45 then read_offset a l p c tm
             else if c \<noteq> 0 then Reject
             else Done (p, tm)) (\<lambda>(p, tm).
        if p = l then Done tm else Reject))))))"

definition ASN1_GENERALIZEDTIME_check :: "asn1_string_st \<Rightarrow> unit parse" where
  "ASN1_GENERALIZEDTIME_check d = seq (asn1_generalizedtime_to_tm None d) (\<lambda>_. Done ())"

text \<open>A string on the stack that points to a C string.\<close>

definition on_stack :: "int \<Rightarrow> int \<Rightarrow> u8 list \<Rightarrow> asn1_string_st" where
  "on_stack ty len str = \<lparr>as_length = len, as_type = ty, as_data = Some \<lparr>blk_size = length str, blk_data = str\<rparr>, as_flags = 0\<rparr>"

text \<open>
  The tail of both \<open>set_string\<close> functions. \<open>s\<close> may be NULL. The result is the flag and the object;
  \<open>strlen\<close> of a text of \<open>2^31\<close> bytes or more is not followed.
\<close>

definition set_time_string ::
    "(asn1_string_st \<Rightarrow> unit parse) \<Rightarrow> int \<Rightarrow> allocator \<Rightarrow> asn1_string_st option \<Rightarrow> u8 list \<Rightarrow>
     (bool \<times> asn1_string_st option) option" where
  "set_time_string check ty m s str =
     do {
       n \<leftarrow> strlen str;
       len \<leftarrow> int_ck (int n);
       case check (on_stack ty len str) of
         Fault \<Rightarrow> None
       | Reject \<Rightarrow> Some (False, s)
       | Done _ \<Rightarrow>
           (case s of
              None \<Rightarrow> Some (True, None)
            | Some s \<Rightarrow>
                do {
                  (ok, s') \<leftarrow> ASN1_STRING_set m s (Some str) len;
                  Some (if ok then (True, Some (s'\<lparr>as_type := ty\<rparr>)) else (False, Some s'))
                })
     }"

definition ASN1_GENERALIZEDTIME_set_string ::
    "allocator \<Rightarrow> asn1_string_st option \<Rightarrow> u8 list \<Rightarrow> (bool \<times> asn1_string_st option) option" where
  "ASN1_GENERALIZEDTIME_set_string = set_time_string ASN1_GENERALIZEDTIME_check V_ASN1_GENERALIZEDTIME"


section \<open>UTCTime\<close>

definition utc_min :: "int list" where
  "utc_min = [0, 1, 1, 0, 0, 0]"

definition utc_max :: "int list" where
  "utc_max = [99, 12, 31, 23, 59, 59]"

definition utc_field :: "nat \<Rightarrow> int \<Rightarrow> tm \<Rightarrow> tm" where
  "utc_field i n tm =
     (if i = 0 then tm\<lparr>tm_year := (if n < 50 then n + 100 else n)\<rparr>
      else if i = 1 then tm\<lparr>tm_mon := n - 1\<rparr>
      else if i = 2 then tm\<lparr>tm_mday := n\<rparr>
      else if i = 3 then tm\<lparr>tm_hour := n\<rparr>
      else if i = 4 then tm\<lparr>tm_min := n\<rparr>
      else tm\<lparr>tm_sec := n\<rparr>)"

function utc_fields :: "u8 list \<Rightarrow> nat \<Rightarrow> nat \<Rightarrow> nat \<Rightarrow> tm option \<Rightarrow> (nat \<times> tm option) parse" where
  "utc_fields a l i p tm =
     (if 6 \<le> i then Done (p, tm)
      else
        seq (if i = 5 then rd a p else Done 0) (\<lambda>c.
          if i = 5 \<and> (c = 90 \<or> c = 43 \<or> c = 45) then Done (p, map_option (tm_sec_update (\<lambda>_. 0)) tm)
          else
            seq (two_digits a l p) (\<lambda>(n, p).
              if n < utc_min ! i \<or> utc_max ! i < n then Reject
              else utc_fields a l (i + 1) p (map_option (utc_field i n) tm))))"
  by pat_completeness auto
termination by (relation "measure (\<lambda>(a, l, i, p, tm). 6 - i)") auto

declare utc_fields.simps [simp del]

definition asn1_utctime_to_tm :: "tm option \<Rightarrow> asn1_string_st \<Rightarrow> tm option parse" where
  "asn1_utctime_to_tm tm d =
     (let l = nat (as_length d); a = mem_of d in
      if as_type d \<noteq> V_ASN1_UTCTIME then Reject
      else if as_length d < 11 then Reject
      else
        seq (utc_fields a l 0 0 tm) (\<lambda>(p, tm).
        seq (rd a p) (\<lambda>c.
        seq (if c = 90 then Done (p + 1, tm)
             else if c = 43 \<or> c = 45 then read_offset a l p c tm
             else Done (p, tm)) (\<lambda>(p, tm).
        if p = l then Done tm else Reject))))"

definition ASN1_UTCTIME_check :: "asn1_string_st \<Rightarrow> unit parse" where
  "ASN1_UTCTIME_check d = seq (asn1_utctime_to_tm None d) (\<lambda>_. Done ())"

definition ASN1_UTCTIME_set_string ::
    "allocator \<Rightarrow> asn1_string_st option \<Rightarrow> u8 list \<Rightarrow> (bool \<times> asn1_string_st option) option" where
  "ASN1_UTCTIME_set_string = set_time_string ASN1_UTCTIME_check V_ASN1_UTCTIME"

section \<open>Writing\<close>

text \<open>\<open>%0wd\<close> of the printf family, and what \<open>BIO_snprintf\<close> leaves in the memory at \<open>p\<close>.\<close>

definition printf_0d :: "nat \<Rightarrow> int \<Rightarrow> u8 list" where
  "printf_0d w n =
     (if 0 \<le> n then let s = decimal (nat n) in replicate (w - length s) 48 @ s
      else let s = decimal (nat (- n)) in 45 # replicate (w - 1 - length s) 48 @ s)"

definition snprintf_to :: "u8 list \<Rightarrow> nat \<Rightarrow> u8 list \<Rightarrow> u8 list" where
  "snprintf_to p len text' = take (len - 1) text' @ [0] @ drop (length (take (len - 1) text') + 1) p"

text \<open>The text of a time with the digits of its year in front, terminated by Z.\<close>

definition time_text :: "u8 list \<Rightarrow> tm \<Rightarrow> u8 list" where
  "time_text year ts =
     year @ printf_0d 2 (tm_mon ts + 1) @ printf_0d 2 (tm_mday ts) @ printf_0d 2 (tm_hour ts) @
     printf_0d 2 (tm_min ts) @ printf_0d 2 (tm_sec ts) @ [90]"

text \<open>
  The end of both \<open>adj\<close> functions: a buffer of 20 bytes unless there is one of that length, and
  the text. On failure the object is unchanged.
\<close>

definition store_time :: "allocator \<Rightarrow> asn1_string_st \<Rightarrow> int \<Rightarrow> u8 list \<Rightarrow> asn1_string_st option" where
  "store_time m s ty text' =
     (let len = 20 in
      case (if as_data s = None \<or> (as_length s) mod 2 ^ 64 < int len then OPENSSL_malloc m len else as_data s) of
        None \<Rightarrow> None
      | Some p \<Rightarrow>
          let p' = snprintf_to (blk_data p) len text' in
          Some (s\<lparr>as_data := Some (p\<lparr>blk_data := p'\<rparr>), as_length := int (length (c_str p')), as_type := ty\<rparr>))"

text \<open>\<open>OPENSSL_gmtime\<close> and the adjustment, as all three \<open>adj\<close> functions begin.\<close>

definition adjusted_time :: "int \<Rightarrow> int \<Rightarrow> int \<Rightarrow> tm option option" where
  "adjusted_time t offset_day offset_sec =
     (case OPENSSL_gmtime t of
        None \<Rightarrow> Some None
      | Some ts \<Rightarrow>
          if offset_day \<noteq> 0 \<or> offset_sec \<noteq> 0 then OPENSSL_gmtime_adj ts offset_day offset_sec else Some (Some ts))"

definition ASN1_GENERALIZEDTIME_adj ::
    "allocator \<Rightarrow> asn1_string_st option \<Rightarrow> int \<Rightarrow> int \<Rightarrow> int \<Rightarrow> asn1_string_st option option" where
  "ASN1_GENERALIZEDTIME_adj m s t offset_day offset_sec =
     (case (case s of None \<Rightarrow> ASN1_STRING_type_new m V_ASN1_GENERALIZEDTIME | Some s \<Rightarrow> Some s) of
        None \<Rightarrow> Some None
      | Some tmps \<Rightarrow>
          do {
            r \<leftarrow> adjusted_time t offset_day offset_sec;
            case r of
              None \<Rightarrow> Some None
            | Some ts \<Rightarrow>
                do {
                  year \<leftarrow> int_ck (tm_year ts + 1900);
                  Some (store_time m tmps V_ASN1_GENERALIZEDTIME (time_text (printf_0d 4 year) ts))
                }
          })"

definition ASN1_GENERALIZEDTIME_set :: "allocator \<Rightarrow> asn1_string_st option \<Rightarrow> int \<Rightarrow> asn1_string_st option option" where
  "ASN1_GENERALIZEDTIME_set m s t = ASN1_GENERALIZEDTIME_adj m s t 0 0"

definition ASN1_UTCTIME_adj ::
    "allocator \<Rightarrow> asn1_string_st option \<Rightarrow> int \<Rightarrow> int \<Rightarrow> int \<Rightarrow> asn1_string_st option option" where
  "ASN1_UTCTIME_adj m s t offset_day offset_sec =
     (case (case s of None \<Rightarrow> ASN1_STRING_type_new m V_ASN1_UTCTIME | Some s \<Rightarrow> Some s) of
        None \<Rightarrow> Some None
      | Some s \<Rightarrow>
          do {
            r \<leftarrow> adjusted_time t offset_day offset_sec;
            case r of
              None \<Rightarrow> Some None
            | Some ts \<Rightarrow>
                if tm_year ts < 50 \<or> 150 \<le> tm_year ts then Some None
                else Some (store_time m s V_ASN1_UTCTIME (time_text (printf_0d 2 (tm_year ts smod 100)) ts))
          })"

definition ASN1_UTCTIME_set :: "allocator \<Rightarrow> asn1_string_st option \<Rightarrow> int \<Rightarrow> asn1_string_st option option" where
  "ASN1_UTCTIME_set m s t = ASN1_UTCTIME_adj m s t 0 0"

text \<open>\<open>None\<close> is an overflow; the results are -2 for an error and else the sign of the difference.\<close>

definition ASN1_UTCTIME_cmp_time_t :: "tm \<Rightarrow> asn1_string_st \<Rightarrow> int \<Rightarrow> int option" where
  "ASN1_UTCTIME_cmp_time_t stm s t =
     (case asn1_utctime_to_tm (Some stm) s of
        Fault \<Rightarrow> None
      | Reject \<Rightarrow> Some (-2)
      | Done stm \<Rightarrow>
          (case OPENSSL_gmtime t of
             None \<Rightarrow> Some (-2)
           | Some ttm \<Rightarrow>
               do {
                 r \<leftarrow> OPENSSL_gmtime_diff ttm (the stm);
                 Some (case r of
                         None \<Rightarrow> -2
                       | Some (day, sec) \<Rightarrow>
                           if 0 < day then 1 else if day < 0 then -1 else if 0 < sec then 1 else if sec < 0 then -1 else 0)
               }))"

section \<open>Time, the choice of the two\<close>

definition ASN1_TIME_adj ::
    "allocator \<Rightarrow> asn1_string_st option \<Rightarrow> int \<Rightarrow> int \<Rightarrow> int \<Rightarrow> asn1_string_st option option" where
  "ASN1_TIME_adj m s t offset_day offset_sec =
     do {
       r \<leftarrow> adjusted_time t offset_day offset_sec;
       case r of
         None \<Rightarrow> Some None
       | Some ts \<Rightarrow>
           if 50 \<le> tm_year ts \<and> tm_year ts < 150 then ASN1_UTCTIME_adj m s t offset_day offset_sec
           else ASN1_GENERALIZEDTIME_adj m s t offset_day offset_sec
     }"

definition ASN1_TIME_set :: "allocator \<Rightarrow> asn1_string_st option \<Rightarrow> int \<Rightarrow> asn1_string_st option option" where
  "ASN1_TIME_set m s t = ASN1_TIME_adj m s t 0 0"

definition ASN1_TIME_check :: "asn1_string_st \<Rightarrow> unit parse" where
  "ASN1_TIME_check t =
     (if as_type t = V_ASN1_GENERALIZEDTIME then ASN1_GENERALIZEDTIME_check t
      else if as_type t = V_ASN1_UTCTIME then ASN1_UTCTIME_check t
      else Reject)"

text \<open>
  \<open>out\<close> is \<open>*out\<close>, \<open>None\<close> when that or \<open>out\<close> is NULL. The result is the object that holds the time, or NULL.
\<close>

definition ASN1_TIME_to_generalizedtime ::
    "allocator \<Rightarrow> asn1_string_st \<Rightarrow> asn1_string_st option \<Rightarrow> asn1_string_st option option" where
  "ASN1_TIME_to_generalizedtime m t out =
     (case ASN1_TIME_check t of
        Fault \<Rightarrow> None
      | Reject \<Rightarrow> Some None
      | Done _ \<Rightarrow>
          (case (case out of None \<Rightarrow> ASN1_STRING_type_new m V_ASN1_GENERALIZEDTIME | Some r \<Rightarrow> Some r) of
             None \<Rightarrow> Some None
           | Some ret \<Rightarrow>
               if as_type t = V_ASN1_GENERALIZEDTIME then
                 do {
                   (ok, ret) \<leftarrow> ASN1_STRING_set m ret (data_of t) (as_length t);
                   Some (if ok then Some ret else None)
                 }
               else
                 do {
                   n \<leftarrow> int_ck (as_length t + 2);
                   (ok, ret) \<leftarrow> ASN1_STRING_set m ret None n;
                   if \<not> ok then Some None
                   else
                     do {
                       newlen \<leftarrow> int_ck (n + 1);
                       (str, _) \<leftarrow> OPENSSL_strlcpy (mem_of ret) (if 53 \<le> mem_of t ! 0 then [49, 57, 0] else [50, 48, 0]) (nat newlen);
                       (str, _) \<leftarrow> OPENSSL_strlcat str (mem_of t) (nat newlen);
                       Some (Some (ret\<lparr>as_data := map_option (blk_data_update (\<lambda>_. str)) (as_data ret)\<rparr>))
                     }
                 }))"

definition ASN1_TIME_set_string ::
    "allocator \<Rightarrow> asn1_string_st option \<Rightarrow> u8 list \<Rightarrow> (bool \<times> asn1_string_st option) option" where
  "ASN1_TIME_set_string m s str =
     do {
       n \<leftarrow> strlen str;
       len \<leftarrow> int_ck (int n);
       r \<leftarrow> (case ASN1_TIME_check (on_stack V_ASN1_UTCTIME len str) of
              Fault \<Rightarrow> None
            | Done _ \<Rightarrow> Some (Some V_ASN1_UTCTIME)
            | Reject \<Rightarrow>
                (case ASN1_TIME_check (on_stack V_ASN1_GENERALIZEDTIME len str) of
                   Fault \<Rightarrow> None
                 | Done _ \<Rightarrow> Some (Some V_ASN1_GENERALIZEDTIME)
                 | Reject \<Rightarrow> Some None));
       case r of
         None \<Rightarrow> Some (False, s)
       | Some ty \<Rightarrow>
           (case s of
              None \<Rightarrow> Some (True, None)
            | Some s \<Rightarrow> map_option (\<lambda>(ok, s'). (ok, Some s')) (ASN1_STRING_copy m s (Some (on_stack ty len str))))
     }"

text \<open>\<open>now_t\<close> is what \<open>time\<close> gives; it is used for a NULL time.\<close>

definition asn1_time_to_tm :: "int \<Rightarrow> tm \<Rightarrow> asn1_string_st option \<Rightarrow> tm option parse" where
  "asn1_time_to_tm now_t tm t =
     (case t of
        None \<Rightarrow> (case OPENSSL_gmtime now_t of None \<Rightarrow> Reject | Some tm \<Rightarrow> Done (Some tm))
      | Some t \<Rightarrow>
          if as_type t = V_ASN1_UTCTIME then asn1_utctime_to_tm (Some tm) t
          else if as_type t = V_ASN1_GENERALIZEDTIME then asn1_generalizedtime_to_tm (Some tm) t
          else Reject)"

definition ASN1_TIME_diff ::
    "int \<Rightarrow> tm \<Rightarrow> tm \<Rightarrow> asn1_string_st option \<Rightarrow> asn1_string_st option \<Rightarrow> (int \<times> int) option option" where
  "ASN1_TIME_diff now_t tm_from tm_to from to =
     (case asn1_time_to_tm now_t tm_from from of
        Fault \<Rightarrow> None
      | Reject \<Rightarrow> Some None
      | Done tm_from \<Rightarrow>
          (case asn1_time_to_tm now_t tm_to to of
             Fault \<Rightarrow> None
           | Reject \<Rightarrow> Some None
           | Done tm_to \<Rightarrow> OPENSSL_gmtime_diff (the tm_from) (the tm_to)))"

end
