(* ===== verification/Time_Facts.thy ===== *)
theory Time_Facts
  imports Time_Support
begin

text \<open>
  The conversions between dates and Julian days are those of the Gregorian calendar, inverse to each
  other; adding to a time and the difference of two times are addition and subtraction of seconds.
\<close>

section \<open>Division\<close>

lemma div_bounds: "0 \<le> x \<Longrightarrow> x \<le> n \<Longrightarrow> 0 < k \<Longrightarrow> 0 \<le> x div k \<and> x div k \<le> n div k" for k :: int
  by (simp add: pos_imp_zdiv_nonneg_iff zdiv_mono1)

lemma mod4_cases:
  fixes k :: int
  obtains q r where "k = 4 * q + r" "r = 0 \<or> r = 1 \<or> r = 2 \<or> r = 3"
proof
  show "k = 4 * (k div 4) + k mod 4" by simp
  have "0 \<le> k mod 4" "k mod 4 < 4" by simp_all
  then show "k mod 4 = 0 \<or> k mod 4 = 1 \<or> k mod 4 = 2 \<or> k mod 4 = 3" by linarith
qed

section \<open>From dates to days\<close>

lemma three_quarters: "(3 * (q + 1)) div 4 = q - q div 4" for q :: int
proof -
  obtain k r where k: "q = 4 * k + r" "r = 0 \<or> r = 1 \<or> r = 2 \<or> r = 3" by (rule mod4_cases)
  have "(3 * (q + 1)) div 4 = 3 * k + (3 * (r + 1)) div 4"
    using div_mult_self2 [of 4 "3 * (r + 1)" "3 * k"] by (simp add: k(1) algebra_simps)
  moreover have "q div 4 = k + r div 4" using div_mult_self2 [of 4 r k] by (simp add: k(1) algebra_simps)
  ultimately show ?thesis using k by auto
qed

lemma gregorian_years:
  "(1461 * (z + 4800)) div 4 - (3 * ((z + 4900) div 100)) div 4 = 365 * z + leap_days z + 1753164"
proof -
  have a: "(1461 * (z + 4800)) div 4 = 365 * z + z div 4 + 1753200"
    using div_mult_self2 [of 4 z "365 * z + 1753200"] by (simp add: algebra_simps)
  have "(z + 4900) div 100 = z div 100 + 49" using div_mult_self2 [of 100 z 49] by simp
  then have "(3 * ((z + 4900) div 100)) div 4 = (3 * (z div 100 + 1) + 4 * 36) div 4" by simp
  also have "\<dots> = (3 * (z div 100 + 1)) div 4 + 36" by (subst div_mult_self2) simp_all
  also have "\<dots> = z div 100 - z div 400 + 36" by (simp add: three_quarters zdiv_zmult2_eq [symmetric])
  finally have b: "(3 * ((z + 4900) div 100)) div 4 = z div 100 - z div 400 + 36" .
  show ?thesis unfolding a b leap_days_def by (simp only: algebra_simps)
qed

text \<open>The year and the month counted from March, as both algorithms do.\<close>

definition march_year :: "int \<Rightarrow> int \<Rightarrow> int" where
  "march_year y m = (if m \<le> 2 then y - 1 else y)"

definition march_month :: "int \<Rightarrow> int" where
  "march_month m = (if m \<le> 2 then m + 10 else m - 2)"

lemma day_number_march:
  assumes "1 \<le> m" "m \<le> 12"
  shows "day_number (y, m, d) =
    365 * march_year y m + leap_days (march_year y m) + 1721089 + (367 * march_month m) div 12 + d"
  using assms
  by (rule month_cases) (simp_all add: march_year_def march_month_def days_before_month_simps leap_days_pred [of y] del: upto_Nil)

lemma month_quotient: "1 \<le> m \<Longrightarrow> m \<le> 12 \<Longrightarrow> (m - 14) sdiv 12 = (if m \<le> 2 then - 1 else 0)" for m :: int
  by (erule (1) month_cases) (simp_all add: signed_divide_int_def)

lemma march_month_bounds: "1 \<le> m \<Longrightarrow> m \<le> 12 \<Longrightarrow> 1 \<le> march_month m \<and> march_month m \<le> 12"
  by (auto simp: march_month_def)

lemma date_to_julian_eq:
  assumes y: "- 4799 \<le> y" "y \<le> 1400000" and m: "1 \<le> m" "m \<le> 12" and d: "1 \<le> d" "d \<le> 31"
  shows "date_to_julian y m d = Some (day_number (y, m, d))"
proof -
  let ?q = "(m - 14) sdiv 12" and ?z = "march_year y m" and ?k = "march_month m"
  have q: "- 1 \<le> ?q" "?q \<le> 0" "y + ?q = ?z" "m - 2 - 12 * ?q = ?k"
    using month_quotient [OF m] by (simp_all add: march_year_def march_month_def)
  have k: "1 \<le> ?k" "?k \<le> 12" using march_month_bounds [OF m] by simp_all
  have z: "- 4800 \<le> ?z" "?z \<le> 1400000" using y by (simp_all add: march_year_def)
  define a b c where "a = (1461 * (?z + 4800)) div 4" and "b = (367 * ?k) div 12" and "c = (3 * ((?z + 4900) div 100)) div 4"
  have c1: "0 \<le> (?z + 4900) div 100" "(?z + 4900) div 100 \<le> 14049"
    using div_bounds [of "?z + 4900" 1404900 100] z by simp_all
  have a: "0 \<le> a" "a \<le> 513103200" unfolding a_def using div_bounds [of "1461 * (?z + 4800)" 2052412800 4] z by simp_all
  have b: "0 \<le> b" "b \<le> 367" unfolding b_def using div_bounds [of "367 * ?k" 4404 12] k by simp_all
  have c: "0 \<le> c" "c \<le> 10537" unfolding c_def using div_bounds [of "3 * ((?z + 4900) div 100)" 42150 4] c1 by simp_all
  have s: "(1461 * (?z + 4800)) sdiv 4 = a" "(367 * ?k) sdiv 12 = b" "(?z + 4900) sdiv 100 = (?z + 4900) div 100"
      "(3 * ((?z + 4900) div 100)) sdiv 4 = c"
    using z k c1 by (simp_all add: sdiv_pos a_def b_def c_def)
  have n: "day_number (y, m, d) = a + b - c + d - 32075"
    using gregorian_years [of ?z] by (simp add: day_number_march [OF m] a_def b_def c_def del: day_number.simps)
  have y2: "y + 4800 + ?q = ?z + 4800" "y + 4900 + ?q = ?z + 4900" using q(3) by simp_all
  have ck: "int_ck (1461 * (?z + 4800)) = Some (1461 * (?z + 4800))" using z by (intro int_ck_Some) simp_all
  show ?thesis unfolding date_to_julian_def n
    using y m d q(1,2) z k a b c c1
    by (simp add: Let_def int_ck_Some y2 q(4) s ck del: distrib_left_numeral)
qed


section \<open>From days to dates\<close>

text \<open>The three divisions: the century, the year of the century and the month.\<close>

lemma century_of_day:
  fixes K t :: int
  assumes t: "0 \<le> t" "t \<le> 36524" "t = 36524 \<Longrightarrow> K mod 4 = 0" and L: "L = 36525 * K - (3 * K) div 4 + t"
  shows "(4 * L) div 146097 = K" "L - (146097 * K + 3) div 4 = t"
proof -
  obtain k r where k: "K = 4 * k + r" "r = 0 \<or> r = 1 \<or> r = 2 \<or> r = 3" by (rule mod4_cases)
  have q: "(3 * K) div 4 = 3 * k + (3 * r) div 4"
    using div_mult_self2 [of 4 "3 * r" "3 * k"] by (simp add: k(1) algebra_simps)
  have q': "(146097 * K + 3) div 4 = 146097 * k + (146097 * r + 3) div 4"
    using div_mult_self2 [of 4 "146097 * r + 3" "146097 * k"] by (simp add: k(1) algebra_simps)
  have t': "t \<le> 36523" if "r \<noteq> 0"
  proof (rule ccontr)
    assume "\<not> t \<le> 36523"
    then have "K mod 4 = 0" using t by simp
    then show False using k that by auto
  qed
  have L': "L = 146097 * k + (36525 * r - (3 * r) div 4) + t" using L q k(1) by simp
  show "L - (146097 * K + 3) div 4 = t" using k(2) unfolding L' q' by auto
  show "(4 * L) div 146097 = K"
  proof (rule int_div_pos_eq [where r = "4 * L - 146097 * K"])
    show "0 \<le> 4 * L - 146097 * K" "4 * L - 146097 * K < 146097"
      using k t(1,2) t' unfolding L' by auto
  qed simp
qed

lemma year_of_day:
  fixes Y e :: int
  assumes Y: "0 \<le> Y" "Y < 100" and e: "0 \<le> e" "e \<le> 365" "e = 365 \<Longrightarrow> Y mod 4 = 3" and t: "t = (1461 * Y) div 4 + e"
  shows "(4000 * (t + 1)) div 1461001 = Y"
proof -
  obtain a b where a: "Y = 4 * a + b" "b = 0 \<or> b = 1 \<or> b = 2 \<or> b = 3" by (rule mod4_cases)
  have "(1461 * Y) div 4 = 1461 * a + (1461 * b) div 4"
    using div_mult_self2 [of 4 "1461 * b" "1461 * a"] by (simp add: a(1) algebra_simps)
  then have t': "t = 1461 * a + 365 * b + e" using a(2) t by auto
  have e': "e \<le> 364" if "b \<noteq> 3"
  proof (rule ccontr)
    assume "\<not> e \<le> 364"
    then have "Y mod 4 = 3" using e by simp
    then show False using a that by auto
  qed
  show ?thesis
  proof (rule int_div_pos_eq [where r = "4000 * (t + 1) - 1461001 * Y"])
    show "0 \<le> 4000 * (t + 1) - 1461001 * Y" "4000 * (t + 1) - 1461001 * Y < 1461001"
      using a Y e(1,2) e' unfolding t' by auto
  qed simp
qed

lemma month_of_day:
  fixes k d :: int
  assumes k: "1 \<le> k" "k \<le> 12" and d: "1 \<le> d" "d \<le> 31" "(367 * k) div 12 + d \<le> (367 * (k + 1)) div 12"
  shows "(80 * ((367 * k) div 12 + d)) div 2447 = k" "(2447 * k) div 80 = (367 * k) div 12"
proof -
  show "(2447 * k) div 80 = (367 * k) div 12" using k by (rule month_cases) simp_all
  show "(80 * ((367 * k) div 12 + d)) div 2447 = k"
    by (rule int_div_pos_eq [where r = "80 * ((367 * k) div 12 + d) - 2447 * k"]; use k in \<open>rule month_cases\<close>) (use d in simp_all)
qed

lemma month_lengths:
  assumes "valid_date (y, m, d)"
  shows "(367 * march_month m) div 12 + d \<le> (367 * (march_month m + 1)) div 12"
    "(367 * march_month m) div 12 + d - 31 \<le> 365"
    "(367 * march_month m) div 12 + d - 31 = 365 \<Longrightarrow> m = 2 \<and> leap_year y"
proof -
  have m: "1 \<le> m" "m \<le> 12" and d: "1 \<le> d" "d \<le> days_in_month y m" using assms by simp_all
  from m have "(367 * march_month m) div 12 + d \<le> (367 * (march_month m + 1)) div 12 \<and>
      (367 * march_month m) div 12 + d - 31 \<le> 365 \<and> ((367 * march_month m) div 12 + d - 31 = 365 \<longrightarrow> m = 2 \<and> leap_year y)"
    by (rule month_cases; use d in \<open>simp add: march_month_def days_in_month_def split: if_splits\<close>)
  then show "(367 * march_month m) div 12 + d \<le> (367 * (march_month m + 1)) div 12"
    "(367 * march_month m) div 12 + d - 31 \<le> 365"
    "(367 * march_month m) div 12 + d - 31 = 365 \<Longrightarrow> m = 2 \<and> leap_year y" by blast+
qed


lemma march_decompose:
  assumes v: "valid_date (y, m, d)" and y: "- 4799 \<le> y"
  obtains K t Y e where
    "day_number (y, m, d) + 68569 = 36525 * K - (3 * K) div 4 + t" "0 \<le> t" "t \<le> 36524" "t = 36524 \<longrightarrow> K mod 4 = 0"
    "0 \<le> Y" "Y < 100" "0 \<le> e" "e \<le> 365" "e = 365 \<longrightarrow> Y mod 4 = 3" "t = (1461 * Y) div 4 + e"
    "e = (367 * march_month m) div 12 + d - 31" "march_year y m = 100 * (K - 49) + Y"
proof -
  have m: "1 \<le> m" "m \<le> 12" and d: "1 \<le> d" using v by simp_all
  define z K Y e t where "z = march_year y m" and "K = (z + 4900) div 100" and "Y = (z + 4900) mod 100"
    and "e = (367 * march_month m) div 12 + d - 31" and "t = (1461 * Y) div 4 + e"
  have zK: "z + 4900 = 100 * K + Y" by (simp add: K_def Y_def)
  have Y: "0 \<le> Y" "Y < 100" by (simp_all add: Y_def)
  have "30 \<le> (367 * march_month m) div 12"
    using div_bounds [of 367 "367 * march_month m" 12] march_month_bounds [OF m] by simp
  then have e: "0 \<le> e" "e \<le> 365" using month_lengths(2) [OF v] d by (simp_all add: e_def)
  have leap: "y = 100 * (K - 49) + Y + 1" "leap_year y" if "e = 365"
    using month_lengths(3) [OF v] that zK by (simp_all add: e_def z_def march_year_def)
  have Y3: "Y mod 4 = 3" if "e = 365"
  proof -
    have y: "y = Y + 1 + 4 * (25 * (K - 49))" using leap(1) [OF that] by linarith
    have "(Y + 1) mod 4 = y mod 4" unfolding y by (rule mod_mult_self2 [symmetric])
    then have "(Y + 1) mod 4 = 0" using leap(2) [OF that] by (simp add: leap_year_def)
    then show ?thesis by presburger
  qed
  have t36: "t \<le> 36159 + e" using div_bounds [of "1461 * Y" 144639 4] Y by (simp add: t_def)
  have K4: "K mod 4 = 0" if "t = 36524"
  proof -
    have e': "e = 365" using t36 e that by simp
    have "(1461 * Y) div 4 = 36159" using that e' by (simp add: t_def)
    then have "\<not> Y \<le> 98" using div_bounds [of "1461 * Y" 143178 4] Y by auto
    then have "Y = 99" using Y by simp
    then have "y = 100 * (K - 48)" using leap(1) [OF e'] by simp
    then have "(100 * (K - 48)) mod 400 = 0" using leap(2) [OF e'] by (simp add: leap_year_def)
    moreover have "(100 * (K - 48)) mod 400 = 100 * ((K - 48) mod 4)" using mult_mod_right [of 100 "K - 48" 4] by simp
    ultimately have "(K - 48) mod 4 = 0" by simp
    then show ?thesis by presburger
  qed
  have "0 \<le> (1461 * Y) div 4" using Y by (simp add: pos_imp_zdiv_nonneg_iff)
  then have t: "0 \<le> t" "t \<le> 36524" using e t36 by (simp_all add: t_def)
  have "(1461 * (z + 4800)) div 4 = 36525 * (K - 1) + (1461 * Y) div 4"
    using div_mult_self2 [of 4 "1461 * Y" "36525 * (K - 1)"] zK by (simp add: algebra_simps)
  then have "day_number (y, m, d) + 68569 = 36525 * K - (3 * K) div 4 + t"
    using gregorian_years [of z] by (simp add: day_number_march [OF m] z_def [symmetric] K_def [symmetric] t_def e_def del: day_number.simps)
  then show thesis
    using that [of K t Y e] t K4 Y e Y3 zK by (simp add: t_def e_def z_def)
qed

lemma julian_to_date_eq:
  assumes v: "valid_date (y, m, d)" and y: "- 4799 \<le> y" "y < 2 ^ 31"
  shows "julian_to_date (day_number (y, m, d)) = Some (y, m, d)"
proof -
  obtain K t Y e where L: "day_number (y, m, d) + 68569 = 36525 * K - (3 * K) div 4 + t"
    and t: "0 \<le> t" "t \<le> 36524" "t = 36524 \<longrightarrow> K mod 4 = 0"
    and Y: "0 \<le> Y" "Y < 100" and e: "0 \<le> e" "e \<le> 365" "e = 365 \<longrightarrow> Y mod 4 = 3"
    and te: "t = (1461 * Y) div 4 + e" "e = (367 * march_month m) div 12 + d - 31" "march_year y m = 100 * (K - 49) + Y"
    by (rule march_decompose [OF v y(1)])
  let ?L = "day_number (y, m, d) + 68569" and ?k = "march_month m"
  have m: "1 \<le> m" "m \<le> 12" "1 \<le> d" "d \<le> 31" using v days_in_month_bounds(2) [of y m] by simp_all
  have k: "1 \<le> ?k" "?k \<le> 12" using march_month_bounds [OF m(1,2)] by simp_all
  have K: "0 \<le> K" "K \<le> 21474886" using te(3) y Y by (simp_all add: march_year_def split: if_splits)
  have K3: "0 \<le> (3 * K) div 4" "(3 * K) div 4 \<le> 16106164" using K div_bounds [of "3 * K" 64424658 4] by simp_all
  note c = century_of_day [OF t(1,2) t(3) [rule_format] L]
  note yr = year_of_day [OF Y e(1,2) e(3) [rule_format] te(1)]
  note mo = month_of_day [OF k m(3,4) month_lengths(1) [OF v]]
  have ge: "0 \<le> ?L" "?L < 1000000000000" using L K K3 t by simp_all
  have y4: "0 \<le> (1461 * Y) div 4" "(1461 * Y) div 4 \<le> 36159" using div_bounds [of "1461 * Y" 144639 4] Y by simp_all
  have md: "t - (1461 * Y) div 4 + 31 = (367 * ?k) div 12 + d" using te by simp
  have b: "30 \<le> (367 * ?k) div 12" "(367 * ?k) div 12 \<le> 367"
    using div_bounds [of 367 "367 * ?k" 12] div_bounds [of "367 * ?k" 4404 12] k by simp_all
  have j11: "?k div 11 = (if m \<le> 2 then 1 else 0)" using m(1,2) by (rule month_cases) (simp_all add: march_month_def)
  have s: "4 * ?L sdiv 146097 = K" "(146097 * K + 3) sdiv 4 = (146097 * K + 3) div 4"
    "4000 * (t + 1) sdiv 1461001 = Y" "(1461 * Y) sdiv 4 = (1461 * Y) div 4"
    "80 * ((367 * ?k) div 12 + d) sdiv 2447 = ?k" "2447 * ?k sdiv 80 = (367 * ?k) div 12" "?k sdiv 11 = ?k div 11"
    using ge K t Y b m k c(1) yr mo by (simp_all only: sdiv_pos mult_nonneg_nonneg add_nonneg_nonneg zero_le_numeral)
  have ym: "100 * (K - 49) + Y + ?k div 11 = y" "?k + 2 - 12 * (?k div 11) = m"
    unfolding j11 using te(3) by (auto simp: march_year_def march_month_def)
  have ck: "long_ck ?L = Some ?L" "long_ck (4 * ?L) = Some (4 * ?L)" by (intro long_ck_Some; use ge in simp)+
  have ck': "long_ck (146097 * K + 3) = Some (146097 * K + 3)" "long_ck t = Some t"
      "long_ck (4000 * (t + 1)) = Some (4000 * (t + 1))" "long_ck (1461 * Y) = Some (1461 * Y)"
      "long_ck ((367 * ?k) div 12 + d) = Some ((367 * ?k) div 12 + d)"
      "long_ck (80 * ((367 * ?k) div 12 + d)) = Some (80 * ((367 * ?k) div 12 + d))"
      "long_ck (2447 * ?k) = Some (2447 * ?k)" "long_ck y = Some y"
    by (intro long_ck_Some; use K t Y b m k y in simp)+
  have conv: "to_int y = y" "to_int m = m" "to_int d = d" by (intro to_int_id; use m y in simp)+
  show ?thesis
    unfolding julian_to_date_def
    by (simp only: ck ck' conv s c(2) md mo(2) ym Let_def Option.bind.simps add_diff_cancel_left' prod.case)
qed


lemma leap_days_bounds: "97 * z - 799 \<le> 400 * leap_days z" "400 * leap_days z \<le> 97 * z + 399"
proof -
  define a b c where "a = z div 4" and "b = z div 100" and "c = z div 400"
  have "z = 4 * a + z mod 4" "0 \<le> z mod 4" "z mod 4 < 4" by (simp_all add: a_def)
  moreover have "z = 100 * b + z mod 100" "0 \<le> z mod 100" "z mod 100 < 100" by (simp_all add: b_def)
  moreover have "z = 400 * c + z mod 400" "0 \<le> z mod 400" "z mod 400 < 400" by (simp_all add: c_def)
  moreover have "leap_days z = a - b + c" by (simp add: leap_days_def a_def b_def c_def)
  ultimately show "97 * z - 799 \<le> 400 * leap_days z" "400 * leap_days z \<le> 97 * z + 399" by linarith+
qed

lemma day_number_bounds:
  assumes "1 \<le> m" "m \<le> 12" "1 \<le> d" "d \<le> 31"
  shows "400 * (1721423 + 365 * (y - 1)) + 97 * (y - 1) - 799 \<le> 400 * day_number (y, m, d)"
    "400 * day_number (y, m, d) \<le> 400 * (1721823 + 365 * (y - 1)) + 97 * (y - 1) + 399"
proof -
  have "0 \<le> days_before_month y m" "days_before_month y m \<le> 335"
    using assms(1,2) by (elim month_cases; simp add: days_before_month_simps)+
  then show "400 * (1721423 + 365 * (y - 1)) + 97 * (y - 1) - 799 \<le> 400 * day_number (y, m, d)"
    "400 * day_number (y, m, d) \<le> 400 * (1721823 + 365 * (y - 1)) + 97 * (y - 1) + 399"
    using leap_days_bounds [of "y - 1"] assms by simp_all
qed

text \<open>Every day from day 0 on is the day of a date.\<close>

lemma date_of_day:
  assumes "0 \<le> n" "n < 100000000000"
  obtains y m d where "valid_date (y, m, d)" "day_number (y, m, d) = n" "- 4799 \<le> y" "y < 2 ^ 31"
proof -
  obtain y m d where t: "date_after (n - 2440588) = (y, m, d)" by (rule prod_cases3)
  have v: "valid_date (y, m, d)" and n: "day_number (y, m, d) = n"
    using valid_date_after [of "n - 2440588"] day_number_after [of "n - 2440588"] by (simp_all add: t)
  have "1 \<le> m" "m \<le> 12" "1 \<le> d" "d \<le> 31" using v days_in_month_bounds(2) [of y m] by simp_all
  from day_number_bounds [OF this, of y] have "- 4799 \<le> y" "y < 2 ^ 31" using assms unfolding n by simp_all
  with v n show thesis by (rule that)
qed

lemma julian_inverse:
  assumes "date_after k = (y, m, d)" "- 4799 \<le> y" "y \<le> 1400000"
  shows "date_to_julian y m d = Some (2440588 + k) \<and> julian_to_date (2440588 + k) = Some (y, m, d)"
proof -
  have v: "valid_date (y, m, d)" and n: "day_number (y, m, d) = 2440588 + k"
    using valid_date_after [of k] day_number_after [of k] by (simp_all add: assms(1))
  then have "1 \<le> m" "m \<le> 12" "1 \<le> d" "d \<le> 31" using days_in_month_bounds(2) [of y m] by simp_all
  from date_to_julian_eq [OF assms(2,3) this] julian_to_date_eq [OF v assms(2)] assms(3) show ?thesis
    by (simp add: n del: day_number.simps)
qed

section \<open>Times\<close>

definition tm_date :: "tm \<Rightarrow> date" where
  "tm_date tm = (tm_year tm + 1900, tm_mon tm + 1, tm_mday tm)"

definition time_of_day :: "tm \<Rightarrow> int" where
  "time_of_day tm = tm_hour tm * 3600 + tm_min tm * 60 + tm_sec tm"

text \<open>Seconds since the beginning of Julian day 0.\<close>

definition tm_secs :: "tm \<Rightarrow> int" where
  "tm_secs tm = 86400 * day_number (tm_date tm) + time_of_day tm"

definition EPOCH :: int where
  "EPOCH = 86400 * 2440588"

text \<open>Fields in their ranges, the day of a month up to 31 whatever the month; and proper dates.\<close>

definition tm_ok :: "tm \<Rightarrow> bool" where
  "tm_ok tm \<longleftrightarrow> 0 \<le> tm_sec tm \<and> tm_sec tm \<le> 59 \<and> 0 \<le> tm_min tm \<and> tm_min tm \<le> 59 \<and> 0 \<le> tm_hour tm \<and> tm_hour tm \<le> 23 \<and>
     1 \<le> tm_mday tm \<and> tm_mday tm \<le> 31 \<and> 0 \<le> tm_mon tm \<and> tm_mon tm \<le> 11 \<and>
     - 4700 \<le> tm_year tm + 1900 \<and> tm_year tm + 1900 \<le> 1400000"

definition tm_valid :: "tm \<Rightarrow> bool" where
  "tm_valid tm \<longleftrightarrow> tm_ok tm \<and> valid_date (tm_date tm)"

lemma tm_ok_bounds:
  assumes "tm_ok tm"
  shows "0 \<le> time_of_day tm" "time_of_day tm < 86400" "0 \<le> day_number (tm_date tm)" "day_number (tm_date tm) < 600000000"
proof -
  show "0 \<le> time_of_day tm" "time_of_day tm < 86400" using assms by (auto simp: tm_ok_def time_of_day_def)
  show "0 \<le> day_number (tm_date tm)" "day_number (tm_date tm) < 600000000"
    using day_number_bounds [of "tm_mon tm + 1" "tm_mday tm" "tm_year tm + 1900"] assms
    by (auto simp: tm_ok_def tm_date_def simp del: day_number.simps)
qed

lemma sdiv_day:
  fixes x :: int
  obtains r where "x = x sdiv 86400 * 86400 + r" "- 86400 < r" "r < 86400" "\<bar>x sdiv 86400 * 86400\<bar> \<le> \<bar>x\<bar>"
proof -
  have b: "k * 86400 \<le> j \<and> j - k * 86400 < 86400 \<and> 0 \<le> k" if "0 \<le> j" "k = j div 86400" for j k :: int
    using that pos_mod_bound [of 86400 j] pos_mod_sign [of 86400 j] minus_mult_div_eq_mod [of j 86400]
    by (simp add: pos_imp_zdiv_nonneg_iff mult.commute)
  show thesis
  proof (cases "0 \<le> x")
    case True
    then show ?thesis using b [of x] that [of "x - x sdiv 86400 * 86400"] by (simp add: sdiv_pos)
  next
    case False
    then have "x sdiv 86400 = - ((- x) div 86400)" using sdiv_pos [of "- x" 86400] by simp
    then show ?thesis using b [of "- x"] False that [of "x - x sdiv 86400 * 86400"] by simp
  qed
qed


text \<open>The Julian day and the second of the day of a time with an offset.\<close>

lemma div_mod_day: "0 \<le> s \<Longrightarrow> s < 86400 \<Longrightarrow> t = 86400 * n + s \<Longrightarrow> t div 86400 = n \<and> t mod 86400 = s" for t :: int
  by (simp add: div_pos_pos_trivial)

lemma julian_adj_eq:
  assumes tm: "tm_ok tm" and days: "\<bar>off_day\<bar> \<le> 2000000000" and secs: "\<bar>offset_sec\<bar> < 2 ^ 31"
    and secs_all: "secs_all = tm_secs tm + 86400 * off_day + offset_sec"
  shows "julian_adj tm off_day offset_sec = Some (if secs_all < 0 then None else Some (secs_all div 86400, secs_all mod 86400))"
proof -
  obtain r where r: "offset_sec = offset_sec sdiv 86400 * 86400 + r" "- 86400 < r" "r < 86400"
      "\<bar>offset_sec sdiv 86400 * 86400\<bar> \<le> \<bar>offset_sec\<bar>"
    by (rule sdiv_day)
  define q where "q = offset_sec sdiv 86400"
  define n tod where "n = day_number (tm_date tm)" and "tod = time_of_day tm"
  have q: "\<bar>q * 86400\<bar> < 2 ^ 31" "\<bar>q\<bar> \<le> 24855" "to_int q = q" "offset_sec - q * 86400 = r" "to_int r = r"
    using r secs by (auto simp: q_def intro!: to_int_id)
  note b = tm_ok_bounds [OF tm, folded n_def tod_def]
  have f: "0 \<le> tm_hour tm" "tm_hour tm \<le> 23" "0 \<le> tm_min tm" "tm_min tm \<le> 59" "0 \<le> tm_sec tm" "tm_sec tm \<le> 59"
    using tm by (simp_all add: tm_ok_def)
  have y: "- 4700 \<le> tm_year tm + 1900" "tm_year tm + 1900 \<le> 1400000" "0 \<le> tm_mon tm" "tm_mon tm \<le> 11"
    using tm by (simp_all add: tm_ok_def)
  have jd: "date_to_julian (tm_year tm + 1900) (tm_mon tm + 1) (tm_mday tm) = Some n"
    using date_to_julian_eq [of "tm_year tm + 1900" "tm_mon tm + 1" "tm_mday tm"] tm by (simp add: tm_ok_def n_def tm_date_def)
  have t: "secs_all = 86400 * (n + q + off_day) + (r + tod)"
    using secs_all r(1) by (simp add: q_def [symmetric] tm_secs_def n_def tod_def)
  have ck1: "int_ck (q * 86400) = Some (q * 86400)" "int_ck (q + off_day) = Some (q + off_day)"
      "int_ck (q + off_day + 1) = Some (q + off_day + 1)" "int_ck (q + off_day - 1) = Some (q + off_day - 1)"
    using q(1,2) days by (auto simp: int_ck_def abs_if split: if_splits)
  have ck2: "int_ck (tm_hour tm * 3600) = Some (tm_hour tm * 3600)" "int_ck (tm_min tm * 60) = Some (tm_min tm * 60)"
      "int_ck (tm_hour tm * 3600 + tm_min tm * 60) = Some (tm_hour tm * 3600 + tm_min tm * 60)"
    using f by (simp_all add: int_ck_def)
  have ck3: "int_ck tod = Some tod" "int_ck (r + tod) = Some (r + tod)" using r(2,3) b(1,2) by (simp_all add: int_ck_def)
  have ck4: "int_ck (tm_year tm + 1900) = Some (tm_year tm + 1900)" "int_ck (tm_mon tm + 1) = Some (tm_mon tm + 1)"
    using y by (simp_all add: int_ck_def)
  note ck = ck1 ck2 ck3 ck4
  have lck: "long_ck r = Some r" using r(2,3) by (simp add: long_ck_def)
  have lck2: "long_ck (n + k) = Some (n + k)" if "\<bar>k\<bar> < 2 ^ 32" for k
    using b(3,4) that by (simp add: long_ck_def abs_if split: if_splits)
  have k: "\<bar>q + off_day\<bar> < 2 ^ 32" "\<bar>q + off_day + 1\<bar> < 2 ^ 32" "\<bar>q + off_day - 1\<bar> < 2 ^ 32" using q(2) days by simp_all
  have tod: "tm_hour tm * 3600 + tm_min tm * 60 + tm_sec tm = tod" by (simp add: tod_def time_of_day_def)
  consider "86400 \<le> r + tod" | "0 \<le> r + tod" "r + tod < 86400" | "r + tod < 0" by linarith
  then show ?thesis
  proof cases
    case 1
    then have d: "secs_all div 86400 = n + (q + off_day + 1) \<and> secs_all mod 86400 = r + tod - 86400"
      using r b by (intro div_mod_day) (simp_all add: t)
    then have "secs_all < 0 \<longleftrightarrow> n + (q + off_day + 1) < 0" by (metis pos_imp_zdiv_neg_iff zero_less_numeral)
    then show ?thesis unfolding julian_adj_def SECS_PER_DAY_def
      using 1 d by (simp add: Let_def q_def [symmetric] q(3-5) ck lck lck2 [OF k(2)] tod jd)
  next
    case 2
    then have d: "secs_all div 86400 = n + (q + off_day) \<and> secs_all mod 86400 = r + tod" by (intro div_mod_day) (simp_all add: t)
    then have "secs_all < 0 \<longleftrightarrow> n + (q + off_day) < 0" by (metis pos_imp_zdiv_neg_iff zero_less_numeral)
    then show ?thesis unfolding julian_adj_def SECS_PER_DAY_def
      using 2 d by (simp add: Let_def q_def [symmetric] q(3-5) ck lck lck2 [OF k(1)] tod jd)
  next
    case 3
    then have d: "secs_all div 86400 = n + (q + off_day - 1) \<and> secs_all mod 86400 = r + tod + 86400"
      using r b by (intro div_mod_day) (simp_all add: t)
    then have "secs_all < 0 \<longleftrightarrow> n + (q + off_day - 1) < 0" by (metis pos_imp_zdiv_neg_iff zero_less_numeral)
    then show ?thesis unfolding julian_adj_def SECS_PER_DAY_def
      using 3 d by (simp add: Let_def q_def [symmetric] q(3-5) ck lck lck2 [OF k(3)] tod jd)
  qed
qed


lemma date_unique:
  assumes "valid_date (y, m, d)" "valid_date (y', m', d')" "day_number (y, m, d) = day_number (y', m', d')"
    and "- 4799 \<le> y" "y < 2 ^ 31" "- 4799 \<le> y'" "y' < 2 ^ 31"
  shows "(y, m, d) = (y', m', d')"
  using julian_to_date_eq [OF assms(1,4,5)] julian_to_date_eq [OF assms(2,6,7)] unfolding assms(3) by simp

lemma seconds_split:
  assumes "0 \<le> s" "s < (86400 :: int)"
  shows "s sdiv 3600 * 3600 + (s sdiv 60) smod 60 * 60 + s smod 60 = s" "0 \<le> s sdiv 3600" "s sdiv 3600 \<le> 23"
    "0 \<le> (s sdiv 60) smod 60" "(s sdiv 60) smod 60 \<le> 59" "0 \<le> s smod 60" "s smod 60 \<le> 59"
proof -
  have d: "s sdiv 3600 = s div 3600" "s sdiv 60 = s div 60" "s smod 60 = s mod 60" "(s div 60) smod 60 = (s div 60) mod 60"
    using assms by (simp_all add: sdiv_pos smod_mod_positive pos_imp_zdiv_nonneg_iff)
  have "s div 3600 = s div 60 div 60" by (simp add: zdiv_zmult2_eq [symmetric])
  moreover have "s div 60 div 60 * 60 + (s div 60) mod 60 = s div 60" "s div 60 * 60 + s mod 60 = s" by simp_all
  ultimately show "s sdiv 3600 * 3600 + (s sdiv 60) smod 60 * 60 + s smod 60 = s" unfolding d by linarith
  show "0 \<le> s sdiv 3600" "s sdiv 3600 \<le> 23" "0 \<le> (s sdiv 60) smod 60" "(s sdiv 60) smod 60 \<le> 59" "0 \<le> s smod 60" "s smod 60 \<le> 59"
    unfolding d using assms div_bounds [of s 86399 3600] pos_mod_bound [of 60 s] pos_mod_bound [of 60 "s div 60"] by simp_all
qed

lemma OPENSSL_gmtime_adj_spec:
  assumes tm: "tm_ok tm" and days: "\<bar>off_day\<bar> \<le> 2000000000" and secs: "\<bar>offset_sec\<bar> < 2 ^ 31"
    and all: "secs_all = tm_secs tm + 86400 * off_day + offset_sec"
  obtains r where "OPENSSL_gmtime_adj tm off_day offset_sec = Some r"
    "\<And>tm'. r = Some tm' \<Longrightarrow> tm_valid tm' \<and> tm_secs tm' = secs_all \<and> 0 \<le> tm_year tm' \<and> tm_year tm' \<le> 8099"
    "\<And>t. r = None \<Longrightarrow> tm_valid t \<Longrightarrow> tm_secs t = secs_all \<Longrightarrow> tm_year t < 0 \<or> 8099 < tm_year t"
proof (cases "secs_all < 0")
  case True
  have "0 \<le> tm_secs t" if "tm_valid t" for t using tm_ok_bounds [of t] that by (simp add: tm_valid_def tm_secs_def)
  then have "tm_secs t \<noteq> secs_all" if "tm_valid t" for t using True that by force
  moreover have "OPENSSL_gmtime_adj tm off_day offset_sec = Some None"
    using julian_adj_eq [OF tm days secs all] True by (simp add: OPENSSL_gmtime_adj_def)
  ultimately show thesis using that by blast
next
  case False
  let ?n = "secs_all div 86400" and ?s = "secs_all mod 86400"
  have s: "0 \<le> ?s" "?s < 86400" and n0: "0 \<le> ?n" using False by (simp_all add: pos_imp_zdiv_nonneg_iff)
  have "secs_all < 8640000000000000" using tm_ok_bounds [OF tm] days secs unfolding all tm_secs_def by simp
  then have "?n < 100000000000" by (simp add: zdiv_mono1 div_less_iff_less_mult)
  then obtain y m d where v: "valid_date (y, m, d)" and n: "day_number (y, m, d) = ?n" and y: "- 4799 \<le> y" "y < 2 ^ 31"
    using date_of_day [OF n0] by blast
  let ?tm = "tm\<lparr>tm_year := y - 1900, tm_mon := m - 1, tm_mday := d,
    tm_hour := ?s sdiv 3600, tm_min := (?s sdiv 60) smod 60, tm_sec := ?s smod 60\<rparr>"
  have r: "OPENSSL_gmtime_adj tm off_day offset_sec = Some (if y < 1900 \<or> 9999 < y then None else Some ?tm)"
    using julian_adj_eq [OF tm days secs all] False julian_to_date_eq [OF v y]
    by (simp add: OPENSSL_gmtime_adj_def n del: day_number.simps)
  have day: "y = tm_year t + 1900" if "tm_valid t" "tm_secs t = secs_all" for t
  proof -
    have "secs_all div 86400 = day_number (tm_date t)"
      using div_mod_day [of "time_of_day t" secs_all "day_number (tm_date t)"] tm_ok_bounds [of t] that
      by (simp add: tm_valid_def tm_secs_def del: day_number.simps)
    then show ?thesis
      using date_unique [of y m d "tm_year t + 1900" "tm_mon t + 1" "tm_mday t"] v y n that
      by (simp add: tm_valid_def tm_date_def tm_ok_def del: day_number.simps valid_date.simps)
  qed
  show thesis
  proof (rule that [OF r])
    fix tm' assume t: "(if y < 1900 \<or> 9999 < y then None else Some ?tm) = Some tm'"
    then have y': "1900 \<le> y" "y \<le> 9999" and tm': "tm' = ?tm" by (auto split: if_splits)
    have "1 \<le> d" "d \<le> 31" "1 \<le> m" "m \<le> 12" using v days_in_month_bounds(2) [of y m] by simp_all
    then show "tm_valid tm' \<and> tm_secs tm' = secs_all \<and> 0 \<le> tm_year tm' \<and> tm_year tm' \<le> 8099"
      using seconds_split [OF s] v y' n
      by (simp add: tm' tm_valid_def tm_ok_def tm_date_def tm_secs_def time_of_day_def del: day_number.simps valid_date.simps)
  next
    fix t assume "(if y < 1900 \<or> 9999 < y then None else Some ?tm) = None" "tm_valid t" "tm_secs t = secs_all"
    then show "tm_year t < 0 \<or> 8099 < tm_year t" using day [of t] by (auto split: if_splits)
  qed
qed

lemma OPENSSL_gmtime_diff_spec:
  assumes "tm_ok from" "tm_ok to"
  obtains D S where "OPENSSL_gmtime_diff from to = Some (Some (D, S))" "86400 * D + S = tm_secs to - tm_secs from"
    "\<bar>S\<bar> < 86400" "0 < D \<Longrightarrow> 0 \<le> S" "D < 0 \<Longrightarrow> S \<le> 0"
proof -
  have j: "julian_adj t 0 0 = Some (Some (day_number (tm_date t), time_of_day t))" if "tm_ok t" for t
    using julian_adj_eq [OF that _ _ refl, of 0 0] tm_ok_bounds [OF that]
      div_mod_day [of "time_of_day t" "tm_secs t" "day_number (tm_date t)"]
    by (simp add: tm_secs_def)
  define a b s u where "a = day_number (tm_date from)" and "b = day_number (tm_date to)"
    and "s = time_of_day from" and "u = time_of_day to"
  note f = tm_ok_bounds [OF assms(1), folded a_def s_def] and t = tm_ok_bounds [OF assms(2), folded b_def u_def]
  have ck: "long_ck (b - a) = Some (b - a)" "int_ck (u - s) = Some (u - s)"
      "to_int (b - a) = b - a" "to_int (b - a - 1) = b - a - 1" "long_ck 0 = Some 0" "to_int 0 = 0" "to_int (b - a + 1) = b - a + 1"
    using f t by (auto simp: long_ck_def int_ck_def intro!: to_int_id)
  have d: "tm_secs to - tm_secs from = 86400 * (b - a) + (u - s)" by (simp add: tm_secs_def a_def b_def s_def u_def)
  note e = OPENSSL_gmtime_diff_def [of "from" "to"] j [OF assms(1), folded a_def s_def] j [OF assms(2), folded b_def u_def] ck
  consider "0 < b - a" "u - s < 0" | "b - a < 0" "0 < u - s" | "0 < b - a" "0 \<le> u - s" | "b - a < 0" "u - s \<le> 0" | "b = a" by linarith
  then show thesis
  proof cases
    case 1
    then show ?thesis using that [of "b - a - 1" "u - s + 86400"] f t by (simp add: e d SECS_PER_DAY_def)
  next
    case 2
    then show ?thesis using that [of "b - a + 1" "u - s - 86400"] f t by (simp add: e d SECS_PER_DAY_def)
  qed (use that [of "b - a" "u - s"] f t in \<open>simp_all add: e d SECS_PER_DAY_def abs_if\<close>)
qed

text \<open>From 24856 days on the seconds of the days do not fit an \<open>int\<close>.\<close>

lemma OPENSSL_gmtime_adj_overflows:
  assumes "2147558400 \<le> offset_sec" "offset_sec < 185542587187200"
  shows "OPENSSL_gmtime_adj tm off_day offset_sec = None"
proof -
  let ?q = "offset_sec div 86400"
  have q: "24856 \<le> ?q" "?q < 2 ^ 31" using assms by (simp_all add: div_bounds zdiv_mono1 div_less_iff_less_mult)
  have "offset_sec sdiv 86400 = ?q" using assms by (simp add: sdiv_pos)
  moreover have "to_int ?q = ?q" using q by (intro to_int_id) simp_all
  moreover have "int_ck (?q * 86400) = None" using q(1) by (simp add: int_ck_def)
  ultimately show ?thesis by (simp add: OPENSSL_gmtime_adj_def julian_adj_def SECS_PER_DAY_def)
qed

end
