(* ===== verification/Asn1_Time_Text.thy ===== *)
theory Asn1_Time_Text
  imports Asn1_Time Time_Facts
begin

text \<open>
  Which texts are times and what times they are: the readers of both types accept exactly the
  texts of a grammar, never read past the terminator, and give the time the text denotes.
\<close>

section \<open>Reading a terminated text\<close>

text \<open>At position \<open>p\<close>, up to the end \<open>l\<close>, the text \<open>r\<close> is left.\<close>

definition text_at :: "u8 list \<Rightarrow> nat \<Rightarrow> nat \<Rightarrow> u8 list \<Rightarrow> bool" where
  "text_at a l p r \<longleftrightarrow> (\<exists>pre junk. a = pre @ r @ 0 # junk \<and> p = length pre \<and> l = length pre + length r)"

lemma text_at_rd: "text_at a l p r \<Longrightarrow> rd a p = Done (case r of [] \<Rightarrow> 0 | c # _ \<Rightarrow> c)"
  by (auto simp: text_at_def rd_def nth_append split: list.splits)

lemma text_at_Cons: "text_at a l p (c # r) \<Longrightarrow> text_at a l (Suc p) r"
  by (fastforce simp: text_at_def intro: exI [of _ "_ @ [c]"])

lemma text_at_append: "text_at a l p (x @ r) \<Longrightarrow> text_at a l (p + length x) r"
proof (induction x arbitrary: p)
  case (Cons c x)
  then show ?case using Cons.IH [OF text_at_Cons] by simp
qed simp

lemma text_at_less: "text_at a l p r \<Longrightarrow> l < p + k \<longleftrightarrow> length r < k"
  by (auto simp: text_at_def)

lemma text_at_end: "text_at a l p r \<Longrightarrow> p = l \<longleftrightarrow> r = []"
  by (auto simp: text_at_def)

lemma text_at_start:
  assumes "terminated d" "11 \<le> as_length d"
  shows "text_at (mem_of d) (nat (as_length d)) 0 (str_bytes d)"
proof -
  obtain b where b: "as_data d = Some b" using assms by (auto simp: terminated_def string_ok_def split: option.splits)
  let ?n = "nat (as_length d)"
  have n: "?n < length (blk_data b)" "blk_data b ! ?n = 0"
    using assms(1) b by (auto simp: terminated_def string_ok_def block_ok_def)
  then have "blk_data b = take ?n (blk_data b) @ 0 # drop (Suc ?n) (blk_data b)" by (metis id_take_nth_drop)
  then show ?thesis
    using n b unfolding text_at_def
    by (intro exI [of _ "[]"] exI [of _ "drop (Suc ?n) (blk_data b)"]) (simp add: mem_of_def str_bytes_def)
qed

section \<open>Two digits\<close>

text \<open>The digits of a number below 100.\<close>

definition dd :: "int \<Rightarrow> u8 list" where
  "dd n = [word_of_int (48 + n div 10), word_of_int (48 + n mod 10)]"

fun two :: "u8 list \<Rightarrow> (int \<times> u8 list) option" where
  "two (c # d # r) =
     (if 48 \<le> c \<and> c \<le> 57 \<and> 48 \<le> d \<and> d \<le> 57 then Some ((int (unat c) - 48) * 10 + (int (unat d) - 48), r) else None)"
| "two _ = None"

lemma length_dd [simp]: "length (dd n) = 2"
  by (simp add: dd_def)

lemma digit_of: "48 \<le> c \<and> c \<le> (57 :: u8) \<longleftrightarrow> (\<exists>k. 0 \<le> k \<and> k \<le> 9 \<and> c = word_of_int (48 + k))"
  "0 \<le> k \<Longrightarrow> k \<le> 9 \<Longrightarrow> int (unat (word_of_int (48 + k) :: u8)) = 48 + k"
proof -
  have u: "int (unat (word_of_int (48 + k) :: u8)) = 48 + k" if "0 \<le> k" "k \<le> 9" for k
  proof -
    have "k = 0 \<or> k = 1 \<or> k = 2 \<or> k = 3 \<or> k = 4 \<or> k = 5 \<or> k = 6 \<or> k = 7 \<or> k = 8 \<or> k = 9" using that by presburger
    then show ?thesis by (elim disjE) simp_all
  qed
  then show "0 \<le> k \<Longrightarrow> k \<le> 9 \<Longrightarrow> int (unat (word_of_int (48 + k) :: u8)) = 48 + k" .
  show "48 \<le> c \<and> c \<le> (57 :: u8) \<longleftrightarrow> (\<exists>k. 0 \<le> k \<and> k \<le> 9 \<and> c = word_of_int (48 + k))"
  proof
    assume c: "48 \<le> c \<and> c \<le> 57"
    then have "48 \<le> uint c" "uint c \<le> 57" by (simp_all add: word_le_def)
    then show "\<exists>k. 0 \<le> k \<and> k \<le> 9 \<and> c = word_of_int (48 + k)"
      by (intro exI [of _ "uint c - 48"]) simp
  next
    assume "\<exists>k. 0 \<le> k \<and> k \<le> 9 \<and> c = word_of_int (48 + k)"
    then obtain k where "0 \<le> k" "k \<le> 9" "c = word_of_int (48 + k)" by blast
    with u [of k] have "48 \<le> uint c" "uint c \<le> 57" by simp_all
    then show "48 \<le> c \<and> c \<le> 57" by (simp add: word_le_def)
  qed
qed

lemma two_iff: "two r = Some (n, r') \<longleftrightarrow> 0 \<le> n \<and> n \<le> 99 \<and> r = dd n @ r'"
proof
  assume "two r = Some (n, r')"
  then obtain c d where r: "r = c # d # r'" and c: "48 \<le> c \<and> c \<le> 57" and d: "48 \<le> d \<and> d \<le> 57"
    and n: "n = (int (unat c) - 48) * 10 + (int (unat d) - 48)"
    by (auto elim: two.elims split: if_splits)
  obtain j k where j: "0 \<le> j" "j \<le> 9" "c = word_of_int (48 + j)" and k: "0 \<le> k" "k \<le> 9" "d = word_of_int (48 + k)"
    using c d unfolding digit_of(1) by blast
  have n': "n = j * 10 + k" unfolding n j(3) k(3) using digit_of(2) [OF j(1,2)] digit_of(2) [OF k(1,2)] by simp
  moreover have "n div 10 = j" "n mod 10 = k" using j k by (simp_all add: n')
  ultimately show "0 \<le> n \<and> n \<le> 99 \<and> r = dd n @ r'" using j k by (simp add: r dd_def)
next
  assume n: "0 \<le> n \<and> n \<le> 99 \<and> r = dd n @ r'"
  then have d: "0 \<le> n div 10" "n div 10 \<le> 9" "0 \<le> n mod 10" "n mod 10 \<le> 9"
    using div_bounds [of n 99 10] pos_mod_bound [of 10 n] by simp_all
  have "48 \<le> (word_of_int (48 + n div 10) :: u8) \<and> word_of_int (48 + n div 10) \<le> (57 :: u8)"
    "48 \<le> (word_of_int (48 + n mod 10) :: u8) \<and> word_of_int (48 + n mod 10) \<le> (57 :: u8)"
    using d unfolding digit_of(1) by blast+
  then show "two r = Some (n, r')"
    using n digit_of(2) [OF d(1,2)] digit_of(2) [OF d(3,4)] by (simp add: dd_def)
qed

lemma read_digit_at:
  "text_at a l p r \<Longrightarrow>
   read_digit a p = (case r of [] \<Rightarrow> Reject | c # _ \<Rightarrow> if 48 \<le> c \<and> c \<le> 57 then Done (int (unat c) - 48) else Reject)"
  by (auto simp: read_digit_def text_at_rd split: list.splits)

lemma two_digits_at:
  assumes "text_at a l p r"
  shows "two_digits a l p = (case two r of None \<Rightarrow> Reject | Some (n, r') \<Rightarrow> Done (n, p + 2))"
    "offset_digits a p = (case two r of None \<Rightarrow> Reject | Some (n, r') \<Rightarrow> Done (n, p + 2))"
proof -
  consider "r = []" | c where "r = [c]" | c d r' where "r = c # d # r'" by (cases r rule: two.cases) auto
  then have "two_digits a l p = (case two r of None \<Rightarrow> Reject | Some (n, r') \<Rightarrow> Done (n, p + 2)) \<and>
    offset_digits a p = (case two r of None \<Rightarrow> Reject | Some (n, r') \<Rightarrow> Done (n, p + 2))"
  proof cases
    case 1
    then show ?thesis using assms by (simp add: two_digits_def offset_digits_def read_digit_at)
  next
    case 2
    then show ?thesis
      using assms read_digit_at [OF text_at_Cons, of a l p c "[]"] text_at_less [OF assms, of 1]
      by (simp add: two_digits_def offset_digits_def read_digit_at)
  next
    case 3
    then show ?thesis
      using assms read_digit_at [OF text_at_Cons, of a l p c "d # r'"] text_at_less [OF assms, of 1] text_at_less [OF assms, of 2]
      by (simp add: two_digits_def offset_digits_def read_digit_at)
  qed
  then show "two_digits a l p = (case two r of None \<Rightarrow> Reject | Some (n, r') \<Rightarrow> Done (n, p + 2))"
    "offset_digits a p = (case two r of None \<Rightarrow> Reject | Some (n, r') \<Rightarrow> Done (n, p + 2))" by blast+
qed

lemma two_at: "text_at a l p r \<Longrightarrow> two r = Some (n, r') \<Longrightarrow> text_at a l (p + 2) r'"
  using text_at_append [of a l p "dd n" r'] by (simp add: two_iff)


section \<open>The grammar\<close>

text \<open>A clock reading: year, month, day, hour, minute, second; and what each part of a text denotes.\<close>

type_synonym clock = "int \<times> int \<times> int \<times> int \<times> int \<times> int"

definition field :: "int \<Rightarrow> int \<Rightarrow> u8 list \<Rightarrow> (int \<times> u8 list) option" where
  "field lo hi r = Option.bind (two r) (\<lambda>(n, r'). if n < lo \<or> hi < n then None else Some (n, r'))"

definition seconds :: "u8 list \<Rightarrow> (int \<times> u8 list) option" where
  "seconds r = (if r \<noteq> [] \<and> hd r \<in> {90, 43, 45} then Some (0, r) else field 0 59 r)"

definition day_and_time :: "int \<Rightarrow> u8 list \<Rightarrow> (clock \<times> u8 list) option" where
  "day_and_time y r =
     do {
       (mo, r) \<leftarrow> field 1 12 r;
       (d, r) \<leftarrow> field 1 31 r;
       (h, r) \<leftarrow> field 0 23 r;
       (mi, r) \<leftarrow> field 0 59 r;
       (s, r) \<leftarrow> seconds r;
       Some ((y, mo, d, h, mi, s), r)
     }"

definition generalized_clock :: "u8 list \<Rightarrow> (clock \<times> u8 list) option" where
  "generalized_clock x = do { (c, r) \<leftarrow> field 0 99 x; (y, r) \<leftarrow> field 0 99 r; day_and_time (c * 100 + y) r }"

definition utc_year :: "int \<Rightarrow> int" where
  "utc_year y = (if y < 50 then 2000 + y else 1900 + y)"

definition utc_clock :: "u8 list \<Rightarrow> (clock \<times> u8 list) option" where
  "utc_clock x = do { (y, r) \<leftarrow> field 0 99 x; day_and_time (utc_year y) r }"

definition fraction :: "u8 list \<Rightarrow> u8 list option" where
  "fraction r =
     (if r = [] \<or> hd r \<noteq> 46 then Some r
      else
        let q = dropWhile (\<lambda>c. 48 \<le> c \<and> c \<le> 57) (tl r) in if q = tl r then None else Some q)"

text \<open>The offset from UTC, eastwards, in seconds; it ends the text.\<close>

definition zone :: "u8 list \<Rightarrow> int option" where
  "zone r =
     (if r = [] \<or> r = [90] then Some 0
      else if hd r = 43 \<or> hd r = 45 then
        do {
          (hh, r1) \<leftarrow> field 0 12 (tl r);
          (mm, r2) \<leftarrow> field 0 59 r1;
          if r2 \<noteq> [] then None else Some ((if hd r = 43 then 1 else -1) * (hh * 3600 + mm * 60))
        }
      else None)"

definition generalized_time :: "u8 list \<Rightarrow> (clock \<times> int) option" where
  "generalized_time x = do { (ck, r) \<leftarrow> generalized_clock x; r \<leftarrow> fraction r; off \<leftarrow> zone r; Some (ck, off) }"

definition utc_time :: "u8 list \<Rightarrow> (clock \<times> int) option" where
  "utc_time x = do { (ck, r) \<leftarrow> utc_clock x; off \<leftarrow> zone r; Some (ck, off) }"

fun tm_of :: "clock \<Rightarrow> tm" where
  "tm_of (y, mo, d, h, mi, s) = \<lparr>tm_sec = s, tm_min = mi, tm_hour = h, tm_mday = d, tm_mon = mo - 1, tm_year = y - 1900\<rparr>"

text \<open>The broken-down time of a clock reading with an offset; \<open>None\<close> when it is out of the range of years.\<close>

definition resolve :: "clock \<times> int \<Rightarrow> tm option" where
  "resolve = (\<lambda>(ck, off). if off = 0 then Some (tm_of ck) else Option.bind (OPENSSL_gmtime_adj (tm_of ck) 0 (- off)) (\<lambda>r. r))"

section \<open>The readers follow the grammar\<close>

definition agrees :: "u8 list \<Rightarrow> nat \<Rightarrow> ('a \<Rightarrow> 'b) \<Rightarrow> (nat \<times> 'b) parse \<Rightarrow> ('a \<times> u8 list) option \<Rightarrow> bool" where
  "agrees a l f P S \<longleftrightarrow> (case S of None \<Rightarrow> P = Reject | Some (x, r) \<Rightarrow> \<exists>p. P = Done (p, f x) \<and> text_at a l p r)"

lemma field_at:
  assumes "text_at a l p r"
  shows "field lo hi r = None \<Longrightarrow>
      seq (two_digits a l p) (\<lambda>(n, p). if n < lo \<or> hi < n then Reject else g n p) = Reject"
    "field lo hi r = Some (n, r') \<Longrightarrow>
      seq (two_digits a l p) (\<lambda>(n, p). if n < lo \<or> hi < n then Reject else g n p) = g n (p + 2)"
    "field lo hi r = Some (n, r') \<Longrightarrow> text_at a l (p + 2) r'"
  using two_digits_at(1) [OF assms] two_at [OF assms]
  by (auto simp: field_def split: option.splits if_splits)

lemma gt_step:
  assumes at: "text_at a l p r" and i: "i < 6" "lo = gt_min ! i" "hi = gt_max ! i"
    and K: "\<And>n r'. text_at a l (p + 2) r' \<Longrightarrow> agrees a l f (gt_fields a l (Suc i) (p + 2) (map_option (gt_field i n) tm)) (K n r')"
  shows "agrees a l f (gt_fields a l i p tm) (Option.bind (field lo hi r) (\<lambda>(n, r'). K n r'))"
proof (cases "field lo hi r")
  case None
  then show ?thesis using field_at(1) [OF at None] i by (subst gt_fields.simps) (simp add: agrees_def)
next
  case (Some nr)
  then obtain n r' where f: "field lo hi r = Some (n, r')" by (cases nr) auto
  have "gt_fields a l i p tm = gt_fields a l (Suc i) (p + 2) (map_option (gt_field i n) tm)"
    using field_at(2) [OF at f, of "\<lambda>n p. gt_fields a l (i + 1) p (map_option (gt_field i n) tm)"] i
    by (subst gt_fields.simps) simp
  then show ?thesis using K [OF field_at(3) [OF at f]] by (simp add: f)
qed

lemma utc_step:
  assumes at: "text_at a l p r" and i: "i < 5" "lo = utc_min ! i" "hi = utc_max ! i"
    and K: "\<And>n r'. text_at a l (p + 2) r' \<Longrightarrow> agrees a l f (utc_fields a l (Suc i) (p + 2) (map_option (utc_field i n) tm)) (K n r')"
  shows "agrees a l f (utc_fields a l i p tm) (Option.bind (field lo hi r) (\<lambda>(n, r'). K n r'))"
proof (cases "field lo hi r")
  case None
  then show ?thesis using field_at(1) [OF at None] i by (subst utc_fields.simps) (simp add: agrees_def)
next
  case (Some nr)
  then obtain n r' where f: "field lo hi r = Some (n, r')" by (cases nr) auto
  have "utc_fields a l i p tm = utc_fields a l (Suc i) (p + 2) (map_option (utc_field i n) tm)"
    using field_at(2) [OF at f, of "\<lambda>n p. utc_fields a l (i + 1) p (map_option (utc_field i n) tm)"] i
    by (subst utc_fields.simps) simp
  then show ?thesis using K [OF field_at(3) [OF at f]] by (simp add: f)
qed

text \<open>The seconds, which a zone may replace.\<close>

lemma seconds_at:
  assumes at: "text_at a l p r" and f: "\<And>s. f (c s) = map_option (tm_sec_update (\<lambda>_. s)) tm"
  shows "agrees a l f
     (seq (rd a p) (\<lambda>c.
        if c = 90 \<or> c = 43 \<or> c = 45 then Done (p, map_option (tm_sec_update (\<lambda>_. 0)) tm)
        else seq (two_digits a l p) (\<lambda>(n, p). if n < 0 \<or> 59 < n then Reject else Done (p, map_option (tm_sec_update (\<lambda>_. n)) tm))))
     (Option.bind (seconds r) (\<lambda>(s, r). Some (c s, r)))"
proof (cases "r \<noteq> [] \<and> hd r \<in> {90, 43, 45}")
  case True
  then show ?thesis using at f by (cases r) (auto simp: agrees_def seconds_def text_at_rd)
next
  case False
  then have c: "\<not> ((case r of [] \<Rightarrow> 0 | c # _ \<Rightarrow> c) = 90 \<or> (case r of [] \<Rightarrow> 0 | c # _ \<Rightarrow> c) = 43 \<or> (case r of [] \<Rightarrow> 0 | c # _ \<Rightarrow> c) = (45 :: u8))"
    by (cases r) auto
  have s: "seconds r = field 0 59 r" using False by (auto simp: seconds_def)
  show ?thesis
  proof (cases "field 0 59 r")
    case None
    then show ?thesis using field_at(1) [OF at None] c by (simp add: s agrees_def text_at_rd [OF at])
  next
    case (Some nr)
    then obtain n r' where n: "field 0 59 r = Some (n, r')" by (cases nr) auto
    show ?thesis using field_at(2) [OF at n, of "\<lambda>n p. Done (p, map_option (tm_sec_update (\<lambda>_. n)) tm)"] field_at(3) [OF at n] c f
      by (simp add: s n agrees_def text_at_rd [OF at])
  qed
qed


lemma sec_field: "gt_field 6 n = tm_sec_update (\<lambda>_. n)" "utc_field 5 n = tm_sec_update (\<lambda>_. n)"
  by (simp_all add: fun_eq_iff gt_field_def utc_field_def)

lemma gt_last:
  assumes "text_at a l p r" "i = 6" "\<And>s. f (c s) = map_option (tm_sec_update (\<lambda>_. s)) tm"
  shows "agrees a l f (gt_fields a l i p tm) (Option.bind (seconds r) (\<lambda>(s, r). Some (c s, r)))"
  using seconds_at [of a l p r f c tm, OF assms(1)] assms(3) by (subst gt_fields.simps) (simp add: assms(2) gt_min_def gt_max_def sec_field gt_fields.simps [of a l 7] cong: if_cong)

lemma utc_last:
  assumes "text_at a l p r" "i = 5" "\<And>s. f (c s) = map_option (tm_sec_update (\<lambda>_. s)) tm"
  shows "agrees a l f (utc_fields a l i p tm) (Option.bind (seconds r) (\<lambda>(s, r). Some (c s, r)))"
  using seconds_at [of a l p r f c tm, OF assms(1)] assms(3) by (subst utc_fields.simps) (simp add: assms(2) utc_min_def utc_max_def sec_field utc_fields.simps [of a l 6] cong: if_cong)

lemma generalized_clock_at:
  assumes "text_at a l 0 x"
  shows "agrees a l (\<lambda>ck. map_option (\<lambda>_. tm_of ck) tm) (gt_fields a l 0 0 tm) (generalized_clock x)"
  unfolding generalized_clock_def day_and_time_def
  by (insert assms, ((rule gt_step, assumption, simp_all only: gt_min_def gt_max_def, simp_all)+)?)
    (rule gt_last, assumption, simp, cases tm, simp_all add: gt_field_def)

lemma utc_clock_at:
  assumes "text_at a l 0 x"
  shows "agrees a l (\<lambda>ck. map_option (\<lambda>_. tm_of ck) tm) (utc_fields a l 0 0 tm) (utc_clock x)"
  unfolding utc_clock_def day_and_time_def
  by (insert assms, ((rule utc_step, assumption, simp_all only: utc_min_def utc_max_def, simp_all)+)?)
    (rule utc_last, assumption, simp, cases tm, simp_all add: utc_field_def utc_year_def)


section \<open>Fractions and zones\<close>

lemma fraction_digits_at:
  "text_at a l p r \<Longrightarrow>
   \<exists>q. gt_fraction a l p = Done q \<and> text_at a l q (dropWhile (\<lambda>c. 48 \<le> c \<and> c \<le> 57) r) \<and>
     (q = p \<longleftrightarrow> dropWhile (\<lambda>c. 48 \<le> c \<and> c \<le> 57) r = r) \<and> p \<le> q"
proof (induction r arbitrary: p)
  case Nil
  then show ?case using text_at_rd [OF Nil] by (subst gt_fraction.simps) simp
next
  case (Cons c r)
  have le: "p \<le> l" using Cons.prems by (auto simp: text_at_def)
  show ?case
  proof (cases "48 \<le> c \<and> c \<le> 57")
    case True
    obtain q where q: "gt_fraction a l (p + 1) = Done q" "text_at a l q (dropWhile (\<lambda>c. 48 \<le> c \<and> c \<le> 57) r)" "p + 1 \<le> q"
      using Cons.IH [OF text_at_Cons [OF Cons.prems]] by auto
    have ne: "dropWhile (\<lambda>c. 48 \<le> c \<and> c \<le> 57) r \<noteq> c # r"
    proof
      assume "dropWhile (\<lambda>c. 48 \<le> c \<and> c \<le> 57) r = c # r"
      then have "length (dropWhile (\<lambda>c. 48 \<le> c \<and> c \<le> 57) r) = Suc (length r)" by simp
      with length_dropWhile_le [of "\<lambda>c. 48 \<le> c \<and> c \<le> 57" r] show False by linarith
    qed
    have "gt_fraction a l p = Done q" using text_at_rd [OF Cons.prems] True le q(1) by (subst gt_fraction.simps) simp
    then show ?thesis using q True ne by simp
  next
    case False
    then have "gt_fraction a l p = Done p" using text_at_rd [OF Cons.prems] by (subst gt_fraction.simps) auto
    then show ?thesis using Cons.prems False by auto
  qed
qed

lemma fraction_at:
  assumes at: "text_at a l p r"
  shows "case fraction r of
      None \<Rightarrow> seq (rd a p) (\<lambda>c. seq (if c = 46 then
               (if l < p + 1 then Reject else seq (gt_fraction a l (p + 1)) (\<lambda>q. if q = p + 1 then Reject else Done q))
             else Done p) g) = Reject
    | Some r' \<Rightarrow> \<exists>q. seq (rd a p) (\<lambda>c. seq (if c = 46 then
               (if l < p + 1 then Reject else seq (gt_fraction a l (p + 1)) (\<lambda>q. if q = p + 1 then Reject else Done q))
             else Done p) g) = g q \<and> text_at a l q r'"
proof (cases "r \<noteq> [] \<and> hd r = 46")
  case False
  then show ?thesis using at text_at_rd [OF at] by (cases r) (auto simp: fraction_def)
next
  case True
  then obtain r1 where r: "r = 46 # r1" by (cases r) auto
  obtain q where q: "gt_fraction a l (p + 1) = Done q" "text_at a l q (dropWhile (\<lambda>c. 48 \<le> c \<and> c \<le> 57) r1)"
    "q = p + 1 \<longleftrightarrow> dropWhile (\<lambda>c. 48 \<le> c \<and> c \<le> 57) r1 = r1"
    using fraction_digits_at [of a l "p + 1" r1] text_at_Cons [of a l p 46 r1] at r by auto
  have "\<not> l < p + 1" using text_at_less [OF at, of 1] r by simp
  then show ?thesis using q text_at_rd [OF at] by (auto simp add: r fraction_def Let_def)
qed

lemma gmtime_adj_defined:
  assumes "tm_ok t" "\<bar>k\<bar> < 2 ^ 31"
  shows "OPENSSL_gmtime_adj t 0 k \<noteq> None"
proof -
  obtain r where "OPENSSL_gmtime_adj t 0 k = Some r" by (rule OPENSSL_gmtime_adj_spec [OF assms(1) _ assms(2) refl, of 0]) simp
  then show ?thesis by simp
qed

text \<open>What follows the clock reading and the fraction: the zone, and the end.\<close>

definition applied :: "tm option \<Rightarrow> int \<Rightarrow> tm option parse" where
  "applied tm off =
     (case tm of
        None \<Rightarrow> Done None
      | Some t \<Rightarrow>
          if off = 0 then Done (Some t)
          else (case OPENSSL_gmtime_adj t 0 (- off) of
                  None \<Rightarrow> Fault | Some None \<Rightarrow> Reject | Some (Some t') \<Rightarrow> Done (Some t')))"

lemma offset_at:
  assumes at: "text_at a l p (c # r)" and tm: "\<And>t. tm = Some t \<Longrightarrow> tm_ok t"
  shows "seq (read_offset a l p c tm) (\<lambda>(p, tm). if p = l then Done tm else Reject) =
    (case Option.bind (field 0 12 r) (\<lambda>(hh, r1). Option.bind (field 0 59 r1) (\<lambda>(mm, r2).
        if r2 \<noteq> [] then None else Some ((if c = 45 then -1 else 1) * (hh * 3600 + mm * 60)))) of
       None \<Rightarrow> Reject | Some off \<Rightarrow> applied tm off)"
proof -
  have at1: "text_at a l (Suc p) r" using text_at_Cons [OF at] .
  note d1 = two_digits_at(2) [OF at1]
  show ?thesis
  proof (cases "two r")
    case None
    then show ?thesis by (simp add: read_offset_def d1 field_def)
  next
    case (Some x)
    then obtain hh r1 where hh: "two r = Some (hh, r1)" by (cases x) auto
    have at2': "text_at a l (Suc (Suc (Suc p))) r1" using two_at [OF at1 hh] by simp
    note d2 = two_digits_at(2) [OF at2']
    have l2: "l < Suc p + 4 \<longleftrightarrow> length r1 < 2" using text_at_less [OF at1, of 4] hh by (auto simp: two_iff)
    show ?thesis
    proof (cases "two r1")
      case None
      then show ?thesis by (simp add: read_offset_def d1 d2 hh field_def)
    next
      case (Some y)
      then obtain mm r2 where mm: "two r1 = Some (mm, r2)" by (cases y) auto
      have at3: "text_at a l (Suc (Suc (Suc (Suc (Suc p))))) r2" using two_at [OF at2' mm] by simp
      have end3: "Suc (Suc (Suc (Suc (Suc p)))) = l \<longleftrightarrow> r2 = []" using text_at_end [OF at3] .
      have len: "\<not> length r1 < 2" using mm by (auto simp: two_iff)
      show ?thesis
      proof (cases "hh < 0 \<or> 12 < hh \<or> mm < 0 \<or> 59 < mm")
        case True
        then show ?thesis using len by (auto simp: read_offset_def d1 d2 hh mm field_def l2)
      next
        case False
        define w where "w = hh * 3600 + mm * 60"
        have "\<bar>w\<bar> < 2 ^ 31" "\<bar>- w\<bar> < 2 ^ 31" using False by (simp_all add: w_def)
        then have adj: "OPENSSL_gmtime_adj t 0 w \<noteq> None" "OPENSSL_gmtime_adj t 0 (- w) \<noteq> None" if "tm = Some t" for t
          using gmtime_adj_defined [OF tm [OF that]] by blast+
        show ?thesis
        proof (cases tm)
          case None
          then show ?thesis using False len end3 l2
            by (simp add: read_offset_def d1 d2 hh mm field_def l2 applied_def Let_def)
        next
          case (Some t)
          then show ?thesis using False len adj [OF Some] end3 l2
            by (cases "c = 45") (auto simp: read_offset_def d1 d2 hh mm field_def l2 applied_def Let_def w_def [symmetric] split: option.splits)
        qed
      qed
    qed
  qed
qed


lemma zone_at:
  assumes at: "text_at a l p r" and tm: "\<And>t. tm = Some t \<Longrightarrow> tm_ok t"
  shows "seq (rd a p) (\<lambda>c. seq (if c = 90 then Done (p + 1, tm) else if c = 43 \<or> c = 45 then read_offset a l p c tm
      else if strict \<and> c \<noteq> 0 then Reject else Done (p, tm)) (\<lambda>(p, tm). if p = l then Done tm else Reject)) =
    (case zone r of None \<Rightarrow> Reject | Some off \<Rightarrow> applied tm off)"
proof (cases r)
  case Nil
  then show ?thesis using text_at_rd [OF at] text_at_end [OF at] by (cases tm) (simp_all add: zone_def applied_def)
next
  case (Cons c r')
  note at' = at [unfolded Cons] and rd = text_at_rd [OF at, unfolded Cons, simplified]
  have end': "Suc p = l \<longleftrightarrow> r' = []" using text_at_end [OF text_at_Cons [OF at']] .
  have ne: "p \<noteq> l" using text_at_end [OF at'] by simp
  consider "c = 90" | "c = 43 \<or> c = 45" | "c \<noteq> 90" "c \<noteq> 43" "c \<noteq> 45" by blast
  then show ?thesis
  proof cases
    case 1
    then show ?thesis using end' by (cases tm) (simp_all add: Cons rd zone_def applied_def)
  next
    case 2
    then have z: "zone r = Option.bind (field 0 12 r') (\<lambda>(hh, r1). Option.bind (field 0 59 r1) (\<lambda>(mm, r2).
        if r2 \<noteq> [] then None else Some ((if c = 45 then -1 else 1) * (hh * 3600 + mm * 60))))"
      by (auto simp: zone_def Cons cong: if_cong)
    have "seq (rd a p) (\<lambda>c. seq (if c = 90 then Done (p + 1, tm) else if c = 43 \<or> c = 45 then read_offset a l p c tm
        else if strict \<and> c \<noteq> 0 then Reject else Done (p, tm)) (\<lambda>(p, tm). if p = l then Done tm else Reject)) =
      seq (read_offset a l p c tm) (\<lambda>(p, tm). if p = l then Done tm else Reject)"
      using 2 by (auto simp: rd)
    then show ?thesis using offset_at [OF at' tm] unfolding z by (rule trans)
  next
    case 3
    then show ?thesis using ne by (simp add: Cons rd zone_def)
  qed
qed

lemma field_iff:
  assumes "0 \<le> lo" "hi \<le> 99"
  shows "field lo hi r = Some (n, r') \<longleftrightarrow> lo \<le> n \<and> n \<le> hi \<and> r = dd n @ r'"
proof -
  have "field lo hi r = Some (n, r') \<longleftrightarrow> two r = Some (n, r') \<and> lo \<le> n \<and> n \<le> hi"
    by (cases "two r") (auto simp: field_def split: if_splits)
  then show ?thesis using assms by (auto simp: two_iff)
qed

lemma clock_ranges:
  assumes "day_and_time y r = Some (ck, r')"
  obtains mo d h mi s where "ck = (y, mo, d, h, mi, s)" "1 \<le> mo" "mo \<le> 12" "1 \<le> d" "d \<le> 31"
    "0 \<le> h" "h \<le> 23" "0 \<le> mi" "mi \<le> 59" "0 \<le> s" "s \<le> 59"
proof -
  obtain mo d h mi s r1 r2 r3 r4 where f: "field 1 12 r = Some (mo, r1)" "field 1 31 r1 = Some (d, r2)" "field 0 23 r2 = Some (h, r3)"
    "field 0 59 r3 = Some (mi, r4)" "seconds r4 = Some (s, r')" "ck = (y, mo, d, h, mi, s)"
    using assms by (auto simp: day_and_time_def bind_eq_Some_conv)
  moreover have "0 \<le> s" "s \<le> 59" using f(5) by (auto simp: seconds_def field_iff split: if_splits)
  ultimately show thesis by (intro that [of mo d h mi s]) (simp_all add: field_iff)
qed

lemma tm_of_ok:
  assumes "day_and_time y r = Some (ck, r')" "0 \<le> y" "y \<le> 9999"
  shows "tm_ok (tm_of ck)"
  using assms by (elim clock_ranges) (simp add: tm_ok_def)

lemma generalized_clock_ok: "generalized_clock x = Some (ck, r) \<Longrightarrow> tm_ok (tm_of ck)"
  by (auto simp: generalized_clock_def field_iff bind_eq_Some_conv elim!: tm_of_ok)

lemma utc_clock_ok: "utc_clock x = Some (ck, r) \<Longrightarrow> tm_ok (tm_of ck)"
  by (auto simp: utc_clock_def field_iff utc_year_def bind_eq_Some_conv split: if_splits elim!: tm_of_ok)

section \<open>What the readers accept and give\<close>

definition outcome :: "tm option \<Rightarrow> (clock \<times> int) option \<Rightarrow> tm option parse" where
  "outcome tm r =
     (case r of
        None \<Rightarrow> Reject
      | Some x \<Rightarrow> if tm = None then Done None else (case resolve x of None \<Rightarrow> Reject | Some t \<Rightarrow> Done (Some t)))"

lemma applied_resolve:
  assumes "tm_ok (tm_of ck)" "zone r = Some off"
  shows "applied (map_option (\<lambda>_. tm_of ck) tm) off = outcome tm (Some (ck, off))"
proof -
  have "\<bar>- off\<bar> < 2 ^ 31"
    using assms(2) by (auto simp: zone_def field_iff bind_eq_Some_conv split: if_splits)
  from gmtime_adj_defined [OF assms(1) this] show ?thesis
    by (auto simp: applied_def outcome_def resolve_def split: option.splits)
qed

theorem generalized_reads:
  assumes "terminated d" "as_type d = V_ASN1_GENERALIZEDTIME"
  shows "asn1_generalizedtime_to_tm tm d = outcome tm (generalized_time (str_bytes d))"
proof (cases "as_length d < 13")
  case True
  have "generalized_time (str_bytes d) = None"
  proof (rule ccontr)
    assume "generalized_time (str_bytes d) \<noteq> None"
    then have "13 \<le> length (str_bytes d)"
      by (auto simp: generalized_time_def generalized_clock_def day_and_time_def bind_eq_Some_conv field_iff seconds_def
          dd_def Suc_le_eq split: if_splits)
    then show False using length_str_bytes [of d] assms(1) True by (simp add: terminated_def)
  qed
  then show ?thesis using True assms(2) by (simp add: asn1_generalizedtime_to_tm_def outcome_def)
next
  case False
  let ?a = "mem_of d" and ?l = "nat (as_length d)" and ?x = "str_bytes d"
  have at: "text_at ?a ?l 0 ?x" using assms(1) False by (intro text_at_start) simp_all
  note clk = generalized_clock_at [OF at, of tm, unfolded agrees_def]
  show ?thesis
  proof (cases "generalized_clock ?x")
    case None
    then show ?thesis using clk False assms(2) by (simp add: asn1_generalizedtime_to_tm_def outcome_def generalized_time_def)
  next
    case (Some ckr)
    then obtain ck r where ck: "generalized_clock ?x = Some (ck, r)" by (cases ckr) auto
    note ok = generalized_clock_ok [OF ck]
    obtain p where p: "gt_fields ?a ?l 0 0 tm = Done (p, map_option (\<lambda>_. tm_of ck) tm)" "text_at ?a ?l p r"
      using clk ck by auto
    let ?tm = "map_option (\<lambda>_. tm_of ck) tm"
    let ?g = "\<lambda>p. seq (rd ?a p) (\<lambda>c. seq (if c = 90 then Done (p + 1, ?tm) else if c = 43 \<or> c = 45 then read_offset ?a ?l p c ?tm
        else if c \<noteq> 0 then Reject else Done (p, ?tm)) (\<lambda>(p, tm). if p = ?l then Done tm else Reject))"
    have eq: "asn1_generalizedtime_to_tm tm d = seq (rd ?a p) (\<lambda>c. seq (if c = 46 then
        (if ?l < p + 1 then Reject else seq (gt_fraction ?a ?l (p + 1)) (\<lambda>q. if q = p + 1 then Reject else Done q)) else Done p) ?g)"
      using p(1) False assms(2) by (simp add: asn1_generalizedtime_to_tm_def Let_def)
    note fr = fraction_at [OF p(2), of ?g, folded eq]
    show ?thesis
    proof (cases "fraction r")
      case None
      then show ?thesis using fr ck by (simp add: outcome_def generalized_time_def)
    next
      case (Some r')
      then obtain q where q: "asn1_generalizedtime_to_tm tm d = ?g q" "text_at ?a ?l q r'" using fr by auto
      have "\<And>t. ?tm = Some t \<Longrightarrow> tm_ok t" using ok by auto
      then have t: "asn1_generalizedtime_to_tm tm d = (case zone r' of None \<Rightarrow> Reject | Some off \<Rightarrow> applied ?tm off)"
        by (rule trans [OF q(1) zone_at [OF q(2), where strict = True, unfolded simp_thms]])
      show ?thesis
      proof (cases "zone r'")
        case None
        then show ?thesis using t ck Some by (simp add: generalized_time_def outcome_def)
      next
        case (Some off)
        then show ?thesis using t ck \<open>fraction r = Some r'\<close> applied_resolve [OF ok Some, of tm] by (simp add: generalized_time_def)
      qed
    qed
  qed
qed

theorem utc_reads:
  assumes "terminated d" "as_type d = V_ASN1_UTCTIME"
  shows "asn1_utctime_to_tm tm d = outcome tm (utc_time (str_bytes d))"
proof (cases "as_length d < 11")
  case True
  have "utc_time (str_bytes d) = None"
  proof (rule ccontr)
    assume "utc_time (str_bytes d) \<noteq> None"
    then have "11 \<le> length (str_bytes d)"
      by (auto simp: utc_time_def utc_clock_def day_and_time_def bind_eq_Some_conv field_iff seconds_def
          dd_def Suc_le_eq split: if_splits)
    then show False using length_str_bytes [of d] assms(1) True by (simp add: terminated_def)
  qed
  then show ?thesis using True assms(2) by (simp add: asn1_utctime_to_tm_def outcome_def)
next
  case False
  let ?a = "mem_of d" and ?l = "nat (as_length d)" and ?x = "str_bytes d"
  have at: "text_at ?a ?l 0 ?x" using assms(1) False by (intro text_at_start) simp_all
  note clk = utc_clock_at [OF at, of tm, unfolded agrees_def]
  show ?thesis
  proof (cases "utc_clock ?x")
    case None
    then show ?thesis using clk False assms(2) by (simp add: asn1_utctime_to_tm_def outcome_def utc_time_def)
  next
    case (Some ckr)
    then obtain ck r where ck: "utc_clock ?x = Some (ck, r)" by (cases ckr) auto
    note ok = utc_clock_ok [OF ck]
    let ?tm = "map_option (\<lambda>_. tm_of ck) tm"
    obtain p where p: "utc_fields ?a ?l 0 0 tm = Done (p, ?tm)" "text_at ?a ?l p r" using clk ck by auto
    have eq: "asn1_utctime_to_tm tm d = seq (rd ?a p) (\<lambda>c. seq (if c = 90 then Done (p + 1, ?tm) else if c = 43 \<or> c = 45 then
        read_offset ?a ?l p c ?tm else Done (p, ?tm)) (\<lambda>(p, tm). if p = ?l then Done tm else Reject))"
      using p(1) False assms(2) by (simp add: asn1_utctime_to_tm_def Let_def)
    have "\<And>t. ?tm = Some t \<Longrightarrow> tm_ok t" using ok by auto
    then have t: "asn1_utctime_to_tm tm d = (case zone r of None \<Rightarrow> Reject | Some off \<Rightarrow> applied ?tm off)"
      by (rule trans [OF eq zone_at [OF p(2), where strict = False, unfolded simp_thms if_False]])
    show ?thesis
    proof (cases "zone r")
      case None
      then show ?thesis using t ck by (simp add: utc_time_def outcome_def)
    next
      case (Some off)
      then show ?thesis using t ck applied_resolve [OF ok Some, of tm] by (simp add: utc_time_def)
    qed
  qed
qed

end
