(* ===== verification/Asn1_Time_Print.thy ===== *)
theory Asn1_Time_Print
  imports Asn1_Time_Text
begin

text \<open>
  Times written by the library are read back as the same times; the difference of two written times is the
  difference of the times they were written from; conversion to GeneralizedTime keeps the time.
\<close>

section \<open>The text of a time\<close>

lemma word_of_nat_int: "(word_of_nat n :: u8) = word_of_int (int n)"
  by simp

lemma decimal_small: "n < 10 \<Longrightarrow> decimal n = [word_of_int (48 + int n)]"
  by (simp add: decimal_digit)

lemma decimal_split: "10 \<le> n \<Longrightarrow> decimal n = decimal (n div 10) @ [word_of_int (48 + int (n mod 10))]"
  using decimal_snoc [of "n div 10" "n mod 10"] by (simp add: div_greater_zero_iff)

lemma printf_02d:
  assumes "0 \<le> n" "n \<le> 99"
  shows "printf_0d 2 n = dd n"
proof -
  obtain k where k: "n = int k" "k \<le> 99" using assms by (metis nonneg_int_cases of_nat_le_iff of_nat_numeral)
  show ?thesis
  proof (cases "k < 10")
    case True
    then show ?thesis using k by (simp add: printf_0d_def Let_def decimal_small dd_def)
  next
    case False
    then have "k div 10 < 10" using k by simp
    then have "decimal k = [word_of_int (48 + int (k div 10)), word_of_int (48 + int (k mod 10))]"
      using decimal_split [of k] decimal_small [of "k div 10"] False by simp
    then show ?thesis using k by (simp add: printf_0d_def Let_def dd_def zdiv_int zmod_int)
  qed
qed

lemma printf_04d:
  assumes "0 \<le> y" "y \<le> 9999"
  shows "printf_0d 4 y = dd (y div 100) @ dd (y mod 100)"
proof -
  obtain k where k: "y = int k" "k \<le> 9999" using assms by (metis nonneg_int_cases of_nat_le_iff of_nat_numeral)
  define a b where "a = k div 100" and "b = k mod 100"
  have ab: "a \<le> 99" "b \<le> 99" "k = a * 100 + b" using k by (simp_all add: a_def b_def)
  have y: "y div 100 = int a" "y mod 100 = int b" using k by (simp_all add: a_def b_def zdiv_int zmod_int)
  have two: "printf_0d 2 (int n) = replicate (2 - length (decimal n)) 48 @ decimal n" for n
    by (simp add: printf_0d_def Let_def)
  show ?thesis
  proof (cases "a = 0")
    case True
    have "length (decimal b) \<le> 2"
      using ab(2) decimal_split [of b] decimal_small [of b] decimal_small [of "b div 10"] by (cases "b < 10") simp_all
    then have "4 - length (decimal b) = Suc (Suc (2 - length (decimal b)))" by linarith
    moreover have "y = int b" using True ab(3) k by simp
    ultimately have "printf_0d 4 y = dd 0 @ printf_0d 2 (int b)" by (simp add: two printf_0d_def Let_def dd_def)
    then show ?thesis using True ab y by (simp add: printf_02d)
  next
    case False
    have d1: "(a * 100 + b) div 10 = a * 10 + b div 10" "(a * 100 + b) mod 10 = b mod 10"
      using div_mult_self3 [of 10 "a * 10" b] mod_mult_self3 [of "a * 10" 10 b] by (simp_all add: mult.commute)
    have b10: "b div 10 < 10" using ab(2) by (simp add: div_less_iff_less_mult)
    then have d2: "(a * 10 + b div 10) div 10 = a" "(a * 10 + b div 10) mod 10 = b div 10" by simp_all
    have "decimal k = decimal a @ [word_of_int (48 + int (b div 10)), word_of_int (48 + int (b mod 10))]"
      using decimal_split [of k] decimal_split [of "a * 10 + b div 10"] False ab(3) b10 by (simp add: d1 d2)
    also have "\<dots> = decimal a @ dd (int b)" by (simp add: dd_def zdiv_int zmod_int)
    finally have d: "decimal k = decimal a @ dd (int b)" .
    have "length (decimal a) \<le> 2"
      using ab(1) decimal_split [of a] decimal_small [of a] decimal_small [of "a div 10"] by (cases "a < 10") simp_all
    then have "printf_0d 4 y = printf_0d 2 (int a) @ dd (int b)"
      using k by (simp add: two d) (simp add: printf_0d_def d Let_def)
    then show ?thesis using ab y by (simp add: printf_02d)
  qed
qed

text \<open>The clock reading of a broken-down time, and its text.\<close>

definition clock_of :: "tm \<Rightarrow> clock" where
  "clock_of t = (tm_year t + 1900, tm_mon t + 1, tm_mday t, tm_hour t, tm_min t, tm_sec t)"

lemma tm_of_clock_of [simp]: "tm_of (clock_of t) = t"
  by (simp add: clock_of_def)

lemma time_text_dd:
  assumes "tm_ok t"
  shows "time_text year t = year @ dd (tm_mon t + 1) @ dd (tm_mday t) @ dd (tm_hour t) @ dd (tm_min t) @ dd (tm_sec t) @ [90]"
  using assms by (simp add: time_text_def tm_ok_def printf_02d)

lemma two_dd: "0 \<le> n \<Longrightarrow> n \<le> 99 \<Longrightarrow> two (dd n @ r) = Some (n, r)"
  by (simp add: two_iff)

lemma field_dd: "0 \<le> n \<Longrightarrow> n \<le> 99 \<Longrightarrow> lo \<le> n \<Longrightarrow> n \<le> hi \<Longrightarrow> field lo hi (dd n @ r) = Some (n, r)"
  by (simp add: field_def two_dd)

lemma dd_not_zone: "0 \<le> n \<Longrightarrow> n \<le> 99 \<Longrightarrow> hd (dd n @ r) \<notin> {90, 43, 45}"
proof -
  assume n: "0 \<le> n" "n \<le> 99"
  obtain c s where c: "dd n @ r = c # s" by (simp add: dd_def)
  have "two (c # s) = Some (n, r)" using two_dd [OF n, of r] by (simp only: c)
  then have "48 \<le> c \<and> c \<le> 57" by (cases s) (auto split: if_splits)
  then show ?thesis by (auto simp: c)
qed

lemma day_and_time_text:
  assumes "tm_ok t"
  shows "day_and_time y (dd (tm_mon t + 1) @ dd (tm_mday t) @ dd (tm_hour t) @ dd (tm_min t) @ dd (tm_sec t) @ [90]) =
    Some ((y, tm_mon t + 1, tm_mday t, tm_hour t, tm_min t, tm_sec t), [90])"
  using assms dd_not_zone [of "tm_sec t" "[90]"]
  by (simp add: day_and_time_def tm_ok_def field_dd seconds_def)

lemma generalized_time_text:
  assumes "tm_ok t" "0 \<le> tm_year t + 1900" "tm_year t + 1900 \<le> 9999"
  shows "generalized_time (time_text (printf_0d 4 (tm_year t + 1900)) t) = Some (clock_of t, 0)"
proof -
  let ?y = "tm_year t + 1900"
  have y: "0 \<le> ?y div 100" "?y div 100 \<le> 99" "0 \<le> ?y mod 100" "?y mod 100 \<le> 99"
    using div_bounds [of ?y 9999 100] pos_mod_bound [of 100 ?y] assms by simp_all
  show ?thesis
    using assms day_and_time_text [OF assms(1), of ?y] y
    by (simp add: time_text_dd printf_04d generalized_time_def generalized_clock_def field_dd fraction_def zone_def clock_of_def)
qed

lemma utc_time_text:
  assumes "tm_ok t" "50 \<le> tm_year t" "tm_year t < 150"
  shows "utc_time (time_text (printf_0d 2 (tm_year t smod 100)) t) = Some (clock_of t, 0)"
proof -
  have m: "tm_year t smod 100 = tm_year t mod 100" using assms by (simp add: smod_mod_positive)
  have b: "0 \<le> tm_year t mod 100" "tm_year t mod 100 \<le> 99" using pos_mod_bound [of 100 "tm_year t"] by simp_all
  have "tm_year t mod 100 = (if tm_year t < 100 then tm_year t else tm_year t - 100)"
    using assms mod_pos_pos_trivial [of "tm_year t - 100" 100] by (simp add: mod_pos_pos_trivial)
  then have "utc_year (tm_year t mod 100) = tm_year t + 1900" using assms by (simp add: utc_year_def)
  then show ?thesis
    using assms day_and_time_text [OF assms(1), of "tm_year t + 1900"] b
    by (simp add: m time_text_dd printf_02d utc_time_def utc_clock_def field_dd zone_def clock_of_def)
qed


section \<open>Writing and reading back\<close>

lemma no_zero_dd: "0 \<le> n \<Longrightarrow> n \<le> 99 \<Longrightarrow> 0 \<notin> set (dd n)"
proof -
  assume n: "0 \<le> n" "n \<le> 99"
  obtain c d where cd: "dd n = [c, d]" by (simp add: dd_def)
  have "two [c, d] = Some (n, [])" using two_dd [OF n, of "[]"] by (simp add: cd)
  then have "48 \<le> c" "48 \<le> d" by (auto split: if_splits)
  then have "c \<noteq> 0" "d \<noteq> 0" by auto
  then show ?thesis by (simp add: cd)
qed

lemma c_str_append: "0 \<notin> set x \<Longrightarrow> c_str (x @ 0 # r) = x"
  by (induction x) auto

lemma c_str_snprintf:
  assumes "0 \<notin> set x" "length x < len"
  shows "c_str (snprintf_to p len x) = x" "length (snprintf_to p len x) = max (length p) (Suc (length x))"
proof -
  have t: "take (len - Suc 0) x = x" using assms(2) by simp
  show "c_str (snprintf_to p len x) = x" using c_str_append [OF assms(1)] by (simp add: snprintf_to_def t)
  show "length (snprintf_to p len x) = max (length p) (Suc (length x))" by (simp add: snprintf_to_def t)
qed

lemma store_time_spec:
  assumes m: "malloc_ok m" and s: "string_ok s" and x: "0 \<notin> set x" "length x < 20"
  shows "case store_time m s ty x of
      None \<Rightarrow> m 28 = None
    | Some s' \<Rightarrow> terminated s' \<and> str_bytes s' = x \<and> as_type s' = ty"
proof -
  have len: "as_length s mod 2 ^ 64 = as_length s" using s by (simp add: string_ok_def mod_pos_pos_trivial)
  define q where "q = (if as_data s = None \<or> as_length s < 20 then OPENSSL_malloc m 20 else as_data s)"
  have st: "store_time m s ty x = (case q of None \<Rightarrow> None | Some p \<Rightarrow>
      Some (s\<lparr>as_data := Some (p\<lparr>blk_data := snprintf_to (blk_data p) 20 x\<rparr>), as_length := int (length x), as_type := ty\<rparr>))"
    using c_str_snprintf(1) [OF x] len by (simp add: store_time_def q_def Let_def split: option.splits)
  show ?thesis
  proof (cases q)
    case None
    then show ?thesis using st by (auto simp: q_def OPENSSL_malloc_def malloc_def OPENSSL_MALLOC_PREFIX_def SIZE_MOD_def split: option.splits if_splits)
  next
    case (Some p)
    have p: "block_ok p \<and> 20 \<le> blk_size p"
    proof (cases "as_data s = None \<or> as_length s < 20")
      case True
      then show ?thesis using OPENSSL_malloc_block [OF m _ , of 20 p] Some by (simp add: q_def SIZE_MOD_def)
    next
      case False
      then show ?thesis using s Some by (auto simp: q_def string_ok_def)
    qed
    then have "length (snprintf_to (blk_data p) 20 x) = blk_size p" using c_str_snprintf(2) [OF x] x by (simp add: block_ok_def)
    moreover have "take (length x) (snprintf_to (blk_data p) 20 x) = x" "snprintf_to (blk_data p) 20 x ! length x = 0"
      using x by (simp_all add: snprintf_to_def nth_append)
    ultimately show ?thesis using st Some p x(2)
      by (simp add: terminated_def string_ok_def block_ok_def str_bytes_def)
  qed
qed

lemma mod_range: "0 \<le> x mod 60 \<and> x mod 60 \<le> 59" "0 \<le> x mod 24 \<and> x mod 24 \<le> 23" for x :: int
  using pos_mod_bound [of 60 x] pos_mod_bound [of 24 x] by simp_all

lemma tm_validI:
  assumes "valid_date (y, m, d)" "- 4700 \<le> y" "y \<le> 1400000" "0 \<le> s \<and> s \<le> 59" "0 \<le> mi \<and> mi \<le> 59" "0 \<le> h \<and> h \<le> 23"
  shows "tm_valid \<lparr>tm_sec = s, tm_min = mi, tm_hour = h, tm_mday = d, tm_mon = m - 1, tm_year = y - 1900\<rparr>"
  using assms days_in_month_bounds(2) [of y m] by (simp add: tm_valid_def tm_ok_def tm_date_def)

lemma day_shift: "t = 86400 * a + b \<Longrightarrow> 86400 * (k + a) + b = 86400 * k + t" for t :: int
  by simp

lemma mixed_radix: "t = 86400 * (t div 60 div 60 div 24) + (t div 60 div 60 mod 24 * 3600 + t div 60 mod 60 * 60 + t mod 60)" for t :: int
proof -
  define a b c where "a = t div 60" and "b = a div 60" and "c = b div 24"
  have "t = a * 60 + t mod 60" "a = b * 60 + a mod 60" "b = c * 24 + b mod 24" by (simp_all add: a_def b_def c_def)
  then have "t = 86400 * c + (b mod 24 * 3600 + a mod 60 * 60 + t mod 60)" by linarith
  then show ?thesis unfolding c_def b_def a_def .
qed

lemma gmtime_spec:
  assumes "- 100000000000 \<le> t" "t \<le> 10000000000000"
  obtains tm where "OPENSSL_gmtime t = Some tm" "tm_valid tm" "tm_secs tm = EPOCH + t"
proof -
  obtain y m d where date: "date_after (t div 86400) = (y, m, d)" by (rule prod_cases3)
  have v: "valid_date (y, m, d)" and n: "day_number (y, m, d) = 2440588 + t div 86400"
    using valid_date_after [of "t div 86400"] day_number_after [of "t div 86400"] by (simp_all add: date)
  have md: "1 \<le> m" "m \<le> 12" "1 \<le> d" "d \<le> 31" using v days_in_month_bounds(2) [of y m] by simp_all
  have t: "- 1157408 \<le> t div 86400" "t div 86400 \<le> 115740740"
    using zdiv_mono1 [of "- 100000000000" t 86400] zdiv_mono1 [of t 10000000000000 86400] assms by simp_all
  have y: "- 4700 \<le> y" "y \<le> 1400000" using day_number_bounds [OF md, of y] t unfolding n by simp_all
  let ?tm = "\<lparr>tm_sec = t mod 60, tm_min = t div 60 mod 60, tm_hour = t div 3600 mod 24, tm_mday = d, tm_mon = m - 1, tm_year = y - 1900\<rparr>"
  have g: "OPENSSL_gmtime t = Some ?tm" using y by (simp add: OPENSSL_gmtime_def gmtime_r_def date int_ck_def)
  have b: "0 \<le> t mod 60 \<and> t mod 60 \<le> 59" "0 \<le> t div 60 mod 60 \<and> t div 60 mod 60 \<le> 59"
      "0 \<le> t div 3600 mod 24 \<and> t div 3600 mod 24 \<le> 23"
    by (simp_all add: mod_range)
  have "tm_valid ?tm" using v md y b by (intro tm_validI) (simp_all only: diff_add_cancel)
  moreover have "tm_secs ?tm = EPOCH + t"
  proof -
    have q: "t div 3600 = t div 60 div 60" "t div 86400 = t div 60 div 60 div 24" by (simp_all add: zdiv_zmult2_eq [symmetric])
    have "t = 86400 * (t div 60 div 60 div 24) + (t div 60 div 60 mod 24 * 3600 + t div 60 mod 60 * 60 + t mod 60)"
      by (rule mixed_radix)
    then have "t = 86400 * (t div 86400) + (t div 3600 mod 24 * 3600 + t div 60 mod 60 * 60 + t mod 60)" unfolding q .
    from day_shift [OF this] show ?thesis
      by (simp only: tm_secs_def tm_date_def time_of_day_def EPOCH_def tm.simps diff_add_cancel n)
  qed
  ultimately show thesis by (rule that [OF g])
qed


lemma adjusted_time_spec:
  assumes "- 100000000000 \<le> t" "t \<le> 10000000000000" "\<bar>od\<bar> \<le> 2000000000" "\<bar>os\<bar> < 2 ^ 31"
    and "target = EPOCH + t + 86400 * od + os"
  obtains r where "adjusted_time t od os = Some r"
    "\<And>ts. r = Some ts \<Longrightarrow> tm_valid ts \<and> tm_secs ts = target \<and> (od = 0 \<and> os = 0 \<or> 0 \<le> tm_year ts \<and> tm_year ts \<le> 8099)"
    "\<And>ts. r = None \<Longrightarrow> tm_valid ts \<Longrightarrow> tm_secs ts = target \<Longrightarrow> tm_year ts < 0 \<or> 8099 < tm_year ts"
proof -
  obtain tm where g: "OPENSSL_gmtime t = Some tm" "tm_valid tm" "tm_secs tm = EPOCH + t" by (rule gmtime_spec [OF assms(1,2)])
  show thesis
  proof (cases "od = 0 \<and> os = 0")
    case True
    then show thesis using that [of "Some tm"] g assms(5) by (simp add: adjusted_time_def)
  next
    case False
    have ok: "tm_ok tm" using g(2) by (simp add: tm_valid_def)
    obtain r where r: "OPENSSL_gmtime_adj tm od os = Some r"
      "\<And>tm'. r = Some tm' \<Longrightarrow> tm_valid tm' \<and> tm_secs tm' = target \<and> 0 \<le> tm_year tm' \<and> tm_year tm' \<le> 8099"
      "\<And>t. r = None \<Longrightarrow> tm_valid t \<Longrightarrow> tm_secs t = target \<Longrightarrow> tm_year t < 0 \<or> 8099 < tm_year t"
      using OPENSSL_gmtime_adj_spec [OF ok assms(3,4), of target] g(3) assms(5) by metis
    have "adjusted_time t od os = Some r" using False g(1) r(1) by (auto simp: adjusted_time_def)
    then show thesis using r(2,3) by (intro that) blast+
  qed
qed

text \<open>The texts have no zeros and fit the buffer.\<close>

lemma time_text_fits:
  assumes "tm_ok ts" "0 \<notin> set year" "length year \<le> 4"
  shows "0 \<notin> set (time_text year ts)" "length (time_text year ts) < 20"
  using assms no_zero_dd by (simp_all add: time_text_dd tm_ok_def)

lemma in_years:
  assumes "tm_valid ts" "tm_secs ts = EPOCH + t" "- 62135596800 \<le> t" "t < 253370764800"
  shows "0 \<le> tm_year ts + 1900" "tm_year ts + 1900 \<le> 9999"
proof -
  have ok: "tm_ok ts" using assms(1) by (simp add: tm_valid_def)
  have "1721425 \<le> day_number (tm_date ts)" "day_number (tm_date ts) \<le> 5373119"
    using tm_ok_bounds(1,2) [OF ok] assms(2-4) by (simp_all add: tm_secs_def EPOCH_def)
  then show "0 \<le> tm_year ts + 1900" "tm_year ts + 1900 \<le> 9999"
    using day_number_bounds [of "tm_mon ts + 1" "tm_mday ts" "tm_year ts + 1900"] ok
    by (simp_all add: tm_ok_def tm_date_def del: day_number.simps)
qed

lemma stored_generalized:
  assumes "tm_valid ts" "0 \<le> tm_year ts + 1900" "tm_year ts + 1900 \<le> 9999" "malloc_ok m" "string_ok s"
    and "store_time m s V_ASN1_GENERALIZEDTIME (time_text (printf_0d 4 (tm_year ts + 1900)) ts) = Some s'"
  shows "terminated s' \<and> asn1_time_to_tm now tm (Some s') = Done (Some ts)"
proof -
  let ?y = "tm_year ts + 1900" and ?x = "time_text (printf_0d 4 (tm_year ts + 1900)) ts"
  have ok: "tm_ok ts" using assms(1) by (simp add: tm_valid_def)
  have y: "0 \<le> ?y div 100" "?y div 100 \<le> 99" "0 \<le> ?y mod 100" "?y mod 100 \<le> 99"
    using div_bounds [of ?y 9999 100] pos_mod_bound [of 100 ?y] assms by simp_all
  have "0 \<notin> set (printf_0d 4 ?y)" "length (printf_0d 4 ?y) \<le> 4" using assms(2,3) no_zero_dd y by (simp_all add: printf_04d)
  then have x: "0 \<notin> set ?x" "length ?x < 20" using time_text_fits [OF ok] by blast+
  have s': "terminated s'" "str_bytes s' = ?x" "as_type s' = V_ASN1_GENERALIZEDTIME"
    using store_time_spec [OF assms(4,5) x, of V_ASN1_GENERALIZEDTIME] assms(6) by simp_all
  then show ?thesis
    using generalized_reads [of s' "Some tm"] generalized_time_text [OF ok assms(2,3)]
    by (simp add: asn1_time_to_tm_def V_ASN1_GENERALIZEDTIME_def V_ASN1_UTCTIME_def outcome_def resolve_def)
qed

lemma stored_utc:
  assumes "tm_valid ts" "50 \<le> tm_year ts" "tm_year ts < 150" "malloc_ok m" "string_ok s"
    and "store_time m s V_ASN1_UTCTIME (time_text (printf_0d 2 (tm_year ts smod 100)) ts) = Some s'"
  shows "terminated s' \<and> asn1_time_to_tm now tm (Some s') = Done (Some ts)"
proof -
  let ?x = "time_text (printf_0d 2 (tm_year ts smod 100)) ts"
  have ok: "tm_ok ts" using assms(1) by (simp add: tm_valid_def)
  have y: "0 \<le> tm_year ts smod 100" "tm_year ts smod 100 \<le> 99"
    using assms(2,3) pos_mod_bound [of 100 "tm_year ts"] by (simp_all add: smod_mod_positive)
  have "0 \<notin> set (printf_0d 2 (tm_year ts smod 100))" "length (printf_0d 2 (tm_year ts smod 100)) \<le> 4"
    using no_zero_dd [OF y] y by (simp_all add: printf_02d)
  then have x: "0 \<notin> set ?x" "length ?x < 20" using time_text_fits [OF ok] by blast+
  have s': "terminated s'" "str_bytes s' = ?x" "as_type s' = V_ASN1_UTCTIME"
    using store_time_spec [OF assms(4,5) x, of V_ASN1_UTCTIME] assms(6) by simp_all
  then show ?thesis
    using utc_reads [of s' "Some tm"] utc_time_text [OF ok assms(2,3)]
    by (simp add: asn1_time_to_tm_def outcome_def resolve_def)
qed


section \<open>Setting, comparing and converting times\<close>

text \<open>The object a time is stored in: the one given or a new one.\<close>

lemma new_or_given:
  assumes "pred_option string_ok s"
  shows "case (case s of None \<Rightarrow> ASN1_STRING_type_new m ty | Some s \<Rightarrow> Some s) of
    None \<Rightarrow> \<not> malloc_total m | Some s0 \<Rightarrow> string_ok s0"
  using assms ASN1_STRING_type_new_ok [of m ty] not_malloc_total [of m 32]
  by (auto simp: ASN1_STRING_type_new_def OPENSSL_malloc_def malloc_def sizeof_ASN1_STRING_def
      OPENSSL_MALLOC_PREFIX_def SIZE_MOD_def split: option.splits)

definition reads_as :: "asn1_string_st \<Rightarrow> tm \<Rightarrow> bool" where
  "reads_as s ts \<longleftrightarrow> terminated s \<and> (\<forall>now tm. asn1_time_to_tm now tm (Some s) = Done (Some ts))"

lemma adj_functions:
  assumes m: "malloc_ok m" and s: "pred_option string_ok s" and ts: "tm_valid ts" "0 \<le> tm_year ts + 1900" "tm_year ts + 1900 \<le> 9999"
    and a: "adjusted_time t od os = Some (Some ts)"
  shows "\<exists>r. ASN1_TIME_adj m s t od os = Some r \<and> (case r of None \<Rightarrow> \<not> malloc_total m | Some s' \<Rightarrow> reads_as s' ts)"
proof -
  have year: "int_ck (tm_year ts + 1900) = Some (tm_year ts + 1900)" using ts by (simp add: int_ck_def)
  have none: "\<not> malloc_total m" if "m 28 = None" using not_malloc_total [of m 28] that by simp
  show ?thesis
  proof (cases "50 \<le> tm_year ts \<and> tm_year ts < 150")
    case True
    define o0 where "o0 = (case s of None \<Rightarrow> ASN1_STRING_type_new m V_ASN1_UTCTIME | Some s \<Rightarrow> Some s)"
    show ?thesis
    proof (cases o0)
      case None
      then show ?thesis using new_or_given [OF s, of m V_ASN1_UTCTIME] True a
        by (simp add: ASN1_TIME_adj_def ASN1_UTCTIME_adj_def o0_def)
    next
      case (Some s0)
      let ?r = "store_time m s0 V_ASN1_UTCTIME (time_text (printf_0d 2 (tm_year ts smod 100)) ts)"
      have s0: "string_ok s0" using new_or_given [OF s, of m V_ASN1_UTCTIME] Some by (simp add: o0_def)
      have e: "ASN1_TIME_adj m s t od os = Some ?r"
        using True a Some by (simp add: ASN1_TIME_adj_def ASN1_UTCTIME_adj_def o0_def [symmetric])
      have "case ?r of None \<Rightarrow> \<not> malloc_total m | Some s' \<Rightarrow> reads_as s' ts"
      proof (cases ?r)
        case None
        have "0 \<notin> set (printf_0d 2 (tm_year ts smod 100)) \<and> length (printf_0d 2 (tm_year ts smod 100)) \<le> 4"
          using True no_zero_dd [of "tm_year ts smod 100"] pos_mod_bound [of 100 "tm_year ts"]
          by (simp add: smod_mod_positive printf_02d)
        then have x: "0 \<notin> set (time_text (printf_0d 2 (tm_year ts smod 100)) ts)" "length (time_text (printf_0d 2 (tm_year ts smod 100)) ts) < 20"
          using time_text_fits [of ts] ts(1) by (simp_all add: tm_valid_def)
        show ?thesis using None none store_time_spec [OF m s0 x, of V_ASN1_UTCTIME] by simp
      next
        case (Some s')
        then show ?thesis using stored_utc [OF ts(1) _ _ m s0 Some] True by (simp add: reads_as_def)
      qed
      with e show ?thesis by blast
    qed
  next
    case False
    define o0 where "o0 = (case s of None \<Rightarrow> ASN1_STRING_type_new m V_ASN1_GENERALIZEDTIME | Some s \<Rightarrow> Some s)"
    have sel: "ASN1_TIME_adj m s t od os = ASN1_GENERALIZEDTIME_adj m s t od os" using False a by (auto simp: ASN1_TIME_adj_def)
    show ?thesis
    proof (cases o0)
      case None
      then show ?thesis using new_or_given [OF s, of m V_ASN1_GENERALIZEDTIME]
        by (simp add: sel ASN1_GENERALIZEDTIME_adj_def o0_def)
    next
      case (Some s0)
      let ?y = "printf_0d 4 (tm_year ts + 1900)"
      let ?r = "store_time m s0 V_ASN1_GENERALIZEDTIME (time_text ?y ts)"
      have s0: "string_ok s0" using new_or_given [OF s, of m V_ASN1_GENERALIZEDTIME] Some by (simp add: o0_def)
      have e: "ASN1_TIME_adj m s t od os = Some ?r"
        using a Some year by (simp add: sel ASN1_GENERALIZEDTIME_adj_def o0_def [symmetric])
      have "case ?r of None \<Rightarrow> \<not> malloc_total m | Some s' \<Rightarrow> reads_as s' ts"
      proof (cases ?r)
        case None
        have y: "0 \<le> (tm_year ts + 1900) div 100" "(tm_year ts + 1900) div 100 \<le> 99"
            "0 \<le> (tm_year ts + 1900) mod 100" "(tm_year ts + 1900) mod 100 \<le> 99"
          using div_bounds [of "tm_year ts + 1900" 9999 100] pos_mod_bound [of 100 "tm_year ts + 1900"] ts by simp_all
        have "0 \<notin> set ?y \<and> length ?y \<le> 4" using no_zero_dd y ts(2,3) by (simp add: printf_04d)
        then have x: "0 \<notin> set (time_text ?y ts)" "length (time_text ?y ts) < 20"
          using time_text_fits [of ts] ts(1) by (simp_all add: tm_valid_def)
        show ?thesis using None none store_time_spec [OF m s0 x, of V_ASN1_GENERALIZEDTIME] by simp
      next
        case (Some s')
        then show ?thesis using stored_generalized [OF ts m s0 Some] by (simp add: reads_as_def)
      qed
      with e show ?thesis by blast
    qed
  qed
qed

lemma ASN1_TIME_adj_spec:
  assumes m: "malloc_ok m" and s: "pred_option string_ok s"
    and t: "- 62135596800 \<le> t" "t < 253370764800" and od: "\<bar>od\<bar> \<le> 2000000000" and os: "\<bar>os\<bar> < 2 ^ 31"
    and target: "target = EPOCH + t + 86400 * od + os"
  shows "\<exists>r. ASN1_TIME_adj m s t od os = Some r \<and> (case r of
      None \<Rightarrow> malloc_total m \<longrightarrow> (\<forall>ts. tm_valid ts \<longrightarrow> tm_secs ts = target \<longrightarrow> tm_year ts < 0 \<or> 8099 < tm_year ts)
    | Some s' \<Rightarrow> \<exists>ts. tm_valid ts \<and> tm_secs ts = target \<and> reads_as s' ts)"
proof -
  have t': "- 100000000000 \<le> t" "t \<le> 10000000000000" using t by simp_all
  obtain a where a: "adjusted_time t od os = Some a"
    and a1: "\<And>ts. a = Some ts \<Longrightarrow> tm_valid ts \<and> tm_secs ts = target \<and> (od = 0 \<and> os = 0 \<or> 0 \<le> tm_year ts \<and> tm_year ts \<le> 8099)"
    and a2: "\<And>ts. a = None \<Longrightarrow> tm_valid ts \<Longrightarrow> tm_secs ts = target \<Longrightarrow> tm_year ts < 0 \<or> 8099 < tm_year ts"
    by (rule adjusted_time_spec [OF t' od os target]) blast
  show ?thesis
  proof (cases a)
    case None
    then show ?thesis using a a2 by (auto simp: ASN1_TIME_adj_def)
  next
    case (Some ts)
    note v = a1 [OF Some]
    have "0 \<le> tm_year ts + 1900 \<and> tm_year ts + 1900 \<le> 9999"
      using v in_years [of ts t] t target by auto
    then obtain r where "ASN1_TIME_adj m s t od os = Some r" "case r of None \<Rightarrow> \<not> malloc_total m | Some s' \<Rightarrow> reads_as s' ts"
      using adj_functions [OF m s, of ts t od os] v a Some by auto
    then show ?thesis using v by (auto split: option.splits)
  qed
qed

lemma ASN1_TIME_diff_reads:
  assumes "reads_as a ta" "reads_as b tb" "tm_valid ta" "tm_valid tb"
  shows "\<exists>D S. ASN1_TIME_diff now t1 t2 (Some a) (Some b) = Some (Some (D, S)) \<and> 86400 * D + S = tm_secs tb - tm_secs ta \<and>
    \<bar>S\<bar> < 86400 \<and> (0 < D \<longrightarrow> 0 \<le> S) \<and> (D < 0 \<longrightarrow> S \<le> 0)"
proof -
  have "tm_ok ta" "tm_ok tb" using assms by (simp_all add: tm_valid_def)
  then obtain D S where "OPENSSL_gmtime_diff ta tb = Some (Some (D, S))" "86400 * D + S = tm_secs tb - tm_secs ta"
      "\<bar>S\<bar> < 86400" "0 < D \<Longrightarrow> 0 \<le> S" "D < 0 \<Longrightarrow> S \<le> 0"
    by (rule OPENSSL_gmtime_diff_spec) blast
  then show ?thesis using assms(1,2) by (auto simp: ASN1_TIME_diff_def reads_as_def)
qed


text \<open>Conversion of a UTCTime puts the century in front, and the time stays the same.\<close>

lemma field_no_zero: "field lo hi r = Some (n, r') \<Longrightarrow> \<exists>x. r = x @ r' \<and> 0 \<notin> set x"
  using no_zero_dd by (auto simp: field_def bind_eq_Some_conv two_iff split: if_splits)

lemma zone_no_zero: "zone r = Some off \<Longrightarrow> 0 \<notin> set r"
  by (cases r) (auto simp: zone_def bind_eq_Some_conv split: if_splits dest!: field_no_zero)

lemma utc_time_no_zero:
  assumes "utc_time x = Some z"
  shows "0 \<notin> set x"
proof -
  obtain y r1 ck r off where x: "field 0 99 x = Some (y, r1)" "day_and_time (utc_year y) r1 = Some (ck, r)" "zone r = Some off"
    using assms by (auto simp: utc_time_def utc_clock_def bind_eq_Some_conv)
  obtain mo d h mi s r2 r3 r4 r5 where f: "field 1 12 r1 = Some (mo, r2)" "field 1 31 r2 = Some (d, r3)" "field 0 23 r3 = Some (h, r4)"
    "field 0 59 r4 = Some (mi, r5)" "seconds r5 = Some (s, r)"
    using x(2) by (auto simp: day_and_time_def bind_eq_Some_conv)
  have "\<exists>x. r5 = x @ r \<and> 0 \<notin> set x" using f(5) field_no_zero [of 0 59 r5 s r] by (auto simp: seconds_def split: if_splits)
  then show ?thesis
    using field_no_zero [OF x(1)] field_no_zero [OF f(1)] field_no_zero [OF f(2)] field_no_zero [OF f(3)] field_no_zero [OF f(4)]
      zone_no_zero [OF x(3)] by auto
qed

definition century :: "u8 list \<Rightarrow> u8 list" where
  "century x = (if 53 \<le> hd x then [49, 57] else [50, 48])"

lemma century_dd:
  assumes "0 \<le> y" "y \<le> 99"
  shows "century (dd y @ r) = dd (if y < 50 then 20 else 19)"
proof -
  have d: "0 \<le> y div 10" "y div 10 \<le> 9" using div_bounds [of y 99 10] assms by simp_all
  have "int (unat (hd (dd y @ r))) = 48 + y div 10" using digit_of(2) [OF d] by (simp add: dd_def)
  then have "53 \<le> hd (dd y @ r) \<longleftrightarrow> 5 \<le> y div 10" by (simp add: word_le_def)
  moreover have "5 \<le> y div 10 \<longleftrightarrow> 50 \<le> y" using zdiv_mono1 [of 50 y 10] zdiv_mono1 [of y 49 10] by auto
  ultimately show ?thesis by (simp add: century_def dd_def)
qed

lemma utc_to_generalized:
  assumes "utc_time x = Some z"
  shows "generalized_time (century x @ x) = Some z"
proof -
  obtain y r1 ck r off where x: "field 0 99 x = Some (y, r1)" "day_and_time (utc_year y) r1 = Some (ck, r)" "zone r = Some off" "z = (ck, off)"
    using assms by (auto simp: utc_time_def utc_clock_def bind_eq_Some_conv)
  then have y: "0 \<le> y" "y \<le> 99" "x = dd y @ r1" by (simp_all add: field_iff)
  have "fraction r = Some r" using x(3) by (auto simp: fraction_def zone_def split: if_splits)
  moreover have "(if y < 50 then 20 else 19) * 100 + y = utc_year y" by (simp add: utc_year_def)
  ultimately show ?thesis
    using x y by (simp add: generalized_time_def generalized_clock_def century_dd field_dd split: if_splits)
qed

lemma check_utc:
  assumes "terminated t" "as_type t = V_ASN1_UTCTIME"
  shows "ASN1_TIME_check t = (if utc_time (str_bytes t) = None then Reject else Done ())"
  using utc_reads [OF assms, of None] assms(2)
  by (auto simp: ASN1_TIME_check_def ASN1_UTCTIME_check_def V_ASN1_UTCTIME_def V_ASN1_GENERALIZEDTIME_def outcome_def split: option.splits)

lemma mem_of_terminated:
  assumes "terminated t" "0 < as_length t"
  obtains junk where "mem_of t = str_bytes t @ 0 # junk"
proof -
  obtain b where b: "as_data t = Some b" using assms by (auto simp: terminated_def string_ok_def split: option.splits)
  let ?n = "nat (as_length t)"
  have n: "?n < length (blk_data b)" "blk_data b ! ?n = 0"
    using assms(1) b by (auto simp: terminated_def string_ok_def block_ok_def)
  have "blk_data b = take ?n (blk_data b) @ 0 # drop (Suc ?n) (blk_data b)" using id_take_nth_drop [OF n(1)] n(2) by simp
  then show thesis using b by (intro that [of "drop (Suc ?n) (blk_data b)"]) (simp add: mem_of_def str_bytes_def)
qed

lemma ASN1_TIME_to_generalizedtime_spec:
  assumes m: "malloc_ok m" and t: "terminated t" "as_type t = V_ASN1_UTCTIME" "as_length t < 2 ^ 31 - 3" and out: "pred_option string_ok out"
  shows "\<exists>res. ASN1_TIME_to_generalizedtime m t out = Some res \<and> (case res of
      None \<Rightarrow> utc_time (str_bytes t) = None \<or> \<not> malloc_total m
    | Some r \<Rightarrow> terminated r \<and> str_bytes r = century (str_bytes t) @ str_bytes t \<and> utc_time (str_bytes t) \<noteq> None \<and>
        as_type r = (case out of None \<Rightarrow> V_ASN1_GENERALIZEDTIME | Some s \<Rightarrow> as_type s))"
proof (cases "utc_time (str_bytes t)")
  case None
  then show ?thesis using check_utc [OF t(1,2)] by (simp add: ASN1_TIME_to_generalizedtime_def)
next
  case (Some z)
  let ?x = "str_bytes t"
  have ut: "V_ASN1_UTCTIME \<noteq> V_ASN1_GENERALIZEDTIME" by (simp add: V_ASN1_UTCTIME_def V_ASN1_GENERALIZEDTIME_def)
  have chk: "ASN1_TIME_check t = Done ()" using check_utc [OF t(1,2)] Some by simp
  have x0: "0 \<notin> set ?x" by (rule utc_time_no_zero [OF Some])
  have xne: "?x \<noteq> []" using Some by (auto simp: utc_time_def utc_clock_def field_def)
  have ok: "string_ok t" using t(1) by (simp add: terminated_def)
  have l0: "0 < as_length t" "length ?x = nat (as_length t)"
    using length_str_bytes [OF ok] xne by (cases "0 < as_length t"; simp)+
  obtain junk where mt: "mem_of t = ?x @ 0 # junk" by (rule mem_of_terminated [OF t(1) l0(1)])
  define o0 where "o0 = (case out of None \<Rightarrow> ASN1_STRING_type_new m V_ASN1_GENERALIZEDTIME | Some s \<Rightarrow> Some s)"
  show ?thesis
  proof (cases o0)
    case None
    then show ?thesis using new_or_given [OF out, of m V_ASN1_GENERALIZEDTIME] chk
      by (intro exI [of _ None]) (simp add: ASN1_TIME_to_generalizedtime_def o0_def)
  next
    case o: (Some s0)
    have s0: "string_ok s0" "as_type s0 = (case out of None \<Rightarrow> V_ASN1_GENERALIZEDTIME | Some s \<Rightarrow> as_type s)"
      using new_or_given [OF out, of m V_ASN1_GENERALIZEDTIME] o ASN1_STRING_type_new_ok [of m V_ASN1_GENERALIZEDTIME s0]
      by (auto simp: o0_def split: option.splits)
    define n where "n = as_length t + 2"
    have n: "0 \<le> n" "n < 2 ^ 31 - 1" "int_ck n = Some n" "int_ck (n + 1) = Some (n + 1)" "nat n = length ?x + 2"
      using l0 t(3) by (simp_all add: n_def int_ck_def)
    obtain c where c: "case c of None \<Rightarrow> m (9 + nat n) = None | Some b \<Rightarrow> block_ok b \<and> nat n < blk_size b"
      "\<And>data. ASN1_STRING_set m s0 data n = Some (case c of None \<Rightarrow> (False, s0) | Some b \<Rightarrow>
         (True, s0\<lparr>as_length := n, as_data := Some (case data of
            None \<Rightarrow> b | Some d \<Rightarrow> b\<lparr>blk_data := (memcpy (blk_data b) d (nat n))[nat n := 0]\<rparr>)\<rparr>))"
      by (rule ASN1_STRING_set_block [OF m s0(1) n(1,2)]) blast
    note def = ASN1_TIME_to_generalizedtime_def [of m t out] chk t(2) ut o0_def [symmetric] o n_def [symmetric] n(3,4) c(2)
    show ?thesis
    proof (cases c)
      case None
      then have "\<not> malloc_total m" using c(1) not_malloc_total [of m "9 + nat n"] n(2) by simp
      then show ?thesis using None by (intro exI [of _ None]) (simp add: def)
    next
      case (Some b)
      then have b: "block_ok b" "length ?x + 2 < length (blk_data b)" "length (blk_data b) = blk_size b"
        using c(1) n(5) by (simp_all add: block_ok_def)
      define cc where "cc = (if 53 \<le> mem_of t ! 0 then [49, 57, 0] else [50, 48, 0 :: u8])"
      have cc: "c_str cc = century ?x" "length (century ?x) = 2" "0 \<in> set cc" "0 \<notin> set (century ?x)"
        using xne mt by (auto simp: cc_def century_def nth_append hd_conv_nth)
      have nn: "nat (n + 1) = length ?x + 3" using n(1,5) by simp
      define m1 where "m1 = century ?x @ 0 # drop 3 (blk_data b)"
      have cpy: "OPENSSL_strlcpy (blk_data b) cc (nat (n + 1)) = Some (m1, 2)"
        using OPENSSL_strlcpy_spec [OF cc(3), of "nat (n + 1)" "blk_data b"] b cc nn by (simp add: m1_def numeral_3_eq_3)
      have m1: "c_str m1 = century ?x" "drop 2 m1 = 0 # drop 3 (blk_data b)"
        using cc(2) c_str_append [OF cc(4)] by (simp_all add: m1_def)
      have ct: "c_str (mem_of t) = ?x" using c_str_append [OF x0] by (simp add: mt)
      define m2 where "m2 = century ?x @ ?x @ 0 # drop (length ?x + 3) (blk_data b)"
      have "0 \<in> set (take (nat (n + 1)) m1)" using cc(2) nn by (simp add: m1_def)
      then have cat: "OPENSSL_strlcat m1 (mem_of t) (nat (n + 1)) = Some (m2, length ?x + 2)"
        using OPENSSL_strlcat_spec [of "nat (n + 1)" m1 "mem_of t"] b cc(2) nn
          OPENSSL_strlcpy_spec [of "mem_of t" "length ?x + 1" "0 # drop 3 (blk_data b)"]
        by (simp add: m1 c_str_append [OF x0] mt m2_def)
      define r where "r = s0\<lparr>as_length := n, as_data := Some (b\<lparr>blk_data := m2\<rparr>)\<rparr>"
      have "length m2 = blk_size b" using b cc(2) by (simp add: m2_def)
      moreover have m2: "take (nat n) m2 = century ?x @ ?x" "m2 ! nat n = 0"
        using n(5) cc(2) by (simp_all add: m2_def nth_append)
      moreover have "str_bytes r = take (nat n) m2" unfolding str_bytes_def [of r] by (simp add: r_def)
      ultimately have "terminated r \<and> str_bytes r = century ?x @ ?x"
        using b n by (simp add: r_def terminated_def string_ok_def block_ok_def)
      moreover have "ASN1_TIME_to_generalizedtime m t out = Some (Some r)"
        using Some cpy cat by (simp add: def mem_of_def [of "s0\<lparr>as_length := _, as_data := _\<rparr>"] cc_def [symmetric] r_def)
      ultimately show ?thesis using s0(2) \<open>utc_time ?x = Some z\<close> by (intro exI [of _ "Some r"]) (simp add: r_def)
    qed
  qed
qed

end
