(* ===== verification/Asn1_Time_Grammar.thy ===== *)
theory Asn1_Time_Grammar
  imports Asn1_Time_Print
begin

text \<open>The texts of times as an inductive grammar, and that the readers accept exactly these.\<close>

inductive zone_text :: "u8 list \<Rightarrow> int \<Rightarrow> bool" where
  local: "zone_text [] 0"
| utc: "zone_text [90] 0"
| east: "0 \<le> hh \<Longrightarrow> hh \<le> 12 \<Longrightarrow> 0 \<le> mm \<Longrightarrow> mm \<le> 59 \<Longrightarrow> zone_text (43 # dd hh @ dd mm) (hh * 3600 + mm * 60)"
| west: "0 \<le> hh \<Longrightarrow> hh \<le> 12 \<Longrightarrow> 0 \<le> mm \<Longrightarrow> mm \<le> 59 \<Longrightarrow> zone_text (45 # dd hh @ dd mm) (- (hh * 3600 + mm * 60))"

definition fraction_text :: "u8 list \<Rightarrow> bool" where
  "fraction_text f \<longleftrightarrow> f = [] \<or> (\<exists>ds. ds \<noteq> [] \<and> list_all (\<lambda>c. 48 \<le> c \<and> c \<le> 57) ds \<and> f = 46 # ds)"

text \<open>The fields that both forms share, month to minute.\<close>

fun in_range :: "clock \<Rightarrow> bool" where
  "in_range (y, mo, d, h, mi, s) \<longleftrightarrow>
     1 \<le> mo \<and> mo \<le> 12 \<and> 1 \<le> d \<and> d \<le> 31 \<and> 0 \<le> h \<and> h \<le> 23 \<and> 0 \<le> mi \<and> mi \<le> 59 \<and> 0 \<le> s \<and> s \<le> 59"

definition minutes_text :: "int \<Rightarrow> int \<Rightarrow> int \<Rightarrow> int \<Rightarrow> u8 list" where
  "minutes_text mo d h mi = dd mo @ dd d @ dd h @ dd mi"

inductive generalized_text :: "u8 list \<Rightarrow> clock \<Rightarrow> int \<Rightarrow> bool" where
  seconds: "0 \<le> y \<Longrightarrow> y \<le> 9999 \<Longrightarrow> in_range (y, mo, d, h, mi, s) \<Longrightarrow> fraction_text f \<Longrightarrow> zone_text z off \<Longrightarrow>
    generalized_text (dd (y div 100) @ dd (y mod 100) @ minutes_text mo d h mi @ dd s @ f @ z) (y, mo, d, h, mi, s) off"
| minutes: "0 \<le> y \<Longrightarrow> y \<le> 9999 \<Longrightarrow> in_range (y, mo, d, h, mi, 0) \<Longrightarrow> zone_text z off \<Longrightarrow> z \<noteq> [] \<Longrightarrow>
    generalized_text (dd (y div 100) @ dd (y mod 100) @ minutes_text mo d h mi @ z) (y, mo, d, h, mi, 0) off"

inductive utc_text :: "u8 list \<Rightarrow> clock \<Rightarrow> int \<Rightarrow> bool" where
  seconds: "1950 \<le> y \<Longrightarrow> y \<le> 2049 \<Longrightarrow> in_range (y, mo, d, h, mi, s) \<Longrightarrow> zone_text z off \<Longrightarrow>
    utc_text (dd (y mod 100) @ minutes_text mo d h mi @ dd s @ z) (y, mo, d, h, mi, s) off"
| minutes: "1950 \<le> y \<Longrightarrow> y \<le> 2049 \<Longrightarrow> in_range (y, mo, d, h, mi, 0) \<Longrightarrow> zone_text z off \<Longrightarrow> z \<noteq> [] \<Longrightarrow>
    utc_text (dd (y mod 100) @ minutes_text mo d h mi @ z) (y, mo, d, h, mi, 0) off"

section \<open>Zones and fractions\<close>

lemma zone_iff: "zone z = Some off \<longleftrightarrow> zone_text z off"
proof
  assume z: "zone z = Some off"
  show "zone_text z off"
  proof (cases "z = [] \<or> z = [90]")
    case True
    then show ?thesis using z zone_text.local zone_text.utc by (auto simp: zone_def)
  next
    case False
    then obtain c r hh mm where "z = c # r" "c = 43 \<or> c = 45" "field 0 12 r = Some (hh, dd mm)" "0 \<le> mm" "mm \<le> 59"
      "off = (if c = 43 then 1 else -1) * (hh * 3600 + mm * 60)"
      using z by (cases z) (auto simp: zone_def bind_eq_Some_conv field_iff split: if_splits)
    then show ?thesis using zone_text.east [of hh mm] zone_text.west [of hh mm] by (auto simp: field_iff)
  qed
next
  assume "zone_text z off"
  then show "zone z = Some off"
    by cases (auto simp: zone_def field_dd field_dd [of _ _ _ "[]", simplified])
qed

lemma zone_text_hd: "zone_text z off \<Longrightarrow> z = [] \<or> hd z \<in> {90, 43, 45}"
  by (auto elim: zone_text.cases)

lemma fraction_zone:
  assumes "zone_text z off"
  shows "fraction r = Some z \<longleftrightarrow> (\<exists>f. fraction_text f \<and> r = f @ z)"
proof
  assume r: "fraction r = Some z"
  show "\<exists>f. fraction_text f \<and> r = f @ z"
  proof (cases "r = [] \<or> hd r \<noteq> 46")
    case True
    then show ?thesis using r by (auto simp: fraction_def fraction_text_def)
  next
    case False
    let ?d = "\<lambda>c. 48 \<le> c \<and> c \<le> (57 :: u8)"
    have z: "dropWhile ?d (tl r) = z" "z \<noteq> tl r" using r False by (auto simp: fraction_def Let_def split: if_splits)
    have t: "tl r = takeWhile ?d (tl r) @ z" using takeWhile_dropWhile_id [of ?d "tl r"] z(1) by simp
    have "takeWhile ?d (tl r) \<noteq> []" using t z(2) by auto
    moreover have "list_all ?d (takeWhile ?d (tl r))" by (auto simp: list_all_iff dest: set_takeWhileD)
    ultimately have "fraction_text (46 # takeWhile ?d (tl r))" by (auto simp: fraction_text_def)
    moreover have "r = (46 # takeWhile ?d (tl r)) @ z" using False t by (cases r) auto
    ultimately show ?thesis by blast
  qed
next
  assume "\<exists>f. fraction_text f \<and> r = f @ z"
  then obtain f where f: "fraction_text f" "r = f @ z" by blast
  have dw: "dropWhile (\<lambda>c. 48 \<le> c \<and> c \<le> 57) z = z" using zone_text_hd [OF assms] by (cases z) auto
  show "fraction r = Some z"
  proof (cases "f = []")
    case True
    then show ?thesis using f zone_text_hd [OF assms] by (auto simp: fraction_def)
  next
    case False
    then obtain ds where ds: "ds \<noteq> []" "list_all (\<lambda>c. 48 \<le> c \<and> c \<le> 57) ds" "f = 46 # ds" using f(1) by (auto simp: fraction_text_def)
    then have "dropWhile (\<lambda>c. 48 \<le> c \<and> c \<le> 57) (ds @ z) = z" using dw by (subst dropWhile_append2) (auto simp: list_all_iff)
    then show ?thesis using ds f(2) by (simp add: fraction_def)
  qed
qed

section \<open>The clock readings\<close>

lemma seconds_iff:
  "seconds r = Some (s, r') \<longleftrightarrow> s = 0 \<and> r = r' \<and> r \<noteq> [] \<and> hd r \<in> {90, 43, 45} \<or> 0 \<le> s \<and> s \<le> 59 \<and> r = dd s @ r'"
  using dd_not_zone [of s r'] by (auto simp: seconds_def field_iff)

lemma day_and_time_iff:
  "day_and_time y r = Some (ck, r') \<longleftrightarrow> (\<exists>mo d h mi s. ck = (y, mo, d, h, mi, s) \<and> in_range ck \<and>
     (r = minutes_text mo d h mi @ dd s @ r' \<or> s = 0 \<and> r' \<noteq> [] \<and> hd r' \<in> {90, 43, 45} \<and> r = minutes_text mo d h mi @ r'))"
  by (auto simp: day_and_time_def bind_eq_Some_conv field_iff seconds_iff minutes_text_def)

lemma split_hundreds:
  "(\<exists>c y. 0 \<le> c \<and> c \<le> 99 \<and> 0 \<le> y \<and> y \<le> 99 \<and> P (c * 100 + y) c y) \<longleftrightarrow>
   (\<exists>Y. 0 \<le> Y \<and> Y \<le> 9999 \<and> P Y (Y div 100) (Y mod 100))" for P :: "int \<Rightarrow> int \<Rightarrow> int \<Rightarrow> bool"
proof
  assume "\<exists>c y. 0 \<le> c \<and> c \<le> 99 \<and> 0 \<le> y \<and> y \<le> 99 \<and> P (c * 100 + y) c y"
  then obtain c y where c: "0 \<le> c" "c \<le> 99" "0 \<le> y" "y \<le> 99" "P (c * 100 + y) c y" by blast
  moreover have "(c * 100 + y) div 100 = c" "(c * 100 + y) mod 100 = y" using c by simp_all
  ultimately show "\<exists>Y. 0 \<le> Y \<and> Y \<le> 9999 \<and> P Y (Y div 100) (Y mod 100)" by (intro exI [of _ "c * 100 + y"]) simp
next
  assume "\<exists>Y. 0 \<le> Y \<and> Y \<le> 9999 \<and> P Y (Y div 100) (Y mod 100)"
  then obtain Y where Y: "0 \<le> Y" "Y \<le> 9999" "P Y (Y div 100) (Y mod 100)" by blast
  moreover have "Y div 100 * 100 + Y mod 100 = Y" by simp
  moreover have "0 \<le> Y div 100" "Y div 100 \<le> 99" "0 \<le> Y mod 100" "Y mod 100 \<le> 99"
    using div_bounds [of Y 9999 100] pos_mod_bound [of 100 Y] Y by simp_all
  ultimately show "\<exists>c y. 0 \<le> c \<and> c \<le> 99 \<and> 0 \<le> y \<and> y \<le> 99 \<and> P (c * 100 + y) c y"
    by (intro exI [of _ "Y div 100"] exI [of _ "Y mod 100"]) simp
qed

lemma generalized_clock_iff:
  "generalized_clock x = Some (ck, r) \<longleftrightarrow>
     (\<exists>Y. 0 \<le> Y \<and> Y \<le> 9999 \<and> (\<exists>r1. x = dd (Y div 100) @ dd (Y mod 100) @ r1 \<and> day_and_time Y r1 = Some (ck, r)))"
  unfolding split_hundreds [symmetric, where P = "\<lambda>Y c y. \<exists>r1. x = dd c @ dd y @ r1 \<and> day_and_time Y r1 = Some (ck, r)"]
  by (auto simp: generalized_clock_def bind_eq_Some_conv field_iff)

lemma utc_year_iff: "(\<exists>y. 0 \<le> y \<and> y \<le> 99 \<and> P (utc_year y) y) \<longleftrightarrow> (\<exists>Y. 1950 \<le> Y \<and> Y \<le> 2049 \<and> P Y (Y mod 100))"
proof
  assume "\<exists>y. 0 \<le> y \<and> y \<le> 99 \<and> P (utc_year y) y"
  then obtain y where y: "0 \<le> y" "y \<le> 99" "P (utc_year y) y" by blast
  have "utc_year y mod 100 = y"
    using y mod_mult_self2 [of y 100 20] mod_mult_self2 [of y 100 19] mod_pos_pos_trivial [of y 100]
    by (simp add: utc_year_def add.commute)
  then show "\<exists>Y. 1950 \<le> Y \<and> Y \<le> 2049 \<and> P Y (Y mod 100)" using y by (intro exI [of _ "utc_year y"]) (auto simp: utc_year_def)
next
  assume "\<exists>Y. 1950 \<le> Y \<and> Y \<le> 2049 \<and> P Y (Y mod 100)"
  then obtain Y where Y: "1950 \<le> Y" "Y \<le> 2049" "P Y (Y mod 100)" by blast
  have "Y mod 100 = (if Y < 2000 then Y - 1900 else Y - 2000)"
  proof (cases "Y < 2000")
    case True
    then show ?thesis using Y(1) mod_pos_pos_trivial [of "Y - 1900" 100] mod_mult_self2 [of "Y - 1900" 100 19] by simp
  next
    case False
    then show ?thesis using Y(2) mod_pos_pos_trivial [of "Y - 2000" 100] mod_mult_self2 [of "Y - 2000" 100 20] by simp
  qed
  then show "\<exists>y. 0 \<le> y \<and> y \<le> 99 \<and> P (utc_year y) y"
    using Y by (intro exI [of _ "Y mod 100"]) (auto simp: utc_year_def split: if_splits)
qed

lemma utc_clock_iff:
  "utc_clock x = Some (ck, r) \<longleftrightarrow>
     (\<exists>Y. 1950 \<le> Y \<and> Y \<le> 2049 \<and> (\<exists>r1. x = dd (Y mod 100) @ r1 \<and> day_and_time Y r1 = Some (ck, r)))"
  unfolding utc_year_iff [symmetric, where P = "\<lambda>Y y. \<exists>r1. x = dd y @ r1 \<and> day_and_time Y r1 = Some (ck, r)"]
  by (auto simp: utc_clock_def bind_eq_Some_conv field_iff)

section \<open>Whole texts\<close>

lemma zone_text_unique: "zone_text z off \<Longrightarrow> zone_text z off' \<Longrightarrow> off' = off"
  by (simp add: zone_iff [symmetric])

lemma generalized_time_iff: "generalized_time x = Some (ck, off) \<longleftrightarrow> generalized_text x ck off"
proof
  assume "generalized_time x = Some (ck, off)"
  then obtain r z where r: "generalized_clock x = Some (ck, r)" "fraction r = Some z" "zone z = Some off"
    by (auto simp: generalized_time_def bind_eq_Some_conv)
  then have z: "zone_text z off" by (simp add: zone_iff)
  obtain f where f: "fraction_text f" "r = f @ z" using r(2) fraction_zone [OF z] by blast
  obtain y r1 where y: "0 \<le> y" "y \<le> 9999" "x = dd (y div 100) @ dd (y mod 100) @ r1" "day_and_time y r1 = Some (ck, r)"
    using r(1) unfolding generalized_clock_iff by blast
  obtain mo d h mi s where ck: "ck = (y, mo, d, h, mi, s)" "in_range ck"
    and w: "r1 = minutes_text mo d h mi @ dd s @ r \<or> s = 0 \<and> r \<noteq> [] \<and> hd r \<in> {90, 43, 45} \<and> r1 = minutes_text mo d h mi @ r"
    using y(4) unfolding day_and_time_iff by blast
  from w show "generalized_text x ck off"
  proof
    assume "r1 = minutes_text mo d h mi @ dd s @ r"
    then show ?thesis using generalized_text.seconds [of y mo d h mi s f z off] y ck f z by simp
  next
    assume a: "s = 0 \<and> r \<noteq> [] \<and> hd r \<in> {90, 43, 45} \<and> r1 = minutes_text mo d h mi @ r"
    then have "f = []" using f by (auto simp: fraction_text_def)
    then show ?thesis using generalized_text.minutes [of y mo d h mi z off] y ck f z a by simp
  qed
next
  assume "generalized_text x ck off"
  then show "generalized_time x = Some (ck, off)"
  proof cases
    case (seconds y mo d h mi s f z)
    have "day_and_time y (minutes_text mo d h mi @ dd s @ f @ z) = Some (ck, f @ z)"
      using seconds unfolding day_and_time_iff by blast
    then have "generalized_clock x = Some (ck, f @ z)" using seconds unfolding generalized_clock_iff by blast
    moreover have "fraction (f @ z) = Some z" using seconds fraction_zone [of z off "f @ z"] by blast
    ultimately show ?thesis using seconds by (simp add: generalized_time_def zone_iff [symmetric])
  next
    case (minutes y mo d h mi z)
    have h: "hd z \<in> {90, 43, 45}" using zone_text_hd [OF minutes(6)] minutes(7) by blast
    then have "day_and_time y (minutes_text mo d h mi @ z) = Some (ck, z)"
      using minutes unfolding day_and_time_iff by blast
    then have "generalized_clock x = Some (ck, z)" using minutes unfolding generalized_clock_iff by blast
    moreover have "fraction z = Some z" using h by (auto simp: fraction_def)
    ultimately show ?thesis using minutes by (simp add: generalized_time_def zone_iff [symmetric])
  qed
qed

lemma utc_time_iff: "utc_time x = Some (ck, off) \<longleftrightarrow> utc_text x ck off"
proof
  assume "utc_time x = Some (ck, off)"
  then obtain z where r: "utc_clock x = Some (ck, z)" "zone z = Some off"
    by (auto simp: utc_time_def bind_eq_Some_conv)
  then have z: "zone_text z off" by (simp add: zone_iff)
  obtain y r1 where y: "1950 \<le> y" "y \<le> 2049" "x = dd (y mod 100) @ r1" "day_and_time y r1 = Some (ck, z)"
    using r(1) unfolding utc_clock_iff by blast
  then show "utc_text x ck off"
    using utc_text.seconds [of y _ _ _ _ _ z off] utc_text.minutes [of y _ _ _ _ z off] z
    unfolding day_and_time_iff by (elim exE conjE disjE) simp_all
next
  assume "utc_text x ck off"
  then show "utc_time x = Some (ck, off)"
  proof cases
    case (seconds y mo d h mi s z)
    have "day_and_time y (minutes_text mo d h mi @ dd s @ z) = Some (ck, z)"
      using seconds unfolding day_and_time_iff by blast
    then have "utc_clock x = Some (ck, z)" using seconds unfolding utc_clock_iff by blast
    then show ?thesis using seconds by (simp add: utc_time_def zone_iff [symmetric])
  next
    case (minutes y mo d h mi z)
    have "hd z \<in> {90, 43, 45}" using zone_text_hd [OF minutes(6)] minutes(7) by blast
    then have "day_and_time y (minutes_text mo d h mi @ z) = Some (ck, z)"
      using minutes unfolding day_and_time_iff by blast
    then have "utc_clock x = Some (ck, z)" using minutes unfolding utc_clock_iff by blast
    then show ?thesis using minutes by (simp add: utc_time_def zone_iff [symmetric])
  qed
qed

section \<open>What the readers give\<close>

text \<open>The clock reading and the offset that the text of a time of either type denotes.\<close>

definition time_denotes :: "asn1_string_st \<Rightarrow> clock \<Rightarrow> int \<Rightarrow> bool" where
  "time_denotes d ck off \<longleftrightarrow>
     as_type d = V_ASN1_GENERALIZEDTIME \<and> generalized_text (str_bytes d) ck off \<or>
     as_type d = V_ASN1_UTCTIME \<and> utc_text (str_bytes d) ck off"

lemma utc_not_generalized: "V_ASN1_UTCTIME \<noteq> V_ASN1_GENERALIZEDTIME"
  by (simp add: V_ASN1_UTCTIME_def V_ASN1_GENERALIZEDTIME_def)

lemma time_denotes_unique: "time_denotes d ck off \<Longrightarrow> time_denotes d ck' off' \<Longrightarrow> ck' = ck \<and> off' = off"
  using utc_not_generalized by (auto simp: time_denotes_def generalized_time_iff [symmetric] utc_time_iff [symmetric])

lemma time_denotes_ok:
  assumes "time_denotes d ck off"
  shows "tm_ok (tm_of ck)" "\<bar>off\<bar> < 2 ^ 31"
proof -
  have "\<exists>x r z. (generalized_clock x = Some (ck, r) \<or> utc_clock x = Some (ck, r)) \<and> zone z = Some off"
    using assms
    by (auto simp: time_denotes_def generalized_time_iff [symmetric] utc_time_iff [symmetric] generalized_time_def utc_time_def
        bind_eq_Some_conv simp del: tm_of.simps)
  then obtain x r z where x: "generalized_clock x = Some (ck, r) \<or> utc_clock x = Some (ck, r)" "zone z = Some off" by blast
  then show "tm_ok (tm_of ck)" using generalized_clock_ok utc_clock_ok by blast
  show "\<bar>off\<bar> < 2 ^ 31" using x(2) by (auto simp: zone_def field_iff bind_eq_Some_conv split: if_splits)
qed

lemma asn1_time_to_tm_outcome:
  assumes "terminated d"
  shows "asn1_time_to_tm now tm (Some d) =
    (if as_type d = V_ASN1_UTCTIME then outcome (Some tm) (utc_time (str_bytes d))
     else if as_type d = V_ASN1_GENERALIZEDTIME then outcome (Some tm) (generalized_time (str_bytes d)) else Reject)"
  using assms by (simp add: asn1_time_to_tm_def utc_reads generalized_reads)

lemma resolve_spec:
  assumes "tm_ok (tm_of ck)" "\<bar>off\<bar> < 2 ^ 31"
  shows "case resolve (ck, off) of
      None \<Rightarrow> off \<noteq> 0 \<and> (\<forall>t. tm_valid t \<longrightarrow> tm_secs t = tm_secs (tm_of ck) - off \<longrightarrow> tm_year t < 0 \<or> 8099 < tm_year t)
    | Some t \<Rightarrow> tm_secs t = tm_secs (tm_of ck) - off \<and> (if off = 0 then t = tm_of ck else tm_valid t)"
proof (cases "off = 0")
  case False
  obtain r where "OPENSSL_gmtime_adj (tm_of ck) 0 (- off) = Some r"
    "\<And>t. r = Some t \<Longrightarrow> tm_valid t \<and> tm_secs t = tm_secs (tm_of ck) - off \<and> 0 \<le> tm_year t \<and> tm_year t \<le> 8099"
    "\<And>t. r = None \<Longrightarrow> tm_valid t \<Longrightarrow> tm_secs t = tm_secs (tm_of ck) - off \<Longrightarrow> tm_year t < 0 \<or> 8099 < tm_year t"
    using OPENSSL_gmtime_adj_spec [OF assms(1), of 0 "- off" "tm_secs (tm_of ck) - off"] assms(2) by (auto simp del: tm_of.simps)
  then show ?thesis using False by (auto simp: resolve_def split: option.splits)
qed (simp add: resolve_def)

lemma times_read:
  assumes "terminated d"
  shows "case asn1_time_to_tm now tm (Some d) of
      Fault \<Rightarrow> False
    | Reject \<Rightarrow> \<forall>ck off. time_denotes d ck off \<longrightarrow> off \<noteq> 0 \<and>
        (\<forall>t. tm_valid t \<longrightarrow> tm_secs t = tm_secs (tm_of ck) - off \<longrightarrow> tm_year t < 0 \<or> 8099 < tm_year t)
    | Done t' \<Rightarrow> \<exists>ck off t. time_denotes d ck off \<and> t' = Some t \<and> tm_secs t = tm_secs (tm_of ck) - off \<and>
        (if off = 0 then t = tm_of ck else tm_valid t)"
proof (cases "\<exists>ck off. time_denotes d ck off")
  case True
  then obtain ck off where d: "time_denotes d ck off" by blast
  then have e: "asn1_time_to_tm now tm (Some d) = outcome (Some tm) (Some (ck, off))"
    using utc_not_generalized assms
    by (auto simp: asn1_time_to_tm_outcome time_denotes_def generalized_time_iff [symmetric] utc_time_iff [symmetric])
  show ?thesis
  proof (cases "resolve (ck, off)")
    case None
    then show ?thesis
      using resolve_spec [OF time_denotes_ok [OF d]] time_denotes_unique [OF d] by (simp add: e outcome_def) blast
  next
    case (Some t)
    then show ?thesis
      using resolve_spec [OF time_denotes_ok [OF d]] d
      unfolding e outcome_def by (simp del: split_paired_Ex tm_of.simps) (intro exI [of _ ck] exI [of _ off], auto)
  qed
next
  case False
  then have n: "\<not> time_denotes d (fst x) (snd x)" for x by blast
  have "generalized_time (str_bytes d) \<noteq> Some x" if "as_type d = V_ASN1_GENERALIZEDTIME" for x
    using n [of x] that by (simp add: time_denotes_def generalized_time_iff [symmetric])
  moreover have "utc_time (str_bytes d) \<noteq> Some x" if "as_type d = V_ASN1_UTCTIME" for x
    using n [of x] that by (simp add: time_denotes_def utc_time_iff [symmetric])
  ultimately have "as_type d = V_ASN1_GENERALIZEDTIME \<Longrightarrow> generalized_time (str_bytes d) = None"
    "as_type d = V_ASN1_UTCTIME \<Longrightarrow> utc_time (str_bytes d) = None"
    by (meson not_None_eq)+
  then have "asn1_time_to_tm now tm (Some d) = Reject" by (simp add: asn1_time_to_tm_outcome [OF assms] outcome_def)
  then show ?thesis using False by simp
qed

lemma ASN1_TIME_check_spec:
  assumes "terminated d"
  shows "ASN1_TIME_check d = (if \<exists>ck off. time_denotes d ck off then Done () else Reject)"
proof -
  have o: "seq (outcome None r) (\<lambda>_. Done ()) = (if r = None then Reject else Done ())" for r
    by (cases r) (simp_all add: outcome_def)
  consider "as_type d = V_ASN1_UTCTIME" | "as_type d = V_ASN1_GENERALIZEDTIME"
    | "as_type d \<noteq> V_ASN1_UTCTIME" "as_type d \<noteq> V_ASN1_GENERALIZEDTIME" by blast
  then show ?thesis
  proof cases
    case 1
    then have "ASN1_TIME_check d = (if utc_time (str_bytes d) = None then Reject else Done ())"
      using utc_not_generalized by (simp add: ASN1_TIME_check_def ASN1_UTCTIME_check_def utc_reads [OF assms] o)
    then show ?thesis using 1 utc_not_generalized by (auto simp: time_denotes_def utc_time_iff [symmetric])
  next
    case 2
    then have "ASN1_TIME_check d = (if generalized_time (str_bytes d) = None then Reject else Done ())"
      by (simp add: ASN1_TIME_check_def ASN1_GENERALIZEDTIME_check_def generalized_reads [OF assms] o)
    then show ?thesis using 2 utc_not_generalized by (auto simp: time_denotes_def generalized_time_iff [symmetric])
  next
    case 3
    then show ?thesis by (simp add: ASN1_TIME_check_def time_denotes_def)
  qed
qed

lemma ASN1_UTCTIME_cmp_time_t_spec:
  assumes d: "terminated d" "as_type d = V_ASN1_UTCTIME" "time_denotes d ck off"
    and t: "- 100000000000 \<le> t" "t \<le> 10000000000000" and ok: "resolve (ck, off) = Some ts"
  shows "ASN1_UTCTIME_cmp_time_t stm d t = Some (sgn (tm_secs ts - (EPOCH + t)))"
proof -
  obtain tt where tt: "OPENSSL_gmtime t = Some tt" "tm_valid tt" "tm_secs tt = EPOCH + t"
    by (rule gmtime_spec [OF t])
  have r: "asn1_utctime_to_tm (Some stm) d = Done (Some ts)"
    using d(3) ok utc_not_generalized by (simp add: utc_reads [OF d(1,2)] time_denotes_def d(2) outcome_def utc_time_iff [symmetric])
  have "tm_ok ts" using time_denotes_ok [OF d(3)] resolve_spec [of ck off] ok by (auto simp: tm_valid_def split: if_splits)
  moreover have "tm_ok tt" using tt(2) by (simp add: tm_valid_def)
  ultimately obtain D S where "OPENSSL_gmtime_diff tt ts = Some (Some (D, S))" "86400 * D + S = tm_secs ts - tm_secs tt"
      "\<bar>S\<bar> < 86400" "0 < D \<Longrightarrow> 0 \<le> S" "D < 0 \<Longrightarrow> S \<le> 0"
    using OPENSSL_gmtime_diff_spec by blast
  then show ?thesis using tt by (auto simp: ASN1_UTCTIME_cmp_time_t_def r sgn_if)
qed

end
