(* ===== verification/Asn1_Header.thy ===== *)
theory Asn1_Header
  imports Parse Der C_Int
begin

text \<open>
  The headers of elements in \<^verbatim>\<open>crypto/asn1/asn1_lib.c\<close>: the older parser, which takes BER, and the writer.
\<close>

section \<open>Code\<close>

definition V_ASN1_UNIVERSAL :: u8 where
  "V_ASN1_UNIVERSAL = 0x00"

definition V_ASN1_PRIVATE :: u8 where
  "V_ASN1_PRIVATE = 0xc0"

definition V_ASN1_CONSTRUCTED :: u8 where
  "V_ASN1_CONSTRUCTED = 0x20"

definition V_ASN1_PRIMITIVE_TAG :: u8 where
  "V_ASN1_PRIMITIVE_TAG = 0x1f"

definition V_ASN1_MAX_UNIVERSAL :: int where
  "V_ASN1_MAX_UNIVERSAL = 0xff"

text \<open>The loop over the octets of a length.\<close>

fun length_octets :: "nat \<Rightarrow> u64 \<Rightarrow> u8 list \<Rightarrow> (u64 \<times> u8 list) parse" where
  "length_octets 0 ret p = Done (ret, p)"
| "length_octets (Suc i) ret p = seq (next_byte p) (\<lambda>(c, p). length_octets i (push_bit 8 ret OR ucast c) p)"

text \<open>\<open>*inf\<close>, \<open>*rl\<close> and the advanced pointer.\<close>

definition asn1_get_length :: "u8 list \<Rightarrow> int \<Rightarrow> (bool \<times> int \<times> u8 list) parse" where
  "asn1_get_length p n =
     (if n < 1 then Reject
      else
        seq (next_byte p) (\<lambda>(c, p).
        seq (if c = 0x80 then Done (True, 0, p)
             else
               let i = c AND 0x7f in
               if c AND 0x80 \<noteq> 0 then
                 (if 8 < unat i \<or> n - 1 < int (unat i) then Reject
                  else seq (length_octets (unat i) 0 p) (\<lambda>(ret, p). Done (False, ret, p)))
               else Done (False, ucast i, p)) (\<lambda>(indef, ret, p).
        if INT_MAX div 2 < unat ret then Reject else Done (indef, int (unat ret), p))))"

text \<open>The loop over a tag number of several octets: the number, the pointer and what is left of the bound.\<close>

fun high_tag :: "u64 \<Rightarrow> int \<Rightarrow> u8 list \<Rightarrow> (u64 \<times> u8 list \<times> int) parse" where
  "high_tag l n [] = Fault"
| "high_tag l n (c # p) =
     (let l' = push_bit 7 l OR ucast (c AND 0x7f) in
      if c AND 0x80 \<noteq> 0 then
        (if n - 1 = 0 then Reject else if INT_MAX div 128 < unat l' then Reject else high_tag l' (n - 1) p)
      else if n - 1 = 0 then Reject else Done (l', p, n - 1))"

text \<open>The tag number, from the low bits \<open>i\<close> of the first octet and what follows.\<close>

definition tag_number :: "u8 \<Rightarrow> u8 list \<Rightarrow> int \<Rightarrow> (int \<times> u8 list \<times> int) parse" where
  "tag_number i p n =
     (if n - 1 = 0 then Reject
      else if i = V_ASN1_PRIMITIVE_TAG then seq (high_tag 0 (n - 1) p) (\<lambda>(l, p, n). Done (to_int (int (unat l)), p, n))
      else Done (int (unat i), p, n - 1))"

text \<open>
  What \<open>ASN1_get_object\<close> gives besides its failure \<open>0x80\<close>: the result, \<open>*plength\<close>, \<open>*ptag\<close>, \<open>*pclass\<close>
  and the pointer.
\<close>

record asn1_object =
  ao_ret :: u8
  ao_length :: int
  ao_tag :: int
  ao_class :: u8
  ao_rest :: "u8 list"

definition ASN1_get_object :: "u8 list \<Rightarrow> int \<Rightarrow> asn1_object parse" where
  "ASN1_get_object pp omax =
     (if omax = 0 then Reject
      else
        seq (next_byte pp) (\<lambda>(c, p).
        let ret = c AND V_ASN1_CONSTRUCTED; xclass = c AND V_ASN1_PRIVATE; i = c AND V_ASN1_PRIMITIVE_TAG in
        seq (tag_number i p omax) (\<lambda>(tag, p, n).
        if xclass = V_ASN1_UNIVERSAL \<and> V_ASN1_MAX_UNIVERSAL < tag then Reject
        else
          seq (asn1_get_length p n) (\<lambda>(indef, plength, p).
            if indef \<and> ret AND V_ASN1_CONSTRUCTED = 0 then Reject
            else
              let ret = (if omax - (int (length pp) - int (length p)) < plength then ret OR 0x80 else ret) in
              Done \<lparr>ao_ret = ret OR (if indef then 1 else 0), ao_length = plength, ao_tag = tag, ao_class = xclass, ao_rest = p\<rparr>))))"

text \<open>Digits of a number in a base that is a power of two, as the shifts count them.\<close>

function shift_count :: "nat \<Rightarrow> int \<Rightarrow> nat" where
  "shift_count k n = (if 0 < n \<and> 0 < k then Suc (shift_count k (drop_bit k n)) else 0)"
  by pat_completeness auto
termination
proof (relation "measure (\<lambda>(k, n). nat n)")
  fix k :: nat and n :: int
  assume "0 < n \<and> 0 < k"
  then have "n div 2 ^ k < n" by (intro int_div_less_self) (simp_all add: one_less_power)
  then show "((k, drop_bit k n), k, n) \<in> measure (\<lambda>(k, n). nat n)" using \<open>0 < n \<and> 0 < k\<close> by (simp add: drop_bit_eq_div)
qed simp

declare shift_count.simps [simp del]

text \<open>The octets that the code stores from the last to the first.\<close>

fun put_octets :: "nat \<Rightarrow> int \<Rightarrow> u8 list \<Rightarrow> u8 list" where
  "put_octets 0 n p = p"
| "put_octets (Suc i) n p = put_octets i (drop_bit 8 n) (word_of_int (n AND 0xff) # p)"

definition asn1_put_length :: "int \<Rightarrow> u8 list" where
  "asn1_put_length len =
     (if len \<le> 127 then [word_of_int len]
      else let l = shift_count 8 len in (word_of_nat l OR 0x80) # put_octets l len [])"

fun put_tag :: "nat \<Rightarrow> nat \<Rightarrow> int \<Rightarrow> u8 list \<Rightarrow> u8 list" where
  "put_tag 0 ttag tag p = p"
| "put_tag (Suc i) ttag tag p =
     (let b = word_of_int (tag AND 0x7f) in
      put_tag i ttag (drop_bit 7 tag) ((if i \<noteq> ttag - 1 then b OR 0x80 else b) # p))"

text \<open>What is written at \<open>*pp\<close>. \<open>constructed\<close> is 2 for the indefinite length.\<close>

definition ASN1_put_object :: "int \<Rightarrow> int \<Rightarrow> int \<Rightarrow> u8 \<Rightarrow> u8 list" where
  "ASN1_put_object constructed len tag xclass =
     (let i = (if constructed \<noteq> 0 then V_ASN1_CONSTRUCTED else 0) OR (xclass AND V_ASN1_PRIVATE) in
      (if tag < 31 then [i OR (word_of_int tag AND V_ASN1_PRIMITIVE_TAG)]
       else let ttag = shift_count 7 tag in (i OR V_ASN1_PRIMITIVE_TAG) # put_tag ttag ttag tag []) @
      (if constructed = 2 then [0x80] else asn1_put_length len))"

definition ASN1_put_eoc :: "u8 list" where
  "ASN1_put_eoc = [0, 0]"

text \<open>The size of an element, or -1.\<close>

definition ASN1_object_size :: "int \<Rightarrow> int \<Rightarrow> int \<Rightarrow> int" where
  "ASN1_object_size constructed len tag =
     (if len < 0 then -1
      else
        let ret = 1 + (if 31 \<le> tag then int (shift_count 7 tag) else 0);
            ret = (if constructed = 2 then ret + 3 else ret + 1 + (if 127 < len then int (shift_count 8 len) else 0)) in
        if int INT_MAX - len \<le> ret then -1 else ret + len)"


section \<open>The parser stays in its bound\<close>

lemma length_octets_eq:
  "length_octets i ret p =
     (if i \<le> length p then Done (foldl (\<lambda>r b. push_bit 8 r OR ucast b) ret (take i p), drop i p) else Fault)"
proof (induction i arbitrary: ret p)
  case (Suc i)
  then show ?case by (cases p) (auto simp: next_byte_def)
qed simp

lemma length_octets_cbs:
  "length_octets i 0 p = (case cbs_get_u p i of None \<Rightarrow> Fault | Some (v, r) \<Rightarrow> Done (v, r))"
  by (auto simp: length_octets_eq cbs_get_u_def cbs_get_def)

lemma asn1_get_length_bound:
  assumes "n \<le> int (length p)"
  shows "case asn1_get_length p n of
      Fault \<Rightarrow> False
    | Reject \<Rightarrow> True
    | Done (indef, len, p') \<Rightarrow> (\<exists>x. p = x @ p' \<and> int (length x) \<le> n) \<and> 0 \<le> len \<and> len \<le> int INT_MAX div 2"
proof (cases "n < 1")
  case False
  then obtain c r where p: "p = c # r" using assms by (cases p) auto
  have one: "\<exists>x. c # r = x @ r \<and> int (length x) \<le> n" using False by (intro exI [of _ "[c]"]) simp
  have some: "\<exists>x. c # r = x @ drop k r \<and> int (length x) \<le> n" if "k \<le> length r" "int k \<le> n - 1" for k
    using that by (intro exI [of _ "c # take k r"]) simp
  have len: "int (unat v) \<le> int INT_MAX div 2" if "\<not> INT_MAX div 2 < unat v" for v :: u64
    using that by (metis not_less of_nat_le_iff zdiv_int of_nat_numeral)
  have "uint (c AND 0x7f) < 2 ^ LENGTH(8)" by (rule unsigned_less)
  moreover have conv: "\<not> unat (c AND 0x7f) \<le> length r \<longrightarrow> int (length r) < uint (c AND 0x7f)"
    using uint_nat [of "c AND 0x7f"] by linarith
  ultimately have small: "uint (c AND 0x7f) \<le> int INT_MAX div 2" by (simp add: INT_MAX_def)
  show ?thesis
    using False assms one some len small conv by (auto simp: asn1_get_length_def p Let_def length_octets_eq)
qed (simp add: asn1_get_length_def)

lemma high_tag_bound:
  assumes "0 < n" "n \<le> int (length p)"
  shows "case high_tag l n p of
      Fault \<Rightarrow> False
    | Reject \<Rightarrow> True
    | Done (l', p', n') \<Rightarrow> \<exists>x. p = x @ p' \<and> n = n' + int (length x) \<and> 0 < n'"
  using assms
proof (induction l n p rule: high_tag.induct)
  case (2 l n c p)
  show ?case
  proof (cases "c AND 0x80 = 0 \<or> n - 1 = 0 \<or> INT_MAX div 128 < unat (push_bit 7 l OR ucast (c AND 0x7f))")
    case True
    then show ?thesis using "2.prems" by (auto simp: Let_def intro!: exI [of _ "[c]"])
  next
    case False
    let ?l = "push_bit 7 l OR ucast (c AND 0x7f)"
    have IH: "case high_tag ?l (n - 1) p of Fault \<Rightarrow> False | Reject \<Rightarrow> True
      | Done (l', p', n') \<Rightarrow> \<exists>x. p = x @ p' \<and> n - 1 = n' + int (length x) \<and> 0 < n'"
      using "2.IH" [OF refl] False "2.prems" by auto
    have e: "high_tag l n (c # p) = high_tag ?l (n - 1) p" using False by (simp add: Let_def)
    show ?thesis
    proof (cases "high_tag ?l (n - 1) p")
      case (Done r)
      then obtain l' p' n' x where "r = (l', p', n')" "p = x @ p'" "n - 1 = n' + int (length x)" "0 < n'"
        using IH by (cases r) auto
      then show ?thesis using Done unfolding e by (auto intro!: exI [of _ "c # x"])
    qed (use IH e in simp_all)
  qed
qed simp



text \<open>
  With a bound that the memory covers nothing is read behind it. What is left is behind the header, and
  unless the result says otherwise, the contents fit the bound too.
\<close>

lemma ASN1_get_object_bound:
  assumes "0 \<le> omax" "omax \<le> int (length pp)"
  shows "case ASN1_get_object pp omax of
      Fault \<Rightarrow> False
    | Reject \<Rightarrow> True
    | Done r \<Rightarrow> \<exists>h. pp = h @ ao_rest r \<and> int (length h) \<le> omax \<and> 0 \<le> ao_length r \<and>
        (ao_ret r AND 0x80 = 0 \<longrightarrow> int (length h) + ao_length r \<le> omax)"
proof (cases "omax = 0")
  case False
  then obtain c p where pp: "pp = c # p" using assms by (cases pp) auto
  define T where "T = tag_number (c AND V_ASN1_PRIMITIVE_TAG) p omax"
  have T: "case T of Fault \<Rightarrow> False | Reject \<Rightarrow> True
      | Done (tag, p', n') \<Rightarrow> \<exists>x. p = x @ p' \<and> omax - 1 = n' + int (length x) \<and> 0 < n'"
  proof (cases "omax - 1 = 0")
    case True
    then show ?thesis by (simp add: T_def tag_number_def)
  next
    case nz: False
    have "0 < omax - 1" "omax - 1 \<le> int (length p)" using nz False assms by (simp_all add: pp)
    from high_tag_bound [OF this, of 0] show ?thesis
      using nz False assms by (auto simp: T_def tag_number_def split: parse.splits)
  qed
  show ?thesis
  proof (cases T)
    case Fault
    then show ?thesis using T by simp
  next
    case Reject
    then show ?thesis using False by (simp add: ASN1_get_object_def pp Let_def T_def [symmetric])
  next
    case (Done r)
    then obtain tag p1 n1 x where r: "r = (tag, p1, n1)" and x: "p = x @ p1" "omax - 1 = n1 + int (length x)" "0 < n1"
      using T by (cases r) auto
    have "n1 \<le> int (length p1)" using assms x by (simp add: pp)
    note L = asn1_get_length_bound [OF this]
    show ?thesis
    proof (cases "asn1_get_length p1 n1")
      case Fault
      then show ?thesis using L by simp
    next
      case Reject
      then show ?thesis using False Done by (simp add: ASN1_get_object_def pp Let_def T_def [symmetric] r)
    next
      case D: (Done q)
      then obtain indef len p2 y where q: "q = (indef, len, p2)" and y: "p1 = y @ p2" "int (length y) \<le> n1" "0 \<le> len"
        using L by (cases q) auto
      have "pp = (c # x @ y) @ p2" "int (length (c # x @ y)) \<le> omax" using x y by (simp_all add: pp)
      moreover have "((v OR 0x80) OR w) AND 0x80 \<noteq> (0 :: u8)" for v w
      proof -
        have "bit (((v OR 0x80) OR w) AND 0x80) 7" by (simp add: bit_simps)
        then show ?thesis by (metis bit_0_eq bot_apply bot_bool_def)
      qed
      moreover have "ASN1_get_object pp omax =
          (if c AND V_ASN1_PRIVATE = V_ASN1_UNIVERSAL \<and> V_ASN1_MAX_UNIVERSAL < tag \<or>
              indef \<and> (c AND V_ASN1_CONSTRUCTED) AND V_ASN1_CONSTRUCTED = 0 then Reject
           else Done \<lparr>ao_ret = (if omax - (int (length pp) - int (length p2)) < len then (c AND V_ASN1_CONSTRUCTED) OR 0x80
                           else c AND V_ASN1_CONSTRUCTED) OR (if indef then 1 else 0),
                  ao_length = len, ao_tag = tag, ao_class = c AND V_ASN1_PRIVATE, ao_rest = p2\<rparr>)"
        using False Done by (simp add: ASN1_get_object_def pp Let_def T_def [symmetric] r D q)
      ultimately show ?thesis using y(3) by (auto intro!: exI [of _ "c # x @ y"])
    qed
  qed
qed (simp add: ASN1_get_object_def)



section \<open>Writing and reading back\<close>

text \<open>The identifier octets: \<open>f\<close> holds the class and the constructed bit.\<close>

definition id_octets :: "u8 \<Rightarrow> nat \<Rightarrow> u8 list" where
  "id_octets f n = (if n < 31 then [f OR word_of_nat n] else (f OR V_ASN1_PRIMITIVE_TAG) # base128 n)"

lemma put_octets_be: "0 \<le> n \<Longrightarrow> put_octets i n p = be_bytes i (nat n) @ p"
proof (induction i arbitrary: n p)
  case (Suc i)
  have "word_of_int (n AND 0xff) = (word_of_nat (nat n) :: u8)"
  proof -
    have "n AND 0xff = take_bit 8 n" by (simp add: take_bit_eq_mask mask_eq_exp_minus_1)
    then have "(word_of_int (n AND 0xff) :: u8) = word_of_int n" by (simp add: word_of_int_eq_iff)
    then show ?thesis using Suc.prems by simp
  qed
  moreover have "nat (drop_bit 8 n) = nat n div 256" using Suc.prems by (simp add: drop_bit_eq_div nat_div_distrib)
  moreover have "0 \<le> drop_bit 8 n" using Suc.prems by simp
  ultimately show ?case using Suc.IH [of "drop_bit 8 n"] by simp
qed simp

lemma shift_count_pos: "0 < n \<Longrightarrow> 0 < k \<Longrightarrow> shift_count k n = Suc (shift_count k (drop_bit k n))"
  by (subst shift_count.simps) simp

lemma shift_count_0: "n \<le> 0 \<Longrightarrow> shift_count k n = 0"
  by (subst shift_count.simps) simp

lemma shift_count_nbytes: "0 < n \<Longrightarrow> shift_count 8 (int n) = nbytes n"
proof (induction n rule: nbytes.induct)
  case (1 n)
  have e: "drop_bit 8 (int n) = int (n div 256)" by (simp add: drop_bit_eq_div zdiv_int)
  show ?case
  proof (cases "n < 256")
    case True
    then show ?thesis using 1(2) by (simp add: shift_count_pos e shift_count_0 nbytes.simps [of n])
  next
    case False
    then have "0 < n div 256" by (simp add: div_greater_zero_iff)
    then show ?thesis using 1 False by (simp add: shift_count_pos e nbytes.simps [of n])
  qed
qed

lemma asn1_put_length_der: "0 \<le> n \<Longrightarrow> n < 2 ^ 31 \<Longrightarrow> asn1_put_length n = der_len (nat n)"
proof -
  assume n: "0 \<le> n" "n < 2 ^ 31"
  show ?thesis
  proof (cases "n \<le> 127")
    case True
    then have "nat n < 128" using n by simp
    then show ?thesis using n True by (simp add: asn1_put_length_def der_len_def)
  next
    case False
    have c: "shift_count 8 n = nbytes (nat n)" using shift_count_nbytes [of "nat n"] False by simp
    have "nbytes (nat n) \<le> 4" using nbytes_le_4 [of "nat n"] n by simp
    then have "nbytes (nat n) = 1 \<or> nbytes (nat n) = 2 \<or> nbytes (nat n) = 3 \<or> nbytes (nat n) = 4"
      using nbytes_pos [of "nat n"] by linarith
    then have "(word_of_nat (nbytes (nat n)) OR 0x80 :: u8) = word_of_nat (128 + nbytes (nat n))" by auto
    moreover have "\<not> nat n < 128" using False by simp
    ultimately show ?thesis using False n by (simp add: asn1_put_length_def der_len_def Let_def c put_octets_be)
  qed
qed

lemma drop_bit_7: "drop_bit 7 (int n) = int (n div 128)"
  by (simp add: drop_bit_eq_div zdiv_int)

lemma digit_7f: "word_of_int (int n AND 0x7f) = (word_of_nat (n mod 128) :: u8)"
proof -
  have "int n AND 0x7f = take_bit 7 (int n)" by (simp add: take_bit_eq_mask mask_eq_exp_minus_1)
  then have "int n AND 0x7f = int (n mod 128)" by (simp add: take_bit_eq_mod zmod_int)
  then show ?thesis by simp
qed

lemma put_tag_cont:
  "shift_count 7 (int n) < ttag \<Longrightarrow> put_tag (shift_count 7 (int n)) ttag (int n) p = base128_cont n @ p"
proof (induction n arbitrary: p rule: base128_cont.induct)
  case (1 n)
  show ?case
  proof (cases "n = 0")
    case False
    have s: "shift_count 7 (int n) = Suc (shift_count 7 (int (n div 128)))" using False by (simp add: shift_count_pos drop_bit_7)
    have "(word_of_nat (n mod 128) OR 0x80 :: u8) = word_of_nat (128 + n mod 128)"
    proof -
      have z: "word_of_nat (n mod 128) AND 0x80 = (0 :: u8)" unfolding and_80_zero by (simp add: unat_of_nat_u8_small)
      have "(0x80 OR word_of_nat (n mod 128) :: u8) = 0x80 + word_of_nat (n mod 128)"
        by (rule disjunctive_add_eq_or [symmetric]) (use z in \<open>simp add: and.commute\<close>)
      then show ?thesis by (simp add: or.commute)
    qed
    then show ?thesis
      using "1.IH" [OF False] "1.prems" False unfolding s
      by (simp add: digit_7f drop_bit_7 Let_def base128_cont.simps [of n])
  qed (simp add: shift_count_0)
qed

lemma put_tag_base128:
  assumes "0 < n"
  shows "put_tag (shift_count 7 (int n)) (shift_count 7 (int n)) (int n) [] = base128 n"
proof -
  have s: "shift_count 7 (int n) = Suc (shift_count 7 (int (n div 128)))" using assms by (simp add: shift_count_pos drop_bit_7)
  show ?thesis unfolding s using put_tag_cont [of "n div 128"] by (simp add: digit_7f drop_bit_7 base128_def)
qed

lemma ASN1_put_object_octets:
  assumes "0 \<le> len" "len < 2 ^ 31" "0 \<le> tag"
  shows "ASN1_put_object constructed len tag xclass =
    id_octets ((if constructed \<noteq> 0 then V_ASN1_CONSTRUCTED else 0) OR (xclass AND V_ASN1_PRIVATE)) (nat tag) @
    (if constructed = 2 then [0x80] else der_len (nat len))"
proof -
  have small: "word_of_int tag AND V_ASN1_PRIMITIVE_TAG = (word_of_nat (nat tag) :: u8)" if "tag < 31"
  proof -
    have "unat (word_of_nat (nat tag) :: u8) = nat tag" using that by (intro unat_of_nat_u8_small) simp
    then have "unat (word_of_nat (nat tag) AND V_ASN1_PRIMITIVE_TAG :: u8) = nat tag"
      using that by (simp add: V_ASN1_PRIMITIVE_TAG_def unat_and_1f)
    then show ?thesis using assms(3) u8_of_unat by fastforce
  qed
  show ?thesis
  proof (cases "tag < 31")
    case True
    then have "nat tag < 31" by simp
    then show ?thesis using True assms(1,2) small by (simp add: ASN1_put_object_def id_octets_def asn1_put_length_der Let_def)
  next
    case False
    then have "\<not> nat tag < 31" "put_tag (shift_count 7 tag) (shift_count 7 tag) tag [] = base128 (nat tag)"
      using put_tag_base128 [of "nat tag"] by simp_all
    then show ?thesis using False assms(1,2) by (simp add: ASN1_put_object_def id_octets_def asn1_put_length_der Let_def)
  qed
qed


lemma high_tag_cont:
  assumes "m \<le> INT_MAX div 128" "int (length (base128_cont m)) < n"
  shows "high_tag 0 n (base128_cont m @ ys) = high_tag (word_of_nat m) (n - int (length (base128_cont m))) ys"
  using assms
proof (induction m arbitrary: ys rule: base128_cont.induct)
  case (1 m)
  show ?case
  proof (cases "m = 0")
    case False
    let ?b = "word_of_nat (128 + m mod 128) :: u8" and ?v = "word_of_nat (m div 128) :: u64"
    have m: "m \<le> 16777215" using "1.prems" by (simp add: INT_MAX_def)
    have v: "unat ?v = m div 128" using m by (intro unat_word_of_nat_u64) simp
    have b: "unat ?b = 128 + m mod 128" by (rule unat_of_nat_u8_small) simp
    have hi: "?b AND 0x80 \<noteq> 0" unfolding and_80_zero b by simp
    have small: "unat ?v < 2 ^ 57" using m unfolding v by simp
    have u: "unat (push_bit 7 ?v OR ucast (?b AND 0x7f)) = m" unfolding parse_base128_loop_step [OF small] unfolding v b by simp
    then have v': "push_bit 7 ?v OR ucast (?b AND 0x7f) = word_of_nat m" by (rule u64_of_unat)
    have l: "base128_cont m = base128_cont (m div 128) @ [?b]" using False by (subst base128_cont.simps) simp
    have "m div 128 \<le> INT_MAX div 128" using m by (simp add: INT_MAX_def)
    then have "high_tag 0 n (base128_cont m @ ys) = high_tag ?v (n - int (length (base128_cont (m div 128)))) (?b # ys)"
      using "1.IH" [OF False, of "?b # ys"] "1.prems"(2) by (simp add: l)
    also have "\<dots> = high_tag (word_of_nat m) (n - int (length (base128_cont m))) ys"
      using hi u v' "1.prems" by (simp add: Let_def l diff_diff_eq add.commute)
    finally show ?thesis .
  qed simp
qed

lemma high_tag_base128:
  assumes "m < 2 ^ 31" "int (length (base128 m)) < n"
  shows "high_tag 0 n (base128 m @ ys) = Done (word_of_nat m, ys, n - int (length (base128 m)))"
proof -
  let ?b = "word_of_nat (m mod 128) :: u8" and ?v = "word_of_nat (m div 128) :: u64"
  have d: "m div 128 \<le> 16777215" using assms(1) by (simp add: less_Suc_eq_le [symmetric] div_less_iff_less_mult)
  have v: "unat ?v = m div 128" using d by (intro unat_word_of_nat_u64) simp
  have b: "unat ?b = m mod 128" by (rule unat_of_nat_u8_small) (rule less_trans [of _ 128], simp_all)
  have lo: "?b AND 0x80 = 0" unfolding and_80_zero b by simp
  have "unat (push_bit 7 ?v OR ucast (?b AND 0x7f)) = m"
    using parse_base128_loop_step [of ?v ?b] d unfolding v b by simp
  then have v': "push_bit 7 ?v OR ucast (?b AND 0x7f) = word_of_nat m" by (rule u64_of_unat)
  show ?thesis
    using high_tag_cont [of "m div 128" n "?b # ys"] d assms(2) lo v' by (simp add: base128_def Let_def INT_MAX_def)
qed

lemma asn1_get_length_der:
  assumes "k \<le> INT_MAX div 2" "int (length (der_len k)) \<le> n"
  shows "asn1_get_length (der_len k @ r) n = Done (False, int k, r)"
proof (cases "k < 128")
  case True
  let ?c = "word_of_nat k :: u8"
  have c: "unat ?c = k" by (rule unat_of_nat_u8_small) (use True in simp)
  have "?c \<noteq> 0x80" using c True by auto
  moreover have "?c AND 0x80 = 0" unfolding and_80_zero c using True .
  moreover have "unat (?c AND 0x7f) = k" unfolding unat_and_7f c using True by simp
  moreover have "int (unat (?c AND 0x7f)) = int k" using calculation(3) by simp
  moreover have "\<not> INT_MAX div 2 < unat (?c AND 0x7f)" using calculation(3) assms(1) by simp
  ultimately show ?thesis using assms True by (simp add: asn1_get_length_def der_len_def Let_def)
next
  case False
  let ?j = "nbytes k" and ?c = "word_of_nat (128 + nbytes k) :: u8"
  have k: "k < 2 ^ 30" using assms(1) by (simp add: INT_MAX_def)
  then have j: "1 \<le> ?j" "?j \<le> 4" using nbytes_pos [of k] nbytes_le_4 [of k] by simp_all
  have c: "unat ?c = 128 + ?j" by (rule unat_of_nat_u8_small) (use j in simp)
  have ne: "?c \<noteq> 0x80" using c j by auto
  have hi: "?c AND 0x80 \<noteq> 0" unfolding and_80_zero c by simp
  have i: "unat (?c AND 0x7f) = ?j" unfolding unat_and_7f c using j by simp
  have v: "unat (word_of_nat k :: u64) = k" by (rule unat_word_of_nat_u64) (use k in simp)
  have "k < 256 ^ ?j" using nbytes_bounds [of k] False by simp
  then have "cbs_get_u (be_bytes ?j k @ r) ?j = Some (word_of_nat k, r)"
    using j by (subst cbs_get_u_Some) (auto simp: v)
  moreover have "uint (?c AND 0x7f) = int ?j" using i by (simp only: uint_nat)
  ultimately show ?thesis
    using False assms ne hi i v j
    by (simp add: asn1_get_length_def der_len_def Let_def length_octets_cbs del: of_nat_add)
qed



lemma id_octet_parts:
  assumes "f AND 0x1f = (0 :: u8)" "x AND 0x1f = x"
  shows "(f OR x) AND V_ASN1_PRIMITIVE_TAG = x" "(f OR x) AND V_ASN1_CONSTRUCTED = f AND V_ASN1_CONSTRUCTED"
    "(f OR x) AND V_ASN1_PRIVATE = f AND V_ASN1_PRIVATE"
proof -
  have z: "x AND 0x20 = 0" "x AND 0xc0 = 0"
    using assms(2) and.assoc [of x "0x1f" "0x20"] and.assoc [of x "0x1f" "0xc0"] by simp_all
  show "(f OR x) AND V_ASN1_PRIMITIVE_TAG = x" "(f OR x) AND V_ASN1_CONSTRUCTED = f AND V_ASN1_CONSTRUCTED"
    "(f OR x) AND V_ASN1_PRIVATE = f AND V_ASN1_PRIVATE"
    using assms z by (simp_all add: bit.conj_disj_distrib2 V_ASN1_PRIMITIVE_TAG_def V_ASN1_CONSTRUCTED_def V_ASN1_PRIVATE_def)
qed

lemma low_octet:
  assumes "n < 32"
  shows "word_of_nat n AND 0x1f = (word_of_nat n :: u8)" "unat (word_of_nat n :: u8) = n"
proof -
  show u: "unat (word_of_nat n :: u8) = n" by (rule unat_of_nat_u8_small) (use assms in simp)
  show "word_of_nat n AND 0x1f = (word_of_nat n :: u8)"
    by (rule word_unat_eq_iff [THEN iffD2]) (simp only: unat_and_1f u, use assms in simp)
qed

lemma ASN1_get_object_reads:
  assumes f: "f AND 0x1f = 0" and n: "n < 2 ^ 31" and k: "k \<le> INT_MAX div 2"
    and hl: "hl = int (length (id_octets f n @ der_len k))" "hl \<le> omax"
    and universal: "f AND V_ASN1_PRIVATE = V_ASN1_UNIVERSAL \<Longrightarrow> n \<le> 255"
  shows "ASN1_get_object (id_octets f n @ der_len k @ r) omax =
    Done \<lparr>ao_ret = (if omax - hl < int k then (f AND V_ASN1_CONSTRUCTED) OR 0x80 else f AND V_ASN1_CONSTRUCTED),
      ao_length = int k, ao_tag = int n, ao_class = f AND V_ASN1_PRIVATE, ao_rest = r\<rparr>"
proof -
  obtain c q where c: "id_octets f n = c # q"
    by (cases "id_octets f n") (auto simp: id_octets_def split: if_splits)
  have len: "0 < length (der_len k)" by (simp add: der_len_def)
  have one: "omax \<noteq> 1" using hl len unfolding c by (simp only: length_append length_Cons)
  let ?n = "omax - int (length (id_octets f n))"
  have parts: "c AND V_ASN1_CONSTRUCTED = f AND V_ASN1_CONSTRUCTED" "c AND V_ASN1_PRIVATE = f AND V_ASN1_PRIVATE"
    and t: "tag_number (c AND V_ASN1_PRIMITIVE_TAG) (q @ der_len k @ r) omax = Done (int n, der_len k @ r, ?n)"
  proof -
    have "c AND V_ASN1_CONSTRUCTED = f AND V_ASN1_CONSTRUCTED \<and> c AND V_ASN1_PRIVATE = f AND V_ASN1_PRIVATE \<and>
      tag_number (c AND V_ASN1_PRIMITIVE_TAG) (q @ der_len k @ r) omax = Done (int n, der_len k @ r, ?n)"
    proof (cases "n < 31")
      case True
      have x: "word_of_nat n AND 0x1f = (word_of_nat n :: u8)" "unat (word_of_nat n :: u8) = n" by (rule low_octet; use True in simp)+
      have cq: "c = f OR word_of_nat n" "q = []" using c True by (simp_all add: id_octets_def)
      have ne: "word_of_nat n \<noteq> V_ASN1_PRIMITIVE_TAG" using x(2) True by (auto simp: V_ASN1_PRIMITIVE_TAG_def)
      have "uint (word_of_nat n :: u8) = int n" using x(2) by (simp only: uint_nat)
      then show ?thesis
        using id_octet_parts [OF f x(1)] ne one c by (simp add: cq tag_number_def)
    next
      case False
      have cq: "c = f OR V_ASN1_PRIMITIVE_TAG" "q = base128 n" using c False by (simp_all add: id_octets_def)
      have w: "unat (word_of_nat n :: u64) = n" by (rule unat_word_of_nat_u64) (use n in simp)
      have h: "high_tag 0 (omax - 1) (base128 n @ der_len k @ r) = Done (word_of_nat n, der_len k @ r, omax - 1 - int (length (base128 n)))"
      proof (rule high_tag_base128 [OF n])
        have "hl = 1 + int (length (base128 n)) + int (length (der_len k))" using hl(1) c by (simp add: cq)
        then show "int (length (base128 n)) < omax - 1" using hl(2) len by linarith
      qed
      have "omax - 1 \<noteq> 0" using one by simp
      moreover have "to_int (int (unat (word_of_nat n :: u64))) = int n" unfolding w by (rule to_int_id) (use n in simp_all)
      ultimately show ?thesis
        using id_octet_parts [OF f, of V_ASN1_PRIMITIVE_TAG] c
        by (simp add: cq tag_number_def h V_ASN1_PRIMITIVE_TAG_def)
    qed
    then show "c AND V_ASN1_CONSTRUCTED = f AND V_ASN1_CONSTRUCTED" "c AND V_ASN1_PRIVATE = f AND V_ASN1_PRIVATE"
      "tag_number (c AND V_ASN1_PRIMITIVE_TAG) (q @ der_len k @ r) omax = Done (int n, der_len k @ r, ?n)" by blast+
  qed
  have g: "asn1_get_length (der_len k @ r) ?n = Done (False, int k, r)"
    by (rule asn1_get_length_der) (use k hl in simp_all)
  have u: "\<not> (f AND V_ASN1_PRIVATE = V_ASN1_UNIVERSAL \<and> V_ASN1_MAX_UNIVERSAL < int n)"
    using universal by (auto simp: V_ASN1_MAX_UNIVERSAL_def)
  have l: "int (length (id_octets f n @ der_len k @ r)) - int (length r) = hl" by (simp add: hl)
  have nz: "omax \<noteq> 0" using hl len unfolding length_append by linarith
  show ?thesis
    using nz u l
    using g by (simp add: ASN1_get_object_def c parts t Let_def del: length_append)
qed



section \<open>What the two parsers and the writer have in common\<close>

lemma class_octet:
  "((if constructed \<noteq> 0 then V_ASN1_CONSTRUCTED else 0) OR (xclass AND V_ASN1_PRIVATE)) AND 0x1f = 0" for constructed :: int
  by (simp add: bit.conj_disj_distrib2 and.assoc V_ASN1_PRIVATE_def V_ASN1_CONSTRUCTED_def)

lemma shift_count_le: "n < 2 ^ (k * j) \<Longrightarrow> shift_count k n \<le> j"
proof (induction j arbitrary: n)
  case 0
  then show ?case by (simp add: shift_count_0)
next
  case (Suc j)
  have "2 ^ k * (n div 2 ^ k) + n mod 2 ^ k = n" by simp
  moreover have "0 \<le> n mod 2 ^ k" by simp
  moreover have "n < 2 ^ k * 2 ^ (k * j)" using Suc.prems by (simp add: power_add)
  ultimately have "2 ^ k * (n div 2 ^ k) < 2 ^ k * 2 ^ (k * j)" by linarith
  then have "n div 2 ^ k < 2 ^ (k * j)" by (rule mult_left_less_imp_less) simp
  then show ?case using Suc.IH [of "n div 2 ^ k"] by (subst shift_count.simps) (simp add: drop_bit_eq_div)
qed

lemma length_base128: "0 < n \<Longrightarrow> length (base128 n) = shift_count 7 (int n)"
proof -
  have cont: "length (base128_cont n) = shift_count 7 (int n)" for n
  proof (induction n rule: base128_cont.induct)
    case (1 n)
    then show ?case by (cases "n = 0") (simp_all add: shift_count_0 shift_count_pos drop_bit_7 base128_cont.simps [of n])
  qed
  assume "0 < n"
  then show ?thesis by (simp add: base128_def cont shift_count_pos drop_bit_7)
qed

lemma ASN1_object_size_octets:
  assumes "0 \<le> len" "0 \<le> tag" "tag < 2 ^ 31" "len < 2 ^ 31 - 16"
  shows "ASN1_object_size constructed len tag =
    int (length (ASN1_put_object constructed len tag xclass)) + len + (if constructed = 2 then 2 else 0)"
proof -
  have e: "int (length (id_octets f (nat tag))) = 1 + (if 31 \<le> tag then int (shift_count 7 tag) else 0)" for f
    using assms(2) length_base128 [of "nat tag"] by (simp add: id_octets_def nat_less_iff)
  have l: "int (length (der_len (nat len))) = 1 + (if 127 < len then int (shift_count 8 len) else 0)"
    using assms(1) shift_count_nbytes [of "nat len"] by (simp add: der_len_def nat_less_iff)
  have s: "shift_count 7 tag \<le> 5" "shift_count 8 len \<le> 4"
    using shift_count_le [of tag 7 5] shift_count_le [of len 8 4] assms by simp_all
  have "len < 2 ^ 31" using assms(4) by simp
  note p = ASN1_put_object_octets [OF assms(1) this assms(2), of constructed xclass]
  show ?thesis
    using assms(1,4) s
    by (simp add: p ASN1_object_size_def e l Let_def INT_MAX_def)
qed

text \<open>The bits of the class and the constructed bit of a tag of the newer parser, and its number.\<close>

lemma der_tag_octets:
  "der_tag tag = id_octets (word_of_nat (unat tag div 2 ^ 29 * 32)) (unat tag mod 2 ^ 29)"
proof -
  define c n where "c = unat tag div 2 ^ 29" and "n = unat tag mod 2 ^ 29"
  have c: "c < 8" unfolding c_def by (rule u32_class_less)
  have z: "word_of_nat (c * 32) AND x = (0 :: u8)" if "x AND 0x1f = x" for x
  proof -
    have u: "unat (word_of_nat (c * 32) :: u8) = c * 32" by (rule unat_of_nat_u8_small) (use c in simp)
    have "unat (word_of_nat (c * 32) AND 0x1f :: u8) = 0" unfolding unat_and_1f u by simp
    then have "word_of_nat (c * 32) AND 0x1f = (0 :: u8)" by (simp add: unsigned_eq_0_iff)
    then show ?thesis using that and.left_commute [of "word_of_nat (c * 32)" x "0x1f"] by (metis and.commute and_zero_eq)
  qed
  have "word_of_nat (c * 32 + m) = (word_of_nat (c * 32) OR word_of_nat m :: u8)" if "m < 32" for m
    using disjunctive_add_eq_or [OF z [OF low_octet(1) [OF that]]] by simp
  from this [of n] this [of 31] show ?thesis
    unfolding c_def n_def by (simp add: der_tag_def id_octets_def Let_def V_ASN1_PRIMITIVE_TAG_def)
qed



text \<open>The parsers agree: what \<open>CBS_get_any_asn1_element\<close> takes, \<open>ASN1_get_object\<close> reads in the same way.\<close>

lemma parsers_agree:
  assumes get: "CBS_get_any_asn1_element cbs = Some (el, tag, hl, rest)"
    and small: "length el \<le> hl + INT_MAX div 2"
    and universal: "unat tag div 2 ^ 30 = 0 \<longrightarrow> unat tag mod 2 ^ 29 \<le> 255"
  shows "\<exists>r. ASN1_get_object cbs (int (length cbs)) = Done r \<and> ao_tag r = int (unat tag mod 2 ^ 29) \<and>
    unat (ao_class r) = unat tag div 2 ^ 30 * 64 \<and> unat (ao_ret r) = unat tag div 2 ^ 29 mod 2 * 32 \<and>
    int hl + ao_length r = int (length el) \<and> ao_rest r = drop hl el @ rest"
proof -
  obtain c where el: "el = der tag c" "cbs = el @ rest" and hl: "hl = der_header_len tag (length c)"
    using get unfolding CBS_get_any_asn1_element_iff by blast
  define t where "t = unat tag div 2 ^ 29"
  have t: "t < 8" unfolding t_def by (rule u32_class_less)
  let ?f = "word_of_nat (t * 32) :: u8" and ?n = "unat tag mod 2 ^ 29"
  have f: "unat ?f = t * 32" by (rule unat_of_nat_u8_small) (use t in simp)
  have tags: "t = 0 \<or> t = 1 \<or> t = 2 \<or> t = 3 \<or> t = 4 \<or> t = 5 \<or> t = 6 \<or> t = 7" using t by linarith
  have "unat (?f AND 0x1f) = 0" unfolding unat_and_1f f by simp
  then have f0: "?f AND 0x1f = 0" by (simp add: unsigned_eq_0_iff)
  have cls: "unat (?f AND V_ASN1_PRIVATE) = t div 2 * 64" "unat (?f AND V_ASN1_CONSTRUCTED) = t mod 2 * 32"
    using tags by (auto simp: V_ASN1_PRIVATE_def V_ASN1_CONSTRUCTED_def)
  have t2: "unat tag div 2 ^ 30 = t div 2" by (simp add: t_def flip: div_mult2_eq)
  have n: "?n < 2 ^ 31" by (rule less_trans [of _ "2 ^ 29"]) simp_all
  have len: "length c \<le> INT_MAX div 2" using small by (simp add: el length_der hl)
  have cbs: "cbs = id_octets ?f ?n @ der_len (length c) @ c @ rest"
    by (simp add: el der_def der_tag_octets t_def)
  have h: "hl = length (id_octets ?f ?n @ der_len (length c))" by (simp add: hl der_header_len_def der_tag_octets t_def)
  have u: "?f AND V_ASN1_PRIVATE = V_ASN1_UNIVERSAL \<Longrightarrow> ?n \<le> 255"
    using universal cls(1) unfolding t2 by (simp add: V_ASN1_UNIVERSAL_def)
  have fits: "int hl \<le> int (length cbs)" "\<not> int (length cbs) - int hl < int (length c)" by (simp_all add: cbs h)
  have "ASN1_get_object cbs (int (length cbs)) =
    Done \<lparr>ao_ret = ?f AND V_ASN1_CONSTRUCTED, ao_length = int (length c), ao_tag = int ?n,
      ao_class = ?f AND V_ASN1_PRIVATE, ao_rest = c @ rest\<rparr>"
    using ASN1_get_object_reads [OF f0 n len _ fits(1) u, of "c @ rest"] fits(2)
    by (simp only: cbs [symmetric] h [symmetric] if_False simp_thms)
  then show ?thesis
    using cls unfolding t2 t_def [symmetric] by (simp add: el hl length_der drop_der)
qed

text \<open>What is written reads back.\<close>

lemma put_get_object:
  assumes "0 \<le> len" "len \<le> int INT_MAX div 2" "0 \<le> tag" "tag < 2 ^ 31" "constructed \<noteq> 2"
    and "xclass AND V_ASN1_PRIVATE = V_ASN1_UNIVERSAL \<Longrightarrow> tag \<le> 255" and "len \<le> int (length r)"
    and p: "p = ASN1_put_object constructed len tag xclass"
  shows "ASN1_get_object (p @ r) (int (length (p @ r))) =
    Done \<lparr>ao_ret = (if constructed \<noteq> 0 then V_ASN1_CONSTRUCTED else 0), ao_length = len, ao_tag = tag,
      ao_class = xclass AND V_ASN1_PRIVATE, ao_rest = r\<rparr>"
proof -
  define f where "f = (if constructed \<noteq> 0 then V_ASN1_CONSTRUCTED else 0) OR (xclass AND V_ASN1_PRIVATE)"
  have f: "f AND 0x1f = 0" unfolding f_def by (rule class_octet)
  have fp: "f AND V_ASN1_PRIVATE = xclass AND V_ASN1_PRIVATE"
    "f AND V_ASN1_CONSTRUCTED = (if constructed \<noteq> 0 then V_ASN1_CONSTRUCTED else 0)"
    by (simp_all add: f_def bit.conj_disj_distrib2 and.assoc V_ASN1_PRIVATE_def V_ASN1_CONSTRUCTED_def)
  have e: "p = id_octets f (nat tag) @ der_len (nat len)"
    using ASN1_put_object_octets [of len tag constructed xclass] assms by (simp add: f_def INT_MAX_def)
  have "ASN1_get_object (id_octets f (nat tag) @ der_len (nat len) @ r) (int (length (p @ r))) =
    Done \<lparr>ao_ret = (if int (length (p @ r)) - int (length p) < int (nat len) then (f AND V_ASN1_CONSTRUCTED) OR 0x80
        else f AND V_ASN1_CONSTRUCTED), ao_length = int (nat len), ao_tag = int (nat tag), ao_class = f AND V_ASN1_PRIVATE, ao_rest = r\<rparr>"
    by (rule ASN1_get_object_reads [OF f]) (use assms in \<open>auto simp: e fp INT_MAX_def nat_less_iff\<close>)
  then show ?thesis using assms(1,3,7) by (simp add: e fp)
qed


end
