(* ===== verification/Asn1_Integer.thy ===== *)
theory Asn1_Integer
  imports Asn1_String Der_Int
begin

text \<open>
  \<^verbatim>\<open>crypto/asn1/a_int.c\<close>: integers of any size, as a sign in the type of a string and the octets of the
  magnitude, most significant first; and their contents octets, which are in two's complement.
\<close>

section \<open>Code\<close>

definition V_ASN1_NEG :: int where
  "V_ASN1_NEG = 0x100"

definition V_ASN1_INTEGER :: int where
  "V_ASN1_INTEGER = 2"

definition V_ASN1_NEG_INTEGER :: int where
  "V_ASN1_NEG_INTEGER = 2 OR V_ASN1_NEG"

definition ASN1_INTEGER_dup :: "allocator \<Rightarrow> asn1_string_st option \<Rightarrow> asn1_string_st option option" where
  "ASN1_INTEGER_dup m x = ASN1_STRING_dup m x"

definition ASN1_INTEGER_cmp :: "asn1_string_st \<Rightarrow> asn1_string_st \<Rightarrow> int" where
  "ASN1_INTEGER_cmp x y =
     (let neg = as_type x AND V_ASN1_NEG in
      if neg \<noteq> as_type y AND V_ASN1_NEG then (if neg \<noteq> 0 then -1 else 1)
      else
        let ret = ASN1_STRING_cmp x y in
        if neg \<noteq> 0 then - ret else ret)"

text \<open>Loops that walk from the last octet to the first; \<open>to\<close> is what is already stored.\<close>

fun complement_loop :: "u8 list \<Rightarrow> u8 list \<Rightarrow> u8 list" where
  "complement_loop [] to = to"
| "complement_loop (n # src) to = complement_loop src ((n XOR 0xff) # to)"

fun negate_loop :: "u8 list \<Rightarrow> u8 list \<Rightarrow> u8 list" where
  "negate_loop [] to = to"
| "negate_loop (n # src) to =
     (if n = 0 \<and> src \<noteq> [] then negate_loop src (0 # to) else complement_loop src (((n XOR 0xff) + 1) # to))"

text \<open>
  The result and the octets written at \<open>*pp\<close>, when that is not NULL. \<open>None\<close>: overflow, or octets at NULL.
\<close>

definition i2c_ASN1_INTEGER :: "asn1_string_st option \<Rightarrow> (int \<times> u8 list) option" where
  "i2c_ASN1_INTEGER a =
     (case a of
        None \<Rightarrow> Some (0, [])
      | Some a \<Rightarrow>
          if as_length a = 0 then Some (1, [0])
          else
            do {
              data \<leftarrow> data_of a;
              let i = data ! 0;
              let neg = (as_type a AND V_ASN1_NEG \<noteq> 0 \<and> \<not> (as_length a = 1 \<and> i = 0));
              let pad =
                (if \<not> neg \<and> 127 < i then [0]
                 else if neg \<and> (128 < i \<or> i = 128 \<and> list_ex (\<lambda>j. data ! j \<noteq> 0) [1..<nat (as_length a)]) then [0xff]
                 else []);
              ret \<leftarrow> int_ck (as_length a + int (length pad));
              let octets = take (nat (as_length a)) data;
              Some (ret, pad @ (if \<not> neg then octets else negate_loop (rev octets) []))
            })"

text \<open>
  The type and the magnitude of contents octets. When all octets behind a leading \<open>0xff\<close> are zero, the magnitude
  has one octet more, which is then stored in front of the zeros.
\<close>

fun c2i_negate :: "u8 list \<Rightarrow> u8 list \<Rightarrow> u8 list" where
  "c2i_negate [] to = 1 # to"
| "c2i_negate (p # src) to =
     (if p = 0 then c2i_negate src (0 # to) else complement_loop src (((p XOR 0xff) + 1) # to))"

definition c2i_octets :: "u8 list \<Rightarrow> int \<times> u8 list" where
  "c2i_octets p =
     (if p = [] then (V_ASN1_INTEGER, [])
      else if p ! 0 AND 0x80 \<noteq> 0 then
        (V_ASN1_NEG_INTEGER, c2i_negate (rev (if p ! 0 = 0xff \<and> length p \<noteq> 1 then tl p else p)) [])
      else (V_ASN1_INTEGER, if p ! 0 = 0 \<and> length p \<noteq> 1 then tl p else p))"

text \<open>
  \<open>a\<close> is \<open>*a\<close>, \<open>None\<close> when that or \<open>a\<close> is NULL; \<open>pp\<close> is the memory at \<open>*pp\<close>. The result is the object, if any,
  and the memory at the advanced \<open>*pp\<close>.
\<close>

definition c2i_ASN1_INTEGER ::
    "allocator \<Rightarrow> asn1_string_st option \<Rightarrow> u8 list \<Rightarrow> int \<Rightarrow> asn1_string_st option \<times> u8 list" where
  "c2i_ASN1_INTEGER m a pp len =
     (if len < 0 \<or> int INT_MAX div 2 < len then (None, pp)
      else
        case (case a of None \<Rightarrow> ASN1_STRING_type_new m V_ASN1_INTEGER | Some ret \<Rightarrow> Some ret) of
          None \<Rightarrow> (None, pp)
        | Some ret \<Rightarrow>
            (case OPENSSL_malloc m (nat len + 1) of
               None \<Rightarrow> (None, pp)
             | Some s \<Rightarrow>
                 let (ty, octets) = c2i_octets (take (nat len) pp);
                     s = s\<lparr>blk_data := memcpy (blk_data s) octets (length octets)\<rparr>
                 in (Some (ret\<lparr>as_type := ty, as_data := Some s, as_length := int (length octets)\<rparr>), drop (nat len) pp)))"

function leading_zeros :: "u8 list \<Rightarrow> nat \<Rightarrow> nat" where
  "leading_zeros data i = (if i < 7 \<and> data ! i = 0 then leading_zeros data (i + 1) else i)"
  by pat_completeness auto
termination by (relation "measure (\<lambda>(data, i). 7 - i)") auto

declare leading_zeros.simps [simp del]

text \<open>The bytes of a \<open>uint64_t\<close> in memory, which is little-endian.\<close>

definition u64_bytes :: "u64 \<Rightarrow> u8 list" where
  "u64_bytes v = rev (be_bytes 8 (unat v))"

definition ASN1_INTEGER_set_uint64 :: "allocator \<Rightarrow> asn1_string_st \<Rightarrow> u64 \<Rightarrow> bool \<times> asn1_string_st" where
  "ASN1_INTEGER_set_uint64 m out v =
     (case OPENSSL_malloc m 8 of
        None \<Rightarrow> (False, out)
      | Some newdata \<Rightarrow>
          let data = memcpy (blk_data newdata) (u64_bytes (CRYPTO_bswap8 v)) 8;
              zeros = leading_zeros data 0;
              len = 8 - zeros;
              data = memcpy data (drop zeros data) len
          in (True, out\<lparr>as_data := Some (newdata\<lparr>blk_data := data\<rparr>), as_type := V_ASN1_INTEGER, as_length := int len\<rparr>))"

text \<open>\<open>v\<close> is a \<open>long\<close>.\<close>

definition ASN1_INTEGER_set :: "allocator \<Rightarrow> asn1_string_st \<Rightarrow> int \<Rightarrow> bool \<times> asn1_string_st" where
  "ASN1_INTEGER_set m a v =
     (if 0 \<le> v then ASN1_INTEGER_set_uint64 m a (word_of_int v)
      else
        case ASN1_INTEGER_set_uint64 m a (0 - word_of_int v) of
          (ok, a) \<Rightarrow> if \<not> ok then (False, a) else (True, a\<lparr>as_type := V_ASN1_NEG_INTEGER\<rparr>))"

definition ASN1_INTEGER_get :: "asn1_string_st option \<Rightarrow> int" where
  "ASN1_INTEGER_get a =
     (case a of
        None \<Rightarrow> 0
      | Some a \<Rightarrow>
          let neg = (as_type a = V_ASN1_NEG_INTEGER) in
          if \<not> neg \<and> as_type a \<noteq> V_ASN1_INTEGER then -1
          else if 8 < as_length a then -1
          else
            let r64 = (case data_of a of
                         None \<Rightarrow> 0
                       | Some d \<Rightarrow> foldl (\<lambda>r i. push_bit 8 r OR ucast (d ! i)) (0 :: u64) [0..<nat (as_length a)])
            in if 2 ^ 63 \<le> int (unat r64) then -1 else if neg then - int (unat r64) else int (unat r64))"


section \<open>Negation of octets\<close>

lemma xor_ff: "n XOR 0xff = NOT (n :: u8)"
proof -
  have "NOT n = n XOR - 1" by simp
  moreover have "(- 1 :: u8) = 0xff" by simp
  ultimately show ?thesis by simp
qed

lemma complement_loop_eq: "complement_loop src to = map NOT (rev src) @ to"
  by (induction src arbitrary: to) (simp_all add: xor_ff)

lemma unat_negated_octet: "n \<noteq> 0 \<Longrightarrow> unat ((n XOR 0xff) + 1 :: u8) = 256 - unat n"
proof -
  assume "n \<noteq> 0"
  then have "0 < unat n" by (simp add: unat_gt_0)
  moreover have "unat (NOT n + 1) = (255 - unat n + 1) mod 256" by (simp add: unat_word_ariths unat_not_u8)
  ultimately show ?thesis using unat_u8_less [of n] by (simp add: xor_ff del: unat_u8_less)
qed

lemma c2i_negate_spec:
  "\<exists>X. c2i_negate src to = X @ to \<and> be_val X + be_val (rev src) = 256 ^ length src \<and>
     length X = (if be_val (rev src) = 0 then Suc (length src) else length src)"
proof (induction src arbitrary: to)
  case (Cons n src)
  show ?case
  proof (cases "n = 0")
    case True
    obtain X where X: "c2i_negate src (0 # to) = X @ 0 # to" "be_val X + be_val (rev src) = 256 ^ length src"
      "length X = (if be_val (rev src) = 0 then Suc (length src) else length src)"
      using Cons.IH [of "0 # to"] by blast
    have "be_val (X @ [0]) + be_val (rev src @ [0]) = 256 ^ Suc (length src)" using X(2) by (simp add: be_val_append)
    then show ?thesis using True X by (intro exI [of _ "X @ [0]"]) (simp add: be_val_append)
  next
    case False
    let ?X = "map NOT (rev src) @ [(n XOR 0xff) + 1]"
    have n: "unat n < 256" "0 < unat n" using False by (simp_all add: unat_gt_0)
    have "be_val (map NOT (rev src)) + be_val (rev src) + 1 = 256 ^ length src" using be_val_not [of "rev src"] by simp
    then have "(be_val (map NOT (rev src)) + be_val (rev src) + 1) * 256 = 256 ^ length src * 256" by simp
    moreover have "256 - unat n + unat n = 256" using n(1) by (simp del: unat_u8_less)
    ultimately have "be_val ?X + be_val (rev src @ [n]) = 256 ^ Suc (length src)"
      using unat_negated_octet [OF False] by (simp add: be_val_append)
    then show ?thesis using False n by (intro exI [of _ ?X]) (simp add: complement_loop_eq be_val_append)
  qed
qed simp

lemma negate_loop_eq:
  "src \<noteq> [] \<Longrightarrow> negate_loop src to = (if be_val (rev src) = 0 then replicate (length src) 0 @ to else c2i_negate src to)"
proof (induction src arbitrary: to)
  case (Cons n src)
  show ?case
  proof (cases "n = 0 \<and> src \<noteq> []")
    case True
    then show ?thesis using Cons.IH [of "0 # to"] by (simp add: be_val_append replicate_app_Cons_same)
  next
    case False
    have "((0 :: u8) XOR 0xff) + 1 = 0" by simp
    then show ?thesis using False by (auto simp: be_val_append unsigned_eq_0_iff)
  qed
qed simp

lemma negate_loop_spec:
  assumes "d \<noteq> []"
  shows "length (negate_loop (rev d) []) = length d"
    "be_val (negate_loop (rev d) []) = (if be_val d = 0 then 0 else 256 ^ length d - be_val d)"
  using assms negate_loop_eq [of "rev d" "[]"] c2i_negate_spec [of "rev d" "[]"]
  by (auto simp: be_val_zero_iff)

section \<open>Contents octets\<close>

text \<open>The number an object stands for; \<open>magnitude_ok\<close>: no leading zero octet, and no negative zero.\<close>

definition asn1_int :: "asn1_string_st \<Rightarrow> int" where
  "asn1_int a = (if as_type a AND V_ASN1_NEG \<noteq> 0 then - int (be_val (str_bytes a)) else int (be_val (str_bytes a)))"

definition integer_ok :: "asn1_string_st \<Rightarrow> bool" where
  "integer_ok a \<longleftrightarrow> string_ok a \<and> (as_type a = V_ASN1_INTEGER \<or> as_type a = V_ASN1_NEG_INTEGER)"

definition magnitude_ok :: "asn1_string_st \<Rightarrow> bool" where
  "magnitude_ok a \<longleftrightarrow> str_bytes a \<noteq> [] \<and> (str_bytes a ! 0 \<noteq> 0 \<or> str_bytes a = [0] \<and> as_type a = V_ASN1_INTEGER)"

lemma integer_types: "V_ASN1_INTEGER AND V_ASN1_NEG = 0" "V_ASN1_NEG_INTEGER AND V_ASN1_NEG \<noteq> 0" "V_ASN1_INTEGER \<noteq> V_ASN1_NEG_INTEGER"
  by (simp_all add: V_ASN1_INTEGER_def V_ASN1_NEG_INTEGER_def V_ASN1_NEG_def)

lemma high_bit: "b AND 0x80 \<noteq> 0 \<longleftrightarrow> \<not> unat b < 128" for b :: u8
  by (simp add: and_80_zero)

lemma be_val_tl: "bs \<noteq> [] \<Longrightarrow> be_val bs = unat (bs ! 0) * 256 ^ (length bs - 1) + be_val (tl bs)"
  by (cases bs) simp_all

text \<open>Reading: the octets stand for their value in two's complement.\<close>

lemma c2i_octets_spec:
  assumes "p \<noteq> []" "c2i_octets p = (ty, X)"
  shows "ty = V_ASN1_INTEGER \<or> ty = V_ASN1_NEG_INTEGER" "X \<noteq> []" "length X \<le> length p"
    "(if ty = V_ASN1_NEG_INTEGER then - int (be_val X) else int (be_val X)) = sval p"
proof -
  have p: "be_val p = unat (p ! 0) * 256 ^ (length p - 1) + be_val (tl p)" by (rule be_val_tl [OF assms(1)])
  have l: "(256::nat) ^ length p = 256 * 256 ^ (length p - 1)" using assms(1) by (cases p) simp_all
  have "(ty = V_ASN1_INTEGER \<or> ty = V_ASN1_NEG_INTEGER) \<and> X \<noteq> [] \<and> length X \<le> length p \<and>
    (if ty = V_ASN1_NEG_INTEGER then - int (be_val X) else int (be_val X)) = sval p"
  proof (cases "unat (p ! 0) < 128")
    case True
    then have c: "ty = V_ASN1_INTEGER" "X = (if p ! 0 = 0 \<and> length p \<noteq> 1 then tl p else p)"
      using assms by (simp_all add: c2i_octets_def and_80_zero)
    have "length p \<noteq> 1 \<Longrightarrow> tl p \<noteq> []" using assms(1) by (cases p) auto
    then show ?thesis using True p c integer_types assms(1) by (auto simp: sval_def)
  next
    case False
    let ?skip = "p ! 0 = 0xff \<and> length p \<noteq> 1"
    define q where "q = (if ?skip then tl p else p)"
    have c: "ty = V_ASN1_NEG_INTEGER" "X = c2i_negate (rev q) []" using assms False by (simp_all add: c2i_octets_def and_80_zero q_def)
    obtain Y where Y: "X = Y" "be_val Y + be_val q = 256 ^ length q" "length Y = (if be_val q = 0 then Suc (length q) else length q)"
      using c2i_negate_spec [of "rev q" "[]"] by (auto simp: c(2))
    have v: "int (256 ^ length q) - int (be_val q) = 256 ^ length p - int (be_val p)"
    proof (cases ?skip)
      case True
      then have "int (be_val p) = 255 * 256 ^ (length p - 1) + int (be_val (tl p))" by (simp add: p)
      moreover have "(256::int) ^ length p = 256 * 256 ^ (length p - 1)" using arg_cong [OF l, of int] by simp
      ultimately show ?thesis using True by (simp add: q_def)
    next
      case F: False
      then have "q = p" unfolding q_def by (rule if_not_P)
      then show ?thesis by simp
    qed
    have "be_val q \<noteq> 0 \<or> ?skip"
    proof (cases ?skip)
      case F: False
      have "0 < unat (p ! 0) * 256 ^ (length p - 1)" using False by simp
      moreover have "q = p" unfolding q_def using F by (rule if_not_P)
      ultimately show ?thesis using p by simp
    qed simp
    moreover have "(if ?skip then Suc (length q) = length p \<and> q \<noteq> [] else q = p)"
      unfolding q_def using assms(1) by (cases p; cases "tl p") auto
    ultimately have "length Y \<le> length p" "0 < length Y" using Y(3) assms(1) by (auto split: if_splits)
    then have len: "length X \<le> length p" "X \<noteq> []" using Y(1) by auto
    have "int (be_val Y) + int (be_val q) = int (256 ^ length q)" using Y(2) by (metis of_nat_add)
    then have "- int (be_val X) = sval p" using v Y(1) False by (simp add: sval_def)
    then show ?thesis using c(1) len by simp
  qed
  then show "ty = V_ASN1_INTEGER \<or> ty = V_ASN1_NEG_INTEGER" "X \<noteq> []" "length X \<le> length p"
    "(if ty = V_ASN1_NEG_INTEGER then - int (be_val X) else int (be_val X)) = sval p" by blast+
qed


text \<open>Minimal octets give a magnitude without a leading zero.\<close>

lemma first_octet_nonzero: "256 ^ (length bs - 1) \<le> be_val bs \<Longrightarrow> bs \<noteq> [] \<Longrightarrow> bs ! 0 \<noteq> 0"
  using be_val_tl [of bs] be_val_less [of "tl bs"] by auto

lemma be_val_below: "bs \<noteq> [] \<Longrightarrow> unat (bs ! 0) < k \<Longrightarrow> be_val bs < k * 256 ^ (length bs - 1)"
proof -
  assume "bs \<noteq> []" "unat (bs ! 0) < k"
  then have "be_val bs < (unat (bs ! 0) + 1) * 256 ^ (length bs - 1)" "unat (bs ! 0) + 1 \<le> k"
    using be_val_tl [of bs] be_val_less [of "tl bs"] by simp_all
  then show ?thesis by (meson less_le_trans mult_le_mono1)
qed

lemma c2i_octets_minimal:
  assumes p: "minimal_signed p" and c: "c2i_octets p = (ty, X)"
  shows "X \<noteq> [] \<and> (X ! 0 \<noteq> 0 \<or> X = [0] \<and> ty = V_ASN1_INTEGER)"
proof -
  have ne: "p \<noteq> []" using p by (simp add: minimal_signed_def)
  have second: "length p \<noteq> 1 \<Longrightarrow> tl p \<noteq> [] \<and> tl p ! 0 = p ! 1" using ne by (cases p; cases "tl p") auto
  have len: "length p \<noteq> 1 \<Longrightarrow> 1 < length p" using ne by (cases p) auto
  show ?thesis
  proof (cases "unat (p ! 0) < 128")
    case True
    then have X: "ty = V_ASN1_INTEGER" "X = (if p ! 0 = 0 \<and> length p \<noteq> 1 then tl p else p)"
      using c ne by (simp_all add: c2i_octets_def and_80_zero)
    show ?thesis
    proof (cases "p ! 0 = 0")
      case True
      then show ?thesis
        using X p second len by (cases "length p = 1") (auto simp: minimal_signed_def length_Suc_conv)
    qed (use X ne in simp)
  next
    case False
    define q where "q = (if p ! 0 = 0xff \<and> length p \<noteq> 1 then tl p else p)"
    have X: "X = c2i_negate (rev q) []" using c ne False by (simp add: c2i_octets_def and_80_zero q_def)
    obtain Y where Y: "X = Y" "be_val Y + be_val q = 256 ^ length q" "length Y = (if be_val q = 0 then Suc (length q) else length q)"
      using c2i_negate_spec [of "rev q" "[]"] by (auto simp: X)
    have "q \<noteq> []" unfolding q_def using ne second by simp
    then have pow: "(256::nat) ^ length q = 256 * 256 ^ (length q - 1)" by (cases q) simp_all
    have "256 ^ (length X - 1) \<le> be_val X" if nz: "be_val q \<noteq> 0"
    proof -
      have "be_val q \<le> 255 * 256 ^ (length q - 1)"
      proof (cases "p ! 0 = 0xff")
        case True
        show ?thesis
        proof (cases "length p = 1")
          case True
          then show ?thesis using \<open>p ! 0 = 0xff\<close> by (auto simp: q_def length_Suc_conv)
        next
          case one: False
          then have "q = tl p" "unat (q ! 0) < 128" using True p second len by (auto simp: q_def minimal_signed_def)
          from be_val_below [OF \<open>q \<noteq> []\<close> this(2)] show ?thesis by linarith
        qed
      next
        case F: False
        then have "q = p" by (simp add: q_def)
        moreover have "unat (p ! 0) \<noteq> 255" using F by (simp add: word_unat_eq_iff)
        then have "unat (p ! 0) < 255" using unat_u8_less [of "p ! 0"] by (simp del: unat_u8_less)
        ultimately show ?thesis using be_val_below [of q 255] \<open>q \<noteq> []\<close> by simp
      qed
      then show ?thesis using Y nz pow by simp
    qed
    moreover have "256 ^ (length X - 1) \<le> be_val X" if "be_val q = 0" using Y that by simp
    moreover have "X \<noteq> []" using Y \<open>q \<noteq> []\<close> by (auto split: if_splits)
    ultimately show ?thesis using first_octet_nonzero by blast
  qed
qed

lemma c2i_ASN1_INTEGER_reads:
  assumes m: "malloc_ok m" and len: "len \<le> int INT_MAX div 2" "0 \<le> len" "nat len \<le> length pp" and a: "pred_option string_ok a"
  shows "case c2i_ASN1_INTEGER m a pp len of
      (None, rest) \<Rightarrow> rest = pp \<and> \<not> malloc_total m
    | (Some r, rest) \<Rightarrow> rest = drop (nat len) pp \<and> integer_ok r \<and>
        asn1_int r = (if len = 0 then 0 else sval (take (nat len) pp)) \<and>
        (as_type r, str_bytes r) = c2i_octets (take (nat len) pp)"
proof -
  define a' where "a' = (case a of None \<Rightarrow> ASN1_STRING_type_new m V_ASN1_INTEGER | Some ret \<Rightarrow> Some ret)"
  obtain ty X where c: "c2i_octets (take (nat len) pp) = (ty, X)" by (metis prod.exhaust)
  have l: "\<not> (len < 0 \<or> int INT_MAX div 2 < len)" using len by simp
  have nomem: "\<not> malloc_total m" if "OPENSSL_malloc m k = None" "k \<le> nat len + 32" for k
    using that len by (intro OPENSSL_malloc_None [of m k]) (simp_all add: INT_MAX_def)
  show ?thesis
  proof (cases a')
    case None
    then have "\<not> malloc_total m"
      using nomem [of sizeof_ASN1_STRING] by (auto simp: a'_def ASN1_STRING_type_new_def sizeof_ASN1_STRING_def split: option.splits)
    then show ?thesis using None l by (simp add: c2i_ASN1_INTEGER_def a'_def [symmetric])
  next
    case (Some ret)
    show ?thesis
    proof (cases "OPENSSL_malloc m (nat len + 1)")
      case None
      then show ?thesis using Some l nomem [OF None] by (simp add: c2i_ASN1_INTEGER_def a'_def [symmetric])
    next
      case s: (Some s)
      have b: "block_ok s" "blk_size s = nat len + 1"
        using OPENSSL_malloc_block [OF m _ s] len by (simp_all add: SIZE_MOD_def INT_MAX_def)
      let ?r = "ret\<lparr>as_type := ty, as_data := Some (s\<lparr>blk_data := memcpy (blk_data s) X (length X)\<rparr>), as_length := int (length X)\<rparr>"
      have X: "length X \<le> nat len \<and> (ty = V_ASN1_INTEGER \<or> ty = V_ASN1_NEG_INTEGER) \<and>
        (if ty = V_ASN1_NEG_INTEGER then - int (be_val X) else int (be_val X)) = (if len = 0 then 0 else sval (take (nat len) pp))"
      proof (cases "len = 0")
        case False
        then have "take (nat len) pp \<noteq> []" using len by auto
        from c2i_octets_spec [OF this c] False len show ?thesis by auto
      qed (use c integer_types in \<open>auto simp: c2i_octets_def\<close>)
      have sb: "str_bytes ?r = X" using X b by (simp add: str_bytes_def memcpy_def)
      have "integer_ok ?r"
        using X b len by (auto simp: integer_ok_def string_ok_def block_ok_def INT_MAX_def)
      moreover have "asn1_int ?r = (if len = 0 then 0 else sval (take (nat len) pp))"
        using X integer_types unfolding asn1_int_def sb by (auto split: if_splits)
      ultimately show ?thesis using Some s l c sb by (simp add: c2i_ASN1_INTEGER_def a'_def [symmetric])
    qed
  qed
qed



text \<open>Writing: two's complement, in the least number of octets when the magnitude has no leading zeros.\<close>

lemma first_octet_high: "bs \<noteq> [] \<Longrightarrow> unat (bs ! 0) < 128 \<longleftrightarrow> be_val bs < 128 * 256 ^ (length bs - 1)"
  using be_val_high by (cases bs) (simp_all del: be_val.simps)

lemma sval_cases: "bs \<noteq> [] \<Longrightarrow> sval bs = (if be_val bs < 128 * 256 ^ (length bs - 1) then int (be_val bs) else int (be_val bs) - 256 ^ length bs)"
  by (simp add: sval_def first_octet_high)

lemma negated_minimal:
  assumes "N \<noteq> []" "be_val N + v = 256 ^ length N" "256 ^ (length N - 1) \<le> v"
  shows "\<not> (1 < length N \<and> N ! 0 = 0xff \<and> \<not> unat (N ! 1) < 128)"
proof
  assume a: "1 < length N \<and> N ! 0 = 0xff \<and> \<not> unat (N ! 1) < 128"
  then obtain x y zs where N: "N = x # y # zs" by (cases N; cases "tl N") auto
  have "128 * 256 ^ length zs \<le> unat y * 256 ^ length zs + be_val zs" using a by (simp add: N trans_le_add1)
  then have "255 * 256 ^ Suc (length zs) + 128 * 256 ^ length zs \<le> be_val N" using a by (simp add: N del: unat_u8_less)
  then have "v \<le> 256 ^ Suc (Suc (length zs)) - (255 * 256 ^ Suc (length zs) + 128 * 256 ^ length zs)" using assms(2) N by simp
  also have "\<dots> < 256 ^ Suc (length zs)" by simp
  finally show False using assms(3) by (simp add: N)
qed

lemma negative_octets:
  assumes X: "X \<noteq> []" and pad: "pad = (if be_val X \<le> 128 * 256 ^ (length X - 1) then [] else [0xff])"
    and out: "out = pad @ negate_loop (rev X) []"
  shows "sval out = - int (be_val X)" "256 ^ (length X - 1) \<le> be_val X \<Longrightarrow> out = sint_octets (sval out)"
proof -
  define N where "N = negate_loop (rev X) []"
  have N: "length N = length X" "N \<noteq> []" "be_val N = (if be_val X = 0 then 0 else 256 ^ length X - be_val X)"
    using negate_loop_spec [OF X] X by (auto simp: N_def)
  have le: "be_val X < 256 ^ length X" by (rule be_val_less)
  have W: "(256::nat) ^ length X = 256 * 256 ^ (length X - 1)" using X by (cases X) simp_all
  have Wi: "(256::int) ^ length X = 256 * 256 ^ (length X - 1)" using X by (cases X) simp_all
  have sum: "be_val N + be_val X = 256 ^ length N" if "be_val X \<noteq> 0" using N(1,3) le that by simp
  show "sval out = - int (be_val X)"
  proof (cases "be_val X \<le> 128 * 256 ^ (length X - 1)")
    case True
    show ?thesis
    proof (cases "be_val X = 0")
      case True
      then show ?thesis using N by (simp add: out pad N_def [symmetric] sval_cases)
    next
      case False
      then have b: "\<not> be_val N < 128 * 256 ^ (length N - 1)" using sum True W N(1) by simp
      have "int (be_val N) + int (be_val X) = 256 ^ length N" using arg_cong [OF sum [OF False], of int] by simp
      then show ?thesis using True N b by (simp add: out pad N_def [symmetric] sval_cases)
    qed
  next
    case False
    then have "be_val X \<noteq> 0" by auto
    then have "int (be_val N) + int (be_val X) = 256 ^ length N" using arg_cong [OF sum, of int] by simp
    then show ?thesis using False N by (simp add: out pad N_def [symmetric] sval_def)
  qed
  assume big: "256 ^ (length X - 1) \<le> be_val X"
  then have nz: "be_val X \<noteq> 0" by (metis not_le power_eq_0_iff zero_less_numeral zero_less_power)
  have "out \<noteq> [] \<and> \<not> (1 < length out \<and> out ! 0 = 0 \<and> unat (out ! 1) < 128) \<and>
     \<not> (1 < length out \<and> out ! 0 = 0xff \<and> \<not> unat (out ! 1) < 128)"
  proof (cases "be_val X \<le> 128 * 256 ^ (length X - 1)")
    case True
    then have "\<not> be_val N < 128 * 256 ^ (length N - 1)" using sum [OF nz] W N(1) by simp
    then have "\<not> unat (N ! 0) < 128" using N(2) by (simp add: first_octet_high)
    then show ?thesis
      using negated_minimal [OF N(2) sum [OF nz]] big True N by (auto simp: out pad N_def [symmetric])
  next
    case False
    then have "be_val N < 128 * 256 ^ (length N - 1)" using sum [OF nz] W N(1) by simp
    then have "unat (N ! 0) < 128" using N(2) by (simp add: first_octet_high)
    then show ?thesis using False N(2) by (simp add: out pad N_def [symmetric])
  qed
  then show "out = sint_octets (sval out)" using minimal_signed_iff [of out] by blast
qed

lemma positive_octets:
  assumes X: "X \<noteq> []" and out: "out = (if 127 < X ! 0 then [0] else []) @ X"
  shows "sval out = int (be_val X)" "X ! 0 \<noteq> 0 \<or> X = [0] \<Longrightarrow> out = sint_octets (sval out)"
proof -
  have h: "127 < X ! 0 \<longleftrightarrow> \<not> unat (X ! 0) < 128" by (auto simp: word_less_nat_alt)
  show "sval out = int (be_val X)" using X by (auto simp: out sval_def h)
  assume "X ! 0 \<noteq> 0 \<or> X = [0]"
  then have "out \<noteq> [] \<and> \<not> (1 < length out \<and> out ! 0 = 0 \<and> unat (out ! 1) < 128) \<and>
     \<not> (1 < length out \<and> out ! 0 = 0xff \<and> \<not> unat (out ! 1) < 128)"
    using X h by (auto simp: out)
  then show "out = sint_octets (sval out)" using minimal_signed_iff [of out] by blast
qed

lemma i2c_ASN1_INTEGER_writes:
  assumes a: "integer_ok a" and len: "as_length a < 2 ^ 31 - 1"
  shows "\<exists>out. i2c_ASN1_INTEGER (Some a) = Some (int (length out), out) \<and> sval out = asn1_int a \<and>
    (as_length a = 0 \<or> magnitude_ok a \<longrightarrow> out = sint_octets (asn1_int a))"
proof (cases "as_length a = 0")
  case True
  then have "str_bytes a = []" by (simp add: str_bytes_def split: option.splits)
  moreover have "sval [0] = 0" by (simp add: sval_def)
  moreover have "sint_octets 0 = [0]" using minimal_signed_iff [of "[0]"] by (simp add: sval_def)
  ultimately show ?thesis using True by (simp add: i2c_ASN1_INTEGER_def asn1_int_def)
next
  case False
  define X where "X = str_bytes a"
  obtain b where b: "as_data a = Some b" and bok: "block_ok b" "nat (as_length a) \<le> blk_size b" and n: "0 < as_length a"
    using a False by (auto simp: integer_ok_def string_ok_def split: option.splits)
  have X: "X = take (nat (as_length a)) (blk_data b)" "length X = nat (as_length a)" "X \<noteq> []"
    using b bok n by (auto simp: X_def str_bytes_def block_ok_def)
  have X0: "blk_data b ! 0 = X ! 0" using n by (simp add: X(1))
  have ex: "list_ex (\<lambda>j. blk_data b ! j \<noteq> 0) [1..<nat (as_length a)] \<longleftrightarrow> be_val (tl X) \<noteq> 0"
  proof -
    have "be_val (tl X) \<noteq> 0 \<longleftrightarrow> (\<exists>j < length (tl X). tl X ! j \<noteq> 0)"
      unfolding be_val_zero_iff by (metis in_set_conv_nth)
    also have "\<dots> \<longleftrightarrow> (\<exists>j. 1 \<le> j \<and> j < nat (as_length a) \<and> blk_data b ! j \<noteq> 0)"
    proof -
      have e: "tl X ! j = blk_data b ! Suc j" if "j < length (tl X)" for j
        using that by (simp add: nth_tl X)
      show ?thesis
        using e X(2) by (auto simp: Suc_le_eq gr0_conv_Suc) (metis Suc_diff_Suc diff_Suc_1 less_Suc_eq_0_disj Suc_less_eq less_diff_conv One_nat_def Suc_pred' add.commute plus_1_eq_Suc)+
    qed
    finally show ?thesis by (auto simp: list_ex_iff)
  qed
  define neg where "neg = (as_type a AND V_ASN1_NEG \<noteq> 0 \<and> \<not> (as_length a = 1 \<and> X ! 0 = 0))"
  define pad where "pad = (if \<not> neg \<and> 127 < X ! 0 then [0]
    else if neg \<and> (128 < X ! 0 \<or> X ! 0 = 128 \<and> be_val (tl X) \<noteq> 0) then [0xff] else [] :: u8 list)"
  define out where "out = pad @ (if \<not> neg then X else negate_loop (rev X) [])"
  have e: "i2c_ASN1_INTEGER (Some a) = Some (int (length out), out)"
  proof -
    have "length (pad @ (if \<not> neg then X else negate_loop (rev X) [])) = length pad + length X"
      using negate_loop_spec(1) [OF X(3)] by simp
    moreover have "int_ck (as_length a + int (length pad)) = Some (as_length a + int (length pad))"
      using len n by (simp add: int_ck_def pad_def)
    moreover have "i2c_ASN1_INTEGER (Some a) = Option.bind (int_ck (as_length a + int (length pad))) (\<lambda>ret. Some (ret, out))"
      using False b unfolding out_def pad_def neg_def
      by (simp add: i2c_ASN1_INTEGER_def data_of_def X0 ex [simplified] Let_def flip: X(1))
    ultimately show ?thesis using n X(2) by (simp add: out_def)
  qed
  have mag: "magnitude_ok a \<longleftrightarrow> X ! 0 \<noteq> 0 \<or> X = [0] \<and> as_type a = V_ASN1_INTEGER" using X(3) by (simp add: magnitude_ok_def X_def)
  show ?thesis
  proof (cases neg)
    case False
    have o: "out = (if 127 < X ! 0 then [0] else []) @ X" using False by (simp add: out_def pad_def)
    have "as_type a AND V_ASN1_NEG \<noteq> 0 \<Longrightarrow> X = [0]"
      using False X(2,3) by (cases X) (auto simp: neg_def)
    then have v: "asn1_int a = int (be_val X)" by (auto simp: asn1_int_def X_def)
    show ?thesis using e v positive_octets [OF X(3) o] n mag by auto
  next
    case True
    have "128 < X ! 0 \<or> X ! 0 = 128 \<and> be_val (tl X) \<noteq> 0 \<longleftrightarrow> \<not> be_val X \<le> 128 * 256 ^ (length X - 1)"
    proof -
      have t: "be_val (tl X) < 256 ^ (length X - 1)" using be_val_less [of "tl X"] by simp
      have v: "be_val X = unat (X ! 0) * 256 ^ (length X - 1) + be_val (tl X)" by (rule be_val_tl [OF X(3)])
      consider "unat (X ! 0) < 128" | "unat (X ! 0) = 128" | "128 < unat (X ! 0)" by linarith
      then show ?thesis
      proof cases
        case 1
        then have "be_val X < 128 * 256 ^ (length X - 1)" using first_octet_high [OF X(3)] by simp
        then show ?thesis using 1 by (auto simp: word_less_nat_alt)
      next
        case 2
        then have "X ! 0 = 128" by (metis u8_of_unat of_nat_numeral)
        then show ?thesis using v by simp
      next
        case 3
        then have "129 * 256 ^ (length X - 1) \<le> unat (X ! 0) * 256 ^ (length X - 1)" by simp
        moreover have "(0 :: nat) < 256 ^ (length X - 1)" by simp
        ultimately have "128 * 256 ^ (length X - 1) < be_val X" using v by linarith
        then show ?thesis using 3 by (auto simp: word_less_nat_alt)
      qed
    qed
    then have p: "pad = (if be_val X \<le> 128 * 256 ^ (length X - 1) then [] else [0xff])" using True by (simp add: pad_def)
    have o: "out = pad @ negate_loop (rev X) []" using True by (simp add: out_def)
    have v: "asn1_int a = - int (be_val X)" using True by (simp add: neg_def asn1_int_def X_def)
    have "256 ^ (length X - 1) \<le> be_val X" if "magnitude_ok a"
    proof -
      have "X ! 0 \<noteq> 0" using that mag integer_types True by (auto simp: neg_def)
      then have "1 \<le> unat (X ! 0)" by (simp add: Suc_le_eq unat_gt_0)
      then have "1 * 256 ^ (length X - 1) \<le> unat (X ! 0) * 256 ^ (length X - 1)" by (rule mult_right_mono) simp
      then show ?thesis using be_val_tl [OF X(3)] by linarith
    qed
    then show ?thesis using e v negative_octets [OF X(3) p o] n by auto
  qed
qed



section \<open>Words\<close>

lemma leading_zeros_spec:
  "i \<le> 7 \<Longrightarrow> \<forall>j < i. d ! j = 0 \<Longrightarrow>
    leading_zeros d i \<le> 7 \<and> (\<forall>j < leading_zeros d i. d ! j = 0) \<and> (leading_zeros d i < 7 \<longrightarrow> d ! leading_zeros d i \<noteq> 0)"
proof (induction d i rule: leading_zeros.induct)
  case (1 d i)
  show ?case
  proof (cases "i < 7 \<and> d ! i = 0")
    case True
    then have "leading_zeros d i = leading_zeros d (i + 1)" by (subst leading_zeros.simps) simp
    moreover have "\<forall>j < i + 1. d ! j = 0" using True "1.prems"(2) by (auto simp: less_Suc_eq)
    ultimately show ?thesis using "1.IH" [OF True] True by simp
  next
    case False
    have "leading_zeros d i = i" by (subst leading_zeros.simps) (rule if_not_P [OF False])
    then show ?thesis using False "1.prems" by auto
  qed
qed

text \<open>Storing a word: the magnitude without leading zeros.\<close>

lemma ASN1_INTEGER_set_uint64_spec:
  assumes m: "malloc_ok m"
  shows "case ASN1_INTEGER_set_uint64 m out v of
      (False, out') \<Rightarrow> out' = out \<and> \<not> malloc_total m
    | (True, out') \<Rightarrow> integer_ok out' \<and> magnitude_ok out' \<and> as_type out' = V_ASN1_INTEGER \<and>
        as_length out' \<le> 8 \<and> be_val (str_bytes out') = unat v \<and> asn1_int out' = int (unat v)"
proof (cases "OPENSSL_malloc m 8")
  case None
  then show ?thesis using OPENSSL_malloc_None [OF None] by (simp add: ASN1_INTEGER_set_uint64_def)
next
  case (Some nd)
  have b: "block_ok nd" "blk_size nd = 8" using OPENSSL_malloc_block [OF m _ Some] by (simp_all add: SIZE_MOD_def)
  define d where "d = be_bytes 8 (unat v)"
  have d: "memcpy (blk_data nd) (u64_bytes (CRYPTO_bswap8 v)) 8 = d" "length d = 8" "be_val d = unat v"
  proof -
    show "length d = 8" by (simp add: d_def)
    show "memcpy (blk_data nd) (u64_bytes (CRYPTO_bswap8 v)) 8 = d"
      using b by (simp add: memcpy_def u64_bytes_def be_bytes_bswap8 d_def block_ok_def)
    have "unat v < 256 ^ 8" using unat_u64_less [of v] by simp
    then show "be_val d = unat v" unfolding d_def be_val_be_bytes by (rule mod_less)
  qed
  define z where "z = leading_zeros d 0"
  have z: "z \<le> 7" "\<forall>j < z. d ! j = 0" "z < 7 \<longrightarrow> d ! z \<noteq> 0" using leading_zeros_spec [of 0 d] by (simp_all add: z_def)
  define r where "r = out\<lparr>as_data := Some (nd\<lparr>blk_data := memcpy d (drop z d) (8 - z)\<rparr>), as_type := V_ASN1_INTEGER, as_length := int (8 - z)\<rparr>"
  have e: "ASN1_INTEGER_set_uint64 m out v = (True, r)" using Some d by (simp add: ASN1_INTEGER_set_uint64_def Let_def z_def r_def)
  have s: "str_bytes r = drop z d" using d(2) z(1) by (simp add: r_def str_bytes_def memcpy_def)
  have "be_val (take z d) = 0" unfolding be_val_zero_iff using z(1,2) d(2) by (auto simp: in_set_conv_nth)
  then have v: "be_val (drop z d) = unat v"
    using d(3) be_val_append [of "take z d" "drop z d"] by simp
  have "integer_ok r" using b d(2) z(1) by (auto simp: integer_ok_def string_ok_def block_ok_def r_def)
  moreover have "magnitude_ok r"
  proof (cases "z < 7")
    case True
    then show ?thesis using z d(2) by (simp add: magnitude_ok_def s)
  next
    case False
    then have "drop z d = [d ! 7]" using z(1) d(2) by (simp add: Cons_nth_drop_Suc [symmetric])
    then show ?thesis unfolding magnitude_ok_def s by (auto simp: r_def)
  qed
  ultimately show ?thesis using v z(1) integer_types by (simp add: e s asn1_int_def) (simp add: r_def integer_types)
qed

lemma ASN1_INTEGER_get_spec:
  assumes "integer_ok a" "as_length a \<le> 8"
  shows "ASN1_INTEGER_get (Some a) = (if be_val (str_bytes a) < 2 ^ 63 then asn1_int a else -1)"
proof -
  have f: "unat (foldl (\<lambda>r i. push_bit 8 r OR ucast (d ! i)) (0 :: u64) [0..<n]) = be_val (take n d)" if "n \<le> 8" "n \<le> length d" for n and d :: "u8 list"
    using that
  proof (induction n)
    case (Suc n)
    have "be_val (take n d) < 256 ^ n" using be_val_less [of "take n d"] Suc.prems by simp
    also have "(256::nat) ^ n \<le> 256 ^ 7" using Suc.prems by (intro power_increasing) simp_all
    finally have "be_val (take n d) * 256 + unat (d ! n) < 2 ^ 64" using unat_u8_less [of "d ! n"] by (simp del: unat_u8_less)
    then show ?case using Suc by (simp add: unat_shift_or take_Suc_conv_app_nth be_val_append)
  qed simp
  have n: "nat (as_length a) \<le> 8" using assms(2) by simp
  have u: "(case data_of a of None \<Rightarrow> 0
      | Some d \<Rightarrow> unat (foldl (\<lambda>r i. push_bit 8 r OR ucast (d ! i)) (0 :: u64) [0..<nat (as_length a)])) = be_val (str_bytes a)"
    using assms f n by (auto simp: integer_ok_def string_ok_def block_ok_def data_of_def str_bytes_def split: option.splits)
  have "int (unat (case data_of a of None \<Rightarrow> 0
      | Some d \<Rightarrow> foldl (\<lambda>r i. push_bit 8 r OR ucast (d ! i)) (0 :: u64) [0..<nat (as_length a)])) = int (be_val (str_bytes a))"
    unfolding u [symmetric] by (simp split: option.splits)
  then show ?thesis
    using assms integer_types by (auto simp: ASN1_INTEGER_get_def integer_ok_def Let_def asn1_int_def)
qed

text \<open>Setting a number and getting it back; the least \<open>long\<close> is stored, but comes back as -1.\<close>

lemma unat_word_of_int: "0 \<le> w \<Longrightarrow> w < 2 ^ 64 \<Longrightarrow> unat (word_of_int w :: u64) = nat w"
  by (simp add: unsigned_of_int take_bit_int_eq_self)

lemma ASN1_INTEGER_set_spec:
  assumes m: "malloc_ok m" and v: "- (2 ^ 63) \<le> v" "v < 2 ^ 63"
  shows "case ASN1_INTEGER_set m a v of
      (False, a') \<Rightarrow> a' = a \<and> \<not> malloc_total m
    | (True, a') \<Rightarrow> integer_ok a' \<and> magnitude_ok a' \<and> as_length a' \<le> 8 \<and> asn1_int a' = v \<and> be_val (str_bytes a') = nat \<bar>v\<bar>"
proof (cases "0 \<le> v")
  case True
  have "unat (word_of_int v :: u64) = nat v" using True v by (intro unat_word_of_int) simp_all
  then show ?thesis
    using True ASN1_INTEGER_set_uint64_spec [OF m, where out = a and v = "word_of_int v"]
    by (auto simp: ASN1_INTEGER_set_def split: prod.splits bool.splits)
next
  case False
  have u: "unat (0 - word_of_int v :: u64) = nat (- v)"
  proof -
    have "(0 - word_of_int v :: u64) = word_of_int (- v)" by simp
    moreover have "unat (word_of_int (- v) :: u64) = nat (- v)" by (rule unat_word_of_int) (use False v in simp_all)
    ultimately show ?thesis by (simp only:)
  qed
  obtain ok a' where e: "ASN1_INTEGER_set_uint64 m a (0 - word_of_int v) = (ok, a')" by (metis prod.exhaust)
  note s = ASN1_INTEGER_set_uint64_spec [OF m, where out = a and v = "0 - word_of_int v", unfolded e u]
  show ?thesis
  proof (cases ok)
    case T: True
    have sb: "str_bytes (a'\<lparr>as_type := V_ASN1_NEG_INTEGER\<rparr>) = str_bytes a'"
      by (cases "as_data a'") (simp_all add: str_bytes_def)
    have so: "string_ok (a'\<lparr>as_type := V_ASN1_NEG_INTEGER\<rparr>) = string_ok a'" by (cases "as_data a'") (simp_all add: string_ok_def)
    have "str_bytes a' \<noteq> [0]" using s T False by auto
    then show ?thesis
      using s T False e sb so integer_types
      by (auto simp: ASN1_INTEGER_set_def integer_ok_def magnitude_ok_def asn1_int_def)
  next
    case F: False
    then show ?thesis using s e False by (simp add: ASN1_INTEGER_set_def)
  qed
qed

section \<open>Comparison\<close>

lemma sgn_int_diff: "sgn (int a - int b) = (if a < b then -1 else if a = b then 0 else 1)"
  by (simp add: sgn_if)

lemma memcmp_be_val:
  "length x = length y \<Longrightarrow> sgn (memcmp x y (length x)) = sgn (int (be_val x) - int (be_val y))"
proof (induction x y rule: list_induct2)
  case (Cons a x b y)
  show ?case
  proof (cases "a = b")
    case False
    have l: "be_val x < 256 ^ length y" "be_val y < 256 ^ length y" using be_val_less [of x] be_val_less [of y] Cons.hyps by simp_all
    have step: "be_val (c # u) < be_val (d # w)"
      if "unat c < unat d" "be_val u < 256 ^ length y" "length u = length y" "length w = length y" for c d u w
    proof -
      have "be_val (c # u) < (unat c + 1) * 256 ^ length y" using that by simp
      also have "\<dots> \<le> unat d * 256 ^ length y" using that by (intro mult_right_mono) simp_all
      finally show ?thesis using that by simp
    qed
    show ?thesis
    proof (cases "a < b")
      case True
      then have "be_val (a # x) < be_val (b # y)" using step [of a b x y] l Cons.hyps by (simp add: word_less_nat_alt del: be_val.simps)
      then show ?thesis using True False by (simp add: sgn_int_diff del: be_val.simps)
    next
      case F: False
      then have "unat b < unat a" using False by (metis linorder_less_linear word_less_nat_alt)
      then have "be_val (b # y) < be_val (a # x)" using step [of b a y x] l Cons.hyps by (simp del: be_val.simps)
      then show ?thesis using False F by (simp add: sgn_int_diff del: be_val.simps)
    qed
  qed (use Cons in simp)
qed simp

lemma magnitude_bound:
  assumes "magnitude_ok a"
  shows "256 ^ (length (str_bytes a) - 1) \<le> be_val (str_bytes a) \<or> length (str_bytes a) = 1"
proof -
  consider "str_bytes a ! 0 \<noteq> 0" "str_bytes a \<noteq> []" | "str_bytes a = [0]" using assms unfolding magnitude_ok_def by blast
  then show ?thesis
  proof cases
    case 1
    then have "1 * 256 ^ (length (str_bytes a) - 1) \<le> unat (str_bytes a ! 0) * 256 ^ (length (str_bytes a) - 1)"
      by (intro mult_right_mono) (simp_all add: Suc_le_eq unat_gt_0)
    then show ?thesis using be_val_tl [OF 1(2)] by linarith
  qed simp
qed

lemma shorter_is_less:
  assumes "magnitude_ok a" "magnitude_ok b" "length (str_bytes a) < length (str_bytes b)"
  shows "be_val (str_bytes a) < be_val (str_bytes b)"
proof -
  have "be_val (str_bytes a) < 256 ^ length (str_bytes a)" by (rule be_val_less)
  also have "(256::nat) ^ length (str_bytes a) \<le> 256 ^ (length (str_bytes b) - 1)" using assms(3) by (intro power_increasing) simp_all
  also have "\<dots> \<le> be_val (str_bytes b)" using magnitude_bound [OF assms(2)] assms(1,3) by (auto simp: magnitude_ok_def)
  finally show ?thesis .
qed

lemma ASN1_INTEGER_cmp_spec:
  assumes "integer_ok x" "integer_ok y" "magnitude_ok x" "magnitude_ok y"
  shows "sgn (ASN1_INTEGER_cmp x y) = sgn (asn1_int x - asn1_int y)"
proof -
  have len: "length (str_bytes x) = nat (as_length x)" "length (str_bytes y) = nat (as_length y)" "0 \<le> as_length x" "0 \<le> as_length y"
    using assms by (simp_all add: length_str_bytes integer_ok_def string_ok_def)
  have nz: "0 < be_val (str_bytes a)" if "magnitude_ok a" "as_type a \<noteq> V_ASN1_INTEGER" for a
    using that be_val_tl [of "str_bytes a"] by (auto simp: magnitude_ok_def unat_gt_0)
  have cmp: "sgn (ASN1_STRING_cmp x y) = sgn (int (be_val (str_bytes x)) - int (be_val (str_bytes y)))" if ty: "as_type x = as_type y"
  proof (cases "as_length x = as_length y")
    case False
    then show ?thesis
      using shorter_is_less [OF assms(3,4)] shorter_is_less [OF assms(4,3)] len
      by (cases "as_length x < as_length y") (auto simp: ASN1_STRING_cmp_def Let_def sgn_if)
  next
    case True
    obtain b c where d: "as_data x = Some b" "as_data y = Some c"
      using assms by (auto simp: magnitude_ok_def str_bytes_def split: option.splits)
    have t: "memcmp u w n = memcmp (take n u) (take n w) n" for u w n
      by (induction u w n rule: memcmp.induct) auto
    have "str_bytes x = take (nat (as_length x)) (blk_data b)" "str_bytes y = take (nat (as_length x)) (blk_data c)"
      using d True by (simp_all add: str_bytes_def)
    then have "memcmp (blk_data b) (blk_data c) (nat (as_length x)) = memcmp (str_bytes x) (str_bytes y) (length (str_bytes x))"
      using t [of "blk_data b" "blk_data c"] len(1) by simp
    then have "ASN1_STRING_cmp x y = memcmp (str_bytes x) (str_bytes y) (length (str_bytes x))"
      using True d ty by (simp add: ASN1_STRING_cmp_def Let_def data_of_def)
    then show ?thesis using memcmp_be_val [of "str_bytes x" "str_bytes y"] len True by simp
  qed
  consider "as_type x = as_type y" | "as_type x = V_ASN1_INTEGER" "as_type y = V_ASN1_NEG_INTEGER"
    | "as_type x = V_ASN1_NEG_INTEGER" "as_type y = V_ASN1_INTEGER"
    using assms(1,2) by (auto simp: integer_ok_def)
  then show ?thesis
  proof cases
    case 1
    have s: "- sgn (u - v) = sgn (v - u)" for u v :: int by (simp add: sgn_if)
    show ?thesis using cmp [OF 1] 1 by (auto simp: ASN1_INTEGER_cmp_def asn1_int_def Let_def sgn_minus s)
  next
    case 2
    then show ?thesis using nz [OF assms(4)] integer_types by (simp add: ASN1_INTEGER_cmp_def asn1_int_def Let_def sgn_if)
  next
    case 3
    then show ?thesis using nz [OF assms(3)] integer_types by (simp add: ASN1_INTEGER_cmp_def asn1_int_def Let_def sgn_if)
  qed
qed

end
