(* ===== verification/Asn1_Bitstring.thy ===== *)
theory Asn1_Bitstring
  imports Parse Asn1_String Der_Bits
begin

text \<open>
  \<^verbatim>\<open>crypto/asn1/a_bitstr.c\<close>: strings of bits, packed most significant first. The number of unused bits
  of the last octet is in the flags, or found when the string is written.
\<close>

section \<open>Code\<close>

definition V_ASN1_BIT_STRING :: int where
  "V_ASN1_BIT_STRING = 3"

definition ASN1_STRING_FLAG_BITS_LEFT :: int where
  "ASN1_STRING_FLAG_BITS_LEFT = 0x08"

definition ASN1_BIT_STRING_set ::
    "allocator \<Rightarrow> asn1_string_st \<Rightarrow> u8 list option \<Rightarrow> int \<Rightarrow> (bool \<times> asn1_string_st) option" where
  "ASN1_BIT_STRING_set m x d len = ASN1_STRING_set m x d len"

text \<open>The octets without the trailing zero octets.\<close>

fun strip_zeros :: "u8 list \<Rightarrow> nat \<Rightarrow> nat" where
  "strip_zeros data 0 = 0"
| "strip_zeros data (Suc len) = (if data ! len \<noteq> 0 then Suc len else strip_zeros data len)"

definition trailing_bits :: "u8 \<Rightarrow> nat" where
  "trailing_bits j =
     (if j AND 0x01 \<noteq> 0 then 0
      else if j AND 0x02 \<noteq> 0 then 1
      else if j AND 0x04 \<noteq> 0 then 2
      else if j AND 0x08 \<noteq> 0 then 3
      else if j AND 0x10 \<noteq> 0 then 4
      else if j AND 0x20 \<noteq> 0 then 5
      else if j AND 0x40 \<noteq> 0 then 6
      else if j AND 0x80 \<noteq> 0 then 7
      else 0)"

text \<open>The memory at \<open>a->data\<close>.\<close>

definition octets_at :: "asn1_string_st \<Rightarrow> u8 list" where
  "octets_at a = (case as_data a of None \<Rightarrow> [] | Some b \<Rightarrow> blk_data b)"

text \<open>
  The result and the octets written at \<open>*pp\<close>, if that is not NULL. Reading \<open>a->data[-1]\<close> is a fault.
\<close>

definition i2c_ASN1_BIT_STRING :: "asn1_string_st option \<Rightarrow> (int \<times> u8 list) parse" where
  "i2c_ASN1_BIT_STRING a =
     (case a of
        None \<Rightarrow> Done (0, [])
      | Some a \<Rightarrow>
          let d = octets_at a in
          seq (if 0 < as_length a then
                 (if as_flags a AND ASN1_STRING_FLAG_BITS_LEFT \<noteq> 0 then Done (nat (as_flags a AND 0x07), nat (as_length a))
                  else
                    let len = strip_zeros d (nat (as_length a)) in
                    if len = 0 then Fault else Done (trailing_bits (d ! (len - 1)), len))
               else Done (0, nat (as_length a))) (\<lambda>(bits, len).
          let p = take len d in
          Done (1 + int len, word_of_nat bits # (if 0 < len then p[len - 1 := p ! (len - 1) AND push_bit bits 0xff] else p))))"

definition clear_bits_left :: "asn1_string_st \<Rightarrow> asn1_string_st" where
  "clear_bits_left a = a\<lparr>as_flags := as_flags a AND NOT (ASN1_STRING_FLAG_BITS_LEFT OR 0x07)\<rparr>"

text \<open>
  \<open>a\<close> is \<open>*a\<close>, \<open>None\<close> when that or \<open>a\<close> is NULL; \<open>pp\<close> is the memory at \<open>*pp\<close>. The result is the success, the object
  that is left (the one given, or the new one) and the memory at the advanced \<open>*pp\<close>.
\<close>

definition c2i_ASN1_BIT_STRING ::
    "allocator \<Rightarrow> asn1_string_st option \<Rightarrow> u8 list \<Rightarrow> int \<Rightarrow> bool \<times> asn1_string_st option \<times> u8 list" where
  "c2i_ASN1_BIT_STRING m a pp len =
     (if len < 1 \<or> int INT_MAX < len then (False, a, pp)
      else
        case (case a of None \<Rightarrow> ASN1_STRING_type_new m V_ASN1_BIT_STRING | Some ret \<Rightarrow> Some ret) of
          None \<Rightarrow> (False, a, pp)
        | Some ret \<Rightarrow>
            let padding = pp ! 0; p = tl pp; n = nat (len - 1) in
            if 7 < padding then (False, a, pp)
            else
              let ret = clear_bits_left ret;
                  ret = ret\<lparr>as_flags := as_flags ret OR (ASN1_STRING_FLAG_BITS_LEFT OR int (unat padding))\<rparr>;
                  fail = (False, map_option (\<lambda>_. ret) a, pp);
                  finish = (\<lambda>s. (True, Some (ret\<lparr>as_length := int n, as_data := s, as_type := V_ASN1_BIT_STRING\<rparr>), drop n p))
              in
              if 0 < n then
                (case OPENSSL_malloc m n of
                   None \<Rightarrow> fail
                 | Some s \<Rightarrow>
                     let data = memcpy (blk_data s) p n;
                         data = data[n - 1 := data ! (n - 1) AND push_bit (unat padding) 0xff]
                     in finish (Some (s\<lparr>blk_data := data\<rparr>)))
              else finish None)"

text \<open>Octet \<open>w\<close> with the mask \<open>iv\<close> and the bits \<open>v\<close>, then the length without zero octets at the end.\<close>

definition put_bit :: "int \<Rightarrow> u8 \<Rightarrow> u8 \<Rightarrow> asn1_string_st \<Rightarrow> (bool \<times> asn1_string_st option) parse" where
  "put_bit w iv v a =
     (if w < 0 then Fault
      else
        let data = (octets_at a)[nat w := ((octets_at a ! nat w) AND iv) OR v];
            a = a\<lparr>as_data := map_option (blk_data_update (\<lambda>_. data)) (as_data a)\<rparr>
        in Done (True, Some (a\<lparr>as_length := int (strip_zeros data (nat (as_length a)))\<rparr>)))"

definition ASN1_BIT_STRING_set_bit :: "allocator \<Rightarrow> asn1_string_st option \<Rightarrow> int \<Rightarrow> int \<Rightarrow> (bool \<times> asn1_string_st option) parse" where
  "ASN1_BIT_STRING_set_bit m a n value =
     (let w = n sdiv 8;
          v = push_bit (nat (7 - (n AND 0x07))) (1 :: u8);
          iv = NOT v;
          v = (if value = 0 then 0 else v)
      in
      case a of
        None \<Rightarrow> Done (False, None)
      | Some a \<Rightarrow>
          let a = clear_bits_left a
          in
          if as_length a < w + 1 \<or> as_data a = None then
            (if value = 0 then Done (True, Some a)
             else
               case (case as_data a of
                       None \<Rightarrow> OPENSSL_malloc m (nat (w + 1))
                     | Some d \<Rightarrow> OPENSSL_realloc m (Some d) (nat (w + 1))) of
                 None \<Rightarrow> Done (False, Some a)
               | Some c \<Rightarrow>
                   let data = (if 0 < w + 1 - as_length a then
                                 take (nat (as_length a)) (blk_data c) @ replicate (nat (w + 1 - as_length a)) 0
                                   @ drop (nat (w + 1)) (blk_data c)
                               else blk_data c)
                   in put_bit w iv v (a\<lparr>as_data := Some (c\<lparr>blk_data := data\<rparr>), as_length := w + 1\<rparr>))
          else put_bit w iv v a)"

definition ASN1_BIT_STRING_get_bit :: "asn1_string_st option \<Rightarrow> int \<Rightarrow> bool parse" where
  "ASN1_BIT_STRING_get_bit a n =
     (let w = n sdiv 8; v = push_bit (nat (7 - (n AND 0x07))) (1 :: u8) in
      case a of
        None \<Rightarrow> Done False
      | Some a \<Rightarrow>
          if as_length a < w + 1 \<or> as_data a = None then Done False
          else if w < 0 then Fault
          else Done (octets_at a ! nat w AND v \<noteq> 0))"

fun check_loop :: "u8 list \<Rightarrow> u8 list \<Rightarrow> nat \<Rightarrow> bool" where
  "check_loop [] flags flags_len = True"
| "check_loop (b # data) flags flags_len =
     (let mask' = (if 0 < flags_len then NOT (flags ! 0) else 0xff) in
      if b AND mask' = 0 then check_loop data (tl flags) (flags_len - 1) else False)"

definition ASN1_BIT_STRING_check :: "asn1_string_st option \<Rightarrow> u8 list \<Rightarrow> int \<Rightarrow> bool" where
  "ASN1_BIT_STRING_check a flags flags_len =
     (case a of
        None \<Rightarrow> True
      | Some a \<Rightarrow> if as_data a = None then True else check_loop (take (nat (as_length a)) (octets_at a)) flags (nat flags_len))"


section \<open>Bits\<close>

definition string_bit :: "asn1_string_st \<Rightarrow> nat \<Rightarrow> bool" where
  "string_bit a i \<longleftrightarrow> i div 8 < length (str_bytes a) \<and> bit (str_bytes a ! (i div 8)) (7 - i mod 8)"

lemma int_index: "int n sdiv 8 = int (n div 8)" "nat (7 - (int n AND 7)) = 7 - n mod 8"
proof -
  show "int n sdiv 8 = int (n div 8)" by (simp add: sdiv_pos zdiv_int)
  have "int n AND 7 = take_bit 3 (int n)" by (simp add: take_bit_eq_mask mask_eq_exp_minus_1)
  then have "int n AND 7 = int (n mod 8)" by (simp add: take_bit_eq_mod zmod_int)
  then show "nat (7 - (int n AND 7)) = 7 - n mod 8" by simp
qed

lemma octets_str_bytes: "string_ok a \<Longrightarrow> str_bytes a = take (nat (as_length a)) (octets_at a)"
  "string_ok a \<Longrightarrow> nat (as_length a) \<le> length (octets_at a)"
  by (auto simp: string_ok_def str_bytes_def octets_at_def block_ok_def split: option.splits)

lemma ASN1_BIT_STRING_get_bit_spec:
  assumes "string_ok a"
  shows "ASN1_BIT_STRING_get_bit (Some a) (int n) = Done (string_bit a n)"
proof -
  have "as_data a = None \<Longrightarrow> str_bytes a = []" by (simp add: str_bytes_def)
  moreover have "as_length a < int (n div 8) + 1 \<longleftrightarrow> \<not> n div 8 < length (str_bytes a)"
    using length_str_bytes [OF assms] assms by (simp add: string_ok_def) linarith
  moreover have "0 \<le> int (n div 8)" by simp
  ultimately show ?thesis
    using octets_str_bytes [OF assms] length_str_bytes [OF assms]
    by (auto simp: ASN1_BIT_STRING_get_bit_def Let_def int_index and_exp_eq_0_iff_not_bit string_bit_def)
qed

lemma strip_zeros_spec:
  "strip_zeros d n \<le> n \<and> (\<forall>j. strip_zeros d n \<le> j \<and> j < n \<longrightarrow> d ! j = 0) \<and>
    (strip_zeros d n \<noteq> 0 \<longrightarrow> d ! (strip_zeros d n - 1) \<noteq> 0)"
  by (induction n) (auto simp: less_Suc_eq)

lemma strip_zeros_cong: "take n d = take n e \<Longrightarrow> n \<le> length d \<Longrightarrow> n \<le> length e \<Longrightarrow> strip_zeros d n = strip_zeros e n"
proof (induction n)
  case (Suc n)
  have "d ! n = e ! n" using Suc.prems by (metis lessI nth_take)
  moreover have "take n d = take n e" using Suc.prems(1) by (metis min.absorb1 le_SucI order_refl take_take)
  ultimately show ?case using Suc by simp
qed simp

lemma strip_zeros_drop: "strip_zeros d n < k \<Longrightarrow> k \<le> n \<Longrightarrow> \<forall>j. k \<le> j \<and> j < n \<longrightarrow> d ! j = 0 \<Longrightarrow> strip_zeros d k = strip_zeros d n"
  by (induction n) (auto simp: le_Suc_eq split: if_splits)

text \<open>Setting a bit changes that bit, and leaves no zero octet at the end.\<close>

lemma store_bit:
  fixes data :: "u8 list"
  assumes "n div 8 < len" "len \<le> length data" "v = (if value = 0 then 0 else push_bit (7 - n mod 8) 1)"
    and X: "X = take len data" and Y: "Y = take (strip_zeros d' len) d'"
    and d': "d' = data[n div 8 := (data ! (n div 8) AND NOT (push_bit (7 - n mod 8) 1)) OR v]"
  shows "i div 8 < length Y \<and> bit (Y ! (i div 8)) (7 - i mod 8) \<longleftrightarrow>
    (if i = n then value \<noteq> (0 :: int) else i div 8 < length X \<and> bit (X ! (i div 8)) (7 - i mod 8))"
proof -
  note z = strip_zeros_spec [of d' len]
  have l: "length d' = length data" by (simp add: d')
  have y: "i div 8 < length Y \<and> bit (Y ! (i div 8)) (7 - i mod 8) \<longleftrightarrow> i div 8 < len \<and> bit (d' ! (i div 8)) (7 - i mod 8)"
  proof (cases "i div 8 < strip_zeros d' len")
    case True
    then show ?thesis using z l assms(2) by (simp add: Y)
  next
    case False
    then have "i div 8 < len \<longrightarrow> d' ! (i div 8) = 0" using z by auto
    then show ?thesis using False l assms(2) z by (auto simp: Y)
  qed
  have b: "bit (d' ! (i div 8)) (7 - i mod 8) \<longleftrightarrow> (if i = n then value \<noteq> 0 else bit (data ! (i div 8)) (7 - i mod 8))" if "i div 8 < len"
  proof (cases "i div 8 = n div 8")
    case True
    have "i = n \<longleftrightarrow> i mod 8 = n mod 8" using True by (metis div_mult_mod_eq)
    then have "i = n \<longleftrightarrow> 7 - i mod 8 = 7 - n mod 8" using mod_less_divisor [of 8 i] mod_less_divisor [of 8 n] by linarith
    moreover have "7 - i mod 8 < LENGTH(8)" by simp
    ultimately show ?thesis
      using True assms(1,2) by (simp add: d' assms(3) bit_simps)
  next
    case False
    then show ?thesis by (auto simp: d')
  qed
  show ?thesis unfolding y using b assms(1,2) by (auto simp: X)
qed



lemma ASN1_BIT_STRING_set_bit_spec:
  assumes m: "malloc_ok m" and a: "string_ok a" and n: "n < 2 ^ 31"
  shows "\<exists>ok a'. ASN1_BIT_STRING_set_bit m (Some a) (int n) value = Done (ok, Some a') \<and> string_ok a' \<and>
    (if ok then \<forall>i. string_bit a' i = (if i = n then value \<noteq> 0 else string_bit a i)
     else str_bytes a' = str_bytes a \<and> \<not> malloc_total m)"
proof -
  let ?w = "n div 8" and ?s = "7 - n mod 8"
  define a0 where "a0 = clear_bits_left a"
  have a0: "string_ok a0" "str_bytes a0 = str_bytes a" "as_length a0 = as_length a" "as_data a0 = as_data a"
    using a by (cases "as_data a"; simp add: a0_def clear_bits_left_def string_ok_def str_bytes_def)+
  define v where "v = (if value = 0 then 0 else push_bit ?s (1 :: u8))"
  define store where "store = put_bit (int ?w) (NOT (push_bit ?s 1)) v"
  have store: "\<exists>a'. store b = Done (True, Some a') \<and> string_ok a' \<and> (\<forall>i. string_bit a' i = (if i = n then value \<noteq> 0 else string_bit b i))"
    if b: "string_ok b" "?w < nat (as_length b)" for b
  proof -
    obtain c where c: "as_data b = Some c" using b by (auto simp: string_ok_def split: option.splits)
    have cok: "block_ok c" "nat (as_length b) \<le> blk_size c" "0 \<le> as_length b" "as_length b < 2 ^ 31" using b c by (simp_all add: string_ok_def)
    define d' where "d' = (blk_data c)[?w := ((blk_data c ! ?w) AND NOT (push_bit ?s 1)) OR v]"
    define z where "z = strip_zeros d' (nat (as_length b))"
    define a' where "a' = b\<lparr>as_data := Some (c\<lparr>blk_data := d'\<rparr>), as_length := int z\<rparr>"
    have o: "octets_at b = blk_data c" by (simp add: octets_at_def c)
    have z: "z \<le> nat (as_length b)" using strip_zeros_spec [of d' "nat (as_length b)"] by (simp add: z_def)
    have s: "store b = Done (True, Some a')" by (simp add: store_def put_bit_def Let_def o c a'_def z_def d'_def)
    have ok: "string_ok a'" using cok z by (simp add: a'_def string_ok_def block_ok_def d'_def)
    have sb: "str_bytes a' = take z d'" "str_bytes b = take (nat (as_length b)) (blk_data c)" by (simp_all add: a'_def str_bytes_def c)
    have "string_bit a' i = (if i = n then value \<noteq> 0 else string_bit b i)" for i
      unfolding string_bit_def sb
      by (rule store_bit [where data = "blk_data c" and len = "nat (as_length b)" and v = v and d' = d'])
        (use b(2) cok in \<open>simp_all add: v_def d'_def z_def block_ok_def\<close>)
    then show ?thesis using s ok by blast
  qed
  have unset: "\<not> string_bit a0 i" if "nat (as_length a0) \<le> i div 8" for i
    using that length_str_bytes [OF a0(1)] by (simp add: string_bit_def)
  have short: "as_length a0 < int ?w + 1 \<longleftrightarrow> nat (as_length a0) \<le> ?w" using a0(1) by (simp add: string_ok_def) linarith
  have step: "nat (int ?w + 1) = Suc ?w" by simp
  show ?thesis
  proof (cases "as_length a0 < int ?w + 1 \<or> as_data a0 = None")
    case False
    then have "ASN1_BIT_STRING_set_bit m (Some a) (int n) value = store a0"
      by (cases "as_data a0") (auto simp: ASN1_BIT_STRING_set_bit_def int_index Let_def a0_def [symmetric] store_def v_def)
    then show ?thesis using store [of a0] a0 False short by (auto simp: string_bit_def)
  next
    case grow: True
    have le: "nat (as_length a0) \<le> ?w" using grow short a0(1) by (auto simp: string_ok_def)
    have off: "\<not> string_bit a n" using unset [of n] le a0 by (simp add: string_bit_def)
    show ?thesis
    proof (cases "value = 0")
      case True
      then have "ASN1_BIT_STRING_set_bit m (Some a) (int n) value = Done (True, Some a0)"
        using grow by (auto simp: ASN1_BIT_STRING_set_bit_def int_index Let_def a0_def [symmetric])
      then show ?thesis using True a0 off by (auto simp: string_bit_def)
    next
      case nz: False
      define c0 where "c0 = (case as_data a0 of None \<Rightarrow> OPENSSL_malloc m (Suc ?w) | Some d \<Rightarrow> OPENSSL_realloc m (Some d) (Suc ?w))"
      have sz: "Suc ?w + 8 < SIZE_MOD" using n by (simp add: SIZE_MOD_def)
      show ?thesis
      proof (cases c0)
        case None
        then have "ASN1_BIT_STRING_set_bit m (Some a) (int n) value = Done (False, Some a0)"
          using grow nz a0(4) by (auto simp: ASN1_BIT_STRING_set_bit_def int_index Let_def a0_def [symmetric] c0_def step split: option.splits)
        moreover have "OPENSSL_malloc m (Suc ?w) = None"
          using None by (auto simp: c0_def OPENSSL_realloc_def Let_def split: option.splits)
        then have "\<not> malloc_total m" by (rule OPENSSL_malloc_None) (use n in simp)
        ultimately show ?thesis using a0 by auto
      next
        case (Some c)
        let ?l = "nat (as_length a0)"
        have c: "block_ok c" "blk_size c = Suc ?w" "take ?l (blk_data c) = str_bytes a0"
        proof -
          have "block_ok c \<and> blk_size c = Suc ?w \<and> take ?l (blk_data c) = str_bytes a0"
          proof (cases "as_data a0")
            case None
            then have "OPENSSL_malloc m (Suc ?w) = Some c" "as_length a0 = 0" "str_bytes a0 = []"
              using Some a0(1) by (simp_all add: c0_def string_ok_def str_bytes_def)
            then show ?thesis using OPENSSL_malloc_block [OF m sz] by simp
          next
            case d: (Some d)
            have dok: "block_ok d" "?l \<le> blk_size d" "OPENSSL_realloc m (Some d) (Suc ?w) = Some c"
              using Some a0(1) d by (simp_all add: c0_def string_ok_def)
            note r = OPENSSL_realloc_block [OF m sz dok(1,3)]
            have "?l \<le> min (blk_size d) (Suc ?w)" using le dok(2) by simp
            then have "take ?l (blk_data c) = take ?l (blk_data d)" using arg_cong [OF r(4), of "take ?l"] by (simp add: min_absorb1)
            then show ?thesis using r d by (simp add: str_bytes_def)
          qed
          then show "block_ok c" "blk_size c = Suc ?w" "take ?l (blk_data c) = str_bytes a0" by blast+
        qed
        define data where "data = str_bytes a0 @ replicate (Suc ?w - ?l) 0"
        define b where "b = a0\<lparr>as_data := Some (c\<lparr>blk_data := data\<rparr>), as_length := int ?w + 1\<rparr>"
        have ld: "length data = Suc ?w" using length_str_bytes [OF a0(1)] le by (simp add: data_def)
        have dd: "take ?l (blk_data c) @ replicate (nat (int ?w + 1 - as_length a0)) 0 @ drop (Suc ?w) (blk_data c) = data"
        proof -
          have "nat (int ?w + 1 - as_length a0) = Suc ?w - ?l"
          proof -
            have "0 \<le> as_length a0" using a0(1) by (simp add: string_ok_def)
            then show ?thesis by linarith
          qed
          then show ?thesis using c by (simp add: data_def block_ok_def)
        qed
        have "ASN1_BIT_STRING_set_bit m (Some a) (int n) value = store b"
        proof -
          have f: "(case as_data a0 of None \<Rightarrow> OPENSSL_malloc m (nat (int ?w + 1)) | Some d \<Rightarrow> OPENSSL_realloc m (Some d) (nat (int ?w + 1))) = Some c"
            using Some by (simp only: c0_def step)
          have pos: "0 < int ?w + 1 - as_length a0" using le a0(1) by (simp add: string_ok_def)
          show ?thesis
            using grow nz pos dd
            by (simp add: ASN1_BIT_STRING_set_bit_def int_index Let_def a0_def [symmetric] f b_def store_def v_def step)
        qed
        moreover have "?w < 2 ^ 28" using n by (simp add: div_less_iff_less_mult)
        then have "string_ok b" using c ld step by (simp add: b_def string_ok_def block_ok_def)
        moreover have "string_bit b i \<longleftrightarrow> string_bit a i" for i
        proof -
          have "str_bytes b = data" using ld by (simp add: b_def str_bytes_def step)
          then show ?thesis using ld le length_str_bytes [OF a0(1)] a0(2)
            by (auto simp: string_bit_def data_def nth_append diff_less_mono)
        qed
        moreover have "?w < nat (as_length b)" by (simp add: b_def step)
        ultimately show ?thesis using store [of b] by (intro exI [of _ True]) auto
      qed
    qed
  qed
qed


section \<open>Contents octets\<close>

text \<open>The bits that the newer reader of theory Cbs sees in contents octets.\<close>

lemma has_bit_Cons:
  "CBS_asn1_bitstring_has_bit (k # bs) n \<longleftrightarrow>
     bitstring_ok (k # bs) \<and> unat n div 8 < length bs \<and> bit (bs ! (unat n div 8)) (7 - unat n mod 8)"
proof -
  have "unat n < 8 * length bs \<longleftrightarrow> unat n div 8 < length bs" by (simp add: div_less_iff_less_mult mult.commute)
  then show ?thesis using nth_bits_of [of "unat n" bs] by (auto simp: CBS_asn1_bitstring_has_bit_iff)
qed

lemma bitstring_ok_snoc: "bitstring_ok (k # ys @ [y]) \<longleftrightarrow> unat k \<le> 7 \<and> (\<forall>i < unat k. \<not> bit y i)"
proof -
  have "7 < k \<longleftrightarrow> \<not> unat k \<le> 7" by (simp add: word_less_nat_alt not_le)
  moreover have "k = 0 \<longleftrightarrow> unat k = 0" by (simp add: unat_eq_0)
  ultimately show ?thesis
    unfolding CBS_is_valid_asn1_bitstring_iff [symmetric]
    by (auto simp: CBS_is_valid_asn1_bitstring_def CBS_get_last_u8_def nth_append low_bits_clear)
qed

lemma bitstring_ok_single: "bitstring_ok [k] \<longleftrightarrow> k = 0"
  unfolding CBS_is_valid_asn1_bitstring_iff [symmetric]
  by (auto simp: CBS_is_valid_asn1_bitstring_def CBS_get_last_u8_def)

lemma bit_masked: "i < 8 \<Longrightarrow> bit (y AND push_bit k 0xff :: u8) i \<longleftrightarrow> bit y i \<and> k \<le> i"
proof -
  have e: "(0xff :: u8) = - 1" by simp
  have "bit (- 1 :: u8) j \<longleftrightarrow> j < 8" for j unfolding bit_minus_1_iff possible_bit_word by simp
  then have "bit (0xff :: u8) j \<longleftrightarrow> j < 8" for j unfolding e .
  then have f: "bit (0xff :: u8) j = (j < 8)" for j .
  assume i: "i < 8"
  then show ?thesis unfolding bit_and_iff bit_push_bit_iff possible_bit_word f by auto
qed

lemma trailing_bits_spec:
  assumes "j \<noteq> 0"
  shows "bit j (trailing_bits j)" "\<forall>i < trailing_bits j. \<not> bit j i" "trailing_bits j \<le> 7"
proof -
  have b: "j AND 1 \<noteq> 0 \<longleftrightarrow> bit j 0" "j AND 2 \<noteq> 0 \<longleftrightarrow> bit j 1" "j AND 4 \<noteq> 0 \<longleftrightarrow> bit j 2" "j AND 8 \<noteq> 0 \<longleftrightarrow> bit j 3"
    "j AND 0x10 \<noteq> 0 \<longleftrightarrow> bit j 4" "j AND 0x20 \<noteq> 0 \<longleftrightarrow> bit j 5" "j AND 0x40 \<noteq> 0 \<longleftrightarrow> bit j 6" "j AND 0x80 \<noteq> 0 \<longleftrightarrow> bit j 7"
    using and_exp_eq_0_iff_not_bit [of j 0] and_exp_eq_0_iff_not_bit [of j 1] and_exp_eq_0_iff_not_bit [of j 2]
      and_exp_eq_0_iff_not_bit [of j 3] and_exp_eq_0_iff_not_bit [of j 4] and_exp_eq_0_iff_not_bit [of j 5]
      and_exp_eq_0_iff_not_bit [of j 6] and_exp_eq_0_iff_not_bit [of j 7] by simp_all
  have e8: "(\<forall>i < 8. \<not> bit j i) \<Longrightarrow> j = 0" by (rule bit_word_eqI) simp
  have all8: "(\<forall>i < 8. \<not> bit j i) \<longleftrightarrow> \<not> bit j 0 \<and> \<not> bit j 1 \<and> \<not> bit j 2 \<and> \<not> bit j 3 \<and> \<not> bit j 4 \<and> \<not> bit j 5 \<and> \<not> bit j 6 \<and> \<not> bit j 7"
    by (simp add: eval_nat_numeral All_less_Suc) blast
  show "bit j (trailing_bits j)" using e8 all8 assms unfolding trailing_bits_def b by auto
  show "\<forall>i < trailing_bits j. \<not> bit j i" unfolding trailing_bits_def b by (simp add: eval_nat_numeral All_less_Suc)
  show "trailing_bits j \<le> 7" by (simp add: trailing_bits_def)
qed

text \<open>Octets that are all zero make the writer read in front of the memory.\<close>

lemma i2c_ASN1_BIT_STRING_faults:
  assumes "string_ok a" "0 < as_length a" "as_flags a AND ASN1_STRING_FLAG_BITS_LEFT = 0" "\<forall>b \<in> set (str_bytes a). b = 0"
  shows "i2c_ASN1_BIT_STRING (Some a) = Fault"
proof -
  let ?z = "strip_zeros (octets_at a) (nat (as_length a))"
  have "?z = 0"
  proof (rule ccontr)
    assume nz: "?z \<noteq> 0"
    then have "octets_at a ! (?z - 1) \<noteq> 0" "?z - 1 < nat (as_length a)"
      using strip_zeros_spec [of "octets_at a" "nat (as_length a)"] by auto
    moreover from this have "octets_at a ! (?z - 1) \<in> set (str_bytes a)"
      using octets_str_bytes [OF assms(1)] by (metis in_set_conv_nth length_str_bytes assms(1) nth_take)
    ultimately show False using assms(4) by blast
  qed
  then show ?thesis using assms(2,3) by (simp add: i2c_ASN1_BIT_STRING_def Let_def)
qed

text \<open>Otherwise what is written is valid, has the same bits, and no zero bits at the end.\<close>

lemma i2c_ASN1_BIT_STRING_writes:
  assumes a: "string_ok a" and f: "as_flags a AND ASN1_STRING_FLAG_BITS_LEFT = 0"
    and nz: "as_length a = 0 \<or> (\<exists>b \<in> set (str_bytes a). b \<noteq> 0)"
  shows "\<exists>out. i2c_ASN1_BIT_STRING (Some a) = Done (int (length out), out) \<and> bitstring_ok out \<and>
    (\<forall>n. CBS_asn1_bitstring_has_bit out n \<longleftrightarrow> string_bit a (unat n))"
proof (cases "as_length a = 0")
  case True
  have "str_bytes a = []" using length_str_bytes [OF a] True by simp
  then have "string_bit a i = False" for i by (simp add: string_bit_def)
  then show ?thesis using True bitstring_ok_single [of 0] by (simp add: i2c_ASN1_BIT_STRING_def Let_def has_bit_Cons)
next
  case False
  define d l where "d = octets_at a" and "l = nat (as_length a)"
  have dl: "l \<le> length d" "str_bytes a = take l d" using octets_str_bytes [OF a] by (simp_all add: d_def l_def)
  define z where "z = strip_zeros d l"
  note zs = strip_zeros_spec [of d l, folded z_def]
  have z0: "z \<noteq> 0"
  proof
    assume "z = 0"
    then have "\<forall>j < l. d ! j = 0" using zs by simp
    then have "\<forall>b \<in> set (take l d). b = 0" using dl(1) by (auto simp: in_set_conv_nth)
    then show False using nz False dl(2) by auto
  qed
  define y ys where "y = d ! (z - 1)" and "ys = take (z - 1) d"
  have y: "y \<noteq> 0" using zs z0 by (simp add: y_def)
  have tz: "take z d = ys @ [y]" using zs dl(1) z0 by (cases z) (simp_all add: ys_def y_def take_Suc_conv_app_nth)
  have "z \<le> length d" using zs dl(1) by simp
  then have lys: "length ys = z - 1" by (simp add: ys_def)
  define k where "k = trailing_bits y"
  note ks = trailing_bits_spec [OF y, folded k_def]
  define out where "out = word_of_nat k # ys @ [y AND push_bit k 0xff]"
  have kk: "unat (word_of_nat k :: u8) = k" by (rule unat_of_nat_u8_small) (use ks in simp)
  have y': "y AND push_bit k 0xff = y"
    by (rule bit_word_eqI) (use ks(2) bit_masked in \<open>auto simp: not_less [symmetric]\<close>)
  have e: "i2c_ASN1_BIT_STRING (Some a) = Done (int (length out), out)"
    using False a f z0 tz lys
    by (simp add: i2c_ASN1_BIT_STRING_def Let_def string_ok_def out_def k_def y_def list_update_append flip: d_def l_def z_def)
  moreover have "bitstring_ok out" using ks kk by (simp add: out_def bitstring_ok_snoc y')
  moreover have "CBS_asn1_bitstring_has_bit out n \<longleftrightarrow> string_bit a (unat n)" for n
  proof -
    have "unat n div 8 < z \<and> bit ((ys @ [y]) ! (unat n div 8)) (7 - unat n mod 8) \<longleftrightarrow>
      unat n div 8 < l \<and> bit (d ! (unat n div 8)) (7 - unat n mod 8)"
      unfolding tz [symmetric] using zs by (cases "unat n div 8 < z") (auto simp: not_less)
    then show ?thesis using calculation(2) z0 lys dl by (simp add: out_def has_bit_Cons y' string_bit_def Suc_diff_1 cong: conj_cong)
  qed
  ultimately show ?thesis by blast
qed


text \<open>When the number of unused bits is in the flags, all octets are written, and the unused bits as zeros.\<close>

lemma and_7_bounds: "0 \<le> (x :: int) AND 7" "x AND 7 \<le> 7"
proof -
  have "x AND 7 = take_bit 3 x" by (simp add: take_bit_eq_mask mask_eq_exp_minus_1)
  then show "0 \<le> x AND 7" "x AND 7 \<le> 7" using take_bit_int_less_exp [of 3 x] by simp_all
qed

lemma i2c_ASN1_BIT_STRING_left:
  assumes a: "string_ok a" and f: "as_flags a AND ASN1_STRING_FLAG_BITS_LEFT \<noteq> 0"
  shows "\<exists>out. i2c_ASN1_BIT_STRING (Some a) = Done (int (length out), out) \<and> bitstring_ok out \<and>
    (\<forall>n. CBS_asn1_bitstring_has_bit out n \<longleftrightarrow> string_bit a (unat n) \<and> unat n < 8 * nat (as_length a) - nat (as_flags a AND 7))"
proof (cases "as_length a = 0")
  case True
  have "str_bytes a = []" using length_str_bytes [OF a] True by simp
  then have "string_bit a i = False" for i by (simp add: string_bit_def)
  then show ?thesis using True bitstring_ok_single [of 0] by (simp add: i2c_ASN1_BIT_STRING_def Let_def has_bit_Cons)
next
  case False
  define d l k where "d = octets_at a" and "l = nat (as_length a)" and "k = nat (as_flags a AND 7)"
  have dl: "l \<le> length d" "str_bytes a = take l d" using octets_str_bytes [OF a] by (simp_all add: d_def l_def)
  have l: "0 < as_length a" "l \<noteq> 0" using a False by (auto simp: string_ok_def l_def)
  have k: "k \<le> 7" using and_7_bounds(2) [of "as_flags a"] unfolding k_def by linarith
  define y ys where "y = d ! (l - 1)" and "ys = take (l - 1) d"
  have tl: "take l d = ys @ [y]" using dl(1) l(2) by (cases l) (simp_all add: ys_def y_def take_Suc_conv_app_nth)
  have lys: "length ys = l - 1" using dl(1) by (simp add: ys_def)
  define y' where "y' = y AND push_bit k 0xff"
  define out where "out = word_of_nat k # ys @ [y']"
  have kk: "unat (word_of_nat k :: u8) = k" by (rule unat_of_nat_u8_small) (use k in simp)
  have y': "bit y' i \<longleftrightarrow> bit y i \<and> k \<le> i" if "i < 8" for i unfolding y'_def by (rule bit_masked [OF that])
  have e: "i2c_ASN1_BIT_STRING (Some a) = Done (int (length out), out)"
    using f l tl lys by (simp add: i2c_ASN1_BIT_STRING_def Let_def out_def y'_def y_def list_update_append flip: d_def l_def k_def)
  moreover have "bitstring_ok out" using k kk y' by (simp add: out_def bitstring_ok_snoc)
  moreover have "CBS_asn1_bitstring_has_bit out n \<longleftrightarrow> string_bit a (unat n) \<and> unat n < 8 * l - k" for n
  proof -
    define q r where "q = unat n div 8" and "r = unat n mod 8"
    have qr: "unat n = 8 * q + r" "r < 8" by (simp_all add: q_def r_def)
    consider "q < l - 1" | "q = l - 1" | "l \<le> q" by linarith
    then have "q < l \<and> bit ((ys @ [y']) ! q) (7 - r) \<longleftrightarrow> (q < l \<and> bit (take l d ! q) (7 - r)) \<and> 8 * q + r < 8 * l - k"
    proof cases
      case 1
      then show ?thesis using lys k qr(2) by (auto simp: tl nth_append)
    next
      case 2
      have "8 * q + r < 8 * l - k \<longleftrightarrow> k \<le> 7 - r" using 2 l(2) k qr(2) by auto
      then show ?thesis using 2 l(2) lys y' [of "7 - r"] by (auto simp: tl nth_append)
    qed (use l(2) in auto)
    from this [folded qr(1)] show ?thesis
      using calculation(2) l(2) lys dl by (simp add: out_def has_bit_Cons string_bit_def Suc_diff_1 q_def [symmetric] r_def [symmetric] cong: conj_cong)
  qed
  ultimately show ?thesis by (auto simp: l_def k_def)
qed

lemma flags_left:
  fixes F :: int and k :: nat
  assumes "k \<le> 7"
  shows "((F AND NOT (ASN1_STRING_FLAG_BITS_LEFT OR 0x07)) OR (ASN1_STRING_FLAG_BITS_LEFT OR int k)) AND ASN1_STRING_FLAG_BITS_LEFT \<noteq> 0"
    "((F AND NOT (ASN1_STRING_FLAG_BITS_LEFT OR 0x07)) OR (ASN1_STRING_FLAG_BITS_LEFT OR int k)) AND 0x07 = int k"
proof -
  have k: "int k AND 7 = int k" "int k AND 8 = 0"
  proof -
    have "k = 0 \<or> k = 1 \<or> k = 2 \<or> k = 3 \<or> k = 4 \<or> k = 5 \<or> k = 6 \<or> k = 7" using assms by linarith
    then show "int k AND 7 = int k" "int k AND 8 = 0" by auto
  qed
  have f: "(F AND NOT 15) AND x = 0" if "NOT 15 AND x = (0 :: int)" for x using that by (simp add: and.assoc)
  show "((F AND NOT (ASN1_STRING_FLAG_BITS_LEFT OR 0x07)) OR (ASN1_STRING_FLAG_BITS_LEFT OR int k)) AND ASN1_STRING_FLAG_BITS_LEFT \<noteq> 0"
    "((F AND NOT (ASN1_STRING_FLAG_BITS_LEFT OR 0x07)) OR (ASN1_STRING_FLAG_BITS_LEFT OR int k)) AND 0x07 = int k"
    using k f [of 7] f [of 8] by (simp_all add: ASN1_STRING_FLAG_BITS_LEFT_def bit.conj_disj_distrib2)
qed

text \<open>Reading valid octets gives their bits, and an object that is written as the same octets.\<close>

lemma c2i_ASN1_BIT_STRING_reads:
  assumes m: "malloc_ok m" and v: "bitstring_ok octets" and len: "length octets \<le> INT_MAX" and a: "pred_option string_ok a"
  shows "case c2i_ASN1_BIT_STRING m a (octets @ r) (int (length octets)) of
      (False, a', rest) \<Rightarrow> \<not> malloc_total m
    | (True, a', rest) \<Rightarrow> rest = r \<and> (\<exists>s. a' = Some s \<and> string_ok s \<and> as_type s = V_ASN1_BIT_STRING \<and>
        (\<forall>n. string_bit s (unat n) \<longleftrightarrow> CBS_asn1_bitstring_has_bit octets n) \<and>
        i2c_ASN1_BIT_STRING (Some s) = Done (int (length octets), octets))"
proof -
  obtain k bs where o: "octets = k # bs" and k7: "unat k \<le> 7" using v by (auto simp: bitstring_ok_def)
  have k: "\<not> 7 < k" using k7 by (simp add: word_less_nat_alt not_less)
  define o0 where "o0 = (case a of None \<Rightarrow> ASN1_STRING_type_new m V_ASN1_BIT_STRING | Some ret \<Rightarrow> Some ret)"
  have l: "\<not> (int (length octets) < 1 \<or> int INT_MAX < int (length octets))" using len o by simp
  have h: "(octets @ r) ! 0 = k" "tl (octets @ r) = bs @ r" "nat (int (length octets) - 1) = length bs" by (simp_all add: o)
  show ?thesis
  proof (cases o0)
    case None
    then have "OPENSSL_malloc m sizeof_ASN1_STRING = None" by (auto simp: o0_def ASN1_STRING_type_new_def split: option.splits)
    then have "\<not> malloc_total m" by (rule OPENSSL_malloc_None) (simp add: sizeof_ASN1_STRING_def)
    then show ?thesis using None l by (simp add: c2i_ASN1_BIT_STRING_def flip: o0_def)
  next
    case (Some ret0)
    define ret where "ret = (clear_bits_left ret0)\<lparr>as_flags := as_flags (clear_bits_left ret0) OR (ASN1_STRING_FLAG_BITS_LEFT OR int (unat k))\<rparr>"
    have fl: "as_flags ret AND ASN1_STRING_FLAG_BITS_LEFT \<noteq> 0" "nat (as_flags ret AND 0x07) = unat k"
    proof -
      have "as_flags ret = (as_flags ret0 AND NOT (ASN1_STRING_FLAG_BITS_LEFT OR 0x07)) OR (ASN1_STRING_FLAG_BITS_LEFT OR int (unat k))"
        unfolding ret_def clear_bits_left_def
        by (cases ret0) (simp only: asn1_string_st.select_convs asn1_string_st.update_convs)
      then show "as_flags ret AND ASN1_STRING_FLAG_BITS_LEFT \<noteq> 0" "nat (as_flags ret AND 0x07) = unat k"
        using flags_left [OF k7, of "as_flags ret0"] by (simp_all only: nat_int not_False_eq_True)
    qed
    show ?thesis
    proof (cases bs rule: rev_cases)
      case Nil
      define s where "s = ret\<lparr>as_length := 0, as_data := None, as_type := V_ASN1_BIT_STRING\<rparr>"
      have "c2i_ASN1_BIT_STRING m a (octets @ r) (int (length octets)) = (True, Some s, r)"
        using Some l k Nil by (simp add: c2i_ASN1_BIT_STRING_def Let_def h s_def ret_def flip: o0_def)
      moreover have "k = 0" using v by (simp add: o Nil bitstring_ok_single)
      moreover have "string_ok s" "str_bytes s = []" by (simp_all add: s_def string_ok_def str_bytes_def)
      ultimately show ?thesis
        by (auto simp: o Nil has_bit_Cons string_bit_def i2c_ASN1_BIT_STRING_def Let_def) (simp_all add: s_def)
    next
      case (snoc ys y)
      have y: "\<forall>i < unat k. \<not> bit y i" using v by (simp add: o snoc bitstring_ok_snoc)
      have y': "y AND push_bit (unat k) 0xff = y"
        by (rule bit_word_eqI) (use y bit_masked in \<open>auto simp: not_less [symmetric]\<close>)
      let ?n = "length bs"
      have pos: "0 < ?n" by (simp add: snoc)
      show ?thesis
      proof (cases "OPENSSL_malloc m ?n")
        case None
        then have "\<not> malloc_total m" by (rule OPENSSL_malloc_None) (use len in \<open>simp add: o INT_MAX_def\<close>)
        then show ?thesis using None Some l k pos by (simp add: c2i_ASN1_BIT_STRING_def Let_def h flip: o0_def)
      next
        case c: (Some c)
        have b: "block_ok c" "blk_size c = ?n" using OPENSSL_malloc_block [OF m _ c] len by (simp_all add: o INT_MAX_def SIZE_MOD_def)
        define s where "s = ret\<lparr>as_length := int ?n, as_data := Some (c\<lparr>blk_data := bs\<rparr>), as_type := V_ASN1_BIT_STRING\<rparr>"
        have "memcpy (blk_data c) (bs @ r) ?n = bs" using b by (simp add: memcpy_def block_ok_def)
        moreover have upd: "bs[?n - 1 := bs ! (?n - 1) AND push_bit (unat k) 0xff] = bs" by (simp add: snoc y' list_update_append)
        ultimately have e: "c2i_ASN1_BIT_STRING m a (octets @ r) (int (length octets)) = (True, Some s, r)"
          using Some l k c pos by (simp add: c2i_ASN1_BIT_STRING_def Let_def h s_def ret_def flip: o0_def)
        have sb: "str_bytes s = bs" by (simp add: s_def str_bytes_def)
        have "string_ok s" using b len by (simp add: s_def string_ok_def block_ok_def o INT_MAX_def)
        moreover have "string_bit s (unat n) \<longleftrightarrow> CBS_asn1_bitstring_has_bit octets n" for n
          using v by (simp add: o has_bit_Cons string_bit_def sb)
        moreover have "i2c_ASN1_BIT_STRING (Some s) = Done (int (length octets), octets)"
          using fl upd pos by (simp add: i2c_ASN1_BIT_STRING_def Let_def s_def octets_at_def o)
        ultimately show ?thesis using e by (simp add: s_def)
      qed
    qed
  qed
qed

text \<open>The check of allowed bits.\<close>

lemma check_loop_eq:
  "flags_len \<le> length flags \<Longrightarrow>
   check_loop data flags flags_len \<longleftrightarrow> (\<forall>i < length data. data ! i AND (if i < flags_len then NOT (flags ! i) else 0xff) = 0)"
proof (induction data arbitrary: flags flags_len)
  case (Cons b data)
  have s: "(if i < flags_len - 1 then NOT (tl flags ! i) else 0xff) = (if Suc i < flags_len then NOT (flags ! Suc i) else 0xff)" for i
    using Cons.prems by (auto simp: nth_tl)
  have "flags_len - 1 \<le> length (tl flags)" using Cons.prems by simp
  then have IH: "check_loop data (tl flags) (flags_len - 1) \<longleftrightarrow>
      (\<forall>i < length data. data ! i AND (if Suc i < flags_len then NOT (flags ! Suc i) else 0xff) = 0)"
    unfolding s [symmetric] by (rule Cons.IH)
  have "check_loop (b # data) flags flags_len \<longleftrightarrow>
      b AND (if 0 < flags_len then NOT (flags ! 0) else 0xff) = 0 \<and> check_loop data (tl flags) (flags_len - 1)"
    unfolding check_loop.simps Let_def by (rule if_bool_eq_conj [THEN trans]) blast
  then show ?case unfolding IH list.size(4) add_Suc_right add_0_right All_less_Suc2 nth_Cons_0 nth_Cons_Suc .
qed simp

lemma ASN1_BIT_STRING_check_spec:
  assumes "string_ok a" "flags_len \<le> length flags"
  shows "ASN1_BIT_STRING_check (Some a) flags (int flags_len) \<longleftrightarrow>
    (\<forall>i. string_bit a i \<longrightarrow> i div 8 < flags_len \<and> bit (flags ! (i div 8)) (7 - i mod 8))"
proof -
  let ?X = "str_bytes a"
  have z: "b AND NOT m = 0 \<longleftrightarrow> (\<forall>j < 8. bit b (7 - j) \<longrightarrow> bit m (7 - j))" for b m :: u8
  proof -
    have "b AND NOT m = 0 \<longleftrightarrow> (\<forall>j < 8. bit b j \<longrightarrow> bit m j)"
    proof
      assume e: "b AND NOT m = 0"
      show "\<forall>j < 8. bit b j \<longrightarrow> bit m j"
      proof (intro allI impI)
        fix j :: nat assume j: "j < 8" "bit b j"
        have "\<not> bit (b AND NOT m) j" unfolding e by simp
        then show "bit m j" using j by (simp add: bit_and_iff bit_not_iff)
      qed
    next
      assume "\<forall>j < 8. bit b j \<longrightarrow> bit m j"
      then show "b AND NOT m = 0" by (intro bit_word_eqI) (simp add: bit_and_iff bit_not_iff)
    qed
    also have "\<dots> \<longleftrightarrow> (\<forall>j < 8. bit b (7 - j) \<longrightarrow> bit m (7 - j))"
    proof (intro iffI allI impI)
      fix j :: nat assume "\<forall>j < 8. bit b (7 - j) \<longrightarrow> bit m (7 - j)" "j < 8" "bit b j"
      then show "bit m j" by (elim allE [of _ "7 - j"]) simp
    qed auto
    finally show ?thesis .
  qed
  have c: "ASN1_BIT_STRING_check (Some a) flags (int flags_len) = check_loop ?X flags flags_len"
    using octets_str_bytes [OF assms(1)] by (auto simp: ASN1_BIT_STRING_check_def octets_at_def)
  have ff: "(0xff :: u8) = NOT 0" by simp
  have s: "(if c then NOT u else 0xff :: u8) = NOT (if c then u else 0)" for c u by simp
  have "check_loop ?X flags flags_len \<longleftrightarrow>
      (\<forall>i < length ?X. \<forall>j < 8. bit (?X ! i) (7 - j) \<longrightarrow> bit (if i < flags_len then flags ! i else 0) (7 - j))"
    unfolding check_loop_eq [OF assms(2)] s z ..
  also have "\<dots> \<longleftrightarrow> (\<forall>i. string_bit a i \<longrightarrow> i div 8 < flags_len \<and> bit (flags ! (i div 8)) (7 - i mod 8))"
  proof (intro iffI allI impI)
    fix i assume all: "\<forall>i < length ?X. \<forall>j < 8. bit (?X ! i) (7 - j) \<longrightarrow> bit (if i < flags_len then flags ! i else 0) (7 - j)"
      and i: "string_bit a i"
    then show "i div 8 < flags_len \<and> bit (flags ! (i div 8)) (7 - i mod 8)"
      using all [rule_format, of "i div 8" "i mod 8"] by (auto simp: string_bit_def split: if_splits)
  next
    fix i j :: nat
    assume all: "\<forall>i. string_bit a i \<longrightarrow> i div 8 < flags_len \<and> bit (flags ! (i div 8)) (7 - i mod 8)"
      and ij: "i < length ?X" "j < 8" "bit (?X ! i) (7 - j)"
    have "(8 * i + j) div 8 = i" "(8 * i + j) mod 8 = j" using ij(2) by simp_all
    then show "bit (if i < flags_len then flags ! i else 0) (7 - j)"
      using all [rule_format, of "8 * i + j"] ij by (simp add: string_bit_def)
  qed
  finally show ?thesis unfolding c .
qed


end
