(* ===== verification/Bn_Limbs.thy ===== *)
theory Bn_Limbs
  imports Mem Constant_Time
begin

text \<open>
  Numbers as lists of 64-bit limbs, least significant first, the representation of \<^verbatim>\<open>crypto/fipsmodule/bn\<close>:
  their value, and the lemmas on values that the arithmetic of the big integers shares. \<open>BN_BASE\<close> is \<open>2^64\<close>, kept folded.
\<close>

type_synonym limb = u64

definition BN_BITS2 :: nat where
  "BN_BITS2 = 64"

definition BN_BYTES :: nat where
  "BN_BYTES = 8"

definition BN_BASE :: nat where
  "BN_BASE = 2 ^ 64"

lemma BN_BASE_gt [simp]: "0 < BN_BASE" "1 < BN_BASE" "BN_BASE \<noteq> 0" "1 \<le> BN_BASE" "Suc 0 \<le> BN_BASE"
  by (simp_all add: BN_BASE_def)

lemma BN_BASE_power: "BN_BASE ^ k = 2 ^ (64 * k)"
  by (simp add: BN_BASE_def power_mult)

lemma limb_less [simp]: "unat (w :: limb) < BN_BASE"
  unfolding BN_BASE_def using unsigned_less [of w] by simp

lemma limb_le: "unat (w :: limb) + 1 \<le> BN_BASE"
  using limb_less [of w] by (simp del: limb_less)

lemma unat_of_nat_limb: "unat (word_of_nat n :: limb) = n mod BN_BASE"
  by (simp add: unsigned_of_nat take_bit_eq_mod BN_BASE_def)

lemma unat_limb_arith:
  fixes a b :: limb
  shows "unat (a + b) = (unat a + unat b) mod BN_BASE" "unat (a * b) = (unat a * unat b) mod BN_BASE"
    "unat (a - b) = (if unat b \<le> unat a then unat a - unat b else BN_BASE + unat a - unat b)"
  by (simp_all only: unat_word_ariths unat_minus BN_BASE_def) simp_all

lemma unat_limb_add: "unat (a + b :: limb) = (if BN_BASE \<le> unat a + unat b then unat a + unat b - BN_BASE else unat a + unat b)"
proof -
  have "unat a + unat b < BN_BASE + BN_BASE" using limb_less [of a] limb_less [of b] by (intro add_strict_mono)
  then show ?thesis by (simp add: unat_limb_arith mod_if)
qed

section \<open>Values\<close>

fun wval :: "limb list \<Rightarrow> nat" where
  "wval [] = 0"
| "wval (w # ws) = unat w + BN_BASE * wval ws"

text \<open>The \<open>n\<close> low limbs of a number.\<close>

fun limbs :: "nat \<Rightarrow> nat \<Rightarrow> limb list" where
  "limbs 0 v = []"
| "limbs (Suc n) v = word_of_nat v # limbs n (v div BN_BASE)"

lemma length_limbs [simp]: "length (limbs n v) = n"
  by (induction n arbitrary: v) simp_all

lemma wval_append: "wval (xs @ ys) = wval xs + BN_BASE ^ length xs * wval ys"
  by (induction xs) (simp_all add: algebra_simps)

lemma wval_snoc: "wval (xs @ [x]) = wval xs + BN_BASE ^ length xs * unat x"
  by (simp add: wval_append)

lemma wval_less: "wval ws < BN_BASE ^ length ws"
proof (induction ws)
  case (Cons w ws)
  then have "BN_BASE * (wval ws + 1) \<le> BN_BASE * BN_BASE ^ length ws" by (intro mult_le_mono2) simp
  then show ?case using limb_less [of w] by (simp del: limb_less)
qed simp

lemma wval_limbs: "wval (limbs n v) = v mod BN_BASE ^ n"
  by (induction n arbitrary: v) (simp_all add: unat_of_nat_limb mod_mult2_eq add.commute)

lemma limbs_wval: "limbs (length ws) (wval ws) = ws"
proof (induction ws)
  case (Cons w ws)
  have "unat (word_of_nat (unat w + BN_BASE * wval ws) :: limb) = unat w" unfolding unat_of_nat_limb by simp
  then have "word_of_nat (unat w + BN_BASE * wval ws) = w" by (rule word_nat_eqI)
  then show ?case using Cons by simp
qed simp

lemma limbs_eqI: "length ws = n \<Longrightarrow> wval ws = v \<Longrightarrow> limbs n v = ws"
  using limbs_wval [of ws] by simp

lemma wval_inject: "length xs = length ys \<Longrightarrow> wval xs = wval ys \<longleftrightarrow> xs = ys"
  by (metis limbs_wval)

lemma wval_zero_iff: "wval ws = 0 \<longleftrightarrow> (\<forall>w \<in> set ws. w = 0)"
  by (induction ws) (auto simp: unsigned_eq_0_iff)

lemma wval_replicate_0 [simp]: "wval (replicate n 0) = 0"
  by (simp add: wval_zero_iff)

lemma wval_split: "wval ws = wval (take n ws) + BN_BASE ^ min n (length ws) * wval (drop n ws)"
  using wval_append [of "take n ws" "drop n ws"] by (simp add: min.commute)

lemma wval_div: "wval ws div BN_BASE ^ n = wval (drop n ws)"
proof (cases "n \<le> length ws")
  case True
  have "wval (take n ws) < BN_BASE ^ n" using wval_less [of "take n ws"] True by simp
  then show ?thesis using wval_split [of ws n] True by (simp add: min_absorb1)
next
  case False
  have "(BN_BASE :: nat) ^ length ws \<le> BN_BASE ^ n" using False by (intro power_increasing) (simp_all add: BN_BASE_def)
  with wval_less [of ws] have "wval ws < BN_BASE ^ n" by (rule less_le_trans)
  then show ?thesis using False by simp
qed

lemma wval_mod: "wval ws mod BN_BASE ^ n = wval (take n ws)"
proof (cases "n \<le> length ws")
  case True
  have "wval (take n ws) < BN_BASE ^ n" using wval_less [of "take n ws"] True by simp
  then show ?thesis using wval_split [of ws n] True by (simp add: min_absorb1)
next
  case False
  have "(BN_BASE :: nat) ^ length ws \<le> BN_BASE ^ n" using False by (intro power_increasing) (simp_all add: BN_BASE_def)
  with wval_less [of ws] have "wval ws < BN_BASE ^ n" by (rule less_le_trans)
  then show ?thesis using False by simp
qed

lemma wval_less_iff: "wval ws < BN_BASE ^ n \<longleftrightarrow> (\<forall>w \<in> set (drop n ws). w = 0)"
  using div_eq_0_iff [of "wval ws" "BN_BASE ^ n"] by (simp add: wval_div wval_zero_iff)

text \<open>Comparison at the last limb.\<close>

lemma wval_snoc_less:
  assumes "length xs = length ys"
  shows "wval (xs @ [x]) < wval (ys @ [y]) \<longleftrightarrow> x < y \<or> x = y \<and> wval xs < wval ys"
proof -
  have l: "wval xs < BN_BASE ^ length xs" "wval ys < BN_BASE ^ length xs" using wval_less [of xs] wval_less [of ys] assms by simp_all
  have step: "wval us + BN_BASE ^ length xs * unat u < wval vs + BN_BASE ^ length xs * unat v"
    if "unat u < unat v" "wval us < BN_BASE ^ length xs" for u v :: limb and us vs
  proof -
    have "BN_BASE ^ length xs * (unat u + 1) \<le> BN_BASE ^ length xs * unat v" using that(1) by (intro mult_le_mono2) simp
    then show ?thesis using that(2) by simp
  qed
  consider "unat x < unat y" | "x = y" | "unat y < unat x" by (metis linorder_neqE_nat word_unat_eq_iff)
  then show ?thesis
  proof cases
    case 1
    then show ?thesis using step [OF 1 l(1), of ys] assms by (simp add: wval_snoc word_less_nat_alt)
  next
    case 2
    then show ?thesis using assms by (simp add: wval_snoc)
  next
    case 3
    then show ?thesis using step [OF 3 l(2), of xs] assms by (auto simp: wval_snoc word_less_nat_alt)
  qed
qed

section \<open>Limbs in memory\<close>

text \<open>Words are stored with their least significant byte first.\<close>

definition limb_of_bytes :: "u8 list \<Rightarrow> limb" where
  "limb_of_bytes bs = word_of_nat (be_val (rev bs))"

definition limbs_of_bytes :: "nat \<Rightarrow> u8 list \<Rightarrow> limb list" where
  "limbs_of_bytes n bs = map (\<lambda>i. limb_of_bytes (take BN_BYTES (drop (BN_BYTES * i) bs))) [0..<n]"

definition bytes_of_limbs :: "limb list \<Rightarrow> u8 list" where
  "bytes_of_limbs ws = concat (map (\<lambda>w. rev (be_bytes BN_BYTES (unat w))) ws)"

lemma length_limbs_of_bytes [simp]: "length (limbs_of_bytes n bs) = n"
  by (simp add: limbs_of_bytes_def)

text \<open>\<open>memcpy\<close> of \<open>n\<close> limbs.\<close>

definition copy_limbs :: "limb list \<Rightarrow> limb list \<Rightarrow> nat \<Rightarrow> limb list" where
  "copy_limbs dst src n = take n src @ drop n dst"

lemma length_copy_limbs [simp]: "n \<le> length dst \<Longrightarrow> n \<le> length src \<Longrightarrow> length (copy_limbs dst src n) = length dst"
  by (simp add: copy_limbs_def)

lemma take_copy_limbs: "n \<le> length src \<Longrightarrow> take n (copy_limbs dst src n) = take n src"
  by (simp add: copy_limbs_def)

text \<open>The OR of a range of limbs, as the code accumulates it in a mask.\<close>

definition or_range :: "limb list \<Rightarrow> nat \<Rightarrow> nat \<Rightarrow> limb" where
  "or_range d i j = foldl (\<lambda>m i. m OR d ! i) 0 [i..<j]"

lemma word_or_zero_iff: "(a :: 'a::len word) OR b = 0 \<longleftrightarrow> a = 0 \<and> b = 0"
proof -
  have "a OR b = 0 \<Longrightarrow> \<not> bit a n \<and> \<not> bit b n" for n by (metis bit_0_eq bit_or_iff bot_apply bot_bool_def)
  then show ?thesis by (metis bit_word_eqI bit_0_eq bot_apply bot_bool_def or.right_neutral or.left_neutral)
qed

lemma or_range_zero: "or_range d i j = 0 \<longleftrightarrow> (\<forall>k. i \<le> k \<and> k < j \<longrightarrow> d ! k = 0)"
proof -
  have "foldl (\<lambda>m i. m OR d ! i) a ks = 0 \<longleftrightarrow> a = 0 \<and> (\<forall>k \<in> set ks. d ! k = 0)" for ks and a :: limb
    by (induction ks arbitrary: a) (auto simp: word_or_zero_iff)
  then show ?thesis by (auto simp: or_range_def)
qed

lemma or_range_wval: "j \<le> length d \<Longrightarrow> or_range d i j = 0 \<longleftrightarrow> wval (take j d) < BN_BASE ^ i"
proof -
  assume j: "j \<le> length d"
  have "(\<forall>w \<in> set (drop i (take j d)). w = 0) \<longleftrightarrow> (\<forall>k. i \<le> k \<and> k < j \<longrightarrow> d ! k = 0)"
  proof
    assume a: "\<forall>w \<in> set (drop i (take j d)). w = 0"
    show "\<forall>k. i \<le> k \<and> k < j \<longrightarrow> d ! k = 0"
    proof (intro allI impI)
      fix k assume k: "i \<le> k \<and> k < j"
      then have "drop i (take j d) ! (k - i) = d ! k" "k - i < length (drop i (take j d))" using j by auto
      then show "d ! k = 0" using a nth_mem by metis
    qed
  next
    assume a: "\<forall>k. i \<le> k \<and> k < j \<longrightarrow> d ! k = 0"
    show "\<forall>w \<in> set (drop i (take j d)). w = 0"
      using a j by (auto simp: in_set_conv_nth)
  qed
  then show ?thesis unfolding or_range_zero wval_less_iff by simp
qed

end
