(* ===== verification/Bn.thy ===== *)
theory Bn
  imports Bn_Limbs
begin

text \<open>
  \<^verbatim>\<open>crypto/fipsmodule/bn/bn.c\<close>: big integers, a sign and limbs in memory of which \<open>width\<close> are valid. The width need not be
  minimal; the operations are specified by the integer \<open>bn_val\<close> and so do not depend on it. \<open>d\<close> is empty for NULL.

  Functions of several objects take them as values. Where the code allows the result to be one of the operands, it reads
  each limb of an operand before it writes the limb of the result at that place, and the width and the sign before
  it changes them, so that the same function describes the call.
\<close>

section \<open>Code\<close>

record bignum =
  bn_d :: "limb list"
  bn_width :: nat
  bn_dmax :: nat
  bn_neg :: bool
  bn_flags :: int

definition BN_FLG_MALLOCED :: int where
  "BN_FLG_MALLOCED = 1"

definition BN_FLG_STATIC_DATA :: int where
  "BN_FLG_STATIC_DATA = 2"

definition sizeof_BIGNUM :: nat where
  "sizeof_BIGNUM = 24"

definition BN_init :: bignum where
  "BN_init = \<lparr>bn_d = [], bn_width = 0, bn_dmax = 0, bn_neg = False, bn_flags = 0\<rparr>"

definition BN_new :: "allocator \<Rightarrow> bignum option" where
  "BN_new m = (case OPENSSL_malloc m sizeof_BIGNUM of None \<Rightarrow> None | Some _ \<Rightarrow> Some (BN_init\<lparr>bn_flags := BN_FLG_MALLOCED\<rparr>))"

text \<open>What is left of an object, unless it is freed itself.\<close>

definition BN_free :: "bignum option \<Rightarrow> bignum option" where
  "BN_free bn =
     (case bn of
        None \<Rightarrow> None
      | Some bn \<Rightarrow> if bn_flags bn AND BN_FLG_MALLOCED \<noteq> 0 then None else Some (bn\<lparr>bn_d := []\<rparr>))"

definition BN_clear_free :: "bignum option \<Rightarrow> bignum option" where
  "BN_clear_free bn =
     (case bn of
        None \<Rightarrow> None
      | Some bn \<Rightarrow> if bn_flags bn AND BN_FLG_MALLOCED \<noteq> 0 then None else Some BN_init)"

definition bn_wexpand :: "allocator \<Rightarrow> bignum \<Rightarrow> nat \<Rightarrow> bool \<times> bignum" where
  "bn_wexpand m bn words =
     (if words \<le> bn_dmax bn then (True, bn)
      else if INT_MAX div (4 * BN_BITS2) < words then (False, bn)
      else if bn_flags bn AND BN_FLG_STATIC_DATA \<noteq> 0 then (False, bn)
      else
        case OPENSSL_malloc m (BN_BYTES * words) of
          None \<Rightarrow> (False, bn)
        | Some a \<Rightarrow>
            (True, bn\<lparr>bn_d := copy_limbs (limbs_of_bytes words (blk_data a)) (bn_d bn) (bn_width bn), bn_dmax := words\<rparr>))"

definition bn_expand :: "allocator \<Rightarrow> bignum \<Rightarrow> nat \<Rightarrow> bool \<times> bignum" where
  "bn_expand m bn bits =
     (if (bits + BN_BITS2 - 1) mod SIZE_MOD < bits then (False, bn)
      else bn_wexpand m bn ((bits + BN_BITS2 - 1) div BN_BITS2))"

definition BN_copy :: "allocator \<Rightarrow> bignum \<Rightarrow> bignum \<Rightarrow> bool \<times> bignum" where
  "BN_copy m dest src =
     (case bn_wexpand m dest (bn_width src) of
        (ok, dest) \<Rightarrow>
          if \<not> ok then (False, dest)
          else (True, dest\<lparr>bn_d := copy_limbs (bn_d dest) (bn_d src) (bn_width src), bn_width := bn_width src, bn_neg := bn_neg src\<rparr>))"

definition BN_dup :: "allocator \<Rightarrow> bignum option \<Rightarrow> bignum option" where
  "BN_dup m src =
     (case src of
        None \<Rightarrow> None
      | Some src \<Rightarrow>
          (case BN_new m of
             None \<Rightarrow> None
           | Some copy \<Rightarrow> (case BN_copy m copy src of (ok, copy) \<Rightarrow> if ok then Some copy else None)))"

definition BN_clear :: "bignum \<Rightarrow> bignum" where
  "BN_clear bn = bn\<lparr>bn_d := replicate (length (bn_d bn)) 0, bn_width := 0, bn_neg := False\<rparr>"

definition BN_value_one :: bignum where
  "BN_value_one = \<lparr>bn_d = [1], bn_width = 1, bn_dmax = 1, bn_neg = False, bn_flags = BN_FLG_STATIC_DATA\<rparr>"

text \<open>One of the blocks of the count: \<open>k\<close> bits are counted when there are bits above them.\<close>

definition count_block :: "nat \<Rightarrow> nat \<times> limb \<Rightarrow> nat \<times> limb" where
  "count_block k =
     (\<lambda>(bits, l).
        let x = drop_bit k l; mask' = 0 - x; mask' = 0 - drop_bit 63 mask'
        in (bits + unat (word_of_nat k AND mask'), l XOR ((x XOR l) AND mask')))"

definition BN_num_bits_word :: "limb \<Rightarrow> nat" where
  "BN_num_bits_word l = fst (fold count_block [32, 16, 8, 4, 2, 1] (if l \<noteq> 0 then 1 else 0, l))"

fun minimal_loop :: "limb list \<Rightarrow> nat \<Rightarrow> nat" where
  "minimal_loop d 0 = 0"
| "minimal_loop d (Suc ret) = (if d ! ret = 0 then minimal_loop d ret else Suc ret)"

definition bn_minimal_width :: "bignum \<Rightarrow> nat" where
  "bn_minimal_width bn = minimal_loop (bn_d bn) (bn_width bn)"

definition bn_set_minimal_width :: "bignum \<Rightarrow> bignum" where
  "bn_set_minimal_width bn =
     (let bn = bn\<lparr>bn_width := bn_minimal_width bn\<rparr> in
      if bn_width bn = 0 then bn\<lparr>bn_neg := False\<rparr> else bn)"

definition BN_num_bits :: "bignum \<Rightarrow> nat" where
  "BN_num_bits bn =
     (let width = bn_minimal_width bn in
      if width = 0 then 0 else (width - 1) * BN_BITS2 + BN_num_bits_word (bn_d bn ! (width - 1)))"

definition BN_num_bytes :: "bignum \<Rightarrow> nat" where
  "BN_num_bytes bn = (BN_num_bits bn + 7) div 8"

definition BN_zero :: "bignum \<Rightarrow> bignum" where
  "BN_zero bn = bn\<lparr>bn_width := 0, bn_neg := False\<rparr>"

definition BN_set_word :: "allocator \<Rightarrow> bignum \<Rightarrow> limb \<Rightarrow> bool \<times> bignum" where
  "BN_set_word m bn v =
     (if v = 0 then (True, BN_zero bn)
      else
        case bn_wexpand m bn 1 of
          (ok, bn) \<Rightarrow>
            if \<not> ok then (False, bn)
            else (True, bn\<lparr>bn_neg := False, bn_d := (bn_d bn)[0 := v], bn_width := 1\<rparr>))"

definition BN_one :: "allocator \<Rightarrow> bignum \<Rightarrow> bool \<times> bignum" where
  "BN_one m bn = BN_set_word m bn 1"

definition BN_set_u64 :: "allocator \<Rightarrow> bignum \<Rightarrow> u64 \<Rightarrow> bool \<times> bignum" where
  "BN_set_u64 m bn v = BN_set_word m bn v"

definition bn_set_words :: "allocator \<Rightarrow> bignum \<Rightarrow> limb list \<Rightarrow> nat \<Rightarrow> bool \<times> bignum" where
  "bn_set_words m bn words num =
     (case bn_wexpand m bn num of
        (ok, bn) \<Rightarrow>
          if \<not> ok then (False, bn)
          else (True, bn\<lparr>bn_d := copy_limbs (bn_d bn) words num, bn_width := num, bn_neg := False\<rparr>))"

definition bn_fits_in_words :: "bignum \<Rightarrow> nat \<Rightarrow> bool" where
  "bn_fits_in_words bn num \<longleftrightarrow> or_range (bn_d bn) num (bn_width bn) = 0"

text \<open>The words written at \<open>out\<close>, or \<open>None\<close> when the call fails.\<close>

definition bn_copy_words :: "nat \<Rightarrow> bignum \<Rightarrow> limb list option" where
  "bn_copy_words num bn =
     (if bn_neg bn then None
      else if num < bn_width bn \<and> \<not> bn_fits_in_words bn num then None
      else
        let width = (if num < bn_width bn then num else bn_width bn)
        in Some (copy_limbs (replicate num 0) (bn_d bn) width))"

definition BN_is_negative :: "bignum \<Rightarrow> bool" where
  "BN_is_negative bn \<longleftrightarrow> bn_neg bn"

definition BN_is_zero :: "bignum \<Rightarrow> bool" where
  "BN_is_zero bn \<longleftrightarrow> bn_fits_in_words bn 0"

definition BN_set_negative :: "bignum \<Rightarrow> bool \<Rightarrow> bignum" where
  "BN_set_negative bn sign = bn\<lparr>bn_neg := (sign \<and> \<not> BN_is_zero bn)\<rparr>"

definition bn_resize_words :: "allocator \<Rightarrow> bignum \<Rightarrow> nat \<Rightarrow> bool \<times> bignum" where
  "bn_resize_words m bn words =
     (if bn_width bn \<le> words then
        (case bn_wexpand m bn words of
           (ok, bn) \<Rightarrow>
             if \<not> ok then (False, bn)
             else
               (True, bn\<lparr>bn_d := take (bn_width bn) (bn_d bn) @ replicate (words - bn_width bn) 0 @ drop words (bn_d bn),
                  bn_width := words\<rparr>))
      else if \<not> bn_fits_in_words bn words then (False, bn)
      else (True, bn\<lparr>bn_width := words\<rparr>))"

definition bn_select_words :: "limb \<Rightarrow> limb list \<Rightarrow> limb list \<Rightarrow> nat \<Rightarrow> limb list" where
  "bn_select_words mask' a b num = map (\<lambda>i. constant_time_select_w mask' (a ! i) (b ! i)) [0..<num]"

section \<open>The integer an object stands for\<close>

definition bn_ok :: "bignum \<Rightarrow> bool" where
  "bn_ok bn \<longleftrightarrow> length (bn_d bn) = bn_dmax bn \<and> bn_width bn \<le> bn_dmax bn \<and> bn_dmax bn \<le> 2 ^ 23"

definition bn_limbs :: "bignum \<Rightarrow> limb list" where
  "bn_limbs bn = take (bn_width bn) (bn_d bn)"

definition bn_abs :: "bignum \<Rightarrow> nat" where
  "bn_abs bn = wval (bn_limbs bn)"

definition bn_val :: "bignum \<Rightarrow> int" where
  "bn_val bn = (if bn_neg bn then - int (bn_abs bn) else int (bn_abs bn))"

text \<open>There is no negative zero.\<close>

definition bn_signed :: "bignum \<Rightarrow> bool" where
  "bn_signed bn \<longleftrightarrow> (bn_neg bn \<longrightarrow> bn_abs bn \<noteq> 0)"

definition bn_static :: "bignum \<Rightarrow> bool" where
  "bn_static bn \<longleftrightarrow> bn_flags bn AND BN_FLG_STATIC_DATA \<noteq> 0"

text \<open>The reasons for which an object cannot get as many limbs.\<close>

definition bn_full :: "allocator \<Rightarrow> bignum \<Rightarrow> nat \<Rightarrow> bool" where
  "bn_full m bn words \<longleftrightarrow> bn_dmax bn < words \<and> (2 ^ 23 \<le> words \<or> bn_static bn \<or> \<not> malloc_total m)"

lemma length_bn_limbs: "bn_ok bn \<Longrightarrow> length (bn_limbs bn) = bn_width bn"
  by (simp add: bn_ok_def bn_limbs_def)

lemma bn_abs_less: "bn_ok bn \<Longrightarrow> bn_abs bn < BN_BASE ^ bn_width bn"
  using wval_less [of "bn_limbs bn"] by (simp add: bn_abs_def length_bn_limbs)

lemma bn_init_ok: "bn_ok BN_init" "bn_val BN_init = 0" "bn_abs BN_init = 0" "\<not> bn_static BN_init"
  by (simp_all add: BN_init_def bn_ok_def bn_val_def bn_abs_def bn_limbs_def bn_static_def BN_FLG_STATIC_DATA_def)

lemma BN_new_ok: "BN_new m = Some bn \<Longrightarrow> bn_ok bn \<and> bn_val bn = 0 \<and> bn_signed bn \<and> \<not> bn_static bn"
  by (auto simp: BN_new_def BN_init_def bn_ok_def bn_val_def bn_abs_def bn_limbs_def bn_signed_def bn_static_def
      BN_FLG_STATIC_DATA_def BN_FLG_MALLOCED_def split: option.splits)

lemma BN_new_None: "BN_new m = None \<Longrightarrow> \<not> malloc_total m"
  using OPENSSL_malloc_None [of m sizeof_BIGNUM] by (auto simp: BN_new_def sizeof_BIGNUM_def split: option.splits)

lemma bn_wexpand_ok:
  assumes "bn_ok bn" "bn_wexpand m bn words = (True, bn')"
  shows "bn_ok bn'" "words \<le> bn_dmax bn'" "bn_limbs bn' = bn_limbs bn" "bn_width bn' = bn_width bn" "bn_neg bn' = bn_neg bn"
    "bn_flags bn' = bn_flags bn" "bn_dmax bn \<le> bn_dmax bn'"
  using assms
  by (auto simp: bn_wexpand_def bn_ok_def bn_limbs_def copy_limbs_def INT_MAX_def BN_BITS2_def split: if_splits option.splits)

lemma bn_wexpand_fail:
  assumes "bn_wexpand m bn words = (False, bn')"
  shows "bn' = bn" "bn_full m bn words"
proof -
  have "OPENSSL_malloc m (BN_BYTES * words) = None \<Longrightarrow> \<not> malloc_total m" if "words \<le> 8388607"
    using that by (intro OPENSSL_malloc_None [of m "BN_BYTES * words"]) (simp_all add: BN_BYTES_def)
  then show "bn' = bn" "bn_full m bn words"
    using assms by (auto simp: bn_wexpand_def bn_full_def bn_static_def INT_MAX_def BN_BITS2_def split: if_splits option.splits)
qed

lemma bn_wexpand_fits: "words \<le> bn_dmax bn \<Longrightarrow> bn_wexpand m bn words = (True, bn)"
  by (simp add: bn_wexpand_def)

lemma bn_wexpand_cases:
  assumes "bn_ok bn"
  obtains (expanded) d where "bn_wexpand m bn words = (True, d)" "bn_ok d" "words \<le> bn_dmax d" "words \<le> length (bn_d d)"
      "bn_limbs d = bn_limbs bn" "bn_width d = bn_width bn" "bn_neg d = bn_neg bn" "bn_flags d = bn_flags bn"
  | (full) "bn_wexpand m bn words = (False, bn)" "bn_full m bn words"
proof (cases "bn_wexpand m bn words")
  case (Pair b d)
  show thesis
  proof (cases b)
    case True
    then have w: "bn_wexpand m bn words = (True, d)" using Pair by simp
    have "length (bn_d d) = bn_dmax d" using bn_wexpand_ok(1) [OF assms w] by (simp add: bn_ok_def)
    then show thesis using expanded [OF w] bn_wexpand_ok [OF assms w] by simp
  next
    case False
    then show thesis using full Pair bn_wexpand_fail [of m bn words d] by simp
  qed
qed

text \<open>Limbs are stored from the first on.\<close>

lemma store_limbs:
  assumes "bn_ok bn" "length ws \<le> bn_dmax bn"
    and "length (bn_d r) = bn_dmax bn" "bn_dmax r = bn_dmax bn" "bn_width r = length ws" "take (length ws) (bn_d r) = ws"
  shows "bn_ok r" "bn_limbs r = ws" "bn_abs r = wval ws" "bn_val r = (if bn_neg r then - int (wval ws) else int (wval ws))"
  using assms by (simp_all add: bn_ok_def bn_limbs_def bn_abs_def bn_val_def)

section \<open>Lengths in bits\<close>

text \<open>The number of bits of a number.\<close>

fun num_bits :: "nat \<Rightarrow> nat" where
  "num_bits n = (if n = 0 then 0 else Suc (num_bits (n div 2)))"

declare num_bits.simps [simp del]

lemma num_bits_0 [simp]: "num_bits 0 = 0"
  by (simp add: num_bits.simps)

lemma num_bits_le: "num_bits n \<le> k \<longleftrightarrow> n < 2 ^ k"
proof (induction k arbitrary: n)
  case 0
  then show ?case by (simp add: num_bits.simps)
next
  case (Suc k)
  show ?case
  proof (cases "n = 0")
    case False
    then have "num_bits n \<le> Suc k \<longleftrightarrow> n div 2 < 2 ^ k" using Suc [of "n div 2"] by (simp add: num_bits.simps [of n])
    also have "\<dots> \<longleftrightarrow> n < 2 ^ Suc k" by (simp add: div_less_iff_less_mult mult.commute)
    finally show ?thesis .
  qed simp
qed

lemma num_bits_eq_0: "num_bits n = 0 \<longleftrightarrow> n = 0"
  by (simp add: num_bits.simps)

lemma num_bits_shift: "0 < b \<Longrightarrow> a < 2 ^ k \<Longrightarrow> num_bits (a + 2 ^ k * b) = k + num_bits b"
proof (induction k arbitrary: a)
  case (Suc k)
  have "(a + 2 ^ Suc k * b) div 2 = a div 2 + 2 ^ k * b" by simp
  moreover have "a div 2 < 2 ^ k" using Suc.prems(2) by (simp add: div_less_iff_less_mult mult.commute)
  moreover have "a + 2 ^ Suc k * b \<noteq> 0" using Suc.prems(1) by simp
  ultimately show ?case using Suc.IH [of "a div 2"] Suc.prems(1) by (subst num_bits.simps) simp
qed simp

lemma num_bits_split: "2 ^ k \<le> n \<Longrightarrow> num_bits n = k + num_bits (n div 2 ^ k)"
proof -
  assume "2 ^ k \<le> n"
  then have "0 < n div 2 ^ k" by (simp add: div_greater_zero_iff)
  from num_bits_shift [OF this, of "n mod 2 ^ k" k] show ?thesis by simp
qed

lemma nonzero_mask:
  assumes "unat (x :: limb) < 2 ^ 63"
  shows "0 - drop_bit 63 (0 - x) = ct_mask (x \<noteq> 0)"
proof -
  have "bit (0 - x) 63 \<longleftrightarrow> x \<noteq> 0"
    using assms unfolding bit_63_iff unat_minus by (auto simp: unsigned_eq_0_iff)
  then show ?thesis using msb_w_mask [of "0 - x"] by (simp add: constant_time_msb_w_def)
qed

lemma count_block_step:
  assumes "unat l < 2 ^ (2 * k)" "0 < k" "k \<le> 32"
  obtains bits' l' where "count_block k (bits, l) = (bits', l')" "bits' + num_bits (unat l') = bits + num_bits (unat l)"
    "unat l' < 2 ^ k" "l' = 0 \<longleftrightarrow> l = 0"
proof -
  let ?x = "drop_bit k l"
  have x: "unat ?x = unat l div 2 ^ k" by (rule unat_drop_bit)
  have "unat ?x < 2 ^ k" unfolding x using assms(1) by (simp add: div_less_iff_less_mult mult_2 power_add)
  also have "(2::nat) ^ k \<le> 2 ^ 32" using assms(3) by (intro power_increasing) simp_all
  finally have m: "0 - drop_bit 63 (0 - ?x) = ct_mask (?x \<noteq> 0)" by (intro nonzero_mask) simp
  show thesis
  proof (cases "?x = 0")
    case True
    then have "unat l < 2 ^ k" by (simp add: drop_bit_zero)
    moreover have "count_block k (bits, l) = (bits, l)"
      using True m by (simp add: count_block_def Let_def ct_mask_def)
    ultimately show thesis using that by blast
  next
    case False
    then have l: "2 ^ k \<le> unat l" by (simp add: drop_bit_zero)
    have "unat (word_of_nat k :: limb) = k" using assms(3) by (simp add: unat_of_nat_limb BN_BASE_def)
    then have "count_block k (bits, l) = (bits + k, ?x)"
      using False m by (simp add: count_block_def Let_def ct_mask_def flip: xor.assoc)
        (simp add: xor.commute [of l] xor.assoc)
    moreover have "num_bits (unat l) = k + num_bits (unat ?x)" unfolding x by (rule num_bits_split [OF l])
    ultimately show thesis using that [of "bits + k" ?x] False \<open>unat ?x < 2 ^ k\<close> by (cases "l = 0") simp_all
  qed
qed

lemma BN_num_bits_word_spec: "BN_num_bits_word l = num_bits (unat l)"
proof -
  have l: "unat l < 2 ^ (2 * 32)" using limb_less [of l] by (simp add: BN_BASE_def)
  define b0 :: nat where "b0 = (if l \<noteq> 0 then 1 else 0)"
  obtain b1 l1 where 1: "count_block 32 (b0, l) = (b1, l1)" "b1 + num_bits (unat l1) = b0 + num_bits (unat l)" "unat l1 < 2 ^ 32" "l1 = 0 \<longleftrightarrow> l = 0"
    by (rule count_block_step [OF l]) simp_all
  obtain b2 l2 where 2: "count_block 16 (b1, l1) = (b2, l2)" "b2 + num_bits (unat l2) = b1 + num_bits (unat l1)" "unat l2 < 2 ^ 16" "l2 = 0 \<longleftrightarrow> l1 = 0"
    by (rule count_block_step [of l1 16]) (use 1(3) in simp_all)
  obtain b3 l3 where 3: "count_block 8 (b2, l2) = (b3, l3)" "b3 + num_bits (unat l3) = b2 + num_bits (unat l2)" "unat l3 < 2 ^ 8" "l3 = 0 \<longleftrightarrow> l2 = 0"
    by (rule count_block_step [of l2 8]) (use 2(3) in simp_all)
  obtain b4 l4 where 4: "count_block 4 (b3, l3) = (b4, l4)" "b4 + num_bits (unat l4) = b3 + num_bits (unat l3)" "unat l4 < 2 ^ 4" "l4 = 0 \<longleftrightarrow> l3 = 0"
    by (rule count_block_step [of l3 4]) (use 3(3) in simp_all)
  obtain b5 l5 where 5: "count_block 2 (b4, l4) = (b5, l5)" "b5 + num_bits (unat l5) = b4 + num_bits (unat l4)" "unat l5 < 2 ^ 2" "l5 = 0 \<longleftrightarrow> l4 = 0"
    by (rule count_block_step [of l4 2]) (use 4(3) in simp_all)
  obtain b6 l6 where 6: "count_block 1 (b5, l5) = (b6, l6)" "b6 + num_bits (unat l6) = b5 + num_bits (unat l5)" "unat l6 < 2 ^ 1" "l6 = 0 \<longleftrightarrow> l5 = 0"
    by (rule count_block_step [of l5 1]) (use 5(3) in simp_all)
  have "num_bits (unat l6) = b0"
    using 1(4) 2(4) 3(4) 4(4) 5(4) 6(3,4) num_bits_le [of "unat l6" 1] num_bits_eq_0 [of "unat l6"]
    by (auto simp: unsigned_eq_0_iff b0_def)
  then show ?thesis
    using 1(1,2) 2(1,2) 3(1,2) 4(1,2) 5(1,2) 6(1,2) by (simp add: BN_num_bits_word_def b0_def [symmetric])
qed

section \<open>Widths\<close>

lemma minimal_loop_le: "minimal_loop d n \<le> n"
  by (induction n) auto

lemma minimal_loop_spec:
  "(\<forall>j. minimal_loop d n \<le> j \<and> j < n \<longrightarrow> d ! j = 0) \<and> (minimal_loop d n \<noteq> 0 \<longrightarrow> d ! (minimal_loop d n - 1) \<noteq> 0)"
  by (induction n) (auto simp: less_Suc_eq)

lemma minimal_loop_wval:
  assumes "n \<le> length d"
  shows "wval (take (minimal_loop d n) d) = wval (take n d)"
  using assms
proof (induction n)
  case (Suc n)
  then show ?case by (simp add: take_Suc_conv_app_nth wval_snoc)
qed simp

lemma minimal_limbs:
  assumes "bn_ok bn"
  shows "wval (take (bn_minimal_width bn) (bn_d bn)) = bn_abs bn" "bn_minimal_width bn \<le> bn_width bn"
    "bn_minimal_width bn = 0 \<longleftrightarrow> bn_abs bn = 0"
    "0 < bn_minimal_width bn \<Longrightarrow> bn_d bn ! (bn_minimal_width bn - 1) \<noteq> 0"
proof -
  let ?w = "bn_minimal_width bn"
  show v: "wval (take ?w (bn_d bn)) = bn_abs bn"
    using minimal_loop_wval [of "bn_width bn" "bn_d bn"] assms by (simp add: bn_ok_def bn_minimal_width_def bn_abs_def bn_limbs_def)
  show l: "?w \<le> bn_width bn" by (simp add: bn_minimal_width_def minimal_loop_le)
  show nz: "0 < ?w \<Longrightarrow> bn_d bn ! (?w - 1) \<noteq> 0"
    using minimal_loop_spec [of "bn_d bn" "bn_width bn"] by (simp add: bn_minimal_width_def)
  show "?w = 0 \<longleftrightarrow> bn_abs bn = 0"
  proof
    assume "bn_abs bn = 0"
    then have "\<forall>x \<in> set (take ?w (bn_d bn)). x = 0" using v by (simp add: wval_zero_iff)
    moreover have "0 < ?w \<Longrightarrow> bn_d bn ! (?w - 1) \<in> set (take ?w (bn_d bn))"
      using l assms by (auto simp: bn_ok_def in_set_conv_nth intro!: exI [of _ "?w - 1"])
    ultimately show "?w = 0" using nz by blast
  qed (use v in simp)
qed

lemma bn_set_minimal_width_spec:
  assumes "bn_ok bn"
  shows "bn_ok (bn_set_minimal_width bn)" "bn_val (bn_set_minimal_width bn) = bn_val bn" "bn_abs (bn_set_minimal_width bn) = bn_abs bn"
    "bn_signed (bn_set_minimal_width bn)" "bn_flags (bn_set_minimal_width bn) = bn_flags bn"
    "bn_neg (bn_set_minimal_width bn) \<longleftrightarrow> bn_neg bn \<and> bn_abs bn \<noteq> 0"
    "bn_width (bn_set_minimal_width bn) = bn_minimal_width bn"
  using minimal_limbs [OF assms] assms
  by (auto simp: bn_set_minimal_width_def bn_ok_def bn_val_def bn_abs_def bn_limbs_def bn_signed_def Let_def)

lemma bn_fits_in_words_spec: "bn_ok bn \<Longrightarrow> bn_fits_in_words bn num \<longleftrightarrow> bn_abs bn < BN_BASE ^ num"
  using or_range_wval [of "bn_width bn" "bn_d bn" num] by (simp add: bn_ok_def bn_fits_in_words_def bn_abs_def bn_limbs_def)

lemma BN_is_zero_spec: "bn_ok bn \<Longrightarrow> BN_is_zero bn \<longleftrightarrow> bn_abs bn = 0"
  by (simp add: BN_is_zero_def bn_fits_in_words_spec)

lemma bn_val_zero: "bn_val bn = 0 \<longleftrightarrow> bn_abs bn = 0"
  by (simp add: bn_val_def)

lemma BN_is_zero_val: "bn_ok bn \<Longrightarrow> BN_is_zero bn \<longleftrightarrow> bn_val bn = 0"
  by (simp add: BN_is_zero_spec bn_val_zero)

lemma bn_abs_val: "int (bn_abs bn) = \<bar>bn_val bn\<bar>"
  by (simp add: bn_val_def)

lemma bn_signed_neg: "bn_signed bn \<Longrightarrow> bn_neg bn \<longleftrightarrow> bn_val bn < 0"
  by (auto simp: bn_signed_def bn_val_def)

lemma BN_num_bits_spec:
  assumes "bn_ok bn"
  shows "BN_num_bits bn = num_bits (bn_abs bn)"
proof (cases "bn_abs bn = 0")
  case False
  let ?w = "bn_minimal_width bn" and ?d = "bn_d bn"
  note m = minimal_limbs [OF assms]
  obtain k where k: "?w = Suc k" using m(3) False by (cases ?w) simp_all
  have "k < length ?d" using m(2) k assms by (simp add: bn_ok_def)
  then have v: "bn_abs bn = wval (take k ?d) + 2 ^ (64 * k) * unat (?d ! k)"
    using m(1) k by (simp add: take_Suc_conv_app_nth wval_snoc BN_BASE_power min_absorb1)
  have "wval (take k ?d) < 2 ^ (64 * k)"
    using wval_less [of "take k ?d"] \<open>k < length ?d\<close> by (simp add: BN_BASE_power min_absorb1)
  moreover have "0 < unat (?d ! k)" using m(4) k by (simp add: unat_gt_0)
  ultimately have "num_bits (bn_abs bn) = 64 * k + num_bits (unat (?d ! k))" unfolding v by (intro num_bits_shift)
  then show ?thesis using k by (simp add: BN_num_bits_def Let_def BN_BITS2_def BN_num_bits_word_spec)
qed (simp add: BN_num_bits_def minimal_limbs [OF assms])

section \<open>Copies and constants\<close>

lemma BN_zero_spec: "bn_ok bn \<Longrightarrow> bn_ok (BN_zero bn) \<and> bn_val (BN_zero bn) = 0 \<and> bn_signed (BN_zero bn)"
  by (simp add: BN_zero_def bn_ok_def bn_val_def bn_abs_def bn_limbs_def bn_signed_def)

lemma BN_copy_spec:
  assumes "bn_ok dest" "bn_ok src" "BN_copy m dest src = (ok, r)"
  shows "if ok then bn_ok r \<and> bn_limbs r = bn_limbs src \<and> bn_val r = bn_val src \<and> bn_neg r = bn_neg src else r = dest \<and> bn_full m dest (bn_width src)"
proof (cases rule: bn_wexpand_cases [OF assms(1), of m "bn_width src", case_names expanded full])
  case (expanded d)
  have len: "length (bn_limbs src) = bn_width src" by (rule length_bn_limbs [OF assms(2)])
  have r: "ok" "r = d\<lparr>bn_d := copy_limbs (bn_d d) (bn_d src) (bn_width src), bn_width := bn_width src, bn_neg := bn_neg src\<rparr>"
    using assms(3) expanded(1) len by (simp_all add: BN_copy_def)
  have "bn_ok r \<and> bn_limbs r = bn_limbs src \<and> bn_val r = bn_val src \<and> bn_neg r = bn_neg src"
    using store_limbs [OF expanded(2), of "bn_limbs src" r] expanded(2-4) assms(2) len r(2)
    by (simp add: bn_ok_def take_copy_limbs bn_limbs_def bn_val_def bn_abs_def)
  then show ?thesis using r(1) by simp
next
  case full
  then show ?thesis using assms(3) by (simp add: BN_copy_def)
qed

lemma BN_dup_spec:
  assumes "bn_ok src"
  shows "case BN_dup m (Some src) of
      None \<Rightarrow> \<not> malloc_total m \<or> 2 ^ 23 \<le> bn_width src
    | Some r \<Rightarrow> bn_ok r \<and> bn_val r = bn_val src \<and> bn_neg r = bn_neg src"
proof (cases "BN_new m")
  case (Some c)
  note c = BN_new_ok [OF Some]
  obtain ok r where r: "BN_copy m c src = (ok, r)" by fastforce
  show ?thesis using BN_copy_spec [OF _ assms r] c Some r by (cases ok) (auto simp: BN_dup_def bn_full_def)
qed (simp add: BN_dup_def BN_new_None)

lemma bn_set_words_spec:
  assumes "bn_ok bn" "num \<le> length ws" "bn_set_words m bn ws num = (ok, r)"
  shows "if ok then bn_ok r \<and> bn_val r = int (wval (take num ws)) \<and> \<not> bn_neg r else r = bn \<and> bn_full m bn num"
proof (cases rule: bn_wexpand_cases [OF assms(1), of m "num", case_names expanded full])
  case (expanded d)
  have r: "ok" "r = d\<lparr>bn_d := copy_limbs (bn_d d) ws num, bn_width := num, bn_neg := False\<rparr>"
    using assms(2,3) expanded(1) by (simp_all add: bn_set_words_def min_absorb2)
  show ?thesis
    using store_limbs [OF expanded(2), of "take num ws" r] expanded(2-4) assms(2) r by (simp add: bn_ok_def take_copy_limbs min_absorb2)
next
  case full
  then show ?thesis using assms(3) by (simp add: bn_set_words_def)
qed

lemma BN_set_word_spec:
  assumes "bn_ok bn" "BN_set_word m bn v = (ok, r)"
  shows "if ok then bn_ok r \<and> bn_val r = int (unat v) \<and> bn_signed r else r = bn \<and> bn_full m bn 1"
proof (cases "v = 0")
  case True
  then show ?thesis using assms BN_zero_spec [OF assms(1)] by (auto simp: BN_set_word_def)
next
  case v: False
  show ?thesis
  proof (cases rule: bn_wexpand_cases [OF assms(1), of m 1, case_names expanded full])
    case (expanded d)
    have r: "ok" "r = d\<lparr>bn_neg := False, bn_d := (bn_d d)[0 := v], bn_width := 1\<rparr>"
      using assms(2) expanded(1) v by (simp_all add: BN_set_word_def)
    have "take (length [v]) ((bn_d d)[0 := v]) = [v]" using expanded(2-4) by (cases "bn_d d") (auto simp: bn_ok_def)
    then show ?thesis
      using store_limbs [OF expanded(2), of "[v]" r] expanded(2-4) r by (simp add: bn_ok_def bn_signed_def)
  next
    case full
    then show ?thesis using assms(2) v by (simp add: BN_set_word_def)
  qed
qed

lemma BN_set_negative_spec:
  assumes "bn_ok bn"
  shows "bn_ok (BN_set_negative bn s)" "bn_val (BN_set_negative bn s) = (if s then - \<bar>bn_val bn\<bar> else \<bar>bn_val bn\<bar>)"
    "bn_signed (BN_set_negative bn s)"
  using assms by (auto simp: BN_set_negative_def bn_ok_def bn_val_def bn_abs_def bn_limbs_def bn_signed_def BN_is_zero_spec)

lemma BN_clear_spec: "bn_ok bn \<Longrightarrow> bn_ok (BN_clear bn) \<and> bn_val (BN_clear bn) = 0 \<and> set (bn_d (BN_clear bn)) \<subseteq> {0}"
  by (auto simp: BN_clear_def bn_ok_def bn_val_def bn_abs_def bn_limbs_def)

lemma bn_copy_words_spec:
  assumes "bn_ok bn"
  shows "bn_copy_words num bn = (if \<not> bn_neg bn \<and> bn_abs bn < BN_BASE ^ num then Some (limbs num (bn_abs bn)) else None)"
proof -
  have less: "bn_abs bn < BN_BASE ^ num" if "bn_width bn \<le> num"
  proof -
    have "BN_BASE ^ bn_width bn \<le> BN_BASE ^ num" using that by (intro power_increasing) simp_all
    with bn_abs_less [OF assms] show ?thesis by (rule less_le_trans)
  qed
  show ?thesis
  proof (cases "\<not> bn_neg bn \<and> bn_abs bn < BN_BASE ^ num")
    case True
    define w where "w = (if num < bn_width bn then num else bn_width bn)"
    have w: "w \<le> num" "w \<le> length (bn_d bn)" using assms by (auto simp: w_def bn_ok_def)
    have e: "copy_limbs (replicate num 0) (bn_d bn) w = take w (bn_d bn) @ replicate (num - w) 0" by (simp add: copy_limbs_def)
    have "wval (take w (bn_d bn)) = bn_abs bn"
    proof (cases "num < bn_width bn")
      case True
      have "bn_abs bn mod BN_BASE ^ num = wval (take num (bn_limbs bn))" unfolding bn_abs_def by (rule wval_mod)
      then show ?thesis using True \<open>\<not> bn_neg bn \<and> bn_abs bn < BN_BASE ^ num\<close> by (simp add: w_def bn_limbs_def min_absorb1)
    qed (simp add: w_def bn_abs_def bn_limbs_def)
    then have "limbs num (bn_abs bn) = take w (bn_d bn) @ replicate (num - w) 0"
      using w by (intro limbs_eqI) (simp_all add: wval_append)
    then show ?thesis using True bn_fits_in_words_spec [OF assms] e by (simp add: bn_copy_words_def w_def Let_def)
  next
    case False
    then show ?thesis using bn_fits_in_words_spec [OF assms] less by (auto simp: bn_copy_words_def not_less)
  qed
qed

lemma bn_resize_words_spec:
  assumes "bn_ok bn" "bn_resize_words m bn words = (ok, r)"
  shows "if ok then bn_ok r \<and> bn_val r = bn_val bn \<and> bn_width r = words
    else r = bn \<and> (bn_full m bn words \<or> BN_BASE ^ words \<le> bn_abs bn)"
proof (cases "bn_width bn \<le> words")
  case le: True
  show ?thesis
  proof (cases rule: bn_wexpand_cases [OF assms(1), of m "words", case_names expanded full])
    case (expanded d)
    let ?ws = "bn_limbs d @ replicate (words - bn_width d) 0"
    have len: "length (bn_limbs d) = bn_width d" "length ?ws = words" using length_bn_limbs [OF expanded(2)] expanded(6) le by simp_all
    have r: "ok" "r = d\<lparr>bn_d := ?ws @ drop words (bn_d d), bn_width := words\<rparr>"
      using assms(2) expanded(1) le len by (simp_all add: bn_resize_words_def bn_limbs_def)
    have "bn_ok r \<and> bn_width r = words" "bn_abs r = wval ?ws" "bn_neg r = bn_neg d"
      using store_limbs [OF expanded(2), of ?ws r] expanded(2-4) len r(2) by (simp_all add: bn_ok_def)
    then show ?thesis using r(1) expanded(5,7) by (simp add: bn_val_def bn_abs_def wval_append)
  next
    case full
    then show ?thesis using assms(2) le by (simp add: bn_resize_words_def)
  qed
next
  case gt: False
  show ?thesis
  proof (cases "bn_fits_in_words bn words")
    case True
    then have "bn_abs bn mod BN_BASE ^ words = bn_abs bn" using bn_fits_in_words_spec [OF assms(1)] by simp
    then have "wval (take words (bn_limbs bn)) = bn_abs bn" using wval_mod [of "bn_limbs bn" words] by (simp add: bn_abs_def)
    then show ?thesis
      using assms gt True by (simp add: bn_resize_words_def bn_ok_def bn_val_def bn_abs_def bn_limbs_def min_absorb1 not_le)
        (auto simp: min_def)
  next
    case False
    then show ?thesis using assms gt bn_fits_in_words_spec [OF assms(1), of words] by (simp add: bn_resize_words_def not_less)
  qed
qed

lemma bn_select_words_spec: "num \<le> length a \<Longrightarrow> num \<le> length b \<Longrightarrow> bn_select_words (ct_mask c) a b num = take num (if c then a else b)"
  by (intro nth_equalityI) (simp_all add: bn_select_words_def select_w_mask)


end
