(* ===== verification/Bn_Cmp.thy ===== *)
theory Bn_Cmp
  imports Bn
begin

text \<open>
  \<^verbatim>\<open>crypto/fipsmodule/bn/cmp.c\<close>: comparisons of big integers, written without branches on the limbs. Each decides a relation
  of the integers, whatever the widths.
\<close>

section \<open>Code\<close>

definition constant_time_select_int :: "crypto_word \<Rightarrow> int \<Rightarrow> int \<Rightarrow> int" where
  "constant_time_select_int m a b = sint (ucast (constant_time_select_w m (word_of_int a) (word_of_int b)) :: 32 word)"

definition bn_cmp_words_consttime :: "limb list \<Rightarrow> nat \<Rightarrow> limb list \<Rightarrow> nat \<Rightarrow> int" where
  "bn_cmp_words_consttime a a_len b b_len =
     (let n = (if a_len < b_len then a_len else b_len);
          ret = foldl (\<lambda>ret i.
                  let eq = constant_time_eq_w (a ! i) (b ! i); lt = constant_time_lt_w (a ! i) (b ! i)
                  in constant_time_select_int eq ret (constant_time_select_int lt (-1) 1)) 0 [0..<n]
      in if a_len < b_len then constant_time_select_int (constant_time_is_zero_w (or_range b a_len b_len)) ret (-1)
         else if b_len < a_len then constant_time_select_int (constant_time_is_zero_w (or_range a b_len a_len)) ret 1
         else ret)"

definition BN_ucmp :: "bignum \<Rightarrow> bignum \<Rightarrow> int" where
  "BN_ucmp a b = bn_cmp_words_consttime (bn_d a) (bn_width a) (bn_d b) (bn_width b)"

definition BN_cmp :: "bignum option \<Rightarrow> bignum option \<Rightarrow> int" where
  "BN_cmp a b =
     (case (a, b) of
        (Some a, Some b) \<Rightarrow>
          if bn_neg a \<noteq> bn_neg b then (if bn_neg a then -1 else 1)
          else let ret = BN_ucmp a b in if bn_neg a then - ret else ret
      | (Some _, None) \<Rightarrow> -1
      | (None, Some _) \<Rightarrow> 1
      | (None, None) \<Rightarrow> 0)"

definition bn_less_than_words :: "limb list \<Rightarrow> limb list \<Rightarrow> nat \<Rightarrow> bool" where
  "bn_less_than_words a b len \<longleftrightarrow> bn_cmp_words_consttime a len b len < 0"

definition BN_abs_is_word :: "bignum \<Rightarrow> limb \<Rightarrow> bool" where
  "BN_abs_is_word bn w =
     (if bn_width bn = 0 then w = 0
      else foldl (\<lambda>mask' i. mask' OR bn_d bn ! i) (bn_d bn ! 0 XOR w) [1..<bn_width bn] = 0)"

definition BN_cmp_word :: "bignum \<Rightarrow> limb \<Rightarrow> int" where
  "BN_cmp_word a b =
     BN_cmp (Some a) (Some (BN_init\<lparr>bn_d := [b], bn_width := (if 0 < b then 1 else 0), bn_dmax := 1, bn_flags := BN_FLG_STATIC_DATA\<rparr>))"

definition BN_is_one :: "bignum \<Rightarrow> bool" where
  "BN_is_one bn \<longleftrightarrow> \<not> bn_neg bn \<and> BN_abs_is_word bn 1"

definition BN_is_word :: "bignum \<Rightarrow> limb \<Rightarrow> bool" where
  "BN_is_word bn w \<longleftrightarrow> BN_abs_is_word bn w \<and> (w = 0 \<or> \<not> bn_neg bn)"

definition BN_is_odd :: "bignum \<Rightarrow> bool" where
  "BN_is_odd bn \<longleftrightarrow> 0 < bn_width bn \<and> bn_d bn ! 0 AND 1 = 1"

definition BN_is_pow2 :: "bignum \<Rightarrow> bool" where
  "BN_is_pow2 bn =
     (let width = bn_minimal_width bn in
      if width = 0 \<or> bn_neg bn then False
      else if list_ex (\<lambda>i. bn_d bn ! i \<noteq> 0) [0..<width - 1] then False
      else bn_d bn ! (width - 1) AND (bn_d bn ! (width - 1) - 1) = 0)"

definition BN_equal_consttime :: "bignum \<Rightarrow> bignum \<Rightarrow> bool" where
  "BN_equal_consttime a b =
     (let mask' = or_range (bn_d b) (bn_width a) (bn_width b) OR or_range (bn_d a) (bn_width b) (bn_width a);
          n = (if bn_width a < bn_width b then bn_width a else bn_width b);
          mask' = foldl (\<lambda>m i. m OR (bn_d a ! i XOR bn_d b ! i)) mask' [0..<n];
          mask' = mask' OR (if bn_neg a \<noteq> bn_neg b then 1 else 0)
      in mask' = 0)"

section \<open>The order\<close>

lemma select_int_mask:
  assumes "- (2 ^ 31) \<le> a" "a < 2 ^ 31" "- (2 ^ 31) \<le> b" "b < 2 ^ 31"
  shows "constant_time_select_int (ct_mask c) a b = (if c then a else b)"
proof -
  have "sint (ucast (word_of_int x :: crypto_word) :: 32 word) = x" if "- (2 ^ 31) \<le> x" "x < 2 ^ 31" for x
  proof -
    have "ucast (word_of_int x :: crypto_word) = (word_of_int x :: 32 word)"
      by (rule bit_word_eqI) (simp add: bit_simps)
    then show ?thesis using that by (simp add: signed_of_int signed_take_bit_int_eq_self)
  qed
  then show ?thesis using assms by (simp add: constant_time_select_int_def select_w_mask)
qed

text \<open>The sign of a comparison, as the functions return it.\<close>

definition order_sign :: "nat \<Rightarrow> nat \<Rightarrow> int" where
  "order_sign x y = (if x < y then -1 else if x = y then 0 else 1)"

lemma order_sign_range: "- (2 ^ 31) \<le> order_sign x y" "order_sign x y < 2 ^ 31"
  by (simp_all add: order_sign_def)

lemma order_sign_sgn: "order_sign x y = sgn (int x - int y)"
  by (auto simp: order_sign_def sgn_if)

lemma order_sign_less: "order_sign x y < 0 \<longleftrightarrow> x < y"
  by (simp add: order_sign_def)

lemma cmp_step:
  "constant_time_select_int (constant_time_eq_w u v) (order_sign x y) (constant_time_select_int (constant_time_lt_w u v) (-1) 1) =
    (if u = v then order_sign x y else if u < v then -1 else 1)"
  using order_sign_range [of x y] by (simp add: eq_w_mask lt_w_mask select_int_mask)

lemma order_sign_snoc:
  assumes "length xs = length ys"
  shows "order_sign (wval (xs @ [u])) (wval (ys @ [v])) = (if u = v then order_sign (wval xs) (wval ys) else if u < v then -1 else 1)"
  using wval_snoc_less [OF assms, of u v] wval_snoc_less [OF assms [symmetric], of v u]
  by (cases u v rule: linorder_cases) (auto simp: order_sign_def)

lemma cmp_common:
  assumes "n \<le> length a" "n \<le> length b"
  shows "foldl (\<lambda>ret i. constant_time_select_int (constant_time_eq_w (a ! i) (b ! i)) ret
      (constant_time_select_int (constant_time_lt_w (a ! i) (b ! i)) (-1) 1)) 0 [0..<n] =
    order_sign (wval (take n a)) (wval (take n b))" (is "foldl ?f 0 _ = _")
  using assms
proof (induction n)
  case (Suc n)
  have "foldl ?f 0 [0..<Suc n] = ?f (foldl ?f 0 [0..<n]) n" by simp
  also have "\<dots> = order_sign (wval (take n a @ [a ! n])) (wval (take n b @ [b ! n]))"
    using Suc by (subst order_sign_snoc) (simp_all add: cmp_step)
  finally show ?case using Suc.prems by (simp add: take_Suc_conv_app_nth)
qed (simp add: order_sign_def)

lemma bn_cmp_words_spec:
  assumes "la \<le> length a" "lb \<le> length b"
  shows "bn_cmp_words_consttime a la b lb = order_sign (wval (take la a)) (wval (take lb b))"
proof -
  define n where "n = (if la < lb then la else lb)"
  have n: "n \<le> length a" "n \<le> length b" using assms by (simp_all add: n_def)
  have high: "order_sign (wval (take i x)) (wval (take j y)) =
      (if or_range y i j = 0 then order_sign (wval (take i x)) (wval (take i y)) else -1)"
    "order_sign (wval (take j y)) (wval (take i x)) =
      (if or_range y i j = 0 then order_sign (wval (take i y)) (wval (take i x)) else 1)"
    if "i < j" "j \<le> length y" "i \<le> length x" for x y i j
  proof -
    have x: "wval (take i x) < BN_BASE ^ i" using wval_less [of "take i x"] that by simp
    have y: "or_range y i j = 0 \<longleftrightarrow> wval (take j y) < BN_BASE ^ i" by (rule or_range_wval) (use that in simp)
    have eq: "wval (take j y) < BN_BASE ^ i \<Longrightarrow> wval (take j y) = wval (take i y)"
      using wval_mod [of "take j y" i] that by (simp add: min_absorb1)
    show "order_sign (wval (take i x)) (wval (take j y)) =
        (if or_range y i j = 0 then order_sign (wval (take i x)) (wval (take i y)) else -1)"
      "order_sign (wval (take j y)) (wval (take i x)) =
        (if or_range y i j = 0 then order_sign (wval (take i y)) (wval (take i x)) else 1)"
      using x y eq by (auto simp: order_sign_def)
  qed
  have s: "constant_time_select_int (constant_time_is_zero_w w) (order_sign x y) k = (if w = 0 then order_sign x y else k)"
    if "k = -1 \<or> k = 1" for w x y k using order_sign_range [of x y] that by (auto simp: is_zero_w_mask select_int_mask)
  show ?thesis
    unfolding bn_cmp_words_consttime_def n_def [symmetric] Let_def cmp_common [OF n]
    using assms high(1) [of la lb b a] high(2) [of lb la a b] s by (simp add: n_def)
qed

lemma BN_ucmp_spec: "bn_ok a \<Longrightarrow> bn_ok b \<Longrightarrow> BN_ucmp a b = order_sign (bn_abs a) (bn_abs b)"
  by (simp add: BN_ucmp_def bn_cmp_words_spec bn_ok_def bn_abs_def bn_limbs_def)

lemma BN_cmp_spec:
  assumes "bn_ok a" "bn_ok b" "bn_signed a" "bn_signed b"
  shows "BN_cmp (Some a) (Some b) = sgn (bn_val a - bn_val b)"
  using assms(3,4) unfolding BN_cmp_def bn_signed_def bn_val_def
  by (auto simp: BN_ucmp_spec [OF assms(1,2)] order_sign_def Let_def sgn_if)

lemma bn_less_than_words_spec:
  "len \<le> length a \<Longrightarrow> len \<le> length b \<Longrightarrow> bn_less_than_words a b len \<longleftrightarrow> wval (take len a) < wval (take len b)"
  by (simp add: bn_less_than_words_def bn_cmp_words_spec order_sign_less)

lemma foldl_or_zero: "foldl (\<lambda>m i. m OR f i) a ks = 0 \<longleftrightarrow> a = 0 \<and> (\<forall>k \<in> set ks. f k = 0)" for f :: "'b \<Rightarrow> 'a::len word"
  by (induction ks arbitrary: a) (auto simp: word_or_zero_iff)

lemma xor_zero_iff: "(a :: 'a::len word) XOR b = 0 \<longleftrightarrow> a = b"
proof
  assume "a XOR b = 0"
  then have "bit (a XOR b) n = False" for n by simp
  then show "a = b" by (intro bit_word_eqI) (simp add: bit_xor_iff)
qed simp

lemma BN_abs_is_word_spec:
  assumes "bn_ok bn"
  shows "BN_abs_is_word bn w \<longleftrightarrow> bn_abs bn = unat w"
proof (cases "bn_width bn")
  case 0
  then show ?thesis by (auto simp: BN_abs_is_word_def bn_abs_def bn_limbs_def unsigned_eq_0_iff)
next
  case (Suc n)
  then obtain x xs where l: "bn_limbs bn = x # xs" using length_bn_limbs [OF assms] by (cases "bn_limbs bn") auto
  have nth: "bn_d bn ! i = bn_limbs bn ! i" if "i < bn_width bn" for i using that by (simp add: bn_limbs_def)
  have "(\<forall>i \<in> {1..<bn_width bn}. bn_d bn ! i = 0) \<longleftrightarrow> (\<forall>y \<in> set xs. y = 0)"
  proof -
    have "bn_width bn = Suc (length xs)" using length_bn_limbs [OF assms] l by simp
    then have "(\<forall>i \<in> {1..<bn_width bn}. bn_d bn ! i = 0) \<longleftrightarrow> (\<forall>i < length xs. xs ! i = 0)"
      using nth l by (fastforce simp: nth_Cons' dest: spec [of _ "i - 1" for i])
    then show ?thesis by (auto simp: all_set_conv_all_nth)
  qed
  then have "BN_abs_is_word bn w \<longleftrightarrow> x = w \<and> wval xs = 0"
    using nth [of 0] Suc l unfolding BN_abs_is_word_def foldl_or_zero set_upt wval_zero_iff by (simp only: xor_zero_iff) simp
  moreover have "unat x + BN_BASE * wval xs = unat w \<longleftrightarrow> x = w \<and> wval xs = 0"
  proof -
    have "wval xs = 0" if e: "unat x + BN_BASE * wval xs = unat w"
    proof (rule ccontr)
      assume "wval xs \<noteq> 0"
      then have "BN_BASE \<le> BN_BASE * wval xs" by simp
      then show False using limb_less [of w] e by linarith
    qed
    then show ?thesis by (auto simp: word_unat_eq_iff)
  qed
  ultimately show ?thesis by (simp add: bn_abs_def l)
qed

lemma BN_is_word_spec: "bn_ok bn \<Longrightarrow> BN_is_word bn w \<longleftrightarrow> bn_val bn = int (unat w)"
  unfolding BN_is_word_def bn_val_def using unsigned_eq_0_iff [of w]
  by (cases "bn_neg bn") (auto simp: BN_abs_is_word_spec simp del: of_nat_unat)

lemma BN_is_one_spec: "bn_ok bn \<Longrightarrow> BN_is_one bn \<longleftrightarrow> bn_val bn = 1"
  unfolding BN_is_one_def BN_abs_is_word_spec bn_val_def by auto

lemma one_word_ok:
  "bn_ok (BN_init\<lparr>bn_d := [b], bn_width := (if 0 < b then 1 else 0), bn_dmax := 1, bn_flags := f\<rparr>)"
  "bn_val (BN_init\<lparr>bn_d := [b], bn_width := (if 0 < b then 1 else 0), bn_dmax := 1, bn_flags := f\<rparr>) = int (unat b)"
  "bn_signed (BN_init\<lparr>bn_d := [b], bn_width := (if 0 < b then 1 else 0), bn_dmax := 1, bn_flags := f\<rparr>)"
  by (auto simp: BN_init_def bn_ok_def bn_val_def bn_abs_def bn_limbs_def bn_signed_def word_neq_0_conv [symmetric])

lemma BN_cmp_word_spec: "bn_ok a \<Longrightarrow> bn_signed a \<Longrightarrow> BN_cmp_word a b = sgn (bn_val a - int (unat b))"
  unfolding BN_cmp_word_def by (simp only: BN_cmp_spec one_word_ok)

lemma odd_unat: "odd (unat (x :: limb)) \<longleftrightarrow> odd x"
proof -
  have "bit (unat x) 0 = bit x 0" by (simp only: bit_unsigned_iff) simp
  then show ?thesis by (simp add: bit_0)
qed

lemma BN_is_odd_spec: "bn_ok bn \<Longrightarrow> BN_is_odd bn \<longleftrightarrow> odd (bn_val bn)"
proof -
  assume ok: "bn_ok bn"
  have "odd (bn_abs bn) \<longleftrightarrow> BN_is_odd bn"
  proof (cases "bn_limbs bn")
    case (Cons x xs)
    then have w: "0 < bn_width bn" using length_bn_limbs [OF ok] by simp
    then have "bn_d bn ! 0 = bn_limbs bn ! 0" by (simp add: bn_limbs_def)
    then have "bn_d bn ! 0 = x" using Cons by simp
    moreover have "even BN_BASE" by (simp add: BN_BASE_def)
    moreover have "x AND 1 = 1 \<longleftrightarrow> odd (unat x)" using odd_iff_mod_2_eq_one [of x] odd_unat [of x] and_one_eq [of x] by metis
    ultimately show ?thesis using Cons w by (simp add: BN_is_odd_def bn_abs_def)
  qed (use length_bn_limbs [OF ok] in \<open>simp add: BN_is_odd_def bn_abs_def\<close>)
  then show ?thesis by (simp add: bn_val_def)
qed

text \<open>Powers of two.\<close>

lemma and_pred_zero: "0 < n \<Longrightarrow> n AND (n - 1) = 0 \<longleftrightarrow> (\<exists>k. n = 2 ^ k)" for n :: nat
proof (induction n rule: less_induct)
  case (less n)
  show ?case
  proof (cases "even n")
    case True
    then obtain m where m: "n = 2 * m" "0 < m" using less.prems by auto
    then have "n - 1 = 2 * (m - 1) + 1" by simp
    then have e: "n AND (n - 1) = 2 * (m AND (m - 1))" using m by (subst and_rec) simp
    have "(\<exists>k. m = 2 ^ k) \<longleftrightarrow> (\<exists>k. n = 2 ^ k)"
    proof
      assume "\<exists>k. n = 2 ^ k"
      then obtain k where k: "2 * m = 2 ^ k" using m by auto
      then show "\<exists>k. m = 2 ^ k" by (cases k) auto
    qed (auto simp: m intro: exI [of _ "Suc k" for k])
    then show ?thesis using less.IH [of m] m e by simp
  next
    case False
    then obtain m where m: "n = 2 * m + 1" by (auto elim: oddE)
    then have e: "n AND (n - 1) = 2 * m" by (subst and_rec) simp
    have "(\<exists>k. n = 2 ^ k) \<longleftrightarrow> m = 0"
    proof
      assume "\<exists>k. n = 2 ^ k"
      then obtain k where k: "2 * m + 1 = 2 ^ k" using m by auto
      then have "k = 0" by (metis False even_power even_numeral m neq0_conv)
      then show "m = 0" using k by simp
    qed (auto simp: m intro: exI [of _ 0])
    then show ?thesis using e by simp
  qed
qed

lemma power_two_top:
  fixes t :: nat
  assumes "0 < t" "low < 2 ^ k"
  shows "(\<exists>j. low + 2 ^ k * t = 2 ^ j) \<longleftrightarrow> low = 0 \<and> (\<exists>j. t = 2 ^ j)"
proof
  assume "\<exists>j. low + 2 ^ k * t = 2 ^ j"
  then obtain j where j: "low + 2 ^ k * t = 2 ^ j" by blast
  have "2 ^ k \<le> 2 ^ k * t" using assms(1) by simp
  then have "(2::nat) ^ k \<le> 2 ^ j" using j by linarith
  then have kj: "k \<le> j" by simp
  then have p: "(2::nat) ^ j = 2 ^ k * 2 ^ (j - k)" by (simp flip: power_add)
  have "low = (low + 2 ^ k * t) mod 2 ^ k" using assms(2) by simp
  then have "low = 0" unfolding j p by simp
  then show "low = 0 \<and> (\<exists>j. t = 2 ^ j)" using j p by auto
next
  assume "low = 0 \<and> (\<exists>j. t = 2 ^ j)"
  then obtain j where "low = 0" "t = 2 ^ j" by blast
  then show "\<exists>j. low + 2 ^ k * t = 2 ^ j" by (intro exI [of _ "k + j"]) (simp add: power_add)
qed

lemma BN_is_pow2_spec:
  assumes "bn_ok bn"
  shows "BN_is_pow2 bn \<longleftrightarrow> (\<exists>k. bn_val bn = 2 ^ k)"
proof -
  let ?w = "bn_minimal_width bn" and ?d = "bn_d bn"
  note m = minimal_limbs [OF assms]
  have v: "(\<exists>k. bn_val bn = 2 ^ k) \<longleftrightarrow> \<not> bn_neg bn \<and> (\<exists>k. bn_abs bn = 2 ^ k)"
  proof -
    have "int (bn_abs bn) = 2 ^ k \<longleftrightarrow> bn_abs bn = 2 ^ k" for k by (metis of_nat_eq_iff of_nat_numeral of_nat_power)
    moreover have "- int (bn_abs bn) \<noteq> 2 ^ k" for k
      using zero_less_power [of "2 :: int" k] by linarith
    ultimately show ?thesis by (simp add: bn_val_def)
  qed
  show ?thesis
  proof (cases "?w")
    case 0
    then have "bn_abs bn = 0" using m(3) by simp
    then show ?thesis using v 0 by (simp add: BN_is_pow2_def)
  next
    case (Suc k)
    have k: "k < length ?d" using m(2) Suc assms by (simp add: bn_ok_def)
    have t: "0 < unat (?d ! k)" using m(4) Suc by (simp add: unat_gt_0)
    have low: "wval (take k ?d) < 2 ^ (64 * k)" using wval_less [of "take k ?d"] k by (simp add: BN_BASE_power min_absorb1)
    have a: "bn_abs bn = wval (take k ?d) + 2 ^ (64 * k) * unat (?d ! k)"
      using m(1) k Suc by (simp add: take_Suc_conv_app_nth wval_snoc BN_BASE_power min_absorb1)
    have "?d ! k AND (?d ! k - 1) = 0 \<longleftrightarrow> unat (?d ! k) AND (unat (?d ! k) - 1) = 0"
    proof -
      have "unat (?d ! k - 1) = unat (?d ! k) - 1" using t by (simp add: unat_limb_arith)
      then have "unat (?d ! k AND (?d ! k - 1)) = unat (?d ! k) AND (unat (?d ! k) - 1)" by (simp add: unsigned_and_eq)
      then show ?thesis by (metis unsigned_eq_0_iff)
    qed
    also have "\<dots> \<longleftrightarrow> (\<exists>j. unat (?d ! k) = 2 ^ j)" by (rule and_pred_zero [OF t])
    finally have top: "?d ! k AND (?d ! k - 1) = 0 \<longleftrightarrow> (\<exists>j. unat (?d ! k) = 2 ^ j)" .
    have "wval (take k ?d) = 0 \<longleftrightarrow> \<not> list_ex (\<lambda>i. ?d ! i \<noteq> 0) [0..<k]"
      using k by (auto simp: wval_zero_iff list_ex_iff all_set_conv_all_nth)
    then show ?thesis using v top power_two_top [OF t low] Suc unfolding a by (auto simp: BN_is_pow2_def)
  qed
qed

text \<open>Equality without branches on the limbs.\<close>

lemma BN_equal_consttime_spec:
  assumes "bn_ok a" "bn_ok b" "bn_signed a" "bn_signed b"
  shows "BN_equal_consttime a b \<longleftrightarrow> bn_val a = bn_val b"
proof -
  define n where "n = (if bn_width a < bn_width b then bn_width a else bn_width b)"
  have len: "n \<le> length (bn_d a)" "n \<le> length (bn_d b)" "bn_width a \<le> length (bn_d a)" "bn_width b \<le> length (bn_d b)"
    using assms by (auto simp: n_def bn_ok_def)
  have common: "(\<forall>i < n. bn_d a ! i = bn_d b ! i) \<longleftrightarrow> wval (take n (bn_d a)) = wval (take n (bn_d b))"
    using len by (simp add: wval_inject list_eq_iff_nth_eq)
  have ra: "or_range (bn_d a) (bn_width b) (bn_width a) = 0 \<longleftrightarrow> bn_abs a < BN_BASE ^ bn_width b"
    and rb: "or_range (bn_d b) (bn_width a) (bn_width b) = 0 \<longleftrightarrow> bn_abs b < BN_BASE ^ bn_width a"
    using or_range_wval len by (simp_all add: bn_abs_def bn_limbs_def)
  have low: "wval (take n (bn_d x)) = bn_abs x mod BN_BASE ^ n" if "n \<le> bn_width x" for x
    using wval_mod [of "bn_limbs x" n] that by (simp add: bn_abs_def bn_limbs_def min_absorb1)
  have n: "n = min (bn_width a) (bn_width b)" by (simp add: n_def min_def)
  have "(BN_BASE :: nat) ^ min (bn_width a) (bn_width b) = min (BN_BASE ^ bn_width a) (BN_BASE ^ bn_width b)"
    using power_increasing [of "bn_width a" "bn_width b" BN_BASE] power_increasing [of "bn_width b" "bn_width a" BN_BASE]
    by (auto simp: min_def)
  then have "bn_abs a < BN_BASE ^ bn_width b \<and> bn_abs b < BN_BASE ^ bn_width a \<and> bn_abs a mod BN_BASE ^ n = bn_abs b mod BN_BASE ^ n
      \<longleftrightarrow> bn_abs a = bn_abs b"
    using bn_abs_less [OF assms(1)] bn_abs_less [OF assms(2)] unfolding n by auto
  moreover have "(1 :: limb) \<noteq> 0" by simp
  ultimately have "BN_equal_consttime a b \<longleftrightarrow> bn_abs a = bn_abs b \<and> bn_neg a = bn_neg b"
    using common ra rb low [of a] low [of b] n
    by (auto simp: BN_equal_consttime_def Let_def word_or_zero_iff foldl_or_zero xor_zero_iff n_def [symmetric])
  then show ?thesis using assms(3,4) by (auto simp: bn_val_def bn_signed_def)
qed


end
