(* ===== verification/Bn_Add.thy ===== *)
theory Bn_Add
  imports Bn_Cmp
begin

text \<open>
  \<^verbatim>\<open>crypto/fipsmodule/bn/add.c\<close> with the loops over limbs of \<^verbatim>\<open>generic.c\<close>: addition and subtraction. The loops of
  \<^verbatim>\<open>generic.c\<close> are unrolled by four in the code; each round does the step given here.
\<close>

section \<open>Code\<close>

type_synonym u128 = "128 word"

text \<open>The limbs written and the carry.\<close>

fun add_words_loop :: "u128 \<Rightarrow> limb list \<Rightarrow> limb list \<Rightarrow> limb list \<times> limb" where
  "add_words_loop ll (a # as) (b # bs) =
     (let ll = ll + (ucast a + ucast b); r = ucast ll; (rs, c) = add_words_loop (drop_bit BN_BITS2 ll) as bs in (r # rs, c))"
| "add_words_loop ll _ _ = ([], ucast ll)"

definition bn_add_words :: "limb list \<Rightarrow> limb list \<Rightarrow> nat \<Rightarrow> limb list \<times> limb" where
  "bn_add_words a b n = add_words_loop 0 (take n a) (take n b)"

fun sub_words_loop :: "limb \<Rightarrow> limb list \<Rightarrow> limb list \<Rightarrow> limb list \<times> limb" where
  "sub_words_loop c (t1 # as) (t2 # bs) =
     (let r = t1 - t2 - c;
          (rs, c) = sub_words_loop (if t1 \<noteq> t2 then (if t1 < t2 then 1 else 0) else c) as bs
      in (r # rs, c))"
| "sub_words_loop c _ _ = ([], c)"

definition bn_sub_words :: "limb list \<Rightarrow> limb list \<Rightarrow> nat \<Rightarrow> limb list \<times> limb" where
  "bn_sub_words a b n = sub_words_loop 0 (take n a) (take n b)"

fun carry_loop :: "limb \<Rightarrow> limb list \<Rightarrow> limb list \<times> limb" where
  "carry_loop carry [] = ([], carry)"
| "carry_loop carry (a # as) =
     (let tmp = carry + a; (rs, c) = carry_loop (if tmp < a then 1 else 0) as in (tmp # rs, c))"

fun borrow_loop :: "limb \<Rightarrow> limb list \<Rightarrow> limb list \<times> limb" where
  "borrow_loop borrow [] = ([], borrow)"
| "borrow_loop borrow (a # as) =
     (let r = a - borrow; (rs, c) = borrow_loop (if a < r then 1 else 0) as in (r # rs, c))"

definition bn_uadd_consttime :: "allocator \<Rightarrow> bignum \<Rightarrow> bignum \<Rightarrow> bignum \<Rightarrow> bool \<times> bignum" where
  "bn_uadd_consttime m r a b =
     (let (a, b) = (if bn_width a < bn_width b then (b, a) else (a, b)); hi = bn_width a; lo = bn_width b in
      case bn_wexpand m r (hi + 1) of
        (ok, r) \<Rightarrow>
          if \<not> ok then (False, r)
          else
            let (low, carry) = bn_add_words (bn_d a) (bn_d b) lo;
                (high, carry) = carry_loop carry (drop lo (take hi (bn_d a)))
            in (True, r\<lparr>bn_width := hi + 1, bn_d := low @ high @ carry # drop (hi + 1) (bn_d r)\<rparr>))"

definition BN_uadd :: "allocator \<Rightarrow> bignum \<Rightarrow> bignum \<Rightarrow> bignum \<Rightarrow> bool \<times> bignum" where
  "BN_uadd m r a b =
     (case bn_uadd_consttime m r a b of (ok, r) \<Rightarrow> if \<not> ok then (False, r) else (True, bn_set_minimal_width r))"

definition bn_usub_consttime :: "allocator \<Rightarrow> bignum \<Rightarrow> bignum \<Rightarrow> bignum \<Rightarrow> bool \<times> bignum" where
  "bn_usub_consttime m r a b =
     (if bn_width a < bn_width b \<and> \<not> bn_fits_in_words b (bn_width a) then (False, r)
      else
        let b_width = (if bn_width a < bn_width b then bn_width a else bn_width b) in
        case bn_wexpand m r (bn_width a) of
          (ok, r) \<Rightarrow>
            if \<not> ok then (False, r)
            else
              let (low, borrow) = bn_sub_words (bn_d a) (bn_d b) b_width;
                  (high, borrow) = borrow_loop borrow (drop b_width (take (bn_width a) (bn_d a)));
                  r = r\<lparr>bn_d := low @ high @ drop (bn_width a) (bn_d r)\<rparr>
              in if borrow \<noteq> 0 then (False, r) else (True, r\<lparr>bn_width := bn_width a, bn_neg := False\<rparr>))"

definition BN_usub :: "allocator \<Rightarrow> bignum \<Rightarrow> bignum \<Rightarrow> bignum \<Rightarrow> bool \<times> bignum" where
  "BN_usub m r a b =
     (case bn_usub_consttime m r a b of (ok, r) \<Rightarrow> if \<not> ok then (False, r) else (True, bn_set_minimal_width r))"

text \<open>The common end of \<open>BN_add\<close> and \<open>BN_sub\<close>: the difference with its sign.\<close>

definition signed_usub :: "allocator \<Rightarrow> bignum \<Rightarrow> bignum \<Rightarrow> bignum \<Rightarrow> bool \<times> bignum" where
  "signed_usub m r a b =
     (if BN_ucmp a b < 0 then
        (case BN_usub m r b a of (ok, r) \<Rightarrow> if \<not> ok then (False, r) else (True, r\<lparr>bn_neg := True\<rparr>))
      else
        (case BN_usub m r a b of (ok, r) \<Rightarrow> if \<not> ok then (False, r) else (True, r\<lparr>bn_neg := False\<rparr>)))"

definition BN_add :: "allocator \<Rightarrow> bignum \<Rightarrow> bignum \<Rightarrow> bignum \<Rightarrow> bool \<times> bignum" where
  "BN_add m r a b =
     (if bn_neg a \<noteq> bn_neg b then
        (let (a, b) = (if bn_neg a then (b, a) else (a, b)) in signed_usub m r a b)
      else (case BN_uadd m r a b of (ret, r) \<Rightarrow> (ret, r\<lparr>bn_neg := bn_neg a\<rparr>)))"

definition BN_sub :: "allocator \<Rightarrow> bignum \<Rightarrow> bignum \<Rightarrow> bignum \<Rightarrow> bool \<times> bignum" where
  "BN_sub m r a b =
     (if bn_neg a \<noteq> bn_neg b then
        (case BN_uadd m r a b of (ok, r) \<Rightarrow> if \<not> ok then (False, r) else (True, r\<lparr>bn_neg := bn_neg a\<rparr>))
      else
        let (a, b) = (if bn_neg a then (b, a) else (a, b)) in signed_usub m r a b)"

text \<open>The limbs and the word that is left to be added.\<close>

fun add_word_loop :: "limb \<Rightarrow> limb list \<Rightarrow> limb list \<times> limb" where
  "add_word_loop w [] = ([], w)"
| "add_word_loop w (x # xs) =
     (if w = 0 then (x # xs, 0)
      else let l = x + w; (ys, w) = add_word_loop (if l < w then 1 else 0) xs in (l # ys, w))"

text \<open>The limbs and the index the loop stops at; \<open>None\<close> behind the last limb.\<close>

fun sub_word_loop :: "limb \<Rightarrow> limb list \<Rightarrow> (limb list \<times> nat) option" where
  "sub_word_loop w [] = None"
| "sub_word_loop w (x # xs) =
     (if w \<le> x then Some ((x - w) # xs, 0)
      else map_option (\<lambda>(ys, i). ((x - w) # ys, Suc i)) (sub_word_loop 1 xs))"

function (sequential)
  BN_add_word :: "allocator \<Rightarrow> bignum \<Rightarrow> limb \<Rightarrow> (bool \<times> bignum) option" and
  BN_sub_word :: "allocator \<Rightarrow> bignum \<Rightarrow> limb \<Rightarrow> (bool \<times> bignum) option"
where
  "BN_add_word m a w =
     (if w = 0 then Some (True, a)
      else if BN_is_zero a then Some (BN_set_word m a w)
      else if bn_neg a then
        map_option (\<lambda>(i, a). (i, if \<not> BN_is_zero a then a\<lparr>bn_neg := \<not> bn_neg a\<rparr> else a)) (BN_sub_word m (a\<lparr>bn_neg := False\<rparr>) w)
      else
        let (ys, w) = add_word_loop w (take (bn_width a) (bn_d a));
            a = a\<lparr>bn_d := ys @ drop (bn_width a) (bn_d a)\<rparr>
        in if w \<noteq> 0 then
             Some (case bn_wexpand m a (bn_width a + 1) of
                     (ok, a) \<Rightarrow>
                       if \<not> ok then (False, a)
                       else (True, a\<lparr>bn_width := bn_width a + 1, bn_d := (bn_d a)[bn_width a := w]\<rparr>))
           else Some (True, a))"
| "BN_sub_word m a w =
     (if w = 0 then Some (True, a)
      else if BN_is_zero a then
        Some (case BN_set_word m a w of (i, a) \<Rightarrow> (i, if i then BN_set_negative a True else a))
      else if bn_neg a then map_option (\<lambda>(i, a). (i, a\<lparr>bn_neg := True\<rparr>)) (BN_add_word m (a\<lparr>bn_neg := False\<rparr>) w)
      else if bn_minimal_width a = 1 \<and> bn_d a ! 0 < w then
        Some (True, a\<lparr>bn_d := (bn_d a)[0 := w - bn_d a ! 0], bn_neg := True\<rparr>)
      else
        map_option (\<lambda>(ys, i).
            let a = a\<lparr>bn_d := ys @ drop (bn_width a) (bn_d a)\<rparr>
            in (True, if bn_d a ! i = 0 \<and> i = bn_width a - 1 then a\<lparr>bn_width := bn_width a - 1\<rparr> else a))
          (sub_word_loop w (take (bn_width a) (bn_d a))))"
  by pat_completeness auto
termination
  by (relation "measure (case_sum (\<lambda>(m, a, w). if bn_neg a then 1 else 0) (\<lambda>(m, a, w). if bn_neg a then 1 else 0))") auto

declare BN_add_word.simps [simp del] BN_sub_word.simps [simp del]

section \<open>Loops over limbs\<close>

lemma add_words_loop_spec:
  assumes "length as = length bs" "unat ll \<le> 1"
  shows "\<exists>rs c. add_words_loop ll as bs = (rs, c) \<and> length rs = length as \<and>
    wval rs + BN_BASE ^ length as * unat c = wval as + wval bs + unat ll \<and> unat c \<le> 1"
  using assms
proof (induction ll as bs rule: add_words_loop.induct)
  case (1 ll a as b bs)
  define s where "s = unat ll + (unat a + unat b)"
  have s: "s < 2 * BN_BASE" using 1(3) limb_le [of a] limb_le [of b] unfolding s_def by linarith
  have u: "unat (ucast x :: u128) = unat x" for x :: limb
  proof -
    have "unat x < 2 ^ 128" by (rule less_le_trans [OF limb_less]) (simp add: BN_BASE_def)
    then show ?thesis by (simp add: unsigned_ucast_eq take_bit_eq_mod)
  qed
  have "s < 2 ^ 128" using s by (simp add: BN_BASE_def)
  then have sum: "unat (ll + (ucast a + ucast b)) = s" unfolding s_def by (simp add: unat_word_ariths u mod_simps)
  have lo: "unat (ucast (ll + (ucast a + ucast b)) :: limb) = s mod BN_BASE"
    using sum by (simp add: unsigned_ucast_eq take_bit_eq_mod BN_BASE_def)
  have hi: "unat (drop_bit BN_BITS2 (ll + (ucast a + ucast b))) = s div BN_BASE"
    by (simp add: unat_drop_bit sum BN_BITS2_def BN_BASE_def)
  have "s div BN_BASE \<le> 1" using s by (simp add: div_less_iff_less_mult less_Suc_eq_le [symmetric] mult.commute)
  then obtain rs c where r: "add_words_loop (drop_bit BN_BITS2 (ll + (ucast a + ucast b))) as bs = (rs, c)" "length rs = length as"
    "wval rs + BN_BASE ^ length as * unat c = wval as + wval bs + s div BN_BASE" "unat c \<le> 1"
    using 1(1) [OF refl] 1(2) hi by auto
  have "s mod BN_BASE + BN_BASE * (wval rs + BN_BASE ^ length as * unat c) = s + BN_BASE * (wval as + wval bs)"
    unfolding r(3) by (simp add: algebra_simps)
  then show ?case using r(1,2,4) lo by (simp add: Let_def s_def algebra_simps)
qed (auto simp: unsigned_ucast_eq take_bit_eq_mod)

lemma bn_add_words_spec:
  assumes "n \<le> length a" "n \<le> length b"
  obtains rs c where "bn_add_words a b n = (rs, c)" "length rs = n"
    "wval rs + BN_BASE ^ n * unat c = wval (take n a) + wval (take n b)" "unat c \<le> 1"
  using add_words_loop_spec [of "take n a" "take n b" 0] assms by (auto simp: bn_add_words_def min_absorb2)

lemma sub_words_loop_spec:
  assumes "length as = length bs" "c = 0 \<or> c = 1"
  shows "\<exists>rs c'. sub_words_loop c as bs = (rs, c') \<and> length rs = length as \<and> (c' = 0 \<or> c' = 1) \<and>
    wval rs + wval bs + unat c = wval as + BN_BASE ^ length as * unat c'"
  using assms
proof (induction c as bs rule: sub_words_loop.induct)
  case (1 c t1 as t2 bs)
  define c1 :: limb where "c1 = (if t1 \<noteq> t2 then (if t1 < t2 then 1 else 0) else c)"
  have c1: "c1 = 0 \<or> c1 = 1" using 1(3) by (simp add: c1_def)
  obtain rs c' where r: "sub_words_loop c1 as bs = (rs, c')" "length rs = length as" "c' = 0 \<or> c' = 1"
    "wval rs + wval bs + unat c1 = wval as + BN_BASE ^ length as * unat c'"
    using 1(1) [OF refl, folded c1_def] 1(2) c1 by auto
  have "unat (t1 - t2 - c) + unat t2 + unat c = unat t1 + BN_BASE * unat c1"
    using 1(3) limb_less [of t1] limb_less [of t2]
    by (auto simp: c1_def unat_limb_arith word_less_nat_alt word_unat_eq_iff simp del: limb_less)
  then have "unat (t1 - t2 - c) + BN_BASE * wval rs + (unat t2 + BN_BASE * wval bs) + unat c =
      unat t1 + BN_BASE * (wval rs + wval bs + unat c1)" by (simp add: algebra_simps)
  then show ?case using r(1-3) unfolding r(4) by (simp add: Let_def c1_def algebra_simps)
qed auto

lemma bn_sub_words_spec:
  assumes "n \<le> length a" "n \<le> length b"
  obtains rs c where "bn_sub_words a b n = (rs, c)" "length rs = n" "c = 0 \<or> c = 1"
    "wval rs + wval (take n b) = wval (take n a) + BN_BASE ^ n * unat c"
  using sub_words_loop_spec [of "take n a" "take n b" 0] assms by (auto simp: bn_sub_words_def min_absorb2)

lemma carry_loop_spec:
  assumes "unat c \<le> 1"
  shows "\<exists>rs c'. carry_loop c as = (rs, c') \<and> length rs = length as \<and> wval rs + BN_BASE ^ length as * unat c' = wval as + unat c \<and> unat c' \<le> 1"
  using assms
proof (induction c as rule: carry_loop.induct)
  case (2 c a as)
  define c1 :: limb where "c1 = (if c + a < a then 1 else 0)"
  have c1: "unat c1 \<le> 1" by (simp add: c1_def)
  obtain rs c' where r: "carry_loop c1 as = (rs, c')" "length rs = length as"
    "wval rs + BN_BASE ^ length as * unat c' = wval as + unat c1" "unat c' \<le> 1"
    using 2(1) [OF refl, folded c1_def, OF c1] by blast
  have "unat (c + a) + BN_BASE * unat c1 = unat a + unat c"
  proof -
    have c: "unat (c + a) < unat a \<longleftrightarrow> BN_BASE \<le> unat c + unat a" "unat (c + a) = (if BN_BASE \<le> unat c + unat a then unat c + unat a - BN_BASE else unat c + unat a)"
      using unat_limb_add [of c a] 2(2) limb_less [of a] BN_BASE_gt(2) by (auto simp del: limb_less)
    then show ?thesis by (simp add: c1_def word_less_nat_alt)
  qed
  then have "unat (c + a) + BN_BASE * (wval rs + BN_BASE ^ length as * unat c') = unat a + BN_BASE * wval as + unat c"
    unfolding r(3) by (simp add: algebra_simps)
  then show ?case using r(1,2,4) by (simp add: Let_def c1_def algebra_simps)
qed auto

lemma borrow_loop_spec:
  assumes "c = 0 \<or> c = 1"
  shows "\<exists>rs c'. borrow_loop c as = (rs, c') \<and> length rs = length as \<and> (c' = 0 \<or> c' = 1) \<and>
    wval rs + unat c = wval as + BN_BASE ^ length as * unat c'"
  using assms
proof (induction c as rule: borrow_loop.induct)
  case (2 c a as)
  define c1 :: limb where "c1 = (if a < a - c then 1 else 0)"
  have c1: "c1 = 0 \<or> c1 = 1" by (simp add: c1_def)
  obtain rs c' where r: "borrow_loop c1 as = (rs, c')" "length rs = length as" "c' = 0 \<or> c' = 1"
    "wval rs + unat c1 = wval as + BN_BASE ^ length as * unat c'"
    using 2(1) [OF refl, folded c1_def, OF c1] by blast
  have "unat (a - c) + unat c = unat a + BN_BASE * unat c1"
    using 2(2) limb_less [of a] BN_BASE_gt(2) by (auto simp: c1_def unat_limb_arith word_less_nat_alt simp del: limb_less)
  then have "unat (a - c) + BN_BASE * wval rs + unat c = unat a + BN_BASE * (wval rs + unat c1)" by (simp add: algebra_simps)
  then show ?case using r(1-3) unfolding r(4) by (simp add: Let_def c1_def algebra_simps)
qed auto

section \<open>Addition and subtraction of magnitudes\<close>

lemma BN_uadd_spec:
  assumes r: "bn_ok r" and a: "bn_ok a" and b: "bn_ok b" and e: "BN_uadd m r a b = (ok, r')"
  shows "if ok then bn_ok r' \<and> bn_abs r' = bn_abs a + bn_abs b \<and> (bn_neg r' \<longleftrightarrow> bn_neg r \<and> bn_abs a + bn_abs b \<noteq> 0)
    else r' = r \<and> bn_full m r (max (bn_width a) (bn_width b) + 1)"
proof -
  obtain x y where xy: "(if bn_width a < bn_width b then (b, a) else (a, b)) = (x, y)" by fastforce
  then have w: "bn_width y \<le> bn_width x" "bn_width x = max (bn_width a) (bn_width b)" "bn_abs a + bn_abs b = bn_abs x + bn_abs y"
    "bn_ok x" "bn_ok y" using a b by (auto split: if_splits)
  define hi lo where "hi = bn_width x" and "lo = bn_width y"
  note e' = e [unfolded BN_uadd_def bn_uadd_consttime_def xy Let_def, simplified, folded hi_def lo_def]
  show ?thesis
  proof (cases rule: bn_wexpand_cases [OF r, of m "hi + 1", case_names expanded full])
    case (expanded d)
    obtain low c1 where low: "bn_add_words (bn_d x) (bn_d y) lo = (low, c1)" "length low = lo"
      "wval low + BN_BASE ^ lo * unat c1 = wval (take lo (bn_d x)) + wval (take lo (bn_d y))" "unat c1 \<le> 1"
      by (rule bn_add_words_spec [of lo "bn_d x" "bn_d y"]) (use w in \<open>auto simp: lo_def bn_ok_def\<close>)
    let ?h = "drop lo (take hi (bn_d x))"
    obtain high c2 where high: "carry_loop c1 ?h = (high, c2)" "length high = length ?h"
      "wval high + BN_BASE ^ length ?h * unat c2 = wval ?h + unat c1" "unat c2 \<le> 1"
      using carry_loop_spec [OF low(4), of ?h] by blast
    have l: "length ?h = hi - lo" "lo \<le> hi" "hi \<le> length (bn_d x)" using w by (auto simp: hi_def lo_def bn_ok_def)
    let ?ws = "low @ high @ [c2]"
    have ws: "length ?ws = hi + 1" using low(2) high(2) l by simp
    define r1 where "r1 = d\<lparr>bn_width := hi + 1, bn_d := low @ high @ c2 # drop (hi + 1) (bn_d d)\<rparr>"
    have r1: "bn_ok r1" "bn_abs r1 = wval ?ws" "bn_neg r1 = bn_neg r"
      using store_limbs [OF expanded(2), of ?ws r1] expanded ws by (simp_all add: r1_def bn_ok_def)
    have split: "bn_abs x = wval (take lo (bn_d x)) + BN_BASE ^ lo * wval ?h"
      using wval_split [of "bn_limbs x" lo] l length_bn_limbs [OF w(4)]
      by (simp add: bn_abs_def bn_limbs_def hi_def [symmetric] min_absorb1)
    have "wval ?ws = wval low + BN_BASE ^ lo * (wval high + BN_BASE ^ length ?h * unat c2)"
      using low(2) high(2) by (simp add: wval_append algebra_simps)
    also have "\<dots> = (wval low + BN_BASE ^ lo * unat c1) + BN_BASE ^ lo * wval ?h" unfolding high(3) by (simp add: algebra_simps)
    also have "\<dots> = bn_abs x + bn_abs y" unfolding low(3) split by (simp add: bn_abs_def bn_limbs_def lo_def)
    finally have sum: "bn_abs r1 = bn_abs a + bn_abs b" using r1(2) w(3) by simp
    have "ok" "r' = bn_set_minimal_width r1" using e' expanded(1) low(1) high(1) by (simp_all add: r1_def)
    then show ?thesis using bn_set_minimal_width_spec [OF r1(1)] sum r1(3) by simp
  next
    case full
    then show ?thesis using e' w(2) by (simp add: hi_def)
  qed
qed

lemma BN_usub_spec:
  assumes r: "bn_ok r" and a: "bn_ok a" and b: "bn_ok b" and e: "BN_usub m r a b = (ok, r')"
  shows "if ok then bn_ok r' \<and> bn_abs b \<le> bn_abs a \<and> bn_val r' = int (bn_abs a) - int (bn_abs b) \<and> \<not> bn_neg r'
    else bn_ok r' \<and> (bn_abs a < bn_abs b \<or> r' = r \<and> bn_full m r (bn_width a))"
proof (cases "bn_width a < bn_width b \<and> \<not> bn_fits_in_words b (bn_width a)")
  case True
  then have "bn_abs a < bn_abs b" using bn_fits_in_words_spec [OF b] bn_abs_less [OF a] by (meson less_le_trans not_less)
  then show ?thesis using e r True by (simp add: BN_usub_def bn_usub_consttime_def)
next
  case fits: False
  define hi lo where "hi = bn_width a" and "lo = (if bn_width a < bn_width b then bn_width a else bn_width b)"
  note e' = e [unfolded BN_usub_def bn_usub_consttime_def Let_def if_not_P [OF fits], folded hi_def, folded lo_def [folded hi_def]]
  have bv: "wval (take lo (bn_d b)) = bn_abs b"
  proof (cases "bn_width a < bn_width b")
    case True
    then have "bn_abs b mod BN_BASE ^ lo = bn_abs b" using fits bn_fits_in_words_spec [OF b] by (simp add: lo_def)
    then show ?thesis using wval_mod [of "bn_limbs b" lo] True by (simp add: lo_def bn_abs_def bn_limbs_def min_absorb1)
  qed (simp add: lo_def bn_abs_def bn_limbs_def)
  have l: "lo \<le> hi" "hi \<le> length (bn_d a)" "lo \<le> length (bn_d b)" "length (drop lo (take hi (bn_d a))) = hi - lo"
    using a b by (auto simp: hi_def lo_def bn_ok_def)
  show ?thesis
  proof (cases rule: bn_wexpand_cases [OF r, of m hi, case_names expanded full])
    case (expanded d)
    obtain low c1 where low: "bn_sub_words (bn_d a) (bn_d b) lo = (low, c1)" "length low = lo" "c1 = 0 \<or> c1 = 1"
      "wval low + wval (take lo (bn_d b)) = wval (take lo (bn_d a)) + BN_BASE ^ lo * unat c1"
      by (rule bn_sub_words_spec [of lo "bn_d a" "bn_d b"]) (use l in auto)
    let ?h = "drop lo (take hi (bn_d a))"
    obtain high c2 where high: "borrow_loop c1 ?h = (high, c2)" "length high = length ?h" "c2 = 0 \<or> c2 = 1"
      "wval high + unat c1 = wval ?h + BN_BASE ^ length ?h * unat c2"
      using borrow_loop_spec [OF low(3), of ?h] by blast
    let ?ws = "low @ high"
    have ws: "length ?ws = hi" using low(2) high(2) l by simp
    have split: "bn_abs a = wval (take lo (bn_d a)) + BN_BASE ^ lo * wval ?h"
      using wval_split [of "bn_limbs a" lo] l length_bn_limbs [OF a]
      by (simp add: bn_abs_def bn_limbs_def hi_def [symmetric] min_absorb1)
    have "wval ?ws + bn_abs b + BN_BASE ^ lo * unat c1 =
        (wval low + wval (take lo (bn_d b))) + BN_BASE ^ lo * (wval high + unat c1)"
      using low(2) bv by (simp add: wval_append algebra_simps)
    also have "\<dots> = bn_abs a + BN_BASE ^ lo * unat c1 + BN_BASE ^ hi * unat c2"
      unfolding high(4) low(4) split using l by (simp add: algebra_simps flip: power_add)
    finally have diff: "wval ?ws + bn_abs b = bn_abs a + BN_BASE ^ hi * unat c2" by simp
    define d1 where "d1 = d\<lparr>bn_d := low @ high @ drop hi (bn_d d)\<rparr>"
    have ex: "bn_ok d1" "\<And>n. bn_ok (d1\<lparr>bn_width := hi, bn_neg := n\<rparr>)" "bn_abs (d1\<lparr>bn_width := hi, bn_neg := False\<rparr>) = wval ?ws"
      using expanded(2-4) ws by (simp_all add: d1_def bn_ok_def bn_abs_def bn_limbs_def)
    have e'': "(ok, r') = (if c2 \<noteq> 0 then (False, d1) else (True, bn_set_minimal_width (d1\<lparr>bn_width := hi, bn_neg := False\<rparr>)))"
      using e' expanded(1) low(1) high(1) by (simp add: d1_def split: if_splits)
    show ?thesis
    proof (cases "c2 = 0")
      case True
      then have "ok" "r' = bn_set_minimal_width (d1\<lparr>bn_width := hi, bn_neg := False\<rparr>)" using e'' by simp_all
      then show ?thesis
        using bn_set_minimal_width_spec [OF ex(2) [of False]] ex(3) diff True by (simp add: bn_val_def)
    next
      case False
      have "wval ?ws < BN_BASE ^ hi" using wval_less [of ?ws] ws by simp
      then have "bn_abs a < bn_abs b" using diff False high(3) by auto
      then show ?thesis using e'' False ex(1) by simp
    qed
  next
    case full
    then show ?thesis using e' r by (simp add: hi_def)
  qed
qed

section \<open>Signed addition and subtraction\<close>

lemma signed_usub_spec:
  assumes "bn_ok r" "bn_ok a" "bn_ok b" "signed_usub m r a b = (ok, r')"
  shows "bn_ok r' \<and> (if ok then bn_val r' = int (bn_abs a) - int (bn_abs b) \<and> bn_signed r'
    else r' = r \<and> bn_full m r (max (bn_width a) (bn_width b) + 1))"
proof -
  have full: "bn_full m r n \<Longrightarrow> n \<le> k \<Longrightarrow> bn_full m r k" for n k by (auto simp: bn_full_def)
  have neg: "bn_ok s \<Longrightarrow> bn_ok (s\<lparr>bn_neg := n\<rparr>) \<and> bn_abs (s\<lparr>bn_neg := n\<rparr>) = bn_abs s" for s n
    by (simp add: bn_ok_def bn_abs_def bn_limbs_def)
  have less: "BN_ucmp a b < 0 \<longleftrightarrow> bn_abs a < bn_abs b" by (simp add: BN_ucmp_spec assms order_sign_less)
  show ?thesis
  proof (cases "bn_abs a < bn_abs b")
    case True
    obtain k s where u: "BN_usub m r b a = (k, s)" by fastforce
    note us = BN_usub_spec [OF assms(1,3,2) u]
    show ?thesis
    proof (cases k)
      case k: True
      then have "int (bn_abs s) = int (bn_abs b) - int (bn_abs a)" using us by (auto simp: bn_val_def)
      then show ?thesis using assms(4) u less True k us neg [of s True] by (auto simp: signed_usub_def bn_val_def bn_signed_def)
    next
      case False
      then show ?thesis using assms(1,4) u less True us full [of "bn_width b" "max (bn_width a) (bn_width b) + 1"] by (auto simp: signed_usub_def)
    qed
  next
    case False
    obtain k s where u: "BN_usub m r a b = (k, s)" by fastforce
    note us = BN_usub_spec [OF assms(1,2,3) u]
    show ?thesis
    proof (cases k)
      case k: True
      then have "int (bn_abs s) = int (bn_abs a) - int (bn_abs b)" using us by (auto simp: bn_val_def)
      then show ?thesis using assms(4) u less False k us neg [of s False] by (auto simp: signed_usub_def bn_val_def bn_signed_def)
    next
      case k: False
      then show ?thesis using assms(1,4) u less False us full [of "bn_width a" "max (bn_width a) (bn_width b) + 1"] by (auto simp: signed_usub_def)
    qed
  qed
qed

lemma bn_set_neg:
  "bn_ok s \<Longrightarrow> bn_ok (s\<lparr>bn_neg := n\<rparr>) \<and> bn_abs (s\<lparr>bn_neg := n\<rparr>) = bn_abs s \<and> bn_limbs (s\<lparr>bn_neg := n\<rparr>) = bn_limbs s"
  by (simp add: bn_ok_def bn_abs_def bn_limbs_def)

lemma BN_add_spec:
  assumes "bn_ok r" "bn_ok a" "bn_ok b" "BN_add m r a b = (ok, r')"
  shows "bn_ok r' \<and> (if ok then bn_val r' = bn_val a + bn_val b \<and> (bn_signed a \<and> bn_signed b \<longrightarrow> bn_signed r')
    else bn_limbs r' = bn_limbs r \<and> bn_full m r (max (bn_width a) (bn_width b) + 1))"
proof (cases "bn_neg a = bn_neg b")
  case True
  obtain k s where u: "BN_uadd m r a b = (k, s)" by fastforce
  have "ok = k" "r' = s\<lparr>bn_neg := bn_neg a\<rparr>" using assms(4) u True by (simp_all add: BN_add_def)
  then show ?thesis
    using BN_uadd_spec [OF assms(1-3) u] assms(1) True bn_set_neg [of s "bn_neg a"]
    by (cases k) (auto simp: bn_val_def bn_signed_def)
next
  case False
  show ?thesis
  proof (cases "bn_neg a")
    case True
    then have "signed_usub m r b a = (ok, r')" using assms(4) False by (simp add: BN_add_def)
    from signed_usub_spec [OF assms(1,3,2) this] show ?thesis
      using True False assms(1) by (cases ok) (simp_all add: bn_val_def max.commute)
  next
    case F: False
    then have "signed_usub m r a b = (ok, r')" using assms(4) False by (simp add: BN_add_def)
    from signed_usub_spec [OF assms(1,2,3) this] show ?thesis
      using F False assms(1) by (cases ok) (simp_all add: bn_val_def)
  qed
qed

lemma BN_sub_spec:
  assumes "bn_ok r" "bn_ok a" "bn_ok b" "BN_sub m r a b = (ok, r')"
  shows "bn_ok r' \<and> (if ok then bn_val r' = bn_val a - bn_val b \<and> (bn_signed a \<and> bn_signed b \<longrightarrow> bn_signed r')
    else r' = r \<and> bn_full m r (max (bn_width a) (bn_width b) + 1))"
proof (cases "bn_neg a = bn_neg b")
  case False
  obtain k s where u: "BN_uadd m r a b = (k, s)" by fastforce
  have "(ok, r') = (if k then (True, s\<lparr>bn_neg := bn_neg a\<rparr>) else (False, s))" using assms(4) u False by (cases k) (simp_all add: BN_sub_def)
  then show ?thesis
    using BN_uadd_spec [OF assms(1-3) u] assms(1) False bn_set_neg [of s "bn_neg a"]
    by (cases k) (auto simp: bn_val_def bn_signed_def)
next
  case True
  show ?thesis
  proof (cases "bn_neg a")
    case T: True
    then have "signed_usub m r b a = (ok, r')" using assms(4) True by (simp add: BN_sub_def)
    from signed_usub_spec [OF assms(1,3,2) this] show ?thesis
      using T True assms(1) by (cases ok) (simp_all add: bn_val_def max.commute)
  next
    case F: False
    then have "signed_usub m r a b = (ok, r')" using assms(4) True by (simp add: BN_sub_def)
    from signed_usub_spec [OF assms(1,2,3) this] show ?thesis
      using F True assms(1) by (cases ok) (simp_all add: bn_val_def)
  qed
qed


section \<open>Adding and subtracting a word\<close>

lemma add_word_loop_spec:
  "\<exists>ys w'. add_word_loop w xs = (ys, w') \<and> length ys = length xs \<and> wval ys + BN_BASE ^ length xs * unat w' = wval xs + unat w \<and>
    (w' \<noteq> 0 \<longrightarrow> w' = 1 \<or> xs = [])"
proof (induction w xs rule: add_word_loop.induct)
  case (2 w x xs)
  show ?case
  proof (cases "w = 0")
    case False
    define c :: limb where "c = (if x + w < w then 1 else 0)"
    obtain ys w' where r: "add_word_loop c xs = (ys, w')" "length ys = length xs"
      "wval ys + BN_BASE ^ length xs * unat w' = wval xs + unat c" "w' \<noteq> 0 \<longrightarrow> w' = 1 \<or> xs = []"
      using 2 [OF False refl, folded c_def] by blast
    have "unat (x + w) + BN_BASE * unat c = unat x + unat w"
      using unat_limb_add [of x w] limb_less [of x] limb_less [of w] by (auto simp: c_def word_less_nat_alt simp del: limb_less)
    then have "unat (x + w) + BN_BASE * (wval ys + BN_BASE ^ length xs * unat w') = unat x + BN_BASE * wval xs + unat w"
      unfolding r(3) by (simp add: algebra_simps)
    moreover have "w' \<noteq> 0 \<longrightarrow> w' = 1" using r(1,4) by (auto simp: c_def split: if_splits)
    ultimately show ?thesis using r(1,2) False by (simp add: Let_def c_def algebra_simps)
  qed simp
qed simp

lemma sub_word_loop_spec:
  "w \<noteq> 0 \<Longrightarrow> unat w \<le> wval xs \<Longrightarrow> \<exists>ys i. sub_word_loop w xs = Some (ys, i) \<and> length ys = length xs \<and> wval ys + unat w = wval xs \<and> i < length xs"
proof (induction w xs rule: sub_word_loop.induct)
  case (2 w x xs)
  show ?case
  proof (cases "w \<le> x")
    case True
    then have "unat (x - w) + unat w = unat x" by (simp add: unat_limb_arith word_le_nat_alt)
    then show ?thesis using True by (simp add: algebra_simps)
  next
    case False
    have "wval xs \<noteq> 0" using 2(3) False by (intro notI) (simp add: word_le_nat_alt)
    then have "unat (1 :: limb) \<le> wval xs" by simp
    then obtain ys i where r: "sub_word_loop 1 xs = Some (ys, i)" "length ys = length xs" "wval ys + unat (1 :: limb) = wval xs" "i < length xs"
      using 2(1) [OF False] by auto
    have "unat (x - w) + unat w = unat x + BN_BASE" using False limb_less [of w] by (simp add: unat_limb_arith word_le_nat_alt del: limb_less)
    then have "unat (x - w) + BN_BASE * wval ys + unat w = unat x + BN_BASE * (wval ys + unat (1 :: limb))" by (simp add: algebra_simps)
    then show ?thesis using r(1,2,4) False unfolding r(3) by simp
  qed
qed (simp add: unsigned_eq_0_iff)

lemma bn_replace_limbs:
  assumes "bn_ok a" "length ys = bn_width a"
  shows "bn_ok (a\<lparr>bn_d := ys @ drop (bn_width a) (bn_d a)\<rparr>)" "bn_limbs (a\<lparr>bn_d := ys @ drop (bn_width a) (bn_d a)\<rparr>) = ys"
    "bn_abs (a\<lparr>bn_d := ys @ drop (bn_width a) (bn_d a)\<rparr>) = wval ys"
  using assms by (simp_all add: bn_ok_def bn_limbs_def bn_abs_def)

lemma BN_add_word_pos:
  assumes ok: "bn_ok a" and w: "w \<noteq> 0" and nz: "bn_abs a \<noteq> 0" and pos: "\<not> bn_neg a"
  shows "\<exists>k a'. BN_add_word m a w = Some (k, a') \<and> bn_ok a' \<and> (if k then bn_abs a' = bn_abs a + unat w \<and> \<not> bn_neg a'
    else \<not> bn_neg a' \<and> bn_full m a (bn_width a + 1))"
proof -
  define xs where "xs = bn_limbs a"
  have len: "length xs = bn_width a" by (simp add: xs_def length_bn_limbs ok)
  obtain ys w' where l: "add_word_loop w xs = (ys, w')" "length ys = length xs"
    "wval ys + BN_BASE ^ length xs * unat w' = wval xs + unat w" "w' \<noteq> 0 \<longrightarrow> w' = 1 \<or> xs = []"
    using add_word_loop_spec [of w xs] by blast
  define a1 where "a1 = a\<lparr>bn_d := ys @ drop (bn_width a) (bn_d a)\<rparr>"
  have a1: "bn_ok a1" "bn_limbs a1 = ys" "bn_abs a1 = wval ys" "bn_width a1 = bn_width a" "bn_neg a1 = bn_neg a" "\<And>n. bn_full m a1 n = bn_full m a n"
    using bn_replace_limbs [OF ok, of ys] l(2) len by (simp_all add: a1_def bn_full_def bn_static_def)
  have e: "BN_add_word m a w = (if w' \<noteq> 0 then
      Some (case bn_wexpand m a1 (bn_width a1 + 1) of (ok, a) \<Rightarrow> if \<not> ok then (False, a)
        else (True, a\<lparr>bn_width := bn_width a + 1, bn_d := (bn_d a)[bn_width a := w']\<rparr>))
    else Some (True, a1))"
    using w nz pos BN_is_zero_spec [OF ok] l(1) by (simp add: BN_add_word.simps [of m a w] Let_def a1_def xs_def bn_limbs_def)
  show ?thesis
  proof (cases "w' = 0")
    case True
    then show ?thesis using e a1 l(3) pos by (intro exI [of _ True] exI [of _ a1]) (simp add: bn_abs_def xs_def)
  next
    case False
    show ?thesis
    proof (cases rule: bn_wexpand_cases [OF a1(1), of m "bn_width a1 + 1", case_names expanded full])
      case (expanded d)
      let ?ws = "ys @ [w']"
      define r where "r = d\<lparr>bn_width := bn_width d + 1, bn_d := (bn_d d)[bn_width d := w']\<rparr>"
      have "take (length ?ws) (bn_d r) = ?ws"
      proof -
        have "take (bn_width d) (bn_d d) = ys" using expanded(5) a1(2) by (simp add: bn_limbs_def)
        moreover have "length ys = bn_width d" "bn_width d < length (bn_d d)" using l(2) len expanded(4,6) a1(4) by simp_all
        ultimately show ?thesis by (simp add: r_def take_Suc_conv_app_nth)
      qed
      moreover have "length ?ws = bn_width d + 1" using l(2) len expanded(6) a1(4) by simp
      ultimately have "bn_ok r" "bn_abs r = wval ?ws" "bn_neg r = bn_neg d"
        using store_limbs [OF expanded(2), of ?ws r] expanded(2-6) a1(4) by (simp_all add: r_def bn_ok_def)
      moreover have "wval ?ws = bn_abs a + unat w" using l(2,3) by (simp add: wval_snoc bn_abs_def xs_def)
      ultimately show ?thesis
        using e False expanded(1,7) a1(4,5) pos by (intro exI [of _ True] exI [of _ r]) (simp add: r_def)
    next
      case full
      then show ?thesis using e False a1 pos by (intro exI [of _ False] exI [of _ a1]) simp
    qed
  qed
qed

lemma BN_sub_word_pos:
  assumes ok: "bn_ok a" and w: "w \<noteq> 0" and nz: "bn_abs a \<noteq> 0" and pos: "\<not> bn_neg a"
  shows "\<exists>a'. BN_sub_word m a w = Some (True, a') \<and> bn_ok a' \<and> bn_val a' = int (bn_abs a) - int (unat w) \<and> bn_signed a'"
proof -
  note mw = minimal_limbs [OF ok]
  have z: "\<not> BN_is_zero a" using nz BN_is_zero_spec [OF ok] by simp
  show ?thesis
  proof (cases "bn_minimal_width a = 1 \<and> bn_d a ! 0 < w")
    case True
    have d: "0 < length (bn_d a)" "0 < bn_width a" using mw(2) True ok by (auto simp: bn_ok_def)
    have v: "bn_abs a = unat (bn_d a ! 0)" using mw(1) True d by (cases "bn_d a") auto
    define a' where "a' = a\<lparr>bn_d := (bn_d a)[0 := w - bn_d a ! 0], bn_neg := True\<rparr>"
    have "bn_limbs a = bn_d a ! 0 # drop 1 (bn_limbs a)" using d by (cases "bn_d a"; cases "bn_width a") (auto simp: bn_limbs_def)
    then have "wval (drop 1 (bn_limbs a)) = 0"
      using v wval.simps(2) [of "bn_d a ! 0" "drop 1 (bn_limbs a)"] by (simp add: bn_abs_def)
    moreover have "bn_limbs a' = (w - bn_d a ! 0) # drop 1 (bn_limbs a)"
      using d by (cases "bn_d a"; cases "bn_width a") (auto simp: a'_def bn_limbs_def)
    ultimately have abs: "bn_abs a' = unat (w - bn_d a ! 0)" by (simp add: bn_abs_def)
    have lt: "unat (bn_d a ! 0) < unat w" using True by (simp add: word_less_nat_alt)
    then have "int (bn_abs a') = int (unat w) - int (bn_abs a)" "bn_abs a' \<noteq> 0" using abs v by (simp_all add: unat_limb_arith)
    then have "bn_val a' = int (bn_abs a) - int (unat w)" "bn_signed a'" by (simp_all add: a'_def bn_val_def bn_signed_def bn_abs_def bn_limbs_def)
    moreover have "bn_ok a'" using ok by (simp add: a'_def bn_ok_def)
    moreover have "BN_sub_word m a w = Some (True, a')" using w z pos True by (simp add: BN_sub_word.simps [of m a w] a'_def)
    ultimately show ?thesis by blast
  next
    case False
    define xs where "xs = bn_limbs a"
    have len: "length xs = bn_width a" by (simp add: xs_def length_bn_limbs ok)
    have le: "unat w \<le> wval xs"
    proof (cases "bn_minimal_width a = 1")
      case True
      then have "0 < length (bn_d a)" using mw(2) ok by (auto simp: bn_ok_def)
      then have "bn_abs a = unat (bn_d a ! 0)" using mw(1) True by (cases "bn_d a") auto
      then show ?thesis using False True by (simp add: xs_def bn_abs_def word_less_nat_alt)
    next
      case F: False
      then obtain k where k: "bn_minimal_width a = Suc (Suc k)" using mw(3) nz by (metis One_nat_def not0_implies_Suc)
      have kl: "Suc k < length (bn_d a)" using mw(2) k ok by (simp add: bn_ok_def)
      have "0 < unat (bn_d a ! Suc k)" using mw(4) k by (simp add: unat_gt_0)
      then have "BN_BASE ^ Suc k * 1 \<le> BN_BASE ^ Suc k * unat (bn_d a ! Suc k)" by (intro mult_le_mono2) simp
      moreover have "bn_abs a = wval (take (Suc k) (bn_d a)) + BN_BASE ^ Suc k * unat (bn_d a ! Suc k)"
        using mw(1) k kl by (simp add: take_Suc_conv_app_nth [of "Suc k"] wval_snoc)
      moreover have "unat w < BN_BASE" "BN_BASE \<le> BN_BASE ^ Suc k" by simp_all
      ultimately show ?thesis unfolding xs_def bn_abs_def by linarith
    qed
    obtain ys i where l: "sub_word_loop w xs = Some (ys, i)" "length ys = length xs" "wval ys + unat w = wval xs" "i < length xs"
      using sub_word_loop_spec [OF w le] by blast
    define a1 where "a1 = a\<lparr>bn_d := ys @ drop (bn_width a) (bn_d a)\<rparr>"
    have a1: "bn_ok a1" "bn_limbs a1 = ys" "bn_abs a1 = wval ys" "bn_width a1 = bn_width a" "bn_neg a1 = bn_neg a"
      using bn_replace_limbs [OF ok, of ys] l(2) len by (simp_all add: a1_def)
    define a2 where "a2 = (if bn_d a1 ! i = 0 \<and> i = bn_width a1 - 1 then a1\<lparr>bn_width := bn_width a1 - 1\<rparr> else a1)"
    have "BN_sub_word m a w = map_option (\<lambda>(ys, i).
        let a = a\<lparr>bn_d := ys @ drop (bn_width a) (bn_d a)\<rparr>
        in (True, if bn_d a ! i = 0 \<and> i = bn_width a - 1 then a\<lparr>bn_width := bn_width a - 1\<rparr> else a)) (sub_word_loop w xs)"
      unfolding xs_def bn_limbs_def by (subst BN_sub_word.simps) (simp only: w z pos False if_False)
    then have e: "BN_sub_word m a w = Some (True, a2)" using l(1) by (simp only: option.map Let_def a1_def a2_def prod.case)
    have "bn_ok a2 \<and> bn_abs a2 = wval ys"
    proof (cases "bn_d a1 ! i = 0 \<and> i = bn_width a1 - 1")
      case True
      have "0 < bn_width a1" using l(4) len a1(4) by simp
      then obtain n where "bn_width a1 = Suc n" using gr0_implies_Suc by blast
      then have n: "bn_width a1 = Suc n" "i = n" using True by simp_all
      then have "bn_d a1 ! n = 0" "bn_limbs a1 = take n (bn_d a1) @ [bn_d a1 ! n]"
        using a1(1) True by (auto simp: bn_limbs_def bn_ok_def take_Suc_conv_app_nth)
      then have "wval (take n (bn_d a1)) = wval ys" using a1(2) by (metis add_0_right mult_0_right unsigned_0 wval_snoc)
      moreover have "a2 = a1\<lparr>bn_width := n\<rparr>" using n True by (auto simp: a2_def)
      ultimately show ?thesis using a1(1) n by (simp add: bn_ok_def bn_abs_def bn_limbs_def)
    next
      case F: False
      then have "a2 = a1" unfolding a2_def by (rule if_not_P)
      then show ?thesis by (simp add: a1)
    qed
    moreover have "\<not> bn_neg a2" using pos a1(5) by (simp add: a2_def)
    moreover have "int (wval ys) + int (unat w) = int (bn_abs a)" using l(3) by (metis of_nat_add xs_def bn_abs_def)
    ultimately show ?thesis using e by (auto simp: bn_val_def bn_signed_def)
  qed
qed

lemma BN_add_word_spec:
  assumes "bn_ok a"
  shows "\<exists>k a'. BN_add_word m a w = Some (k, a') \<and> bn_ok a' \<and>
    (if k then bn_val a' = bn_val a + int (unat w) \<and> (bn_signed a \<longrightarrow> bn_signed a') else bn_full m a (bn_width a + 1) \<or> bn_full m a 1)"
proof -
  consider "w = 0" | "w \<noteq> 0" "bn_abs a = 0" | "w \<noteq> 0" "bn_abs a \<noteq> 0" "\<not> bn_neg a" | "w \<noteq> 0" "bn_abs a \<noteq> 0" "bn_neg a" by blast
  then show ?thesis
  proof cases
    case 1
    then show ?thesis using assms by (intro exI [of _ True] exI [of _ a]) (simp add: BN_add_word.simps)
  next
    case 2
    obtain k a' where s: "BN_set_word m a w = (k, a')" by fastforce
    show ?thesis
      using 2 s BN_set_word_spec [OF assms s] assms BN_is_zero_spec [OF assms]
      by (cases k) (auto simp: BN_add_word.simps [of m a w] bn_val_zero)
  next
    case 3
    obtain k a' where "BN_add_word m a w = Some (k, a')" "bn_ok a'"
      "if k then bn_abs a' = bn_abs a + unat w \<and> \<not> bn_neg a' else \<not> bn_neg a' \<and> bn_full m a (bn_width a + 1)"
      using BN_add_word_pos [OF assms 3(1-3), of m] by blast
    then show ?thesis using 3 by (intro exI [of _ k] exI [of _ a']) (cases k; simp add: bn_val_def bn_signed_def)
  next
    case 4
    define b where "b = a\<lparr>bn_neg := False\<rparr>"
    have b: "bn_ok b" "bn_abs b = bn_abs a" using bn_set_neg [OF assms, of False] by (simp_all add: b_def)
    obtain a' where a': "BN_sub_word m b w = Some (True, a')" "bn_ok a'" "bn_val a' = int (bn_abs a) - int (unat w)" "bn_signed a'"
      using BN_sub_word_pos [OF b(1) 4(1), of m] 4(2) b(2) by (auto simp: b_def)
    define r where "r = (if \<not> BN_is_zero a' then a'\<lparr>bn_neg := \<not> bn_neg a'\<rparr> else a')"
    have "BN_add_word m a w = Some (True, r)"
      using 4 a'(1) BN_is_zero_spec [OF assms] by (simp add: BN_add_word.simps [of m a w] r_def b_def)
    moreover have "bn_ok r" "bn_val r = - bn_val a'" "bn_signed r"
      using a'(2,4) BN_is_zero_spec [OF a'(2)] bn_set_neg [OF a'(2), of "\<not> bn_neg a'"]
      by (auto simp: r_def bn_val_def bn_signed_def)
    moreover have "bn_val r = bn_val a + int (unat w)" using \<open>bn_val r = - bn_val a'\<close> a'(3) 4 by (simp add: bn_val_def)
    ultimately show ?thesis by (intro exI [of _ True] exI [of _ r]) simp
  qed
qed

lemma BN_sub_word_spec:
  assumes "bn_ok a"
  shows "\<exists>k a'. BN_sub_word m a w = Some (k, a') \<and> bn_ok a' \<and>
    (if k then bn_val a' = bn_val a - int (unat w) \<and> (bn_signed a \<longrightarrow> bn_signed a') else bn_full m a (bn_width a + 1) \<or> bn_full m a 1)"
proof -
  consider "w = 0" | "w \<noteq> 0" "bn_abs a = 0" | "w \<noteq> 0" "bn_abs a \<noteq> 0" "\<not> bn_neg a" | "w \<noteq> 0" "bn_abs a \<noteq> 0" "bn_neg a" by blast
  then show ?thesis
  proof cases
    case 1
    then show ?thesis using assms by (intro exI [of _ True] exI [of _ a]) (simp add: BN_sub_word.simps)
  next
    case 2
    obtain k a' where s: "BN_set_word m a w = (k, a')" by fastforce
    note ss = BN_set_word_spec [OF assms s]
    have "\<bar>int (unat w)\<bar> = int (unat w)" by simp
    then show ?thesis
      using 2 s ss assms BN_is_zero_spec [OF assms] BN_set_negative_spec [of a' True]
      by (cases k) (auto simp: BN_sub_word.simps [of m a w] bn_val_zero simp del: of_nat_unat)
  next
    case 3
    obtain a' where "BN_sub_word m a w = Some (True, a')" "bn_ok a'" "bn_val a' = int (bn_abs a) - int (unat w)" "bn_signed a'"
      using BN_sub_word_pos [OF assms 3(1-3), of m] by blast
    then show ?thesis using 3 by (intro exI [of _ True] exI [of _ a']) (simp add: bn_val_def)
  next
    case 4
    define b where "b = a\<lparr>bn_neg := False\<rparr>"
    have b: "bn_ok b" "bn_abs b = bn_abs a" "bn_width b = bn_width a" "\<And>n. bn_full m b n = bn_full m a n"
      using bn_set_neg [OF assms, of False] by (simp_all add: b_def bn_full_def bn_static_def)
    have nz: "bn_abs b \<noteq> 0" "\<not> bn_neg b" using 4(2) b(2) by (simp_all add: b_def)
    obtain k a' where a': "BN_add_word m b w = Some (k, a')" "bn_ok a'"
      "if k then bn_abs a' = bn_abs b + unat w \<and> \<not> bn_neg a' else \<not> bn_neg a' \<and> bn_full m b (bn_width b + 1)"
      using BN_add_word_pos [OF b(1) 4(1) nz, of m] by blast
    have "BN_sub_word m a w = Some (k, a'\<lparr>bn_neg := True\<rparr>)"
      using 4 a'(1) BN_is_zero_spec [OF assms] by (simp add: BN_sub_word.simps [of m a w] b_def)
    then show ?thesis
      using a'(2,3) bn_set_neg [OF a'(2), of True] b(2-4) 4
      by (intro exI [of _ k] exI [of _ "a'\<lparr>bn_neg := True\<rparr>"]) (cases k; simp add: bn_val_def bn_signed_def)
  qed
qed


end
