(* ===== verification/Bn_Shift.thy ===== *)
theory Bn_Shift
  imports Bn_Add
begin

text \<open>
  \<^verbatim>\<open>crypto/fipsmodule/bn/shift.c\<close>: shifts and bits of big integers. The proofs look at the bits: bit \<open>b\<close> of limb \<open>j\<close>
  is bit \<open>64 * j + b\<close> of the number.
\<close>

section \<open>Code\<close>

text \<open>The limbs \<open>i - 1\<close> down to 0 are shifted into \<open>t\<close>.\<close>

fun lshift_loop :: "limb list \<Rightarrow> nat \<Rightarrow> nat \<Rightarrow> nat \<Rightarrow> limb list \<Rightarrow> limb list" where
  "lshift_loop f nw lb 0 t = t"
| "lshift_loop f nw lb (Suc i) t =
     (let l = f ! i;
          t = t[nw + i + 1 := t ! (nw + i + 1) OR drop_bit (BN_BITS2 - lb) l];
          t = t[nw + i := push_bit lb l]
      in lshift_loop f nw lb i t)"

fun move_loop :: "limb list \<Rightarrow> nat \<Rightarrow> nat \<Rightarrow> limb list \<Rightarrow> limb list" where
  "move_loop f nw 0 t = t"
| "move_loop f nw (Suc i) t = move_loop f nw i (t[nw + i := f ! i])"

definition BN_lshift :: "allocator \<Rightarrow> bignum \<Rightarrow> bignum \<Rightarrow> int \<Rightarrow> bool \<times> bignum" where
  "BN_lshift m r a n =
     (if n < 0 then (False, r)
      else
        let r = r\<lparr>bn_neg := bn_neg a\<rparr>; nw = nat n div BN_BITS2 in
        case bn_wexpand m r (bn_width a + nw + 1) of
          (ok, r) \<Rightarrow>
            if \<not> ok then (False, r)
            else
              let lb = nat n mod BN_BITS2; f = bn_d a;
                  t = (bn_d r)[bn_width a + nw := 0];
                  t = (if lb = 0 then move_loop f nw (bn_width a) t else lshift_loop f nw lb (bn_width a) t);
                  t = replicate nw 0 @ drop nw t
              in (True, bn_set_minimal_width (r\<lparr>bn_d := t, bn_width := bn_width a + nw + 1\<rparr>)))"

text \<open>The limbs shifted by one bit, and the bit shifted out.\<close>

fun lshift1_loop :: "limb \<Rightarrow> limb list \<Rightarrow> limb list \<times> limb" where
  "lshift1_loop c [] = ([], c)"
| "lshift1_loop c (t # ts) = (let (rs, c') = lshift1_loop (drop_bit (BN_BITS2 - 1) t) ts in ((push_bit 1 t OR c) # rs, c'))"

definition BN_lshift1 :: "allocator \<Rightarrow> bignum \<Rightarrow> bignum \<Rightarrow> bool \<times> bignum" where
  "BN_lshift1 m r a =
     (let r = r\<lparr>bn_neg := bn_neg a\<rparr> in
      case bn_wexpand m r (bn_width a + 1) of
        (ok, r) \<Rightarrow>
          if \<not> ok then (False, r)
          else
            let (rs, c) = lshift1_loop 0 (take (bn_width a) (bn_d a));
                r = r\<lparr>bn_width := bn_width a, bn_d := rs @ drop (bn_width a) (bn_d r)\<rparr>
            in (True, if c \<noteq> 0 then r\<lparr>bn_d := (bn_d r)[bn_width a := 1], bn_width := bn_width a + 1\<rparr> else r))"

text \<open>The \<open>num\<close> limbs written at \<open>r\<close>.\<close>

definition bn_rshift_words :: "limb list \<Rightarrow> nat \<Rightarrow> nat \<Rightarrow> limb list" where
  "bn_rshift_words a shift num =
     (let shift_bits = shift mod BN_BITS2; shift_words = shift div BN_BITS2 in
      if num \<le> shift_words then replicate num 0
      else
        (if shift_bits = 0 then take (num - shift_words) (drop shift_words a)
         else map (\<lambda>i. drop_bit shift_bits (a ! i) OR push_bit (BN_BITS2 - shift_bits) (a ! (i + 1))) [shift_words..<num - 1] @
           [drop_bit shift_bits (a ! (num - 1))]) @
        replicate shift_words 0)"

definition BN_rshift :: "allocator \<Rightarrow> bignum \<Rightarrow> bignum \<Rightarrow> int \<Rightarrow> bool \<times> bignum" where
  "BN_rshift m r a n =
     (if n < 0 then (False, r)
      else
        case bn_wexpand m r (bn_width a) of
          (ok, r) \<Rightarrow>
            if \<not> ok then (False, r)
            else
              (True, bn_set_minimal_width (r\<lparr>bn_d := bn_rshift_words (bn_d a) (nat n) (bn_width a) @ drop (bn_width a) (bn_d r),
                 bn_neg := bn_neg a, bn_width := bn_width a\<rparr>)))"

text \<open>The rounds of the shift by a secret number of bits; \<open>n\<close> is an \<open>unsigned\<close>.\<close>

definition secret_shift_step :: "nat \<Rightarrow> nat \<Rightarrow> nat \<Rightarrow> limb list \<Rightarrow> limb list" where
  "secret_shift_step n width i d =
     (let mask' = (0 :: limb) - word_of_nat (drop_bit i n AND 1)
      in bn_select_words mask' (bn_rshift_words d (push_bit i 1) width) d width @ drop width d)"

function secret_shift_loop :: "nat \<Rightarrow> nat \<Rightarrow> nat \<Rightarrow> nat \<Rightarrow> limb list \<Rightarrow> limb list" where
  "secret_shift_loop max_bits n width i d =
     (if drop_bit i max_bits \<noteq> 0 then secret_shift_loop max_bits n width (i + 1) (secret_shift_step n width i d) else d)"
  by pat_completeness auto
termination
proof (relation "measure (\<lambda>(max_bits, n, width, i, d). drop_bit i max_bits)")
  fix max_bits n width i :: nat and d
  assume "drop_bit i max_bits \<noteq> 0"
  then show "((max_bits, n, width, i + 1, secret_shift_step n width i d), max_bits, n, width, i, d)
      \<in> measure (\<lambda>(max_bits, n, width, i, d). drop_bit i max_bits)"
    by (simp add: drop_bit_Suc drop_bit_half)
qed simp

declare secret_shift_loop.simps [simp del]

text \<open>\<open>tmp\<close> is the object that the context gives, or \<open>None\<close>.\<close>

definition bn_rshift_secret_shift :: "allocator \<Rightarrow> bignum option \<Rightarrow> bignum \<Rightarrow> bignum \<Rightarrow> nat \<Rightarrow> bool \<times> bignum" where
  "bn_rshift_secret_shift m tmp r a n =
     (case tmp of
        None \<Rightarrow> (False, r)
      | Some tmp \<Rightarrow>
          (case BN_copy m r a of
             (ok, r) \<Rightarrow>
               if \<not> ok then (False, r)
               else if \<not> fst (bn_wexpand m tmp (bn_width r)) then (False, r)
               else (True, r\<lparr>bn_d := secret_shift_loop (BN_BITS2 * bn_width r) n (bn_width r) 0 (bn_d r)\<rparr>)))"

definition bn_rshift1_words :: "limb list \<Rightarrow> nat \<Rightarrow> limb list" where
  "bn_rshift1_words a num =
     (if num = 0 then []
      else map (\<lambda>i. drop_bit 1 (a ! i) OR push_bit (BN_BITS2 - 1) (a ! (i + 1))) [0..<num - 1] @ [drop_bit 1 (a ! (num - 1))])"

definition BN_rshift1 :: "allocator \<Rightarrow> bignum \<Rightarrow> bignum \<Rightarrow> bool \<times> bignum" where
  "BN_rshift1 m r a =
     (case bn_wexpand m r (bn_width a) of
        (ok, r) \<Rightarrow>
          if \<not> ok then (False, r)
          else
            (True, bn_set_minimal_width (r\<lparr>bn_d := bn_rshift1_words (bn_d a) (bn_width a) @ drop (bn_width a) (bn_d r),
               bn_width := bn_width a, bn_neg := bn_neg a\<rparr>)))"

definition BN_set_bit :: "allocator \<Rightarrow> bignum \<Rightarrow> int \<Rightarrow> bool \<times> bignum" where
  "BN_set_bit m a n =
     (if n < 0 then (False, a)
      else
        let i = nat n div BN_BITS2; j = nat n mod BN_BITS2;
            (ok, a) = (if bn_width a \<le> i then
                         (case bn_wexpand m a (i + 1) of
                            (ok, a) \<Rightarrow>
                              if \<not> ok then (False, a)
                              else
                                (True, a\<lparr>bn_d := take (bn_width a) (bn_d a) @ replicate (i + 1 - bn_width a) 0 @ drop (i + 1) (bn_d a),
                                   bn_width := i + 1\<rparr>))
                       else (True, a))
        in if \<not> ok then (False, a) else (True, a\<lparr>bn_d := (bn_d a)[i := bn_d a ! i OR push_bit j 1]\<rparr>))"

definition BN_clear_bit :: "bignum \<Rightarrow> int \<Rightarrow> bool \<times> bignum" where
  "BN_clear_bit a n =
     (if n < 0 then (False, a)
      else
        let i = nat n div BN_BITS2; j = nat n mod BN_BITS2 in
        if bn_width a \<le> i then (False, a)
        else (True, bn_set_minimal_width (a\<lparr>bn_d := (bn_d a)[i := bn_d a ! i AND NOT (push_bit j 1)]\<rparr>)))"

definition bn_is_bit_set_words :: "limb list \<Rightarrow> nat \<Rightarrow> nat \<Rightarrow> bool" where
  "bn_is_bit_set_words a num b =
     (let i = b div BN_BITS2; j = b mod BN_BITS2 in if num \<le> i then False else drop_bit j (a ! i) AND 1 \<noteq> 0)"

definition BN_is_bit_set :: "bignum \<Rightarrow> int \<Rightarrow> bool" where
  "BN_is_bit_set a n = (if n < 0 then False else bn_is_bit_set_words (bn_d a) (bn_width a) (nat n))"

definition BN_mask_bits :: "bignum \<Rightarrow> int \<Rightarrow> bool \<times> bignum" where
  "BN_mask_bits a n =
     (if n < 0 then (False, a)
      else
        let w = nat n div BN_BITS2; b = nat n mod BN_BITS2 in
        if bn_width a \<le> w then (True, a)
        else
          let a = (if b = 0 then a\<lparr>bn_width := w\<rparr>
                   else a\<lparr>bn_width := w + 1, bn_d := (bn_d a)[w := bn_d a ! w AND NOT (push_bit b (-1))]\<rparr>)
          in (True, bn_set_minimal_width a))"

text \<open>One of the blocks of the count: the low \<open>k\<close> bits are counted when they are all zero.\<close>

definition low_zero_block :: "nat \<Rightarrow> nat \<times> limb \<Rightarrow> nat \<times> limb" where
  "low_zero_block k =
     (\<lambda>(bits, l).
        let mask' = constant_time_is_zero_w (push_bit (BN_BITS2 - k) l)
        in (bits + unat (word_of_nat k AND mask'), constant_time_select_w mask' (drop_bit k l) l))"

definition bn_count_low_zero_bits_word :: "limb \<Rightarrow> nat" where
  "bn_count_low_zero_bits_word l = fst (fold low_zero_block [32, 16, 8, 4, 2, 1] (0, l))"

definition BN_count_low_zero_bits :: "bignum \<Rightarrow> nat" where
  "BN_count_low_zero_bits bn =
     unat (fst (foldl (\<lambda>(ret :: limb, saw_nonzero :: limb) i.
         let nonzero = NOT (constant_time_is_zero_w (bn_d bn ! i));
             first_nonzero = NOT saw_nonzero AND nonzero;
             bits = bn_count_low_zero_bits_word (bn_d bn ! i)
         in (ret OR (first_nonzero AND word_of_nat (i * BN_BITS2 + bits)), saw_nonzero OR nonzero)) (0, 0) [0..<bn_width bn]))"

section \<open>Bits of a number in limbs\<close>

lemma bit_wval: "b < 64 \<Longrightarrow> bit (wval ws) (64 * j + b) \<longleftrightarrow> j < length ws \<and> bit (ws ! j) b"
proof (induction ws arbitrary: j)
  case (Cons w ws)
  have w: "unat w < 2 ^ 64" using limb_less [of w] by (simp only: BN_BASE_def)
  have e: "wval (w # ws) = unat w OR push_bit 64 (wval ws)"
  proof -
    have "unat w AND push_bit 64 (wval ws) = 0"
      using w by (intro bit_eqI) (auto simp: bit_and_iff bit_push_bit_iff bit_unsigned_iff dest: bit_imp_le_length)
    then show ?thesis by (simp add: disjunctive_add_eq_or [symmetric] push_bit_eq_mult BN_BASE_def mult.commute)
  qed
  show ?case
  proof (cases j)
    case 0
    then show ?thesis using Cons.prems unfolding e by (simp add: bit_or_iff bit_push_bit_iff bit_unsigned_iff)
  next
    case (Suc k)
    have "bit (wval (w # ws)) (64 * j + b) \<longleftrightarrow> bit (wval ws) (64 * k + b)"
      using Suc unfolding e by (auto simp: bit_or_iff bit_push_bit_iff bit_unsigned_iff algebra_simps dest: bit_imp_le_length)
    then show ?thesis using Cons.IH [OF Cons.prems, of k] Suc by simp
  qed
qed simp

lemma bit_wval': "bit (wval ws) n \<longleftrightarrow> n div 64 < length ws \<and> bit (ws ! (n div 64)) (n mod 64)"
  using bit_wval [of "n mod 64" ws "n div 64"] by simp

lemma wval_eqI:
  assumes "\<And>j b. b < 64 \<Longrightarrow> (j < length ws \<and> bit (ws ! j) b) \<longleftrightarrow> bit v (64 * j + b)"
  shows "wval ws = v"
proof (rule bit_eqI)
  fix n
  show "bit (wval ws) n = bit v n" using assms [of "n mod 64" "n div 64"] by (simp add: bit_wval')
qed

lemma bit_push_wval:
  assumes "b < 64" "lb < 64"
  shows "bit (push_bit (64 * nw + lb) (wval ws)) (64 * j + b) \<longleftrightarrow>
    (if lb \<le> b then nw \<le> j \<and> j - nw < length ws \<and> bit (ws ! (j - nw)) (b - lb)
     else nw < j \<and> j - nw - 1 < length ws \<and> bit (ws ! (j - nw - 1)) (b + 64 - lb))"
proof (cases "lb \<le> b")
  case True
  show ?thesis
  proof (cases "nw \<le> j")
    case T: True
    then have e: "64 * j + b - (64 * nw + lb) = 64 * (j - nw) + (b - lb)" "64 * nw + lb \<le> 64 * j + b" using True by (simp_all add: diff_mult_distrib2)
    have "b - lb < 64" using assms by simp
    from bit_wval [OF this, of ws "j - nw"] show ?thesis using e True T by (simp add: bit_push_bit_iff del: diff_diff_left)
  next
    case False
    then have "64 * (j + 1) \<le> 64 * nw" by simp
    then show ?thesis using False True assms by (simp add: bit_push_bit_iff)
  qed
next
  case False
  show ?thesis
  proof (cases "nw < j")
    case T: True
    then obtain k where k: "j = nw + Suc k" using less_imp_Suc_add by fastforce
    have e: "64 * j + b - (64 * nw + lb) = 64 * k + (b + 64 - lb)" using False assms k by simp
    have "b + 64 - lb < 64" using False by simp
    from bit_wval [OF this, of ws k] show ?thesis using e False k assms by (simp add: bit_push_bit_iff)
  next
    case F: False
    then have "64 * j \<le> 64 * nw" by simp
    then show ?thesis using F False by (simp add: bit_push_bit_iff)
  qed
qed

lemma bit_drop_wval:
  assumes "b < 64" "sb < 64"
  shows "bit (drop_bit (64 * nw + sb) (wval ws)) (64 * j + b) \<longleftrightarrow>
    (if b + sb < 64 then j + nw < length ws \<and> bit (ws ! (j + nw)) (b + sb)
     else j + nw + 1 < length ws \<and> bit (ws ! (j + nw + 1)) (b + sb - 64))"
proof (cases "b + sb < 64")
  case True
  have "64 * nw + sb + (64 * j + b) = 64 * (j + nw) + (b + sb)" by simp
  then show ?thesis using bit_wval [OF True, of ws "j + nw"] True by (simp only: bit_drop_bit_eq comp_def if_True)
next
  case False
  then have "64 * nw + sb + (64 * j + b) = 64 * (j + nw + 1) + (b + sb - 64)" "b + sb - 64 < 64" using assms by simp_all
  then show ?thesis using bit_wval [of "b + sb - 64" ws "j + nw + 1"] False by (simp only: bit_drop_bit_eq comp_def if_False)
qed

section \<open>Left shifts\<close>

lemma length_lshift_loop [simp]: "length (lshift_loop f nw lb i t) = length t"
  by (induction f nw lb i t rule: lshift_loop.induct) (simp_all add: Let_def)

lemma length_move_loop [simp]: "length (move_loop f nw i t) = length t"
  by (induction f nw i t rule: move_loop.induct) simp_all

lemma move_loop_nth: "nw + i \<le> length t \<Longrightarrow> j < length t \<Longrightarrow> move_loop f nw i t ! j = (if nw \<le> j \<and> j < nw + i then f ! (j - nw) else t ! j)"
  by (induction f nw i t rule: move_loop.induct) (auto simp: nth_list_update less_Suc_eq)

lemma lshift_loop_nth:
  assumes "nw + i < length t" "j < length t"
  shows "lshift_loop f nw lb i t ! j =
    (if nw \<le> j \<and> j < nw + i then push_bit lb (f ! (j - nw)) OR (if nw < j then drop_bit (BN_BITS2 - lb) (f ! (j - nw - 1)) else 0)
     else if j = nw + i \<and> 0 < i then t ! j OR drop_bit (BN_BITS2 - lb) (f ! (i - 1)) else t ! j)"
  using assms
proof (induction f nw lb i t arbitrary: j rule: lshift_loop.induct)
  case (2 f nw lb i t)
  define t' where "t' = t[nw + i + 1 := t ! (nw + i + 1) OR drop_bit (BN_BITS2 - lb) (f ! i), nw + i := push_bit lb (f ! i)]"
  have l: "nw + i < length t'" "j < length t'" using 2 by (simp_all add: t'_def)
  have e: "lshift_loop f nw lb (Suc i) t = lshift_loop f nw lb i t'" by (simp add: t'_def Let_def)
  have IH: "lshift_loop f nw lb i t' ! j =
    (if nw \<le> j \<and> j < nw + i then push_bit lb (f ! (j - nw)) OR (if nw < j then drop_bit (BN_BITS2 - lb) (f ! (j - nw - 1)) else 0)
     else if j = nw + i \<and> 0 < i then t' ! j OR drop_bit (BN_BITS2 - lb) (f ! (i - 1)) else t' ! j)"
    using 2(1) [OF refl refl refl, where j = j] l unfolding t'_def by simp
  consider "j < nw \<or> nw + i + 1 < j" | "nw \<le> j" "j < nw + i" | "j = nw + i" | "j = nw + i + 1" by linarith
  then show ?case
  proof cases
    case 1
    then show ?thesis unfolding e IH by (auto simp: t'_def nth_list_update)
  next
    case 2
    then show ?thesis unfolding e IH by auto
  next
    case 3
    then have "t' ! j = push_bit lb (f ! i)" using l by (simp add: t'_def)
    then show ?thesis using 3 unfolding e IH by auto
  next
    case 4
    then have "t' ! j = t ! j OR drop_bit (BN_BITS2 - lb) (f ! i)" using "2.prems" by (simp add: t'_def nth_list_update)
    then show ?thesis using 4 unfolding e IH by auto
  qed
qed auto

lemma BN_lshift_spec:
  assumes r: "bn_ok r" and a: "bn_ok a" and e: "BN_lshift m r a (int n) = (ok, r')"
  shows "if ok then bn_ok r' \<and> bn_val r' = bn_val a * 2 ^ n \<and> bn_signed r' else bn_limbs r' = bn_limbs r \<and> bn_full m r (bn_width a + n div 64 + 1)"
proof -
  define r0 where "r0 = r\<lparr>bn_neg := bn_neg a\<rparr>"
  have r0: "bn_ok r0" "bn_limbs r0 = bn_limbs r" "\<And>k. bn_full m r0 k = bn_full m r k"
    using bn_set_neg [OF r, of "bn_neg a"] by (simp_all add: r0_def bn_full_def bn_static_def)
  define nw lb w f where "nw = n div 64" and "lb = n mod 64" and "w = bn_width a" and "f = bn_d a"
  have n: "n = 64 * nw + lb" "lb < 64" by (simp_all add: nw_def lb_def)
  note e' = e [unfolded BN_lshift_def r0_def [symmetric] BN_BITS2_def Let_def nat_int nw_def [symmetric] lb_def [symmetric]
    w_def [symmetric] f_def [symmetric], simplified]
  show ?thesis
  proof (cases rule: bn_wexpand_cases [OF r0(1), of m "w + nw + 1", case_names expanded full])
    case (expanded d)
    let ?t = "(bn_d d)[w + nw := 0]"
    define t where "t = (if lb = 0 then move_loop f nw w ?t else lshift_loop f nw lb w ?t)"
    define r1 where "r1 = d\<lparr>bn_d := replicate nw 0 @ drop nw t, bn_width := w + nw + 1\<rparr>"
    have ok: "ok" "r' = bn_set_minimal_width r1"
      using e' expanded(1) by (simp_all add: r1_def t_def)
    have len: "length t = length (bn_d d)" "w + nw < length t" using expanded(4) by (simp_all add: t_def)
    have wf: "w \<le> length f" using a by (simp add: w_def f_def bn_ok_def)
    have r1: "bn_ok r1" "bn_neg r1 = bn_neg a" "bn_limbs r1 = take (w + nw + 1) (replicate nw 0 @ drop nw t)"
      using expanded(2,3,7) len by (simp_all add: r1_def bn_ok_def bn_limbs_def r0_def)
    have nth: "bn_limbs r1 ! j = (if j < nw then 0 else t ! j)" if "j < w + nw + 1" for j
      using that len r1(3) by (auto simp: nth_append)
    have lr: "length (bn_limbs r1) = w + nw + 1" using len r1(3) by simp
    have t: "t ! j = (if j < nw + w then push_bit lb (f ! (j - nw)) else 0) OR
        (if lb \<noteq> 0 \<and> nw < j then drop_bit (64 - lb) (f ! (j - nw - 1)) else 0)" if "nw \<le> j" "j < w + nw + 1" for j
    proof (cases "lb = 0")
      case True
      then show ?thesis using that len move_loop_nth [of nw w ?t j f] by (auto simp: t_def nth_list_update)
    next
      case False
      have "j < nw + w \<or> j = nw + w" using that by linarith
      then show ?thesis
        using False that len lshift_loop_nth [of nw w ?t j f lb] by (cases w) (auto simp: t_def nth_list_update BN_BITS2_def)
    qed
    have "wval (bn_limbs r1) = push_bit n (wval (bn_limbs a))"
    proof (rule wval_eqI)
      fix j b :: nat assume b: "b < 64"
      have la: "length (bn_limbs a) = w" using length_bn_limbs [OF a] by (simp add: w_def)
      have fa: "bn_limbs a ! i = f ! i" if "i < w" for i using that by (simp add: bn_limbs_def f_def w_def)
      show "(j < length (bn_limbs r1) \<and> bit (bn_limbs r1 ! j) b) \<longleftrightarrow> bit (push_bit n (wval (bn_limbs a))) (64 * j + b)"
      proof (cases "nw \<le> j \<and> j < w + nw + 1")
        case True
        have "bit (t ! j) b \<longleftrightarrow> (if lb \<le> b then j - nw < w \<and> bit (f ! (j - nw)) (b - lb)
            else nw < j \<and> j - nw - 1 < w \<and> bit (f ! (j - nw - 1)) (b + 64 - lb))"
          using True b n(2) t [of j]
          by (auto simp: bit_or_iff bit_push_bit_iff bit_drop_bit_eq algebra_simps dest: bit_imp_le_length)
        then show ?thesis
          unfolding n(1) bit_push_wval [OF b n(2)] la using True nth [of j] lr fa by auto
      next
        case False
        then have "j < nw \<or> w + nw + 1 \<le> j" by auto
        then show ?thesis unfolding n(1) bit_push_wval [OF b n(2)] la using nth [of j] lr by auto
      qed
    qed
    then have "bn_abs r1 = bn_abs a * 2 ^ n" by (simp add: bn_abs_def push_bit_eq_mult)
    then have "bn_val r1 = bn_val a * 2 ^ n" using r1(2) by (simp add: bn_val_def)
    then show ?thesis using ok bn_set_minimal_width_spec [OF r1(1)] by simp
  next
    case full
    then show ?thesis using e' r0 by (simp add: w_def nw_def)
  qed
qed


lemma lshift1_loop_spec:
  "unat c \<le> 1 \<Longrightarrow> \<exists>rs c'. lshift1_loop c ts = (rs, c') \<and> length rs = length ts \<and>
    wval rs + BN_BASE ^ length ts * unat c' = 2 * wval ts + unat c \<and> unat c' \<le> 1"
proof (induction c ts rule: lshift1_loop.induct)
  case (2 c t ts)
  define c1 where "c1 = drop_bit (BN_BITS2 - 1) t"
  have u: "unat c1 = unat t div 2 ^ 63" by (simp add: c1_def unat_drop_bit BN_BITS2_def)
  have "unat t < 2 ^ 64" using limb_less [of t] by (simp only: BN_BASE_def)
  then have c1: "unat c1 \<le> 1" unfolding u by (simp add: div_le_mono less_Suc_eq_le [symmetric] div_less_iff_less_mult)
  obtain rs c' where r: "lshift1_loop c1 ts = (rs, c')" "length rs = length ts"
    "wval rs + BN_BASE ^ length ts * unat c' = 2 * wval ts + unat c1" "unat c' \<le> 1"
    using 2(1) c1 unfolding c1_def by blast
  have "unat (push_bit 1 t OR c) + BN_BASE * unat c1 = 2 * unat t + unat c"
  proof -
    have "push_bit 1 t AND c = 0"
    proof -
      have "c = 0 \<or> c = 1" using 2(2) by (auto simp: le_Suc_eq word_unat_eq_iff)
      moreover have "even (push_bit 1 t)" by (simp add: push_bit_eq_mult)
      then have "push_bit 1 t AND 1 = 0" by (simp only: and_one_eq even_iff_mod_2_eq_zero)
      ultimately show ?thesis by auto
    qed
    then have "push_bit 1 t OR c = push_bit 1 t + c" by (simp add: disjunctive_add_eq_or)
    moreover have p: "unat (push_bit 1 t) = (2 * unat t) mod BN_BASE"
      by (simp add: push_bit_eq_mult unat_limb_arith mult.commute)
    moreover have "2 * unat t = (2 * unat t) mod BN_BASE + BN_BASE * unat c1"
    proof -
      have "2 * unat t div BN_BASE = unat t div 2 ^ 63" by (simp add: BN_BASE_def)
      then show ?thesis unfolding u by (metis mod_mult_div_eq)
    qed
    moreover have "(2 * unat t) mod BN_BASE + unat c < BN_BASE"
    proof -
      have "even ((2 * unat t) mod BN_BASE)" "even BN_BASE" "(2 * unat t) mod BN_BASE < BN_BASE"
        by (simp_all add: BN_BASE_def dvd_mod)
      then have "(2 * unat t) mod BN_BASE + 1 < BN_BASE" by (metis Suc_eq_plus1 Suc_lessI even_Suc)
      then show ?thesis using 2(2) by linarith
    qed
    ultimately show ?thesis by (simp add: unat_limb_arith)
  qed
  then have "unat (push_bit 1 t OR c) + BN_BASE * (wval rs + BN_BASE ^ length ts * unat c') = 2 * (unat t + BN_BASE * wval ts) + unat c"
    unfolding r(3) by (simp add: algebra_simps)
  then show ?case using r(1,2,4) by (simp add: Let_def c1_def algebra_simps)
qed auto

lemma BN_lshift1_spec:
  assumes r: "bn_ok r" and a: "bn_ok a" and e: "BN_lshift1 m r a = (ok, r')"
  shows "if ok then bn_ok r' \<and> bn_val r' = 2 * bn_val a \<and> (bn_signed a \<longrightarrow> bn_signed r')
    else bn_limbs r' = bn_limbs r \<and> bn_full m r (bn_width a + 1)"
proof -
  define r0 where "r0 = r\<lparr>bn_neg := bn_neg a\<rparr>"
  have r0: "bn_ok r0" "bn_limbs r0 = bn_limbs r" "\<And>k. bn_full m r0 k = bn_full m r k" "bn_neg r0 = bn_neg a"
    using bn_set_neg [OF r, of "bn_neg a"] by (simp_all add: r0_def bn_full_def bn_static_def)
  define w where "w = bn_width a"
  show ?thesis
  proof (cases rule: bn_wexpand_cases [OF r0(1), of m "w + 1", case_names expanded full])
    case (expanded d)
    obtain rs c where l: "lshift1_loop 0 (bn_limbs a) = (rs, c)" "length rs = w"
      "wval rs + BN_BASE ^ w * unat c = 2 * wval (bn_limbs a)" "unat c \<le> 1"
      using lshift1_loop_spec [of 0 "bn_limbs a"] length_bn_limbs [OF a] by (auto simp: w_def)
    define r1 where "r1 = d\<lparr>bn_width := w, bn_d := rs @ drop w (bn_d d)\<rparr>"
    define r2 where "r2 = r1\<lparr>bn_d := (bn_d r1)[w := 1], bn_width := w + 1\<rparr>"
    have "BN_lshift1 m r a = (True, if c \<noteq> 0 then r2 else r1)"
      using expanded(1) l(1) by (simp add: BN_lshift1_def Let_def r0_def [symmetric] w_def [symmetric] bn_limbs_def r1_def r2_def)
    then have e': "ok" "r' = (if c \<noteq> 0 then r2 else r1)" using e by simp_all
    have r1: "bn_ok r1" "bn_abs r1 = wval rs" "bn_neg r1 = bn_neg a"
      using store_limbs [OF expanded(2), of rs r1] expanded(2-4,7) l(2) r0(4) by (simp_all add: r1_def bn_ok_def)
    have "drop w (bn_d d) \<noteq> []" using expanded(4) by simp
    then obtain y ys where y: "drop w (bn_d d) = y # ys" by (cases "drop w (bn_d d)") auto
    then have "bn_d r2 = rs @ 1 # ys" using l(2) by (simp add: r2_def r1_def list_update_append)
    moreover have "Suc (w + length ys) = bn_dmax d" using arg_cong [OF y, of length] expanded(2,4) by (simp add: bn_ok_def)
    ultimately have r2: "bn_ok r2" "bn_abs r2 = wval (rs @ [1])" "bn_neg r2 = bn_neg a"
      using store_limbs [OF expanded(2), of "rs @ [1]" r2] expanded(2-4,7) l(2) r0(4) r1(1) by (simp_all add: r2_def r1_def bn_ok_def)
    show ?thesis
    proof (cases "c = 0")
      case True
      then have "bn_abs r' = 2 * bn_abs a" "bn_neg r' = bn_neg a" "bn_ok r'" using e' r1 l(3) by (simp_all add: bn_abs_def)
      then show ?thesis using e'(1) by (simp add: bn_val_def bn_signed_def)
    next
      case False
      then have "unat c = 1" using l(4) by (metis One_nat_def le_SucE le_zero_eq unsigned_eq_0_iff)
      then have "bn_abs r' = 2 * bn_abs a" "bn_neg r' = bn_neg a" "bn_ok r'"
        using False e' r2 l(2,3) by (simp_all add: bn_abs_def wval_snoc)
      then show ?thesis using e'(1) by (simp add: bn_val_def bn_signed_def)
    qed
  next
    case full
    then show ?thesis using e r0 by (simp add: BN_lshift1_def Let_def r0_def [symmetric] w_def)
  qed
qed

section \<open>Right shifts\<close>

lemma length_bn_rshift_words [simp]: "num \<le> length a \<Longrightarrow> length (bn_rshift_words a shift num) = num"
  by (auto simp: bn_rshift_words_def Let_def)

lemma bn_rshift_words_nth:
  assumes "num \<le> length a" "shift div 64 + j < num"
  shows "bn_rshift_words a shift num ! j = drop_bit (shift mod 64) (a ! (j + shift div 64)) OR
    (if shift mod 64 \<noteq> 0 \<and> j + shift div 64 + 1 < num then push_bit (64 - shift mod 64) (a ! (j + shift div 64 + 1)) else 0)"
proof -
  define nw sb where "nw = shift div 64" and "sb = shift mod 64"
  have j: "nw + j < num" "j < num - nw" using assms by (auto simp: nw_def)
  show ?thesis
  proof (cases "sb = 0")
    case True
    then show ?thesis using j assms(1) by (simp add: bn_rshift_words_def Let_def BN_BITS2_def flip: nw_def sb_def) (simp add: nth_append add.commute)
  next
    case False
    let ?hd = "map (\<lambda>i. drop_bit sb (a ! i) OR push_bit (64 - sb) (a ! (i + 1))) [nw..<num - 1]"
    have e: "bn_rshift_words a shift num = (?hd @ [drop_bit sb (a ! (num - 1))]) @ replicate nw 0"
      using False j by (simp add: bn_rshift_words_def Let_def BN_BITS2_def flip: nw_def sb_def)
    have len: "length ?hd = num - 1 - nw" by simp
    show ?thesis
    proof (cases "nw + j < num - 1")
      case True
      moreover have "j < num - 1 - nw" "j + nw + 1 < num" using True by linarith+
      ultimately show ?thesis using False unfolding e by (simp add: nth_append add.commute flip: nw_def sb_def)
    next
      case F: False
      then have "j = num - 1 - nw" using j by linarith
      then show ?thesis using False j(1) F unfolding e by (simp add: nth_append add.commute flip: nw_def sb_def)
    qed
  qed
qed

lemma bn_rshift_words_zero:
  assumes "num \<le> length a" "num \<le> shift div 64 + j" "j < num"
  shows "bn_rshift_words a shift num ! j = 0"
proof -
  define nw sb where "nw = shift div 64" and "sb = shift mod 64"
  show ?thesis
  proof (cases "num \<le> nw")
    case True
    then show ?thesis using assms(3) by (simp add: bn_rshift_words_def Let_def BN_BITS2_def flip: nw_def)
  next
    case False
    define hd' where "hd' = (if sb = 0 then take (num - nw) (drop nw a)
      else map (\<lambda>i. drop_bit sb (a ! i) OR push_bit (64 - sb) (a ! (i + 1))) [nw..<num - 1] @ [drop_bit sb (a ! (num - 1))])"
    have "bn_rshift_words a shift num = hd' @ replicate nw 0"
      using False by (simp add: bn_rshift_words_def Let_def BN_BITS2_def hd'_def flip: nw_def sb_def)
    moreover have "length hd' = num - nw" using False assms(1) by (auto simp: hd'_def)
    moreover have "\<not> j < num - nw" using assms(2) unfolding nw_def by linarith
    ultimately show ?thesis using assms(3) False by (simp add: nth_append)
  qed
qed

lemma bn_rshift_words_spec:
  assumes "num \<le> length a"
  shows "wval (bn_rshift_words a shift num) = wval (take num a) div 2 ^ shift"
proof -
  define nw sb where "nw = shift div 64" and "sb = shift mod 64"
  have n: "shift = 64 * nw + sb" "sb < 64" by (simp_all add: nw_def sb_def)
  have "wval (bn_rshift_words a shift num) = drop_bit shift (wval (take num a))"
  proof (rule wval_eqI)
    fix j b :: nat assume b: "b < 64"
    have lr: "length (bn_rshift_words a shift num) = num" using assms by simp
    note d = bit_drop_wval [OF b n(2), of nw "take num a" j, folded n(1)]
    show "(j < length (bn_rshift_words a shift num) \<and> bit (bn_rshift_words a shift num ! j) b) \<longleftrightarrow>
        bit (drop_bit shift (wval (take num a))) (64 * j + b)"
    proof (cases "nw + j < num")
      case True
      have "bit (bn_rshift_words a shift num ! j) b \<longleftrightarrow>
          (if b + sb < 64 then bit (a ! (j + nw)) (b + sb) else j + nw + 1 < num \<and> bit (a ! (j + nw + 1)) (b + sb - 64))"
        using bn_rshift_words_nth [OF assms, of shift j] True b n(2)
        by (auto simp: bit_or_iff bit_push_bit_iff bit_drop_bit_eq algebra_simps simp flip: nw_def sb_def dest: bit_imp_le_length)
      then show ?thesis
        unfolding d using True assms lr by auto
    next
      case False
      then have "j < num \<Longrightarrow> bn_rshift_words a shift num ! j = 0"
        using bn_rshift_words_zero [OF assms, of shift j] by (simp add: nw_def)
      then show ?thesis
        unfolding d using False lr by auto
    qed
  qed
  then show ?thesis by (simp add: drop_bit_eq_div)
qed

lemma shifted_width:
  assumes ok: "bn_ok d" and w: "w \<le> bn_dmax d" and ws: "length ws = w"
    and r: "r = bn_set_minimal_width (d\<lparr>bn_d := ws @ drop w (bn_d d), bn_neg := s, bn_width := w\<rparr>)"
  shows "bn_ok r" "bn_val r = (if s then - int (wval ws) else int (wval ws))" "bn_signed r"
proof -
  let ?d = "d\<lparr>bn_d := ws @ drop w (bn_d d), bn_neg := s, bn_width := w\<rparr>"
  have d: "bn_ok ?d" "bn_abs ?d = wval ws"
    using store_limbs [OF ok, of ws ?d] ok w ws by (simp_all add: bn_ok_def)
  have "bn_val ?d = (if s then - int (wval ws) else int (wval ws))" unfolding bn_val_def d(2) by simp
  then show "bn_ok r" "bn_val r = (if s then - int (wval ws) else int (wval ws))" "bn_signed r"
    using bn_set_minimal_width_spec [OF d(1)] unfolding r by simp_all
qed

lemma BN_rshift_spec:
  assumes r: "bn_ok r" and a: "bn_ok a" and e: "BN_rshift m r a (int n) = (ok, r')"
  shows "if ok then bn_ok r' \<and> bn_val r' = sgn (bn_val a) * (\<bar>bn_val a\<bar> div 2 ^ n) \<and> bn_signed r' else r' = r \<and> bn_full m r (bn_width a)"
proof (cases rule: bn_wexpand_cases [OF r, of m "bn_width a", case_names expanded full])
  case (expanded d)
  let ?ws = "bn_rshift_words (bn_d a) n (bn_width a)"
  have l: "bn_width a \<le> length (bn_d a)" using a by (simp add: bn_ok_def)
  have e': "ok" "r' = bn_set_minimal_width (d\<lparr>bn_d := ?ws @ drop (bn_width a) (bn_d d), bn_neg := bn_neg a, bn_width := bn_width a\<rparr>)"
    using e expanded(1) by (simp_all add: BN_rshift_def)
  have "wval ?ws = bn_abs a div 2 ^ n" using bn_rshift_words_spec [OF l, of n] by (simp add: bn_abs_def bn_limbs_def)
  then show ?thesis
    using shifted_width [OF expanded(2,3) _ e'(2)] e'(1) l
    by (cases "bn_abs a = 0") (auto simp: bn_val_def zdiv_int)
next
  case full
  then show ?thesis using e by (simp add: BN_rshift_def)
qed

lemma bn_rshift1_words_eq: "num \<le> length a \<Longrightarrow> bn_rshift1_words a num = bn_rshift_words a 1 num"
  by (simp add: bn_rshift1_words_def bn_rshift_words_def BN_BITS2_def)

lemma BN_rshift1_eq: "bn_ok a \<Longrightarrow> BN_rshift1 m r a = BN_rshift m r a 1"
  by (auto simp: BN_rshift1_def BN_rshift_def bn_rshift1_words_eq bn_ok_def split: prod.splits)
    (metis (no_types, lifting) bignum.surjective bignum.update_convs)+


section \<open>Shift by a secret number of bits\<close>

lemma secret_shift_step_spec:
  assumes "w \<le> length d"
  shows "length (secret_shift_step n w i d) = length d"
    "wval (take w (secret_shift_step n w i d)) = wval (take w d) div 2 ^ (if odd (n div 2 ^ i) then 2 ^ i else 0)"
proof -
  let ?s = "bn_rshift_words d (push_bit i 1) w"
  have "(0 :: limb) - word_of_nat (drop_bit i n AND 1) = ct_mask (odd (n div 2 ^ i))"
    by (simp add: ct_mask_def and_one_eq drop_bit_eq_div mod_2_eq_odd)
  moreover have "length ?s = w" using assms by simp
  ultimately have e: "secret_shift_step n w i d = (if odd (n div 2 ^ i) then ?s else take w d) @ drop w d"
    using assms by (simp add: secret_shift_step_def bn_select_words_spec)
  then show "length (secret_shift_step n w i d) = length d" using assms by simp
  show "wval (take w (secret_shift_step n w i d)) = wval (take w d) div 2 ^ (if odd (n div 2 ^ i) then 2 ^ i else 0)"
    using assms \<open>length ?s = w\<close> bn_rshift_words_spec [OF assms, of "push_bit i 1"] by (simp add: e push_bit_eq_mult)
qed

lemma secret_shift_loop_spec:
  assumes "w \<le> length d"
  shows "length (secret_shift_loop k n w i d) = length d \<and>
    wval (take w (secret_shift_loop k n w i d)) = wval (take w d) div 2 ^ (2 ^ i * (n div 2 ^ i mod 2 ^ (num_bits k - i)))"
  using assms
proof (induction k n w i d rule: secret_shift_loop.induct)
  case (1 k n w i d)
  have c: "drop_bit i k \<noteq> 0 \<longleftrightarrow> i < num_bits k"
    using num_bits_le [of k i] by (simp add: drop_bit_eq_div div_eq_0_iff not_less [symmetric]) linarith
  show ?case
  proof (cases "i < num_bits k")
    case True
    note s = secret_shift_step_spec [OF 1(2), of n i]
    obtain j where j: "num_bits k - i = Suc j" "num_bits k - (i + 1) = j" using True by (cases "num_bits k - i") auto
    let ?x = "n div 2 ^ i"
    have "?x mod 2 ^ Suc j = 2 * (?x div 2 mod 2 ^ j) + ?x mod 2" using mod_mult2_eq [of ?x 2 "2 ^ j"] by simp
    moreover have "?x div 2 = n div 2 ^ (i + 1)" unfolding power_add div_mult2_eq by simp
    ultimately have "2 ^ i * (?x mod 2 ^ Suc j) = (if odd ?x then 2 ^ i else 0) + 2 ^ (i + 1) * (n div 2 ^ (i + 1) mod 2 ^ j)"
      by (simp add: mod_2_eq_odd algebra_simps)
    then have e: "wval (take w d) div 2 ^ (2 ^ i * (?x mod 2 ^ Suc j)) =
        wval (take w d) div 2 ^ (if odd ?x then 2 ^ i else 0) div 2 ^ (2 ^ (i + 1) * (n div 2 ^ (i + 1) mod 2 ^ j))"
      by (simp only: power_add div_mult2_eq)
    have "drop_bit i k \<noteq> 0" using c True by simp
    from 1(1) [OF this] s 1(2) show ?thesis
      using c True j e by (simp add: secret_shift_loop.simps [of k n w i d])
  next
    case False
    then show ?thesis using c by (simp add: secret_shift_loop.simps [of k n w i d])
  qed
qed

text \<open>The shift is by the low bits of \<open>n\<close> only, as many as the number of bits of the number \<open>64 * width\<close> has.\<close>

lemma bn_rshift_secret_shift_spec:
  assumes r: "bn_ok r" and a: "bn_ok a" and t: "tmp = Some t" "bn_ok t" and e: "bn_rshift_secret_shift m tmp r a n = (ok, r')"
  shows "bn_ok r' \<and> (if ok then bn_neg r' = bn_neg a \<and> bn_abs r' = bn_abs a div 2 ^ (n mod 2 ^ num_bits (64 * bn_width a))
    else bn_full m r (bn_width a) \<or> bn_full m t (bn_width a))"
proof -
  obtain k c where c: "BN_copy m r a = (k, c)" by fastforce
  note cs = BN_copy_spec [OF r a c]
  show ?thesis
  proof (cases k)
    case True
    then have c': "bn_ok c" "bn_limbs c = bn_limbs a" "bn_neg c = bn_neg a" using cs by simp_all
    have w: "bn_width c = bn_width a" using length_bn_limbs [OF c'(1)] length_bn_limbs [OF a] c'(2) by simp
    show ?thesis
    proof (cases rule: bn_wexpand_cases [OF t(2), of m "bn_width a", case_names expanded full])
      case (expanded t')
      have l: "bn_width a \<le> length (bn_d c)" using c'(1) w by (simp add: bn_ok_def)
      let ?d = "secret_shift_loop (64 * bn_width a) n (bn_width a) 0 (bn_d c)"
      have e': "ok" "r' = c\<lparr>bn_d := ?d\<rparr>"
        using e c t(1) True expanded(1) w by (simp_all add: bn_rshift_secret_shift_def BN_BITS2_def)
      have d: "length ?d = length (bn_d c)" "wval (take (bn_width a) ?d) = bn_abs a div 2 ^ (n mod 2 ^ num_bits (64 * bn_width a))"
        using secret_shift_loop_spec [OF l, of "64 * bn_width a" n 0] c'(2) w by (simp_all add: bn_abs_def bn_limbs_def)
      then show ?thesis using e' c' w by (simp add: bn_ok_def bn_abs_def bn_limbs_def)
    next
      case full
      then show ?thesis using e c t(1) True w c'(1) by (simp add: bn_rshift_secret_shift_def)
    qed
  next
    case False
    then show ?thesis using e c t(1) cs r by (simp add: bn_rshift_secret_shift_def)
  qed
qed

section \<open>Single bits\<close>

lemma bit_wval_update:
  assumes "i < length ws"
  shows "bit (wval (ws[i := v])) n \<longleftrightarrow> (if n div 64 = i then bit v (n mod 64) else bit (wval ws) n)"
  using assms by (auto simp: bit_wval' nth_list_update)

lemma BN_is_bit_set_spec: "bn_ok a \<Longrightarrow> BN_is_bit_set a (int n) \<longleftrightarrow> bit (bn_abs a) n"
proof -
  assume a: "bn_ok a"
  have b: "drop_bit j x AND 1 \<noteq> 0 \<longleftrightarrow> bit x j" for x :: limb and j
    by (simp add: and_one_eq bit_iff_odd_drop_bit odd_iff_mod_2_eq_one)
  show ?thesis
    using a unfolding bn_abs_def bit_wval'
    by (auto simp: BN_is_bit_set_def bn_is_bit_set_words_def Let_def b BN_BITS2_def bn_limbs_def bn_ok_def)
qed

lemma bit_or_single: "b < 64 \<Longrightarrow> bit (x OR push_bit j 1 :: limb) b \<longleftrightarrow> bit x b \<or> b = j"
  unfolding bit_or_iff bit_push_bit_iff bit_1_iff by auto

lemma bit_and_single: "b < 64 \<Longrightarrow> bit (x AND NOT (push_bit j 1) :: limb) b \<longleftrightarrow> bit x b \<and> b \<noteq> j"
  unfolding bit_and_iff bit_not_iff bit_push_bit_iff bit_1_iff by auto

lemma position_eq: "n = k \<longleftrightarrow> k div 64 = n div 64 \<and> k mod 64 = n mod (64 :: nat)"
  by (metis div_mult_mod_eq)

lemma position_less: "b < 64 \<Longrightarrow> c < 64 \<Longrightarrow> 64 * i + b < 64 * j + c \<longleftrightarrow> i < j \<or> i = j \<and> b < (c :: nat)"
  by (cases i j rule: linorder_cases) auto

lemma BN_set_bit_spec:
  assumes a: "bn_ok a" and e: "BN_set_bit m a (int n) = (ok, a')"
  shows "if ok then bn_ok a' \<and> bn_neg a' = bn_neg a \<and> bn_abs a' = set_bit n (bn_abs a) else a' = a \<and> bn_full m a (n div 64 + 1)"
proof -
  define i j where "i = n div 64" and "j = n mod 64"
  define stored where "stored b = b\<lparr>bn_d := (bn_d b)[i := bn_d b ! i OR push_bit j 1]\<rparr>" for b :: bignum
  have set': "bn_ok (stored b) \<and> bn_abs (stored b) = set_bit n (bn_abs b) \<and> bn_neg (stored b) = bn_neg b"
    if b: "bn_ok b" "i < bn_width b" for b
  proof -
    let ?b = "b\<lparr>bn_d := (bn_d b)[i := bn_d b ! i OR push_bit j 1]\<rparr>"
    have l: "bn_limbs ?b = (bn_limbs b)[i := bn_limbs b ! i OR push_bit j 1]" using b by (simp add: bn_limbs_def take_update_swap)
    have i: "i < length (bn_limbs b)" using length_bn_limbs [OF b(1)] b(2) by simp
    have "bit (bn_abs ?b) k \<longleftrightarrow> bit (set_bit n (bn_abs b)) k" for k
    proof -
      have "bit (bn_abs ?b) k \<longleftrightarrow> (if k div 64 = i then bit (bn_limbs b ! i) (k mod 64) \<or> k mod 64 = j else bit (bn_abs b) k)"
        unfolding bn_abs_def l bit_wval_update [OF i] by (simp only: bit_or_single mod_less_divisor zero_less_numeral)
      then show ?thesis
        using i position_eq [of n k] by (auto simp: bit_set_bit_iff bn_abs_def bit_wval' i_def j_def)
    qed
    then have "bn_abs ?b = set_bit n (bn_abs b)" by (rule bit_eqI)
    then show ?thesis using b by (simp add: stored_def bn_ok_def)
  qed
  have e': "(ok, a') = (if bn_width a \<le> i then
      (case bn_wexpand m a (i + 1) of (ok, d) \<Rightarrow>
        if \<not> ok then (False, d)
        else (True, stored (d\<lparr>bn_d := take (bn_width d) (bn_d d) @ replicate (i + 1 - bn_width d) 0 @ drop (i + 1) (bn_d d), bn_width := i + 1\<rparr>)))
      else (True, stored a))"
    unfolding e [symmetric] by (simp add: BN_set_bit_def BN_BITS2_def Let_def i_def j_def stored_def split: prod.splits)
  show ?thesis
  proof (cases "bn_width a \<le> i")
    case True
    show ?thesis
    proof (cases rule: bn_wexpand_cases [OF a, of m "i + 1", case_names expanded full])
      case (expanded d)
      let ?ws = "bn_limbs d @ replicate (i + 1 - bn_width d) 0"
      define b where "b = d\<lparr>bn_d := take (bn_width d) (bn_d d) @ replicate (i + 1 - bn_width d) 0 @ drop (i + 1) (bn_d d), bn_width := i + 1\<rparr>"
      have len: "length ?ws = i + 1" using length_bn_limbs [OF expanded(2)] expanded(6) True by simp
      have "bn_d b = ?ws @ drop (i + 1) (bn_d d)" by (simp add: b_def bn_limbs_def)
      then have "take (length ?ws) (bn_d b) = ?ws" by (metis append_eq_conv_conj)
      then have b: "bn_ok b" "bn_abs b = bn_abs a" "bn_neg b = bn_neg a" "i < bn_width b"
        using store_limbs [OF expanded(2), of ?ws b] expanded len True
        by (simp_all add: b_def bn_ok_def bn_limbs_def bn_abs_def wval_append)
      have "ok" "a' = stored b" using e' expanded(1) True by (simp_all add: b_def)
      then show ?thesis using set' [OF b(1,4)] b(2,3) by simp
    next
      case full
      then show ?thesis using e' True by (simp add: i_def)
    qed
  next
    case False
    then show ?thesis using e' set' [OF a] by simp
  qed
qed

lemma BN_clear_bit_spec:
  assumes a: "bn_ok a" and e: "BN_clear_bit a (int n) = (ok, a')"
  shows "if ok then bn_ok a' \<and> bn_signed a' \<and> bn_abs a' = unset_bit n (bn_abs a) \<and> (bn_neg a' \<longleftrightarrow> bn_neg a \<and> bn_abs a' \<noteq> 0)
    else a' = a \<and> bn_width a \<le> n div 64"
proof -
  define i j where "i = n div 64" and "j = n mod 64"
  note e' = e [unfolded BN_clear_bit_def BN_BITS2_def Let_def, simplified, folded i_def j_def]
  show ?thesis
  proof (cases "bn_width a \<le> i")
    case True
    then show ?thesis using e' by (simp add: i_def)
  next
    case False
    let ?b = "a\<lparr>bn_d := (bn_d a)[i := bn_d a ! i AND NOT (push_bit j 1)]\<rparr>"
    have l: "bn_limbs ?b = (bn_limbs a)[i := bn_limbs a ! i AND NOT (push_bit j 1)]"
      using False by (simp add: bn_limbs_def take_update_swap)
    have i: "i < length (bn_limbs a)" using length_bn_limbs [OF a] False by simp
    have "bit (bn_abs ?b) k \<longleftrightarrow> bit (unset_bit n (bn_abs a)) k" for k
    proof -
      have "bit (bn_abs ?b) k \<longleftrightarrow> (if k div 64 = i then bit (bn_limbs a ! i) (k mod 64) \<and> k mod 64 \<noteq> j else bit (bn_abs a) k)"
        unfolding bn_abs_def l bit_wval_update [OF i] by (simp only: bit_and_single mod_less_divisor zero_less_numeral)
      then show ?thesis
        using i position_eq [of n k] by (auto simp: bit_unset_bit_iff bn_abs_def bit_wval' i_def j_def)
    qed
    then have "bn_abs ?b = unset_bit n (bn_abs a)" by (rule bit_eqI)
    have b: "bn_ok ?b" "bn_neg ?b = bn_neg a" using a by (simp_all add: bn_ok_def)
    have "BN_clear_bit a (int n) = (True, bn_set_minimal_width ?b)"
      using False by (simp add: BN_clear_bit_def BN_BITS2_def Let_def i_def j_def)
    then have a': "ok" "a' = bn_set_minimal_width ?b" using e by simp_all
    show ?thesis using bn_set_minimal_width_spec [OF b(1)] \<open>bn_abs ?b = unset_bit n (bn_abs a)\<close> b(2) a'(1) unfolding a'(2) by simp
  qed
qed

lemma BN_mask_bits_spec:
  assumes a: "bn_ok a" and e: "BN_mask_bits a (int n) = (ok, a')"
  shows "ok \<and> bn_ok a' \<and> bn_abs a' = bn_abs a mod 2 ^ n \<and> (bn_signed a \<longrightarrow> bn_signed a') \<and> (bn_neg a' \<longrightarrow> bn_neg a)"
proof -
  define i j where "i = n div 64" and "j = n mod 64"
  note e' = e [unfolded BN_mask_bits_def BN_BITS2_def Let_def, simplified, folded i_def j_def]
  show ?thesis
  proof (cases "bn_width a \<le> i")
    case True
    then have "64 * bn_width a \<le> n" unfolding i_def by linarith
    then have "(2 :: nat) ^ (64 * bn_width a) \<le> 2 ^ n" by (intro power_increasing) simp_all
    then have "bn_abs a < 2 ^ n" using bn_abs_less [OF a] unfolding BN_BASE_power by linarith
    then show ?thesis using e' True a by simp
  next
    case False
    define b where "b = (if j = 0 then a\<lparr>bn_width := i\<rparr> else a\<lparr>bn_width := i + 1, bn_d := (bn_d a)[i := bn_d a ! i AND NOT (push_bit j (-1))]\<rparr>)"
    have l: "i < length (bn_d a)" using False a by (simp add: bn_ok_def)
    have ok: "bn_ok b" "bn_neg b = bn_neg a" using False a by (auto simp: b_def bn_ok_def)
    have "bit (bn_abs b) k \<longleftrightarrow> bit (take_bit n (bn_abs a)) k" for k
    proof -
      have k: "k < n \<longleftrightarrow> k div 64 < i \<or> k div 64 = i \<and> k mod 64 < j"
        using position_less [of "k mod 64" j "k div 64" i] by (simp add: i_def j_def)
      have m: "k mod 64 < LENGTH(64)" by simp
      have la: "length (bn_limbs a) = bn_width a" by (rule length_bn_limbs [OF a])
      show ?thesis
      proof (cases "j = 0")
        case True
        then show ?thesis using k False l by (auto simp: b_def bn_abs_def bn_limbs_def bit_take_bit_iff bit_wval')
      next
        case j: False
        have "bn_limbs b = (take (i + 1) (bn_d a))[i := bn_d a ! i AND NOT (push_bit j (-1))]" using j by (simp add: b_def bn_limbs_def take_update_swap)
        then have "bit (bn_abs b) k \<longleftrightarrow> (if k div 64 = i then bit (bn_d a ! i AND NOT (push_bit j (-1))) (k mod 64) else bit (wval (take (i + 1) (bn_d a))) k)"
          using l by (simp add: bn_abs_def bit_wval_update)
        moreover have "bit (bn_d a ! i AND NOT (push_bit j (-1))) (k mod 64) \<longleftrightarrow> bit (bn_d a ! i) (k mod 64) \<and> k mod 64 < j"
          unfolding bit_and_iff bit_not_iff bit_push_bit_iff bit_minus_1_iff using m by auto
        ultimately show ?thesis
          using k False l by (auto simp: bn_abs_def bn_limbs_def bit_take_bit_iff bit_wval' less_Suc_eq)
      qed
    qed
    then have "bn_abs b = take_bit n (bn_abs a)" by (rule bit_eqI)
    then have v: "bn_abs b = bn_abs a mod 2 ^ n" by (simp only: take_bit_eq_mod)
    have "BN_mask_bits a (int n) = (True, bn_set_minimal_width b)"
      using False by (simp add: BN_mask_bits_def BN_BITS2_def Let_def i_def j_def b_def)
    then have a': "ok" "a' = bn_set_minimal_width b" using e by simp_all
    show ?thesis using bn_set_minimal_width_spec [OF ok(1)] v ok(2) a'(1) unfolding a'(2) by simp
  qed
qed


section \<open>The lowest bit\<close>

text \<open>\<open>p\<close> is the place of the lowest bit that is set.\<close>

definition lowest_bit :: "'a::semiring_bits \<Rightarrow> nat \<Rightarrow> bool" where
  "lowest_bit l p \<longleftrightarrow> bit l p \<and> (\<forall>i < p. \<not> bit l i)"

lemma low_zero_block_step:
  fixes l :: limb
  assumes "lowest_bit l p" "p < 2 * k" "0 < k" "k \<le> 32"
  obtains bits' l' p' where "low_zero_block k (bits, l) = (bits', l')" "lowest_bit l' p'" "p' < k" "bits' + p' = bits + p"
proof -
  have p: "p < 64" using assms(1) by (auto simp: lowest_bit_def dest: bit_imp_le_length)
  have z: "push_bit (BN_BITS2 - k) l = 0 \<longleftrightarrow> k \<le> p"
  proof
    assume e: "push_bit (BN_BITS2 - k) l = 0"
    show "k \<le> p"
    proof (rule ccontr)
      assume "\<not> k \<le> p"
      then have "bit (push_bit (BN_BITS2 - k) l) (p + (64 - k))"
        using assms(1,3,4) p unfolding bit_push_bit_iff by (auto simp: lowest_bit_def BN_BITS2_def)
      then show False unfolding e by simp
    qed
  next
    assume k: "k \<le> p"
    show "push_bit (BN_BITS2 - k) l = 0"
    proof (rule bit_word_eqI)
      fix n assume "n < LENGTH(64)"
      then have "n - (64 - k) < p" if "64 - k \<le> n" using k that assms(3,4) by simp
      then show "bit (push_bit (BN_BITS2 - k) l) n = bit (0 :: limb) n"
        using assms(1) unfolding bit_push_bit_iff by (auto simp: lowest_bit_def BN_BITS2_def)
    qed
  qed
  have k: "unat (word_of_nat k :: limb) = k" using assms(4) by (simp add: unat_of_nat_limb BN_BASE_def)
  show thesis
  proof (cases "k \<le> p")
    case True
    have "low_zero_block k (bits, l) = (bits + k, drop_bit k l)"
      using z True k by (simp add: low_zero_block_def Let_def is_zero_w_mask select_w_mask) (simp add: ct_mask_def)
    moreover have "lowest_bit (drop_bit k l) (p - k)" using assms(1) True by (auto simp: lowest_bit_def bit_drop_bit_eq)
    ultimately show thesis using that [of "bits + k" "drop_bit k l" "p - k"] True assms(2) by simp
  next
    case False
    have "low_zero_block k (bits, l) = (bits, l)"
      using z False by (simp add: low_zero_block_def Let_def is_zero_w_mask select_w_mask) (simp add: ct_mask_def)
    then show thesis using that [of bits l p] False assms(1) by simp
  qed
qed

lemma bn_count_low_zero_bits_word_spec:
  assumes "lowest_bit l p"
  shows "bn_count_low_zero_bits_word l = p"
proof -
  have p: "p < 2 * 32" using assms by (auto simp: lowest_bit_def dest: bit_imp_le_length)
  obtain b1 l1 p1 where 1: "low_zero_block 32 (0, l) = (b1, l1)" "lowest_bit l1 p1" "p1 < 32" "b1 + p1 = 0 + p"
    by (rule low_zero_block_step [OF assms p, of 0]) simp_all
  obtain b2 l2 p2 where 2: "low_zero_block 16 (b1, l1) = (b2, l2)" "lowest_bit l2 p2" "p2 < 16" "b2 + p2 = b1 + p1"
    by (rule low_zero_block_step [OF 1(2), of 16 b1]) (use 1(3) in simp_all)
  obtain b3 l3 p3 where 3: "low_zero_block 8 (b2, l2) = (b3, l3)" "lowest_bit l3 p3" "p3 < 8" "b3 + p3 = b2 + p2"
    by (rule low_zero_block_step [OF 2(2), of 8 b2]) (use 2(3) in simp_all)
  obtain b4 l4 p4 where 4: "low_zero_block 4 (b3, l3) = (b4, l4)" "lowest_bit l4 p4" "p4 < 4" "b4 + p4 = b3 + p3"
    by (rule low_zero_block_step [OF 3(2), of 4 b3]) (use 3(3) in simp_all)
  obtain b5 l5 p5 where 5: "low_zero_block 2 (b4, l4) = (b5, l5)" "lowest_bit l5 p5" "p5 < 2" "b5 + p5 = b4 + p4"
    by (rule low_zero_block_step [OF 4(2), of 2 b4]) (use 4(3) in simp_all)
  obtain b6 l6 p6 where 6: "low_zero_block 1 (b5, l5) = (b6, l6)" "lowest_bit l6 p6" "p6 < 1" "b6 + p6 = b5 + p5"
    by (rule low_zero_block_step [OF 5(2), of 1 b5]) (use 5(3) in simp_all)
  have "b6 = p" using 1(4) 2(4) 3(4) 4(4) 5(4) 6(3,4) by simp
  then show ?thesis
    using 1(1) 2(1) 3(1) 4(1) 5(1) 6(1) by (simp add: bn_count_low_zero_bits_word_def)
qed

lemma lowest_bit_exists: "(l :: limb) \<noteq> 0 \<Longrightarrow> \<exists>p < 64. lowest_bit l p"
proof -
  assume "l \<noteq> 0"
  then have "\<exists>n. bit l n" by (metis bit_word_eqI bit_0_eq bot_apply bot_bool_def)
  then have "lowest_bit l (LEAST n. bit l n)" unfolding lowest_bit_def by (meson LeastI_ex not_less_Least)
  moreover from this have "(LEAST n. bit l n) < LENGTH(64)" unfolding lowest_bit_def by (blast dest: bit_imp_le_length)
  ultimately show ?thesis by auto
qed

lemma lowest_bit_unique: "lowest_bit l p \<Longrightarrow> lowest_bit l q \<Longrightarrow> p = q"
  by (metis lowest_bit_def linorder_neqE_nat)

definition low_zeros_step :: "limb list \<Rightarrow> limb \<times> limb \<Rightarrow> nat \<Rightarrow> limb \<times> limb" where
  "low_zeros_step d = (\<lambda>(ret, saw_nonzero) i.
     let nonzero = NOT (constant_time_is_zero_w (d ! i));
         first_nonzero = NOT saw_nonzero AND nonzero;
         bits = bn_count_low_zero_bits_word (d ! i)
     in (ret OR (first_nonzero AND word_of_nat (i * BN_BITS2 + bits)), saw_nonzero OR nonzero))"

lemma ct_mask_arith:
  "ct_mask a AND ct_mask b = (ct_mask (a \<and> b) :: 'a::len word)" "ct_mask a OR ct_mask b = (ct_mask (a \<or> b) :: 'a::len word)"
  "ct_mask a AND w = (if a then w else (0 :: 'a::len word))"
  by (simp_all add: ct_mask_def)

lemma low_zeros_loop:
  assumes "n \<le> length d"
  shows "\<exists>ret. foldl (low_zeros_step d) (0, 0) [0..<n] = (ret, ct_mask (wval (take n d) \<noteq> 0)) \<and>
    (wval (take n d) = 0 \<longrightarrow> ret = 0) \<and> (wval (take n d) \<noteq> 0 \<longrightarrow> (\<exists>p. ret = word_of_nat p \<and> p < 64 * n \<and> lowest_bit (wval (take n d)) p))"
  using assms
proof (induction n)
  case 0
  then show ?case by (simp add: ct_mask_def)
next
  case (Suc n)
  let ?v = "wval (take n d)"
  have len: "length (take n d) = n" using Suc.prems by simp
  have v: "wval (take (Suc n) d) = ?v + BN_BASE ^ n * unat (d ! n)" using Suc.prems by (simp add: take_Suc_conv_app_nth wval_snoc)
  obtain ret where IH: "foldl (low_zeros_step d) (0, 0) [0..<n] = (ret, ct_mask (?v \<noteq> 0))" "?v = 0 \<longrightarrow> ret = 0"
    "?v \<noteq> 0 \<longrightarrow> (\<exists>p. ret = word_of_nat p \<and> p < 64 * n \<and> lowest_bit ?v p)" using Suc by (metis Suc_leD)
  have e: "foldl (low_zeros_step d) (0, 0) [0..<Suc n] =
      (ret OR (if ?v = 0 \<and> d ! n \<noteq> 0 then word_of_nat (n * BN_BITS2 + bn_count_low_zero_bits_word (d ! n)) else 0),
       ct_mask (?v \<noteq> 0 \<or> d ! n \<noteq> 0))"
    using IH(1) by (simp add: low_zeros_step_def Let_def is_zero_w_mask ct_mask_arith)
  have m: "wval (take (Suc n) d) \<noteq> 0 \<longleftrightarrow> ?v \<noteq> 0 \<or> d ! n \<noteq> 0" unfolding v by (simp add: unsigned_eq_0_iff)
  have bits: "bit (wval (take (Suc n) d)) k \<longleftrightarrow> bit ?v k" if "k < 64 * n" for k
  proof -
    have "k div 64 < n" using that by (simp add: div_less_iff_less_mult mult.commute)
    then show ?thesis using Suc.prems by (simp add: bit_wval')
  qed
  show ?case
  proof (cases "?v = 0")
    case False
    then obtain p where p: "ret = word_of_nat p" "p < 64 * n" "lowest_bit ?v p" using IH(3) by blast
    have "lowest_bit (wval (take (Suc n) d)) p" using p(2,3) bits by (auto simp: lowest_bit_def)
    then show ?thesis using e m False p by (intro exI [of _ ret]) auto
  next
    case True
    show ?thesis
    proof (cases "d ! n = 0")
      case T: True
      then show ?thesis using e m True IH(2) by simp
    next
      case False
      obtain q where q: "q < 64" "lowest_bit (d ! n) q" using lowest_bit_exists [OF False] by blast
      have nb: "bit (wval (take (Suc n) d)) (64 * n + b) \<longleftrightarrow> bit (d ! n) b" if "b < 64" for b
        using bit_wval [OF that, of "take (Suc n) d" n] Suc.prems by simp
      have "lowest_bit (wval (take (Suc n) d)) (64 * n + q)"
        unfolding lowest_bit_def
      proof (intro conjI allI impI)
        show "bit (wval (take (Suc n) d)) (64 * n + q)" using nb [OF q(1)] q(2) by (simp add: lowest_bit_def)
        fix i assume i: "i < 64 * n + q"
        show "\<not> bit (wval (take (Suc n) d)) i"
        proof (cases "i < 64 * n")
          case T: True
          then show ?thesis using bits [OF T] \<open>?v = 0\<close> by simp
        next
          case F: False
          then have "i = 64 * n + (i - 64 * n)" "i - 64 * n < 64" "i - 64 * n < q" using i q(1) by simp_all
          then show ?thesis using nb [of "i - 64 * n"] q(2) by (metis lowest_bit_def)
        qed
      qed
      moreover have "64 * n + q < 64 * Suc n" using q(1) by simp
      moreover have "foldl (low_zeros_step d) (0, 0) [0..<Suc n] = (word_of_nat (64 * n + q), ct_mask (wval (take (Suc n) d) \<noteq> 0))"
        unfolding e using m True False IH(2) bn_count_low_zero_bits_word_spec [OF q(2)] by (simp add: BN_BITS2_def mult.commute)
      ultimately have "wval (take (Suc n) d) \<noteq> 0 \<and> foldl (low_zeros_step d) (0, 0) [0..<Suc n] = (word_of_nat (64 * n + q), ct_mask (wval (take (Suc n) d) \<noteq> 0)) \<and>
          (\<exists>p. word_of_nat (64 * n + q) = (word_of_nat p :: limb) \<and> p < 64 * Suc n \<and> lowest_bit (wval (take (Suc n) d)) p)"
        using m False by (intro conjI exI [of _ "64 * n + q"]) simp_all
      then show ?thesis by (intro exI [of _ "word_of_nat (64 * n + q)"]) (simp only: simp_thms)
    qed
  qed
qed

lemma BN_count_low_zero_bits_spec:
  assumes a: "bn_ok a"
  shows "if bn_abs a = 0 then BN_count_low_zero_bits a = 0 else lowest_bit (bn_abs a) (BN_count_low_zero_bits a)"
proof -
  have l: "bn_width a \<le> length (bn_d a)" "bn_width a \<le> 2 ^ 23" using a by (auto simp: bn_ok_def)
  obtain ret where R: "foldl (low_zeros_step (bn_d a)) (0, 0) [0..<bn_width a] = (ret, ct_mask (bn_abs a \<noteq> 0)) \<and> (bn_abs a = 0 \<longrightarrow> ret = 0) \<and>
    (bn_abs a \<noteq> 0 \<longrightarrow> (\<exists>p. ret = word_of_nat p \<and> p < 64 * bn_width a \<and> lowest_bit (bn_abs a) p))"
    using low_zeros_loop [OF l(1), folded bn_limbs_def, folded bn_abs_def] ..
  note r = conjunct1 [OF R] conjunct1 [OF conjunct2 [OF R]] conjunct2 [OF conjunct2 [OF R]]
  have c: "BN_count_low_zero_bits a = unat ret"
    using r(1) by (simp add: BN_count_low_zero_bits_def low_zeros_step_def)
  have "unat (word_of_nat p :: limb) = p" if "p < 64 * bn_width a" for p
  proof -
    have "p < 2 ^ 64" using that l(2) by simp
    then show ?thesis by (simp add: unat_of_nat_limb BN_BASE_def)
  qed
  then have p: "p < 64 * bn_width a \<Longrightarrow> ret = word_of_nat p \<Longrightarrow> BN_count_low_zero_bits a = p" for p using c by simp
  show ?thesis
  proof (cases "bn_abs a = 0")
    case True
    then show ?thesis using r(2) c by simp
  next
    case False
    then obtain q where "ret = word_of_nat q" "q < 64 * bn_width a" "lowest_bit (bn_abs a) q" using r(3) by blast
    then show ?thesis using p [of q] False by simp
  qed
qed


end
