(* ===== verification/Bn_Bytes.thy ===== *)
theory Bn_Bytes
  imports Bn_Shift
begin

text \<open>
  \<^verbatim>\<open>crypto/fipsmodule/bn/bytes.c\<close>: big integers as strings of bytes, big-endian and little-endian.
\<close>

section \<open>Code\<close>

text \<open>The limbs are filled from the last to the first; \<open>m\<close> more bytes follow in the limb that is being read.\<close>

fun bin2bn_loop :: "u8 list \<Rightarrow> limb \<Rightarrow> nat \<Rightarrow> nat \<Rightarrow> limb list \<Rightarrow> limb list" where
  "bin2bn_loop [] word m num_words d = d"
| "bin2bn_loop (b # inp) word m num_words d =
     (let word = push_bit 8 word OR ucast b in
      if m = 0 then bin2bn_loop inp 0 (BN_BYTES - 1) (num_words - 1) (d[num_words - 1 := word])
      else bin2bn_loop inp word (m - 1) num_words d)"

text \<open>The result, or NULL; then an object that was given is left as it was.\<close>

definition BN_bin2bn :: "allocator \<Rightarrow> u8 list \<Rightarrow> nat \<Rightarrow> bignum option \<Rightarrow> bignum option" where
  "BN_bin2bn m inp len ret =
     (case (case ret of None \<Rightarrow> BN_new m | Some ret \<Rightarrow> Some ret) of
        None \<Rightarrow> None
      | Some ret \<Rightarrow>
          if len = 0 then Some (ret\<lparr>bn_width := 0\<rparr>)
          else
            let num_words = (len - 1) div BN_BYTES + 1; k = (len - 1) mod BN_BYTES in
            case bn_wexpand m ret num_words of
              (ok, ret) \<Rightarrow>
                if \<not> ok then None
                else Some (ret\<lparr>bn_width := num_words, bn_neg := False,
                       bn_d := bin2bn_loop (take len inp) 0 k num_words (bn_d ret)\<rparr>))"

definition BN_le2bn :: "allocator \<Rightarrow> u8 list \<Rightarrow> nat \<Rightarrow> bignum option \<Rightarrow> bignum option" where
  "BN_le2bn m inp len ret =
     (case (case ret of None \<Rightarrow> BN_new m | Some ret \<Rightarrow> Some ret) of
        None \<Rightarrow> None
      | Some ret \<Rightarrow>
          if len = 0 then Some (ret\<lparr>bn_width := 0, bn_neg := False\<rparr>)
          else
            let num_words = (len - 1) div BN_BYTES + 1 in
            case bn_wexpand m ret num_words of
              (ok, ret) \<Rightarrow>
                if \<not> ok then None
                else
                  let d = (bn_d ret)[num_words - 1 := 0]
                  in Some (ret\<lparr>bn_width := num_words,
                       bn_d := limbs_of_bytes (length d) (memcpy (bytes_of_limbs d) inp len)\<rparr>))"

text \<open>The bytes written at \<open>out\<close>; their number is the result.\<close>

definition BN_bn2bin :: "bignum \<Rightarrow> u8 list" where
  "BN_bn2bin inp = map (\<lambda>i. ucast (drop_bit (8 * (i mod BN_BYTES)) (bn_d inp ! (i div BN_BYTES)) AND 0xff)) (rev [0..<BN_num_bytes inp])"

definition fits_in_bytes :: "u8 list \<Rightarrow> nat \<Rightarrow> nat \<Rightarrow> bool" where
  "fits_in_bytes bytes num_bytes len \<longleftrightarrow> foldl (\<lambda>mask' i. mask' OR bytes ! i) 0 [len..<num_bytes] = 0"

definition BN_bn2le_padded :: "nat \<Rightarrow> bignum \<Rightarrow> u8 list option" where
  "BN_bn2le_padded len inp =
     (let bytes = bytes_of_limbs (bn_d inp); num_bytes = bn_width inp * BN_BYTES in
      if len < num_bytes \<and> \<not> fits_in_bytes bytes num_bytes len then None
      else let num_bytes = (if len < num_bytes then len else num_bytes) in Some (take num_bytes bytes @ replicate (len - num_bytes) 0))"

definition BN_bn2bin_padded :: "nat \<Rightarrow> bignum \<Rightarrow> u8 list option" where
  "BN_bn2bin_padded len inp =
     (let bytes = bytes_of_limbs (bn_d inp); num_bytes = bn_width inp * BN_BYTES in
      if len < num_bytes \<and> \<not> fits_in_bytes bytes num_bytes len then None
      else
        let num_bytes = (if len < num_bytes then len else num_bytes);
            out = foldl (\<lambda>out i. out[len - i - 1 := bytes ! i]) (replicate len 0) [0..<num_bytes]
        in Some (replicate (len - num_bytes) 0 @ drop (len - num_bytes) out))"

definition BN_MASK2 :: limb where
  "BN_MASK2 = 0xffffffffffffffff"

definition BN_get_word :: "bignum \<Rightarrow> limb" where
  "BN_get_word bn =
     (case bn_minimal_width bn of
        0 \<Rightarrow> 0
      | Suc n \<Rightarrow> if n = 0 then bn_d bn ! 0 else BN_MASK2)"

definition BN_get_u64 :: "bignum \<Rightarrow> u64 option" where
  "BN_get_u64 bn =
     (case bn_minimal_width bn of
        0 \<Rightarrow> Some 0
      | Suc n \<Rightarrow> if n = 0 then Some (bn_d bn ! 0) else None)"

section \<open>Big-endian input\<close>

lemma BN_BASE_256: "BN_BASE ^ n = 256 ^ (8 * n)"
  by (simp add: BN_BASE_def power_mult)

lemma bin2bn_loop_spec:
  assumes "unat word < 256 ^ (7 - m)" "length bs + (7 - m) = 8 * n" "m \<le> 7" "n \<le> length d"
  shows "length (bin2bn_loop bs word m n d) = length d \<and> drop n (bin2bn_loop bs word m n d) = drop n d \<and>
    wval (take n (bin2bn_loop bs word m n d)) = unat word * 256 ^ length bs + be_val bs"
  using assms
proof (induction bs word m n d rule: bin2bn_loop.induct)
  case (1 word m n d)
  then have "7 - m = 8 * n" by simp
  then have "n = 0" by arith
  then show ?case using \<open>7 - m = 8 * n\<close> 1 by simp
next
  case (2 b bs word m n d)
  define w where "w = push_bit 8 word OR ucast b"
  have "(256::nat) ^ (7 - m) \<le> 256 ^ 7" by (intro power_increasing) simp_all
  then have "unat word < 256 ^ 7" using 2(3) by linarith
  then have "unat word * 256 + unat b < 2 ^ 64" using unat_u8_less [of b] by (simp del: unat_u8_less)
  then have w: "unat w = unat word * 256 + unat b" by (simp add: w_def unat_shift_or)
  show ?case
  proof (cases "m = 0")
    case True
    then obtain k where k: "n = Suc k" "length bs = 8 * k" using "2.prems"(2) by (cases n) auto
    let ?d = "d[k := w]"
    have IH: "length (bin2bn_loop bs 0 7 k ?d) = length ?d" "drop k (bin2bn_loop bs 0 7 k ?d) = drop k ?d"
      "wval (take k (bin2bn_loop bs 0 7 k ?d)) = be_val bs"
      using "2.IH"(1) [of w] True k "2.prems"(4) by (simp_all add: w_def BN_BYTES_def)
    have e: "bin2bn_loop (b # bs) word m n d = bin2bn_loop bs 0 7 k ?d" using True k by (simp add: w_def BN_BYTES_def Let_def)
    have kl: "k < length d" using "2.prems"(4) k by simp
    have nth: "bin2bn_loop bs 0 7 k ?d ! k = w"
      using arg_cong [OF IH(2), of "\<lambda>xs. xs ! 0"] IH(1) kl by (simp add: Cons_nth_drop_Suc [symmetric])
    have "drop (Suc k) (bin2bn_loop bs 0 7 k ?d) = drop (Suc k) ?d" using arg_cong [OF IH(2), of "drop 1"] by simp
    then show ?thesis
      unfolding e using IH(1,3) nth kl k w
      by (simp add: take_Suc_conv_app_nth wval_snoc BN_BASE_256 power_mult algebra_simps)
  next
    case False
    then have s: "256 ^ (7 - (m - 1)) = 256 * (256 :: nat) ^ (7 - m)" using "2.prems"(3)
    proof -
      have "7 - (m - 1) = Suc (7 - m)" using False "2.prems"(3) by arith
      then show ?thesis by simp
    qed
    have "(unat word + 1) * 256 \<le> 256 ^ (7 - m) * 256" using "2.prems"(1) by (intro mult_le_mono1) simp
    then have "unat w < 256 ^ (7 - (m - 1))" unfolding s w using unat_u8_less [of b] by (simp del: unat_u8_less)
    moreover have "length bs + (7 - (m - 1)) = 8 * n" "m - 1 \<le> 7" using False "2.prems"(2,3) by simp_all
    ultimately show ?thesis
      using "2.IH"(2) [of w] False "2.prems"(4) w by (simp add: w_def Let_def algebra_simps)
  qed
qed

lemma BN_bin2bn_spec:
  assumes ret: "pred_option bn_ok ret" and len: "len \<le> length inp"
  shows "case BN_bin2bn m inp len ret of
      None \<Rightarrow> \<not> malloc_total m \<or> 2 ^ 23 \<le> (len + 7) div 8 \<or> (\<exists>b. ret = Some b \<and> bn_static b)
    | Some r \<Rightarrow> bn_ok r \<and> bn_abs r = be_val (take len inp) \<and> (len \<noteq> 0 \<longrightarrow> \<not> bn_neg r)"
proof -
  define ret' where "ret' = (case ret of None \<Rightarrow> BN_new m | Some ret \<Rightarrow> Some ret)"
  show ?thesis
  proof (cases ret')
    case None
    then have "BN_new m = None" by (simp add: ret'_def split: option.splits)
    then show ?thesis using None BN_new_None [of m] by (simp add: BN_bin2bn_def ret'_def)
  next
    case (Some r0)
    have r0: "bn_ok r0" "bn_static r0 \<longrightarrow> ret = Some r0" using Some ret BN_new_ok [of m r0] by (auto simp: ret'_def split: option.splits)
    show ?thesis
    proof (cases "len = 0")
      case True
      then show ?thesis using Some r0 by (simp add: BN_bin2bn_def ret'_def bn_ok_def bn_abs_def bn_limbs_def)
    next
      case False
      define n k where "n = (len - 1) div 8 + 1" and "k = (len - 1) mod 8"
      have nk: "len + (7 - k) = 8 * n" "k \<le> 7" "n = (len + 7) div 8" 
      proof -
        obtain l where l: "len = Suc l" using False by (cases len) auto
        define q where "q = l div 8"
        have q: "n = q + 1" "l = 8 * q + k" by (simp_all add: n_def k_def l q_def)
        show "k \<le> 7" by (simp add: k_def less_Suc_eq_le [symmetric])
        then show "len + (7 - k) = 8 * n" unfolding l q by simp
        show "n = (len + 7) div 8" by (simp add: n_def l)
      qed
      show ?thesis
      proof (cases rule: bn_wexpand_cases [OF r0(1), of m n, case_names expanded full])
        case (expanded d)
        let ?d = "bin2bn_loop (take len inp) 0 k n (bn_d d)"
        define r where "r = d\<lparr>bn_width := n, bn_neg := False, bn_d := ?d\<rparr>"
        have e: "BN_bin2bn m inp len ret = Some r"
          using Some False expanded(1) by (simp add: BN_bin2bn_def ret'_def [symmetric] n_def k_def BN_BYTES_def Let_def r_def)
        have "length ?d = length (bn_d d)" "wval (take n ?d) = be_val (take len inp)"
          using bin2bn_loop_spec [of 0 k "take len inp" n "bn_d d"] nk(1,2) len expanded(4) by (simp_all add: min_absorb2)
        then show ?thesis using e expanded(2,3) by (simp add: r_def bn_ok_def bn_abs_def bn_limbs_def)
      next
        case full
        then show ?thesis
          using Some False r0(2) nk(3) by (auto simp: BN_bin2bn_def ret'_def [symmetric] n_def BN_BYTES_def Let_def bn_full_def)
      qed
    qed
  qed
qed

section \<open>Limbs and bytes\<close>

definition le_val :: "u8 list \<Rightarrow> nat" where
  "le_val bs = be_val (rev bs)"

lemma le_val_append: "le_val (xs @ ys) = le_val xs + 256 ^ length xs * le_val ys"
  by (simp add: le_val_def be_val_append)

lemma le_val_zeros [simp]: "le_val (replicate n 0) = 0"
  by (simp add: le_val_def be_val_zero_iff)

lemma le_val_less: "le_val bs < 256 ^ length bs"
  using be_val_less [of "rev bs"] by (simp add: le_val_def)

lemma length_bytes_of_limbs [simp]: "length (bytes_of_limbs ws) = 8 * length ws"
  by (induction ws) (simp_all add: bytes_of_limbs_def BN_BYTES_def)

lemma bytes_of_limbs_append: "bytes_of_limbs (xs @ ys) = bytes_of_limbs xs @ bytes_of_limbs ys"
  by (simp add: bytes_of_limbs_def)

lemma le_val_bytes_of_limbs: "le_val (bytes_of_limbs ws) = wval ws"
proof (induction ws)
  case (Cons w ws)
  have "unat w < 256 ^ 8" using limb_less [of w] BN_BASE_256 [of 1] by simp
  moreover have "bytes_of_limbs (w # ws) = rev (be_bytes 8 (unat w)) @ bytes_of_limbs ws" by (simp add: bytes_of_limbs_def BN_BYTES_def)
  ultimately show ?case using Cons BN_BASE_256 [of 1] by (simp add: le_val_append) (simp add: le_val_def be_val_be_bytes)
qed (simp add: bytes_of_limbs_def le_val_def)

lemma bytes_of_limbs_zero: "bytes_of_limbs [0] = replicate 8 0"
proof -
  have "be_bytes n 0 = replicate n 0" for n by (induction n) (simp_all add: replicate_append_same)
  then show ?thesis by (simp add: bytes_of_limbs_def BN_BYTES_def)
qed

lemma take_bytes_of_limbs: "take (8 * n) (bytes_of_limbs ws) = bytes_of_limbs (take n ws)"
proof -
  have "bytes_of_limbs ws = bytes_of_limbs (take n ws) @ bytes_of_limbs (drop n ws)" by (simp flip: bytes_of_limbs_append)
  then show ?thesis by (cases "n \<le> length ws") simp_all
qed

lemma wval_limbs_of_bytes: "8 * n \<le> length bs \<Longrightarrow> wval (limbs_of_bytes n bs) = le_val (take (8 * n) bs)"
proof (induction n arbitrary: bs)
  case (Suc n)
  have "limbs_of_bytes (Suc n) bs = limb_of_bytes (take 8 bs) # limbs_of_bytes n (drop 8 bs)"
    by (simp add: limbs_of_bytes_def BN_BYTES_def map_upt_Suc add.commute del: upt_Suc)
  moreover have "unat (limb_of_bytes (take 8 bs)) = le_val (take 8 bs)"
  proof -
    have "le_val (take 8 bs) < BN_BASE" using le_val_less [of "take 8 bs"] Suc.prems BN_BASE_256 [of 1] by simp
    then show ?thesis by (simp add: limb_of_bytes_def unat_of_nat_limb le_val_def)
  qed
  moreover have "take (8 * Suc n) bs = take 8 bs @ take (8 * n) (drop 8 bs)" by (simp add: take_add)
  moreover have "length (take 8 bs) = 8" using Suc.prems by simp
  ultimately show ?case using Suc.IH [of "drop 8 bs"] Suc.prems BN_BASE_256 [of 1] by (simp add: le_val_append)
qed (simp add: le_val_def limbs_of_bytes_def)

lemma BN_le2bn_spec:
  assumes ret: "pred_option bn_ok ret" and len: "len \<le> length inp"
  shows "case BN_le2bn m inp len ret of
      None \<Rightarrow> \<not> malloc_total m \<or> 2 ^ 23 \<le> (len + 7) div 8 \<or> (\<exists>b. ret = Some b \<and> bn_static b)
    | Some r \<Rightarrow> bn_ok r \<and> bn_abs r = le_val (take len inp) \<and>
        (bn_neg r \<longleftrightarrow> len \<noteq> 0 \<and> (\<exists>b. ret = Some b \<and> bn_neg b))"
proof -
  define ret' where "ret' = (case ret of None \<Rightarrow> BN_new m | Some ret \<Rightarrow> Some ret)"
  show ?thesis
  proof (cases ret')
    case None
    then have "BN_new m = None" by (simp add: ret'_def split: option.splits)
    then show ?thesis using None BN_new_None [of m] by (simp add: BN_le2bn_def ret'_def)
  next
    case (Some r0)
    have new: "BN_new m = Some b \<Longrightarrow> \<not> bn_neg b" for b by (auto simp: BN_new_def BN_init_def split: option.splits)
    have r0: "bn_ok r0" "bn_static r0 \<longrightarrow> ret = Some r0" "bn_neg r0 \<longleftrightarrow> (\<exists>b. ret = Some b \<and> bn_neg b)"
      using Some ret BN_new_ok [of m r0] new by (auto simp: ret'_def split: option.splits)
    show ?thesis
    proof (cases "len = 0")
      case True
      then show ?thesis using Some r0 by (simp add: BN_le2bn_def ret'_def bn_ok_def bn_abs_def bn_limbs_def le_val_def)
    next
      case False
      define n where "n = (len - 1) div 8 + 1"
      have n: "n = (len + 7) div 8" using False by (cases len) (simp_all add: n_def)
      have nl: "len \<le> 8 * n" "8 * n < len + 8" unfolding n using div_mult_mod_eq [of "len + 7" 8] mod_less_divisor [of 8 "len + 7"] by linarith+
      show ?thesis
      proof (cases rule: bn_wexpand_cases [OF r0(1), of m n, case_names expanded full])
        case (expanded d)
        define d0 where "d0 = (bn_d d)[n - 1 := 0]"
        let ?bs = "memcpy (bytes_of_limbs d0) inp len"
        define r where "r = d\<lparr>bn_width := n, bn_d := limbs_of_bytes (length d0) ?bs\<rparr>"
        have e: "BN_le2bn m inp len ret = Some r"
          using Some False expanded(1) by (simp add: BN_le2bn_def ret'_def [symmetric] n_def BN_BYTES_def Let_def r_def d0_def)
        have l: "length d0 = length (bn_d d)" "n \<le> length d0" "0 < n" using expanded(4) by (simp_all add: d0_def n_def)
        have bl: "length ?bs = 8 * length d0" using nl l len by (intro trans [OF length_memcpy]) simp_all
        have "take n (limbs_of_bytes (length d0) ?bs) = limbs_of_bytes n ?bs" using l by (simp add: limbs_of_bytes_def take_map)
        then have "wval (take n (bn_d r)) = le_val (take (8 * n) ?bs)" using wval_limbs_of_bytes [of n ?bs] bl l by (simp add: r_def)
        also have "take (8 * n) ?bs = take len inp @ drop len (bytes_of_limbs (take n d0))"
          using nl len by (simp add: memcpy_def take_bytes_of_limbs [symmetric] drop_take min_absorb1 min_absorb2)
        also have "drop len (bytes_of_limbs (take n d0)) = replicate (8 * n - len) 0"
        proof -
          obtain j where j: "n = Suc j" using l(3) by (cases n) auto
          have "take n d0 = take j d0 @ [0]" using l expanded(4) by (simp add: j d0_def take_Suc_conv_app_nth)
          moreover have "bytes_of_limbs [0] = replicate 8 0" by (simp add: bytes_of_limbs_zero)
          ultimately have "bytes_of_limbs (take n d0) = bytes_of_limbs (take j d0) @ replicate 8 0" by (simp add: bytes_of_limbs_append)
          moreover have "length (bytes_of_limbs (take j d0)) = 8 * j" "8 * j \<le> len" using nl(2) l(2) j by simp_all
          ultimately show ?thesis using j by simp
        qed
        finally have "wval (take n (bn_d r)) = le_val (take len inp)" by (simp add: le_val_append)
        moreover have "bn_ok r" using expanded(2,3) l by (simp add: r_def bn_ok_def)
        ultimately show ?thesis using e expanded(7) r0(3) False by (simp add: r_def bn_abs_def bn_limbs_def)
      next
        case full
        then show ?thesis
          using Some False r0(2) n by (auto simp: BN_le2bn_def ret'_def [symmetric] n_def BN_BYTES_def Let_def bn_full_def)
      qed
    qed
  qed
qed

section \<open>Output\<close>

lemma limb_byte:
  assumes "i div 8 < length ws"
  shows "(ucast (drop_bit (8 * (i mod 8)) (ws ! (i div 8)) AND 0xff) :: u8) = word_of_nat (wval ws div 256 ^ i)"
proof (rule bit_word_eqI)
  fix b assume "b < LENGTH(8)"
  then have b: "b < 8" by simp
  have m: "(0xff :: limb) = mask 8" by (simp add: mask_eq_exp_minus_1)
  have e: "wval ws div 256 ^ i = drop_bit (8 * i) (wval ws)" by (simp add: drop_bit_eq_div power_mult)
  have "8 * (i mod 8) + b < 64" using b mod_less_divisor [of 8 i] by linarith
  moreover have "8 * i + b = 64 * (i div 8) + (8 * (i mod 8) + b)" using div_mult_mod_eq [of i 8] by linarith
  ultimately have "bit (wval ws) (8 * i + b) \<longleftrightarrow> bit (ws ! (i div 8)) (8 * (i mod 8) + b)" using bit_wval [of "8 * (i mod 8) + b" ws "i div 8"] assms by (simp only: simp_thms)
  then show "bit (ucast (drop_bit (8 * (i mod 8)) (ws ! (i div 8)) AND 0xff) :: u8) b = bit (word_of_nat (wval ws div 256 ^ i) :: u8) b"
    using b unfolding m e by (simp add: bit_simps)
qed

lemma be_bytes_map: "be_bytes n v = map (\<lambda>i. word_of_nat (v div 256 ^ i)) (rev [0..<n])"
proof (induction n arbitrary: v)
  case (Suc n)
  have "[0..<Suc n] = 0 # map Suc [0..<n]" using map_upt_Suc [of id n] by (simp del: upt_Suc)
  then have "rev [0..<Suc n] = map Suc (rev [0..<n]) @ [0]" by (simp add: rev_map del: upt_Suc)
  then show ?case using Suc [of "v div 256"] by (simp add: div_mult2_eq comp_def)
qed simp

lemma BN_num_bytes_spec: "bn_ok a \<Longrightarrow> BN_num_bytes a \<le> n \<longleftrightarrow> bn_abs a < 256 ^ n"
proof -
  assume "bn_ok a"
  then have "BN_num_bytes a \<le> n \<longleftrightarrow> num_bits (bn_abs a) \<le> 8 * n" by (simp add: BN_num_bytes_def BN_num_bits_spec) arith
  also have "\<dots> \<longleftrightarrow> bn_abs a < 2 ^ (8 * n)" by (rule num_bits_le)
  finally show ?thesis by (simp add: power_mult)
qed

lemma BN_bn2bin_spec:
  assumes a: "bn_ok a"
  shows "BN_bn2bin a = be_bytes (BN_num_bytes a) (bn_abs a)"
proof -
  have "i div 8 < bn_width a" if "i < BN_num_bytes a" for i
  proof -
    have "BN_num_bytes a \<le> 8 * bn_width a" using BN_num_bytes_spec [OF a] bn_abs_less [OF a] by (simp add: BN_BASE_256)
    then show ?thesis using that by (simp add: div_less_iff_less_mult mult.commute)
  qed
  then have "ucast (drop_bit (8 * (i mod 8)) (bn_d a ! (i div 8)) AND 0xff) = (word_of_nat (wval (bn_limbs a) div 256 ^ i) :: u8)"
    if "i < BN_num_bytes a" for i
    using that limb_byte [of i "bn_limbs a"] length_bn_limbs [OF a] by (force simp: bn_limbs_def)
  then show ?thesis unfolding BN_bn2bin_def be_bytes_map bn_abs_def BN_BYTES_def by simp
qed

lemma fits_in_bytes_spec:
  assumes a: "bn_ok a"
  shows "fits_in_bytes (bytes_of_limbs (bn_d a)) (bn_width a * 8) len \<longleftrightarrow> bn_abs a < 256 ^ len"
proof -
  let ?bs = "bytes_of_limbs (bn_limbs a)"
  have len: "length ?bs = 8 * bn_width a" using length_bn_limbs [OF a] by simp
  have nth: "bytes_of_limbs (bn_d a) ! i = ?bs ! i" if "i < 8 * bn_width a" for i
    using that by (simp add: bn_limbs_def take_bytes_of_limbs [symmetric])
  have f: "fits_in_bytes (bytes_of_limbs (bn_d a)) (bn_width a * 8) len \<longleftrightarrow> (\<forall>i. len \<le> i \<and> i < 8 * bn_width a \<longrightarrow> ?bs ! i = 0)"
    using nth by (auto simp: fits_in_bytes_def foldl_or_zero mult.commute)
  have z: "le_val xs = 0 \<longleftrightarrow> (\<forall>b \<in> set xs. b = 0)" for xs by (simp add: le_val_def be_val_zero_iff)
  have v: "bn_abs a = le_val (take len ?bs) + 256 ^ min len (8 * bn_width a) * le_val (drop len ?bs)"
    using le_val_append [of "take len ?bs" "drop len ?bs"] len by (simp add: bn_abs_def le_val_bytes_of_limbs min.commute)
  show ?thesis
  proof (cases "len < 8 * bn_width a")
    case True
    have "le_val (take len ?bs) < 256 ^ len" using le_val_less [of "take len ?bs"] len True by simp
    then have "bn_abs a < 256 ^ len \<longleftrightarrow> le_val (drop len ?bs) = 0" using v True by (cases "le_val (drop len ?bs)") simp_all
    also have "\<dots> \<longleftrightarrow> (\<forall>i. len \<le> i \<and> i < 8 * bn_width a \<longrightarrow> ?bs ! i = 0)"
    proof -
      have "(\<forall>b \<in> set (drop len ?bs). b = 0) \<longleftrightarrow> (\<forall>j < 8 * bn_width a - len. ?bs ! (len + j) = 0)" using len True by (simp add: all_set_conv_all_nth)
      also have "\<dots> \<longleftrightarrow> (\<forall>i. len \<le> i \<and> i < 8 * bn_width a \<longrightarrow> ?bs ! i = 0)"
      proof (intro iffI allI impI)
        fix i assume z: "\<forall>j < 8 * bn_width a - len. ?bs ! (len + j) = 0" and i: "len \<le> i \<and> i < 8 * bn_width a"
        then have "i - len < 8 * bn_width a - len" by (simp add: diff_less_mono)
        then show "?bs ! i = 0" using z i by (auto dest: spec [of _ "i - len"])
      qed (simp add: less_diff_conv)
      finally show ?thesis unfolding z .
    qed
    finally show ?thesis using f by simp
  next
    case False
    have "(256::nat) ^ (8 * bn_width a) \<le> 256 ^ len" using False by (intro power_increasing) simp_all
    then have "bn_abs a < 256 ^ len" using bn_abs_less [OF a] unfolding BN_BASE_256 by linarith
    moreover have "\<not> (len \<le> i \<and> i < 8 * bn_width a)" for i using False by linarith
    ultimately show ?thesis unfolding f by blast
  qed
qed

text \<open>The \<open>len\<close> bytes of a magnitude that fits.\<close>

lemma padded_bytes:
  assumes a: "bn_ok a" and v: "bn_abs a < 256 ^ len" and k: "k = (if len < bn_width a * 8 then len else bn_width a * 8)"
  shows "take k (bytes_of_limbs (bn_d a)) @ replicate (len - k) 0 = rev (be_bytes len (bn_abs a))"
proof -
  let ?bs = "take k (bytes_of_limbs (bn_limbs a))"
  have kw: "k \<le> 8 * bn_width a" "k \<le> len" by (simp_all add: k mult.commute)
  have len: "length (bytes_of_limbs (bn_limbs a)) = 8 * bn_width a" using length_bn_limbs [OF a] by simp
  have "le_val ?bs = bn_abs a"
  proof (cases "len < bn_width a * 8")
    case True
    have "bn_abs a = le_val ?bs + 256 ^ k * le_val (drop k (bytes_of_limbs (bn_limbs a)))"
      using le_val_append [of ?bs "drop k (bytes_of_limbs (bn_limbs a))"] len kw by (simp add: bn_abs_def le_val_bytes_of_limbs min_absorb2)
    then show ?thesis using v True k by (cases "le_val (drop k (bytes_of_limbs (bn_limbs a)))") simp_all
  qed (use len k in \<open>simp add: bn_abs_def le_val_bytes_of_limbs mult.commute\<close>)
  moreover have "take k (bytes_of_limbs (bn_d a)) = ?bs" using kw by (simp add: bn_limbs_def take_bytes_of_limbs [symmetric] min_absorb1)
  moreover have "length ?bs = k" using len kw by simp
  ultimately have "le_val (take k (bytes_of_limbs (bn_d a)) @ replicate (len - k) 0) = bn_abs a"
    "length (take k (bytes_of_limbs (bn_d a)) @ replicate (len - k) 0) = len" using kw by (simp_all add: le_val_append)
  then show ?thesis
    using arg_cong [OF be_bytes_be_val [of "rev (take k (bytes_of_limbs (bn_d a)) @ replicate (len - k) 0)"], of rev]
    unfolding le_val_def length_rev rev_rev_ident by simp
qed

lemma BN_bn2le_padded_spec:
  assumes a: "bn_ok a"
  shows "BN_bn2le_padded len a = (if bn_abs a < 256 ^ len then Some (rev (be_bytes len (bn_abs a))) else None)"
proof -
  have "\<not> len < bn_width a * 8 \<Longrightarrow> bn_abs a < 256 ^ len"
  proof -
    assume "\<not> len < bn_width a * 8"
    then have "(256 :: nat) ^ (8 * bn_width a) \<le> 256 ^ len" by (intro power_increasing) simp_all
    then show "bn_abs a < 256 ^ len" using bn_abs_less [OF a] unfolding BN_BASE_256 by linarith
  qed
  then show ?thesis
    using fits_in_bytes_spec [OF a, of len] padded_bytes [OF a _ refl, of len]
    by (auto simp: BN_bn2le_padded_def Let_def BN_BYTES_def)
qed

lemma store_reversed:
  "k \<le> len \<Longrightarrow> len = length out \<Longrightarrow> k \<le> length bs \<Longrightarrow>
    foldl (\<lambda>out i. out[len - i - 1 := bs ! i]) out [0..<k] = take (len - k) out @ rev (take k bs)"
proof (induction k)
  case (Suc k)
  let ?o = "take (len - k) out @ rev (take k bs)"
  have "foldl (\<lambda>out i. out[len - i - 1 := bs ! i]) out [0..<Suc k] = ?o[len - k - 1 := bs ! k]" using Suc by simp
  also have "take (len - k) out = take (len - Suc k) out @ [out ! (len - Suc k)]"
    using Suc.prems take_Suc_conv_app_nth [of "len - Suc k" out] by (simp add: Suc_diff_Suc)
  finally show ?case using Suc.prems by (simp add: take_Suc_conv_app_nth list_update_append)
qed simp

lemma BN_bn2bin_padded_spec:
  assumes a: "bn_ok a"
  shows "BN_bn2bin_padded len a = (if bn_abs a < 256 ^ len then Some (be_bytes len (bn_abs a)) else None)"
proof -
  let ?bs = "bytes_of_limbs (bn_d a)"
  define k where "k = (if len < bn_width a * 8 then len else bn_width a * 8)"
  have k: "k \<le> len" "k \<le> length ?bs" using a by (auto simp: k_def bn_ok_def)
  have out: "replicate (len - k) 0 @ drop (len - k) (foldl (\<lambda>out i. out[len - i - 1 := ?bs ! i]) (replicate len 0) [0..<k]) =
      rev (take k ?bs @ replicate (len - k) 0)"
    using store_reversed [of k len "replicate len 0" ?bs] k by simp
  have "BN_bn2bin_padded len a = map_option rev (BN_bn2le_padded len a)"
    using out by (simp add: BN_bn2bin_padded_def BN_bn2le_padded_def Let_def BN_BYTES_def flip: k_def)
  then show ?thesis by (simp add: BN_bn2le_padded_spec [OF a])
qed

lemma BN_get_u64_spec:
  assumes a: "bn_ok a"
  shows "BN_get_u64 a = (if bn_abs a < 2 ^ 64 then Some (word_of_nat (bn_abs a)) else None)"
    "BN_get_word a = (if bn_abs a < 2 ^ 64 then word_of_nat (bn_abs a) else BN_MASK2)"
proof -
  note m = minimal_limbs [OF a]
  consider "bn_minimal_width a = 0" | "bn_minimal_width a = Suc 0" | n where "bn_minimal_width a = Suc (Suc n)"
    by (metis not0_implies_Suc)
  then have "BN_get_u64 a = (if bn_abs a < 2 ^ 64 then Some (word_of_nat (bn_abs a)) else None) \<and>
    BN_get_word a = (if bn_abs a < 2 ^ 64 then word_of_nat (bn_abs a) else BN_MASK2)"
  proof cases
    case 1
    then show ?thesis using m(3) by (simp add: BN_get_u64_def BN_get_word_def)
  next
    case 2
    then have "0 < length (bn_d a)" using m(2) a by (auto simp: bn_ok_def)
    then have "bn_abs a = unat (bn_d a ! 0)" using m(1) 2 by (cases "bn_d a") auto
    then show ?thesis using 2 limb_less [of "bn_d a ! 0"] by (simp add: BN_get_u64_def BN_get_word_def BN_BASE_def)
  next
    case (3 n)
    have l: "Suc n < length (bn_d a)" using m(2) 3 a by (simp add: bn_ok_def)
    have "0 < unat (bn_d a ! Suc n)" using m(4) 3 by (simp add: unat_gt_0)
    then have "BN_BASE ^ Suc n * 1 \<le> BN_BASE ^ Suc n * unat (bn_d a ! Suc n)" by (intro mult_le_mono2) simp
    moreover have "bn_abs a = wval (take (Suc n) (bn_d a)) + BN_BASE ^ Suc n * unat (bn_d a ! Suc n)"
      using m(1) 3 l by (simp add: take_Suc_conv_app_nth [of "Suc n"] wval_snoc)
    moreover have "BN_BASE \<le> BN_BASE ^ Suc n" by simp
    ultimately have "\<not> bn_abs a < 2 ^ 64" unfolding BN_BASE_def by linarith
    then show ?thesis using 3 by (simp add: BN_get_u64_def BN_get_word_def)
  qed
  then show "BN_get_u64 a = (if bn_abs a < 2 ^ 64 then Some (word_of_nat (bn_abs a)) else None)"
    "BN_get_word a = (if bn_abs a < 2 ^ 64 then word_of_nat (bn_abs a) else BN_MASK2)" by blast+
qed


end
