(* ===== verification/Bn_Words.thy ===== *)
theory Bn_Words
  imports Bn_Bytes
begin

text \<open>
  \<^verbatim>\<open>crypto/fipsmodule/bn/generic.c\<close>: products of limbs. The row loops are unrolled by four in the code; each round does the
  step given here. The products of fixed size (\<open>comba\<close>) add the partial products column by column in three words.
\<close>

section \<open>Code\<close>

text \<open>The halves of two words.\<close>

definition Lw :: "u128 \<Rightarrow> limb" where
  "Lw t = ucast t"

definition Hw :: "u128 \<Rightarrow> limb" where
  "Hw t = ucast (drop_bit BN_BITS2 t)"

text \<open>The limbs written, and the carry.\<close>

fun mul_add_loop :: "limb \<Rightarrow> limb \<Rightarrow> limb list \<Rightarrow> limb list \<Rightarrow> limb list \<times> limb" where
  "mul_add_loop w c (r # rs) (a # as) =
     (let t = ucast w * ucast a + ucast r + ucast c; (ws, c) = mul_add_loop w (Hw t) rs as in (Lw t # ws, c))"
| "mul_add_loop w c _ _ = ([], c)"

definition bn_mul_add_words :: "limb list \<Rightarrow> limb list \<Rightarrow> nat \<Rightarrow> limb \<Rightarrow> limb list \<times> limb" where
  "bn_mul_add_words rp ap num w = mul_add_loop w 0 (take num rp) (take num ap)"

fun mul_loop :: "limb \<Rightarrow> limb \<Rightarrow> limb list \<Rightarrow> limb list \<times> limb" where
  "mul_loop w c (a # as) = (let t = ucast w * ucast a + ucast c; (ws, c) = mul_loop w (Hw t) as in (Lw t # ws, c))"
| "mul_loop w c [] = ([], c)"

definition bn_mul_words :: "limb list \<Rightarrow> nat \<Rightarrow> limb \<Rightarrow> limb list \<times> limb" where
  "bn_mul_words ap num w = mul_loop w 0 (take num ap)"

definition bn_sqr_words :: "limb list \<Rightarrow> nat \<Rightarrow> limb list" where
  "bn_sqr_words a n = concat (map (\<lambda>a. let t = ucast a * ucast a in [Lw t, Hw t]) (take n a))"

text \<open>The three words that a column is added up in, from the lowest.\<close>

definition mul_add_c :: "limb \<Rightarrow> limb \<Rightarrow> limb \<times> limb \<times> limb \<Rightarrow> limb \<times> limb \<times> limb" where
  "mul_add_c a b =
     (\<lambda>(c0, c1, c2).
        let t = ucast a * ucast b + ucast c0; hi = Hw t; c1 = c1 + hi in (Lw t, c1, if c1 < hi then c2 + 1 else c2))"

definition mul_add_c2 :: "limb \<Rightarrow> limb \<Rightarrow> limb \<times> limb \<times> limb \<Rightarrow> limb \<times> limb \<times> limb" where
  "mul_add_c2 a b =
     (\<lambda>(c0, c1, c2).
        let t = ucast a * ucast b; tt = t + ucast c0; c0 = Lw tt; hi = Hw tt; c1 = c1 + hi; c2 = (if c1 < hi then c2 + 1 else c2);
            t = t + ucast c0; hi = Hw t; c1 = c1 + hi
        in (Lw t, c1, if c1 < hi then c2 + 1 else c2))"

text \<open>
  The sequence of a comba routine: in each column the partial products that are added, \<open>Once i j\<close> for \<open>mul_add_c(a[i], b[j])\<close> and
  \<open>sqr_add_c(a, i)\<close>, \<open>Twice i j\<close> for \<open>sqr_add_c2(a, i, j)\<close>; behind a column its low word is stored and cleared, and the
  words change places.
\<close>

datatype partial_product = Once nat nat | Twice nat nat

fun comba_step :: "limb list \<Rightarrow> limb list \<Rightarrow> partial_product \<Rightarrow> limb \<times> limb \<times> limb \<Rightarrow> limb \<times> limb \<times> limb" where
  "comba_step a b (Once i j) = mul_add_c (a ! i) (b ! j)"
| "comba_step a b (Twice i j) = mul_add_c2 (a ! i) (b ! j)"

fun comba_columns :: "limb list \<Rightarrow> limb list \<Rightarrow> partial_product list list \<Rightarrow> limb \<times> limb \<times> limb \<Rightarrow> limb list" where
  "comba_columns a b [] (c1, c2, c3) = [c1]"
| "comba_columns a b (col # cols) c = (case fold (comba_step a b) col c of (c1, c2, c3) \<Rightarrow> c1 # comba_columns a b cols (c2, c3, 0))"

definition mul_columns8 :: "partial_product list list" where
  "mul_columns8 =
    [[Once 0 0],
     [Once 0 1, Once 1 0],
     [Once 2 0, Once 1 1, Once 0 2],
     [Once 0 3, Once 1 2, Once 2 1, Once 3 0],
     [Once 4 0, Once 3 1, Once 2 2, Once 1 3, Once 0 4],
     [Once 0 5, Once 1 4, Once 2 3, Once 3 2, Once 4 1, Once 5 0],
     [Once 6 0, Once 5 1, Once 4 2, Once 3 3, Once 2 4, Once 1 5, Once 0 6],
     [Once 0 7, Once 1 6, Once 2 5, Once 3 4, Once 4 3, Once 5 2, Once 6 1, Once 7 0],
     [Once 7 1, Once 6 2, Once 5 3, Once 4 4, Once 3 5, Once 2 6, Once 1 7],
     [Once 2 7, Once 3 6, Once 4 5, Once 5 4, Once 6 3, Once 7 2],
     [Once 7 3, Once 6 4, Once 5 5, Once 4 6, Once 3 7],
     [Once 4 7, Once 5 6, Once 6 5, Once 7 4],
     [Once 7 5, Once 6 6, Once 5 7],
     [Once 6 7, Once 7 6],
     [Once 7 7]]"

definition bn_mul_comba8 :: "limb list \<Rightarrow> limb list \<Rightarrow> limb list" where
  "bn_mul_comba8 a b = comba_columns a b mul_columns8 (0, 0, 0)"

definition mul_columns4 :: "partial_product list list" where
  "mul_columns4 =
    [[Once 0 0],
     [Once 0 1, Once 1 0],
     [Once 2 0, Once 1 1, Once 0 2],
     [Once 0 3, Once 1 2, Once 2 1, Once 3 0],
     [Once 3 1, Once 2 2, Once 1 3],
     [Once 2 3, Once 3 2],
     [Once 3 3]]"

definition bn_mul_comba4 :: "limb list \<Rightarrow> limb list \<Rightarrow> limb list" where
  "bn_mul_comba4 a b = comba_columns a b mul_columns4 (0, 0, 0)"

definition sqr_columns8 :: "partial_product list list" where
  "sqr_columns8 =
    [[Once 0 0],
     [Twice 1 0],
     [Once 1 1, Twice 2 0],
     [Twice 3 0, Twice 2 1],
     [Once 2 2, Twice 3 1, Twice 4 0],
     [Twice 5 0, Twice 4 1, Twice 3 2],
     [Once 3 3, Twice 4 2, Twice 5 1, Twice 6 0],
     [Twice 7 0, Twice 6 1, Twice 5 2, Twice 4 3],
     [Once 4 4, Twice 5 3, Twice 6 2, Twice 7 1],
     [Twice 7 2, Twice 6 3, Twice 5 4],
     [Once 5 5, Twice 6 4, Twice 7 3],
     [Twice 7 4, Twice 6 5],
     [Once 6 6, Twice 7 5],
     [Twice 7 6],
     [Once 7 7]]"

definition bn_sqr_comba8 :: "limb list \<Rightarrow> limb list" where
  "bn_sqr_comba8 a = comba_columns a a sqr_columns8 (0, 0, 0)"

definition sqr_columns4 :: "partial_product list list" where
  "sqr_columns4 =
    [[Once 0 0],
     [Twice 1 0],
     [Once 1 1, Twice 2 0],
     [Twice 3 0, Twice 2 1],
     [Once 2 2, Twice 3 1],
     [Twice 3 2],
     [Once 3 3]]"

definition bn_sqr_comba4 :: "limb list \<Rightarrow> limb list" where
  "bn_sqr_comba4 a = comba_columns a a sqr_columns4 (0, 0, 0)"

section \<open>Two words\<close>

lemma unat_u128 [simp]: "unat (ucast (x :: limb) :: u128) = unat x"
proof -
  have "unat x < 2 ^ 128" by (rule less_le_trans [OF limb_less]) (simp add: BN_BASE_def)
  then show ?thesis by (simp add: unsigned_ucast_eq take_bit_eq_mod)
qed

lemma Lw_Hw: "unat (Lw t) = unat t mod BN_BASE" "unat (Hw t) = unat t div BN_BASE"
proof -
  have "unat t div BN_BASE < BN_BASE"
    using unsigned_less [of t] by (simp add: BN_BASE_def div_less_iff_less_mult)
  then have "unat t div BN_BASE mod BN_BASE = unat t div BN_BASE" by simp
  then show "unat (Lw t) = unat t mod BN_BASE" "unat (Hw t) = unat t div BN_BASE"
    by (simp_all add: Lw_def Hw_def unsigned_ucast_eq take_bit_eq_mod unat_drop_bit BN_BITS2_def BN_BASE_def)
qed

lemma Lw_Hw_sum: "unat (Lw t) + BN_BASE * unat (Hw t) = unat t"
  unfolding Lw_Hw by simp

lemma product_less:
  assumes "a < BN_BASE" "b < BN_BASE" "c < BN_BASE" "d < BN_BASE"
  shows "a * b + c + d < 2 ^ 128"
proof -
  have "a * b \<le> (BN_BASE - 1) * (BN_BASE - 1)" using assms by (intro mult_mono) auto
  then show ?thesis using assms(3,4) by (simp add: BN_BASE_def)
qed

text \<open>The sums of the macros do not overflow two words.\<close>

lemma unat_mul_add: "unat (ucast w * ucast a + ucast r + ucast c :: u128) = unat (w :: limb) * unat (a :: limb) + unat (r :: limb) + unat (c :: limb)"
  using product_less [OF limb_less [of w] limb_less [of a] limb_less [of r] limb_less [of c]]
  by (simp add: unat_word_ariths mod_simps)

lemma unat_mul: "unat (ucast w * ucast a + ucast c :: u128) = unat (w :: limb) * unat (a :: limb) + unat (c :: limb)"
  using unat_mul_add [of w a 0 c] by simp

lemma unat_sqr: "unat (ucast w * ucast a :: u128) = unat (w :: limb) * unat (a :: limb)"
  using unat_mul_add [of w a 0 0] by simp

section \<open>Rows\<close>

lemma mul_add_loop_spec:
  "length rs = length as \<Longrightarrow> \<exists>ws c'. mul_add_loop w c rs as = (ws, c') \<and> length ws = length as \<and>
     wval ws + BN_BASE ^ length as * unat c' = wval rs + wval as * unat w + unat c"
proof (induction w c rs as rule: mul_add_loop.induct)
  case (1 w c r rs a as)
  define t :: u128 where "t = ucast w * ucast a + ucast r + ucast c"
  obtain ws c' where r: "mul_add_loop w (Hw t) rs as = (ws, c')" "length ws = length as"
    "wval ws + BN_BASE ^ length as * unat c' = wval rs + wval as * unat w + unat (Hw t)"
    using 1 unfolding t_def by auto
  have "unat (Lw t) + BN_BASE * (wval ws + BN_BASE ^ length as * unat c') = unat t + BN_BASE * (wval rs + wval as * unat w)"
    unfolding r(3) Lw_Hw_sum [of t, symmetric] by (simp add: algebra_simps)
  moreover have "mul_add_loop w c (r # rs) (a # as) = (Lw t # ws, c')" using r(1) by (simp add: t_def)
  ultimately show ?case using r(2) unat_mul_add [of w a r c, folded t_def] by (simp add: algebra_simps)
qed auto

lemma bn_mul_add_words_spec:
  assumes "num \<le> length rp" "num \<le> length ap"
  obtains ws c where "bn_mul_add_words rp ap num w = (ws, c)" "length ws = num"
    "wval ws + BN_BASE ^ num * unat c = wval (take num rp) + wval (take num ap) * unat w"
  using mul_add_loop_spec [of "take num rp" "take num ap" w 0] assms by (auto simp: bn_mul_add_words_def)

lemma mul_loop_spec:
  "\<exists>ws c'. mul_loop w c as = (ws, c') \<and> length ws = length as \<and> wval ws + BN_BASE ^ length as * unat c' = wval as * unat w + unat c"
proof (induction w c as rule: mul_loop.induct)
  case (1 w c a as)
  define t :: u128 where "t = ucast w * ucast a + ucast c"
  obtain ws c' where r: "mul_loop w (Hw t) as = (ws, c')" "length ws = length as"
    "wval ws + BN_BASE ^ length as * unat c' = wval as * unat w + unat (Hw t)"
    using 1 unfolding t_def by auto
  have "unat (Lw t) + BN_BASE * (wval ws + BN_BASE ^ length as * unat c') = unat t + BN_BASE * (wval as * unat w)"
    unfolding r(3) Lw_Hw_sum [of t, symmetric] by (simp add: algebra_simps)
  moreover have "mul_loop w c (a # as) = (Lw t # ws, c')" using r(1) by (simp add: t_def)
  ultimately show ?case using r(2) unat_mul [of w a c, folded t_def] by (simp add: algebra_simps)
qed auto

lemma bn_mul_words_spec:
  assumes "num \<le> length ap"
  obtains ws c where "bn_mul_words ap num w = (ws, c)" "length ws = num"
    "wval ws + BN_BASE ^ num * unat c = wval (take num ap) * unat w"
  using mul_loop_spec [of w 0 "take num ap"] assms by (auto simp: bn_mul_words_def)

text \<open>The squares of the limbs, each at its place.\<close>

fun squares :: "limb list \<Rightarrow> nat" where
  "squares [] = 0"
| "squares (x # xs) = unat x ^ 2 + BN_BASE ^ 2 * squares xs"

lemma bn_sqr_words_spec: "n \<le> length a \<Longrightarrow> length (bn_sqr_words a n) = 2 * n" "wval (bn_sqr_words a n) = squares (take n a)"
proof -
  have "length (bn_sqr_words a n) = 2 * length (take n a)"
    by (simp add: bn_sqr_words_def Let_def length_concat comp_def sum_list_triv)
  then show "n \<le> length a \<Longrightarrow> length (bn_sqr_words a n) = 2 * n" by simp
  have "wval (concat (map (\<lambda>a. let t = ucast a * ucast a in [Lw t, Hw t]) xs)) = squares xs" for xs :: "limb list"
  proof (induction xs)
    case (Cons x xs)
    have "unat (Lw (ucast x * ucast x)) + BN_BASE * unat (Hw (ucast x * ucast x)) = unat x ^ 2" by (simp add: Lw_Hw_sum unat_sqr power2_eq_square)
    then show ?case using Cons by (simp add: Let_def power2_eq_square algebra_simps)
  qed simp
  then show "wval (bn_sqr_words a n) = squares (take n a)" by (simp add: bn_sqr_words_def)
qed

section \<open>Columns\<close>

lemma add_carry: "unat (c + h) + BN_BASE * (if c + h < h then 1 else 0) = unat c + unat (h :: limb)"
  using unat_limb_add [of c h] limb_less [of c] limb_less [of h] by (auto simp: word_less_nat_alt simp del: limb_less split: if_splits)

lemma mul_add_c_spec:
  assumes "mul_add_c a b (c0, c1, c2) = (d0, d1, d2)"
  shows "wval [d0, d1, d2] = (wval [c0, c1, c2] + unat a * unat b) mod BN_BASE ^ 3"
proof -
  define t :: u128 where "t = ucast a * ucast b + ucast c0"
  define k :: limb where "k = (if c1 + Hw t < Hw t then 1 else 0)"
  have d: "d0 = Lw t" "d1 = c1 + Hw t" "d2 = c2 + k" using assms by (auto simp: mul_add_c_def Let_def t_def k_def)
  have 1: "unat a * unat b + unat c0 = unat d0 + BN_BASE * unat (Hw t)" unfolding d Lw_Hw_sum by (simp add: t_def unat_mul)
  have 2: "unat c1 + unat (Hw t) = unat d1 + BN_BASE * unat k" using add_carry [of c1 "Hw t"] by (auto simp: d k_def)
  have 3: "unat c2 + unat k = unat d2 + BN_BASE * ((unat c2 + unat k) div BN_BASE)" by (simp add: d unat_limb_arith)
  define q where "q = (unat c2 + unat k) div BN_BASE"
  have "wval [c0, c1, c2] + unat a * unat b = unat d0 + BN_BASE * (unat c1 + unat (Hw t)) + BN_BASE * (BN_BASE * unat c2)"
    using 1 by (simp add: algebra_simps)
  also have "\<dots> = unat d0 + BN_BASE * unat d1 + BN_BASE * (BN_BASE * (unat c2 + unat k))" unfolding 2 by (simp add: algebra_simps)
  also have "\<dots> = wval [d0, d1, d2] + BN_BASE ^ 3 * q" unfolding 3 [folded q_def] by (simp add: algebra_simps power3_eq_cube)
  finally have "(wval [c0, c1, c2] + unat a * unat b) mod BN_BASE ^ 3 = wval [d0, d1, d2] mod BN_BASE ^ 3" by simp
  also have "\<dots> = wval [d0, d1, d2]" using wval_less [of "[d0, d1, d2]"] by (intro mod_less) (simp add: numeral_3_eq_3)
  finally show ?thesis by simp
qed

lemma mul_add_c2_twice: "mul_add_c2 a b c = mul_add_c a b (mul_add_c a b c)"
  by (simp add: mul_add_c_def mul_add_c2_def Let_def split: prod.splits)

fun product_value :: "limb list \<Rightarrow> limb list \<Rightarrow> partial_product \<Rightarrow> nat" where
  "product_value a b (Once i j) = unat (a ! i) * unat (b ! j)"
| "product_value a b (Twice i j) = 2 * (unat (a ! i) * unat (b ! j))"

lemma comba_step_spec:
  assumes "comba_step a b p (c0, c1, c2) = (d0, d1, d2)"
  shows "wval [d0, d1, d2] = (wval [c0, c1, c2] + product_value a b p) mod BN_BASE ^ 3"
proof (cases p)
  case (Once i j)
  then show ?thesis using mul_add_c_spec assms by simp
next
  case (Twice i j)
  obtain e0 e1 e2 where e: "mul_add_c (a ! i) (b ! j) (c0, c1, c2) = (e0, e1, e2)" by (metis prod_cases3)
  then have d: "mul_add_c (a ! i) (b ! j) (e0, e1, e2) = (d0, d1, d2)" using assms Twice by (simp add: mul_add_c2_twice)
  show ?thesis unfolding mul_add_c_spec [OF d] mul_add_c_spec [OF e] by (simp add: Twice mod_simps mult_2 add.assoc)
qed

lemma comba_fold_spec:
  assumes "fold (comba_step a b) col (c0, c1, c2) = (d0, d1, d2)"
  shows "wval [d0, d1, d2] = (wval [c0, c1, c2] + sum_list (map (product_value a b) col)) mod BN_BASE ^ 3"
  using assms
proof (induction col arbitrary: c0 c1 c2)
  case Nil
  then show ?case using wval_less [of "[d0, d1, d2]"] by (simp add: numeral_3_eq_3)
next
  case (Cons p col)
  obtain e0 e1 e2 where e: "comba_step a b p (c0, c1, c2) = (e0, e1, e2)" by (metis prod_cases3)
  then have "fold (comba_step a b) col (e0, e1, e2) = (d0, d1, d2)" using Cons.prems by simp
  from Cons.IH [OF this] show ?case unfolding comba_step_spec [OF e] by (simp add: mod_simps add.assoc)
qed

fun weight :: "partial_product \<Rightarrow> nat" where
  "weight (Once i j) = 1"
| "weight (Twice i j) = 2"

fun column_sum :: "limb list \<Rightarrow> limb list \<Rightarrow> partial_product list list \<Rightarrow> nat" where
  "column_sum a b [] = 0"
| "column_sum a b (col # cols) = sum_list (map (product_value a b) col) + BN_BASE * column_sum a b cols"

lemma column_bound: "sum_list (map (product_value a b) col) \<le> sum_list (map weight col) * (BN_BASE * BN_BASE)"
proof (induction col)
  case (Cons p col)
  have "unat (a ! i) * unat (b ! j) \<le> BN_BASE * BN_BASE" for i j
    using limb_less [of "a ! i"] limb_less [of "b ! j"] by (intro mult_le_mono) (simp_all add: less_imp_le)
  then have "product_value a b p \<le> weight p * (BN_BASE * BN_BASE)" by (cases p) simp_all
  then show ?case using Cons by (simp add: algebra_simps)
qed simp

text \<open>The columns do not overflow the three words, so that the limbs are those of their sum.\<close>

lemma comba_columns_spec:
  assumes "\<forall>col \<in> set cols. sum_list (map weight col) \<le> 8"
  shows "length (comba_columns a b cols (c0, c1, 0)) = Suc (length cols) \<and>
    wval (comba_columns a b cols (c0, c1, 0)) = (wval [c0, c1] + column_sum a b cols) mod BN_BASE ^ Suc (length cols)"
  using assms
proof (induction cols arbitrary: c0 c1)
  case (Cons col cols)
  define s where "s = sum_list (map (product_value a b) col)"
  obtain d0 d1 d2 where d: "fold (comba_step a b) col (c0, c1, 0) = (d0, d1, d2)" by (metis prod_cases3)
  have "s \<le> 8 * (BN_BASE * BN_BASE)" unfolding s_def using column_bound [of a b col] Cons.prems
    by (auto intro: le_trans mult_le_mono1)
  moreover have "wval [c0, c1] < BN_BASE * BN_BASE" using wval_less [of "[c0, c1]"] by simp
  ultimately have "wval [c0, c1, 0] + s < BN_BASE ^ 3" by (simp add: BN_BASE_def)
  then have v: "wval [d0, d1, d2] = wval [c0, c1] + s" using comba_fold_spec [OF d] by (simp add: s_def)
  have IH: "length (comba_columns a b cols (d1, d2, 0)) = Suc (length cols)"
    "wval (comba_columns a b cols (d1, d2, 0)) = (wval [d1, d2] + column_sum a b cols) mod BN_BASE ^ Suc (length cols)"
    using Cons.IH [of d1 d2] Cons.prems by simp_all
  have "wval (comba_columns a b (col # cols) (c0, c1, 0)) =
      unat d0 + BN_BASE * ((wval [d1, d2] + column_sum a b cols) mod BN_BASE ^ Suc (length cols))"
    using IH(2) by (simp add: d)
  also have "\<dots> = (unat d0 + BN_BASE * (wval [d1, d2] + column_sum a b cols)) mod BN_BASE ^ Suc (length (col # cols))"
    using mod_mult2_eq [of "unat d0 + BN_BASE * (wval [d1, d2] + column_sum a b cols)" BN_BASE "BN_BASE ^ Suc (length cols)"] by simp
  also have "unat d0 + BN_BASE * (wval [d1, d2] + column_sum a b cols) = wval [d0, d1, d2] + BN_BASE * column_sum a b cols"
    by (simp add: algebra_simps)
  also have "\<dots> = wval [c0, c1] + column_sum a b (col # cols)" unfolding v by (simp add: s_def)
  finally show ?case using IH(1) by (simp add: d)
qed simp

text \<open>The partial products by their indices.\<close>

fun indices :: "partial_product \<Rightarrow> (nat \<times> nat) list" where
  "indices (Once i j) = [(i, j)]"
| "indices (Twice i j) = [(i, j), (j, i)]"

text \<open>Column \<open>k\<close> holds products of the weight of limb \<open>k\<close>, and every pair of limbs is multiplied once.\<close>

definition complete_columns :: "nat \<Rightarrow> partial_product list list \<Rightarrow> bool" where
  "complete_columns n cols \<longleftrightarrow>
     list_all (\<lambda>(k, col). list_all (\<lambda>p. list_all (\<lambda>(i, j). i + j = k) (indices p)) col) (zip [0..<length cols] cols) \<and>
     list_all (\<lambda>col. sum_list (map weight col) \<le> 8) cols \<and>
     (let ps = concat (map indices (concat cols)) in distinct ps \<and> set ps = {..<n} \<times> {..<n})"

abbreviation pair_value :: "limb list \<Rightarrow> limb list \<Rightarrow> nat \<times> nat \<Rightarrow> nat" where
  "pair_value a b \<equiv> (\<lambda>(i, j). unat (a ! i) * unat (b ! j) * BN_BASE ^ (i + j))"

definition no_twice :: "partial_product \<Rightarrow> bool" where
  "no_twice p \<longleftrightarrow> (case p of Once i j \<Rightarrow> True | Twice i j \<Rightarrow> False)"

lemma column_pairs:
  assumes "a = b \<or> list_all no_twice col" "list_all (\<lambda>p. list_all (\<lambda>(i, j). i + j = k) (indices p)) col"
  shows "BN_BASE ^ k * sum_list (map (product_value a b) col) = sum_list (map (pair_value a b) (concat (map indices col)))"
  using assms
proof (induction col)
  case (Cons p col)
  have "BN_BASE ^ k * product_value a b p = sum_list (map (pair_value a b) (indices p))"
    using Cons.prems by (cases p) (auto simp: no_twice_def algebra_simps)
  then show ?case using Cons by (auto simp: algebra_simps)
qed simp

lemma column_sum_pairs:
  assumes "a = b \<or> list_all (list_all no_twice) cols"
    and "list_all (\<lambda>(k, col). list_all (\<lambda>p. list_all (\<lambda>(i, j). i + j = k) (indices p)) col) (zip [m..<m + length cols] cols)"
  shows "BN_BASE ^ m * column_sum a b cols = sum_list (map (pair_value a b) (concat (map indices (concat cols))))"
  using assms
proof (induction cols arbitrary: m)
  case (Cons col cols)
  have u: "[m..<m + length (col # cols)] = m # [Suc m..<Suc m + length cols]" by (simp add: upt_conv_Cons del: upt_Suc)
  have "BN_BASE ^ m * sum_list (map (product_value a b) col) = sum_list (map (pair_value a b) (concat (map indices col)))"
    using Cons.prems unfolding u by (intro column_pairs) auto
  moreover have "BN_BASE ^ Suc m * column_sum a b cols = sum_list (map (pair_value a b) (concat (map indices (concat cols))))"
    using Cons.prems unfolding u by (intro Cons.IH) auto
  ultimately show ?case by (simp add: algebra_simps)
qed simp

lemma wval_sum: "wval ws = (\<Sum>i<length ws. unat (ws ! i) * BN_BASE ^ i)"
  by (induction ws) (simp_all add: sum.lessThan_Suc_shift sum_distrib_left algebra_simps del: sum.lessThan_Suc)

lemma wval_product:
  assumes "length a = n" "length b = n" "distinct ps" "set ps = {..<n} \<times> {..<n}"
  shows "sum_list (map (pair_value a b) ps) = wval a * wval b"
proof -
  have "sum_list (map (pair_value a b) ps) = (\<Sum>(i, j) \<in> {..<n} \<times> {..<n}. pair_value a b (i, j))"
    using assms(3,4) by (simp add: sum_list_distinct_conv_sum_set)
  also have "\<dots> = (\<Sum>i<n. \<Sum>j<n. (unat (a ! i) * BN_BASE ^ i) * (unat (b ! j) * BN_BASE ^ j))"
    unfolding sum.cartesian_product by (rule sum.cong) (auto simp: power_add ac_simps)
  also have "\<dots> = wval a * wval b" by (simp add: wval_sum [of a] wval_sum [of b] assms sum_product)
  finally show ?thesis .
qed

lemma comba_product:
  assumes c: "complete_columns n cols" and l: "length a = n" "length b = n" "Suc (length cols) = 2 * n"
    and t: "a = b \<or> list_all (list_all no_twice) cols"
  shows "length (comba_columns a b cols (0, 0, 0)) = 2 * n" "wval (comba_columns a b cols (0, 0, 0)) = wval a * wval b"
proof -
  have "column_sum a b cols = sum_list (map (pair_value a b) (concat (map indices (concat cols))))"
    using column_sum_pairs [OF t, of 0] c by (simp add: complete_columns_def)
  also have "\<dots> = wval a * wval b" using c by (intro wval_product [OF l(1,2)]) (simp_all add: complete_columns_def Let_def)
  finally have v: "column_sum a b cols = wval a * wval b" .
  have "wval a * wval b < BN_BASE ^ n * BN_BASE ^ n" using wval_less [of a] wval_less [of b] l by (intro mult_strict_mono') simp_all
  then have "wval a * wval b < BN_BASE ^ Suc (length cols)" unfolding l(3) by (simp add: power_add mult_2)
  then show "length (comba_columns a b cols (0, 0, 0)) = 2 * n" "wval (comba_columns a b cols (0, 0, 0)) = wval a * wval b"
    using comba_columns_spec [of cols a b 0 0] c l(3) by (simp_all add: complete_columns_def list_all_iff v)
qed

lemma columns_complete:
  "complete_columns 8 mul_columns8" "complete_columns 4 mul_columns4" "complete_columns 8 sqr_columns8" "complete_columns 4 sqr_columns4"
  by code_simp+

lemma mul_columns_once: "list_all (list_all no_twice) mul_columns8" "list_all (list_all no_twice) mul_columns4"
  by code_simp+

lemma length_columns: "Suc (length mul_columns8) = 2 * 8" "Suc (length mul_columns4) = 2 * 4" "Suc (length sqr_columns8) = 2 * 8"
  "Suc (length sqr_columns4) = 2 * 4"
  by (simp_all add: mul_columns8_def mul_columns4_def sqr_columns8_def sqr_columns4_def)

lemma bn_mul_comba_spec:
  "length a = 8 \<Longrightarrow> length b = 8 \<Longrightarrow> length (bn_mul_comba8 a b) = 16 \<and> wval (bn_mul_comba8 a b) = wval a * wval b"
  "length a = 4 \<Longrightarrow> length b = 4 \<Longrightarrow> length (bn_mul_comba4 a b) = 8 \<and> wval (bn_mul_comba4 a b) = wval a * wval b"
  using comba_product [OF columns_complete(1) _ _ length_columns(1), of a b] comba_product [OF columns_complete(2) _ _ length_columns(2), of a b]
  by (simp_all add: bn_mul_comba8_def bn_mul_comba4_def mul_columns_once)

lemma bn_sqr_comba_spec:
  "length a = 8 \<Longrightarrow> length (bn_sqr_comba8 a) = 16 \<and> wval (bn_sqr_comba8 a) = wval a ^ 2"
  "length a = 4 \<Longrightarrow> length (bn_sqr_comba4 a) = 8 \<and> wval (bn_sqr_comba4 a) = wval a ^ 2"
  using comba_product [OF columns_complete(3) _ _ length_columns(3), of a a] comba_product [OF columns_complete(4) _ _ length_columns(4), of a a]
  by (simp_all add: bn_sqr_comba8_def bn_sqr_comba4_def power2_eq_square)

end
