(* ===== verification/Bn_Mul.thy ===== *)
theory Bn_Mul
  imports Bn_Words
begin

text \<open>
  \<^verbatim>\<open>crypto/fipsmodule/bn/mul.c\<close>: products. The functions on limbs give the limbs that they write; the scratch space \<open>t\<close> of the code holds
  only the intermediate results, which have names here. The objects that a \<open>BN_CTX\<close> hands out are a parameter: \<open>ctx i\<close> is the one of the
  call of \<open>BN_CTX_get\<close> with number \<open>i\<close>, \<open>None\<close> when it fails. \<open>alias\<close> says whether the result is one of the operands.
\<close>

section \<open>Code\<close>

definition BN_MUL_RECURSIVE_SIZE_NORMAL :: nat where
  "BN_MUL_RECURSIVE_SIZE_NORMAL = 16"

definition bn_abs_sub_words :: "limb list \<Rightarrow> limb list \<Rightarrow> nat \<Rightarrow> limb list" where
  "bn_abs_sub_words a b num =
     (let (tmp, borrow) = bn_sub_words a b num; (r, _) = bn_sub_words b a num
      in bn_select_words (0 - borrow) r tmp num)"

text \<open>The rows behind the first; row \<open>k\<close> is added at limb \<open>k\<close>.\<close>

fun mul_rows :: "limb list \<Rightarrow> nat \<Rightarrow> limb list \<Rightarrow> nat \<Rightarrow> limb list \<Rightarrow> limb list" where
  "mul_rows a na [] k r = r"
| "mul_rows a na (w # b) k r = (let (ws, c) = bn_mul_add_words (drop k r) a na w in mul_rows a na b (k + 1) (take k r @ ws @ [c]))"

definition bn_mul_normal :: "limb list \<Rightarrow> nat \<Rightarrow> limb list \<Rightarrow> nat \<Rightarrow> limb list" where
  "bn_mul_normal a na b nb =
     (let (a, na, b, nb) = (if na < nb then (b, nb, a, na) else (a, na, b, nb)) in
      if nb = 0 then replicate na 0
      else let (ws, c) = bn_mul_words a na (b ! 0) in mul_rows a na (take (nb - 1) (drop 1 b)) 1 (ws @ [c]))"

text \<open>The limbs of one operand behind the common ones: the missing limbs of the other are zero.\<close>

fun negate_tail :: "limb \<Rightarrow> limb list \<Rightarrow> limb list \<times> limb" where
  "negate_tail c [] = ([], c)"
| "negate_tail c (t # b) = (let (rs, c') = negate_tail (if t \<noteq> 0 then 1 else c) b in ((0 - t - c) # rs, c'))"

fun borrow_tail :: "limb \<Rightarrow> limb list \<Rightarrow> limb list \<times> limb" where
  "borrow_tail c [] = ([], c)"
| "borrow_tail c (t # a) =
     (if c = 0 then (t # a, c)
      else let (rs, c') = borrow_tail (if t \<noteq> 0 then 0 else c) a in ((t - c) # rs, c'))"

definition bn_sub_part_words :: "limb list \<Rightarrow> limb list \<Rightarrow> nat \<Rightarrow> int \<Rightarrow> limb list \<times> limb" where
  "bn_sub_part_words a b cl dl =
     (let (r, c) = bn_sub_words a b cl in
      if dl = 0 then (r, c)
      else
        let (rs, c) = (if dl < 0 then negate_tail c (take (nat (- dl)) (drop cl b)) else borrow_tail c (take (nat dl) (drop cl a)))
        in (r @ rs, c))"

definition bn_abs_sub_part_words :: "limb list \<Rightarrow> limb list \<Rightarrow> nat \<Rightarrow> int \<Rightarrow> limb list \<times> limb" where
  "bn_abs_sub_part_words a b cl dl =
     (let (tmp, borrow) = bn_sub_part_words a b cl dl;
          (r, _) = bn_sub_part_words b a cl (- dl);
          r_len = cl + nat \<bar>dl\<bar>;
          borrow = 0 - borrow
      in (bn_select_words borrow r tmp r_len, borrow))"

definition bn_abs_sub_consttime :: "allocator \<Rightarrow> (nat \<Rightarrow> bignum option) \<Rightarrow> bignum \<Rightarrow> bignum \<Rightarrow> bignum \<Rightarrow> bool \<times> bignum" where
  "bn_abs_sub_consttime m ctx r a b =
     (let cl = (if bn_width a < bn_width b then bn_width a else bn_width b);
          dl = int (bn_width a) - int (bn_width b);
          r_len = (if bn_width a < bn_width b then bn_width b else bn_width a)
      in case ctx 0 of
           None \<Rightarrow> (False, r)
         | Some tmp \<Rightarrow>
             (case bn_wexpand m r r_len of
                (ok, r) \<Rightarrow>
                  if \<not> ok then (False, r)
                  else if \<not> fst (bn_wexpand m tmp r_len) then (False, r)
                  else (True, r\<lparr>bn_d := fst (bn_abs_sub_part_words (bn_d a) (bn_d b) cl dl) @ drop r_len (bn_d r), bn_width := r_len\<rparr>)))"

text \<open>
  The last part of both recursive multiplications: \<open>r\<close> has \<open>a0*b0\<close> and \<open>a1*b1\<close>, and \<open>t23\<close> the absolute value of \<open>(a0 - a1)*(b1 - b0)\<close>, whose sign mask
  is \<open>neg\<close>. The assertion that no carry is left is a lemma.
\<close>

definition mul_middle :: "nat \<Rightarrow> limb list \<Rightarrow> limb list \<Rightarrow> limb \<Rightarrow> limb list" where
  "mul_middle n r t23 neg =
     (let n2 = n * 2;
          (t01, c) = bn_add_words r (drop n2 r) n2;
          (t45, borrow) = bn_sub_words t01 t23 n2;
          c_neg = c - borrow;
          (t23, carry) = bn_add_words t01 t23 n2;
          c_pos = c + carry;
          t23 = bn_select_words neg t45 t23 n2;
          c = constant_time_select_w neg c_neg c_pos;
          (r12, carry) = bn_add_words (drop n r) t23 n2;
          c = c + carry;
          (r3, _) = carry_loop c (take (n2 + n2 - (n + n2)) (drop (n + n2) r))
      in take n r @ r12 @ r3)"

text \<open>
  Karatsuba multiplication: \<open>a\<close> has \<open>n2 + dna\<close> limbs and \<open>b\<close> has \<open>n2 + dnb\<close>, where \<open>dna\<close> and \<open>dnb\<close> are at most 0.
\<close>

function bn_mul_recursive :: "limb list \<Rightarrow> limb list \<Rightarrow> nat \<Rightarrow> int \<Rightarrow> int \<Rightarrow> limb list" where
  "bn_mul_recursive a b n2 dna dnb =
     (if n2 = 8 \<and> dna = 0 \<and> dnb = 0 then bn_mul_comba8 (take 8 a) (take 8 b)
      else if n2 < BN_MUL_RECURSIVE_SIZE_NORMAL then
        bn_mul_normal a (nat (int n2 + dna)) b (nat (int n2 + dnb)) @ replicate (nat (- (dna + dnb))) 0
      else
        let n = n2 div 2; tna = nat (int n + dna); tnb = nat (int n + dnb);
            (t0, nega) = bn_abs_sub_part_words a (drop n a) tna (int n - int tna);
            (t1, negb) = bn_abs_sub_part_words (drop n b) b tnb (int tnb - int n);
            neg = nega XOR negb;
            (t23, r) =
              (if n = 4 \<and> dna = 0 \<and> dnb = 0 then
                 (bn_mul_comba4 (take 4 t0) (take 4 t1),
                  bn_mul_comba4 (take 4 a) (take 4 b) @ bn_mul_comba4 (take 4 (drop n a)) (take 4 (drop n b)))
               else if n = 8 \<and> dna = 0 \<and> dnb = 0 then
                 (bn_mul_comba8 (take 8 t0) (take 8 t1),
                  bn_mul_comba8 (take 8 a) (take 8 b) @ bn_mul_comba8 (take 8 (drop n a)) (take 8 (drop n b)))
               else
                 (bn_mul_recursive t0 t1 n 0 0,
                  bn_mul_recursive a b n 0 0 @ bn_mul_recursive (drop n a) (drop n b) n dna dnb))
        in mul_middle n r t23 neg)"
  by pat_completeness auto
termination
  by (relation "measure (\<lambda>(a, b, n2, dna, dnb). n2)") (auto simp: BN_MUL_RECURSIVE_SIZE_NORMAL_def)

declare bn_mul_recursive.simps [simp del]

text \<open>The loop that finds the size for the high parts.\<close>

function split_size :: "nat \<Rightarrow> nat \<Rightarrow> nat \<Rightarrow> nat" where
  "split_size i tna tnb =
     (let i = i div 2 in
      if i < tna \<or> i < tnb then i else if i = tna \<or> i = tnb then i else split_size i tna tnb)"
  by pat_completeness auto
termination by (relation "measure (\<lambda>(i, tna, tnb). i)") auto

declare split_size.simps [simp del]

lemma split_size_less: "0 < n \<Longrightarrow> split_size n tna tnb < n"
proof (induction n tna tnb rule: split_size.induct)
  case (1 i tna tnb)
  then show ?case by (subst split_size.simps) (auto simp: Let_def intro: less_trans)
qed

text \<open>
  The same where the operands are a little longer than a power of two: \<open>a\<close> has \<open>n + tna\<close> limbs and \<open>b\<close> has \<open>n + tnb\<close>; the result has \<open>4 * n\<close>. For \<open>n < 8\<close>, which no
  call has, the code clears \<open>n2 - tna - tnb\<close> bytes, not limbs; the memory before is \<open>old\<close>.
\<close>

function bn_mul_part_recursive :: "limb list \<Rightarrow> limb list \<Rightarrow> limb list \<Rightarrow> nat \<Rightarrow> nat \<Rightarrow> nat \<Rightarrow> limb list" where
  "bn_mul_part_recursive old a b n tna tnb =
     (let n2 = n * 2 in
      if n < 8 then
        let r = bn_mul_normal a (n + tna) b (n + tnb); rest = take (2 * n2 - length r) (drop (length r) old) in
        r @ limbs_of_bytes (length rest) (replicate (n2 - tna - tnb) 0 @ drop (n2 - tna - tnb) (bytes_of_limbs rest))
      else
        let (t0, nega) = bn_abs_sub_part_words a (drop n a) tna (int n - int tna);
            (t1, negb) = bn_abs_sub_part_words (drop n b) b tnb (int tnb - int n);
            neg = nega XOR negb;
            (t23, r) =
              (if n = 8 then
                 (bn_mul_comba8 (take 8 t0) (take 8 t1),
                  bn_mul_comba8 (take 8 a) (take 8 b) @
                    bn_mul_normal (drop n a) tna (drop n b) tnb @ replicate (n2 - tna - tnb) 0)
               else
                 (bn_mul_recursive t0 t1 n 0 0,
                  bn_mul_recursive a b n 0 0 @
                    (let high = (if tna < BN_MUL_RECURSIVE_SIZE_NORMAL \<and> tnb < BN_MUL_RECURSIVE_SIZE_NORMAL
                                 then bn_mul_normal (drop n a) tna (drop n b) tnb
                                 else
                                   let i = split_size n tna tnb in
                                   if i < tna \<or> i < tnb
                                   then bn_mul_part_recursive (replicate n2 0) (drop n a) (drop n b) i (tna - i) (tnb - i)
                                   else bn_mul_recursive (drop n a) (drop n b) i (int tna - int i) (int tnb - int i))
                     in high @ replicate (n2 - length high) 0)))
        in mul_middle n r t23 neg)"
  by pat_completeness auto
termination
  by (relation "measure (\<lambda>(old, a, b, n, tna, tnb). n)") (auto intro: split_size_less)

declare bn_mul_part_recursive.simps [simp del]

section \<open>Rows\<close>

lemma mul_rows_spec:
  assumes "na \<le> length a" "length r = na + k"
  shows "length (mul_rows a na b k r) = na + k + length b \<and>
    wval (mul_rows a na b k r) = wval r + BN_BASE ^ k * wval (take na a) * wval b"
  using assms(2)
proof (induction b arbitrary: k r)
  case (Cons w b)
  have l: "na \<le> length (drop k r)" using Cons.prems by simp
  obtain ws c where m: "bn_mul_add_words (drop k r) a na w = (ws, c)" "length ws = na"
    "wval ws + BN_BASE ^ na * unat c = wval (take na (drop k r)) + wval (take na a) * unat w"
    by (rule bn_mul_add_words_spec [OF l assms(1), of w])
  have "wval r = wval (take k r) + BN_BASE ^ k * wval (drop k r)" using wval_split [of r k] Cons.prems by simp
  moreover have "wval (take k r @ ws @ [c]) = wval (take k r) + BN_BASE ^ k * (wval ws + BN_BASE ^ na * unat c)"
    using Cons.prems m(2) by (simp add: wval_append)
  ultimately have "wval (take k r @ ws @ [c]) = wval r + BN_BASE ^ k * wval (take na a) * unat w"
    using Cons.prems unfolding m(3) by (simp add: algebra_simps)
  then show ?case using Cons.IH [of "take k r @ ws @ [c]" "k + 1"] Cons.prems m(1,2) by (simp add: algebra_simps)
qed simp

lemma bn_mul_normal_spec:
  assumes "na \<le> length a" "nb \<le> length b"
  shows "length (bn_mul_normal a na b nb) = na + nb" "wval (bn_mul_normal a na b nb) = wval (take na a) * wval (take nb b)"
proof -
  obtain x nx y ny where s: "(if na < nb then (b, nb, a, na) else (a, na, b, nb)) = (x, nx, y, ny)" by (metis prod_cases4)
  then have x: "nx \<le> length x" "ny \<le> length y" "nx + ny = na + nb" "wval (take nx x) * wval (take ny y) = wval (take na a) * wval (take nb b)"
    using assms by (auto split: if_splits)
  have e: "bn_mul_normal a na b nb =
      (if ny = 0 then replicate nx 0
       else let (ws, c) = bn_mul_words x nx (y ! 0) in mul_rows x nx (take (ny - 1) (drop 1 y)) 1 (ws @ [c]))"
    by (simp add: bn_mul_normal_def s)
  have "length (bn_mul_normal a na b nb) = na + nb \<and> wval (bn_mul_normal a na b nb) = wval (take na a) * wval (take nb b)"
  proof (cases ny)
    case 0
    then show ?thesis using e x(3) x(4) [symmetric] by simp
  next
    case (Suc k)
    obtain ws c where m: "bn_mul_words x nx (y ! 0) = (ws, c)" "length ws = nx" "wval ws + BN_BASE ^ nx * unat c = wval (take nx x) * unat (y ! 0)"
      by (rule bn_mul_words_spec [OF x(1), of "y ! 0"])
    obtain y0 ys where y: "y = y0 # ys" using x(2) Suc by (cases y) auto
    have r: "length (mul_rows x nx (take k ys) 1 (ws @ [c])) = nx + 1 + k \<and>
      wval (mul_rows x nx (take k ys) 1 (ws @ [c])) = wval (take nx x) * unat y0 + BN_BASE * wval (take nx x) * wval (take k ys)"
      using mul_rows_spec [OF x(1), of "ws @ [c]" 1 "take k ys"] m(2,3) x(2) y Suc by (simp add: wval_snoc)
    then show ?thesis using e m(1) x(3) x(4) [symmetric] y Suc by (simp add: algebra_simps)
  qed
  then show "length (bn_mul_normal a na b nb) = na + nb" "wval (bn_mul_normal a na b nb) = wval (take na a) * wval (take nb b)" by simp_all
qed

section \<open>Absolute differences\<close>

lemma negate_tail_spec:
  assumes "c = 0 \<or> c = 1"
  shows "\<exists>rs c'. negate_tail c b = (rs, c') \<and> length rs = length b \<and> (c' = 0 \<or> c' = 1) \<and> wval rs + wval b + unat c = BN_BASE ^ length b * unat c'"
  using assms
proof (induction c b rule: negate_tail.induct)
  case (2 c t b)
  define c1 :: limb where "c1 = (if t \<noteq> 0 then 1 else c)"
  have c1: "c1 = 0 \<or> c1 = 1" using 2(2) by (simp add: c1_def)
  obtain rs c' where r: "negate_tail c1 b = (rs, c')" "length rs = length b" "c' = 0 \<or> c' = 1"
    "wval rs + wval b + unat c1 = BN_BASE ^ length b * unat c'"
    using 2(1) [folded c1_def, OF c1] by blast
  have "unat (0 - t - c) + unat t + unat c = BN_BASE * unat c1"
    using 2(2) limb_less [of t] unat_limb_arith(3) [of 0 t] by (auto simp: c1_def unat_limb_arith word_unat_eq_iff simp del: limb_less)
  then have "unat (0 - t - c) + BN_BASE * wval rs + (unat t + BN_BASE * wval b) + unat c = BN_BASE * (wval rs + wval b + unat c1)"
    by (simp add: algebra_simps)
  then show ?case using r(1-3) unfolding r(4) by (simp add: Let_def c1_def algebra_simps)
qed auto

lemma borrow_tail_spec:
  assumes "c = 0 \<or> c = 1"
  shows "\<exists>rs c'. borrow_tail c a = (rs, c') \<and> length rs = length a \<and> (c' = 0 \<or> c' = 1) \<and> wval rs + unat c = wval a + BN_BASE ^ length a * unat c'"
  using assms
proof (induction c a rule: borrow_tail.induct)
  case (2 c t a)
  show ?case
  proof (cases "c = 0")
    case False
    then have c: "c = 1" using 2(2) by simp
    define c1 :: limb where "c1 = (if t \<noteq> 0 then 0 else c)"
    have c1: "c1 = 0 \<or> c1 = 1" using 2(2) by (simp add: c1_def)
    obtain rs c' where r: "borrow_tail c1 a = (rs, c')" "length rs = length a" "c' = 0 \<or> c' = 1"
      "wval rs + unat c1 = wval a + BN_BASE ^ length a * unat c'"
      using 2(1) [OF False, folded c1_def, OF c1] by blast
    have "unat (t - c) + unat c = unat t + BN_BASE * unat c1"
      using limb_less [of t] by (auto simp: c c1_def unat_limb_arith word_unat_eq_iff mod_if simp del: limb_less)
    then have "unat (t - c) + BN_BASE * wval rs + unat c = unat t + BN_BASE * (wval rs + unat c1)"
      by (simp add: algebra_simps)
    then show ?thesis using r(1-3) False unfolding r(4) by (simp add: Let_def c1_def algebra_simps)
  qed simp
qed auto

text \<open>The parts behind the common limbs may belong to either operand.\<close>

lemma bn_sub_part_words_spec:
  assumes "cl + nat dl \<le> length a" "cl + nat (- dl) \<le> length b"
  obtains rs c where "bn_sub_part_words a b cl dl = (rs, c)" "length rs = cl + nat \<bar>dl\<bar>" "c = 0 \<or> c = 1"
    "wval rs + wval (take (cl + nat (- dl)) b) = wval (take (cl + nat dl) a) + BN_BASE ^ (cl + nat \<bar>dl\<bar>) * unat c"
proof -
  have cl: "cl \<le> length a" "cl \<le> length b" using assms by simp_all
  obtain r c where r: "bn_sub_words a b cl = (r, c)" "length r = cl" "c = 0 \<or> c = 1"
    "wval r + wval (take cl b) = wval (take cl a) + BN_BASE ^ cl * unat c" by (rule bn_sub_words_spec [OF cl])
  have tk: "wval (take (cl + k) x) = wval (take cl x) + BN_BASE ^ cl * wval (take k (drop cl x))" if "cl \<le> length x" for k x
    using that by (simp add: take_add wval_append)
  consider "dl = 0" | "dl < 0" | "0 < dl" by linarith
  then show thesis
  proof cases
    case 1
    then show thesis using that [of r c] r by (simp add: bn_sub_part_words_def)
  next
    case 2
    define k where "k = nat (- dl)"
    obtain rs c' where s: "negate_tail c (take k (drop cl b)) = (rs, c')" "length rs = k" "c' = 0 \<or> c' = 1"
      "wval rs + wval (take k (drop cl b)) + unat c = BN_BASE ^ k * unat c'"
      using negate_tail_spec [OF r(3), of "take k (drop cl b)"] assms(2) by (auto simp: k_def)
    have "wval (r @ rs) + wval (take (cl + k) b) = wval r + wval (take cl b) + BN_BASE ^ cl * (wval rs + wval (take k (drop cl b)))"
      using r(2) tk [OF cl(2), of k] by (simp add: wval_append algebra_simps)
    also have "\<dots> = wval (take cl a) + BN_BASE ^ cl * (wval rs + wval (take k (drop cl b)) + unat c)" unfolding r(4) by (simp add: algebra_simps)
    also have "\<dots> = wval (take cl a) + BN_BASE ^ (cl + k) * unat c'" unfolding s(4) by (simp add: power_add algebra_simps)
    finally show thesis using that [of "r @ rs" c'] r(1,2) s(1-3) 2 by (simp add: bn_sub_part_words_def k_def)
  next
    case 3
    define k where "k = nat dl"
    obtain rs c' where s: "borrow_tail c (take k (drop cl a)) = (rs, c')" "length rs = k" "c' = 0 \<or> c' = 1"
      "wval rs + unat c = wval (take k (drop cl a)) + BN_BASE ^ k * unat c'"
      using borrow_tail_spec [OF r(3), of "take k (drop cl a)"] assms(1) by (auto simp: k_def)
    have "wval (r @ rs) + wval (take cl b) = wval r + wval (take cl b) + BN_BASE ^ cl * wval rs"
      using r(2) by (simp add: wval_append algebra_simps)
    also have "\<dots> = wval (take cl a) + BN_BASE ^ cl * (wval rs + unat c)" unfolding r(4) by (simp add: algebra_simps)
    also have "\<dots> = wval (take (cl + k) a) + BN_BASE ^ (cl + k) * unat c'" unfolding s(4) using tk [OF cl(1), of k] by (simp add: power_add algebra_simps)
    finally show thesis using that [of "r @ rs" c'] r(1,2) s(1-3) 3 by (simp add: bn_sub_part_words_def k_def)
  qed
qed

definition distance :: "nat \<Rightarrow> nat \<Rightarrow> nat" where
  "distance x y = (if x < y then y - x else x - y)"

text \<open>A difference with its borrow is the absolute one when the operands are in order.\<close>

lemma borrow_iff:
  fixes r x y :: nat
  assumes "r + y = x + B * unat c" "r < B" "x < B" "y < B" "c = 0 \<or> c = (1 :: limb)"
  shows "0 - c = ct_mask (x < y)" "\<not> x < y \<Longrightarrow> r = x - y"
  using assms by (auto simp: ct_mask_def)

lemma bn_abs_sub_part_words_spec:
  assumes "cl + nat dl \<le> length a" "cl + nat (- dl) \<le> length b"
  obtains rs where "bn_abs_sub_part_words a b cl dl = (rs, ct_mask (wval (take (cl + nat dl) a) < wval (take (cl + nat (- dl)) b)))"
    "length rs = cl + nat \<bar>dl\<bar>" "wval rs = distance (wval (take (cl + nat dl) a)) (wval (take (cl + nat (- dl)) b))"
proof -
  define x y n where "x = wval (take (cl + nat dl) a)" and "y = wval (take (cl + nat (- dl)) b)" and "n = cl + nat \<bar>dl\<bar>"
  obtain tmp c where t: "bn_sub_part_words a b cl dl = (tmp, c)" "length tmp = n" "c = 0 \<or> c = 1" "wval tmp + y = x + BN_BASE ^ n * unat c"
    unfolding x_def y_def n_def by (rule bn_sub_part_words_spec [OF assms])
  obtain r d where r: "bn_sub_part_words b a cl (- dl) = (r, d)" "length r = n" "d = 0 \<or> d = 1" "wval r + x = y + BN_BASE ^ n * unat d"
    using bn_sub_part_words_spec [of cl "- dl" b a] assms unfolding x_def y_def n_def by auto
  have le: "cl + nat dl \<le> n" "cl + nat (- dl) \<le> n" by (simp_all add: n_def)
  have "(BN_BASE :: nat) ^ (cl + nat dl) \<le> BN_BASE ^ n" "(BN_BASE :: nat) ^ (cl + nat (- dl)) \<le> BN_BASE ^ n"
    using le by (auto intro!: power_increasing simp: BN_BASE_def)
  then have xy: "x < BN_BASE ^ n" "y < BN_BASE ^ n"
    using wval_less [of "take (cl + nat dl) a"] wval_less [of "take (cl + nat (- dl)) b"] assms by (simp_all add: x_def y_def)
  have l: "wval tmp < BN_BASE ^ n" "wval r < BN_BASE ^ n" using wval_less [of tmp] wval_less [of r] t(2) r(2) by simp_all
  note t' = borrow_iff [OF t(4) l(1) xy t(3)] and r' = borrow_iff [OF r(4) l(2) xy(2,1) r(3)]
  have "- c = ct_mask (x < y)" using t'(1) by simp
  then have "bn_abs_sub_part_words a b cl dl = (if x < y then r else tmp, ct_mask (x < y))"
    using t(2) r(2) by (simp add: bn_abs_sub_part_words_def t(1) r(1) bn_select_words_spec flip: n_def)
  then show thesis using that t(2) r(2) t'(2) r'(2) by (simp add: distance_def x_def y_def n_def)
qed

lemma bn_abs_sub_words_spec:
  assumes "num \<le> length a" "num \<le> length b"
  shows "length (bn_abs_sub_words a b num) = num" "wval (bn_abs_sub_words a b num) = distance (wval (take num a)) (wval (take num b))"
proof -
  define x y where "x = wval (take num a)" and "y = wval (take num b)"
  obtain tmp c where t: "bn_sub_words a b num = (tmp, c)" "length tmp = num" "c = 0 \<or> c = 1" "wval tmp + y = x + BN_BASE ^ num * unat c"
    unfolding x_def y_def by (rule bn_sub_words_spec [OF assms])
  obtain r d where r: "bn_sub_words b a num = (r, d)" "length r = num" "d = 0 \<or> d = 1" "wval r + x = y + BN_BASE ^ num * unat d"
    unfolding x_def y_def by (rule bn_sub_words_spec [OF assms(2,1)])
  have l: "x < BN_BASE ^ num" "y < BN_BASE ^ num" "wval tmp < BN_BASE ^ num" "wval r < BN_BASE ^ num"
    using wval_less [of "take num a"] wval_less [of "take num b"] wval_less [of tmp] wval_less [of r] t(2) r(2) assms by (simp_all add: x_def y_def)
  note t' = borrow_iff [OF t(4) l(3,1,2) t(3)] and r' = borrow_iff [OF r(4) l(4,2,1) r(3)]
  have "- c = ct_mask (x < y)" using t'(1) by simp
  then have "bn_abs_sub_words a b num = (if x < y then r else tmp)"
    using t(2) r(2) by (simp add: bn_abs_sub_words_def t(1) r(1) bn_select_words_spec)
  then show "length (bn_abs_sub_words a b num) = num" "wval (bn_abs_sub_words a b num) = distance (wval (take num a)) (wval (take num b))"
    using t(2) r(2) t'(2) r'(2) by (simp_all add: distance_def x_def y_def)
qed


section \<open>Karatsuba multiplication\<close>

lemma carry_loop_any:
  "\<exists>rs c'. carry_loop c as = (rs, c') \<and> length rs = length as \<and> wval rs + BN_BASE ^ length as * unat c' = wval as + unat c"
proof (induction c as rule: carry_loop.induct)
  case (2 c a as)
  define c1 :: limb where "c1 = (if c + a < a then 1 else 0)"
  obtain rs c' where r: "carry_loop c1 as = (rs, c')" "length rs = length as"
    "wval rs + BN_BASE ^ length as * unat c' = wval as + unat c1"
    using 2 [OF refl, folded c1_def] by blast
  have "unat (c + a) + BN_BASE * unat c1 = unat c + unat a" using add_carry [of c a] by (auto simp: c1_def)
  then have "unat (c + a) + BN_BASE * (wval rs + BN_BASE ^ length as * unat c') = unat a + BN_BASE * wval as + unat c"
    unfolding r(3) by (simp add: algebra_simps)
  then show ?case using r(1,2) by (simp add: Let_def c1_def algebra_simps)
qed auto

text \<open>
  The middle: from the products of the low and of the high halves, and the absolute value of the third product with its sign, the whole
  product. All carries are accounted for, in particular the one that the last assertion of the code is about.
\<close>

lemma mul_middle_spec:
  assumes l: "length r = 4 * n" "length t23 = 2 * n"
    and P: "P0 = wval (take (2 * n) r)" "P2 = wval (drop (2 * n) r)" "T = wval t23"
    and M: "if s then M + T = P0 + P2 else M = P0 + P2 + T" and total: "P0 + BN_BASE ^ n * M + BN_BASE ^ (2 * n) * P2 < BN_BASE ^ (4 * n)"
  shows "length (mul_middle n r t23 (ct_mask s)) = 4 * n"
    "wval (mul_middle n r t23 (ct_mask s)) = P0 + BN_BASE ^ n * M + BN_BASE ^ (2 * n) * P2"
proof -
  define X where "X = BN_BASE ^ (2 * n)"
  have l2: "2 * n \<le> length r" "2 * n \<le> length (drop (2 * n) r)" "2 * n \<le> length t23" "2 * n \<le> length (drop n r)" using l by simp_all
  obtain t01 c where 1: "bn_add_words r (drop (2 * n) r) (2 * n) = (t01, c)" "length t01 = 2 * n" "wval t01 + X * unat c = P0 + P2" "unat c \<le> 1"
    using bn_add_words_spec [OF l2(1,2)] l(1) unfolding X_def P by auto
  have l3: "2 * n \<le> length t01" by (simp add: 1)
  obtain t45 bw where 2: "bn_sub_words t01 t23 (2 * n) = (t45, bw)" "length t45 = 2 * n" "bw = 0 \<or> bw = 1" "wval t45 + T = wval t01 + X * unat bw"
    using bn_sub_words_spec [OF l3 l2(3)] l(2) 1(2) unfolding X_def P by auto
  obtain t23' cy where 3: "bn_add_words t01 t23 (2 * n) = (t23', cy)" "length t23' = 2 * n" "wval t23' + X * unat cy = wval t01 + T" "unat cy \<le> 1"
    using bn_add_words_spec [OF l3 l2(3)] l(2) 1(2) unfolding X_def P by auto
  define mid c1 where "mid = (if s then t45 else t23')" and "c1 = (if s then c - bw else c + cy)"
  have lm: "length mid = 2 * n" by (simp add: mid_def 2 3)
  have c1: "wval mid + X * unat c1 = M \<and> unat c1 \<le> 2"
  proof (cases s)
    case True
    have bc: "unat bw \<le> unat c"
    proof (rule ccontr)
      assume "\<not> ?thesis"
      then have z: "unat c = 0" "unat bw = 1" using 2(3) by auto
      then have "T \<le> wval t01" using 1(3) M True by simp
      moreover have "wval t45 < X" using wval_less [of t45] by (simp add: X_def 2)
      ultimately show False using 2(4) z by simp
    qed
    then have cb: "unat (c - bw) = unat c - unat bw" by (simp add: unat_limb_arith)
    have xb: "X * unat bw \<le> X * unat c" using bc by (rule mult_le_mono2)
    have "M + T = wval t01 + X * unat c" using M 1(3) True by simp
    moreover have "X * (unat c - unat bw) = X * unat c - X * unat bw" by (simp add: diff_mult_distrib2)
    ultimately have "wval t45 + X * (unat c - unat bw) = M" using 2(4) xb by linarith
    then show ?thesis using True 1(4) cb by (simp add: mid_def c1_def)
  next
    case False
    have "unat (c + cy) = unat c + unat cy" using 1(4) 3(4) by (simp add: unat_limb_add BN_BASE_def)
    then show ?thesis using False 1(3,4) 3(3,4) M by (simp add: mid_def c1_def algebra_simps)
  qed
  obtain r12 cy2 where 4: "bn_add_words (drop n r) mid (2 * n) = (r12, cy2)" "length r12 = 2 * n"
    "wval r12 + X * unat cy2 = wval (take (2 * n) (drop n r)) + wval mid" "unat cy2 \<le> 1"
    using bn_add_words_spec [OF l2(4), of mid] lm unfolding X_def by auto
  have c2: "unat (c1 + cy2) = unat c1 + unat cy2" using c1 4(4) by (simp add: unat_limb_add BN_BASE_def)
  obtain r3 c3 where 5: "carry_loop (c1 + cy2) (drop (3 * n) r) = (r3, c3)" "length r3 = n"
    "wval r3 + BN_BASE ^ n * unat c3 = wval (drop (3 * n) r) + (unat c1 + unat cy2)"
    using carry_loop_any [of "c1 + cy2" "drop (3 * n) r"] l(1) c2 by auto
  have e: "mul_middle n r t23 (ct_mask s) = take n r @ r12 @ r3"
  proof -
    have "n * 2 = 2 * n" "n + n * 2 = 3 * n" "2 * n + 2 * n - 3 * n = n" "n + 2 * n = 3 * n" by simp_all
    moreover have "take n (drop (3 * n) r) = drop (3 * n) r" using l(1) by simp
    moreover have "bn_select_words (ct_mask s) t45 t23' (2 * n) = mid" using 2(2) 3(2) by (simp add: bn_select_words_spec mid_def)
    moreover have "constant_time_select_w (ct_mask s) (c - bw) (c + cy) = c1" by (simp add: select_w_mask c1_def)
    ultimately show ?thesis by (simp only: mul_middle_def Let_def 1(1) 2(1) 3(1) 4(1) 5(1) prod.case)
  qed
  show len: "length (mul_middle n r t23 (ct_mask s)) = 4 * n" unfolding e using l(1) 4(2) 5(2) by simp
  have r: "wval r = wval (take n r) + BN_BASE ^ n * (wval (take (2 * n) (drop n r)) + X * wval (drop (3 * n) r))"
  proof -
    have "wval r = wval (take n r) + BN_BASE ^ n * wval (drop n r)" using wval_split [of r n] l(1) by simp
    moreover have "wval (drop n r) = wval (take (2 * n) (drop n r)) + X * wval (drop (3 * n) r)"
      using wval_split [of "drop n r" "2 * n"] l(1) by (simp add: X_def)
    ultimately show ?thesis by simp
  qed
  have "wval (take n r @ r12 @ r3) + BN_BASE ^ n * (X * (BN_BASE ^ n * unat c3)) =
      wval (take n r) + BN_BASE ^ n * (wval r12 + X * (wval r3 + BN_BASE ^ n * unat c3))"
    using l(1) 4(2) by (simp add: wval_append X_def algebra_simps)
  also have "\<dots> = wval (take n r) + BN_BASE ^ n * (wval r12 + X * unat cy2 + X * wval (drop (3 * n) r) + X * unat c1)"
    unfolding 5(3) by (simp add: algebra_simps)
  also have "\<dots> = wval r + BN_BASE ^ n * (wval mid + X * unat c1)" unfolding 4(3) r by (simp add: algebra_simps)
  also have "\<dots> = wval r + BN_BASE ^ n * M" using c1 by simp
  also have "wval r = P0 + X * P2" using wval_split [of r "2 * n"] l(1) by (simp add: P X_def)
  finally have v: "wval (take n r @ r12 @ r3) + BN_BASE ^ n * (X * (BN_BASE ^ n * unat c3)) = P0 + BN_BASE ^ n * M + X * P2" by simp
  have "unat c3 = 0"
  proof (rule ccontr)
    assume "unat c3 \<noteq> 0"
    then have "BN_BASE ^ (4 * n) * 1 \<le> BN_BASE ^ (4 * n) * unat c3" by (intro mult_le_mono2) simp
    moreover have "BN_BASE ^ n * (X * (BN_BASE ^ n * unat c3)) = BN_BASE ^ (4 * n) * unat c3"
    proof -
      have "(BN_BASE :: nat) ^ (4 * n) = BN_BASE ^ n * (BN_BASE ^ (2 * n) * BN_BASE ^ n)" by (simp flip: power_add)
      then show ?thesis by (simp add: X_def)
    qed
    ultimately show False using v total unfolding X_def by linarith
  qed
  then show "wval (mul_middle n r t23 (ct_mask s)) = P0 + BN_BASE ^ n * M + BN_BASE ^ (2 * n) * P2" using v unfolding e X_def by simp
qed


lemma karatsuba:
  fixes a0 a1 b0 b1 :: nat
  defines "M \<equiv> a0 * b1 + a1 * b0" and "T \<equiv> distance a0 a1 * distance b1 b0"
  shows "if (a0 < a1) \<noteq> (b1 < b0) then M + T = a0 * b0 + a1 * b1 else M = a0 * b0 + a1 * b1 + T"
proof -
  have d: "\<exists>d. y = x + d \<and> distance x y = d \<and> distance y x = d" if "x \<le> y" for x y
    using that by (intro exI [of _ "y - x"]) (auto simp: distance_def)
  consider "a0 < a1" "b1 < b0" | "a0 < a1" "b0 \<le> b1" | "a1 \<le> a0" "b1 < b0" | "a1 \<le> a0" "b0 \<le> b1" by linarith
  then show ?thesis
  proof cases
    case 1
    then obtain d e where "a1 = a0 + d" "distance a0 a1 = d" "b0 = b1 + e" "distance b1 b0 = e" using d [of a0 a1] d [of b1 b0] by auto
    then show ?thesis using 1 by (simp add: M_def T_def algebra_simps)
  next
    case 2
    then obtain d e where "a1 = a0 + d" "distance a0 a1 = d" "b1 = b0 + e" "distance b1 b0 = e" using d [of a0 a1] d [of b0 b1] by auto
    then show ?thesis using 2 by (simp add: M_def T_def algebra_simps)
  next
    case 3
    then obtain d e where "a0 = a1 + d" "distance a0 a1 = d" "b0 = b1 + e" "distance b1 b0 = e" using d [of a1 a0] d [of b1 b0] by auto
    then show ?thesis using 3 by (simp add: M_def T_def algebra_simps)
  next
    case 4
    then obtain d e where "a0 = a1 + d" "distance a0 a1 = d" "b1 = b0 + e" "distance b1 b0 = e" using d [of a1 a0] d [of b0 b1] by auto
    then show ?thesis using 4 by (simp add: M_def T_def algebra_simps)
  qed
qed

text \<open>One level of the recursion: three products of halves give the product.\<close>

lemma mul_level:
  assumes n: "0 < n" "tna \<le> n" "tnb \<le> n" and l: "n + tna \<le> length a" "n + tnb \<le> length b"
    and t0: "bn_abs_sub_part_words a (drop n a) tna (int n - int tna) = (t0, nega)"
    and t1: "bn_abs_sub_part_words (drop n b) b tnb (int tnb - int n) = (t1, negb)"
    and r: "length r = 4 * n" "wval (take (2 * n) r) = wval (take n a) * wval (take n b)"
      "wval (drop (2 * n) r) = wval (take tna (drop n a)) * wval (take tnb (drop n b))"
    and t23: "length t23 = 2 * n" "wval t23 = wval t0 * wval t1"
  shows "length (mul_middle n r t23 (nega XOR negb)) = 4 * n"
    "wval (mul_middle n r t23 (nega XOR negb)) = wval (take (n + tna) a) * wval (take (n + tnb) b)"
proof -
  define a0 a1 b0 b1 where "a0 = wval (take n a)" and "a1 = wval (take tna (drop n a))" and "b0 = wval (take n b)" and "b1 = wval (take tnb (drop n b))"
  note d = a0_def a1_def b0_def b1_def
  have "tna + nat (int n - int tna) = n" "nat (- (int n - int tna)) = 0" "tnb + nat (int tnb - int n) = tnb" "tnb + nat (- (int tnb - int n)) = n"
    using n by simp_all
  note k = this
  have la: "tna + nat (int n - int tna) \<le> length a" "tna + nat (- (int n - int tna)) \<le> length (drop n a)" unfolding k using l by simp_all
  have lb: "tnb + nat (int tnb - int n) \<le> length (drop n b)" "tnb + nat (- (int tnb - int n)) \<le> length b" unfolding k using l by simp_all
  have 0: "nega = ct_mask (a0 < a1)" "wval t0 = distance a0 a1"
    by (rule bn_abs_sub_part_words_spec [OF la]; use t0 in \<open>simp only: k d prod.inject add_0_right\<close>)+
  have 1: "negb = ct_mask (b1 < b0)" "wval t1 = distance b1 b0"
    by (rule bn_abs_sub_part_words_spec [OF lb]; use t1 in \<open>simp only: k d prod.inject add_0_right\<close>)+
  have s: "nega XOR negb = ct_mask ((a0 < a1) \<noteq> (b1 < b0))" unfolding 0 1 by (auto simp: ct_mask_def)
  have va: "wval (take (n + tna) a) = a0 + BN_BASE ^ n * a1" "wval (take (n + tnb) b) = b0 + BN_BASE ^ n * b1"
    using l by (simp_all add: take_add wval_append d)
  have "a0 + BN_BASE ^ n * a1 < BN_BASE ^ (2 * n)" "b0 + BN_BASE ^ n * b1 < BN_BASE ^ (2 * n)"
  proof -
    have "(BN_BASE :: nat) ^ (n + tna) \<le> BN_BASE ^ (2 * n)" "(BN_BASE :: nat) ^ (n + tnb) \<le> BN_BASE ^ (2 * n)"
      using n by (auto intro!: power_increasing simp: BN_BASE_def)
    then show "a0 + BN_BASE ^ n * a1 < BN_BASE ^ (2 * n)" "b0 + BN_BASE ^ n * b1 < BN_BASE ^ (2 * n)"
      using wval_less [of "take (n + tna) a"] wval_less [of "take (n + tnb) b"] l unfolding va by simp_all
  qed
  then have "(a0 + BN_BASE ^ n * a1) * (b0 + BN_BASE ^ n * b1) < BN_BASE ^ (2 * n) * BN_BASE ^ (2 * n)" by (intro mult_strict_mono) simp_all
  also have "\<dots> = BN_BASE ^ (4 * n)" by (simp flip: power_add)
  finally have less: "(a0 + BN_BASE ^ n * a1) * (b0 + BN_BASE ^ n * b1) < BN_BASE ^ (4 * n)" .
  have p: "(a0 + BN_BASE ^ n * a1) * (b0 + BN_BASE ^ n * b1) = a0 * b0 + BN_BASE ^ n * (a0 * b1 + a1 * b0) + BN_BASE ^ (2 * n) * (a1 * b1)"
    unfolding mult_2 power_add by (simp only: algebra_simps)
  have T: "distance a0 a1 * distance b1 b0 = wval t23" using t23 0 1 by simp
  have r': "a0 * b0 = wval (take (2 * n) r)" "a1 * b1 = wval (drop (2 * n) r)" using r by (simp_all add: d)
  have total: "a0 * b0 + BN_BASE ^ n * (a0 * b1 + a1 * b0) + BN_BASE ^ (2 * n) * (a1 * b1) < BN_BASE ^ (4 * n)" using less unfolding p .
  note m = mul_middle_spec [OF r(1) t23(1) r' T karatsuba total]
  show "length (mul_middle n r t23 (nega XOR negb)) = 4 * n"
    "wval (mul_middle n r t23 (nega XOR negb)) = wval (take (n + tna) a) * wval (take (n + tnb) b)"
    unfolding s va p using m by simp_all
qed


lemma length_bn_abs_sub_part_words: "bn_abs_sub_part_words a b cl dl = (rs, m) \<Longrightarrow> length rs = cl + nat \<bar>dl\<bar>"
  by (auto simp: bn_abs_sub_part_words_def bn_select_words_def Let_def split: prod.splits)

text \<open>A power of two is halved evenly.\<close>

lemma power_of_two_half: "n = 2 ^ k \<Longrightarrow> 16 \<le> n \<Longrightarrow> n = 2 * (n div 2) \<and> n div 2 = 2 ^ (k - 1) \<and> 8 \<le> n div 2" for n :: nat
  by (cases k) simp_all

lemma padded_product:
  "length x = 2 * n \<Longrightarrow> length y \<le> 2 * n \<Longrightarrow> length (x @ y @ replicate (2 * n - length y) 0) = 4 * n \<and>
     wval (take (2 * n) (x @ y @ replicate (2 * n - length y) 0)) = wval x \<and>
     wval (drop (2 * n) (x @ y @ replicate (2 * n - length y) 0)) = wval y"
  by (simp add: wval_append)

lemma bn_mul_recursive_spec:
  assumes "n2 = 2 ^ k" "8 \<le> n2" "- 8 \<le> dna" "dna \<le> 0" "- 8 \<le> dnb" "dnb \<le> 0"
    and "nat (int n2 + dna) \<le> length a" "nat (int n2 + dnb) \<le> length b"
  shows "length (bn_mul_recursive a b n2 dna dnb) = 2 * n2"
    "wval (bn_mul_recursive a b n2 dna dnb) = wval (take (nat (int n2 + dna)) a) * wval (take (nat (int n2 + dnb)) b)"
proof -
  have "length (bn_mul_recursive a b n2 dna dnb) = 2 * n2 \<and>
    wval (bn_mul_recursive a b n2 dna dnb) = wval (take (nat (int n2 + dna)) a) * wval (take (nat (int n2 + dnb)) b)"
    using assms
  proof (induction k arbitrary: n2 a b dna dnb)
    case (Suc k)
    consider "n2 = 8 \<and> dna = 0 \<and> dnb = 0" | "\<not> (n2 = 8 \<and> dna = 0 \<and> dnb = 0)" "n2 < 16" | "16 \<le> n2" by linarith
    then show ?case
    proof cases
      case 1
      then show ?thesis using Suc.prems(7,8) bn_mul_comba_spec(1) [of "take 8 a" "take 8 b"]
        by (subst (1 2) bn_mul_recursive.simps) simp
    next
      case 2
      define la lb where "la = nat (int n2 + dna)" and "lb = nat (int n2 + dnb)"
      have "la + lb + nat (- (dna + dnb)) = 2 * n2" using Suc.prems(2-6) unfolding la_def lb_def by linarith
      moreover have "bn_mul_recursive a b n2 dna dnb = bn_mul_normal a la b lb @ replicate (nat (- (dna + dnb))) 0"
        using 2 by (subst bn_mul_recursive.simps) (auto simp: BN_MUL_RECURSIVE_SIZE_NORMAL_def la_def lb_def)
      ultimately show ?thesis
        using bn_mul_normal_spec [of la a lb b] Suc.prems(7,8) by (simp add: wval_append flip: la_def lb_def)
    next
      case 3
      define n where "n = n2 div 2"
      have n: "n2 = 2 * n" "n = 2 ^ k" "8 \<le> n" using power_of_two_half [OF Suc.prems(1) 3] by (simp_all add: n_def)
      define tna tnb where "tna = nat (int n + dna)" and "tnb = nat (int n + dnb)"
      have t: "tna \<le> n" "tnb \<le> n" "nat (int n2 + dna) = n + tna" "nat (int n2 + dnb) = n + tnb"
        using Suc.prems(3-6) n(1,3) unfolding tna_def tnb_def by linarith+
      then have l: "n + tna \<le> length a" "n + tnb \<le> length b" using Suc.prems(7,8) by simp_all
      obtain t0 nega t1 negb where 0: "bn_abs_sub_part_words a (drop n a) tna (int n - int tna) = (t0, nega)"
        and 1: "bn_abs_sub_part_words (drop n b) b tnb (int tnb - int n) = (t1, negb)" by fastforce
      have lt: "length t0 = n" "length t1 = n"
        using length_bn_abs_sub_part_words [OF 0] length_bn_abs_sub_part_words [OF 1] t(1,2) by simp_all
      define t23 r where
        "t23 = (if n = 8 \<and> dna = 0 \<and> dnb = 0 then bn_mul_comba8 (take 8 t0) (take 8 t1) else bn_mul_recursive t0 t1 n 0 0)" and
        "r = (if n = 8 \<and> dna = 0 \<and> dnb = 0
          then bn_mul_comba8 (take 8 a) (take 8 b) @ bn_mul_comba8 (take 8 (drop n a)) (take 8 (drop n b))
          else bn_mul_recursive a b n 0 0 @ bn_mul_recursive (drop n a) (drop n b) n dna dnb)"
      have e: "bn_mul_recursive a b n2 dna dnb = mul_middle n r t23 (nega XOR negb)"
      proof -
        have no: "\<not> (n2 = 8 \<and> dna = 0 \<and> dnb = 0)" "\<not> n2 < BN_MUL_RECURSIVE_SIZE_NORMAL" "n \<noteq> 4"
          using 3 n(3) by (simp_all add: BN_MUL_RECURSIVE_SIZE_NORMAL_def)
        show ?thesis
          unfolding bn_mul_recursive.simps [of a b n2 dna dnb] if_not_P [OF no(1)] if_not_P [OF no(2)] Let_def
            n_def [symmetric] tna_def [symmetric] tnb_def [symmetric] 0 1 prod.case t23_def r_def
          using no(3) by simp
      qed
      have IH: "length (bn_mul_recursive x y n 0 0) = 2 * n \<and> wval (bn_mul_recursive x y n 0 0) = wval (take n x) * wval (take n y)"
        if "n \<le> length x" "n \<le> length y" for x y
        using Suc.IH [OF n(2,3), of 0 0 x y] that by simp
      have "length t23 = 2 * n \<and> wval t23 = wval t0 * wval t1"
        using IH [of t0 t1] bn_mul_comba_spec(1) [of t0 t1] lt by (simp add: t23_def)
      moreover have "length r = 4 * n \<and> wval (take (2 * n) r) = wval (take n a) * wval (take n b) \<and>
        wval (drop (2 * n) r) = wval (take tna (drop n a)) * wval (take tnb (drop n b))"
      proof (cases "n = 8 \<and> dna = 0 \<and> dnb = 0")
        case True
        then show ?thesis
          using bn_mul_comba_spec(1) [of "take 8 a" "take 8 b"] bn_mul_comba_spec(1) [of "take 8 (drop n a)" "take 8 (drop n b)"] l
          by (simp add: r_def tna_def tnb_def)
      next
        case False
        then have "r = bn_mul_recursive a b n 0 0 @ bn_mul_recursive (drop n a) (drop n b) n dna dnb" by (auto simp: r_def)
        moreover have "nat (int n + dna) \<le> length (drop n a)" "nat (int n + dnb) \<le> length (drop n b)" using l by (simp_all add: tna_def tnb_def)
        ultimately show ?thesis
          using IH [of a b] Suc.IH [OF n(2,3) Suc.prems(3-6), of "drop n a" "drop n b"] l by (simp add: tna_def tnb_def)
      qed
      ultimately show ?thesis unfolding e t using mul_level [OF _ t(1,2) l 0 1] n(1,3) by simp
    qed
  qed simp
  then show "length (bn_mul_recursive a b n2 dna dnb) = 2 * n2"
    "wval (bn_mul_recursive a b n2 dna dnb) = wval (take (nat (int n2 + dna)) a) * wval (take (nat (int n2 + dnb)) b)" by blast+
qed


text \<open>The size for the high parts is the least power of two that leaves little of the longer one.\<close>

lemma split_size_spec:
  "n = 2 ^ k \<Longrightarrow> 16 \<le> tna \<or> 16 \<le> tnb \<Longrightarrow> tna < n \<Longrightarrow> tnb < n \<Longrightarrow>
    (\<exists>j. split_size n tna tnb = 2 ^ j) \<and> 16 \<le> split_size n tna tnb \<and> 2 * split_size n tna tnb \<le> n \<and>
    tna < 2 * split_size n tna tnb \<and> tnb < 2 * split_size n tna tnb \<and> (split_size n tna tnb \<le> tna \<or> split_size n tna tnb \<le> tnb)"
proof (induction k arbitrary: n)
  case (Suc k)
  have n: "n div 2 = 2 ^ k" "n = 2 * (n div 2)" using Suc.prems(1) by simp_all
  show ?case
  proof (cases "n div 2 \<le> tna \<or> n div 2 \<le> tnb")
    case True
    then have s: "split_size n tna tnb = n div 2" by (subst split_size.simps) (auto simp: Let_def)
    have "8 < n div 2"
    proof (rule ccontr)
      assume "\<not> 8 < n div 2"
      then show False using Suc.prems(2-4) n(2) by linarith
    qed
    then have "16 \<le> n div 2"
    proof -
      have "8 < (2 :: nat) ^ k" using \<open>8 < n div 2\<close> unfolding n(1) .
      then have "3 < k" using power_less_imp_less_exp [of 2 3 k] by simp
      then have "(2 :: nat) ^ 4 \<le> 2 ^ k" by (intro power_increasing) simp_all
      then show ?thesis unfolding n(1) by simp
    qed
    then show ?thesis unfolding s using n Suc.prems(3,4) True by auto
  next
    case False
    then have s: "split_size n tna tnb = split_size (n div 2) tna tnb" by (subst split_size.simps) (auto simp: Let_def)
    show ?thesis unfolding s using Suc.IH [OF n(1) Suc.prems(2)] False n(2) by auto
  qed
qed auto

lemma bn_mul_part_recursive_spec:
  assumes "n = 2 ^ k" "8 \<le> n" "tna < n" "tnb < n" "tna \<le> tnb + 1" "tnb \<le> tna + 1"
    and "n + tna \<le> length a" "n + tnb \<le> length b"
  shows "length (bn_mul_part_recursive old a b n tna tnb) = 4 * n"
    "wval (bn_mul_part_recursive old a b n tna tnb) = wval (take (n + tna) a) * wval (take (n + tnb) b)"
proof -
  have "length (bn_mul_part_recursive old a b n tna tnb) = 4 * n \<and>
    wval (bn_mul_part_recursive old a b n tna tnb) = wval (take (n + tna) a) * wval (take (n + tnb) b)"
    using assms
  proof (induction old a b n tna tnb arbitrary: k rule: bn_mul_part_recursive.induct)
    case (1 old a b n tna tnb)
    note p = "1.prems"
    have t: "tna \<le> n" "tnb \<le> n" using p(3,4) by simp_all
    obtain t0 nega t1 negb where t0: "bn_abs_sub_part_words a (drop n a) tna (int n - int tna) = (t0, nega)"
      and t1: "bn_abs_sub_part_words (drop n b) b tnb (int tnb - int n) = (t1, negb)" by fastforce
    have lt: "length t0 = n" "length t1 = n"
      using length_bn_abs_sub_part_words [OF t0] length_bn_abs_sub_part_words [OF t1] t by simp_all
    define i where "i = split_size n tna tnb"
    define low high t23 where
      "low = (if n = 8 then bn_mul_comba8 (take 8 a) (take 8 b) else bn_mul_recursive a b n 0 0)" and
      "high = (if n = 8 \<or> tna < 16 \<and> tnb < 16 then bn_mul_normal (drop n a) tna (drop n b) tnb
        else if i < tna \<or> i < tnb then bn_mul_part_recursive (replicate (n * 2) 0) (drop n a) (drop n b) i (tna - i) (tnb - i)
        else bn_mul_recursive (drop n a) (drop n b) i (int tna - int i) (int tnb - int i))" and
      "t23 = (if n = 8 then bn_mul_comba8 (take 8 t0) (take 8 t1) else bn_mul_recursive t0 t1 n 0 0)"
    have normal: "length (bn_mul_normal (drop n a) tna (drop n b) tnb) = tna + tnb"
      "wval (bn_mul_normal (drop n a) tna (drop n b) tnb) = wval (take tna (drop n a)) * wval (take tnb (drop n b))"
      using bn_mul_normal_spec [of tna "drop n a" tnb "drop n b"] p(7,8) by simp_all
    have e: "bn_mul_part_recursive old a b n tna tnb = mul_middle n (low @ high @ replicate (2 * n - length high) 0) t23 (nega XOR negb)"
    proof -
      have "replicate (n * 2 - tna - tnb) (0 :: limb) = replicate (2 * n - (tna + tnb)) 0" by (simp add: mult.commute)
      then show ?thesis
        using p(2) t0 t1 normal(1)
        by (subst bn_mul_part_recursive.simps) (auto simp: BN_MUL_RECURSIVE_SIZE_NORMAL_def Let_def low_def high_def t23_def i_def mult.commute)
    qed
    have full: "length (bn_mul_recursive x y n 0 0) = 2 * n \<and> wval (bn_mul_recursive x y n 0 0) = wval (take n x) * wval (take n y)"
      if "n \<le> length x" "n \<le> length y" for x y
      using bn_mul_recursive_spec [OF p(1,2), of 0 0 x y] that by simp
    have low: "length low = 2 * n" "wval low = wval (take n a) * wval (take n b)"
      using full [of a b] bn_mul_comba_spec(1) [of "take 8 a" "take 8 b"] p(7,8) by (simp_all add: low_def)
    have t23: "length t23 = 2 * n" "wval t23 = wval t0 * wval t1"
      using full [of t0 t1] bn_mul_comba_spec(1) [of t0 t1] lt by (simp_all add: t23_def)
    have high: "length high \<le> 2 * n \<and> wval high = wval (take tna (drop n a)) * wval (take tnb (drop n b))"
    proof (cases "n = 8 \<or> tna < 16 \<and> tnb < 16")
      case True
      then show ?thesis using normal p(3,4) by (auto simp: high_def)
    next
      case False
      then have big: "n \<noteq> 8" "16 \<le> tna \<or> 16 \<le> tnb" by auto
      obtain j where i: "i = 2 ^ j" "16 \<le> i" "2 * i \<le> n" "tna < 2 * i" "tnb < 2 * i" "i \<le> tna \<or> i \<le> tnb"
        using split_size_spec [OF p(1) big(2) p(3,4)] unfolding i_def [symmetric] by auto
      show ?thesis
      proof (cases "i < tna \<or> i < tnb")
        case True
        then have le: "i \<le> tna" "i \<le> tnb" using p(5,6) by linarith+
        have "length (bn_mul_part_recursive (replicate (n * 2) 0) (drop n a) (drop n b) i (tna - i) (tnb - i)) = 4 * i \<and>
          wval (bn_mul_part_recursive (replicate (n * 2) 0) (drop n a) (drop n b) i (tna - i) (tnb - i)) =
            wval (take (i + (tna - i)) (drop n a)) * wval (take (i + (tnb - i)) (drop n b))"
        proof (rule "1.IH" [of "n * 2" "(t0, nega)" t0 nega "(t1, negb)" t1 negb "nega XOR negb" i j])
          show "i = 2 ^ j" "8 \<le> i" using i by simp_all
          show "tna - i < i" "tnb - i < i" "tna - i \<le> tnb - i + 1" "tnb - i \<le> tna - i + 1" using i(4,5) le p(5,6) by linarith+
          show "i + (tna - i) \<le> length (drop n a)" "i + (tnb - i) \<le> length (drop n b)" using le p(7,8) by simp_all
        qed (use p(2) big True t0 t1 in \<open>auto simp: BN_MUL_RECURSIVE_SIZE_NORMAL_def i_def\<close>)
        then show ?thesis using False True le i(3) by (auto simp: high_def)
      next
        case 2: False
        have "bn_mul_recursive (drop n a) (drop n b) i (int tna - int i) (int tnb - int i) = high" using False 2 by (auto simp: high_def)
        moreover have "length (bn_mul_recursive (drop n a) (drop n b) i (int tna - int i) (int tnb - int i)) = 2 * i \<and>
          wval (bn_mul_recursive (drop n a) (drop n b) i (int tna - int i) (int tnb - int i)) = wval (take tna (drop n a)) * wval (take tnb (drop n b))"
        proof -
          have "8 \<le> i" "- 8 \<le> int tna - int i" "int tna - int i \<le> 0" "- 8 \<le> int tnb - int i" "int tnb - int i \<le> 0"
            using i(2,6) 2 p(5,6) by linarith+
          from bn_mul_recursive_spec [OF i(1) this, of "drop n a" "drop n b"] show ?thesis using p(7,8) by simp
        qed
        ultimately show ?thesis using i(3) by simp
      qed
    qed
    have r: "length (low @ high @ replicate (2 * n - length high) 0) = 4 * n"
      "wval (take (2 * n) (low @ high @ replicate (2 * n - length high) 0)) = wval (take n a) * wval (take n b)"
      "wval (drop (2 * n) (low @ high @ replicate (2 * n - length high) 0)) = wval (take tna (drop n a)) * wval (take tnb (drop n b))"
      using padded_product [OF low(1) conjunct1 [OF high]] conjunct2 [OF high] low(2) by simp_all
    show ?case unfolding e using mul_level [OF _ t p(7,8) t0 t1 r t23] p(2) by simp
  qed
  then show "length (bn_mul_part_recursive old a b n tna tnb) = 4 * n"
    "wval (bn_mul_part_recursive old a b n tna tnb) = wval (take (n + tna) a) * wval (take (n + tnb) b)" by blast+
qed


end
