(* ===== verification/Bn_Product.thy ===== *)
theory Bn_Product
  imports Bn_Mul
begin

text \<open>
  \<^verbatim>\<open>crypto/fipsmodule/bn/mul.c\<close>: products and squares of big integers, by the routines on limbs.
\<close>

section \<open>Code\<close>

text \<open>Behind the label \<open>end\<close>: the product is copied when it was made in an object of the context.\<close>

definition mul_end :: "allocator \<Rightarrow> bool \<Rightarrow> bignum \<Rightarrow> bignum \<Rightarrow> bool \<times> bignum" where
  "mul_end m alias r rr = (if alias then BN_copy m r rr else (True, rr))"

text \<open>Storing the limbs of a product in an object that is made large enough.\<close>

definition store_product :: "allocator \<Rightarrow> bool \<Rightarrow> bignum \<Rightarrow> bignum \<Rightarrow> nat \<Rightarrow> nat \<Rightarrow> (limb list \<Rightarrow> limb list) \<Rightarrow> bool \<times> bignum" where
  "store_product m alias r rr words width product =
     (case bn_wexpand m rr words of
        (ok, rr) \<Rightarrow>
          if \<not> ok then (False, if alias then r else rr)
          else mul_end m alias r (rr\<lparr>bn_d := product (bn_d rr) @ drop words (bn_d rr), bn_width := width\<rparr>))"

definition kMulNormalSize :: nat where
  "kMulNormalSize = 16"

definition bn_mul_impl :: "allocator \<Rightarrow> (nat \<Rightarrow> bignum option) \<Rightarrow> bool \<Rightarrow> bignum \<Rightarrow> bignum \<Rightarrow> bignum \<Rightarrow> bool \<times> bignum" where
  "bn_mul_impl m ctx alias r a b =
     (let al = bn_width a; bl = bn_width b in
      if al = 0 \<or> bl = 0 then (True, BN_zero r)
      else
        case (if alias then ctx 0 else Some r) of
          None \<Rightarrow> (False, r)
        | Some rr \<Rightarrow>
            let rr = rr\<lparr>bn_neg := (bn_neg a \<noteq> bn_neg b)\<rparr>; i = int al - int bl in
            if i = 0 \<and> al = 8 then
              store_product m alias r rr 16 16 (\<lambda>_. bn_mul_comba8 (take 8 (bn_d a)) (take 8 (bn_d b)))
            else
              let top = al + bl in
              if kMulNormalSize \<le> al \<and> kMulNormalSize \<le> bl \<and> -1 \<le> i \<and> i \<le> 1 then
                let j = (if 0 \<le> i then BN_num_bits_word (word_of_nat al) else BN_num_bits_word (word_of_nat bl));
                    j = push_bit (j - 1) 1 in
                case ctx (if alias then 1 else 0) of
                  None \<Rightarrow> (False, if alias then r else rr)
                | Some t \<Rightarrow>
                    if j < al \<or> j < bl then
                      if \<not> fst (bn_wexpand m t (j * 8)) then (False, if alias then r else rr)
                      else store_product m alias r rr (j * 4) top (\<lambda>old. bn_mul_part_recursive old (bn_d a) (bn_d b) j (al - j) (bl - j))
                    else
                      if \<not> fst (bn_wexpand m t (j * 4)) then (False, if alias then r else rr)
                      else store_product m alias r rr (j * 2) top (\<lambda>_. bn_mul_recursive (bn_d a) (bn_d b) j (int al - int j) (int bl - int j))
              else store_product m alias r rr top top (\<lambda>_. bn_mul_normal (bn_d a) al (bn_d b) bl))"

definition BN_mul :: "allocator \<Rightarrow> (nat \<Rightarrow> bignum option) \<Rightarrow> bool \<Rightarrow> bignum \<Rightarrow> bignum \<Rightarrow> bignum \<Rightarrow> bool \<times> bignum" where
  "BN_mul m ctx alias r a b =
     (case bn_mul_impl m ctx alias r a b of (ok, r) \<Rightarrow> if \<not> ok then (False, r) else (True, bn_set_minimal_width r))"

definition bn_mul_consttime :: "allocator \<Rightarrow> (nat \<Rightarrow> bignum option) \<Rightarrow> bool \<Rightarrow> bignum \<Rightarrow> bignum \<Rightarrow> bignum \<Rightarrow> bool \<times> bignum" where
  "bn_mul_consttime m ctx alias r a b = (if bn_neg a \<or> bn_neg b then (False, r) else bn_mul_impl m ctx alias r a b)"

text \<open>\<open>None\<close> is the call of \<open>abort\<close>.\<close>

definition bn_mul_small :: "nat \<Rightarrow> limb list \<Rightarrow> nat \<Rightarrow> limb list \<Rightarrow> nat \<Rightarrow> limb list option" where
  "bn_mul_small num_r a num_a b num_b =
     (if num_r \<noteq> num_a + num_b then None
      else if num_a = 8 \<and> num_b = 8 then Some (bn_mul_comba8 a b)
      else Some (bn_mul_normal a num_a b num_b))"

text \<open>
  The rows of a square: row \<open>k\<close> is the product of the limbs behind limb \<open>k\<close> with it, and is added at limb \<open>2 * k + 1\<close>; \<open>r\<close> are the limbs
  that are there by then, \<open>n + k\<close> of them.
\<close>

function sqr_rows :: "limb list \<Rightarrow> nat \<Rightarrow> nat \<Rightarrow> limb list \<Rightarrow> limb list" where
  "sqr_rows a n k r =
     (if k + 1 < n then
        (let i = n - 1 - k; (ws, c) = bn_mul_add_words (drop (2 * k + 1) r) (drop (k + 1) a) i (a ! k)
         in sqr_rows a n (k + 1) (take (2 * k + 1) r @ ws @ [c]))
      else r)"
  by pat_completeness auto
termination by (relation "measure (\<lambda>(a, n, k, r). n - k)") auto

declare sqr_rows.simps [simp del]

definition bn_sqr_normal :: "limb list \<Rightarrow> nat \<Rightarrow> limb list" where
  "bn_sqr_normal a n =
     (if n = 0 then []
      else
        let r = (if 1 < n then (case bn_mul_words (drop 1 a) (n - 1) (a ! 0) of (ws, c) \<Rightarrow> [0] @ ws @ [c]) else [0]);
            r = sqr_rows a n 1 r @ [0];
            r = fst (bn_add_words r r (2 * n));
            tmp = bn_sqr_words a n
        in fst (bn_add_words r tmp (2 * n)))"

function bn_sqr_recursive :: "limb list \<Rightarrow> nat \<Rightarrow> limb list" where
  "bn_sqr_recursive a n2 =
     (if n2 = 4 then bn_sqr_comba4 (take 4 a)
      else if n2 = 8 then bn_sqr_comba8 (take 8 a)
      else if n2 < BN_MUL_RECURSIVE_SIZE_NORMAL then bn_sqr_normal a n2
      else
        let n = n2 div 2;
            t0 = bn_abs_sub_words a (drop n a) n;
            t23 = bn_sqr_recursive t0 n;
            r = bn_sqr_recursive a n @ bn_sqr_recursive (drop n a) n;
            (t01, c) = bn_add_words r (drop n2 r) n2;
            (t23, borrow) = bn_sub_words t01 t23 n2;
            c = c - borrow;
            (r12, carry) = bn_add_words (drop n r) t23 n2;
            c = c + carry;
            (r3, _) = carry_loop c (take (n2 + n2 - (n + n2)) (drop (n + n2) r))
        in take n r @ r12 @ r3)"
  by pat_completeness auto
termination
  by (relation "measure (\<lambda>(a, n2). n2)") (auto simp: BN_MUL_RECURSIVE_SIZE_NORMAL_def)

declare bn_sqr_recursive.simps [simp del]

definition BN_mul_word :: "allocator \<Rightarrow> bignum \<Rightarrow> limb \<Rightarrow> bool \<times> bignum" where
  "BN_mul_word m bn w =
     (if bn_width bn = 0 then (True, bn)
      else if w = 0 then (True, BN_zero bn)
      else
        let (ws, ll) = bn_mul_words (bn_d bn) (bn_width bn) w; bn = bn\<lparr>bn_d := ws @ drop (bn_width bn) (bn_d bn)\<rparr> in
        if ll \<noteq> 0 then
          (case bn_wexpand m bn (bn_width bn + 1) of
             (ok, bn) \<Rightarrow>
               if \<not> ok then (False, bn)
               else (True, bn\<lparr>bn_d := (bn_d bn)[bn_width bn := ll], bn_width := bn_width bn + 1\<rparr>))
        else (True, bn))"

definition bn_sqr_consttime :: "allocator \<Rightarrow> (nat \<Rightarrow> bignum option) \<Rightarrow> bool \<Rightarrow> bignum \<Rightarrow> bignum \<Rightarrow> bool \<times> bignum" where
  "bn_sqr_consttime m ctx alias r a =
     (let al = bn_width a in
      if al = 0 then (True, r\<lparr>bn_width := 0, bn_neg := False\<rparr>)
      else
        case (if \<not> alias then Some r else ctx 0, ctx (if \<not> alias then 0 else 1)) of
          (Some rr, Some tmp) \<Rightarrow>
            let max = 2 * al in
            (case bn_wexpand m rr max of
               (ok, rr) \<Rightarrow>
                 if \<not> ok then (False, if alias then r else rr)
                 else
                   let d = (if al = 4 then Some (bn_sqr_comba4 (take 4 (bn_d a)))
                            else if al = 8 then Some (bn_sqr_comba8 (take 8 (bn_d a)))
                            else if al < BN_MUL_RECURSIVE_SIZE_NORMAL then Some (bn_sqr_normal (bn_d a) al)
                            else if al \<noteq> 0 \<and> al AND (al - 1) = 0
                            then (if fst (bn_wexpand m tmp (al * 4)) then Some (bn_sqr_recursive (bn_d a) al) else None)
                            else (if fst (bn_wexpand m tmp max) then Some (bn_sqr_normal (bn_d a) al) else None))
                   in case d of
                        None \<Rightarrow> (False, if alias then r else rr)
                      | Some d \<Rightarrow> mul_end m alias r (rr\<lparr>bn_d := d @ drop max (bn_d rr), bn_neg := False, bn_width := max\<rparr>))
        | _ \<Rightarrow> (False, r))"

definition BN_sqr :: "allocator \<Rightarrow> (nat \<Rightarrow> bignum option) \<Rightarrow> bool \<Rightarrow> bignum \<Rightarrow> bignum \<Rightarrow> bool \<times> bignum" where
  "BN_sqr m ctx alias r a =
     (case bn_sqr_consttime m ctx alias r a of (ok, r) \<Rightarrow> if \<not> ok then (False, r) else (True, bn_set_minimal_width r))"

definition BN_SMALL_MAX_WORDS :: nat where
  "BN_SMALL_MAX_WORDS = 9"

definition bn_sqr_small :: "nat \<Rightarrow> limb list \<Rightarrow> nat \<Rightarrow> limb list option" where
  "bn_sqr_small num_r a num_a =
     (if num_r \<noteq> 2 * num_a \<or> BN_SMALL_MAX_WORDS < num_a then None
      else if num_a = 4 then Some (bn_sqr_comba4 a)
      else if num_a = 8 then Some (bn_sqr_comba8 a)
      else Some (bn_sqr_normal a num_a))"

section \<open>Squares of limbs\<close>

text \<open>The products of different limbs, each once.\<close>

fun cross :: "limb list \<Rightarrow> nat" where
  "cross [] = 0"
| "cross (x # xs) = BN_BASE * (unat x * wval xs) + BN_BASE ^ 2 * cross xs"

lemma wval_square: "wval xs ^ 2 = squares xs + 2 * cross xs"
proof (induction xs)
  case (Cons x xs)
  have "wval (x # xs) ^ 2 = unat x ^ 2 + 2 * (BN_BASE * (unat x * wval xs)) + BN_BASE ^ 2 * wval xs ^ 2" by (simp add: power2_sum power_mult_distrib)
  then show ?case unfolding Cons by (simp add: algebra_simps)
qed simp

lemma sqr_rows_spec:
  assumes "n \<le> length a" "length r = n + k" "k \<le> n"
  shows "length (sqr_rows a n k r) = n + k + (n - 1 - k) \<and> wval (sqr_rows a n k r) = wval r + BN_BASE ^ (2 * k) * cross (drop k (take n a))"
  using assms
proof (induction a n k r rule: sqr_rows.induct)
  case (1 a n k r)
  show ?case
  proof (cases "k + 1 < n")
    case False
    then have "length (drop k (take n a)) \<le> 1" using "1.prems" by simp
    then have "drop k (take n a) = [] \<or> (\<exists>x. drop k (take n a) = [x])" by (cases "drop k (take n a)") auto
    then show ?thesis using False "1.prems" by (subst (1 2) sqr_rows.simps) auto
  next
    case True
    define i where "i = n - 1 - k"
    have l: "i \<le> length (drop (2 * k + 1) r)" "i \<le> length (drop (k + 1) a)" using "1.prems" True by (simp_all add: i_def)
    obtain ws c where m: "bn_mul_add_words (drop (2 * k + 1) r) (drop (k + 1) a) i (a ! k) = (ws, c)" "length ws = i"
      "wval ws + BN_BASE ^ i * unat c = wval (take i (drop (2 * k + 1) r)) + wval (take i (drop (k + 1) a)) * unat (a ! k)"
      by (rule bn_mul_add_words_spec [OF l])
    let ?r = "take (2 * k + 1) r @ ws @ [c]"
    have t: "take i (drop (k + 1) a) = drop (k + 1) (take n a)" "take i (drop (2 * k + 1) r) = drop (2 * k + 1) r"
      using "1.prems" True by (simp_all add: i_def drop_take)
    have d: "drop k (take n a) = a ! k # drop (k + 1) (take n a)" using "1.prems" True by (simp add: Cons_nth_drop_Suc [symmetric])
    have "wval ?r = wval (take (2 * k + 1) r) + BN_BASE ^ (2 * k + 1) * (wval ws + BN_BASE ^ i * unat c)"
      using "1.prems" True m(2) by (simp add: wval_append algebra_simps)
    also have "\<dots> = wval r + BN_BASE ^ (2 * k + 1) * (unat (a ! k) * wval (drop (k + 1) (take n a)))"
      unfolding m(3) t using wval_split [of r "2 * k + 1"] "1.prems" True by (simp add: algebra_simps)
    finally have v: "wval ?r = wval r + BN_BASE ^ (2 * k + 1) * (unat (a ! k) * wval (drop (k + 1) (take n a)))" .
    have e: "sqr_rows a n k r = sqr_rows a n (k + 1) ?r"
      using True m(1) by (subst sqr_rows.simps) (simp add: i_def)
    have "length ?r = n + (k + 1)" using "1.prems" True m(2) by (simp add: i_def)
    from "1.IH" [OF True i_def m(1) [symmetric] refl "1.prems"(1) this] True
    have IH: "length (sqr_rows a n (k + 1) ?r) = n + (k + 1) + (n - 1 - (k + 1)) \<and>
      wval (sqr_rows a n (k + 1) ?r) = wval ?r + BN_BASE ^ (2 * (k + 1)) * cross (drop (k + 1) (take n a))" by simp
    have "BN_BASE ^ (2 * k) * cross (drop k (take n a)) =
        BN_BASE ^ (2 * k + 1) * (unat (a ! k) * wval (drop (k + 1) (take n a))) + BN_BASE ^ (2 * (k + 1)) * cross (drop (k + 1) (take n a))"
      unfolding d by (simp add: power2_eq_square algebra_simps)
    then show ?thesis unfolding e using IH v True by simp
  qed
qed

lemma bn_sqr_normal_spec:
  assumes "n \<le> length a"
  shows "length (bn_sqr_normal a n) = 2 * n" "wval (bn_sqr_normal a n) = wval (take n a) ^ 2"
proof -
  have "length (bn_sqr_normal a n) = 2 * n \<and> wval (bn_sqr_normal a n) = wval (take n a) ^ 2"
  proof (cases "n = 0")
    case False
    define r0 where "r0 = (if 1 < n then (case bn_mul_words (drop 1 a) (n - 1) (a ! 0) of (ws, c) \<Rightarrow> [0] @ ws @ [c]) else [0])"
    define r1 where "r1 = sqr_rows a n 1 r0 @ [0]"
    obtain x xs where x: "a = x # xs" using assms False by (cases a) auto
    have r1: "length r1 = 2 * n \<and> wval r1 = cross (take n a)"
    proof (cases "1 < n")
      case True
      have l: "n - 1 \<le> length (drop 1 a)" using assms by simp
      obtain ws c where m: "bn_mul_words (drop 1 a) (n - 1) (a ! 0) = (ws, c)" "length ws = n - 1"
        "wval ws + BN_BASE ^ (n - 1) * unat c = wval (take (n - 1) (drop 1 a)) * unat (a ! 0)" by (rule bn_mul_words_spec [OF l])
      have r0: "r0 = 0 # ws @ [c]" using True m(1) by (simp add: r0_def)
      have "wval r0 = BN_BASE * (unat x * wval (take (n - 1) xs))" using m(2,3) x unfolding r0 by (simp add: wval_snoc mult.commute)
      moreover have "take n a = x # take (n - 1) xs" using True x by (cases n) simp_all
      ultimately show ?thesis using sqr_rows_spec [OF assms, of r0 1] True m(2) by (simp add: r1_def r0 wval_append)
    next
      case 1: False
      then have n: "n = 1" using False by simp
      have "sqr_rows a n 1 [0] = [0]" unfolding n by (subst sqr_rows.simps) simp
      then show ?thesis using n x by (simp add: r1_def r0_def)
    qed
    have less: "wval (take n a) ^ 2 < BN_BASE ^ (2 * n)"
    proof -
      have "wval (take n a) < BN_BASE ^ n" using wval_less [of "take n a"] assms by simp
      then have "wval (take n a) ^ 2 < (BN_BASE ^ n) ^ 2" by (intro power_strict_mono) simp_all
      then show ?thesis by (simp add: power_mult [symmetric] mult.commute)
    qed
    have nc: "unat c = 0" if "v + BN_BASE ^ (2 * n) * unat c \<le> wval (take n a) ^ 2" for v and c :: limb
    proof (rule ccontr)
      assume "unat c \<noteq> 0"
      then have "BN_BASE ^ (2 * n) * 1 \<le> BN_BASE ^ (2 * n) * unat c" by (intro mult_le_mono2) simp
      then show False using that less by linarith
    qed
    have l: "2 * n \<le> length r1" "2 * n \<le> length (bn_sqr_words a n)" using r1 bn_sqr_words_spec(1) [OF assms] by simp_all
    obtain r2 c2 where 2: "bn_add_words r1 r1 (2 * n) = (r2, c2)" "length r2 = 2 * n" "wval r2 + BN_BASE ^ (2 * n) * unat c2 = 2 * cross (take n a)"
    proof (rule bn_add_words_spec [OF l(1) l(1)])
      fix rs c assume "bn_add_words r1 r1 (2 * n) = (rs, c)" "length rs = 2 * n"
        "wval rs + BN_BASE ^ (2 * n) * unat c = wval (take (2 * n) r1) + wval (take (2 * n) r1)"
      then show thesis using r1 by (intro that [of rs c]) simp_all
    qed
    have v2: "wval r2 = 2 * cross (take n a)" using nc [of "wval r2" c2] 2(3) wval_square [of "take n a"] by simp
    have l2: "2 * n \<le> length r2" by (simp add: 2)
    obtain r3 c3 where 3: "bn_add_words r2 (bn_sqr_words a n) (2 * n) = (r3, c3)" "length r3 = 2 * n"
      "wval r3 + BN_BASE ^ (2 * n) * unat c3 = 2 * cross (take n a) + squares (take n a)"
    proof (rule bn_add_words_spec [OF l2 l(2)])
      fix rs c assume "bn_add_words r2 (bn_sqr_words a n) (2 * n) = (rs, c)" "length rs = 2 * n"
        "wval rs + BN_BASE ^ (2 * n) * unat c = wval (take (2 * n) r2) + wval (take (2 * n) (bn_sqr_words a n))"
      then show thesis using 2(2) v2 bn_sqr_words_spec(1) [OF assms] bn_sqr_words_spec(2) [of a n] by (intro that [of rs c]) simp_all
    qed
    have "wval r3 = wval (take n a) ^ 2" using nc [of "wval r3" c3] 3(3) wval_square [of "take n a"] by simp
    moreover have "bn_sqr_normal a n = r3"
      unfolding bn_sqr_normal_def if_not_P [OF False] Let_def r0_def [symmetric] r1_def [symmetric] by (simp add: 2(1) 3(1))
    ultimately show ?thesis using 3(2) by simp
  qed (simp add: bn_sqr_normal_def)
  then show "length (bn_sqr_normal a n) = 2 * n" "wval (bn_sqr_normal a n) = wval (take n a) ^ 2" by blast+
qed


text \<open>The last part of the recursion is that of the multiplication with a negative third product.\<close>

lemma sqr_middle:
  assumes "length r = 4 * n" "length t23 = 2 * n"
  shows "(let (t01, c) = bn_add_words r (drop (2 * n) r) (2 * n);
        (t23, borrow) = bn_sub_words t01 t23 (2 * n);
        c = c - borrow;
        (r12, carry) = bn_add_words (drop n r) t23 (2 * n);
        c = c + carry;
        (r3, _) = carry_loop c (take (2 * n + 2 * n - (n + 2 * n)) (drop (n + 2 * n) r))
      in take n r @ r12 @ r3) = mul_middle n r t23 (ct_mask True)"
proof -
  have l: "2 * n \<le> length r" "2 * n \<le> length (drop (2 * n) r)" "2 * n \<le> length t23" using assms by simp_all
  obtain t01 c where 1: "bn_add_words r (drop (2 * n) r) (2 * n) = (t01, c)" "length t01 = 2 * n" by (rule bn_add_words_spec [OF l(1,2)])
  have l1: "2 * n \<le> length t01" by (simp add: 1)
  obtain t45 bw where 2: "bn_sub_words t01 t23 (2 * n) = (t45, bw)" "length t45 = 2 * n" by (rule bn_sub_words_spec [OF l1 l(3)])
  obtain t23' cy where 3: "bn_add_words t01 t23 (2 * n) = (t23', cy)" "length t23' = 2 * n" by (rule bn_add_words_spec [OF l1 l(3)])
  have "bn_select_words (ct_mask True) t45 t23' (2 * n) = t45" using 2(2) 3(2) by (simp add: bn_select_words_spec)
  moreover have "constant_time_select_w (ct_mask True) (c - bw) (c + cy) = c - bw" by (simp add: select_w_mask)
  ultimately show ?thesis
    by (simp only: mul_middle_def Let_def mult.commute [of n 2] 1(1) 2(1) 3(1) prod.case)
qed

lemma bn_sqr_recursive_spec:
  assumes "n2 = 2 ^ k" "8 \<le> n2" "n2 \<le> length a"
  shows "length (bn_sqr_recursive a n2) = 2 * n2" "wval (bn_sqr_recursive a n2) = wval (take n2 a) ^ 2"
proof -
  have "length (bn_sqr_recursive a n2) = 2 * n2 \<and> wval (bn_sqr_recursive a n2) = wval (take n2 a) ^ 2"
    using assms
  proof (induction k arbitrary: n2 a)
    case (Suc k)
    have p2: "n2 = 8 \<or> 16 \<le> n2"
    proof -
      have "8 \<le> (2 :: nat) * 2 ^ k" using Suc.prems(1,2) by simp
      then have "2 ^ 1 < (2 :: nat) ^ k" by simp
      then have "1 < k" using power_less_imp_less_exp [of 2 1 k] by simp
      then consider "k = 2" | "3 \<le> k" by linarith
      then show ?thesis
      proof cases
        case 2
        then have "(2 :: nat) ^ 3 \<le> 2 ^ k" by (intro power_increasing) simp_all
        then show ?thesis using Suc.prems(1) by simp
      qed (simp add: Suc.prems(1))
    qed
    show ?case
    proof (cases "n2 = 8")
      case True
      then show ?thesis using bn_sqr_comba_spec(1) [of "take 8 a"] Suc.prems(3) by (subst (1 2) bn_sqr_recursive.simps) simp
    next
      case False
      then have big: "16 \<le> n2" using p2 by simp
      define n where "n = n2 div 2"
      have n: "n2 = 2 * n" "n = 2 ^ k" "8 \<le> n" using power_of_two_half [OF Suc.prems(1) big] by (simp_all add: n_def)
      have l: "n \<le> length a" "n \<le> length (drop n a)" using Suc.prems(3) n by simp_all
      define t0 t23 r where "t0 = bn_abs_sub_words a (drop n a) n" and "t23 = bn_sqr_recursive t0 n"
        and "r = bn_sqr_recursive a n @ bn_sqr_recursive (drop n a) n"
      have t0: "length t0 = n" "wval t0 = distance (wval (take n a)) (wval (take n (drop n a)))"
        using bn_abs_sub_words_spec [OF l] by (simp_all add: t0_def)
      have t23: "length t23 = 2 * n" "wval t23 = distance (wval (take n a)) (wval (take n (drop n a))) ^ 2"
        using Suc.IH [OF n(2,3), of t0] t0 by (simp_all add: t23_def)
      have r: "length r = 4 * n" "wval (take n a) ^ 2 = wval (take (2 * n) r)" "wval (take n (drop n a)) ^ 2 = wval (drop (2 * n) r)"
        using Suc.IH [OF n(2,3) l(1)] Suc.IH [OF n(2,3) l(2)] by (simp_all add: r_def)
      have e: "bn_sqr_recursive a n2 = mul_middle n r t23 (ct_mask True)"
      proof -
        have no: "n2 \<noteq> 4" "n2 \<noteq> 8" "\<not> n2 < BN_MUL_RECURSIVE_SIZE_NORMAL" using big by (simp_all add: BN_MUL_RECURSIVE_SIZE_NORMAL_def)
        show ?thesis
          unfolding bn_sqr_recursive.simps [of a n2] if_not_P [OF no(1)] if_not_P [OF no(2)] if_not_P [OF no(3)] Let_def
            n_def [symmetric] t0_def [symmetric] t23_def [symmetric] r_def [symmetric]
          unfolding n(1) by (rule sqr_middle [OF r(1) t23(1), unfolded Let_def])
      qed
      define x y where "x = wval (take n a)" and "y = wval (take n (drop n a))"
      have M: "if True then 2 * (x * y) + distance x y ^ 2 = x ^ 2 + y ^ 2 else 2 * (x * y) = x ^ 2 + y ^ 2 + distance x y ^ 2"
      proof -
        have "2 * (u * (u + d)) + (u + d - u) ^ 2 = u ^ 2 + (u + d) ^ 2" for u d :: nat by (simp add: power2_eq_square algebra_simps)
        then have "2 * (u * v) + (v - u) ^ 2 = u ^ 2 + v ^ 2" if "u \<le> v" for u v :: nat
          using that by (metis le_add_diff_inverse)
        from this [of x y] this [of y x] show ?thesis by (cases "x < y") (simp_all add: distance_def mult.commute add.commute)
      qed
      have v: "wval (take n2 a) = x + BN_BASE ^ n * y" using Suc.prems(3) by (simp add: n(1) mult_2 take_add wval_append x_def y_def)
      have sq: "wval (take n2 a) ^ 2 = x ^ 2 + BN_BASE ^ n * (2 * (x * y)) + BN_BASE ^ (2 * n) * y ^ 2"
        unfolding v power2_eq_square mult_2 power_add by (simp only: algebra_simps)
      have "wval (take n2 a) < BN_BASE ^ (2 * n)" using wval_less [of "take n2 a"] Suc.prems(3) n(1) by simp
      then have "wval (take n2 a) ^ 2 < (BN_BASE ^ (2 * n)) ^ 2" by (intro power_strict_mono) simp_all
      then have total: "x ^ 2 + BN_BASE ^ n * (2 * (x * y)) + BN_BASE ^ (2 * n) * y ^ 2 < BN_BASE ^ (4 * n)"
        unfolding sq by (simp flip: power_mult)
      note m = mul_middle_spec [OF r(1) t23(1) r(2,3) [folded x_def y_def] t23(2) [folded x_def y_def, symmetric] M total]
      show ?thesis unfolding e sq using m n(1) by simp
    qed
  qed simp
  then show "length (bn_sqr_recursive a n2) = 2 * n2" "wval (bn_sqr_recursive a n2) = wval (take n2 a) ^ 2" by blast+
qed


section \<open>Products of big integers\<close>

text \<open>What a context hands out are proper objects.\<close>

definition ctx_ok :: "(nat \<Rightarrow> bignum option) \<Rightarrow> bool" where
  "ctx_ok ctx \<longleftrightarrow> (\<forall>i x. ctx i = Some x \<longrightarrow> bn_ok x)"

text \<open>The limbs that the products need, of the result and of the temporary objects.\<close>

definition mul_full :: "allocator \<Rightarrow> (nat \<Rightarrow> bignum option) \<Rightarrow> bignum \<Rightarrow> nat \<Rightarrow> bool" where
  "mul_full m ctx r words \<longleftrightarrow> (\<exists>i. ctx i = None) \<or> bn_full m r words \<or> (\<exists>i t. ctx i = Some t \<and> bn_full m t words)"

lemma bn_full_mono: "bn_full m bn k \<Longrightarrow> k \<le> l \<Longrightarrow> bn_full m bn l"
  by (auto simp: bn_full_def)

lemma bn_full_neg: "bn_full m (bn\<lparr>bn_neg := neg\<rparr>) k = bn_full m bn k" for m bn neg k
  by (simp add: bn_full_def bn_static_def)

lemma bn_wexpand_fst: "\<not> fst (bn_wexpand m bn k) \<Longrightarrow> bn_full m bn k"
  using bn_wexpand_fail [of m bn k "snd (bn_wexpand m bn k)"] by (cases "bn_wexpand m bn k") auto

lemma store_product_spec:
  assumes rr: "bn_ok rr" and r: "bn_ok r" "\<not> alias \<Longrightarrow> r\<lparr>bn_neg := bn_neg rr\<rparr> = rr" and w: "w \<le> words"
    and pr: "\<And>old. words \<le> length old \<Longrightarrow> length (product old) = words \<and> wval (product old) = v" and v: "v < BN_BASE ^ w"
    and e: "store_product m alias r rr words w product = (ok, r')"
  shows "bn_ok r' \<and> (if ok then bn_abs r' = v \<and> bn_neg r' = bn_neg rr
    else bn_limbs r' = bn_limbs r \<and> (bn_full m rr words \<or> bn_full m r w))"
proof (cases rule: bn_wexpand_cases [OF rr, of m words, case_names expanded full])
  case (expanded d)
  define s where "s = d\<lparr>bn_d := product (bn_d d) @ drop words (bn_d d), bn_width := w\<rparr>"
  have l: "length (product (bn_d d)) = words" "wval (product (bn_d d)) = v" using pr [OF expanded(4)] by simp_all
  have "wval (take w (product (bn_d d))) = v" using v l wval_mod [of "product (bn_d d)" w] by simp
  then have s: "bn_ok s" "bn_abs s = v" "bn_neg s = bn_neg rr" "bn_width s = w"
    using expanded(2-4) expanded(7) l w by (simp_all add: s_def bn_ok_def bn_abs_def bn_limbs_def)
  have "store_product m alias r rr words w product = mul_end m alias r s" by (simp add: store_product_def expanded(1) s_def)
  then have e': "mul_end m alias r s = (ok, r')" using e by simp
  show ?thesis
  proof (cases "alias")
    case True
    then have "BN_copy m r s = (ok, r')" using e' by (simp add: mul_end_def)
    from BN_copy_spec [OF r(1) s(1) this] show ?thesis using s r(1) by (auto simp: bn_abs_def split: if_splits)
  qed (use e' s in \<open>auto simp: mul_end_def\<close>)
next
  case full
  then have "ok = False" "r' = (if alias then r else rr)" using e by (simp_all add: store_product_def)
  moreover have "bn_limbs (r\<lparr>bn_neg := bn_neg rr\<rparr>) = bn_limbs r" by (simp add: bn_limbs_def)
  then have "\<not> alias \<Longrightarrow> bn_limbs rr = bn_limbs r" using r(2) by simp
  ultimately show ?thesis using rr r(1) full(2) by simp
qed

text \<open>The size for Karatsuba multiplication.\<close>

lemma mul_size:
  assumes "0 < n" "n < BN_BASE" "j = push_bit (BN_num_bits_word (word_of_nat n) - 1) 1"
  shows "\<exists>k. j = 2 ^ k" "j \<le> n" "n < 2 * j"
proof -
  define b where "b = num_bits n"
  have w: "BN_num_bits_word (word_of_nat n) = b" using assms(2) by (simp add: BN_num_bits_word_spec unat_of_nat_limb b_def)
  have "b \<noteq> 0" using num_bits_le [of n 0] assms(1) by (simp add: b_def)
  then obtain k where k: "b = Suc k" by (cases b) auto
  have j: "j = 2 ^ k" unfolding assms(3) w k by (simp add: push_bit_eq_mult)
  show "\<exists>k. j = 2 ^ k" "j \<le> n" "n < 2 * j" using j num_bits_le [of n k] num_bits_le [of n b] k by (auto simp: b_def)
qed

lemma bn_mul_impl_spec:
  assumes r: "bn_ok r" and a: "bn_ok a" and b: "bn_ok b" and c: "ctx_ok ctx" and e: "bn_mul_impl m ctx alias r a b = (ok, r')"
  shows "bn_ok r' \<and> (if ok then bn_abs r' = bn_abs a * bn_abs b \<and> (bn_abs a * bn_abs b \<noteq> 0 \<longrightarrow> (bn_neg r' \<longleftrightarrow> bn_neg a \<noteq> bn_neg b)) \<and>
      (bn_width a = 0 \<or> bn_width b = 0 \<longrightarrow> \<not> bn_neg r') \<and> (bn_neg r' \<longrightarrow> bn_neg a \<noteq> bn_neg b)
    else bn_limbs r' = bn_limbs r \<and> mul_full m ctx r (8 * (bn_width a + bn_width b)))"
proof (cases "bn_width a = 0 \<or> bn_width b = 0")
  case True
  then have "bn_abs a * bn_abs b = 0" by (auto simp: bn_abs_def bn_limbs_def)
  moreover have "ok" "r' = BN_zero r" using e True by (auto simp: bn_mul_impl_def)
  ultimately show ?thesis using r by (simp add: BN_zero_def bn_ok_def bn_abs_def bn_limbs_def)
next
  case False
  define al bl neg W where "al = bn_width a" and "bl = bn_width b" and "neg = (bn_neg a \<noteq> bn_neg b)" and "W = 8 * (al + bl)"
  have lim: "al \<le> 2 ^ 23" "bl \<le> 2 ^ 23" using a b by (auto simp: bn_ok_def al_def bl_def)
  have pos: "0 < al" "0 < bl" using False by (simp_all add: al_def bl_def)
  have len: "al \<le> length (bn_d a)" "bl \<le> length (bn_d b)" using a b by (simp_all add: bn_ok_def al_def bl_def)
  have v: "bn_abs a = wval (take al (bn_d a))" "bn_abs b = wval (take bl (bn_d b))" by (simp_all add: bn_abs_def bn_limbs_def al_def bl_def)
  have "bn_abs a * bn_abs b < BN_BASE ^ al * BN_BASE ^ bl" using bn_abs_less [OF a] bn_abs_less [OF b] by (intro mult_strict_mono) (simp_all add: al_def bl_def)
  then have less: "bn_abs a * bn_abs b < BN_BASE ^ (al + bl)" by (simp add: power_add)
  note e1 = e [unfolded bn_mul_impl_def Let_def if_not_P [OF False], folded al_def bl_def neg_def]
  show ?thesis
  proof (cases "if alias then ctx 0 else Some r")
    case None
    then have "ctx 0 = None" "ok = False" "r' = r" using e1 by (simp_all split: if_splits)
    then show ?thesis using r by (auto simp: mul_full_def)
  next
    case (Some r1)
    define rr where "rr = r1\<lparr>bn_neg := neg\<rparr>"
    have "bn_ok r1" using Some r c by (auto simp: ctx_ok_def split: if_splits)
    then have rr: "bn_ok rr" "bn_neg rr = neg" by (simp_all add: rr_def bn_ok_def)
    have na: "\<not> alias \<Longrightarrow> r\<lparr>bn_neg := bn_neg rr\<rparr> = rr" using Some by (simp add: rr_def)
    have full: "bn_full m rr k \<Longrightarrow> k \<le> W \<Longrightarrow> mul_full m ctx r W" "bn_full m r k \<Longrightarrow> k \<le> W \<Longrightarrow> mul_full m ctx r W" for k
      using Some bn_full_mono [of m r k W] bn_full_mono [of m rr k W] bn_full_neg [of m neg r1] by (auto simp: mul_full_def rr_def split: if_splits)
    have stored: ?thesis if p: "\<And>old. length (product old) = words \<and> wval (product old) = bn_abs a * bn_abs b" and w: "al + bl \<le> words" "words \<le> W"
      and s: "store_product m alias r rr words (al + bl) product = (ok, r')" for words product
    proof -
      from store_product_spec [OF rr(1) r na w(1) p less s] have
        s: "bn_ok r' \<and> (if ok then bn_abs r' = bn_abs a * bn_abs b \<and> bn_neg r' = bn_neg rr
          else bn_limbs r' = bn_limbs r \<and> (bn_full m rr words \<or> bn_full m r (al + bl)))" by blast
      have "al + bl \<le> W" by (simp add: W_def)
      then have "bn_full m rr words \<or> bn_full m r (al + bl) \<Longrightarrow> mul_full m ctx r W" using full w(2) by blast
      then show ?thesis using s pos rr(2) by (auto simp: neg_def W_def al_def bl_def split: if_splits)
    qed
    have failed: ?thesis if "(ok, r') = (False, if alias then r else rr)" "mul_full m ctx r W"
    proof -
      have "\<not> alias \<Longrightarrow> bn_limbs rr = bn_limbs r" using Some by (simp add: rr_def bn_limbs_def)
      then show ?thesis using that r rr(1) by (auto simp: W_def al_def bl_def)
    qed
    show ?thesis
    proof (cases "int al - int bl = 0 \<and> al = 8")
      case True
      then have 8: "al = 8" "bl = 8" by simp_all
      then have "store_product m alias r rr 16 (al + bl) (\<lambda>_. bn_mul_comba8 (take 8 (bn_d a)) (take 8 (bn_d b))) = (ok, r')"
        using e1 Some by (simp add: rr_def)
      then show ?thesis
        by (rule stored [rotated 3]) (use 8 bn_mul_comba_spec(1) [of "take 8 (bn_d a)" "take 8 (bn_d b)"] len in \<open>simp_all add: v W_def\<close>)
    next
      case not8: False
      show ?thesis
      proof (cases "16 \<le> al \<and> 16 \<le> bl \<and> -1 \<le> int al - int bl \<and> int al - int bl \<le> 1")
        case False
        have "store_product m alias r rr (al + bl) (al + bl) (\<lambda>_. bn_mul_normal (bn_d a) al (bn_d b) bl) = (ok, r')"
          using e1 unfolding Some option.case rr_def [symmetric] if_not_P [OF not8] kMulNormalSize_def if_not_P [OF False] .
        then show ?thesis by (rule stored [rotated 3]) (use bn_mul_normal_spec [OF len] in \<open>simp_all add: v W_def\<close>)
      next
        case True
        define j where "j = push_bit ((if 0 \<le> int al - int bl then BN_num_bits_word (word_of_nat al) else BN_num_bits_word (word_of_nat bl)) - 1) (1 :: nat)"
        have "\<exists>k. j = 2 ^ k" "j \<le> (if bl \<le> al then al else bl)" "(if bl \<le> al then al else bl) < 2 * j"
          using mul_size [of "if bl \<le> al then al else bl" j] pos lim by (auto simp: j_def BN_BASE_def)
        then obtain k where j: "j = 2 ^ k" "j \<le> al \<or> j \<le> bl" "al < 2 * j" "bl < 2 * j" by (auto split: if_splits)
        have j8: "8 \<le> j" using True j(3) by linarith
        show ?thesis
        proof (cases "ctx (if alias then 1 else 0)")
          case None
          have "(ok, r') = (False, if alias then r else rr)"
            using e1 unfolding Some option.case rr_def [symmetric] if_not_P [OF not8] kMulNormalSize_def if_P [OF True] None by simp
          then show ?thesis using None by (intro failed) (auto simp: mul_full_def)
        next
          case t: (Some t)
          have e3: "(if j < al \<or> j < bl then
              if \<not> fst (bn_wexpand m t (j * 8)) then (False, if alias then r else rr)
              else store_product m alias r rr (j * 4) (al + bl) (\<lambda>old. bn_mul_part_recursive old (bn_d a) (bn_d b) j (al - j) (bl - j))
            else
              if \<not> fst (bn_wexpand m t (j * 4)) then (False, if alias then r else rr)
              else store_product m alias r rr (j * 2) (al + bl) (\<lambda>_. bn_mul_recursive (bn_d a) (bn_d b) j (int al - int j) (int bl - int j))) = (ok, r')"
            using e1 unfolding Some option.case rr_def [symmetric] if_not_P [OF not8] kMulNormalSize_def if_P [OF True] j_def [symmetric] t .
          have tf: "mul_full m ctx r W" if "\<not> fst (bn_wexpand m t i)" "i \<le> W" for i
            using bn_full_mono [OF bn_wexpand_fst [OF that(1)] that(2)] t by (auto simp: mul_full_def)
          have W: "j * 8 \<le> W" "j * 4 \<le> W" "j * 2 \<le> W" using j(2) by (auto simp: W_def)
          show ?thesis
          proof (cases "j < al \<or> j < bl")
            case part: True
            have le: "j \<le> al" "j \<le> bl" "al - j < j" "bl - j < j" "al - j \<le> bl - j + 1" "bl - j \<le> al - j + 1"
              using part True j(3,4) by linarith+
            show ?thesis
            proof (cases "fst (bn_wexpand m t (j * 8))")
              case ok: True
              then have "store_product m alias r rr (j * 4) (al + bl) (\<lambda>old. bn_mul_part_recursive old (bn_d a) (bn_d b) j (al - j) (bl - j)) = (ok, r')"
                using e3 part by simp
              then show ?thesis
                by (rule stored [rotated 3])
                  (use bn_mul_part_recursive_spec [OF j(1) j8 le(3-6), of "bn_d a" "bn_d b"] len le(1,2) j(3,4) W in \<open>simp_all add: v\<close>)
            qed (use e3 part tf [OF _ W(1)] failed in auto)
          next
            case rec: False
            have le: "- 8 \<le> int al - int j" "int al - int j \<le> 0" "- 8 \<le> int bl - int j" "int bl - int j \<le> 0"
              using rec True j(2) by linarith+
            show ?thesis
            proof (cases "fst (bn_wexpand m t (j * 4))")
              case ok: True
              then have "store_product m alias r rr (j * 2) (al + bl) (\<lambda>_. bn_mul_recursive (bn_d a) (bn_d b) j (int al - int j) (int bl - int j)) = (ok, r')"
                using e3 rec by simp
              then show ?thesis
                by (rule stored [rotated 3]) (use bn_mul_recursive_spec [OF j(1) j8 le, of "bn_d a" "bn_d b"] len le W in \<open>simp_all add: v\<close>)
            qed (use e3 rec tf [OF _ W(2)] failed in auto)
          qed
        qed
      qed
    qed
  qed
qed

lemma BN_mul_spec:
  assumes r: "bn_ok r" and a: "bn_ok a" and b: "bn_ok b" and c: "ctx_ok ctx" and e: "BN_mul m ctx alias r a b = (ok, r')"
  shows "bn_ok r' \<and> (if ok then bn_val r' = bn_val a * bn_val b \<and> bn_signed r'
    else bn_limbs r' = bn_limbs r \<and> mul_full m ctx r (8 * (bn_width a + bn_width b)))"
proof -
  obtain k s where s: "bn_mul_impl m ctx alias r a b = (k, s)" by fastforce
  note S = bn_mul_impl_spec [OF r a b c s]
  show ?thesis
  proof (cases k)
    case True
    then have r': "ok" "r' = bn_set_minimal_width s" using e s by (simp_all add: BN_mul_def)
    have "bn_val s = bn_val a * bn_val b" using S True by (auto simp: bn_val_def)
    then show ?thesis using r' S True bn_set_minimal_width_spec [of s] by simp
  qed (use e s S in \<open>simp add: BN_mul_def\<close>)
qed

lemma bn_mul_consttime_spec:
  assumes r: "bn_ok r" and a: "bn_ok a" and b: "bn_ok b" and c: "ctx_ok ctx" and e: "bn_mul_consttime m ctx alias r a b = (ok, r')"
  shows "if ok then bn_ok r' \<and> \<not> bn_neg a \<and> \<not> bn_neg b \<and> bn_val r' = bn_val a * bn_val b \<and> \<not> bn_neg r'
    else bn_ok r' \<and> bn_limbs r' = bn_limbs r \<and> (bn_neg a \<or> bn_neg b \<or> mul_full m ctx r (8 * (bn_width a + bn_width b)))"
proof (cases "bn_neg a \<or> bn_neg b")
  case False
  then have "bn_mul_impl m ctx alias r a b = (ok, r')" using e by (simp add: bn_mul_consttime_def)
  from bn_mul_impl_spec [OF r a b c this] False show ?thesis by (auto simp: bn_val_def split: if_splits)
qed (use e r in \<open>auto simp: bn_mul_consttime_def\<close>)

lemma bn_mul_small_spec:
  assumes "num_a = length a" "num_b = length b"
  shows "bn_mul_small num_r a num_a b num_b = (if num_r = num_a + num_b then Some (limbs num_r (wval a * wval b)) else None)"
  using bn_mul_comba_spec(1) [of a b] bn_mul_normal_spec [of num_a a num_b b] assms
  by (auto simp: bn_mul_small_def intro!: limbs_eqI [symmetric])

lemma BN_mul_word_spec:
  assumes a: "bn_ok a" and e: "BN_mul_word m a w = (ok, r)"
  shows "bn_ok r \<and> (if ok then bn_val r = bn_val a * int (unat w) \<and> (bn_signed a \<longrightarrow> bn_signed r) else bn_full m a (bn_width a + 1))"
proof -
  define n where "n = bn_width a"
  consider "n = 0" | "n \<noteq> 0" "w = 0" | "n \<noteq> 0" "w \<noteq> 0" by blast
  then show ?thesis
  proof cases
    case 1
    then have "ok" "r = a" using e by (simp_all add: BN_mul_word_def n_def)
    then show ?thesis using 1 a by (auto simp: n_def bn_val_def bn_abs_def bn_limbs_def)
  next
    case 2
    then have "ok" "r = BN_zero a" using e by (simp_all add: BN_mul_word_def n_def)
    then show ?thesis using 2 a by (auto simp: BN_zero_def bn_ok_def bn_val_def bn_abs_def bn_limbs_def bn_signed_def)
  next
    case 3
    have l: "n \<le> length (bn_d a)" using a by (simp add: bn_ok_def n_def)
    obtain ws c where m: "bn_mul_words (bn_d a) n w = (ws, c)" "length ws = n" "wval ws + BN_BASE ^ n * unat c = wval (take n (bn_d a)) * unat w"
      by (rule bn_mul_words_spec [OF l])
    define b where "b = a\<lparr>bn_d := ws @ drop n (bn_d a)\<rparr>"
    have b: "bn_ok b" "bn_limbs b = ws" "bn_width b = n" "bn_neg b = bn_neg a" "bn_full m b (n + 1) = bn_full m a (n + 1)"
      using a m(2) l by (simp_all add: b_def bn_ok_def bn_limbs_def n_def bn_full_def bn_static_def)
    have v: "bn_abs a = wval (take n (bn_d a))" by (simp add: bn_abs_def bn_limbs_def n_def)
    have e1: "(if c \<noteq> 0 then
          (case bn_wexpand m b (n + 1) of (ok, bn) \<Rightarrow> if \<not> ok then (False, bn) else (True, bn\<lparr>bn_d := (bn_d bn)[bn_width bn := c], bn_width := bn_width bn + 1\<rparr>))
        else (True, b)) = (ok, r)"
      using e unfolding BN_mul_word_def Let_def n_def [symmetric] m(1) prod.case b_def [symmetric] b(3) using 3 by simp
    have sgn: "bn_signed a \<longrightarrow> bn_signed r" if "bn_abs r = bn_abs a * unat w" "bn_neg r = bn_neg a"
      using that 3(2) by (auto simp: bn_signed_def unsigned_eq_0_iff)
    show ?thesis
    proof (cases "c = 0")
      case True
      then have r: "ok" "r = b" using e1 by simp_all
      have "bn_abs r = bn_abs a * unat w" using m(3) True b(2) r by (simp add: bn_abs_def v [unfolded bn_abs_def])
      then show ?thesis using r b sgn by (simp add: bn_val_def)
    next
      case False
      show ?thesis
      proof (cases rule: bn_wexpand_cases [OF b(1), of m "n + 1", case_names expanded full])
        case (expanded d)
        have r: "ok" "r = d\<lparr>bn_d := (bn_d d)[n := c], bn_width := n + 1\<rparr>" using e1 False expanded(1,6) b(3) by simp_all
        have "take n (bn_d d) = ws" using expanded(5,6) b(2,3) by (simp add: bn_limbs_def)
        then have "take (n + 1) ((bn_d d)[n := c]) = ws @ [c]" using expanded(4) by (simp add: take_Suc_conv_app_nth)
        then have "bn_limbs r = ws @ [c]" by (simp add: r bn_limbs_def)
        then have "bn_abs r = bn_abs a * unat w" using m(2,3) v by (simp add: bn_abs_def [of r] wval_snoc)
        moreover have "bn_ok r" "bn_neg r = bn_neg a" using r expanded(2,3,7) b(4) by (simp_all add: bn_ok_def)
        ultimately show ?thesis using r(1) sgn by (simp add: bn_val_def)
      next
        case full
        then have "\<not> ok" "r = b" using e1 False by simp_all
        then show ?thesis using b full(2) by (simp add: n_def)
      qed
    qed
  qed
qed


section \<open>Squares of big integers\<close>

lemma bn_sqr_consttime_spec:
  assumes r: "bn_ok r" and a: "bn_ok a" and c: "ctx_ok ctx" and e: "bn_sqr_consttime m ctx alias r a = (ok, r')"
  shows "bn_ok r' \<and> (if ok then bn_abs r' = bn_abs a ^ 2 \<and> \<not> bn_neg r' else bn_limbs r' = bn_limbs r \<and> mul_full m ctx r (8 * (bn_width a + bn_width a)))"
proof (cases "bn_width a = 0")
  case True
  then have "ok" "r' = r\<lparr>bn_width := 0, bn_neg := False\<rparr>" using e by (simp_all add: bn_sqr_consttime_def)
  then show ?thesis using r True by (simp add: bn_ok_def bn_abs_def bn_limbs_def)
next
  case False
  define al W where "al = bn_width a" and "W = 8 * (al + al)"
  have lim: "al \<le> 2 ^ 23" "0 < al" "al \<le> length (bn_d a)" using a False by (simp_all add: bn_ok_def al_def)
  have v: "bn_abs a = wval (take al (bn_d a))" by (simp add: bn_abs_def bn_limbs_def al_def)
  note e1 = e [unfolded bn_sqr_consttime_def Let_def if_not_P [OF False], folded al_def]
  consider "ctx 0 = None \<or> ctx 1 = None" "ok = False" "r' = r" |
    rr tmp where "(if \<not> alias then Some r else ctx 0) = Some rr" "ctx (if \<not> alias then 0 else 1) = Some tmp"
    using e1 by (cases "if \<not> alias then Some r else ctx 0"; cases "ctx (if \<not> alias then 0 else 1)") (auto split: if_splits)
  then show ?thesis
  proof cases
    case 1
    then show ?thesis using r by (auto simp: mul_full_def)
  next
    case (2 rr tmp)
    have rr: "bn_ok rr" using 2(1) r c by (auto simp: ctx_ok_def split: if_splits)
    have full: "bn_full m rr k \<Longrightarrow> k \<le> W \<Longrightarrow> mul_full m ctx r W" "bn_full m r k \<Longrightarrow> k \<le> W \<Longrightarrow> mul_full m ctx r W"
      "bn_full m tmp k \<Longrightarrow> k \<le> W \<Longrightarrow> mul_full m ctx r W" for k
      using 2 bn_full_mono [of m r k W] bn_full_mono [of m rr k W] bn_full_mono [of m tmp k W] by (auto simp: mul_full_def split: if_splits)
    have na: "\<not> alias \<Longrightarrow> rr = r" using 2(1) by simp
    show ?thesis
    proof (cases rule: bn_wexpand_cases [OF rr, of m "2 * al", case_names expanded full])
      case full': full
      then have "ok = False" "r' = (if alias then r else rr)" using e1 2 by simp_all
      then show ?thesis using r na full(1) [OF full'(2)] by (simp add: W_def al_def)
    next
      case (expanded d)
      define prod where "prod = (if al = 4 then Some (bn_sqr_comba4 (take 4 (bn_d a)))
        else if al = 8 then Some (bn_sqr_comba8 (take 8 (bn_d a)))
        else if al < BN_MUL_RECURSIVE_SIZE_NORMAL then Some (bn_sqr_normal (bn_d a) al)
        else if al \<noteq> 0 \<and> al AND (al - 1) = 0
        then (if fst (bn_wexpand m tmp (al * 4)) then Some (bn_sqr_recursive (bn_d a) al) else None)
        else (if fst (bn_wexpand m tmp (2 * al)) then Some (bn_sqr_normal (bn_d a) al) else None))"
      have e2: "(case prod of None \<Rightarrow> (False, if alias then r else d)
          | Some ws \<Rightarrow> mul_end m alias r (d\<lparr>bn_d := ws @ drop (2 * al) (bn_d d), bn_neg := False, bn_width := 2 * al\<rparr>)) = (ok, r')"
        using e1 unfolding 2 prod.case option.case expanded(1) prod_def [symmetric] by simp
      show ?thesis
      proof (cases prod)
        case None
        then have "bn_full m tmp (al * 4) \<or> bn_full m tmp (2 * al)"
          using bn_wexpand_fst [of m tmp "al * 4"] bn_wexpand_fst [of m tmp "2 * al"] by (auto simp: prod_def split: if_splits)
        then have "mul_full m ctx r W" using full(3) [of "al * 4"] full(3) [of "2 * al"] by (auto simp: W_def)
        moreover have "ok = False" "r' = (if alias then r else d)" using e2 None by simp_all
        ultimately show ?thesis using r na expanded(2,5) by (simp add: W_def al_def)
      next
        case (Some ws)
        have ws: "length ws = 2 * al \<and> wval ws = bn_abs a ^ 2"
        proof -
          have pow: "\<exists>k. al = 2 ^ k" if "al AND (al - 1) = 0" using and_pred_zero [of al] lim(2) that by simp
          consider "al = 4" "ws = bn_sqr_comba4 (take 4 (bn_d a))" | "al = 8" "ws = bn_sqr_comba8 (take 8 (bn_d a))"
            | "ws = bn_sqr_normal (bn_d a) al" | "16 \<le> al" "al AND (al - 1) = 0" "ws = bn_sqr_recursive (bn_d a) al"
            using Some by (auto simp: prod_def BN_MUL_RECURSIVE_SIZE_NORMAL_def split: if_splits)
          then show ?thesis
          proof cases
            case 1
            then show ?thesis using bn_sqr_comba_spec(2) [of "take 4 (bn_d a)"] lim v by simp
          next
            case 2
            then show ?thesis using bn_sqr_comba_spec(1) [of "take 8 (bn_d a)"] lim v by simp
          next
            case 3
            then show ?thesis using bn_sqr_normal_spec [OF lim(3)] v by simp
          next
            case 4
            then obtain k where "al = 2 ^ k" using pow by blast
            then show ?thesis using bn_sqr_recursive_spec [of al k "bn_d a"] 4 lim v by simp
          qed
        qed
        define s where "s = d\<lparr>bn_d := ws @ drop (2 * al) (bn_d d), bn_neg := False, bn_width := 2 * al\<rparr>"
        have s: "bn_ok s" "bn_abs s = bn_abs a ^ 2" "\<not> bn_neg s" "bn_width s = 2 * al"
          using expanded(2-4) ws by (simp_all add: bn_ok_def bn_abs_def [of s] bn_limbs_def) (simp_all add: s_def)
        have e3: "mul_end m alias r s = (ok, r')" using e2 Some by (simp add: s_def)
        show ?thesis
        proof (cases "alias")
          case True
          then have "BN_copy m r s = (ok, r')" using e3 by (simp add: mul_end_def)
          from BN_copy_spec [OF r s(1) this] have "if ok then bn_ok r' \<and> bn_limbs r' = bn_limbs s \<and> bn_neg r' = bn_neg s else r' = r \<and> bn_full m r (2 * al)"
            by (auto simp: s(4) split: if_splits)
          then show ?thesis using s r full(2) [of "2 * al"] by (auto simp: bn_abs_def [of r'] bn_abs_def [of s] W_def al_def split: if_splits)
        qed (use e3 s in \<open>auto simp: mul_end_def\<close>)
      qed
    qed
  qed
qed

lemma BN_sqr_spec:
  assumes r: "bn_ok r" and a: "bn_ok a" and c: "ctx_ok ctx" and e: "BN_sqr m ctx alias r a = (ok, r')"
  shows "bn_ok r' \<and> (if ok then bn_val r' = bn_val a ^ 2 \<and> bn_signed r' else bn_limbs r' = bn_limbs r \<and> mul_full m ctx r (8 * (bn_width a + bn_width a)))"
proof -
  obtain k s where s: "bn_sqr_consttime m ctx alias r a = (k, s)" by fastforce
  note S = bn_sqr_consttime_spec [OF r a c s]
  show ?thesis
  proof (cases k)
    case True
    then have r': "ok" "r' = bn_set_minimal_width s" using e s by (simp_all add: BN_sqr_def)
    have "bn_val s = bn_val a ^ 2" using S True by (simp add: bn_val_def)
    then show ?thesis using r' S True bn_set_minimal_width_spec [of s] by simp
  qed (use e s S in \<open>simp add: BN_sqr_def\<close>)
qed

lemma bn_sqr_small_spec:
  assumes "num_a = length a"
  shows "bn_sqr_small num_r a num_a = (if num_r = 2 * num_a \<and> num_a \<le> BN_SMALL_MAX_WORDS then Some (limbs num_r (wval a ^ 2)) else None)"
  using bn_sqr_comba_spec [of a] bn_sqr_normal_spec [of num_a a] assms
  by (auto simp: bn_sqr_small_def intro!: limbs_eqI [symmetric])

end
