(* ===== verification/Bn_Div.thy ===== *)
theory Bn_Div
  imports Bn_Product
begin

text \<open>
  \<^verbatim>\<open>crypto/fipsmodule/bn/div.c\<close>: long division (Knuth, algorithm D). Each digit of the quotient is estimated from the top limbs, corrected by a
  comparison with the third limb, and corrected once more when the subtraction borrows. The 128-bit division of \<^verbatim>\<open>BN_CAN_DIVIDE_ULLONG\<close> is
  modelled. The loop of the first correction has no bound of its own; \<open>None\<close> stands for not returning.
\<close>

section \<open>Code\<close>

text \<open>Quotient and remainder of the words \<open>n0\<close>, \<open>n1\<close> by \<open>d0\<close>.\<close>

definition bn_div_rem_words :: "limb \<Rightarrow> limb \<Rightarrow> limb \<Rightarrow> limb \<times> limb" where
  "bn_div_rem_words n0 n1 d0 =
     (let n = push_bit BN_BITS2 (ucast n0) OR ucast n1 :: u128; quotient = ucast (n div ucast d0) in (quotient, n1 - quotient * d0))"

partial_function (option) correct_digit :: "limb \<Rightarrow> limb \<Rightarrow> limb \<Rightarrow> u128 \<Rightarrow> limb \<Rightarrow> limb \<Rightarrow> limb option" where
  "correct_digit d0 d1 n2 t2 rm q =
     (if t2 \<le> (push_bit BN_BITS2 (ucast rm) OR ucast n2) then Some q
      else
        let q = q - 1; rm = rm + d0 in
        if rm < d0 then Some q else correct_digit d0 d1 n2 (t2 - ucast d1) rm q)"

definition div_digit :: "limb \<Rightarrow> limb \<Rightarrow> limb \<Rightarrow> limb \<Rightarrow> limb \<Rightarrow> limb option" where
  "div_digit d0 d1 n0 n1 n2 =
     (if n0 = d0 then Some BN_MASK2
      else let (q, rm) = bn_div_rem_words n0 n1 d0 in correct_digit d0 d1 n2 (ucast d1 * ucast q) rm q)"

text \<open>A round of the loop: the window of \<open>snum\<close> begins at limb \<open>p\<close>.\<close>

definition div_step :: "limb list \<Rightarrow> nat \<Rightarrow> limb \<Rightarrow> limb \<Rightarrow> nat \<Rightarrow> limb list \<times> limb list \<Rightarrow> (limb list \<times> limb list) option" where
  "div_step sdiv div_n d0 d1 p =
     (\<lambda>(snum, res).
        map_option (\<lambda>q.
            let (tmp, l0) = bn_mul_words sdiv div_n q;
                (ws, borrow) = bn_sub_words (drop p snum) (tmp @ [l0]) (div_n + 1);
                snum = take p snum @ ws @ drop (p + div_n + 1) snum;
                (snum, q) =
                  (if borrow \<noteq> 0 then
                     (let (ws, carry) = bn_add_words (drop p snum) sdiv div_n;
                          snum = take p snum @ ws @ drop (p + div_n) snum
                      in (if carry \<noteq> 0 then snum[p + div_n := snum ! (p + div_n) + 1] else snum, q - 1))
                   else (snum, q))
            in (snum, res[p - 1 := q]))
          (div_digit d0 d1 (snum ! (p + div_n)) (snum ! (p + div_n - 1)) (snum ! (p + div_n - 2))))"

fun div_loop :: "limb list \<Rightarrow> nat \<Rightarrow> limb \<Rightarrow> limb \<Rightarrow> nat \<Rightarrow> limb list \<times> limb list \<Rightarrow> (limb list \<times> limb list) option" where
  "div_loop sdiv div_n d0 d1 0 st = Some st"
| "div_loop sdiv div_n d0 d1 (Suc k) st =
     (case div_step sdiv div_n d0 d1 (Suc k) st of None \<Rightarrow> None | Some st \<Rightarrow> div_loop sdiv div_n d0 d1 k st)"

text \<open>The numerator is padded with zero limbs.\<close>

definition pad_numerator :: "allocator \<Rightarrow> bignum \<Rightarrow> bignum \<Rightarrow> bool \<times> bignum" where
  "pad_numerator m snum sdiv =
     (let words = (if bn_width snum \<le> bn_width sdiv + 1 then bn_width sdiv + 2 else bn_width snum + 1) in
      case bn_wexpand m snum words of
        (ok, snum) \<Rightarrow>
          if \<not> ok then (False, snum)
          else (True, snum\<lparr>bn_d := take (bn_width snum) (bn_d snum) @ replicate (words - bn_width snum) 0 @ drop words (bn_d snum), bn_width := words\<rparr>))"

text \<open>
  The division of the shifted numbers. The sign of the numerator is read again before the remainder is shifted; when the quotient is the numerator
  (\<open>alias\<close>) that is the sign which the quotient has been given.
\<close>

definition div_shifted :: "allocator \<Rightarrow> bool \<Rightarrow> bignum \<Rightarrow> bignum \<Rightarrow> bignum \<Rightarrow> nat \<Rightarrow> bignum \<Rightarrow> bignum option \<Rightarrow> bignum \<Rightarrow> bignum \<Rightarrow>
    (bool \<times> bignum \<times> bignum option) option" where
  "div_shifted m alias tmp snum sdiv norm_shift res rem numerator divisor =
     (let div_n = bn_width sdiv; num_n = bn_width snum; loop = num_n - div_n;
          d0 = bn_d sdiv ! (div_n - 1); d1 = (if div_n = 1 then 0 else bn_d sdiv ! (div_n - 2));
          res = res\<lparr>bn_neg := (bn_neg numerator \<noteq> bn_neg divisor)\<rparr>
      in case bn_wexpand m res (loop + 1) of
           (ok, res) \<Rightarrow>
             if \<not> ok then Some (False, res, rem)
             else
               let res = res\<lparr>bn_width := loop - 1\<rparr> in
               if \<not> fst (bn_wexpand m tmp (div_n + 1)) then Some (False, res, rem)
               else
                 let res = (if bn_width res = 0 then res\<lparr>bn_neg := False\<rparr> else res) in
                 map_option (\<lambda>(snum_d, res_d).
                     let snum = bn_set_minimal_width (snum\<lparr>bn_d := snum_d\<rparr>); res = res\<lparr>bn_d := res_d\<rparr>;
                         neg = (if alias then bn_neg res else bn_neg numerator)
                     in case rem of
                          None \<Rightarrow> (True, bn_set_minimal_width res, None)
                        | Some rem \<Rightarrow>
                            (case BN_rshift m rem snum (int norm_shift) of
                               (ok, rem) \<Rightarrow>
                                 if \<not> ok then (False, res, Some rem)
                                 else (True, bn_set_minimal_width res, Some (if \<not> BN_is_zero rem then rem\<lparr>bn_neg := neg\<rparr> else rem))))
                   (div_loop (bn_d sdiv) div_n d0 d1 (loop - 1) (bn_d snum, bn_d res)))"

text \<open>
  The part behind the first allocations. A context that has failed once does not give any more objects, so that the check of two of the
  objects is a check of all.
\<close>

definition BN_div_with :: "allocator \<Rightarrow> bool \<Rightarrow> bignum \<Rightarrow> bignum \<Rightarrow> bignum \<Rightarrow> bignum \<Rightarrow> bignum option \<Rightarrow> bignum \<Rightarrow> bignum \<Rightarrow>
    (bool \<times> bignum \<times> bignum option) option" where
  "BN_div_with m alias tmp snum sdiv res rem numerator divisor =
     (let norm_shift = BN_BITS2 - BN_num_bits divisor mod BN_BITS2 in
      case BN_lshift m sdiv divisor (int norm_shift) of
        (ok, sdiv) \<Rightarrow>
          if \<not> ok then Some (False, res, rem)
          else
            let sdiv = (bn_set_minimal_width sdiv)\<lparr>bn_neg := False\<rparr>; norm_shift = norm_shift + BN_BITS2 in
            case BN_lshift m snum numerator (int norm_shift) of
              (ok, snum) \<Rightarrow>
                if \<not> ok then Some (False, res, rem)
                else
                  case pad_numerator m ((bn_set_minimal_width snum)\<lparr>bn_neg := False\<rparr>) sdiv of
                    (ok, snum) \<Rightarrow>
                      if \<not> ok then Some (False, res, rem)
                      else div_shifted m alias tmp snum sdiv norm_shift res rem numerator divisor)"

definition BN_div :: "allocator \<Rightarrow> (nat \<Rightarrow> bignum option) \<Rightarrow> bool \<Rightarrow> bignum option \<Rightarrow> bignum option \<Rightarrow> bignum \<Rightarrow> bignum \<Rightarrow>
    (bool \<times> bignum option \<times> bignum option) option" where
  "BN_div m ctx alias quo rem numerator divisor =
     (let numerator_width = bn_minimal_width numerator; divisor_width = bn_minimal_width divisor in
      if 0 < numerator_width \<and> bn_d numerator ! (numerator_width - 1) = 0 \<or> 0 < divisor_width \<and> bn_d divisor ! (divisor_width - 1) = 0
      then Some (False, quo, rem)
      else if BN_is_zero divisor then Some (False, quo, rem)
      else
        case (ctx 0, ctx 1, ctx 2, case quo of None \<Rightarrow> ctx 3 | Some res \<Rightarrow> Some res) of
          (Some tmp, Some snum, Some sdiv, Some res) \<Rightarrow>
            map_option (\<lambda>(ok, res, rem). (ok, map_option (\<lambda>_. res) quo, rem))
              (BN_div_with m alias tmp snum sdiv res rem numerator divisor)
        | _ \<Rightarrow> Some (False, quo, rem))"

section \<open>A digit of the quotient\<close>

lemma unat_two_words: "unat (push_bit BN_BITS2 (ucast (h :: limb)) OR ucast (l :: limb) :: u128) = unat h * BN_BASE + unat l"
proof -
  have "push_bit BN_BITS2 (ucast h :: u128) = ucast h * 2 ^ 64" by (simp add: push_bit_eq_mult BN_BITS2_def)
  moreover have "(push_bit BN_BITS2 (ucast h) :: u128) AND ucast l = 0"
    by (rule bit_word_eqI) (auto simp: bit_simps BN_BITS2_def dest: bit_imp_le_length)
  then have "(push_bit BN_BITS2 (ucast h) OR ucast l :: u128) = push_bit BN_BITS2 (ucast h) + ucast l"
    by (simp add: disjunctive_add_eq_or)
  moreover have "unat h * BN_BASE + unat l < 2 ^ 128"
  proof -
    have "(unat h + 1) * BN_BASE \<le> BN_BASE * BN_BASE" by (intro mult_le_mono1) (rule Suc_leI [OF limb_less, unfolded Suc_eq_plus1])
    moreover have "(unat h + 1) * BN_BASE = unat h * BN_BASE + BN_BASE" by simp
    moreover have "BN_BASE * BN_BASE = 2 ^ 128" by (simp add: BN_BASE_def)
    ultimately show ?thesis using limb_less [of l] by linarith
  qed
  ultimately show ?thesis by (simp add: unat_word_ariths mod_simps BN_BASE_def)
qed

lemma bn_div_rem_words_spec:
  assumes "n0 < d0"
  obtains q rm where "bn_div_rem_words n0 n1 d0 = (q, rm)" "unat q = (unat n0 * BN_BASE + unat n1) div unat d0"
    "unat rm = (unat n0 * BN_BASE + unat n1) mod unat d0"
proof -
  define n q where "n = unat n0 * BN_BASE + unat n1" and "q = n div unat d0"
  define w :: limb where "w = ucast ((push_bit BN_BITS2 (ucast n0) OR ucast n1 :: u128) div ucast d0)"
  have "(unat n0 + 1) * BN_BASE \<le> unat d0 * BN_BASE" using assms by (intro mult_le_mono1) (simp add: word_less_nat_alt)
  then have "n < unat d0 * BN_BASE" using limb_less [of n1] by (simp add: n_def del: limb_less)
  then have q: "q < BN_BASE" by (simp add: q_def div_less_iff_less_mult mult.commute less_mult_imp_div_less)
  have "unat ((push_bit BN_BITS2 (ucast n0) OR ucast n1 :: u128) div ucast d0) = q"
    by (simp add: unat_div_distrib unat_two_words q_def n_def)
  then have w: "unat w = q" using q by (simp add: w_def unsigned_ucast_eq take_bit_eq_mod BN_BASE_def)
  have "unat (n1 - w * d0) = n mod unat d0"
  proof -
    have "n = q * unat d0 + n mod unat d0" by (simp add: q_def)
    moreover have "w = word_of_nat q" "d0 = word_of_nat (unat d0)" using q by (auto intro!: word_nat_eqI simp: w unat_of_nat_limb)
    ultimately have "(word_of_nat n :: limb) = w * d0 + word_of_nat (n mod unat d0)" by (metis of_nat_add of_nat_mult)
    moreover have "(word_of_nat n :: limb) = n1" by (rule word_nat_eqI) (simp only: unat_of_nat_limb n_def, simp)
    ultimately have "n1 - w * d0 = word_of_nat (n mod unat d0)" by (simp add: algebra_simps)
    moreover have "n mod unat d0 < BN_BASE"
      using assms by (intro less_trans [OF mod_less_divisor limb_less]) (simp add: word_less_nat_alt)
    ultimately show ?thesis by (simp add: unat_of_nat_limb)
  qed
  then show thesis using that [of w] w by (simp add: bn_div_rem_words_def Let_def n_def q_def flip: w_def)
qed

text \<open>
  The correction gives the greatest digit up to the estimate whose product with the two top limbs of the divisor is not above the three
  top limbs of the numerator.
\<close>

lemma correct_digit_spec:
  assumes "0 < unat d0" "unat t2 = unat d1 * unat q" "unat q * unat d0 + unat rm = N2"
  shows "\<exists>q'. correct_digit d0 d1 n2 t2 rm q = Some q' \<and> unat q' \<le> unat q \<and>
    unat q' * (unat d0 * BN_BASE + unat d1) \<le> N2 * BN_BASE + unat n2 \<and>
    (\<forall>x. x \<le> unat q \<and> x * (unat d0 * BN_BASE + unat d1) \<le> N2 * BN_BASE + unat n2 \<longrightarrow> x \<le> unat q')"
  using assms(2,3)
proof (induction "BN_BASE - unat rm" arbitrary: t2 rm q rule: less_induct)
  case less
  define D where "D = unat d0 * BN_BASE + unat d1"
  have N: "N2 * BN_BASE = unat q * unat d0 * BN_BASE + unat rm * BN_BASE" unfolding less.prems(2) [symmetric] by (simp add: algebra_simps)
  have qD: "unat q * D = unat q * unat d0 * BN_BASE + unat d1 * unat q" by (simp add: D_def algebra_simps)
  have c: "t2 \<le> (push_bit BN_BITS2 (ucast rm) OR ucast n2) \<longleftrightarrow> unat q * D \<le> N2 * BN_BASE + unat n2"
    unfolding word_le_nat_alt unat_two_words less.prems(1) N qD by simp
  show ?case
  proof (cases "unat q * D \<le> N2 * BN_BASE + unat n2")
    case True
    then show ?thesis using c by (subst correct_digit.simps) (simp add: D_def)
  next
    case False
    then have "unat q \<noteq> 0" by (intro notI) simp
    then have q1: "unat (q - 1) = unat q - 1" by (simp add: unat_limb_arith)
    have le: "x \<le> unat (q - 1)" if "x \<le> unat q" "x * D \<le> N2 * BN_BASE + unat n2" for x
      using that False q1 by (cases "x = unat q") auto
    have sum: "unat (q - 1) * unat d0 + (unat rm + unat d0) = N2"
      using less.prems(2) \<open>unat q \<noteq> 0\<close> unfolding q1 by (cases "unat q") simp_all
    show ?thesis
    proof (cases "rm + d0 < d0")
      case True
      then have ov: "BN_BASE \<le> unat rm + unat d0"
        by (auto simp: word_less_nat_alt unat_limb_add split: if_splits)
      have "unat (q - 1) * unat d1 \<le> BN_BASE * BN_BASE" by (intro mult_le_mono) (simp_all add: less_imp_le)
      also have "\<dots> \<le> (unat rm + unat d0) * BN_BASE" using ov by (rule mult_le_mono1)
      finally have "unat (q - 1) * D \<le> N2 * BN_BASE + unat n2"
        unfolding D_def sum [symmetric] by (simp add: algebra_simps)
      then show ?thesis using True c False le q1 by (subst correct_digit.simps) (simp add: D_def)
    next
      case no: False
      have rm: "unat (rm + d0) = unat rm + unat d0"
        using no limb_less [of rm] assms(1) by (auto simp: word_less_nat_alt unat_limb_add simp del: limb_less split: if_splits)
      have t: "unat (t2 - ucast d1) = unat d1 * unat (q - 1)"
      proof -
        have "unat d1 \<le> unat t2" unfolding less.prems(1) using \<open>unat q \<noteq> 0\<close> by simp
        then have "unat (t2 - ucast d1) = unat t2 - unat d1" by (simp add: unat_sub word_le_nat_alt)
        then show ?thesis unfolding less.prems(1) q1 by (simp add: diff_mult_distrib2)
      qed
      have "BN_BASE - unat (rm + d0) < BN_BASE - unat rm" using rm assms(1) limb_less [of "rm + d0"] by simp
      from less.hyps [OF this t sum [folded rm]] obtain q' where q': "correct_digit d0 d1 n2 (t2 - ucast d1) (rm + d0) (q - 1) = Some q'"
        "unat q' \<le> unat (q - 1)" "unat q' * D \<le> N2 * BN_BASE + unat n2"
        "\<forall>x. x \<le> unat (q - 1) \<and> x * D \<le> N2 * BN_BASE + unat n2 \<longrightarrow> x \<le> unat q'" unfolding D_def by blast
      have "correct_digit d0 d1 n2 t2 rm q = Some q'" using c False no q'(1) by (subst correct_digit.simps) (simp add: Let_def)
      moreover have "unat q' \<le> unat q" using q'(2) q1 by simp
      ultimately show ?thesis using q'(3,4) le unfolding D_def [symmetric] by blast
    qed
  qed
qed

text \<open>
  Knuth's bounds. \<open>U\<close> is the window with \<open>k\<close> limbs below its top three, \<open>V\<close> the divisor; the digit is not below the digit of the quotient and at most one above it.
\<close>

lemma div_digit_spec:
  fixes U V :: nat
  assumes norm: "BN_BASE \<le> 2 * unat d0"
    and V: "V = (unat d0 * BN_BASE + unat d1) * X + V'" "V' < X"
    and U: "U = ((unat n0 * BN_BASE + unat n1) * BN_BASE + unat n2) * X + U'" "U' < X"
    and less: "U < V * BN_BASE"
  shows "\<exists>q. div_digit d0 d1 n0 n1 n2 = Some q \<and> U div V \<le> unat q \<and> unat q \<le> U div V + 1"
proof -
  define D where "D = unat d0 * BN_BASE + unat d1"
  define N2 where "N2 = unat n0 * BN_BASE + unat n1"
  have d0: "0 < unat d0" using norm BN_BASE_gt(1) by (cases "unat d0") auto
  have D: "0 < D" "BN_BASE * BN_BASE \<le> 2 * D"
  proof -
    show "0 < D" using d0 by (simp add: D_def)
    have "BN_BASE * BN_BASE \<le> 2 * unat d0 * BN_BASE" using norm by (rule mult_le_mono1)
    also have "\<dots> \<le> 2 * D" by (simp add: D_def)
    finally show "BN_BASE * BN_BASE \<le> 2 * D" .
  qed
  have X: "0 < X" using V(2) by (cases X) auto
  have V0: "0 < V" using D(1) X by (simp add: V(1) flip: D_def)
  have UV: "U div V < BN_BASE" using less by (simp add: less_mult_imp_div_less mult.commute)
  have low: "x * D \<le> N2 * BN_BASE + unat n2" if "x \<le> U div V" for x
  proof -
    have "x * V \<le> U" using that V0 by (metis div_le_mono div_mult_self_is_m less_eq_div_iff_mult_less_eq)
    then have "x * D * X \<le> U" unfolding V(1) D_def by (simp add: algebra_simps)
    also have "U < (N2 * BN_BASE + unat n2 + 1) * X" using U by (simp add: N2_def algebra_simps)
    finally have "x * D < N2 * BN_BASE + unat n2 + 1" by (simp only: mult_less_cancel2)
    then show ?thesis by simp
  qed
  have VD: "V < (unat d0 + 1) * BN_BASE * X"
  proof -
    have "V < (D + 1) * X" using V by (simp add: D_def algebra_simps)
    also have "D + 1 \<le> (unat d0 + 1) * BN_BASE" using limb_less [of d1] by (simp add: D_def algebra_simps del: limb_less)
    then have "(D + 1) * X \<le> (unat d0 + 1) * BN_BASE * X" by (rule mult_le_mono1)
    finally show ?thesis .
  qed
  have n0U: "unat n0 * (BN_BASE * BN_BASE * X) \<le> U" unfolding U(1) by (simp add: algebra_simps)
  show ?thesis
  proof (cases "n0 = d0")
    case True
    have "(BN_BASE - 2) * V \<le> U"
    proof -
      have "(BN_BASE - 2) * V \<le> (BN_BASE - 2) * ((unat d0 + 1) * BN_BASE * X)" using VD by (intro mult_le_mono2) simp
      also have "\<dots> = (BN_BASE - 2) * (unat d0 + 1) * (BN_BASE * X)" by (simp only: ac_simps)
      also have "\<dots> \<le> (unat d0 * BN_BASE) * (BN_BASE * X)"
      proof (rule mult_le_mono1)
        have "2 \<le> BN_BASE" by (simp add: BN_BASE_def)
        then obtain b where b: "BN_BASE = 2 + b" by (blast dest: le_Suc_ex)
        show "(BN_BASE - 2) * (unat d0 + 1) \<le> unat d0 * BN_BASE" using norm unfolding b by (simp add: algebra_simps)
      qed
      also have "\<dots> \<le> U" using n0U True by (simp add: ac_simps)
      finally show ?thesis .
    qed
    then have "BN_BASE - 2 \<le> U div V" using V0 by (simp add: less_eq_div_iff_mult_less_eq)
    have MASK2: "unat BN_MASK2 = BN_BASE - 1" by (simp add: BN_MASK2_def BN_BASE_def)
    from \<open>BN_BASE - 2 \<le> U div V\<close> show ?thesis using True UV unfolding div_digit_def by (simp add: MASK2) linarith
  next
    case False
    have "unat n0 \<le> unat d0"
    proof (rule ccontr)
      assume "\<not> unat n0 \<le> unat d0"
      then have "(unat d0 + 1) * (BN_BASE * BN_BASE * X) \<le> unat n0 * (BN_BASE * BN_BASE * X)" by (intro mult_le_mono1) simp
      also note n0U
      also note less
      also have "V * BN_BASE \<le> (unat d0 + 1) * BN_BASE * X * BN_BASE" using VD by (intro mult_le_mono1) simp
      finally show False by (simp add: algebra_simps)
    qed
    then have "n0 < d0" using False word_nat_eqI [of n0 d0] by (auto simp: word_less_nat_alt order.strict_iff_order)
    then obtain q0 rm where q0: "bn_div_rem_words n0 n1 d0 = (q0, rm)" "unat q0 = N2 div unat d0" "unat rm = N2 mod unat d0"
      unfolding N2_def by (rule bn_div_rem_words_spec)
    have "unat (ucast d1 * ucast q0 :: u128) = unat d1 * unat q0"
      by (rule unat_sqr)
    moreover have "unat q0 * unat d0 + unat rm = N2" by (simp add: q0)
    ultimately obtain q where q: "correct_digit d0 d1 n2 (ucast d1 * ucast q0) rm q0 = Some q" "unat q * D \<le> N2 * BN_BASE + unat n2"
      "\<forall>x. x \<le> unat q0 \<and> x * D \<le> N2 * BN_BASE + unat n2 \<longrightarrow> x \<le> unat q"
      using correct_digit_spec [OF d0] unfolding D_def by blast
    have "U div V \<le> unat q0"
    proof -
      have "U div V * unat d0 * BN_BASE \<le> U div V * D" by (simp add: D_def algebra_simps)
      also note low [OF order.refl]
      also have "N2 * BN_BASE + unat n2 < (N2 + 1) * BN_BASE" by simp
      finally have "U div V * unat d0 < N2 + 1" by (simp only: mult_less_cancel2)
      then show ?thesis using d0 by (simp add: q0 less_eq_div_iff_mult_less_eq)
    qed
    then have "U div V \<le> unat q" using q(3) low [OF order.refl] by blast
    moreover have "unat q * V < U + V"
    proof -
      have "unat q * V = unat q * D * X + unat q * V'" by (simp add: V(1) D_def algebra_simps)
      moreover have "unat q * D * X \<le> (N2 * BN_BASE + unat n2) * X" using q(2) by (rule mult_le_mono1)
      moreover have "(N2 * BN_BASE + unat n2) * X \<le> U" by (simp add: U(1) N2_def)
      moreover have "unat q * V' \<le> BN_BASE * V'" by (intro mult_le_mono1 less_imp_le limb_less)
      moreover have "BN_BASE * V' < BN_BASE * X" using V(2) BN_BASE_gt(1) by simp
      moreover have "BN_BASE * X \<le> V"
      proof -
        have "1 * BN_BASE \<le> unat d0 * BN_BASE" using d0 by (intro mult_le_mono1) simp
        then have "BN_BASE \<le> D" unfolding D_def by linarith
        then have "BN_BASE * X \<le> D * X" by (rule mult_le_mono1)
        then show ?thesis using V(1) [folded D_def] by linarith
      qed
      ultimately show ?thesis by linarith
    qed
    then have "unat q \<le> U div V + 1"
    proof -
      assume *: "unat q * V < U + V"
      have "U < (U div V + 1) * V" using V0 by (metis add.commute dividend_less_times_div mult.commute mult_Suc_right Suc_eq_plus1)
      then have "unat q * V < (U div V + 2) * V" using * by (simp add: algebra_simps)
      then have "unat q < U div V + 2" by (simp only: mult_less_cancel2)
      then show ?thesis by simp
    qed
    ultimately show ?thesis using False q(1) by (simp add: div_digit_def q0(1))
  qed
qed

section \<open>A round of the loop\<close>

lemma top_limb_add:
  assumes "length rs = n"
  shows "wval (rs @ [t + c]) = (wval rs + BN_BASE ^ n * (unat t + unat c)) mod BN_BASE ^ (n + 1)"
proof -
  define x where "x = wval rs + BN_BASE ^ n * (unat t + unat c)"
  have low: "wval rs < BN_BASE ^ n" using wval_less [of rs] assms by simp
  have "x mod BN_BASE ^ (n + 1) = BN_BASE ^ n * (x div BN_BASE ^ n mod BN_BASE) + x mod BN_BASE ^ n"
    using mod_mult2_eq [of x "BN_BASE ^ n" BN_BASE] by (simp add: mult.commute)
  moreover have "x div BN_BASE ^ n = unat t + unat c" "x mod BN_BASE ^ n = wval rs" using low by (simp_all add: x_def)
  ultimately show ?thesis using assms by (simp add: wval_snoc unat_limb_arith x_def)
qed

text \<open>The limbs \<open>p\<close> to \<open>p + div_n\<close> of the numerator.\<close>

definition div_window :: "limb list \<Rightarrow> nat \<Rightarrow> nat \<Rightarrow> nat" where
  "div_window snum div_n p = wval (take (div_n + 1) (drop p snum))"

text \<open>What the code reads at the top of the divisor and of the window is enough for Knuth's bounds.\<close>

definition top_limbs :: "limb list \<Rightarrow> nat \<Rightarrow> limb \<Rightarrow> limb \<Rightarrow> bool" where
  "top_limbs sdiv div_n d0 d1 \<longleftrightarrow> 0 < div_n \<and> div_n \<le> length sdiv \<and> d0 = sdiv ! (div_n - 1) \<and> d1 = (if div_n = 1 then 0 else sdiv ! (div_n - 2)) \<and>
     BN_BASE \<le> 2 * unat d0"

lemma take_two_more: "i + 2 \<le> length xs \<Longrightarrow> take (i + 2) xs = take i xs @ [xs ! i, xs ! (i + 1)]"
  by (simp add: take_Suc_conv_app_nth numeral_2_eq_2)

lemma take_three_more: "i + 3 \<le> length xs \<Longrightarrow> take (i + 3) xs = take i xs @ [xs ! i, xs ! (i + 1), xs ! (i + 2)]"
  by (simp add: take_Suc_conv_app_nth numeral_2_eq_2 numeral_3_eq_3)

lemma div_digit_window:
  assumes top: "top_limbs sdiv div_n d0 d1" and p: "0 < p" "p + div_n < length snum"
    and less: "div_window snum div_n p < wval (take div_n sdiv) * BN_BASE"
  shows "\<exists>q. div_digit d0 d1 (snum ! (p + div_n)) (snum ! (p + div_n - 1)) (snum ! (p + div_n - 2)) = Some q \<and>
    div_window snum div_n p div wval (take div_n sdiv) \<le> unat q \<and> unat q \<le> div_window snum div_n p div wval (take div_n sdiv) + 1"
proof (cases "div_n = 1")
  case True
  define n2 where "n2 = snum ! (p + div_n - 2)"
  have V: "wval (take div_n sdiv) = unat d0" using top True by (cases sdiv) (simp_all add: top_limbs_def)
  have W: "div_window snum div_n p = unat (snum ! (p + div_n)) * BN_BASE + unat (snum ! (p + div_n - 1))"
  proof -
    have "take (0 + 2) (drop p snum) = take 0 (drop p snum) @ [drop p snum ! 0, drop p snum ! (0 + 1)]" using p True by (intro take_two_more) simp
    then show ?thesis using p True by (simp add: div_window_def numeral_2_eq_2)
  qed
  have eq: "(div_window snum div_n p * BN_BASE + unat n2) div (unat d0 * BN_BASE) = div_window snum div_n p div unat d0"
  proof -
    have "(div_window snum div_n p * BN_BASE + unat n2) div BN_BASE = div_window snum div_n p" by simp
    then show ?thesis by (simp only: mult.commute [of "unat d0"] div_mult2_eq)
  qed
  have norm: "BN_BASE \<le> 2 * unat d0" using top unfolding top_limbs_def by blast
  have d1: "d1 = 0" using top True by (simp add: top_limbs_def)
  have less': "div_window snum div_n p * BN_BASE + unat n2 < unat d0 * BN_BASE * BN_BASE"
  proof -
    have "(div_window snum div_n p + 1) * BN_BASE \<le> unat d0 * BN_BASE * BN_BASE" using less V by (intro mult_le_mono1) simp
    then show ?thesis using limb_less [of n2] by (simp only: distrib_right)
  qed
  have "\<exists>q. div_digit d0 d1 (snum ! (p + div_n)) (snum ! (p + div_n - 1)) n2 = Some q \<and>
      (div_window snum div_n p * BN_BASE + unat n2) div (unat d0 * BN_BASE) \<le> unat q \<and>
      unat q \<le> (div_window snum div_n p * BN_BASE + unat n2) div (unat d0 * BN_BASE) + 1"
    by (rule div_digit_spec [where V = "unat d0 * BN_BASE" and U = "div_window snum div_n p * BN_BASE + unat n2" and X = 1 and V' = 0 and U' = 0 and
        ?n0.0 = "snum ! (p + div_n)" and ?n1.0 = "snum ! (p + div_n - 1)" and ?n2.0 = n2 and ?d1.0 = d1, OF norm _ _ _ _ less'])
      (simp_all add: W d1)
  then show ?thesis unfolding eq unfolding V n2_def .
next
  case False
  define i where "i = div_n - 2"
  have n: "div_n = i + 2" using top False unfolding i_def top_limbs_def by linarith
  have V: "wval (take div_n sdiv) = (unat d0 * BN_BASE + unat d1) * BN_BASE ^ i + wval (take i sdiv)"
    using top take_two_more [of i sdiv] by (simp add: top_limbs_def n wval_append algebra_simps del: take_append)
  define ws where "ws = drop p snum"
  have "i + 3 \<le> length ws" using p by (simp add: ws_def n)
  then have three: "take (i + 3) ws = take i ws @ [ws ! i, ws ! (i + 1), ws ! (i + 2)]" by (rule take_three_more)
  have nths: "ws ! i = snum ! (p + div_n - 2)" "ws ! (i + 1) = snum ! (p + div_n - 1)" "ws ! (i + 2) = snum ! (p + div_n)"
    using p by (simp_all add: ws_def n add.assoc)
  have W: "div_window snum div_n p = ((unat (snum ! (p + div_n)) * BN_BASE + unat (snum ! (p + div_n - 1))) * BN_BASE + unat (snum ! (p + div_n - 2))) * BN_BASE ^ i
      + wval (take i ws)"
  proof -
    have "div_n + 1 = i + 3" by (simp add: n)
    then have "div_window snum div_n p = wval (take i ws @ [ws ! i, ws ! (i + 1), ws ! (i + 2)])" unfolding div_window_def ws_def [symmetric] by (simp only: three)
    then show ?thesis unfolding nths using \<open>i + 3 \<le> length ws\<close> by (simp add: wval_append min_absorb2 algebra_simps)
  qed
  show ?thesis
  proof (rule div_digit_spec [OF _ V _ W _ less])
    show "BN_BASE \<le> 2 * unat d0" using top unfolding top_limbs_def by blast
    show "wval (take i sdiv) < BN_BASE ^ i" using wval_less [of "take i sdiv"] top by (simp add: top_limbs_def n min_absorb2)
    show "wval (take i ws) < BN_BASE ^ i" using wval_less [of "take i ws"] \<open>i + 3 \<le> length ws\<close> by (simp add: min_absorb2)
  qed
qed

text \<open>A round replaces the window by its remainder and stores the digit.\<close>

lemma div_step_spec:
  assumes top: "top_limbs sdiv div_n d0 d1" and p: "0 < p" "p + div_n < length snum"
    and less: "div_window snum div_n p < wval (take div_n sdiv) * BN_BASE"
  obtains ws q where "div_step sdiv div_n d0 d1 p (snum, res) = Some (take p snum @ ws @ drop (p + div_n + 1) snum, res[p - 1 := q])"
    "length ws = div_n + 1" "wval ws = div_window snum div_n p mod wval (take div_n sdiv)" "unat q = div_window snum div_n p div wval (take div_n sdiv)"
proof -
  define V W n where "V = wval (take div_n sdiv)" and "W = div_window snum div_n p" and "n = div_n"
  obtain q where q: "div_digit d0 d1 (snum ! (p + div_n)) (snum ! (p + div_n - 1)) (snum ! (p + div_n - 2)) = Some q" "W div V \<le> unat q" "unat q \<le> W div V + 1"
    using div_digit_window [OF assms] unfolding W_def V_def by blast
  have n: "n \<le> length sdiv" using top by (simp add: top_limbs_def n_def)
  then obtain tmp l0 where tmp: "bn_mul_words sdiv n q = (tmp, l0)" "length tmp = n" "wval tmp + BN_BASE ^ n * unat l0 = V * unat q"
    unfolding V_def n_def by (rule bn_mul_words_spec)
  have len: "n + 1 \<le> length (drop p snum)" using p by (simp add: n_def)
  obtain ws c where ws: "bn_sub_words (drop p snum) (tmp @ [l0]) (n + 1) = (ws, c)" "length ws = n + 1" "c = 0 \<or> c = 1"
    "wval ws + wval (take (n + 1) (tmp @ [l0])) = W + BN_BASE ^ (n + 1) * unat c"
    unfolding W_def div_window_def n_def [symmetric] by (rule bn_sub_words_spec [OF len, of "tmp @ [l0]"]) (use tmp(2) in simp)
  have sum: "wval ws + V * unat q = W + BN_BASE ^ (n + 1) * unat c"
    using ws(4) tmp(2) by (simp add: wval_snoc flip: tmp(3))
  have wl: "wval ws < BN_BASE ^ (n + 1)" using wval_less [of ws] ws(2) by simp
  have V0: "0 < V" using less by (cases "V = 0") (simp_all add: V_def)
  show thesis
  proof (cases "c = 0")
    case True
    then have "V * unat q \<le> W" "wval ws = W - V * unat q" using sum by simp_all
    then have uq: "unat q = W div V" using less_eq_div_iff_mult_less_eq [OF V0, of "unat q" W] q(2) by (simp add: mult.commute)
    then have "wval ws = W mod V" using \<open>wval ws = W - V * unat q\<close> by (simp add: minus_mult_div_eq_mod)
    moreover have "div_step sdiv div_n d0 d1 p (snum, res) = Some (take p snum @ ws @ drop (p + div_n + 1) snum, res[p - 1 := q])"
      unfolding div_step_def using True q(1) tmp(1) ws(1) by (simp add: n_def)
    ultimately show ?thesis using ws(2) uq unfolding W_def V_def n_def by (intro that)
  next
    case False
    then have c1: "unat c = 1" using ws(3) by simp
    have "W < V * unat q" using sum wl c1 by simp
    moreover have "V * (W div V) \<le> W" by simp
    ultimately have "unat q \<noteq> W div V" by (metis not_le)
    then have uq: "unat q = W div V + 1" using q(2,3) by simp
    then have q1: "unat (q - 1) = W div V" by (simp add: unat_limb_arith)
    define top where "top = ws ! n"
    have tops: "ws = take n ws @ [top]" using ws(2) by (simp add: top_def take_Suc_conv_app_nth [symmetric])
    have d: "drop p (take p snum @ ws @ drop (p + div_n + 1) snum) = ws @ drop (p + div_n + 1) snum" using p by simp
    obtain rs k where rs: "bn_add_words (ws @ drop (p + div_n + 1) snum) sdiv n = (rs, k)" "length rs = n"
      "wval rs + BN_BASE ^ n * unat k = wval (take n ws) + V" "unat k \<le> 1"
      using bn_add_words_spec [of n "ws @ drop (p + div_n + 1) snum" sdiv] n ws(2) unfolding V_def n_def by auto
    have k: "k \<noteq> 0 \<Longrightarrow> k = 1" using rs(4) by (auto simp: word_unat_eq_iff le_Suc_eq)
    have "wval (rs @ [top + k]) = (wval rs + BN_BASE ^ n * unat k + BN_BASE ^ n * unat top) mod BN_BASE ^ (n + 1)"
      by (simp add: top_limb_add [OF rs(2)] algebra_simps)
    also have "wval rs + BN_BASE ^ n * unat k + BN_BASE ^ n * unat top = wval ws + V"
      unfolding rs(3) using ws(2) by (subst (2) tops) (simp add: wval_snoc)
    also have "wval ws + V = W mod V + BN_BASE ^ (n + 1)"
    proof -
      have "wval ws + (V * (W div V) + V) = W + BN_BASE ^ (n + 1)" using sum unfolding c1 uq by simp
      then show ?thesis using mult_div_mod_eq [of V W] by linarith
    qed
    also have "\<dots> mod BN_BASE ^ (n + 1) = W mod V"
    proof -
      have "W mod V < V" using V0 by simp
      also have "V < BN_BASE ^ n" using wval_less [of "take n sdiv"] n by (simp add: V_def n_def min_absorb2)
      also have "\<dots> \<le> BN_BASE ^ (n + 1)" by (rule power_increasing) simp_all
      finally show ?thesis by simp
    qed
    finally have "wval (rs @ [top + k]) = W mod V" .
    moreover have "div_step sdiv div_n d0 d1 p (snum, res) = Some (take p snum @ (rs @ [top + k]) @ drop (p + div_n + 1) snum, res[p - 1 := q - 1])"
    proof -
      have e: "take p (take p snum @ ws @ drop (p + div_n + 1) snum) @ rs @ drop (p + div_n) (take p snum @ ws @ drop (p + div_n + 1) snum)
          = take p snum @ (rs @ [top]) @ drop (p + div_n + 1) snum"
        using p ws(2) rs(2) by (subst (1 2) tops) (simp add: n_def)
      have nth: "(take p snum @ (rs @ [top]) @ xs) ! (p + div_n) = top" "(take p snum @ (rs @ [top]) @ xs)[p + div_n := v] = take p snum @ (rs @ [v]) @ xs" for xs v
        using p rs(2) by (simp_all add: nth_append list_update_append n_def)
      show ?thesis unfolding div_step_def using False q(1) tmp(1) ws(1) rs(1) k
        by (simp add: Let_def n_def [symmetric] d [folded n_def, unfolded Suc_eq_plus1 [symmetric]] e [folded n_def, unfolded Suc_eq_plus1 [symmetric]] nth [folded n_def] del: append_assoc take_append drop_append)
    qed
    ultimately show ?thesis using rs(2) q1 unfolding W_def V_def n_def by (intro that) auto
  qed
qed

section \<open>The loop\<close>

lemma wval_take_Suc: "k < length xs \<Longrightarrow> wval (take (Suc k) xs) = wval (take k xs) + BN_BASE ^ k * unat (xs ! k)"
  by (simp add: take_Suc_conv_app_nth wval_snoc min_absorb2)

lemma div_window_Cons:
  "p + div_n < length snum \<Longrightarrow> div_window snum div_n p = unat (snum ! p) + BN_BASE * wval (take div_n (drop (Suc p) snum))"
  by (simp add: div_window_def flip: Cons_nth_drop_Suc)

text \<open>
  Above the limb at \<open>k\<close> stands a remainder of \<open>div_n\<close> limbs. The rounds from \<open>k\<close> divide the number that begins at the second limb.
\<close>

lemma div_loop_spec:
  assumes "top_limbs sdiv div_n d0 d1" "k + div_n < length snum" "k \<le> length res"
    "wval (take div_n (drop (Suc k) snum)) < wval (take div_n sdiv)"
  shows "\<exists>snum' res'. div_loop sdiv div_n d0 d1 k (snum, res) = Some (snum', res') \<and> length snum' = length snum \<and> length res' = length res \<and>
    wval (take k res') = wval (take (k + div_n) (drop 1 snum)) div wval (take div_n sdiv) \<and>
    wval (take (k + div_n) (drop 1 snum')) = wval (take (k + div_n) (drop 1 snum)) mod wval (take div_n sdiv) \<and>
    take 1 snum' = take 1 snum \<and> drop (Suc (k + div_n)) snum' = drop (Suc (k + div_n)) snum \<and> drop k res' = drop k res"
  using assms(2-)
proof (induction k arbitrary: snum res)
  case 0
  then show ?case by simp
next
  case (Suc k)
  define V n W where "V = wval (take div_n sdiv)" and "n = div_n" and "W = div_window snum div_n (Suc k)"
  have nV: "V < BN_BASE ^ n" using wval_less [of "take n sdiv"] assms(1) by (simp add: V_def n_def top_limbs_def min_absorb2)
  have W: "W = unat (snum ! Suc k) + BN_BASE * wval (take n (drop (Suc (Suc k)) snum))"
    unfolding W_def n_def using Suc.prems(1) by (intro div_window_Cons) simp
  have less: "W < V * BN_BASE"
  proof -
    have "(wval (take n (drop (Suc (Suc k)) snum)) + 1) * BN_BASE \<le> V * BN_BASE" using Suc.prems(3) unfolding V_def n_def by (intro mult_le_mono1) simp
    then show ?thesis unfolding W mult.commute [of BN_BASE] using limb_less [of "snum ! Suc k"] unfolding distrib_right by linarith
  qed
  have "0 < Suc k" "Suc k + div_n < length snum" using Suc.prems(1) by simp_all
  from div_step_spec [OF assms(1) this less [unfolded W_def V_def]]
  obtain ws q where step: "div_step sdiv div_n d0 d1 (Suc k) (snum, res) = Some (take (Suc k) snum @ ws @ drop (Suc k + n + 1) snum, res[k := q])"
    "length ws = n + 1" "wval ws = W mod V" "unat q = W div V" unfolding V_def W_def n_def by (metis diff_Suc_1)
  define snum1 res1 where "snum1 = take (Suc k) snum @ ws @ drop (Suc k + n + 1) snum" and "res1 = res[k := q]"
  have "0 < V" using less by (cases "V = 0") simp_all
  then have wsV: "wval ws < V" using step(3) by simp
  have top0: "ws ! n = 0" "wval (take n ws) = wval ws"
  proof -
    have "wval ws = wval (take n ws) + BN_BASE ^ n * unat (ws ! n)" using wval_take_Suc [of n ws] step(2) by simp
    moreover have "wval ws < BN_BASE ^ n" using wsV nV by simp
    ultimately have "unat (ws ! n) = 0" by (cases "unat (ws ! n)") simp_all
    then show "ws ! n = 0" "wval (take n ws) = wval ws" using \<open>wval ws = wval (take n ws) + _\<close> by (simp_all add: unat_eq_zero)
  qed
  have len1: "length snum1 = length snum" "length res1 = length res" using Suc.prems(1) step(2) by (simp_all add: snum1_def res1_def n_def)
  have d1: "drop (Suc k) snum1 = ws @ drop (Suc k + n + 1) snum" using Suc.prems(1) by (simp add: snum1_def n_def)
  have "wval (take div_n (drop (Suc k) snum1)) < wval (take div_n sdiv)"
    unfolding d1 using step(2) wsV top0(2) by (simp add: V_def n_def)
  moreover have "k + div_n < length snum1" "k \<le> length res1" using Suc.prems(1,2) by (simp_all add: len1)
  ultimately obtain snum' res' where ih: "div_loop sdiv div_n d0 d1 k (snum1, res1) = Some (snum', res')" "length snum' = length snum1" "length res' = length res1"
    "wval (take k res') = wval (take (k + n) (drop 1 snum1)) div V" "wval (take (k + n) (drop 1 snum')) = wval (take (k + n) (drop 1 snum1)) mod V"
    "take 1 snum' = take 1 snum1" "drop (Suc (k + n)) snum' = drop (Suc (k + n)) snum1" "drop k res' = drop k res1"
    using Suc.IH [of snum1 res1] unfolding V_def n_def by blast
  define L where "L = wval (take k (drop 1 snum))"
  have M: "wval (take (Suc k + n) (drop 1 snum)) = L + BN_BASE ^ k * W"
    using Suc.prems(1) wval_split [of "take (Suc k + n) (drop 1 snum)" k]
    by (simp add: L_def W_def div_window_def n_def min_absorb1 min_absorb2 take_drop add.commute)
  have M1: "wval (take (k + n) (drop 1 snum1)) = L + BN_BASE ^ k * (W mod V)"
  proof -
    have "take k (drop 1 snum1) = take k (drop 1 snum)" using Suc.prems(1) by (simp add: snum1_def take_drop)
    moreover have "drop k (take (k + n) (drop 1 snum1)) = take n ws" using d1 step(2) by (simp add: drop_take)
    ultimately show ?thesis using wval_split [of "take (k + n) (drop 1 snum1)" k] Suc.prems(1) step(3) top0(2)
      by (simp add: L_def len1 n_def min_absorb1 min_absorb2)
  qed
  have MM: "L + BN_BASE ^ k * W = (L + BN_BASE ^ k * (W mod V)) + BN_BASE ^ k * (W div V) * V"
  proof -
    have "BN_BASE ^ k * W = BN_BASE ^ k * (W div V * V + W mod V)" by simp
    then show ?thesis by (simp only: distrib_left mult.assoc)
  qed
  have res: "res' ! k = q"
  proof -
    have "res' ! k = hd (drop k res')" using ih(3) Suc.prems(2) by (simp add: hd_drop_conv_nth len1)
    then show ?thesis unfolding ih(8) using Suc.prems(2) by (simp add: hd_drop_conv_nth res1_def)
  qed
  have zero: "snum' ! Suc (k + n) = 0"
  proof -
    have "snum' ! Suc (k + n) = hd (drop (Suc (k + n)) snum')" using ih(2) Suc.prems(1) by (simp add: hd_drop_conv_nth len1 n_def)
    also have "\<dots> = (drop (Suc k) snum1) ! n" unfolding ih(7) using Suc.prems(1) by (simp add: hd_drop_conv_nth len1 n_def)
    finally show ?thesis unfolding d1 using step(2) top0(1) by (simp add: nth_append)
  qed
  show ?case
  proof (rule exI [of _ snum'], rule exI [of _ res'], intro conjI)
    show "div_loop sdiv div_n d0 d1 (Suc k) (snum, res) = Some (snum', res')" using step(1) ih(1) by (simp add: snum1_def res1_def)
    show "length snum' = length snum" "length res' = length res" using ih(2,3) len1 by simp_all
    show "wval (take (Suc k) res') = wval (take (Suc k + div_n) (drop 1 snum)) div wval (take div_n sdiv)"
      using \<open>0 < V\<close> wval_take_Suc [of k res'] ih(3,4) len1 Suc.prems(2) step(4) res unfolding V_def [symmetric] unfolding n_def [symmetric] M MM M1 by simp
    show "wval (take (Suc k + div_n) (drop 1 snum')) = wval (take (Suc k + div_n) (drop 1 snum)) mod wval (take div_n sdiv)"
      using wval_take_Suc [of "k + n" "drop 1 snum'"] ih(2,5) len1 Suc.prems(1) zero unfolding V_def [symmetric] unfolding n_def [symmetric] M MM M1 by simp
    show "take 1 snum' = take 1 snum" using ih(6) Suc.prems(1) by (simp add: snum1_def)
    have "drop 1 (drop (Suc (k + n)) snum') = drop 1 (drop (Suc (k + n)) snum1)" using ih(7) by simp
    moreover have "drop (Suc n) (drop (Suc k) snum1) = drop (Suc (Suc k + n)) snum" unfolding d1 using step(2) by simp
    ultimately show "drop (Suc (Suc k + div_n)) snum' = drop (Suc (Suc k + div_n)) snum" by (simp add: n_def add.commute)
    have "drop 1 (drop k res') = drop 1 (drop k res1)" using ih(8) by simp
    then show "drop (Suc k) res' = drop (Suc k) res" by (simp add: res1_def)
  qed
qed

text \<open>The whole loop on a number of \<open>k + 1 + div_n\<close> limbs whose top limb is zero: the quotient without the first limb, which stays below the remainder.\<close>

lemma div_loop_number:
  assumes top: "top_limbs sdiv div_n d0 d1" and len: "k + div_n < length snum" "k \<le> length res" and zero: "snum ! (k + div_n) = 0"
    and A: "A = wval (take (k + 1 + div_n) snum)" and V: "V = wval (take div_n sdiv)"
  shows "\<exists>snum' res'. div_loop sdiv div_n d0 d1 k (snum, res) = Some (snum', res') \<and> length snum' = length snum \<and> length res' = length res \<and>
    wval (take k res') = (A div BN_BASE) div V \<and> wval (take (k + 1 + div_n) snum') = A mod BN_BASE + BN_BASE * (A div BN_BASE mod V)"
proof -
  obtain n where n: "div_n = Suc n" using top by (cases div_n) (simp_all add: top_limbs_def)
  have sdiv: "Suc n \<le> length sdiv" "BN_BASE \<le> 2 * unat (sdiv ! n)" using top by (auto simp: top_limbs_def n)
  have "wval (take div_n (drop (Suc k) snum)) = wval (take n (drop (Suc k) snum))"
    using wval_take_Suc [of n "drop (Suc k) snum"] len(1) zero by (simp add: n)
  also have "\<dots> < BN_BASE ^ n" using wval_less [of "take n (drop (Suc k) snum)"] len(1) by (simp add: n min_absorb2)
  also have "\<dots> \<le> V"
  proof -
    have "sdiv ! n \<noteq> 0" using sdiv(2) by (intro notI) simp
    then have "1 \<le> unat (sdiv ! n)" by (simp add: Suc_le_eq unat_gt_0)
    then have "BN_BASE ^ n * 1 \<le> BN_BASE ^ n * unat (sdiv ! n)" by (rule mult_le_mono2)
    moreover have "V = wval (take n sdiv) + BN_BASE ^ n * unat (sdiv ! n)" using wval_take_Suc [of n sdiv] sdiv(1) by (simp add: V n)
    ultimately show ?thesis by linarith
  qed
  finally obtain snum' res' where l: "div_loop sdiv div_n d0 d1 k (snum, res) = Some (snum', res')" "length snum' = length snum" "length res' = length res"
    "wval (take k res') = wval (take (k + div_n) (drop 1 snum)) div V"
    "wval (take (k + div_n) (drop 1 snum')) = wval (take (k + div_n) (drop 1 snum)) mod V" "take 1 snum' = take 1 snum"
    using div_loop_spec [OF top len] unfolding V by blast
  have split: "wval (take (k + 1 + div_n) ws) = wval (take 1 ws) + BN_BASE * wval (take (k + div_n) (drop 1 ws))" if "k + div_n < length ws" for ws
    using that wval_split [of "take (k + 1 + div_n) ws" 1] by (simp add: min_absorb1 drop_take)
  have "wval (take 1 snum) < BN_BASE" using wval_less [of "take 1 snum"] len(1) by (simp add: min_absorb2)
  then have "wval (take (k + div_n) (drop 1 snum)) = A div BN_BASE" "wval (take 1 snum) = A mod BN_BASE"
    unfolding A split [OF len(1)] by simp_all
  then show ?thesis using l split [of snum'] len(1) by simp
qed

section \<open>The operands\<close>

lemma wval_top_pos:
  assumes "0 < w" "w \<le> length d" "d ! (w - 1) \<noteq> 0"
  shows "num_bits (wval (take w d)) = 64 * (w - 1) + num_bits (unat (d ! (w - 1)))" "BN_BASE ^ (w - 1) \<le> wval (take w d)"
proof -
  obtain k where k: "w = Suc k" using assms(1) by (cases w) simp_all
  have v: "wval (take w d) = wval (take k d) + BN_BASE ^ k * unat (d ! k)" using wval_take_Suc [of k d] assms(2) by (simp add: k)
  have p: "0 < unat (d ! k)" using assms(3) by (simp add: k unat_gt_0)
  have "wval (take k d) < 2 ^ (64 * k)" using wval_less [of "take k d"] assms(2) by (simp add: k BN_BASE_power min_absorb2)
  then show "num_bits (wval (take w d)) = 64 * (w - 1) + num_bits (unat (d ! (w - 1)))"
    using num_bits_shift [OF p, of "wval (take k d)" "64 * k"] v by (simp add: k BN_BASE_power)
  have h: "BN_BASE ^ k \<le> BN_BASE ^ k * unat (d ! k)" using p by simp
  have "w - 1 = k" by (simp add: k)
  then show "BN_BASE ^ (w - 1) \<le> wval (take w d)" unfolding v using h by (simp only:)
qed

text \<open>The divisor is shifted until its number of bits is a multiple of that of a limb.\<close>

lemma normalised_divisor:
  assumes "bn_ok x" "bn_abs x = v * 2 ^ (64 - num_bits v mod 64)" "0 < v"
  shows "top_limbs (bn_d x) (bn_minimal_width x) (bn_d x ! (bn_minimal_width x - 1)) (if bn_minimal_width x = 1 then 0 else bn_d x ! (bn_minimal_width x - 2))"
proof -
  let ?w = "bn_minimal_width x"
  note m = minimal_limbs [OF assms(1)]
  have "bn_abs x \<noteq> 0" using assms(2,3) by simp
  then have w: "0 < ?w" using m(3) by simp
  have len: "?w \<le> length (bn_d x)" using m(2) assms(1) by (simp add: bn_ok_def)
  define t where "t = unat (bn_d x ! (?w - 1))"
  have t: "0 < t" "t < 2 ^ 64" using m(4) w limb_less [of "bn_d x ! (?w - 1)"] by (simp_all add: t_def unat_gt_0 BN_BASE_def del: limb_less)
  have "num_bits (bn_abs x) = 64 * (?w - 1) + num_bits t" using wval_top_pos(1) [OF w len m(4) [OF w]] m(1) by (simp add: t_def)
  moreover have "num_bits (bn_abs x) = (64 - num_bits v mod 64) + num_bits v"
    using num_bits_shift [OF assms(3), of 0 "64 - num_bits v mod 64"] assms(2) by (simp add: mult.commute)
  moreover have "((64 - num_bits v mod 64) + num_bits v) mod 64 = 0"
  proof -
    have "64 - num_bits v mod 64 + num_bits v = 64 + 64 * (num_bits v div 64)"
      using mult_div_mod_eq [of 64 "num_bits v"] mod_less_divisor [of 64 "num_bits v"] by linarith
    then show ?thesis by simp
  qed
  ultimately have "num_bits t mod 64 = 0" by (metis mod_mult_self2_is_0 mod_add_left_eq add_0 mod_mult_self1_is_0)
  moreover have "num_bits t \<le> 64" "num_bits t \<noteq> 0" using t by (simp_all add: num_bits_le num_bits_eq_0)
  ultimately have "\<not> num_bits t \<le> 63" by auto
  then have "2 ^ 63 \<le> t" by (simp add: num_bits_le)
  then show ?thesis using w len by (simp add: top_limbs_def t_def BN_BASE_def)
qed

lemma minimal_width_le: "bn_ok x \<Longrightarrow> bn_abs x < BN_BASE ^ k \<Longrightarrow> bn_minimal_width x \<le> k"
proof (rule ccontr)
  assume x: "bn_ok x" "bn_abs x < BN_BASE ^ k" and "\<not> bn_minimal_width x \<le> k"
  then have w: "k < bn_minimal_width x" by simp
  have "bn_minimal_width x \<le> length (bn_d x)" using minimal_limbs(2) [OF x(1)] x(1) by (simp add: bn_ok_def)
  then have "BN_BASE ^ (bn_minimal_width x - 1) \<le> bn_abs x"
    using wval_top_pos(2) [OF _ _ minimal_limbs(4) [OF x(1)]] minimal_limbs(1) [OF x(1)] w by simp
  moreover have "BN_BASE ^ k \<le> BN_BASE ^ (bn_minimal_width x - 1)" using w by (intro power_increasing) simp_all
  ultimately show False using x(2) by simp
qed

text \<open>The padding does not change the value; the new top limb is zero.\<close>

lemma pad_numerator_spec:
  assumes x: "bn_ok x" and e: "pad_numerator m x y = (ok, x')"
  defines "w \<equiv> (if bn_width x \<le> bn_width y + 1 then bn_width y + 2 else bn_width x + 1)"
  shows "if ok then bn_ok x' \<and> bn_abs x' = bn_abs x \<and> bn_neg x' = bn_neg x \<and> bn_width x' = w \<and> bn_d x' ! (w - 1) = 0 else bn_full m x w"
proof (cases rule: bn_wexpand_cases [OF x, of m w, case_names expanded full])
  case (expanded d)
  have w: "bn_width x < w" by (simp add: w_def)
  have e': "ok" "x' = d\<lparr>bn_d := take (bn_width x) (bn_d d) @ replicate (w - bn_width x) 0 @ drop w (bn_d d), bn_width := w\<rparr>"
    using e expanded(1,6) unfolding pad_numerator_def Let_def w_def [symmetric] by simp_all
  define ws where "ws = bn_limbs x @ replicate (w - bn_width x) 0"
  have len: "length ws = w" "length (bn_limbs x) = bn_width x" "length (bn_d d) = bn_dmax d"
    using w length_bn_limbs [OF x] expanded(2) by (simp_all add: ws_def bn_ok_def)
  have x': "x' = d\<lparr>bn_d := ws @ drop w (bn_d d), bn_width := w\<rparr>"
    using e'(2) expanded(5) by (simp add: ws_def expanded(6) bn_limbs_def [of d])
  have "bn_ok x'" "bn_abs x' = wval ws"
    using len expanded(3) by (auto intro!: store_limbs [OF expanded(2), of ws] simp: x')
  moreover have "wval ws = bn_abs x" by (simp add: ws_def wval_append bn_abs_def)
  moreover have "(ws @ drop w (bn_d d)) ! (w - 1) = 0"
  proof -
    have "w - 1 - bn_width x < w - bn_width x" "\<not> w - 1 < bn_width x" "w - 1 < length ws" using w len(1) by linarith+
    then show ?thesis using len(2) by (simp add: ws_def nth_append del: One_nat_def length_append)
  qed
  ultimately show ?thesis using e'(1) expanded(7) by (simp add: x')
next
  case full
  then show ?thesis using e unfolding pad_numerator_def Let_def w_def [symmetric] by simp
qed

section \<open>The division\<close>

text \<open>The reasons for which one of the objects does not get a number of limbs.\<close>

definition cannot_grow :: "allocator \<Rightarrow> bignum list \<Rightarrow> nat \<Rightarrow> bool" where
  "cannot_grow m xs words \<longleftrightarrow> 2 ^ 23 \<le> words \<or> \<not> malloc_total m \<or> (\<exists>x \<in> set xs. bn_static x)"

lemma bn_full_cannot_grow: "bn_full m x k \<Longrightarrow> k \<le> words \<Longrightarrow> \<exists>y \<in> set xs. bn_flags x = bn_flags y \<Longrightarrow> cannot_grow m xs words"
  by (auto simp: cannot_grow_def bn_full_def bn_static_def)

lemma bn_wexpand_flags: "bn_flags (snd (bn_wexpand m x k)) = bn_flags x"
  by (auto simp: bn_wexpand_def split: option.splits)

lemma minimal_width_flags: "bn_flags (bn_set_minimal_width x) = bn_flags x"
  by (simp add: bn_set_minimal_width_def Let_def)

lemma BN_lshift_flags: "bn_flags (snd (BN_lshift m r a n)) = bn_flags r"
  using bn_wexpand_flags [of m "r\<lparr>bn_neg := bn_neg a\<rparr>" "bn_width a + nat n div BN_BITS2 + 1"]
  by (auto simp: BN_lshift_def Let_def minimal_width_flags split: prod.splits)

text \<open>The divisor and the numerator of the loop.\<close>

lemma BN_lshift_abs:
  assumes "bn_ok r" "bn_ok a" "BN_lshift m r a (int n) = (True, r')"
  shows "bn_ok r'" "bn_abs r' = bn_abs a * 2 ^ n" "bn_flags r' = bn_flags r"
proof -
  have s: "bn_ok r'" "bn_val r' = bn_val a * 2 ^ n" using BN_lshift_spec [OF assms] by simp_all
  then show "bn_ok r'" by simp
  have "int (bn_abs r') = int (bn_abs a * 2 ^ n)" unfolding bn_abs_val s(2) by (simp add: abs_mult bn_abs_val)
  then show "bn_abs r' = bn_abs a * 2 ^ n" by (simp only: of_nat_eq_iff)
  show "bn_flags r' = bn_flags r" using BN_lshift_flags [of m r a "int n"] assms(3) by simp
qed

lemma set_minimal_positive:
  assumes "bn_ok x"
  shows "bn_ok ((bn_set_minimal_width x)\<lparr>bn_neg := False\<rparr>)" "bn_abs ((bn_set_minimal_width x)\<lparr>bn_neg := False\<rparr>) = bn_abs x"
    "bn_width ((bn_set_minimal_width x)\<lparr>bn_neg := False\<rparr>) = bn_minimal_width x"
    "bn_minimal_width ((bn_set_minimal_width x)\<lparr>bn_neg := False\<rparr>) = bn_minimal_width x"
proof -
  note s = bn_set_minimal_width_spec [OF assms]
  show "bn_ok ((bn_set_minimal_width x)\<lparr>bn_neg := False\<rparr>)" "bn_abs ((bn_set_minimal_width x)\<lparr>bn_neg := False\<rparr>) = bn_abs x"
    "bn_width ((bn_set_minimal_width x)\<lparr>bn_neg := False\<rparr>) = bn_minimal_width x"
    using s by (simp_all add: bn_ok_def bn_abs_def bn_limbs_def)
  have "minimal_loop d (minimal_loop d n) = minimal_loop d n" for d n
    by (induction n) simp_all
  then show "bn_minimal_width ((bn_set_minimal_width x)\<lparr>bn_neg := False\<rparr>) = bn_minimal_width x"
    by (simp add: bn_minimal_width_def bn_set_minimal_width_def Let_def)
qed

text \<open>What the loop leaves in the numerator and in the quotient.\<close>

lemma div_loop_bignum:
  assumes sd: "bn_ok sd" "bn_abs sd = v * 2 ^ s" "s = 64 - num_bits v mod 64" "0 < v" "bn_minimal_width sd = bn_width sd"
    and sn: "bn_ok sn" "bn_abs sn = n * 2 ^ (s + 64)" "bn_width sd + 2 \<le> bn_width sn" "bn_d sn ! (bn_width sn - 1) = 0" "\<not> bn_neg sn"
    and q: "bn_ok q" "bn_width sn - bn_width sd \<le> bn_dmax q"
    and k: "k = bn_width sn - bn_width sd - 1"
  obtains sn' q' where "div_loop (bn_d sd) (bn_width sd) (bn_d sd ! (bn_width sd - 1)) (if bn_width sd = 1 then 0 else bn_d sd ! (bn_width sd - 2)) k
      (bn_d sn, bn_d q) = Some (sn', q')"
    "bn_ok (sn\<lparr>bn_d := sn'\<rparr>)" "bn_val (sn\<lparr>bn_d := sn'\<rparr>) = int ((n mod v) * 2 ^ (s + 64))"
    "bn_ok (q\<lparr>bn_width := k, bn_d := q'\<rparr>)" "bn_abs (q\<lparr>bn_width := k, bn_d := q'\<rparr>) = n div v"
proof -
  let ?n = "bn_width sd"
  have top: "top_limbs (bn_d sd) ?n (bn_d sd ! (?n - 1)) (if ?n = 1 then 0 else bn_d sd ! (?n - 2))"
    by (rule normalised_divisor [OF sd(1) sd(2) [unfolded sd(3)] sd(4), unfolded sd(5)])
  have len: "length (bn_d sn) = bn_dmax sn" "bn_width sn \<le> bn_dmax sn" "length (bn_d q) = bn_dmax q" using sn(1) q(1) by (simp_all add: bn_ok_def)
  have kn: "k + 1 + ?n = bn_width sn" "k + ?n = bn_width sn - 1" using sn(3) k by simp_all
  have A: "n * 2 ^ (s + 64) = wval (take (k + 1 + ?n) (bn_d sn))" unfolding kn sn(2) [symmetric] by (simp add: bn_abs_def bn_limbs_def)
  have V: "v * 2 ^ s = wval (take ?n (bn_d sd))" unfolding sd(2) [symmetric] by (simp add: bn_abs_def bn_limbs_def)
  have "k + ?n < length (bn_d sn)" "k \<le> length (bn_d q)" using kn len sn(3) q(2) k by simp_all
  from div_loop_number [OF top this _ A V] obtain sn' q' where l:
    "div_loop (bn_d sd) ?n (bn_d sd ! (?n - 1)) (if ?n = 1 then 0 else bn_d sd ! (?n - 2)) k (bn_d sn, bn_d q) = Some (sn', q')"
    "length sn' = length (bn_d sn)" "length q' = length (bn_d q)" "wval (take k q') = n * 2 ^ (s + 64) div BN_BASE div (v * 2 ^ s)"
    "wval (take (k + 1 + ?n) sn') = n * 2 ^ (s + 64) mod BN_BASE + BN_BASE * (n * 2 ^ (s + 64) div BN_BASE mod (v * 2 ^ s))"
    using sn(4) kn(2) by auto
  have B: "n * 2 ^ (s + 64) = (n * 2 ^ s) * BN_BASE" by (simp add: power_add BN_BASE_def)
  have r: "wval (take (bn_width sn) sn') = (n mod v) * 2 ^ (s + 64)"
    using l(5) unfolding B kn(1) by (simp add: power_add BN_BASE_def)
  have d: "wval (take k q') = n div v" using l(4) unfolding B by simp
  show thesis
  proof (rule that [of sn' q'])
    show "bn_ok (sn\<lparr>bn_d := sn'\<rparr>)" using sn(1) l(2) by (simp add: bn_ok_def)
    show "bn_val (sn\<lparr>bn_d := sn'\<rparr>) = int ((n mod v) * 2 ^ (s + 64))" using r sn(5) by (simp add: bn_val_def bn_abs_def bn_limbs_def)
    show "bn_ok (q\<lparr>bn_width := k, bn_d := q'\<rparr>)" using q l(3) k by (simp add: bn_ok_def)
    show "bn_abs (q\<lparr>bn_width := k, bn_d := q'\<rparr>) = n div v" using d by (simp add: bn_abs_def bn_limbs_def)
  qed (rule l(1))
qed

lemma BN_rshift_abs:
  assumes "bn_ok r" "bn_ok a" "bn_val a = int x" "BN_rshift m r a (int n) = (ok, r')"
  shows "if ok then bn_ok r' \<and> bn_abs r' = x div 2 ^ n \<and> \<not> bn_neg r' else r' = r \<and> bn_full m r (bn_width a)"
proof (cases ok)
  case True
  then have r: "bn_ok r'" "bn_val r' = sgn (bn_val a) * (\<bar>bn_val a\<bar> div 2 ^ n)" "bn_signed r'" using BN_rshift_spec [OF assms(1,2,4)] by simp_all
  then have "bn_val r' = int (x div 2 ^ n)" unfolding assms(3) by (cases "x = 0") (simp_all add: zdiv_int)
  then have "\<not> bn_neg r'" "int (bn_abs r') = int (x div 2 ^ n)" using bn_signed_neg [OF r(3)] bn_abs_val [of r'] by simp_all
  then show ?thesis using r(1) True by (simp only: if_True of_nat_eq_iff simp_thms)
qed (use BN_rshift_spec [OF assms(1,2,4)] in simp)

text \<open>
  The results: quotient and remainder of the absolute values, with the sign that the code gives them.
\<close>

definition div_quotient :: "bignum \<Rightarrow> bignum \<Rightarrow> bignum \<Rightarrow> bool" where
  "div_quotient numerator divisor q \<longleftrightarrow> bn_ok q \<and> bn_signed q \<and> bn_abs q = bn_abs numerator div bn_abs divisor \<and>
     (bn_neg q \<longleftrightarrow> bn_abs q \<noteq> 0 \<and> bn_neg numerator \<noteq> bn_neg divisor)"

definition div_remainder :: "bool \<Rightarrow> bignum \<Rightarrow> bignum \<Rightarrow> bignum \<Rightarrow> bool" where
  "div_remainder alias numerator divisor r \<longleftrightarrow> bn_ok r \<and> bn_signed r \<and> bn_abs r = bn_abs numerator mod bn_abs divisor \<and>
     (bn_neg r \<longleftrightarrow> bn_abs r \<noteq> 0 \<and> (if alias then bn_neg numerator \<noteq> bn_neg divisor else bn_neg numerator))"

definition div_outcome :: "allocator \<Rightarrow> bool \<Rightarrow> bignum list \<Rightarrow> bignum option \<Rightarrow> bignum \<Rightarrow> bignum \<Rightarrow> (bool \<times> bignum \<times> bignum option) option \<Rightarrow> bool" where
  "div_outcome m alias xs rem numerator divisor result \<longleftrightarrow>
     (\<exists>ok q r. result = Some (ok, q, r) \<and>
       (if ok then div_quotient numerator divisor q \<and> rel_option (\<lambda>_. div_remainder alias numerator divisor) rem r
        else cannot_grow m xs (bn_width numerator + bn_width divisor + 4)))"

lemma div_outcome_success: "div_quotient numerator divisor q \<Longrightarrow> rel_option (\<lambda>_. div_remainder alias numerator divisor) rem r \<Longrightarrow>
    div_outcome m alias xs rem numerator divisor (Some (True, q, r))"
  by (simp add: div_outcome_def exI [of _ True])

lemma div_outcome_fail: "bn_full m x k \<Longrightarrow> k \<le> bn_width numerator + bn_width divisor + 4 \<Longrightarrow> \<exists>y \<in> set xs. bn_flags x = bn_flags y \<Longrightarrow>
    div_outcome m alias xs rem numerator divisor (Some (False, q, r))"
  using bn_full_cannot_grow [of m x k "bn_width numerator + bn_width divisor + 4" xs] by (auto simp: div_outcome_def)


lemma div_quotient_minimal:
  assumes "bn_ok q" "bn_abs q = bn_abs numerator div bn_abs divisor" "bn_neg q \<longleftrightarrow> bn_neg numerator \<noteq> bn_neg divisor"
  shows "div_quotient numerator divisor (bn_set_minimal_width q)"
  using bn_set_minimal_width_spec [OF assms(1)] assms(2,3) by (auto simp: div_quotient_def)

lemma div_remainder_neg:
  assumes "bn_ok r" "bn_abs r = bn_abs numerator mod bn_abs divisor" "\<not> bn_neg r" "neg \<longleftrightarrow> (if alias then bn_neg numerator \<noteq> bn_neg divisor else bn_neg numerator)"
  shows "div_remainder alias numerator divisor (if \<not> BN_is_zero r then r\<lparr>bn_neg := neg\<rparr> else r)"
  using assms by (auto simp: div_remainder_def BN_is_zero_spec bn_signed_def bn_ok_def bn_abs_def bn_limbs_def)

lemma div_shifted_spec:
  assumes ok: "bn_ok tmp" "bn_ok res" "pred_option bn_ok rem"
    and sd: "bn_ok sd" "bn_abs sd = bn_abs divisor * 2 ^ s" "s = 64 - num_bits (bn_abs divisor) mod 64" "0 < bn_abs divisor" "bn_minimal_width sd = bn_width sd"
    and sn: "bn_ok sn" "bn_abs sn = bn_abs numerator * 2 ^ (s + 64)" "bn_width sd + 2 \<le> bn_width sn" "bn_d sn ! (bn_width sn - 1) = 0" "\<not> bn_neg sn"
    and w: "bn_width sd + 1 \<le> bn_width numerator + bn_width divisor + 4" "bn_width sn \<le> bn_width numerator + bn_width divisor + 4"
    and xs: "tmp \<in> set xs" "res \<in> set xs" "set_option rem \<subseteq> set xs"
  shows "div_outcome m alias xs rem numerator divisor (div_shifted m alias tmp sn sd (s + 64) res rem numerator divisor)"
proof -
  define res0 loop where "res0 = res\<lparr>bn_neg := (bn_neg numerator \<noteq> bn_neg divisor)\<rparr>" and "loop = bn_width sn - bn_width sd"
  have res0: "bn_ok res0" "bn_flags res0 = bn_flags res" using ok(2) by (simp_all add: res0_def bn_ok_def)
  note code = div_shifted_def [of m "alias" tmp sn sd "s + 64" res rem numerator divisor, unfolded loop_def [symmetric] res0_def [symmetric] Let_def]
  have sdpos: "0 < bn_width sd" using minimal_limbs(3) [OF sd(1)] sd(2,4,5) by auto
  have loop: "2 \<le> loop" "loop + 1 \<le> bn_width sn" using sn(3) sdpos by (simp_all add: loop_def)
  show ?thesis
  proof (cases rule: bn_wexpand_cases [OF res0(1), of m "loop + 1", case_names expanded full])
    case full
    have "div_outcome m alias xs rem numerator divisor (Some (False, res0, rem))"
      by (rule div_outcome_fail [OF full(2)]) (use loop w xs(2) res0(2) in auto)
    then show ?thesis unfolding code full(1) by simp
  next
    case (expanded q)
    show ?thesis
    proof (cases "fst (bn_wexpand m tmp (bn_width sd + 1))")
      case False
      have "div_outcome m alias xs rem numerator divisor (Some (False, q\<lparr>bn_width := loop - 1\<rparr>, rem))"
        by (rule div_outcome_fail [OF bn_wexpand_fst [OF False]]) (use w xs(1) in auto)
      then show ?thesis unfolding code expanded(1) using False by simp
    next
      case True
      note t = True
      from div_loop_bignum [OF sd sn expanded(2), of "loop - 1"] expanded(3) obtain sn' q' where l:
        "div_loop (bn_d sd) (bn_width sd) (bn_d sd ! (bn_width sd - 1)) (if bn_width sd = 1 then 0 else bn_d sd ! (bn_width sd - 2)) (loop - 1)
          (bn_d sn, bn_d q) = Some (sn', q')"
        "bn_ok (sn\<lparr>bn_d := sn'\<rparr>)" "bn_val (sn\<lparr>bn_d := sn'\<rparr>) = int (bn_abs numerator mod bn_abs divisor * 2 ^ (s + 64))"
        "bn_ok (q\<lparr>bn_width := loop - 1, bn_d := q'\<rparr>)" "bn_abs (q\<lparr>bn_width := loop - 1, bn_d := q'\<rparr>) = bn_abs numerator div bn_abs divisor"
        unfolding loop_def by auto
      define q1 sn1 where "q1 = q\<lparr>bn_width := loop - 1, bn_d := q'\<rparr>" and "sn1 = bn_set_minimal_width (sn\<lparr>bn_d := sn'\<rparr>)"
      have qneg: "bn_neg q1 \<longleftrightarrow> bn_neg numerator \<noteq> bn_neg divisor" using expanded(7) by (simp add: q1_def res0_def)
      have quo: "div_quotient numerator divisor (bn_set_minimal_width q1)"
        using l(4,5) qneg unfolding q1_def [symmetric] by (intro div_quotient_minimal)
      have nz: "bn_width (q\<lparr>bn_width := loop - 1\<rparr>) \<noteq> 0" using loop by simp
      have code': "div_shifted m alias tmp sn sd (s + 64) res rem numerator divisor =
          Some (case rem of None \<Rightarrow> (True, bn_set_minimal_width q1, None)
            | Some rem \<Rightarrow> (case BN_rshift m rem sn1 (int (s + 64)) of (ok, rem) \<Rightarrow>
                if \<not> ok then (False, q1, Some rem)
                else (True, bn_set_minimal_width q1, Some (if \<not> BN_is_zero rem then rem\<lparr>bn_neg := (if alias then bn_neg q1 else bn_neg numerator)\<rparr> else rem))))"
        unfolding code expanded(1) using t nz l(1) unfolding q1_def sn1_def by (cases rem) (simp_all split: prod.splits)
      show ?thesis
      proof (cases rem)
        case None
        then show ?thesis unfolding code' using quo by (auto simp: div_outcome_def)
      next
        case (Some r)
        have r: "bn_ok r" using ok(3) Some by simp
        have sn1: "bn_ok sn1" "bn_val sn1 = int (bn_abs numerator mod bn_abs divisor * 2 ^ (s + 64))" "bn_width sn1 \<le> bn_width sn"
          using bn_set_minimal_width_spec [OF l(2)] minimal_limbs(2) [OF l(2)] l(3) by (simp_all add: sn1_def)
        obtain b r' where e: "BN_rshift m r sn1 (int (s + 64)) = (b, r')" by fastforce
        note shifted = BN_rshift_abs [OF r sn1(1,2) e]
        show ?thesis
        proof (cases b)
          case True
          then have "bn_ok r'" "bn_abs r' = bn_abs numerator mod bn_abs divisor" "\<not> bn_neg r'" using shifted by simp_all
          from div_remainder_neg [OF this, of "if alias then bn_neg q1 else bn_neg numerator" "alias"] qneg
          have rem: "div_remainder alias numerator divisor (if \<not> BN_is_zero r' then r'\<lparr>bn_neg := (if alias then bn_neg q1 else bn_neg numerator)\<rparr> else r')"
            by simp
          have "div_outcome m alias xs (Some r) numerator divisor (Some (True, bn_set_minimal_width q1,
              Some (if \<not> BN_is_zero r' then r'\<lparr>bn_neg := (if alias then bn_neg q1 else bn_neg numerator)\<rparr> else r')))"
            by (intro div_outcome_success quo) (simp only: option.rel_inject rem)
          then show ?thesis unfolding code' unfolding Some option.case e prod.case using True by simp
        next
          case False
          have "div_outcome m alias xs (Some r) numerator divisor (Some (False, q1, Some r'))"
            by (rule div_outcome_fail [of m r "bn_width sn1"]) (use shifted False sn1(3) w(2) xs(3) Some in auto)
          then show ?thesis unfolding code' unfolding Some option.case e prod.case using False by simp
        qed
      qed
    qed
  qed
qed

lemma shift_bound:
  assumes "x < BN_BASE ^ w" "n \<le> 64 * k"
  shows "x * 2 ^ n < BN_BASE ^ (w + k)"
proof -
  have "x * 2 ^ n < BN_BASE ^ w * 2 ^ n" using assms(1) by simp
  also have "\<dots> \<le> BN_BASE ^ w * BN_BASE ^ k" using assms(2) by (simp add: BN_BASE_power)
  finally show ?thesis by (simp add: power_add)
qed

lemma BN_div_with_spec:
  assumes ok: "bn_ok tmp" "bn_ok snum" "bn_ok sdiv" "bn_ok res" "pred_option bn_ok rem" "bn_ok numerator" "bn_ok divisor"
    and nz: "bn_abs divisor \<noteq> 0" and xs: "{tmp, snum, sdiv, res} \<union> set_option rem \<subseteq> set xs"
  shows "div_outcome m alias xs rem numerator divisor (BN_div_with m alias tmp snum sdiv res rem numerator divisor)"
proof -
  define s where "s = 64 - num_bits (bn_abs divisor) mod 64"
  have shift: "BN_BITS2 - BN_num_bits divisor mod BN_BITS2 = s" "BN_BITS2 = 64" by (simp_all add: s_def BN_num_bits_spec [OF ok(7)] BN_BITS2_def)
  have s: "s \<le> 64" by (simp add: s_def)
  note code = BN_div_with_def [of m "alias" tmp snum sdiv res rem numerator divisor, unfolded Let_def shift(1), unfolded shift(2)]
  let ?fail = "div_outcome m alias xs rem numerator divisor (Some (False, res, rem))"
  obtain b1 sd0 where e1: "BN_lshift m sdiv divisor (int s) = (b1, sd0)" by fastforce
  show ?thesis
  proof (cases b1)
    case False
    then have "bn_full m sdiv (bn_width divisor + s div 64 + 1)" using BN_lshift_spec [OF ok(3,7) e1] by simp
    then have ?fail by (rule div_outcome_fail) (use s xs in auto)
    then show ?thesis unfolding code e1 using False by simp
  next
    case True
    have e1: "BN_lshift m sdiv divisor (int s) = (True, sd0)" using e1 True by simp
    define sd where "sd = (bn_set_minimal_width sd0)\<lparr>bn_neg := False\<rparr>"
    note sd0 = BN_lshift_abs [OF ok(3,7) e1]
    note sd = set_minimal_positive [OF sd0(1), folded sd_def]
    have sdw: "bn_width sd \<le> bn_width divisor + 1"
      unfolding sd(3) using shift_bound [OF bn_abs_less [OF ok(7)], of s 1] s by (intro minimal_width_le sd0(1)) (simp add: sd0(2))
    obtain b2 sn0 where e2: "BN_lshift m snum numerator (int (s + 64)) = (b2, sn0)" by fastforce
    show ?thesis
    proof (cases b2)
      case False
      then have "bn_full m snum (bn_width numerator + (s + 64) div 64 + 1)" using BN_lshift_spec [OF ok(2,6) e2] by simp
      then have ?fail by (rule div_outcome_fail) (use s xs in auto)
      then show ?thesis unfolding code e1 prod.case e2 using False by simp
    next
      case True
      have e2: "BN_lshift m snum numerator (int (s + 64)) = (True, sn0)" using e2 True by simp
      define sn where "sn = (bn_set_minimal_width sn0)\<lparr>bn_neg := False\<rparr>"
      note sn0 = BN_lshift_abs [OF ok(2,6) e2]
      note sn = set_minimal_positive [OF sn0(1), folded sn_def]
      have snw: "bn_width sn \<le> bn_width numerator + 2"
        unfolding sn(3) using shift_bound [OF bn_abs_less [OF ok(6)], of "s + 64" 2] s by (intro minimal_width_le sn0(1)) (simp add: sn0(2))
      have flags: "bn_flags sn = bn_flags snum" by (simp add: sn_def minimal_width_flags sn0(3))
      define w where "w = (if bn_width sn \<le> bn_width sd + 1 then bn_width sd + 2 else bn_width sn + 1)"
      have wb: "w \<le> bn_width numerator + bn_width divisor + 4" "bn_width sd + 2 \<le> w" using snw sdw by (simp_all add: w_def)
      obtain b3 sp where e3: "pad_numerator m sn sd = (b3, sp)" by fastforce
      note pad = pad_numerator_spec [OF sn(1) e3, folded w_def]
      show ?thesis
      proof (cases b3)
        case False
        then have "bn_full m sn w" using pad by simp
        then have ?fail by (rule div_outcome_fail) (use wb(1) flags xs in auto)
        then show ?thesis unfolding code e1 prod.case e2 using False e3 by (simp add: sd_def sn_def)
      next
        case True
        then have p: "bn_ok sp" "bn_abs sp = bn_abs numerator * 2 ^ (s + 64)" "\<not> bn_neg sp" "bn_width sp = w" "bn_d sp ! (w - 1) = 0"
          using pad sn(2) sn0(2) by (simp_all add: sn_def)
        have "div_outcome m alias xs rem numerator divisor (div_shifted m alias tmp sp sd (s + 64) res rem numerator divisor)"
          by (rule div_shifted_spec [OF ok(1,4,5) sd(1)]) (use sd sd0(2) s_def nz p wb sdw xs in auto)
        then show ?thesis unfolding code e1 prod.case e2 using True e3 by (simp add: sd_def sn_def)
      qed
    qed
  qed
qed

text \<open>
  \<open>BN_div\<close> returns. When it succeeds, the results are those of \<open>div_quotient\<close> and \<open>div_remainder\<close>; it fails only for a zero divisor
  or when an object cannot be had or cannot grow.
\<close>

lemma BN_div_spec:
  assumes ok: "ctx_ok ctx" "pred_option bn_ok quo" "pred_option bn_ok rem" "bn_ok numerator" "bn_ok divisor"
  shows "\<exists>ok q r. BN_div m ctx alias quo rem numerator divisor = Some (ok, q, r) \<and>
    (if ok then bn_abs divisor \<noteq> 0 \<and> rel_option (\<lambda>_. div_quotient numerator divisor) quo q \<and> rel_option (\<lambda>_. div_remainder alias numerator divisor) rem r
     else bn_abs divisor = 0 \<or> (\<exists>i. ctx i = None) \<or>
       (\<exists>a b c d. ctx 0 = Some a \<and> ctx 1 = Some b \<and> ctx 2 = Some c \<and> (ctx 3 = Some d \<or> quo = Some d) \<and>
          cannot_grow m ([a, b, c, d] @ (case rem of None \<Rightarrow> [] | Some r \<Rightarrow> [r])) (bn_width numerator + bn_width divisor + 4)))"
proof -
  have min: "\<not> (0 < bn_minimal_width x \<and> bn_d x ! (bn_minimal_width x - 1) = 0)" if "bn_ok x" for x
    using minimal_limbs(4) [OF that] by blast
  have code: "BN_div m ctx alias quo rem numerator divisor =
      (if BN_is_zero divisor then Some (False, quo, rem)
       else
        case (ctx 0, ctx 1, ctx 2, case quo of None \<Rightarrow> ctx 3 | Some res \<Rightarrow> Some res) of
          (Some tmp, Some snum, Some sdiv, Some res) \<Rightarrow>
            map_option (\<lambda>(ok, res, rem). (ok, map_option (\<lambda>_. res) quo, rem))
              (BN_div_with m alias tmp snum sdiv res rem numerator divisor)
        | _ \<Rightarrow> Some (False, quo, rem))"
    unfolding BN_div_def Let_def using min [OF ok(4)] min [OF ok(5)] by (subst if_not_P) blast+
  show ?thesis
  proof (cases "bn_abs divisor = 0")
    case True
    then show ?thesis unfolding code by (auto simp: BN_is_zero_spec [OF ok(5)])
  next
    case nz: False
    have zero: "BN_is_zero divisor = False" using nz by (simp add: BN_is_zero_spec [OF ok(5)])
    show ?thesis
    proof (cases "\<exists>a b c d. ctx 0 = Some a \<and> ctx 1 = Some b \<and> ctx 2 = Some c \<and> (case quo of None \<Rightarrow> ctx 3 | Some res \<Rightarrow> Some res) = Some d")
      case False
      have "\<exists>i. ctx i = None"
      proof (rule ccontr)
        assume "\<nexists>i. ctx i = None"
        then have "\<exists>x. ctx i = Some x" for i by simp
        then obtain a b c d where "ctx 0 = Some a" "ctx 1 = Some b" "ctx 2 = Some c" "ctx 3 = Some d" by meson
        then show False using False by (cases quo) auto
      qed
      moreover have "BN_div m ctx alias quo rem numerator divisor = Some (False, quo, rem)"
        unfolding code zero using False by (auto split: option.splits)
      ultimately show ?thesis by auto
    next
      case True
      then obtain a b c d where o: "ctx 0 = Some a" "ctx 1 = Some b" "ctx 2 = Some c" "(case quo of None \<Rightarrow> ctx 3 | Some res \<Rightarrow> Some res) = Some d" by blast
      define xs where "xs = [a, b, c, d] @ (case rem of None \<Rightarrow> [] | Some r \<Rightarrow> [r])"
      have "bn_ok a" "bn_ok b" "bn_ok c" "bn_ok d" using o ok(1,2) by (auto simp: ctx_ok_def split: option.splits)
      then have "div_outcome m alias xs rem numerator divisor (BN_div_with m alias a b c d rem numerator divisor)"
        using ok nz by (intro BN_div_with_spec) (auto simp: xs_def split: option.splits)
      then obtain k q r where r: "BN_div_with m alias a b c d rem numerator divisor = Some (k, q, r)"
        "if k then div_quotient numerator divisor q \<and> rel_option (\<lambda>_. div_remainder alias numerator divisor) rem r
         else cannot_grow m xs (bn_width numerator + bn_width divisor + 4)" unfolding div_outcome_def by blast
      have "BN_div m ctx alias quo rem numerator divisor = Some (k, map_option (\<lambda>_. q) quo, r)"
        unfolding code using o r(1) by (simp add: zero)
      moreover have "ctx 3 = Some d \<or> quo = Some d" using o(4) by (cases quo) simp_all
      ultimately show ?thesis using r(2) nz o(1-3) unfolding xs_def by (cases k; cases quo) auto
    qed
  qed
qed

text \<open>The results as integers.\<close>

lemma div_quotient_val:
  "div_quotient n d q \<Longrightarrow> bn_val q = (if bn_neg n = bn_neg d then int (bn_abs n div bn_abs d) else - int (bn_abs n div bn_abs d))"
  by (auto simp: div_quotient_def bn_val_def)

lemma div_remainder_val:
  "div_remainder alias n d r \<Longrightarrow> bn_val r =
    (if (if alias then bn_neg n = bn_neg d else \<not> bn_neg n) then int (bn_abs n mod bn_abs d) else - int (bn_abs n mod bn_abs d))"
  by (auto simp: div_remainder_def bn_val_def)

lemma div_results_val:
  assumes "div_quotient n d q" "div_remainder alias n d r"
  shows "bn_val n = bn_val q * bn_val d + (if alias \<and> bn_neg d then - bn_val r else bn_val r)"
proof -
  have "int (bn_abs n) = int (bn_abs n div bn_abs d) * int (bn_abs d) + int (bn_abs n mod bn_abs d)"
    by (metis div_mult_mod_eq of_nat_add of_nat_mult)
  then show ?thesis
    unfolding div_quotient_val [OF assms(1)] div_remainder_val [OF assms(2)]
    by (cases "bn_neg n"; cases "bn_neg d") (simp_all add: bn_val_def)
qed

lemma div_remainder_sign:
  assumes "div_remainder alias n d r"
  shows "\<bar>bn_val r\<bar> = \<bar>bn_val n\<bar> mod \<bar>bn_val d\<bar>" "bn_val r \<noteq> 0 \<longrightarrow> sgn (bn_val r) = sgn (bn_val n) * (if alias \<and> bn_neg d then - 1 else 1)"
proof -
  show "\<bar>bn_val r\<bar> = \<bar>bn_val n\<bar> mod \<bar>bn_val d\<bar>"
    using assms by (simp add: div_remainder_def flip: bn_abs_val) (simp add: zmod_int)
  have "bn_abs r = bn_abs n mod bn_abs d" using assms by (simp add: div_remainder_def)
  then have "0 < bn_abs r \<longrightarrow> 0 < bn_abs n" by (cases "bn_abs n") simp_all
  then show "bn_val r \<noteq> 0 \<longrightarrow> sgn (bn_val r) = sgn (bn_val n) * (if alias \<and> bn_neg d then - 1 else 1)"
    using assms by (auto simp: div_remainder_def bn_val_def simp del: mod_greater_zero_iff_not_dvd)
qed

end
