(* ===== verification/Bn_Reduce.thy ===== *)
theory Bn_Reduce
  imports Bn_Div
begin

text \<open>
  The word functions of \<^verbatim>\<open>crypto/fipsmodule/bn/div.c\<close> which reduce a sum or a difference, the remainders by a word, those by a
  power of two, and \<^verbatim>\<open>crypto/fipsmodule/bn/div_extra.c\<close>: the remainder by a 16-bit number without a division by it.
\<close>

section \<open>Code: reductions\<close>

text \<open>The array and the carry. The second array is the one selected when the difference is negative.\<close>

definition bn_reduce_once :: "limb list \<Rightarrow> limb \<Rightarrow> limb list \<Rightarrow> nat \<Rightarrow> limb list \<times> limb" where
  "bn_reduce_once a carry m num =
     (case bn_sub_words a m num of (r, borrow) \<Rightarrow> let carry = carry - borrow in (bn_select_words carry a r num, carry))"

definition bn_reduce_once_in_place :: "limb list \<Rightarrow> limb \<Rightarrow> limb list \<Rightarrow> nat \<Rightarrow> limb list \<times> limb" where
  "bn_reduce_once_in_place r carry m num =
     (case bn_sub_words r m num of (tmp, borrow) \<Rightarrow> let carry = carry - borrow in (bn_select_words carry r tmp num, carry))"

definition bn_mod_sub_words :: "limb list \<Rightarrow> limb list \<Rightarrow> limb list \<Rightarrow> nat \<Rightarrow> limb list" where
  "bn_mod_sub_words a b m num =
     (case bn_sub_words a b num of (r, borrow) \<Rightarrow>
        case bn_add_words r m num of (tmp, _) \<Rightarrow> bn_select_words (0 - borrow) tmp r num)"

definition bn_mod_add_words :: "limb list \<Rightarrow> limb list \<Rightarrow> limb list \<Rightarrow> nat \<Rightarrow> limb list" where
  "bn_mod_add_words a b m num =
     (case bn_add_words a b num of (r, carry) \<Rightarrow> fst (bn_reduce_once_in_place r carry m num))"

section \<open>Code: words\<close>

text \<open>The rounds of \<open>BN_div_word\<close> and of \<open>BN_mod_word\<close>, from the highest limb on.\<close>

fun div_word_loop :: "limb \<Rightarrow> limb \<Rightarrow> limb list \<Rightarrow> limb list \<times> limb" where
  "div_word_loop w ret [] = ([], ret)"
| "div_word_loop w ret (l # ls) =
     (let d = fst (bn_div_rem_words ret l w) in case div_word_loop w (l - d * w) ls of (ds, ret) \<Rightarrow> (d # ds, ret))"

definition BN_div_word :: "allocator \<Rightarrow> bignum \<Rightarrow> limb \<Rightarrow> limb \<times> bignum" where
  "BN_div_word m a w =
     (if w = 0 then (BN_MASK2, a)
      else if bn_width a = 0 then (0, a)
      else
        let j = BN_BITS2 - BN_num_bits_word w; w = push_bit j w in
        case BN_lshift m a a (int j) of
          (ok, a) \<Rightarrow>
            if \<not> ok then (BN_MASK2, a)
            else
              case div_word_loop w 0 (rev (take (bn_width a) (bn_d a))) of
                (ds, ret) \<Rightarrow> (drop_bit j ret, bn_set_minimal_width (a\<lparr>bn_d := rev ds @ drop (bn_width a) (bn_d a)\<rparr>)))"

definition mod_word_step :: "limb \<Rightarrow> u128 \<Rightarrow> limb \<Rightarrow> u128" where
  "mod_word_step w ret l = (push_bit BN_BITS2 ret OR ucast l) mod ucast w"

definition BN_mod_word :: "bignum \<Rightarrow> limb \<Rightarrow> limb" where
  "BN_mod_word a w =
     (if w = 0 then BN_MASK2 else ucast (foldl (mod_word_step w) 0 (rev (take (bn_width a) (bn_d a)))))"

section \<open>Code: remainders by 16-bit numbers\<close>

definition mod_u16 :: "u32 \<Rightarrow> u16 \<Rightarrow> u32 \<Rightarrow> u32 \<Rightarrow> u16" where
  "mod_u16 n d p m =
     (let q = ucast (drop_bit 32 (ucast m * ucast n :: u64)) :: u32;
          t = drop_bit 1 (n - q) + q;
          t = drop_bit (unat (p - 1)) t
      in ucast (n - ucast d * t))"

definition shift_and_add_mod_u16 :: "u16 \<Rightarrow> u32 \<Rightarrow> u16 \<Rightarrow> u32 \<Rightarrow> u32 \<Rightarrow> u16" where
  "shift_and_add_mod_u16 r a d p m =
     (let t = push_bit 16 (ucast r) OR drop_bit 16 a :: u32;
          t = ucast (mod_u16 t d p m) :: u32;
          t = push_bit 16 t OR (a AND 0xffff)
      in mod_u16 t d p m)"

definition mod_u16_step :: "u16 \<Rightarrow> u32 \<Rightarrow> u32 \<Rightarrow> u16 \<Rightarrow> limb \<Rightarrow> u16" where
  "mod_u16_step d p m ret l =
     (let ret = shift_and_add_mod_u16 ret (ucast (drop_bit 32 l)) d p m
      in shift_and_add_mod_u16 ret (ucast (l AND 0xffffffff)) d p m)"

definition bn_mod_u16_consttime :: "bignum \<Rightarrow> u16 \<Rightarrow> u16" where
  "bn_mod_u16_consttime bn d =
     (if d \<le> 1 then 0
      else
        let p = word_of_nat (BN_num_bits_word (ucast (d - 1))) :: u32;
            m = ucast ((push_bit (unat (32 + p)) 1 + ucast d - 1) div ucast d :: u64) :: u32
        in foldl (mod_u16_step d p m) 0 (rev (take (bn_width bn) (bn_d bn))))"

section \<open>Code: powers of two\<close>

text \<open>The bits of the top limb from \<open>e\<close> on are cleared.\<close>

definition mask_top_word :: "nat \<Rightarrow> nat \<Rightarrow> limb list \<Rightarrow> limb list" where
  "mask_top_word e num_words d =
     (let top_word_exponent = e mod BN_BITS2 in
      if top_word_exponent \<noteq> 0 then d[num_words - 1 := d ! (num_words - 1) AND (push_bit top_word_exponent 1 - 1)] else d)"

definition BN_mod_pow2 :: "allocator \<Rightarrow> bignum \<Rightarrow> bignum \<Rightarrow> nat \<Rightarrow> bool \<times> bignum" where
  "BN_mod_pow2 m r a e =
     (if e = 0 \<or> bn_width a = 0 then (True, BN_zero r)
      else
        let num_words = 1 + (e - 1) div BN_BITS2 in
        if bn_width a < num_words then BN_copy m r a
        else
          case bn_wexpand m r num_words of
            (ok, r) \<Rightarrow>
              if \<not> ok then (False, r)
              else
                (True, bn_set_minimal_width
                   (r\<lparr>bn_d := mask_top_word e num_words (copy_limbs (bn_d r) (bn_d a) num_words), bn_neg := bn_neg a, bn_width := num_words\<rparr>)))"

definition BN_nnmod_pow2 :: "allocator \<Rightarrow> bignum \<Rightarrow> bignum \<Rightarrow> nat \<Rightarrow> bool \<times> bignum" where
  "BN_nnmod_pow2 m r a e =
     (case BN_mod_pow2 m r a e of
        (ok, r) \<Rightarrow>
          if \<not> ok then (False, r)
          else if BN_is_zero r \<or> \<not> bn_neg r then (True, r)
          else
            let num_words = 1 + (e - 1) div BN_BITS2 in
            case bn_wexpand m r num_words of
              (ok, r) \<Rightarrow>
                if \<not> ok then (False, r)
                else
                  let d = take (bn_width r) (bn_d r) @ replicate (num_words - bn_width r) 0 @ drop num_words (bn_d r);
                      d = map NOT (take num_words d) @ drop num_words d;
                      r = bn_set_minimal_width (r\<lparr>bn_d := mask_top_word e num_words d, bn_neg := False, bn_width := num_words\<rparr>)
                  in BN_add m r r BN_value_one)"

section \<open>Reductions\<close>

lemma length_bn_select_words [simp]: "length (bn_select_words c a b n) = n"
  by (simp add: bn_select_words_def)

lemma split_unique:
  fixes x y n i j :: nat
  assumes "x + n * i = y + n * j" "x < n" "y < n"
  shows "x = y" "i = j"
proof -
  have "(x + n * i) mod n = (y + n * j) mod n" using assms(1) by simp
  then show "x = y" using assms(2,3) by simp
  then have "n * i = n * j" using assms(1) by simp
  then show "i = j" using assms(2) by simp
qed

lemma borrow_mask: "(0 :: limb) - 1 = ct_mask True" "(0 :: limb) = ct_mask False"
  by (simp_all add: ct_mask_def)

lemma bn_reduce_once_spec:
  assumes len: "num \<le> length a" "num \<le> length m" and A: "A = wval (take num a) + BN_BASE ^ num * unat carry"
    and less: "A < 2 * wval (take num m)"
  obtains r c where "bn_reduce_once a carry m num = (r, c)" "length r = num" "wval r = A mod wval (take num m)" "c = ct_mask (A < wval (take num m))"
proof -
  define M where "M = wval (take num m)"
  have M: "M < BN_BASE ^ num" "wval (take num a) < BN_BASE ^ num"
    using wval_less [of "take num m"] wval_less [of "take num a"] len by (simp_all add: M_def min_absorb2)
  obtain r b where r: "bn_sub_words a m num = (r, b)" "length r = num" "b = 0 \<or> b = 1" "wval r + M = wval (take num a) + BN_BASE ^ num * unat b"
    unfolding M_def by (rule bn_sub_words_spec [OF len])
  have rl: "wval r < BN_BASE ^ num" using wval_less [of r] r(2) by simp
  show thesis
  proof (cases "A < M")
    case True
    then have c: "carry = 0" using M(1) A by (cases "unat carry") (simp_all add: unat_eq_zero)
    then have "b \<noteq> 0" using True A r(4) by (intro notI) simp
    then have "b = 1" using r(3) by simp
    then have "bn_reduce_once a carry m num = (take num a, ct_mask True)"
      unfolding bn_reduce_once_def r(1) prod.case Let_def c \<open>b = 1\<close> borrow_mask(1) using r(2) len by (simp add: bn_select_words_spec)
    moreover have "wval (take num a) = A mod M" using True A c by simp
    ultimately show ?thesis using True len by (intro that) (simp_all add: M_def min_absorb2)
  next
    case False
    then have "A mod M = A - M" using less by (simp add: M_def mod_if)
    have "wval r + BN_BASE ^ num * unat carry = (A - M) + BN_BASE ^ num * unat b" using r(4) A False by simp
    moreover have "A - M < BN_BASE ^ num" using less M(1) by (simp add: M_def)
    ultimately have eq: "wval r = A - M" "unat carry = unat b" using rl split_unique [of "wval r" "BN_BASE ^ num" "unat carry" "A - M" "unat b"] by blast+
    then have "carry = b" by (simp add: word_unat_eq_iff)
    then have "carry - b = ct_mask False" by (simp add: ct_mask_def)
    then have "bn_reduce_once a carry m num = (r, ct_mask False)" using r(1,2) len by (simp add: bn_reduce_once_def bn_select_words_spec)
    then show ?thesis using False r(2) eq(1) \<open>A mod M = A - M\<close> by (intro that) (simp_all add: M_def)
  qed
qed

lemma bn_reduce_once_in_place_eq: "bn_reduce_once_in_place = bn_reduce_once"
  by (simp add: fun_eq_iff bn_reduce_once_in_place_def bn_reduce_once_def)

lemma bn_mod_add_words_spec:
  assumes "num \<le> length a" "num \<le> length b" "num \<le> length m"
    "wval (take num a) < wval (take num m)" "wval (take num b) < wval (take num m)"
  shows "length (bn_mod_add_words a b m num) = num \<and>
    wval (bn_mod_add_words a b m num) = (wval (take num a) + wval (take num b)) mod wval (take num m)"
proof -
  obtain r c where r: "bn_add_words a b num = (r, c)" "length r = num" "wval r + BN_BASE ^ num * unat c = wval (take num a) + wval (take num b)"
    by (rule bn_add_words_spec [OF assms(1,2)])
  have "wval (take num a) + wval (take num b) = wval (take num r) + BN_BASE ^ num * unat c" using r(2,3) by simp
  then obtain s k where "bn_reduce_once r c m num = (s, k)" "length s = num" "wval s = (wval (take num a) + wval (take num b)) mod wval (take num m)"
    by (rule bn_reduce_once_spec [OF _ assms(3), rotated]) (use assms(4,5) r(2) in auto)
  then show ?thesis using r(1) by (simp add: bn_mod_add_words_def bn_reduce_once_in_place_eq)
qed

lemma bn_mod_sub_words_spec:
  assumes len: "num \<le> length a" "num \<le> length b" "num \<le> length m"
    and less: "wval (take num a) < wval (take num m)" "wval (take num b) < wval (take num m)"
  shows "length (bn_mod_sub_words a b m num) = num \<and>
    int (wval (bn_mod_sub_words a b m num)) = (int (wval (take num a)) - int (wval (take num b))) mod int (wval (take num m))"
proof -
  define A B M N where "A = wval (take num a)" and "B = wval (take num b)" and "M = wval (take num m)" and "N = BN_BASE ^ num"
  note less = less [folded A_def B_def M_def]
  have MN: "M < N" using wval_less [of "take num m"] len(3) by (simp add: M_def N_def min_absorb2)
  obtain r c where r: "bn_sub_words a b num = (r, c)" "length r = num" "c = 0 \<or> c = 1" "wval r + B = A + N * unat c"
    unfolding A_def B_def N_def by (rule bn_sub_words_spec [OF len(1,2)])
  have "num \<le> length r" using r(2) by simp
  then obtain t k where t: "bn_add_words r m num = (t, k)" "length t = num" "wval t + N * unat k = wval (take num r) + M"
    unfolding M_def N_def by (rule bn_add_words_spec [OF _ len(3)])
  have rN: "wval r < N" "wval t < N" using wval_less [of r] wval_less [of t] r(2) t(2) by (simp_all add: N_def)
  show ?thesis
  proof (cases "c = 0")
    case True
    then have "bn_mod_sub_words a b m num = r"
      using r(1,2) t(1,2) bn_select_words_spec [of num t r False] by (simp add: bn_mod_sub_words_def ct_mask_def)
    moreover have "int (wval r) = (int A - int B) mod int M" using r(4) True less by simp
    ultimately show ?thesis using r(2) by (simp add: A_def B_def M_def)
  next
    case False
    then have c: "c = 1" using r(3) by simp
    have AB: "A < B" using r(4) rN(1) c by simp
    have "wval t + N * unat k = (A + M - B) + N * 1" using t(3) r(2,4) c less by simp
    then have "wval t = A + M - B" by (rule split_unique(1)) (use rN(2) AB less MN in auto)
    then have "int (wval t) = int A - int B + int M" using less by simp
    moreover have "(int A - int B) mod int M = (int A - int B + int M) mod int M" by simp
    moreover have "(int A - int B + int M) mod int M = int A - int B + int M" by (rule mod_pos_pos_trivial) (use less AB in auto)
    moreover have "bn_mod_sub_words a b m num = t"
      using r(1,2) t(1,2) c bn_select_words_spec [of num t r True] by (simp add: bn_mod_sub_words_def ct_mask_def)
    ultimately show ?thesis using t(2) by (simp add: A_def B_def M_def)
  qed
qed

section \<open>Remainders by words\<close>

lemma div_word_loop_spec:
  assumes "ret < w"
  shows "\<exists>ds r. div_word_loop w ret ls = (ds, r) \<and> length ds = length ls \<and> r < w \<and>
    unat ret * BN_BASE ^ length ls + wval (rev ls) = wval (rev ds) * unat w + unat r"
  using assms
proof (induction ls arbitrary: ret)
  case Nil
  then show ?case by simp
next
  case (Cons l ls)
  define n where "n = unat ret * BN_BASE + unat l"
  obtain d rm where d: "bn_div_rem_words ret l w = (d, rm)" "unat d = n div unat w" "unat rm = n mod unat w"
    unfolding n_def by (rule bn_div_rem_words_spec [OF Cons.prems])
  have rm: "rm = l - d * w" using d(1) by (auto simp: bn_div_rem_words_def Let_def)
  have w: "0 < unat w" using Cons.prems by (simp add: word_less_nat_alt)
  then have "rm < w" using d(3) by (simp add: word_less_nat_alt)
  from Cons.IH [OF this] obtain ds r where ih: "div_word_loop w rm ls = (ds, r)" "length ds = length ls" "r < w"
    "unat rm * BN_BASE ^ length ls + wval (rev ls) = wval (rev ds) * unat w + unat r" by blast
  have "n = unat d * unat w + unat rm" by (simp add: d(2,3))
  have "unat ret * BN_BASE ^ length (l # ls) + wval (rev (l # ls)) = n * BN_BASE ^ length ls + wval (rev ls)"
    by (simp add: wval_snoc n_def algebra_simps)
  also have "\<dots> = unat d * unat w * BN_BASE ^ length ls + (unat rm * BN_BASE ^ length ls + wval (rev ls))"
    unfolding \<open>n = unat d * unat w + unat rm\<close> by (simp add: algebra_simps)
  also have "\<dots> = wval (rev (d # ds)) * unat w + unat r"
    unfolding ih(4) using ih(2) by (simp add: wval_snoc algebra_simps)
  finally have "unat ret * BN_BASE ^ length (l # ls) + wval (rev (l # ls)) = wval (rev (d # ds)) * unat w + unat r" .
  then show ?case using ih d(1) rm by simp
qed

lemma mod_word_loop_spec:
  assumes "0 < w"
  shows "unat (foldl (mod_word_step w) (ucast (r :: limb)) ls) = (if ls = [] then unat r else (unat r * BN_BASE ^ length ls + wval (rev ls)) mod unat w)"
proof (induction ls arbitrary: r)
  case (Cons l ls)
  define n where "n = unat r * BN_BASE + unat l"
  have w: "0 < unat w" using assms by (simp add: word_less_nat_alt)
  have step: "unat (mod_word_step w (ucast r) l) = n mod unat w"
    by (simp add: mod_word_step_def unat_mod_distrib unat_two_words n_def)
  have less: "n mod unat w < BN_BASE" by (rule less_trans [OF mod_less_divisor [OF w] limb_less])
  define r' :: limb where "r' = word_of_nat (n mod unat w)"
  have r': "unat r' = n mod unat w" using less by (simp add: r'_def unat_of_nat_limb)
  have "mod_word_step w (ucast r) l = ucast r'" by (rule word_nat_eqI) (simp add: step r')
  then have "unat (foldl (mod_word_step w) (ucast r) (l # ls)) = (if ls = [] then unat r' else (unat r' * BN_BASE ^ length ls + wval (rev ls)) mod unat w)"
    using Cons.IH [of r'] by simp
  also have "\<dots> = (n * BN_BASE ^ length ls + wval (rev ls)) mod unat w"
    unfolding r' by (cases "ls = []") (simp, metis mod_add_left_eq mod_mult_left_eq)
  also have "n * BN_BASE ^ length ls + wval (rev ls) = unat r * BN_BASE ^ length (l # ls) + wval (rev (l # ls))"
    by (simp add: n_def wval_snoc algebra_simps)
  finally show ?case by simp
qed simp

lemma BN_mod_word_spec:
  assumes "bn_ok a"
  shows "BN_mod_word a w = (if w = 0 then BN_MASK2 else word_of_nat (bn_abs a mod unat w))"
proof (cases "w = 0")
  case False
  then have w: "0 < w" "0 < unat w" by (simp_all add: word_neq_0_conv unat_gt_0)
  define x where "x = foldl (mod_word_step w) 0 (rev (take (bn_width a) (bn_d a)))"
  have "unat x = bn_abs a mod unat w"
    using mod_word_loop_spec [OF w(1), of 0 "rev (take (bn_width a) (bn_d a))"]
    by (auto simp: x_def bn_abs_def bn_limbs_def split: if_splits)
  moreover have "bn_abs a mod unat w < BN_BASE" by (rule less_trans [OF mod_less_divisor [OF w(2)] limb_less])
  ultimately have "ucast x = (word_of_nat (bn_abs a mod unat w) :: limb)"
    by (intro word_nat_eqI) (simp add: unat_of_nat_limb unsigned_ucast_eq take_bit_eq_mod BN_BASE_def)
  then show ?thesis using False by (simp add: BN_mod_word_def x_def)
qed (simp add: BN_mod_word_def)

lemma normalised_word:
  assumes "w \<noteq> 0"
  shows "unat (push_bit (BN_BITS2 - BN_num_bits_word w) w) = unat w * 2 ^ (64 - num_bits (unat w))" "64 - num_bits (unat w) < 64"
proof -
  define k where "k = num_bits (unat w)"
  have "unat w < 2 ^ 64" using limb_less [of w] by (simp add: BN_BASE_def del: limb_less)
  then have k: "k \<le> 64" "unat w < 2 ^ k" using num_bits_le [of "unat w"] unfolding k_def by blast+
  have "k \<noteq> 0" using assms by (simp add: k_def num_bits_eq_0 unat_eq_zero)
  then show "64 - num_bits (unat w) < 64" by (simp add: k_def)
  have "unat w * 2 ^ (64 - k) < 2 ^ k * 2 ^ (64 - k)" using k(2) by simp
  also have "\<dots> = 2 ^ 64" using k(1) by (simp flip: power_add)
  finally have "unat w * 2 ^ (64 - k) mod 2 ^ 64 = unat w * 2 ^ (64 - k)" by simp
  then show "unat (push_bit (BN_BITS2 - BN_num_bits_word w) w) = unat w * 2 ^ (64 - num_bits (unat w))"
    by (simp only: BN_num_bits_word_spec BN_BITS2_def k_def unsigned_push_bit_eq) (simp add: take_bit_eq_mod push_bit_eq_mult)
qed

text \<open>The value for an error is not a remainder, so that the caller can tell.\<close>

lemma BN_div_word_spec:
  assumes a: "bn_ok a" and e: "BN_div_word m a w = (ret, a')"
  shows "if ret = BN_MASK2 then w = 0 \<or> bn_full m a (bn_width a + 1)
    else bn_ok a' \<and> bn_val a' = sgn (bn_val a) * (\<bar>bn_val a\<bar> div int (unat w)) \<and> unat ret = bn_abs a mod unat w \<and> (bn_signed a \<longrightarrow> bn_signed a')"
proof (cases "w = 0 \<or> bn_width a = 0")
  case True
  then show ?thesis using e a by (auto simp: BN_div_word_def BN_MASK2_def bn_val_def bn_abs_def bn_limbs_def split: if_splits)
next
  case False
  define s where "s = 64 - num_bits (unat w)"
  obtain ok a1 where l: "BN_lshift m a a (int s) = (ok, a1)" by fastforce
  have sc: "BN_BITS2 - BN_num_bits_word w = s" by (simp add: s_def BN_num_bits_word_spec BN_BITS2_def)
  have w: "unat (push_bit s w) = unat w * 2 ^ s" "s < 64" "0 < unat w"
    using normalised_word [of w] False by (simp_all add: sc unat_gt_0 flip: s_def)
  show ?thesis
  proof (cases ok)
    case False
    then have "bn_full m a (bn_width a + 1)" using BN_lshift_spec [OF a a l] w(2) by simp
    moreover have "ret = BN_MASK2" using e l False \<open>\<not> (w = 0 \<or> bn_width a = 0)\<close> by (simp add: BN_div_word_def Let_def sc)
    ultimately show ?thesis by simp
  next
    case True
    then have l': "BN_lshift m a a (int s) = (True, a1)" using l by simp
    note a1 = BN_lshift_abs [OF a a l']
    have v1: "bn_val a1 = bn_val a * 2 ^ s" "bn_signed a1" using BN_lshift_spec [OF a a l'] by simp_all
    have "0 < push_bit s w" using w(1,3) by (simp add: word_less_nat_alt)
    from div_word_loop_spec [OF this, of "rev (take (bn_width a1) (bn_d a1))"] obtain ds r where
      d: "div_word_loop (push_bit s w) 0 (rev (take (bn_width a1) (bn_d a1))) = (ds, r)" "length ds = length (take (bn_width a1) (bn_d a1))"
      "r < push_bit s w" "bn_abs a1 = wval (rev ds) * unat (push_bit s w) + unat r"
      by (auto simp: bn_abs_def bn_limbs_def)
    have r: "unat r < unat w * 2 ^ s" using d(3) w(1) by (simp add: word_less_nat_alt)
    have len: "length (bn_d a1) = bn_dmax a1" "bn_width a1 \<le> bn_dmax a1" using a1(1) by (simp_all add: bn_ok_def)
    have eq: "bn_abs a * 2 ^ s = wval (rev ds) * (unat w * 2 ^ s) + unat r" using d(4) a1(2) w(1) by simp
    have q: "wval (rev ds) = bn_abs a div unat w"
    proof -
      have "bn_abs a * 2 ^ s div (unat w * 2 ^ s) = wval (rev ds)" unfolding eq using r by (intro div_nat_eqI) (simp_all add: algebra_simps)
      then show ?thesis by simp
    qed
    have "unat r = bn_abs a * 2 ^ s mod (unat w * 2 ^ s)" unfolding eq using r by (simp only: mod_mult_self3 mod_less)
    then have r2: "unat r = (bn_abs a mod unat w) * 2 ^ s" by (simp flip: mult_mod_left)
    have ret: "ret = drop_bit s r" "a' = bn_set_minimal_width (a1\<lparr>bn_d := rev ds @ drop (bn_width a1) (bn_d a1)\<rparr>)"
      using e l' d(1) False by (simp_all add: BN_div_word_def Let_def sc)
    have ur: "unat ret = bn_abs a mod unat w" by (simp only: ret(1) unat_drop_bit_eq) (simp add: drop_bit_eq_div r2)
    have "bn_abs a mod unat w < unat w" using w(3) by simp
    then have "ret \<noteq> BN_MASK2" using ur limb_le [of w] by (auto simp: BN_MASK2_def BN_BASE_def)
    moreover have st: "bn_ok (a1\<lparr>bn_d := rev ds @ drop (bn_width a1) (bn_d a1)\<rparr>)"
        "bn_abs (a1\<lparr>bn_d := rev ds @ drop (bn_width a1) (bn_d a1)\<rparr>) = wval (rev ds)"
      using store_limbs [OF a1(1), of "rev ds"] a1(1) d(2) len by (simp_all add: min_absorb2 bn_ok_def)
    note min = bn_set_minimal_width_spec [OF st(1), folded ret(2)]
    have neg: "bn_neg a1 \<longleftrightarrow> bn_val a < 0" using bn_signed_neg [OF v1(2)] by (simp add: v1(1) mult_less_0_iff)
    have "bn_val a' = sgn (bn_val a) * (\<bar>bn_val a\<bar> div int (unat w))"
    proof -
      have "bn_val a' = (if bn_neg a1 then - int (bn_abs a div unat w) else int (bn_abs a div unat w))"
        unfolding min(2) bn_val_def [of "a1\<lparr>bn_d := _\<rparr>"] st(2) q by simp
      moreover have "int (bn_abs a div unat w) = \<bar>bn_val a\<bar> div int (unat w)" by (simp add: zdiv_int bn_abs_val)
      ultimately show ?thesis unfolding neg by (cases "bn_val a = 0") (auto simp: sgn_if)
    qed
    ultimately show ?thesis using min(1,4) ur by simp
  qed
qed

section \<open>Remainders by 16-bit numbers\<close>

text \<open>The quotient by a number \<open>d\<close> of at most \<open>p\<close> bits, as a product with the rounded-up reciprocal.\<close>

lemma reciprocal_quotient:
  fixes d n N M :: nat
  assumes d: "0 < d" "d \<le> K" and n: "n < L" and N: "N = L * K" and M: "M = (N + d - 1) div d"
  shows "M * n div N = n div d"
proof -
  define e where "e = M * d - N"
  have Md: "N \<le> M * d" "M * d \<le> N + (d - 1)"
  proof -
    have "M * d + (N + d - 1) mod d = N + d - 1" by (simp add: M)
    moreover have "(N + d - 1) mod d \<le> d - 1" using d(1) by (simp add: Suc_leI less_Suc_eq_le [symmetric])
    ultimately show "N \<le> M * d" "M * d \<le> N + (d - 1)" using d(1) by linarith+
  qed
  have e: "M * d = N + e" "e < d" using Md d(1) by (simp_all add: e_def)
  have pos: "0 < N" using d n by (simp add: N)
  define q r where "q = n div d" and "r = n mod d"
  have nqr: "n = q * d + r" "r < d" using d(1) by (simp_all add: q_def r_def)
  have "M * n = N * q + (e * q + M * r)"
  proof -
    have "M * n = M * d * q + M * r" unfolding nqr(1) by (simp add: algebra_simps)
    then show ?thesis unfolding e(1) by (simp add: algebra_simps)
  qed
  moreover have "e * q + M * r < N"
  proof -
    have "d * (e * q + M * r) = e * n + N * r"
    proof -
      have "d * (e * q + M * r) = e * (q * d) + M * d * r" by (simp add: algebra_simps)
      also have "\<dots> = e * (q * d + r) + N * r" unfolding e(1) by (simp add: algebra_simps)
      finally show ?thesis unfolding nqr(1) .
    qed
    also have "e * n < N"
    proof -
      have "e * n \<le> K * n" using e(2) d(2) by (intro mult_le_mono1) simp
      also have "\<dots> < K * L" using n d by simp
      finally show ?thesis by (simp add: N mult.commute)
    qed
    then have "e * n + N * r < N + N * r" by simp
    also have "\<dots> \<le> d * N" using nqr(2) mult_le_mono1 [of "Suc r" d N] by (simp add: mult.commute)
    finally show ?thesis by simp
  qed
  ultimately have "M * n div N = q" using pos by simp
  then show ?thesis by (simp add: q_def)
qed

lemma reciprocal_bounds:
  fixes d p :: nat
  assumes "2 \<le> d" "d < 2 ^ 16" and p: "p = num_bits (d - 1)"
  shows "0 < p" "p \<le> 16" "d \<le> 2 ^ p" "2 ^ 32 \<le> (2 ^ (32 + p) + d - 1) div d" "(2 ^ (32 + p) + d - 1) div d < 2 ^ 33"
proof -
  have "d - 1 < 2 ^ 16" using assms(2) by simp
  then show p16: "p \<le> 16" unfolding p num_bits_le .
  show p0: "0 < p" using assms(1) by (simp add: p num_bits_eq_0 flip: neq0_conv)
  have dp: "d - 1 < 2 ^ p" using num_bits_le [of "d - 1" p] p by simp
  then show "d \<le> 2 ^ p" by simp
  have "\<not> num_bits (d - 1) \<le> p - 1" using p p0 by simp
  then have low: "2 ^ (p - 1) + 1 \<le> d" using assms(1) by (simp add: num_bits_le)
  show "2 ^ 32 \<le> (2 ^ (32 + p) + d - 1) div d"
  proof -
    have "2 ^ 32 * d \<le> 2 ^ 32 * 2 ^ p" using \<open>d \<le> 2 ^ p\<close> by (rule mult_le_mono2)
    then have "2 ^ 32 * d \<le> 2 ^ (32 + p) + d - 1" by (simp add: power_add)
    then show ?thesis using assms(1) by (simp add: less_eq_div_iff_mult_less_eq)
  qed
  show "(2 ^ (32 + p) + d - 1) div d < 2 ^ 33"
  proof -
    obtain k where k: "p = Suc k" using p0 by (cases p) simp_all
    have "(2 ^ k + 1) * (2 ^ 33 - 1) \<le> d * (2 ^ 33 - 1 :: nat)" using low k by (intro mult_le_mono1) simp
    moreover have "(2 ^ k + 1) * (2 ^ 33 - 1 :: nat) = 2 ^ (32 + p) + (2 ^ 33 - 1) - 2 ^ k" by (simp add: k power_add algebra_simps)
    moreover have "(2 :: nat) ^ k < 2 ^ 33 - 1"
      using power_increasing [of k 16 "2 :: nat"] p16 k by simp
    moreover have "d * 2 ^ 33 = d * (2 ^ 33 - 1) + d" by simp
    ultimately have "2 ^ (32 + p) + d - 1 < d * 2 ^ 33" by linarith
    then show ?thesis using assms(1) by (simp add: div_less_iff_less_mult mult.commute)
  qed
qed

lemma mod_u16_spec:
  assumes d: "2 \<le> unat d" and p: "unat p = num_bits (unat d - 1)"
    and m: "unat m = (2 ^ (32 + num_bits (unat d - 1)) + unat d - 1) div unat d - 2 ^ 32"
  shows "unat (mod_u16 n d p m) = unat n mod unat d"
proof -
  define D P M N where "D = unat d" and "P = num_bits (unat d - 1)" and "M = (2 ^ (32 + P) + D - 1) div D" and "N = unat n"
  have dl: "D < 2 ^ 16" unfolding D_def by (rule order.strict_trans2 [OF unsigned_less]) simp
  note b = reciprocal_bounds [OF d dl [unfolded D_def] refl, folded P_def, folded D_def, folded M_def]
  have nl: "N < 2 ^ 32" unfolding N_def by (rule order.strict_trans2 [OF unsigned_less]) simp
  have um: "unat m = M - 2 ^ 32" using m by (simp add: M_def D_def P_def)
  have quot: "M * N div 2 ^ (32 + P) = N div D"
    by (rule reciprocal_quotient [where K = "2 ^ P" and L = "2 ^ 32"]) (use b nl d in \<open>auto simp: M_def D_def power_add\<close>)
  define Q where "Q = (M - 2 ^ 32) * N div 2 ^ 32"
  have QN: "Q \<le> N" and Qsum: "Q + N = M * N div 2 ^ 32"
  proof -
    have "(M - 2 ^ 32) * N \<le> 2 ^ 32 * N" using b(5) by (intro mult_le_mono1) simp
    then show "Q \<le> N" unfolding Q_def by (metis div_le_mono nonzero_mult_div_cancel_left power_not_zero zero_neq_numeral)
    have "M * N = (M - 2 ^ 32) * N + 2 ^ 32 * N" using b(4) by (simp flip: distrib_right)
    then show "Q + N = M * N div 2 ^ 32" by (simp add: Q_def)
  qed
  define q t where "q = (ucast (drop_bit 32 (ucast m * ucast n :: u64)) :: u32)" and "t = drop_bit 1 (n - q) + q"
  have "unat (ucast m * ucast n :: u64) = (M - 2 ^ 32) * N"
  proof -
    have "(M - 2 ^ 32) * N < 2 ^ 32 * 2 ^ 32" using b(5) nl by (intro mult_strict_mono') simp_all
    moreover have "unat n < 18446744073709551616" by (rule less_trans [OF unat_u32_less]) simp
    then have "unat (ucast m :: u64) = M - 2 ^ 32" "unat (ucast n :: u64) = N"
      using b(5) by (simp_all add: unsigned_ucast_eq take_bit_eq_mod um N_def)
    ultimately show ?thesis by (simp add: unat_word_ariths)
  qed
  then have "unat (drop_bit 32 (ucast m * ucast n :: u64)) = Q" by (simp only: unat_drop_bit_eq) (simp add: drop_bit_eq_div Q_def)
  then have uq: "unat q = Q" using QN nl by (simp add: q_def unsigned_ucast_eq take_bit_eq_mod)
  have ut: "unat t = (Q + N) div 2"
  proof -
    have "unat (n - q) = N - Q" using QN by (simp add: unat_sub word_le_nat_alt uq N_def)
    then have "unat (drop_bit 1 (n - q)) = (N - Q) div 2" by (simp only: unat_drop_bit_eq) (simp add: drop_bit_eq_div)
    then have "unat t = ((N - Q) div 2 + Q) mod 2 ^ 32" by (simp add: t_def unat_word_ariths uq)
    moreover have "(N - Q) div 2 + Q = (Q + N) div 2" using QN by linarith
    ultimately show ?thesis using QN nl by simp
  qed
  have up: "unat (p - 1) = P - 1" using p b(1) by (simp add: P_def unat_sub word_le_nat_alt)
  have "unat (drop_bit (unat (p - 1)) t) = N div D"
  proof -
    have "unat (drop_bit (unat (p - 1)) t) = (Q + N) div 2 div 2 ^ (P - 1)" by (simp only: unat_drop_bit_eq up ut) (simp add: drop_bit_eq_div)
    also have "\<dots> = (Q + N) div 2 ^ P" using b(1) by (simp flip: div_mult2_eq power_Suc)
    also have "\<dots> = M * N div 2 ^ (32 + P)" by (simp add: Qsum power_add div_mult2_eq)
    finally show ?thesis unfolding quot .
  qed
  then have "unat (n - ucast d * drop_bit (unat (p - 1)) t) = N mod D"
  proof -
    assume u: "unat (drop_bit (unat (p - 1)) t) = N div D"
    have le: "D * (N div D) \<le> N" by simp
    have "unat (ucast d * drop_bit (unat (p - 1)) t) = D * (N div D)"
    proof -
      have "unat (ucast d :: u32) = D" using dl by (simp add: unsigned_ucast_eq take_bit_eq_mod D_def)
      moreover have "D * (N div D) < 2 ^ 32" using le nl by (rule le_less_trans)
      ultimately show ?thesis by (simp add: unat_word_ariths u)
    qed
    then have "unat (n - ucast d * drop_bit (unat (p - 1)) t) = N - D * (N div D)"
      using le by (simp add: unat_sub word_le_nat_alt N_def)
    then show ?thesis by (simp add: minus_mult_div_eq_mod)
  qed
  moreover have "N mod D < 2 ^ 16" by (rule less_trans [OF mod_less_divisor dl]) (use d in \<open>simp add: D_def\<close>)
  ultimately have "unat (ucast (n - ucast d * drop_bit (unat (p - 1)) t) :: u16) = N mod D"
    by (simp only: unsigned_ucast_eq take_bit_eq_mod) simp
  then show ?thesis by (simp add: mod_u16_def Let_def N_def D_def t_def q_def)
qed

lemma unat_halves: "unat (push_bit 16 (ucast r) OR ucast (x :: u16) :: u32) = unat (r :: u16) * 2 ^ 16 + unat x"
proof -
  have "(push_bit 16 (ucast r) :: u32) AND ucast x = 0"
    by (rule bit_word_eqI) (auto simp: bit_simps dest: bit_imp_le_length)
  then have "(push_bit 16 (ucast r) OR ucast x :: u32) = push_bit 16 (ucast r) + ucast x"
    by (simp add: disjunctive_add_eq_or)
  moreover have "unat (push_bit 16 (ucast r) :: u32) = unat r * 2 ^ 16"
  proof -
    have "unat r < 2 ^ 16" by (rule order.strict_trans2 [OF unsigned_less]) simp
    then show ?thesis by (simp only: unsigned_push_bit_eq unsigned_ucast_eq) (simp add: take_bit_eq_mod push_bit_eq_mult)
  qed
  moreover have "unat (ucast x :: u32) = unat x"
  proof -
    have "unat x < 2 ^ 16" by (rule order.strict_trans2 [OF unsigned_less]) simp
    then show ?thesis by (simp add: unsigned_ucast_eq take_bit_eq_mod)
  qed
  moreover have "unat r * 2 ^ 16 + unat x < 2 ^ 32"
  proof -
    have "unat r < 2 ^ 16" "unat x < 2 ^ 16" by (rule order.strict_trans2 [OF unsigned_less], simp)+
    then show ?thesis by simp
  qed
  ultimately show ?thesis by (simp add: unat_word_ariths)
qed

text \<open>What the step functions are given: the divisor with its reciprocal.\<close>

definition magic :: "u16 \<Rightarrow> u32 \<Rightarrow> u32 \<Rightarrow> bool" where
  "magic d p m \<longleftrightarrow> 2 \<le> unat d \<and> unat p = num_bits (unat d - 1) \<and>
     unat m = (2 ^ (32 + num_bits (unat d - 1)) + unat d - 1) div unat d - 2 ^ 32"

lemma shift_and_add_mod_u16_spec:
  assumes "magic d p m"
  shows "unat (shift_and_add_mod_u16 r a d p m) = (unat r * 2 ^ 32 + unat a) mod unat d"
proof -
  define hi lo :: u16 where "hi = ucast (drop_bit 16 a)" and "lo = ucast a"
  have mask: "a AND 0xffff = take_bit 16 a" by (simp add: take_bit_eq_mask mask_eq_exp_minus_1)
  have h: "drop_bit 16 a = ucast hi" "a AND 0xffff = ucast lo"
  proof -
    show "a AND 0xffff = ucast lo" unfolding mask by (auto intro!: bit_word_eqI simp: lo_def bit_simps)
    show "drop_bit 16 a = ucast hi"
    proof (rule bit_word_eqI)
      show "bit (drop_bit 16 a) n = bit (ucast hi :: u32) n" for n
        using bit_imp_le_length [of a "16 + n"] by (auto simp: hi_def bit_simps)
    qed
  qed
  have a: "unat a = unat hi * 2 ^ 16 + unat lo"
  proof -
    have "a = push_bit 16 (ucast hi) OR ucast lo" unfolding h [symmetric] mask
      by (rule bit_word_eqI) (auto simp: bit_simps)
    then show ?thesis using unat_halves [of hi lo] by simp
  qed
  define t where "t = mod_u16 (push_bit 16 (ucast r) OR ucast hi) d p m"
  have t: "unat t = (unat r * 2 ^ 16 + unat hi) mod unat d"
    using assms by (simp add: t_def magic_def mod_u16_spec unat_halves)
  have "unat (shift_and_add_mod_u16 r a d p m) = (unat t * 2 ^ 16 + unat lo) mod unat d"
    using assms by (simp add: shift_and_add_mod_u16_def h Let_def magic_def mod_u16_spec unat_halves flip: t_def)
  also have "\<dots> = ((unat r * 2 ^ 16 + unat hi) * 2 ^ 16 + unat lo) mod unat d"
    unfolding t by (metis mod_add_left_eq mod_mult_left_eq)
  finally show ?thesis by (simp add: a algebra_simps)
qed

lemma mod_u16_step_spec:
  assumes "magic d p m"
  shows "unat (mod_u16_step d p m r l) = (unat r * BN_BASE + unat l) mod unat d"
proof -
  define hi lo :: u32 where "hi = ucast (drop_bit 32 l)" and "lo = ucast (l AND 0xffffffff)"
  have l: "unat l = unat hi * 2 ^ 32 + unat lo"
  proof -
    have "unat hi = unat l div 2 ^ 32"
    proof -
      have "unat l div 2 ^ 32 < 2 ^ 32" using limb_less [of l] by (simp add: BN_BASE_def div_less_iff_less_mult del: limb_less)
      moreover have "unat (drop_bit 32 l) = unat l div 2 ^ 32" by (simp only: unat_drop_bit_eq) (simp add: drop_bit_eq_div)
      ultimately show ?thesis by (simp only: hi_def unsigned_ucast_eq take_bit_eq_mod) simp
    qed
    moreover have "unat lo = unat l mod 2 ^ 32"
    proof -
      have "l AND 0xffffffff = take_bit 32 l" by (simp add: take_bit_eq_mask mask_eq_exp_minus_1)
      then have "unat (l AND 0xffffffff) = unat l mod 2 ^ 32" by (simp only: unsigned_take_bit_eq) (simp add: take_bit_eq_mod)
      then show ?thesis by (simp only: lo_def unsigned_ucast_eq take_bit_eq_mod) simp
    qed
    ultimately show ?thesis by simp
  qed
  have "unat (mod_u16_step d p m r l) = ((unat r * 2 ^ 32 + unat hi) mod unat d * 2 ^ 32 + unat lo) mod unat d"
    by (simp only: mod_u16_step_def Let_def shift_and_add_mod_u16_spec [OF assms] hi_def lo_def)
  also have "\<dots> = ((unat r * 2 ^ 32 + unat hi) * 2 ^ 32 + unat lo) mod unat d" by (metis mod_add_left_eq mod_mult_left_eq)
  finally show ?thesis by (simp add: l BN_BASE_def algebra_simps)
qed

lemma mod_u16_loop_spec:
  assumes "magic d p m"
  shows "unat (foldl (mod_u16_step d p m) r ls) = (if ls = [] then unat r else (unat r * BN_BASE ^ length ls + wval (rev ls)) mod unat d)"
proof (induction ls arbitrary: r)
  case (Cons l ls)
  define n where "n = unat r * BN_BASE + unat l"
  have "unat (foldl (mod_u16_step d p m) r (l # ls)) = (n mod unat d * BN_BASE ^ length ls + wval (rev ls)) mod unat d"
    using Cons.IH [of "mod_u16_step d p m r l"] by (cases "ls = []") (simp_all add: mod_u16_step_spec [OF assms] n_def)
  also have "\<dots> = (n * BN_BASE ^ length ls + wval (rev ls)) mod unat d" by (metis mod_add_left_eq mod_mult_left_eq)
  also have "n * BN_BASE ^ length ls + wval (rev ls) = unat r * BN_BASE ^ length (l # ls) + wval (rev (l # ls))"
    by (simp add: n_def wval_snoc algebra_simps)
  finally show ?case by simp
qed simp

lemma bn_mod_u16_consttime_spec:
  assumes "bn_ok bn"
  shows "unat (bn_mod_u16_consttime bn d) = (if d = 0 then 0 else bn_abs bn mod unat d)"
proof (cases "unat d \<le> 1")
  case True
  then have "unat d = 0 \<or> unat d = 1" by auto
  then have "d = 0 \<or> d = 1" by (auto simp: word_unat_eq_iff)
  then show ?thesis using True by (auto simp: bn_mod_u16_consttime_def word_le_nat_alt)
next
  case False
  define P where "P = num_bits (unat d - 1)"
  have d: "2 \<le> unat d" "unat d < 2 ^ 16" using False by (auto intro: order.strict_trans2 [OF unsigned_less])
  note b = reciprocal_bounds [OF d refl, folded P_def]
  have u1: "unat (d - 1) = unat d - 1" using d(1) by (simp add: unat_sub word_le_nat_alt)
  have "unat (ucast (d - 1) :: limb) = unat d - 1"
  proof -
    have "unat d - 1 < 2 ^ 64" using d(2) by simp
    then show ?thesis by (simp add: unsigned_ucast_eq take_bit_eq_mod u1)
  qed
  then have p: "BN_num_bits_word (ucast (d - 1)) = P" by (simp add: BN_num_bits_word_spec P_def)
  have up: "unat (word_of_nat P :: u32) = P" "unat (32 + word_of_nat P :: u32) = 32 + P"
    using b(2) by (simp_all add: unat_word_ariths unat_of_nat)
  define m64 :: u64 where "m64 = (push_bit (32 + P) 1 + ucast d - 1) div ucast d"
  have bound: "2 ^ (32 + P) + unat d < (2 :: nat) ^ 64"
  proof -
    have "(2 :: nat) ^ (32 + P) \<le> 2 ^ 48" using b(2) by (intro power_increasing) simp_all
    then show ?thesis using d(2) by simp
  qed
  have "unat (push_bit (32 + P) 1 + ucast d - 1 :: u64) = 2 ^ (32 + P) + unat d - 1"
  proof -
    have one: "unat (push_bit (32 + P) 1 :: u64) = 2 ^ (32 + P)"
      using bound by (simp only: unsigned_push_bit_eq) (simp add: take_bit_eq_mod push_bit_eq_mult)
    have ud: "unat (ucast d :: u64) = unat d" using d(2) by (simp add: unsigned_ucast_eq take_bit_eq_mod)
    have sum: "unat (push_bit (32 + P) 1 + ucast d :: u64) = 2 ^ (32 + P) + unat d"
      using bound by (simp only: unat_word_ariths one ud) simp
    have "1 \<le> (push_bit (32 + P) 1 + ucast d :: u64)" using d(1) sum by (simp only: word_le_nat_alt sum) simp
    from unat_sub [OF this] show ?thesis by (simp only: sum) simp
  qed
  then have m64: "unat m64 = (2 ^ (32 + P) + unat d - 1) div unat d"
    using d(2) by (simp only: m64_def unat_div_distrib) (simp add: unsigned_ucast_eq take_bit_eq_mod)
  have "unat (ucast m64 :: u32) = unat m64 - 2 ^ 32"
  proof -
    have "unat m64 - 2 ^ 32 < 2 ^ 32" "2 ^ 32 \<le> unat m64" using b(4,5) m64 by simp_all
    then have "unat m64 mod 2 ^ 32 = unat m64 - 2 ^ 32" by (simp only: le_mod_geq mod_less)
    then show ?thesis by (simp only: unsigned_ucast_eq take_bit_eq_mod) simp
  qed
  then have magic: "magic d (word_of_nat P) (ucast m64)" using d(1) up(1) m64 by (simp add: magic_def P_def)
  have "\<not> d \<le> 1" using False by (simp add: word_le_nat_alt)
  then have code: "bn_mod_u16_consttime bn d = foldl (mod_u16_step d (word_of_nat P) (ucast m64)) 0 (rev (take (bn_width bn) (bn_d bn)))"
    by (simp add: bn_mod_u16_consttime_def Let_def p up(2) m64_def)
  have "unat (bn_mod_u16_consttime bn d) = bn_abs bn mod unat d"
    unfolding code mod_u16_loop_spec [OF magic] by (auto simp: bn_abs_def bn_limbs_def)
  then show ?thesis using d(1) by auto
qed

section \<open>Powers of two\<close>

lemma mask_top_word_spec:
  assumes e: "0 < e" and w: "w = 1 + (e - 1) div 64" "w \<le> length d"
  shows "length (mask_top_word e w d) = length d" "wval (take w (mask_top_word e w d)) = wval (take w d) mod 2 ^ e"
proof -
  obtain n k where nk: "w = Suc n" "e = 64 * n + k" "0 < k" "k \<le> 64" "e mod 64 = k mod 64"
  proof -
    have "e = 64 * ((e - 1) div 64) + (1 + (e - 1) mod 64)" using e mult_div_mod_eq [of 64 "e - 1"] by linarith
    moreover have "1 + (e - 1) mod 64 \<le> 64" by (simp add: Suc_leI)
    ultimately show thesis using w(1) by (intro that [of "(e - 1) div 64" "1 + (e - 1) mod 64"]) (simp, assumption, simp, assumption, metis mod_mult_self4)
  qed
  have len: "n < length d" using w(2) nk(1) by simp
  show "length (mask_top_word e w d) = length d" by (simp add: mask_top_word_def Let_def)
  have low: "wval (take n d) < 2 ^ (64 * n)" using wval_less [of "take n d"] len by (simp add: BN_BASE_power min_absorb2)
  have split: "(a + 2 ^ (64 * n) * b) mod 2 ^ e = a + 2 ^ (64 * n) * (b mod 2 ^ k)" if "a < 2 ^ (64 * n)" for a b :: nat
    using that mod_mult2_eq [of "a + 2 ^ (64 * n) * b" "2 ^ (64 * n)" "2 ^ k"] by (simp add: nk(2) power_add)
  have d: "wval (take w d) = wval (take n d) + 2 ^ (64 * n) * unat (d ! n)" using wval_take_Suc [OF len] by (simp add: nk(1) BN_BASE_power)
  show "wval (take w (mask_top_word e w d)) = wval (take w d) mod 2 ^ e"
  proof (cases "k = 64")
    case True
    have "unat (d ! n) < 2 ^ 64" using limb_less [of "d ! n"] by (simp add: BN_BASE_def del: limb_less)
    then show ?thesis unfolding d split [OF low] using True nk(5) d by (simp add: mask_top_word_def Let_def BN_BITS2_def)
  next
    case False
    then have m: "e mod 64 = k" "k \<noteq> 0" using nk(3-5) by simp_all
    have "push_bit k 1 - 1 = (mask k :: limb)" by (simp add: mask_eq_exp_minus_1 push_bit_eq_mult)
    then have md: "mask_top_word e w d = d[n := d ! n AND mask k]" by (simp add: mask_top_word_def Let_def BN_BITS2_def m nk(1))
    have "wval (take w (d[n := d ! n AND mask k])) = wval (take n d) + 2 ^ (64 * n) * unat (d ! n AND mask k)"
      using wval_take_Suc [of n "d[n := d ! n AND mask k]"] len by (simp add: nk(1) BN_BASE_power)
    then show ?thesis unfolding md d split [OF low] unat_and_mask .
  qed
qed

lemma words_enough: "0 < e \<Longrightarrow> (e :: nat) \<le> 64 * (1 + (e - 1) div 64)"
proof (cases e)
  case (Suc f)
  then show ?thesis using mult_div_mod_eq [of 64 f] mod_less_divisor [of 64 f] by simp
qed simp

lemma BN_copy_flags: "bn_flags (snd (BN_copy m r a)) = bn_flags r"
  using bn_wexpand_flags [of m r "bn_width a"] by (auto simp: BN_copy_def split: prod.splits)

lemma BN_mod_pow2_spec:
  assumes r: "bn_ok r" and a: "bn_ok a" and e: "BN_mod_pow2 m r a e = (ok, r')"
  shows "if ok then bn_ok r' \<and> bn_abs r' = bn_abs a mod 2 ^ e \<and> bn_val r' = sgn (bn_val a) * (\<bar>bn_val a\<bar> mod 2 ^ e) \<and> (bn_signed a \<longrightarrow> bn_signed r') \<and>
       bn_width r' \<le> 1 + (e - 1) div 64 \<and> bn_flags r' = bn_flags r
    else bn_full m r (1 + (e - 1) div 64)"
proof -
  define w where "w = 1 + (e - 1) div 64"
  note code = e [unfolded BN_mod_pow2_def BN_BITS2_def Let_def, folded w_def]
  have val: "bn_val x = sgn (bn_val a) * (\<bar>bn_val a\<bar> mod 2 ^ e)" if "bn_abs x = bn_abs a mod 2 ^ e" "bn_abs x \<noteq> 0 \<longrightarrow> bn_neg x = bn_neg a" for x
  proof -
    have "\<bar>bn_val a\<bar> mod 2 ^ e = int (bn_abs x)" unfolding that(1) by (simp add: bn_abs_val [symmetric] zmod_int)
    moreover have "bn_abs x \<noteq> 0 \<longrightarrow> bn_abs a \<noteq> 0" unfolding that(1) by (cases "bn_abs a") simp_all
    ultimately show ?thesis using that(2) by (auto simp: bn_val_def sgn_if)
  qed
  consider (zero) "e = 0 \<or> bn_width a = 0" | (short) "0 < e" "bn_width a \<noteq> 0" "bn_width a < w" | (long) "0 < e" "bn_width a \<noteq> 0" "w \<le> bn_width a" by fastforce
  then show ?thesis
  proof cases
    case zero
    then have r': "ok" "r' = BN_zero r" using code by simp_all
    have "bn_abs a mod 2 ^ e = 0" using zero by (auto simp: bn_abs_def bn_limbs_def)
    then show ?thesis using BN_zero_spec [OF r] val [of r'] r' by (simp add: BN_zero_def bn_abs_def bn_limbs_def)
  next
    case short
    then have c: "BN_copy m r a = (ok, r')" using code by simp
    have "bn_abs a < 2 ^ e"
    proof -
      have "64 * bn_width a \<le> e" using short(1,3) unfolding w_def by linarith
      then have "(2 :: nat) ^ (64 * bn_width a) \<le> 2 ^ e" by (intro power_increasing) simp_all
      then show ?thesis using bn_abs_less [OF a] unfolding BN_BASE_power by linarith
    qed
    then have am: "bn_abs a mod 2 ^ e = bn_abs a" by simp
    show ?thesis
    proof (cases ok)
      case True
      then have s: "bn_ok r'" "bn_limbs r' = bn_limbs a" "bn_neg r' = bn_neg a" using BN_copy_spec [OF r a c] by simp_all
      then have ab: "bn_abs r' = bn_abs a" by (simp add: bn_abs_def)
      have "bn_width r' = bn_width a" using length_bn_limbs [OF s(1)] length_bn_limbs [OF a] s(2) by simp
      moreover have "bn_flags r' = bn_flags r" using BN_copy_flags [of m r a] c by simp
      ultimately show ?thesis using True s ab am val [of r'] short(3) by (simp add: bn_signed_def w_def)
    next
      case False
      then have "bn_full m r (bn_width a)" using BN_copy_spec [OF r a c] by simp
      then show ?thesis using False bn_full_mono [of m r "bn_width a" w] short(3) by (simp add: w_def)
    qed
  next
    case long
    show ?thesis
    proof (cases rule: bn_wexpand_cases [OF r, of m w, case_names expanded full])
      case full
      then show ?thesis using code long by (simp add: w_def)
    next
      case (expanded d)
      define x where "x = d\<lparr>bn_d := mask_top_word e w (copy_limbs (bn_d d) (bn_d a) w), bn_neg := bn_neg a, bn_width := w\<rparr>"
      have r': "ok" "r' = bn_set_minimal_width x" using code long expanded(1) by (simp_all add: x_def)
      have len: "w \<le> length (bn_d a)" "w \<le> length (bn_d d)" using long a expanded(4) by (simp_all add: bn_ok_def)
      then have lc: "length (copy_limbs (bn_d d) (bn_d a) w) = length (bn_d d)" by simp
      note mask = mask_top_word_spec [OF long(1) w_def, of "copy_limbs (bn_d d) (bn_d a) w"]
      have ok: "bn_ok x" using expanded(2,3) mask(1) lc len by (simp add: x_def bn_ok_def)
      have "bn_abs x = wval (take w (bn_d a)) mod 2 ^ e"
        using mask(2) lc len by (simp add: x_def bn_abs_def bn_limbs_def take_copy_limbs)
      also have "wval (take w (bn_d a)) = bn_abs a mod BN_BASE ^ w"
        using wval_mod [of "bn_limbs a" w] long(3) by (simp add: bn_abs_def bn_limbs_def min_absorb1)
      also have "\<dots> mod 2 ^ e = bn_abs a mod 2 ^ e"
      proof -
        have "e \<le> 64 * w" using words_enough [OF long(1)] by (simp add: w_def)
        then have "(2 :: nat) ^ e dvd BN_BASE ^ w" unfolding BN_BASE_power by (rule le_imp_power_dvd)
        then show ?thesis by (rule mod_mod_cancel)
      qed
      finally have ab: "bn_abs x = bn_abs a mod 2 ^ e" .
      note min = bn_set_minimal_width_spec [OF ok, folded r'(2)]
      have "bn_width r' \<le> w" using minimal_limbs(2) [OF ok] min(7) by (simp add: x_def)
      moreover have "bn_flags r' = bn_flags r" unfolding min(5) by (simp add: x_def expanded(8))
      moreover have "bn_abs r' \<noteq> 0 \<longrightarrow> bn_neg r' = bn_neg a" unfolding min(6) min(3) by (simp add: x_def)
      ultimately show ?thesis using min(1,3,4) ab val [of r'] r'(1) by (simp add: w_def)
    qed
  qed
qed

lemma wval_not: "wval (map NOT ws) + wval ws + 1 = BN_BASE ^ length ws"
proof (induction ws)
  case (Cons x ws)
  have x: "unat (NOT x) + unat x + 1 = BN_BASE"
  proof -
    have "NOT x = (- 1) - x" by (simp add: not_eq_complement)
    moreover have "unat (- 1 :: limb) = BN_BASE - 1" by (simp add: BN_BASE_def unsigned_minus_1_eq_mask mask_eq_exp_minus_1)
    moreover have "unat (- 1 - x) = unat (- 1 :: limb) - unat x" by (rule unat_sub) simp
    ultimately have "unat (NOT x) = BN_BASE - 1 - unat x" by simp
    then show ?thesis using limb_le [of x] by simp
  qed
  have "wval (map NOT (x # ws)) + wval (x # ws) + 1 = (unat (NOT x) + unat x + 1) + BN_BASE * (wval (map NOT ws) + wval ws)"
    by (simp add: algebra_simps)
  also have "\<dots> = BN_BASE * (wval (map NOT ws) + wval ws + 1)" unfolding x by (simp add: algebra_simps)
  finally show ?case unfolding Cons.IH by simp
qed simp

lemma negated_mod:
  assumes "0 < x" "x < 2 ^ e" "(2 :: nat) ^ e dvd N" "x < N"
  shows "(N - 1 - x) mod 2 ^ e = 2 ^ e - 1 - x"
proof -
  obtain k where k: "N = 2 ^ e * k" using assms(3) by (rule dvdE)
  then have "k \<noteq> 0" using assms(4) by (intro notI) simp
  then obtain j where j: "k = Suc j" by (cases k) simp_all
  have "N - 1 - x = (2 ^ e - 1 - x) + 2 ^ e * j" using assms(2) by (simp add: k j)
  then show ?thesis using assms(1) by simp
qed

lemma BN_nnmod_pow2_spec:
  assumes r: "bn_ok r" and a: "bn_ok a" and e: "BN_nnmod_pow2 m r a e = (ok, r')"
  shows "if ok then bn_ok r' \<and> bn_val r' = bn_val a mod 2 ^ e \<and> (bn_signed a \<longrightarrow> bn_signed r') else cannot_grow m [r] (3 + (e - 1) div 64)"
proof -
  define w where "w = 1 + (e - 1) div 64"
  obtain k r1 where e1: "BN_mod_pow2 m r a e = (k, r1)" by fastforce
  note S = BN_mod_pow2_spec [OF r a e1, folded w_def]
  note code = e [unfolded BN_nnmod_pow2_def BN_BITS2_def Let_def e1 prod.case, folded w_def]
  show ?thesis
  proof (cases k)
    case False
    then have "\<not> ok" "bn_full m r w" using code S by simp_all
    then show ?thesis using bn_full_cannot_grow [of m r w "3 + (e - 1) div 64" "[r]"] by (simp add: w_def)
  next
    case True
    then have s: "bn_ok r1" "bn_abs r1 = bn_abs a mod 2 ^ e" "bn_val r1 = sgn (bn_val a) * (\<bar>bn_val a\<bar> mod 2 ^ e)" "bn_signed a \<longrightarrow> bn_signed r1"
      "bn_width r1 \<le> w" "bn_flags r1 = bn_flags r" using S by simp_all
    show ?thesis
    proof (cases "BN_is_zero r1 \<or> \<not> bn_neg r1")
      case easy: True
      then have ok: "ok" "r' = r1" using code True by simp_all
      have "bn_abs r1 = 0 \<or> \<not> bn_neg r1" using easy by (simp add: BN_is_zero_spec [OF s(1)])
      then have nn: "0 \<le> bn_val r1" by (auto simp: bn_val_def)
      have "bn_val r1 = bn_val a mod 2 ^ e"
      proof (cases "0 \<le> bn_val a")
        case True
        then show ?thesis unfolding s(3) by (cases "bn_val a = 0") (simp_all add: sgn_if)
      next
        case False
        then have "\<bar>bn_val a\<bar> mod 2 ^ e = 0" using nn s(3) by (simp add: sgn_if) (metis neg_0_le_iff_le order_antisym pos_mod_sign zero_less_numeral zero_less_power)
        then have "2 ^ e dvd bn_val a" by (simp add: dvd_eq_mod_eq_0 [symmetric])
        then show ?thesis using s(3) \<open>\<bar>bn_val a\<bar> mod 2 ^ e = 0\<close> by (simp add: dvd_eq_mod_eq_0)
      qed
      then show ?thesis using ok s(1,4) by simp
    next
      case not: False
      define x where "x = bn_abs r1"
      have x: "0 < x" "x < 2 ^ e" "bn_val r1 = - int x" using not s(2) by (simp_all add: x_def BN_is_zero_spec [OF s(1)] bn_val_def)
      have "e \<noteq> 0" using x(1,2) by (intro notI) simp
      then have e0: "0 < e" by simp
      have neg: "bn_val a mod 2 ^ e = 2 ^ e - int x"
      proof -
        have "0 \<le> \<bar>bn_val a\<bar> mod 2 ^ e" by simp
        then have "bn_val a < 0" using x(1,3) s(3) by (auto simp: sgn_if simp del: pos_mod_sign split: if_splits)
        then have "bn_val a = - int (bn_abs a)" by (auto simp: bn_val_def split: if_splits)
        moreover have "int (bn_abs a) mod 2 ^ e = int x" by (simp add: x_def s(2) zmod_int)
        ultimately show ?thesis using x(1) by (simp add: zmod_zminus1_eq_if)
      qed
      show ?thesis
      proof (cases rule: bn_wexpand_cases [OF s(1), of m w, case_names expanded full])
        case full
        then have "\<not> ok" using code True not by simp
        then show ?thesis using full(2) bn_full_cannot_grow [of m r1 w "3 + (e - 1) div 64" "[r]"] s(6) by (simp add: w_def)
      next
        case (expanded d)
        define ws where "ws = bn_limbs r1 @ replicate (w - bn_width r1) 0"
        have ld: "length (bn_limbs r1) = bn_width r1" "length ws = w" using length_bn_limbs [OF s(1)] s(5) by (simp_all add: ws_def)
        have wv: "wval ws = x" by (simp add: ws_def wval_append x_def bn_abs_def)
        define y where "y = d\<lparr>bn_d := mask_top_word e w (map NOT ws @ drop w (bn_d d)), bn_neg := False, bn_width := w\<rparr>"
        have dl: "take (bn_width d) (bn_d d) = bn_limbs r1" using expanded(5) by (simp add: bn_limbs_def [of d])
        have d1: "take (bn_width d) (bn_d d) @ replicate (w - bn_width d) 0 @ drop w (bn_d d) = ws @ drop w (bn_d d)"
          unfolding dl by (simp add: ws_def expanded(6))
        have d2: "map NOT (take w (ws @ drop w (bn_d d))) @ drop w (ws @ drop w (bn_d d)) = map NOT ws @ drop w (bn_d d)"
          using ld(2) by simp
        have "(if \<not> True then (False, r1) else if BN_is_zero r1 \<or> \<not> bn_neg r1 then (True, r1)
            else BN_add m (bn_set_minimal_width y) (bn_set_minimal_width y) BN_value_one) = (ok, r')"
          using code [unfolded expanded(1) prod.case d1 d2] True not by (simp add: y_def)
        then have call: "BN_add m (bn_set_minimal_width y) (bn_set_minimal_width y) BN_value_one = (ok, r')" using not by simp
        have "length (bn_d d) = bn_dmax d" using expanded(2) by (simp add: bn_ok_def)
        then have wl: "w \<le> length (map NOT ws @ drop w (bn_d d))" and ll: "length (map NOT ws @ drop w (bn_d d)) = bn_dmax d" using ld expanded(3) by simp_all
        note mask = mask_top_word_spec [OF e0 w_def wl]
        have oky: "bn_ok y" using expanded(2,3) mask(1) ll by (simp add: y_def bn_ok_def)
        have "bn_abs y = wval (map NOT ws) mod 2 ^ e" using mask(2) ld by (simp add: y_def bn_abs_def bn_limbs_def)
        also have "wval (map NOT ws) = BN_BASE ^ w - 1 - x" using wval_not [of ws] ld wv by simp
        also have "\<dots> mod 2 ^ e = 2 ^ e - 1 - x"
        proof (rule negated_mod [OF x(1,2)])
          have "e \<le> 64 * w" using words_enough [OF e0] by (simp add: w_def)
          then show "(2 :: nat) ^ e dvd BN_BASE ^ w" unfolding BN_BASE_power by (rule le_imp_power_dvd)
          show "x < BN_BASE ^ w" using wval_less [of ws] ld wv by simp
        qed
        finally have absy: "bn_abs y = 2 ^ e - 1 - x" .
        note min = bn_set_minimal_width_spec [OF oky]
        have valy: "bn_val (bn_set_minimal_width y) = 2 ^ e - 1 - int x"
          using x(1,2) absy unfolding min(2) by (simp add: bn_val_def y_def of_nat_diff)
        have one: "bn_ok BN_value_one" "bn_val BN_value_one = 1" "bn_signed BN_value_one" "bn_width BN_value_one = 1"
          by (simp_all add: BN_value_one_def bn_ok_def bn_val_def bn_abs_def bn_limbs_def bn_signed_def)
        note A = BN_add_spec [OF min(1) min(1) one(1) call]
        show ?thesis
        proof (cases ok)
          case True
          then show ?thesis using A min(4) one(2,3) valy neg by simp
        next
          case False
          then have "bn_full m (bn_set_minimal_width y) (max (bn_width (bn_set_minimal_width y)) 1 + 1)" using A one(4) by simp
          moreover have "bn_width (bn_set_minimal_width y) \<le> w" using minimal_limbs(2) [OF oky] min(7) by (simp add: y_def)
          moreover have "bn_flags (bn_set_minimal_width y) = bn_flags r" unfolding min(5) by (simp add: y_def expanded(8) s(6))
          ultimately show ?thesis
            using False bn_full_cannot_grow [of m "bn_set_minimal_width y" _ "3 + (e - 1) div 64" "[r]"] by (simp add: w_def)
        qed
      qed
    qed
  qed
qed

end
