(* ===== verification/Bn_Mod.thy ===== *)
theory Bn_Mod
  imports Bn_Reduce
begin

text \<open>
  The modular functions of \<^verbatim>\<open>crypto/fipsmodule/bn/div.c\<close> on big integers, and the division that takes the same time for all
  operands. A function that makes several calls with a \<^verbatim>\<open>BN_CTX\<close> is given the objects of each call: \<open>ctx k i\<close> is the \<open>i\<close>-th
  object within call \<open>k\<close>. The modulus is an object of its own (it is not the result).
\<close>

section \<open>Code\<close>

text \<open>The macro \<^verbatim>\<open>BN_mod\<close>.\<close>

definition BN_mod :: "allocator \<Rightarrow> (nat \<Rightarrow> bignum option) \<Rightarrow> bignum \<Rightarrow> bignum \<Rightarrow> bignum \<Rightarrow> (bool \<times> bignum) option" where
  "BN_mod m ctx rem numerator divisor =
     map_option (\<lambda>(ok, _, r). (ok, case r of None \<Rightarrow> rem | Some r \<Rightarrow> r)) (BN_div m ctx False None (Some rem) numerator divisor)"

definition BN_nnmod :: "allocator \<Rightarrow> (nat \<Rightarrow> bignum option) \<Rightarrow> bignum \<Rightarrow> bignum \<Rightarrow> bignum \<Rightarrow> (bool \<times> bignum) option" where
  "BN_nnmod m ctx r a d =
     map_option (\<lambda>(ok, r).
         if \<not> ok then (False, r)
         else if \<not> bn_neg r then (True, r)
         else (if bn_neg d then BN_sub else BN_add) m r r d)
       (BN_mod m ctx r a d)"

text \<open>The bits of a limb of the numerator, from the highest on; \<open>r\<close> is the remainder so far and \<open>q\<close> the limb of the quotient.\<close>

fun div_bits :: "limb list \<Rightarrow> nat \<Rightarrow> limb \<Rightarrow> nat \<Rightarrow> limb list \<Rightarrow> limb \<Rightarrow> limb list \<times> limb" where
  "div_bits d w n 0 r q = (r, q)"
| "div_bits d w n (Suc b) r q =
     (let (r, carry) = bn_add_words r r w;
          r = r[0 := r ! 0 OR (drop_bit b n AND 1)];
          (r, subtracted) = bn_reduce_once_in_place r carry d w
      in div_bits d w n b r (q OR push_bit b (NOT subtracted AND 1)))"

fun div_limbs :: "limb list \<Rightarrow> nat \<Rightarrow> limb list \<Rightarrow> limb list \<Rightarrow> limb list \<times> limb list" where
  "div_limbs d w [] r = (r, [])"
| "div_limbs d w (n # ns) r =
     (let (r, q) = div_bits d w n BN_BITS2 r 0; (r, qs) = div_limbs d w ns r in (r, q # qs))"

text \<open>
  \<open>q_alias\<close> and \<open>r_alias\<close> say that the result is an operand; then, or when it is not asked for, an object of the context is used.
  \<open>deliver\<close> is the copy at the end.
\<close>

definition deliver :: "allocator \<Rightarrow> bool \<Rightarrow> bignum option \<Rightarrow> bignum \<Rightarrow> bool \<times> bignum option" where
  "deliver m alias dest x =
     (case dest of
        None \<Rightarrow> (True, None)
      | Some dest \<Rightarrow> if alias then (case BN_copy m dest x of (ok, dest) \<Rightarrow> (ok, Some dest)) else (True, Some x))"

definition bn_div_consttime :: "allocator \<Rightarrow> (nat \<Rightarrow> bignum option) \<Rightarrow> bool \<Rightarrow> bool \<Rightarrow> bignum option \<Rightarrow> bignum option \<Rightarrow> bignum \<Rightarrow> bignum \<Rightarrow>
    bool \<times> bignum option \<times> bignum option" where
  "bn_div_consttime m ctx q_alias r_alias quo rem numerator divisor =
     (if BN_is_negative numerator \<or> BN_is_negative divisor then (False, quo, rem)
      else if BN_is_zero divisor then (False, quo, rem)
      else
        let (q, i) = (if quo = None \<or> q_alias then (ctx 0, 1) else (quo, 0 :: nat));
            (r, i) = (if rem = None \<or> r_alias then (ctx i, i + 1) else (rem, i))
        in case (q, r, ctx i) of
             (Some q, Some r, Some tmp) \<Rightarrow>
               (case bn_wexpand m q (bn_width numerator) of
                  (ok, q) \<Rightarrow>
                    if \<not> ok then (False, quo, rem)
                    else case bn_wexpand m r (bn_width divisor) of
                      (ok, r) \<Rightarrow>
                        if \<not> ok then (False, if q_alias then quo else map_option (\<lambda>_. q) quo, rem)
                        else if \<not> fst (bn_wexpand m tmp (bn_width divisor)) then
                          (False, if q_alias then quo else map_option (\<lambda>_. q) quo, if r_alias then rem else map_option (\<lambda>_. r) rem)
                        else
                          let (rs, qs) = div_limbs (bn_d divisor) (bn_width divisor) (rev (take (bn_width numerator) (bn_d numerator)))
                                           (replicate (bn_width divisor) 0);
                              q = q\<lparr>bn_d := rev qs @ drop (bn_width numerator) (bn_d q), bn_width := bn_width numerator, bn_neg := False\<rparr>;
                              r = r\<lparr>bn_d := rs @ drop (bn_width divisor) (bn_d r), bn_width := bn_width divisor, bn_neg := False\<rparr>;
                              (ok, quo) = deliver m q_alias quo q
                          in if \<not> ok then (False, quo, if r_alias then rem else map_option (\<lambda>_. r) rem)
                             else let (ok, rem) = deliver m r_alias rem r in (ok, quo, rem))
           | _ \<Rightarrow> (False, quo, rem))"

definition bn_scratch_space_from_ctx :: "allocator \<Rightarrow> bignum option \<Rightarrow> nat \<Rightarrow> bignum option" where
  "bn_scratch_space_from_ctx m t width =
     (case t of
        None \<Rightarrow> None
      | Some ret \<Rightarrow> (case bn_wexpand m ret width of (ok, ret) \<Rightarrow> if \<not> ok then None else Some (ret\<lparr>bn_neg := False, bn_width := width\<rparr>)))"

text \<open>The number of objects taken from the context is counted.\<close>

definition bn_resized_from_ctx :: "allocator \<Rightarrow> (nat \<Rightarrow> bignum option) \<Rightarrow> nat \<Rightarrow> bignum \<Rightarrow> nat \<Rightarrow> bignum option \<times> nat" where
  "bn_resized_from_ctx m ctx i bn width =
     (if width \<le> bn_width bn then (Some bn, i)
      else
        (case bn_scratch_space_from_ctx m (ctx i) width of
           None \<Rightarrow> None
         | Some ret \<Rightarrow>
             (case BN_copy m ret bn of
                (ok, ret) \<Rightarrow> if \<not> ok then None else (case bn_resize_words m ret width of (ok, ret) \<Rightarrow> if \<not> ok then None else Some ret)),
         i + 1))"

text \<open>The common form of \<open>bn_mod_add_consttime\<close> and \<open>bn_mod_sub_consttime\<close>.\<close>

definition mod_consttime :: "allocator \<Rightarrow> (nat \<Rightarrow> bignum option) \<Rightarrow> (limb list \<Rightarrow> limb list \<Rightarrow> limb list \<Rightarrow> nat \<Rightarrow> limb list) \<Rightarrow>
    bignum \<Rightarrow> bignum \<Rightarrow> bignum \<Rightarrow> bignum \<Rightarrow> bool \<times> bignum" where
  "mod_consttime m ctx mod_words r a b md =
     (let w = bn_width md;
          (a, i) = bn_resized_from_ctx m ctx 0 a w;
          (b, i) = bn_resized_from_ctx m ctx i b w;
          tmp = bn_scratch_space_from_ctx m (ctx i) w
      in case (a, b, tmp) of
           (Some a, Some b, Some tmp) \<Rightarrow>
             (case bn_wexpand m r w of
                (ok, r) \<Rightarrow>
                  if \<not> ok then (False, r)
                  else (True, r\<lparr>bn_d := mod_words (bn_d a) (bn_d b) (bn_d md) w @ drop w (bn_d r), bn_width := w, bn_neg := False\<rparr>))
         | _ \<Rightarrow> (False, r))"

definition bn_mod_add_consttime :: "allocator \<Rightarrow> (nat \<Rightarrow> bignum option) \<Rightarrow> bignum \<Rightarrow> bignum \<Rightarrow> bignum \<Rightarrow> bignum \<Rightarrow> bool \<times> bignum" where
  "bn_mod_add_consttime m ctx = mod_consttime m ctx bn_mod_add_words"

definition bn_mod_sub_consttime :: "allocator \<Rightarrow> (nat \<Rightarrow> bignum option) \<Rightarrow> bignum \<Rightarrow> bignum \<Rightarrow> bignum \<Rightarrow> bignum \<Rightarrow> bool \<times> bignum" where
  "bn_mod_sub_consttime m ctx = mod_consttime m ctx bn_mod_sub_words"

definition BN_mod_add :: "allocator \<Rightarrow> (nat \<Rightarrow> bignum option) \<Rightarrow> bignum \<Rightarrow> bignum \<Rightarrow> bignum \<Rightarrow> bignum \<Rightarrow> (bool \<times> bignum) option" where
  "BN_mod_add m ctx r a b md = (case BN_add m r a b of (ok, r) \<Rightarrow> if \<not> ok then Some (False, r) else BN_nnmod m ctx r r md)"

definition BN_mod_sub :: "allocator \<Rightarrow> (nat \<Rightarrow> bignum option) \<Rightarrow> bignum \<Rightarrow> bignum \<Rightarrow> bignum \<Rightarrow> bignum \<Rightarrow> (bool \<times> bignum) option" where
  "BN_mod_sub m ctx r a b md = (case BN_sub m r a b of (ok, r) \<Rightarrow> if \<not> ok then Some (False, r) else BN_nnmod m ctx r r md)"

text \<open>The functions that make a context of their own; \<open>None\<close> if there is no memory for it.\<close>

definition BN_mod_add_quick :: "allocator \<Rightarrow> (nat \<Rightarrow> bignum option) option \<Rightarrow> bignum \<Rightarrow> bignum \<Rightarrow> bignum \<Rightarrow> bignum \<Rightarrow> bool \<times> bignum" where
  "BN_mod_add_quick m ctx r a b md = (case ctx of None \<Rightarrow> (False, r) | Some ctx \<Rightarrow> bn_mod_add_consttime m ctx r a b md)"

definition BN_mod_sub_quick :: "allocator \<Rightarrow> (nat \<Rightarrow> bignum option) option \<Rightarrow> bignum \<Rightarrow> bignum \<Rightarrow> bignum \<Rightarrow> bignum \<Rightarrow> bool \<times> bignum" where
  "BN_mod_sub_quick m ctx r a b md = (case ctx of None \<Rightarrow> (False, r) | Some ctx \<Rightarrow> bn_mod_sub_consttime m ctx r a b md)"

text \<open>\<open>same\<close> says that the factors are one object.\<close>

definition BN_mod_mul :: "allocator \<Rightarrow> (nat \<Rightarrow> nat \<Rightarrow> bignum option) \<Rightarrow> bool \<Rightarrow> bignum \<Rightarrow> bignum \<Rightarrow> bignum \<Rightarrow> bignum \<Rightarrow> (bool \<times> bignum) option" where
  "BN_mod_mul m ctx same r a b md =
     (case ctx 0 0 of
        None \<Rightarrow> Some (False, r)
      | Some t \<Rightarrow>
          (case (if same then BN_sqr m (ctx 1) False t a else BN_mul m (ctx 1) False t a b) of
             (ok, t) \<Rightarrow> if \<not> ok then Some (False, r) else BN_nnmod m (ctx 2) r t md))"

definition BN_mod_sqr :: "allocator \<Rightarrow> (nat \<Rightarrow> nat \<Rightarrow> bignum option) \<Rightarrow> bool \<Rightarrow> bignum \<Rightarrow> bignum \<Rightarrow> bignum \<Rightarrow> (bool \<times> bignum) option" where
  "BN_mod_sqr m ctx alias r a md =
     (case BN_sqr m (ctx 0) alias r a of (ok, r) \<Rightarrow> if \<not> ok then Some (False, r) else BN_mod m (ctx 1) r r md)"

definition bn_mod_lshift1_consttime :: "allocator \<Rightarrow> (nat \<Rightarrow> bignum option) \<Rightarrow> bignum \<Rightarrow> bignum \<Rightarrow> bignum \<Rightarrow> bool \<times> bignum" where
  "bn_mod_lshift1_consttime m ctx r a md = bn_mod_add_consttime m ctx r a a md"

fun mod_lshift_loop :: "allocator \<Rightarrow> (nat \<Rightarrow> nat \<Rightarrow> bignum option) \<Rightarrow> bignum \<Rightarrow> nat \<Rightarrow> bignum \<Rightarrow> bool \<times> bignum" where
  "mod_lshift_loop m ctx r 0 md = (True, r)"
| "mod_lshift_loop m ctx r (Suc n) md =
     (case bn_mod_lshift1_consttime m (ctx 0) r r md of (ok, r) \<Rightarrow> if \<not> ok then (False, r) else mod_lshift_loop m (\<lambda>k. ctx (k + 1)) r n md)"

definition bn_mod_lshift_consttime :: "allocator \<Rightarrow> (nat \<Rightarrow> nat \<Rightarrow> bignum option) \<Rightarrow> bignum \<Rightarrow> bignum \<Rightarrow> int \<Rightarrow> bignum \<Rightarrow> bool \<times> bignum" where
  "bn_mod_lshift_consttime m ctx r a n md =
     (case BN_copy m r a of (ok, r) \<Rightarrow> if \<not> ok then (False, r) else mod_lshift_loop m ctx r (nat n) md)"

definition BN_mod_lshift :: "allocator \<Rightarrow> (nat \<Rightarrow> nat \<Rightarrow> bignum option) \<Rightarrow> bignum \<Rightarrow> bignum \<Rightarrow> int \<Rightarrow> bignum \<Rightarrow> (bool \<times> bignum) option" where
  "BN_mod_lshift m ctx r a n md =
     map_option (\<lambda>(ok, r).
         if \<not> ok then (False, r)
         else if bn_neg md then
           (case BN_dup m (Some md) of
              None \<Rightarrow> (False, r)
            | Some abs_m \<Rightarrow> bn_mod_lshift_consttime m (\<lambda>k. ctx (k + 1)) r r n (abs_m\<lparr>bn_neg := False\<rparr>))
         else bn_mod_lshift_consttime m (\<lambda>k. ctx (k + 1)) r r n md)
       (BN_nnmod m (ctx 0) r a md)"

definition BN_mod_lshift_quick :: "allocator \<Rightarrow> (nat \<Rightarrow> nat \<Rightarrow> bignum option) option \<Rightarrow> bignum \<Rightarrow> bignum \<Rightarrow> int \<Rightarrow> bignum \<Rightarrow> bool \<times> bignum" where
  "BN_mod_lshift_quick m ctx r a n md = (case ctx of None \<Rightarrow> (False, r) | Some ctx \<Rightarrow> bn_mod_lshift_consttime m ctx r a n md)"

definition BN_mod_lshift1 :: "allocator \<Rightarrow> (nat \<Rightarrow> bignum option) \<Rightarrow> bignum \<Rightarrow> bignum \<Rightarrow> bignum \<Rightarrow> (bool \<times> bignum) option" where
  "BN_mod_lshift1 m ctx r a md = (case BN_lshift1 m r a of (ok, r) \<Rightarrow> if \<not> ok then Some (False, r) else BN_nnmod m ctx r r md)"

definition BN_mod_lshift1_quick :: "allocator \<Rightarrow> (nat \<Rightarrow> bignum option) option \<Rightarrow> bignum \<Rightarrow> bignum \<Rightarrow> bignum \<Rightarrow> bool \<times> bignum" where
  "BN_mod_lshift1_quick m ctx r a md = (case ctx of None \<Rightarrow> (False, r) | Some ctx \<Rightarrow> bn_mod_lshift1_consttime m ctx r a md)"

section \<open>Flags and widths of results\<close>

text \<open>An operation keeps the flags of the object it writes, and most results have their minimal width.\<close>

lemma minimal_of_minimal: "bn_minimal_width (bn_set_minimal_width x) = bn_width (bn_set_minimal_width x)"
proof -
  have "minimal_loop d (minimal_loop d n) = minimal_loop d n" for d n by (induction n) simp_all
  then show ?thesis by (simp add: bn_minimal_width_def bn_set_minimal_width_def Let_def)
qed

lemma minimal_width_neg: "bn_minimal_width (x\<lparr>bn_neg := b\<rparr>) = bn_minimal_width x"
  by (simp add: bn_minimal_width_def)

lemma BN_rshift_flags: "bn_flags (snd (BN_rshift m r a n)) = bn_flags r"
  using bn_wexpand_flags [of m r "bn_width a"]
  by (auto simp: BN_rshift_def minimal_width_flags split: prod.splits)

lemma BN_rshift_minimal: "BN_rshift m r a n = (True, r') \<Longrightarrow> bn_minimal_width r' = bn_width r'"
  by (auto simp: BN_rshift_def minimal_of_minimal split: prod.splits if_splits)

lemma div_shifted_remainder:
  assumes "div_shifted m alias tmp sn sd s res (Some rem) n d = Some (ok, q, r)"
  shows "\<exists>r'. r = Some r' \<and> bn_flags r' = bn_flags rem \<and> (ok \<longrightarrow> bn_minimal_width r' = bn_width r')"
proof -
  define rn where "rn sn = BN_rshift m rem sn (int s)" for sn
  have f: "bn_flags (snd (rn x)) = bn_flags rem" "fst (rn x) \<Longrightarrow> bn_minimal_width (snd (rn x)) = bn_width (snd (rn x))" for x
    using BN_rshift_flags [of m rem x "int s"] BN_rshift_minimal [of m rem x "int s" "snd (rn x)"] by (simp_all add: rn_def prod_eq_iff)
  show ?thesis
    using assms unfolding div_shifted_def Let_def option.case rn_def [symmetric]
    by (auto simp: case_prod_beta minimal_width_neg f split: if_splits)
qed

lemma BN_div_with_remainder:
  assumes "BN_div_with m alias tmp sn sd res (Some rem) n d = Some (ok, q, r)"
  shows "\<exists>r'. r = Some r' \<and> bn_flags r' = bn_flags rem \<and> (ok \<longrightarrow> bn_minimal_width r' = bn_width r')"
  using assms div_shifted_remainder unfolding BN_div_with_def Let_def
  by (auto simp: case_prod_beta split: if_splits dest: div_shifted_remainder)

lemma BN_div_remainder:
  assumes "BN_div m ctx alias quo (Some rem) n d = Some (ok, q, r)"
  shows "\<exists>r'. r = Some r' \<and> bn_flags r' = bn_flags rem \<and> (ok \<longrightarrow> bn_minimal_width r' = bn_width r')"
  using assms unfolding BN_div_def Let_def
  by (auto simp: case_prod_beta split: if_splits option.splits dest: BN_div_with_remainder)

lemma bn_uadd_flags: "bn_flags (snd (BN_uadd m r a b)) = bn_flags r"
  using bn_wexpand_flags [of m r]
  by (auto simp: BN_uadd_def bn_uadd_consttime_def Let_def case_prod_beta minimal_width_flags)

lemma bn_usub_flags: "bn_flags (snd (BN_usub m r a b)) = bn_flags r"
  using bn_wexpand_flags [of m r]
  by (auto simp: BN_usub_def bn_usub_consttime_def Let_def case_prod_beta minimal_width_flags)

lemma BN_uadd_minimal: "BN_uadd m r a b = (True, r') \<Longrightarrow> bn_minimal_width r' = bn_width r'"
  by (auto simp: BN_uadd_def minimal_of_minimal split: prod.splits if_splits)

lemma BN_usub_minimal: "BN_usub m r a b = (True, r') \<Longrightarrow> bn_minimal_width r' = bn_width r'"
  by (auto simp: BN_usub_def minimal_of_minimal split: prod.splits if_splits)

lemma signed_usub_result:
  "signed_usub m r a b = (ok, r') \<Longrightarrow> bn_flags r' = bn_flags r \<and> (ok \<longrightarrow> bn_minimal_width r' = bn_width r')"
  using bn_usub_flags [of m r a b] bn_usub_flags [of m r b a] BN_usub_minimal [of m r a b] BN_usub_minimal [of m r b a]
  by (auto simp: signed_usub_def minimal_width_neg split: prod.splits if_splits)

lemma BN_add_result: "BN_add m r a b = (ok, r') \<Longrightarrow> bn_flags r' = bn_flags r \<and> (ok \<longrightarrow> bn_minimal_width r' = bn_width r')"
  using bn_uadd_flags [of m r a b] BN_uadd_minimal [of m r a b] signed_usub_result [of m r a b ok r'] signed_usub_result [of m r b a ok r']
  by (auto simp: BN_add_def minimal_width_neg split: prod.splits if_splits)

lemma BN_sub_result: "BN_sub m r a b = (ok, r') \<Longrightarrow> bn_flags r' = bn_flags r \<and> (ok \<longrightarrow> bn_minimal_width r' = bn_width r')"
  using bn_uadd_flags [of m r a b] BN_uadd_minimal [of m r a b] signed_usub_result [of m r a b ok r'] signed_usub_result [of m r b a ok r']
  by (auto simp: BN_sub_def minimal_width_neg split: prod.splits if_splits)

lemma BN_lshift1_result: "BN_lshift1 m r a = (ok, r') \<Longrightarrow> bn_flags r' = bn_flags r \<and> (ok \<longrightarrow> bn_width r' \<le> bn_width a + 1)"
  using bn_wexpand_flags [of m "r\<lparr>bn_neg := bn_neg a\<rparr>" "bn_width a + 1"]
  by (auto simp: BN_lshift1_def Let_def case_prod_beta split: if_splits)

lemma BN_sqr_flags: "bn_flags (snd (BN_sqr m ctx alias r a)) = bn_flags r"
proof -
  have w: "bn_flags (snd (bn_wexpand m x k)) = bn_flags x" for x k by (rule bn_wexpand_flags)
  have c: "bn_flags (snd (BN_copy m r x)) = bn_flags r" for x by (rule BN_copy_flags)
  show ?thesis
    by (auto simp: BN_sqr_def bn_sqr_consttime_def mul_end_def Let_def case_prod_beta minimal_width_flags w c split: option.splits)
qed

lemma BN_sqr_minimal: "BN_sqr m ctx alias r a = (True, r') \<Longrightarrow> bn_minimal_width r' = bn_width r'"
  by (auto simp: BN_sqr_def minimal_of_minimal split: prod.splits if_splits)

lemma BN_mul_minimal: "BN_mul m ctx alias r a b = (True, r') \<Longrightarrow> bn_minimal_width r' = bn_width r'"
  by (auto simp: BN_mul_def minimal_of_minimal split: prod.splits if_splits)

lemma width_le_value: "bn_ok x \<Longrightarrow> bn_minimal_width x = bn_width x \<Longrightarrow> bn_abs x < BN_BASE ^ k \<Longrightarrow> bn_width x \<le> k"
  by (metis minimal_width_le)

section \<open>Remainders\<close>

text \<open>What an operation with a context may lack: an object, or room for so many limbs.\<close>

definition lacking :: "allocator \<Rightarrow> (nat \<Rightarrow> bignum option) \<Rightarrow> bignum list \<Rightarrow> nat \<Rightarrow> bool" where
  "lacking m ctx xs words \<longleftrightarrow> (\<exists>i. ctx i = None) \<or> (\<exists>i x. ctx i = Some x \<and> bn_static x) \<or> cannot_grow m xs words"

lemma lacking_full: "bn_full m x k \<Longrightarrow> k \<le> words \<Longrightarrow> bn_flags x = bn_flags r \<Longrightarrow> lacking m ctx [r] words"
  using bn_full_cannot_grow [of m x k "words" "[r]"] by (simp add: lacking_def)

lemma lacking_mono: "lacking m ctx [x] k \<Longrightarrow> k \<le> words \<Longrightarrow> bn_flags x = bn_flags r \<Longrightarrow> lacking m ctx [r] words"
  by (auto simp: lacking_def cannot_grow_def bn_static_def)

lemma lacking_ctx: "bn_full m x k \<Longrightarrow> k \<le> words \<Longrightarrow> ctx i = Some t \<Longrightarrow> bn_flags x = bn_flags t \<Longrightarrow> lacking m ctx xs words"
  by (auto simp: lacking_def cannot_grow_def bn_full_def bn_static_def)

lemma BN_mod_spec:
  assumes c: "ctx_ok ctx" and r: "bn_ok r" and a: "bn_ok a" and d: "bn_ok d"
  obtains ok r' where "BN_mod m ctx r a d = Some (ok, r')" "bn_flags r' = bn_flags r"
    "if ok then bn_abs d \<noteq> 0 \<and> div_remainder False a d r' \<and> bn_width r' \<le> bn_width d
     else bn_abs d = 0 \<or> lacking m ctx [r] (bn_width a + bn_width d + 4)"
proof -
  have none: "pred_option bn_ok None" by simp
  note spec = BN_div_spec [of ctx None "Some r" a d m False, unfolded option.pred_inject(2) option.case, OF c none r a d]
  from spec obtain ok q r' where e: "BN_div m ctx False None (Some r) a d = Some (ok, q, r')" and
    s: "if ok then bn_abs d \<noteq> 0 \<and> rel_option (\<lambda>_. div_quotient a d) (None :: bignum option) q \<and> rel_option (\<lambda>_. div_remainder False a d) (Some r) r'
     else bn_abs d = 0 \<or> (\<exists>i. ctx i = None) \<or>
       (\<exists>x y z w. ctx 0 = Some x \<and> ctx 1 = Some y \<and> ctx 2 = Some z \<and> (ctx 3 = Some w \<or> None = Some w) \<and>
          cannot_grow m ([x, y, z, w] @ [r]) (bn_width a + bn_width d + 4))" by blast
  obtain r1 where r1: "r' = Some r1" "bn_flags r1 = bn_flags r" "ok \<longrightarrow> bn_minimal_width r1 = bn_width r1" using BN_div_remainder [OF e] by blast
  show thesis
  proof (rule that [of ok r1])
    show "BN_mod m ctx r a d = Some (ok, r1)" using e r1(1) by (simp add: BN_mod_def)
    show "if ok then bn_abs d \<noteq> 0 \<and> div_remainder False a d r1 \<and> bn_width r1 \<le> bn_width d
      else bn_abs d = 0 \<or> lacking m ctx [r] (bn_width a + bn_width d + 4)"
    proof (cases ok)
      case True
      then have dr: "bn_abs d \<noteq> 0" "div_remainder False a d r1" using s r1(1) by simp_all
      then have "bn_ok r1" "bn_abs r1 < bn_abs d" by (simp_all add: div_remainder_def)
      then have "bn_width r1 \<le> bn_width d" using r1(3) True bn_abs_less [OF d] by (intro width_le_value) simp_all
      then show ?thesis using dr True by simp
    next
      case False
      then consider "bn_abs d = 0" | i where "ctx i = None" | x y z w where "ctx 0 = Some x" "ctx 1 = Some y" "ctx 2 = Some z" "ctx 3 = Some w"
        "cannot_grow m [x, y, z, w, r] (bn_width a + bn_width d + 4)" using s by auto
      then show ?thesis
      proof cases
        case 3
        then show ?thesis using False unfolding lacking_def cannot_grow_def by auto
      qed (use False in \<open>auto simp: lacking_def\<close>)
    qed
  qed (rule r1(2))
qed

lemma BN_nnmod_spec:
  assumes c: "ctx_ok ctx" and r: "bn_ok r" and a: "bn_ok a" and d: "bn_ok d"
  obtains ok r' where "BN_nnmod m ctx r a d = Some (ok, r')" "bn_flags r' = bn_flags r"
    "if ok then bn_abs d \<noteq> 0 \<and> bn_ok r' \<and> bn_val r' = bn_val a mod \<bar>bn_val d\<bar> \<and> bn_signed r' \<and> bn_width r' \<le> bn_width d
     else bn_abs d = 0 \<or> lacking m ctx [r] (bn_width a + bn_width d + 4)"
proof -
  obtain k r1 where e: "BN_mod m ctx r a d = Some (k, r1)" and f: "bn_flags r1 = bn_flags r" and
    s: "if k then bn_abs d \<noteq> 0 \<and> div_remainder False a d r1 \<and> bn_width r1 \<le> bn_width d
        else bn_abs d = 0 \<or> lacking m ctx [r] (bn_width a + bn_width d + 4)"
    by (rule BN_mod_spec [OF assms])
  note code = BN_nnmod_def [of m ctx r a d, unfolded e option.map prod.case]
  have abs: "int (bn_abs a) mod int (bn_abs d) = int (bn_abs a mod bn_abs d)" by (simp add: zmod_int)
  show thesis
  proof (cases "k \<and> bn_neg r1")
    case False
    show thesis
    proof (rule that [of k r1])
      show "BN_nnmod m ctx r a d = Some (k, r1)" unfolding code using False by simp
      show "if k then bn_abs d \<noteq> 0 \<and> bn_ok r1 \<and> bn_val r1 = bn_val a mod \<bar>bn_val d\<bar> \<and> bn_signed r1 \<and> bn_width r1 \<le> bn_width d
        else bn_abs d = 0 \<or> lacking m ctx [r] (bn_width a + bn_width d + 4)"
      proof (cases k)
        case True
        then have dr: "bn_abs d \<noteq> 0" "div_remainder False a d r1" "bn_width r1 \<le> bn_width d" "\<not> bn_neg r1" using s False by simp_all
        have v: "bn_val r1 = int (bn_abs a mod bn_abs d)" "bn_ok r1" "bn_signed r1" using dr(2,4) by (simp_all add: div_remainder_def bn_val_def)
        have "bn_val r1 = bn_val a mod \<bar>bn_val d\<bar>"
        proof (cases "bn_neg a")
          case True
          then have "bn_abs a mod bn_abs d = 0" using dr(2,4) by (auto simp: div_remainder_def)
          then have "int (bn_abs a) mod int (bn_abs d) = 0" unfolding abs by simp
          then have "(- int (bn_abs a)) mod int (bn_abs d) = 0" by (simp add: zmod_zminus1_eq_if)
          then show ?thesis using v(1) True \<open>bn_abs a mod bn_abs d = 0\<close> unfolding bn_abs_val [symmetric] by (simp add: bn_val_def)
        next
          case False
          then show ?thesis using v(1) unfolding bn_abs_val [symmetric] by (simp add: bn_val_def abs)
        qed
        then show ?thesis using True dr v by simp
      qed (use s in simp)
    qed (rule f)
  next
    case True
    then have dr: "bn_abs d \<noteq> 0" "div_remainder False a d r1" "bn_width r1 \<le> bn_width d" "bn_neg r1" using s by simp_all
    then have r1: "bn_ok r1" "bn_signed r1" "bn_neg a" "bn_val r1 = - int (bn_abs a mod bn_abs d)" "bn_abs a mod bn_abs d \<noteq> 0"
      by (auto simp: div_remainder_def bn_val_def)
    have goal: "bn_val a mod \<bar>bn_val d\<bar> = bn_val r1 + \<bar>bn_val d\<bar>"
    proof -
      have "bn_val a = - int (bn_abs a)" using r1(3) by (simp add: bn_val_def)
      moreover have "int (bn_abs a) mod int (bn_abs d) \<noteq> 0" unfolding abs using r1(5) by simp
      ultimately show ?thesis unfolding bn_abs_val [symmetric] r1(4) by (simp add: zmod_zminus1_eq_if abs)
    qed
    obtain ok r2 where e2: "(if bn_neg d then BN_sub else BN_add) m r1 r1 d = (ok, r2)" by fastforce
    have res: "bn_flags r2 = bn_flags r" "ok \<longrightarrow> bn_minimal_width r2 = bn_width r2"
      using e2 BN_add_result [of m r1 r1 d ok r2] BN_sub_result [of m r1 r1 d ok r2] f by (simp_all split: if_splits)
    have ds: "bn_signed d" using dr(1) by (simp add: bn_signed_def)
    have sum: "bn_ok r2 \<and> (if ok then bn_val r2 = bn_val r1 + \<bar>bn_val d\<bar> \<and> bn_signed r2 else bn_full m r1 (max (bn_width r1) (bn_width d) + 1))"
      using e2 BN_add_spec [OF r1(1) r1(1) d, of m ok r2] BN_sub_spec [OF r1(1) r1(1) d, of m ok r2] r1(2) ds bn_signed_neg [OF ds]
      by (auto split: if_splits)
    show thesis
    proof (rule that [of ok r2])
      show "BN_nnmod m ctx r a d = Some (ok, r2)" unfolding code using True e2 by simp
      show "if ok then bn_abs d \<noteq> 0 \<and> bn_ok r2 \<and> bn_val r2 = bn_val a mod \<bar>bn_val d\<bar> \<and> bn_signed r2 \<and> bn_width r2 \<le> bn_width d
        else bn_abs d = 0 \<or> lacking m ctx [r] (bn_width a + bn_width d + 4)"
      proof (cases ok)
        case True
        then have v: "bn_val r2 = bn_val a mod \<bar>bn_val d\<bar>" using sum goal by simp
        have "\<bar>bn_val r2\<bar> < \<bar>bn_val d\<bar>" unfolding v using dr(1) pos_mod_bound [of "\<bar>bn_val d\<bar>" "bn_val a"] by (simp add: bn_val_zero)
        then have "bn_abs r2 < bn_abs d" unfolding bn_abs_val [symmetric] by simp
        then have "bn_width r2 \<le> bn_width d" using True sum res(2) bn_abs_less [OF d] by (intro width_le_value) simp_all
        then show ?thesis using True sum v dr(1) by simp
      next
        case False
        then have "bn_full m r1 (max (bn_width r1) (bn_width d) + 1)" using sum by simp
        then have "lacking m ctx [r] (bn_width a + bn_width d + 4)" by (rule lacking_full [OF _ _ f]) (use dr(3) in simp)
        then show ?thesis using False by simp
      qed
    qed (rule res(1))
  qed
qed

section \<open>Sums and differences in constant time\<close>

lemma bn_resized_from_ctx_spec:
  assumes c: "ctx_ok ctx" and b: "bn_ok bn" and e: "bn_resized_from_ctx m ctx i bn w = (x, j)"
  shows "case x of None \<Rightarrow> lacking m ctx xs w | Some a \<Rightarrow> bn_ok a \<and> w \<le> bn_width a \<and> bn_abs a = bn_abs bn"
proof (cases "w \<le> bn_width bn")
  case True
  then show ?thesis using e b by (auto simp: bn_resized_from_ctx_def)
next
  case False
  show ?thesis
  proof (cases "ctx i")
    case None
    then show ?thesis using e False by (auto simp: bn_resized_from_ctx_def bn_scratch_space_from_ctx_def lacking_def)
  next
    case (Some t)
    have t: "bn_ok t" using c Some by (simp add: ctx_ok_def)
    show ?thesis
    proof (cases rule: bn_wexpand_cases [OF t, of m w, case_names expanded full])
      case full
      then have "x = None" using e False Some by (simp add: bn_resized_from_ctx_def bn_scratch_space_from_ctx_def)
      then show ?thesis using lacking_ctx [OF full(2) order.refl, of ctx i t xs] Some by simp
    next
      case (expanded s)
      define s1 where "s1 = s\<lparr>bn_neg := False, bn_width := w\<rparr>"
      have s1: "bn_ok s1" "bn_flags s1 = bn_flags t" using expanded(2,3,8) by (simp_all add: s1_def bn_ok_def)
      have scratch: "bn_scratch_space_from_ctx m (ctx i) w = Some s1" using Some expanded(1) by (simp add: bn_scratch_space_from_ctx_def s1_def)
      obtain k u where u: "BN_copy m s1 bn = (k, u)" by fastforce
      note U = BN_copy_spec [OF s1(1) b u]
      have uf: "bn_flags u = bn_flags t" using BN_copy_flags [of m s1 bn] u s1(2) by simp
      show ?thesis
      proof (cases k)
        case k: False
        then have "x = None" "bn_full m s1 (bn_width bn)" using e False scratch u U by (simp_all add: bn_resized_from_ctx_def)
        then show ?thesis using lacking_ctx [of m s1 "bn_width bn" w ctx i t xs] Some s1(2) False by simp
      next
        case True
        then have U': "bn_ok u" "bn_limbs u = bn_limbs bn" using U by simp_all
        then have au: "bn_abs u = bn_abs bn" "bn_width u = bn_width bn"
          using length_bn_limbs [OF U'(1)] length_bn_limbs [OF b] by (simp_all add: bn_abs_def)
        obtain l v where v: "bn_resize_words m u w = (l, v)" by fastforce
        note V = bn_resize_words_spec [OF U'(1) v]
        have "bn_abs u < BN_BASE ^ w"
          using bn_abs_less [OF U'(1)] power_increasing [of "bn_width u" w BN_BASE] False au(2) by simp
        then show ?thesis
        proof (cases l)
          case True
          then have "x = Some v" using e False scratch u v \<open>k\<close> by (simp add: bn_resized_from_ctx_def)
          moreover have "bn_ok v" "bn_width v = w" "\<bar>bn_val v\<bar> = \<bar>bn_val u\<bar>" using V True by simp_all
          ultimately show ?thesis using au(1) by (simp flip: bn_abs_val)
        next
          case l: False
          assume small: "bn_abs u < BN_BASE ^ w"
          have "x = None" using e False scratch u v \<open>k\<close> l by (simp add: bn_resized_from_ctx_def)
          moreover have "bn_full m u w" using V l small by simp
          ultimately show ?thesis using lacking_ctx [of m u w w ctx i t xs] Some uf by simp
        qed
      qed
    qed
  qed
qed

lemma mod_consttime_spec:
  assumes c: "ctx_ok ctx" and r: "bn_ok r" and a: "bn_ok a" and b: "bn_ok b" and md: "bn_ok md"
    and less: "bn_abs a < bn_abs md" "bn_abs b < bn_abs md"
    and mw: "\<And>x y. bn_width md \<le> length x \<Longrightarrow> bn_width md \<le> length y \<Longrightarrow> wval (take (bn_width md) x) = bn_abs a \<Longrightarrow>
      wval (take (bn_width md) y) = bn_abs b \<Longrightarrow>
      length (mw x y (bn_d md) (bn_width md)) = bn_width md \<and> int (wval (mw x y (bn_d md) (bn_width md))) = v"
    and e: "mod_consttime m ctx mw r a b md = (ok, r')"
  shows "bn_flags r' = bn_flags r \<and>
    (if ok then bn_ok r' \<and> bn_val r' = v \<and> \<not> bn_neg r' \<and> bn_width r' = bn_width md else r' = r \<and> lacking m ctx [r] (bn_width md))"
proof -
  define w where "w = bn_width md"
  obtain a' i where ea: "bn_resized_from_ctx m ctx 0 a w = (a', i)" by fastforce
  obtain b' j where eb: "bn_resized_from_ctx m ctx i b w = (b', j)" by fastforce
  define t where "t = bn_scratch_space_from_ctx m (ctx j) w"
  note code = e [unfolded mod_consttime_def Let_def, folded w_def, unfolded ea eb prod.case, folded t_def]
  note A = bn_resized_from_ctx_spec [OF c a ea, of "[r]"] and B = bn_resized_from_ctx_spec [OF c b eb, of "[r]"]
  have T: "t = None \<Longrightarrow> lacking m ctx [r] w"
  proof (cases "ctx j")
    case None
    then show ?thesis by (auto simp: lacking_def)
  next
    case (Some x)
    assume "t = None"
    then have "\<not> fst (bn_wexpand m x w)" using Some by (auto simp: t_def bn_scratch_space_from_ctx_def split: prod.splits if_splits)
    then show ?thesis using lacking_ctx [OF bn_wexpand_fst order.refl, of m x w ctx j x "[r]"] Some by simp
  qed
  show ?thesis
  proof (cases "a' = None \<or> b' = None \<or> t = None")
    case True
    then have "\<not> ok" "r' = r" using code by (auto split: option.splits)
    moreover have "lacking m ctx [r] w" using True A B T by (auto split: option.splits)
    ultimately show ?thesis by (simp add: w_def)
  next
    case False
    then obtain x y z where xyz: "a' = Some x" "b' = Some y" "t = Some z" by auto
    have x: "bn_ok x" "w \<le> bn_width x" "bn_abs x = bn_abs a" and y: "bn_ok y" "w \<le> bn_width y" "bn_abs y = bn_abs b" using A B xyz by simp_all
    have low: "wval (take w (bn_d u)) = bn_abs u" "w \<le> length (bn_d u)" if "bn_ok u" "w \<le> bn_width u" "bn_abs u < bn_abs md" for u
    proof -
      have "bn_abs u < BN_BASE ^ w" using that(3) bn_abs_less [OF md] by (simp add: w_def)
      then have "bn_abs u mod BN_BASE ^ w = bn_abs u" by simp
      then show "wval (take w (bn_d u)) = bn_abs u"
        using wval_mod [of "bn_limbs u" w] that(2) by (simp add: bn_abs_def bn_limbs_def min_absorb1)
      show "w \<le> length (bn_d u)" using that(1,2) by (simp add: bn_ok_def)
    qed
    show ?thesis
    proof (cases rule: bn_wexpand_cases [OF r, of m w, case_names expanded full])
      case full
      then have "\<not> ok" "r' = r" using code xyz by simp_all
      then show ?thesis using lacking_full [OF full(2) order.refl refl] by (simp add: w_def)
    next
      case (expanded d)
      define ws where "ws = mw (bn_d x) (bn_d y) (bn_d md) w"
      have r': "ok" "r' = d\<lparr>bn_d := ws @ drop w (bn_d d), bn_width := w, bn_neg := False\<rparr>"
        using code xyz expanded(1) by (simp_all add: ws_def)
      have ws: "length ws = w" "int (wval ws) = v"
        using mw [of "bn_d x" "bn_d y"] low [OF x(1,2)] low [OF y(1,2)] x(3) y(3) less by (simp_all add: ws_def w_def)
      have "length (bn_d d) = bn_dmax d" using expanded(2) by (simp add: bn_ok_def)
      then have "bn_ok r'" "bn_abs r' = wval ws" using store_limbs [OF expanded(2), of ws r'] ws(1) expanded(3) by (simp_all add: r'(2))
      then show ?thesis using r' ws(2) expanded(8) by (simp add: bn_val_def w_def)
    qed
  qed
qed

lemma bn_mod_add_consttime_spec:
  assumes c: "ctx_ok ctx" and ok: "bn_ok r" "bn_ok a" "bn_ok b" "bn_ok md" and less: "bn_abs a < bn_abs md" "bn_abs b < bn_abs md"
    and e: "bn_mod_add_consttime m ctx r a b md = (ok, r')"
  shows "bn_flags r' = bn_flags r \<and>
    (if ok then bn_ok r' \<and> bn_val r' = int ((bn_abs a + bn_abs b) mod bn_abs md) \<and> \<not> bn_neg r' \<and> bn_width r' = bn_width md
     else r' = r \<and> lacking m ctx [r] (bn_width md))"
proof (rule mod_consttime_spec [OF c ok less _ e [unfolded bn_mod_add_consttime_def]])
  fix x y
  assume len: "bn_width md \<le> length x" "bn_width md \<le> length y" and v: "wval (take (bn_width md) x) = bn_abs a" "wval (take (bn_width md) y) = bn_abs b"
  have "bn_width md \<le> length (bn_d md)" "wval (take (bn_width md) (bn_d md)) = bn_abs md" using ok(4) by (simp_all add: bn_ok_def bn_abs_def bn_limbs_def)
  then show "length (bn_mod_add_words x y (bn_d md) (bn_width md)) = bn_width md \<and>
      int (wval (bn_mod_add_words x y (bn_d md) (bn_width md))) = int ((bn_abs a + bn_abs b) mod bn_abs md)"
    using bn_mod_add_words_spec [OF len, of "bn_d md"] v less by simp
qed

lemma bn_mod_sub_consttime_spec:
  assumes c: "ctx_ok ctx" and ok: "bn_ok r" "bn_ok a" "bn_ok b" "bn_ok md" and less: "bn_abs a < bn_abs md" "bn_abs b < bn_abs md"
    and e: "bn_mod_sub_consttime m ctx r a b md = (ok, r')"
  shows "bn_flags r' = bn_flags r \<and>
    (if ok then bn_ok r' \<and> bn_val r' = (int (bn_abs a) - int (bn_abs b)) mod int (bn_abs md) \<and> \<not> bn_neg r' \<and> bn_width r' = bn_width md
     else r' = r \<and> lacking m ctx [r] (bn_width md))"
proof (rule mod_consttime_spec [OF c ok less _ e [unfolded bn_mod_sub_consttime_def]])
  fix x y
  assume len: "bn_width md \<le> length x" "bn_width md \<le> length y" and v: "wval (take (bn_width md) x) = bn_abs a" "wval (take (bn_width md) y) = bn_abs b"
  have "bn_width md \<le> length (bn_d md)" "wval (take (bn_width md) (bn_d md)) = bn_abs md" using ok(4) by (simp_all add: bn_ok_def bn_abs_def bn_limbs_def)
  then show "length (bn_mod_sub_words x y (bn_d md) (bn_width md)) = bn_width md \<and>
      int (wval (bn_mod_sub_words x y (bn_d md) (bn_width md))) = (int (bn_abs a) - int (bn_abs b)) mod int (bn_abs md)"
    using bn_mod_sub_words_spec [OF len, of "bn_d md"] v less by simp
qed

section \<open>Modular arithmetic\<close>

lemma width_of_value: "bn_ok x \<Longrightarrow> bn_minimal_width x = bn_width x \<Longrightarrow> \<bar>bn_val x\<bar> < int (BN_BASE ^ k) \<Longrightarrow> bn_width x \<le> k"
  by (rule width_le_value) (simp_all flip: bn_abs_val)

lemma val_less: "bn_ok x \<Longrightarrow> bn_width x \<le> k \<Longrightarrow> \<bar>bn_val x\<bar> < int (BN_BASE ^ k)"
  using bn_abs_less [of x] power_increasing [of "bn_width x" k BN_BASE] by (simp only: bn_abs_val [symmetric] of_nat_less_iff) simp

lemma sum_width:
  assumes "bn_ok a" "bn_ok b" "bn_ok x" "bn_minimal_width x = bn_width x" "\<bar>bn_val x\<bar> \<le> \<bar>bn_val a\<bar> + \<bar>bn_val b\<bar>"
  shows "bn_width x \<le> max (bn_width a) (bn_width b) + 1"
proof (rule width_of_value [OF assms(3,4)])
  let ?k = "max (bn_width a) (bn_width b)"
  have "\<bar>bn_val a\<bar> < int (BN_BASE ^ ?k)" "\<bar>bn_val b\<bar> < int (BN_BASE ^ ?k)" using assms(1,2) by (simp_all add: val_less del: of_nat_power)
  moreover have "2 * BN_BASE ^ ?k \<le> BN_BASE ^ (?k + 1)" by (simp add: BN_BASE_def)
  then have "2 * int (BN_BASE ^ ?k) \<le> int (BN_BASE ^ (?k + 1))" by linarith
  ultimately show "\<bar>bn_val x\<bar> < int (BN_BASE ^ (?k + 1))" using assms(5) by linarith
qed

lemma product_width:
  assumes "bn_ok a" "bn_ok b" "bn_ok x" "bn_minimal_width x = bn_width x" "bn_val x = bn_val a * bn_val b"
  shows "bn_width x \<le> bn_width a + bn_width b"
proof (rule width_le_value [OF assms(3,4)])
  have "int (bn_abs x) = int (bn_abs a * bn_abs b)" by (simp add: bn_abs_val assms(5) abs_mult)
  then have "bn_abs x = bn_abs a * bn_abs b" by (simp only: of_nat_eq_iff)
  also have "\<dots> < BN_BASE ^ bn_width a * BN_BASE ^ bn_width b" by (intro mult_strict_mono' bn_abs_less assms(1,2)) simp_all
  finally show "bn_abs x < BN_BASE ^ (bn_width a + bn_width b)" by (simp add: power_add)
qed

text \<open>A remainder, or what is lacking for it.\<close>

definition mod_outcome :: "bool \<Rightarrow> int \<Rightarrow> bignum \<Rightarrow> (bool \<times> bignum) option \<Rightarrow> bool" where
  "mod_outcome failure v md result \<longleftrightarrow>
     (\<exists>ok r. result = Some (ok, r) \<and>
       (if ok then bn_abs md \<noteq> 0 \<and> bn_ok r \<and> bn_val r = v mod \<bar>bn_val md\<bar> \<and> bn_signed r else bn_abs md = 0 \<or> failure))"

lemma BN_nnmod_outcome:
  assumes "ctx_ok ctx" "bn_ok r" "bn_ok a" "bn_ok md" "bn_flags r = bn_flags r0" "bn_width a \<le> k"
  shows "mod_outcome (lacking m ctx [r0] (k + bn_width md + 4)) (bn_val a) md (BN_nnmod m ctx r a md)"
proof -
  obtain ok r' where e: "BN_nnmod m ctx r a md = Some (ok, r')" and
    s: "if ok then bn_abs md \<noteq> 0 \<and> bn_ok r' \<and> bn_val r' = bn_val a mod \<bar>bn_val md\<bar> \<and> bn_signed r' \<and> bn_width r' \<le> bn_width md
     else bn_abs md = 0 \<or> lacking m ctx [r] (bn_width a + bn_width md + 4)"
    by (rule BN_nnmod_spec [OF assms(1-4)])
  show ?thesis using s lacking_mono [OF _ _ assms(5), of m ctx "bn_width a + bn_width md + 4" "k + bn_width md + 4"] assms(6)
    unfolding mod_outcome_def e by (cases ok) auto
qed

lemma mod_outcome_failed: "failure \<Longrightarrow> mod_outcome failure v md (Some (False, r))"
  by (auto simp: mod_outcome_def)

lemma mod_outcome_mono: "mod_outcome f v md x \<Longrightarrow> (f \<Longrightarrow> g) \<Longrightarrow> mod_outcome g v md x"
  unfolding mod_outcome_def by (metis (full_types))

lemma BN_mod_add_spec:
  assumes "ctx_ok ctx" "bn_ok r" "bn_ok a" "bn_ok b" "bn_ok md"
  shows "mod_outcome (lacking m ctx [r] (max (bn_width a) (bn_width b) + 1 + bn_width md + 4)) (bn_val a + bn_val b) md (BN_mod_add m ctx r a b md)"
proof -
  obtain ok r1 where e: "BN_add m r a b = (ok, r1)" by fastforce
  note A = BN_add_spec [OF assms(2-4) e] and R = BN_add_result [OF e]
  show ?thesis
  proof (cases ok)
    case True
    then have r1: "bn_ok r1" "bn_val r1 = bn_val a + bn_val b" "bn_flags r1 = bn_flags r" "bn_minimal_width r1 = bn_width r1" using A R by simp_all
    have w: "bn_width r1 \<le> max (bn_width a) (bn_width b) + 1" by (rule sum_width [OF assms(3,4) r1(1,4)]) (simp add: r1(2))
    show ?thesis using BN_nnmod_outcome [OF assms(1) r1(1) r1(1) assms(5) r1(3) w, of m] True e r1(2) by (simp add: BN_mod_add_def)
  next
    case False
    then have "lacking m ctx [r] (max (bn_width a) (bn_width b) + 1 + bn_width md + 4)" using A by (intro lacking_full [of m r]) auto
    then show ?thesis using False e by (simp add: BN_mod_add_def mod_outcome_failed)
  qed
qed

lemma BN_mod_sub_spec:
  assumes "ctx_ok ctx" "bn_ok r" "bn_ok a" "bn_ok b" "bn_ok md"
  shows "mod_outcome (lacking m ctx [r] (max (bn_width a) (bn_width b) + 1 + bn_width md + 4)) (bn_val a - bn_val b) md (BN_mod_sub m ctx r a b md)"
proof -
  obtain ok r1 where e: "BN_sub m r a b = (ok, r1)" by fastforce
  note A = BN_sub_spec [OF assms(2-4) e] and R = BN_sub_result [OF e]
  show ?thesis
  proof (cases ok)
    case True
    then have r1: "bn_ok r1" "bn_val r1 = bn_val a - bn_val b" "bn_flags r1 = bn_flags r" "bn_minimal_width r1 = bn_width r1" using A R by simp_all
    have w: "bn_width r1 \<le> max (bn_width a) (bn_width b) + 1" by (rule sum_width [OF assms(3,4) r1(1,4)]) (simp add: r1(2))
    show ?thesis using BN_nnmod_outcome [OF assms(1) r1(1) r1(1) assms(5) r1(3) w, of m] True e r1(2) by (simp add: BN_mod_sub_def)
  next
    case False
    then have "lacking m ctx [r] (max (bn_width a) (bn_width b) + 1 + bn_width md + 4)" using A by (intro lacking_full [of m r]) auto
    then show ?thesis using False e by (simp add: BN_mod_sub_def mod_outcome_failed)
  qed
qed

lemma BN_mod_lshift1_spec:
  assumes "ctx_ok ctx" "bn_ok r" "bn_ok a" "bn_ok md"
  shows "mod_outcome (lacking m ctx [r] (bn_width a + 1 + bn_width md + 4)) (2 * bn_val a) md (BN_mod_lshift1 m ctx r a md)"
proof -
  obtain ok r1 where e: "BN_lshift1 m r a = (ok, r1)" by fastforce
  note A = BN_lshift1_spec [OF assms(2,3) e] and R = BN_lshift1_result [OF e]
  show ?thesis
  proof (cases ok)
    case True
    then have r1: "bn_ok r1" "bn_val r1 = 2 * bn_val a" "bn_flags r1 = bn_flags r" "bn_width r1 \<le> bn_width a + 1" using A R by simp_all
    then show ?thesis using BN_nnmod_outcome [OF assms(1) r1(1) r1(1) assms(4) r1(3,4)] True e by (simp add: BN_mod_lshift1_def)
  next
    case False
    then have "lacking m ctx [r] (bn_width a + 1 + bn_width md + 4)" using A by (intro lacking_full [of m r]) auto
    then show ?thesis using False e by (simp add: BN_mod_lshift1_def mod_outcome_failed)
  qed
qed

text \<open>Any of the calls may lack something.\<close>

definition lacking_calls :: "allocator \<Rightarrow> (nat \<Rightarrow> nat \<Rightarrow> bignum option) \<Rightarrow> bignum list \<Rightarrow> nat \<Rightarrow> bool" where
  "lacking_calls m ctx xs words \<longleftrightarrow> (\<exists>k. lacking m (ctx k) xs words)"

lemma lacking_callsI: "lacking m (ctx k) xs words \<Longrightarrow> lacking_calls m ctx xs words"
  by (auto simp: lacking_calls_def)

lemma mul_full_lacking: "mul_full m ctx t k \<Longrightarrow> k \<le> words \<Longrightarrow> bn_full m t k \<or> lacking m ctx xs words"
  unfolding mul_full_def by (metis lacking_ctx lacking_def)

lemma BN_mod_mul_spec:
  assumes c: "\<And>k. ctx_ok (ctx k)" and ok: "bn_ok r" "bn_ok a" "bn_ok b" "bn_ok md" and same: "same \<longrightarrow> b = a"
  shows "mod_outcome (lacking_calls m ctx [r] (8 * (bn_width a + bn_width b) + bn_width md + 4)) (bn_val a * bn_val b) md (BN_mod_mul m ctx same r a b md)"
    (is "mod_outcome ?f _ _ _")
proof (cases "ctx 0 0")
  case None
  then have ?f by (intro lacking_callsI [of m ctx 0]) (auto simp: lacking_def)
  then show ?thesis using None by (simp add: BN_mod_mul_def mod_outcome_failed)
next
  case (Some t)
  have t: "bn_ok t" using c [of 0] Some by (simp add: ctx_ok_def)
  obtain k p where p: "(if same then BN_sqr m (ctx 1) False t a else BN_mul m (ctx 1) False t a b) = (k, p)" by fastforce
  have spec: "bn_ok p \<and> (if k then bn_val p = bn_val a * bn_val b \<and> bn_minimal_width p = bn_width p else mul_full m (ctx 1) t (8 * (bn_width a + bn_width b)))"
    using p same BN_sqr_spec [OF t ok(2) c, of m 1 False k p] BN_mul_spec [OF t ok(2,3) c, of m 1 False k p]
      BN_sqr_minimal [of m "ctx 1" False t a p] BN_mul_minimal [of m "ctx 1" False t a b p] by (cases same; cases k) (simp_all add: power2_eq_square)
  show ?thesis
  proof (cases k)
    case True
    then have s: "bn_ok p" "bn_val p = bn_val a * bn_val b" "bn_width p \<le> bn_width a + bn_width b"
      using spec product_width [OF ok(2,3), of p] by simp_all
    have "mod_outcome (lacking m (ctx 2) [r] (8 * (bn_width a + bn_width b) + bn_width md + 4)) (bn_val a * bn_val b) md (BN_nnmod m (ctx 2) r p md)"
      using BN_nnmod_outcome [OF c ok(1) s(1) ok(4) refl, of "8 * (bn_width a + bn_width b)" m 2] s(2,3) by simp
    then have "mod_outcome ?f (bn_val a * bn_val b) md (BN_nnmod m (ctx 2) r p md)" by (rule mod_outcome_mono) (rule lacking_callsI)
    then show ?thesis using True Some p by (simp add: BN_mod_mul_def)
  next
    case False
    then have "mul_full m (ctx 1) t (8 * (bn_width a + bn_width b))" using spec by simp
    from mul_full_lacking [OF this, of "8 * (bn_width a + bn_width b) + bn_width md + 4" "[r]"] have ?f
      using lacking_ctx [of m t "8 * (bn_width a + bn_width b)" "8 * (bn_width a + bn_width b) + bn_width md + 4" "ctx 0" 0 t "[r]"] Some
      by (auto intro: lacking_callsI)
    then show ?thesis using False Some p by (simp add: BN_mod_mul_def mod_outcome_failed)
  qed
qed

lemma BN_mod_sqr_spec:
  assumes c: "\<And>k. ctx_ok (ctx k)" and ok: "bn_ok r" "bn_ok a" "bn_ok md"
  shows "mod_outcome (lacking_calls m ctx [r] (16 * bn_width a + bn_width md + 4)) ((bn_val a)\<^sup>2) md (BN_mod_sqr m ctx alias r a md)"
    (is "mod_outcome ?f _ _ _")
proof -
  obtain k p where p: "BN_sqr m (ctx 0) alias r a = (k, p)" by fastforce
  note S = BN_sqr_spec [OF ok(1,2) c p]
  have pf: "bn_flags p = bn_flags r" using BN_sqr_flags [of m "ctx 0" "alias" r a] p by simp
  show ?thesis
  proof (cases k)
    case True
    then have s: "bn_ok p" "bn_val p = (bn_val a)\<^sup>2" "bn_signed p" using S by simp_all
    have w: "bn_width p \<le> bn_width a + bn_width a"
      using product_width [OF ok(2,2) s(1) BN_sqr_minimal] p True s(2) by (simp add: power2_eq_square)
    have nn: "\<not> bn_neg p" using bn_signed_neg [OF s(3)] by (simp add: s(2))
    obtain l r' where e: "BN_mod m (ctx 1) p p md = Some (l, r')" and
      d: "if l then bn_abs md \<noteq> 0 \<and> div_remainder False p md r' \<and> bn_width r' \<le> bn_width md
        else bn_abs md = 0 \<or> lacking m (ctx 1) [p] (bn_width p + bn_width md + 4)"
      by (rule BN_mod_spec [OF c s(1) s(1) ok(3)])
    have "mod_outcome ?f ((bn_val a)\<^sup>2) md (Some (l, r'))"
    proof (cases l)
      case True
      then have "bn_abs md \<noteq> 0" "div_remainder False p md r'" using d by simp_all
      moreover have "int (bn_abs p mod bn_abs md) = (bn_val a)\<^sup>2 mod \<bar>bn_val md\<bar>"
        unfolding zmod_int bn_abs_val s(2) by simp
      ultimately show ?thesis using True nn div_remainder_val [of False p md r'] by (auto simp: mod_outcome_def div_remainder_def)
    next
      case False
      then have "bn_abs md = 0 \<or> lacking m (ctx 1) [r] (16 * bn_width a + bn_width md + 4)"
        using d lacking_mono [OF _ _ pf, of m "ctx 1" "bn_width p + bn_width md + 4" "16 * bn_width a + bn_width md + 4"] w by auto
      then show ?thesis using False by (auto simp: mod_outcome_def intro: lacking_callsI)
    qed
    then show ?thesis using True p e by (simp add: BN_mod_sqr_def)
  next
    case False
    then have "mul_full m (ctx 0) r (16 * bn_width a)" using S by simp
    from mul_full_lacking [OF this, of "16 * bn_width a + bn_width md + 4" "[r]"] have "lacking m (ctx 0) [r] (16 * bn_width a + bn_width md + 4)"
      using lacking_full [of m r "16 * bn_width a" "16 * bn_width a + bn_width md + 4" r "ctx 0"] by auto
    then have ?f by (rule lacking_callsI)
    then show ?thesis using False p by (simp add: BN_mod_sqr_def mod_outcome_failed)
  qed
qed

section \<open>Modular shifts\<close>

lemma mod_lshift_loop_spec:
  assumes c: "\<And>k. ctx_ok (ctx k)" and ok: "bn_ok r" "bn_ok md" and less: "bn_abs r < bn_abs md" and e: "mod_lshift_loop m ctx r n md = (ok, r')"
  shows "bn_flags r' = bn_flags r \<and>
    (if ok then bn_ok r' \<and> bn_abs r' = bn_abs r * 2 ^ n mod bn_abs md \<and> (bn_neg r' \<longrightarrow> n = 0 \<and> bn_neg r)
     else lacking_calls m ctx [r] (bn_width md))"
  using assms
proof (induction n arbitrary: ctx r)
  case 0
  then show ?case by auto
next
  case (Suc n)
  obtain k r1 where r1: "bn_mod_lshift1_consttime m (ctx 0) r r md = (k, r1)" by fastforce
  note S = bn_mod_add_consttime_spec [OF Suc.prems(1) Suc.prems(2) Suc.prems(2) Suc.prems(2) Suc.prems(3) Suc.prems(4) Suc.prems(4),
      OF r1 [unfolded bn_mod_lshift1_consttime_def]]
  show ?case
  proof (cases k)
    case False
    then show ?thesis using S r1 Suc.prems(5) by (auto intro: lacking_callsI)
  next
    case True
    then have s: "bn_ok r1" "bn_val r1 = int ((bn_abs r + bn_abs r) mod bn_abs md)" "\<not> bn_neg r1" "bn_flags r1 = bn_flags r" using S by simp_all
    have ab: "bn_abs r1 = 2 * bn_abs r mod bn_abs md" using s(2,3) by (simp add: bn_val_def mult_2)
    have "bn_abs r1 < bn_abs md" unfolding ab using Suc.prems(4) by (intro mod_less_divisor) simp
    have "mod_lshift_loop m (\<lambda>k. ctx (k + 1)) r1 n md = (ok, r')" using Suc.prems(5) r1 True by simp
    note IH = Suc.IH [OF Suc.prems(1) s(1) Suc.prems(3) \<open>bn_abs r1 < bn_abs md\<close> this]
    note ih = IH [THEN conjunct1] IH [THEN conjunct2]
    show ?thesis
    proof (cases ok)
      case True
      then have "bn_abs r' = (2 * bn_abs r mod bn_abs md) * 2 ^ n mod bn_abs md" using ih(2) ab by simp
      also have "\<dots> = 2 * bn_abs r * 2 ^ n mod bn_abs md" by (rule mod_mult_left_eq)
      finally have "bn_abs r' = bn_abs r * 2 ^ Suc n mod bn_abs md" by (simp add: ac_simps)
      then show ?thesis using True ih s by simp
    next
      case False
      then obtain k where "lacking m (ctx (k + 1)) [r1] (bn_width md)" using ih(2) by (auto simp: lacking_calls_def)
      then have "lacking m (ctx (k + 1)) [r] (bn_width md)" by (rule lacking_mono [OF _ order.refl s(4)])
      then show ?thesis using False ih(1) s(4) by (auto intro: lacking_callsI)
    qed
  qed
qed

lemma bn_mod_lshift_consttime_spec:
  assumes c: "\<And>k. ctx_ok (ctx k)" and ok: "bn_ok r" "bn_ok a" "bn_ok md" and less: "bn_abs a < bn_abs md"
    and e: "bn_mod_lshift_consttime m ctx r a n md = (ok, r')"
  shows "if ok then bn_ok r' \<and> bn_abs r' = bn_abs a * 2 ^ nat n mod bn_abs md \<and> (bn_neg r' \<longrightarrow> bn_neg a)
    else lacking_calls m ctx [r] (max (bn_width a) (bn_width md))"
proof -
  obtain k r1 where r1: "BN_copy m r a = (k, r1)" by fastforce
  note S = BN_copy_spec [OF ok(1,2) r1]
  have f: "bn_flags r1 = bn_flags r" using BN_copy_flags [of m r a] r1 by simp
  show ?thesis
  proof (cases k)
    case False
    then have "bn_full m r (bn_width a)" "\<not> ok" using S e r1 by (simp_all add: bn_mod_lshift_consttime_def)
    then show ?thesis using lacking_callsI [of m ctx 0, OF lacking_full [of m r "bn_width a" "max (bn_width a) (bn_width md)" r "ctx 0"]] by simp
  next
    case True
    then have s: "bn_ok r1" "bn_abs r1 = bn_abs a" "bn_neg r1 = bn_neg a" using S by (simp_all add: bn_abs_def)
    have "mod_lshift_loop m ctx r1 (nat n) md = (ok, r')" using e r1 True by (simp add: bn_mod_lshift_consttime_def)
    from mod_lshift_loop_spec [OF c s(1) ok(3) _ this] less s(2,3) have
      "if ok then bn_ok r' \<and> bn_abs r' = bn_abs a * 2 ^ nat n mod bn_abs md \<and> (bn_neg r' \<longrightarrow> bn_neg a) else lacking_calls m ctx [r1] (bn_width md)"
      by (simp split: if_splits)
    then show ?thesis using lacking_mono [OF _ _ f, of m _ "bn_width md" "max (bn_width a) (bn_width md)"] by (auto simp: lacking_calls_def split: if_splits)
  qed
qed

lemma BN_dup_width: "bn_ok x \<Longrightarrow> BN_dup m (Some x) = Some y \<Longrightarrow> bn_width y = bn_width x"
  by (auto simp: BN_dup_def BN_copy_def split: option.splits prod.splits if_splits)

lemma BN_mod_lshift_spec:
  assumes c: "\<And>k. ctx_ok (ctx k)" and ok: "bn_ok r" "bn_ok a" "bn_ok md"
  shows "mod_outcome (lacking_calls m ctx [r] (bn_width a + bn_width md + 4)) (bn_val a * 2 ^ nat n) md (BN_mod_lshift m ctx r a n md)"
    (is "mod_outcome ?f _ _ _")
proof -
  obtain k r1 where e: "BN_nnmod m (ctx 0) r a md = Some (k, r1)" "bn_flags r1 = bn_flags r" and
    s: "if k then bn_abs md \<noteq> 0 \<and> bn_ok r1 \<and> bn_val r1 = bn_val a mod \<bar>bn_val md\<bar> \<and> bn_signed r1 \<and> bn_width r1 \<le> bn_width md
     else bn_abs md = 0 \<or> lacking m (ctx 0) [r] (bn_width a + bn_width md + 4)"
    by (rule BN_nnmod_spec [OF c ok])
  show ?thesis
  proof (cases k)
    case False
    then have "bn_abs md = 0 \<or> ?f" using s by (auto intro: lacking_callsI)
    then show ?thesis using False e(1) by (auto simp: BN_mod_lshift_def mod_outcome_def)
  next
    case True
    then have r1: "bn_abs md \<noteq> 0" "bn_ok r1" "bn_val r1 = bn_val a mod \<bar>bn_val md\<bar>" "bn_signed r1" "bn_width r1 \<le> bn_width md" using s by simp_all
    have pos: "0 < \<bar>bn_val md\<bar>" using r1(1) by (simp add: bn_val_zero)
    have nn: "\<not> bn_neg r1" "int (bn_abs r1) = bn_val a mod \<bar>bn_val md\<bar>"
      using bn_signed_neg [OF r1(4)] pos_mod_sign [OF pos, of "bn_val a"] r1(3) by (auto simp: bn_val_def)
    have less: "bn_abs r1 < bn_abs md"
    proof -
      have "int (bn_abs r1) < int (bn_abs md)" unfolding nn(2) unfolding bn_abs_val by (rule pos_mod_bound [OF pos])
      then show ?thesis by simp
    qed
    have shift: "mod_outcome ?f (bn_val a * 2 ^ nat n) md (Some (bn_mod_lshift_consttime m (\<lambda>k. ctx (k + 1)) r1 r1 n x))"
      if x: "bn_ok x" "bn_abs x = bn_abs md" "bn_width x \<le> bn_width md" for x
    proof -
      obtain l r2 where r2: "bn_mod_lshift_consttime m (\<lambda>k. ctx (k + 1)) r1 r1 n x = (l, r2)" by fastforce
      note L = bn_mod_lshift_consttime_spec [OF c r1(2) r1(2) x(1) _ r2]
      have "mod_outcome ?f (bn_val a * 2 ^ nat n) md (Some (l, r2))"
      proof (cases l)
        case True
        then have l: "bn_ok r2" "bn_abs r2 = bn_abs r1 * 2 ^ nat n mod bn_abs md" "\<not> bn_neg r2" using L less x(2) nn(1) by auto
        have "bn_val r2 = int (bn_abs r1) * 2 ^ nat n mod int (bn_abs md)" using l(2,3) by (simp add: bn_val_def zmod_int)
        also have "\<dots> = (bn_val a mod \<bar>bn_val md\<bar>) * 2 ^ nat n mod int (bn_abs md)" by (simp only: nn(2))
        also have "\<dots> = (bn_val a mod \<bar>bn_val md\<bar>) * 2 ^ nat n mod \<bar>bn_val md\<bar>" by (simp only: bn_abs_val)
        finally have "bn_val r2 = bn_val a * 2 ^ nat n mod \<bar>bn_val md\<bar>" by (simp only: mod_mult_left_eq)
        then show ?thesis using True r1(1) l by (auto simp: mod_outcome_def bn_signed_def)
      next
        case False
        then have "lacking_calls m (\<lambda>k. ctx (k + 1)) [r1] (max (bn_width r1) (bn_width x))" using L less x(2) by simp
        then obtain i where "lacking m (ctx (i + 1)) [r1] (max (bn_width r1) (bn_width x))" by (auto simp: lacking_calls_def)
        then have "lacking m (ctx (i + 1)) [r] (bn_width a + bn_width md + 4)" by (rule lacking_mono [OF _ _ e(2)]) (use r1(5) x(3) in simp)
        then have ?f by (rule lacking_callsI)
        then show ?thesis using False by (simp add: mod_outcome_failed)
      qed
      then show ?thesis unfolding r2 .
    qed
    show ?thesis
    proof (cases "bn_neg md")
      case False
      then show ?thesis using shift [OF ok(3) refl order.refl] True e(1) by (simp add: BN_mod_lshift_def)
    next
      case neg: True
      note D = BN_dup_spec [OF ok(3), of m]
      show ?thesis
      proof (cases "BN_dup m (Some md)")
        case None
        then have "\<not> malloc_total m \<or> 2 ^ 23 \<le> bn_width md" using D by simp
        then have ?f by (intro lacking_callsI [of m ctx 0]) (auto simp: lacking_def cannot_grow_def)
        then show ?thesis using None neg True e(1) by (simp add: BN_mod_lshift_def mod_outcome_failed)
      next
        case (Some x)
        have w: "bn_width x = bn_width md" using BN_dup_width [OF ok(3) Some] .
        have "bn_ok x" "bn_val x = bn_val md" using D Some by simp_all
        then have x: "bn_ok (x\<lparr>bn_neg := False\<rparr>)" "bn_abs (x\<lparr>bn_neg := False\<rparr>) = bn_abs md"
          using bn_abs_val [of x] bn_abs_val [of md] by (simp_all add: bn_ok_def bn_abs_def bn_limbs_def)
        show ?thesis using shift [OF x] w Some neg True e(1) by (simp add: BN_mod_lshift_def)
      qed
    qed
  qed
qed

section \<open>Division in constant time\<close>

lemma unat_or_bit:
  assumes "\<not> bit (q :: limb) b" "b < 64"
  shows "unat (q OR push_bit b 1) = unat q + 2 ^ b"
proof -
  have "(2 :: nat) ^ b < 2 ^ 64" using assms(2) by (intro power_strict_increasing) simp_all
  then have p: "unat (push_bit b 1 :: limb) = 2 ^ b" by (simp only: unsigned_push_bit_eq) (simp add: take_bit_eq_mod push_bit_eq_mult)
  have "unat q AND 2 ^ b = 0"
    by (rule bit_eqI) (use assms(1) in \<open>auto simp: bit_simps\<close>)
  then have "unat q + 2 ^ b = unat q OR 2 ^ b" by (rule disjunctive_add_eq_or)
  then show ?thesis by (simp only: unsigned_or_eq p)
qed

lemma single_bit: "drop_bit b n AND 1 = (of_bool (bit (n :: limb) b) :: limb)"
  by (rule bit_word_eqI) (auto simp: bit_simps)

lemma mod_Suc_bit: "unat (n :: limb) mod 2 ^ Suc b = 2 ^ b * of_bool (bit n b) + unat n mod 2 ^ b"
proof -
  have "take_bit (Suc b) (unat n) = take_bit b (unat n) + 2 ^ b * of_bool (bit (unat n) b)" by (rule take_bit_Suc_from_most [THEN trans]) simp
  moreover have "bit (unat n) b \<longleftrightarrow> bit n b" by (auto simp: bit_simps dest: bit_imp_le_length)
  ultimately show ?thesis by (simp add: take_bit_eq_mod)
qed

text \<open>A bit of the numerator is appended to the remainder.\<close>

lemma append_bit:
  assumes w: "length r = w" "0 < w" and s: "bn_add_words r r w = (s, c)"
  shows "length (s[0 := s ! 0 OR (drop_bit b n AND 1)]) = w"
    "wval (s[0 := s ! 0 OR (drop_bit b n AND 1)]) + BN_BASE ^ w * unat c = 2 * wval r + of_bool (bit n b)"
proof -
  have "w \<le> length r" using w by simp
  from bn_add_words_spec [OF this this] s have sum: "length s = w" "wval s + BN_BASE ^ w * unat c = 2 * wval r"
    using w(1) by (auto simp: mult_2)
  then show "length (s[0 := s ! 0 OR (drop_bit b n AND 1)]) = w" by simp
  obtain x xs where x: "s = x # xs" using sum(1) w(2) by (cases s) auto
  have "even (BN_BASE ^ w)" "even BN_BASE" using w(2) by (simp_all add: BN_BASE_def)
  then have "even (unat x)" using sum(2) x by (metis even_add even_mult_iff wval.simps(2) dvd_triv_left)
  then have "\<not> bit x 0" by (simp add: bit_0 flip: odd_unat)
  then have "unat (x OR (drop_bit b n AND 1)) = unat x + of_bool (bit n b)"
    using unat_or_bit [of x 0] by (simp add: single_bit)
  then show "wval (s[0 := s ! 0 OR (drop_bit b n AND 1)]) + BN_BASE ^ w * unat c = 2 * wval r + of_bool (bit n b)"
    using sum(2) x by simp
qed

lemma div_bits_spec:
  assumes "length r = w" "w \<le> length d" "wval r < wval (take w d)" "2 ^ k dvd unat q" "k \<le> 64"
  shows "\<exists>r' q'. div_bits d w n k r q = (r', q') \<and> length r' = w \<and>
    wval r' = (wval r * 2 ^ k + unat n mod 2 ^ k) mod wval (take w d) \<and>
    unat q' = unat q + (wval r * 2 ^ k + unat n mod 2 ^ k) div wval (take w d)"
  using assms(1,3-)
proof (induction k arbitrary: r q)
  case 0
  then show ?case by simp
next
  case (Suc b)
  define D R where "D = wval (take w d)" and "R = 2 * wval r + of_bool (bit n b)"
  have w: "0 < w" using Suc.prems(2) by (cases w) simp_all
  obtain s c where s: "bn_add_words r r w = (s, c)" by fastforce
  define t where "t = s[0 := s ! 0 OR (drop_bit b n AND 1)]"
  have t: "length t = w" "R = wval (take w t) + BN_BASE ^ w * unat c"
    using append_bit [OF Suc.prems(1) w s, of b n] by (simp_all add: t_def R_def)
  have RD: "R < 2 * D" using Suc.prems(2) by (auto simp: R_def D_def)
  obtain u m where u: "bn_reduce_once t c d w = (u, m)" "length u = w" "wval u = R mod D" "m = ct_mask (R < D)"
    unfolding D_def by (rule bn_reduce_once_spec [of w t d R c]) (use t RD assms(2) in \<open>auto simp: D_def\<close>)
  have D0: "0 < D" using Suc.prems(2) by (simp add: D_def)
  have quo: "R div D = (if R < D then 0 else 1)"
    using RD D0 by (auto intro: div_nat_eqI)
  define q1 where "q1 = q OR push_bit b (NOT m AND 1)"
  have q1: "unat q1 = unat q + 2 ^ b * (R div D)" "2 ^ b dvd unat q1"
  proof -
    have "(2 :: nat) ^ b dvd 2 ^ Suc b" by simp
    then have dvd: "2 ^ b dvd unat q" using Suc.prems(3) by (rule dvd_trans)
    have "\<not> bit q b"
    proof -
      obtain j where "unat q = 2 ^ Suc b * j" using Suc.prems(3) by (rule dvdE)
      then have "unat q div 2 ^ b = 2 * j" by simp
      then have "\<not> bit (unat q) b" by (simp add: bit_iff_odd)
      then show ?thesis by (auto simp: bit_simps dest: bit_imp_le_length)
    qed
    moreover have "NOT m AND 1 = (if R < D then 0 else 1)" by (simp add: u(4) ct_mask_def)
    ultimately show "unat q1 = unat q + 2 ^ b * (R div D)"
      using unat_or_bit [of q b] Suc.prems(4) unfolding q1_def quo by (cases "R < D") simp_all
    then show "2 ^ b dvd unat q1" using dvd by simp
  qed
  have "wval u < wval (take w d)" using u(3) D0 by (simp add: D_def)
  from Suc.IH [OF u(2) this q1(2)] Suc.prems(4) obtain r' q' where ih: "div_bits d w n b u q1 = (r', q')" "length r' = w"
    "wval r' = (wval u * 2 ^ b + unat n mod 2 ^ b) mod D" "unat q' = unat q1 + (wval u * 2 ^ b + unat n mod 2 ^ b) div D"
    unfolding D_def by auto
  have total: "wval r * 2 ^ Suc b + unat n mod 2 ^ Suc b = (wval u * 2 ^ b + unat n mod 2 ^ b) + 2 ^ b * (R div D) * D"
  proof -
    have "wval r * 2 ^ Suc b + unat n mod 2 ^ Suc b = R * 2 ^ b + unat n mod 2 ^ b"
      unfolding mod_Suc_bit by (simp add: R_def algebra_simps)
    also have "R = wval u + R div D * D" by (simp add: u(3))
    finally show ?thesis by (simp add: algebra_simps)
  qed
  have "div_bits d w n (Suc b) r q = (r', q')"
    unfolding div_bits.simps s Let_def prod.case t_def [symmetric] bn_reduce_once_in_place_eq u(1) q1_def [symmetric] by (rule ih(1))
  then show ?case using ih(2-4) q1(1) D0 unfolding total D_def [symmetric] by simp
qed

lemma div_limbs_spec:
  assumes "length r = w" "w \<le> length d" "wval r < wval (take w d)"
  shows "\<exists>r' qs. div_limbs d w ns r = (r', qs) \<and> length r' = w \<and> length qs = length ns \<and> wval r' < wval (take w d) \<and>
    wval r * BN_BASE ^ length ns + wval (rev ns) = wval (rev qs) * wval (take w d) + wval r'"
  using assms(1,3)
proof (induction ns arbitrary: r)
  case Nil
  then show ?case by simp
next
  case (Cons n ns)
  define D N where "D = wval (take w d)" and "N = wval r * BN_BASE + unat n"
  have nb: "unat n mod 2 ^ 64 = unat n" using limb_less [of n] by (simp add: BN_BASE_def del: limb_less)
  obtain r1 q where b: "div_bits d w n BN_BITS2 r 0 = (r1, q)" "length r1 = w" "wval r1 = N mod D" "unat q = N div D"
    using div_bits_spec [OF Cons.prems(1) assms(2) Cons.prems(2), of 64 0 n] nb by (auto simp: D_def N_def BN_BITS2_def BN_BASE_def)
  have "0 < D" using Cons.prems(2) by (simp add: D_def)
  then have "wval r1 < wval (take w d)" using b(3) by (simp add: D_def)
  from Cons.IH [OF b(2) this] obtain r' qs where ih: "div_limbs d w ns r1 = (r', qs)" "length r' = w" "length qs = length ns" "wval r' < D"
    "wval r1 * BN_BASE ^ length ns + wval (rev ns) = wval (rev qs) * D + wval r'" unfolding D_def by blast
  have "N = unat q * D + wval r1" by (simp add: b(3,4))
  have "wval r * BN_BASE ^ length (n # ns) + wval (rev (n # ns)) = N * BN_BASE ^ length ns + wval (rev ns)"
    by (simp add: wval_snoc N_def algebra_simps)
  also have "\<dots> = unat q * D * BN_BASE ^ length ns + (wval r1 * BN_BASE ^ length ns + wval (rev ns))"
    unfolding \<open>N = unat q * D + wval r1\<close> by (simp add: algebra_simps)
  also have "\<dots> = wval (rev (q # qs)) * D + wval r'"
    unfolding ih(5) using ih(3) by (simp add: wval_snoc algebra_simps)
  finally show ?case using ih b(1) by (simp add: D_def)
qed

lemma deliver_spec:
  assumes x: "bn_ok x" and d: "pred_option bn_ok dest" and e: "deliver m alias dest x = (ok, y)"
  shows "if ok then rel_option (\<lambda>_ z. bn_ok z \<and> bn_val z = bn_val x \<and> bn_neg z = bn_neg x \<and> bn_width z = bn_width x) dest y
    else \<exists>z. dest = Some z \<and> alias \<and> bn_full m z (bn_width x)"
proof (cases "alias \<and> dest \<noteq> None")
  case True
  then obtain z where z: "dest = Some z" "bn_ok z" using d by auto
  obtain k u where u: "BN_copy m z x = (k, u)" by fastforce
  have k: "ok = k" "y = Some u" using e z(1) u True by (simp_all add: deliver_def)
  note S = BN_copy_spec [OF z(2) x u]
  show ?thesis
  proof (cases k)
    case k1: True
    then have "bn_ok u" "bn_limbs u = bn_limbs x" "bn_val u = bn_val x" "bn_neg u = bn_neg x" using S by simp_all
    moreover have "bn_width u = bn_width x" using length_bn_limbs [OF \<open>bn_ok u\<close>] length_bn_limbs [OF x] \<open>bn_limbs u = bn_limbs x\<close> by simp
    ultimately show ?thesis using k k1 z(1) by simp
  next
    case False
    then show ?thesis using S k z(1) True by simp
  qed
next
  case False
  then show ?thesis using e x by (cases dest) (auto simp: deliver_def)
qed

lemma lacking_mem: "bn_full m x k \<Longrightarrow> k \<le> words \<Longrightarrow> x \<in> set xs \<or> ctx i = Some x \<Longrightarrow> lacking m ctx xs words"
  by (auto simp: lacking_def cannot_grow_def bn_full_def)

lemma bn_div_consttime_spec:
  assumes c: "ctx_ok ctx" and ok: "pred_option bn_ok quo" "pred_option bn_ok rem" "bn_ok n" "bn_ok d"
    and xs: "set_option quo \<union> set_option rem \<subseteq> set xs"
    and e: "bn_div_consttime m ctx q_alias r_alias quo rem n d = (ok, q', r')"
  shows "if ok then \<not> bn_neg n \<and> \<not> bn_neg d \<and> bn_abs d \<noteq> 0 \<and>
      rel_option (\<lambda>_ z. bn_ok z \<and> bn_val z = int (bn_abs n div bn_abs d) \<and> \<not> bn_neg z \<and> bn_width z = bn_width n) quo q' \<and>
      rel_option (\<lambda>_ z. bn_ok z \<and> bn_val z = int (bn_abs n mod bn_abs d) \<and> \<not> bn_neg z \<and> bn_width z = bn_width d) rem r'
    else bn_neg n \<or> bn_neg d \<or> bn_abs d = 0 \<or> lacking m ctx xs (max (bn_width n) (bn_width d))"
proof (cases "bn_neg n \<or> bn_neg d \<or> bn_abs d = 0")
  case True
  have "\<not> ok"
  proof (cases "bn_neg n \<or> bn_neg d")
    case True
    then show ?thesis using e by (auto simp: bn_div_consttime_def BN_is_negative_def)
  next
    case False
    then have "BN_is_zero d" using True by (simp add: BN_is_zero_spec [OF ok(4)])
    then show ?thesis using e False by (simp add: bn_div_consttime_def BN_is_negative_def)
  qed
  then show ?thesis using True by auto
next
  case ops: False
  let ?W = "max (bn_width n) (bn_width d)"
  obtain q0 i where q0: "(if quo = None \<or> q_alias then (ctx 0, 1) else (quo, 0 :: nat)) = (q0, i)" by fastforce
  obtain r0 j where r0: "(if rem = None \<or> r_alias then (ctx i, i + 1) else (rem, i)) = (r0, j)" by fastforce
  have ops': "\<not> (BN_is_negative n \<or> BN_is_negative d)" "\<not> BN_is_zero d" using ops BN_is_zero_spec [OF ok(4)] by (simp_all add: BN_is_negative_def)
  note code = e [unfolded bn_div_consttime_def if_not_P [OF ops'(1)] if_not_P [OF ops'(2)] q0 r0 Let_def prod.case]
  show ?thesis
  proof (cases "q0 = None \<or> r0 = None \<or> ctx j = None")
    case True
    have "\<not> ok" using code True by (auto split: option.splits)
    moreover have "lacking m ctx xs ?W" using True q0 r0 by (auto simp: lacking_def split: if_splits)
    ultimately show ?thesis by simp
  next
    case False
    then obtain q r t where o: "q0 = Some q" "r0 = Some r" "ctx j = Some t" by auto
    have src: "q \<in> set xs \<or> (\<exists>i. ctx i = Some q)" "r \<in> set xs \<or> (\<exists>i. ctx i = Some r)" using o q0 r0 xs by (auto split: if_splits)
    have oks: "bn_ok q" "bn_ok r" "bn_ok t" using o q0 r0 c ok(1,2) by (auto simp: ctx_ok_def split: if_splits)
    note code = code [unfolded o option.case prod.case]
    show ?thesis
    proof (cases rule: bn_wexpand_cases [OF oks(1), of m "bn_width n", case_names expanded full])
      case full
      then have "\<not> ok" using code by simp
      then show ?thesis using lacking_mem [OF full(2), of ?W xs ctx] src(1) by auto
    next
      case (expanded q1)
      note q1 = expanded
      note code = code [unfolded q1(1) prod.case]
      show ?thesis
      proof (cases rule: bn_wexpand_cases [OF oks(2), of m "bn_width d", case_names expanded full])
        case full
        then have "\<not> ok" using code by simp
        then show ?thesis using lacking_mem [OF full(2), of ?W xs ctx] src(2) by auto
      next
        case (expanded r1)
        note r1 = expanded
        note code = code [unfolded r1(1) prod.case]
        show ?thesis
        proof (cases "fst (bn_wexpand m t (bn_width d))")
          case False
          then have "\<not> ok" using code by simp
          then show ?thesis using lacking_mem [OF bn_wexpand_fst [OF False], of ?W xs ctx j] o(3) by auto
        next
          case True
          define w ns where "w = bn_width d" and "ns = rev (take (bn_width n) (bn_d n))"
          have nl: "length ns = bn_width n" "wval (rev ns) = bn_abs n" using ok(3) by (simp_all add: ns_def bn_ok_def bn_abs_def bn_limbs_def)
          have dl: "w \<le> length (bn_d d)" "wval (take w (bn_d d)) = bn_abs d" using ok(4) by (simp_all add: w_def bn_ok_def bn_abs_def bn_limbs_def)
          from div_limbs_spec [of "replicate w 0" w "bn_d d" ns] dl ops obtain rs qs where l:
            "div_limbs (bn_d d) w ns (replicate w 0) = (rs, qs)" "length rs = w" "length qs = bn_width n" "wval rs < bn_abs d"
            "bn_abs n = wval (rev qs) * bn_abs d + wval rs" by (auto simp: nl)
          have qv: "wval (rev qs) = bn_abs n div bn_abs d" "wval rs = bn_abs n mod bn_abs d" unfolding l(5) using l(4) by simp_all
          define q2 r2 where "q2 = q1\<lparr>bn_d := rev qs @ drop (bn_width n) (bn_d q1), bn_width := bn_width n, bn_neg := False\<rparr>"
            and "r2 = r1\<lparr>bn_d := rs @ drop w (bn_d r1), bn_width := w, bn_neg := False\<rparr>"
          have lens: "length (bn_d q1) = bn_dmax q1" "length (bn_d r1) = bn_dmax r1" using q1(2) r1(2) by (simp_all add: bn_ok_def)
          have q2: "bn_ok q2" "bn_val q2 = int (bn_abs n div bn_abs d)" "\<not> bn_neg q2" "bn_width q2 = bn_width n"
            using store_limbs [OF q1(2), of "rev qs" q2] lens q1(3) l(3) qv by (simp_all add: q2_def)
          have r2: "bn_ok r2" "bn_val r2 = int (bn_abs n mod bn_abs d)" "\<not> bn_neg r2" "bn_width r2 = bn_width d"
            using store_limbs [OF r1(2), of rs r2] lens r1(3) l(2) qv by (simp_all add: r2_def w_def)
          note l1 = l(1) [unfolded w_def ns_def]
          note code = code [unfolded if_not_P [OF not_not [THEN iffD2, OF True]] l1 prod.case, folded w_def, folded q2_def r2_def]
          obtain k1 q3 where d1: "deliver m q_alias quo q2 = (k1, q3)" by fastforce
          obtain k2 r3 where d2: "deliver m r_alias rem r2 = (k2, r3)" by fastforce
          note D1 = deliver_spec [OF q2(1) ok(1) d1] and D2 = deliver_spec [OF r2(1) ok(2) d2]
          have res: "if k1 then ok = k2 \<and> q' = q3 \<and> r' = r3 else \<not> ok" using code d1 d2 by (auto split: if_splits)
          show ?thesis
          proof (cases "k1 \<and> k2")
            case True
            then have "rel_option (\<lambda>_ z. bn_ok z \<and> bn_val z = int (bn_abs n div bn_abs d) \<and> \<not> bn_neg z \<and> bn_width z = bn_width n) quo q3"
              "rel_option (\<lambda>_ z. bn_ok z \<and> bn_val z = int (bn_abs n mod bn_abs d) \<and> \<not> bn_neg z \<and> bn_width z = bn_width d) rem r3"
              using D1 D2 q2 r2 by (auto elim!: option.rel_mono_strong)
            then show ?thesis using res True ops by simp
          next
            case False
            then have "\<not> ok" using res by (auto split: if_splits)
            moreover have "lacking m ctx xs ?W"
            proof (cases k1)
              case True
              then obtain z where "rem = Some z" "bn_full m z (bn_width r2)" using False D2 by auto
              then show ?thesis using lacking_mem [of m z "bn_width r2" ?W xs ctx] xs r2(4) by auto
            next
              case False
              then obtain z where "quo = Some z" "bn_full m z (bn_width q2)" using D1 by auto
              then show ?thesis using lacking_mem [of m z "bn_width q2" ?W xs ctx] xs q2(4) by auto
            qed
            ultimately show ?thesis by simp
          qed
        qed
      qed
    qed
  qed
qed

end
