(* ===== verification/Spec2Isabelle.thy ===== *)
theory Spec2Isabelle
  imports Cbb_Set Oid Unicode Ber_Trees Der_Bits Buf Base64_Decode Stack Lhash_Iter Pool_Steps Err_String
    Asn1_Time_Grammar Asn1_Header Asn1_Integer Asn1_Bitstring Bn_Mod
begin

text \<open>
  A verification library for the C code of this repository.

  \<^bold>\<open>The program.\<close> waxxy.live is an iOS application; its own code is Swift glue over UIKit and Firebase.
  The core logic in C comes with the vendored pods. This library covers the data layer of
  BoringSSL (\<^verbatim>\<open>Pods/BoringSSL-GRPC/src/crypto\<close>, called crypto/ below), which every TLS connection of
  the application (gRPC, Firestore) parses certificates and messages with, and keeps its
  objects, buffers and errors in.

  \<^bold>\<open>Parts and theories.\<close>
  \<^item> Prelude: types, sizes (\<open>SIZE_MOD\<close> is \<open>2^64\<close>, the target is LP64), big-endian byte strings, list and
    word lemmas. Libc: \<open>memcmp\<close>, \<open>qsort\<close> and comparison functions. Simulation: sequences of operations
    against a specification, and the locale \<open>simulation\<close> that lifts one step to a run.
  \<^item> Mem (mem.c): blocks with the size word in front, cleansing, realloc, C strings.
  \<^item> Reader, Cbs, Cbs_Readers (bytestring/cbs.c, internal.h): the reader. A \<open>CBS\<close> is the list of the bytes left;
    a reader gives \<open>None\<close> or the result and the rest. Der, Der_Int, Der_Bits: DER elements, integers
    and bit strings, and that the readers accept exactly their encodings.
  \<^item> Cbb, Cbb_Buffer, Cbb_Flush, Cbb_Ops, Cbb_Build, Cbb_Set (bytestring/cbb.c): the builder. A \<open>CBB\<close> with its open
    children is a chain of descriptors over one shared buffer (\<open>cbb_state\<close>); operations name the
    descriptor by its depth. Cbb_Build: trees of items and their serialisation.
  \<^item> Ber, Ber_Trees (bytestring/ber.c, asn1_compat.c): BER to DER. Oid: object identifiers as text (in cbs.c and cbb.c).
    Unicode (bytestring/unicode.c): UTF-8, Latin-1, UCS-2 and UTF-32.
  \<^item> Buf (buf/buf.c): growable buffers. Constant_Time (internal.h): masks. Base64, Base64_Chars,
    Base64_Encode, Base64_Decode (base64/base64.c): block and incremental coders, which use the masks.
  \<^item> Stack (stack/stack.c): arrays of pointers; Lhash, Lhash_Map, Lhash_Iter (lhash/lhash.c): hash tables.
    The functions of the caller (compare, hash, copy, free, iterate) are parameters with the
    wrappers the code calls them through.
  \<^item> Pool, Pool_Steps (pool/pool.c, refcount_lock.c): reference-counted buffers shared through a hash table, and
    the steps of concurrent threads on a pool.
  \<^item> Err, Err_Queue, Err_Steps, Err_String (err/err.c): the ring buffer of errors of a thread, and texts of errors.
  \<^item> Calendar: the calendar, counted day by day. C_Int: signed arithmetic, where overflow is \<open>None\<close>. Time_Support,
    Time_Facts (asn1/time_support.c): broken-down times. Asn1_String (asn1/asn1_lib.c): strings with a type. Asn1_Time (asn1/a_gentm.c,
    a_utctm.c, a_time.c): times as text; Asn1_Time_Text, Asn1_Time_Grammar: what the readers accept; Asn1_Time_Print: what
    the writers give. Parse: results of readers of C memory. Asn1_Header (asn1_lib.c): the older parser and the writer of
    identifier and length octets. Asn1_Integer (a_int.c), Asn1_Bitstring (a_bitstr.c): integers and bit strings, and their contents octets.
  \<^item> Bn_Limbs, Bn, Bn_Cmp, Bn_Add, Bn_Shift, Bn_Bytes (fipsmodule/bn/bn.c, cmp.c, add.c, shift.c, bytes.c): big
    integers, a sign and 64-bit limbs of which \<open>width\<close> are valid, with the integer \<open>bn_val\<close>.
    Bn_Words (generic.c), Bn_Mul, Bn_Product (mul.c): products by columns, rows and halves. Bn_Div (div.c): long division;
    Bn_Reduce (div.c, div_extra.c): reductions of limbs, remainders by words and powers of two; Bn_Mod (div.c): the modular functions.
  \<^item> This theory: the properties that are claims about the program, with concrete instances.

  \<^bold>\<open>Conventions.\<close> Memory is the list of its bytes; a pointer that may be NULL is an option; a call that
  can fail gives an option or a flag with the new state. \<open>malloc\<close> is not part of the sources and is
  a parameter everywhere; \<open>malloc_ok\<close> (blocks are below \<open>PTRDIFF_MAX\<close>) and \<open>malloc_total\<close> (requests below
  that succeed) are the documented behaviour used, each only where stated. An allocator is a
  function of the size, so requests of one size within one operation succeed or fail together. Assertions are checked
  only in debug builds; the ones that guard an index are consequences of the invariants (for
  instance \<open>lh_shape_num\<close>, \<open>enc_ok\<close>, \<open>insertion_replaces_nothing\<close>). \<open>size_t\<close> arithmetic that can wrap is written with \<open>mod SIZE_MOD\<close>.

  \<^bold>\<open>What the lemmas show.\<close>
  \<^item> Readers: each accepts exactly the encodings of a value and gives that value and the rest.
  \<^item> Builder: any nesting of items is written as its serialisation, or the build fails and stays
    failed; fixed buffers are never overrun; what is written is read back.
  \<^item> BER: trees in which the scan sees BER (\<open>ber_seen\<close>) are converted to the DER of the same tree; others are not (a bug of the scan).
  \<^item> Text: object identifiers, code points and Base64 round-trip, and only valid inputs are accepted.
    The locales \<open>char_codec\<close>, \<open>incremental\<close> and \<open>byte_buffer\<close> hold what the four encodings, the incremental
    coders and the two kinds of buffers share.
  \<^item> Stack: an indexed list (locale \<open>indexed_list\<close>) with a sorted flag that every operation but
    \<open>sk_set\<close> keeps true; searching and sorting.
  \<^item> Hash table: the invariant \<open>lh_ok\<close> (items in the bucket of their hash, no two equal, a power of two
    buckets), refinement of a map by any sequence of operations, load factor, iteration.
  \<^item> Pool: the invariant \<open>pool_inv\<close> of the interleaved steps (one object per contents, counts are the
    numbers of references), and that a whole call is a sequence of steps.
  \<^item> Error queue: refinement of a queue of at most 15 errors by any sequence of operations, saving and
    restoring, five fields in every text.
  \<^item> Times: the conversions of dates agree with the calendar and do not overflow; the readers accept exactly a
    grammar (\<open>generalized_text\<close>, \<open>utc_text\<close>); what is written reads back as the same time.
  \<^item> ASN.1 headers, integers, bit strings: the older parser agrees with the reader and stays in its bound; contents octets
    are the two's complement of the number, or the bits, and are read back.

  \<^item> Big integers: each operation is the operation on integers, for operands of any width and sign, and fails only
    when the result cannot get its limbs (\<open>bn_full\<close>), or, for the modular functions (\<open>mod_outcome\<close>), when an object of
    the context is not there or does not get its limbs (\<open>lacking\<close>). Objects of the context are a parameter.

  \<^bold>\<open>Bounds and loops.\<close> Loops over input are structural or have a termination measure. The scan and the
  conversion of BER recurse to the code's own limit \<open>kMaxDepth\<close>. Three loops depend on state a caller may
  change or corrupt, the iteration over a hash table, \<open>ERR_pop_to_mark\<close> and \<open>ERR_print_errors_cb\<close>; they are partial
  functions, \<open>None\<close> for not returning, and shown to return (the last for callbacks that add no errors). The size hypotheses (\<open>2^30\<close> for a
  piece of Base64, \<open>2^56\<close> for a stack, \<open>2^59\<close> for a hash table, \<open>2^62\<close> for buffers) are far above what an address space
  holds or keep an \<open>int\<close> result from overflowing, as the code documents. Times are
  taken from year 1 to 9998, with offsets of at most 2 * 10^9 days and an \<open>int\<close> of seconds: with more seconds the code does overflow (\<open>OPENSSL_gmtime_adj_can_overflow\<close>).

  \<^bold>\<open>Not modelled.\<close> Ownership of memory that is only freed (\<open>sk_free\<close>, \<open>err_state_free\<close>), errors put
  in the queue by the modelled functions (\<open>OPENSSL_PUT_ERROR\<close>), locks (what they protect is one step; the error queue is per thread), the printf family,
  files. Outside crypto/: nanopb, upb and librtmp (driven by generated tables or sockets), and the C++,
  Objective-C and Swift code. The rest of crypto/ (ciphers, hashes, public keys, X.509; of the
  big integers Montgomery multiplication, exponentiation, inverses, random and prime numbers) and the TLS code build on the parts modelled here.
\<close>

section \<open>The allocator of the witnesses\<close>

text \<open>A \<open>malloc\<close> that always succeeds below \<open>PTRDIFF_MAX\<close> and gives zeroed memory.\<close>

definition zeroing_malloc :: allocator where
  "zeroing_malloc n = (if n < 2 ^ 63 then Some (\<lambda>_. 0) else None)"

lemma zeroing_malloc_ok: "malloc_ok zeroing_malloc"
  by (simp add: malloc_ok_def zeroing_malloc_def)

lemma zeroing_malloc_total: "malloc_total zeroing_malloc"
  by (simp add: malloc_total_def zeroing_malloc_def)

section \<open>Building byte strings\<close>

lemma be_bytes_2: "be_bytes 2 v = [word_of_nat (v div 256), word_of_nat v]"
  by (simp add: numeral_2_eq_2)

text \<open>
  C1: a client that creates a growable \<open>CBB\<close>, writes any tree of items (integers of every
  width and byte order, raw bytes, nested length-prefixed and ASN.1 children) and finishes
  gets exactly the serialisation of the tree, and a failure exactly when some length or value
  does not fit its field.
\<close>

theorem CBB_builds_serialisation:
  assumes "malloc_ok m" "malloc_total m" "\<forall>t \<in> set ts. in_memory t" "cap0 < 2 ^ 62"
    and "\<And>bs. serials ts = Some bs \<Longrightarrow> length bs < 2 ^ 61"
  shows "finish_tree m ts (CBB_init m cap0) = serials ts"
  using assms by (rule finish_tree_growing)

theorem CBB_builds_serialisation_witness:
  "finish_tree zeroing_malloc [Prefixed16 [U8 7, U16 0x1234], U8 9] (CBB_init zeroing_malloc 1)
     = Some [0, 3, 7, 0x12, 0x34, 9]"
proof -
  have s: "serials [Prefixed16 [U8 7, U16 0x1234], U8 9] = Some [0, 3, 7, 0x12, 0x34, 9]"
    by (simp add: len_prefixed_def be_bytes_2)
  show ?thesis
    by (rule trans [OF CBB_builds_serialisation [OF zeroing_malloc_ok zeroing_malloc_total] s]) (simp_all only: s, auto)
qed

text \<open>
  With a fixed buffer the same holds, and a serialisation that is longer than the buffer
  makes the whole construction fail; nothing is ever written past the buffer's end.
\<close>

theorem CBB_fixed_builds_serialisation:
  assumes "malloc_ok m" "malloc_total m" "\<forall>t \<in> set ts. in_memory t" "length buf + 8 < 2 ^ 63"
  shows "finish_tree m ts (CBB_init_fixed m buf (length buf)) =
    (case serials ts of
       None \<Rightarrow> None
     | Some bs \<Rightarrow> if length bs \<le> length buf then Some bs else None)"
  using assms by (rule finish_tree_fixed)

theorem CBB_fixed_builds_serialisation_witness:
  "finish_tree zeroing_malloc [Prefixed8 [U8 7]] (CBB_init_fixed zeroing_malloc [0, 0] (length [0, 0::u8])) = Some [1, 7] \<and>
   finish_tree zeroing_malloc [Prefixed8 [U8 7]] (CBB_init_fixed zeroing_malloc [0] (length [0::u8])) = None"
  using CBB_fixed_builds_serialisation [of zeroing_malloc "[Prefixed8 [U8 7]]" "[0, 0]"]
    CBB_fixed_builds_serialisation [of zeroing_malloc "[Prefixed8 [U8 7]]" "[0]"]
  by (simp add: zeroing_malloc_ok zeroing_malloc_total len_prefixed_def)

section \<open>Reading DER\<close>

text \<open>
  C2: the DER element parser succeeds exactly on the inputs that start with the DER encoding
  of some tag and contents (minimal lengths, at most 32 bits), and then returns that encoding,
  its tag, the length of its header and what follows.
\<close>

theorem CBS_get_any_asn1_element_exact:
  "CBS_get_any_asn1_element cbs = Some (out, tag, hl, rest) \<longleftrightarrow>
     (\<exists>contents. out = der tag contents \<and> cbs = out @ rest \<and> length contents < 2 ^ 32 \<and>
        hl = der_header_len tag (length contents))"
  by (rule CBS_get_any_asn1_element_iff)

lemma short_values:
  "length (der CBS_ASN1_INTEGER (sint_octets (sint (i::i64)))) \<le> 20"
  "length (der CBS_ASN1_INTEGER (uint_octets (unat (u::u64)))) \<le> 20"
  "length (der CBS_ASN1_BOOLEAN (bool_octets b)) \<le> 20"
proof -
  have "- (2 ^ 63) \<le> sint i" "sint i < 2 ^ 63"
    using sint_greater_eq [of i] sint_less [of i] by simp_all
  then have 1: "length (sint_octets (sint i)) \<le> 8" by (rule length_sint_octets)
  have "unat u < 2 ^ 64" using unat_u64_less [of u] by simp
  then have 2: "length (uint_octets (unat u)) \<le> 9" by (simp add: length_uint_octets ilen_u64)
  have 3: "length (bool_octets b) \<le> 9" by (simp add: bool_octets_def)
  have *: "length (der t c) \<le> 20" if "length (der_tag t) = 1" "length c \<le> 9" for t c
    using that by (simp add: der_def der_len_def)
  show "length (der CBS_ASN1_INTEGER (sint_octets (sint i))) \<le> 20"
    by (rule *) (use 1 in \<open>simp_all add: small_tags\<close>)
  show "length (der CBS_ASN1_INTEGER (uint_octets (unat u))) \<le> 20"
    by (rule *) (use 2 in \<open>simp_all add: small_tags\<close>)
  show "length (der CBS_ASN1_BOOLEAN (bool_octets b)) \<le> 20"
    by (rule *) (use 3 in \<open>simp_all add: small_tags\<close>)
qed

text \<open>
  C3: what is written is read back. A SEQUENCE-free record of a signed integer, an unsigned
  integer and a boolean, written to a \<open>CBB\<close> and finished, is read back value by value and
  leaves nothing.
\<close>

theorem ASN1_values_round_trip:
  assumes "malloc_ok m" "malloc_total m" "cap0 < 2 ^ 62"
  shows "\<exists>bs r1 r2. finish_tree m [Int64 i, Uint64 u, Bool b] (CBB_init m cap0) = Some bs \<and>
    CBS_get_asn1_int64 bs = Some (i, r1) \<and> CBS_get_asn1_uint64 r1 = Some (u, r2) \<and>
    CBS_get_asn1_bool r2 = Some (b, [])"
proof -
  let ?i = "der CBS_ASN1_INTEGER (sint_octets (sint i))"
  let ?u = "der CBS_ASN1_INTEGER (uint_octets (unat u))"
  let ?b = "der CBS_ASN1_BOOLEAN (bool_octets b)"
  have l: "length ?i \<le> 20" "length ?u \<le> 20" "length ?b \<le> 20" by (rule short_values)+
  have s: "serials [Int64 i, Uint64 u, Bool b] = Some (?i @ ?u @ ?b)" by simp
  have f: "finish_tree m [Int64 i, Uint64 u, Bool b] (CBB_init m cap0) = Some (?i @ ?u @ ?b)"
    by (subst finish_tree_growing) (use assms l s in auto)
  have "CBS_get_asn1_int64 (?i @ ?u @ ?b) = Some (i, ?u @ ?b)" by (simp only: CBS_get_asn1_int64_iff)
  moreover have "CBS_get_asn1_uint64 (?u @ ?b) = Some (u, ?b)" by (simp only: CBS_get_asn1_uint64_iff)
  moreover have "CBS_get_asn1_bool ?b = Some (b, [])" by (simp add: CBS_get_asn1_bool_iff)
  ultimately show ?thesis using f by blast
qed

theorem ASN1_values_round_trip_witness:
  "\<exists>bs r1 r2. finish_tree zeroing_malloc [Int64 (-129), Uint64 200, Bool True] (CBB_init zeroing_malloc 0) = Some bs \<and>
    CBS_get_asn1_int64 bs = Some (-129, r1) \<and> CBS_get_asn1_uint64 r1 = Some (200, r2) \<and>
    CBS_get_asn1_bool r2 = Some (True, [])"
  by (rule ASN1_values_round_trip [OF zeroing_malloc_ok zeroing_malloc_total]) simp

section \<open>BER to DER\<close>

text \<open>
  C4: what becomes of BER. Of every BER element within the depth limit (definite or indefinite lengths, strings whole or in
  fragments) that has a DER encoding \<open>bs\<close>, the whole element is consumed. The output is \<open>bs\<close> when the element is DER already, and when BER
  is seen in it, by \<open>ber_seen\<close>: an indefinite length or a string in fragments on a level that is reached through last constructed
  elements only. Otherwise the input is handed out unchanged, although it is BER. Storage is allocated exactly when BER is seen.
\<close>

theorem CBS_asn1_ber_to_der_converts:
  assumes "malloc_ok m" "malloc_total m" "wf_tlv t" "height t \<le> kMaxDepth"
    and "conv 0 t = Some bs" "length bs < 2 ^ 61" "length (ber t) < 2 ^ 62"
  shows "\<exists>storage. CBS_asn1_ber_to_der m (ber t) = Some (if ber_seen [t] \<or> is_der t then bs else ber t, storage, []) \<and>
    (storage \<noteq> None \<longleftrightarrow> ber_seen [t]) \<and> (is_der t \<longrightarrow> bs = ber t)"
  using assms by (rule ber_to_der_cases)

text \<open>An empty sequence of indefinite length with a NULL in it, which is seen, and one behind which the scan forgets.\<close>

lemma indefinite_null:
  defines "t \<equiv> Indef SEQUENCE [Prim 5 []]"
  shows "wf_tlv t" "height t \<le> kMaxDepth" "conv 0 t = Some (der SEQUENCE (der 5 []))" "length (der SEQUENCE (der 5 [])) < 2 ^ 61"
    "length (ber t) < 2 ^ 62" "ber_seen [t]"
proof -
  have t5: "der_tag 5 = [5]" by (simp add: der_tag_def)
  have l: "length (der 5 []) = 2" by (simp add: der_def t5 der_len_def)
  show "wf_tlv t" by (simp add: t_def SEQUENCE_facts) (simp add: constructed_def CBS_ASN1_CONSTRUCTED_def CBS_ASN1_TAG_SHIFT_def)
  show "height t \<le> kMaxDepth" "ber_seen [t]" by (simp_all add: t_def kMaxDepth_def)
  show "conv 0 t = Some (der SEQUENCE (der 5 []))" by (simp add: t_def SEQUENCE_facts dering_def l)
  show "length (der SEQUENCE (der 5 [])) < 2 ^ 61" by (simp add: der_def [of SEQUENCE] der_tag_SEQUENCE l der_len_def)
  show "length (ber t) < 2 ^ 62" by (simp add: t_def l indef_header_def der_tag_SEQUENCE)
qed

theorem CBS_asn1_ber_to_der_converts_witness:
  "\<exists>storage. CBS_asn1_ber_to_der zeroing_malloc (ber (Indef SEQUENCE [Prim 5 []])) = Some (der SEQUENCE (der 5 []), Some storage, [])"
  using CBS_asn1_ber_to_der_converts [OF zeroing_malloc_ok zeroing_malloc_total indefinite_null(1-5)] indefinite_null(6) by auto

text \<open>
  The scan can forget what it found. The element
  \<open>30 08 30 04 30 80 00 00 30 00\<close> has an indefinite-length element inside; the constructed
  element after it resets the result, so the bytes are returned unconverted, as if they were
  DER.
\<close>

theorem CBS_asn1_ber_to_der_misses_BER:
  "CBS_asn1_ber_to_der m [0x30, 8, 0x30, 4, 0x30, 0x80, 0, 0, 0x30, 0] =
     Some ([0x30, 8, 0x30, 4, 0x30, 0x80, 0, 0, 0x30, 0], None, [])"
  using forgotten_unchanged [of m] unfolding forgotten_bytes .

section \<open>SET OF and object identifiers\<close>

text \<open>
  C5: \<open>CBB_flush_asn1_set_of\<close> sorts. When the contents of the \<open>CBB\<close> are a sequence of DER
  elements, they are replaced by the same elements in ascending order of their encodings, and
  what was written before the \<open>CBB\<close> is kept.
\<close>

theorem CBB_flush_asn1_set_of_sorts:
  assumes "malloc_ok m" "malloc_total m" "usable i st" "CBB_flush m i st = (True, st1)"
    and "base st1 = Some b1" "\<forall>e \<in> set es. der_element e"
    and "written b1 = pre @ concat es" "length pre = cbb_start (chain st ! i)" "b_len b1 < 2 ^ 60"
  shows "\<exists>st2 b2. CBB_flush_asn1_set_of m i st = (True, st2) \<and> base st2 = Some b2 \<and>
    written b2 = pre @ concat (sort es) \<and> usable i st2 \<and> chain st2 = take (Suc i) (chain st)"
  using assms by (rule set_of_sorts)

theorem CBB_flush_asn1_set_of_sorts_witness:
  "\<exists>st2 b2. CBB_flush_asn1_set_of zeroing_malloc 0 (CBB_zero\<lparr>base := Some
      \<lparr>b_buf = [4, 0, 1, 0], b_len = 4, b_cap = 4, b_can_resize = False, b_error = False\<rparr>\<rparr>) = (True, st2) \<and>
    base st2 = Some b2 \<and> written b2 = [1, 0, 4, 0]"
proof -
  let ?b = "\<lparr>b_buf = [4, 0, 1, 0::u8], b_len = 4, b_cap = 4, b_can_resize = False, b_error = False\<rparr>"
  let ?st = "CBB_zero\<lparr>base := Some ?b\<rparr>"
  have e: "der_element [t, 0]" if "t = 4 \<or> t = 1" for t :: u8
  proof -
    have "[t, 0] = der (ucast t) []" using that by (auto simp: der_def der_tag_def der_len_def)
    then show ?thesis unfolding der_element_def by (metis list.size(3) zero_less_numeral zero_less_power)
  qed
  have u: "usable 0 ?st"
    by (simp add: usable_def cbb_ok_def failed_def CBB_zero_def cbb_zero_st_def cbb_start_def buffer_ok_def)
  have f: "CBB_flush zeroing_malloc 0 ?st = (True, ?st)"
    by (simp add: CBB_flush_def CBB_zero_def)
  have w: "written ?b = [] @ concat [[4, 0], [1, 0]]" by (simp add: written_def)
  have "\<exists>st2 b2. CBB_flush_asn1_set_of zeroing_malloc 0 ?st = (True, st2) \<and> base st2 = Some b2 \<and>
      written b2 = [] @ concat (sort [[4, 0], [1, 0]]) \<and> usable 0 st2 \<and> chain st2 = take (Suc 0) (chain ?st)"
    by (rule CBB_flush_asn1_set_of_sorts [OF zeroing_malloc_ok zeroing_malloc_total u f _ _ w])
       (simp_all add: e CBB_zero_def cbb_zero_st_def cbb_start_def)
  moreover have "sort [[4, 0], [1, 0::u8]] = [[1, 0], [4, 0]]" by (simp add: list_less_def)
  ultimately show ?thesis by auto
qed

lemma oid_from_text_finish:
  assumes "malloc_ok m" "malloc_total m" "oid_ok ns" "length (oid_octets ns) < 2 ^ 61"
  obtains st st1 st2 buf where "CBB_init m 0 = (True, st)"
    "CBB_add_asn1_oid_from_text m 0 (oid_text ns) (length (oid_text ns)) st = (True, st1)"
    "CBB_finish m 0 True True st1 = (Some (Some buf, Some (length (oid_octets ns))), st2)"
    "take (length (oid_octets ns)) buf = oid_octets ns"
proof (rule init_append_finish [OF assms(1,2) _ _ assms(4), of _ 0])
  show "appends_flat m (CBB_add_asn1_oid_from_text m 0 (oid_text ns) (length (oid_text ns))) 0 (Some (oid_octets ns))"
    by (intro appends_flatI CBB_add_asn1_oid_from_text_appends assms)
qed (simp, rule that)

text \<open>
  C6: object identifiers, text to octets to text. The dotted text of a valid identifier is
  accepted, its encoding is written, and that encoding is printed as the same text with a
  terminator.
\<close>

theorem OID_text_round_trip:
  assumes "malloc_ok m" "malloc_total m" "oid_ok ns" "length (oid_text ns) < 2 ^ 60" "length (oid_octets ns) < 2 ^ 61"
  shows "\<exists>st st1 st2 buf n. CBB_init m 0 = (True, st) \<and>
    CBB_add_asn1_oid_from_text m 0 (oid_text ns) (length (oid_text ns)) st = (True, st1) \<and>
    CBB_finish m 0 True True st1 = (Some (Some buf, Some n), st2) \<and>
    CBS_asn1_oid_to_text m (CBS_init buf n) = Some (oid_text ns @ [0])"
proof -
  obtain st st1 st2 buf where "CBB_init m 0 = (True, st)"
    "CBB_add_asn1_oid_from_text m 0 (oid_text ns) (length (oid_text ns)) st = (True, st1)"
    "CBB_finish m 0 True True st1 = (Some (Some buf, Some (length (oid_octets ns))), st2)"
    "take (length (oid_octets ns)) buf = oid_octets ns"
    by (rule oid_from_text_finish [OF assms(1-3,5)])
  moreover have "CBS_asn1_oid_to_text m (oid_octets ns) = Some (oid_text ns @ [0])"
    by (rule CBS_asn1_oid_to_text_eq [OF assms(1-4)])
  ultimately show ?thesis by (auto simp: CBS_init_def)
qed

theorem OID_text_round_trip_witness:
  "\<exists>st st1 st2 buf n. CBB_init zeroing_malloc 0 = (True, st) \<and>
    CBB_add_asn1_oid_from_text zeroing_malloc 0 (oid_text [1, 2, 840]) (length (oid_text [1, 2, 840])) st = (True, st1) \<and>
    CBB_finish zeroing_malloc 0 True True st1 = (Some (Some buf, Some n), st2) \<and>
    CBS_asn1_oid_to_text zeroing_malloc (CBS_init buf n) = Some (oid_text [1, 2, 840] @ [0])"
proof (rule OID_text_round_trip [OF zeroing_malloc_ok zeroing_malloc_total])
  show "oid_ok [1, 2, 840]" by (simp add: oid_ok_def)
  show "length (oid_text [1, 2, 840]) < 2 ^ 60" by (simp add: component_end_def decimal.simps)
  show "length (oid_octets [1, 2, 840]) < 2 ^ 61"
    by (simp add: oid_octets_def base128_def base128_cont.simps)
qed

text \<open>
  Nothing else is accepted as an object identifier: a text the encoder takes is the
  dotted text of a valid identifier (at least two components, the first at most 2, the second
  at most 39 below 2, no leading zeros, no empty component, 64-bit components).
\<close>

theorem OID_text_accepted_is_valid:
  assumes "CBB_add_asn1_oid_from_text m i txt (length txt) st = (True, st')"
  shows "\<exists>ns. oid_ok ns \<and> txt = oid_text ns"
  using assms by (rule CBB_add_asn1_oid_from_text_sound)

theorem OID_text_accepted_is_valid_witness:
  "\<exists>st st'. CBB_init zeroing_malloc 0 = (True, st) \<and>
    CBB_add_asn1_oid_from_text zeroing_malloc 0 (oid_text [2, 5]) (length (oid_text [2, 5])) st = (True, st') \<and>
    (\<exists>ns. oid_ok ns \<and> oid_text [2, 5] = oid_text ns)"
proof -
  have ok: "oid_ok [2, 5]" by (simp add: oid_ok_def)
  have "length (oid_octets [2, 5]) < 2 ^ 61" by (simp add: oid_octets_def base128_def)
  then obtain st st' where *: "CBB_init zeroing_malloc 0 = (True, st)"
    "CBB_add_asn1_oid_from_text zeroing_malloc 0 (oid_text [2, 5]) (length (oid_text [2, 5])) st = (True, st')"
    using oid_from_text_finish [OF zeroing_malloc_ok zeroing_malloc_total ok] by metis
  from OID_text_accepted_is_valid [OF this(2)] * show ?thesis by blast
qed

section \<open>Characters\<close>

text \<open>
  C7: UTF-8. A character is read exactly when the input starts with the UTF-8 encoding, in
  the least number of octets, of a code point that is neither a surrogate nor reserved.
\<close>

theorem cbs_get_utf8_exact:
  "cbs_get_utf8 cbs = Some (v, rest) \<longleftrightarrow> is_valid_code_point v \<and> cbs = utf8_octets (unat v) @ rest"
  by (rule cbs_get_utf8_iff)

text \<open>
  Strings. The bytes written for a list of valid code points are read back as that list,
  with nothing left over.
\<close>

theorem utf8_string_round_trip:
  assumes "malloc_ok m" "malloc_total m" "list_all is_valid_code_point us"
    and "length (concat (map (\<lambda>u. utf8_octets (unat u)) us)) < 2 ^ 61"
  shows "\<exists>st st1 st2 buf n. CBB_init m 0 = (True, st) \<and> add_chars (cbb_add_utf8 m 0) us st = (True, st1) \<and>
    CBB_finish m 0 True True st1 = (Some (Some buf, Some n), st2) \<and>
    parse_all cbs_get_utf8 (CBS_init buf n) = Some us"
  using assms by (rule utf8.add_all_round_trip)

theorem utf8_string_round_trip_witness:
  "\<exists>st st1 st2 buf n. CBB_init zeroing_malloc 0 = (True, st) \<and>
    add_chars (cbb_add_utf8 zeroing_malloc 0) [0x24, 0x20ac, 0x10348] st = (True, st1) \<and>
    CBB_finish zeroing_malloc 0 True True st1 = (Some (Some buf, Some n), st2) \<and>
    parse_all cbs_get_utf8 (CBS_init buf n) = Some [0x24, 0x20ac, 0x10348]"
proof (rule utf8_string_round_trip [OF zeroing_malloc_ok zeroing_malloc_total])
  show "list_all is_valid_code_point [0x24, 0x20ac, 0x10348]" by (simp add: is_valid_code_point_def)
  show "length (concat (map (\<lambda>u. utf8_octets (unat u)) [0x24, 0x20ac, 0x10348 :: u32])) < 2 ^ 61"
    using length_utf8_octets [of "unat (0x24::u32)"] length_utf8_octets [of "unat (0x20ac::u32)"]
      length_utf8_octets [of "unat (0x10348::u32)"] by simp
qed

section \<open>Memory and C strings\<close>

text \<open>Memory given back to the allocator holds only zeros, the size field included.\<close>

theorem OPENSSL_free_clears:
  assumes "block_ok b"
  shows "OPENSSL_free (Some b) = Some (replicate (blk_size b + 8) 0)"
  using assms by (rule OPENSSL_free_zero)

theorem OPENSSL_free_clears_witness:
  "OPENSSL_free (Some \<lparr>blk_size = 1, blk_data = [7]\<rparr>) = Some (replicate 9 0)"
  using OPENSSL_free_clears [of "\<lparr>blk_size = 1, blk_data = [7]\<rparr>"] by (simp add: block_ok_def)

text \<open>
  The size of an allocation is not checked against the prefix. A request within 8 bytes
  of \<open>SIZE_MAX\<close> wraps: it can succeed, with a block recorded as having the huge size and no
  byte behind it.
\<close>

theorem OPENSSL_malloc_can_wrap:
  assumes "SIZE_MOD \<le> sz + 8" "sz < SIZE_MOD" "OPENSSL_malloc m sz = Some b"
  shows "blk_size b = sz \<and> blk_data b = []"
  using assms by (rule OPENSSL_malloc_wraps)

theorem OPENSSL_malloc_can_wrap_witness:
  "\<exists>b. OPENSSL_malloc zeroing_malloc (SIZE_MOD - 1) = Some b \<and> blk_size b = SIZE_MOD - 1 \<and> blk_data b = []"
proof -
  have "(SIZE_MOD - 1 + 8) mod SIZE_MOD = 7" by (simp add: SIZE_MOD_def)
  then obtain b where "OPENSSL_malloc zeroing_malloc (SIZE_MOD - 1) = Some b"
    by (auto simp: OPENSSL_malloc_def malloc_def zeroing_malloc_def OPENSSL_MALLOC_PREFIX_def)
  with OPENSSL_malloc_can_wrap [OF _ _ this] show ?thesis by simp
qed

section \<open>Growable buffers\<close>

section \<open>Base64\<close>

text \<open>
  C8: the incremental encoder. However the input is cut into pieces, \<open>EVP_EncodeUpdate\<close> on each and
  \<open>EVP_EncodeFinal\<close> give the same text: lines of 64 characters of the standard encoding of the
  whole input. (Pieces are below \<open>2^30\<close> bytes, so that \<open>*out_len\<close> does not overflow.)
\<close>

theorem EVP_EncodeUpdate_lines:
  assumes "list_all (\<lambda>c. length c < 2 ^ 30) cs"
  shows "run_chunks encode_update encode_final EVP_EncodeInit cs = b64_lines (concat cs)"
  using encoder.run_chunks_spec [OF enc_ok_init(1) assms] by simp

lemma b64_lines_short: "0 < length xs \<Longrightarrow> length xs < 48 \<Longrightarrow> b64_lines xs = b64 xs @ [10]"
  by (subst b64_lines.simps) auto

theorem EVP_EncodeUpdate_lines_witness:
  "run_chunks encode_update encode_final EVP_EncodeInit [[77], [97, 110]] = b64 [77, 97, 110] @ [10]"
  using EVP_EncodeUpdate_lines [of "[[77], [97, 110]]"] by (simp add: b64_lines_short del: b64.simps)

text \<open>
  C9: what the incremental encoder wrote, cut into pieces in any other way, is decoded to the
  input by the incremental decoder.
\<close>

theorem EVP_Encode_Decode_round_trip:
  assumes "list_all (\<lambda>c. length c < 2 ^ 30) cs" "list_all (\<lambda>d. length d < 2 ^ 30) ds"
    and "concat ds = run_chunks encode_update encode_final EVP_EncodeInit cs"
  shows "decode_chunks EVP_DecodeInit ds = Some (concat cs)"
  using assms by (rule incremental_round_trip)

theorem EVP_Encode_Decode_round_trip_witness:
  "decode_chunks EVP_DecodeInit [b64 [77, 97, 110], [10]] = Some [77, 97, 110]"
proof -
  have "run_chunks encode_update encode_final EVP_EncodeInit [[77], [97, 110]] = b64 [77, 97, 110] @ [10]"
    using encoder.run_chunks_spec [of EVP_EncodeInit "[[77], [97, 110]]"] by (simp add: b64_lines_short del: b64.simps)
  then show ?thesis
    using EVP_Encode_Decode_round_trip [of "[[77], [97, 110]]" "[b64 [77, 97, 110], [10]]"]
    by (simp add: length_b64 del: b64.simps)
qed

text \<open>
  The incremental decoder agrees with the block decoder. It succeeds with a result exactly
  when decoding, in one go, the input without its white space does, with the same result.
\<close>

theorem EVP_DecodeUpdate_is_block:
  assumes "list_all (\<lambda>c. length c < 2 ^ 30) cs"
  shows "decode_chunks EVP_DecodeInit cs = Some out \<longleftrightarrow>
    decode_quads (filter (\<lambda>c. \<not> is_space c) (concat cs)) = (True, out)"
  using assms by (rule decode_chunks_block)

theorem EVP_DecodeUpdate_is_block_witness:
  "decode_chunks EVP_DecodeInit [[32], b64 [77, 97]] = Some [77, 97] \<longleftrightarrow> decode_quads (b64 [77, 97]) = (True, [77, 97])"
proof -
  have "filter (\<lambda>c. \<not> is_space c) (concat [[32], b64 [77, 97]]) = b64 [77, 97]"
    using b64_not_space [of "[77, 97]"] by (simp add: is_space_def [of 32] del: b64.simps)
  then show ?thesis
    using EVP_DecodeUpdate_is_block [of "[[32], b64 [77, 97]]" "[77, 97]"] by (simp add: length_b64 del: b64.simps)
qed

section \<open>Stacks\<close>

text \<open>
  C10: \<open>sk_find\<close> gives the first element that compares equal, whether it searches linearly or, on a
  stack whose sorted flag is set and true, by bisection.
\<close>

theorem sk_find_is_linear_search:
  assumes "stack_ok s" "flag_ok call s" "s_comp s = Some f" "cmp_ok (call f)"
  shows "sk_find call (Some s) (Some x) =
    find (\<lambda>i. call f (Some x) (elems s ! i) = 0) [0..<length (elems s)]"
  using assms by (rule sk_find_first)

definition twice :: "(nat, unit) stack_st" where
  "twice = \<lparr>s_num = 3, s_data = [Some 1, Some 2, Some 2, None], s_sorted = True, s_num_alloc = 4, s_comp = Some ()\<rparr>"

lemma by_value_ok: "cmp_ok (by_value u)"
  by (auto simp: cmp_ok_def by_value_def sgn_if)

lemma twice_ok: "stack_ok twice" "flag_ok by_value twice" "s_comp twice = Some ()"
  by (simp_all add: twice_def stack_ok_def flag_ok_def elems_def in_order_def by_value_def numeral_3_eq_3)

theorem sk_find_is_linear_search_witness: "sk_find by_value (Some twice) (Some 2) = Some 1"
proof -
  have "find (\<lambda>i. by_value () (Some 2) (elems twice ! i) = 0) [0..<length (elems twice)] = Some 1"
    by (simp add: twice_def elems_def by_value_def numeral_3_eq_3 upt_rec)
  then show ?thesis using sk_find_is_linear_search [OF twice_ok by_value_ok, of 2] by simp
qed

text \<open>
  C11: the sorted flag. Insertion, deletion, clearing and a change of the comparison function keep it
  true: when it is set, the elements are in order.
\<close>

theorem sorted_flag_kept:
  assumes "stack_ok s" "flag_ok call s" "s_num s < 2 ^ 56"
  shows "pred_option (flag_ok call) (snd (sk_insert m (Some s) p i)) \<and>
    pred_option (flag_ok call) (snd (sk_delete (Some s) i)) \<and> pred_option (flag_ok call) (sk_zero (Some s)) \<and>
    flag_ok call (snd (sk_set_cmp_func s cmp))"
  using flag_ok_ops(2,4,5) [OF assms(1,2)] flag_ok_ops(3) [OF assms(1,2,3)]
  by (simp add: option.pred_set) (metis option.set_cases prod.collapse)

theorem sorted_flag_kept_witness:
  "pred_option (flag_ok by_value) (snd (sk_insert (\<lambda>_. None) (Some twice) (Some 0) 3)) \<and>
   pred_option (flag_ok by_value) (snd (sk_delete (Some twice) 3)) \<and> pred_option (flag_ok by_value) (sk_zero (Some twice)) \<and>
   flag_ok by_value (snd (sk_set_cmp_func twice None))"
  by (rule sorted_flag_kept [OF twice_ok(1,2)]) (simp add: twice_def)

text \<open>
  \<open>sk_set\<close> does not clear the flag. After sorting a stack and storing an element in it, the
  element is there and \<open>sk_find\<close> does not find it.
\<close>

theorem sk_set_keeps_stale_flag:
  "case sk_set (sk_sort by_value (Some three)) 0 (Some 5) of
     (p, sk) \<Rightarrow> p = Some 5 \<and> sk_value sk 0 = Some 5 \<and> sk_is_sorted sk \<and> sk_find by_value sk (Some 5) = None"
  by (rule sk_set_breaks_find)

section \<open>Hash tables\<close>

text \<open>
  C12: a hash table is a map. Any sequence of insertions, deletions and look-ups on a new table gives
  the results the same sequence gives on a map from elements (up to the equality of the comparison
  function) to elements, insertions that failed for lack of memory left out; the table grows and
  shrinks without a trace.
\<close>

theorem lhash_operations_refine_map:
  assumes "lh_contract ch cc h c" "lh_new m h c = Some lh" "run_ops (lh_exec ch cc) ops lh = (outs, lh')"
  shows "replay (map_exec (\<lambda>a b. cc c a b = 0)) (zip ops (map fst outs)) (\<lambda>k. None) = (map snd outs, lh_lookup cc lh')"
proof -
  from lh_new_ok [OF assms(1,2)] have "lh_inv ch cc h c lh" "lh_lookup cc lh = (\<lambda>k. None)" by (simp_all add: lh_inv_def)
  with hash_table.run_simulates [OF this(1) assms(3)] show ?thesis by simp
qed

definition nat_hash :: "unit \<Rightarrow> nat ptr \<Rightarrow> u32" where
  "nat_hash u p = (case p of None \<Rightarrow> 0 | Some n \<Rightarrow> word_of_nat n)"

definition nat_cmp :: "unit \<Rightarrow> nat ptr \<Rightarrow> nat ptr \<Rightarrow> int" where
  "nat_cmp u p q = (if p = q then 0 else 1)"

lemma nat_contract: "lh_contract nat_hash nat_cmp () ()"
  by (simp add: lh_contract_def nat_cmp_def)

definition demo_table :: "(nat, unit, unit) lhash_st" where
  "demo_table = \<lparr>lh_items = 0, lh_buckets = replicate 16 [], lh_num_buckets = 16, lh_callback_depth = 0, lh_comp = (), lh_hash = ()\<rparr>"

lemma demo_new: "lh_new (\<lambda>sz. Some 7) () () = Some demo_table"
  by (simp add: lh_new_def malloc_addr_def demo_table_def kMinNumBuckets_def)

theorem lhash_operations_refine_map_witness:
  "case run_ops (lh_exec nat_hash nat_cmp) [Insert (\<lambda>sz. Some 7) (Some 3), Retrieve (Some 3)] demo_table of (outs, lh') \<Rightarrow>
     replay (map_exec (\<lambda>a b. nat_cmp () a b = 0)) (zip [Insert (\<lambda>sz. Some 7) (Some 3), Retrieve (Some 3)] (map fst outs)) (\<lambda>k. None) =
       (map snd outs, lh_lookup nat_cmp lh')"
  using lhash_operations_refine_map [OF nat_contract demo_new] by (simp split: prod.splits)

text \<open>
  C13: \<open>lh_doall_arg\<close> may be used to empty a table: with a callback that deletes the element it is
  given, every element is visited once, no freed item is read, and an empty table is left.
\<close>

theorem lh_doall_may_delete:
  assumes "lh_ok ch cc t" "addrs_distinct t" "lh_callback_depth t < - 2"
  shows "\<exists>t'. lh_doall_arg m (deleter ch cc m) [] (Some t) = Some (map i_data (concat (lh_buckets t)), Some t') \<and>
    lh_ok ch cc t' \<and> lh_items t' = 0 \<and> lh_lookup cc t' = (\<lambda>k. None) \<and> lh_callback_depth t' = lh_callback_depth t"
  using assms by (rule lh_doall_deletes)

lemma demo_one:
  "lh_insert nat_hash nat_cmp (\<lambda>sz. Some 7) demo_table (Some 3) =
     (1, None, demo_table\<lparr>lh_buckets := (replicate 16 [])[3 := [\<lparr>i_addr = 7, i_data = Some 3, i_hash = 3\<rparr>]], lh_items := 1\<rparr>)"
  by (simp add: lh_insert_def get_next_ptr_and_hash_def nat_hash_def demo_table_def deref_def malloc_addr_def
      SIZE_MOD_def lh_maybe_resize_def kMaxAverageChainLength_def kMinAverageChainLength_def kMinNumBuckets_def)

lemma demo_ok: "lh_ok nat_hash nat_cmp demo_table" "lh_balanced demo_table" "items_of demo_table = {#}"
  using lh_new_ok [OF nat_contract demo_new]
  by (simp_all add: lh_balanced_def demo_table_def kMinNumBuckets_def items_of_def)

theorem lh_doall_may_delete_witness:
  "case lh_insert nat_hash nat_cmp (\<lambda>sz. Some 7) demo_table (Some 3) of (n, old, t) \<Rightarrow>
     \<exists>t'. lh_doall_arg (\<lambda>sz. None) (deleter nat_hash nat_cmp (\<lambda>sz. None)) [] (Some t) = Some ([Some 3], Some t') \<and>
       lh_ok nat_hash nat_cmp t' \<and> lh_items t' = 0 \<and> lh_lookup nat_cmp t' = (\<lambda>k. None) \<and> lh_callback_depth t' = 0"
proof -
  let ?t = "demo_table\<lparr>lh_buckets := (replicate 16 [])[3 := [\<lparr>i_addr = 7, i_data = Some 3, i_hash = 3\<rparr>]], lh_items := 1\<rparr>"
  have c: "concat (lh_buckets ?t) = [\<lparr>i_addr = 7, i_data = Some 3, i_hash = 3\<rparr>]"
    by (simp add: numeral_eq_Suc)
  have "lh_ok nat_hash nat_cmp ?t" using lh_insert_cases(1) [OF demo_ok(1) demo_one] .
  moreover have "addrs_distinct ?t" unfolding addrs_distinct_def c by simp
  moreover have d: "lh_callback_depth ?t = 0" by (simp add: demo_table_def)
  moreover have "(0::u32) < - 2" by (simp add: word_gt_0)
  ultimately show ?thesis
    using lh_doall_may_delete [of nat_hash nat_cmp ?t "\<lambda>sz. None"] unfolding demo_one d c by simp
qed

section \<open>The error queue\<close>

text \<open>
  C14: the error queue of a thread is a queue of the 15 most recent errors. Any sequence of operations
  on the ring buffer gives the results of the same sequence on the list of errors, where
  an error put in a full queue pushes the oldest one out, and popping to a mark takes errors from
  the newest end up to a marked one, whose mark it clears.
\<close>

theorem err_operations_refine_queue:
  assumes "err_inv tls" "run_ops err_step ops tls = (outs, tls')"
  shows "err_inv tls' \<and> replay queue_step (zip ops (map fst outs)) (err_abs tls) = (map snd outs, err_abs tls')"
  by (rule error_queue.run_simulates [OF assms])

definition demo_errors :: "(bool \<times> err_op) list" where
  "demo_errors = [(True, Put 0 5 6 None 1), (True, Set_mark), (True, Put 0 7 8 None 2), (True, Pop_to_mark), (True, Get)]"

theorem err_operations_refine_queue_witness:
  "case run_ops err_step demo_errors None of (outs, tls') \<Rightarrow>
     err_inv tls' \<and> replay queue_step (zip demo_errors (map fst outs)) [] = (map snd outs, err_abs tls')"
  using err_operations_refine_queue [of None demo_errors] by (simp split: prod.splits)

text \<open>
  C15: saving and restoring. When memory can be allocated, restoring what \<open>ERR_save_state\<close> saved puts
  the saved errors in the queue of the other thread, in order, whatever it held. The marks are lost.
\<close>

theorem ERR_save_restore:
  assumes "err_inv tls" "err_inv dst" "\<forall>n. m n" "err_get_state fresh2 dst \<noteq> None"
    and "ERR_save_state fresh1 m tls = (saved, tls')"
  shows "err_abs (ERR_restore_state fresh2 m saved dst) = map unmark (err_abs tls)"
  using assms by (rule save_restore)

theorem ERR_save_restore_witness:
  "case ERR_save_state True (\<lambda>n. True) (ERR_put_error True 0 5 6 None 1 None) of (saved, tls') \<Rightarrow>
     err_abs (ERR_restore_state True (\<lambda>n. True) saved None) = [new_error 0 5 6 None 1]"
proof -
  have p: "err_inv (ERR_put_error True 0 5 6 None 1 None)" "err_abs (ERR_put_error True 0 5 6 None 1 None) = [new_error 0 5 6 None 1]"
    using ERR_put_error_queue [of None True 0 5 6 None 1] by (simp_all add: err_get_state_def put_queue_def)
  show ?thesis
    using ERR_save_restore [OF p(1), of None "\<lambda>n. True" True True] p(2)
    by (cases "ERR_save_state True (\<lambda>n. True) (ERR_put_error True 0 5 6 None 1 None)")
      (simp add: err_get_state_def unmark_def new_error_def)
qed

text \<open>
  C16: \<open>ERR_error_string_n\<close> fits the buffer and, when that has more than four bytes, has at least the
  four colons of its five fields, however much is cut off.
\<close>

theorem ERR_error_string_has_fields:
  assumes "4 < len"
  shows "\<exists>buf. ERR_error_string_n strerror values string_data packed len = Some buf \<and>
    length buf < len \<and> 4 \<le> count_list buf CHR '':''"
  using assms by (rule ERR_error_string_n_fields)

theorem ERR_error_string_has_fields_witness:
  "\<exists>buf. ERR_error_string_n (\<lambda>n. '''') [] '''' 0x05000006 8 = Some buf \<and> length buf < 8 \<and> 4 \<le> count_list buf CHR '':''"
  by (rule ERR_error_string_has_fields) simp

text \<open>
  C17: \<open>ERR_print_errors_cb\<close> returns, for every callback that works on its own context. The callback is handed the texts of the errors, oldest
  first, and what is handed over is removed; the loop stops for a callback that asks to stop, and at an error with code 0, which is removed as well
  (\<open>hand_over\<close>). When no code is 0 and the callback never asks to stop, every error is handed over and the queue is empty.
\<close>

theorem ERR_print_errors_prints:
  assumes "err_inv tls"
  shows "\<exists>s' tls'. ERR_print_errors_cb strerror values string_data th (own_context f) fresh s tls = Some (s', tls') \<and> err_inv tls' \<and>
    (s', err_abs tls') = hand_over (err_text (error_line strerror values string_data th)) f s (err_abs tls) \<and>
    ((\<forall>e \<in> set (err_abs tls). er_packed e \<noteq> 0) \<and> (\<forall>t s. 0 < fst (f t s)) \<longrightarrow>
      err_abs tls' = [] \<and> s' = fold (\<lambda>e s. snd (f (err_text (error_line strerror values string_data th) e) s)) (err_abs tls) s)"
proof -
  obtain st where st: "err_get_state fresh tls = st" "err_inv st" "err_abs st = err_abs tls"
    using err_get_state_cases [OF assms(1), of fresh] assms(1) by (metis err_abs_None err_abs_Some err_inv_None err_inv_def option.case(2))
  obtain s' tls' where l: "print_loop (error_line strerror values string_data th) (own_context f) fresh s st = Some (s', tls')" "err_inv tls'"
    "(s', err_abs tls') = hand_over (err_text (error_line strerror values string_data th)) f s (err_abs tls)"
    using print_loop_hands_over [OF st(2), of "error_line strerror values string_data th" f fresh s] unfolding st(3) by blast
  then show ?thesis using hand_over_all [of "err_abs tls" f "err_text (error_line strerror values string_data th)" s] by (auto simp: ERR_print_errors_cb_def st(1))
qed

text \<open>Two errors, collected by a callback; a third error behind a code 0 stays in the queue.\<close>

definition put_errors :: "(int \<times> int) list \<Rightarrow> err_state_st option" where
  "put_errors es = fold (\<lambda>(l, r). ERR_put_error True 0 l r None 0) es None"

theorem ERR_print_errors_prints_witness:
  "(\<exists>texts tls'. ERR_print_errors_cb (\<lambda>n. '''') [] '''' 0 (own_context (\<lambda>t s. (1, s @ [t]))) True [] (put_errors [(3, 100), (4, 101)]) = Some (texts, tls') \<and>
     length texts = 2 \<and> err_abs tls' = []) \<and>
   (\<exists>texts tls'. ERR_print_errors_cb (\<lambda>n. '''') [] '''' 0 (own_context (\<lambda>t s. (1, s @ [t]))) True [] (put_errors [(3, 100), (0, 0), (4, 101)]) = Some (texts, tls') \<and>
     length texts = 1 \<and> length (err_abs tls') = 1)"
proof -
  let ?f = "\<lambda>(t :: string) s. (1 :: int, s @ [t])"
  have two: "err_inv (put_errors [(3, 100), (4, 101)])" "map er_packed (err_abs (put_errors [(3, 100), (4, 101)])) = [0x03000064, 0x04000065]"
    by (simp add: put_errors_def ERR_put_error_queue) code_simp
  have three: "err_inv (put_errors [(3, 100), (0, 0), (4, 101)])" "map er_packed (err_abs (put_errors [(3, 100), (0, 0), (4, 101)])) = [0x03000064, 0, 0x04000065]"
    by (simp add: put_errors_def ERR_put_error_queue) code_simp
  show ?thesis
    using ERR_print_errors_prints [OF two(1), of "\<lambda>n. ''''" "[]" "''''" 0 ?f True "[]"]
      ERR_print_errors_prints [OF three(1), of "\<lambda>n. ''''" "[]" "''''" 0 ?f True "[]"] two(2) three(2)
    by (auto simp: map_eq_Cons_conv)
qed


section \<open>Pools of buffers\<close>

text \<open>
  C18: sharing between threads. However the locked sections of making, sharing and freeing buffers of
  a pool interleave: two buffers with the same bytes that clients hold are the same object; it is
  alive and its count is the number of references (or stuck at the maximum); giving it up neither aborts
  nor fails an assertion; and a buffer nobody holds is not in the pool any more, unless its count is stuck.
\<close>

theorem pool_shares_live_buffers:
  assumes "pool_reachable \<lparr>c_pool = st, c_pending = P, c_handles = H\<rparr>"
  shows "(\<forall>a\<in>#H. \<forall>b\<in>#H. cb_bytes a = cb_bytes b \<longrightarrow> a = b) \<and>
    (\<forall>b\<in>#H. counts H b (p_refs st (cb_addr b)) \<and> CRYPTO_BUFFER_free m (Some b) st \<noteq> None) \<and>
    (\<forall>bs b. pooled st bs = Some b \<longrightarrow> b \<in># H \<or> p_refs st (cb_addr b) = Some CRYPTO_REFCOUNT_MAX)"
  using pool_safe [OF assms] by blast

definition demo_pool :: crypto_buffer_pool_st where
  "demo_pool = \<lparr>p_bufs = \<lparr>lh_items = 0, lh_buckets = replicate 16 [], lh_num_buckets = 16, lh_callback_depth = 0,
     lh_comp = (), lh_hash = ()\<rparr>, p_refs = (\<lambda>_. None)\<rparr>"

definition demo_buffer :: crypto_buffer_st where
  "demo_buffer = \<lparr>cb_addr = 1, cb_pool = True, cb_bytes = [5, 6]\<rparr>"

lemma demo_pool_reachable: "pool_reachable \<lparr>c_pool = demo_pool, c_pending = {#}, c_handles = {#}\<rparr>"
proof (rule pool_reachable.new [of "\<lambda>_. Some 7"])
  show "CRYPTO_BUFFER_POOL_new (\<lambda>_. Some 7) = Some demo_pool"
    by (simp add: CRYPTO_BUFFER_POOL_new_def lh_new_def malloc_addr_def demo_pool_def kMinNumBuckets_def)
qed

lemma demo_buffer_made:
  obtains st where "CRYPTO_BUFFER_new (\<lambda>_. Some 7) (Some 1) zeroing_malloc [5, 6] 2 True demo_pool = (Some demo_buffer, st)"
proof -
  obtain b where b: "OPENSSL_memdup zeroing_malloc [5, 6] 2 = Some b"
    by (auto simp: OPENSSL_memdup_def OPENSSL_malloc_def malloc_def zeroing_malloc_def SIZE_MOD_def OPENSSL_MALLOC_PREFIX_def)
  have "blk_data b = [5, 6]" using OPENSSL_memdup_block(2) [OF zeroing_malloc_ok _ _ b] by (simp add: SIZE_MOD_def)
  then show thesis using that b
    by (simp add: CRYPTO_BUFFER_new_def new_lookup_def new_buffer_def new_insert_def lh_retrieve_def lh_insert_def
        get_next_ptr_and_hash_def deref_def malloc_addr_def demo_pool_def demo_buffer_def Let_def)
qed

lemma demo_buffer_reachable:
  obtains st where "pool_reachable \<lparr>c_pool = st, c_pending = {#}, c_handles = {#demo_buffer#}\<rparr>" "pooled st [5, 6] = Some demo_buffer"
proof -
  obtain st where n: "CRYPTO_BUFFER_new (\<lambda>_. Some 7) (Some 1) zeroing_malloc [5, 6] 2 True demo_pool = (Some demo_buffer, st)"
    by (rule demo_buffer_made)
  have r: "pool_reachable \<lparr>c_pool = st, c_pending = {#}, c_handles = {#demo_buffer#}\<rparr>"
    using pool_reachable_new [OF demo_pool_reachable _ n] by (simp add: demo_pool_def)
  with pool_reachable_inv [OF r] show thesis using that by (simp add: pool_inv_def demo_buffer_def)
qed

theorem pool_shares_live_buffers_witness:
  "\<exists>st. pooled st [5, 6] = Some demo_buffer \<and> counts {#demo_buffer#} demo_buffer (p_refs st 1) \<and>
     CRYPTO_BUFFER_free (\<lambda>_. None) (Some demo_buffer) st \<noteq> None"
proof -
  obtain st where r: "pool_reachable \<lparr>c_pool = st, c_pending = {#}, c_handles = {#demo_buffer#}\<rparr>" "pooled st [5, 6] = Some demo_buffer"
    by (rule demo_buffer_reachable)
  with pool_shares_live_buffers [OF r(1), of "\<lambda>_. None"] show ?thesis by (auto simp: demo_buffer_def)
qed

text \<open>
  An uninterrupted call of \<open>CRYPTO_BUFFER_new\<close>. It leads to a state of the same kind; the buffer it
  gives has the bytes asked for, and is the one a client already holds if there is one; freeing a buffer
  that has one reference takes it out of the pool.
\<close>

theorem CRYPTO_BUFFER_new_shares:
  assumes "pool_reachable \<lparr>c_pool = st, c_pending = P, c_handles = H\<rparr>" "p_refs st a = None"
    and "malloc_ok m" "len + 8 < SIZE_MOD" "len \<le> length data"
    and "CRYPTO_BUFFER_new ma (Some a) m data len True st = (r, st')"
  shows "pool_reachable \<lparr>c_pool = st', c_pending = P, c_handles = (case r of None \<Rightarrow> H | Some b \<Rightarrow> add_mset b H)\<rparr> \<and>
    (\<forall>b. r = Some b \<longrightarrow> cb_bytes b = take len data) \<and> (\<forall>h\<in>#H. cb_bytes h = take len data \<longrightarrow> r = Some h) \<and>
    (\<forall>b. r = Some b \<longrightarrow> b \<notin># H \<longrightarrow> p_refs st' (cb_addr b) \<noteq> Some CRYPTO_REFCOUNT_MAX \<longrightarrow>
       (\<exists>st''. CRYPTO_BUFFER_free ma (Some b) st' = Some st'' \<and> pooled st'' = (pooled st')(take len data := None)))"
proof (intro conjI)
  show reach: "pool_reachable \<lparr>c_pool = st', c_pending = P, c_handles = (case r of None \<Rightarrow> H | Some b \<Rightarrow> add_mset b H)\<rparr>"
    by (rule pool_reachable_new [OF assms(1,2,6)])
  show bytes: "\<forall>b. r = Some b \<longrightarrow> cb_bytes b = take len data" using CRYPTO_BUFFER_new_result(1) [OF assms] by blast
  show "\<forall>h\<in>#H. cb_bytes h = take len data \<longrightarrow> r = Some h" using CRYPTO_BUFFER_new_result(2) [OF assms] by blast
  show "\<forall>b. r = Some b \<longrightarrow> b \<notin># H \<longrightarrow> p_refs st' (cb_addr b) \<noteq> Some CRYPTO_REFCOUNT_MAX \<longrightarrow>
       (\<exists>st''. CRYPTO_BUFFER_free ma (Some b) st' = Some st'' \<and> pooled st'' = (pooled st')(take len data := None))"
    using CRYPTO_BUFFER_free_last reach bytes by fastforce
qed

theorem CRYPTO_BUFFER_new_shares_witness:
  "\<exists>st. fst (CRYPTO_BUFFER_new (\<lambda>_. None) (Some 2) zeroing_malloc [5, 6, 7] 2 True st) = Some demo_buffer"
proof -
  obtain st where n: "CRYPTO_BUFFER_new (\<lambda>_. Some 7) (Some 1) zeroing_malloc [5, 6] 2 True demo_pool = (Some demo_buffer, st)"
    by (rule demo_buffer_made)
  have r: "pool_reachable \<lparr>c_pool = st, c_pending = {#}, c_handles = {#demo_buffer#}\<rparr>"
    using pool_reachable_new [OF demo_pool_reachable _ n] by (simp add: demo_pool_def)
  have "p_refs st 2 = None"
    using n by (auto simp: CRYPTO_BUFFER_new_def new_lookup_def new_buffer_def new_insert_def demo_pool_def demo_buffer_def
        add_reference_def Let_def split: prod.splits option.splits if_splits)
  moreover obtain b st' where "CRYPTO_BUFFER_new (\<lambda>_. None) (Some 2) zeroing_malloc [5, 6, 7] 2 True st = (b, st')"
    by (metis prod.exhaust)
  ultimately show ?thesis
    using CRYPTO_BUFFER_new_shares [OF r _ zeroing_malloc_ok, of 2 2 "[5, 6, 7]" "\<lambda>_. None" b st']
    by (intro exI [of _ st]) (simp add: SIZE_MOD_def demo_buffer_def)
qed

section \<open>Times\<close>

text \<open>
  C19: the two conversions between dates and Julian days, for the years -4799 to 1400000. For the date that is \<open>k\<close> days after
  1970-01-01 on the calendar that counts day by day, \<open>date_to_julian\<close> gives the day \<open>2440588 + k\<close> and
  \<open>julian_to_date\<close> gives the date back; no operation of either overflows.
\<close>

theorem date_conversions_are_calendar:
  assumes "date_after k = (y, m, d)" "- 4799 \<le> y" "y \<le> 1400000"
  shows "date_to_julian y m d = Some (2440588 + k) \<and> julian_to_date (2440588 + k) = Some (y, m, d)"
  using julian_inverse [OF assms] .

lemma a_leap_day: "date_after (-672) = (1968, 2, 29)"
  by code_simp

theorem date_conversions_are_calendar_witness:
  "date_to_julian 1968 2 29 = Some 2439916 \<and> julian_to_date 2439916 = Some (1968, 2, 29)"
  using date_conversions_are_calendar [OF a_leap_day] by simp

text \<open>
  C20: \<open>OPENSSL_gmtime_adj\<close> adds days and seconds. For a broken-down time with its fields in their ranges,
  at most 2 * 10^9 days and an \<open>int\<close> of seconds either way (with more seconds the code can overflow, see below), nothing overflows; the result is the proper date and
  time that many seconds later, and an error exactly when its year is not in 1900 to 9999.
\<close>

theorem OPENSSL_gmtime_adj_adds:
  assumes "tm_ok tm" "\<bar>off_day\<bar> \<le> 2000000000" "\<bar>offset_sec\<bar> < 2 ^ 31"
  shows "\<exists>r. OPENSSL_gmtime_adj tm off_day offset_sec = Some r \<and>
    (case r of
       None \<Rightarrow> \<forall>t. tm_valid t \<and> 0 \<le> tm_year t \<and> tm_year t \<le> 8099 \<longrightarrow>
         tm_secs t \<noteq> tm_secs tm + 86400 * off_day + offset_sec
     | Some tm' \<Rightarrow> tm_valid tm' \<and> 0 \<le> tm_year tm' \<and> tm_year tm' \<le> 8099 \<and>
         tm_secs tm' = tm_secs tm + 86400 * off_day + offset_sec)"
proof -
  obtain r where r: "OPENSSL_gmtime_adj tm off_day offset_sec = Some r"
    and some: "\<And>tm'. r = Some tm' \<Longrightarrow> tm_valid tm' \<and> tm_secs tm' = tm_secs tm + 86400 * off_day + offset_sec \<and>
      0 \<le> tm_year tm' \<and> tm_year tm' \<le> 8099"
    and none: "\<And>t. r = None \<Longrightarrow> tm_valid t \<Longrightarrow> tm_secs t = tm_secs tm + 86400 * off_day + offset_sec \<Longrightarrow>
      tm_year t < 0 \<or> 8099 < tm_year t"
    by (rule OPENSSL_gmtime_adj_spec [OF assms refl]) blast
  show ?thesis
  proof (cases r)
    case None
    then show ?thesis using r none by fastforce
  next
    case (Some tm')
    then show ?thesis using r some [OF Some] by simp
  qed
qed

definition new_year :: tm where
  "new_year = \<lparr>tm_sec = 0, tm_min = 0, tm_hour = 0, tm_mday = 1, tm_mon = 0, tm_year = 100\<rparr>"

theorem OPENSSL_gmtime_adj_adds_witness:
  "\<exists>r. OPENSSL_gmtime_adj new_year 0 (-1) = Some r \<and> (\<forall>t. r = Some t \<longrightarrow> tm_secs t = tm_secs new_year - 1)"
  using OPENSSL_gmtime_adj_adds [of new_year 0 "-1"] by (auto simp: tm_ok_def new_year_def split: option.splits)

text \<open>
  Overflow in \<open>OPENSSL_gmtime_adj\<close>. From 24856 days on (and as long as the days fit an \<open>int\<close>), an offset in
  seconds makes the code multiply \<open>int\<close>s beyond their range, although the parameter is a \<open>long\<close>.
\<close>

theorem OPENSSL_gmtime_adj_can_overflow:
  assumes "2147558400 \<le> offset_sec" "offset_sec < 185542587187200"
  shows "OPENSSL_gmtime_adj tm off_day offset_sec = None"
  using OPENSSL_gmtime_adj_overflows [OF assms] .

theorem OPENSSL_gmtime_adj_can_overflow_witness: "OPENSSL_gmtime_adj new_year 0 2207520000 = None"
  by (rule OPENSSL_gmtime_adj_can_overflow) simp_all

text \<open>
  C21: which texts are times. On a string with its terminator, the check accepts exactly the texts of
  the grammar of its type, and \<open>asn1_time_to_tm\<close> gives the time the text denotes, less the offset; it
  fails otherwise, or when the offset leads out of the years 1900 to 9999. It never reads
  past the terminator and never overflows.
\<close>

theorem times_read_exactly:
  assumes "terminated d"
  shows "ASN1_TIME_check d = (if \<exists>ck off. time_denotes d ck off then Done () else Reject) \<and>
    (case asn1_time_to_tm now tm (Some d) of
       Fault \<Rightarrow> False
     | Reject \<Rightarrow> \<forall>ck off. time_denotes d ck off \<longrightarrow> off \<noteq> 0 \<and>
         (\<forall>t. tm_valid t \<longrightarrow> tm_secs t = tm_secs (tm_of ck) - off \<longrightarrow> tm_year t < 0 \<or> 8099 < tm_year t)
     | Done t' \<Rightarrow> \<exists>ck off t. time_denotes d ck off \<and> t' = Some t \<and> tm_secs t = tm_secs (tm_of ck) - off \<and>
         (if off = 0 then t = tm_of ck else tm_valid t))"
  using ASN1_TIME_check_spec [OF assms] times_read [OF assms] by blast

text \<open>\<open>700101000000Z\<close>.\<close>

definition epoch_string :: asn1_string_st where
  "epoch_string = on_stack V_ASN1_UTCTIME 13 [55, 48, 48, 49, 48, 49, 48, 48, 48, 48, 48, 48, 90, 0]"

lemma epoch_terminated: "terminated epoch_string"
  by (simp add: epoch_string_def on_stack_def terminated_def string_ok_def block_ok_def SIZE_MOD_def)

lemma epoch_denotes: "time_denotes epoch_string (1970, 1, 1, 0, 0, 0) 0"
proof -
  have "utc_time (str_bytes epoch_string) = Some ((1970, 1, 1, 0, 0, 0), 0)" by code_simp
  then show ?thesis by (simp add: time_denotes_def utc_time_iff epoch_string_def on_stack_def)
qed

theorem times_read_exactly_witness:
  "ASN1_TIME_check epoch_string = Done () \<and> asn1_time_to_tm 0 new_year (Some epoch_string) \<noteq> Reject"
proof -
  note r = times_read_exactly [OF epoch_terminated, of 0 new_year]
  have "ASN1_TIME_check epoch_string = Done ()" using conjunct1 [OF r] epoch_denotes by meson
  moreover have "asn1_time_to_tm 0 new_year (Some epoch_string) \<noteq> Reject" using conjunct2 [OF r] epoch_denotes by force
  ultimately show ?thesis ..
qed

text \<open>
  C22: a time that is set reads back. For a time in the years 1 to 9998, at most 2 * 10^9 days and an \<open>int\<close> of
  seconds either way, \<open>ASN1_TIME_adj\<close> does not overflow; what it writes is a text, of the type RFC 5280 asks for, that reads
  as the time \<open>t\<close> plus the offsets; it fails only without memory or when the year of the sum is not
  in 1900 to 9999.
\<close>

theorem ASN1_TIME_adj_reads_back:
  assumes "malloc_ok m" "pred_option string_ok s"
    and "- 62135596800 \<le> t" "t < 253370764800" "\<bar>od\<bar> \<le> 2000000000" "\<bar>os\<bar> < 2 ^ 31"
  shows "\<exists>r. ASN1_TIME_adj m s t od os = Some r \<and> (case r of
      None \<Rightarrow> malloc_total m \<longrightarrow>
        (\<forall>ts. tm_valid ts \<longrightarrow> tm_secs ts = EPOCH + t + 86400 * od + os \<longrightarrow> tm_year ts < 0 \<or> 8099 < tm_year ts)
    | Some s' \<Rightarrow> \<exists>ts. tm_valid ts \<and> tm_secs ts = EPOCH + t + 86400 * od + os \<and> terminated s' \<and>
        (\<forall>now tm. asn1_time_to_tm now tm (Some s') = Done (Some ts)))"
  using ASN1_TIME_adj_spec [OF assms refl] unfolding reads_as_def .

theorem ASN1_TIME_adj_reads_back_witness:
  "\<exists>s ts. ASN1_TIME_adj zeroing_malloc None 0 1 (-1) = Some (Some s) \<and> tm_secs ts = EPOCH + 86399 \<and>
     asn1_time_to_tm 0 new_year (Some s) = Done (Some ts)"
proof -
  have "tm_valid \<lparr>tm_sec = 59, tm_min = 59, tm_hour = 23, tm_mday = 1, tm_mon = 0, tm_year = 70\<rparr>"
    "tm_secs \<lparr>tm_sec = 59, tm_min = 59, tm_hour = 23, tm_mday = 1, tm_mon = 0, tm_year = 70\<rparr> = EPOCH + 86399"
    by code_simp+
  then show ?thesis
    using ASN1_TIME_adj_reads_back [OF zeroing_malloc_ok, of None 0 1 "-1"] zeroing_malloc_total
    by (fastforce split: option.splits)
qed

text \<open>
  \<open>ASN1_TIME_to_generalizedtime\<close> of a UTCTime. The result is the text with the century in front, 19 or
  20 as the year is from 50 or below, and denotes the same time as the original;
  it fails exactly when the check does, or without memory.
\<close>

theorem ASN1_TIME_to_generalizedtime_keeps_time:
  assumes "malloc_ok m" "terminated t" "as_type t = V_ASN1_UTCTIME" "as_length t < 2 ^ 31 - 3"
  shows "\<exists>res. ASN1_TIME_to_generalizedtime m t None = Some res \<and> (case res of
      None \<Rightarrow> (\<forall>ck off. \<not> time_denotes t ck off) \<or> \<not> malloc_total m
    | Some r \<Rightarrow> terminated r \<and> (\<exists>ck off. time_denotes t ck off \<and> time_denotes r ck off))"
proof -
  obtain res where res: "ASN1_TIME_to_generalizedtime m t None = Some res" and c: "case res of
      None \<Rightarrow> utc_time (str_bytes t) = None \<or> \<not> malloc_total m
    | Some r \<Rightarrow> terminated r \<and> str_bytes r = century (str_bytes t) @ str_bytes t \<and> utc_time (str_bytes t) \<noteq> None \<and>
        as_type r = V_ASN1_GENERALIZEDTIME"
    using ASN1_TIME_to_generalizedtime_spec [OF assms, of None] by (simp only: option.case option.pred_inject simp_thms) blast
  have d: "time_denotes t ck off \<longleftrightarrow> utc_time (str_bytes t) = Some (ck, off)" for ck off
    using assms(3) utc_not_generalized by (simp add: time_denotes_def utc_time_iff)
  show ?thesis
  proof (cases res)
    case None
    then show ?thesis using res c d by auto
  next
    case (Some r)
    then obtain ck off where u: "utc_time (str_bytes t) = Some (ck, off)" using c by auto
    then have "generalized_time (str_bytes r) = Some (ck, off)" using c Some utc_to_generalized [of "str_bytes t"] by simp
    then have "time_denotes r ck off" using c Some by (simp add: time_denotes_def generalized_time_iff)
    then show ?thesis using res c d u Some by auto
  qed
qed

theorem ASN1_TIME_to_generalizedtime_keeps_time_witness:
  "\<exists>r. ASN1_TIME_to_generalizedtime zeroing_malloc epoch_string None = Some (Some r) \<and> terminated r"
  using ASN1_TIME_to_generalizedtime_keeps_time [OF zeroing_malloc_ok epoch_terminated] epoch_denotes zeroing_malloc_total
  by (fastforce simp: epoch_string_def on_stack_def split: option.splits)

section \<open>ASN.1 headers, integers and bit strings\<close>

text \<open>
  C23: headers read back. What \<open>ASN1_put_object\<close> writes for a class, a tag number and a length has the size that
  \<open>ASN1_object_size\<close> announces, and \<open>ASN1_get_object\<close> reads from it, followed by enough octets, the class,
  the number, the length and the constructed bit, and stops at the contents. The length is definite and at most \<open>INT_MAX div 2\<close>, and
  universal tags are at most 255, the largest the parser takes.
\<close>

theorem ASN1_put_object_reads_back:
  assumes "0 \<le> len" "len \<le> int INT_MAX div 2" "0 \<le> tag" "tag < 2 ^ 31" "con \<noteq> 2"
    and "xclass AND V_ASN1_PRIVATE = V_ASN1_UNIVERSAL \<Longrightarrow> tag \<le> 255" "len \<le> int (length r)"
    and p: "p = ASN1_put_object con len tag xclass"
  shows "ASN1_object_size con len tag = int (length p) + len \<and>
    ASN1_get_object (p @ r) (int (length (p @ r))) =
      Done \<lparr>ao_ret = (if con \<noteq> 0 then V_ASN1_CONSTRUCTED else 0), ao_length = len, ao_tag = tag,
        ao_class = xclass AND V_ASN1_PRIVATE, ao_rest = r\<rparr>"
proof
  have "len < 2 ^ 31 - 16" using assms(2) by (simp add: INT_MAX_def)
  from ASN1_object_size_octets [OF assms(1,3,4) this, of con xclass]
  show "ASN1_object_size con len tag = int (length p) + len" using assms(5) p by simp
qed (rule put_get_object [OF assms(1-5) _ assms(7) p], rule assms(6))

theorem ASN1_put_object_reads_back_witness:
  "ASN1_get_object (ASN1_put_object 1 200 1000 0x80 @ replicate 200 0) (int (length (ASN1_put_object 1 200 1000 0x80 @ replicate 200 0))) =
     Done \<lparr>ao_ret = V_ASN1_CONSTRUCTED, ao_length = 200, ao_tag = 1000, ao_class = 0x80, ao_rest = replicate 200 0\<rparr>"
  using ASN1_put_object_reads_back [of 200 1000 1 "0x80" "replicate 200 0", OF _ _ _ _ _ _ _ refl]
  by (simp only: INT_MAX_def V_ASN1_PRIVATE_def V_ASN1_UNIVERSAL_def length_replicate) simp

text \<open>
  \<open>ASN1_get_object\<close> stays in its bound. With the bound inside the memory it reads no octet behind it, and when
  it does not flag the length as too long, the contents it announces lie in front of the bound as well.
\<close>

theorem ASN1_get_object_in_bound:
  assumes "0 \<le> omax" "omax \<le> int (length pp)"
  shows "case ASN1_get_object pp omax of
      Fault \<Rightarrow> False
    | Reject \<Rightarrow> True
    | Done r \<Rightarrow> \<exists>h. pp = h @ ao_rest r \<and> int (length h) \<le> omax \<and> 0 \<le> ao_length r \<and>
        (ao_ret r AND 0x80 = 0 \<longrightarrow> int (length h) + ao_length r \<le> omax)"
  using ASN1_get_object_bound [OF assms] .

theorem ASN1_get_object_in_bound_witness: "ASN1_get_object [0x1f, 0x81] 1 \<noteq> Fault \<and> ASN1_get_object [0x1f, 0x81] 2 \<noteq> Fault"
  using ASN1_get_object_in_bound [of 1 "[0x1f, 0x81]"] ASN1_get_object_in_bound [of 2 "[0x1f, 0x81]"]
  by (auto split: parse.splits)

text \<open>
  C24: the two parsers of elements agree. An element that the newer \<open>CBS_get_any_asn1_element\<close> takes from some octets,
  \<open>ASN1_get_object\<close> reads as the same tag number, class and constructed bit, with the same header and contents
  (unless it is longer than \<open>INT_MAX / 2\<close> or its tag is universal and over 255, where the older parser has limits).
\<close>

theorem element_parsers_agree:
  assumes "CBS_get_any_asn1_element cbs = Some (el, tag, hl, rest)" "length el \<le> hl + INT_MAX div 2"
    and "unat tag div 2 ^ 30 = 0 \<longrightarrow> unat tag mod 2 ^ 29 \<le> 255"
  shows "\<exists>r. ASN1_get_object cbs (int (length cbs)) = Done r \<and> ao_tag r = int (unat tag mod 2 ^ 29) \<and>
    unat (ao_class r) = unat tag div 2 ^ 30 * 64 \<and> unat (ao_ret r) = unat tag div 2 ^ 29 mod 2 * 32 \<and>
    int hl + ao_length r = int (length el) \<and> ao_rest r = drop hl el @ rest"
  using parsers_agree [OF assms] .

lemma a_null_element: "CBS_get_any_asn1_element [5, 0, 7] = Some ([5, 0], 5, 2, [7])"
  by code_simp

theorem element_parsers_agree_witness: "\<exists>r. ASN1_get_object [5, 0, 7] 3 = Done r \<and> ao_tag r = 5 \<and> ao_length r = 0 \<and> ao_rest r = [7]"
  using element_parsers_agree [OF a_null_element] by (simp add: INT_MAX_def) blast

text \<open>
  C25: contents octets of integers. From any octets \<open>c2i_ASN1_INTEGER\<close> makes the integer they denote in two's complement,
  and \<open>i2c_ASN1_INTEGER\<close> writes for it octets that denote the same integer; when the octets were
  minimal they are written back as they were.
\<close>

theorem ASN1_INTEGER_contents_round_trip:
  assumes m: "malloc_ok m" and p: "p \<noteq> []" "length p \<le> INT_MAX div 2" and a: "pred_option string_ok a"
  shows "case c2i_ASN1_INTEGER m a (p @ rest) (int (length p)) of
      (None, rest') \<Rightarrow> rest' = p @ rest \<and> \<not> malloc_total m
    | (Some r, rest') \<Rightarrow> rest' = rest \<and> integer_ok r \<and> asn1_int r = sval p \<and>
        (\<exists>out. i2c_ASN1_INTEGER (Some r) = Some (int (length out), out) \<and> sval out = sval p \<and> (minimal_signed p \<longrightarrow> out = p))"
proof -
  have "int (length p) \<le> int INT_MAX div 2" using p(2) by (simp add: INT_MAX_def)
  note r = c2i_ASN1_INTEGER_reads [OF m this _ _ a, of "p @ rest"]
  show ?thesis
  proof (cases "c2i_ASN1_INTEGER m a (p @ rest) (int (length p))")
    case (Pair r' rest')
    show ?thesis
    proof (cases r')
      case None
      then show ?thesis using r Pair by simp
    next
      case (Some s)
      then have s: "rest' = rest" "integer_ok s" "asn1_int s = sval p" "c2i_octets p = (as_type s, str_bytes s)"
        using r Pair p(1) by simp_all
      have "length (str_bytes s) \<le> length p" by (rule c2i_octets_spec(3) [OF p(1) s(4)])
      then have "as_length s < 2 ^ 31 - 1"
        using s(2) p(2) length_str_bytes [of s] by (simp add: integer_ok_def string_ok_def INT_MAX_def)
      from i2c_ASN1_INTEGER_writes [OF s(2) this] obtain out where
        out: "i2c_ASN1_INTEGER (Some s) = Some (int (length out), out)" "sval out = sval p"
          "magnitude_ok s \<longrightarrow> out = sint_octets (sval p)" unfolding s(3) by blast
      moreover have "minimal_signed p \<longrightarrow> out = p"
        using c2i_octets_minimal [OF _ s(4)] out(3) minimal_signed_iff [of p] by (auto simp: magnitude_ok_def minimal_signed_def)
      ultimately show ?thesis using Pair Some s(1-3) by simp
    qed
  qed
qed

theorem ASN1_INTEGER_contents_round_trip_witness:
  "\<exists>r. c2i_ASN1_INTEGER zeroing_malloc None [0xff, 0x00, 7] 2 = (Some r, [7]) \<and> asn1_int r = -256 \<and>
     i2c_ASN1_INTEGER (Some r) = Some (2, [0xff, 0x00])"
proof -
  have "minimal_signed [0xff, 0x00] \<and> sval [0xff, 0x00] = -256" by (simp add: minimal_signed_def sval_def)
  moreover from ASN1_INTEGER_contents_round_trip [OF zeroing_malloc_ok, of "[0xff, 0x00]" None "[7]"]
  have "\<exists>r out. c2i_ASN1_INTEGER zeroing_malloc None [0xff, 0x00, 7] 2 = (Some r, [7]) \<and> asn1_int r = sval [0xff, 0x00] \<and>
    i2c_ASN1_INTEGER (Some r) = Some (int (length out), out) \<and> (minimal_signed [0xff, 0x00] \<longrightarrow> out = [0xff, 0x00])"
    using zeroing_malloc_total
    by (cases "c2i_ASN1_INTEGER zeroing_malloc None [0xff, 0x00, 7] 2"; cases "fst (c2i_ASN1_INTEGER zeroing_malloc None [0xff, 0x00, 7] 2)")
      (auto simp: INT_MAX_def)
  ultimately show ?thesis by fastforce
qed

text \<open>
  C26: a \<open>long\<close> that is stored in an integer object is the integer it denotes, and comes back, except the least one: \<open>-2^63\<close> is
  stored and then read as the error -1. Objects compare as the integers that were stored.
\<close>

theorem ASN1_INTEGER_set_get_cmp:
  assumes m: "malloc_ok m" and v: "- (2 ^ 63) \<le> v" "v < 2 ^ 63" and w: "- (2 ^ 63) \<le> w" "w < 2 ^ 63"
    and a: "ASN1_INTEGER_set m a v = (True, a')" and b: "ASN1_INTEGER_set m b w = (True, b')"
  shows "asn1_int a' = v \<and> ASN1_INTEGER_get (Some a') = (if v = - (2 ^ 63) then -1 else v) \<and>
    sgn (ASN1_INTEGER_cmp a' b') = sgn (v - w)"
proof -
  have a': "integer_ok a'" "magnitude_ok a'" "as_length a' \<le> 8" "asn1_int a' = v" "be_val (str_bytes a') = nat \<bar>v\<bar>"
    using ASN1_INTEGER_set_spec [OF m v, of a] a by simp_all
  have b': "integer_ok b'" "magnitude_ok b'" "asn1_int b' = w"
    using ASN1_INTEGER_set_spec [OF m w, of b] b by simp_all
  have "nat \<bar>v\<bar> < 2 ^ 63 \<longleftrightarrow> v \<noteq> - (2 ^ 63)" using v by (auto simp: nat_less_iff)
  then show ?thesis
    using ASN1_INTEGER_get_spec [OF a'(1,3)] ASN1_INTEGER_cmp_spec [OF a'(1) b'(1) a'(2) b'(2)] a'(4,5) b'(3) by simp
qed

definition an_integer :: asn1_string_st where
  "an_integer = \<lparr>as_length = 0, as_type = V_ASN1_INTEGER, as_data = None, as_flags = 0\<rparr>"

lemma an_integer_set: "\<lbrakk>- (2 ^ 63) \<le> v; v < 2 ^ 63\<rbrakk> \<Longrightarrow> \<exists>a'. ASN1_INTEGER_set zeroing_malloc an_integer v = (True, a')"
  using ASN1_INTEGER_set_spec [OF zeroing_malloc_ok, of v an_integer] zeroing_malloc_total
  by (auto split: prod.splits bool.splits)

theorem ASN1_INTEGER_set_get_cmp_witness:
  "\<exists>a b. ASN1_INTEGER_set zeroing_malloc an_integer (-300) = (True, a) \<and> ASN1_INTEGER_get (Some a) = -300 \<and>
     ASN1_INTEGER_set zeroing_malloc an_integer (- (2 ^ 63)) = (True, b) \<and> ASN1_INTEGER_get (Some b) = -1 \<and>
     0 < ASN1_INTEGER_cmp a b"
proof -
  obtain a where a: "ASN1_INTEGER_set zeroing_malloc an_integer (-300) = (True, a)" using an_integer_set [of "-300"] by auto
  obtain b where b: "ASN1_INTEGER_set zeroing_malloc an_integer (- (2 ^ 63)) = (True, b)" using an_integer_set [of "- (2 ^ 63)"] by auto
  show ?thesis
    using ASN1_INTEGER_set_get_cmp [OF zeroing_malloc_ok _ _ _ _ a b] ASN1_INTEGER_set_get_cmp [OF zeroing_malloc_ok _ _ _ _ b a]
    by (intro exI [of _ a] exI [of _ b]) (use a b in \<open>simp add: sgn_1_pos\<close>)
qed

text \<open>
  C27: bits of a bit string. \<open>ASN1_BIT_STRING_set_bit\<close> changes the bit it is given and no other, growing and shrinking the
  memory; when it has no memory it leaves the contents as they were.
\<close>

theorem ASN1_BIT_STRING_bits:
  assumes "malloc_ok m" "string_ok a" "n < 2 ^ 31"
  shows "\<exists>ok a'. ASN1_BIT_STRING_set_bit m (Some a) (int n) v = Done (ok, Some a') \<and> string_ok a' \<and>
    (if ok then \<forall>i. ASN1_BIT_STRING_get_bit (Some a') (int i) =
       (if i = n then Done (v \<noteq> 0) else ASN1_BIT_STRING_get_bit (Some a) (int i))
     else str_bytes a' = str_bytes a \<and> \<not> malloc_total m)"
proof -
  obtain ok a' where s: "ASN1_BIT_STRING_set_bit m (Some a) (int n) v = Done (ok, Some a')" "string_ok a'"
    "if ok then \<forall>i. string_bit a' i = (if i = n then v \<noteq> 0 else string_bit a i)
     else str_bytes a' = str_bytes a \<and> \<not> malloc_total m"
    using ASN1_BIT_STRING_set_bit_spec [OF assms, of v] by blast
  then show ?thesis
    using ASN1_BIT_STRING_get_bit_spec [OF s(2)] ASN1_BIT_STRING_get_bit_spec [OF assms(2)]
    by (intro exI [of _ ok] exI [of _ a']) (cases ok; simp)
qed

definition no_bits :: asn1_string_st where
  "no_bits = \<lparr>as_length = 0, as_type = V_ASN1_BIT_STRING, as_data = None, as_flags = 0\<rparr>"

lemma no_bits_ok: "string_ok no_bits"
  by (simp add: no_bits_def string_ok_def)

theorem ASN1_BIT_STRING_bits_witness:
  "\<exists>a. ASN1_BIT_STRING_set_bit zeroing_malloc (Some no_bits) 9 1 = Done (True, Some a) \<and>
     ASN1_BIT_STRING_get_bit (Some a) 9 = Done True \<and> ASN1_BIT_STRING_get_bit (Some a) 8 = Done False"
proof -
  obtain ok a where a: "ASN1_BIT_STRING_set_bit zeroing_malloc (Some no_bits) (int 9) 1 = Done (ok, Some a)"
    "if ok then \<forall>i. ASN1_BIT_STRING_get_bit (Some a) (int i) =
         (if i = 9 then Done (1 \<noteq> (0 :: int)) else ASN1_BIT_STRING_get_bit (Some no_bits) (int i))
     else str_bytes a = str_bytes no_bits \<and> \<not> malloc_total zeroing_malloc"
    using ASN1_BIT_STRING_bits [OF zeroing_malloc_ok no_bits_ok, of 9 1] by auto
  have ok using a(2) zeroing_malloc_total by (cases ok) simp_all
  then have g: "\<And>i. ASN1_BIT_STRING_get_bit (Some a) (int i) =
       (if i = 9 then Done True else ASN1_BIT_STRING_get_bit (Some no_bits) (int i))"
    using a(2) by simp
  have "ASN1_BIT_STRING_get_bit (Some a) 9 = Done True" "ASN1_BIT_STRING_get_bit (Some a) 8 = Done False"
    using g [of 9] g [of 8] by (simp_all add: ASN1_BIT_STRING_get_bit_def no_bits_def Let_def)
  then show ?thesis using a(1) \<open>ok\<close> by auto
qed




section \<open>Big integers\<close>

text \<open>Objects for the instances below.\<close>

definition number :: "bool \<Rightarrow> limb list \<Rightarrow> bignum" where
  "number neg ws = \<lparr>bn_d = ws, bn_width = length ws, bn_dmax = length ws, bn_neg = neg, bn_flags = BN_FLG_MALLOCED\<rparr>"

lemma number_ok: "length ws \<le> 2 ^ 23 \<Longrightarrow> bn_ok (number neg ws)"
  by (simp add: number_def bn_ok_def)

lemma number_val: "bn_abs (number neg ws) = wval ws" "bn_val (number neg ws) = (if neg then - int (wval ws) else int (wval ws))"
  "bn_signed (number neg ws) \<longleftrightarrow> (neg \<longrightarrow> wval ws \<noteq> 0)"
  by (simp_all add: number_def bn_abs_def bn_val_def bn_limbs_def bn_signed_def)

lemma number_width: "bn_width (number neg ws) = length ws" "bn_neg (number neg ws) = neg"
  by (simp_all add: number_def)

lemma not_full [simp]: "n < 8388608 \<Longrightarrow> \<not> bn_full zeroing_malloc (number neg ws) n" "n < 8388608 \<Longrightarrow> \<not> bn_full zeroing_malloc BN_init n"
  using zeroing_malloc_total
  by (simp_all add: bn_full_def number_def BN_init_def bn_static_def BN_FLG_MALLOCED_def BN_FLG_STATIC_DATA_def)

text \<open>
  C29: sums and differences. \<open>BN_add\<close> and \<open>BN_sub\<close> are addition and subtraction of integers, for any signs and widths (minimal or not) of the
  operands and whatever was in the result, and no negative zero comes from operands that are none. They fail only when
  the result cannot get a limb more than the longer operand has.
\<close>

theorem BN_add_sub_exact:
  assumes "bn_ok r" "bn_ok a" "bn_ok b" and s: "BN_add m r a b = (ok, s)" and d: "BN_sub m r a b = (ok', d)"
  shows "bn_ok s \<and> bn_ok d \<and>
    (if ok then bn_val s = bn_val a + bn_val b else bn_full m r (max (bn_width a) (bn_width b) + 1)) \<and>
    (if ok' then bn_val d = bn_val a - bn_val b else bn_full m r (max (bn_width a) (bn_width b) + 1)) \<and>
    (bn_signed a \<and> bn_signed b \<longrightarrow> (ok \<longrightarrow> bn_signed s) \<and> (ok' \<longrightarrow> bn_signed d))"
  using BN_add_spec [OF assms(1-3) s] BN_sub_spec [OF assms(1-3) d] by (simp split: if_splits)

theorem BN_add_sub_exact_witness:
  "\<exists>s d. BN_add zeroing_malloc BN_init (number False [- 1, - 1]) (number False [1]) = (True, s) \<and> bn_val s = 2 ^ 128 \<and>
     BN_sub zeroing_malloc BN_init (number False [- 1, - 1]) (number False [1]) = (True, d) \<and> bn_val d = 2 ^ 128 - 2"
proof -
  have n: "bn_ok (number False [- 1, - 1])" "bn_ok (number False [1])" by (simp_all add: number_ok)
  have unat_ones: "unat (- 1 :: limb) = 2 ^ 64 - 1" by (simp add: unsigned_minus_1_eq_mask mask_eq_exp_minus_1)
  have v: "bn_val (number False [- 1, - 1]) = 2 ^ 128 - 1" "bn_val (number False [1]) = 1" by (simp_all add: number_val BN_BASE_def unat_ones)
  have w: "max (bn_width (number False [- 1, - 1])) (bn_width (number False [1])) + 1 = 3" by (simp add: number_def)
  obtain k s where s: "BN_add zeroing_malloc BN_init (number False [- 1, - 1]) (number False [1]) = (k, s)" by fastforce
  obtain k' d where d: "BN_sub zeroing_malloc BN_init (number False [- 1, - 1]) (number False [1]) = (k', d)" by fastforce
  show ?thesis
    using BN_add_sub_exact [OF bn_init_ok(1) n s d] s d unfolding w v by (cases k; cases k') simp_all
qed

text \<open>
  C30: sums with a limb. \<open>BN_add_word\<close> and \<open>BN_sub_word\<close>, which call each other for negative numbers, return for every number, never read a limb behind the
  width (the loop of \<open>BN_sub_word\<close> has no bound of its own), and add and subtract exactly.
\<close>

theorem BN_word_sums_exact:
  assumes "bn_ok a"
  shows "(\<exists>k a'. BN_add_word m a w = Some (k, a') \<and> bn_ok a' \<and>
      (if k then bn_val a' = bn_val a + int (unat w) \<and> (bn_signed a \<longrightarrow> bn_signed a') else bn_full m a (bn_width a + 1) \<or> bn_full m a 1)) \<and>
    (\<exists>k a'. BN_sub_word m a w = Some (k, a') \<and> bn_ok a' \<and>
      (if k then bn_val a' = bn_val a - int (unat w) \<and> (bn_signed a \<longrightarrow> bn_signed a') else bn_full m a (bn_width a + 1) \<or> bn_full m a 1))"
  using BN_add_word_spec [OF assms, of m w] BN_sub_word_spec [OF assms, of m w] by blast

theorem BN_word_sums_exact_witness:
  "(\<exists>a'. BN_sub_word zeroing_malloc (number False [3, 1]) 5 = Some (True, a') \<and> bn_val a' = 2 ^ 64 - 2) \<and>
   (\<exists>a'. BN_add_word zeroing_malloc (number True [3, 1]) 5 = Some (True, a') \<and> bn_val a' = 2 - 2 ^ 64)"
proof -
  have v: "bn_val (number False [3, 1]) = 2 ^ 64 + 3" "bn_val (number True [3, 1]) = - (2 ^ 64 + 3)" by (simp_all add: number_val BN_BASE_def)
  have w: "bn_width (number b [3, 1]) + 1 = 3" "unat (5 :: limb) = 5" for b by (simp_all add: number_width)
  obtain k a' where a: "BN_sub_word zeroing_malloc (number False [3, 1]) 5 = Some (k, a')" "if k then bn_val a' = 2 ^ 64 + 3 - int 5 else False"
    using conjunct2 [OF BN_word_sums_exact [OF number_ok, of "[3, 1]" zeroing_malloc False 5]] unfolding v w by (auto split: if_splits)
  obtain l b' where b: "BN_add_word zeroing_malloc (number True [3, 1]) 5 = Some (l, b')" "if l then bn_val b' = - (2 ^ 64 + 3) + int 5 else False"
    using conjunct1 [OF BN_word_sums_exact [OF number_ok, of "[3, 1]" zeroing_malloc True 5]] unfolding v w by (auto split: if_splits)
  show ?thesis using a b by (cases k; cases l) simp_all
qed

text \<open>
  C31: comparisons. For numbers without a negative zero, of any widths, \<open>BN_cmp\<close> gives the sign of the difference, \<open>BN_ucmp\<close> that of the magnitudes, and
  \<open>BN_equal_consttime\<close> and \<open>BN_is_word\<close> are equality.
\<close>

theorem BN_comparisons_exact:
  assumes "bn_ok a" "bn_ok b" "bn_signed a" "bn_signed b"
  shows "BN_cmp (Some a) (Some b) = sgn (bn_val a - bn_val b) \<and> BN_ucmp a b = sgn (\<bar>bn_val a\<bar> - \<bar>bn_val b\<bar>) \<and>
    (BN_equal_consttime a b \<longleftrightarrow> bn_val a = bn_val b) \<and> (BN_is_word a w \<longleftrightarrow> bn_val a = int (unat w))"
  using BN_cmp_spec [OF assms] BN_ucmp_spec [OF assms(1,2)] BN_equal_consttime_spec [OF assms] BN_is_word_spec [OF assms(1), of w]
  by (simp add: order_sign_def bn_val_def sgn_if)

theorem BN_comparisons_exact_witness:
  "BN_cmp (Some (number True [7])) (Some (number True [5, 1, 0])) = 1 \<and> BN_ucmp (number True [7]) (number True [5, 1, 0]) = - 1 \<and>
   \<not> BN_equal_consttime (number True [7]) (number True [5, 1, 0])"
  using BN_comparisons_exact [OF number_ok number_ok, of "[7]" "[5, 1, 0]" True True]
  by (simp add: number_val BN_BASE_def)

text \<open>
  C32: shifts. \<open>BN_lshift\<close> multiplies by a power of two; \<open>BN_rshift\<close> and \<open>BN_rshift1\<close> divide the magnitude and keep the sign (they round towards zero),
  and give no negative zero.
\<close>

theorem BN_shifts_exact:
  assumes "bn_ok r" "bn_ok a" and l: "BN_lshift m r a (int n) = (ok, l)" and s: "BN_rshift m r a (int n) = (ok', s)"
  shows "(if ok then bn_ok l \<and> bn_signed l \<and> bn_val l = bn_val a * 2 ^ n else bn_full m r (bn_width a + n div 64 + 1)) \<and>
    (if ok' then bn_ok s \<and> bn_signed s \<and> bn_val s = sgn (bn_val a) * (\<bar>bn_val a\<bar> div 2 ^ n) else s = r \<and> bn_full m r (bn_width a)) \<and>
    BN_rshift1 m r a = BN_rshift m r a 1"
  using BN_lshift_spec [OF assms(1,2) l] BN_rshift_spec [OF assms(1,2) s] BN_rshift1_eq [OF assms(2), of m r] by (auto split: if_splits)

theorem BN_shifts_exact_witness:
  "\<exists>l s. BN_lshift zeroing_malloc BN_init (number True [5]) (int 100) = (True, l) \<and> bn_val l = - (5 * 2 ^ 100) \<and>
     BN_rshift zeroing_malloc BN_init (number True [5]) (int 100) = (True, s) \<and> bn_val s = 0 \<and> \<not> bn_neg s"
proof -
  obtain k l where l: "BN_lshift zeroing_malloc BN_init (number True [5]) (int 100) = (k, l)" by fastforce
  obtain k' s where s: "BN_rshift zeroing_malloc BN_init (number True [5]) (int 100) = (k', s)" by fastforce
  have v: "bn_val (number True [5]) = - 5" "bn_width (number True [5]) = 1" by (simp_all add: number_val number_width)
  have z: "bn_neg s \<Longrightarrow> bn_signed s \<Longrightarrow> bn_val s \<noteq> 0" by (simp add: bn_signed_def bn_val_def)
  show ?thesis
    using BN_shifts_exact [OF bn_init_ok(1) number_ok l s] l s z unfolding v by (cases k; cases k') (simp_all, auto)
qed

text \<open>
  C33: the shift by a secret number of bits takes the number modulo a power of two, the least above the bits of the limbs: \<open>bn_rshift_secret_shift\<close> divides by
  \<open>2 ^ (n mod 2 ^ num_bits (64 * width))\<close>. It agrees with \<open>BN_rshift\<close>, as documented, only below that.
\<close>

theorem bn_rshift_secret_shift_is_modular:
  assumes "bn_ok r" "bn_ok a" "bn_ok t" and e: "bn_rshift_secret_shift m (Some t) r a n = (True, r')"
  shows "bn_ok r' \<and> bn_neg r' = bn_neg a \<and> bn_abs r' = bn_abs a div 2 ^ (n mod 2 ^ num_bits (64 * bn_width a))"
  using bn_rshift_secret_shift_spec [OF assms(1,2) refl assms(3) e] by simp

theorem bn_rshift_secret_shift_is_modular_witness:
  "\<exists>r'. bn_rshift_secret_shift zeroing_malloc (Some BN_init) BN_init (number False [6]) 129 = (True, r') \<and> bn_val r' = 3 \<and>
     (\<exists>s. BN_rshift zeroing_malloc BN_init (number False [6]) (int 129) = (True, s) \<and> bn_val s = 0)"
proof -
  obtain k r' where r': "bn_rshift_secret_shift zeroing_malloc (Some BN_init) BN_init (number False [6]) 129 = (k, r')" by fastforce
  obtain k' s where s: "BN_rshift zeroing_malloc BN_init (number False [6]) (int 129) = (k', s)" by fastforce
  have v: "bn_abs (number False [6]) = 6" "bn_val (number False [6]) = 6" "bn_width (number False [6]) = 1" "\<not> bn_neg (number False [6])"
    by (simp_all add: number_val number_width)
  have ok: "bn_ok (number False [6])" by (simp add: number_ok)
  have k: "k" using bn_rshift_secret_shift_spec [OF bn_init_ok(1) ok refl bn_init_ok(1) r'] v(3) by (cases k) simp_all
  have "num_bits 64 = 7" by code_simp
  then have "bn_val r' = 3" "k'" "bn_val s = 0"
    using bn_rshift_secret_shift_is_modular [OF bn_init_ok(1) ok bn_init_ok(1), of zeroing_malloc 129 r'] r' k v
      BN_rshift_spec [OF bn_init_ok(1) ok s] by (simp_all add: bn_val_def split: if_splits)
  then show ?thesis using r' k s by simp
qed

text \<open>
  C34: bits. \<open>BN_is_bit_set\<close> reads a bit of the magnitude, \<open>BN_set_bit\<close> and \<open>BN_clear_bit\<close> change that bit and no other, \<open>BN_mask_bits\<close> keeps the
  low bits, and \<open>BN_num_bits\<close> is the number of bits of the magnitude. \<open>BN_set_bit\<close> fails only for want of limbs; \<open>BN_clear_bit\<close>, which never
  allocates, answers 0 exactly for a bit beyond the width, which is clear already, and then changes nothing.
\<close>

theorem BN_bits_exact:
  assumes a: "bn_ok a" and s: "BN_set_bit m a (int n) = (ok, s)" and c: "BN_clear_bit a (int n) = (ok', c)" and k: "BN_mask_bits a (int n) = (ok'', l)"
  shows "(BN_is_bit_set a (int n) \<longleftrightarrow> bit (bn_abs a) n) \<and> (\<forall>j. BN_num_bits a \<le> j \<longleftrightarrow> bn_abs a < 2 ^ j) \<and>
    (if ok then bn_ok s \<and> (\<forall>j. BN_is_bit_set s (int j) \<longleftrightarrow> j = n \<or> BN_is_bit_set a (int j)) else s = a \<and> bn_full m a (n div 64 + 1)) \<and>
    (if ok' then bn_ok c \<and> (\<forall>j. BN_is_bit_set c (int j) \<longleftrightarrow> j \<noteq> n \<and> BN_is_bit_set a (int j)) else c = a \<and> \<not> BN_is_bit_set a (int n)) \<and> (ok' \<longleftrightarrow> n < 64 * bn_width a) \<and>
    ok'' \<and> bn_ok l \<and> bn_abs l = bn_abs a mod 2 ^ n"
proof -
  have "bn_width a \<le> n div 64 \<Longrightarrow> \<not> BN_is_bit_set a (int n)"
    by (simp add: BN_is_bit_set_def bn_is_bit_set_words_def BN_BITS2_def)
  moreover have "ok' \<longleftrightarrow> n < 64 * bn_width a"
    using c by (auto simp: BN_clear_bit_def BN_BITS2_def Let_def not_le div_less_iff_less_mult mult.commute split: if_splits)
  ultimately show ?thesis
    using BN_set_bit_spec [OF a s] BN_clear_bit_spec [OF a c] BN_mask_bits_spec [OF a k] BN_num_bits_spec [OF a] num_bits_le [of "bn_abs a"]
    by (auto simp: BN_is_bit_set_spec a bit_simps split: if_splits)
qed

theorem BN_bits_exact_witness:
  "\<exists>s. BN_set_bit zeroing_malloc (number False [6]) (int 70) = (True, s) \<and> BN_is_bit_set s 70 \<and> BN_is_bit_set s 2 \<and> \<not> BN_is_bit_set s 3 \<and>
     BN_num_bits (number False [6]) \<le> 3 \<and> BN_clear_bit (number False [6]) (int 70) = (False, number False [6])"
proof -
  obtain k s where s: "BN_set_bit zeroing_malloc (number False [6]) (int 70) = (k, s)" by fastforce
  obtain k' c where c: "BN_clear_bit (number False [6]) (int 70) = (k', c)" by fastforce
  obtain k'' l where l: "BN_mask_bits (number False [6]) (int 70) = (k'', l)" by fastforce
  note r = BN_bits_exact [OF number_ok s c l]
  have b: "BN_is_bit_set (number False [6]) (int 2)" "\<not> BN_is_bit_set (number False [6]) (int 3)"
    using BN_is_bit_set_spec [OF number_ok, of "[6]" False 2] BN_is_bit_set_spec [OF number_ok, of "[6]" False 3]
    by (simp_all add: number_val bit_iff_odd)
  have "k" using r by (simp add: number_width split: if_splits)
  then have "\<forall>j. BN_is_bit_set s (int j) \<longleftrightarrow> j = 70 \<or> BN_is_bit_set (number False [6]) (int j)" "BN_num_bits (number False [6]) \<le> 3"
    using r by (simp_all add: number_val split: if_splits)
  from spec [OF this(1), of 70] spec [OF this(1), of 2] spec [OF this(1), of 3] this(2) show ?thesis using s c \<open>k\<close> b r by (simp add: number_width)
qed

text \<open>
  C35: numbers as bytes. \<open>BN_bn2bin_padded\<close> and \<open>BN_bn2le_padded\<close> write the magnitude in as many bytes as they are given, or fail exactly when it does not fit;
  \<open>BN_bin2bn\<close> and \<open>BN_le2bn\<close> read the same magnitude back from them, into any object.
\<close>

theorem BN_bytes_round_trip:
  assumes a: "bn_ok a" and ret: "pred_option bn_ok ret" and x: "BN_bin2bn m be len ret = Some x" and y: "BN_le2bn m le len ret = Some y"
  shows "(BN_bn2bin_padded len a = None \<longleftrightarrow> 256 ^ len \<le> bn_abs a) \<and> (BN_bn2le_padded len a = None \<longleftrightarrow> 256 ^ len \<le> bn_abs a) \<and>
    (BN_bn2bin_padded len a = Some be \<longrightarrow> length be = len \<and> bn_ok x \<and> bn_abs x = bn_abs a) \<and>
    (BN_bn2le_padded len a = Some le \<longrightarrow> length le = len \<and> bn_ok y \<and> bn_abs y = bn_abs a)"
  using BN_bin2bn_spec [OF ret, of len be m] BN_le2bn_spec [OF ret, of len le m] x y
  by (auto simp: BN_bn2bin_padded_spec [OF a] BN_bn2le_padded_spec [OF a] be_val_be_bytes le_val_def split: if_splits)

lemma small_bin2bn: "\<exists>x. BN_bin2bn zeroing_malloc [0, 1, 2] 3 None = Some x" "\<exists>y. BN_le2bn zeroing_malloc [2, 1, 0] 3 None = Some y"
  using BN_bin2bn_spec [of None 3 "[0, 1, 2]" zeroing_malloc] BN_le2bn_spec [of None 3 "[2, 1, 0]" zeroing_malloc] zeroing_malloc_total
  by (auto split: option.splits)

theorem BN_bytes_round_trip_witness:
  "\<exists>x. BN_bn2bin_padded 3 (number False [258]) = Some [0, 1, 2] \<and> BN_bin2bn zeroing_malloc [0, 1, 2] 3 None = Some x \<and> bn_abs x = 258"
proof -
  obtain x y where xy: "BN_bin2bn zeroing_malloc [0, 1, 2] 3 None = Some x" "BN_le2bn zeroing_malloc [2, 1, 0] 3 None = Some y"
    using small_bin2bn by blast
  have "BN_bn2bin_padded 3 (number False [258]) = Some [0, 1, 2]"
    by (simp add: BN_bn2bin_padded_spec number_ok number_val numeral_3_eq_3)
  then show ?thesis using BN_bytes_round_trip [OF number_ok _ xy, of "[258]" False] xy by (simp add: number_val)
qed

text \<open>
  The sign of what is read. \<open>BN_bin2bn\<close> clears the sign of the object it is given except for an empty string, and \<open>BN_le2bn\<close> clears it only for an empty string; so
  the empty string read into a negative number gives a negative zero, which \<open>BN_cmp\<close> does not take for zero.
\<close>

theorem BN_bin2bn_may_leave_negative_zero:
  "(\<exists>z. BN_bin2bn m [] 0 (Some (number True [5])) = Some z \<and> bn_ok z \<and> bn_val z = 0 \<and> bn_neg z \<and> BN_is_zero z \<and> BN_cmp (Some z) (Some BN_init) = - 1) \<and>
   (\<exists>y. BN_le2bn m [7] 1 (Some (number True [5])) = Some y \<and> bn_ok y \<and> bn_val y = - 7)"
proof
  have z: "BN_bin2bn m [] 0 (Some (number True [5])) = Some ((number True [5])\<lparr>bn_width := 0\<rparr>)" by (simp add: BN_bin2bn_def)
  then show "\<exists>z. BN_bin2bn m [] 0 (Some (number True [5])) = Some z \<and> bn_ok z \<and> bn_val z = 0 \<and> bn_neg z \<and> BN_is_zero z \<and> BN_cmp (Some z) (Some BN_init) = - 1"
    by (simp add: number_def bn_ok_def bn_val_def bn_abs_def bn_limbs_def BN_is_zero_def bn_fits_in_words_def BN_cmp_def BN_init_def or_range_zero)
next
  have "BN_le2bn m [7] 1 (Some (number True [5])) \<noteq> None" by (simp add: BN_le2bn_def bn_wexpand_fits number_def BN_BYTES_def Let_def)
  then show "\<exists>y. BN_le2bn m [7] 1 (Some (number True [5])) = Some y \<and> bn_ok y \<and> bn_val y = - 7"
    using BN_le2bn_spec [of "Some (number True [5])" 1 "[7]" m] number_ok [of "[5]" True] number_width [of True "[5]"]
    by (auto simp: bn_val_def le_val_def)
qed

text \<open>
  C36: products and squares. \<open>BN_mul\<close> and \<open>BN_sqr\<close> are multiplication and squaring of integers, whichever of the routines (column-wise for 4 and 8 limbs, Karatsuba
  multiplication on halves from 16 limbs on, rows otherwise) the widths select and whether or not the result is an operand; there is no negative zero, and they fail only
  when the result or a temporary object cannot get its limbs.
\<close>

theorem BN_mul_sqr_exact:
  assumes "bn_ok r" "bn_ok a" "bn_ok b" "ctx_ok ctx" and p: "BN_mul m ctx alias r a b = (ok, p)" and s: "BN_sqr m ctx alias r a = (ok', s)"
  shows "bn_ok p \<and> bn_ok s \<and>
    (if ok then bn_val p = bn_val a * bn_val b \<and> bn_signed p else bn_limbs p = bn_limbs r \<and> mul_full m ctx r (8 * (bn_width a + bn_width b))) \<and>
    (if ok' then bn_val s = (bn_val a)\<^sup>2 \<and> bn_signed s else bn_limbs s = bn_limbs r \<and> mul_full m ctx r (8 * (bn_width a + bn_width a)))"
proof -
  note mul = BN_mul_spec [OF assms(1-4) p] and sqr = BN_sqr_spec [OF assms(1,2,4) s]
  show ?thesis by (intro conjI mul [THEN conjunct1] sqr [THEN conjunct1] mul [THEN conjunct2] sqr [THEN conjunct2])
qed

lemma fresh_ctx: "ctx_ok (\<lambda>i. Some BN_init)" "n < 8388608 \<Longrightarrow> \<not> mul_full zeroing_malloc (\<lambda>i. Some BN_init) BN_init n"
  using bn_init_ok(1) by (simp_all add: ctx_ok_def mul_full_def)

text \<open>Operands of 17 limbs each go through both recursive multiplications.\<close>

theorem BN_mul_sqr_exact_witness:
  "\<exists>p. BN_mul zeroing_malloc (\<lambda>i. Some BN_init) False BN_init (number True (replicate 16 0 @ [1])) (number False (replicate 16 0 @ [3])) = (True, p) \<and>
     bn_val p = - (3 * 2 ^ 2048)"
proof -
  let ?a = "number True (replicate 16 0 @ [1])" and ?b = "number False (replicate 16 0 @ [3])"
  have ok: "bn_ok ?a" "bn_ok ?b" by (simp_all add: number_ok)
  obtain k p where p: "BN_mul zeroing_malloc (\<lambda>i. Some BN_init) False BN_init ?a ?b = (k, p)" by fastforce
  obtain l s where s: "BN_sqr zeroing_malloc (\<lambda>i. Some BN_init) False BN_init ?a = (l, s)" by fastforce
  have "bn_val ?a = - (2 ^ 1024)" "bn_val ?b = 3 * 2 ^ 1024" by (simp_all add: number_val wval_append BN_BASE_def)
  moreover have "8 * (bn_width ?a + bn_width ?b) < 8388608" by (simp add: number_width)
  ultimately show ?thesis using BN_mul_sqr_exact [OF bn_init_ok(1) ok fresh_ctx(1) p s] fresh_ctx(2) p by (cases k) simp_all
qed

text \<open>
  C37: division. \<open>BN_div\<close> always returns, also when the loop that corrects a digit of the quotient is entered. If it succeeds the divisor is not zero, and numerator,
  quotient and remainder satisfy the equation of a division that rounds towards zero, the remainder being smaller than the divisor; both results are without negative
  zero. When the quotient is the numerator and the divisor is negative, the remainder comes with the other sign. It fails only for a zero divisor, without objects
  from the context or when an object cannot get its limbs.
\<close>

theorem BN_div_exact:
  assumes "ctx_ok ctx" "bn_ok quo" "bn_ok rem" "bn_ok n" "bn_ok d"
  shows "\<exists>ok q r. BN_div m ctx alias (Some quo) (Some rem) n d = Some (ok, q, r) \<and>
    (if ok then \<exists>q' r'. q = Some q' \<and> r = Some r' \<and> bn_val d \<noteq> 0 \<and> bn_ok q' \<and> bn_signed q' \<and> bn_ok r' \<and> bn_signed r' \<and>
       bn_val n = bn_val q' * bn_val d + (if alias \<and> bn_neg d then - bn_val r' else bn_val r') \<and>
       \<bar>bn_val r'\<bar> = \<bar>bn_val n\<bar> mod \<bar>bn_val d\<bar> \<and> (bn_val r' \<noteq> 0 \<longrightarrow> sgn (bn_val r') = sgn (bn_val n) * (if alias \<and> bn_neg d then - 1 else 1))
     else bn_val d = 0 \<or> (\<exists>i. ctx i = None) \<or>
       (\<exists>x y z. ctx 0 = Some x \<and> ctx 1 = Some y \<and> ctx 2 = Some z \<and>
          (cannot_grow m [x, y, z, quo, rem] (bn_width n + bn_width d + 4) \<or> (\<exists>w. ctx 3 = Some w \<and> cannot_grow m [x, y, z, w, rem] (bn_width n + bn_width d + 4)))))"
proof -
  note spec = BN_div_spec [of ctx "Some quo" "Some rem" n d m "alias", unfolded option.case append.simps option.pred_inject, OF assms]
  from spec obtain ok q r where e: "BN_div m ctx alias (Some quo) (Some rem) n d = Some (ok, q, r)" and
    s: "if ok then bn_abs d \<noteq> 0 \<and> rel_option (\<lambda>_. div_quotient n d) (Some quo) q \<and> rel_option (\<lambda>_. div_remainder alias n d) (Some rem) r
      else bn_abs d = 0 \<or> (\<exists>i. ctx i = None) \<or>
       (\<exists>x y z w. ctx 0 = Some x \<and> ctx 1 = Some y \<and> ctx 2 = Some z \<and> (ctx 3 = Some w \<or> Some quo = Some w) \<and> cannot_grow m [x, y, z, w, rem] (bn_width n + bn_width d + 4))" by blast
  show ?thesis
  proof (cases ok)
    case True
    then obtain q' r' where o: "q = Some q'" "r = Some r'" and d: "div_quotient n d q'" "div_remainder alias n d r'" "bn_abs d \<noteq> 0"
      using s by (auto simp: option_rel_Some1)
    have "bn_ok q' \<and> bn_signed q' \<and> bn_ok r' \<and> bn_signed r'" using d(1,2) by (simp add: div_quotient_def div_remainder_def)
    then show ?thesis using True d(3) div_results_val [OF d(1,2)] div_remainder_sign [OF d(2)]
      by - (rule exI [of _ ok], rule exI [of _ q], rule exI [of _ r], rule conjI, rule e, simp add: o bn_val_zero)
  next
    case False
    then show ?thesis using e s by (auto simp: bn_val_zero)
  qed
qed

text \<open>Minus 7 by 2.\<close>

theorem BN_div_exact_witness:
  "\<exists>q r. BN_div zeroing_malloc (\<lambda>i. Some BN_init) False (Some BN_init) (Some BN_init) (number True [7]) (number False [2]) = Some (True, Some q, Some r) \<and>
     bn_val q * 2 + bn_val r = - 7 \<and> \<bar>bn_val r\<bar> = 1"
proof -
  have "\<not> cannot_grow zeroing_malloc [BN_init, BN_init, BN_init, BN_init, BN_init] (bn_width (number True [7]) + bn_width (number False [2]) + 4)"
    by (simp add: cannot_grow_def number_width bn_init_ok(4) zeroing_malloc_total)
  moreover obtain ok q r where
    "BN_div zeroing_malloc (\<lambda>i. Some BN_init) False (Some BN_init) (Some BN_init) (number True [7]) (number False [2]) = Some (ok, q, r)" and
    "if ok then \<exists>q' r'. q = Some q' \<and> r = Some r' \<and> - 7 = bn_val q' * 2 + bn_val r' \<and> \<bar>bn_val r'\<bar> = 1
     else cannot_grow zeroing_malloc [BN_init, BN_init, BN_init, BN_init, BN_init] (bn_width (number True [7]) + bn_width (number False [2]) + 4)"
    using BN_div_exact [OF fresh_ctx(1) bn_init_ok(1) bn_init_ok(1), of "number True [7]" "number False [2]" zeroing_malloc False]
    by (auto simp: number_ok number_val split: if_splits)
  ultimately show ?thesis by (cases ok) auto
qed

text \<open>
  Dividing in place. When the quotient is the numerator, \<open>BN_div\<close> reads the sign of the numerator for the remainder after it has stored the sign of the quotient:
  - 7 divided by - 2 in place leaves the remainder 1 instead of - 1.
\<close>

theorem BN_div_in_place_remainder_sign:
  "\<exists>q r. BN_div zeroing_malloc (\<lambda>i. Some BN_init) True (Some (number True [7])) (Some BN_init) (number True [7]) (number True [2]) = Some (True, Some q, Some r) \<and>
     bn_val q = 3 \<and> bn_val r = 1"
proof -
  let ?n = "number True [7]" and ?d = "number True [2]"
  have pre: "pred_option bn_ok (Some ?n)" "pred_option bn_ok (Some BN_init)" "bn_ok ?n" "bn_ok ?d" by (simp_all add: bn_init_ok(1) number_ok)
  obtain ok q r where e: "BN_div zeroing_malloc (\<lambda>i. Some BN_init) True (Some ?n) (Some BN_init) ?n ?d = Some (ok, q, r)"
    and s: "if ok then bn_abs ?d \<noteq> 0 \<and> rel_option (\<lambda>_. div_quotient ?n ?d) (Some ?n) q \<and> rel_option (\<lambda>_. div_remainder True ?n ?d) (Some BN_init) r
      else bn_abs ?d = 0 \<or> (\<exists>i :: nat. Some BN_init = None) \<or>
        (\<exists>a b c d. Some BN_init = Some a \<and> Some BN_init = Some b \<and> Some BN_init = Some c \<and> (Some BN_init = Some d \<or> Some ?n = Some d) \<and>
          cannot_grow zeroing_malloc ([a, b, c, d] @ [BN_init]) (bn_width ?n + bn_width ?d + 4))"
    using BN_div_spec [OF fresh_ctx(1) pre, of zeroing_malloc True, unfolded option.case] by blast
  have "\<not> cannot_grow zeroing_malloc [BN_init, BN_init, BN_init, w, BN_init] (bn_width ?n + bn_width ?d + 4)" if "Some BN_init = Some w \<or> Some ?n = Some w" for w
    using that by (auto simp: cannot_grow_def zeroing_malloc_total bn_static_def BN_init_def number_def BN_FLG_MALLOCED_def BN_FLG_STATIC_DATA_def)
  then have ok using s by (cases ok) (auto simp: number_val)
  then obtain q' r' where "q = Some q'" "r = Some r'" "div_quotient (number True [7]) (number True [2]) q'" "div_remainder True (number True [7]) (number True [2]) r'"
    using s by (auto simp: option_rel_Some1)
  then show ?thesis using e \<open>ok\<close> div_quotient_val [of "number True [7]" "number True [2]" q'] div_remainder_val [of True "number True [7]" "number True [2]" r']
    by (simp add: number_val number_def bn_abs_def bn_limbs_def)
qed

text \<open>
  C38: modular arithmetic. With any modulus but zero, \<open>BN_nnmod\<close>, \<open>BN_mod_add\<close>, \<open>BN_mod_sub\<close>, \<open>BN_mod_mul\<close>, \<open>BN_mod_sqr\<close>, \<open>BN_mod_lshift\<close> and \<open>BN_mod_lshift1\<close>
  return, and when they succeed give the residue of the result that is not negative and below the absolute value of the modulus; they fail only for the
  modulus zero or when an object is not there or does not get its limbs.
\<close>

theorem BN_mod_exact:
  assumes c: "\<And>k. ctx_ok (ctx k)" and ok: "bn_ok r" "bn_ok a" "bn_ok b" "bn_ok md" and same: "same \<longrightarrow> b = a"
  shows "mod_outcome (lacking m (ctx 0) [r] (bn_width a + bn_width md + 4)) (bn_val a) md (BN_nnmod m (ctx 0) r a md) \<and>
    mod_outcome (lacking m (ctx 0) [r] (max (bn_width a) (bn_width b) + 1 + bn_width md + 4)) (bn_val a + bn_val b) md (BN_mod_add m (ctx 0) r a b md) \<and>
    mod_outcome (lacking m (ctx 0) [r] (max (bn_width a) (bn_width b) + 1 + bn_width md + 4)) (bn_val a - bn_val b) md (BN_mod_sub m (ctx 0) r a b md) \<and>
    mod_outcome (lacking_calls m ctx [r] (8 * (bn_width a + bn_width b) + bn_width md + 4)) (bn_val a * bn_val b) md (BN_mod_mul m ctx same r a b md) \<and>
    mod_outcome (lacking_calls m ctx [r] (16 * bn_width a + bn_width md + 4)) ((bn_val a)\<^sup>2) md (BN_mod_sqr m ctx alias r a md) \<and>
    mod_outcome (lacking_calls m ctx [r] (bn_width a + bn_width md + 4)) (bn_val a * 2 ^ nat n) md (BN_mod_lshift m ctx r a n md) \<and>
    mod_outcome (lacking m (ctx 0) [r] (bn_width a + 1 + bn_width md + 4)) (2 * bn_val a) md (BN_mod_lshift1 m (ctx 0) r a md)"
  by (intro conjI BN_nnmod_outcome [OF c ok(1,2,4) refl order.refl] BN_mod_add_spec [OF c ok] BN_mod_sub_spec [OF c ok] BN_mod_mul_spec [OF c ok same]
      BN_mod_sqr_spec [OF c ok(1,2,4)] BN_mod_lshift_spec [OF c ok(1,2,4)] BN_mod_lshift1_spec [OF c ok(1,2,4)])

lemma enough_memory: "n < 8388608 \<Longrightarrow> \<not> lacking zeroing_malloc (\<lambda>i. Some BN_init) [BN_init] n"
  using bn_init_ok(4) by (simp add: lacking_def cannot_grow_def zeroing_malloc_total)

text \<open>Minus 7 times 3 modulo 5.\<close>

theorem BN_mod_exact_witness:
  "\<exists>p. BN_mod_mul zeroing_malloc (\<lambda>k i. Some BN_init) False BN_init (number True [7]) (number False [3]) (number False [5]) = Some (True, p) \<and> bn_val p = 4"
proof -
  let ?a = "number True [7]" and ?b = "number False [3]" and ?d = "number False [5]"
  have ok: "bn_ok ?a" "bn_ok ?b" "bn_ok ?d" by (simp_all add: number_ok)
  have "mod_outcome (lacking_calls zeroing_malloc (\<lambda>k i. Some BN_init) [BN_init] (8 * (bn_width ?a + bn_width ?b) + bn_width ?d + 4)) (bn_val ?a * bn_val ?b) ?d
      (BN_mod_mul zeroing_malloc (\<lambda>k i. Some BN_init) False BN_init ?a ?b ?d)"
    using BN_mod_exact [of "\<lambda>k i. Some BN_init" BN_init ?a ?b ?d False zeroing_malloc] fresh_ctx(1) bn_init_ok(1) ok by blast
  moreover have "\<not> lacking_calls zeroing_malloc (\<lambda>k i. Some BN_init) [BN_init] (8 * (bn_width ?a + bn_width ?b) + bn_width ?d + 4)"
    by (simp add: lacking_calls_def enough_memory number_width)
  ultimately show ?thesis by (auto simp: mod_outcome_def number_val split: if_splits)
qed

text \<open>
  C39: remainders by words and powers of two. \<open>BN_mod_word\<close> and \<open>BN_div_word\<close> divide by a word, the latter in place and rounding towards zero; its value for an
  error is no remainder. \<open>bn_mod_u16_consttime\<close>, which multiplies with a rounded-up reciprocal instead of dividing, gives the remainder for every 16-bit divisor (and 0
  for the divisor 0). \<open>BN_mod_pow2\<close> keeps the sign of its operand, \<open>BN_nnmod_pow2\<close> gives the residue that is not negative.
\<close>

theorem BN_remainders_exact:
  assumes a: "bn_ok a" and r: "bn_ok r" and dw: "BN_div_word m a w = (ret, a')" and p: "BN_mod_pow2 m r a e = (ok, r1)" and n: "BN_nnmod_pow2 m r a e = (ok', r2)"
  shows "BN_mod_word a w = (if w = 0 then BN_MASK2 else word_of_nat (bn_abs a mod unat w)) \<and>
    (if ret = BN_MASK2 then w = 0 \<or> bn_full m a (bn_width a + 1)
     else bn_ok a' \<and> bn_val a' = sgn (bn_val a) * (\<bar>bn_val a\<bar> div int (unat w)) \<and> unat ret = bn_abs a mod unat w \<and> (bn_signed a \<longrightarrow> bn_signed a')) \<and>
    unat (bn_mod_u16_consttime a d) = (if d = 0 then 0 else bn_abs a mod unat d) \<and>
    (if ok then bn_ok r1 \<and> bn_val r1 = sgn (bn_val a) * (\<bar>bn_val a\<bar> mod 2 ^ e) \<and> (bn_signed a \<longrightarrow> bn_signed r1) else bn_full m r (1 + (e - 1) div 64)) \<and>
    (if ok' then bn_ok r2 \<and> bn_val r2 = bn_val a mod 2 ^ e \<and> (bn_signed a \<longrightarrow> bn_signed r2) else cannot_grow m [r] (3 + (e - 1) div 64))"
proof -
  have "if ok then bn_ok r1 \<and> bn_val r1 = sgn (bn_val a) * (\<bar>bn_val a\<bar> mod 2 ^ e) \<and> (bn_signed a \<longrightarrow> bn_signed r1) else bn_full m r (1 + (e - 1) div 64)"
    using BN_mod_pow2_spec [OF r a p] by (cases ok) simp_all
  then show ?thesis by (intro conjI BN_mod_word_spec [OF a] BN_div_word_spec [OF a dw] bn_mod_u16_consttime_spec [OF a] BN_nnmod_pow2_spec [OF r a n])
qed

text \<open>Minus \<open>2^64 + 5\<close> by 7, and modulo 64.\<close>

theorem BN_remainders_exact_witness:
  "BN_mod_word (number True [5, 1]) 7 = 0 \<and> unat (bn_mod_u16_consttime (number True [5, 1]) 7) = 0 \<and>
   (\<exists>q. BN_nnmod_pow2 zeroing_malloc BN_init (number True [5, 1]) 6 = (True, q) \<and> bn_val q = 59)"
proof -
  let ?a = "number True [5, 1]"
  obtain ret a' where d: "BN_div_word zeroing_malloc ?a 7 = (ret, a')" by fastforce
  obtain ok r1 where p: "BN_mod_pow2 zeroing_malloc BN_init ?a 6 = (ok, r1)" by fastforce
  obtain ok' r2 where n: "BN_nnmod_pow2 zeroing_malloc BN_init ?a 6 = (ok', r2)" by fastforce
  have a: "bn_ok ?a" by (simp add: number_ok)
  have v: "bn_abs ?a = 18446744073709551621" "bn_val ?a = - 18446744073709551621" by (simp_all add: number_val BN_BASE_def)
  have "\<not> cannot_grow zeroing_malloc [BN_init] (3 + (6 - 1) div 64)" using bn_init_ok(4) by (simp add: cannot_grow_def zeroing_malloc_total)
  with BN_remainders_exact [OF a bn_init_ok(1) d p n, of 7] show ?thesis unfolding v using n by (auto split: if_splits)
qed

text \<open>
  C40: division and modular sums in constant time. \<open>bn_div_consttime\<close> gives quotient and remainder of two numbers that are not negative, with the widths of numerator and
  divisor; \<open>bn_mod_add_consttime\<close> and \<open>bn_mod_sub_consttime\<close> give sum and difference of reduced operands as a reduced number of the width of the modulus. They
  fail only for operands that are excluded, or when an object is not there or does not get its limbs.
\<close>

theorem bn_consttime_exact:
  assumes c: "ctx_ok ctx" and ok: "bn_ok quo" "bn_ok rem" "bn_ok r" "bn_ok a" "bn_ok b" "bn_ok md" and less: "bn_abs a < bn_abs md" "bn_abs b < bn_abs md"
    and d: "bn_div_consttime m ctx q_alias r_alias (Some quo) (Some rem) a b = (k0, q', r')"
    and s: "bn_mod_add_consttime m ctx r a b md = (k1, s)" and t: "bn_mod_sub_consttime m ctx r a b md = (k2, t)"
  shows "(if k0 then \<exists>x y. q' = Some x \<and> r' = Some y \<and> bn_ok x \<and> bn_ok y \<and> bn_val b \<noteq> 0 \<and> bn_val x = bn_val a div bn_val b \<and> bn_val y = bn_val a mod bn_val b \<and>
        bn_width x = bn_width a \<and> bn_width y = bn_width b
      else bn_neg a \<or> bn_neg b \<or> bn_val b = 0 \<or> lacking m ctx [quo, rem] (max (bn_width a) (bn_width b))) \<and>
    (if k1 then bn_ok s \<and> bn_val s = (int (bn_abs a) + int (bn_abs b)) mod int (bn_abs md) \<and> \<not> bn_neg s \<and> bn_width s = bn_width md else s = r \<and> lacking m ctx [r] (bn_width md)) \<and>
    (if k2 then bn_ok t \<and> bn_val t = (int (bn_abs a) - int (bn_abs b)) mod int (bn_abs md) \<and> \<not> bn_neg t \<and> bn_width t = bn_width md else t = r \<and> lacking m ctx [r] (bn_width md))"
proof (intro conjI)
  have o: "pred_option bn_ok (Some quo)" "pred_option bn_ok (Some rem)" using ok by simp_all
  have xs: "set_option (Some quo) \<union> set_option (Some rem) \<subseteq> set [quo, rem]" by simp
  note D = bn_div_consttime_spec [OF c o ok(4,5) xs d]
  show "if k0 then \<exists>x y. q' = Some x \<and> r' = Some y \<and> bn_ok x \<and> bn_ok y \<and> bn_val b \<noteq> 0 \<and> bn_val x = bn_val a div bn_val b \<and> bn_val y = bn_val a mod bn_val b \<and>
        bn_width x = bn_width a \<and> bn_width y = bn_width b
      else bn_neg a \<or> bn_neg b \<or> bn_val b = 0 \<or> lacking m ctx [quo, rem] (max (bn_width a) (bn_width b))"
  proof (cases k0)
    case True
    then have "\<not> bn_neg a" "\<not> bn_neg b" using D by simp_all
    then have "bn_val a = int (bn_abs a)" "bn_val b = int (bn_abs b)" by (simp_all add: bn_val_def)
    then show ?thesis using D True by (auto simp: option_rel_Some1 zdiv_int zmod_int)
  qed (use D in \<open>simp add: bn_val_zero\<close>)
  show "if k1 then bn_ok s \<and> bn_val s = (int (bn_abs a) + int (bn_abs b)) mod int (bn_abs md) \<and> \<not> bn_neg s \<and> bn_width s = bn_width md else s = r \<and> lacking m ctx [r] (bn_width md)"
    using bn_mod_add_consttime_spec [OF c ok(3-6) less s] by (cases k1) (simp_all add: zmod_int)
  show "if k2 then bn_ok t \<and> bn_val t = (int (bn_abs a) - int (bn_abs b)) mod int (bn_abs md) \<and> \<not> bn_neg t \<and> bn_width t = bn_width md else t = r \<and> lacking m ctx [r] (bn_width md)"
    using bn_mod_sub_consttime_spec [OF c ok(3-6) less t] by (cases k2) simp_all
qed

text \<open>17 by 5, and their sum modulo 19.\<close>

theorem bn_consttime_exact_witness:
  "\<exists>q r s. bn_div_consttime zeroing_malloc (\<lambda>i. Some BN_init) False False (Some BN_init) (Some BN_init) (number False [17]) (number False [5]) = (True, Some q, Some r) \<and>
     bn_val q = 3 \<and> bn_val r = 2 \<and>
     bn_mod_add_consttime zeroing_malloc (\<lambda>i. Some BN_init) BN_init (number False [17]) (number False [5]) (number False [19]) = (True, s) \<and> bn_val s = 3"
proof -
  let ?a = "number False [17]" and ?b = "number False [5]" and ?d = "number False [19]"
  have ok: "bn_ok ?a" "bn_ok ?b" "bn_ok ?d" by (simp_all add: number_ok)
  have less: "bn_abs ?a < bn_abs ?d" "bn_abs ?b < bn_abs ?d" by (simp_all add: number_val)
  obtain k0 q r where d: "bn_div_consttime zeroing_malloc (\<lambda>i. Some BN_init) False False (Some BN_init) (Some BN_init) ?a ?b = (k0, q, r)" by (metis prod_cases3)
  obtain k1 s where s: "bn_mod_add_consttime zeroing_malloc (\<lambda>i. Some BN_init) BN_init ?a ?b ?d = (k1, s)" by fastforce
  obtain k2 t where t: "bn_mod_sub_consttime zeroing_malloc (\<lambda>i. Some BN_init) BN_init ?a ?b ?d = (k2, t)" by fastforce
  have no: "\<not> lacking zeroing_malloc (\<lambda>i. Some BN_init) [BN_init, BN_init] (max (bn_width ?a) (bn_width ?b))"
    "\<not> lacking zeroing_malloc (\<lambda>i. Some BN_init) [BN_init] (bn_width ?d)"
    using bn_init_ok(4) by (simp_all add: lacking_def cannot_grow_def zeroing_malloc_total number_width)
  have pos: "\<not> bn_neg ?a" "\<not> bn_neg ?b" by (simp_all add: number_def)
  have val: "bn_val ?a = 17" "bn_val ?b = 5" by (simp_all add: number_val)
  note E = bn_consttime_exact [OF fresh_ctx(1) bn_init_ok(1) bn_init_ok(1) bn_init_ok(1) ok less d s t]
  have k: k0 k1 using E no pos val(2) by (auto split: if_splits)
  then obtain x y where "q = Some x" "r = Some y" "bn_val x = bn_val ?a div bn_val ?b" "bn_val y = bn_val ?a mod bn_val ?b" using E by auto
  moreover have "bn_val s = 3" using E k(2) by (simp add: number_val)
  ultimately show ?thesis using d s k by (simp add: number_val)
qed

end
